(* ===== verification/Prelude.thy ===== *)
theory Prelude
  imports Main "HOL-Library.Word" "HOL-Library.Monad_Syntax" "HOL-Library.Sublist"
begin

unbundle bit_operations_syntax

text \<open>
  What every component shares: the faults of the C abstract machine, the failing
  computations the model is written in, counted loops, and the integer conversions of C.

  \<^item> \<open>'a result\<close> is \<open>fault + 'a\<close>. A fault is behaviour that C leaves undefined (a read
    past the end of an allocation, signed overflow, freeing a pointer that malloc did not
    return) or a call of \<open>abort\<close>. \<open>rbind\<close> sequences such computations.
  \<^item> \<open>'a option\<close> is used where only one kind of fault can occur (an access outside an
    allocation): \<open>None\<close> is the fault. \<open>ok m Q\<close> says that \<open>m\<close> does not fault and that its
    result satisfies \<open>Q\<close>; it is the weakest precondition the component proofs use.
  \<^item> \<open>ofold f xs s\<close> runs the body \<open>f\<close> of a counted loop for the values \<open>xs\<close> of its index.
\<close>

named_theorems wp_intros \<open>total-correctness rules for the operations of the model\<close>

section \<open>Faults and results\<close>

datatype fault =
    Overrun            \<comment> \<open>access outside an allocated object\<close>
  | SignedOverflow     \<comment> \<open>signed integer overflow\<close>
  | InvalidFree        \<comment> \<open>free of a pointer malloc did not return\<close>
  | Uninitialised      \<comment> \<open>use of an indeterminate value\<close>
  | NullDeref          \<comment> \<open>access through a null pointer\<close>
  | Aborted string     \<comment> \<open>abort after a message on stderr\<close>

type_synonym 'a result = "fault + 'a"

definition rbind :: "'a result \<Rightarrow> ('a \<Rightarrow> 'b result) \<Rightarrow> 'b result" where
  "rbind m f = (case m of Inl e \<Rightarrow> Inl e | Inr x \<Rightarrow> f x)"

lemma rbind_Inr [simp]: "rbind (Inr x) f = f x"
  by (simp add: rbind_def)

lemma rbind_Inl [simp]: "rbind (Inl e) f = Inl e"
  by (simp add: rbind_def)

lemma rbind_eq_Inr_iff: "rbind m f = Inr y \<longleftrightarrow> (\<exists>x. m = Inr x \<and> f x = Inr y)"
  by (cases m) auto

lemma rbind_eq_InrE [elim]:
  assumes "rbind m f = Inr y"
  obtains x where "m = Inr x" and "f x = Inr y"
  using assms by (auto simp: rbind_eq_Inr_iff)

lemma rbind_cong [fundef_cong]:
  assumes "m = m'" and "\<And>x. m' = Inr x \<Longrightarrow> f x = f' x"
  shows "rbind m f = rbind m' f'"
  using assms by (cases m') auto

section \<open>Total correctness of option computations\<close>

definition ok :: "'a option \<Rightarrow> ('a \<Rightarrow> bool) \<Rightarrow> bool" where
  "ok m Q \<longleftrightarrow> (case m of None \<Rightarrow> False | Some x \<Rightarrow> Q x)"

lemma ok_Some [simp]: "ok (Some x) Q \<longleftrightarrow> Q x"
  by (simp add: ok_def)

lemma ok_None [simp]: "\<not> ok None Q"
  by (simp add: ok_def)

lemma ok_bind [simp]: "ok (Option.bind m f) Q \<longleftrightarrow> ok m (\<lambda>x. ok (f x) Q)"
  by (cases m) auto

lemma ok_if [simp]: "ok (if b then m else n) Q \<longleftrightarrow> (b \<longrightarrow> ok m Q) \<and> (\<not> b \<longrightarrow> ok n Q)"
  by simp

lemma ok_split [simp]: "ok (case p of (a, b) \<Rightarrow> f a b) Q \<longleftrightarrow> (case p of (a, b) \<Rightarrow> ok (f a b) Q)"
  by (cases p) auto

lemma ok_mono: "ok m P \<Longrightarrow> (\<And>x. P x \<Longrightarrow> Q x) \<Longrightarrow> ok m Q"
  by (cases m) auto

lemma ok_conj: "ok m P \<Longrightarrow> ok m Q \<Longrightarrow> ok m (\<lambda>x. P x \<and> Q x)"
  by (cases m) auto

lemma okE:
  assumes "ok m Q"
  obtains x where "m = Some x" and "Q x"
  using assms by (cases m) auto

lemma ok_conjE:
  assumes "ok m (\<lambda>x. P x \<and> Q x)"
  obtains x where "m = Some x" and "P x" and "Q x"
  using assms by (cases m) auto

lemma ok_pairE:
  assumes "ok m (\<lambda>(r, x). P r x)"
  obtains r x where "m = Some (r, x)" and "P r x"
  using assms by (cases m) auto

lemma ok_pair_conjE:
  assumes "ok m (\<lambda>(r, x). P r x \<and> Q r x)"
  obtains r x where "m = Some (r, x)" and "P r x" and "Q r x"
  using assms by (cases m) auto

lemma ok_bindI: "ok m P \<Longrightarrow> (\<And>x. P x \<Longrightarrow> ok (f x) Q) \<Longrightarrow> ok (Option.bind m f) Q"
  by (auto elim!: ok_mono)

lemma ok_SomeI: "m = Some x \<Longrightarrow> Q x \<Longrightarrow> ok m Q"
  by simp

lemma ok_iff: "ok m Q \<longleftrightarrow> (\<exists>x. m = Some x \<and> Q x)"
  by (cases m) auto

section \<open>Counted loops\<close>

primrec ofold :: "('a \<Rightarrow> 's \<Rightarrow> 's option) \<Rightarrow> 'a list \<Rightarrow> 's \<Rightarrow> 's option" where
  "ofold f [] s = Some s"
| "ofold f (x # xs) s = Option.bind (f x s) (ofold f xs)"

lemma ok_ofold:
  assumes "I s" and "\<And>x s. x \<in> set xs \<Longrightarrow> I s \<Longrightarrow> ok (f x s) I"
  shows "ok (ofold f xs s) I"
  using assms
proof (induction xs arbitrary: s)
  case Nil
  then show ?case by simp
next
  case (Cons x xs)
  have "ok (f x s) I" using Cons.prems by simp
  then show ?case using Cons.IH Cons.prems(2)
    by (auto intro!: ok_mono [of "f x s" I])
qed

text \<open>The same with an invariant that speaks of the indices already done.\<close>

lemma ok_ofold_upto:
  assumes "I [] s"
    and "\<And>ys x s. prefix (ys @ [x]) xs \<Longrightarrow> I ys s \<Longrightarrow> ok (f x s) (I (ys @ [x]))"
  shows "ok (ofold f xs s) (I xs)"
proof -
  have "ok (ofold f zs s) (I (ys @ zs))"
    if "ys @ zs = xs" and "I ys s" for ys zs s
    using that
  proof (induction zs arbitrary: ys s)
    case Nil
    then show ?case by simp
  next
    case (Cons x zs)
    have "prefix (ys @ [x]) xs" using Cons.prems(1) by (auto simp: prefix_def)
    then have "ok (f x s) (I (ys @ [x]))" using assms(2) Cons.prems(2) by blast
    then show ?case using Cons.IH [of "ys @ [x]"] Cons.prems(1)
      by (auto intro!: ok_mono [of "f x s" "I (ys @ [x])"])
  qed
  then show ?thesis using assms(1) by (metis append_Nil)
qed

section \<open>C integers\<close>

text \<open>
  \<open>int\<close> is 32 bits and \<open>short\<close> 16 bits wide; \<open>int64_t\<close> (\<open>etaint\<close>) and \<open>long\<close> are 64 bits.
  A value is an unbounded \<open>int\<close>; a conversion to a narrower signed type keeps the low bits,
  as gcc defines it. Arithmetic on a signed type that leaves its range is a fault, which
  the operations test for with \<open>in_int\<close> and \<open>in_i64\<close>.
\<close>

definition to_short :: "int \<Rightarrow> int" where
  "to_short x = signed_take_bit 15 x"

definition to_int :: "int \<Rightarrow> int" where
  "to_int x = signed_take_bit 31 x"

definition in_int :: "int \<Rightarrow> bool" where
  "in_int x \<longleftrightarrow> - (2 ^ 31) \<le> x \<and> x < 2 ^ 31"

definition in_i64 :: "int \<Rightarrow> bool" where
  "in_i64 x \<longleftrightarrow> - (2 ^ 63) \<le> x \<and> x < 2 ^ 63"

lemma to_short_id: "- 32768 \<le> x \<Longrightarrow> x < 32768 \<Longrightarrow> to_short x = x"
  by (simp add: to_short_def signed_take_bit_int_eq_self)

lemma to_short_range: "- 32768 \<le> to_short x \<and> to_short x < 32768"
  using signed_take_bit_int_greater_eq_minus_exp [of 15 x] signed_take_bit_int_less_exp [of 15 x]
  by (simp add: to_short_def)

lemma to_int_id: "in_int x \<Longrightarrow> to_int x = x"
  by (simp add: to_int_def in_int_def signed_take_bit_int_eq_self)

text \<open>C division and remainder truncate towards zero.\<close>

definition c_div :: "int \<Rightarrow> int \<Rightarrow> int" where
  "c_div a b = sgn a * sgn b * (\<bar>a\<bar> div \<bar>b\<bar>)"

definition c_rem :: "int \<Rightarrow> int \<Rightarrow> int" where
  "c_rem a b = a - b * c_div a b"

lemma c_rem_nonneg: "0 \<le> a \<Longrightarrow> 0 < b \<Longrightarrow> c_rem a b = a mod b"
  by (cases "a = 0") (simp_all add: c_rem_def c_div_def minus_mult_div_eq_mod)

section \<open>Lists\<close>

lemma nth_append_cons [simp]: "length xs = n \<Longrightarrow> (xs @ y # ys) ! n = y"
  by (auto simp: nth_append)

lemma drop_eq_Cons_nth: "drop i xs = y # ys \<Longrightarrow> i < length xs \<and> xs ! i = y \<and> drop (Suc i) xs = ys"
  by (metis drop_eq_Nil2 linorder_not_less list.distinct(1) list.inject Cons_nth_drop_Suc)

section \<open>Return codes\<close>

text \<open>The codes that the functions of curses return.\<close>

definition ERR :: int where "ERR = - 1"
definition OK :: int where "OK = 0"

lemma ERR_OK [simp]: "ERR \<noteq> OK" "OK \<noteq> ERR"
  by (simp_all add: ERR_def OK_def)

end
