(* ===== verification/Demangle.thy ===== *)
theory Demangle
  imports Decimal
begin

text \<open>
  The symbol filter \<open>etafilt\<close> (\<open>runtime/demangle/demangle.c\<close>), which reads a text such as a
  linker's error messages and replaces each mangled Eta symbol by a readable signature.

  A C string is its allocation: the list of its bytes with the terminating NUL. A position
  is an index into it, and a read outside the allocation is the fault \<open>Overrun\<close>; \<open>rd\<close> is
  every \<open>*p\<close> and \<open>p[i]\<close> of the code. A heap-allocated result string is the HOL string of
  its characters; the writes into a buffer whose size the code computes beforehand
  (\<open>tryDemangleName\<close>) test that size. \<open>malloc\<close> and \<open>strdup\<close> are taken to succeed. The buffer
  of \<open>getline\<close> may be larger than the line and its NUL; what lies behind them is indeterminate, so
  reading it is a fault here as well.

  A routine that returns a name or null and moves \<open>*posPtr\<close> on success returns
  \<open>Inr (Some (name, pos'))\<close> or \<open>Inr None\<close>.
\<close>

section \<open>Characters and reads\<close>

definition NUL :: char where
  "NUL = CHR 0x00"

text \<open>
  The program never calls \<open>setlocale\<close>, so \<open>isalpha\<close> is that of the C locale. For the negative values
  of a signed \<open>char\<close>, for which the C standard leaves it undefined, it is the table of glibc: they
  are no letters.
\<close>

definition isalpha :: "char \<Rightarrow> bool" where
  "isalpha c \<longleftrightarrow> (let n = of_char c :: nat in 65 \<le> n \<and> n \<le> 90 \<or> 97 \<le> n \<and> n \<le> 122)"

definition rd :: "string \<Rightarrow> nat \<Rightarrow> char result" where
  "rd buf i = (if i < length buf then Inr (buf ! i) else Inl Overrun)"

section \<open>Names\<close>

text \<open>\<open>stringCombine(s1, s2)\<close>; a null \<open>s1\<close> is \<open>None\<close>.\<close>

definition stringCombine :: "string option \<Rightarrow> string \<Rightarrow> string" where
  "stringCombine s1 s2 = (case s1 of Some s \<Rightarrow> s @ s2 | None \<Rightarrow> s2)"

text \<open>The first pass of \<open>tryDemangleName\<close>: where the name that starts at \<open>start\<close> ends.\<close>

function name_end :: "string \<Rightarrow> nat \<Rightarrow> nat \<Rightarrow> nat result" where
  "name_end buf start pos =
     (case rd buf pos of
        Inl e \<Rightarrow> Inl e
      | Inr c \<Rightarrow>
          if c = NUL then Inr pos
          else if isalpha c then name_end buf start (pos + 1)
          else if pos = start then Inr pos
          else if isdigit c then name_end buf start (pos + 1)
          else if c = CHR ''_'' then
            (case rd buf (pos + 1) of
               Inl e \<Rightarrow> Inl e
             | Inr c1 \<Rightarrow> if c1 = CHR ''_'' then name_end buf start (pos + 2) else Inr pos)
          else Inr pos)"
  by pat_completeness auto
termination
  by (relation "measure (\<lambda>(buf, start, pos). length buf - pos)")
     (auto simp: rd_def split: if_splits)

text \<open>
  The second pass, which copies down unescaping. \<open>cap\<close> is the size of the buffer \<open>out\<close>
  points to and \<open>out\<close> what has been written to it.
\<close>

function copy_name :: "string \<Rightarrow> nat \<Rightarrow> nat \<Rightarrow> nat \<Rightarrow> string \<Rightarrow> string result" where
  "copy_name buf pos endPos cap out =
     (if pos < endPos then
        (case rd buf pos of
           Inl e \<Rightarrow> Inl e
         | Inr c \<Rightarrow>
             if length out < cap
             then copy_name buf (if c = CHR ''_'' then pos + 2 else pos + 1) endPos cap (out @ [c])
             else Inl Overrun)
      else if length out < cap then Inr out else Inl Overrun)"
  by pat_completeness auto
termination
  by (relation "measure (\<lambda>(buf, pos, endPos, cap, out). endPos - pos)") auto

definition tryDemangleName :: "string \<Rightarrow> nat \<Rightarrow> (string \<times> nat) option result" where
  "tryDemangleName buf startPos =
     rbind (name_end buf startPos startPos) (\<lambda>pos.
       if pos = startPos then Inr None
       else rbind (copy_name buf startPos pos (pos - startPos + 1) [])
              (\<lambda>out. Inr (Some (out, pos))))"

section \<open>Numbers and types\<close>

text \<open>\<open>tryDemangleNumber\<close>: the number read and the position after it, which is always stored.\<close>

function number_loop :: "string \<Rightarrow> nat \<Rightarrow> int \<Rightarrow> (int \<times> nat) result" where
  "number_loop buf pos num =
     (case rd buf pos of
        Inl e \<Rightarrow> Inl e
      | Inr c \<Rightarrow>
          if isdigit c then
            (let num' = 10 * num + digit_val c in
             if in_int (10 * num) \<and> in_int num' then number_loop buf (pos + 1) num'
             else Inl SignedOverflow)
          else Inr (num, pos))"
  by pat_completeness auto
termination
  by (relation "measure (\<lambda>(buf, pos, num). length buf - pos)")
     (auto simp: rd_def split: if_splits)

definition tryDemangleNumber :: "string \<Rightarrow> nat \<Rightarrow> (int \<times> nat) result" where
  "tryDemangleNumber buf pos = number_loop buf pos 0"

text \<open>
  The loop that copies a record's name: \<open>length\<close> characters, where \<open>__\<close> stands for one
  underscore. Nothing in it looks for the end of the string.
\<close>

fun record_loop :: "string \<Rightarrow> nat \<Rightarrow> nat \<Rightarrow> string \<Rightarrow> (string \<times> nat) option result" where
  "record_loop buf pos 0 str = Inr (Some (str, pos))"
| "record_loop buf pos (Suc n) str =
     (case rd buf pos of
        Inl e \<Rightarrow> Inl e
      | Inr c \<Rightarrow>
          if c = CHR ''_'' then
            (case rd buf (pos + 1) of
               Inl e \<Rightarrow> Inl e
             | Inr c1 \<Rightarrow>
                 if c1 \<noteq> CHR ''_'' then Inr None
                 else record_loop buf (pos + 2) n (str @ [c1]))
          else record_loop buf (pos + 1) n (str @ [c]))"

text \<open>
  A C string ends at its first NUL: what \<open>strlen\<close>, \<open>printf("%s")\<close> and \<open>stringCombine\<close> see
  of the bytes written.
\<close>

definition c_string :: "string \<Rightarrow> string" where
  "c_string s = takeWhile (\<lambda>c. c \<noteq> NUL) s"

definition record_type :: "string \<Rightarrow> nat \<Rightarrow> (string \<times> nat) option result" where
  "record_type buf pos =
     rbind (tryDemangleNumber buf pos) (\<lambda>(n, pos1).
       if n = 0 then Inr None
       else if \<not> in_int (n + 1) then Inl SignedOverflow
       else rbind (record_loop buf pos1 (nat n) [])
              (\<lambda>r. Inr (map_option (\<lambda>(str, pos2). (c_string str, pos2)) r)))"

text \<open>
  \<open>tryDemangleType\<close>. When the component type of an array does not parse, control falls
  through to the test for a tuple with \<open>pos\<close> already advanced past the \<open>a\<close>.
\<close>

function (sequential, domintros) tryDemangleType :: "string \<Rightarrow> nat \<Rightarrow> (string \<times> nat) option result"
  and tuple_type :: "string \<Rightarrow> nat \<Rightarrow> (string \<times> nat) option result"
  and tuple_loop :: "string \<Rightarrow> nat \<Rightarrow> nat \<Rightarrow> nat \<Rightarrow> string \<Rightarrow> (string \<times> nat) option result" where
  "tryDemangleType buf pos =
     (case rd buf pos of
        Inl e \<Rightarrow> Inl e
      | Inr c \<Rightarrow>
          if c = CHR ''i'' then Inr (Some (''int'', pos + 1))
          else if c = CHR ''b'' then Inr (Some (''bool'', pos + 1))
          else if c = CHR ''r'' then record_type buf (pos + 1)
          else if c = CHR ''a'' then
            (case tryDemangleType buf (pos + 1) of
               Inl e \<Rightarrow> Inl e
             | Inr (Some (elementType, pos1)) \<Rightarrow>
                 Inr (Some (stringCombine (Some elementType) ''[]'', pos1))
             | Inr None \<Rightarrow> tuple_type buf (pos + 1))
          else tuple_type buf pos)"
| "tuple_type buf pos =
     (case rd buf pos of
        Inl e \<Rightarrow> Inl e
      | Inr c \<Rightarrow>
          if c = CHR ''t'' then
            (case tryDemangleNumber buf (pos + 1) of
               Inl e \<Rightarrow> Inl e
             | Inr (n, pos1) \<Rightarrow>
                 if n \<noteq> 0 then tuple_loop buf pos1 0 (nat n) ''('' else Inr None)
          else Inr None)"
| "tuple_loop buf pos c numComponents type =
     (if c < numComponents then
        (case tryDemangleType buf pos of
           Inl e \<Rightarrow> Inl e
         | Inr None \<Rightarrow> Inr None
         | Inr (Some (typeComp, pos1)) \<Rightarrow>
             (let type1 = (if c \<noteq> 0 then stringCombine (Some type) '', '' else type)
              in tuple_loop buf pos1 (c + 1) numComponents (stringCombine (Some type1) typeComp)))
      else Inr (Some (stringCombine (Some type) '')'', pos)))"
  by pat_completeness auto


lemma rd_Inr_iff: "rd buf i = Inr c \<longleftrightarrow> i < length buf \<and> c = buf ! i"
  by (auto simp: rd_def)

declare name_end.simps [simp del] copy_name.simps [simp del] number_loop.simps [simp del]

lemma number_loop_mono: "number_loop buf pos num = Inr (n, p) \<Longrightarrow> pos \<le> p"
proof (induction buf pos num rule: number_loop.induct)
  case (1 buf pos num)
  from "1.prems" show ?case
    by (subst (asm) number_loop.simps)
       (auto split: sum.splits if_splits simp: Let_def dest!: "1.IH")
qed

lemma number_loop_nonneg: "number_loop buf pos num = Inr (n, p) \<Longrightarrow> 0 \<le> num \<Longrightarrow> 0 \<le> n"
proof (induction buf pos num rule: number_loop.induct)
  case (1 buf pos num)
  from "1.prems" show ?case
    by (subst (asm) number_loop.simps)
       (auto split: sum.splits if_splits simp: Let_def digit_val_range dest!: "1.IH")
qed

lemma tryDemangleNumber_mono: "tryDemangleNumber buf pos = Inr (n, p) \<Longrightarrow> pos \<le> p"
  by (auto simp: tryDemangleNumber_def dest: number_loop_mono)

lemma tryDemangleNumber_nonneg: "tryDemangleNumber buf pos = Inr (n, p) \<Longrightarrow> 0 \<le> n"
  by (auto simp: tryDemangleNumber_def dest: number_loop_nonneg)

lemma record_loop_mono: "record_loop buf pos n str = Inr (Some (s, p)) \<Longrightarrow> pos + n \<le> p"
  by (induction buf pos n str rule: record_loop.induct)
     (fastforce split: sum.splits if_splits)+

lemma record_type_SomeE:
  assumes "record_type buf pos = Inr (Some (s, p))"
  obtains n pos1 str where "tryDemangleNumber buf pos = Inr (n, pos1)" and "0 < n"
    and "in_int (n + 1)" and "record_loop buf pos1 (nat n) [] = Inr (Some (str, p))"
    and "s = c_string str"
proof -
  from assms obtain n pos1 str where n: "tryDemangleNumber buf pos = Inr (n, pos1)" "n \<noteq> 0"
    and r: "in_int (n + 1)" "record_loop buf pos1 (nat n) [] = Inr (Some (str, p))"
      "s = c_string str"
    by (auto simp: record_type_def rbind_eq_Inr_iff split: if_splits)
  moreover have "0 < n" using n tryDemangleNumber_nonneg [OF n(1)] by simp
  ultimately show thesis using that by blast
qed

lemma record_type_mono: "record_type buf pos = Inr (Some (s, p)) \<Longrightarrow> pos < p"
  by (erule record_type_SomeE) (auto dest!: tryDemangleNumber_mono record_loop_mono)

text \<open>
  The recursion is nested: the loop over a tuple's components goes on where the component
  stopped. That every success moves forward is proved on the domain first.
\<close>

lemma type_dom_mono:
  shows "tryDemangleType_tuple_type_tuple_loop_dom (Inl (buf, pos)) \<Longrightarrow>
      tryDemangleType buf pos = Inr (Some (s, p)) \<Longrightarrow> pos < p"
    and "tryDemangleType_tuple_type_tuple_loop_dom (Inr (Inl (buf, pos))) \<Longrightarrow>
      tuple_type buf pos = Inr (Some (s, p)) \<Longrightarrow> pos < p"
    and "tryDemangleType_tuple_type_tuple_loop_dom (Inr (Inr (buf, pos, c, n, t))) \<Longrightarrow>
      tuple_loop buf pos c n t = Inr (Some (s, p)) \<Longrightarrow> pos \<le> p"
proof (induction arbitrary: s p and s p and s p
    rule: tryDemangleType_tuple_type_tuple_loop.pinduct)
  case (1 buf pos)
  note eq = tryDemangleType.psimps [OF "1.hyps"(1)]
  from "1.prems" obtain c where c: "rd buf pos = Inr c"
    by (auto simp: eq split: sum.splits)
  have array: "pos < p" if "c = CHR ''a''"
  proof (cases "tryDemangleType buf (pos + 1)")
    case (Inl e)
    with that "1.prems" c show ?thesis by (simp add: eq)
  next
    case (Inr r)
    then show ?thesis
      using that "1.prems" c "1.IH"(1) [OF c] "1.IH"(2) [OF c] by (cases r) (fastforce simp: eq)+
  qed
  show ?case
    using "1.prems" c array "1.IH"(3) [OF c]
    by (auto simp: eq split: if_splits dest: record_type_mono)
next
  case (2 buf pos)
  note eq = tuple_type.psimps [OF "2.hyps"(1)]
  from "2.prems" obtain n pos1 where c: "rd buf pos = Inr CHR ''t''"
    and n: "tryDemangleNumber buf (pos + 1) = Inr (n, pos1)"
    and r: "n \<noteq> 0" "tuple_loop buf pos1 0 (nat n) ''('' = Inr (Some (s, p))"
    by (auto simp: eq split: sum.splits if_splits)
  have "pos1 \<le> p" using "2.IH" c n r by simp
  then show ?case using tryDemangleNumber_mono [OF n] by simp
next
  case (3 buf pos c n t)
  note eq = tuple_loop.psimps [OF "3.hyps"(1)]
  show ?case
  proof (cases "c < n")
    case False
    with "3.prems" show ?thesis by (simp add: eq)
  next
    case True
    with "3.prems" obtain t1 p1 where t1: "tryDemangleType buf pos = Inr (Some (t1, p1))"
      by (auto simp: eq split: sum.splits option.splits)
    have "pos < p1" using "3.IH"(1) True t1 by simp
    moreover have "p1 \<le> p"
      using "3.IH"(2) [OF True t1 refl refl refl] "3.prems" True t1 by (simp add: eq)
    ultimately show ?thesis by simp
  qed
qed

definition type_measure :: "string \<times> nat + string \<times> nat + string \<times> nat \<times> nat \<times> nat \<times> string
    \<Rightarrow> nat \<times> nat" where
  "type_measure x = (case x of
     Inl (buf, pos) \<Rightarrow> (length buf - pos, 1)
   | Inr (Inl (buf, pos)) \<Rightarrow> (length buf - pos, 0)
   | Inr (Inr (buf, pos, c, n, t)) \<Rightarrow> (length buf - pos, 2 + (n - c)))"

termination tryDemangleType
  by (relation "inv_image (less_than <*lex*> less_than) type_measure")
     (auto simp: type_measure_def rd_Inr_iff dest!: tryDemangleNumber_mono type_dom_mono(1))

declare tryDemangleType.simps [simp del] tuple_type.simps [simp del] tuple_loop.simps [simp del]

lemma type_dom:
  shows "tryDemangleType_tuple_type_tuple_loop_dom (Inl (buf, pos))"
    and "tryDemangleType_tuple_type_tuple_loop_dom (Inr (Inl (buf, pos)))"
    and "tryDemangleType_tuple_type_tuple_loop_dom (Inr (Inr (buf, pos, c, n, t)))"
proof (induction rule: tryDemangleType_tuple_type_tuple_loop.induct)
  case (1 buf pos)
  show ?case by (rule tryDemangleType_tuple_type_tuple_loop.domintros(1)) (simp_all add: "1.IH" [simplified])
next
  case (2 buf pos)
  show ?case by (rule tryDemangleType_tuple_type_tuple_loop.domintros(2)) (simp_all add: "2.IH" [simplified])
next
  case (3 buf pos c n t)
  show ?case by (rule tryDemangleType_tuple_type_tuple_loop.domintros(3)) (use "3.IH"(1) "3.IH"(2) [OF _ _ refl refl refl] in simp_all)
qed

lemma tryDemangleType_mono: "tryDemangleType buf pos = Inr (Some (s, p)) \<Longrightarrow> pos < p"
  by (rule type_dom_mono(1) [OF type_dom(1)])

lemma tryDemangleType_inside: "tryDemangleType buf pos = Inr r \<Longrightarrow> pos < length buf"
  by (subst (asm) tryDemangleType.simps) (auto simp: rd_Inr_iff split: sum.splits)

lemma tryDemangleType_progress:
  "tryDemangleType buf pos = Inr (Some (s, p)) \<Longrightarrow> length buf - p < length buf - pos"
  using tryDemangleType_inside tryDemangleType_mono by (metis diff_less_mono2)

section \<open>Symbols\<close>

text \<open>\<open>tryDemangleEtaSetup\<close>: \<open>vt_\<close>, \<open>size_\<close> and \<open>init_\<close> symbols.\<close>

definition setup_prefix :: "string \<Rightarrow> string option" where
  "setup_prefix cfy =
     (let prefix0 = (if cfy = ''vt'' then Some ''Eta vtable for '' else None);
          prefix1 = (if cfy = ''size'' then Some ''Eta size of '' else prefix0)
      in if cfy = ''init'' then Some ''Eta init of '' else prefix1)"

definition tryDemangleEtaSetup :: "string \<Rightarrow> nat \<Rightarrow> (string \<times> nat) option result" where
  "tryDemangleEtaSetup buf pos =
     rbind (tryDemangleName buf pos) (\<lambda>r. case r of
       None \<Rightarrow> Inr None
     | Some (cfy, pos1) \<Rightarrow>
         rbind (rd buf pos1) (\<lambda>c.
           if c \<noteq> CHR ''_'' then Inr None
           else rbind (tryDemangleName buf (pos1 + 1)) (\<lambda>r2. case r2 of
             None \<Rightarrow> Inr None
           | Some (cname, pos2) \<Rightarrow>
               (case setup_prefix cfy of
                  Some pfx \<Rightarrow> Inr (Some (stringCombine (Some pfx) cname, pos2))
                | None \<Rightarrow> Inr None))))"

text \<open>\<open>tryDemangleEtaGlobal\<close>: \<open>g_<name>_<type>\<close>.\<close>

definition tryDemangleEtaGlobal :: "string \<Rightarrow> nat \<Rightarrow> (string \<times> nat) option result" where
  "tryDemangleEtaGlobal buf pos =
     rbind (tryDemangleName buf pos) (\<lambda>r. case r of
       None \<Rightarrow> Inr None
     | Some (cfy, pos1) \<Rightarrow>
         rbind (rd buf pos1) (\<lambda>c.
           if c \<noteq> CHR ''_'' \<or> cfy \<noteq> ''g'' then Inr None
           else rbind (tryDemangleName buf (pos1 + 1)) (\<lambda>r2. case r2 of
             None \<Rightarrow> Inr None
           | Some (name, pos2) \<Rightarrow>
               rbind (rd buf pos2) (\<lambda>c2.
                 if c2 \<noteq> CHR ''_'' then Inr None
                 else rbind (tryDemangleType buf (pos2 + 1)) (\<lambda>r3. case r3 of
                   None \<Rightarrow> Inr None
                 | Some (type, pos3) \<Rightarrow>
                     Inr (Some (stringCombine (Some (stringCombine (Some name) '': '')) type,
                                pos3)))))))"

text \<open>
  \<open>startsWith(test, start)\<close>, where \<open>test\<close> is the string at position \<open>base\<close> of the buffer:
  -1, or the position after \<open>start\<close> relative to \<open>base\<close>.
\<close>

fun startsWith_loop :: "string \<Rightarrow> nat \<Rightarrow> nat \<Rightarrow> string \<Rightarrow> int result" where
  "startsWith_loop buf base pos [] = Inr (int pos)"
| "startsWith_loop buf base pos (s # start) =
     (case rd buf (base + pos) of
        Inl e \<Rightarrow> Inl e
      | Inr c \<Rightarrow> if c \<noteq> s then Inr (- 1) else startsWith_loop buf base (pos + 1) start)"

definition startsWith :: "string \<Rightarrow> nat \<Rightarrow> string \<Rightarrow> int result" where
  "startsWith buf base start = startsWith_loop buf base 0 start"

text \<open>The argument types of a function symbol.\<close>

function arg_loop :: "string \<Rightarrow> nat \<Rightarrow> bool \<Rightarrow> string \<Rightarrow> (string \<times> nat) result" where
  "arg_loop buf pos firstArg decl =
     (case tryDemangleType buf pos of
        Inl e \<Rightarrow> Inl e
      | Inr None \<Rightarrow> Inr (decl, pos)
      | Inr (Some (argInfo, pos1)) \<Rightarrow>
          (let decl1 = (if \<not> firstArg then stringCombine (Some decl) '', '' else decl)
           in arg_loop buf pos1 False (stringCombine (Some decl1) argInfo)))"
  by pat_completeness auto
termination
  by (relation "measure (\<lambda>(buf, pos, firstArg, decl). length buf - pos)")
     (auto intro: tryDemangleType_progress)

declare arg_loop.simps [simp del]

text \<open>The signature of a function, after \<open>_I\<close> and the attempts at a global.\<close>

definition demangle_function :: "string \<Rightarrow> nat \<Rightarrow> (string \<times> nat) option result" where
  "demangle_function buf pos =
     rbind (tryDemangleName buf pos) (\<lambda>r. case r of
       None \<Rightarrow> Inr None
     | Some (decl, pos1) \<Rightarrow>
         rbind (rd buf pos1) (\<lambda>c.
           if c \<noteq> CHR ''_'' then Inr None
           else rbind (rd buf (pos1 + 1)) (\<lambda>c1.
             rbind
               (if c1 = CHR ''p'' then Inr (Some ('''', pos1 + 2))
                else rbind (tryDemangleType buf (pos1 + 1)) (\<lambda>t. case t of
                  None \<Rightarrow> Inr None
                | Some (retInfo, pos2) \<Rightarrow>
                    Inr (Some (stringCombine (Some '': '') retInfo, pos2))))
               (\<lambda>ret. case ret of
                  None \<Rightarrow> Inr None
                | Some (retInfo, pos2) \<Rightarrow>
                    rbind (arg_loop buf pos2 True (stringCombine (Some decl) ''(''))
                      (\<lambda>(decl1, pos3).
                         Inr (Some (stringCombine (Some (stringCombine (Some decl1) '')'')) retInfo,
                                    pos3)))))))"

definition tryDemangleSymbol :: "string \<Rightarrow> nat \<Rightarrow> (string \<times> nat) option result" where
  "tryDemangleSymbol buf pos =
     rbind (startsWith buf pos ''_eta_alloc'') (\<lambda>allocStart.
     if allocStart \<ge> 0 then Inr (Some (''[etaruntime]alloc(int): ?[]'', pos + nat allocStart))
     else rbind (startsWith buf pos ''_eta_out_of_bounds'') (\<lambda>oobStart.
     if oobStart \<ge> 0 then Inr (Some (''[etaruntime]out_of_bounds()'', pos + nat oobStart))
     else rbind (rd buf pos) (\<lambda>c0.
     if c0 \<noteq> CHR ''_'' then Inr None
     else rbind (rd buf (pos + 1)) (\<lambda>c1.
     if c1 \<noteq> CHR ''I'' then Inr None
     else rbind (rd buf (pos + 2)) (\<lambda>c2.
     if c2 = CHR ''_'' then
       rbind (tryDemangleEtaSetup buf (pos + 3)) (\<lambda>r. case r of
         Some x \<Rightarrow> Inr (Some x)
       | None \<Rightarrow>
           rbind (tryDemangleEtaGlobal buf (pos + 3)) (\<lambda>r2. case r2 of
             Some x \<Rightarrow> Inr (Some x)
           | None \<Rightarrow> demangle_function buf (pos + 3)))
     else demangle_function buf (pos + 2))))))"

section \<open>The filter\<close>

lemma name_end_mono: "name_end buf start pos = Inr p \<Longrightarrow> pos \<le> p"
proof (induction buf start pos rule: name_end.induct)
  case (1 buf start pos)
  show ?case
    using "1.prems" "1.IH"
    by (fastforce simp: name_end.simps [of buf start pos] split: sum.splits if_splits)
qed

lemma tryDemangleName_mono: "tryDemangleName buf pos = Inr (Some (s, p)) \<Longrightarrow> pos < p"
  by (auto simp: tryDemangleName_def rbind_eq_Inr_iff split: if_splits dest: name_end_mono
      intro: le_neq_implies_less)

lemma tryDemangleEtaSetup_mono: "tryDemangleEtaSetup buf pos = Inr (Some (s, p)) \<Longrightarrow> pos < p"
  by (fastforce simp: tryDemangleEtaSetup_def rbind_eq_Inr_iff split: option.splits if_splits
      dest: tryDemangleName_mono)

lemma tryDemangleEtaGlobal_mono: "tryDemangleEtaGlobal buf pos = Inr (Some (s, p)) \<Longrightarrow> pos < p"
  by (fastforce simp: tryDemangleEtaGlobal_def rbind_eq_Inr_iff split: option.splits if_splits
      dest: tryDemangleName_mono tryDemangleType_mono)

lemma arg_loop_mono: "arg_loop buf pos first decl = Inr (d, p) \<Longrightarrow> pos \<le> p"
proof (induction buf pos first decl rule: arg_loop.induct)
  case (1 buf pos first decl)
  show ?case
  proof (cases "tryDemangleType buf pos")
    case (Inl e)
    then show ?thesis using "1.prems" by (simp add: arg_loop.simps [of buf pos])
  next
    case (Inr r)
    then show ?thesis
      using "1.prems" "1.IH" tryDemangleType_mono [of buf pos]
      by (cases r) (fastforce simp: arg_loop.simps [of buf pos] Let_def)+
  qed
qed

lemma demangle_function_mono: "demangle_function buf pos = Inr (Some (s, p)) \<Longrightarrow> pos < p"
  by (fastforce simp: demangle_function_def rbind_eq_Inr_iff split: option.splits if_splits
      dest: tryDemangleName_mono tryDemangleType_mono arg_loop_mono)

lemma startsWith_loop_pos: "startsWith_loop buf base pos start = Inr n \<Longrightarrow> n = - 1 \<or> n = int pos + int (length start)"
  by (induction buf base pos start rule: startsWith_loop.induct) (auto split: sum.splits if_splits)

lemma startsWith_pos: "startsWith buf base start = Inr n \<Longrightarrow> 0 \<le> n \<Longrightarrow> n = int (length start)"
  by (auto simp: startsWith_def dest: startsWith_loop_pos)

lemma tryDemangleSymbol_mono: "tryDemangleSymbol buf pos = Inr (Some (s, p)) \<Longrightarrow> pos < p"
  by (fastforce simp: tryDemangleSymbol_def rbind_eq_Inr_iff split: option.splits if_splits
      dest: startsWith_pos tryDemangleEtaSetup_mono tryDemangleEtaGlobal_mono demangle_function_mono)

text \<open>
  The body of \<open>main\<close> for one line (\<open>line\<close> with the NUL that \<open>getline\<close> stores), from position
  \<open>pos\<close>: the text written to stdout. The whole line is written before the next one is read,
  so a fault loses only what follows it; the model keeps the fault.
\<close>

function filter_line :: "string \<Rightarrow> nat \<Rightarrow> string result" where
  "filter_line buf pos =
     (case rd buf pos of
        Inl e \<Rightarrow> Inl e
      | Inr c \<Rightarrow>
          if c = NUL then Inr []
          else
            (case tryDemangleSymbol buf pos of
               Inl e \<Rightarrow> Inl e
             | Inr (Some (demangled, pos1)) \<Rightarrow>
                 rbind (filter_line buf pos1) (\<lambda>out. Inr (demangled @ out))
             | Inr None \<Rightarrow> rbind (filter_line buf (pos + 1)) (\<lambda>out. Inr (c # out))))"
  by pat_completeness auto
termination
  by (relation "measure (\<lambda>(buf, pos). length buf - pos)")
     (auto simp: rd_Inr_iff dest!: tryDemangleSymbol_mono)

declare filter_line.simps [simp del]

text \<open>
  \<open>getline\<close> on the rest of stdin: the line with its newline, the rest, and whether the end of
  the file was met (\<open>feof\<close>). An empty rest makes it return -1, with \<open>feof\<close> set.
\<close>

fun getline :: "string \<Rightarrow> string \<times> string \<times> bool" where
  "getline [] = ([], [], True)"
| "getline (c # cs) =
     (if c = CHR 0x0A then ([c], cs, False)
      else (case getline cs of (line, rest, eof) \<Rightarrow> (c # line, rest, eof)))"

lemma getline_rest: "getline inp = (line, rest, eof) \<Longrightarrow> length rest + length line = length inp"
  by (induction inp arbitrary: line) (auto split: if_splits prod.splits)

lemma getline_append: "getline inp = (line, rest, eof) \<Longrightarrow> line @ rest = inp"
  by (induction inp arbitrary: line) (auto split: if_splits prod.splits)

lemma getline_eof: "getline inp = (line, rest, True) \<Longrightarrow> rest = []"
  by (induction inp arbitrary: line) (auto split: if_splits prod.splits)

lemma getline_progress: "getline inp = (line, rest, False) \<Longrightarrow> length rest < length inp"
  by (induction inp arbitrary: line) (auto split: if_splits prod.splits intro: less_SucI)

text \<open>
  \<open>main\<close>: the text written to stdout for the text on stdin. When \<open>getline\<close> returns -1 the line
  is skipped (\<open>goto freeline\<close>). Read errors (\<open>ferror\<close>) are not modelled.
\<close>

function etafilt_main :: "string \<Rightarrow> string result" where
  "etafilt_main inp =
     (case getline inp of (line, rest, eof) \<Rightarrow>
        rbind (if line = [] then Inr [] else filter_line (line @ [NUL]) 0) (\<lambda>out.
          if eof then Inr out
          else rbind (etafilt_main rest) (\<lambda>out'. Inr (out @ out'))))"
  by pat_completeness auto
termination
  by (relation "measure length") (auto dest: getline_progress [OF sym])

declare etafilt_main.simps [simp del]

section \<open>Memory safety\<close>

text \<open>
  The lines on which the filter never leaves an allocation: no character \<open>r\<close> is followed by a
  digit (the start of a record's name, whose copying loop trusts the length it finds) and no
  run of digits denotes a number that overflows an \<open>int\<close>.
\<close>

fun small_numbers :: "string \<Rightarrow> bool" where
  "small_numbers [] = True"
| "small_numbers (c # s) =
     (digits_value (takeWhile isdigit (c # s)) < 2 ^ 31 \<and> small_numbers s)"

fun no_records :: "string \<Rightarrow> bool" where
  "no_records (c # c' # s) = (\<not> (c = CHR ''r'' \<and> isdigit c') \<and> no_records (c' # s))"
| "no_records _ = True"

lemma small_numbers_drop:
  "small_numbers s \<Longrightarrow> i < length s \<Longrightarrow> digits_value (takeWhile isdigit (drop i s)) < 2 ^ 31"
  by (induction s arbitrary: i) (auto simp: nth_Cons' drop_Cons' simp del: takeWhile.simps)

lemma no_records_nth:
  "no_records s \<Longrightarrow> i + 1 < length s \<Longrightarrow> s ! i = CHR ''r'' \<Longrightarrow> \<not> isdigit (s ! (i + 1))"
  by (induction s arbitrary: i rule: no_records.induct) (auto simp: nth_Cons split: nat.splits)

definition terminated :: "string \<Rightarrow> bool" where
  "terminated buf \<longleftrightarrow> buf \<noteq> [] \<and> last buf = NUL"

definition clean :: "string \<Rightarrow> bool" where
  "clean buf \<longleftrightarrow> terminated buf \<and> no_records buf \<and> small_numbers buf"

lemma clean_terminated: "clean buf \<Longrightarrow> terminated buf"
  by (simp add: clean_def)

lemma not_digit_NUL [simp]: "\<not> isdigit NUL"
  by (simp add: isdigit_def NUL_def)

lemma not_alpha_NUL [simp]: "\<not> isalpha NUL"
  by (simp add: isalpha_def NUL_def)

lemma NUL_neq [simp]: "NUL \<noteq> CHR ''_''" "NUL \<noteq> CHR ''i''" "NUL \<noteq> CHR ''b''" "NUL \<noteq> CHR ''r''"
    "NUL \<noteq> CHR ''a''" "NUL \<noteq> CHR ''t''" "NUL \<noteq> CHR ''p''" "NUL \<noteq> CHR ''I''"
  by (simp_all add: NUL_def)

lemmas NUL_neq' [simp] = NUL_neq [symmetric]

text \<open>A character other than the terminator is followed by another one.\<close>

lemma terminated_next:
  "terminated buf \<Longrightarrow> i < length buf \<Longrightarrow> buf ! i \<noteq> NUL \<Longrightarrow> i + 1 < length buf"
  by (metis terminated_def Suc_eq_plus1 Suc_lessI last_conv_nth diff_Suc_1)

lemma name_end_safe:
  "terminated buf \<Longrightarrow> pos < length buf \<Longrightarrow> \<exists>p. name_end buf start pos = Inr p \<and> p < length buf"
proof (induction buf start pos rule: name_end.induct)
  case (1 buf start pos)
  let ?c = "buf ! pos"
  have c: "rd buf pos = Inr ?c" using "1.prems"(2) by (simp add: rd_def)
  have nxt: "pos + 1 < length buf" if "?c \<noteq> NUL" using terminated_next "1.prems" that by blast
  have nxt2: "pos + 2 < length buf" if "?c = CHR ''_''" "buf ! (pos + 1) = CHR ''_''"
    using terminated_next [OF "1.prems"(1), of "pos + 1"] nxt that by simp
  show ?case
    using c nxt nxt2 "1.IH" "1.prems"
    by (auto simp: name_end.simps [of buf start pos] rd_def split: sum.splits if_splits)
qed

lemma copy_name_safe:
  "endPos < length buf \<Longrightarrow> length out + (endPos - pos) < cap \<Longrightarrow>
   \<exists>out'. copy_name buf pos endPos cap out = Inr out'"
proof (induction buf pos endPos cap out rule: copy_name.induct)
  case (1 buf pos endPos cap out)
  show ?case
  proof (cases "pos < endPos")
    case False
    then show ?thesis using "1.prems" by (simp add: copy_name.simps [of buf pos])
  next
    case True
    then have c: "rd buf pos = Inr (buf ! pos)" using "1.prems" by (simp add: rd_def)
    then show ?thesis using "1.IH" [OF True c] "1.prems" True
      by (auto simp: copy_name.simps [of buf pos])
  qed
qed

lemma tryDemangleName_safe:
  assumes "terminated buf" and "pos < length buf"
  shows "\<exists>r. tryDemangleName buf pos = Inr r"
    and "tryDemangleName buf pos = Inr (Some (s, p)) \<Longrightarrow> p < length buf"
proof -
  obtain q where q: "name_end buf pos pos = Inr q" "q < length buf"
    using name_end_safe [OF assms] by blast
  have "pos \<le> q" using name_end_mono q(1) by blast
  then obtain out where "copy_name buf pos q (q - pos + 1) [] = Inr out"
    using copy_name_safe [of q buf "[]" pos "q - pos + 1"] q(2) by auto
  with q show "\<exists>r. tryDemangleName buf pos = Inr r"
    and "tryDemangleName buf pos = Inr (Some (s, p)) \<Longrightarrow> p < length buf"
    by (auto simp: tryDemangleName_def split: if_splits)
qed

text \<open>
  \<open>number_loop\<close> computes the number its digits denote, or overflows when that number is too
  large for an \<open>int\<close>.
\<close>

lemma digits_inside:
  assumes "terminated buf" and "pos < length buf"
  shows "pos + length (takeWhile isdigit (drop pos buf)) < length buf"
proof (rule ccontr)
  let ?s = "drop pos buf"
  assume "\<not> ?thesis"
  then have "takeWhile isdigit ?s = ?s"
    using length_takeWhile_le [of isdigit ?s]
    by (metis (no_types, lifting) assms(2) le_add_diff_inverse length_drop less_or_eq_imp_le
        linorder_not_less nat_add_left_cancel_less nth_equalityI order_antisym takeWhile_nth)
  then have "\<forall>x \<in> set ?s. isdigit x" by (simp add: takeWhile_eq_all_conv)
  moreover have "NUL \<in> set ?s"
    using assms by (metis drop_eq_Nil2 last_drop last_in_set linorder_not_less terminated_def)
  ultimately show False by auto
qed

lemma number_loop_value:
  "terminated buf \<Longrightarrow> pos < length buf \<Longrightarrow> 0 \<le> num \<Longrightarrow> num < 2 ^ 31 \<Longrightarrow>
   ds = takeWhile isdigit (drop pos buf) \<Longrightarrow>
   number_loop buf pos num =
     (if digits_from num ds < 2 ^ 31 then Inr (digits_from num ds, pos + length ds)
      else Inl SignedOverflow)
   \<and> pos + length ds < length buf"
proof (induction buf pos num arbitrary: ds rule: number_loop.induct)
  case (1 buf pos num)
  let ?c = "buf ! pos"
  have c: "rd buf pos = Inr ?c" using "1.prems"(2) by (simp add: rd_def)
  have drop: "drop pos buf = ?c # drop (pos + 1) buf"
    using Cons_nth_drop_Suc [OF "1.prems"(2)] by simp
  show ?case
  proof (cases "isdigit ?c")
    case False
    with "1.prems" c drop show ?thesis by (simp add: number_loop.simps [of buf pos])
  next
    case True
    let ?num = "10 * num + digit_val ?c"
    let ?ds = "takeWhile isdigit (drop (pos + 1) buf)"
    have d: "0 \<le> digit_val ?c" "digit_val ?c \<le> 9" using digit_val_range [OF True] by auto
    have "?c \<noteq> NUL" using True by auto
    then have nxt: "pos + 1 < length buf" using terminated_next "1.prems"(1,2) by blast
    have ds: "ds = ?c # ?ds" using "1.prems"(5) drop True by simp
    show ?thesis
    proof (cases "?num < 2 ^ 31")
      case True
      then have "in_int (10 * num) \<and> in_int ?num" using d "1.prems"(3) by (simp add: in_int_def)
      then show ?thesis
        using "1.IH" [OF c \<open>isdigit ?c\<close> refl _ "1.prems"(1) nxt _ True refl] c d ds "1.prems"(3)
          \<open>isdigit ?c\<close>
        by (simp add: number_loop.simps [of buf pos] Let_def)
    next
      case False
      have "?num \<le> digits_from ?num ?ds"
        using d "1.prems"(3) by (intro digits_foldl_mono) (auto dest: set_takeWhileD)
      moreover have "pos + length ds < length buf" using digits_inside "1.prems"(1,2,5) by simp
      ultimately show ?thesis
        using c d ds False \<open>isdigit ?c\<close>
        by (simp add: number_loop.simps [of buf pos] Let_def in_int_def)
    qed
  qed
qed

lemma tryDemangleNumber_value:
  assumes "terminated buf" and "pos < length buf"
  defines "ds \<equiv> takeWhile isdigit (drop pos buf)"
  shows "tryDemangleNumber buf pos =
     (if digits_value ds < 2 ^ 31 then Inr (digits_value ds, pos + length ds)
      else Inl SignedOverflow)"
  using number_loop_value [OF assms(1,2), of 0] by (simp add: ds_def digits_value_def tryDemangleNumber_def)

lemma tryDemangleNumber_safe:
  assumes "clean buf" and "pos < length buf"
  shows "\<exists>n p. tryDemangleNumber buf pos = Inr (n, p) \<and> p < length buf"
  using tryDemangleNumber_value [OF clean_terminated assms(2)] digits_inside [OF clean_terminated assms(2)]
    small_numbers_drop [of buf pos] assms by (auto simp: clean_def)

lemma record_type_clean:
  assumes "clean buf" and "pos < length buf" and "buf ! pos = CHR ''r''"
  shows "record_type buf (pos + 1) = Inr None"
proof -
  have nxt: "pos + 1 < length buf"
    using terminated_next clean_terminated assms by (metis NUL_neq(4))
  then have "\<not> isdigit (buf ! (pos + 1))"
    using assms no_records_nth by (simp add: clean_def)
  then have "takeWhile isdigit (drop (pos + 1) buf) = []"
    using nxt by (simp add: Cons_nth_drop_Suc [symmetric])
  then show ?thesis
    using tryDemangleNumber_value [OF clean_terminated [OF assms(1)] nxt]
    by (simp add: record_type_def digits_value_def)
qed

definition inside :: "string \<Rightarrow> (string \<times> nat) option result \<Rightarrow> bool" where
  "inside buf r \<longleftrightarrow> (case r of Inl e \<Rightarrow> False | Inr None \<Rightarrow> True | Inr (Some (s, p)) \<Rightarrow> p < length buf)"

lemma inside_simps [simp]:
  "inside buf (Inr None)"
  "inside buf (Inr (Some (s, p))) \<longleftrightarrow> p < length buf"
  "\<not> inside buf (Inl e)"
  by (simp_all add: inside_def)

lemma insideE:
  assumes "inside buf r"
  obtains "r = Inr None" | s p where "r = Inr (Some (s, p))" and "p < length buf"
  using assms by (auto simp: inside_def split: sum.splits option.splits)

lemma type_safe:
  shows "clean buf \<Longrightarrow> pos < length buf \<Longrightarrow> inside buf (tryDemangleType buf pos)"
    and "clean buf \<Longrightarrow> pos < length buf \<Longrightarrow> inside buf (tuple_type buf pos)"
    and "clean buf \<Longrightarrow> pos < length buf \<Longrightarrow> inside buf (tuple_loop buf pos c n t)"
proof (induction rule: tryDemangleType_tuple_type_tuple_loop.induct)
  case (1 buf pos)
  let ?c = "buf ! pos"
  have c: "rd buf pos = Inr ?c" using "1.prems"(2) by (simp add: rd_def)
  have nxt: "?c \<noteq> NUL \<Longrightarrow> pos + 1 < length buf"
    using terminated_next clean_terminated "1.prems" by blast
  show ?case
  proof (cases "?c = CHR ''a''")
    case True
    then have nxt: "pos + 1 < length buf" using nxt by simp
    have "inside buf (tryDemangleType buf (pos + 1))" using "1.IH"(1) [OF c] True "1.prems" nxt by simp
    then show ?thesis
      using "1.IH"(2) [OF c] True "1.prems" nxt c
      by (cases rule: insideE) (auto simp: tryDemangleType.simps [of buf pos])
  next
    case False
    then show ?thesis
      using "1.IH"(3) [OF c] "1.prems" nxt c record_type_clean [of buf pos]
      by (auto simp: tryDemangleType.simps [of buf pos])
  qed
next
  case (2 buf pos)
  let ?c = "buf ! pos"
  have c: "rd buf pos = Inr ?c" using "2.prems"(2) by (simp add: rd_def)
  show ?case
  proof (cases "?c = CHR ''t''")
    case False
    then show ?thesis using c by (simp add: tuple_type.simps [of buf pos])
  next
    case True
    then have "pos + 1 < length buf" using terminated_next clean_terminated "2.prems" by auto
    then obtain n p where n: "tryDemangleNumber buf (pos + 1) = Inr (n, p)" "p < length buf"
      using tryDemangleNumber_safe "2.prems"(1) by blast
    then show ?thesis
      using "2.IH" [OF c True n(1) refl] "2.prems" c True by (simp add: tuple_type.simps [of buf pos])
  qed
next
  case (3 buf pos c n t)
  show ?case
  proof (cases "c < n")
    case False
    then show ?thesis using "3.prems" by (simp add: tuple_loop.simps [of buf pos])
  next
    case True
    have "inside buf (tryDemangleType buf pos)" using "3.IH"(1) True "3.prems" by simp
    then show ?thesis
      using "3.IH"(2) [OF True _ refl refl refl] "3.prems" True
      by (cases rule: insideE) (auto simp: tuple_loop.simps [of buf pos] Let_def)
  qed
qed

text \<open>
  What every routine of the demangler promises its caller: a success moves forward, and on a
  clean line the routine faults nowhere and stops before the terminator.
\<close>

locale prefix_parser =
  fixes parse :: "string \<Rightarrow> nat \<Rightarrow> (string \<times> nat) option result"
  assumes progress: "parse buf pos = Inr (Some (s, p)) \<Longrightarrow> pos < p"
    and safe: "clean buf \<Longrightarrow> pos < length buf \<Longrightarrow> inside buf (parse buf pos)"
begin

lemma parse_cases:
  assumes "clean buf" and "pos < length buf"
  obtains "parse buf pos = Inr None"
  | s p where "parse buf pos = Inr (Some (s, p))" and "pos < p" and "p < length buf"
  using safe [OF assms] progress by (cases rule: insideE) auto

text \<open>The character the next routine of a chain tests is inside the line, and so is its successor.\<close>

lemma parse_next:
  assumes "clean buf" and "pos < length buf" and "parse buf pos = Inr (Some (s, p))"
  shows "\<exists>c. rd buf p = Inr c \<and> (c \<noteq> NUL \<longrightarrow> p + 1 < length buf)"
proof -
  have "p < length buf" using safe [OF assms(1,2)] assms(3) by simp
  then show ?thesis
    using terminated_next [OF clean_terminated [OF assms(1)]] by (auto simp: rd_def)
qed

end

text \<open>A loop that replaces what the routine recognises and copies every other character.\<close>

locale filter_loop = prefix_parser +
  fixes loop :: "string \<Rightarrow> nat \<Rightarrow> string result"
  assumes loop_eq: "loop buf pos =
     (case rd buf pos of
        Inl e \<Rightarrow> Inl e
      | Inr c \<Rightarrow>
          if c = NUL then Inr []
          else
            (case parse buf pos of
               Inl e \<Rightarrow> Inl e
             | Inr (Some (s, p)) \<Rightarrow> rbind (loop buf p) (\<lambda>out. Inr (s @ out))
             | Inr None \<Rightarrow> rbind (loop buf (pos + 1)) (\<lambda>out. Inr (c # out))))"
begin

lemma loop_total:
  assumes "clean buf" and "pos < length buf"
  shows "\<exists>out. loop buf pos = Inr out"
  using assms(2)
proof (induction "length buf - pos" arbitrary: pos rule: less_induct)
  case less
  let ?c = "buf ! pos"
  have c: "rd buf pos = Inr ?c" using less.prems by (simp add: rd_def)
  show ?case
  proof (cases "?c = NUL")
    case True
    then show ?thesis using c by (simp add: loop_eq [of buf pos])
  next
    case False
    then have nxt: "pos + 1 < length buf"
      using terminated_next [OF clean_terminated [OF assms(1)] less.prems] by simp
    show ?thesis
      using assms(1) less.prems
    proof (cases rule: parse_cases)
      case 1
      obtain out where "loop buf (pos + 1) = Inr out"
        using less.hyps [of "pos + 1", OF diff_less_mono2 [OF _ less.prems]] nxt by auto
      then show ?thesis using 1 c False by (simp add: loop_eq [of buf pos])
    next
      case (2 s p)
      then obtain out where "loop buf p = Inr out"
        using less.hyps [OF diff_less_mono2 [OF _ less.prems], of p] by auto
      then show ?thesis using 2 c False by (simp add: loop_eq [of buf pos])
    qed
  qed
qed

lemma loop_identity:
  assumes "\<And>p. p < length s \<Longrightarrow> parse (s @ [NUL]) p = Inr None" and "NUL \<notin> set s"
    and "pos \<le> length s"
  shows "loop (s @ [NUL]) pos = Inr (drop pos s)"
  using assms(3)
proof (induction "length s - pos" arbitrary: pos)
  case 0
  then show ?case by (simp add: loop_eq [of "s @ [NUL]" pos] rd_def)
next
  case (Suc n)
  then have pos: "pos < length s" by simp
  then have "s ! pos \<noteq> NUL" using assms(2) by (metis nth_mem)
  moreover have "loop (s @ [NUL]) (pos + 1) = Inr (drop (pos + 1) s)" using Suc by simp
  ultimately show ?case
    using pos assms(1) [OF pos] Cons_nth_drop_Suc [OF pos]
    by (simp add: loop_eq [of "s @ [NUL]" pos] rd_def nth_append)
qed

end

interpretation nm: prefix_parser tryDemangleName
proof unfold_locales
  show "inside buf (tryDemangleName buf pos)" if "clean buf" "pos < length buf" for buf pos
    using tryDemangleName_safe [OF clean_terminated [OF that(1)] that(2)]
    by (auto simp: inside_def split: sum.split option.split)
qed (rule tryDemangleName_mono)

interpretation ty: prefix_parser tryDemangleType
  by unfold_locales (auto intro: tryDemangleType_mono type_safe(1))

lemma tryDemangleEtaSetup_safe:
  assumes "clean buf" and "pos < length buf"
  shows "inside buf (tryDemangleEtaSetup buf pos)"
  using assms
proof (cases rule: nm.parse_cases)
  case 1
  then show ?thesis by (simp add: tryDemangleEtaSetup_def)
next
  case (2 cfy p)
  then obtain c where c: "rd buf p = Inr c" "c \<noteq> NUL \<longrightarrow> p + 1 < length buf"
    using nm.parse_next assms by blast
  show ?thesis
  proof (cases "c = CHR ''_''")
    case False
    then show ?thesis using 2 c by (simp add: tryDemangleEtaSetup_def)
  next
    case True
    then have "p + 1 < length buf" using c by simp
    with assms(1) show ?thesis
      by (cases rule: nm.parse_cases)
         (use 2 c True in \<open>auto simp: tryDemangleEtaSetup_def split: option.split\<close>)
  qed
qed

lemma tryDemangleEtaGlobal_safe:
  assumes "clean buf" and "pos < length buf"
  shows "inside buf (tryDemangleEtaGlobal buf pos)"
  using assms
proof (cases rule: nm.parse_cases)
  case 1
  then show ?thesis by (simp add: tryDemangleEtaGlobal_def)
next
  case (2 cfy p)
  then obtain c where c: "rd buf p = Inr c" "c \<noteq> NUL \<longrightarrow> p + 1 < length buf"
    using nm.parse_next assms by blast
  show ?thesis
  proof (cases "c \<noteq> CHR ''_'' \<or> cfy \<noteq> ''g''")
    case True
    then show ?thesis using 2 c by (simp add: tryDemangleEtaGlobal_def)
  next
    case False
    then have g: "p + 1 < length buf" "c = CHR ''_''" "cfy = ''g''" using c by auto
    from assms(1) g(1) show ?thesis
    proof (cases rule: nm.parse_cases)
      case 1
      then show ?thesis using 2 c g by (simp add: tryDemangleEtaGlobal_def)
    next
      case name: (2 name p2)
      then obtain c2 where c2: "rd buf p2 = Inr c2" "c2 \<noteq> NUL \<longrightarrow> p2 + 1 < length buf"
        using nm.parse_next assms(1) g(1) by blast
      show ?thesis
      proof (cases "c2 = CHR ''_''")
        case False
        then show ?thesis using 2 c g name c2 by (simp add: tryDemangleEtaGlobal_def)
      next
        case True
        then have "p2 + 1 < length buf" using c2 by simp
        with assms(1) show ?thesis
          by (cases rule: ty.parse_cases)
             (use 2 c g name c2 True in \<open>auto simp: tryDemangleEtaGlobal_def\<close>)
      qed
    qed
  qed
qed

lemma arg_loop_safe:
  "clean buf \<Longrightarrow> pos < length buf \<Longrightarrow> \<exists>d p. arg_loop buf pos first decl = Inr (d, p) \<and> p < length buf"
proof (induction buf pos first decl rule: arg_loop.induct)
  case (1 buf pos first decl)
  from "1.prems" show ?case
  proof (cases rule: ty.parse_cases)
    case 1
    then show ?thesis using "1.prems" by (simp add: arg_loop.simps [of buf pos])
  next
    case (2 s p)
    then show ?thesis using "1.IH" [OF 2(1) refl refl refl] "1.prems"
      by (simp add: arg_loop.simps [of buf pos] Let_def)
  qed
qed

lemma demangle_function_safe:
  assumes "clean buf" and "pos < length buf"
  shows "inside buf (demangle_function buf pos)"
  using assms
proof (cases rule: nm.parse_cases)
  case 1
  then show ?thesis by (simp add: demangle_function_def)
next
  case (2 decl p)
  then obtain c where c: "rd buf p = Inr c" "c \<noteq> NUL \<longrightarrow> p + 1 < length buf"
    using nm.parse_next assms by blast
  show ?thesis
  proof (cases "c = CHR ''_''")
    case False
    then show ?thesis using 2 c by (simp add: demangle_function_def)
  next
    case True
    then have p1: "p + 1 < length buf" using c by simp
    let ?c1 = "buf ! (p + 1)"
    have c1: "rd buf (p + 1) = Inr ?c1" using p1 by (simp add: rd_def)
    show ?thesis
    proof (cases "?c1 = CHR ''p''")
      case proc: True
      then have "p + 2 < length buf"
        using terminated_next [OF clean_terminated [OF assms(1)] p1] by simp
      then obtain d p3 where "arg_loop buf (p + 2) True (stringCombine (Some decl) ''('') = Inr (d, p3)"
          "p3 < length buf"
        using arg_loop_safe [OF assms(1)] by blast
      then show ?thesis using 2 c c1 True proc by (simp add: demangle_function_def)
    next
      case func: False
      from assms(1) p1 show ?thesis
      proof (cases rule: ty.parse_cases)
        case 1
        then show ?thesis using 2 c c1 True func by (simp add: demangle_function_def)
      next
        case ret: (2 s p2)
        then obtain d p3 where "arg_loop buf p2 True (stringCombine (Some decl) ''('') = Inr (d, p3)"
            "p3 < length buf"
          using arg_loop_safe [OF assms(1)] by blast
        then show ?thesis using 2 c c1 True func ret by (simp add: demangle_function_def)
      qed
    qed
  qed
qed

interpretation su: prefix_parser tryDemangleEtaSetup
  by unfold_locales (auto intro: tryDemangleEtaSetup_mono tryDemangleEtaSetup_safe)

interpretation gl: prefix_parser tryDemangleEtaGlobal
  by unfold_locales (auto intro: tryDemangleEtaGlobal_mono tryDemangleEtaGlobal_safe)

interpretation fn: prefix_parser demangle_function
  by unfold_locales (auto intro: demangle_function_mono demangle_function_safe)

lemma startsWith_loop_safe:
  "terminated buf \<Longrightarrow> base + pos < length buf \<Longrightarrow> NUL \<notin> set start \<Longrightarrow>
   \<exists>n. startsWith_loop buf base pos start = Inr n \<and> (0 \<le> n \<longrightarrow> base + nat n < length buf)"
proof (induction buf base pos start rule: startsWith_loop.induct)
  case (2 buf base pos s start)
  have c: "rd buf (base + pos) = Inr (buf ! (base + pos))" using "2.prems" by (simp add: rd_def)
  show ?case
  proof (cases "buf ! (base + pos) = s")
    case False
    then show ?thesis using c by simp
  next
    case True
    then have "base + (pos + 1) < length buf"
      using terminated_next [OF "2.prems"(1,2)] "2.prems"(3) by auto
    then show ?thesis using "2.IH" [OF c] True "2.prems" c by simp
  qed
qed auto

lemma startsWith_safe:
  assumes "terminated buf" and "pos < length buf" and "NUL \<notin> set start"
  shows "\<exists>n. startsWith buf pos start = Inr n \<and> (0 \<le> n \<longrightarrow> pos + nat n < length buf)"
  using startsWith_loop_safe [of buf pos 0 start] assms by (simp add: startsWith_def)

lemma tryDemangleSymbol_safe:
  assumes "clean buf" and "pos < length buf"
  shows "inside buf (tryDemangleSymbol buf pos)"
proof -
  note nt = clean_terminated [OF assms(1)]
  have step: "i + 1 < length buf" if "i < length buf" "buf ! i = c" "c \<noteq> NUL" for i c
    using terminated_next [OF nt] that by blast
  obtain a where a: "startsWith buf pos ''_eta_alloc'' = Inr a" "0 \<le> a \<longrightarrow> pos + nat a < length buf"
    using startsWith_safe [OF nt assms(2), of "''_eta_alloc''"] by (auto simp: NUL_def)
  obtain b where b: "startsWith buf pos ''_eta_out_of_bounds'' = Inr b" "0 \<le> b \<longrightarrow> pos + nat b < length buf"
    using startsWith_safe [OF nt assms(2), of "''_eta_out_of_bounds''"] by (auto simp: NUL_def)
  show ?thesis
  proof (cases "0 \<le> a \<or> 0 \<le> b \<or> buf ! pos \<noteq> CHR ''_'' \<or> buf ! (pos + 1) \<noteq> CHR ''I''")
    case True
    then show ?thesis
      using a b assms step [OF assms(2), of "CHR ''_''"]
      by (auto simp: tryDemangleSymbol_def rd_def split: if_splits)
  next
    case nsym: False
    then have p: "pos + 2 < length buf"
      using step [OF assms(2), of "CHR ''_''"] step [of "pos + 1" "CHR ''I''"] by simp
    have f: "inside buf (demangle_function buf (pos + 2))" using fn.safe assms(1) p by blast
    show ?thesis
    proof (cases "buf ! (pos + 2) = CHR ''_''")
      case False
      then show ?thesis
        using a b f p nsym assms(2) by (simp add: tryDemangleSymbol_def rd_def)
    next
      case True
      then have p3: "pos + 3 < length buf" using step [OF p] by simp
      note s = su.safe [OF assms(1) p3] gl.safe [OF assms(1) p3] fn.safe [OF assms(1) p3]
      have "tryDemangleSymbol buf pos =
          rbind (tryDemangleEtaSetup buf (pos + 3)) (\<lambda>r. case r of Some x \<Rightarrow> Inr (Some x)
            | None \<Rightarrow> rbind (tryDemangleEtaGlobal buf (pos + 3)) (\<lambda>r2. case r2 of
                Some x \<Rightarrow> Inr (Some x) | None \<Rightarrow> demangle_function buf (pos + 3)))"
        using a b p nsym True assms(2) by (simp add: tryDemangleSymbol_def rd_def)
      then show ?thesis using s by (auto elim!: insideE)
    qed
  qed
qed

interpretation sy: prefix_parser tryDemangleSymbol
  by unfold_locales (auto intro: tryDemangleSymbol_mono tryDemangleSymbol_safe)

interpretation fl: filter_loop tryDemangleSymbol filter_line
  by unfold_locales (rule filter_line.simps)

text \<open>Where none of the three prefixes stands, nothing is a symbol.\<close>

lemma startsWith_loop_False:
  "terminated buf \<Longrightarrow> base + pos < length buf \<Longrightarrow> NUL \<notin> set start \<Longrightarrow>
   \<not> prefix start (drop (base + pos) buf) \<Longrightarrow> startsWith_loop buf base pos start = Inr (- 1)"
proof (induction buf base pos start rule: startsWith_loop.induct)
  case (2 buf base pos s start)
  have c: "rd buf (base + pos) = Inr (buf ! (base + pos))" using "2.prems" by (simp add: rd_def)
  have drop: "drop (base + pos) buf = buf ! (base + pos) # drop (base + (pos + 1)) buf"
    using Cons_nth_drop_Suc [OF "2.prems"(2)] by simp
  show ?case
  proof (cases "buf ! (base + pos) = s")
    case False
    then show ?thesis using c by simp
  next
    case True
    then have "base + (pos + 1) < length buf"
      using terminated_next [OF "2.prems"(1,2)] "2.prems"(3) by auto
    then show ?thesis using "2.IH" [OF c] True "2.prems" c drop by simp
  qed
qed auto

lemma tryDemangleSymbol_None:
  assumes "terminated buf" and "pos < length buf"
    and "\<not> prefix ''_I'' (drop pos buf)" and "\<not> prefix ''_eta_alloc'' (drop pos buf)"
    and "\<not> prefix ''_eta_out_of_bounds'' (drop pos buf)"
  shows "tryDemangleSymbol buf pos = Inr None"
proof -
  have "startsWith buf pos ''_eta_alloc'' = Inr (- 1)"
    and "startsWith buf pos ''_eta_out_of_bounds'' = Inr (- 1)"
    using startsWith_loop_False [OF assms(1), of pos 0 "''_eta_alloc''"]
      startsWith_loop_False [OF assms(1), of pos 0 "''_eta_out_of_bounds''"] assms
    by (simp_all add: startsWith_def NUL_def del: startsWith_loop.simps)
  moreover have "pos + 1 < length buf \<and> buf ! (pos + 1) \<noteq> CHR ''I''" if c: "buf ! pos = CHR ''_''"
  proof -
    have p: "pos + 1 < length buf" using terminated_next assms(1,2) c by simp
    have "drop pos buf = buf ! pos # buf ! (pos + 1) # drop (pos + 2) buf"
      using Cons_nth_drop_Suc [OF assms(2)] Cons_nth_drop_Suc [OF p] by simp
    then show ?thesis using assms(3) c p by auto
  qed
  ultimately show ?thesis using assms(2) by (auto simp: tryDemangleSymbol_def rd_def)
qed

section \<open>The program\<close>

lemma getline_Nil: "getline inp = ([], rest, eof) \<Longrightarrow> inp = [] \<and> rest = []"
  by (cases inp) (auto split: if_splits prod.splits)

lemma getline_shape:
  "getline inp = (line, rest, eof) \<Longrightarrow> last line = CHR 0x0A \<or> rest = []"
  by (induction inp arbitrary: line) (auto split: if_splits prod.splits dest!: getline_Nil)

lemma no_records_append: "no_records (xs @ ys) \<Longrightarrow> no_records xs \<and> no_records ys"
proof (induction xs)
  case Nil
  then show ?case by simp
next
  case (Cons c xs)
  then show ?case by (cases xs; cases ys) auto
qed

lemma no_records_NUL: "no_records xs \<Longrightarrow> no_records (xs @ [NUL])"
  by (induction xs rule: no_records.induct) auto

lemma small_numbers_suffix: "small_numbers (xs @ ys) \<Longrightarrow> small_numbers ys"
  by (induction xs) auto

lemma takeWhile_stop: "\<not> P c \<Longrightarrow> takeWhile P (xs @ c # ys) = takeWhile P xs"
  by (induction xs) auto

lemma small_numbers_line:
  "small_numbers (xs @ c # ys) \<Longrightarrow> \<not> isdigit c \<Longrightarrow> small_numbers (xs @ [c])"
  by (induction xs) (auto simp: digits_value_def takeWhile_stop split: if_splits)

lemma small_numbers_NUL: "small_numbers xs \<Longrightarrow> small_numbers (xs @ [NUL])"
  by (induction xs) (auto simp: digits_value_def takeWhile_stop split: if_splits)

lemma clean_line:
  assumes "getline inp = (line, rest, eof)" and "line \<noteq> []" and "no_records inp" and "small_numbers inp"
  shows "clean (line @ [NUL])"
proof -
  have inp: "inp = line @ rest" using getline_append assms(1) by metis
  have "small_numbers line"
  proof (cases "rest = []")
    case True
    then show ?thesis using assms(4) inp by simp
  next
    case False
    then obtain l where l: "line = l @ [CHR 0x0A]"
      using getline_shape [OF assms(1)] assms(2) by (metis append_butlast_last_id)
    show ?thesis
      using small_numbers_line [of l "CHR 0x0A" rest] assms(4) by (simp add: inp l isdigit_def)
  qed
  moreover have "no_records line" using no_records_append assms(3) inp by blast
  ultimately show ?thesis
    by (simp add: clean_def terminated_def no_records_NUL small_numbers_NUL)
qed

text \<open>
  C14. on every input in which no \<open>r\<close> is followed by a digit and no run of digits overflows an
  \<open>int\<close>, \<open>etafilt\<close> terminates without leaving an allocation, overflowing or any other fault.
\<close>

theorem etafilt_safe:
  assumes "no_records inp" and "small_numbers inp"
  shows "\<exists>out. etafilt_main inp = Inr out"
  using assms
proof (induction inp rule: etafilt_main.induct)
  case (1 inp)
  obtain line rest eof where g: "getline inp = (line, rest, eof)" by (cases "getline inp") auto
  have inp: "inp = line @ rest" using getline_append g by metis
  obtain out where out: "(if line = [] then Inr [] else filter_line (line @ [NUL]) 0) = Inr out"
    using fl.loop_total [OF clean_line [OF g]] "1.prems" by (cases "line = []") auto
  show ?case
  proof (cases eof)
    case True
    then show ?thesis using g out by (simp add: etafilt_main.simps [of inp])
  next
    case False
    have "no_records rest" "small_numbers rest"
      using "1.prems" no_records_append small_numbers_suffix unfolding inp by blast+
    then obtain out' where "etafilt_main rest = Inr out'"
      using "1.IH" [OF g [symmetric] refl out False] by blast
    then show ?thesis using g out False by (simp add: etafilt_main.simps [of inp])
  qed
qed

theorem etafilt_safe_witness:
  "\<exists>out. etafilt_main ''ld: _Imain_paai and _Ix_i1 at r x\<newline>'' = Inr out"
  by (rule etafilt_safe) (simp_all add: isdigit_def digits_value_def digit_val_def)

text \<open>
  a text that contains neither \<open>_I\<close> nor the names of the two runtime entry points, and no
  NUL, passes through unchanged.
\<close>

theorem etafilt_identity:
  assumes "NUL \<notin> set inp" and "\<not> sublist ''_I'' inp" and "\<not> sublist ''_eta_alloc'' inp"
    and "\<not> sublist ''_eta_out_of_bounds'' inp"
  shows "etafilt_main inp = Inr inp"
  using assms
proof (induction inp rule: etafilt_main.induct)
  case (1 inp)
  obtain line rest eof where g: "getline inp = (line, rest, eof)" by (cases "getline inp") auto
  have inp: "inp = line @ rest" using getline_append g by metis
  have none: "tryDemangleSymbol (line @ [NUL]) p = Inr None" if p: "p < length line" for p
  proof (rule tryDemangleSymbol_None)
    have sub: "sublist s inp" if "prefix s (drop p (line @ [NUL]))" "NUL \<notin> set s" for s
    proof -
      have "prefix s (drop p line)"
        using that p by (auto simp: prefix_append prefix_Cons)
      then have "sublist s line" using sublist_drop prefix_imp_sublist sublist_order.order.trans by blast
      then show ?thesis unfolding inp using sublist_appendI sublist_order.order.trans
        by (metis append_Nil sublist_append_rightI)
    qed
    show "\<not> prefix ''_I'' (drop p (line @ [NUL]))"
      and "\<not> prefix ''_eta_alloc'' (drop p (line @ [NUL]))"
      and "\<not> prefix ''_eta_out_of_bounds'' (drop p (line @ [NUL]))"
      using sub "1.prems" by (auto simp: NUL_def)
  qed (use p in \<open>auto simp: terminated_def\<close>)
  have "NUL \<notin> set line" using "1.prems"(1) inp by auto
  then have line: "(if line = [] then Inr [] else filter_line (line @ [NUL]) 0) = Inr line"
    using fl.loop_identity [of line 0] none by auto
  show ?case
  proof (cases eof)
    case True
    then have "rest = []" using g getline_eof by simp
    then show ?thesis using g line True inp etafilt_main.simps [of inp] by simp
  next
    case False
    have "sublist rest inp" unfolding inp by (simp add: sublist_append_leftI)
    then have "etafilt_main rest = Inr rest"
      using "1.IH" [OF g [symmetric] refl line False] "1.prems" inp sublist_order.order.trans by auto
    then show ?thesis using g line False inp etafilt_main.simps [of inp] by simp
  qed
qed

theorem etafilt_identity_witness:
  "etafilt_main ''no symbols here_\<newline>or there'' = Inr ''no symbols here_\<newline>or there''"
  by (rule etafilt_identity) (simp_all add: NUL_def sublist_code)





end
