(* ===== verification/Mangle.thy ===== *)
theory Mangle
  imports Demangle
begin

text \<open>
  The compiler's side of the symbol names: \<open>mangleType\<close> and \<open>mangleMethodName\<close> of
  \<open>src/main/kotlin/ir/IRTranslator.kt\<close>, and the theorem that \<open>etafilt\<close> undoes them.
\<close>

text \<open>The types of \<open>EtaType.kt\<close> that reach the mangler, and a function's type.\<close>

datatype OrdinaryType =
    IntType
  | BoolType
  | ArrayType OrdinaryType
  | UnknownType bool
  | NullType
  | RecordType string

record EtaFunc =
  domain :: "OrdinaryType list"
  codomain :: "OrdinaryType list"

fun mangleType :: "OrdinaryType \<Rightarrow> string" where
  "mangleType (ArrayType t) = ''a'' @ mangleType t"
| "mangleType BoolType = ''b''"
| "mangleType IntType = ''i''"
| "mangleType (RecordType t) = ''r'' @ show_nat (length t) @ t"
| "mangleType _ = ''Charles Sherk <3''"

text \<open>\<open>name.replace("_", "__")\<close>\<close>

definition escape :: "string \<Rightarrow> string" where
  "escape name = concat (map (\<lambda>c. if c = CHR ''_'' then ''__'' else [c]) name)"

definition mangle_ret :: "OrdinaryType list \<Rightarrow> string" where
  "mangle_ret ts =
     (case ts of
        [] \<Rightarrow> ''p''
      | [t] \<Rightarrow> mangleType t
      | _ \<Rightarrow> ''t'' @ show_nat (length ts) @ concat (map mangleType ts))"

text \<open>A type other than a function's is \<open>None\<close>.\<close>

definition mangleMethodName :: "string \<Rightarrow> EtaFunc option \<Rightarrow> string" where
  "mangleMethodName name type =
     (case type of
        Some f \<Rightarrow> ''_I'' @ escape name @ ''_'' @ mangle_ret (codomain f)
                   @ concat (map mangleType (domain f))
      | None \<Rightarrow> ''i love cs 4120 ta charles sherk'')"

section \<open>What a reader should see\<close>

fun show_type :: "OrdinaryType \<Rightarrow> string" where
  "show_type IntType = ''int''"
| "show_type BoolType = ''bool''"
| "show_type (ArrayType t) = show_type t @ ''[]''"
| "show_type (RecordType t) = t"
| "show_type _ = ''?''"

fun show_types :: "OrdinaryType list \<Rightarrow> string" where
  "show_types [] = ''''"
| "show_types [t] = show_type t"
| "show_types (t # ts) = show_type t @ '', '' @ show_types ts"

definition show_ret :: "OrdinaryType list \<Rightarrow> string" where
  "show_ret ts =
     (case ts of
        [] \<Rightarrow> ''''
      | [t] \<Rightarrow> '': '' @ show_type t
      | _ \<Rightarrow> '': ('' @ show_types ts @ '')'')"

definition signature :: "string \<Rightarrow> EtaFunc \<Rightarrow> string" where
  "signature name f = name @ ''('' @ show_types (domain f) @ '')'' @ show_ret (codomain f)"

text \<open>
  The names that survive: a letter, then letters, digits and underscores (the lexer also
  admits \<open>'\<close>, which \<open>etafilt\<close> does not know), and record names without underscores (the
  mangler does not double those in a record's name).
\<close>

definition plain_name :: "string \<Rightarrow> bool" where
  "plain_name n \<longleftrightarrow> n \<noteq> [] \<and> isalpha (hd n) \<and>
     (\<forall>c \<in> set n. isalpha c \<or> isdigit c \<or> c = CHR ''_'')"

fun plain_type :: "OrdinaryType \<Rightarrow> bool" where
  "plain_type (RecordType t) \<longleftrightarrow>
     plain_name t \<and> CHR ''_'' \<notin> set t \<and> int (length t) < 2 ^ 31 - 1"
| "plain_type (ArrayType t) \<longleftrightarrow> plain_type t"
| "plain_type (UnknownType b) \<longleftrightarrow> False"
| "plain_type NullType \<longleftrightarrow> False"
| "plain_type _ \<longleftrightarrow> True"

section \<open>Round trips of the parts\<close>

lemma number_roundtrip:
  assumes "terminated buf" and "drop pos buf = show_nat n @ c # rest" and "\<not> isdigit c"
    and "int n < 2 ^ 31"
  shows "tryDemangleNumber buf pos = Inr (int n, pos + length (show_nat n))"
proof -
  have "pos < length buf" using assms(2) by (metis Nil_is_append_conv drop_all linorder_not_less list.distinct(1))
  moreover have "takeWhile isdigit (drop pos buf) = show_nat n"
    using assms(2,3) show_nat_digits by (simp add: takeWhile_append)
  ultimately show ?thesis
    using tryDemangleNumber_value [OF assms(1)] assms(4) by (simp add: show_nat_value)
qed

lemma drop_rd: "drop pos buf = c # rest \<Longrightarrow> rd buf pos = Inr c"
  by (metis drop_eq_Cons_nth rd_def)

lemma drop_step: "drop pos buf = c # rest \<Longrightarrow> drop (Suc pos) buf = rest"
  by (metis drop_eq_Cons_nth)

lemma drop_append_eq: "drop pos buf = xs @ rest \<Longrightarrow> drop (pos + length xs) buf = rest"
  by (metis add.commute append_eq_conv_conj drop_drop)

lemma record_loop_copy:
  "drop pos buf = nm @ rest \<Longrightarrow> CHR ''_'' \<notin> set nm \<Longrightarrow>
   record_loop buf pos (length nm) str = Inr (Some (str @ nm, pos + length nm))"
proof (induction nm arbitrary: pos str)
  case (Cons c nm)
  then show ?case by (auto simp: drop_rd drop_step)
qed simp

lemma plain_name_NUL: "plain_name n \<Longrightarrow> NUL \<notin> set n"
  by (auto simp: plain_name_def)

lemma c_string_id: "NUL \<notin> set s \<Longrightarrow> c_string s = s"
  by (auto simp: c_string_def takeWhile_eq_all_conv)

lemma alpha_not_digit: "isalpha c \<Longrightarrow> \<not> isdigit c"
  by (auto simp: isalpha_def isdigit_def Let_def)

lemma record_roundtrip:
  assumes "terminated buf" and "drop pos buf = show_nat (length nm) @ nm @ rest"
    and "plain_type (RecordType nm)"
  shows "record_type buf pos = Inr (Some (nm, pos + length (show_nat (length nm)) + length nm))"
proof -
  obtain c nm' where nm: "nm = c # nm'" "isalpha c" using assms(3) by (cases nm) (auto simp: plain_name_def)
  have "tryDemangleNumber buf pos = Inr (int (length nm), pos + length (show_nat (length nm)))"
    using number_roundtrip [OF assms(1), of pos "length nm" c "nm' @ rest"] assms(2,3) nm
    by (auto simp: alpha_not_digit)
  moreover have "record_loop buf (pos + length (show_nat (length nm))) (length nm) []
      = Inr (Some (nm, pos + length (show_nat (length nm)) + length nm))"
    using record_loop_copy [OF drop_append_eq [OF assms(2)]] assms(3) by simp
  moreover have "nm \<noteq> []" using nm by simp
  ultimately show ?thesis
    using assms(3) by (auto simp: record_type_def in_int_def c_string_id plain_name_NUL)
qed

lemma type_roundtrip:
  "terminated buf \<Longrightarrow> drop pos buf = mangleType t @ rest \<Longrightarrow> plain_type t \<Longrightarrow>
   tryDemangleType buf pos = Inr (Some (show_type t, pos + length (mangleType t)))"
proof (induction t arbitrary: pos)
  case IntType
  then have "rd buf pos = Inr CHR ''i''" using drop_rd by simp
  then show ?case by (simp add: tryDemangleType.simps [of buf pos])
next
  case BoolType
  then have "rd buf pos = Inr CHR ''b''" using drop_rd by simp
  then show ?case by (simp add: tryDemangleType.simps [of buf pos])
next
  case (ArrayType t)
  then have c: "rd buf pos = Inr CHR ''a''" and "drop (Suc pos) buf = mangleType t @ rest"
    using drop_rd drop_step by simp_all
  then show ?case using ArrayType by (simp add: tryDemangleType.simps [of buf pos] stringCombine_def)
next
  case (RecordType nm)
  then have c: "rd buf pos = Inr CHR ''r''"
    and "drop (Suc pos) buf = show_nat (length nm) @ nm @ rest"
    using drop_rd drop_step by simp_all
  then show ?case
    using RecordType record_roundtrip [of buf "Suc pos" nm rest]
    by (simp add: tryDemangleType.simps [of buf pos])
qed simp_all

lemma mangleType_start:
  assumes "plain_type t"
  obtains c s where "mangleType t = c # s" and "\<not> isdigit c" and "c \<noteq> CHR ''_''" and "c \<noteq> CHR ''p''"
  using assms by (cases t) (auto simp: isdigit_def)

text \<open>What the loop over a tuple's components appends to its text.\<close>

fun comma_types :: "bool \<Rightarrow> OrdinaryType list \<Rightarrow> string" where
  "comma_types first [] = ''''"
| "comma_types first (t # ts) = (if first then '''' else '', '') @ show_type t @ comma_types False ts"

lemma comma_types_show: "comma_types True ts = show_types ts"
proof (induction ts rule: show_types.induct)
  case (3 t t2 ts)
  then show ?case by simp
qed simp_all

lemma tuple_loop_roundtrip:
  "terminated buf \<Longrightarrow> drop pos buf = concat (map mangleType ts) @ rest \<Longrightarrow> list_all plain_type ts \<Longrightarrow>
   n = c + length ts \<Longrightarrow>
   tuple_loop buf pos c n acc =
     Inr (Some (acc @ comma_types (c = 0) ts @ '')'', pos + length (concat (map mangleType ts))))"
proof (induction ts arbitrary: pos c acc)
  case Nil
  then show ?case by (simp add: tuple_loop.simps [of buf pos] stringCombine_def)
next
  case (Cons t ts)
  have t: "tryDemangleType buf pos = Inr (Some (show_type t, pos + length (mangleType t)))"
    using Cons.prems by (intro type_roundtrip) auto
  have d: "drop (pos + length (mangleType t)) buf = concat (map mangleType ts) @ rest"
    using Cons.prems(2) by (intro drop_append_eq) simp
  show ?case
    using Cons.IH [OF Cons.prems(1) d, of "c + 1"] Cons.prems t
    by (simp add: tuple_loop.simps [of buf pos] Let_def stringCombine_def)
qed

lemma arg_loop_roundtrip:
  "terminated buf \<Longrightarrow> drop pos buf = concat (map mangleType ts) @ x # rest \<Longrightarrow> list_all plain_type ts \<Longrightarrow>
   x \<notin> set ''ibrat'' \<Longrightarrow>
   arg_loop buf pos first acc =
     Inr (acc @ comma_types first ts, pos + length (concat (map mangleType ts)))"
proof (induction ts arbitrary: pos first acc)
  case Nil
  then have "rd buf pos = Inr x" using drop_rd by simp
  then have "tryDemangleType buf pos = Inr None"
    using Nil.prems by (simp add: tryDemangleType.simps [of buf pos] tuple_type.simps [of buf pos])
  then show ?case by (simp add: arg_loop.simps [of buf pos])
next
  case (Cons t ts)
  have t: "tryDemangleType buf pos = Inr (Some (show_type t, pos + length (mangleType t)))"
    using Cons.prems by (intro type_roundtrip) auto
  have d: "drop (pos + length (mangleType t)) buf = concat (map mangleType ts) @ x # rest"
    using Cons.prems(2) by (intro drop_append_eq) simp
  show ?case
    using Cons.IH [OF Cons.prems(1) d] Cons.prems t
    by (simp add: arg_loop.simps [of buf pos] Let_def stringCombine_def)
qed

section \<open>Names\<close>

lemma not_alpha_underscore [simp]: "\<not> isalpha CHR ''_''" "\<not> isdigit CHR ''_''"
  by (simp_all add: isalpha_def isdigit_def)

lemma escape_simps [simp]:
  "escape [] = []"
  "escape (c # n) = (if c = CHR ''_'' then ''__'' else [c]) @ escape n"
  by (simp_all add: escape_def)

lemma escape_length: "length n \<le> length (escape n)"
  by (induction n) auto

text \<open>The name ends where a single underscore follows it.\<close>

lemma name_end_escape:
  "drop pos buf = escape n @ CHR ''_'' # d # rest \<Longrightarrow> d \<noteq> CHR ''_'' \<Longrightarrow>
   \<forall>c \<in> set n. isalpha c \<or> isdigit c \<or> c = CHR ''_'' \<Longrightarrow>
   start < pos \<or> start = pos \<and> n \<noteq> [] \<and> isalpha (hd n) \<Longrightarrow>
   name_end buf start pos = Inr (pos + length (escape n))"
proof (induction n arbitrary: pos)
  case Nil
  from Nil.prems(1) have d: "drop pos buf = CHR ''_'' # d # rest" by simp
  have "start \<noteq> pos" using Nil.prems(4) by auto
  then show ?case
    using drop_rd [OF d] drop_rd [OF drop_step [OF d]] Nil.prems(2)
    by (simp add: name_end.simps [of buf start pos] isalpha_def isdigit_def)
next
  case (Cons c n)
  have c: "rd buf pos = Inr c"
    using Cons.prems(1) by (cases "c = CHR ''_''") (simp_all add: drop_rd)
  have chars: "\<forall>c \<in> set n. isalpha c \<or> isdigit c \<or> c = CHR ''_''" using Cons.prems(3) by simp
  have le: "start \<le> pos" using Cons.prems(4) by auto
  note IH = Cons.IH [OF _ Cons.prems(2) chars]
  show ?case
  proof (cases "c = CHR ''_''")
    case False
    then have "drop pos buf = c # escape n @ CHR ''_'' # d # rest" using Cons.prems(1) by simp
    then have d1: "drop (Suc pos) buf = escape n @ CHR ''_'' # d # rest" by (rule drop_step)
    then have "name_end buf start (Suc pos) = Inr (Suc pos + length (escape n))"
      using IH [OF d1] le by simp
    moreover have "isalpha c \<or> isdigit c \<and> pos \<noteq> start" and "c \<noteq> NUL"
      using Cons.prems False by auto
    ultimately show ?thesis using c False by (auto simp: name_end.simps [of buf start pos])
  next
    case True
    then have "drop pos buf = CHR ''_'' # CHR ''_'' # escape n @ CHR ''_'' # d # rest"
      using Cons.prems(1) by simp
    then have d1: "drop (Suc pos) buf = CHR ''_'' # escape n @ CHR ''_'' # d # rest"
      by (rule drop_step)
    have d2: "drop (Suc (Suc pos)) buf = escape n @ CHR ''_'' # d # rest"
      using drop_step [OF d1] .
    have "name_end buf start (Suc (Suc pos)) = Inr (Suc (Suc pos) + length (escape n))"
      using IH [OF d2] le by simp
    moreover have "start \<noteq> pos" using Cons.prems(4) True by (auto simp: isalpha_def)
    ultimately show ?thesis
      using c True drop_rd [OF d1]
      by (simp add: name_end.simps [of buf start pos] isalpha_def isdigit_def)
  qed
qed

lemma copy_name_escape:
  "drop pos buf = escape n @ rest \<Longrightarrow> endPos = pos + length (escape n) \<Longrightarrow>
   length out + length n < cap \<Longrightarrow> copy_name buf pos endPos cap out = Inr (out @ n)"
proof (induction n arbitrary: pos out)
  case Nil
  then show ?case by (simp add: copy_name.simps [of buf pos])
next
  case (Cons c n)
  have c: "rd buf pos = Inr c" using Cons.prems(1) drop_rd by (auto split: if_splits)
  have "drop (if c = CHR ''_'' then pos + 2 else pos + 1) buf = escape n @ rest"
    using Cons.prems(1) drop_step [of pos buf] drop_step [of "Suc pos" buf] by (auto split: if_splits)
  then show ?case
    using Cons.IH [of "if c = CHR ''_'' then pos + 2 else pos + 1" "out @ [c]"] Cons.prems c
    by (auto simp: copy_name.simps [of buf pos])
qed

lemma name_roundtrip:
  assumes "drop pos buf = escape n @ CHR ''_'' # d # rest" and "d \<noteq> CHR ''_''" and "plain_name n"
  shows "tryDemangleName buf pos = Inr (Some (n, pos + length (escape n)))"
proof -
  have e: "name_end buf pos pos = Inr (pos + length (escape n))"
    using assms by (intro name_end_escape) (auto simp: plain_name_def)
  have "copy_name buf pos (pos + length (escape n)) (length (escape n) + 1) [] = Inr ([] @ n)"
    using assms escape_length [of n] by (intro copy_name_escape) auto
  moreover have "escape n \<noteq> []" using assms(3) by (cases n) (auto simp: plain_name_def)
  ultimately show ?thesis using e by (simp add: tryDemangleName_def)
qed

section \<open>Symbols\<close>

lemma tuple_roundtrip:
  assumes "terminated buf" and "drop pos buf = ''t'' @ show_nat (length ts) @ concat (map mangleType ts) @ rest"
    and "list_all plain_type ts" and "ts \<noteq> []" and "int (length ts) < 2 ^ 31"
  shows "tryDemangleType buf pos =
    Inr (Some (''('' @ show_types ts @ '')'',
      pos + length (''t'' @ show_nat (length ts) @ concat (map mangleType ts))))"
proof -
  let ?p = "Suc pos + length (show_nat (length ts))"
  have c: "rd buf pos = Inr CHR ''t''" using assms(2) drop_rd by simp
  have d1: "drop (Suc pos) buf = show_nat (length ts) @ concat (map mangleType ts) @ rest"
    using assms(2) drop_step by simp
  have d2: "drop ?p buf = concat (map mangleType ts) @ rest" using drop_append_eq [OF d1] by simp
  obtain t ts' where ts: "ts = t # ts'" using assms(4) by (cases ts) auto
  obtain x s where x: "mangleType t = x # s" "\<not> isdigit x"
    using mangleType_start assms(3) ts by (metis list.pred_inject(2))
  have "tryDemangleNumber buf (Suc pos) = Inr (int (length ts), ?p)"
    using number_roundtrip [OF assms(1), of "Suc pos" "length ts" x "s @ concat (map mangleType ts') @ rest"]
      d1 x ts assms(5) by simp
  then show ?thesis
    using c tuple_loop_roundtrip [OF assms(1) d2 assms(3), of "length ts" 0 "''(''"] assms(4)
    by (simp add: tryDemangleType.simps [of buf pos] tuple_type.simps [of buf pos] comma_types_show
        algebra_simps)
qed

lemma ret_roundtrip:
  assumes "terminated buf" and "drop pos buf = mangle_ret ts @ rest"
    and "list_all plain_type ts" and "int (length ts) < 2 ^ 31" and "ts \<noteq> []"
  shows "\<exists>s. tryDemangleType buf pos = Inr (Some (s, pos + length (mangle_ret ts)))
    \<and> show_ret ts = '': '' @ s"
proof (cases "\<exists>t. ts = [t]")
  case True
  then show ?thesis
    using type_roundtrip [OF assms(1), of pos] assms by (auto simp: mangle_ret_def show_ret_def)
next
  case False
  then obtain t u ts' where ts: "ts = t # u # ts'"
    using assms(5) by (metis neq_Nil_conv)
  then show ?thesis
    using tuple_roundtrip [OF assms(1), of pos ts rest] assms by (simp add: mangle_ret_def show_ret_def)
qed

lemma mangle_ret_start:
  assumes "list_all plain_type ts" and "ts \<noteq> []"
  obtains c s where "mangle_ret ts = c # s" and "c \<noteq> CHR ''_''" and "c \<noteq> CHR ''p''"
proof (cases "\<exists>t. ts = [t]")
  case True
  then show thesis using that assms mangleType_start by (auto simp: mangle_ret_def) metis
next
  case False
  then obtain t u ts' where "ts = t # u # ts'" using assms(2) by (metis neq_Nil_conv)
  then show thesis using that by (simp add: mangle_ret_def)
qed

lemma tryDemangleSymbol_function:
  assumes "drop pos buf = ''_I'' @ c # rest" and "c \<noteq> CHR ''_''"
  shows "tryDemangleSymbol buf pos = demangle_function buf (pos + 2)"
proof -
  have d0: "drop pos buf = CHR ''_'' # CHR ''I'' # c # rest" using assms(1) by simp
  note d1 = drop_step [OF d0]
  note r = drop_rd [OF d0] drop_rd [OF d1] drop_rd [OF drop_step [OF d1]]
  show ?thesis
    using r assms(2) by (simp add: tryDemangleSymbol_def startsWith_def)
qed

lemma symbol_roundtrip:
  assumes "terminated buf" and buf: "drop pos buf = mangleMethodName name (Some f) @ x # rest"
    and "plain_name name" and dom: "list_all plain_type (domain f)"
    and cod: "list_all plain_type (codomain f)" and "int (length (codomain f)) < 2 ^ 31"
    and x: "x \<notin> set ''ibrat''"
  shows "tryDemangleSymbol buf pos =
    Inr (Some (signature name f, pos + length (mangleMethodName name (Some f))))"
proof -
  let ?args = "concat (map mangleType (domain f))"
  let ?p1 = "pos + 2 + length (escape name)"
  let ?p2 = "?p1 + 1 + length (mangle_ret (codomain f))"
  obtain n0 n' where n0: "escape name = n0 # n'" "n0 \<noteq> CHR ''_''"
    using assms(3) by (cases name; cases "hd name = CHR ''_''") (auto simp: plain_name_def)
  have d0: "drop pos buf = ''_I'' @ n0 # n' @ ''_'' @ mangle_ret (codomain f) @ ?args @ x # rest"
    using buf n0 by (simp add: mangleMethodName_def)
  have d2: "drop (pos + 2) buf = escape name @ CHR ''_'' # mangle_ret (codomain f) @ ?args @ x # rest"
    using drop_append_eq [of pos buf "''_I''"] d0 n0 by simp
  have d3: "drop ?p1 buf = CHR ''_'' # mangle_ret (codomain f) @ ?args @ x # rest"
    using drop_append_eq [OF d2] by simp
  have d4: "drop (?p1 + 1) buf = mangle_ret (codomain f) @ ?args @ x # rest"
    using drop_step [OF d3] by simp
  have d5: "drop ?p2 buf = ?args @ x # rest" using drop_append_eq [OF d4] by simp
  have args: "arg_loop buf ?p2 True acc = Inr (acc @ show_types (domain f), ?p2 + length ?args)" for acc
    using arg_loop_roundtrip [OF assms(1) d5 dom x] by (simp add: comma_types_show)
  have name: "tryDemangleName buf (pos + 2) = Inr (Some (name, ?p1))" if "r \<noteq> CHR ''_''"
    "mangle_ret (codomain f) = r # r'" for r r'
    using name_roundtrip [of "pos + 2" buf name r "r' @ ?args @ x # rest"] d2 that assms(3) by simp
  have "demangle_function buf (pos + 2) = Inr (Some (signature name f, ?p2 + length ?args))"
  proof (cases "codomain f = []")
    case True
    then have r: "mangle_ret (codomain f) = [CHR ''p'']" by (simp add: mangle_ret_def)
    then have "rd buf (?p1 + 1) = Inr CHR ''p''" using d4 drop_rd by simp
    then show ?thesis
      using name [of "CHR ''p''"] drop_rd [OF d3] args r True
      by (simp add: demangle_function_def signature_def show_ret_def stringCombine_def)
  next
    case False
    obtain c s where c: "mangle_ret (codomain f) = c # s" "c \<noteq> CHR ''_''" "c \<noteq> CHR ''p''"
      using mangle_ret_start [OF cod False] by blast
    have "rd buf (?p1 + 1) = Inr c" using d4 c drop_rd by simp
    moreover obtain s where "tryDemangleType buf (?p1 + 1) = Inr (Some (s, ?p2))"
      and "show_ret (codomain f) = '': '' @ s"
      using ret_roundtrip [OF assms(1) d4 cod assms(6) False] by auto
    ultimately show ?thesis
      using name [OF c(2,1)] drop_rd [OF d3] args c(3)
      by (simp add: demangle_function_def signature_def stringCombine_def)
  qed
  then show ?thesis
    using tryDemangleSymbol_function [OF d0 n0(2)] by (simp add: mangleMethodName_def algebra_simps)
qed

text \<open>
  C15. the linker symbol the compiler makes for a function is turned back into its signature by
  \<open>etafilt\<close>, wherever it stands in a line: the text before and after it is filtered as if it
  were not there. The name is a letter followed by letters, digits and underscores, record names
  have no underscore, and the character after the symbol cannot start a type.
\<close>

theorem demangle_mangle:
  assumes "plain_name name" and "list_all plain_type (domain f)" and "list_all plain_type (codomain f)"
    and "int (length (codomain f)) < 2 ^ 31" and "x \<notin> set ''ibrat''" and "terminated (x # rest)"
  shows "filter_line (pre @ mangleMethodName name (Some f) @ x # rest) (length pre) =
    rbind (filter_line (pre @ mangleMethodName name (Some f) @ x # rest)
             (length pre + length (mangleMethodName name (Some f))))
      (\<lambda>out. Inr (signature name f @ out))"
proof -
  let ?m = "mangleMethodName name (Some f)"
  let ?buf = "pre @ ?m @ x # rest"
  have "terminated ?buf" using assms(6) by (simp add: terminated_def)
  then have "tryDemangleSymbol ?buf (length pre) = Inr (Some (signature name f, length pre + length ?m))"
    using assms by (intro symbol_roundtrip) auto
  moreover have "rd ?buf (length pre) = Inr CHR ''_''"
    by (simp add: rd_def nth_append mangleMethodName_def)
  ultimately show ?thesis by (simp add: filter_line.simps [of ?buf "length pre"])
qed

theorem demangle_mangle_witness:
  "filter_line (''call '' @ mangleMethodName ''my_main'' (Some \<lparr>domain = [ArrayType (ArrayType IntType)],
       codomain = [BoolType, RecordType ''pt'']\<rparr>) @ CHR '')'' # [NUL]) 5
   = Inr ''my_main(int[][]): (bool, pt))''"
proof -
  let ?f = "\<lparr>domain = [ArrayType (ArrayType IntType)], codomain = [BoolType, RecordType ''pt'']\<rparr>"
  have m: "mangleMethodName ''my_main'' (Some ?f) = ''_Imy__main_t2br2ptaai''"
    by code_simp
  have "filter_line (''call _Imy__main_t2br2ptaai)'' @ [NUL]) 26 = Inr '')''" by code_simp
  then show ?thesis
    using demangle_mangle [of "''my_main''" ?f "CHR '')''" "[NUL]" "''call ''"]
    by (simp add: m plain_name_def isalpha_def isdigit_def terminated_def signature_def show_ret_def
        eval_nat_numeral)
qed

lemma record_loop_underscore:
  "drop pos buf = u @ CHR ''_'' # c # rest \<Longrightarrow> CHR ''_'' \<notin> set u \<Longrightarrow> c \<noteq> CHR ''_'' \<Longrightarrow>
   length u < n \<Longrightarrow> record_loop buf pos n str = Inr None"
proof (induction u arbitrary: pos n str)
  case Nil
  then have d: "drop pos buf = CHR ''_'' # c # rest" by simp
  obtain m where "n = Suc m" using Nil.prems(4) by (cases n) auto
  then show ?case using drop_rd [OF d] drop_rd [OF drop_step [OF d]] Nil.prems(3) by simp
next
  case (Cons a u)
  then have d: "drop pos buf = a # u @ CHR ''_'' # c # rest" by simp
  obtain m where m: "n = Suc m" using Cons.prems(4) by (cases n) auto
  then have "record_loop buf (Suc pos) m (str @ [a]) = Inr None"
    using Cons.IH [OF drop_step [OF d]] Cons.prems by simp
  then show ?case using drop_rd [OF d] Cons.prems(2) m by auto
qed

text \<open>
  the two sides disagree on record names. The mangler writes a record's name as it is, and
  \<open>etafilt\<close> expects an underscore in it to be doubled: a type whose record name has a single
  underscore is not recognised.
\<close>

theorem record_underscore_unrecognised:
  assumes "terminated buf" and "nm = u @ CHR ''_'' # c # v"
    and "drop pos buf = mangleType (RecordType nm) @ rest"
    and "plain_name nm" and "CHR ''_'' \<notin> set u" and "c \<noteq> CHR ''_''" and "int (length nm) < 2 ^ 31 - 1"
  shows "tryDemangleType buf pos = Inr None"
proof -
  let ?n = "length nm"
  let ?p = "Suc pos + length (show_nat ?n)"
  have d0: "drop pos buf = CHR ''r'' # show_nat ?n @ nm @ rest" using assms(3) by simp
  note d1 = drop_step [OF d0]
  obtain a nm' where a: "nm = a # nm'" "isalpha a" using assms(4) by (cases nm) (auto simp: plain_name_def)
  have num: "tryDemangleNumber buf (Suc pos) = Inr (int ?n, ?p)"
    using number_roundtrip [OF assms(1), of "Suc pos" ?n a "nm' @ rest"] d1 a assms(7)
    by (simp add: alpha_not_digit)
  have "drop ?p buf = u @ CHR ''_'' # c # v @ rest" using drop_append_eq [OF d1] assms(2) by simp
  then have "record_loop buf ?p ?n [] = Inr None"
    using assms(2,5,6) by (intro record_loop_underscore) auto
  moreover have "nm \<noteq> []" using a(1) by simp
  ultimately have "record_type buf (Suc pos) = Inr None"
    using num assms(7) by (auto simp: record_type_def in_int_def)
  then show ?thesis using drop_rd [OF d0] by (simp add: tryDemangleType.simps [of buf pos])
qed

theorem record_underscore_unrecognised_witness:
  "tryDemangleType (mangleType (RecordType ''my_pt'') @ [NUL]) 0 = Inr None"
proof -
  have m: "mangleType (RecordType ''my_pt'') = ''r5my_pt''" by code_simp
  show ?thesis
    by (rule record_underscore_unrecognised
        [where nm = "''my_pt''" and u = "''my''" and c = "CHR ''p''" and v = "''t''"])
      (simp_all add: m terminated_def plain_name_def isalpha_def)
qed

end
