(* ===== verification/EtaHeap.thy ===== *)
theory EtaHeap
  imports Prelude
begin

text \<open>
  The memory the runtime library works on (\<open>runtime/libeta/libeta.c\<close>, core runtime): blocks
  of 64-bit words, allocated by the collector or by \<open>malloc\<close>, and the arrays and strings of
  Eta in them.

  A pointer is a block and a word offset. An Eta array is a pointer to its first element; its
  length is the word before it. The collector (\<open>GC_malloc\<close>, vendored) is modelled by its
  documented behaviour: a fresh block of zeros, or null when it cannot get the memory, that is
  when the request is not below \<open>heap_limit\<close>. Its reclaiming of unreachable blocks is not
  observable here. \<open>malloc\<close> gives a block of indeterminate words under the same limit.
\<close>

section \<open>State\<close>

datatype val =
    VInt int          \<comment> \<open>an \<open>etaint\<close>\<close>
  | VPtr nat int      \<comment> \<open>a pointer: block and word offset\<close>
  | Undef             \<comment> \<open>an indeterminate word\<close>

datatype origin = Collected | Malloced

record block =
  words :: "val list"
  origin :: origin

type_synonym ptr = "nat \<times> int"

record rt =
  blocks :: "nat \<Rightarrow> block option"
  next_block :: nat
  heap_limit :: int
  gc_ready :: bool
  gc_inits :: nat           \<comment> \<open>how often \<open>GC_INIT\<close> was called\<close>
  all_interior :: bool      \<comment> \<open>\<open>GC_set_all_interior_pointers\<close>\<close>
  finalizers :: "ptr \<Rightarrow> nat option"
  stdin_rest :: string
  stdin_eof :: bool         \<comment> \<open>the end-of-file indicator of stdin\<close>
  stdout :: "int list"      \<comment> \<open>the bytes written, oldest first\<close>

section \<open>Memory\<close>

definition load :: "rt \<Rightarrow> ptr \<Rightarrow> val result" where
  "load s p =
     (case blocks s (fst p) of
        None \<Rightarrow> Inl Overrun
      | Some b \<Rightarrow>
          if 0 \<le> snd p \<and> snd p < int (length (words b)) then Inr (words b ! nat (snd p))
          else Inl Overrun)"

definition store :: "ptr \<Rightarrow> val \<Rightarrow> rt \<Rightarrow> rt result" where
  "store p v s =
     (case blocks s (fst p) of
        None \<Rightarrow> Inl Overrun
      | Some b \<Rightarrow>
          if 0 \<le> snd p \<and> snd p < int (length (words b))
          then Inr (s\<lparr>blocks := (blocks s)(fst p \<mapsto> b\<lparr>words := (words b)[nat (snd p) := v]\<rparr>)\<rparr>)
          else Inl Overrun)"

definition load_int :: "rt \<Rightarrow> ptr \<Rightarrow> int result" where
  "load_int s p = rbind (load s p) (\<lambda>v. case v of VInt i \<Rightarrow> Inr i | _ \<Rightarrow> Inl Uninitialised)"

definition load_ptr :: "rt \<Rightarrow> ptr \<Rightarrow> ptr result" where
  "load_ptr s p = rbind (load s p) (\<lambda>v. case v of VPtr b i \<Rightarrow> Inr (b, i) | _ \<Rightarrow> Inl Uninitialised)"

definition padd :: "ptr \<Rightarrow> int \<Rightarrow> ptr" where
  "padd p i = (fst p, snd p + i)"

text \<open>\<open>sz\<close> is the number of bytes, as a \<open>size_t\<close>; a trailing part of a word is not usable.\<close>

definition new_block :: "origin \<Rightarrow> val \<Rightarrow> int \<Rightarrow> rt \<Rightarrow> ptr option \<times> rt" where
  "new_block org v sz s =
     (if sz < heap_limit s
      then (Some (next_block s, 0),
            s\<lparr>blocks := (blocks s)(next_block s \<mapsto>
                 \<lparr>words = replicate (nat (sz div 8)) v, origin = org\<rparr>),
              next_block := next_block s + 1\<rparr>)
      else (None, s))"

definition size_t :: "int \<Rightarrow> int" where
  "size_t x = x mod 2 ^ 64"

definition free_ptr :: "ptr \<Rightarrow> rt \<Rightarrow> rt result" where
  "free_ptr p s =
     (case blocks s (fst p) of
        Some b \<Rightarrow>
          if origin b = Malloced \<and> snd p = 0 then Inr (s\<lparr>blocks := (blocks s)(fst p := None)\<rparr>)
          else Inl InvalidFree
      | None \<Rightarrow> Inl InvalidFree)"

section \<open>Core runtime\<close>

text \<open>\<open>_eta_alloc(size)\<close>; the result is null when the collector has no memory.\<close>

definition eta_alloc :: "int \<Rightarrow> rt \<Rightarrow> ptr option \<times> rt" where
  "eta_alloc sz s =
     (let s1 = (if \<not> gc_ready s
                then s\<lparr>gc_inits := gc_inits s + 1, all_interior := True, gc_ready := True\<rparr>
                else s)
      in new_block Collected (VInt 0) (size_t sz) s1)"

text \<open>
  \<open>registerFinalizer(object, fin)\<close>: the collector keeps one finalizer per object and a new
  registration replaces the old one, as the documentation of
  \<open>GC_register_finalizer_ignore_self\<close> says. A finalizer is known by its code address.
\<close>

definition registerFinalizer :: "ptr \<Rightarrow> nat \<Rightarrow> rt \<Rightarrow> rt" where
  "registerFinalizer object fin s = s\<lparr>finalizers := (finalizers s)(object \<mapsto> fin)\<rparr>"

definition eta_out_of_bounds :: "rt result" where
  "eta_out_of_bounds = Inl (Aborted ''Array index out of bounds'')"

definition report_stack_error :: "rt result" where
  "report_stack_error = Inl (Aborted ''Stack pointer misaligned at call from user code'')"

text \<open>
  \<open>mkArray(bytes, cells)\<close>. \<open>bytes + sizeof(etaint)\<close> is computed in \<open>size_t\<close> and passed as an
  \<open>etaint\<close>, so a negative \<open>bytes\<close> reaches \<open>_eta_alloc\<close> as \<open>bytes + 8\<close>.
\<close>

definition mkArray :: "int \<Rightarrow> int \<Rightarrow> rt \<Rightarrow> (ptr \<times> rt) result" where
  "mkArray bytes cells s =
     (case eta_alloc (bytes + 8) s of
        (None, s1) \<Rightarrow> Inl NullDeref
      | (Some memory, s1) \<Rightarrow>
          rbind (store memory (VInt cells) s1) (\<lambda>s2. Inr (padd memory 1, s2)))"

text \<open>A \<open>char\<close> is signed on the platforms of the runtime.\<close>

definition schar :: "char \<Rightarrow> int" where
  "schar c = signed_take_bit 7 (of_char c)"

fun mkString_loop :: "ptr \<Rightarrow> int \<Rightarrow> string \<Rightarrow> rt \<Rightarrow> rt result" where
  "mkString_loop out c [] s = Inr s"
| "mkString_loop out c (x # xs) s =
     rbind (store (padd out c) (VInt (schar x)) s) (mkString_loop out (c + 1) xs)"

text \<open>
  \<open>mkString(in)\<close> for the C string of the characters \<open>cs\<close>: the loop runs while \<open>c < len\<close>, so it
  copies the first \<open>len\<close> characters, where \<open>len\<close> is \<open>strlen\<close> converted to an \<open>int\<close>.
\<close>

definition mkString :: "string \<Rightarrow> rt \<Rightarrow> (ptr \<times> rt) result" where
  "mkString cs s =
     (let len = to_int (int (length cs))
      in rbind (mkArray (to_int (size_t (size_t len * 8))) len s) (\<lambda>(out, s1).
           rbind (mkString_loop out 0 (take (nat len) cs) s1) (\<lambda>s2. Inr (out, s2))))"

section \<open>Arrays\<close>

text \<open>\<open>is_array s p vs\<close>: the pointer \<open>p\<close> is an Eta array with the elements \<open>vs\<close>.\<close>

definition is_array :: "rt \<Rightarrow> ptr \<Rightarrow> val list \<Rightarrow> bool" where
  "is_array s p vs \<longleftrightarrow>
     (\<exists>b pre post. blocks s (fst p) = Some b \<and> words b = pre @ VInt (int (length vs)) # vs @ post
        \<and> snd p = int (length pre) + 1)"

text \<open>The heap only grows: fresh blocks are added and the others keep their words.\<close>

definition fresh_ok :: "rt \<Rightarrow> bool" where
  "fresh_ok s \<longleftrightarrow> (\<forall>b \<ge> next_block s. blocks s b = None)"

definition grows :: "rt \<Rightarrow> rt \<Rightarrow> bool" where
  "grows s s' \<longleftrightarrow>
     (\<forall>b. blocks s b \<noteq> None \<longrightarrow> blocks s' b = blocks s b) \<and> next_block s \<le> next_block s'
     \<and> heap_limit s' = heap_limit s \<and> stdin_rest s' = stdin_rest s \<and> stdin_eof s' = stdin_eof s
     \<and> stdout s' = stdout s"

lemma grows_refl [simp]: "grows s s"
  by (simp add: grows_def)

lemma grows_trans: "grows s t \<Longrightarrow> grows t u \<Longrightarrow> grows s u"
  by (auto simp: grows_def)

lemma is_array_grows: "is_array s p vs \<Longrightarrow> grows s s' \<Longrightarrow> is_array s' p vs"
  by (fastforce simp: is_array_def grows_def)

lemma array_length:
  assumes "is_array s p vs"
  shows "load_int s (padd p (- 1)) = Inr (int (length vs))"
  using assms by (auto simp: is_array_def load_int_def load_def padd_def nth_append)

lemma array_element:
  assumes "is_array s p vs" and "0 \<le> i" and "i < int (length vs)"
  shows "load s (padd p i) = Inr (vs ! nat i)"
proof -
  obtain b pre post where b: "blocks s (fst p) = Some b"
    "words b = pre @ VInt (int (length vs)) # vs @ post" "snd p = int (length pre) + 1"
    using assms(1) by (auto simp: is_array_def)
  have "nat (snd p + i) = length pre + Suc (nat i)" using b assms by simp
  moreover have "nat i < length vs" using assms(2,3) by linarith
  ultimately show ?thesis using b assms by (simp add: load_def padd_def nth_append)
qed

definition int_array :: "rt \<Rightarrow> ptr \<Rightarrow> int list \<Rightarrow> bool" where
  "int_array s p cs \<longleftrightarrow> is_array s p (map VInt cs)"

lemma int_array_stdout [simp]: "int_array (s\<lparr>stdout := bs\<rparr>) p cs = int_array s p cs"
  by (simp add: int_array_def is_array_def)

lemma load_int_array:
  assumes "int_array s p cs" and "0 \<le> i" and "i < int (length cs)"
  shows "load_int s (padd p i) = Inr (cs ! nat i)"
  using array_element [OF assms(1) [unfolded int_array_def] assms(2)] assms(2,3)
  by (simp add: load_int_def nat_less_iff)

section \<open>The invariant of the runtime state\<close>

text \<open>
  Block ids at or above the counter are free, and the collector has been set up exactly once
  as soon as it is in use: \<open>GC_INIT\<close> is not called again however many allocations follow.
\<close>

definition rt_ok :: "rt \<Rightarrow> bool" where
  "rt_ok s \<longleftrightarrow> fresh_ok s \<and> gc_inits s = (if gc_ready s then 1 else 0) \<and> (gc_ready s \<longrightarrow> all_interior s)"

lemma eta_alloc_spec:
  assumes "rt_ok s" and "0 \<le> sz" and "sz < 2 ^ 63"
  shows "case eta_alloc sz s of
           (None, s') \<Rightarrow> heap_limit s \<le> sz \<and> grows s s' \<and> rt_ok s'
         | (Some p, s') \<Rightarrow> sz < heap_limit s \<and> p = (next_block s, 0) \<and> grows s s' \<and> rt_ok s' \<and>
             blocks s' (fst p) = Some \<lparr>words = replicate (nat (sz div 8)) (VInt 0), origin = Collected\<rparr> \<and>
             gc_ready s'"
proof -
  have [simp]: "size_t sz = sz" using assms(2,3) by (simp add: size_t_def)
  have "blocks s (next_block s) = None" using assms(1) by (simp add: rt_ok_def fresh_ok_def)
  then show ?thesis using assms(1)
    by (auto simp: eta_alloc_def new_block_def Let_def grows_def rt_ok_def fresh_ok_def)
qed

lemma rt_ok_store: "store p v s = Inr s' \<Longrightarrow> rt_ok s \<Longrightarrow> rt_ok s'"
  by (auto simp: store_def rt_ok_def fresh_ok_def split: option.splits if_splits)

text \<open>\<open>mkArray\<close> makes an array of \<open>cells\<close> zero words when \<open>bytes\<close> is eight times that.\<close>

lemma mkArray_spec:
  assumes "rt_ok s" and "0 \<le> bytes" and "bytes + 8 < heap_limit s" and "bytes < 2 ^ 31"
  shows "\<exists>s'. mkArray bytes cells s = Inr ((next_block s, 1), s') \<and> grows s s' \<and> rt_ok s' \<and>
           blocks s' (next_block s) =
             Some \<lparr>words = VInt cells # replicate (nat (bytes div 8)) (VInt 0), origin = Collected\<rparr> \<and>
           next_block s < next_block s'"
proof -
  have n: "nat ((bytes + 8) div 8) = Suc (nat (bytes div 8))" using assms(2) by simp
  obtain q s1 where e: "eta_alloc (bytes + 8) s = (q, s1)" by (cases "eta_alloc (bytes + 8) s")
  with eta_alloc_spec [OF assms(1), of "bytes + 8"] assms n
  have q: "q = Some (next_block s, 0)" "grows s s1" "rt_ok s1"
    "blocks s1 (next_block s) = Some \<lparr>words = VInt 0 # replicate (nat (bytes div 8)) (VInt 0), origin = Collected\<rparr>"
    by (auto split: option.splits)
  have "next_block s < next_block s1"     using q(3,4) by (metis rt_ok_def fresh_ok_def not_less option.distinct(1))
  moreover have "blocks s (next_block s) = None" using assms(1) by (simp add: rt_ok_def fresh_ok_def)
  ultimately show ?thesis using q e
    by (auto simp: mkArray_def store_def padd_def grows_def rt_ok_def fresh_ok_def)
qed

section \<open>Strings\<close>

lemma mkString_loop_spec:
  assumes "blocks s k = Some b" and "words b = pre @ rest" and "length xs \<le> length rest"
    and "off + c = int (length pre)"
  shows "mkString_loop (k, off) c xs s =
    Inr (s\<lparr>blocks := (blocks s)(k \<mapsto> b\<lparr>words := pre @ map (\<lambda>x. VInt (schar x)) xs @ drop (length xs) rest\<rparr>)\<rparr>)"
  using assms
proof (induction xs arbitrary: s b c pre rest)
  case Nil
  then have "blocks s = (blocks s)(k \<mapsto> b)" and "b = b\<lparr>words := pre @ rest\<rparr>" by auto
  then show ?case by (cases s) (simp flip: fun_upd_def)
next
  case (Cons x xs)
  then obtain r rs where r: "rest = r # rs" by (cases rest) auto
  let ?b = "b\<lparr>words := (pre @ [VInt (schar x)]) @ rs\<rparr>"
  let ?s = "s\<lparr>blocks := (blocks s)(k \<mapsto> ?b)\<rparr>"
  have "nat (off + c) = length pre" using Cons.prems by simp
  then have "store (padd (k, off) c) (VInt (schar x)) s = Inr ?s"
    using Cons.prems r by (simp add: store_def padd_def)
  moreover have "mkString_loop (k, off) (c + 1) xs ?s =
      Inr (?s\<lparr>blocks := (blocks ?s)(k \<mapsto> ?b\<lparr>words := (pre @ [VInt (schar x)]) @
           map (\<lambda>x. VInt (schar x)) xs @ drop (length xs) rs\<rparr>)\<rparr>)"
    by (rule Cons.IH) (use Cons.prems r in auto)
  ultimately show ?case using r by (simp add: fun_upd_def cong: if_cong)
qed

definition string_vals :: "string \<Rightarrow> val list" where
  "string_vals cs = map (\<lambda>c. VInt (schar c)) cs"

lemma length_string_vals [simp]: "length (string_vals cs) = length cs"
  by (simp add: string_vals_def)

lemma mkString_spec:
  assumes "rt_ok s" and "length cs < 2 ^ 28 - 1" and "8 * (int (length cs) + 1) < heap_limit s"
  shows "\<exists>p s'. mkString cs s = Inr (p, s') \<and> is_array s' p (string_vals cs) \<and> grows s s' \<and> rt_ok s'
           \<and> next_block s < next_block s' \<and> fst p = next_block s \<and> snd p = 1"
proof -
  let ?n = "int (length cs)"
  have n: "?n < 2 ^ 28 - 1" using assms(2) by simp
  have len: "to_int ?n = ?n" using n by (intro to_int_id) (simp add: in_int_def)
  have "size_t ?n = ?n" "size_t (?n * 8) = ?n * 8" using n by (simp_all add: size_t_def)
  moreover have "to_int (?n * 8) = ?n * 8" using n by (intro to_int_id) (simp add: in_int_def)
  ultimately have sz: "to_int (size_t (size_t ?n * 8)) = ?n * 8" by simp
  have "\<exists>s'. mkArray (?n * 8) ?n s = Inr ((next_block s, 1), s') \<and> grows s s' \<and> rt_ok s' \<and>
           blocks s' (next_block s) =
             Some \<lparr>words = VInt ?n # replicate (nat ((?n * 8) div 8)) (VInt 0), origin = Collected\<rparr> \<and>
           next_block s < next_block s'"
    by (rule mkArray_spec) (use assms n in auto)
  then obtain s1 where s1: "mkArray (?n * 8) ?n s = Inr ((next_block s, 1), s1)" "grows s s1" "rt_ok s1"
    "blocks s1 (next_block s) = Some \<lparr>words = [VInt ?n] @ replicate (length cs) (VInt 0), origin = Collected\<rparr>"
    "next_block s < next_block s1"
    by auto
  let ?w = "[VInt ?n] @ string_vals cs"
  let ?s = "s1\<lparr>blocks := (blocks s1)(next_block s \<mapsto> \<lparr>words = ?w, origin = Collected\<rparr>)\<rparr>"
  have l: "mkString_loop (next_block s, 1) 0 cs s1 = Inr ?s"
    using mkString_loop_spec [OF s1(4), of "[VInt ?n]" "replicate (length cs) (VInt 0)" cs 1 0]
    by (simp add: string_vals_def)
  have e: "mkString cs s = Inr ((next_block s, 1), ?s)"
    using s1(1) l len sz by (simp add: mkString_def Let_def)
  have a: "is_array ?s (next_block s, 1) (string_vals cs)"
    unfolding is_array_def
    by (rule exI [of _ "\<lparr>words = ?w, origin = Collected\<rparr>"], rule exI [of _ "[]"], rule exI [of _ "[]"])
      simp
  have "blocks s (next_block s) = None" using assms(1) by (simp add: rt_ok_def fresh_ok_def)
  then have "grows s ?s" "rt_ok ?s" using s1(2,3,4,5) by (auto simp: grows_def rt_ok_def fresh_ok_def)
  then show ?thesis using e a s1(5) by auto
qed

lemma string_vals_array: "is_array s p (string_vals cs) \<longleftrightarrow> int_array s p (map schar cs)"
  by (simp add: int_array_def string_vals_def comp_def)

section \<open>Interface: operations that return a fresh array\<close>

text \<open>
  \<open>mkString\<close>, \<open>unparseInt\<close> and the timer return a pointer to a fresh array. What their callers
  use of them: the array has the promised elements, what was there before is untouched, and
  the state stays well formed.
\<close>

locale array_source =
  fixes make :: "rt \<Rightarrow> (ptr \<times> rt) result"
    and pre :: "rt \<Rightarrow> bool"
    and elems :: "val list"
  assumes makes: "rt_ok s \<Longrightarrow> pre s \<Longrightarrow>
    \<exists>p s'. make s = Inr (p, s') \<and> is_array s' p elems \<and> grows s s' \<and> rt_ok s' \<and> blocks s (fst p) = None"
begin

lemma no_fault: "rt_ok s \<Longrightarrow> pre s \<Longrightarrow> make s \<noteq> Inl e"
  using makes by force

lemma made:
  assumes "rt_ok s" and "pre s" and "make s = Inr (p, s')"
  shows "is_array s' p elems" and "grows s s'" and "rt_ok s'" and "blocks s (fst p) = None"
  using makes [OF assms(1,2)] assms(3) by auto

lemma len:
  assumes "rt_ok s" and "pre s" and "make s = Inr (p, s')"
  shows "load_int s' (padd p (- 1)) = Inr (int (length elems))"
  by (rule array_length) (rule made(1) [OF assms])

lemma keeps:
  assumes "rt_ok s" and "pre s" and "make s = Inr (p, s')" and "is_array s q vs"
  shows "is_array s' q vs"
  by (rule is_array_grows [OF assms(4) made(2) [OF assms(1-3)]])

lemma reads:
  assumes "rt_ok s" and "pre s" and "make s = Inr (p, s')" and "i < length elems"
  shows "load s' (padd p (int i)) = Inr (elems ! i)"
  using array_element [OF made(1) [OF assms(1-3)], of "int i"] assms(4) by simp

end

definition fits :: "nat \<Rightarrow> rt \<Rightarrow> bool" where
  "fits n s \<longleftrightarrow> n < 2 ^ 28 - 1 \<and> 8 * (int n + 1) < heap_limit s"

interpretation mkstr: array_source "mkString cs" "fits (length cs)" "string_vals cs" for cs
proof
  fix s assume r: "rt_ok s" and f: "fits (length cs) s"
  from r have "blocks s (next_block s) = None" by (simp add: rt_ok_def fresh_ok_def)
  with mkString_spec [OF r, of cs] f
  show "\<exists>p s'. mkString cs s = Inr (p, s') \<and> is_array s' p (string_vals cs) \<and> grows s s' \<and> rt_ok s' \<and> blocks s (fst p) = None"
    unfolding fits_def by force
qed

section \<open>Properties\<close>

text \<open>An empty runtime state, for the witnesses.\<close>

definition rt_start :: "string \<Rightarrow> rt" where
  "rt_start inp =
     \<lparr>blocks = (\<lambda>_. None), next_block = 0, heap_limit = 2 ^ 30, gc_ready = False, gc_inits = 0,
      all_interior = False, finalizers = (\<lambda>_. None), stdin_rest = inp, stdin_eof = False, stdout = []\<rparr>"

lemma rt_start_ok [simp]: "rt_ok (rt_start inp)"
  by (simp add: rt_ok_def fresh_ok_def rt_start_def)

lemma rt_start_simps [simp]:
  "heap_limit (rt_start inp) = 2 ^ 30" "stdin_rest (rt_start inp) = inp" "stdin_eof (rt_start inp) = False"
  "stdout (rt_start inp) = []" "blocks (rt_start inp) b = None" "next_block (rt_start inp) = 0"
  by (simp_all add: rt_start_def)

lemma fits_start [simp]: "n < 1000 \<Longrightarrow> fits n (rt_start inp)"
  by (simp add: fits_def)

text \<open>
  \<open>mkString\<close> turns a C string into an Eta string: a fresh array, preceded by its length,
  with one word per character (sign extended), and nothing that was allocated before changes;
  the collector has been set up exactly once.
\<close>

theorem mkString_array:
  assumes "rt_ok s" and "fits (length cs) s"
  shows "\<exists>p s'. mkString cs s = Inr (p, s')
    \<and> load_int s' (padd p (- 1)) = Inr (int (length cs))
    \<and> (\<forall>i < length cs. load_int s' (padd p (int i)) = Inr (schar (cs ! i)))
    \<and> (\<forall>q vs. is_array s q vs \<longrightarrow> is_array s' q vs \<and> fst q \<noteq> fst p)
    \<and> rt_ok s'"
proof -
  obtain p s' where m: "mkString cs s = Inr (p, s')" "is_array s' p (string_vals cs)" "blocks s (fst p) = None" "rt_ok s'"
    using mkstr.makes [OF assms] by blast
  have "load_int s' (padd p (int i)) = Inr (schar (cs ! i))" if "i < length cs" for i
    using mkstr.reads [OF assms m(1), of i] that by (simp add: load_int_def string_vals_def)
  moreover have "fst q \<noteq> fst p" if "is_array s q vs" for q vs
    using that m(3) by (auto simp: is_array_def)
  ultimately show ?thesis using m(1,4) mkstr.len [OF assms m(1)] mkstr.keeps [OF assms m(1)]
    by (intro exI [of _ p] exI [of _ s'] conjI allI impI) simp_all
qed

theorem mkString_array_witness:
  "\<exists>p s'. mkString ''Eta'' (rt_start []) = Inr (p, s') \<and> load_int s' (padd p (- 1)) = Inr 3
    \<and> load_int s' (padd p 0) = Inr 69"
proof -
  obtain p s' where "mkString ''Eta'' (rt_start []) = Inr (p, s')"
    "load_int s' (padd p (- 1)) = Inr (int (length ''Eta''))"
    "\<forall>i < length ''Eta''. load_int s' (padd p (int i)) = Inr (schar (''Eta'' ! i))"
    using mkString_array [of "rt_start []" "''Eta''"] by auto
  moreover have "schar CHR ''E'' = 69" by code_simp
  ultimately show ?thesis by (intro exI [of _ p] exI [of _ s']) auto
qed

end
