(* ===== verification/EtaIO.thy ===== *)
theory EtaIO
  imports EtaHeap
begin

text \<open>
  The I/O module of \<open>runtime/libeta/libeta.c\<close>: \<open>printUcs4char\<close>, which writes a character as
  UTF-8, \<open>print\<close> and \<open>println\<close>, and the reading operations \<open>readln\<close>, \<open>getchar\<close> and \<open>eof\<close>.
  Standard input is the list of the bytes still to be read; standard output the list of the
  bytes written. Buffering and flushing are not observable.
\<close>

section \<open>Output\<close>

text \<open>\<open>fputc\<close> converts its argument to an \<open>unsigned char\<close>.\<close>

definition fputc :: "int \<Rightarrow> rt \<Rightarrow> rt" where
  "fputc c s = s\<lparr>stdout := stdout s @ [c mod 256]\<rparr>"

definition kUTF8ByteSwapNotAChar :: int where "kUTF8ByteSwapNotAChar = 0xFFFE"
definition kUTF8NotAChar :: int where "kUTF8NotAChar = 0xFFFF"
definition kMaxUTF8FromUCS4 :: int where "kMaxUTF8FromUCS4 = 0x10FFFF"
definition kUTF8ReplacementChar :: int where "kUTF8ReplacementChar = 0xFFFD"

function printUcs4char :: "int \<Rightarrow> rt \<Rightarrow> rt" where
  "printUcs4char c s =
     (if c \<le> 0x7F then fputc c s
      else if c \<le> 0x7FF then
        fputc (0x80 OR (c AND 0x3F)) (fputc (0xC0 OR drop_bit 6 c) s)
      else if c = kUTF8ByteSwapNotAChar \<or> c = kUTF8NotAChar \<or> c > kMaxUTF8FromUCS4 then
        printUcs4char kUTF8ReplacementChar s
      else if c \<le> 0xFFFF then
        fputc (0x80 OR (c AND 0x3F))
          (fputc (0x80 OR (drop_bit 6 c AND 0x3F)) (fputc (0xE0 OR drop_bit 12 c) s))
      else if c \<le> kMaxUTF8FromUCS4 then
        fputc (0x80 OR (c AND 0x3F))
          (fputc (0x80 OR (drop_bit 6 c AND 0x3F))
            (fputc (0x80 OR (drop_bit 12 c AND 0x3F)) (fputc (0xF0 OR drop_bit 18 c) s)))
      else s)"
  by pat_completeness auto
termination
  by (relation "measure (\<lambda>(c, s). if c = kUTF8ReplacementChar then 0 else 1)")
    (auto simp: kUTF8ByteSwapNotAChar_def kUTF8NotAChar_def kMaxUTF8FromUCS4_def
      kUTF8ReplacementChar_def)

declare printUcs4char.simps [simp del]

fun print_loop :: "ptr \<Rightarrow> int list \<Rightarrow> rt \<Rightarrow> rt result" where
  "print_loop str [] s = Inr s"
| "print_loop str (c # cs) s =
     rbind (load_int s (padd str c)) (\<lambda>ch. print_loop str cs (printUcs4char ch s))"

text \<open>\<open>int len = str[-1]\<close> keeps the low 32 bits of the length.\<close>

definition print_eta_string :: "ptr \<Rightarrow> rt \<Rightarrow> rt result" where
  "print_eta_string str s =
     rbind (load_int s (padd str (- 1))) (\<lambda>n. print_loop str [0..to_int n - 1] s)"

definition eta_print :: "ptr \<Rightarrow> rt \<Rightarrow> rt result" where
  "eta_print str s = print_eta_string str s"

definition eta_println :: "ptr \<Rightarrow> rt \<Rightarrow> rt result" where
  "eta_println str s = rbind (print_eta_string str s) (\<lambda>s1. Inr (fputc 10 s1))"

section \<open>Input\<close>

text \<open>\<open>getchar\<close> and \<open>fgetc(stdin)\<close>: the next byte, or -1 and the end-of-file indicator.\<close>

definition getc :: "rt \<Rightarrow> int \<times> rt" where
  "getc s = (case stdin_rest s of
               [] \<Rightarrow> (- 1, s\<lparr>stdin_eof := True\<rparr>)
             | c # cs \<Rightarrow> (of_char c, s\<lparr>stdin_rest := cs\<rparr>))"

definition malloc_words :: "int \<Rightarrow> rt \<Rightarrow> ptr option \<times> rt" where
  "malloc_words n s = new_block Malloced Undef (size_t (n * 8)) s"

fun memcpy_words :: "ptr \<Rightarrow> ptr \<Rightarrow> int list \<Rightarrow> rt \<Rightarrow> rt result" where
  "memcpy_words dst src [] s = Inr s"
| "memcpy_words dst src (i # is) s =
     rbind (load s (padd src i)) (\<lambda>v. rbind (store (padd dst i) v s) (memcpy_words dst src is))"

text \<open>
  One round of the loop of \<open>readln\<close> after a character that is neither end of file nor a
  newline: the buffer is doubled when it is full, then the character is stored. The new
  buffer is not offset by one word as the first was, and the old one is freed through the
  offset pointer.
\<close>

definition readln_step :: "ptr \<Rightarrow> int \<Rightarrow> int \<Rightarrow> int \<Rightarrow> rt \<Rightarrow> (ptr \<times> int \<times> int \<times> rt) result" where
  "readln_step res len mx c s =
     rbind (if len = mx then
              (case malloc_words (2 * mx + 1) s of
                 (None, _) \<Rightarrow> Inl NullDeref
               | (Some nres, s1) \<Rightarrow>
                   rbind (memcpy_words nres (padd res (- 1)) [0..len] s1) (\<lambda>s2.
                   rbind (free_ptr res s2) (\<lambda>s3. Inr (nres, 2 * mx, s3))))
            else Inr (res, mx, s)) (\<lambda>(res', mx', s').
     rbind (store (padd res' len) (VInt c) s') (\<lambda>s''. Inr (res', len + 1, mx', s'')))"

lemma stdin_store: "store p v s = Inr s' \<Longrightarrow> stdin_rest s' = stdin_rest s"
  by (auto simp: store_def split: option.splits if_splits)

lemma stdin_memcpy: "memcpy_words d q is s = Inr s' \<Longrightarrow> stdin_rest s' = stdin_rest s"
  by (induction d q "is" s rule: memcpy_words.induct)
    (auto simp: rbind_eq_Inr_iff dest: stdin_store)

lemma stdin_free: "free_ptr p s = Inr s' \<Longrightarrow> stdin_rest s' = stdin_rest s"
  by (auto simp: free_ptr_def split: option.splits if_splits)

lemma stdin_malloc: "malloc_words n s = (p, s') \<Longrightarrow> stdin_rest s' = stdin_rest s"
  by (auto simp: malloc_words_def new_block_def split: if_splits)

lemma stdin_readln_step:
  "readln_step res len mx c s = Inr (res', len', mx', s') \<Longrightarrow> stdin_rest s' = stdin_rest s"
  by (auto simp: readln_step_def rbind_eq_Inr_iff split: if_splits prod.splits option.splits
      dest!: stdin_store stdin_memcpy stdin_free stdin_malloc)

function readln_loop :: "ptr \<Rightarrow> int \<Rightarrow> int \<Rightarrow> rt \<Rightarrow> (ptr \<times> int \<times> rt) result" where
  "readln_loop res len mx s =
     (let (c, s1) = getc s in
      if c = - 1 then Inr (res, len, s1)
      else if c = 10 then Inr (res, len, s1)
      else rbind (readln_step res len mx c s1) (\<lambda>r.
             readln_loop (fst r) (fst (snd r)) (fst (snd (snd r))) (snd (snd (snd r)))))"
  by pat_completeness auto
termination
  by (relation "measure (\<lambda>(_, _, _, s). length (stdin_rest s))")
    (auto simp: getc_def dest!: stdin_readln_step split: list.splits)

declare readln_loop.simps [simp del]

definition readln :: "rt \<Rightarrow> (ptr \<times> rt) result" where
  "readln s =
     (case malloc_words (128 + 1) s of
        (None, _) \<Rightarrow> Inl NullDeref
      | (Some p, s1) \<Rightarrow>
          (let res = padd p 1 in
           rbind (store (padd res (- 1)) (VInt 0) s1) (\<lambda>s2.
           rbind (readln_loop res 0 128 s2) (\<lambda>(res', len, s3).
           rbind (store (padd res' (- 1)) (VInt len) s3) (\<lambda>s4. Inr (res', s4))))))"

definition getchar_i :: "rt \<Rightarrow> int \<times> rt" where
  "getchar_i s = getc s"

definition eof_b :: "rt \<Rightarrow> int" where
  "eof_b s = (if stdin_eof s then 1 else 0)"

section \<open>UTF-8\<close>

text \<open>
  The encoding that the UTF-8 standard defines, by arithmetic, for the code points up to
  \<open>0x10FFFF\<close>, and a decoder that checks the form of each sequence: continuation bytes, no
  overlong form, no surrogate, no value above the limit.
\<close>

definition utf8_encode :: "int \<Rightarrow> int list" where
  "utf8_encode c =
     (if c < 0x80 then [c]
      else if c < 0x800 then [0xC0 + c div 64, 0x80 + c mod 64]
      else if c < 0x10000 then [0xE0 + c div 4096, 0x80 + c div 64 mod 64, 0x80 + c mod 64]
      else [0xF0 + c div 262144, 0x80 + c div 4096 mod 64, 0x80 + c div 64 mod 64, 0x80 + c mod 64])"

definition cont_byte :: "int \<Rightarrow> bool" where
  "cont_byte b \<longleftrightarrow> 0x80 \<le> b \<and> b < 0xC0"

definition surrogate :: "int \<Rightarrow> bool" where
  "surrogate c \<longleftrightarrow> 0xD800 \<le> c \<and> c \<le> 0xDFFF"

fun utf8_decode :: "int list \<Rightarrow> int list option" where
  "utf8_decode [] = Some []"
| "utf8_decode (a # bs) =
     (if 0 \<le> a \<and> a < 0x80 then map_option ((#) a) (utf8_decode bs)
      else if 0xC0 \<le> a \<and> a < 0xE0 then
        (case bs of
           b # bs' \<Rightarrow>
             (let c = (a - 0xC0) * 64 + (b - 0x80) in
              if cont_byte b \<and> 0x80 \<le> c then map_option ((#) c) (utf8_decode bs') else None)
         | _ \<Rightarrow> None)
      else if 0xE0 \<le> a \<and> a < 0xF0 then
        (case bs of
           b # b' # bs' \<Rightarrow>
             (let c = (a - 0xE0) * 4096 + (b - 0x80) * 64 + (b' - 0x80) in
              if cont_byte b \<and> cont_byte b' \<and> 0x800 \<le> c \<and> \<not> surrogate c
              then map_option ((#) c) (utf8_decode bs') else None)
         | _ \<Rightarrow> None)
      else if 0xF0 \<le> a \<and> a < 0xF8 then
        (case bs of
           b # b' # b'' # bs' \<Rightarrow>
             (let c = (a - 0xF0) * 262144 + (b - 0x80) * 4096 + (b' - 0x80) * 64 + (b'' - 0x80) in
              if cont_byte b \<and> cont_byte b' \<and> cont_byte b'' \<and> 0x10000 \<le> c \<and> c \<le> 0x10FFFF
              then map_option ((#) c) (utf8_decode bs') else None)
         | _ \<Rightarrow> None)
      else None)"

lemma low_bits: "(c :: int) AND 63 = c mod 64"
  using take_bit_eq_mask [of 6 c] by (simp add: take_bit_eq_mod mask_eq_exp_minus_1)

lemma or_disjoint:
  assumes "0 \<le> (x :: int)" and "x < 2 ^ n" and "take_bit n a = 0"
  shows "a OR x = a + x"
proof -
  have "bit a i = False" if "i < n" for i
    using assms(3) that by (metis bit_0_eq bit_take_bit_iff bot_apply bot_bool_def)
  moreover have "bit x i = False" if "n \<le> i" for i
    using assms(1,2) that
    by (metis bit_take_bit_iff linorder_not_less take_bit_int_eq_self)
  ultimately have "a AND x = 0" by (intro bit_eqI) (metis bit_0_eq bit_and_iff bot_apply bot_bool_def linorder_not_less)
  then show ?thesis by (simp add: disjunctive_add_eq_or)
qed

lemma cont_or: "0x80 OR ((c :: int) AND 63) = 0x80 + c mod 64"
  unfolding low_bits by (rule or_disjoint [where n = 6]) (simp_all add: take_bit_eq_mod)

lemma lead2: "0 \<le> c \<Longrightarrow> c < 0x800 \<Longrightarrow> 0xC0 OR drop_bit 6 (c :: int) = 0xC0 + c div 64"
  by (simp add: or_disjoint [where n = 5] take_bit_eq_mod drop_bit_eq_div)

lemma lead3: "0 \<le> c \<Longrightarrow> c < 0x10000 \<Longrightarrow> 0xE0 OR drop_bit 12 (c :: int) = 0xE0 + c div 4096"
  by (simp add: or_disjoint [where n = 4] take_bit_eq_mod drop_bit_eq_div)

lemma lead4: "0 \<le> c \<Longrightarrow> c < 0x200000 \<Longrightarrow> 0xF0 OR drop_bit 18 (c :: int) = 0xF0 + c div 262144"
  by (simp add: or_disjoint [where n = 3] take_bit_eq_mod drop_bit_eq_div)

text \<open>What \<open>printUcs4char\<close> writes for a value: the low byte, a UTF-8 sequence or U+FFFD.\<close>

definition ucs4_bytes :: "int \<Rightarrow> int list" where
  "ucs4_bytes c =
     (if c < 0 then [c mod 256]
      else if c = 0xFFFE \<or> c = 0xFFFF \<or> 0x10FFFF < c then utf8_encode 0xFFFD
      else utf8_encode c)"

lemmas utf8_consts = kUTF8ByteSwapNotAChar_def kUTF8NotAChar_def kMaxUTF8FromUCS4_def
  kUTF8ReplacementChar_def

lemma fputc_byte: "0 \<le> b \<Longrightarrow> b < 256 \<Longrightarrow> fputc b s = s\<lparr>stdout := stdout s @ [b]\<rparr>"
  by (simp add: fputc_def)

lemma cont_range: "0 \<le> 0x80 + (c :: int) mod 64 \<and> 0x80 + c mod 64 < 256"
  using pos_mod_bound [of 64 c] pos_mod_sign [of 64 c] by linarith

lemma fputc_cont: "fputc (0x80 OR ((c :: int) AND 0x3F)) s = s\<lparr>stdout := stdout s @ [0x80 + c mod 64]\<rparr>"
  using cont_range [of c] by (simp only: cont_or fputc_byte)

lemma fputc_lead2: "0x80 \<le> c \<Longrightarrow> c < 0x800 \<Longrightarrow>
    fputc (0xC0 OR drop_bit 6 c) s = s\<lparr>stdout := stdout s @ [0xC0 + c div 64]\<rparr>"
  using fputc_byte [of "0xC0 + c div 64" s] by (simp add: lead2)

lemma fputc_lead3: "0x800 \<le> c \<Longrightarrow> c < 0x10000 \<Longrightarrow>
    fputc (0xE0 OR drop_bit 12 c) s = s\<lparr>stdout := stdout s @ [0xE0 + c div 4096]\<rparr>"
  using fputc_byte [of "0xE0 + c div 4096" s] by (simp add: lead3)

lemma fputc_lead4: "0x10000 \<le> c \<Longrightarrow> c \<le> 0x10FFFF \<Longrightarrow>
    fputc (0xF0 OR drop_bit 18 c) s = s\<lparr>stdout := stdout s @ [0xF0 + c div 262144]\<rparr>"
  using fputc_byte [of "0xF0 + c div 262144" s] by (simp add: lead4)

lemma printUcs4char_scalar:
  assumes "0 \<le> c" and "c \<le> 0x10FFFF" and "c \<noteq> 0xFFFE" and "c \<noteq> 0xFFFF"
  shows "printUcs4char c s = s\<lparr>stdout := stdout s @ utf8_encode c\<rparr>"
proof -
  have d: "drop_bit 6 c = c div 64" "drop_bit 12 c = c div 4096" by (simp_all add: drop_bit_eq_div)
  consider "c < 0x80" | "0x80 \<le> c" "c < 0x800" | "0x800 \<le> c" "c < 0x10000" | "0x10000 \<le> c"
    by linarith
  then show ?thesis
  proof cases
    case 1
    then have "printUcs4char c s = fputc c s" by (subst printUcs4char.simps) simp
    then show ?thesis using 1 assms by (simp add: utf8_encode_def fputc_byte)
  next
    case 2
    then have "printUcs4char c s = fputc (0x80 OR (c AND 0x3F)) (fputc (0xC0 OR drop_bit 6 c) s)"
      by (subst printUcs4char.simps) simp
    then show ?thesis using 2 by (simp add: utf8_encode_def fputc_cont fputc_lead2)
  next
    case 3
    then have "printUcs4char c s = fputc (0x80 OR (c AND 0x3F))
        (fputc (0x80 OR (drop_bit 6 c AND 0x3F)) (fputc (0xE0 OR drop_bit 12 c) s))"
      using assms by (subst printUcs4char.simps) (simp add: utf8_consts)
    then have "printUcs4char c s = s\<lparr>stdout := stdout s @
        [0xE0 + c div 4096, 0x80 + c div 64 mod 64, 0x80 + c mod 64]\<rparr>"
      unfolding fputc_lead3 [OF 3] fputc_cont by (simp add: d)
    then show ?thesis using 3 by (simp add: utf8_encode_def)
  next
    case 4
    then have "printUcs4char c s = fputc (0x80 OR (c AND 0x3F))
        (fputc (0x80 OR (drop_bit 6 c AND 0x3F))
          (fputc (0x80 OR (drop_bit 12 c AND 0x3F)) (fputc (0xF0 OR drop_bit 18 c) s)))"
      using assms by (subst printUcs4char.simps) (simp add: utf8_consts)
    then have "printUcs4char c s = s\<lparr>stdout := stdout s @
        [0xF0 + c div 262144, 0x80 + c div 4096 mod 64, 0x80 + c div 64 mod 64, 0x80 + c mod 64]\<rparr>"
      unfolding fputc_lead4 [OF 4 assms(2)] fputc_cont by (simp add: d)
    then show ?thesis using 4 by (simp add: utf8_encode_def)
  qed
qed

lemma printUcs4char_bytes: "printUcs4char c s = s\<lparr>stdout := stdout s @ ucs4_bytes c\<rparr>"
proof -
  have r: "printUcs4char 0xFFFD s = s\<lparr>stdout := stdout s @ utf8_encode 0xFFFD\<rparr>"
    by (rule printUcs4char_scalar) simp_all
  show ?thesis
  proof (cases "c < 0 \<or> c = 0xFFFE \<or> c = 0xFFFF \<or> 0x10FFFF < c")
    case True
    then have "printUcs4char c s = (if c < 0 then fputc c s else printUcs4char 0xFFFD s)"
      by (subst printUcs4char.simps) (auto simp: utf8_consts)
    then show ?thesis using r True by (auto simp: ucs4_bytes_def fputc_def)
  next
    case False
    then show ?thesis using printUcs4char_scalar [of c s] by (auto simp: ucs4_bytes_def)
  qed
qed

text \<open>The decoder undoes the encoding, whatever follows.\<close>

lemma divmod64: "0 \<le> (c :: int) \<Longrightarrow> c div 64 * 64 + c mod 64 = c"
  by simp

lemma decode_encode:
  assumes "0 \<le> c" and "c \<le> 0x10FFFF"
  shows "utf8_decode (utf8_encode c @ bs) = (if surrogate c then None else map_option ((#) c) (utf8_decode bs))"
proof -
  have m: "0 \<le> c mod 64" "c mod 64 < 64" "0 \<le> c div 64 mod 64" "c div 64 mod 64 < 64"
    "0 \<le> c div 4096 mod 64" "c div 4096 mod 64 < 64" by simp_all
  have q: "c div 4096 = c div 64 div 64" "c div 262144 = c div 64 div 64 div 64"
    by (simp_all add: zdiv_zmult2_eq [symmetric])
  consider "c < 0x80" | "0x80 \<le> c" "c < 0x800" | "0x800 \<le> c" "c < 0x10000" | "0x10000 \<le> c"
    by linarith
  then show ?thesis
  proof cases
    case 1
    then show ?thesis using assms by (simp add: utf8_encode_def surrogate_def)
  next
    case 2
    then have "\<not> surrogate c" by (simp add: surrogate_def)
    define b where "b = c mod 64"
    define a where "a = c div 64"
    have c: "c = a * 64 + b" "0 \<le> b" "b < 64" "2 \<le> a" "a < 32" using 2 by (auto simp: a_def b_def)
    have "utf8_encode c = [0xC0 + a, 0x80 + b]" using 2 by (simp add: utf8_encode_def a_def b_def)
    then show ?thesis using c \<open>\<not> surrogate c\<close> by (simp add: cont_byte_def)
  next
    case 3
    define b where "b = c mod 64"
    define b' where "b' = c div 64 mod 64"
    define a where "a = c div 64 div 64"
    have c: "c = a * 4096 + b' * 64 + b" "0 \<le> b" "b < 64" "0 \<le> b'" "b' < 64" "0 \<le> a" "a < 16"
      using 3 div_mult_mod_eq [of c 64] div_mult_mod_eq [of "c div 64" 64] m
      unfolding a_def b_def b'_def by linarith+
    have "utf8_encode c = [0xE0 + a, 0x80 + b', 0x80 + b]"
      using 3 by (simp add: utf8_encode_def a_def b_def b'_def q)
    then show ?thesis using c 3 by (simp add: cont_byte_def)
  next
    case 4
    then have "\<not> surrogate c" by (simp add: surrogate_def)
    define b where "b = c mod 64"
    define b' where "b' = c div 64 mod 64"
    define b'' where "b'' = c div 64 div 64 mod 64"
    define a where "a = c div 64 div 64 div 64"
    have c: "c = a * 262144 + b'' * 4096 + b' * 64 + b" "0 \<le> b" "b < 64" "0 \<le> b'" "b' < 64"
      "0 \<le> b''" "b'' < 64" "0 \<le> a" "a < 8"
      using 4 assms div_mult_mod_eq [of c 64] div_mult_mod_eq [of "c div 64" 64]
        div_mult_mod_eq [of "c div 64 div 64" 64] m
      unfolding a_def b_def b'_def b''_def q by linarith+
    have "utf8_encode c = [0xF0 + a, 0x80 + b'', 0x80 + b', 0x80 + b]"
      using 4 by (simp add: utf8_encode_def a_def b_def b'_def b''_def q)
    then show ?thesis using c 4 assms \<open>\<not> surrogate c\<close> by (simp add: cont_byte_def add.assoc)
  qed
qed

text \<open>The code point that a value of an array stands for in the output, if it is not negative.\<close>

definition shown :: "int \<Rightarrow> int" where
  "shown c = (if c = 0xFFFE \<or> c = 0xFFFF \<or> 0x10FFFF < c then 0xFFFD else c)"

lemma decode_ucs4:
  "\<forall>c \<in> set cs. 0 \<le> c \<Longrightarrow>
    utf8_decode (concat (map ucs4_bytes cs)) = (if \<exists>c \<in> set cs. surrogate c then None else Some (map shown cs))"
proof (induction cs)
  case Nil
  then show ?case by simp
next
  case (Cons c cs)
  have b: "ucs4_bytes c = utf8_encode (shown c)" using Cons.prems by (simp add: ucs4_bytes_def shown_def)
  have s: "surrogate (shown c) = surrogate c" by (auto simp: shown_def surrogate_def)
  have "0 \<le> shown c" "shown c \<le> 0x10FFFF" using Cons.prems by (auto simp: shown_def)
  from decode_encode [OF this] show ?case using Cons by (simp add: b s)
qed

section \<open>Printing an array\<close>

lemma print_loop_spec:
  assumes "int_array s p cs" and "k \<le> length cs"
  shows "print_loop p [int k..int (length cs) - 1] s =
    Inr (s\<lparr>stdout := stdout s @ concat (map ucs4_bytes (drop k cs))\<rparr>)"
  using assms
proof (induction "length cs - k" arbitrary: k s)
  case 0
  then show ?case by (cases s) simp
next
  case (Suc n)
  then have k: "k < length cs" by simp
  let ?s = "s\<lparr>stdout := stdout s @ ucs4_bytes (cs ! k)\<rparr>"
  have "print_loop p [int (Suc k)..int (length cs) - 1] ?s =
      Inr (?s\<lparr>stdout := stdout ?s @ concat (map ucs4_bytes (drop (Suc k) cs))\<rparr>)"
    by (rule Suc.hyps(1)) (use Suc k in auto)
  moreover have "[int k..int (length cs) - 1] = int k # [int (Suc k)..int (length cs) - 1]"
    using k by (simp add: upto_rec1 add.commute)
  ultimately show ?case using Suc.prems k load_int_array [OF Suc.prems(1), of "int k"]
    by (simp add: printUcs4char_bytes flip: Cons_nth_drop_Suc)
qed

lemma print_spec:
  assumes "int_array s p cs" and "int (length cs) < 2 ^ 31"
  shows "print_eta_string p s = Inr (s\<lparr>stdout := stdout s @ concat (map ucs4_bytes cs)\<rparr>)"
proof -
  have "to_int (int (length cs)) = int (length cs)" using assms(2) by (simp add: to_int_id in_int_def)
  moreover have "load_int s (padd p (- 1)) = Inr (int (length cs))"
    using array_length [OF assms(1) [unfolded int_array_def]] by simp
  ultimately show ?thesis using print_loop_spec [OF assms(1), of 0] by (simp add: print_eta_string_def)
qed

lemma println_spec:
  assumes "int_array s p cs" and "int (length cs) < 2 ^ 31"
  shows "eta_println p s = Inr (s\<lparr>stdout := stdout s @ concat (map ucs4_bytes cs) @ [10]\<rparr>)"
  using print_spec [OF assms] by (simp add: eta_println_def fputc_def)

section \<open>Reading a line\<close>

text \<open>
  The buffer during the loop: \<open>k\<close> is its block, the characters read so far follow the header
  word, and 128 words are there for them.
\<close>

definition line_buffer :: "rt \<Rightarrow> nat \<Rightarrow> int list \<Rightarrow> bool" where
  "line_buffer s k cs \<longleftrightarrow>
     (\<exists>h rest. blocks s k = Some \<lparr>words = h # map VInt cs @ rest, origin = Malloced\<rparr>
        \<and> length cs + length rest = 128)"

lemma line_buffer_stdin [simp]:
  "line_buffer (s\<lparr>stdin_rest := i\<rparr>) k cs = line_buffer s k cs"
  "line_buffer (s\<lparr>stdin_eof := e\<rparr>) k cs = line_buffer s k cs"
  by (simp_all add: line_buffer_def)

definition same_but :: "nat \<Rightarrow> rt \<Rightarrow> rt \<Rightarrow> bool" where
  "same_but k s s' \<longleftrightarrow> (\<forall>b. b \<noteq> k \<longrightarrow> blocks s' b = blocks s b) \<and> next_block s' = next_block s
     \<and> heap_limit s' = heap_limit s \<and> stdout s' = stdout s
     \<and> gc_ready s' = gc_ready s \<and> gc_inits s' = gc_inits s \<and> all_interior s' = all_interior s"

lemma same_but_trans: "same_but k s t \<Longrightarrow> same_but k t u \<Longrightarrow> same_but k s u"
  by (simp add: same_but_def)

lemma readln_step_store:
  assumes "line_buffer s k cs" and "length cs < 128"
  shows "\<exists>s'. readln_step (k, 1) (int (length cs)) 128 c s = Inr ((k, 1), int (length (cs @ [c])), 128, s')
    \<and> line_buffer s' k (cs @ [c]) \<and> same_but k s s' \<and> stdin_rest s' = stdin_rest s
    \<and> stdin_eof s' = stdin_eof s"
proof -
  obtain h rest where b: "blocks s k = Some \<lparr>words = h # map VInt cs @ rest, origin = Malloced\<rparr>"
    "length cs + length rest = 128"
    using assms(1) by (auto simp: line_buffer_def)
  then obtain r rs where r: "rest = r # rs" using assms(2) by (cases rest) auto
  let ?s = "s\<lparr>blocks := (blocks s)(k \<mapsto> \<lparr>words = h # map VInt (cs @ [c]) @ rs, origin = Malloced\<rparr>)\<rparr>"
  have "nat (1 + int (length cs)) = Suc (length cs)" by simp
  then have "store (padd (k, 1) (int (length cs))) (VInt c) s = Inr ?s"
    using b r by (simp add: store_def padd_def list_update_append)
  moreover have "line_buffer ?s k (cs @ [c])"
    unfolding line_buffer_def by (rule exI [of _ h], rule exI [of _ rs]) (use b r in simp)
  moreover have "same_but k s ?s" by (simp add: same_but_def)
  ultimately show ?thesis using assms(2) by (simp add: readln_step_def)
qed

text \<open>A line of at most 128 characters is read up to the newline or the end of the input.\<close>

abbreviation line_of :: "string \<Rightarrow> string" where
  "line_of inp \<equiv> takeWhile (\<lambda>c. c \<noteq> CHR 0x0A) inp"

abbreviation after_line :: "string \<Rightarrow> string" where
  "after_line inp \<equiv> drop (Suc (length (line_of inp))) inp"

lemma newline_code: "of_char c = (10 :: int) \<longleftrightarrow> c = CHR 0x0A"
proof -
  have "(of_char c = (10 :: int)) = (of_char c = (of_char (CHR 0x0A) :: int))" by simp
  also have "\<dots> = (c = CHR 0x0A)" by (rule of_char_eq_iff)
  finally show ?thesis .
qed

lemma of_char_nonneg: "0 \<le> (of_char c :: int)"
  by (metis of_char_of of_nat_0_le_iff of_nat_of_char)

definition char_codes :: "string \<Rightarrow> int list" where
  "char_codes cs = map of_char cs"

lemma char_codes_simps [simp]:
  "char_codes [] = []" "char_codes (c # cs) = of_char c # char_codes cs"
  "length (char_codes cs) = length cs"
  by (simp_all add: char_codes_def)

lemma readln_loop_short:
  assumes "line_buffer s k done" and "length done + length (line_of (stdin_rest s)) \<le> 128"
  shows "\<exists>s'. readln_loop (k, 1) (int (length done)) 128 s =
      Inr ((k, 1), int (length done + length (line_of (stdin_rest s))), s')
    \<and> line_buffer s' k (done @ char_codes (line_of (stdin_rest s))) \<and> same_but k s s'
    \<and> stdin_rest s' = after_line (stdin_rest s)
    \<and> stdin_eof s' = (stdin_eof s \<or> CHR 0x0A \<notin> set (stdin_rest s))"
  using assms
proof (induction "stdin_rest s" arbitrary: s "done")
  case Nil
  then have "stdin_rest s = []" by simp
  then show ?case using Nil.prems
    by (simp add: readln_loop.simps [of _ _ _ s] getc_def same_but_def)
next
  case (Cons c inp)
  have rest: "stdin_rest s = c # inp" using Cons.hyps(2) by simp
  have nn: "of_char c \<noteq> (- 1 :: int)" using of_char_nonneg [of c] by linarith
  let ?s = "s\<lparr>stdin_rest := inp\<rparr>"
  show ?case
  proof (cases "c = CHR 0x0A")
    case True
    then show ?thesis using Cons.prems rest
      by (simp add: readln_loop.simps [of _ _ _ s] getc_def same_but_def)
  next
    case False
    then have "(of_char c :: int) \<noteq> 10" by (simp add: newline_code)
    have l: "length done < 128" using Cons.prems(2) rest False by simp
    have "line_buffer ?s k done" using Cons.prems(1) by simp
    from readln_step_store [OF this l, of "of_char c"] obtain s1 where
      s1: "readln_step (k, 1) (int (length done)) 128 (of_char c) ?s =
             Inr ((k, 1), int (length (done @ [of_char c])), 128, s1)"
        "line_buffer s1 k (done @ [of_char c])" "same_but k ?s s1" "stdin_rest s1 = inp"
        "stdin_eof s1 = stdin_eof s"
      by auto
    have "readln_loop (k, 1) (int (length done)) 128 s =
        readln_loop (k, 1) (int (length (done @ [of_char c]))) 128 s1"
      using rest nn \<open>of_char c \<noteq> 10\<close> s1(1)
      by (subst readln_loop.simps) (simp add: getc_def)
    moreover have "same_but k s s1" using s1(3) by (simp add: same_but_def)
    moreover have "length (done @ [of_char c]) + length (line_of (stdin_rest s1)) \<le> 128"
      using Cons.prems(2) rest False s1(4) by simp
    ultimately obtain s2 where s2: "readln_loop (k, 1) (int (length done)) 128 s =
        Inr ((k, 1), int (length (done @ [of_char c]) + length (line_of inp)), s2)"
      "line_buffer s2 k ((done @ [of_char c]) @ char_codes (line_of inp))" "same_but k s1 s2"
      "stdin_rest s2 = after_line inp" "stdin_eof s2 = (stdin_eof s1 \<or> CHR 0x0A \<notin> set inp)"
      using Cons.hyps(1) [OF s1(4) [symmetric] s1(2)] s1(4) by auto
    have "same_but k s s2" using \<open>same_but k s s1\<close> s2(3) by (rule same_but_trans)
    then show ?thesis using s2(1,2,4,5) s1(5) rest False by simp
  qed
qed

text \<open>
  On a longer line the 129th character makes the loop free the buffer through the pointer
  that is one word past its start.
\<close>

lemma memcpy_words_ok:
  assumes "blocks s k = Some b" and "n \<le> length (words b)"
    and "blocks s j = Some b'" and "n \<le> length (words b')" and "j \<noteq> k"
  shows "\<exists>s'. memcpy_words (j, 0) (k, 0) (map int [m..<n]) s = Inr s' \<and> blocks s' k = Some b"
  using assms
proof (induction "n - m" arbitrary: m s b')
  case 0
  then show ?case by simp
next
  case (Suc d)
  then have m: "m < n" by simp
  let ?b = "b'\<lparr>words := (words b')[m := words b ! m]\<rparr>"
  let ?s = "s\<lparr>blocks := (blocks s)(j \<mapsto> ?b)\<rparr>"
  have "\<exists>s'. memcpy_words (j, 0) (k, 0) (map int [Suc m..<n]) ?s = Inr s' \<and> blocks s' k = Some b"
    by (rule Suc.hyps(1) [where b' = ?b]) (use Suc in auto)
  moreover have "[m..<n] = m # [Suc m..<n]" using m by (rule upt_conv_Cons)
  ultimately show ?case using Suc.prems m by (simp add: load_def store_def padd_def)
qed

lemma readln_step_full:
  assumes "line_buffer s k cs" and "length cs = 128" and "rt_ok s" and "257 * 8 < heap_limit s"
  shows "readln_step (k, 1) (int (length cs)) 128 c s = Inl InvalidFree"
proof -
  obtain h where b: "blocks s k = Some \<lparr>words = h # map VInt cs, origin = Malloced\<rparr>"
    using assms(1,2) by (auto simp: line_buffer_def)
  define b' where "b' = \<lparr>words = replicate 257 Undef, origin = Malloced\<rparr>"
  let ?s = "s\<lparr>blocks := (blocks s)(next_block s \<mapsto> b'), next_block := next_block s + 1\<rparr>"
  have m: "malloc_words (2 * 128 + 1) s = (Some (next_block s, 0), ?s)"
    using assms(4) by (simp add: malloc_words_def new_block_def size_t_def b'_def)
  have k: "next_block s \<noteq> k" using b assms(3) by (auto simp: rt_ok_def fresh_ok_def)
  have "\<exists>s'. memcpy_words (next_block s, 0) (k, 0) (map int [0..<129]) ?s = Inr s'
      \<and> blocks s' k = Some \<lparr>words = h # map VInt cs, origin = Malloced\<rparr>"
    by (rule memcpy_words_ok [where b' = b']) (use b k assms(2) in \<open>auto simp: b'_def\<close>)
  moreover have "map int [0..<129] = [0..128]"
    by (rule nth_equalityI) auto
  ultimately show ?thesis using m assms(2)
    by (auto simp: readln_step_def padd_def free_ptr_def)
qed

lemma rt_ok_same_but:
  "same_but k s s' \<Longrightarrow> rt_ok s \<Longrightarrow> k < next_block s \<Longrightarrow> rt_ok s'"
  by (auto simp: same_but_def rt_ok_def fresh_ok_def)

lemma readln_loop_long:
  assumes "line_buffer s k done" and "length done \<le> 128"
    and "128 < length done + length (line_of (stdin_rest s))"
    and "rt_ok s" and "257 * 8 < heap_limit s" and "k < next_block s"
  shows "readln_loop (k, 1) (int (length done)) 128 s = Inl InvalidFree"
  using assms
proof (induction "stdin_rest s" arbitrary: s "done")
  case Nil
  then have "line_of (stdin_rest s) = []" by (simp flip: Nil.hyps)
  then show ?case using Nil.prems by simp
next
  case (Cons c inp)
  have rest: "stdin_rest s = c # inp" using Cons.hyps(2) by simp
  have nn: "of_char c \<noteq> (- 1 :: int)" using of_char_nonneg [of c] by linarith
  have nl: "c \<noteq> CHR 0x0A" using Cons.prems(2,3) rest by auto
  then have "(of_char c :: int) \<noteq> 10" by (simp add: newline_code)
  let ?s = "s\<lparr>stdin_rest := inp\<rparr>"
  have lb: "line_buffer ?s k done" using Cons.prems(1) by simp
  show ?case
  proof (cases "length done = 128")
    case True
    have "rt_ok ?s" using Cons.prems(4) by (simp add: rt_ok_def fresh_ok_def)
    then have "readln_step (k, 1) (int (length done)) 128 (of_char c) ?s = Inl InvalidFree"
      using readln_step_full [OF lb True] Cons.prems(5) by simp
    then show ?thesis using rest nn \<open>of_char c \<noteq> 10\<close>
      by (subst readln_loop.simps) (simp add: getc_def)
  next
    case False
    then have l: "length done < 128" using Cons.prems(2) by simp
    from readln_step_store [OF lb this, of "of_char c"] obtain s1 where
      s1: "readln_step (k, 1) (int (length done)) 128 (of_char c) ?s =
             Inr ((k, 1), int (length (done @ [of_char c])), 128, s1)"
        "line_buffer s1 k (done @ [of_char c])" "same_but k ?s s1" "stdin_rest s1 = inp"
      by auto
    have sb: "same_but k s s1" using s1(3) by (simp add: same_but_def)
    have "readln_loop (k, 1) (int (length (done @ [of_char c]))) 128 s1 = Inl InvalidFree"
    proof (rule Cons.hyps(1) [OF s1(4) [symmetric] s1(2)])
      show "rt_ok s1" using rt_ok_same_but [OF sb Cons.prems(4,6)] .
      show "257 * 8 < heap_limit s1" "k < next_block s1"
        using Cons.prems(5,6) sb by (simp_all add: same_but_def)
    qed (use l Cons.prems(3) rest nl s1(4) in auto)
    then show ?thesis using rest nn \<open>of_char c \<noteq> 10\<close> s1(1)
      by (subst readln_loop.simps) (simp add: getc_def)
  qed
qed

text \<open>The state in which the loop of \<open>readln\<close> starts.\<close>

lemma readln_start:
  assumes "rt_ok s" and "129 * 8 < heap_limit s"
  defines "k \<equiv> next_block s"
  shows "\<exists>s2. readln s = rbind (readln_loop (k, 1) 0 128 s2) (\<lambda>(res', len, s3).
           rbind (store (padd res' (- 1)) (VInt len) s3) (\<lambda>s4. Inr (res', s4)))
     \<and> line_buffer s2 k [] \<and> rt_ok s2 \<and> grows s s2 \<and> next_block s2 = k + 1 \<and> blocks s k = None"
proof -
  let ?b = "\<lparr>words = VInt 0 # replicate 128 Undef, origin = Malloced\<rparr>"
  let ?s = "s\<lparr>next_block := k + 1, blocks := (blocks s)(k \<mapsto> ?b)\<rparr>"
  have k: "blocks s k = None" using assms(1) by (simp add: k_def rt_ok_def fresh_ok_def)
  have n: "replicate 129 Undef = Undef # replicate 128 Undef" by (simp add: numeral_eq_Suc)
  have "readln s = rbind (readln_loop (k, 1) 0 128 ?s) (\<lambda>(res', len, s3).
           rbind (store (padd res' (- 1)) (VInt len) s3) (\<lambda>s4. Inr (res', s4)))"
    using assms(2) by (simp add: readln_def malloc_words_def new_block_def size_t_def k_def
        padd_def store_def n fun_upd_def cong: if_cong)
  moreover have "line_buffer ?s k []"
    unfolding line_buffer_def by (rule exI [of _ "VInt 0"], rule exI [of _ "replicate 128 Undef"]) simp
  moreover have "rt_ok ?s" "grows s ?s"
    using assms(1) k by (auto simp: rt_ok_def fresh_ok_def grows_def k_def)
  ultimately show ?thesis using k by (intro exI [of _ ?s]) simp
qed

lemma readln_short:
  assumes "rt_ok s" and "129 * 8 < heap_limit s" and "length (line_of (stdin_rest s)) \<le> 128"
  shows "\<exists>p s'. readln s = Inr (p, s') \<and> int_array s' p (char_codes (line_of (stdin_rest s)))
     \<and> stdin_rest s' = after_line (stdin_rest s)
     \<and> stdin_eof s' = (stdin_eof s \<or> CHR 0x0A \<notin> set (stdin_rest s))
     \<and> rt_ok s' \<and> (\<forall>b. blocks s b \<noteq> None \<longrightarrow> blocks s' b = blocks s b) \<and> stdout s' = stdout s
     \<and> heap_limit s' = heap_limit s"
proof -
  let ?k = "next_block s" and ?cs = "char_codes (line_of (stdin_rest s))"
  from readln_start [OF assms(1,2)] obtain s2 where
    s2: "readln s = rbind (readln_loop (?k, 1) 0 128 s2) (\<lambda>(res', len, s3).
           rbind (store (padd res' (- 1)) (VInt len) s3) (\<lambda>s4. Inr (res', s4)))"
      "line_buffer s2 ?k []" "rt_ok s2" "grows s s2" "next_block s2 = ?k + 1" "blocks s ?k = None"
    by auto
  have io: "stdin_rest s2 = stdin_rest s" "stdin_eof s2 = stdin_eof s" "stdout s2 = stdout s"
    "heap_limit s2 = heap_limit s"
    using s2(4) by (simp_all add: grows_def)
  have "length ([] :: int list) + length (line_of (stdin_rest s2)) \<le> 128" using assms(3) io by simp
  from readln_loop_short [OF s2(2) this] obtain s3 where
    s3: "readln_loop (?k, 1) 0 128 s2 = Inr ((?k, 1), int (length ?cs), s3)"
      "line_buffer s3 ?k ?cs" "same_but ?k s2 s3" "stdin_rest s3 = after_line (stdin_rest s)"
      "stdin_eof s3 = (stdin_eof s \<or> CHR 0x0A \<notin> set (stdin_rest s))"
    by (auto simp: io)
  from s3(2) obtain h rest where
    b: "blocks s3 ?k = Some \<lparr>words = h # map VInt ?cs @ rest, origin = Malloced\<rparr>"
    by (auto simp: line_buffer_def)
  let ?b = "\<lparr>words = [] @ VInt (int (length (map VInt ?cs))) # map VInt ?cs @ rest, origin = Malloced\<rparr>"
  let ?s = "s3\<lparr>blocks := (blocks s3)(?k \<mapsto> ?b)\<rparr>"
  have "readln s = Inr ((?k, 1), ?s)"
    using s2(1) s3(1) b by (simp add: padd_def store_def)
  moreover have "int_array ?s (?k, 1) ?cs"
    unfolding int_array_def is_array_def
    by (rule exI [of _ ?b], rule exI [of _ "[]"], rule exI [of _ rest]) simp
  moreover have "rt_ok s3" using rt_ok_same_but [OF s3(3) s2(3)] s2(5) by simp
  then have "rt_ok ?s" using s3(3) s2(5) by (auto simp: rt_ok_def fresh_ok_def same_but_def)
  moreover have "\<forall>b. blocks s b \<noteq> None \<longrightarrow> blocks ?s b = blocks s b"
    using s2(4,6) s3(3) by (auto simp: grows_def same_but_def)
  ultimately show ?thesis using s3(3,4,5) io by (auto simp: same_but_def)
qed

lemma readln_long:
  assumes "rt_ok s" and "257 * 8 < heap_limit s" and "128 < length (line_of (stdin_rest s))"
  shows "readln s = Inl InvalidFree"
proof -
  have "129 * 8 < heap_limit s" using assms(2) by simp
  from readln_start [OF assms(1) this] obtain s2 where
    s2: "readln s = rbind (readln_loop (next_block s, 1) 0 128 s2) (\<lambda>(res', len, s3).
           rbind (store (padd res' (- 1)) (VInt len) s3) (\<lambda>s4. Inr (res', s4)))"
      "line_buffer s2 (next_block s) []" "rt_ok s2" "grows s s2" "next_block s2 = next_block s + 1"
    by auto
  have "readln_loop (next_block s, 1) (int (length ([] :: int list))) 128 s2 = Inl InvalidFree"
    by (rule readln_loop_long [OF s2(2)]) (use s2 assms in \<open>auto simp: grows_def\<close>)
  then show ?thesis using s2(1) by simp
qed

section \<open>Properties\<close>

text \<open>
  C32. For a string without negative characters, \<open>print\<close> appends bytes to standard output that are
  valid UTF-8 exactly if none of the characters is a surrogate (U+D800 to U+DFFF), whose three-byte
  forms a decoder has to reject. If there is none, decoding the bytes gives the characters of the
  string, with the replacement character U+FFFD for U+FFFE, for U+FFFF and for every number above
  \<open>0x10FFFF\<close>. A negative character, for which the low byte is written, is not covered.
\<close>

theorem print_utf8_roundtrip:
  assumes "int_array s p cs" and "int (length cs) < 2 ^ 31" and "\<forall>c \<in> set cs. 0 \<le> c"
  shows "\<exists>s' bs. eta_print p s = Inr s' \<and> stdout s' = stdout s @ bs
    \<and> utf8_decode bs = (if \<exists>c \<in> set cs. 0xD800 \<le> c \<and> c \<le> 0xDFFF then None
        else Some (map (\<lambda>c. if c = 0xFFFE \<or> c = 0xFFFF \<or> 0x10FFFF < c then 0xFFFD else c) cs))"
  using print_spec [OF assms(1,2)] decode_ucs4 [OF assms(3)]
  by (auto simp: eta_print_def shown_def [abs_def] surrogate_def)

definition demo_array :: "int list \<Rightarrow> rt" where
  "demo_array cs = (rt_start [])\<lparr>blocks := (\<lambda>_. None)(0 \<mapsto> \<lparr>words = VInt (int (length cs)) # map VInt cs,
     origin = Collected\<rparr>), next_block := 1\<rparr>"

lemma demo_array: "int_array (demo_array cs) (0, 1) cs"
  unfolding int_array_def is_array_def demo_array_def
  by (rule exI, rule exI [of _ "[]"], rule exI [of _ "[]"], intro conjI, simp) simp_all

theorem print_utf8_roundtrip_witness:
  "\<exists>s' bs. eta_print (0, 1) (demo_array [0x48, 0x20AC, 0x1F600]) = Inr s' \<and> stdout s' = bs
    \<and> utf8_decode bs = Some [0x48, 0x20AC, 0x1F600]"
  using print_utf8_roundtrip [OF demo_array, of "[0x48, 0x20AC, 0x1F600]"]
  by (simp add: demo_array_def)

text \<open>
  C33. \<open>readln\<close> returns the characters of the next line when it has at most 128 of them, leaves
  the input after the newline, and sets the end-of-file indicator when there was no newline.
\<close>

theorem readln_line:
  assumes "rt_ok s" and "129 * 8 < heap_limit s" and "length (line_of (stdin_rest s)) \<le> 128"
  shows "\<exists>p s'. readln s = Inr (p, s') \<and> int_array s' p (char_codes (line_of (stdin_rest s)))
     \<and> stdin_rest s' = after_line (stdin_rest s)
     \<and> stdin_eof s' = (stdin_eof s \<or> CHR 0x0A \<notin> set (stdin_rest s))"
  using readln_short [OF assms] by blast

theorem readln_line_witness:
  "\<exists>p s'. readln (rt_start (''ab'' @ CHR 0x0A # ''c'')) = Inr (p, s') \<and> int_array s' p [97, 98]
     \<and> stdin_rest s' = ''c'' \<and> \<not> stdin_eof s'"
  using readln_line [of "rt_start (''ab'' @ CHR 0x0A # ''c'')"] by simp

text \<open>
  On a line of more than 128 characters \<open>readln\<close> frees a pointer that \<open>malloc\<close> did not
  return (the buffer's start plus one word), whatever the rest of the input is.
\<close>

theorem readln_invalid_free:
  assumes "rt_ok s" and "257 * 8 < heap_limit s" and "128 < length (line_of (stdin_rest s))"
  shows "readln s = Inl InvalidFree"
  by (rule readln_long [OF assms])

theorem readln_invalid_free_witness:
  "readln (rt_start (replicate 129 (CHR ''x''))) = Inl InvalidFree"
  by (rule readln_invalid_free) simp_all

end
