(* ===== verification/EtaConv.thy ===== *)
theory EtaConv
  imports EtaHeap Decimal
begin

text \<open>
  The \<open>conv\<close>, \<open>assert\<close> and \<open>timer\<close> modules of \<open>runtime/libeta/libeta.c\<close>: \<open>parseInt\<close>,
  \<open>unparseInt\<close>, \<open>assert\<close>, \<open>getTimestamp\<close> and \<open>timestampDifference\<close>. The clock is an argument:
  \<open>now\<close> is what \<open>gettimeofday\<close> stores, seconds and microseconds.
\<close>

section \<open>Parsing\<close>

text \<open>The result of \<open>parseInt\<close>: the number and the flag that goes to the second result register.\<close>

text \<open>A signed 64-bit result, or the fault when it is out of range.\<close>

definition i64 :: "int \<Rightarrow> int result" where
  "i64 x = (if in_i64 x then Inr x else Inl SignedOverflow)"

fun parse_loop :: "rt \<Rightarrow> ptr \<Rightarrow> int \<Rightarrow> int list \<Rightarrow> int \<Rightarrow> (int \<times> int) result" where
  "parse_loop s str neg [] num =
     (if neg \<noteq> 0 then rbind (i64 (- num)) (\<lambda>n. Inr (n, 1)) else Inr (num, 1))"
| "parse_loop s str neg (c # cs) num =
     rbind (load_int s (padd str c)) (\<lambda>ch.
       if 48 \<le> ch \<and> ch \<le> 57 then
         rbind (i64 (10 * num)) (\<lambda>m. rbind (i64 (m + (ch - 48))) (parse_loop s str neg cs))
       else Inr (0, 0))"

definition parseInt :: "ptr \<Rightarrow> rt \<Rightarrow> (int \<times> int) result" where
  "parseInt str s =
     rbind (load_int s (padd str (- 1))) (\<lambda>n.
       let len = to_int n in
       if len = 0 then Inr (0, 0)
       else rbind (load_int s (padd str 0)) (\<lambda>c0.
              let neg = (if c0 = 45 then 1 else 0) in parse_loop s str neg [neg..len - 1] 0))"

section \<open>Printing a number\<close>

text \<open>\<open>sprintf(buf, "%ld", in)\<close> into a buffer of 32 bytes.\<close>

definition show_int :: "int \<Rightarrow> string" where
  "show_int n = (if n < 0 then CHR ''-'' # show_nat (nat (- n)) else show_nat (nat n))"

definition unparseInt :: "int \<Rightarrow> rt \<Rightarrow> (ptr \<times> rt) result" where
  "unparseInt n s =
     (let buf = show_int n in
      if length buf + 1 \<le> 32 then mkString buf s else Inl Overrun)"

section \<open>Assertions and time\<close>

definition assert_pb :: "int \<Rightarrow> rt \<Rightarrow> rt result" where
  "assert_pb cond s = (if cond = 0 then Inl (Aborted ''Assertion failed'') else Inr s)"

text \<open>A \<open>struct timeval\<close> is two 64-bit words, \<open>tv_sec\<close> and \<open>tv_usec\<close>.\<close>

definition getTimestamp :: "int \<times> int \<Rightarrow> rt \<Rightarrow> (ptr \<times> rt) result" where
  "getTimestamp now s =
     rbind (mkArray 16 0 s) (\<lambda>(tStamp, s1).
     rbind (store (padd tStamp 0) (VInt (fst now)) s1) (\<lambda>s2.
     rbind (store (padd tStamp 1) (VInt (snd now)) s2) (\<lambda>s3. Inr (tStamp, s3))))"

definition timestampDifference :: "ptr \<Rightarrow> ptr \<Rightarrow> rt \<Rightarrow> int result" where
  "timestampDifference l r s =
     rbind (load_int s (padd l 0)) (\<lambda>ls. rbind (load_int s (padd r 0)) (\<lambda>rs.
     rbind (i64 (ls - rs)) (\<lambda>secondsDiff.
     rbind (load_int s (padd l 1)) (\<lambda>lu. rbind (load_int s (padd r 1)) (\<lambda>ru.
     rbind (i64 (lu - ru)) (\<lambda>usecDiff.
     rbind (i64 (secondsDiff * 1000000)) (\<lambda>scaled.
     rbind (i64 (usecDiff + scaled)) (\<lambda>combinedDiff. Inr (c_div combinedDiff 1000)))))))))"

section \<open>What \<open>parseInt\<close> computes\<close>

definition ascii_digit :: "int \<Rightarrow> bool" where
  "ascii_digit c \<longleftrightarrow> 48 \<le> c \<and> c \<le> 57"

definition decimal :: "int \<Rightarrow> int list \<Rightarrow> int" where
  "decimal n ds = foldl (\<lambda>n d. 10 * n + (d - 48)) n ds"

text \<open>
  A sign, then digits. The number before the first character that is not a digit must fit
  into 64 bits, else the multiplication overflows; then the string is accepted when there is
  no such character.
\<close>

definition parse_spec :: "int list \<Rightarrow> (int \<times> int) result" where
  "parse_spec cs =
     (if cs = [] then Inr (0, 0)
      else
        let neg = (hd cs = 45);
            ds = (if neg then tl cs else cs);
            digits = takeWhile ascii_digit ds
        in if 2 ^ 63 \<le> decimal 0 digits then Inl SignedOverflow
           else if digits = ds then Inr (if neg then - decimal 0 digits else decimal 0 digits, 1)
           else Inr (0, 0))"

lemma decimal_mono: "\<forall>d \<in> set ds. ascii_digit d \<Longrightarrow> 0 \<le> n \<Longrightarrow> n \<le> decimal n ds"
proof (induction ds arbitrary: n)
  case Nil
  then show ?case by (simp add: decimal_def)
next
  case (Cons d ds)
  have "48 \<le> d" using Cons.prems by (simp add: ascii_digit_def)
  then show ?case using Cons.IH [of "10 * n + (d - 48)"] Cons.prems by (simp add: decimal_def)
qed

lemma decimal_Cons: "decimal n (d # ds) = decimal (10 * n + (d - 48)) ds"
  by (simp add: decimal_def)

lemma parse_loop_spec:
  assumes "int_array s p cs" and "k \<le> length cs" and "0 \<le> num" and "num < 2 ^ 63"
  shows "parse_loop s p neg [int k..int (length cs) - 1] num =
    (let digits = takeWhile ascii_digit (drop k cs) in
     if 2 ^ 63 \<le> decimal num digits then Inl SignedOverflow
     else if digits = drop k cs
     then Inr (if neg \<noteq> 0 then - decimal num digits else decimal num digits, 1)
     else Inr (0, 0))"
  using assms
proof (induction "length cs - k" arbitrary: k num)
  case 0
  then show ?case by (simp add: decimal_def i64_def in_i64_def)
next
  case (Suc n)
  then have k: "k < length cs" by simp
  have step: "[int k..int (length cs) - 1] = int k # [int (Suc k)..int (length cs) - 1]"
    using k by (simp add: upto_rec1 add.commute)
  have d: "drop k cs = cs ! k # drop (Suc k) cs" using k by (simp add: Cons_nth_drop_Suc)
  have ld: "load_int s (padd p (int k)) = Inr (cs ! k)"
    using load_int_array [OF Suc.prems(1), of "int k"] k by simp
  show ?case
  proof (cases "ascii_digit (cs ! k)")
    case False
    then have "\<not> (48 \<le> cs ! k \<and> cs ! k \<le> 57)" by (simp add: ascii_digit_def)
    moreover have "takeWhile ascii_digit (drop k cs) = []" using False d by simp
    ultimately show ?thesis using ld step d Suc.prems by (auto simp: decimal_def Let_def)
  next
    case True
    let ?ds = "takeWhile ascii_digit (drop (Suc k) cs)"
    let ?m = "10 * num + (cs ! k - 48)"
    have t: "takeWhile ascii_digit (drop k cs) = cs ! k # ?ds" using True d by simp
    have dg: "0 \<le> cs ! k - 48" "cs ! k - 48 \<le> 9" using True by (simp_all add: ascii_digit_def)
    have mono: "?m \<le> decimal ?m ?ds"
      by (rule decimal_mono) (use dg Suc.prems(3) in \<open>auto dest: set_takeWhileD\<close>)
    show ?thesis
    proof (cases "?m < 2 ^ 63")
      case True
      have "parse_loop s p neg [int (Suc k)..int (length cs) - 1] ?m =
          (if 2 ^ 63 \<le> decimal ?m ?ds then Inl SignedOverflow
           else if ?ds = drop (Suc k) cs
           then Inr (if neg \<noteq> 0 then - decimal ?m ?ds else decimal ?m ?ds, 1) else Inr (0, 0))"
        using Suc.hyps(1) [of "Suc k" ?m] Suc.hyps(2) Suc.prems True dg k by (simp add: Let_def)
      then show ?thesis
        using True ld step t d dg Suc.prems(3)
        by (simp add: i64_def in_i64_def decimal_Cons Let_def)
    next
      case False
      then show ?thesis
        using mono ld step t dg Suc.prems(3)
        by (simp add: i64_def in_i64_def decimal_Cons Let_def)
    qed
  qed
qed

lemma parseInt_spec:
  assumes "int_array s p cs" and "int (length cs) < 2 ^ 31"
  shows "parseInt p s = parse_spec cs"
proof -
  have len: "to_int (int (length cs)) = int (length cs)"
    using assms(2) by (simp add: to_int_id in_int_def)
  have l: "load_int s (padd p (- 1)) = Inr (int (length cs))"
    using array_length [OF assms(1) [unfolded int_array_def]] by simp
  show ?thesis
  proof (cases cs)
    case Nil
    then show ?thesis using l len by (simp add: parseInt_def parse_spec_def)
  next
    case (Cons c cs')
    have h: "load_int s (padd p 0) = Inr c"
      using load_int_array [OF assms(1), of 0] Cons by simp
    show ?thesis
    proof (cases "c = 45")
      case True
      then show ?thesis
        using l len h parse_loop_spec [OF assms(1), of 1 0 1] Cons
        by (simp add: parseInt_def parse_spec_def Let_def)
    next
      case False
      then show ?thesis
        using l len h parse_loop_spec [OF assms(1), of 0 0 0] Cons
        by (simp add: parseInt_def parse_spec_def Let_def)
    qed
  qed
qed

section \<open>What \<open>unparseInt\<close> returns\<close>

lemma show_nat_length: "n < 10 ^ k \<Longrightarrow> 0 < k \<Longrightarrow> length (show_nat n) \<le> k"
proof (induction k arbitrary: n)
  case 0
  then show ?case by simp
next
  case (Suc k)
  show ?case
  proof (cases "n < 10")
    case True
    then show ?thesis by (simp add: show_nat.simps [of n])
  next
    case False
    then have "0 < k" using Suc.prems by (cases k) auto
    moreover have "n div 10 < 10 ^ k" using Suc.prems(1) by (simp add: less_mult_imp_div_less mult.commute)
    ultimately show ?thesis using Suc.IH [of "n div 10"] False by (simp add: show_nat.simps [of n])
  qed
qed

text \<open>The 32 bytes of the buffer are enough for every 64-bit number.\<close>

lemma show_int_length:
  assumes "in_i64 n"
  shows "length (show_int n) \<le> 20"
proof -
  have "nat \<bar>n\<bar> < 10 ^ 19" using assms by (simp add: in_i64_def nat_less_iff abs_less_iff)
  from show_nat_length [OF this] show ?thesis
    by (cases "n < 0") (simp_all add: show_int_def)
qed

interpretation unparse: array_source "unparseInt n" "\<lambda>s. in_i64 n \<and> fits 20 s" "string_vals (show_int n)" for n
proof
  fix s assume r: "rt_ok s" and f: "in_i64 n \<and> fits 20 s"
  then have l: "length (show_int n) \<le> 20" using show_int_length by blast
  then have "fits (length (show_int n)) s" using f by (auto simp: fits_def)
  from mkstr.makes [OF r this] l
  show "\<exists>p s'. unparseInt n s = Inr (p, s') \<and> is_array s' p (string_vals (show_int n)) \<and> grows s s' \<and> rt_ok s'
      \<and> blocks s (fst p) = None"
    by (simp add: unparseInt_def Let_def)
qed

lemma schar_digit: "isdigit c \<Longrightarrow> schar c = 48 + digit_val c"
proof -
  assume "isdigit c"
  then have "of_char c < (128 :: nat)" by (simp add: isdigit_def Let_def)
  moreover have "int (of_char c) = of_char c" by (rule of_nat_of_char)
  ultimately have "0 \<le> (of_char c :: int)" "(of_char c :: int) < 128" by linarith+
  then show "schar c = 48 + digit_val c"
    by (simp add: schar_def digit_val_def signed_take_bit_int_eq_self of_nat_of_char)
qed

lemma decimal_show:
  assumes "\<forall>c \<in> set ds. isdigit c"
  shows "decimal n (map schar ds) = digits_from n ds" "\<forall>c \<in> set (map schar ds). ascii_digit c"
proof -
  show "decimal n (map schar ds) = digits_from n ds"
    using assms by (induction ds arbitrary: n) (simp_all add: decimal_def schar_digit)
  show "\<forall>c \<in> set (map schar ds). ascii_digit c"
    using assms digit_val_range by (force simp: schar_digit ascii_digit_def)
qed

lemma decimal_show_nat:
  "decimal 0 (map schar (show_nat n)) = int n" "takeWhile ascii_digit (map schar (show_nat n)) = map schar (show_nat n)"
  using decimal_show(1) [OF show_nat_digits [of n], of 0] decimal_show(2) [OF show_nat_digits [of n]]
    show_nat_value [of n]
  by (simp_all only: digits_value_def takeWhile_eq_all_conv simp_thms)

lemma parse_show:
  assumes "in_i64 n"
  shows "parse_spec (map schar (show_int n)) = (if n = - (2 ^ 63) then Inl SignedOverflow else Inr (n, 1))"
proof (cases "n < 0")
  case True
  moreover have "schar (CHR ''-'') = 45" by code_simp
  ultimately show ?thesis using assms
    by (auto simp: parse_spec_def show_int_def in_i64_def Let_def decimal_show_nat)
next
  case False
  have "hd (map schar (show_nat (nat n))) \<noteq> 45"
    using decimal_show(2) [OF show_nat_digits, of "nat n"]
    by (cases "show_nat (nat n)") (auto simp: ascii_digit_def)
  then show ?thesis using False assms
    by (auto simp: parse_spec_def show_int_def in_i64_def Let_def decimal_show_nat)
qed

section \<open>Time\<close>

lemma getTimestamp_spec:
  assumes "rt_ok s" and "24 < heap_limit s"
  shows "\<exists>p s'. getTimestamp now s = Inr (p, s') \<and> load_int s' (padd p 0) = Inr (fst now)
     \<and> load_int s' (padd p 1) = Inr (snd now) \<and> grows s s' \<and> rt_ok s' \<and> fst p = next_block s"
proof -
  obtain s1 where s1: "mkArray 16 0 s = Inr ((next_block s, 1), s1)" "grows s s1" "rt_ok s1"
    "blocks s1 (next_block s) = Some \<lparr>words = [VInt 0, VInt 0, VInt 0], origin = Collected\<rparr>"
    using mkArray_spec [OF assms(1), of 16 0] assms(2) by (auto simp: numeral_eq_Suc)
  let ?b = "\<lparr>words = [VInt 0, VInt (fst now), VInt (snd now)], origin = Collected\<rparr>"
  let ?s = "s1\<lparr>blocks := (blocks s1)(next_block s \<mapsto> ?b)\<rparr>"
  have "getTimestamp now s = Inr ((next_block s, 1), ?s)"
    using s1 by (simp add: getTimestamp_def store_def padd_def fun_upd_def cong: if_cong)
  moreover have "load_int ?s (padd (next_block s, 1) 0) = Inr (fst now)"
    "load_int ?s (padd (next_block s, 1) 1) = Inr (snd now)"
    by (simp_all add: load_int_def load_def padd_def)
  moreover have "blocks s (next_block s) = None" using assms(1) by (simp add: rt_ok_def fresh_ok_def)
  then have "grows s ?s" "rt_ok ?s"
    using s1(2,3,4) by (auto simp: grows_def rt_ok_def fresh_ok_def)
  ultimately show ?thesis by fastforce
qed

text \<open>A moment in microseconds, and the seconds for which the arithmetic stays in 64 bits.\<close>

definition usecs :: "int \<times> int \<Rightarrow> int" where
  "usecs t = fst t * 1000000 + snd t"

definition plausible :: "int \<times> int \<Rightarrow> bool" where
  "plausible t \<longleftrightarrow> 0 \<le> fst t \<and> fst t < 2 ^ 40 \<and> 0 \<le> snd t \<and> snd t < 1000000"

lemma timestampDifference_spec:
  assumes "load_int s (padd l 0) = Inr (fst t)" and "load_int s (padd l 1) = Inr (snd t)"
    and "load_int s (padd r 0) = Inr (fst u)" and "load_int s (padd r 1) = Inr (snd u)"
    and "plausible t" and "plausible u"
  shows "timestampDifference l r s = Inr (c_div (usecs t - usecs u) 1000)"
  using assms by (simp add: timestampDifference_def i64_def in_i64_def plausible_def usecs_def algebra_simps)

section \<open>Properties\<close>

text \<open>
  C31. \<open>parseInt\<close> of the string that \<open>unparseInt\<close> made of a 64-bit number gives the number back
  and the flag true; only for \<open>- 2 ^ 63\<close>, whose absolute value is not a 64-bit number, the
  accumulation overflows.
\<close>

theorem parse_unparse:
  assumes "rt_ok s" and "fits 20 s" and "in_i64 n"
  shows "\<exists>p s'. unparseInt n s = Inr (p, s') \<and>
    parseInt p s' = (if n = - (2 ^ 63) then Inl SignedOverflow else Inr (n, 1))"
proof -
  obtain p s' where u: "unparseInt n s = Inr (p, s')" "int_array s' p (map schar (show_int n))"
    using unparse.makes [OF assms(1), of n] assms(2,3) by (auto simp: string_vals_array)
  have "int (length (map schar (show_int n))) < 2 ^ 31" using show_int_length [OF assms(3)] by simp
  from parseInt_spec [OF u(2) this] parse_show [OF assms(3)] u(1) show ?thesis by auto
qed

theorem parse_unparse_witness:
  "\<exists>p s'. unparseInt (- 1207) (rt_start []) = Inr (p, s') \<and> parseInt p s' = Inr (- 1207, 1)"
  using parse_unparse [of "rt_start []" "- 1207"] by (simp add: in_i64_def)

text \<open>
  C40. \<open>parseInt\<close> on every string: an optional minus sign followed by one or more digits only gives
  the number and true; a lone minus sign gives (0, true); any other string, the empty one among
  them, gives (0, false); and it overflows exactly when the digits before the first other character
  denote \<open>2 ^ 63\<close> or more. The interface file \<open>conv.eti\<close> asks for (0, false) for the lone minus sign,
  which represents no integer constant, and says nothing about the overflow.
\<close>

theorem parse_int_functional:
  assumes "int_array s p cs" and "int (length cs) < 2 ^ 31"
  defines "ds \<equiv> (case cs of [] \<Rightarrow> [] | c # r \<Rightarrow> if c = 45 then r else cs)"
  shows "parseInt p s =
    (if 2 ^ 63 \<le> decimal 0 (takeWhile ascii_digit ds) then Inl SignedOverflow
     else if ds \<noteq> [] \<and> list_all ascii_digit ds then Inr (if hd cs = 45 then - decimal 0 ds else decimal 0 ds, 1)
     else if cs = [45] then Inr (0, 1)
     else Inr (0, 0))"
proof -
  have t: "takeWhile ascii_digit ds = ds \<longleftrightarrow> list_all ascii_digit ds" by (simp add: takeWhile_eq_all_conv list_all_iff)
  show ?thesis
  proof (cases cs)
    case Nil
    then show ?thesis using parseInt_spec [OF assms(1,2)] by (simp add: ds_def parse_spec_def decimal_def)
  next
    case (Cons c r)
    have d: "ds = (if c = 45 then r else c # r)" using Cons by (simp add: ds_def)
    have e: "parseInt p s = (if 2 ^ 63 \<le> decimal 0 (takeWhile ascii_digit ds) then Inl SignedOverflow
        else if list_all ascii_digit ds then Inr (if c = 45 then - decimal 0 ds else decimal 0 ds, 1) else Inr (0, 0))"
    proof -
      have p: "parseInt p s = (if 2 ^ 63 \<le> decimal 0 (takeWhile ascii_digit ds) then Inl SignedOverflow
          else if takeWhile ascii_digit ds = ds
          then Inr (if c = 45 then - decimal 0 (takeWhile ascii_digit ds) else decimal 0 (takeWhile ascii_digit ds), 1) else Inr (0, 0))"
        unfolding parseInt_spec [OF assms(1,2)] parse_spec_def Let_def Cons list.sel d by simp
      show ?thesis
      proof (cases "takeWhile ascii_digit ds = ds")
        case True
        then have "list_all ascii_digit ds" using t by blast
        then show ?thesis unfolding p True by (simp only: if_True refl)
      next
        case False
        then have "\<not> list_all ascii_digit ds" using t by blast
        then show ?thesis unfolding p using False by (simp only: if_False)
      qed
    qed
    have z: "decimal 0 [] = 0" by (simp add: decimal_def)
    have n: "ds = [] \<longleftrightarrow> cs = [45]" using Cons d by auto
    show ?thesis
    proof (cases "ds = []")
      case True
      then have "c = 45" using n Cons by simp
      then show ?thesis using e True n z by simp
    next
      case False
      then have ne: "ds \<noteq> []" "cs \<noteq> [45]" using n by blast+
      have h: "hd cs = c" using Cons by simp
      show ?thesis unfolding e h using ne by (simp only: simp_thms if_False)
    qed
  qed
qed

text \<open>
  A lone minus sign is accepted as the number 0, although it represents no integer
  constant.
\<close>

theorem parse_lone_minus:
  assumes "int_array s p [45]"
  shows "parseInt p s = Inr (0, 1)"
  using parseInt_spec [OF assms] by (simp add: parse_spec_def decimal_def)

definition demo_ints :: "int list \<Rightarrow> rt" where
  "demo_ints cs = (rt_start [])\<lparr>blocks := (\<lambda>_. None)(0 \<mapsto> \<lparr>words = VInt (int (length cs)) # map VInt cs,
     origin = Collected\<rparr>), next_block := 1\<rparr>"

lemma demo_ints: "int_array (demo_ints cs) (0, 1) cs"
  unfolding int_array_def is_array_def demo_ints_def
  by (rule exI, rule exI [of _ "[]"], rule exI [of _ "[]"], intro conjI, simp) simp_all

theorem parse_int_functional_witness:
  "parseInt (0, 1) (demo_ints [45, 52, 50]) = Inr (- 42, 1)"
  using parse_int_functional [OF demo_ints, of "[45, 52, 50]"]
  by (simp add: decimal_def ascii_digit_def)

theorem parse_lone_minus_witness: "parseInt (0, 1) (demo_ints [45]) = Inr (0, 1)"
  by (rule parse_lone_minus [OF demo_ints])

text \<open>
  The difference of two timestamps, the second one taken later or earlier, is the elapsed
  time in milliseconds, rounded towards zero, and exchanging the two negates it.
\<close>

theorem timestamp_difference:
  assumes "rt_ok s" and "64 < heap_limit s" and "plausible t" and "plausible u"
    and "getTimestamp t s = Inr (l, s1)" and "getTimestamp u s1 = Inr (r, s2)"
  shows "timestampDifference l r s2 = Inr (c_div (usecs t - usecs u) 1000)
    \<and> timestampDifference r l s2 = Inr (- c_div (usecs t - usecs u) 1000)"
proof -
  have l: "load_int s1 (padd l 0) = Inr (fst t)" "load_int s1 (padd l 1) = Inr (snd t)" "rt_ok s1"
    "fst l = next_block s" "24 < heap_limit s1"
    using getTimestamp_spec [OF assms(1), of t] assms(2,5) by (auto simp: grows_def)
  then obtain b where "blocks s1 (fst l) = Some b"
    by (auto simp: load_int_def load_def padd_def split: option.splits)
  moreover have r: "load_int s2 (padd r 0) = Inr (fst u)" "load_int s2 (padd r 1) = Inr (snd u)" "grows s1 s2"
    using getTimestamp_spec [OF l(3), of u] l(5) assms(6) by auto
  ultimately have "blocks s2 (fst l) = blocks s1 (fst l)" by (auto simp: grows_def)
  then have l2: "load_int s2 (padd l 0) = Inr (fst t)" "load_int s2 (padd l 1) = Inr (snd t)"
    using l(1,2) by (simp_all add: load_int_def load_def padd_def)
  have "c_div (usecs u - usecs t) 1000 = - c_div (usecs t - usecs u) 1000"
    by (simp add: c_div_def sgn_if abs_minus_commute)
  then show ?thesis
    using timestampDifference_spec [OF l2 r(1,2) assms(3,4)] timestampDifference_spec [OF r(1,2) l2 assms(4,3)]
    by simp
qed

theorem timestamp_difference_witness:
  "\<exists>l s1 r s2. getTimestamp (5, 999999) (rt_start []) = Inr (l, s1) \<and> getTimestamp (3, 0) s1 = Inr (r, s2)
    \<and> timestampDifference l r s2 = Inr 2999"
proof -
  obtain l s1 where l: "getTimestamp (5, 999999) (rt_start []) = Inr (l, s1)" "rt_ok s1" "heap_limit s1 = 2 ^ 30"
    using getTimestamp_spec [of "rt_start []" "(5, 999999)"] by (auto simp: grows_def)
  obtain r s2 where r: "getTimestamp (3, 0) s1 = Inr (r, s2)"
    using getTimestamp_spec [OF l(2), of "(3, 0)"] l(3) by auto
  have "timestampDifference l r s2 = Inr (c_div (usecs (5, 999999) - usecs (3, 0)) 1000)"
    using timestamp_difference [of "rt_start []" "(5, 999999)" "(3, 0)", OF _ _ _ _ l(1) r] by (simp add: plausible_def)
  then have "timestampDifference l r s2 = Inr 2999" by (simp add: usecs_def c_div_def)
  then show ?thesis using l(1) r by blast
qed

end
