(* ===== verification/EtaMain.thy ===== *)
theory EtaMain
  imports EtaIO EtaConv
begin

text \<open>
  The entry point of an Eta program (\<open>main\<close> of \<open>runtime/libeta/libeta.c\<close>), which turns the
  arguments of the process into an Eta array of strings, and the two C programs of
  \<open>runtime/examples/\<close> that use the library: \<open>arr.c\<close>, which prints its arguments, and \<open>fact.c\<close>,
  which prints factorials.
\<close>

section \<open>The entry point\<close>

fun main_loop :: "ptr \<Rightarrow> int \<Rightarrow> string list \<Rightarrow> rt \<Rightarrow> rt result" where
  "main_loop args c [] s = Inr s"
| "main_loop args c (a # as) s =
     rbind (mkString a s) (\<lambda>(p, s1).
     rbind (store (padd args c) (VPtr (fst p) (snd p)) s1) (main_loop args (c + 1) as))"

text \<open>\<open>main(argc, argv)\<close>; \<open>prog\<close> is the program's own \<open>main_paai\<close>.\<close>

definition eta_main :: "(ptr \<Rightarrow> rt \<Rightarrow> rt result) \<Rightarrow> string list \<Rightarrow> rt \<Rightarrow> rt result" where
  "eta_main prog argv s =
     (let argc = int (length argv) in
      rbind (mkArray (to_int (size_t (8 * size_t argc))) argc s) (\<lambda>(args, s1).
      rbind (main_loop args 0 argv s1) (prog args)))"

section \<open>\<open>arr.c\<close>\<close>

fun arr_loop :: "ptr \<Rightarrow> int list \<Rightarrow> rt \<Rightarrow> rt result" where
  "arr_loop arg [] s = Inr s"
| "arr_loop arg (a # as) s =
     rbind (load_ptr s (padd arg a)) (\<lambda>str. rbind (eta_println str s) (arr_loop arg as))"

definition arr_main :: "ptr \<Rightarrow> rt \<Rightarrow> rt result" where
  "arr_main arg s = rbind (load_int s (padd arg (- 1))) (\<lambda>argc. arr_loop arg [0..argc - 1] s)"

section \<open>\<open>fact.c\<close>\<close>

function factorial :: "int \<Rightarrow> int result" where
  "factorial i = (if i \<le> 1 then Inr 1 else rbind (factorial (i - 1)) (\<lambda>f. i64 (i * f)))"
  by pat_completeness auto
termination
  by (relation "measure nat") auto

declare factorial.simps [simp del]

text \<open>
  One round of the loop of \<open>main_paai\<close>; \<open>prompt\<close> and \<open>is\<close> point to the static arrays, which
  hold their lengths first.
\<close>

definition prompt :: "int list" where
  "prompt = [78, 117, 109, 98, 101, 114, 63]"

definition is_text :: "int list" where
  "is_text = [33, 32, 105, 115, 32]"

definition fact_round :: "ptr \<Rightarrow> ptr \<Rightarrow> rt \<Rightarrow> rt result" where
  "fact_round prompt_ptr is_ptr s =
     rbind (eta_print (padd prompt_ptr 1) s) (\<lambda>s1.
     rbind (readln s1) (\<lambda>(input, s2).
     rbind (parseInt input s2) (\<lambda>(num, okay).
     if okay \<noteq> 0 then
       rbind (factorial num) (\<lambda>val.
       rbind (unparseInt num s2) (\<lambda>(_, s3).
       rbind (eta_print (padd is_ptr 1) s3) (\<lambda>s4.
       rbind (unparseInt val s4) (\<lambda>(out, s5). eta_println out s5))))
     else Inr s2)))"

section \<open>Arrays of strings\<close>

lemma is_array_store:
  assumes "is_array s p vs" and "i < length vs"
  shows "\<exists>s'. store (padd p (int i)) v s = Inr s' \<and> is_array s' p (vs[i := v])
    \<and> (\<forall>b. b \<noteq> fst p \<longrightarrow> blocks s' b = blocks s b) \<and> next_block s' = next_block s
    \<and> heap_limit s' = heap_limit s \<and> stdout s' = stdout s \<and> stdin_rest s' = stdin_rest s
    \<and> stdin_eof s' = stdin_eof s"
proof -
  obtain b pre post where b: "blocks s (fst p) = Some b"
    "words b = pre @ VInt (int (length vs)) # vs @ post" "snd p = int (length pre) + 1"
    using assms(1) by (auto simp: is_array_def)
  let ?b = "b\<lparr>words := pre @ VInt (int (length vs)) # vs[i := v] @ post\<rparr>"
  let ?s = "s\<lparr>blocks := (blocks s)(fst p \<mapsto> ?b)\<rparr>"
  have n: "nat (snd p + int i) = length pre + Suc i" using b by simp
  then have "(words b)[nat (snd p + int i) := v] = words ?b"
    using b assms(2) by (simp add: list_update_append)
  then have "store (padd p (int i)) v s = Inr ?s"
    using b assms(2) n by (simp add: store_def padd_def)
  moreover have "is_array ?s p (vs[i := v])"
    unfolding is_array_def
    by (rule exI [of _ ?b], rule exI [of _ pre], rule exI [of _ post]) (use b in simp)
  ultimately show ?thesis by (intro exI [of _ ?s]) simp
qed

lemma is_array_block: "is_array s p vs \<Longrightarrow> blocks s' (fst p) = blocks s (fst p) \<Longrightarrow> is_array s' p vs"
  by (simp add: is_array_def)

lemma is_array_fresh: "is_array s p vs \<Longrightarrow> blocks s (fst p) \<noteq> None"
  by (auto simp: is_array_def)

definition ptr_val :: "ptr \<Rightarrow> val" where
  "ptr_val p = VPtr (fst p) (snd p)"

text \<open>The array \<open>args\<close> holds pointers to the strings \<open>as\<close>.\<close>

definition strings_at :: "rt \<Rightarrow> ptr list \<Rightarrow> string list \<Rightarrow> bool" where
  "strings_at s ps as \<longleftrightarrow> list_all2 (\<lambda>p a. is_array s p (string_vals a)) ps as"

lemma strings_at_mono:
  assumes "strings_at s ps as" and "\<And>p a. p \<in> set ps \<Longrightarrow> is_array s p (string_vals a) \<Longrightarrow> is_array s' p (string_vals a)"
  shows "strings_at s' ps as"
  using assms unfolding strings_at_def by (auto intro: list.rel_mono_strong)

lemma main_loop_spec:
  assumes "is_array s args (map ptr_val ps @ vs)" and "strings_at s ps dn" and "length vs = length ss"
    and "rt_ok s" and "\<forall>a \<in> set ss. fits (length a) s" and "\<forall>p \<in> set ps. fst p \<noteq> fst args"
  shows "\<exists>s' ps'. main_loop args (int (length ps)) ss s = Inr s' \<and> is_array s' args (map ptr_val ps')
    \<and> strings_at s' ps' (dn @ ss) \<and> rt_ok s' \<and> stdout s' = stdout s"
  using assms
proof (induction ss arbitrary: s ps vs dn)
  case Nil
  then show ?case by auto
next
  case (Cons a ss)
  obtain v vs' where vs: "vs = v # vs'" using Cons.prems(3) by (cases vs) auto
  obtain p s1 where s1: "mkString a s = Inr (p, s1)" "is_array s1 p (string_vals a)" "grows s s1" "rt_ok s1"
    "blocks s (fst p) = None"
    using mkstr.makes [OF Cons.prems(4)] Cons.prems(5) by force
  have p: "fst p \<noteq> fst args" using s1(5) is_array_fresh [OF Cons.prems(1)] by auto
  have "is_array s1 args (map ptr_val ps @ vs)" by (rule is_array_grows [OF Cons.prems(1) s1(3)])
  from is_array_store [OF this, of "length ps" "ptr_val p"] vs obtain s2 where
    s2: "store (padd args (int (length ps))) (ptr_val p) s1 = Inr s2"
      "is_array s2 args (map ptr_val (ps @ [p]) @ vs')"
      "\<forall>b. b \<noteq> fst args \<longrightarrow> blocks s2 b = blocks s1 b" "stdout s2 = stdout s1" "heap_limit s2 = heap_limit s1"
    by (auto simp: list_update_append)
  have sa: "strings_at s2 (ps @ [p]) (dn @ [a])"
  proof -
    have "strings_at s2 ps dn"
    proof (rule strings_at_mono [OF Cons.prems(2)])
      fix q c assume "q \<in> set ps" and q: "is_array s q (string_vals c)"
      then have "blocks s2 (fst q) = blocks s1 (fst q)" using s2(3) Cons.prems(6) by blast
      then show "is_array s2 q (string_vals c)"
        using is_array_block [OF is_array_grows [OF q s1(3)]] by blast
    qed
    moreover have "is_array s2 p (string_vals a)" using is_array_block [OF s1(2)] s2(3) p by blast
    ultimately show ?thesis by (simp add: strings_at_def list_all2_append list_all2_lengthD)
  qed
  have f: "\<forall>a \<in> set ss. fits (length a) s2"
    using Cons.prems(5) s1(3) s2(5) by (auto simp: fits_def grows_def)
  have "\<exists>s' ps'. main_loop args (int (length (ps @ [p]))) ss s2 = Inr s' \<and> is_array s' args (map ptr_val ps')
    \<and> strings_at s' ps' ((dn @ [a]) @ ss) \<and> rt_ok s' \<and> stdout s' = stdout s2"
    by (rule Cons.IH [OF s2(2) sa _ rt_ok_store [OF s2(1) s1(4)] f])
      (use Cons.prems(3,6) vs p in auto)
  moreover have "store (padd args (int (length ps))) (VPtr (fst p) (snd p)) s1 = Inr s2"
    using s2(1) by (simp add: ptr_val_def)
  ultimately show ?case using s1(1,3) s2(4) by (simp add: grows_def add.commute)
qed

section \<open>Printing the arguments\<close>

text \<open>What \<open>println\<close> writes for a string made by \<open>mkString\<close>: the bytes of the C string.\<close>

lemma ucs4_bytes_schar: "ucs4_bytes (schar c) = [of_char c]"
proof -
  have n: "0 \<le> (of_char c :: int)" "(of_char c :: int) < 256"
    using of_char_nonneg nat_of_char_less_256 [of c] by (metis, metis of_nat_less_iff of_nat_numeral of_nat_of_char)
  have "schar c mod 256 = of_char c"
  proof -
    have "take_bit 8 (schar c) = take_bit 8 (of_char c)"
      by (simp add: schar_def take_bit_signed_take_bit)
    then show ?thesis using n by (simp add: take_bit_eq_mod)
  qed
  moreover have "- 128 \<le> schar c" "schar c < 128"
    using signed_take_bit_int_greater_eq_minus_exp [of 7 "of_char c"]
      signed_take_bit_int_less_exp [of 7 "of_char c"] by (simp_all add: schar_def)
  ultimately show ?thesis by (auto simp: ucs4_bytes_def utf8_encode_def)
qed

lemma string_bytes: "concat (map ucs4_bytes (map schar cs)) = char_codes cs"
  by (induction cs) (simp_all add: ucs4_bytes_schar)

definition lines_of :: "string list \<Rightarrow> int list" where
  "lines_of argv = concat (map (\<lambda>a. char_codes a @ [10]) argv)"

lemma is_array_stdout [simp]: "is_array (s\<lparr>stdout := bs\<rparr>) p vs = is_array s p vs"
  by (simp add: is_array_def)

lemma arr_loop_spec:
  assumes "is_array s arg (map ptr_val ps)" and "strings_at s ps argv" and "k \<le> length ps"
    and "\<forall>a \<in> set argv. int (length a) < 2 ^ 31"
  shows "arr_loop arg [int k..int (length ps) - 1] s =
    Inr (s\<lparr>stdout := stdout s @ lines_of (drop k argv)\<rparr>)"
  using assms
proof (induction "length ps - k" arbitrary: k s)
  case 0
  then have "drop k argv = []" by (simp add: strings_at_def list_all2_lengthD)
  then show ?case using 0 by (simp add: lines_of_def)
next
  case (Suc n)
  then have k: "k < length ps" by simp
  have len: "length ps = length argv" using Suc.prems(2) by (simp add: strings_at_def list_all2_lengthD)
  let ?s = "s\<lparr>stdout := stdout s @ char_codes (argv ! k) @ [10]\<rparr>"
  have a: "int_array s (ps ! k) (map schar (argv ! k))"
    using Suc.prems(2) k by (auto simp: strings_at_def list_all2_conv_all_nth string_vals_array)
  have "argv ! k \<in> set argv" using k len by simp
  then have "eta_println (ps ! k) s = Inr ?s"
    using println_spec [OF a] Suc.prems(4) by (simp add: string_bytes del: map_map)
  moreover have "load_ptr s (padd arg (int k)) = Inr (ps ! k)"
    using array_element [OF Suc.prems(1), of "int k"] k by (simp add: load_ptr_def ptr_val_def)
  moreover have "[int k..int (length ps) - 1] = int k # [int (Suc k)..int (length ps) - 1]"
    using k by (simp add: upto_rec1 add.commute)
  moreover have "arr_loop arg [int (Suc k)..int (length ps) - 1] ?s =
      Inr (?s\<lparr>stdout := stdout ?s @ lines_of (drop (Suc k) argv)\<rparr>)"
    by (rule Suc.hyps(1)) (use Suc k in \<open>auto simp: strings_at_def\<close>)
  moreover have "drop k argv = argv ! k # drop (Suc k) argv" using k len by (simp add: Cons_nth_drop_Suc)
  ultimately show ?case by (simp add: lines_of_def)
qed

lemma arr_prints:
  assumes "rt_ok s" and "fits (length argv) s" and "\<forall>a \<in> set argv. fits (length a) s"
  shows "\<exists>s'. eta_main arr_main argv s = Inr s' \<and> stdout s' = stdout s @ lines_of argv \<and> rt_ok s'"
proof -
  let ?n = "int (length argv)"
  have n: "?n < 2 ^ 28 - 1" "8 * (?n + 1) < heap_limit s" using assms(2) by (simp_all add: fits_def)
  have "size_t ?n = ?n" "size_t (8 * ?n) = 8 * ?n" using n by (simp_all add: size_t_def)
  moreover have "to_int (8 * ?n) = 8 * ?n" using n by (intro to_int_id) (simp add: in_int_def)
  ultimately have sz: "to_int (size_t (8 * size_t ?n)) = 8 * ?n" by simp
  let ?args = "(next_block s, 1)"
  obtain s1 where s1: "mkArray (8 * ?n) ?n s = Inr (?args, s1)" "grows s s1" "rt_ok s1"
    "blocks s1 (next_block s) = Some \<lparr>words = VInt ?n # replicate (length argv) (VInt 0), origin = Collected\<rparr>"
    using mkArray_spec [OF assms(1), of "8 * ?n" ?n] n by auto
  have arr: "is_array s1 ?args (map ptr_val [] @ replicate (length argv) (VInt 0))"
    unfolding is_array_def
    by (rule exI, rule exI [of _ "[]"], rule exI [of _ "[]"], intro conjI, simp, rule s1(4)) simp_all
  have "\<forall>a \<in> set argv. fits (length a) s1" using assms(3) s1(2) by (auto simp: fits_def grows_def)
  from main_loop_spec [OF arr _ _ s1(3) this, of "[]"] obtain s2 ps where
    s2: "main_loop ?args 0 argv s1 = Inr s2" "is_array s2 ?args (map ptr_val ps)" "strings_at s2 ps argv"
      "rt_ok s2" "stdout s2 = stdout s1"
    by (auto simp: strings_at_def)
  have "\<forall>a \<in> set argv. int (length a) < 2 ^ 31"
  proof
    fix a assume "a \<in> set argv"
    then have "length a < 2 ^ 28 - 1" using assms(3) by (simp add: fits_def)
    then show "int (length a) < 2 ^ 31" by simp
  qed
  from arr_loop_spec [OF s2(2,3) _ this, of 0]
  have "arr_loop ?args [0..int (length ps) - 1] s2 = Inr (s2\<lparr>stdout := stdout s2 @ lines_of argv\<rparr>)" by simp
  moreover have "load_int s2 (padd ?args (- 1)) = Inr (int (length ps))"
    using array_length [OF s2(2)] by simp
  ultimately have "eta_main arr_main argv s = Inr (s2\<lparr>stdout := stdout s2 @ lines_of argv\<rparr>)"
    using s1(1) s2(1) sz by (simp add: eta_main_def arr_main_def Let_def)
  moreover have "stdout s2 = stdout s" using s2(5) s1(2) by (simp add: grows_def)
  ultimately show ?thesis using s2(4) by (auto simp: rt_ok_def fresh_ok_def)
qed

section \<open>Factorials\<close>

text \<open>The product that \<open>factorial\<close> computes, and the largest argument it can take.\<close>

lemma factorial_small: "n \<le> 20 \<Longrightarrow> factorial (int n) = Inr (fact n)"
proof (induction n)
  case 0
  then show ?case by (simp add: factorial.simps)
next
  case (Suc n)
  then have IH: "factorial (int n) = Inr (fact n)" by simp
  have "fact (Suc n) \<le> (fact 20 :: int)" using Suc.prems by (intro fact_mono) simp
  also have "(fact 20 :: int) < 2 ^ 63" by (simp add: fact_numeral)
  finally have "fact (Suc n) < (2 ^ 63 :: int)" .
  moreover have "0 \<le> (fact (Suc n) :: int)" by (rule fact_ge_zero)
  ultimately have "in_i64 (fact (Suc n))" unfolding in_i64_def by linarith
  moreover have "fact (Suc n) = int (Suc n) * fact n" by simp
  ultimately show ?case using IH
    by (cases "n = 0") (simp_all add: factorial.simps [of "1 + int n"] i64_def factorial.simps [of 1] del: fact_Suc)
qed

lemma factorial_overflow: "21 \<le> n \<Longrightarrow> factorial n = Inl SignedOverflow"
proof (induction "nat n" arbitrary: n)
  case 0
  then show ?case by simp
next
  case (Suc k)
  show ?case
  proof (cases "n = 21")
    case True
    have "factorial 20 = Inr (fact 20)" using factorial_small [of 20] by simp
    then show ?thesis using True
      by (simp add: factorial.simps [of 21] i64_def in_i64_def fact_numeral)
  next
    case False
    then have "factorial (n - 1) = Inl SignedOverflow"
      by (intro Suc.hyps(1)) (use Suc in auto)
    then show ?thesis using Suc.prems by (simp add: factorial.simps [of n])
  qed
qed

text \<open>
  What one round prints when the line is a number from 0 to 20: the prompt, the text
  \<open>! is \<close> and the factorial. The number itself is converted but never printed.
\<close>

lemma int_array_keep:
  assumes "int_array s p cs" and "\<forall>b. blocks s b \<noteq> None \<longrightarrow> blocks s' b = blocks s b"
  shows "int_array s' p cs"
  using assms by (fastforce simp: int_array_def is_array_def)

lemma print_unparsed:
  assumes "rt_ok s" and "in_i64 n" and "fits 20 s"
  shows "\<exists>p s'. unparseInt n s = Inr (p, s') \<and> int_array s' p (map schar (show_int n)) \<and> grows s s' \<and> rt_ok s'"
  using unparse.makes [OF assms(1), of n] assms(2,3) by (auto simp: string_vals_array)

lemma fact_round_spec:
  assumes "rt_ok s" and "257 * 8 < heap_limit s" and "n \<le> 20"
    and "int_array s (padd pp 1) prompt" and "int_array s (padd ip 1) is_text"
    and "line_of (stdin_rest s) = show_nat n"
  shows "\<exists>s'. fact_round pp ip s = Inr s' \<and>
    stdout s' = stdout s @ char_codes ''Number?'' @ char_codes ''! is '' @ char_codes (show_nat (fact n)) @ [10] \<and>
    rt_ok s' \<and> heap_limit s' = heap_limit s \<and> (\<forall>b. blocks s b \<noteq> None \<longrightarrow> blocks s' b = blocks s b) \<and>
    stdin_rest s' = after_line (stdin_rest s) \<and>
    stdin_eof s' = (stdin_eof s \<or> CHR 0x0A \<notin> set (stdin_rest s))"
proof -
  have codes: "concat (map ucs4_bytes prompt) = char_codes ''Number?''"
    "concat (map ucs4_bytes is_text) = char_codes ''! is ''"
    by (simp_all add: prompt_def is_text_def ucs4_bytes_def utf8_encode_def)
  let ?s1 = "s\<lparr>stdout := stdout s @ char_codes ''Number?''\<rparr>"
  have p1: "eta_print (padd pp 1) s = Inr ?s1"
    using print_spec [OF assms(4)] codes(1) by (simp add: eta_print_def prompt_def)
  have "length (show_nat n) \<le> 2" using assms(3) by (intro show_nat_length) auto
  then have len: "length (line_of (stdin_rest ?s1)) \<le> 128" using assms(6) by simp
  have "rt_ok ?s1" using assms(1) by (simp add: rt_ok_def fresh_ok_def)
  from readln_short [OF this _ len] assms(2,6) obtain q s2 where
    s2: "readln ?s1 = Inr (q, s2)" "int_array s2 q (char_codes (show_nat n))" "rt_ok s2"
      "\<forall>b. blocks s b \<noteq> None \<longrightarrow> blocks s2 b = blocks s b" "stdout s2 = stdout ?s1" "heap_limit s2 = heap_limit s"
      "stdin_rest s2 = after_line (stdin_rest s)" "stdin_eof s2 = (stdin_eof s \<or> CHR 0x0A \<notin> set (stdin_rest s))"
    by auto
  have cc: "char_codes (show_nat n) = map schar (show_int (int n))"
  proof -
    have "of_char c = schar c" if "isdigit c" for c
      using schar_digit [OF that] by (simp add: digit_val_def of_nat_of_char)
    then show ?thesis using show_nat_digits by (simp add: char_codes_def show_int_def)
  qed
  have i64n: "in_i64 (int n)" using assms(3) by (simp add: in_i64_def)
  have f: "factorial (int n) = Inr (fact n)" by (rule factorial_small [OF assms(3)])
  have i64f: "in_i64 (fact n)"
  proof -
    have "fact n \<le> (fact 20 :: int)" using assms(3) by (intro fact_mono) simp
    also have "(fact 20 :: int) < 2 ^ 63" by (simp add: fact_numeral)
    finally show ?thesis using fact_ge_zero [where 'a = int, of n] unfolding in_i64_def by linarith
  qed
  have "int (length (char_codes (show_nat n))) < 2 ^ 31" using len assms(6) by simp
  from parseInt_spec [OF s2(2) this] parse_show [OF i64n] cc
  have pi: "parseInt q s2 = Inr (int n, 1)" by simp
  have fits: "fits 20 t" if "heap_limit t = heap_limit s" for t using that assms(2) by (simp add: fits_def)
  obtain r s3 where s3: "unparseInt (int n) s2 = Inr (r, s3)" "grows s2 s3" "rt_ok s3"
    using print_unparsed [OF s2(3) i64n fits [OF s2(6)]] by auto
  have "int_array s3 (padd ip 1) is_text"
    using int_array_keep [OF assms(5) s2(4)] s3(2) by (auto simp: int_array_def intro: is_array_grows)
  from print_spec [OF this] codes(2)
  have p3: "eta_print (padd ip 1) s3 = Inr (s3\<lparr>stdout := stdout s3 @ char_codes ''! is ''\<rparr>)"
    by (simp add: eta_print_def is_text_def)
  let ?s4 = "s3\<lparr>stdout := stdout s3 @ char_codes ''! is ''\<rparr>"
  have "rt_ok ?s4" using s3(3) by (simp add: rt_ok_def fresh_ok_def)
  moreover have "fits 20 ?s4" using fits [of ?s4] s3(2) s2(6) by (simp add: grows_def)
  ultimately obtain t s5 where s5: "unparseInt (fact n) ?s4 = Inr (t, s5)"
    "int_array s5 t (map schar (show_int (fact n)))" "grows ?s4 s5" "rt_ok s5"
    using print_unparsed [OF _ i64f] by blast
  have "length (show_int (fact n)) \<le> 20" by (rule show_int_length [OF i64f])
  then have "eta_println t s5 = Inr (s5\<lparr>stdout := stdout s5 @ char_codes (show_int (fact n)) @ [10]\<rparr>)"
    using println_spec [OF s5(2)] by (simp add: string_bytes del: map_map)
  moreover have "stdout s5 = stdout s @ char_codes ''Number?'' @ char_codes ''! is ''"
    using s5(3) s3(2) s2(5) by (simp add: grows_def)
  moreover have "show_int (fact n) = show_nat (fact n)"
  proof -
    have "nat (fact n) = fact n" by (metis nat_int of_nat_fact)
    moreover have "\<not> fact n < (0 :: int)" using fact_ge_zero [where 'a = int, of n] by linarith
    ultimately show ?thesis by (simp add: show_int_def)
  qed
  moreover have "\<forall>b. blocks s b \<noteq> None \<longrightarrow> blocks s5 b = blocks s b"
    using s2(4) s3(2) s5(3) by (simp add: grows_def)
  moreover have "heap_limit s5 = heap_limit s" "stdin_rest s5 = after_line (stdin_rest s)"
    "stdin_eof s5 = (stdin_eof s \<or> CHR 0x0A \<notin> set (stdin_rest s))"
    using s2(6-8) s3(2) s5(3) by (simp_all add: grows_def)
  moreover have "rt_ok (s5\<lparr>stdout := bs\<rparr>)" for bs using s5(4) by (simp add: rt_ok_def fresh_ok_def)
  ultimately show ?thesis using p1 s2(1) pi f s3(1) p3 s5(1) by (simp add: fact_round_def)
qed

section \<open>The main loop of \<open>fact.c\<close>\<close>

text \<open>Each round reads at least one character or finds the end of the input, so the loop ends.\<close>

definition input_left :: "rt \<Rightarrow> nat" where
  "input_left s = length (stdin_rest s) + (if stdin_eof s then 0 else 1)"

definition same_input :: "rt \<Rightarrow> rt \<Rightarrow> bool" where
  "same_input s s' \<longleftrightarrow> stdin_rest s' = stdin_rest s \<and> stdin_eof s' = stdin_eof s"

lemma same_input_refl [simp]: "same_input s s" by (simp add: same_input_def)

lemma same_input_trans: "same_input s t \<Longrightarrow> same_input t u \<Longrightarrow> same_input s u" by (simp add: same_input_def)

lemma same_input_store: "store p v s = Inr s' \<Longrightarrow> same_input s s'"
  by (auto simp: store_def same_input_def split: option.splits if_splits)

lemma same_input_free: "free_ptr p s = Inr s' \<Longrightarrow> same_input s s'"
  by (auto simp: free_ptr_def same_input_def split: option.splits if_splits)

lemma same_input_new: "new_block org v n s = (p, s') \<Longrightarrow> same_input s s'"
  by (auto simp: new_block_def same_input_def split: if_splits)

lemma same_input_memcpy: "memcpy_words d q is s = Inr s' \<Longrightarrow> same_input s s'"
  by (induction d q "is" s rule: memcpy_words.induct)
    (auto simp: rbind_eq_Inr_iff intro: same_input_trans dest: same_input_store)

lemma same_input_mkArray:
  assumes "mkArray n c s = Inr (p, s')"
  shows "same_input s s'"
proof -
  obtain q s1 where e: "eta_alloc (n + 8) s = (q, s1)" by (cases "eta_alloc (n + 8) s")
  have "same_input s s1" using e same_input_new [of Collected "VInt 0" "size_t (n + 8)"]
    by (fastforce simp: eta_alloc_def Let_def same_input_def split: if_splits)
  then show ?thesis using assms e same_input_store
    by (fastforce simp: mkArray_def rbind_eq_Inr_iff same_input_def split: option.splits)
qed

lemma same_input_mkString_loop: "mkString_loop p c cs s = Inr s' \<Longrightarrow> same_input s s'"
  by (induction p c cs s rule: mkString_loop.induct)
    (auto simp: rbind_eq_Inr_iff intro: same_input_trans dest: same_input_store)

lemma same_input_unparse: "unparseInt n s = Inr (p, s') \<Longrightarrow> same_input s s'"
  by (auto simp: unparseInt_def mkString_def Let_def rbind_eq_Inr_iff split: if_splits
      intro: same_input_trans dest!: same_input_mkArray same_input_mkString_loop)

lemma same_input_print_loop: "print_loop p cs s = Inr s' \<Longrightarrow> same_input s s'"
  by (induction p cs s rule: print_loop.induct)
    (auto simp: rbind_eq_Inr_iff printUcs4char_bytes same_input_def)

lemma same_input_print: "eta_print p s = Inr s' \<Longrightarrow> same_input s s'"
  by (auto simp: eta_print_def print_eta_string_def rbind_eq_Inr_iff dest: same_input_print_loop)

lemma same_input_println: "eta_println p s = Inr s' \<Longrightarrow> same_input s s'"
  by (auto simp: eta_println_def print_eta_string_def rbind_eq_Inr_iff fputc_def same_input_def
      dest!: same_input_print_loop)

lemma same_input_readln_step: "readln_step res len mx c s = Inr (res', len', mx', s') \<Longrightarrow> same_input s s'"
  by (auto simp: readln_step_def malloc_words_def rbind_eq_Inr_iff split: if_splits option.splits prod.splits
      intro: same_input_trans dest!: same_input_store same_input_free same_input_new same_input_memcpy)

lemma readln_loop_progress:
  "readln_loop res len mx s = Inr (res', len', s') \<Longrightarrow>
    input_left s' \<le> input_left s \<and> (\<not> stdin_eof s \<longrightarrow> input_left s' < input_left s)"
proof (induction res len mx s rule: readln_loop.induct)
  case (1 res len mx s)
  obtain c s1 where g: "getc s = (c, s1)" by (cases "getc s")
  have m: "input_left s1 \<le> input_left s \<and> (\<not> stdin_eof s \<longrightarrow> input_left s1 < input_left s)
      \<and> (c \<noteq> - 1 \<longrightarrow> stdin_eof s1 = stdin_eof s)"
    using g by (auto simp: getc_def input_left_def split: list.splits)
  show ?case
  proof (cases "c = - 1 \<or> c = 10")
    case True
    then show ?thesis using "1.prems" m g by (subst (asm) readln_loop.simps) auto
  next
    case False
    then obtain r where r: "readln_step res len mx c s1 = Inr r"
      "readln_loop (fst r) (fst (snd r)) (fst (snd (snd r))) (snd (snd (snd r))) = Inr (res', len', s')"
      using "1.prems" g by (subst (asm) readln_loop.simps) (auto simp: rbind_eq_Inr_iff)
    have "same_input s1 (snd (snd (snd r)))"
      using r(1) same_input_readln_step by (cases r) auto
    then have "input_left (snd (snd (snd r))) = input_left s1" "stdin_eof (snd (snd (snd r))) = stdin_eof s1"
      by (simp_all add: same_input_def input_left_def)
    then show ?thesis using "1.IH" [OF refl g [symmetric] _ _ r] False m by auto
  qed
qed

lemma readln_progress:
  assumes "readln s = Inr (p, s')" and "\<not> stdin_eof s"
  shows "input_left s' < input_left s"
proof -
  have si: "input_left t' = input_left t" "stdin_eof t' = stdin_eof t" if "same_input t t'" for t t'
    using that by (simp_all add: same_input_def input_left_def)
  obtain q s1 where q: "malloc_words (128 + 1) s = (Some q, s1)"
    using assms(1) by (cases "malloc_words (128 + 1) s") (auto simp: readln_def split: option.splits)
  then obtain s2 r len s3 where
    s2: "store (padd (padd q 1) (- 1)) (VInt 0) s1 = Inr s2"
      "readln_loop (padd q 1) 0 128 s2 = Inr (r, len, s3)"
      "store (padd r (- 1)) (VInt len) s3 = Inr s'"
    using assms(1) by (auto simp: readln_def Let_def rbind_eq_Inr_iff)
  have "same_input s s1" using q same_input_new by (auto simp: malloc_words_def)
  then have a: "same_input s s2" using same_input_store [OF s2(1)] same_input_trans by blast
  have "input_left s3 < input_left s2" using readln_loop_progress [OF s2(2)] si(2) [OF a] assms(2) by simp
  then show ?thesis using si(1) [OF a] si(1) [OF same_input_store [OF s2(3)]] by simp
qed

lemma fact_round_progress:
  assumes "fact_round pp ip s = Inr s'" and "\<not> stdin_eof s"
  shows "input_left s' < input_left s"
proof -
  have si: "input_left t' = input_left t" "stdin_eof t' = stdin_eof t" if "same_input t t'" for t t'
    using that by (simp_all add: same_input_def input_left_def)
  obtain s1 q s2 where s: "eta_print (padd pp 1) s = Inr s1" "readln s1 = Inr (q, s2)"
    "rbind (parseInt q s2) (\<lambda>(num, okay).
     if okay \<noteq> 0 then
       rbind (factorial num) (\<lambda>val.
       rbind (unparseInt num s2) (\<lambda>(_, s3).
       rbind (eta_print (padd ip 1) s3) (\<lambda>s4.
       rbind (unparseInt val s4) (\<lambda>(out, s5). eta_println out s5))))
     else Inr s2) = Inr s'"
    using assms(1) by (auto simp: fact_round_def rbind_eq_Inr_iff)
  have "same_input s2 s'"
    using s(3)
    by (auto simp: rbind_eq_Inr_iff split: if_splits
        dest!: same_input_unparse same_input_println same_input_print)
      (simp add: same_input_def)
  have "same_input s s1" by (rule same_input_print [OF s(1)])
  then show ?thesis     using readln_progress [OF s(2)] si assms(2) \<open>same_input s2 s'\<close> by simp
qed

function fact_main :: "ptr \<Rightarrow> ptr \<Rightarrow> rt \<Rightarrow> rt result" where
  "fact_main pp ip s =
     (if eof_b s = 0 then rbind (fact_round pp ip s) (fact_main pp ip) else Inr s)"
  by pat_completeness auto
termination
  by (relation "measure (\<lambda>(_, _, s). input_left s)") (auto simp: eof_b_def dest: fact_round_progress split: if_splits)

declare fact_main.simps [simp del]

text \<open>The last round, on an empty input: the prompt, and the end-of-file indicator is set.\<close>

lemma fact_round_eof:
  assumes "rt_ok s" and "257 * 8 < heap_limit s" and "int_array s (padd pp 1) prompt"
    and "stdin_rest s = []"
  shows "\<exists>s'. fact_round pp ip s = Inr s' \<and> stdout s' = stdout s @ char_codes ''Number?'' \<and> rt_ok s' \<and> stdin_eof s'"
proof -
  let ?s1 = "s\<lparr>stdout := stdout s @ char_codes ''Number?''\<rparr>"
  have "concat (map ucs4_bytes prompt) = char_codes ''Number?''"
    by (simp add: prompt_def ucs4_bytes_def utf8_encode_def)
  then have p1: "eta_print (padd pp 1) s = Inr ?s1"
    using print_spec [OF assms(3)] by (simp add: eta_print_def prompt_def)
  have r: "rt_ok ?s1" using assms(1) by (simp add: rt_ok_def fresh_ok_def)
  obtain q s2 where s2: "readln ?s1 = Inr (q, s2)" "int_array s2 q []" "rt_ok s2" "stdout s2 = stdout ?s1" "stdin_eof s2"
    using readln_short [OF r] assms(2,4) by auto
  have "parseInt q s2 = Inr (0, 0)" using parseInt_spec [OF s2(2)] by (simp add: parse_spec_def)
  then show ?thesis using p1 s2 by (simp add: fact_round_def)
qed

definition fact_output :: "nat \<Rightarrow> int list" where
  "fact_output n = char_codes ''Number?'' @ char_codes ''! is '' @ char_codes (show_nat (fact n)) @ [10]"

text \<open>A numeral contains no newline.\<close>

lemma line_of_numeral:
  "line_of (show_nat n @ CHR 0x0A # rest) = show_nat n"
  "after_line (show_nat n @ CHR 0x0A # rest) = rest"
proof -
  have "\<forall>c \<in> set (show_nat n). c \<noteq> CHR 0x0A" using show_nat_digits [of n] by (auto simp: isdigit_def)
  then show "line_of (show_nat n @ CHR 0x0A # rest) = show_nat n" by (simp add: takeWhile_append)
  then show "after_line (show_nat n @ CHR 0x0A # rest) = rest" by simp
qed

lemma fact_main_lines:
  assumes "rt_ok s" and "257 * 8 < heap_limit s" and "\<forall>n \<in> set ns. n \<le> 20"
    and "int_array s (padd pp 1) prompt" and "int_array s (padd ip 1) is_text"
    and "stdin_rest s = concat (map (\<lambda>n. show_nat n @ [CHR 0x0A]) ns)" and "\<not> stdin_eof s"
  shows "\<exists>s'. fact_main pp ip s = Inr s' \<and>
    stdout s' = stdout s @ concat (map fact_output ns) @ char_codes ''Number?''"
  using assms
proof (induction ns arbitrary: s)
  case Nil
  then obtain s' where "fact_round pp ip s = Inr s'" "stdout s' = stdout s @ char_codes ''Number?''" "stdin_eof s'"
    using fact_round_eof [OF Nil.prems(1,2,4), of ip] by auto
  then show ?case using Nil.prems(7)
    by (simp add: fact_main.simps [of pp ip s] fact_main.simps [of pp ip s'] eof_b_def)
next
  case (Cons n ns)
  have inp: "stdin_rest s = show_nat n @ CHR 0x0A # concat (map (\<lambda>n. show_nat n @ [CHR 0x0A]) ns)"
    using Cons.prems(6) by simp
  have "n \<le> 20" using Cons.prems(3) by simp
  from fact_round_spec [OF Cons.prems(1,2) this Cons.prems(4,5)] inp line_of_numeral [of n] obtain s1 where
    s1: "fact_round pp ip s = Inr s1" "stdout s1 = stdout s @ fact_output n" "rt_ok s1"
      "heap_limit s1 = heap_limit s" "\<forall>b. blocks s b \<noteq> None \<longrightarrow> blocks s1 b = blocks s b"
      "stdin_rest s1 = concat (map (\<lambda>n. show_nat n @ [CHR 0x0A]) ns)" "\<not> stdin_eof s1"
    using Cons.prems(7) by (auto simp: fact_output_def)
  have "int_array s1 (padd pp 1) prompt" "int_array s1 (padd ip 1) is_text"
    using int_array_keep s1(5) Cons.prems(4,5) by blast+
  with Cons.IH [of s1] s1 Cons.prems(2,3) obtain s' where
    "fact_main pp ip s1 = Inr s'"
    "stdout s' = stdout s1 @ concat (map fact_output ns) @ char_codes ''Number?''"
    by auto
  then show ?case using s1(1,2) Cons.prems(7) by (simp add: fact_main.simps [of pp ip s] eof_b_def)
qed

section \<open>Properties\<close>

text \<open>
  C39. The example program \<open>arr.c\<close>, started by \<open>main\<close> of the library, prints every argument of
  the process byte for byte, each followed by a newline.
\<close>

theorem arr_program:
  assumes "rt_ok s" and "fits (length argv) s" and "\<forall>a \<in> set argv. fits (length a) s"
  shows "\<exists>s'. eta_main arr_main argv s = Inr s' \<and> stdout s' = stdout s @ lines_of argv"
  using arr_prints [OF assms] by blast

theorem arr_program_witness:
  "\<exists>s'. eta_main arr_main [''a'', ''bc''] (rt_start []) = Inr s' \<and> stdout s' = [97, 10, 98, 99, 10]"
  using arr_program [of "rt_start []" "[''a'', ''bc'']"] by (simp add: lines_of_def)

text \<open>
  \<open>factorial\<close> of \<open>fact.c\<close> returns the factorial up to 20 and overflows from 21 on.
\<close>

theorem factorial_range:
  "factorial (int n) = (if n \<le> 20 then Inr (fact n) else Inl SignedOverflow)"
  using factorial_small [of n] factorial_overflow [of "int n"] by simp

text \<open>
  The program \<open>fact.c\<close> on lines that hold numbers up to 20 ends, and prints for each line the
  prompt, the text \<open>! is \<close> and the factorial, but never the number itself; then a last prompt.
\<close>

theorem fact_program:
  assumes "rt_ok s" and "257 * 8 < heap_limit s" and "\<forall>n \<in> set ns. n \<le> 20"
    and "int_array s (padd pp 1) prompt" and "int_array s (padd ip 1) is_text"
    and "stdin_rest s = concat (map (\<lambda>n. show_nat n @ [CHR 0x0A]) ns)" and "\<not> stdin_eof s"
  shows "\<exists>s'. fact_main pp ip s = Inr s' \<and>
    stdout s' = stdout s @ concat (map fact_output ns) @ char_codes ''Number?''"
  by (rule fact_main_lines [OF assms])

definition fact_start :: "string \<Rightarrow> rt" where
  "fact_start inp = (rt_start inp)\<lparr>blocks := (\<lambda>_. None)
     (0 \<mapsto> \<lparr>words = VInt 7 # map VInt prompt, origin = Collected\<rparr>,
      1 \<mapsto> \<lparr>words = VInt 5 # map VInt is_text, origin = Collected\<rparr>), next_block := 2\<rparr>"

lemma fact_start:
  "rt_ok (fact_start inp)" "int_array (fact_start inp) (0, 1) prompt" "int_array (fact_start inp) (1, 1) is_text"
  subgoal by (auto simp: rt_ok_def fresh_ok_def fact_start_def rt_start_def)
  subgoal unfolding int_array_def is_array_def fact_start_def
    by (rule exI, rule exI [of _ "[]"], rule exI [of _ "[]"], intro conjI, simp) (simp_all add: prompt_def)
  subgoal unfolding int_array_def is_array_def fact_start_def
    by (rule exI, rule exI [of _ "[]"], rule exI [of _ "[]"], intro conjI, simp) (simp_all add: is_text_def)
  done

theorem fact_program_witness:
  "\<exists>s'. fact_main (0, 0) (1, 0) (fact_start (''5'' @ [CHR 0x0A])) = Inr s' \<and>
    stdout s' = char_codes ''Number?! is 120'' @ 10 # char_codes ''Number?''"
proof -
  have n: "show_nat 5 = ''5''" "show_nat 120 = ''120''" by code_simp+
  have "rt_ok (fact_start (''5'' @ [CHR 0x0A]))" by (rule fact_start)
  moreover have "int_array (fact_start (''5'' @ [CHR 0x0A])) (padd (0, 0) 1) prompt"
    "int_array (fact_start (''5'' @ [CHR 0x0A])) (padd (1, 0) 1) is_text"
    using fact_start(2,3) by (simp_all add: padd_def)
  ultimately show ?thesis
    using fact_program [of "fact_start (''5'' @ [CHR 0x0A])" "[5]" "(0, 0)" "(1, 0)"]
    by (simp add: fact_start_def rt_start_def n fact_output_def fact_numeral)
qed

end
