(* ===== verification/KeyTries.thy ===== *)
theory KeyTries
  imports Prelude
begin

text \<open>
  The tree in which curses looks up the byte sequences of function keys (\<open>TRIES\<close> of
  \<open>curses.priv.h\<close>; \<open>tinfo/add_tries.c\<close>, \<open>base/tries.c\<close>, \<open>base/key_defined.c\<close>): a node has a byte,
  the code of the sequence that ends there or 0, a first child and a next sibling.

  A C string is the list of its bytes without the terminating NUL, so the bytes are not 0. The
  terminfo database writes a NUL inside a sequence as the byte 128, and \<open>_nc_add_to_try\<close> stores it
  as 0. The argument \<open>mem\<close> of \<open>_nc_add_to_try\<close> is the number of nodes \<open>calloc\<close> can still provide; the
  string that \<open>_nc_expand_try\<close> allocates is taken to be there.
\<close>

type_synonym byte = "8 word"

datatype tries = NoTry | Try byte "16 word" tries tries

section \<open>Adding a sequence\<close>

definition set_try :: "byte \<Rightarrow> byte" where
  "set_try c = (if c = 128 then 0 else c)"

definition cmp_try :: "byte \<Rightarrow> byte \<Rightarrow> bool" where
  "cmp_try a b = (if a \<noteq> 0 then a = b else b = 128)"

text \<open>The chain of new nodes at the end of \<open>_nc_add_to_try\<close>.\<close>

fun branch :: "byte list \<Rightarrow> 16 word \<Rightarrow> tries" where
  "branch [] v = NoTry"
| "branch (c # cs) v = Try (set_try c) (if cs = [] then v else 0) (branch cs v) NoTry"

text \<open>
  How the search for the place of a new sequence ends: with the new tree; with the tree as it was,
  when the first new node cannot be allocated; or with no tree at all, when a later node cannot:
  the function then frees the nodes on the way and clears the caller's pointer.
\<close>

datatype growth = Grown tries | Refused | Destroyed

fun grow :: "nat \<Rightarrow> byte list \<Rightarrow> 16 word \<Rightarrow> tries \<Rightarrow> growth" where
  "grow mem [] v t = Refused"
| "grow mem (c # cs) v NoTry =
     (if mem = 0 then Refused
      else if mem < length (c # cs) then Destroyed
      else Grown (branch (c # cs) v))"
| "grow mem (c # cs) v (Try h u ch sb) =
     (if cmp_try h c then
        (if cs = [] then Grown (Try h v ch sb)
         else if ch \<noteq> NoTry then
           (case grow mem cs v ch of Grown t \<Rightarrow> Grown (Try h u t sb) | g \<Rightarrow> g)
         else if mem < length cs then Destroyed
         else Grown (Try h u (branch cs v) sb))
      else
        (case grow mem (c # cs) v sb of Grown t \<Rightarrow> Grown (Try h u ch t) | g \<Rightarrow> g))"

definition add_to_try :: "nat \<Rightarrow> tries \<Rightarrow> byte list option \<Rightarrow> nat \<Rightarrow> int \<times> tries" where
  "add_to_try mem t str code =
     (case str of
        None \<Rightarrow> (ERR, t)
      | Some txt \<Rightarrow>
          if txt = [] \<or> code = 0 then (ERR, t)
          else (case grow mem txt (of_nat code) t of
                  Grown t' \<Rightarrow> (OK, t')
                | Refused \<Rightarrow> (ERR, t)
                | Destroyed \<Rightarrow> (ERR, NoTry)))"

section \<open>Looking up and removing\<close>

text \<open>\<open>_nc_expand_try\<close> returns the bytes it writes from the position \<open>len\<close> on, and \<open>*count\<close>.\<close>

definition put_try :: "byte \<Rightarrow> byte" where
  "put_try h = (if h = 0 then 128 else h)"

fun expand_try :: "tries \<Rightarrow> nat \<Rightarrow> int \<Rightarrow> byte list option \<times> int" where
  "expand_try NoTry code count = (None, count)"
| "expand_try (Try h v ch sb) code count =
     (if code = 0 then (None, count)
      else
        (case expand_try ch code count of
           (Some cs, n) \<Rightarrow> (Some (put_try h # cs), n)
         | (None, n) \<Rightarrow>
             if unat v = code then
               (if n - 1 = - 1 then (Some [put_try h], n - 1) else expand_try sb code (n - 1))
             else expand_try sb code n))"

fun remove_key :: "tries \<Rightarrow> nat \<Rightarrow> bool \<times> tries" where
  "remove_key NoTry code = (False, NoTry)"
| "remove_key (Try h v ch sb) code =
     (if code = 0 then (False, Try h v ch sb)
      else
        (case remove_key ch code of
           (True, ch') \<Rightarrow> (True, Try h v ch' sb)
         | (False, _) \<Rightarrow>
             if unat v = code then
               (if ch \<noteq> NoTry then (True, Try h 0 ch sb) else (True, sb))
             else (case remove_key sb code of (r, sb') \<Rightarrow> (r, Try h v ch sb'))))"

fun remove_string :: "tries \<Rightarrow> byte list \<Rightarrow> bool \<times> tries" where
  "remove_string t [] = (False, t)"
| "remove_string NoTry (c # cs) = (False, NoTry)"
| "remove_string (Try h v ch sb) (c # cs) =
     (if h = c then
        (if cs \<noteq> [] then (case remove_string ch cs of (r, ch') \<Rightarrow> (r, Try h v ch' sb))
         else if ch = NoTry then (True, sb)
         else (False, Try h v ch sb))
      else (case remove_string sb (c # cs) of (r, sb') \<Rightarrow> (r, Try h v ch sb')))"

fun find_definition :: "tries \<Rightarrow> byte list \<Rightarrow> int" where
  "find_definition t [] = OK"
| "find_definition NoTry (c # cs) = OK"
| "find_definition (Try h v ch sb) (c # cs) =
     (let result =
        (if c = h then
           (if cs = [] \<and> ch \<noteq> NoTry then ERR
            else (let r = find_definition ch cs in
                  if r = OK then uint v else if cs = [] then ERR else r))
         else OK)
      in if result \<noteq> OK then result else find_definition sb (c # cs))"

fun has_key_internal :: "nat \<Rightarrow> tries \<Rightarrow> bool" where
  "has_key_internal keycode NoTry = False"
| "has_key_internal keycode (Try h v ch sb) =
     (if unat v = keycode then True else has_key_internal keycode ch \<or> has_key_internal keycode sb)"

section \<open>The map a tree stands for\<close>

text \<open>\<open>keys t\<close> maps the byte sequences that the keyboard sends to their codes.\<close>

fun keys :: "tries \<Rightarrow> byte list \<Rightarrow> 16 word option" where
  "keys NoTry s = None"
| "keys (Try h v ch sb) [] = None"
| "keys (Try h v ch sb) (c # cs) =
     (if c = h then (if cs = [] then (if v = 0 then None else Some v) else keys ch cs) else keys sb (c # cs))"

fun heads :: "tries \<Rightarrow> byte set" where
  "heads NoTry = {}"
| "heads (Try h v ch sb) = insert h (heads sb)"

text \<open>No two siblings have the same byte, and no byte is 128.\<close>

fun tries_ok :: "tries \<Rightarrow> bool" where
  "tries_ok NoTry \<longleftrightarrow> True"
| "tries_ok (Try h v ch sb) \<longleftrightarrow> h \<noteq> 128 \<and> h \<notin> heads sb \<and> tries_ok ch \<and> tries_ok sb"

lemma cmp_try_iff: "h \<noteq> 128 \<Longrightarrow> c \<noteq> 0 \<Longrightarrow> cmp_try h c \<longleftrightarrow> h = set_try c"
  by (auto simp: cmp_try_def set_try_def)

lemma set_try_ne [simp]: "set_try c \<noteq> 128" "128 \<noteq> set_try c"
  by (auto simp: set_try_def)

lemma set_put [simp]: "h \<noteq> 128 \<Longrightarrow> set_try (put_try h) = h"
  by (simp add: set_try_def put_try_def)

lemma keys_Nil [simp]: "keys t [] = None"
  by (cases t) simp_all

lemma keys_heads: "c \<notin> heads t \<Longrightarrow> keys t (c # cs) = None"
  by (induction t) auto

lemma branch_ok: "tries_ok (branch cs v)"
  by (induction cs) (auto simp: set_try_def)

lemma branch_keys: "cs \<noteq> [] \<Longrightarrow> v \<noteq> 0 \<Longrightarrow> keys (branch cs v) = [map set_try cs \<mapsto> v]"
proof (induction cs)
  case Nil
  then show ?case by simp
next
  case (Cons c cs)
  show ?case
  proof (rule ext)
    fix s show "keys (branch (c # cs) v) s = [map set_try (c # cs) \<mapsto> v] s"
      using Cons by (cases s; cases "cs = []") auto
  qed
qed

section \<open>Adding is an update of the map\<close>

lemma keys_sibling:
  "keys sb' = (keys sb)(c # cs := w) \<Longrightarrow> h \<noteq> c \<Longrightarrow> keys (Try h u ch sb') = (keys (Try h u ch sb))(c # cs := w)"
  by (rule ext, rename_tac x, case_tac x) simp_all

lemma keys_child:
  "keys ch' = (keys ch)(cs := w) \<Longrightarrow> cs \<noteq> [] \<Longrightarrow> keys (Try h u ch' sb) = (keys (Try h u ch sb))(h # cs := w)"
  by (rule ext, rename_tac x, case_tac x) simp_all

lemma keys_value:
  "keys (Try h v ch sb) = (keys (Try h u ch sb))([h] := (if v = 0 then None else Some v))"
  by (rule ext, rename_tac x, case_tac x) simp_all

lemma grow_keys:
  "grow mem cs v t = Grown t' \<Longrightarrow> tries_ok t \<Longrightarrow> cs \<noteq> [] \<Longrightarrow> 0 \<notin> set cs \<Longrightarrow> v \<noteq> 0 \<Longrightarrow>
     keys t' = (keys t)(map set_try cs \<mapsto> v) \<and> tries_ok t' \<and> heads t' = insert (set_try (hd cs)) (heads t)"
proof (induction mem cs v t arbitrary: t' rule: grow.induct)
  case (1 mem v t)
  then show ?case by simp
next
  case (2 mem c cs v)
  have t': "t' = branch (c # cs) v" using 2(1) by (simp split: if_splits)
  have "keys t' = [map set_try (c # cs) \<mapsto> v]" unfolding t' by (rule branch_keys [OF _ 2(5)]) simp
  moreover have "keys NoTry = (\<lambda>_. None)" by (rule ext) simp
  ultimately show ?case using branch_ok [of "c # cs" v] by (simp add: t')
next
  case (3 mem c cs v h u ch sb)
  have h: "h \<noteq> 128" and cz: "c \<noteq> 0" using 3(4,6) by simp_all
  note cmp = cmp_try_iff [OF h cz]
  show ?case
  proof (cases "h = set_try c")
    case False
    obtain sb' where sb': "grow mem (c # cs) v sb = Grown sb'" "t' = Try h u ch sb'"
      using 3(3) False cmp by (cases "grow mem (c # cs) v sb") simp_all
    have ok: "tries_ok sb" and nc: "\<not> cmp_try h c" using 3(4) False cmp by simp_all
    have IH: "keys sb' = (keys sb)(map set_try (c # cs) \<mapsto> v)" "tries_ok sb'" "heads sb' = insert (set_try c) (heads sb)"
      using 3(2) [OF nc sb'(1) ok 3(5-7)] by (simp_all only: list.sel)
    have "keys t' = (keys (Try h u ch sb))(map set_try (c # cs) \<mapsto> v)"
      using keys_sibling [OF IH(1) [simplified list.map] False] by (simp add: sb'(2))
    then show ?thesis using sb'(2) IH(2,3) 3(4) False by (simp add: insert_commute)
  next
    case True
    have g: "(if cs = [] then Grown (Try h v ch sb)
         else if ch \<noteq> NoTry then (case grow mem cs v ch of Grown t \<Rightarrow> Grown (Try h u t sb) | g \<Rightarrow> g)
         else if mem < length cs then Destroyed else Grown (Try h u (branch cs v) sb)) = Grown t'"
      using 3(3) unfolding grow.simps if_P [OF cmp [THEN iffD2, OF True]] .
    show ?thesis
    proof (cases "cs = []")
      case cs: True
      have "t' = Try h v ch sb" using g cs by simp
      then show ?thesis using keys_value [of h v ch sb u] True cs 3(4,7) by simp
    next
      case cs: False
      have "\<exists>ch'. t' = Try h u ch' sb \<and> keys ch' = (keys ch)(map set_try cs \<mapsto> v) \<and> tries_ok ch'"
      proof (cases "ch = NoTry")
        case ch: True
        have "t' = Try h u (branch cs v) sb" using g cs ch by (simp split: if_splits)
        moreover have "keys NoTry = (\<lambda>_. None)" by (rule ext) simp
        ultimately show ?thesis using branch_keys [OF cs 3(7)] branch_ok [of cs v] ch by simp
      next
        case ch: False
        obtain ch' where ch': "grow mem cs v ch = Grown ch'" "t' = Try h u ch' sb"
          using g cs ch by (cases "grow mem cs v ch") simp_all
        have "cmp_try h c" "tries_ok ch" "0 \<notin> set cs" using 3(4,6) True cmp by simp_all
        from 3(1) [OF this(1) cs ch ch'(1) this(2) cs this(3) 3(7)] show ?thesis using ch'(2) by blast
      qed
      then obtain ch' where ch': "t' = Try h u ch' sb" "keys ch' = (keys ch)(map set_try cs \<mapsto> v)" "tries_ok ch'" by blast
      have "keys t' = (keys (Try h u ch sb))(map set_try (c # cs) \<mapsto> v)"
        using keys_child [OF ch'(2), of h u sb] cs True by (simp add: ch'(1))
      then show ?thesis using ch'(1,3) True 3(4) by simp
    qed
  qed
qed

lemma grow_enough: "cs \<noteq> [] \<Longrightarrow> length cs \<le> mem \<Longrightarrow> \<exists>t'. grow mem cs v t = Grown t'"
proof (induction mem cs v t rule: grow.induct)
  case (3 mem c cs v h u ch sb)
  have down: "\<exists>t'. grow mem cs v ch = Grown t'" if "cmp_try h c" "cs \<noteq> []" "ch \<noteq> NoTry"
    using 3(1) [OF that] that(2) 3(4) by simp
  have right: "\<exists>t'. grow mem (c # cs) v sb = Grown t'" if "\<not> cmp_try h c"
    using 3(2) [OF that 3(3,4)] .
  show ?case
  proof (cases "cmp_try h c")
    case True
    then show ?thesis using down 3(4) by (cases "cs = []"; cases "ch = NoTry") auto
  next
    case False
    then show ?thesis using right by auto
  qed
qed auto

section \<open>Removing undoes it\<close>

lemma expand_none:
  "expand_try t code 0 = (None, n) \<Longrightarrow> 0 < code \<Longrightarrow> n = 0 \<and> remove_key t code = (False, t)"
proof (induction t arbitrary: n)
  case NoTry
  then show ?case by simp
next
  case (Try h v ch sb)
  obtain m where m: "expand_try ch code 0 = (None, m)"
    using Try.prems by (auto split: prod.splits option.splits)
  have c: "m = 0" "remove_key ch code = (False, ch)" using Try.IH(1) [OF m Try.prems(2)] by simp_all
  have v: "unat v \<noteq> code" using Try.prems m c by (auto split: if_splits)
  have "expand_try sb code 0 = (None, n)" using Try.prems m c v by simp
  from Try.IH(2) [OF this Try.prems(2)] show ?case using c v Try.prems(2) by simp
qed

lemma no_code:
  "remove_key t code = (False, t') \<Longrightarrow> 0 < code \<Longrightarrow> keys t s = Some v \<Longrightarrow> unat v \<noteq> code"
proof (induction t arbitrary: s t')
  case NoTry
  then show ?case by simp
next
  case (Try h w ch sb)
  obtain ch' where ch: "remove_key ch code = (False, ch')" "unat w \<noteq> code"
    using Try.prems(1,2) by (auto split: prod.splits bool.splits if_splits)
  obtain sb' where sb: "remove_key sb code = (False, sb')"
    using Try.prems(1,2) ch by (auto split: prod.splits bool.splits if_splits)
  obtain c cs where s: "s = c # cs" using Try.prems(3) by (cases s) auto
  show ?case using Try.prems(3) ch(2) Try.IH(1) [OF ch(1) Try.prems(2)] Try.IH(2) [OF sb Try.prems(2)]
    by (auto simp: s split: if_splits)
qed

text \<open>\<open>_nc_remove_key\<close> removes the sequence that \<open>_nc_expand_try\<close> with the count 0 finds.\<close>

lemma expand_some:
  "expand_try t code 0 = (Some s, n) \<Longrightarrow> 0 < code \<Longrightarrow> tries_ok t \<Longrightarrow>
     \<exists>t' v. remove_key t code = (True, t') \<and> unat v = code \<and> keys t (map set_try s) = Some v
        \<and> keys t' = (keys t)(map set_try s := None) \<and> tries_ok t' \<and> heads t' \<subseteq> heads t
        \<and> n = - 1 \<and> 0 \<notin> set s \<and> s \<noteq> []"
proof (induction t arbitrary: s n)
  case NoTry
  then show ?case by simp
next
  case (Try h v ch sb)
  have h: "h \<noteq> 128" "h \<notin> heads sb" "tries_ok ch" "tries_ok sb" using Try.prems(3) by simp_all
  have p: "put_try h \<noteq> 0" by (simp add: put_try_def)
  consider (down) cs where "expand_try ch code 0 = (Some cs, n)" "s = put_try h # cs"
    | (here) m where "expand_try ch code 0 = (None, m)" "unat v = code" "s = [put_try h]" "n = - 1"
    | (right) m where "expand_try ch code 0 = (None, m)" "unat v \<noteq> code" "expand_try sb code 0 = (Some s, n)"
    using Try.prems(1,2) expand_none [of ch code] by (auto split: prod.splits option.splits if_splits)
  then show ?case
  proof cases
    case down
    obtain ch' w where ch': "remove_key ch code = (True, ch')" "unat w = code" "keys ch (map set_try cs) = Some w"
      "keys ch' = (keys ch)(map set_try cs := None)" "tries_ok ch'" "n = - 1" "0 \<notin> set cs" "cs \<noteq> []"
      using Try.IH(1) [OF down(1) Try.prems(2) h(3)] by blast
    have "keys (Try h v ch' sb) = (keys (Try h v ch sb))(map set_try s := None)"
      using keys_child [OF ch'(4), of h v sb] ch'(8) h(1) by (simp add: down(2))
    then show ?thesis using ch' h p Try.prems(2) by (auto simp: down(2))
  next
    case here
    note r = expand_none [OF here(1) Try.prems(2)]
    have vz: "v \<noteq> 0" using here(2) Try.prems(2) by auto
    have "keys sb = (keys (Try h v NoTry sb))([h] := None)"
      by (rule ext, rename_tac x, case_tac x) (auto simp: keys_heads [OF h(2)])
    then have k: "keys (if ch \<noteq> NoTry then Try h 0 ch sb else sb) = (keys (Try h v ch sb))(map set_try s := None)"
      using keys_value [of h 0 ch sb v] h(1) by (simp add: here(3))
    show ?thesis using k r h p here vz Try.prems(2) by (auto split: if_splits)
  next
    case right
    note r = expand_none [OF right(1) Try.prems(2)]
    obtain sb' w where sb': "remove_key sb code = (True, sb')" "unat w = code" "keys sb (map set_try s) = Some w"
      "keys sb' = (keys sb)(map set_try s := None)" "tries_ok sb'" "heads sb' \<subseteq> heads sb" "n = - 1" "0 \<notin> set s" "s \<noteq> []"
      using Try.IH(2) [OF right(3) Try.prems(2) h(4)] by blast
    obtain c cs where s: "s = c # cs" using sb'(9) by (cases s) auto
    have c: "set_try c \<noteq> h" using sb'(3) keys_heads [OF h(2)] by (auto simp: s)
    have "keys (Try h v ch sb') = (keys (Try h v ch sb))(map set_try s := None)"
      using keys_sibling [of sb' sb "set_try c" "map set_try cs" None h v ch] sb'(4) c by (simp add: s)
    then show ?thesis using sb' c h r right(2) Try.prems(2) by (auto simp: s)
  qed
qed

lemma remove_string_keys:
  "remove_string t s = (r, t') \<Longrightarrow> tries_ok t \<Longrightarrow>
     keys t' = (if r then (keys t)(s := None) else keys t) \<and> tries_ok t' \<and> heads t' \<subseteq> heads t"
proof (induction t s arbitrary: r t' rule: remove_string.induct)
  case (3 h v ch sb c cs)
  show ?case
  proof (cases "h = c")
    case False
    obtain sb' where sb': "remove_string sb (c # cs) = (r, sb')" "t' = Try h v ch sb'"
      using 3(3) False by (auto split: prod.splits)
    have IH: "keys sb' = (if r then (keys sb)(c # cs := None) else keys sb)" "tries_ok sb'" "heads sb' \<subseteq> heads sb"
      using 3(2) [OF False sb'(1)] 3(4) by auto
    have "keys t' x = (if r then (keys (Try h v ch sb))(c # cs := None) else keys (Try h v ch sb)) x" for x
      using False IH(1) by (cases x) (auto simp: sb'(2))
    then show ?thesis using IH 3(4) by (auto simp: sb'(2))
  next
    case True
    show ?thesis
    proof (cases "cs = []")
      case cs: True
      have n: "keys sb (c # x) = None" for x by (rule keys_heads) (use 3(4) True in simp)
      have "keys t' x = (if r then (keys (Try h v ch sb))(c # cs := None) else keys (Try h v ch sb)) x" for x
        using 3(3) True cs n by (cases x) (auto split: if_splits)
      then show ?thesis using 3(3,4) True cs by (auto split: if_splits)
    next
      case cs: False
      obtain ch' where ch': "remove_string ch cs = (r, ch')" "t' = Try h v ch' sb"
        using 3(3) True cs by (auto split: prod.splits)
      have IH: "keys ch' = (if r then (keys ch)(cs := None) else keys ch)" "tries_ok ch'"
        using 3(1) [OF True cs ch'(1)] 3(4) by auto
      have "keys t' x = (if r then (keys (Try h v ch sb))(c # cs := None) else keys (Try h v ch sb)) x" for x
        using True cs IH(1) by (cases x) (auto simp: ch'(2))
      then show ?thesis using IH 3(4) by (auto simp: ch'(2))
    qed
  qed
qed auto

end
