(* ===== verification/TermModes.thy ===== *)
theory TermModes
  imports KeyTries
begin

text \<open>
  The input side of a screen: the modes of the terminal and of the screen, and the functions that
  change them (\<open>tinfo/lib_raw.c\<close>, \<open>tinfo/lib_ttyflags.c\<close>, \<open>tinfo/lib_kernel.c\<close>,
  \<open>tinfo/lib_options.c\<close>, \<open>tinfo/init_keytry.c\<close>, \<open>base/lib_echo.c\<close>, \<open>base/lib_nl.c\<close>,
  \<open>base/keyok.c\<close>, \<open>base/define_key.c\<close>, \<open>base/keybound.c\<close>).

  The functions are modelled for the state after \<open>initscr\<close>: there is a current screen and it has
  a terminal, so the branches for a null \<open>SP\<close> or a null \<open>cur_term\<close> are not taken.
\<close>

section \<open>Terminal attributes\<close>

text \<open>
  The part of a \<open>struct termios\<close> that curses uses, with the values of the Linux headers.
  \<open>_POSIX_VDISABLE\<close> is 0 there.
\<close>

record tty =
  c_iflag :: "32 word"
  c_oflag :: "32 word"
  c_lflag :: "32 word"
  c_vmin :: byte
  c_vtime :: byte
  c_verase :: byte
  c_vkill :: byte

definition ISIG :: "32 word" where "ISIG = 0x1"
definition ICANON :: "32 word" where "ICANON = 0x2"
definition NOFLSH :: "32 word" where "NOFLSH = 0x80"
definition IEXTEN :: "32 word" where "IEXTEN = 0x8000"
definition BRKINT :: "32 word" where "BRKINT = 0x2"
definition PARMRK :: "32 word" where "PARMRK = 0x8"
definition ICRNL :: "32 word" where "ICRNL = 0x100"
definition IXON :: "32 word" where "IXON = 0x400"
definition OFLAGS_TABS :: "32 word" where "OFLAGS_TABS = 0x1800"

definition COOKED_INPUT :: "32 word" where
  "COOKED_INPUT = IXON OR BRKINT OR PARMRK"

definition zero_tty :: tty where
  "zero_tty = \<lparr>c_iflag = 0, c_oflag = 0, c_lflag = 0, c_vmin = 0, c_vtime = 0, c_verase = 0, c_vkill = 0\<rparr>"

section \<open>The state\<close>

text \<open>The control strings of the terminal description that these functions send.\<close>

datatype cap = KeypadXmit | KeypadLocal | CursorVisible | CursorNormal | CursorInvisible | MetaOn | MetaOff

text \<open>
  \<^item> \<open>fifo\<close>, \<open>fifohead\<close>, \<open>fifotail\<close>, \<open>fifopeek\<close>: the queue of characters that were read ahead or
    pushed back, an array of \<open>FIFO_SIZE\<close> places.
  \<^item> \<open>kernel_tty\<close>: the attributes of the terminal device, \<open>None\<close> when the file is not a terminal.
    \<open>nttyb\<close> and \<open>ottyb\<close> are curses' copies for program mode and shell mode.
  \<^item> \<open>caps\<close>: which control strings the terminal has; \<open>sent\<close>: those that were sent to it.
  \<^item> \<open>fkeys\<close>: the key strings of the terminal description with their codes, in the order of the
    table \<open>_nc_tinfo_fkeys\<close>; \<open>xkeys\<close>: its extended strings whose name starts with a \<open>k\<close>.
  \<^item> \<open>pending\<close>: the bytes that the terminal will deliver, each with the number of milliseconds
    that pass before it arrives. After the last one a read returns 0.
  \<^item> \<open>mem\<close>: how many nodes \<open>calloc\<close> can provide to one call of \<open>_nc_add_to_try\<close>.
\<close>

record input =
  fifo :: "int list"
  fifohead :: int
  fifotail :: int
  fifopeek :: int
  echo_on :: bool
  nl_on :: bool
  raw_on :: bool
  cbreak_mode :: int
  use_meta :: bool
  notty :: bool
  called_wgetch :: bool
  keypad_on :: bool
  tried :: bool
  keytry :: tries
  key_ok :: tries
  cursor_vis :: int
  checkfd :: int
  maxclick :: int
  escdelay :: int
  getstr_limit :: int
  nttyb :: tty
  ottyb :: tty
  saved_tty :: tty
  kernel_tty :: "tty option"
  tab_caps :: bool
  caps :: "cap \<Rightarrow> bool"
  sent :: "cap list"
  fkeys :: "(byte list option \<times> nat) list"
  xkeys :: "(byte list option \<times> nat) list"
  mem :: nat
  pending :: "(nat \<times> byte) list"

section \<open>Reading and setting the attributes\<close>

text \<open>A call that a signal interrupts is repeated; the model has no signals.\<close>

definition get_tty_mode :: "input \<Rightarrow> int \<times> tty" where
  "get_tty_mode i = (case kernel_tty i of Some t \<Rightarrow> (OK, t) | None \<Rightarrow> (ERR, zero_tty))"

definition set_tty_mode :: "tty \<Rightarrow> input \<Rightarrow> int \<times> input" where
  "set_tty_mode buf i =
     (case kernel_tty i of
        Some _ \<Rightarrow> (OK, i\<lparr>kernel_tty := Some buf\<rparr>)
      | None \<Rightarrow> (ERR, i\<lparr>notty := True\<rparr>))"

definition raw :: "input \<Rightarrow> int \<times> input" where
  "raw i =
     (let buf = (nttyb i)\<lparr>c_lflag := c_lflag (nttyb i) AND NOT (ICANON OR ISIG OR IEXTEN),
                          c_iflag := c_iflag (nttyb i) AND NOT COOKED_INPUT,
                          c_vmin := 1, c_vtime := 0\<rparr>;
          (result, i1) = set_tty_mode buf i
      in (result, if result = OK then i1\<lparr>raw_on := True, cbreak_mode := 1, nttyb := buf\<rparr> else i1))"

definition cbreak :: "input \<Rightarrow> int \<times> input" where
  "cbreak i =
     (let buf = (nttyb i)\<lparr>c_lflag := (c_lflag (nttyb i) AND NOT ICANON) OR ISIG,
                          c_iflag := c_iflag (nttyb i) AND NOT ICRNL,
                          c_vmin := 1, c_vtime := 0\<rparr>;
          (result, i1) = set_tty_mode buf i
      in (result, if result = OK then i1\<lparr>cbreak_mode := 1, nttyb := buf\<rparr> else i1))"

definition noraw :: "input \<Rightarrow> int \<times> input" where
  "noraw i =
     (let buf = (nttyb i)\<lparr>c_lflag := c_lflag (nttyb i) OR (ISIG OR ICANON OR (c_lflag (ottyb i) AND IEXTEN)),
                          c_iflag := c_iflag (nttyb i) OR COOKED_INPUT\<rparr>;
          (result, i1) = set_tty_mode buf i
      in (result, if result = OK then i1\<lparr>raw_on := False, cbreak_mode := 0, nttyb := buf\<rparr> else i1))"

definition nocbreak :: "input \<Rightarrow> int \<times> input" where
  "nocbreak i =
     (let buf = (nttyb i)\<lparr>c_lflag := c_lflag (nttyb i) OR ICANON, c_iflag := c_iflag (nttyb i) OR ICRNL\<rparr>;
          (result, i1) = set_tty_mode buf i
      in (result, if result = OK then i1\<lparr>cbreak_mode := 0, nttyb := buf\<rparr> else i1))"

definition qiflush :: "input \<Rightarrow> input" where
  "qiflush i =
     (let buf = (nttyb i)\<lparr>c_lflag := c_lflag (nttyb i) AND NOT NOFLSH\<rparr>;
          (result, i1) = set_tty_mode buf i
      in if result = OK then i1\<lparr>nttyb := buf\<rparr> else i1)"

definition noqiflush :: "input \<Rightarrow> input" where
  "noqiflush i =
     (let buf = (nttyb i)\<lparr>c_lflag := c_lflag (nttyb i) OR NOFLSH\<rparr>;
          (result, i1) = set_tty_mode buf i
      in if result = OK then i1\<lparr>nttyb := buf\<rparr> else i1)"

definition intrflush :: "bool \<Rightarrow> input \<Rightarrow> int \<times> input" where
  "intrflush flag i =
     (let buf = (if flag then (nttyb i)\<lparr>c_lflag := c_lflag (nttyb i) AND NOT NOFLSH\<rparr>
                 else (nttyb i)\<lparr>c_lflag := c_lflag (nttyb i) OR NOFLSH\<rparr>);
          (result, i1) = set_tty_mode buf i
      in (result, if result = OK then i1\<lparr>nttyb := buf\<rparr> else i1))"

definition halfdelay :: "int \<Rightarrow> input \<Rightarrow> int \<times> input" where
  "halfdelay t i =
     (if t < 1 \<or> t > 255 then (ERR, i)
      else (let (_, i1) = cbreak i in (OK, i1\<lparr>cbreak_mode := t + 1\<rparr>)))"

definition echo :: "input \<Rightarrow> int \<times> input" where "echo i = (OK, i\<lparr>echo_on := True\<rparr>)"
definition noecho :: "input \<Rightarrow> int \<times> input" where "noecho i = (OK, i\<lparr>echo_on := False\<rparr>)"
definition nl :: "input \<Rightarrow> int \<times> input" where "nl i = (OK, i\<lparr>nl_on := True\<rparr>)"
definition nonl :: "input \<Rightarrow> int \<times> input" where "nonl i = (OK, i\<lparr>nl_on := False\<rparr>)"

section \<open>Sending control strings\<close>

definition putp :: "cap \<Rightarrow> input \<Rightarrow> int \<times> input" where
  "putp c i = (if caps i c then (OK, i\<lparr>sent := sent i @ [c]\<rparr>) else (ERR, i))"

definition meta :: "bool \<Rightarrow> input \<Rightarrow> int \<times> input" where
  "meta flag i = (OK, snd (putp (if flag then MetaOn else MetaOff) (i\<lparr>use_meta := flag\<rparr>)))"

definition curs_set :: "int \<Rightarrow> input \<Rightarrow> int \<times> input" where
  "curs_set vis i =
     (if vis \<ge> 0 \<and> vis \<le> 2 then
        (let cursor = cursor_vis i in
         if vis = cursor then (cursor, i)
         else
           (let (code, i1) = putp (if vis = 2 then CursorVisible else if vis = 1 then CursorNormal else CursorInvisible) i
            in (if code \<noteq> ERR then (if cursor = - 1 then 1 else cursor) else code, i1\<lparr>cursor_vis := vis\<rparr>)))
      else (ERR, i))"

definition typeahead :: "int \<Rightarrow> input \<Rightarrow> int \<times> input" where
  "typeahead fd i = (OK, i\<lparr>checkfd := fd\<rparr>)"

section \<open>Keys\<close>

definition key_defined :: "byte list option \<Rightarrow> input \<Rightarrow> int" where
  "key_defined str i = (case str of None \<Rightarrow> ERR | Some s \<Rightarrow> find_definition (keytry i) s)"

definition has_key :: "nat \<Rightarrow> input \<Rightarrow> bool" where
  "has_key keycode i = has_key_internal keycode (keytry i)"

definition add_key :: "byte list option \<times> nat \<Rightarrow> input \<Rightarrow> input" where
  "add_key k i = i\<lparr>keytry := snd (add_to_try (mem i) (keytry i) (fst k) (snd k))\<rparr>"

definition init_keytry :: "input \<Rightarrow> input" where
  "init_keytry i =
     (let i1 = fold add_key (takeWhile (\<lambda>k. snd k \<noteq> 0) (fkeys i)) i
      in fold (\<lambda>k j. if fst k \<noteq> None \<and> key_defined (fst k) j = 0 then add_key k j else j) (xkeys i) i1)"

definition nc_keypad :: "bool \<Rightarrow> input \<Rightarrow> int \<times> input" where
  "nc_keypad flag i =
     (let i1 = (if flag then snd (putp KeypadXmit i)
                else if caps i KeypadLocal then snd (putp KeypadLocal i) else i);
          i2 = (if flag \<and> \<not> tried i1 then (init_keytry i1)\<lparr>tried := True\<rparr> else i1)
      in (OK, i2\<lparr>keypad_on := flag\<rparr>))"

text \<open>
  The loop of \<open>keyok\<close>, from the tree \<open>src\<close> to the tree \<open>dst\<close>. The sequence that
  \<open>_nc_expand_try\<close> found is removed and added to the other tree until there is none left.
\<close>

function move_keys :: "nat \<Rightarrow> nat \<Rightarrow> int \<Rightarrow> int \<Rightarrow> tries \<Rightarrow> tries \<Rightarrow> int \<times> tries \<times> tries" where
  "move_keys m c count code src dst =
     (case expand_try src c count of
        (None, _) \<Rightarrow> (code, src, dst)
      | (Some s, n) \<Rightarrow>
          (case remove_key src c of
             (True, src') \<Rightarrow>
               (case add_to_try m dst (Some s) c of
                  (r, dst') \<Rightarrow> if r \<noteq> OK then (r, src', dst') else move_keys m c 0 r src' dst')
           | (False, _) \<Rightarrow> move_keys m c n code src dst))"
  by pat_completeness auto

text \<open>Removing a key makes the tree smaller, or turns a value into 0.\<close>

fun weight :: "tries \<Rightarrow> nat" where
  "weight NoTry = 0"
| "weight (Try h v ch sb) = (if v = 0 then 1 else 2) + weight ch + weight sb"

lemma remove_weight: "remove_key t c = (True, t') \<Longrightarrow> weight t' < weight t"
proof (induction t arbitrary: t')
  case NoTry
  then show ?case by simp
next
  case (Try h v ch sb)
  obtain r ch' where ch': "remove_key ch c = (r, ch')" by (cases "remove_key ch c")
  obtain q sb' where sb': "remove_key sb c = (q, sb')" by (cases "remove_key sb c")
  have c: "c \<noteq> 0" using Try.prems by (auto split: if_splits)
  show ?case
  proof (cases r)
    case True
    then show ?thesis using Try.IH(1) [of ch'] Try.prems ch' c by auto
  next
    case False
    then show ?thesis using Try.IH(2) [of sb'] Try.prems ch' sb' c by (auto split: if_splits)
  qed
qed

lemma expand_finds: "expand_try t c n = (Some s, m) \<Longrightarrow> \<exists>t'. remove_key t c = (True, t')"
proof (induction t arbitrary: n s m)
  case NoTry
  then show ?case by simp
next
  case (Try h v ch sb)
  obtain r ch' where ch': "remove_key ch c = (r, ch')" by (cases "remove_key ch c")
  obtain x k where x: "expand_try ch c n = (x, k)" by (cases "expand_try ch c n")
  have c: "c \<noteq> 0" using Try.prems by (auto split: if_splits)
  show ?case
  proof (cases "r \<or> unat v = c")
    case True
    then show ?thesis using ch' c by (cases r) simp_all
  next
    case False
    then have "x = None" using Try.IH(1) [of n _ k] x ch' by (cases x) auto
    then have "expand_try sb c k = (Some s, m)" using Try.prems x c False by simp
    from Try.IH(2) [OF this] show ?thesis using False ch' c by auto
  qed
qed

lemma expand_finds_False: "(Some s, m) = expand_try t c n \<Longrightarrow> (False, t') = remove_key t c \<Longrightarrow> False"
  using expand_finds [of t c n s m] by (metis Pair_inject)

lemma remove_weight_sym: "(True, t') = remove_key t c \<Longrightarrow> weight t' < weight t"
  by (rule remove_weight) simp

termination move_keys
  by (relation "measure (\<lambda>(m, c, count, code, src, dst). weight src)")
     (auto dest: expand_finds_False remove_weight_sym)

definition keyok :: "int \<Rightarrow> bool \<Rightarrow> input \<Rightarrow> int \<times> input" where
  "keyok c flag i =
     (if c \<ge> 0 then
        (if flag then
           (let (code, ok, try) = move_keys (mem i) (nat c) 0 ERR (key_ok i) (keytry i)
            in (code, i\<lparr>key_ok := ok, keytry := try\<rparr>))
         else
           (let (code, try, ok) = move_keys (mem i) (nat c) 0 ERR (keytry i) (key_ok i)
            in (code, i\<lparr>keytry := try, key_ok := ok\<rparr>)))
      else (ERR, i))"

function remove_keys :: "nat \<Rightarrow> int \<Rightarrow> tries \<Rightarrow> int \<times> tries" where
  "remove_keys c code t =
     (case remove_key t c of (True, t') \<Rightarrow> remove_keys c OK t' | (False, t') \<Rightarrow> (code, t'))"
  by pat_completeness auto

termination remove_keys
  by (relation "measure (\<lambda>(c, code, t). weight t)") (auto dest: remove_weight_sym)

lemma remove_string_weight: "remove_string t s = (True, t') \<Longrightarrow> weight t' < weight t"
proof (induction t s arbitrary: t' rule: remove_string.induct)
  case (3 h v ch sb c cs)
  obtain r ch' where ch': "remove_string ch cs = (r, ch')" by (cases "remove_string ch cs")
  obtain q sb' where sb': "remove_string sb (c # cs) = (q, sb')" by (cases "remove_string sb (c # cs)")
  show ?case
  proof (cases "h = c")
    case True
    then show ?thesis using 3(1) [of ch'] 3(3) ch' by (auto split: if_splits)
  next
    case False
    then show ?thesis using 3(2) [of sb'] 3(3) sb' by auto
  qed
qed auto

function remove_strings :: "byte list \<Rightarrow> int \<Rightarrow> tries \<Rightarrow> int \<times> tries" where
  "remove_strings s code t =
     (case remove_string t s of (True, t') \<Rightarrow> remove_strings s OK t' | (False, t') \<Rightarrow> (code, t'))"
  by pat_completeness auto

lemma remove_string_weight_sym: "(True, t') = remove_string t s \<Longrightarrow> weight t' < weight t"
  by (rule remove_string_weight) simp

termination remove_strings
  by (relation "measure (\<lambda>(s, code, t). weight t)") (auto dest: remove_string_weight_sym)

declare move_keys.simps [simp del] remove_keys.simps [simp del] remove_strings.simps [simp del]

definition undefine :: "byte list option \<Rightarrow> input \<Rightarrow> int \<times> input" where
  "undefine str i =
     (case str of
        None \<Rightarrow> (ERR, i)
      | Some s \<Rightarrow> (let (code, t) = remove_strings s ERR (keytry i) in (code, i\<lparr>keytry := t\<rparr>)))"

definition define_key :: "byte list option \<Rightarrow> int \<Rightarrow> input \<Rightarrow> int \<times> input" where
  "define_key str keycode i =
     (if keycode > 0 then
        (let (code, i1) =
               (if str \<noteq> None then (ERR, snd (undefine str i))
                else if has_key (nat keycode) i then
                  (let (code, t) = remove_keys (nat keycode) ERR (keytry i) in (code, i\<lparr>keytry := t\<rparr>))
                else (ERR, i))
         in if str \<noteq> None then
              (if key_defined str i1 = 0 then
                 (let (code, t) = add_to_try (mem i1) (keytry i1) str (nat keycode)
                  in (if code = OK then OK else ERR, i1\<lparr>keytry := t\<rparr>))
               else (ERR, i1))
            else (code, i1))
      else undefine str i)"

definition keybound :: "int \<Rightarrow> int \<Rightarrow> input \<Rightarrow> byte list option" where
  "keybound code count i = (if code \<ge> 0 then fst (expand_try (keytry i) (nat code) count) else None)"

section \<open>Program mode and shell mode\<close>

definition def_shell_mode :: "input \<Rightarrow> int \<times> input" where
  "def_shell_mode i =
     (let (r, buf) = get_tty_mode i; i1 = i\<lparr>ottyb := buf\<rparr>
      in if r = OK then (OK, if c_oflag buf AND OFLAGS_TABS \<noteq> 0 then i1\<lparr>tab_caps := False\<rparr> else i1)
         else (ERR, i1))"

definition def_prog_mode :: "input \<Rightarrow> int \<times> input" where
  "def_prog_mode i =
     (let (r, buf) = get_tty_mode i
      in if r = OK then (OK, i\<lparr>nttyb := buf\<lparr>c_oflag := c_oflag buf AND NOT OFLAGS_TABS\<rparr>\<rparr>)
         else (ERR, i\<lparr>nttyb := buf\<rparr>))"

definition reset_prog_mode :: "input \<Rightarrow> int \<times> input" where
  "reset_prog_mode i =
     (let (r, i1) = set_tty_mode (nttyb i) i
      in if r = OK then (OK, if keypad_on i1 then snd (nc_keypad True i1) else i1) else (ERR, i1))"

definition reset_shell_mode :: "input \<Rightarrow> int \<times> input" where
  "reset_shell_mode i = (let (_, i1) = nc_keypad False i in set_tty_mode (ottyb i1) i1)"

definition savetty :: "input \<Rightarrow> int \<times> input" where
  "savetty i = (let (r, buf) = get_tty_mode i in (r, i\<lparr>saved_tty := buf\<rparr>))"

definition resetty :: "input \<Rightarrow> int \<times> input" where
  "resetty i = set_tty_mode (saved_tty i) i"

text \<open>The characters are of type \<open>char\<close>, which is signed.\<close>

definition nc_vdisable :: int where "nc_vdisable = 0"

definition to_char :: "int \<Rightarrow> int" where
  "to_char x = signed_take_bit 7 x"

definition erasechar :: "input \<Rightarrow> int" where
  "erasechar i = (let result = uint (c_verase (ottyb i)) in to_char (if result = nc_vdisable then ERR else result))"

definition killchar :: "input \<Rightarrow> int" where
  "killchar i = (let result = uint (c_vkill (ottyb i)) in to_char (if result = nc_vdisable then ERR else result))"

text \<open>\<open>tcflush\<close> drops the bytes that have arrived and were not read.\<close>

definition flushinp :: "input \<Rightarrow> int \<times> input" where
  "flushinp i =
     (OK, i\<lparr>pending := dropWhile (\<lambda>(g, c). g = 0) (pending i), fifohead := - 1, fifotail := 0, fifopeek := 0\<rparr>)"

section \<open>Disabling a key and enabling it again\<close>

text \<open>The sequences with the code \<open>c\<close>.\<close>

definition bound_to :: "nat \<Rightarrow> tries \<Rightarrow> byte list set" where
  "bound_to c t = {s. \<exists>v. keys t s = Some v \<and> unat v = c}"

lemma move_keys_spec:
  assumes "0 < c" and "tries_ok src" and "tries_ok dst" and "\<forall>s \<in> bound_to c src. length s \<le> m"
  shows "\<exists>r src' dst'. move_keys m c 0 code src dst = (r, src', dst') \<and> tries_ok src' \<and> tries_ok dst'
    \<and> keys src' = keys src |` (- bound_to c src) \<and> keys dst' = keys dst ++ (keys src |` bound_to c src)"
  using assms(2-4)
proof (induction "weight src" arbitrary: src dst code rule: less_induct)
  case less
  obtain x n where x: "expand_try src c 0 = (x, n)" by (cases "expand_try src c 0")
  show ?case
  proof (cases x)
    case None
    have "keys src s = Some v \<Longrightarrow> unat v \<noteq> c" for s v
      by (rule no_code [OF conjunct2 [OF expand_none [OF x [unfolded None] assms(1)]] assms(1)])
    then have b: "bound_to c src = {}" by (auto simp: bound_to_def)
    have "move_keys m c 0 code src dst = (code, src, dst)" using x None by (simp add: move_keys.simps)
    moreover have "keys src |` UNIV = keys src" by (rule ext) (simp add: restrict_map_def)
    ultimately show ?thesis using less.prems(1,2) by (simp add: b)
  next
    case (Some s)
    obtain src1 v where src1: "remove_key src c = (True, src1)" "unat v = c" "keys src (map set_try s) = Some v"
      "keys src1 = (keys src)(map set_try s := None)" "tries_ok src1" "0 \<notin> set s" "s \<noteq> []"
      using expand_some [OF x [unfolded Some] assms(1) less.prems(1)] by blast
    define k where "k = map set_try s"
    have vc: "of_nat c = v" using src1(2) by auto
    have v0: "v \<noteq> 0" using src1(2) assms(1) by auto
    have "k \<in> bound_to c src" using src1(2,3) by (auto simp: bound_to_def k_def)
    then have "length s \<le> m" using less.prems(3) by (auto simp: k_def)
    then obtain dst1 where dst1: "grow m s v dst = Grown dst1" using grow_enough [OF src1(7)] by blast
    have d: "keys dst1 = (keys dst)(k \<mapsto> v)" "tries_ok dst1"
      using grow_keys [OF dst1 less.prems(2) src1(7,6) v0] by (simp_all add: k_def)
    have step: "move_keys m c 0 code src dst = move_keys m c 0 OK src1 dst1"
      using x Some src1(1,7) dst1 assms(1) by (subst move_keys.simps) (simp add: add_to_try_def vc)
    have b: "bound_to c src1 = bound_to c src - {k}" using src1(4) by (auto simp: bound_to_def k_def)
    obtain r src' dst' where IH: "move_keys m c 0 OK src1 dst1 = (r, src', dst')" "tries_ok src'" "tries_ok dst'"
      "keys src' = keys src1 |` (- bound_to c src1)" "keys dst' = keys dst1 ++ (keys src1 |` bound_to c src1)"
      using less.hyps [OF remove_weight [OF src1(1)] src1(5) d(2), of OK] less.prems(3) b by auto
    have "keys src' = keys src |` (- bound_to c src)"
      using src1(2,3) unfolding IH(4) b src1(4) by (auto simp: fun_eq_iff restrict_map_def k_def bound_to_def)
    moreover have "keys dst' = keys dst ++ (keys src |` bound_to c src)"
      using src1(2,3) unfolding IH(5) b src1(4) d(1)
      by (auto simp: restrict_map_def map_add_def k_def bound_to_def fun_eq_iff split: option.splits)
    ultimately show ?thesis using IH(1-3) step by auto
  qed
qed

text \<open>
  C29. A key that is disabled with \<open>keyok\<close> is no longer recognised, and enabling it again gives back
  the map from byte sequences to codes as it was, if memory suffices. The sequences of the key must
  not be among those of other disabled keys.
\<close>

theorem keyok_roundtrip:
  assumes "0 < c" and "tries_ok (keytry i)" and "tries_ok (key_ok i)"
    and "\<forall>s \<in> bound_to c (keytry i). length s \<le> mem i \<and> keys (key_ok i) s = None" and "bound_to c (key_ok i) = {}"
    and "keyok (int c) False i = (r1, i1)" and "keyok (int c) True i1 = (r2, i2)"
  shows "bound_to c (keytry i1) = {} \<and> keys (keytry i2) = keys (keytry i) \<and> keys (key_ok i2) = keys (key_ok i)"
proof -
  have "\<forall>s \<in> bound_to c (keytry i). length s \<le> mem i" using assms(4) by blast
  from move_keys_spec [OF assms(1-3) this, of ERR] obtain t k where m: "tries_ok t" "tries_ok k"
    "keys t = keys (keytry i) |` (- bound_to c (keytry i))" "keys k = keys (key_ok i) ++ (keys (keytry i) |` bound_to c (keytry i))"
    "i1 = i\<lparr>keytry := t, key_ok := k\<rparr>"
    using assms(6) by (auto simp: keyok_def)
  have free: "unat v \<noteq> c" if "keys (key_ok i) x = Some v" for x v
    using assms(5) that by (auto simp: bound_to_def)
  have "x \<in> bound_to c k \<longleftrightarrow> x \<in> bound_to c (keytry i)" for x
    using free [of x] m(4) by (cases "x \<in> bound_to c (keytry i)") (auto simp: bound_to_def restrict_map_def map_add_def)
  then have b: "bound_to c k = bound_to c (keytry i)" by blast
  have bt: "bound_to c t = {}" using m(3) by (auto simp: bound_to_def restrict_map_def)
  have "\<forall>s \<in> bound_to c k. length s \<le> mem i" using assms(4) b by blast
  from move_keys_spec [OF assms(1) m(2,1) this, of ERR] obtain t2 k2 where n:
    "keys k2 = keys k |` (- bound_to c k)" "keys t2 = keys t ++ (keys k |` bound_to c k)" "i2 = i1\<lparr>key_ok := k2, keytry := t2\<rparr>"
    using assms(7) m(5) by (auto simp: keyok_def)
  have "keys t2 = keys (keytry i)"
    using assms(5) unfolding n(2) b m(3,4)
    by (auto simp: fun_eq_iff restrict_map_def map_add_def bound_to_def split: option.splits)
  moreover have "keys k2 = keys (key_ok i)"
    using assms(4,5) unfolding n(1) b m(4)
    by (auto simp: fun_eq_iff restrict_map_def map_add_def bound_to_def split: option.splits)
  ultimately show ?thesis using m(5) n(3) bt by simp
qed

section \<open>The modes agree with the terminal\<close>

text \<open>The operations of a program that change the modes.\<close>

datatype mode_call =
    Raw | NoRaw | Cbreak | NoCbreak | Halfdelay int | QiFlush | NoQiFlush | IntrFlush bool
  | Echo | NoEcho | Nl | NoNl | Meta bool | CursSet int | Keypad bool | KeyOk int bool
  | DefProg | DefShell | ResetProg | ResetShell | SaveTty | ResetTty

fun run_mode :: "mode_call \<Rightarrow> input \<Rightarrow> input" where
  "run_mode Raw i = snd (raw i)"
| "run_mode NoRaw i = snd (noraw i)"
| "run_mode Cbreak i = snd (cbreak i)"
| "run_mode NoCbreak i = snd (nocbreak i)"
| "run_mode (Halfdelay t) i = snd (halfdelay t i)"
| "run_mode QiFlush i = qiflush i"
| "run_mode NoQiFlush i = noqiflush i"
| "run_mode (IntrFlush b) i = snd (intrflush b i)"
| "run_mode Echo i = snd (echo i)"
| "run_mode NoEcho i = snd (noecho i)"
| "run_mode Nl i = snd (nl i)"
| "run_mode NoNl i = snd (nonl i)"
| "run_mode (Meta b) i = snd (meta b i)"
| "run_mode (CursSet v) i = snd (curs_set v i)"
| "run_mode (Keypad b) i = snd (nc_keypad b i)"
| "run_mode (KeyOk c b) i = snd (keyok c b i)"
| "run_mode DefProg i = snd (def_prog_mode i)"
| "run_mode DefShell i = snd (def_shell_mode i)"
| "run_mode ResetProg i = snd (reset_prog_mode i)"
| "run_mode ResetShell i = snd (reset_shell_mode i)"
| "run_mode SaveTty i = snd (savetty i)"
| "run_mode ResetTty i = snd (resetty i)"

text \<open>
  The attributes without the expansion of tabs by the terminal, which \<open>def_prog_mode\<close> takes out of
  the copy it makes.
\<close>

definition no_tabs :: "tty \<Rightarrow> tty" where
  "no_tabs t = t\<lparr>c_oflag := c_oflag t AND NOT OFLAGS_TABS\<rparr>"

text \<open>
  The screen knows whether the program-mode attributes are canonical; as long as it is not in raw mode,
  they let signals through; and the terminal has the attributes of program mode, of shell mode, or
  those of the last \<open>savetty\<close>.
\<close>

definition modes_agree :: "input \<Rightarrow> bool" where
  "modes_agree i \<longleftrightarrow>
     (cbreak_mode i = 0 \<longleftrightarrow> c_lflag (nttyb i) AND ICANON \<noteq> 0) \<and> (raw_on i \<or> c_lflag (nttyb i) AND ISIG \<noteq> 0)
     \<and> (\<exists>t. kernel_tty i = Some t \<and> no_tabs t \<in> {no_tabs (nttyb i), no_tabs (ottyb i), no_tabs (saved_tty i)})"

text \<open>The terminal has the attributes of program mode.\<close>

definition in_prog_mode :: "input \<Rightarrow> bool" where
  "in_prog_mode i \<longleftrightarrow> (\<exists>t. kernel_tty i = Some t \<and> no_tabs t = no_tabs (nttyb i))"

text \<open>A sequence of calls, and that \<open>def_prog_mode\<close> is called in program mode only.\<close>

definition run_modes :: "mode_call list \<Rightarrow> input \<Rightarrow> input" where
  "run_modes cs i = fold run_mode cs i"

fun mode_calls_ok :: "mode_call list \<Rightarrow> input \<Rightarrow> bool" where
  "mode_calls_ok [] i \<longleftrightarrow> True"
| "mode_calls_ok (c # cs) i \<longleftrightarrow> (c = DefProg \<longrightarrow> in_prog_mode i) \<and> mode_calls_ok cs (run_mode c i)"

definition same_modes :: "input \<Rightarrow> input \<Rightarrow> bool" where
  "same_modes i j \<longleftrightarrow> cbreak_mode j = cbreak_mode i \<and> nttyb j = nttyb i \<and> ottyb j = ottyb i \<and> kernel_tty j = kernel_tty i
     \<and> saved_tty j = saved_tty i \<and> raw_on j = raw_on i"

lemma same_modes_refl [simp]: "same_modes i i"
  by (simp add: same_modes_def)

lemma same_modes_trans: "same_modes i j \<Longrightarrow> same_modes j k \<Longrightarrow> same_modes i k"
  by (simp add: same_modes_def)

lemma same_modes_agree: "same_modes i j \<Longrightarrow> modes_agree j = modes_agree i"
  by (simp add: same_modes_def modes_agree_def)

lemma same_modes_putp: "same_modes i (snd (putp c i))"
  by (simp add: same_modes_def putp_def)

lemma same_modes_fold: "(\<And>x j. same_modes j (f x j)) \<Longrightarrow> same_modes i (fold f xs i)"
  by (induction xs arbitrary: i) (auto intro: same_modes_trans)

lemma same_modes_add_key: "same_modes j (add_key k j)"
  by (simp add: same_modes_def add_key_def)

lemma same_modes_init: "same_modes i (init_keytry i)"
  unfolding init_keytry_def Let_def
  by (rule same_modes_trans [OF same_modes_fold same_modes_fold]) (auto simp: same_modes_add_key)

lemma same_modes_keypad: "same_modes i (snd (nc_keypad b i))"
proof -
  define i1 where "i1 = (if b then snd (putp KeypadXmit i) else if caps i KeypadLocal then snd (putp KeypadLocal i) else i)"
  have "same_modes i i1" by (simp add: i1_def same_modes_putp)
  moreover have "same_modes i1 (if b \<and> \<not> tried i1 then (init_keytry i1)\<lparr>tried := True\<rparr> else i1)"
    using same_modes_init [of i1] by (simp add: same_modes_def)
  ultimately have "same_modes i (if b \<and> \<not> tried i1 then (init_keytry i1)\<lparr>tried := True\<rparr> else i1)"
    by (rule same_modes_trans)
  then show ?thesis by (simp add: nc_keypad_def i1_def [symmetric] Let_def same_modes_def)
qed

lemma canonical [simp]:
  "(x AND NOT ICANON AND NOT ISIG AND NOT IEXTEN) AND ICANON = 0"
  "((x AND NOT ICANON) OR ISIG) AND ICANON = 0"
  "(x OR ICANON) AND ICANON = ICANON"
  "(x OR (ISIG OR ICANON OR y)) AND ICANON = ICANON"
  "(x AND NOT NOFLSH) AND ICANON = x AND ICANON"
  "(x OR NOFLSH) AND ICANON = x AND ICANON"
  "ICANON \<noteq> 0"
proof -
  have "ISIG AND ICANON = 0" "NOFLSH AND ICANON = 0" by (simp_all add: ISIG_def NOFLSH_def ICANON_def)
  then have bits: "\<not> (bit ISIG n \<and> bit ICANON n)" "\<not> (bit NOFLSH n \<and> bit ICANON n)" for n
    by (metis bit_and_iff bit_0_eq bot_apply bot_bool_def)+
  show "(x AND NOT ICANON AND NOT ISIG AND NOT IEXTEN) AND ICANON = 0" "(x OR ICANON) AND ICANON = ICANON"
    "(x OR (ISIG OR ICANON OR y)) AND ICANON = ICANON"
    by (rule bit_word_eqI; auto simp: bit_simps)+
  show "((x AND NOT ICANON) OR ISIG) AND ICANON = 0" "(x AND NOT NOFLSH) AND ICANON = x AND ICANON"
    "(x OR NOFLSH) AND ICANON = x AND ICANON"
    using bits by (auto intro!: bit_word_eqI simp: bit_simps)
  show "ICANON \<noteq> 0" by (simp add: ICANON_def)
qed

lemma signals [simp]:
  "((x AND NOT ICANON) OR ISIG) AND ISIG = ISIG" "(x OR (ISIG OR ICANON OR y)) AND ISIG = ISIG"
  "(x OR ICANON) AND ISIG = x AND ISIG" "(x AND NOT NOFLSH) AND ISIG = x AND ISIG" "(x OR NOFLSH) AND ISIG = x AND ISIG"
  "ISIG \<noteq> 0"
proof -
  have "ICANON AND ISIG = 0" "NOFLSH AND ISIG = 0" by (simp_all add: ISIG_def NOFLSH_def ICANON_def)
  then have bits: "\<not> (bit ICANON n \<and> bit ISIG n)" "\<not> (bit NOFLSH n \<and> bit ISIG n)" for n
    by (metis bit_and_iff bit_0_eq bot_apply bot_bool_def)+
  show "((x AND NOT ICANON) OR ISIG) AND ISIG = ISIG" "(x OR (ISIG OR ICANON OR y)) AND ISIG = ISIG"
    by (rule bit_word_eqI; auto simp: bit_simps)+
  show "(x OR ICANON) AND ISIG = x AND ISIG" "(x AND NOT NOFLSH) AND ISIG = x AND ISIG" "(x OR NOFLSH) AND ISIG = x AND ISIG"
    using bits by (auto intro!: bit_word_eqI simp: bit_simps)
  show "ISIG \<noteq> 0" by (simp add: ISIG_def)
qed

lemma no_tabs_lflag: "no_tabs t = no_tabs u \<Longrightarrow> c_lflag t = c_lflag u"
  by (drule arg_cong [where f = c_lflag]) (simp add: no_tabs_def)

lemma no_tabs_twice [simp]: "no_tabs (no_tabs t) = no_tabs t"
  by (simp add: no_tabs_def and.assoc)

lemma agree_some: "modes_agree i \<Longrightarrow> \<exists>t. kernel_tty i = Some t"
  by (auto simp: modes_agree_def)

lemma agree_set: "kernel_tty i = Some t \<Longrightarrow> set_tty_mode buf i = (OK, i\<lparr>kernel_tty := Some buf\<rparr>)"
  by (simp add: set_tty_mode_def)

lemma run_mode_agree:
  assumes a: "modes_agree i" and prog: "c = DefProg \<longrightarrow> in_prog_mode i"
  shows "modes_agree (run_mode c i)"
proof -
  obtain t where t: "kernel_tty i = Some t" using agree_some [OF a] by blast
  note set = agree_set [OF t]
  have kp: "modes_agree (snd (nc_keypad b j)) = modes_agree j" for b j by (rule same_modes_agree [OF same_modes_keypad])
  show ?thesis
  proof (cases c)
    case ResetProg
    show ?thesis using a kp [of True "i\<lparr>kernel_tty := Some (nttyb i)\<rparr>"]
      by (simp add: ResetProg reset_prog_mode_def set modes_agree_def)
  next
    case ResetShell
    obtain r j where j: "nc_keypad False i = (r, j)" by (cases "nc_keypad False i")
    have sm: "same_modes i j" using same_modes_keypad [of i False] j by simp
    have "kernel_tty j = Some t" "modes_agree j" using sm t same_modes_agree [OF sm] a by (simp_all add: same_modes_def)
    then show ?thesis by (simp add: ResetShell reset_shell_mode_def j agree_set modes_agree_def)
  next
    case DefProg
    have "no_tabs t = no_tabs (nttyb i)" using prog DefProg t by (auto simp: in_prog_mode_def)
    note l = no_tabs_lflag [OF this]
    have "def_prog_mode i = (OK, i\<lparr>nttyb := no_tabs t\<rparr>)" using t by (simp add: def_prog_mode_def get_tty_mode_def no_tabs_def)
    moreover have "c_lflag (no_tabs t) = c_lflag (nttyb i)" using l by (simp add: no_tabs_def)
    ultimately show ?thesis using a t by (simp add: DefProg modes_agree_def)
  next
    case DefShell
    then show ?thesis using a t by (simp add: def_shell_mode_def get_tty_mode_def modes_agree_def Let_def)
  next
    case SaveTty
    then show ?thesis using a t by (simp add: savetty_def get_tty_mode_def modes_agree_def)
  next
    case ResetTty
    then show ?thesis using a by (simp add: resetty_def set modes_agree_def)
  next
    case (Keypad b)
    then show ?thesis using a kp by simp
  next
    case (Halfdelay v)
    then show ?thesis using a by (simp add: halfdelay_def cbreak_def set modes_agree_def Let_def)
  next
    case (KeyOk k b)
    then show ?thesis using a
      by (auto simp: keyok_def modes_agree_def split: prod.splits)
  next
    case (CursSet v)
    have "same_modes i (snd (curs_set v i))"
      by (auto simp: curs_set_def same_modes_def putp_def Let_def split: if_splits)
    then show ?thesis using a same_modes_agree CursSet by simp
  next
    case (Meta b)
    have "same_modes i (snd (meta b i))" by (simp add: meta_def same_modes_def putp_def)
    then show ?thesis using a same_modes_agree Meta by simp
  qed (use a in \<open>simp_all add: modes_agree_def set raw_def noraw_def cbreak_def nocbreak_def qiflush_def noqiflush_def
         intrflush_def echo_def noecho_def nl_def nonl_def Let_def\<close>)
qed

lemma run_modes_agree: "modes_agree i \<Longrightarrow> mode_calls_ok cs i \<Longrightarrow> modes_agree (run_modes cs i)"
  by (induction cs arbitrary: i) (simp_all add: run_modes_def run_mode_agree)

lemma run_mode_saved: "c \<noteq> SaveTty \<Longrightarrow> saved_tty (run_mode c i) = saved_tty i"
proof (cases c)
  case (Keypad b)
  then show ?thesis using same_modes_keypad [of i b] by (simp add: same_modes_def)
next
  case ResetProg
  then show ?thesis using same_modes_keypad [of "i\<lparr>kernel_tty := Some (nttyb i)\<rparr>" True]
    by (simp add: reset_prog_mode_def set_tty_mode_def same_modes_def split: option.split)
next
  case ResetShell
  obtain r j where j: "nc_keypad False i = (r, j)" by (cases "nc_keypad False i")
  have "saved_tty j = saved_tty i" using same_modes_keypad [of i False] j by (simp add: same_modes_def)
  then show ?thesis by (simp add: ResetShell reset_shell_mode_def j set_tty_mode_def split: option.split)
qed (simp_all add: set_tty_mode_def raw_def noraw_def cbreak_def nocbreak_def qiflush_def noqiflush_def
       intrflush_def echo_def noecho_def nl_def nonl_def halfdelay_def meta_def putp_def curs_set_def keyok_def Let_def
       def_prog_mode_def def_shell_mode_def get_tty_mode_def resetty_def
     split: option.split prod.split)

lemma run_modes_saved: "SaveTty \<notin> set cs \<Longrightarrow> saved_tty (run_modes cs i) = saved_tty i"
proof (induction cs arbitrary: i)
  case (Cons c cs)
  then have "c \<noteq> SaveTty" "SaveTty \<notin> set cs" by auto
  then show ?case using Cons.IH [of "run_mode c i"] run_mode_saved by (simp add: run_modes_def)
qed (simp add: run_modes_def)

lemma run_modes_append: "run_modes (cs @ ds) i = run_modes ds (run_modes cs i)"
  by (simp add: run_modes_def)

text \<open>
  C23. However a program changes the modes after \<open>initscr\<close>, by any of the calls of \<open>mode_call\<close>, also when
  it leaves curses and comes back: the screen's record of the cbreak mode tells whether the
  attributes of program mode are canonical; as long as the record of the raw mode is not set, these
  attributes let signals through (\<open>raw\<close> sets the record and shuts them off; \<open>cbreak\<close> after \<open>raw\<close> lets
  them through again and leaves the record set, so the converse fails); and the terminal has, up to
  the expansion of tabs, the attributes of program mode, of shell mode or of the last \<open>savetty\<close>. After
  \<open>reset_prog_mode\<close> it has those of program mode, and \<open>resetty\<close> gives it exactly those that it had at
  the last \<open>savetty\<close>. \<open>def_prog_mode\<close> must be called in program mode; in shell mode it would make the
  attributes of the shell those of the program without telling the screen.
\<close>

theorem modes_invariant:
  assumes "modes_agree i" and "mode_calls_ok cs i"
  shows "modes_agree (run_modes cs i) \<and> fst (reset_prog_mode (run_modes cs i)) = OK
    \<and> kernel_tty (snd (reset_prog_mode (run_modes cs i))) = Some (nttyb (run_modes cs i))
    \<and> (\<forall>pre post. cs = pre @ SaveTty # post \<and> SaveTty \<notin> set post \<longrightarrow>
         resetty (run_modes cs i) = (OK, (run_modes cs i)\<lparr>kernel_tty := kernel_tty (run_modes pre i)\<rparr>))"
proof -
  let ?j = "run_modes cs i"
  have j: "modes_agree ?j" by (rule run_modes_agree [OF assms])
  obtain u where u: "kernel_tty ?j = Some u" using agree_some [OF j] by blast
  have "kernel_tty (snd (nc_keypad True (?j\<lparr>kernel_tty := Some (nttyb ?j)\<rparr>))) = Some (nttyb ?j)"
    using same_modes_keypad [of "?j\<lparr>kernel_tty := Some (nttyb ?j)\<rparr>" True] by (simp add: same_modes_def)
  then have "fst (reset_prog_mode ?j) = OK \<and> kernel_tty (snd (reset_prog_mode ?j)) = Some (nttyb ?j)"
    by (simp add: reset_prog_mode_def agree_set [OF u])
  moreover have "resetty ?j = (OK, ?j\<lparr>kernel_tty := kernel_tty (run_modes pre i)\<rparr>)"
    if cs: "cs = pre @ SaveTty # post" "SaveTty \<notin> set post" for pre post
  proof -
    let ?p = "run_modes pre i"
    have "mode_calls_ok pre i" using assms(2) unfolding cs(1) by (induction pre arbitrary: i) auto
    then obtain t where t: "kernel_tty ?p = Some t" using agree_some run_modes_agree [OF assms(1)] by blast
    have "?j = run_modes post (snd (savetty ?p))" unfolding cs(1) run_modes_append by (simp add: run_modes_def)
    then have "saved_tty ?j = t" using run_modes_saved [OF cs(2)] t by (simp add: savetty_def get_tty_mode_def)
    then show ?thesis using t by (simp add: resetty_def agree_set [OF u])
  qed
  ultimately show ?thesis using j by blast
qed

section \<open>A terminal\<close>

text \<open>
  A terminal on which the properties are evaluated: three keys (the second one a prefix of
  nothing), echo off, cbreak mode, as after \<open>initscr\<close> and \<open>noecho\<close>.
\<close>

definition demo_tty :: tty where
  "demo_tty = \<lparr>c_iflag = 0, c_oflag = 0, c_lflag = ISIG, c_vmin = 1, c_vtime = 0, c_verase = 127, c_vkill = 21\<rparr>"

definition demo_keys :: tries where
  "demo_keys = snd (add_to_try 9 (snd (add_to_try 9 NoTry (Some [27, 91, 65]) 259)) (Some [27, 91, 66]) 258)"

definition demo_input :: input where
  "demo_input = \<lparr>fifo = replicate 137 0, fifohead = - 1, fifotail = 0, fifopeek = 0, echo_on = False, nl_on = True,
     raw_on = False, cbreak_mode = 1, use_meta = True, notty = False, called_wgetch = False, keypad_on = True,
     tried = True, keytry = demo_keys, key_ok = NoTry, cursor_vis = - 1, checkfd = 0, maxclick = 166, escdelay = 1000,
     getstr_limit = 2048,
     nttyb = demo_tty, ottyb = demo_tty, saved_tty = zero_tty, kernel_tty = Some demo_tty, tab_caps = True,
     caps = (\<lambda>c. c \<noteq> KeypadLocal), sent = [], fkeys = [], xkeys = [], mem = 9, pending = []\<rparr>"

lemma demo_agree: "modes_agree demo_input"
  by (simp add: modes_agree_def demo_input_def demo_tty_def ISIG_def ICANON_def)

theorem modes_invariant_witness:
  "resetty (run_modes [NoRaw, SaveTty, Raw, Halfdelay 3, ResetShell] demo_input)
     = (OK, (run_modes [NoRaw, SaveTty, Raw, Halfdelay 3, ResetShell] demo_input)\<lparr>kernel_tty := kernel_tty (run_modes [NoRaw] demo_input)\<rparr>)"
proof -
  have "mode_calls_ok [NoRaw, SaveTty, Raw, Halfdelay 3, ResetShell] demo_input" by simp
  from modes_invariant [OF demo_agree this] show ?thesis by (elim conjE allE [of _ "[NoRaw]"] allE [of _ "[Raw, Halfdelay 3, ResetShell]"]) simp
qed

theorem keyok_roundtrip_witness:
  "keys (keytry (snd (keyok 259 True (snd (keyok 259 False demo_input))))) = keys demo_keys
   \<and> keys demo_keys [27, 91, 65] = Some 259"
proof -
  have t: "keytry demo_input = Try 27 0 (Try 91 0 (Try 65 259 NoTry (Try 66 258 NoTry NoTry)) NoTry) NoTry"
    by (simp add: demo_input_def demo_keys_def add_to_try_def set_try_def cmp_try_def ERR_def OK_def)
  have b: "bound_to 259 (keytry demo_input) \<subseteq> {[27, 91, 65]}"
  proof
    fix s assume "s \<in> bound_to 259 (keytry demo_input)"
    then obtain v where "keys (keytry demo_input) s = Some v" "unat v = 259" by (auto simp: bound_to_def)
    then show "s \<in> {[27, 91, 65]}" unfolding t
      by (cases s; cases "tl s"; cases "tl (tl s)"; cases "tl (tl (tl s))") (auto split: if_splits)
  qed
  have k: "key_ok demo_input = NoTry" "mem demo_input = 9" by (simp_all add: demo_input_def)
  have s: "\<forall>s \<in> bound_to 259 (keytry demo_input). length s \<le> mem demo_input \<and> keys (key_ok demo_input) s = None"
    using b by (auto simp: k)
  obtain r1 i1 where 1: "keyok (int 259) False demo_input = (r1, i1)" by (cases "keyok (int 259) False demo_input")
  obtain r2 i2 where 2: "keyok (int 259) True i1 = (r2, i2)" by (cases "keyok (int 259) True i1")
  have "keys (keytry i2) = keys (keytry demo_input)"
    using keyok_roundtrip [OF _ _ _ s _ 1 2] by (simp add: t k bound_to_def)
  moreover have kd: "keytry demo_input = demo_keys" by (simp add: demo_input_def)
  moreover have "keys demo_keys [27, 91, 65] = Some 259" unfolding kd [symmetric] t by simp
  ultimately show ?thesis using 1 2 by simp
qed

end
