(* ===== verification/WinState.thy ===== *)
theory WinState
  imports TermModes
begin

text \<open>
  The state of the window library that the \<open>curses\<close> bindings of the runtime call
  (\<open>runtime/ncurses-6.3\<close>, built without wide characters and without extended colours):
  character cells, windows, and the memory of the windows' lines.

  A cell is a \<open>chtype\<close>, 32 bits: the character in the low byte, attributes and colour pair
  above it. The text of a line is a pointer, a block of cells and an offset into it, because a
  derived window shares the cells of its parent. A window is known by a number, with 0 for the
  null pointer. A computation is an \<open>option\<close>: \<open>None\<close> is undefined behaviour, an access outside
  a block or a window's lines, signed overflow, or a dereference of null.
\<close>

section \<open>Character cells\<close>

type_synonym chtype = "32 word"

definition A_CHARTEXT :: chtype where "A_CHARTEXT = 0xFF"
definition A_ATTRIBUTES :: chtype where "A_ATTRIBUTES = NOT 0xFF"
definition A_COLOR :: chtype where "A_COLOR = 0xFF00"
definition A_ALTCHARSET :: chtype where "A_ALTCHARSET = push_bit 22 1"
definition BLANK :: chtype where "BLANK = 0x20"

definition CharOf :: "chtype \<Rightarrow> chtype" where "CharOf c = c AND A_CHARTEXT"
definition AttrOf :: "chtype \<Rightarrow> chtype" where "AttrOf c = c AND A_ATTRIBUTES"
definition AddAttr :: "chtype \<Rightarrow> chtype \<Rightarrow> chtype" where "AddAttr c a = c OR a"
definition RemAttr :: "chtype \<Rightarrow> chtype \<Rightarrow> chtype" where "RemAttr c a = c AND NOT (a AND A_ATTRIBUTES)"
definition SetAttr :: "chtype \<Rightarrow> chtype \<Rightarrow> chtype" where "SetAttr c a = (c AND NOT A_ATTRIBUTES) OR a"
definition ColorPair :: "chtype \<Rightarrow> chtype" where "ColorPair n = push_bit 8 n AND A_COLOR"
definition PairNumber :: "chtype \<Rightarrow> chtype" where "PairNumber a = drop_bit 8 (a AND A_COLOR)"
definition GetPair :: "chtype \<Rightarrow> chtype" where "GetPair c = PairNumber (AttrOf c)"
definition SetPair :: "chtype \<Rightarrow> chtype \<Rightarrow> chtype" where
  "SetPair c p = (let c' = RemAttr c A_COLOR in SetAttr c' (AttrOf c' OR ColorPair p))"
definition ISBLANK :: "chtype \<Rightarrow> bool" where "ISBLANK c \<longleftrightarrow> CharOf c = 0x20"

text \<open>\<open>SetChar2\<close> takes a cell apart and puts it together again.\<close>

definition SetChar2 :: "chtype \<Rightarrow> chtype" where "SetChar2 c = CharOf c OR AttrOf c"

lemma SetChar2_id [simp]: "SetChar2 c = c"
  by (simp add: SetChar2_def CharOf_def AttrOf_def A_CHARTEXT_def A_ATTRIBUTES_def
      flip: bit.conj_disj_distrib)

text \<open>\<open>toggle_attr_on\<close> and \<open>toggle_attr_off\<close>: a colour in \<open>at\<close> replaces the colour.\<close>

definition toggle_attr_on :: "chtype \<Rightarrow> chtype \<Rightarrow> chtype" where
  "toggle_attr_on S at = (if PairNumber at > 0 then (S AND NOT A_COLOR) OR at else S OR at)"

definition toggle_attr_off :: "chtype \<Rightarrow> chtype \<Rightarrow> chtype" where
  "toggle_attr_off S at = (if PairNumber at > 0 then S AND NOT (at OR A_COLOR) else S AND NOT at)"

section \<open>Windows\<close>

definition NOCHANGE :: int where "NOCHANGE = - 1"

type_synonym textptr = "nat \<times> int"

record ldat =
  ltext :: textptr
  firstchar :: int
  lastchar :: int

record pdat =
  pad_y :: int
  pad_x :: int
  pad_top :: int
  pad_left :: int
  pad_bottom :: int
  pad_right :: int

record window =
  cury :: int
  curx :: int
  maxy :: int
  maxx :: int
  begy :: int
  begx :: int
  flags :: "16 word"
  attrs :: chtype
  bkgd :: chtype
  notimeout :: bool
  clearf :: bool
  leaveok :: bool
  scrollf :: bool
  idlok :: bool
  idcok :: bool
  immed :: bool
  sync :: bool
  use_keypad :: bool
  delay :: int
  lines :: "ldat list"
  regtop :: int
  regbottom :: int
  parx :: int
  pary :: int
  parent :: nat
  pad :: pdat
  yoffset :: int

definition F_SUBWIN :: "16 word" where "F_SUBWIN = 0x01"
definition F_ENDLINE :: "16 word" where "F_ENDLINE = 0x02"
definition F_FULLWIN :: "16 word" where "F_FULLWIN = 0x04"
definition F_SCROLLWIN :: "16 word" where "F_SCROLLWIN = 0x08"
definition F_ISPAD :: "16 word" where "F_ISPAD = 0x10"
definition F_HASMOVED :: "16 word" where "F_HASMOVED = 0x20"
definition F_WRAPPED :: "16 word" where "F_WRAPPED = 0x40"

definition has_flag :: "16 word \<Rightarrow> 16 word \<Rightarrow> bool" where
  "has_flag fs f \<longleftrightarrow> fs AND f \<noteq> 0"

lemma kept_flags [simp]:
  "has_flag (f AND NOT F_WRAPPED) F_ISPAD = has_flag f F_ISPAD"
  "has_flag (f OR F_WRAPPED) F_ISPAD = has_flag f F_ISPAD"
  "has_flag (f OR F_HASMOVED) F_ISPAD = has_flag f F_ISPAD"
  "has_flag (f AND NOT F_HASMOVED) F_ISPAD = has_flag f F_ISPAD"
  "has_flag (f AND NOT F_WRAPPED) F_SUBWIN = has_flag f F_SUBWIN"
  "has_flag (f OR F_WRAPPED) F_SUBWIN = has_flag f F_SUBWIN"
  "has_flag (f OR F_HASMOVED) F_SUBWIN = has_flag f F_SUBWIN"
  "has_flag (f AND NOT F_HASMOVED) F_SUBWIN = has_flag f F_SUBWIN"
proof -
  have "(f AND NOT F_WRAPPED) AND F_ISPAD = f AND F_ISPAD"
    "(f OR F_WRAPPED) AND F_ISPAD = f AND F_ISPAD"
    "(f OR F_HASMOVED) AND F_ISPAD = f AND F_ISPAD"
    "(f AND NOT F_HASMOVED) AND F_ISPAD = f AND F_ISPAD"
    "(f AND NOT F_WRAPPED) AND F_SUBWIN = f AND F_SUBWIN"
    "(f OR F_WRAPPED) AND F_SUBWIN = f AND F_SUBWIN"
    "(f OR F_HASMOVED) AND F_SUBWIN = f AND F_SUBWIN"
    "(f AND NOT F_HASMOVED) AND F_SUBWIN = f AND F_SUBWIN"
    by (simp_all add: F_WRAPPED_def F_ISPAD_def F_SUBWIN_def F_HASMOVED_def bit.conj_disj_distrib2 and.assoc)
  then show "has_flag (f AND NOT F_WRAPPED) F_ISPAD = has_flag f F_ISPAD"
    "has_flag (f OR F_WRAPPED) F_ISPAD = has_flag f F_ISPAD"
    "has_flag (f OR F_HASMOVED) F_ISPAD = has_flag f F_ISPAD"
    "has_flag (f AND NOT F_HASMOVED) F_ISPAD = has_flag f F_ISPAD"
    "has_flag (f AND NOT F_WRAPPED) F_SUBWIN = has_flag f F_SUBWIN"
    "has_flag (f OR F_WRAPPED) F_SUBWIN = has_flag f F_SUBWIN"
    "has_flag (f OR F_HASMOVED) F_SUBWIN = has_flag f F_SUBWIN"
    "has_flag (f AND NOT F_HASMOVED) F_SUBWIN = has_flag f F_SUBWIN"
    by (simp_all add: has_flag_def)
qed

section \<open>The state\<close>

text \<open>
  \<open>calloc_max\<close> bounds the number of cells an allocation can have; a larger request returns null.
  \<open>oldhash\<close> is the table of line hashes that the scrolling optimiser keeps, when it exists.
\<close>

record nc =
  windows :: "nat \<Rightarrow> window option"
  cells :: "nat \<Rightarrow> chtype list option"
  next_win :: nat
  next_cells :: nat
  windowlist :: "nat list"
  curscr :: nat
  newscr :: nat
  stdscr :: nat
  screen_lines :: int
  screen_columns :: int
  lines_avail :: int
  topstolen :: int
  tabsize :: int
  legacy_coding :: int
  acs_map :: "nat \<Rightarrow> chtype"
  calloc_max :: int
  pair_limit :: int
  oldhash :: "64 word list option"
  inp :: input

definition ldat_at :: "window \<Rightarrow> int \<Rightarrow> ldat option" where
  "ldat_at W y = (if 0 \<le> y \<and> y < int (length (lines W)) then Some (lines W ! nat y) else None)"

definition set_win :: "nat \<Rightarrow> window \<Rightarrow> nc \<Rightarrow> nc" where
  "set_win w W s = s\<lparr>windows := (windows s)(w \<mapsto> W)\<rparr>"

definition modw :: "nat \<Rightarrow> (window \<Rightarrow> window) \<Rightarrow> nc \<Rightarrow> nc option" where
  "modw w f s = do { W \<leftarrow> windows s w; Some (set_win w (f W) s) }"

definition modl :: "nat \<Rightarrow> int \<Rightarrow> (ldat \<Rightarrow> ldat) \<Rightarrow> nc \<Rightarrow> nc option" where
  "modl w y f s = do {
     W \<leftarrow> windows s w;
     l \<leftarrow> ldat_at W y;
     Some (set_win w (W\<lparr>lines := (lines W)[nat y := f l]\<rparr>) s) }"

text \<open>\<open>p[x]\<close> as a value and as the target of an assignment.\<close>

definition peek :: "textptr \<Rightarrow> int \<Rightarrow> nc \<Rightarrow> chtype option" where
  "peek p x s = do {
     cs \<leftarrow> cells s (fst p);
     if 0 \<le> snd p + x \<and> snd p + x < int (length cs) then Some (cs ! nat (snd p + x)) else None }"

definition poke :: "textptr \<Rightarrow> int \<Rightarrow> chtype \<Rightarrow> nc \<Rightarrow> nc option" where
  "poke p x c s = do {
     cs \<leftarrow> cells s (fst p);
     if 0 \<le> snd p + x \<and> snd p + x < int (length cs)
     then Some (s\<lparr>cells := (cells s)(fst p \<mapsto> cs[nat (snd p + x) := c])\<rparr>) else None }"

text \<open>An \<open>int\<close> computation that must not overflow.\<close>

definition chk :: "int \<Rightarrow> int option" where
  "chk x = (if in_int x then Some x else None)"

lemma chk_ok [simp]: "in_int x \<Longrightarrow> chk x = Some x"
  by (simp add: chk_def)

section \<open>Change marks\<close>

text \<open>The macros \<open>CHANGED_CELL\<close>, \<open>CHANGED_RANGE\<close> and \<open>CHANGED_TO_EOL\<close>.\<close>

definition changed_cell :: "int \<Rightarrow> ldat \<Rightarrow> ldat" where
  "changed_cell col l =
     (if firstchar l = NOCHANGE then l\<lparr>firstchar := to_short col, lastchar := to_short col\<rparr>
      else if col < firstchar l then l\<lparr>firstchar := to_short col\<rparr>
      else if col > lastchar l then l\<lparr>lastchar := to_short col\<rparr>
      else l)"

definition changed_range :: "int \<Rightarrow> int \<Rightarrow> ldat \<Rightarrow> ldat" where
  "changed_range start end l =
     (let l1 = (if firstchar l = NOCHANGE \<or> firstchar l > start then l\<lparr>firstchar := to_short start\<rparr> else l)
      in if lastchar l1 = NOCHANGE \<or> lastchar l1 < end then l1\<lparr>lastchar := to_short end\<rparr> else l1)"

definition changed_to_eol :: "int \<Rightarrow> int \<Rightarrow> ldat \<Rightarrow> ldat" where
  "changed_to_eol start end l =
     (let l1 = (if firstchar l = NOCHANGE \<or> firstchar l > start then l\<lparr>firstchar := to_short start\<rparr> else l)
      in l1\<lparr>lastchar := to_short end\<rparr>)"

text \<open>
  A mark is no change or a range of columns. Marks are ordered by inclusion, and the macros
  compute the least mark above the old one and the new range (\<open>changed_cell_mark\<close> and
  \<open>changed_range_mark\<close>).
\<close>

datatype change = NoChange | Changed int int

instantiation change :: order
begin

fun less_eq_change :: "change \<Rightarrow> change \<Rightarrow> bool" where
  "less_eq_change NoChange _ = True"
| "less_eq_change (Changed a b) NoChange = False"
| "less_eq_change (Changed a b) (Changed c d) = (c \<le> a \<and> b \<le> d)"

definition less_change :: "change \<Rightarrow> change \<Rightarrow> bool" where
  "less_change x y \<longleftrightarrow> x \<le> y \<and> \<not> y \<le> x"

instance
proof
  fix x y z :: change
  show "x < y \<longleftrightarrow> x \<le> y \<and> \<not> y \<le> x" by (rule less_change_def)
  show "x \<le> x" by (cases x) auto
  show "x \<le> y \<Longrightarrow> y \<le> z \<Longrightarrow> x \<le> z" by (cases x; cases y; cases z) auto
  show "x \<le> y \<Longrightarrow> y \<le> x \<Longrightarrow> x = y" by (cases x; cases y) auto
qed

end

instantiation change :: semilattice_sup
begin

fun sup_change :: "change \<Rightarrow> change \<Rightarrow> change" where
  "sup_change NoChange y = y"
| "sup_change x NoChange = x"
| "sup_change (Changed a b) (Changed c d) = Changed (min a c) (max b d)"

instance
proof
  fix x y z :: change
  show "x \<le> sup x y" by (cases x; cases y) auto
  show "y \<le> sup x y" by (cases x; cases y) auto
  show "y \<le> x \<Longrightarrow> z \<le> x \<Longrightarrow> sup y z \<le> x" by (cases x; cases y; cases z) auto
qed

end

definition mark :: "ldat \<Rightarrow> change" where
  "mark l = (if firstchar l = NOCHANGE then NoChange else Changed (firstchar l) (lastchar l))"

fun covers :: "change \<Rightarrow> int \<Rightarrow> bool" where
  "covers NoChange x \<longleftrightarrow> False"
| "covers (Changed a b) x \<longleftrightarrow> a \<le> x \<and> x \<le> b"

lemma covers_mono: "m \<le> m' \<Longrightarrow> covers m x \<Longrightarrow> covers m' x"
  by (cases m; cases m') auto

text \<open>The marks of a line of a window whose last column is \<open>mx\<close>.\<close>

definition mark_ok :: "int \<Rightarrow> ldat \<Rightarrow> bool" where
  "mark_ok mx l \<longleftrightarrow> firstchar l = NOCHANGE \<and> lastchar l = NOCHANGE
     \<or> 0 \<le> firstchar l \<and> firstchar l \<le> lastchar l \<and> lastchar l \<le> mx"

lemma changed_cell_mark:
  assumes "mark_ok mx l" and "0 \<le> x" and "x \<le> mx" and "mx < 32767"
  shows "mark (changed_cell x l) = sup (mark l) (Changed x x)" "mark_ok mx (changed_cell x l)"
    "ltext (changed_cell x l) = ltext l"
  using assms by (auto simp: changed_cell_def mark_def mark_ok_def NOCHANGE_def to_short_id)

lemma changed_range_mark:
  assumes "mark_ok mx l" and "0 \<le> a" and "a \<le> b" and "b \<le> mx" and "mx < 32767"
  shows "mark (changed_range a b l) = sup (mark l) (Changed a b)" "mark_ok mx (changed_range a b l)"
    "ltext (changed_range a b l) = ltext l"
  using assms by (auto simp: changed_range_def mark_def mark_ok_def NOCHANGE_def to_short_id Let_def)

lemma changed_to_eol_mark:
  assumes "mark_ok mx l" and "0 \<le> a" and "a \<le> mx" and "mx < 32767"
  shows "mark (changed_to_eol a mx l) = sup (mark l) (Changed a mx)" "mark_ok mx (changed_to_eol a mx l)"
    "ltext (changed_to_eol a mx l) = ltext l"
  using assms by (auto simp: changed_to_eol_def mark_def mark_ok_def NOCHANGE_def to_short_id Let_def)

section \<open>The invariant\<close>

text \<open>
  A window of sane size has one line of cells per row, each inside its block and no two in the
  same block; its scrolling region lies inside it; a derived window lies inside its parent,
  which is older, and is not in immediate mode (\<open>wsyncdown\<close>, which a refresh of a derived
  window calls, can leave marks that later changes do not enlarge: see \<open>WinSync\<close>).
\<close>

definition row_ok :: "nc \<Rightarrow> int \<Rightarrow> ldat \<Rightarrow> bool" where
  "row_ok s mx l \<longleftrightarrow>
     (\<exists>cs. cells s (fst (ltext l)) = Some cs \<and> 0 \<le> snd (ltext l) \<and> snd (ltext l) + mx < int (length cs))"

definition in_parent :: "nc \<Rightarrow> nat \<Rightarrow> window \<Rightarrow> bool" where
  "in_parent s w W \<longleftrightarrow>
     parent W < w \<and> (\<exists>P. windows s (parent W) = Some P \<and> 0 \<le> pary W \<and> pary W + maxy W \<le> maxy P
       \<and> 0 \<le> parx W \<and> parx W + maxx W \<le> maxx P)"

definition win_ok :: "nc \<Rightarrow> nat \<Rightarrow> window \<Rightarrow> bool" where
  "win_ok s w W \<longleftrightarrow>
     0 \<le> maxy W \<and> maxy W < 32767 \<and> 0 \<le> maxx W \<and> maxx W < 32767 \<and> maxx W + tabsize s < 32768
     \<and> int (length (lines W)) = maxy W + 1
     \<and> (\<forall>l \<in> set (lines W). row_ok s (maxx W) l \<and> mark_ok (maxx W) l)
     \<and> distinct (map (\<lambda>l. fst (ltext l)) (lines W))
     \<and> 0 \<le> regtop W \<and> regtop W \<le> regbottom W \<and> regbottom W \<le> maxy W
     \<and> 0 \<le> begy W \<and> begy W < 32768 \<and> 0 \<le> begx W \<and> begx W < 32768 \<and> 0 \<le> yoffset W \<and> yoffset W < 32768
     \<and> (parent W \<noteq> 0 \<longrightarrow> in_parent s w W \<and> \<not> immed W)
     \<and> (w \<noteq> newscr s \<longrightarrow> 0 \<le> cury W \<and> cury W \<le> maxy W \<and> 0 \<le> curx W \<and> curx W \<le> maxx W)"

definition inv :: "nc \<Rightarrow> bool" where
  "inv s \<longleftrightarrow>
     windows s 0 = None \<and> (\<forall>w W. windows s w = Some W \<longrightarrow> w < next_win s \<and> win_ok s w W)
     \<and> (\<forall>b. cells s b \<noteq> None \<longrightarrow> b < next_cells s)
     \<and> set (windowlist s) = dom (windows s) \<and> distinct (windowlist s)
     \<and> windows s (newscr s) \<noteq> None \<and> windows s (curscr s) \<noteq> None \<and> newscr s \<noteq> curscr s
     \<and> 0 < tabsize s \<and> tabsize s < 32767 \<and> 0 \<le> topstolen s \<and> topstolen s < 32768"

text \<open>What the drawing operations leave alone: geometry, pointers to cells, block sizes.\<close>

type_synonym geometry = "int \<times> int \<times> textptr list \<times> nat \<times> int \<times> int \<times> int \<times> int \<times> int \<times> bool \<times> bool"

definition geom :: "window \<Rightarrow> geometry" where
  "geom W = (maxy W, maxx W, map ltext (lines W), parent W, pary W, parx W, begy W, begx W, yoffset W,
     has_flag (flags W) F_ISPAD, has_flag (flags W) F_SUBWIN)"

definition shape :: "nc \<Rightarrow> (nat \<Rightarrow> geometry option)
    \<times> (nat \<Rightarrow> nat option) \<times> nat \<times> nat \<times> nat \<times> nat \<times> nat \<times> nat list \<times> int" where
  "shape s = (\<lambda>w. map_option geom (windows s w), \<lambda>b. map_option length (cells s b),
     curscr s, newscr s, stdscr s, next_win s, next_cells s, windowlist s, tabsize s)"

definition cell_at :: "nc \<Rightarrow> nat \<Rightarrow> int \<Rightarrow> chtype option" where
  "cell_at s b i = (case cells s b of None \<Rightarrow> None
     | Some cs \<Rightarrow> if 0 \<le> i \<and> i < int (length cs) then Some (cs ! nat i) else None)"

definition marked :: "nc \<Rightarrow> nat \<Rightarrow> int \<Rightarrow> int \<Rightarrow> bool" where
  "marked s w y x \<longleftrightarrow> (\<exists>W l. windows s w = Some W \<and> ldat_at W y = Some l \<and> covers (mark l) x)"

definition immediate :: "nc \<Rightarrow> nat \<Rightarrow> bool" where
  "immediate s w \<longleftrightarrow> (\<exists>W. windows s w = Some W \<and> immed W)"

definition grown :: "nc \<Rightarrow> nc \<Rightarrow> bool" where
  "grown s s' \<longleftrightarrow> (\<forall>w W W' y l l'. windows s w = Some W \<longrightarrow> windows s' w = Some W' \<longrightarrow>
     ldat_at W y = Some l \<longrightarrow> ldat_at W' y = Some l' \<longrightarrow> mark l \<le> mark l')"

text \<open>
  \<open>tracks w D s s'\<close>: on the way from \<open>s\<close> to \<open>s'\<close> no mark was lost, and every cell that changed
  is a cell of the window \<open>w\<close> that is marked as changed or belongs to \<open>D\<close>, the cells still to
  be marked.
\<close>

definition pos_of :: "nc \<Rightarrow> nat \<Rightarrow> int \<Rightarrow> int \<Rightarrow> nat \<Rightarrow> int \<Rightarrow> bool" where
  "pos_of s w y x b i \<longleftrightarrow> (\<exists>W l. windows s w = Some W \<and> ldat_at W y = Some l \<and> 0 \<le> x \<and> x \<le> maxx W
     \<and> b = fst (ltext l) \<and> i = snd (ltext l) + x)"

definition tracks :: "nat \<Rightarrow> (int \<times> int) set \<Rightarrow> nc \<Rightarrow> nc \<Rightarrow> bool" where
  "tracks w D s s' \<longleftrightarrow> grown s s' \<and>
     (\<forall>b i. cell_at s' b i \<noteq> cell_at s b i \<longrightarrow>
        (\<exists>y x. pos_of s w y x b i \<and> (marked s' w y x \<or> (y, x) \<in> D)))"

definition steady :: "nc \<Rightarrow> nc \<Rightarrow> bool" where
  "steady s s' \<longleftrightarrow> inv s' \<and> shape s' = shape s \<and> tabsize s' = tabsize s \<and> immediate s' = immediate s"

definition evolves :: "nat \<Rightarrow> (int \<times> int) set \<Rightarrow> nc \<Rightarrow> nc \<Rightarrow> bool" where
  "evolves w D s s' \<longleftrightarrow> steady s s' \<and> (\<not> immediate s w \<longrightarrow> tracks w D s s')"

abbreviation draws :: "nat \<Rightarrow> nc \<Rightarrow> nc \<Rightarrow> bool" where
  "draws w \<equiv> evolves w {}"

section \<open>Facts about states of equal shape\<close>

lemma shape_windows:
  "shape s' = shape s \<Longrightarrow> map_option geom (windows s' w) = map_option geom (windows s w)"
  by (simp add: shape_def fun_eq_iff)

lemma shape_cells:
  "shape s' = shape s \<Longrightarrow> map_option length (cells s' b) = map_option length (cells s b)"
  by (simp add: shape_def fun_eq_iff)

lemma shape_consts:
  "shape s' = shape s \<Longrightarrow> curscr s' = curscr s \<and> newscr s' = newscr s \<and> stdscr s' = stdscr s
     \<and> next_win s' = next_win s \<and> next_cells s' = next_cells s \<and> windowlist s' = windowlist s \<and> tabsize s' = tabsize s"
  by (simp add: shape_def)

lemma shape_winE:
  assumes "shape s' = shape s" and "windows s w = Some W"
  obtains W' where "windows s' w = Some W'" and "geom W' = geom W"
  using shape_windows [OF assms(1), of w] assms(2) by (cases "windows s' w") auto

lemma geomD:
  assumes "geom W' = geom W"
  shows "maxy W' = maxy W" "maxx W' = maxx W" "map ltext (lines W') = map ltext (lines W)"
    "parent W' = parent W" "pary W' = pary W" "parx W' = parx W" "length (lines W') = length (lines W)"
    "begy W' = begy W" "begx W' = begx W" "yoffset W' = yoffset W"
    "has_flag (flags W') F_ISPAD = has_flag (flags W) F_ISPAD" "has_flag (flags W') F_SUBWIN = has_flag (flags W) F_SUBWIN"
  using assms by (auto simp: geom_def dest: map_eq_imp_length_eq)

lemma geom_ldat_at:
  assumes "geom W' = geom W" and "ldat_at W y = Some l"
  obtains l' where "ldat_at W' y = Some l'" and "ltext l' = ltext l"
proof -
  from assms(2) have y: "0 \<le> y" "nat y < length (lines W)" "l = lines W ! nat y"
    by (auto simp: ldat_at_def nat_less_iff split: if_splits)
  have "map ltext (lines W') ! nat y = map ltext (lines W) ! nat y" using geomD(3) [OF assms(1)] by simp
  then have "ltext (lines W' ! nat y) = ltext l" using y geomD(7) [OF assms(1)] by simp
  moreover have "ldat_at W' y = Some (lines W' ! nat y)"
    using y geomD(7) [OF assms(1)] by (simp add: ldat_at_def nat_less_iff)
  ultimately show thesis by (rule that [rotated])
qed

lemma row_ok_shape: "shape s' = shape s \<Longrightarrow> row_ok s' mx l \<longleftrightarrow> row_ok s mx l"
proof -
  assume "shape s' = shape s"
  then have "map_option length (cells s' (fst (ltext l))) = map_option length (cells s (fst (ltext l)))"
    by (rule shape_cells)
  then show ?thesis by (cases "cells s (fst (ltext l))"; cases "cells s' (fst (ltext l))") (auto simp: row_ok_def)
qed

lemma in_parent_shape:
  assumes "shape s' = shape s"
  shows "in_parent s' w W \<longleftrightarrow> in_parent s w W"
  using shape_windows [OF assms, of "parent W"]
  by (cases "windows s (parent W)"; cases "windows s' (parent W)") (auto simp: in_parent_def dest: geomD)

lemma win_ok_shape:
  assumes "shape s' = shape s"
  shows "win_ok s' w W \<longleftrightarrow> win_ok s w W"
  using row_ok_shape [OF assms] in_parent_shape [OF assms] shape_consts [OF assms]
  by (simp add: win_ok_def)

lemma invD:
  assumes "inv s" and "windows s w = Some W"
  shows "win_ok s w W" "w \<noteq> 0"
proof -
  show "win_ok s w W" using assms by (simp add: inv_def)
  show "w \<noteq> 0" using assms by (cases "w = 0") (simp_all add: inv_def)
qed

lemma win_okD:
  assumes "win_ok s w W"
  shows "0 \<le> maxy W" "maxy W < 32767" "0 \<le> maxx W" "maxx W < 32767" "int (length (lines W)) = maxy W + 1"
    "0 \<le> regtop W" "regtop W \<le> regbottom W" "regbottom W \<le> maxy W" "0 \<le> begy W" "0 \<le> begx W" "0 \<le> yoffset W"
    "begy W < 32768" "begx W < 32768" "yoffset W < 32768" "maxx W + tabsize s < 32768"
  using assms by (simp_all add: win_ok_def)

lemma win_ok_cursor:
  assumes "win_ok s w W" and "w \<noteq> newscr s"
  shows "0 \<le> cury W" "cury W \<le> maxy W" "0 \<le> curx W" "curx W \<le> maxx W"
  using assms by (simp_all add: win_ok_def)

lemma win_ok_line:
  assumes "win_ok s w W" and "0 \<le> y" and "y \<le> maxy W"
  obtains l where "ldat_at W y = Some l" and "row_ok s (maxx W) l" and "mark_ok (maxx W) l"
    and "l \<in> set (lines W)"
proof -
  have "y < int (length (lines W))" using win_okD(5) [OF assms(1)] assms(3) by simp
  then have "ldat_at W y = Some (lines W ! nat y)" "lines W ! nat y \<in> set (lines W)"
    using assms(2) by (simp_all add: ldat_at_def nat_less_iff)
  then show thesis using assms(1) by (intro that) (auto simp: win_ok_def)
qed

lemma ldat_at_range: "ldat_at W y = Some l \<Longrightarrow> 0 \<le> y \<and> nat y < length (lines W) \<and> l = lines W ! nat y"
  by (auto simp: ldat_at_def split: if_splits)

section \<open>Updating a window\<close>

lemma set_win_simps [simp]:
  "windows (set_win w W s) = (windows s)(w \<mapsto> W)" "cells (set_win w W s) = cells s"
  "curscr (set_win w W s) = curscr s" "newscr (set_win w W s) = newscr s" "stdscr (set_win w W s) = stdscr s"
  "next_win (set_win w W s) = next_win s" "next_cells (set_win w W s) = next_cells s"
  "windowlist (set_win w W s) = windowlist s" "tabsize (set_win w W s) = tabsize s"
  "screen_lines (set_win w W s) = screen_lines s" "screen_columns (set_win w W s) = screen_columns s"
  "legacy_coding (set_win w W s) = legacy_coding s" "topstolen (set_win w W s) = topstolen s"
  "cell_at (set_win w W s) = cell_at s" "acs_map (set_win w W s) = acs_map s"
  by (auto simp: set_win_def cell_at_def fun_eq_iff)

lemma set_win_same [simp]: "windows s w = Some W \<Longrightarrow> set_win w W s = s"
  by (auto simp: set_win_def fun_upd_idem)

lemma shape_set_win:
  assumes "windows s w = Some W" and "geom W' = geom W"
  shows "shape (set_win w W' s) = shape s"
  using assms by (auto simp: shape_def fun_eq_iff)

lemma inv_set_win:
  assumes "inv s" and "windows s w = Some W" and "geom W' = geom W" and "win_ok s w W'"
  shows "inv (set_win w W' s)"
proof -
  note sh = shape_set_win [OF assms(2,3)]
  have "win_ok (set_win w W' s) v V" if "windows (set_win w W' s) v = Some V" for v V
    using that assms(1,4) win_ok_shape [OF sh] by (auto simp: inv_def split: if_splits)
  moreover have "w \<noteq> 0" using invD(2) [OF assms(1,2)] .
  ultimately show ?thesis using assms by (auto simp: inv_def)
qed

lemma immediate_set_win:
  "windows s v = Some W \<Longrightarrow> immed W' = immed W \<Longrightarrow> immediate (set_win v W' s) = immediate s"
  by (auto simp: immediate_def fun_eq_iff)

lemma steady_set_win:
  assumes "steady s0 s" and "windows s v = Some W" and "geom W' = geom W" and "win_ok s v W'"
    and "immed W' = immed W"
  shows "steady s0 (set_win v W' s)"
  using assms(1) inv_set_win [OF _ assms(2-4)] shape_set_win [OF assms(2,3)] immediate_set_win [OF assms(2,5)]
  by (simp add: steady_def)

text \<open>A change of a window that keeps its geometry and enlarges its marks, if any.\<close>

definition marks_le :: "window \<Rightarrow> window \<Rightarrow> bool" where
  "marks_le W W' \<longleftrightarrow> (\<forall>y l l'. ldat_at W y = Some l \<longrightarrow> ldat_at W' y = Some l' \<longrightarrow> mark l \<le> mark l')"

lemma marks_le_lines [simp]: "lines W' = lines W \<Longrightarrow> marks_le W W'"
  by (auto simp: marks_le_def ldat_at_def)

lemma evolves_set_win:
  assumes "evolves w D s0 s" and "windows s v = Some W" and "geom W' = geom W" and "win_ok s v W'"
    and "marks_le W W'" and "immed W' = immed W"
  shows "evolves w D s0 (set_win v W' s)"
proof -
  have sh: "shape s = shape s0" using assms(1) by (auto simp: evolves_def steady_def)
  have mk: "marked s w y x \<Longrightarrow> marked (set_win v W' s) w y x" for y x
  proof -
    assume m: "marked s w y x"
    then obtain V l where V: "windows s w = Some V" "ldat_at V y = Some l" "covers (mark l) x"
      by (auto simp: marked_def)
    show "marked (set_win v W' s) w y x"
    proof (cases "w = v")
      case True
      then have "V = W" using V(1) assms(2) by simp
      then obtain l' where l': "ldat_at W' y = Some l'" using geom_ldat_at [OF assms(3)] V(2) by blast
      then have "mark l \<le> mark l'" using assms(5) V(2) \<open>V = W\<close> by (auto simp: marks_le_def)
      then have "covers (mark l') x" using covers_mono V(3) by blast
      then show ?thesis using True l' by (auto simp: marked_def)
    next
      case False
      then show ?thesis using V by (auto simp: marked_def)
    qed
  qed
  have "tracks w D s0 (set_win v W' s)" if "tracks w D s0 s"
  proof -
    have "grown s0 (set_win v W' s)"
      unfolding grown_def
    proof (intro allI impI)
      fix u U U' y l l'
      assume a: "windows s0 u = Some U" "windows (set_win v W' s) u = Some U'" "ldat_at U y = Some l" "ldat_at U' y = Some l'"
      obtain V where V: "windows s u = Some V" "geom V = geom U" using shape_winE [OF sh a(1)] .
      obtain l1 where l1: "ldat_at V y = Some l1" using geom_ldat_at [OF V(2) a(3)] .
      have "mark l \<le> mark l1" using that a(1,3) V(1) l1 by (auto simp: tracks_def grown_def)
      also have "mark l1 \<le> mark l'"
      proof (cases "u = v")
        case True
        then show ?thesis using a(2,4) V(1) l1 assms(2,5) by (auto simp: marks_le_def)
      next
        case False
        then show ?thesis using a(2,4) V(1) l1 by simp
      qed
      finally show "mark l \<le> mark l'" .
    qed
    then show ?thesis using that mk by (auto simp: tracks_def) blast+
  qed
  then show ?thesis
    using assms(1) steady_set_win [OF _ assms(2-4,6)] by (auto simp: evolves_def)
qed

section \<open>Rules for the steps of an operation\<close>

lemma grown_refl [simp]: "grown s s"
  by (auto simp: grown_def)

lemma tracks_refl [simp]: "tracks w D s s"
  by (simp add: tracks_def)

lemma steady_refl: "inv s \<Longrightarrow> steady s s"
  by (simp add: steady_def)

lemma steady_trans: "steady s t \<Longrightarrow> steady t u \<Longrightarrow> steady s u"
  by (simp add: steady_def)

lemma evolves_refl: "inv s \<Longrightarrow> evolves w D s s"
  by (simp add: evolves_def steady_refl)

lemma evolves_steady: "evolves w D s s' \<Longrightarrow> steady s s'"
  by (simp add: evolves_def)

lemma evolves_mono: "evolves w D s s' \<Longrightarrow> D \<subseteq> D' \<Longrightarrow> evolves w D' s s'"
  by (auto simp: evolves_def tracks_def) blast+

lemma evolvesD:
  assumes "evolves w D s0 s"
  shows "inv s" "shape s = shape s0" "tabsize s = tabsize s0" "immediate s = immediate s0"
  using assms by (simp_all add: evolves_def steady_def)

lemma evolves_winE:
  assumes "evolves w D s0 s" and "windows s0 v = Some V"
  obtains V' where "windows s v = Some V'" and "geom V' = geom V" and "win_ok s v V'"
proof -
  obtain V' where V': "windows s v = Some V'" "geom V' = geom V"
    using shape_winE [OF evolvesD(2) [OF assms(1)] assms(2)] .
  show thesis by (rule that [OF V' invD(1) [OF evolvesD(1) [OF assms(1)] V'(1)]])
qed

lemma pos_of_shape:
  assumes "shape s' = shape s" and "pos_of s w y x b i"
  shows "pos_of s' w y x b i"
proof -
  obtain W l where W: "windows s w = Some W" "ldat_at W y = Some l" "0 \<le> x" "x \<le> maxx W"
    "b = fst (ltext l)" "i = snd (ltext l) + x"
    using assms(2) by (auto simp: pos_of_def)
  obtain W' where W': "windows s' w = Some W'" "geom W' = geom W" using shape_winE [OF assms(1) W(1)] .
  obtain l' where "ldat_at W' y = Some l'" "ltext l' = ltext l" using geom_ldat_at [OF W'(2) W(2)] .
  then show ?thesis using W W'(1) geomD(2) [OF W'(2)] by (auto simp: pos_of_def)
qed

lemma grown_marked:
  assumes "grown s s'" and "shape s' = shape s" and "marked s w y x"
  shows "marked s' w y x"
proof -
  obtain W l where W: "windows s w = Some W" "ldat_at W y = Some l" "covers (mark l) x"
    using assms(3) by (auto simp: marked_def)
  obtain W' where W': "windows s' w = Some W'" "geom W' = geom W" using shape_winE [OF assms(2) W(1)] .
  obtain l' where l': "ldat_at W' y = Some l'" using geom_ldat_at [OF W'(2) W(2)] .
  have "mark l \<le> mark l'" using assms(1) W W' l' by (auto simp: grown_def)
  then show ?thesis using covers_mono [OF _ W(3)] W'(1) l' by (auto simp: marked_def)
qed

lemma grown_trans:
  assumes "grown s t" and "grown t u" and "shape t = shape s"
  shows "grown s u"
  unfolding grown_def
proof (intro allI impI)
  fix w W W' y l l'
  assume a: "windows s w = Some W" "windows u w = Some W'" "ldat_at W y = Some l" "ldat_at W' y = Some l'"
  obtain V where V: "windows t w = Some V" "geom V = geom W" using shape_winE [OF assms(3) a(1)] .
  obtain l1 where l1: "ldat_at V y = Some l1" using geom_ldat_at [OF V(2) a(3)] .
  have "mark l \<le> mark l1" using assms(1) a V(1) l1 by (auto simp: grown_def)
  also have "mark l1 \<le> mark l'" using assms(2) a V(1) l1 by (auto simp: grown_def)
  finally show "mark l \<le> mark l'" .
qed

lemma evolves_trans:
  assumes "evolves w D s t" and "evolves w D t u"
  shows "evolves w D s u"
proof -
  have sh: "shape t = shape s" "shape u = shape t" using assms by (simp_all add: evolves_def steady_def)
  have "tracks w D s u" if t1: "tracks w D s t" and t2: "tracks w D t u"
    unfolding tracks_def
  proof (intro conjI allI impI)
    have gr: "grown s t" "grown t u" using t1 t2 by (simp_all add: tracks_def)
    show "grown s u" by (rule grown_trans [OF gr sh(1)])
    fix b i assume "cell_at u b i \<noteq> cell_at s b i"
    then consider "cell_at t b i \<noteq> cell_at s b i" | "cell_at u b i \<noteq> cell_at t b i"
      by metis
    then show "\<exists>y x. pos_of s w y x b i \<and> (marked u w y x \<or> (y, x) \<in> D)"
    proof cases
      case 1
      then obtain y x where "pos_of s w y x b i" "marked t w y x \<or> (y, x) \<in> D"
        using t1 unfolding tracks_def by blast
      then show ?thesis using grown_marked [OF gr(2) sh(2)] by blast
    next
      case 2
      then obtain y x where "pos_of t w y x b i" "marked u w y x \<or> (y, x) \<in> D"
        using t2 unfolding tracks_def by blast
      then show ?thesis using pos_of_shape [OF sh(1) [symmetric]] by blast
    qed
  qed
  then show ?thesis using assms steady_trans [of s t u] by (auto simp: evolves_def steady_def)
qed

lemma evolves_discharge:
  assumes "evolves w D s0 s" and "windows s0 w = Some W"
    and "\<And>y x. (y, x) \<in> D \<Longrightarrow> \<not> immediate s0 w \<Longrightarrow> ldat_at W y \<noteq> None \<Longrightarrow> 0 \<le> x \<Longrightarrow> x \<le> maxx W
           \<Longrightarrow> marked s w y x"
  shows "draws w s0 s"
proof -
  have "tracks w {} s0 s" if t: "tracks w D s0 s" and im: "\<not> immediate s0 w"
    unfolding tracks_def
  proof (intro conjI allI impI)
    show "grown s0 s" using t by (simp add: tracks_def)
    fix b i assume "cell_at s b i \<noteq> cell_at s0 b i"
    then obtain y x where yx: "pos_of s0 w y x b i" "marked s w y x \<or> (y, x) \<in> D"
      using t unfolding tracks_def by blast
    then have "0 \<le> x" "x \<le> maxx W" "ldat_at W y \<noteq> None" using assms(2) by (auto simp: pos_of_def)
    then show "\<exists>y x. pos_of s0 w y x b i \<and> (marked s w y x \<or> (y, x) \<in> {})" using assms(3) im yx by blast
  qed
  then show ?thesis using assms(1) by (auto simp: evolves_def)
qed

lemma marked_line: "windows s w = Some W \<Longrightarrow> ldat_at W y = Some l \<Longrightarrow> marked s w y x \<longleftrightarrow> covers (mark l) x"
  by (auto simp: marked_def)

text \<open>Writing a cell that is marked, or to be marked.\<close>

lemma peek_row: "row_ok s mx l \<Longrightarrow> 0 \<le> x \<Longrightarrow> x \<le> mx \<Longrightarrow> \<exists>c. peek (ltext l) x s = Some c"
  by (auto simp: row_ok_def peek_def)

lemma ok_peek_row: "row_ok s mx l \<Longrightarrow> 0 \<le> x \<Longrightarrow> x \<le> mx \<Longrightarrow> (\<And>c. Q c) \<Longrightarrow> ok (peek (ltext l) x s) Q"
  using peek_row by (force simp: ok_iff)

lemma poke_SomeE:
  assumes "row_ok s mx l" and "0 \<le> x" and "x \<le> mx"
  obtains cs where "cells s (fst (ltext l)) = Some cs"
    and "poke (ltext l) x c s = Some (s\<lparr>cells := (cells s)(fst (ltext l) \<mapsto> cs[nat (snd (ltext l) + x) := c])\<rparr>)"
    and "nat (snd (ltext l) + x) < length cs"
  using assms by (auto simp: row_ok_def poke_def)

lemma shape_poke:
  assumes "cells s b = Some cs" and "length cs' = length cs"
  shows "shape (s\<lparr>cells := (cells s)(b \<mapsto> cs')\<rparr>) = shape s"
  using assms by (auto simp: shape_def fun_eq_iff)

lemma ok_poke:
  assumes "evolves w D s0 s" and "windows s w = Some W" and "ldat_at W y = Some l"
    and "0 \<le> x" and "x \<le> maxx W" and "covers (mark l) x \<or> (y, x) \<in> D"
  shows "ok (poke (ltext l) x c s) (\<lambda>s'. evolves w D s0 s' \<and> windows s' = windows s)"
proof -
  have i: "inv s" and sh: "shape s = shape s0" using evolvesD [OF assms(1)] by simp_all
  have "l \<in> set (lines W)" using ldat_at_range [OF assms(3)] by auto
  then have row: "row_ok s (maxx W) l" using invD(1) [OF i assms(2)] by (auto simp: win_ok_def)
  obtain cs where p: "cells s (fst (ltext l)) = Some cs"
    "poke (ltext l) x c s = Some (s\<lparr>cells := (cells s)(fst (ltext l) \<mapsto> cs[nat (snd (ltext l) + x) := c])\<rparr>)"
    "nat (snd (ltext l) + x) < length cs"
    using poke_SomeE [OF row assms(4,5)] .
  let ?s = "s\<lparr>cells := (cells s)(fst (ltext l) \<mapsto> cs[nat (snd (ltext l) + x) := c])\<rparr>"
  have sh': "shape ?s = shape s" by (rule shape_poke [OF p(1)]) simp
  have i': "inv ?s" using i p(1) win_ok_shape [OF sh'] by (auto simp: inv_def)
  have snd0: "0 \<le> snd (ltext l) + x" using row assms(4) by (auto simp: row_ok_def)
  have ch: "cell_at ?s b j = cell_at s b j" if "\<not> (b = fst (ltext l) \<and> j = snd (ltext l) + x)" for b j
    using that p(1) snd0 by (auto simp: cell_at_def nth_list_update nat_eq_iff)
  have "tracks w D s0 ?s" if t: "tracks w D s0 s"
    unfolding tracks_def
  proof (intro conjI allI impI)
    show "grown s0 ?s" using t by (simp add: tracks_def grown_def)
    fix b j assume "cell_at ?s b j \<noteq> cell_at s0 b j"
    then consider "b = fst (ltext l)" "j = snd (ltext l) + x" | "cell_at s b j \<noteq> cell_at s0 b j"
      using ch by metis
    then show "\<exists>y x. pos_of s0 w y x b j \<and> (marked ?s w y x \<or> (y, x) \<in> D)"
    proof cases
      case 1
      then have "pos_of s w y x b j" using assms(2-5) by (auto simp: pos_of_def)
      then have "pos_of s0 w y x b j" using pos_of_shape [OF sh [symmetric]] by blast
      moreover have "marked ?s w y x \<or> (y, x) \<in> D" using assms(2,3,6) by (auto simp: marked_def)
      ultimately show ?thesis by blast
    next
      case 2
      then show ?thesis using t by (auto simp: tracks_def marked_def)
    qed
  qed
  then have "evolves w D s0 ?s"
    using assms(1) i' sh' sh by (auto simp: evolves_def steady_def immediate_def fun_eq_iff)
  then show ?thesis using p(2) by simp
qed

text \<open>A loop that writes a range of cells of one line.\<close>

lemma ok_poke_loop:
  assumes "evolves w D s0 s" and "windows s w = Some W" and "ldat_at W y = Some l"
    and "\<And>x. x \<in> set xs \<Longrightarrow> 0 \<le> x \<and> x \<le> maxx W \<and> (covers (mark l) x \<or> (y, x) \<in> D)"
  shows "ok (ofold (\<lambda>x. poke (ltext l) x (f x)) xs s) (\<lambda>s'. evolves w D s0 s' \<and> windows s' = windows s)"
proof (rule ok_ofold [where I = "\<lambda>s'. evolves w D s0 s' \<and> windows s' = windows s"])
  show "evolves w D s0 s \<and> windows s = windows s" using assms(1) by simp
next
  fix x t assume x: "x \<in> set xs" and t: "evolves w D s0 t \<and> windows t = windows s"
  have "windows t w = Some W" using t assms(2) by simp
  from ok_poke [OF conjunct1 [OF t] this assms(3)] assms(4) [OF x]
  show "ok (poke (ltext l) x (f x) t) (\<lambda>s'. evolves w D s0 s' \<and> windows s' = windows s)"
    using t by simp
qed

text \<open>Changing fields of a window, and the marks of one of its lines.\<close>

lemma ok_modw:
  assumes "evolves w D s0 s" and "windows s v = Some W" and "geom (f W) = geom W" and "win_ok s v (f W)"
    and "lines (f W) = lines W" and "immed (f W) = immed W"
  shows "ok (modw v f s) (\<lambda>s'. evolves w D s0 s' \<and> s' = set_win v (f W) s)"
  using evolves_set_win [OF assms(1-4)] assms(2,5,6) by (simp add: modw_def)

lemma lines_update:
  assumes "ldat_at W y = Some l" and "ltext l' = ltext l"
  shows "geom (W\<lparr>lines := (lines W)[nat y := l']\<rparr>) = geom W"
proof -
  have y: "nat y < length (lines W)" "l = lines W ! nat y" using ldat_at_range [OF assms(1)] by auto
  have "map ltext ((lines W)[nat y := l']) = map ltext (lines W)"
    using y assms(2) by (simp add: map_update list_update_same_conv)
  then show ?thesis by (simp add: geom_def)
qed

lemma ldat_at_update:
  assumes "ldat_at W y = Some l"
  shows "ldat_at (W\<lparr>lines := (lines W)[nat y := l']\<rparr>) y' = (if y' = y then Some l' else ldat_at W y')"
  using ldat_at_range [OF assms] by (auto simp: ldat_at_def nth_list_update nat_eq_iff)

lemma ok_modl:
  assumes "evolves w D s0 s" and "windows s v = Some W" and "ldat_at W y = Some l"
    and "mark_ok (maxx W) (f l)" and "ltext (f l) = ltext l" and "mark l \<le> mark (f l)"
  shows "ok (modl v y f s) (\<lambda>s'. evolves w D s0 s' \<and> s' = set_win v (W\<lparr>lines := (lines W)[nat y := f l]\<rparr>) s)"
proof -
  let ?W = "W\<lparr>lines := (lines W)[nat y := f l]\<rparr>"
  have i: "inv s" using evolvesD [OF assms(1)] by simp
  have y: "nat y < length (lines W)" "l = lines W ! nat y" using ldat_at_range [OF assms(3)] by auto
  have wk: "win_ok s v W" using invD(1) [OF i assms(2)] .
  have row: "row_ok s (maxx W) (f l)" using wk assms(5) y by (auto simp: win_ok_def row_ok_def)
  have g: "geom ?W = geom W" by (rule lines_update [OF assms(3,5)])
  have dist: "map (\<lambda>l. fst (ltext l)) (lines ?W) = map (\<lambda>l. fst (ltext l)) (lines W)"
    using y assms(5) by (simp add: map_update list_update_same_conv)
  have "win_ok s v ?W"
    using wk row assms(4) dist set_update_subset_insert [of "lines W" "nat y" "f l"]
    by (auto simp: win_ok_def in_parent_def)
  moreover have "marks_le W ?W"
    using assms(3,6) by (auto simp: marks_le_def ldat_at_update [OF assms(3)] split: if_splits)
  ultimately have "evolves w D s0 (set_win v ?W s)"
    by (intro evolves_set_win [OF assms(1,2) g]) simp_all
  then show ?thesis using assms(2,3) by (simp add: modl_def)
qed

text \<open>The same for operations that remove marks: only the invariant and the shape are kept.\<close>

lemma steadyD:
  assumes "steady s0 s"
  shows "inv s" "shape s = shape s0" "tabsize s = tabsize s0" "immediate s = immediate s0"
  using assms by (simp_all add: steady_def)

lemma steady_winE:
  assumes "steady s0 s" and "windows s0 v = Some V"
  obtains V' where "windows s v = Some V'" and "geom V' = geom V" and "win_ok s v V'"
proof -
  obtain V' where V': "windows s v = Some V'" "geom V' = geom V"
    using shape_winE [OF steadyD(2) [OF assms(1)] assms(2)] .
  show thesis by (rule that [OF V' invD(1) [OF steadyD(1) [OF assms(1)] V'(1)]])
qed

lemma ok_poke_steady:
  assumes "steady s0 s" and "windows s w = Some W" and "ldat_at W y = Some l" and "0 \<le> x" and "x \<le> maxx W"
  shows "ok (poke (ltext l) x c s) (\<lambda>s'. steady s0 s' \<and> windows s' = windows s)"
proof (rule ok_mono)
  show "ok (poke (ltext l) x c s) (\<lambda>s'. evolves w UNIV s s' \<and> windows s' = windows s)"
    by (rule ok_poke [OF evolves_refl [OF steadyD(1) [OF assms(1)]] assms(2-5)]) simp
next
  fix s' assume "evolves w UNIV s s' \<and> windows s' = windows s"
  then show "steady s0 s' \<and> windows s' = windows s"
    using steady_trans [OF assms(1)] evolves_steady by blast
qed

lemma ok_modw_steady:
  assumes "steady s0 s" and "windows s v = Some W" and "geom (f W) = geom W" and "win_ok s v (f W)"
    and "immed (f W) = immed W"
  shows "ok (modw v f s) (\<lambda>s'. steady s0 s' \<and> s' = set_win v (f W) s)"
  using steady_set_win [OF assms(1-4)] assms(2,5) by (simp add: modw_def)

lemma win_ok_line_update:
  assumes "win_ok s v W" and "ldat_at W y = Some l" and "mark_ok (maxx W) l'" and "ltext l' = ltext l"
  shows "win_ok s v (W\<lparr>lines := (lines W)[nat y := l']\<rparr>)"
proof -
  have y: "nat y < length (lines W)" "l = lines W ! nat y" using ldat_at_range [OF assms(2)] by auto
  have row: "row_ok s (maxx W) l'" using assms(1,4) y by (auto simp: win_ok_def row_ok_def)
  have dist: "map (\<lambda>l. fst (ltext l)) ((lines W)[nat y := l']) = map (\<lambda>l. fst (ltext l)) (lines W)"
    using y assms(4) by (simp add: map_update list_update_same_conv)
  show ?thesis
    using assms(1,3) row dist set_update_subset_insert [of "lines W" "nat y" l']
    by (auto simp: win_ok_def in_parent_def)
qed

lemma ok_modl_steady:
  assumes "steady s0 s" and "windows s v = Some W" and "ldat_at W y = Some l"
    and "mark_ok (maxx W) (f l)" and "ltext (f l) = ltext l"
  shows "ok (modl v y f s) (\<lambda>s'. steady s0 s' \<and> s' = set_win v (W\<lparr>lines := (lines W)[nat y := f l]\<rparr>) s)"
proof -
  let ?W = "W\<lparr>lines := (lines W)[nat y := f l]\<rparr>"
  have "win_ok s v ?W"
    by (rule win_ok_line_update [OF invD(1) [OF steadyD(1) [OF assms(1)] assms(2)] assms(3-5)])
  then have "steady s0 (set_win v ?W s)"
    by (intro steady_set_win [OF assms(1,2) lines_update [OF assms(3,5)]]) simp_all
  moreover have "modl v y f s = Some (set_win v ?W s)" by (simp add: modl_def assms(2,3))
  ultimately show ?thesis by simp
qed

text \<open>A loop that computes cells of one line from cells of the same or another line.\<close>

lemma ok_copy_loop:
  assumes "evolves w D s0 s" and "windows s w = Some W" and "ldat_at W y = Some l" and "ldat_at W z = Some ls"
    and "\<And>x. x \<in> set xs \<Longrightarrow> 0 \<le> x \<and> x \<le> maxx W \<and> (covers (mark l) x \<or> (y, x) \<in> D)"
    and "\<And>x. x \<in> set xs \<Longrightarrow> 0 \<le> g x \<and> g x \<le> maxx W"
  shows "ok (ofold (\<lambda>x t. do { c \<leftarrow> peek (ltext ls) (g x) t; poke (ltext l) x (h c) t }) xs s)
    (\<lambda>s'. evolves w D s0 s' \<and> windows s' = windows s)"
proof (rule ok_ofold [where I = "\<lambda>s'. evolves w D s0 s' \<and> windows s' = windows s"])
  show "evolves w D s0 s \<and> windows s = windows s" using assms(1) by simp
next
  fix x t assume x: "x \<in> set xs" and t: "evolves w D s0 t \<and> windows t = windows s"
  have W: "windows t w = Some W" using t assms(2) by simp
  have "ls \<in> set (lines W)" using assms(4) by (auto dest!: ldat_at_range)
  then have row: "row_ok t (maxx W) ls" using invD(1) [OF evolvesD(1) [OF conjunct1 [OF t]] W] by (auto simp: win_ok_def)
  obtain c where c: "peek (ltext ls) (g x) t = Some c" using peek_row [OF row] assms(6) [OF x] by blast
  have "ok (poke (ltext l) x (h c) t) (\<lambda>s'. evolves w D s0 s' \<and> windows s' = windows t)"
    by (rule ok_poke [OF conjunct1 [OF t] W assms(3)]) (use assms(5) [OF x] in auto)
  then show "ok (do { c \<leftarrow> peek (ltext ls) (g x) t; poke (ltext l) x (h c) t })
      (\<lambda>s'. evolves w D s0 s' \<and> windows s' = windows s)"
    using c t by simp
qed

end
