(* ===== verification/WinSync.thy ===== *)
theory WinSync
  imports WinState
begin

text \<open>
  Change marks between windows: touching lines, the cursor, the propagation of marks between a
  derived window and its ancestors, and the update of the virtual screen \<open>newscr\<close> from a
  window (\<open>lib_touch.c\<close>, \<open>lib_move.c\<close>, \<open>lib_window.c\<close>, \<open>lib_refresh.c\<close> of \<open>ncurses/base\<close>).

  \<open>doupdate\<close>, which sends the differences between \<open>newscr\<close> and \<open>curscr\<close> to the terminal, is an
  argument \<open>du\<close> of the operations that call it. The library is built with \<open>-DNDEBUG\<close>, so its
  assertions and the macro \<open>CHECK_POSITION\<close> are empty.

  A loop over the ancestors of a window is given the number of windows as fuel; running out of
  it is \<open>None\<close>, and the safety lemmas show that this does not happen.
\<close>

type_synonym updater = "nc \<Rightarrow> (int \<times> nc) option"

section \<open>Touching\<close>

definition is_linetouched :: "nat \<Rightarrow> int \<Rightarrow> nc \<Rightarrow> bool option" where
  "is_linetouched w y s =
     (if w = 0 then Some False
      else do { W \<leftarrow> windows s w;
                if y > maxy W \<or> y < 0 then Some False
                else do { l \<leftarrow> ldat_at W y; Some (firstchar l \<noteq> NOCHANGE) } })"

fun wintouched_loop :: "ldat list \<Rightarrow> bool" where
  "wintouched_loop [] = False"
| "wintouched_loop (l # ls) = (if firstchar l \<noteq> NOCHANGE then True else wintouched_loop ls)"

definition is_wintouched :: "nat \<Rightarrow> nc \<Rightarrow> bool option" where
  "is_wintouched w s =
     (if w = 0 then Some False
      else do { W \<leftarrow> windows s w;
                if nat (maxy W + 1) \<le> length (lines W)
                then Some (wintouched_loop (take (nat (maxy W + 1)) (lines W))) else None })"

definition touch_line :: "nat \<Rightarrow> bool \<Rightarrow> int \<Rightarrow> nc \<Rightarrow> nc option" where
  "touch_line w changed i s = do {
     W \<leftarrow> windows s w;
     modl w i (\<lambda>l. l\<lparr>firstchar := to_short (if changed then 0 else NOCHANGE),
                      lastchar := to_short (if changed then maxx W else NOCHANGE)\<rparr>) s }"

definition wtouchln :: "nat \<Rightarrow> int \<Rightarrow> int \<Rightarrow> bool \<Rightarrow> nc \<Rightarrow> (int \<times> nc) option" where
  "wtouchln w y n changed s =
     (if w = 0 then Some (ERR, s)
      else do {
        W \<leftarrow> windows s w;
        if n < 0 \<or> y < 0 \<or> y > maxy W then Some (ERR, s)
        else do {
          e \<leftarrow> chk (y + n);
          s1 \<leftarrow> ofold (touch_line w changed) [y..min (e - 1) (maxy W)] s;
          Some (OK, s1) } })"

definition touchwin :: "nat \<Rightarrow> nc \<Rightarrow> (int \<times> nc) option" where
  "touchwin w s =
     (if w = 0 then wtouchln w 0 ERR True s
      else do { W \<leftarrow> windows s w; wtouchln w 0 (maxy W + 1) True s })"

definition touchline :: "nat \<Rightarrow> int \<Rightarrow> int \<Rightarrow> nc \<Rightarrow> (int \<times> nc) option" where
  "touchline w start n s = wtouchln w start n True s"

definition untouchwin :: "nat \<Rightarrow> nc \<Rightarrow> (int \<times> nc) option" where
  "untouchwin w s =
     (if w = 0 then wtouchln w 0 ERR False s
      else do { W \<leftarrow> windows s w; wtouchln w 0 (maxy W + 1) False s })"

section \<open>The cursor\<close>

definition LEGALYX :: "window \<Rightarrow> int \<Rightarrow> int \<Rightarrow> bool" where
  "LEGALYX W y x \<longleftrightarrow> x \<ge> 0 \<and> x \<le> maxx W \<and> y \<ge> 0 \<and> y \<le> maxy W"

definition wmove :: "nat \<Rightarrow> int \<Rightarrow> int \<Rightarrow> nc \<Rightarrow> (int \<times> nc) option" where
  "wmove w y x s =
     (if w = 0 then Some (ERR, s)
      else do {
        W \<leftarrow> windows s w;
        if LEGALYX W y x then do {
          s1 \<leftarrow> modw w (\<lambda>W. W\<lparr>curx := to_short x, cury := to_short y,
                             flags := (flags W AND NOT F_WRAPPED) OR F_HASMOVED\<rparr>) s;
          Some (OK, s1) }
        else Some (ERR, s) })"

section \<open>Ancestors\<close>

definition syncup_line :: "nat \<Rightarrow> int \<Rightarrow> nc \<Rightarrow> nc option" where
  "syncup_line wp y s = do {
     W \<leftarrow> windows s wp;
     l \<leftarrow> ldat_at W y;
     if firstchar l \<ge> 0
     then modl (parent W) (pary W + y) (changed_range (firstchar l + parx W) (lastchar l + parx W)) s
     else Some s }"

fun syncup_loop :: "nat \<Rightarrow> nat \<Rightarrow> nc \<Rightarrow> nc option" where
  "syncup_loop 0 wp s = None"
| "syncup_loop (Suc n) wp s = do {
     W \<leftarrow> windows s wp;
     if parent W = 0 then Some s
     else do { s1 \<leftarrow> ofold (syncup_line wp) [0..maxy W] s; syncup_loop n (parent W) s1 } }"

definition wsyncup :: "nat \<Rightarrow> nc \<Rightarrow> nc option" where
  "wsyncup w s = (if w = 0 then Some s else syncup_loop (Suc (next_win s)) w s)"

definition syncdown_line :: "nat \<Rightarrow> int \<Rightarrow> nc \<Rightarrow> nc option" where
  "syncdown_line w y s = do {
     W \<leftarrow> windows s w;
     P \<leftarrow> windows s (parent W);
     pl \<leftarrow> ldat_at P (pary W + y);
     if firstchar pl \<ge> 0 then
       (let left = firstchar pl - parx W;
            right = lastchar pl - parx W;
            left' = (if left < 0 then 0 else left);
            right' = (if right > maxx W then maxx W else right)
        in modl w y (changed_range left' right') s)
     else Some s }"

fun wsyncdown_fuel :: "nat \<Rightarrow> nat \<Rightarrow> nc \<Rightarrow> nc option" where
  "wsyncdown_fuel 0 w s = None"
| "wsyncdown_fuel (Suc n) w s =
     (if w = 0 then Some s
      else do {
        W \<leftarrow> windows s w;
        if parent W = 0 then Some s
        else do { s1 \<leftarrow> wsyncdown_fuel n (parent W) s; ofold (syncdown_line w) [0..maxy W] s1 } })"

definition wsyncdown :: "nat \<Rightarrow> nc \<Rightarrow> nc option" where
  "wsyncdown w s = wsyncdown_fuel (Suc (next_win s)) w s"

fun cursyncup_loop :: "nat \<Rightarrow> nat \<Rightarrow> nc \<Rightarrow> nc option" where
  "cursyncup_loop 0 wp s = None"
| "cursyncup_loop (Suc n) wp s =
     (if wp = 0 then Some s
      else do {
        W \<leftarrow> windows s wp;
        if parent W = 0 then Some s
        else do {
          (r, s1) \<leftarrow> wmove (parent W) (pary W + cury W) (parx W + curx W) s;
          cursyncup_loop n (parent W) s1 } })"

definition wcursyncup :: "nat \<Rightarrow> nc \<Rightarrow> nc option" where
  "wcursyncup w s = cursyncup_loop (Suc (next_win s)) w s"

definition syncok :: "nat \<Rightarrow> bool \<Rightarrow> nc \<Rightarrow> (int \<times> nc) option" where
  "syncok w bf s =
     (if w = 0 then Some (ERR, s)
      else do { s1 \<leftarrow> modw w (\<lambda>W. W\<lparr>sync := bf\<rparr>) s; Some (OK, s1) })"

section \<open>The virtual screen\<close>

text \<open>
  One cell of the double loop of \<open>wnoutrefresh\<close>: column \<open>x\<close> of the source line, \<open>begx\<close> further
  right in the line of \<open>newscr\<close>.
\<close>

definition refresh_cell :: "nat \<Rightarrow> int \<Rightarrow> int \<Rightarrow> int \<Rightarrow> int \<Rightarrow> nc \<Rightarrow> nc option" where
  "refresh_cell w src_row dst_row bx x s = do {
     W \<leftarrow> windows s w;
     oline \<leftarrow> ldat_at W src_row;
     N \<leftarrow> windows s (newscr s);
     nline \<leftarrow> ldat_at N dst_row;
     a \<leftarrow> peek (ltext oline) x s;
     b \<leftarrow> peek (ltext nline) (x + bx) s;
     if a \<noteq> b then do {
       s1 \<leftarrow> poke (ltext nline) (x + bx) a s;
       modl (newscr s) dst_row (changed_cell (x + bx)) s1 }
     else Some s }"

definition refresh_row :: "nat \<Rightarrow> int \<Rightarrow> int \<Rightarrow> int \<Rightarrow> int \<Rightarrow> nc \<Rightarrow> nc option" where
  "refresh_row w limit_x bx by src_row s = do {
     W \<leftarrow> windows s w;
     oline \<leftarrow> ldat_at W src_row;
     s1 \<leftarrow> (if firstchar oline \<noteq> NOCHANGE then
              (let last_src = (if lastchar oline > limit_x then limit_x else lastchar oline) in
               ofold (refresh_cell w src_row (src_row + by) bx) [firstchar oline..last_src] s)
            else Some s);
     modl w src_row (\<lambda>l. l\<lparr>firstchar := NOCHANGE, lastchar := NOCHANGE\<rparr>) s1 }"

definition wnoutrefresh :: "nat \<Rightarrow> nc \<Rightarrow> (int \<times> nc) option" where
  "wnoutrefresh w s =
     (if w = 0 then Some (ERR, s)
      else do {
        W0 \<leftarrow> windows s w;
        if has_flag (flags W0) F_ISPAD then Some (ERR, s)
        else do {
          s1 \<leftarrow> modw (newscr s) (\<lambda>N. N\<lparr>bkgd := bkgd W0, attrs := attrs W0\<rparr>) s;
          s2 \<leftarrow> wsyncdown w s1;
          s3 \<leftarrow> modw w (\<lambda>W. W\<lparr>flags := flags W AND NOT F_HASMOVED\<rparr>) s2;
          W \<leftarrow> windows s3 w;
          N \<leftarrow> windows s3 (newscr s3);
          (let limit_x = (if maxx W > maxx N - begx W0 then maxx N - begx W0 else maxx W);
               by = begy W0 + yoffset W
           in do {
             s4 \<leftarrow> ofold (refresh_row w limit_x (begx W0) by) [0..min (maxy W) (maxy N - by)] s3;
             W4 \<leftarrow> windows s4 w;
             s5 \<leftarrow> (if clearf W4 then do {
                      t \<leftarrow> modw w (\<lambda>W. W\<lparr>clearf := False\<rparr>) s4;
                      modw (newscr t) (\<lambda>N. N\<lparr>clearf := True\<rparr>) t }
                    else Some s4);
             W5 \<leftarrow> windows s5 w;
             s6 \<leftarrow> (if \<not> leaveok W5
                    then modw (newscr s5) (\<lambda>N. N\<lparr>cury := to_short (cury W5 + begy W5 + yoffset W5),
                           curx := to_short (curx W5 + begx W5)\<rparr>) s5
                    else Some s5);
             W6 \<leftarrow> windows s6 w;
             s7 \<leftarrow> modw (newscr s6) (\<lambda>N. N\<lparr>leaveok := leaveok W6\<rparr>) s6;
             Some (OK, s7) }) } })"

definition wrefresh :: "updater \<Rightarrow> nat \<Rightarrow> nc \<Rightarrow> (int \<times> nc) option" where
  "wrefresh du w s =
     (if w = 0 then Some (ERR, s)
      else if w = curscr s then do {
        s1 \<leftarrow> modw (curscr s) (\<lambda>C. C\<lparr>clearf := True\<rparr>) s;
        du s1 }
      else do {
        (code, s1) \<leftarrow> wnoutrefresh w s;
        if code = OK then do {
          W \<leftarrow> windows s1 w;
          s2 \<leftarrow> (if clearf W then modw (newscr s1) (\<lambda>N. N\<lparr>clearf := True\<rparr>) s1 else Some s1);
          (code2, s3) \<leftarrow> du s2;
          s4 \<leftarrow> modw w (\<lambda>W. W\<lparr>clearf := False\<rparr>) s3;
          Some (code2, s4) }
        else Some (code, s1) })"

text \<open>The hook that every change of a window ends with.\<close>

definition synchook :: "updater \<Rightarrow> nat \<Rightarrow> nc \<Rightarrow> nc option" where
  "synchook du w s = do {
     W \<leftarrow> windows s w;
     s1 \<leftarrow> (if immed W then do { (r, t) \<leftarrow> wrefresh du w s; Some t } else Some s);
     W1 \<leftarrow> windows s1 w;
     if sync W1 then wsyncup w s1 else Some s1 }"

definition mvderwin :: "nat \<Rightarrow> int \<Rightarrow> int \<Rightarrow> nc \<Rightarrow> (int \<times> nc) option" where
  "mvderwin w y x s =
     (if w = 0 then Some (ERR, s)
      else do {
        W \<leftarrow> windows s w;
        if parent W = 0 then Some (ERR, s)
        else do {
          P \<leftarrow> windows s (parent W);
          if x \<ge> 0 \<and> y \<ge> 0 then do {
            ex \<leftarrow> chk (x + (maxx W + 1));
            ey \<leftarrow> (if ex \<le> maxx P + 1 then chk (y + (maxy W + 1)) else Some 0);
            if ex \<le> maxx P + 1 \<and> ey \<le> maxy P + 1 then do {
              s1 \<leftarrow> wsyncup w s;
              s2 \<leftarrow> modw w (\<lambda>W. W\<lparr>parx := x, pary := y\<rparr>) s1;
              s3 \<leftarrow> ofold (\<lambda>i t. do {
                       orig \<leftarrow> windows t (parent W);
                       ol \<leftarrow> ldat_at orig (y + i);
                       modl w i (\<lambda>l. l\<lparr>ltext := (fst (ltext ol), snd (ltext ol) + x)\<rparr>) t })
                     [0..maxy W] s2;
              Some (OK, s3) }
            else Some (ERR, s) }
          else Some (ERR, s) } })"

section \<open>Safety of the marks\<close>

lemma ok_touch_line:
  assumes "evolves u D s0 s" and "windows s w = Some W" and "0 \<le> y" and "y \<le> maxy W"
  shows "ok (touch_line w True y s) (evolves u D s0)"
proof -
  have k: "win_ok s w W" using invD(1) [OF evolvesD(1) [OF assms(1)] assms(2)] .
  obtain l where l: "ldat_at W y = Some l" "mark_ok (maxx W) l" using win_ok_line [OF k assms(3,4)] .
  let ?f = "\<lambda>l. l\<lparr>firstchar := to_short (if True then 0 else NOCHANGE),
                 lastchar := to_short (if True then maxx W else NOCHANGE)\<rparr>"
  have sh: "to_short 0 = 0" "to_short (maxx W) = maxx W"
    using win_okD [OF k] by (simp_all add: to_short_id)
  have "ok (modl w y ?f s) (\<lambda>s'. evolves u D s0 s' \<and> s' = set_win w (W\<lparr>lines := (lines W)[nat y := ?f l]\<rparr>) s)"
  proof (rule ok_modl [OF assms(1,2) l(1)])
    show "mark_ok (maxx W) (?f l)" using sh win_okD [OF k] by (simp add: mark_ok_def)
    show "mark l \<le> mark (?f l)" using l(2) sh by (auto simp: mark_def mark_ok_def NOCHANGE_def)
  qed simp
  then show ?thesis using assms(2) by (auto simp: touch_line_def elim: ok_mono)
qed

lemma evolves_bounds:
  assumes "evolves u D s0 s" and "windows s0 w = Some W0" and "windows s w = Some W"
  shows "maxy W = maxy W0" "maxx W = maxx W0" "parent W = parent W0" "pary W = pary W0" "parx W = parx W0"
proof -
  obtain V where "windows s w = Some V" "geom V = geom W0"
    using evolves_winE [OF assms(1,2)] .
  then have "geom W = geom W0" using assms(3) by simp
  then show "maxy W = maxy W0" "maxx W = maxx W0" "parent W = parent W0" "pary W = pary W0" "parx W = parx W0"
    using geomD by blast+
qed

lemma ok_wtouchln:
  assumes "evolves u D s0 s" and "windows s w = Some W" and "n < 2 ^ 31 - 32768"
  shows "ok (wtouchln w y n True s) (\<lambda>(r, s'). evolves u D s0 s')"
proof -
  have k: "win_ok s w W" "w \<noteq> 0" using invD [OF evolvesD(1) [OF assms(1)] assms(2)] .
  show ?thesis
  proof (cases "n < 0 \<or> y < 0 \<or> y > maxy W")
    case True
    then show ?thesis using assms(1,2) k(2) by (simp add: wtouchln_def)
  next
    case False
    then have b: "0 \<le> n" "0 \<le> y" "y \<le> maxy W" by auto
    have e: "chk (y + n) = Some (y + n)"
      using b assms(3) win_okD [OF k(1)] by (intro chk_ok) (simp add: in_int_def)
    have "ok (ofold (touch_line w True) [y..min (y + n - 1) (maxy W)] s) (evolves u D s0)"
    proof (rule ok_ofold)
      show "evolves u D s0 s" by (rule assms(1))
      fix i t assume i: "i \<in> set [y..min (y + n - 1) (maxy W)]" and t: "evolves u D s0 t"
      obtain W0 where W0: "windows s0 w = Some W0" "geom W0 = geom W"
        using shape_winE [OF evolvesD(2) [OF assms(1), symmetric] assms(2)] .
      obtain W' where W': "windows t w = Some W'" using evolves_winE [OF t W0(1)] .
      have "maxy W' = maxy W" using evolves_bounds(1) [OF t W0(1) W'] geomD(1) [OF W0(2)] by simp
      then show "ok (touch_line w True i t) (evolves u D s0)"
        using i b by (intro ok_touch_line [OF t W']) auto
    qed
    then show ?thesis using False assms(2) k(2) e by (simp add: wtouchln_def)
  qed
qed

lemma ok_touchwin:
  assumes "evolves u D s0 s" and "windows s w = Some W"
  shows "ok (touchwin w s) (\<lambda>(r, s'). evolves u D s0 s')"
proof -
  have k: "win_ok s w W" "w \<noteq> 0" using invD [OF evolvesD(1) [OF assms(1)] assms(2)] .
  have "maxy W + 1 < 2 ^ 31 - 32768" using win_okD [OF k(1)] by simp
  from ok_wtouchln [OF assms this] show ?thesis using assms(2) k(2) by (simp add: touchwin_def)
qed

lemma geom_simps [simp]:
  "geom (W\<lparr>cury := a\<rparr>) = geom W" "geom (W\<lparr>curx := b\<rparr>) = geom W"
  "has_flag f F_ISPAD = has_flag (flags W) F_ISPAD \<Longrightarrow> has_flag f F_SUBWIN = has_flag (flags W) F_SUBWIN \<Longrightarrow> geom (W\<lparr>flags := f\<rparr>) = geom W"
  "geom (W\<lparr>attrs := c\<rparr>) = geom W" "geom (W\<lparr>bkgd := c\<rparr>) = geom W" "geom (W\<lparr>clearf := h\<rparr>) = geom W"
  "geom (W\<lparr>leaveok := h\<rparr>) = geom W" "geom (W\<lparr>immed := h\<rparr>) = geom W" "geom (W\<lparr>sync := h\<rparr>) = geom W"
  "geom (W\<lparr>regtop := a\<rparr>) = geom W" "geom (W\<lparr>regbottom := a\<rparr>) = geom W"
  "geom (W\<lparr>scrollf := h\<rparr>) = geom W"
  by (simp_all add: geom_def)

lemma in_parent_simps [simp]:
  "in_parent s w (W\<lparr>cury := a\<rparr>) = in_parent s w W" "in_parent s w (W\<lparr>curx := b\<rparr>) = in_parent s w W"
  "in_parent s w (W\<lparr>flags := f\<rparr>) = in_parent s w W" "in_parent s w (W\<lparr>attrs := c\<rparr>) = in_parent s w W"
  "in_parent s w (W\<lparr>bkgd := c\<rparr>) = in_parent s w W" "in_parent s w (W\<lparr>clearf := h\<rparr>) = in_parent s w W"
  "in_parent s w (W\<lparr>leaveok := h\<rparr>) = in_parent s w W" "in_parent s w (W\<lparr>sync := h\<rparr>) = in_parent s w W"
  "in_parent s w (W\<lparr>immed := h\<rparr>) = in_parent s w W"
  "in_parent s w (W\<lparr>regtop := a\<rparr>) = in_parent s w W" "in_parent s w (W\<lparr>regbottom := a\<rparr>) = in_parent s w W"
  "in_parent s w (W\<lparr>begy := a\<rparr>) = in_parent s w W" "in_parent s w (W\<lparr>begx := a\<rparr>) = in_parent s w W"
  "in_parent s w (W\<lparr>scrollf := h\<rparr>) = in_parent s w W"
  by (simp_all add: in_parent_def)

lemma ok_wmove:
  assumes "evolves u D s0 s" and "windows s w = Some W"
  shows "ok (wmove w y x s) (\<lambda>(r, s'). evolves u D s0 s' \<and> windows s' =
           (if LEGALYX W y x then (windows s)(w \<mapsto> W\<lparr>curx := x, cury := y, flags := (flags W AND NOT F_WRAPPED) OR F_HASMOVED\<rparr>)
            else windows s) \<and> cells s' = cells s \<and> (r = OK \<longleftrightarrow> LEGALYX W y x))"
proof (cases "LEGALYX W y x")
  case False
  then show ?thesis using assms invD(2) [OF evolvesD(1) [OF assms(1)] assms(2)] by (simp add: wmove_def)
next
  case True
  have k: "win_ok s w W" "w \<noteq> 0" using invD [OF evolvesD(1) [OF assms(1)] assms(2)] .
  have sh: "to_short x = x" "to_short y = y"
    using True win_okD [OF k(1)] by (simp_all add: LEGALYX_def to_short_id)
  let ?f = "\<lambda>W. W\<lparr>curx := to_short x, cury := to_short y, flags := (flags W AND NOT F_WRAPPED) OR F_HASMOVED\<rparr>"
  have "ok (modw w ?f s) (\<lambda>s'. evolves u D s0 s' \<and> s' = set_win w (?f W) s)"
  proof (rule ok_modw [OF assms])
    show "win_ok s w (?f W)" using k(1) True sh by (auto simp: win_ok_def LEGALYX_def)
  qed simp_all
  then show ?thesis using True assms(2) k(2) sh by (auto simp: wmove_def elim!: ok_mono)
qed

lemma ok_syncup_line:
  assumes "evolves u D s0 s" and "windows s w = Some W" and "parent W \<noteq> 0" and "0 \<le> y" and "y \<le> maxy W"
  shows "ok (syncup_line w y s) (evolves u D s0)"
proof -
  have i: "inv s" using evolvesD(1) [OF assms(1)] .
  have k: "win_ok s w W" using invD(1) [OF i assms(2)] .
  obtain l where l: "ldat_at W y = Some l" "mark_ok (maxx W) l" using win_ok_line [OF k assms(4,5)] .
  have "in_parent s w W" using k assms(3) by (simp add: win_ok_def)
  then obtain P where P: "windows s (parent W) = Some P" "0 \<le> pary W" "pary W + maxy W \<le> maxy P"
    "0 \<le> parx W" "parx W + maxx W \<le> maxx P" by (auto simp: in_parent_def)
  have kp: "win_ok s (parent W) P" using invD(1) [OF i P(1)] .
  have py: "0 \<le> pary W + y" "pary W + y \<le> maxy P" using P assms(4,5) by auto
  obtain pl where pl: "ldat_at P (pary W + y) = Some pl" "mark_ok (maxx P) pl" using win_ok_line [OF kp py] .
  show ?thesis
  proof (cases "firstchar l \<ge> 0")
    case False
    then show ?thesis using assms(1,2) l(1) by (simp add: syncup_line_def)
  next
    case True
    let ?a = "firstchar l + parx W" and ?b = "lastchar l + parx W"
    have ab: "0 \<le> ?a" "?a \<le> ?b" "?b \<le> maxx P" "maxx P < 32767"
      using True l(2) P(4,5) win_okD [OF kp] by (auto simp: mark_ok_def NOCHANGE_def)
    note m = changed_range_mark [OF pl(2) ab]
    have "ok (modl (parent W) (pary W + y) (changed_range ?a ?b) s) (\<lambda>s'. evolves u D s0 s' \<and>
        s' = set_win (parent W) (P\<lparr>lines := (lines P)[nat (pary W + y) := changed_range ?a ?b pl]\<rparr>) s)"
      by (rule ok_modl [OF assms(1) P(1) pl(1)]) (simp_all add: m)
    then show ?thesis using True assms(2) l(1) by (auto simp: syncup_line_def elim: ok_mono)
  qed
qed

lemma ok_syncup_loop:
  assumes "evolves u D s0 s" and "windows s w = Some W" and "w < n"
  shows "ok (syncup_loop n w s) (evolves u D s0)"
  using assms
proof (induction n arbitrary: w W s)
  case 0
  then show ?case by simp
next
  case (Suc n)
  show ?case
  proof (cases "parent W = 0")
    case True
    then show ?thesis using Suc.prems by simp
  next
    case False
    have k: "win_ok s w W" using invD(1) [OF evolvesD(1) [OF Suc.prems(1)] Suc.prems(2)] .
    then obtain P where P: "parent W < w" "windows s (parent W) = Some P"
      using False by (auto simp: win_ok_def in_parent_def)
    obtain W0 where W0: "windows s0 w = Some W0" "geom W0 = geom W"
      using shape_winE [OF evolvesD(2) [OF Suc.prems(1), symmetric] Suc.prems(2)] .
    obtain P0 where P0: "windows s0 (parent W) = Some P0"
      using shape_winE [OF evolvesD(2) [OF Suc.prems(1), symmetric] P(2)] .
    have "ok (ofold (syncup_line w) [0..maxy W] s) (evolves u D s0)"
    proof (rule ok_ofold)
      show "evolves u D s0 s" by (rule Suc.prems(1))
      fix y t assume y: "y \<in> set [0..maxy W]" and t: "evolves u D s0 t"
      obtain W' where W': "windows t w = Some W'" using evolves_winE [OF t W0(1)] .
      have "maxy W' = maxy W" "parent W' = parent W"
        using evolves_bounds [OF t W0(1) W'] geomD [OF W0(2)] by simp_all
      then show "ok (syncup_line w y t) (evolves u D s0)"
        using y False by (intro ok_syncup_line [OF t W']) auto
    qed
    then show ?thesis
    proof (rule okE)
      fix s1 assume s1: "ofold (syncup_line w) [0..maxy W] s = Some s1" "evolves u D s0 s1"
      obtain P' where P': "windows s1 (parent W) = Some P'" using evolves_winE [OF s1(2) P0] .
      have "ok (syncup_loop n (parent W) s1) (evolves u D s0)"
        by (rule Suc.IH [OF s1(2) P']) (use P(1) Suc.prems(3) in simp)
      then show ?thesis using Suc.prems(2) False s1(1) by simp
    qed
  qed
qed

lemma ok_wsyncup:
  assumes "evolves u D s0 s" and "windows s w = Some W"
  shows "ok (wsyncup w s) (evolves u D s0)"
proof -
  have "w < next_win s" using evolvesD(1) [OF assms(1)] assms(2) by (auto simp: inv_def)
  then show ?thesis using ok_syncup_loop [OF assms, of "Suc (next_win s)"] assms(1)
    by (simp add: wsyncup_def del: syncup_loop.simps)
qed

lemma ok_cursyncup_loop:
  assumes "evolves u D s0 s" and "windows s w = Some W" and "w < n"
  shows "ok (cursyncup_loop n w s) (evolves u D s0)"
  using assms
proof (induction n arbitrary: w W s)
  case 0
  then show ?case by simp
next
  case (Suc n)
  have k: "win_ok s w W" "w \<noteq> 0" using invD [OF evolvesD(1) [OF Suc.prems(1)] Suc.prems(2)] .
  show ?case
  proof (cases "parent W = 0")
    case True
    then show ?thesis using Suc.prems by simp
  next
    case False
    then obtain P where P: "parent W < w" "windows s (parent W) = Some P"
      using k by (auto simp: win_ok_def in_parent_def)
    from ok_wmove [OF Suc.prems(1) P(2), of "pary W + cury W" "parx W + curx W"]
    obtain r s1 where s1: "wmove (parent W) (pary W + cury W) (parx W + curx W) s = Some (r, s1)"
      "evolves u D s0 s1" "windows s1 (parent W) \<noteq> None"
      using P(2) by (auto elim!: okE split: if_splits)
    then obtain P' where "windows s1 (parent W) = Some P'" by auto
    from Suc.IH [OF s1(2) this] P(1) Suc.prems(3)
    have "ok (cursyncup_loop n (parent W) s1) (evolves u D s0)" by simp
    then show ?thesis using Suc.prems(2) False s1(1) k(2) by simp
  qed
qed

lemma ok_wcursyncup:
  assumes "evolves u D s0 s" and "windows s w = Some W"
  shows "ok (wcursyncup w s) (evolves u D s0)"
proof -
  have "w < next_win s" using evolvesD(1) [OF assms(1)] assms(2) by (auto simp: inv_def)
  then show ?thesis using ok_cursyncup_loop [OF assms, of "Suc (next_win s)"]
    by (simp add: wcursyncup_def del: cursyncup_loop.simps)
qed

section \<open>Safety of a refresh\<close>

text \<open>
  A window without parent, other than \<open>newscr\<close>, can be refreshed: no access leaves the lines of
  the window or of \<open>newscr\<close>.
\<close>

lemma ok_refresh_cell:
  assumes "steady s0 s" and "windows s w = Some W" and "ldat_at W y = Some l"
    and "windows s (newscr s) = Some N" and "ldat_at N z = Some nln"
    and "0 \<le> x" and "x \<le> maxx W" and "0 \<le> x + bx" and "x + bx \<le> maxx N"
  shows "ok (refresh_cell w y z bx x s) (steady s0)"
proof -
  have i: "inv s" using steadyD(1) [OF assms(1)] .
  have k: "win_ok s w W" "win_ok s (newscr s) N" using invD(1) [OF i] assms(2,4) by blast+
  have "l \<in> set (lines W)" "nln \<in> set (lines N)" using assms(3,5) by (auto dest!: ldat_at_range)
  then have rows: "row_ok s (maxx W) l" "row_ok s (maxx N) nln" "mark_ok (maxx N) nln"
    using k by (auto simp: win_ok_def)
  obtain a where a: "peek (ltext l) x s = Some a" using peek_row [OF rows(1) assms(6,7)] by auto
  obtain b where b: "peek (ltext nln) (x + bx) s = Some b" using peek_row [OF rows(2) assms(8,9)] by auto
  show ?thesis
  proof (cases "a = b")
    case True
    then show ?thesis using assms(1-5) a b by (simp add: refresh_cell_def)
  next
    case False
    have "ok (poke (ltext nln) (x + bx) a s) (\<lambda>s'. steady s0 s' \<and> windows s' = windows s)"
      by (rule ok_poke_steady [OF assms(1,4,5,8,9)])
    then obtain s1 where s1: "poke (ltext nln) (x + bx) a s = Some s1" "steady s0 s1" "windows s1 = windows s"
      by (auto elim: okE)
    have ns: "newscr s1 = newscr s"
      using shape_consts [OF steadyD(2) [OF s1(2)]] shape_consts [OF steadyD(2) [OF assms(1)]] by simp
    have N: "windows s1 (newscr s1) = Some N" using s1(3) ns assms(4) by simp
    note m = changed_cell_mark [OF rows(3) assms(8,9) win_okD(4) [OF k(2)]]
    have "ok (modl (newscr s1) z (changed_cell (x + bx)) s1) (\<lambda>s'. steady s0 s' \<and>
        s' = set_win (newscr s1) (N\<lparr>lines := (lines N)[nat z := changed_cell (x + bx) nln]\<rparr>) s1)"
      by (rule ok_modl_steady [OF s1(2) N assms(5)]) (simp_all add: m)
    then show ?thesis using False a b s1(1) ns assms(2-5) by (auto simp: refresh_cell_def elim: ok_mono)
  qed
qed

lemma ok_refresh_cells:
  assumes "steady s0 s" and "windows s w = Some W" and "ldat_at W y = Some l"
    and "windows s (newscr s) = Some N" and "ldat_at N z = Some nln"
    and "\<And>x. x \<in> set xs \<Longrightarrow> 0 \<le> x \<and> x \<le> maxx W \<and> 0 \<le> x + bx \<and> x + bx \<le> maxx N"
  shows "ok (ofold (refresh_cell w y z bx) xs s) (steady s0)"
proof (rule ok_ofold)
  show "steady s0 s" by (rule assms(1))
  fix x t assume x: "x \<in> set xs" and t: "steady s0 t"
  have sh: "shape t = shape s" using steadyD(2) [OF t] steadyD(2) [OF assms(1)] by simp
  have ns: "newscr t = newscr s" using shape_consts [OF sh] by simp
  obtain W' where W': "windows t w = Some W'" "geom W' = geom W" using shape_winE [OF sh assms(2)] .
  obtain l' where l': "ldat_at W' y = Some l'" using geom_ldat_at [OF W'(2) assms(3)] .
  obtain N' where N': "windows t (newscr t) = Some N'" "geom N' = geom N" using shape_winE [OF sh assms(4)] ns by metis
  obtain nln' where nln': "ldat_at N' z = Some nln'" using geom_ldat_at [OF N'(2) assms(5)] .
  show "ok (refresh_cell w y z bx x t) (steady s0)"
    by (rule ok_refresh_cell [OF t W'(1) l' N'(1) nln'])
      (use assms(6) [OF x] geomD(2) [OF W'(2)] geomD(2) [OF N'(2)] in auto)
qed

lemma ok_refresh_row:
  assumes "steady s0 s" and "windows s w = Some W" and "windows s (newscr s) = Some N"
    and "0 \<le> y" and "y \<le> maxy W" and "0 \<le> by" and "y + by \<le> maxy N" and "0 \<le> bx"
    and "lim \<le> maxx W" and "lim + bx \<le> maxx N"
  shows "ok (refresh_row w lim bx by y s) (steady s0)"
proof -
  have i: "inv s" using steadyD(1) [OF assms(1)] .
  have k: "win_ok s w W" "win_ok s (newscr s) N" using invD(1) [OF i] assms(2,3) by blast+
  obtain l where l: "ldat_at W y = Some l" "mark_ok (maxx W) l" using win_ok_line [OF k(1) assms(4,5)] .
  have z: "0 \<le> y + by" using assms(4,6) by simp
  obtain nln where nln: "ldat_at N (y + by) = Some nln" using win_ok_line [OF k(2) z assms(7)] .
  let ?last = "if lastchar l > lim then lim else lastchar l"
  have "ok (if firstchar l \<noteq> NOCHANGE then ofold (refresh_cell w y (y + by) bx) [firstchar l..?last] s else Some s)
        (steady s0)"
  proof (cases "firstchar l = NOCHANGE")
    case True
    then show ?thesis using assms(1) by simp
  next
    case False
    have "ok (ofold (refresh_cell w y (y + by) bx) [firstchar l..?last] s) (steady s0)"
      by (rule ok_refresh_cells [OF assms(1,2) l(1) assms(3) nln])
        (use False l(2) assms(8-10) in \<open>auto simp: mark_ok_def split: if_splits\<close>)
    then show ?thesis using False by simp
  qed
  then show ?thesis
  proof (rule okE)
    fix s1 assume s1: "(if firstchar l \<noteq> NOCHANGE then ofold (refresh_cell w y (y + by) bx) [firstchar l..?last] s
        else Some s) = Some s1" "steady s0 s1"
    have sh: "shape s1 = shape s" using steadyD(2) [OF s1(2)] steadyD(2) [OF assms(1)] by simp
    obtain W' where W': "windows s1 w = Some W'" "geom W' = geom W" using shape_winE [OF sh assms(2)] .
    obtain l' where l': "ldat_at W' y = Some l'" using geom_ldat_at [OF W'(2) l(1)] .
    let ?f = "\<lambda>l. l\<lparr>firstchar := NOCHANGE, lastchar := NOCHANGE\<rparr>"
    have "ok (modl w y ?f s1) (\<lambda>s'. steady s0 s' \<and> s' = set_win w (W'\<lparr>lines := (lines W')[nat y := ?f l']\<rparr>) s1)"
      by (rule ok_modl_steady [OF s1(2) W'(1) l']) (simp_all add: mark_ok_def)
    then show ?thesis using assms(2) l(1) s1(1)
      by (auto simp: refresh_row_def Let_def elim: ok_mono)
  qed
qed

lemma wsyncdown_root: "windows s w = Some W \<Longrightarrow> parent W = 0 \<Longrightarrow> wsyncdown w s = Some s"
  by (simp add: wsyncdown_def)

lemma win_ok_simps [simp]:
  "win_ok s w (W\<lparr>flags := f\<rparr>) = win_ok s w W" "win_ok s w (W\<lparr>attrs := c\<rparr>) = win_ok s w W"
  "win_ok s w (W\<lparr>bkgd := c\<rparr>) = win_ok s w W" "win_ok s w (W\<lparr>clearf := h\<rparr>) = win_ok s w W"
  "win_ok s w (W\<lparr>leaveok := h\<rparr>) = win_ok s w W" "win_ok s w (W\<lparr>sync := h\<rparr>) = win_ok s w W"
  "win_ok s w (W\<lparr>scrollf := h\<rparr>) = win_ok s w W"
  by (simp_all add: win_ok_def)

lemma win_ok_newscr_cursor:
  "win_ok s (newscr s) N \<Longrightarrow> win_ok s (newscr s) (N\<lparr>cury := a, curx := b\<rparr>)"
  by (simp add: win_ok_def)

lemma ok_modw_steadyI:
  assumes "steady s0 s" and "windows s v = Some W" and "geom (f W) = geom W"
    and "win_ok s v W \<Longrightarrow> win_ok s v (f W)" and "immed (f W) = immed W"
  shows "\<exists>s'. modw v f s = Some s' \<and> steady s0 s' \<and> s' = set_win v (f W) s"
proof -
  have "win_ok s v (f W)" using assms(4) invD(1) [OF steadyD(1) [OF assms(1)] assms(2)] by simp
  from ok_modw_steady [where f = f, OF assms(1,2,3) this assms(5)] show ?thesis by (auto elim: okE)
qed

lemma ok_wnoutrefresh:
  assumes "steady s0 s" and "windows s w = Some W0" and "parent W0 = 0" and "w \<noteq> newscr s"
  shows "ok (wnoutrefresh w s) (\<lambda>(r, s'). steady s0 s' \<and> (r = OK \<or> r = ERR \<and> s' = s))"
proof (cases "has_flag (flags W0) F_ISPAD")
  case True
  then show ?thesis using assms invD(2) [OF steadyD(1) [OF assms(1)] assms(2)] by (simp add: wnoutrefresh_def)
next
  case False
  have w0: "w \<noteq> 0" using invD(2) [OF steadyD(1) [OF assms(1)] assms(2)] .
  obtain N where N: "windows s (newscr s) = Some N" using steadyD(1) [OF assms(1)] by (auto simp: inv_def)
  let ?f1 = "\<lambda>N. N\<lparr>bkgd := bkgd W0, attrs := attrs W0\<rparr>"
  obtain s1 where s1: "modw (newscr s) ?f1 s = Some s1" "steady s0 s1" "s1 = set_win (newscr s) (?f1 N) s"
    using ok_modw_steadyI [where f = ?f1, OF assms(1) N] by auto
  have W1: "windows s1 w = Some W0" using s1(3) assms(2,4) by simp
  have sd: "wsyncdown w s1 = Some s1" by (rule wsyncdown_root [OF W1 assms(3)])
  let ?f3 = "\<lambda>W. W\<lparr>flags := flags W AND NOT F_HASMOVED\<rparr>"
  obtain s3 where s3: "modw w ?f3 s1 = Some s3" "steady s0 s3" "s3 = set_win w (?f3 W0) s1"
    using ok_modw_steadyI [where f = ?f3, OF s1(2) W1] by auto
  have ns: "newscr s3 = newscr s" using s1(3) s3(3) by simp
  let ?W = "?f3 W0" and ?N = "?f1 N"
  have W3: "windows s3 w = Some ?W" using s3(3) by simp
  have N3: "windows s3 (newscr s3) = Some ?N" using s3(3) s1(3) assms(4) ns by simp
  have k: "win_ok s w W0" using invD(1) [OF steadyD(1) [OF assms(1)] assms(2)] .
  let ?lim = "if maxx ?W > maxx ?N - begx W0 then maxx ?N - begx W0 else maxx ?W"
  let ?by = "begy W0 + yoffset ?W"
  have "ok (ofold (refresh_row w ?lim (begx W0) ?by) [0..min (maxy ?W) (maxy ?N - ?by)] s3) (steady s0)"
  proof (rule ok_ofold)
    show "steady s0 s3" by (rule s3(2))
    fix y t assume y: "y \<in> set [0..min (maxy ?W) (maxy ?N - ?by)]" and t: "steady s0 t"
    have sh: "shape t = shape s3" using steadyD(2) [OF t] steadyD(2) [OF s3(2)] by simp
    have nt: "newscr t = newscr s3" using shape_consts [OF sh] by simp
    obtain W' where W': "windows t w = Some W'" "geom W' = geom ?W" using shape_winE [OF sh W3] .
    obtain N' where N': "windows t (newscr t) = Some N'" "geom N' = geom ?N" using shape_winE [OF sh N3] nt by metis
    have m: "maxx W' = maxx W0" "maxy W' = maxy W0" "maxx N' = maxx N" "maxy N' = maxy N"
      using geomD(1,2) [OF W'(2)] geomD(1,2) [OF N'(2)] by simp_all
    show "ok (refresh_row w ?lim (begx W0) ?by y t) (steady s0)"
      by (rule ok_refresh_row [OF t W'(1) N'(1)]) (use y m win_okD [OF k] in auto)
  qed
  then obtain s4 where s4: "ofold (refresh_row w ?lim (begx W0) ?by) [0..min (maxy ?W) (maxy ?N - ?by)] s3 = Some s4"
    "steady s0 s4" by (auto elim: okE)
  have ns4: "newscr s4 = newscr s" using shape_consts [OF steadyD(2) [OF s4(2)]] shape_consts [OF steadyD(2) [OF assms(1)]] by simp
  have ex: "\<exists>V. windows t w = Some V" "\<exists>V. windows t (newscr t) = Some V" if t: "steady s0 t" for t
  proof -
    have sh: "shape t = shape s" using steadyD(2) [OF t] steadyD(2) [OF assms(1)] by simp
    show "\<exists>V. windows t w = Some V" using shape_winE [OF sh assms(2)] by metis
    show "\<exists>V. windows t (newscr t) = Some V" using steadyD(1) [OF t] by (auto simp: inv_def)
  qed
  obtain W4 where W4: "windows s4 w = Some W4" using ex(1) [OF s4(2)] by blast
  have "ok (if clearf W4 then do {
             t \<leftarrow> modw w (\<lambda>W. W\<lparr>clearf := False\<rparr>) s4;
             modw (newscr t) (\<lambda>N. N\<lparr>clearf := True\<rparr>) t }
           else Some s4) (steady s0)"
  proof (cases "clearf W4")
    case False
    then show ?thesis using s4(2) by simp
  next
    case True
    obtain t where t: "modw w (\<lambda>W. W\<lparr>clearf := False\<rparr>) s4 = Some t" "steady s0 t"
      using ok_modw_steadyI [where f = "\<lambda>W. W\<lparr>clearf := False\<rparr>", OF s4(2) W4] by auto
    obtain V where V: "windows t (newscr t) = Some V" using ex(2) [OF t(2)] by blast
    obtain u where "modw (newscr t) (\<lambda>N. N\<lparr>clearf := True\<rparr>) t = Some u" "steady s0 u"
      using ok_modw_steadyI [where f = "\<lambda>N. N\<lparr>clearf := True\<rparr>", OF t(2) V] by auto
    then show ?thesis using True t(1) by simp
  qed
  then obtain s5 where s5: "(if clearf W4 then do {
             t \<leftarrow> modw w (\<lambda>W. W\<lparr>clearf := False\<rparr>) s4;
             modw (newscr t) (\<lambda>N. N\<lparr>clearf := True\<rparr>) t }
           else Some s4) = Some s5" "steady s0 s5" by (rule okE)
  obtain W5 where W5: "windows s5 w = Some W5" using ex(1) [OF s5(2)] by blast
  let ?f6 = "\<lambda>N. N\<lparr>cury := to_short (cury W5 + begy W5 + yoffset W5), curx := to_short (curx W5 + begx W5)\<rparr>"
  have "\<exists>s6. (if \<not> leaveok W5 then modw (newscr s5) ?f6 s5 else Some s5) = Some s6 \<and> steady s0 s6"
  proof (cases "leaveok W5")
    case True
    then show ?thesis using s5(2) by simp
  next
    case False
    obtain V where V: "windows s5 (newscr s5) = Some V" using ex(2) [OF s5(2)] by blast
    show ?thesis
      using False ok_modw_steadyI [where f = ?f6, OF s5(2) V] win_ok_newscr_cursor [of s5 V] by auto
  qed
  then obtain s6 where s6: "(if \<not> leaveok W5 then modw (newscr s5) ?f6 s5 else Some s5) = Some s6" "steady s0 s6" by blast
  obtain W6 where W6: "windows s6 w = Some W6" using ex(1) [OF s6(2)] by blast
  obtain V where V: "windows s6 (newscr s6) = Some V" using ex(2) [OF s6(2)] by blast
  obtain s7 where s7: "modw (newscr s6) (\<lambda>N. N\<lparr>leaveok := leaveok W6\<rparr>) s6 = Some s7" "steady s0 s7"
    using ok_modw_steadyI [where f = "\<lambda>N. N\<lparr>leaveok := leaveok W6\<rparr>", OF s6(2) V] by auto
  show ?thesis
    using assms(2) False w0 s1(1) sd s3(1) W3 N3 s4(1) W4 s5(1) W5 s6(1) W6 s7
    by (simp add: wnoutrefresh_def Let_def)
qed

text \<open>
  What the window library relies on of \<open>doupdate\<close>: it returns, and it changes neither the
  invariant nor the geometry of the windows.
\<close>

definition du_ok :: "updater \<Rightarrow> bool" where
  "du_ok du \<longleftrightarrow> (\<forall>s. inv s \<longrightarrow> ok (du s) (\<lambda>(r, s'). steady s s'))"

lemma ok_du: "du_ok du \<Longrightarrow> steady s0 s \<Longrightarrow> ok (du s) (\<lambda>(r, s'). steady s0 s')"
  unfolding du_ok_def by (drule spec [of _ s], drule mp) (auto dest: steadyD(1) elim!: ok_mono intro: steady_trans)

lemma ok_wrefresh:
  assumes "du_ok du" and "steady s0 s" and "windows s w = Some W" and "parent W = 0" and "w \<noteq> newscr s"
  shows "ok (wrefresh du w s) (\<lambda>(r, s'). steady s0 s')"
proof -
  have w0: "w \<noteq> 0" using invD(2) [OF steadyD(1) [OF assms(2)] assms(3)] .
  show ?thesis
  proof (cases "w = curscr s")
    case True
    obtain s1 where s1: "modw (curscr s) (\<lambda>C. C\<lparr>clearf := True\<rparr>) s = Some s1" "steady s0 s1"
      using ok_modw_steadyI [where f = "\<lambda>C. C\<lparr>clearf := True\<rparr>", OF assms(2,3)] True by auto
    show ?thesis using True w0 s1(1) ok_du [OF assms(1) s1(2)] by (simp add: wrefresh_def)
  next
    case False
    from ok_wnoutrefresh [OF assms(2-5)] obtain r s1 where
      s1: "wnoutrefresh w s = Some (r, s1)" "steady s0 s1" by (auto elim: okE)
    have sh: "shape t = shape s" if "steady s0 t" for t
      using steadyD(2) [OF that] steadyD(2) [OF assms(2)] by simp
    obtain W1 where W1: "windows s1 w = Some W1" using shape_winE [OF sh [OF s1(2)] assms(3)] .
    obtain N where N: "windows s1 (newscr s1) = Some N" using steadyD(1) [OF s1(2)] by (auto simp: inv_def)
    obtain s2 where s2: "(if clearf W1 then modw (newscr s1) (\<lambda>N. N\<lparr>clearf := True\<rparr>) s1 else Some s1) = Some s2"
      "steady s0 s2"
      using ok_modw_steadyI [where f = "\<lambda>N. N\<lparr>clearf := True\<rparr>", OF s1(2) N] s1(2) by (cases "clearf W1") auto
    obtain c s3 where s3: "du s2 = Some (c, s3)" "steady s0 s3" using ok_du [OF assms(1) s2(2)] by (auto elim: okE)
    obtain W3 where W3: "windows s3 w = Some W3" using shape_winE [OF sh [OF s3(2)] assms(3)] .
    obtain s4 where s4: "modw w (\<lambda>W. W\<lparr>clearf := False\<rparr>) s3 = Some s4" "steady s0 s4"
      using ok_modw_steadyI [where f = "\<lambda>W. W\<lparr>clearf := False\<rparr>", OF s3(2) W3] by auto
    show ?thesis using False w0 s1 W1 s2(1) s3(1) s4 by (simp add: wrefresh_def)
  qed
qed

lemma ok_synchook:
  assumes "du_ok du" and "evolves w D s0 s" and "windows s w = Some W" and "w \<noteq> newscr s"
  shows "ok (synchook du w s) (evolves w D s0)"
proof (cases "immed W")
  case True
  have i: "inv s" using evolvesD(1) [OF assms(2)] .
  have "immediate s0 w" using True assms(3) evolvesD(4) [OF assms(2)] by (metis immediate_def)
  then have e: "evolves w D s0 t" if "steady s0 t" for t using that by (simp add: evolves_def)
  have "parent W = 0" using invD(1) [OF i assms(3)] True by (auto simp: win_ok_def)
  from ok_wrefresh [OF assms(1) evolves_steady [OF assms(2)] assms(3) this assms(4)] obtain r s1 where
    s1: "wrefresh du w s = Some (r, s1)" "steady s0 s1" by (auto elim: okE)
  have sh: "shape s1 = shape s" using steadyD(2) [OF s1(2)] evolvesD(2) [OF assms(2)] by simp
  obtain W1 where W1: "windows s1 w = Some W1" using shape_winE [OF sh assms(3)] .
  show ?thesis
    using True assms(3) s1(1) W1 e [OF s1(2)] ok_wsyncup [OF e [OF s1(2)] W1] by (simp add: synchook_def)
next
  case False
  then show ?thesis using assms(3) ok_wsyncup [OF assms(2,3)] assms(2) by (simp add: synchook_def)
qed

section \<open>Touched lines are marked\<close>

lemma touch_line_marks:
  assumes "touch_line w True y s = Some s'" and "windows s w = Some W" and "win_ok s w W" and "0 \<le> x" and "x \<le> maxx W"
  shows "marked s' w y x"
proof -
  have sh: "to_short 0 = 0" "to_short (maxx W) = maxx W"
    using win_okD [OF assms(3)] by (simp_all add: to_short_id)
  have "ldat_at W y \<noteq> None"
  proof
    assume "ldat_at W y = None"
    then have "touch_line w True y s = None" using assms(2) by (simp add: touch_line_def modl_def)
    then show False using assms(1) by simp
  qed
  then obtain l where l: "ldat_at W y = Some l" by blast
  let ?l = "l\<lparr>firstchar := 0, lastchar := maxx W\<rparr>"
  have "s' = set_win w (W\<lparr>lines := (lines W)[nat y := ?l]\<rparr>) s"
    using assms(1,2) l sh by (simp add: touch_line_def modl_def)
  moreover have "covers (mark ?l) x" using assms(4,5) by (simp add: mark_def NOCHANGE_def)
  ultimately show ?thesis by (auto simp: marked_def ldat_at_update [OF l])
qed

lemma evolves_marked:
  assumes "evolves u D s t" and "\<not> immediate s u" and "marked s w y x"
  shows "marked t w y x"
  using grown_marked [OF _ evolvesD(2) [OF assms(1)] assms(3)] assms(1,2) by (auto simp: evolves_def tracks_def)

lemma touch_loop_marks:
  assumes "evolves w D s0 s" and "windows s w = Some W" and "\<And>i. i \<in> set ys \<Longrightarrow> 0 \<le> i \<and> i \<le> maxy W"
  shows "ok (ofold (touch_line w True) ys s) (\<lambda>s'. evolves w D s0 s' \<and>
    (\<not> immediate s0 w \<longrightarrow> (\<forall>i \<in> set ys. \<forall>x. 0 \<le> x \<and> x \<le> maxx W \<longrightarrow> marked s' w i x)))"
proof -
  let ?I = "\<lambda>zs s'. evolves w D s0 s' \<and> steady s s' \<and>
    (\<not> immediate s0 w \<longrightarrow> (\<forall>i \<in> set zs. \<forall>x. 0 \<le> x \<and> x \<le> maxx W \<longrightarrow> marked s' w i x))"
  have "ok (ofold (touch_line w True) ys s) (?I ys)"
  proof (rule ok_ofold_upto)
    show "?I [] s" using assms(1) steady_refl [OF evolvesD(1) [OF assms(1)]] by simp
    fix zs i t assume pre: "prefix (zs @ [i]) ys" and I: "?I zs t"
    have i: "0 \<le> i" "i \<le> maxy W" using assms(3) [of i] set_mono_prefix [OF pre] by auto
    obtain W' where W': "windows t w = Some W'" "geom W' = geom W" "win_ok t w W'"
      using steady_winE [OF _ assms(2)] I by blast
    have m: "maxy W' = maxy W" "maxx W' = maxx W" using geomD [OF W'(2)] by simp_all
    have it: "inv t" using I by (auto dest: evolvesD(1))
    from ok_touch_line [OF evolves_refl [OF it, of w D] W'(1) i(1)] i(2) m(1) obtain t' where
      t': "touch_line w True i t = Some t'" "evolves w D t t'" by (auto elim: okE)
    have im: "immediate t = immediate s0" using I evolvesD(4) by blast
    have e: "evolves w D s0 t'" using evolves_trans [OF _ t'(2)] I by blast
    have "\<forall>j \<in> set (zs @ [i]). \<forall>x. 0 \<le> x \<and> x \<le> maxx W \<longrightarrow> marked t' w j x" if "\<not> immediate s0 w"
    proof (intro ballI allI impI)
      fix j x assume j: "j \<in> set (zs @ [i])" and x: "0 \<le> x \<and> x \<le> maxx W"
      show "marked t' w j x"
      proof (cases "j = i")
        case True
        then show ?thesis using touch_line_marks [OF t'(1) W'(1,3)] x m by simp
      next
        case False
        then have "marked t w j x" using j x I that by auto
        then show ?thesis using evolves_marked [OF t'(2)] im that by simp
      qed
    qed
    then show "ok (touch_line w True i t) (?I (zs @ [i]))"
      using t'(1) e steady_trans [OF _ evolves_steady [OF t'(2)]] I by auto
  qed
  then show ?thesis by (rule ok_mono) auto
qed

lemma ok_wtouchln_marks:
  assumes "evolves w D s0 s" and "windows s w = Some W" and "0 \<le> y" and "0 \<le> n" and "y + n \<le> maxy W + 1" and "y \<le> maxy W"
  shows "ok (wtouchln w y n True s) (\<lambda>(r, s'). evolves w D s0 s' \<and>
    (\<not> immediate s0 w \<longrightarrow> (\<forall>i x. y \<le> i \<and> i < y + n \<and> 0 \<le> x \<and> x \<le> maxx W \<longrightarrow> marked s' w i x)))"
proof -
  have k: "win_ok s w W" "w \<noteq> 0" using invD [OF evolvesD(1) [OF assms(1)] assms(2)] .
  have e: "chk (y + n) = Some (y + n)"
    using assms(3-5) win_okD [OF k(1)] by (intro chk_ok) (simp add: in_int_def)
  have mn: "min (y + n - 1) (maxy W) = y + n - 1" using assms(5) by simp
  have "ok (ofold (touch_line w True) [y..y + n - 1] s) (\<lambda>s'. evolves w D s0 s' \<and>
    (\<not> immediate s0 w \<longrightarrow> (\<forall>i \<in> set [y..y + n - 1]. \<forall>x. 0 \<le> x \<and> x \<le> maxx W \<longrightarrow> marked s' w i x)))"
    by (rule touch_loop_marks [OF assms(1,2)]) (use assms(3,5) in auto)
  then obtain s1 where s1: "ofold (touch_line w True) [y..y + n - 1] s = Some s1" and s1': "evolves w D s0 s1 \<and>
    (\<not> immediate s0 w \<longrightarrow> (\<forall>i \<in> set [y..y + n - 1]. \<forall>x. 0 \<le> x \<and> x \<le> maxx W \<longrightarrow> marked s1 w i x))"
    by (rule okE)
  have "wtouchln w y n True s = Some (OK, s1)"
    using k(2) assms(2-6) e mn s1 by (simp add: wtouchln_def)
  moreover have "marked s1 w i x" if "\<not> immediate s0 w" "y \<le> i" "i < y + n" "0 \<le> x" "x \<le> maxx W" for i x
    using s1' that by simp
  ultimately show ?thesis using s1' by simp
qed

end
