(* ===== verification/WinCells.thy ===== *)
theory WinCells
  imports WinSync
begin

text \<open>
  The contents of a window: \<open>wcell s w y x\<close> is the cell in row \<open>y\<close> and column \<open>x\<close> of the window
  \<open>w\<close>. The lemmas say what the three loops of the drawing operations do to the contents: writing
  a range of cells, and moving cells of a line to another line or along the line.
\<close>

definition wcell :: "nc \<Rightarrow> nat \<Rightarrow> int \<Rightarrow> int \<Rightarrow> chtype option" where
  "wcell s w y x = do {
     W \<leftarrow> windows s w;
     l \<leftarrow> ldat_at W y;
     if 0 \<le> x \<and> x \<le> maxx W then peek (ltext l) x s else None }"

lemma wcell_defined:
  assumes "inv s" and "windows s w = Some W" and "0 \<le> y" and "y \<le> maxy W" and "0 \<le> x" and "x \<le> maxx W"
  shows "\<exists>c. wcell s w y x = Some c"
proof -
  obtain l where l: "ldat_at W y = Some l" "row_ok s (maxx W) l"
    using win_ok_line [OF invD(1) [OF assms(1,2)] assms(3,4)] .
  then show ?thesis using peek_row [OF l(2) assms(5,6)] assms(2,5,6) by (simp add: wcell_def)
qed

lemma wcell_peek:
  "windows s w = Some W \<Longrightarrow> ldat_at W y = Some l \<Longrightarrow> 0 \<le> x \<Longrightarrow> x \<le> maxx W \<Longrightarrow> wcell s w y x = peek (ltext l) x s"
  by (simp add: wcell_def)

lemma wcell_outside: "windows s w = Some W \<Longrightarrow> \<not> (0 \<le> x \<and> x \<le> maxx W) \<Longrightarrow> wcell s w y x = None"
  by (cases "ldat_at W y") (auto simp: wcell_def)

lemma wcell_cong: "windows s' w = windows s w \<Longrightarrow> cells s' = cells s \<Longrightarrow> wcell s' w y x = wcell s w y x"
proof -
  assume a: "windows s' w = windows s w" "cells s' = cells s"
  have "peek p i s' = peek p i s" for p i using a(2) by (simp add: peek_def)
  then show "wcell s' w y x = wcell s w y x" using a(1) by (simp add: wcell_def cong: if_cong)
qed

lemma wcell_set_win:
  assumes "windows s w = Some W" and "map ltext (lines W') = map ltext (lines W)" and "maxx W' = maxx W"
  shows "wcell (set_win w W' s) w y x = wcell s w y x"
proof -
  have len: "length (lines W') = length (lines W)" using assms(2) by (rule map_eq_imp_length_eq)
  have "map_option ltext (ldat_at W' y) = map_option ltext (ldat_at W y)"
    using assms(2) len by (auto simp: ldat_at_def nat_less_iff) (metis nat_less_iff nth_map)
  then show ?thesis
    using assms(1,3) by (cases "ldat_at W' y"; cases "ldat_at W y") (auto simp: wcell_def peek_def)
qed

text \<open>Lines of a window are in different blocks.\<close>

lemma lines_disjoint:
  assumes "win_ok s w W" and "ldat_at W y = Some l" and "ldat_at W z = Some m" and "y \<noteq> z"
  shows "fst (ltext l) \<noteq> fst (ltext m)"
proof -
  have d: "distinct (map (\<lambda>l. fst (ltext l)) (lines W))" using assms(1) by (simp add: win_ok_def)
  have r: "0 \<le> y" "nat y < length (lines W)" "l = lines W ! nat y"
    "0 \<le> z" "nat z < length (lines W)" "m = lines W ! nat z"
    using ldat_at_range [OF assms(2)] ldat_at_range [OF assms(3)] by auto
  then have "nat y \<noteq> nat z" using assms(4) by simp
  then show ?thesis using nth_eq_iff_index_eq [OF d, of "nat y" "nat z"] r by simp
qed

lemma poke_result:
  assumes "poke p x c s = Some s'"
  obtains cs where "cells s (fst p) = Some cs" and "0 \<le> snd p + x" and "snd p + x < int (length cs)"
    and "s' = s\<lparr>cells := (cells s)(fst p \<mapsto> cs[nat (snd p + x) := c])\<rparr>"
  using assms by (auto simp: poke_def bind_eq_Some_conv split: if_splits)

lemma wcell_poke:
  assumes "poke (ltext l) x c s = Some s'" and "inv s" and "windows s w = Some W" and "ldat_at W y = Some l"
    and "0 \<le> x" and "x \<le> maxx W"
  shows "wcell s' w y' x' = (if y' = y \<and> x' = x then Some c else wcell s w y' x')"
    and "windows s' = windows s" and "inv s'"
proof -
  have k: "win_ok s w W" using invD(1) [OF assms(2,3)] .
  obtain cs where cs: "cells s (fst (ltext l)) = Some cs" "0 \<le> snd (ltext l) + x" "snd (ltext l) + x < int (length cs)"
    "s' = s\<lparr>cells := (cells s)(fst (ltext l) \<mapsto> cs[nat (snd (ltext l) + x) := c])\<rparr>"
    by (rule poke_result [OF assms(1)])
  show win: "windows s' = windows s" using cs(4) by simp
  have "ok (poke (ltext l) x c s) (\<lambda>s'. steady s s' \<and> windows s' = windows s)"
    by (rule ok_poke_steady [OF steady_refl [OF assms(2)] assms(3-6)])
  then show "inv s'" using assms(1) steadyD(1) by auto
  show "wcell s' w y' x' = (if y' = y \<and> x' = x then Some c else wcell s w y' x')"
  proof (cases "ldat_at W y'")
    case None
    then show ?thesis using win assms(3,4) by (auto simp: wcell_def)
  next
    case (Some m)
    show ?thesis
    proof (cases "y' = y")
      case True
      then have "m = l" using Some assms(4) by simp
      then show ?thesis
        using True Some win assms(3-6) cs
        by (auto simp: wcell_def peek_def nth_list_update nat_eq_iff)
    next
      case False
      then have "fst (ltext m) \<noteq> fst (ltext l)" using lines_disjoint [OF k Some assms(4)] by simp
      then show ?thesis using False Some win assms(3) cs(4) by (auto simp: wcell_def peek_def)
    qed
  qed
qed

lemma wcell_fill:
  assumes "ofold (\<lambda>x. poke (ltext l) x (f x)) xs s = Some s'" and "inv s" and "windows s w = Some W"
    and "ldat_at W y = Some l" and "\<And>x. x \<in> set xs \<Longrightarrow> 0 \<le> x \<and> x \<le> maxx W"
  shows "wcell s' w y' x' = (if y' = y \<and> x' \<in> set xs then Some (f x') else wcell s w y' x')
    \<and> windows s' = windows s \<and> inv s'"
  using assms
proof (induction xs arbitrary: s)
  case Nil
  then show ?case by simp
next
  case (Cons x xs)
  obtain s1 where s1: "poke (ltext l) x (f x) s = Some s1" "ofold (\<lambda>x. poke (ltext l) x (f x)) xs s1 = Some s'"
    using Cons.prems(1) by (auto simp: bind_eq_Some_conv)
  have x: "0 \<le> x" "x \<le> maxx W" using Cons.prems(5) by simp_all
  note p = wcell_poke [OF s1(1) Cons.prems(2-4) x]
  have "windows s1 w = Some W" using p(2) Cons.prems(3) by simp
  from Cons.IH [OF s1(2) p(3) this Cons.prems(4)] Cons.prems(5) show ?case
    using p(1) [of y' x'] p(2) by auto
qed

text \<open>
  A loop that fills column \<open>x\<close> with what \<open>h\<close> makes of column \<open>g x\<close> of line \<open>z\<close>. When both lines
  are the same, no column is read after it has been written.
\<close>

lemma wcell_move:
  assumes "ofold (\<lambda>x t. do { c \<leftarrow> peek (ltext m) (g x) t; poke (ltext l) x (h c) t }) xs s = Some s'"
    and "inv s" and "windows s w = Some W" and "ldat_at W y = Some l" and "ldat_at W z = Some m"
    and "\<And>x. x \<in> set xs \<Longrightarrow> 0 \<le> x \<and> x \<le> maxx W \<and> 0 \<le> g x \<and> g x \<le> maxx W"
    and "distinct xs" and "z \<noteq> y \<or> sorted_wrt (\<lambda>a b. g b \<noteq> a) xs"
  shows "wcell s' w y' x' = (if y' = y \<and> x' \<in> set xs then map_option h (wcell s w z (g x')) else wcell s w y' x')
    \<and> windows s' = windows s \<and> inv s'"
  using assms
proof (induction xs arbitrary: s)
  case Nil
  then show ?case by simp
next
  case (Cons x xs)
  let ?body = "\<lambda>x t. do { c \<leftarrow> peek (ltext m) (g x) t; poke (ltext l) x (h c) t }"
  obtain c s1 where s1: "peek (ltext m) (g x) s = Some c" "poke (ltext l) x (h c) s = Some s1"
    "ofold ?body xs s1 = Some s'"
    using Cons.prems(1) by (auto simp: bind_eq_Some_conv)
  have x: "0 \<le> x" "x \<le> maxx W" and gx: "0 \<le> g x" "g x \<le> maxx W" using Cons.prems(6) by simp_all
  note p = wcell_poke [OF s1(2) Cons.prems(2-4) x]
  have W1: "windows s1 w = Some W" using p(2) Cons.prems(3) by simp
  have src: "wcell s w z (g x) = Some c"
    using wcell_peek [OF Cons.prems(3,5) gx] s1(1) by simp
  have r: "wcell s' w y' x' = (if y' = y \<and> x' \<in> set xs then map_option h (wcell s1 w z (g x')) else wcell s1 w y' x')
      \<and> windows s' = windows s1 \<and> inv s'"
    by (rule Cons.IH [OF s1(3) p(3) W1 Cons.prems(4,5)]) (use Cons.prems(6-8) in auto)
  have keep: "wcell s1 w z (g x') = wcell s w z (g x')" if "x' \<in> set xs"
    using p(1) [of z "g x'"] Cons.prems(8) that by auto
  have nx: "x \<notin> set xs" using Cons.prems(7) by simp
  show ?case
  proof (cases "y' = y \<and> x' = x")
    case True
    then show ?thesis using r nx p(1) [of y' x'] p(2) src by simp
  next
    case False
    then show ?thesis using r p(1) [of y' x'] p(2) keep by auto
  qed
qed

section \<open>What the hook leaves alone\<close>

lemma syncup_line_frame:
  assumes "syncup_line wp y s = Some s'" and "windows s wp = Some W"
  shows "cells s' = cells s" "\<forall>v. v \<noteq> parent W \<longrightarrow> windows s' v = windows s v"
  using assms by (auto simp: syncup_line_def modl_def bind_eq_Some_conv split: if_splits)

lemma syncup_lines_frame:
  assumes "ofold (syncup_line wp) ys s = Some s'" and "windows s wp = Some W" and "parent W \<noteq> wp"
  shows "cells s' = cells s \<and> (\<forall>v. v \<noteq> parent W \<longrightarrow> windows s' v = windows s v)"
  using assms
proof (induction ys arbitrary: s)
  case Nil
  then show ?case by simp
next
  case (Cons y ys)
  obtain t where t: "syncup_line wp y s = Some t" "ofold (syncup_line wp) ys t = Some s'"
    using Cons.prems(1) by (auto simp: bind_eq_Some_conv)
  note f = syncup_line_frame [OF t(1) Cons.prems(2)]
  have "windows t wp = Some W" using f(2) Cons.prems(2,3) by (metis not_sym)
  then show ?case using Cons.IH [OF t(2) _ Cons.prems(3)] f by simp
qed

lemma ok_syncup_lines:
  assumes "inv s" and "windows s w = Some W" and "parent W \<noteq> 0"
  shows "ok (ofold (syncup_line w) [0..maxy W] s) (evolves w {} s)"
proof (rule ok_ofold)
  show "evolves w {} s s" by (rule evolves_refl [OF assms(1)])
  fix y t assume y: "y \<in> set [0..maxy W]" and t: "evolves w {} s t"
  obtain W' where W': "windows t w = Some W'" using evolves_winE [OF t assms(2)] .
  show "ok (syncup_line w y t) (evolves w {} s)"
    using evolves_bounds [OF t assms(2) W'] y assms(3) by (intro ok_syncup_line [OF t W']) auto
qed

lemma syncup_loop_frame:
  assumes "syncup_loop n w s = Some s'" and "inv s" and "w \<le> v"
  shows "cells s' = cells s \<and> windows s' v = windows s v"
  using assms
proof (induction n arbitrary: w s)
  case 0
  then show ?case by simp
next
  case (Suc n)
  obtain W where W: "windows s w = Some W" using Suc.prems(1) by (auto simp: bind_eq_Some_conv)
  show ?case
  proof (cases "parent W = 0")
    case True
    then show ?thesis using Suc.prems(1) W by simp
  next
    case False
    have k: "win_ok s w W" using invD(1) [OF Suc.prems(2) W] .
    then have pw: "parent W < w" using False by (simp add: win_ok_def in_parent_def)
    obtain s1 where s1: "ofold (syncup_line w) [0..maxy W] s = Some s1" "syncup_loop n (parent W) s1 = Some s'"
      using Suc.prems(1) W False by (auto simp: bind_eq_Some_conv)
    have i1: "inv s1" using ok_syncup_lines [OF Suc.prems(2) W False] s1(1) evolvesD(1) by simp
    have "cells s1 = cells s" "windows s1 v = windows s v"
      using syncup_lines_frame [OF s1(1) W] pw Suc.prems(3) by auto
    then show ?thesis using Suc.IH [OF s1(2) i1] pw Suc.prems(3) by simp
  qed
qed

text \<open>For a window that is not in immediate mode the hook only marks lines of its ancestors.\<close>

lemma synchook_frame:
  assumes "synchook du w s = Some s'" and "inv s" and "\<not> immediate s w"
  shows "cells s' = cells s" "windows s' w = windows s w"
proof -
  obtain W where W: "windows s w = Some W" using assms(1) by (auto simp: synchook_def bind_eq_Some_conv)
  have im: "\<not> immed W" using assms(3) W by (auto simp: immediate_def)
  have w0: "w \<noteq> 0" using invD(2) [OF assms(2) W] .
  have "cells s' = cells s \<and> windows s' w = windows s w"
  proof (cases "sync W")
    case True
    then have "syncup_loop (Suc (next_win s)) w s = Some s'"
      using assms(1) W im w0 by (simp add: synchook_def wsyncup_def del: syncup_loop.simps)
    then show ?thesis using syncup_loop_frame [OF _ assms(2) order_refl] by blast
  next
    case False
    then show ?thesis using assms(1) W im by (simp add: synchook_def)
  qed
  then show "cells s' = cells s" "windows s' w = windows s w" by simp_all
qed

lemma synchook_wcell:
  assumes "synchook du w s = Some s'" and "inv s" and "\<not> immediate s w"
  shows "wcell s' w y x = wcell s w y x"
  by (rule wcell_cong [OF synchook_frame(2) [OF assms] synchook_frame(1) [OF assms]])

section \<open>Steps that only change marks\<close>

lemma wcell_modl:
  assumes "modl v z f s = Some s'" and "\<And>l. ltext (f l) = ltext l"
  shows "wcell s' w y x = wcell s w y x"
proof -
  obtain W l where W: "windows s v = Some W" "ldat_at W z = Some l"
    "s' = set_win v (W\<lparr>lines := (lines W)[nat z := f l]\<rparr>) s"
    using assms(1) by (auto simp: modl_def bind_eq_Some_conv)
  show ?thesis
  proof (cases "w = v")
    case True
    have "map ltext ((lines W)[nat z := f l]) = map ltext (lines W)"
      using ldat_at_range [OF W(2)] assms(2) by (simp add: map_update list_update_same_conv)
    then show ?thesis unfolding True W(3) by (intro wcell_set_win [OF W(1)]) simp_all
  next
    case False
    then show ?thesis unfolding W(3) by (intro wcell_cong) simp_all
  qed
qed

lemma wcell_modw:
  assumes "modw v f s = Some s'" and "\<And>W. lines (f W) = lines W" and "\<And>W. maxx (f W) = maxx W"
  shows "wcell s' w y x = wcell s w y x"
proof -
  obtain W where W: "windows s v = Some W" "s' = set_win v (f W) s"
    using assms(1) by (auto simp: modw_def bind_eq_Some_conv)
  show ?thesis
  proof (cases "w = v")
    case True
    show ?thesis unfolding True W(2) by (rule wcell_set_win [OF W(1)]) (simp_all add: assms(2,3))
  next
    case False
    then show ?thesis unfolding W(2) by (intro wcell_cong) simp_all
  qed
qed

lemma wcell_touch_line: "touch_line v c i s = Some s' \<Longrightarrow> wcell s' w y x = wcell s w y x"
  by (auto simp: touch_line_def bind_eq_Some_conv elim!: wcell_modl)

lemma wcell_touch_lines: "ofold (touch_line v c) ys s = Some s' \<Longrightarrow> wcell s' w y x = wcell s w y x"
proof (induction ys arbitrary: s)
  case Nil
  then show ?case by simp
next
  case (Cons a ys)
  then show ?case using wcell_touch_line by (auto simp: bind_eq_Some_conv)
qed

lemma wcell_wtouchln: "wtouchln v z n c s = Some (r, s') \<Longrightarrow> wcell s' w y x = wcell s w y x"
  using wcell_touch_lines [of v c]
  by (auto simp: wtouchln_def bind_eq_Some_conv split: if_splits)

end
