(* ===== verification/WinShow.thy ===== *)
theory WinShow
  imports WinCells
begin

text \<open>
  What the change marks are for. A window is \<open>synced\<close> with the virtual screen when every cell
  that differs from its place on \<open>newscr\<close> is marked. Drawing keeps it so, because a cell that
  changes is marked; and \<open>wnoutrefresh\<close> of a synced window leaves the whole window on \<open>newscr\<close>.

  The locale \<open>window_op\<close> is the contract of the drawing operations: what they share is proved
  from it once, and the theories that define the operations interpret it.
\<close>

section \<open>Windows that share no cells\<close>

definition separate :: "nc \<Rightarrow> nat \<Rightarrow> nat \<Rightarrow> bool" where
  "separate s v w \<longleftrightarrow> (\<forall>V W y z l m. windows s v = Some V \<longrightarrow> windows s w = Some W \<longrightarrow>
     ldat_at V y = Some l \<longrightarrow> ldat_at W z = Some m \<longrightarrow> fst (ltext l) \<noteq> fst (ltext m))"

lemma separate_shape:
  assumes "shape t = shape s" and "separate s v w"
  shows "separate t v w"
  unfolding separate_def
proof (intro allI impI)
  fix V W y z l m
  assume a: "windows t v = Some V" "windows t w = Some W" "ldat_at V y = Some l" "ldat_at W z = Some m"
  note sh = assms(1) [symmetric]
  obtain V' where V: "windows s v = Some V'" "geom V' = geom V" using shape_winE [OF sh a(1)] .
  obtain W' where W: "windows s w = Some W'" "geom W' = geom W" using shape_winE [OF sh a(2)] .
  obtain l' where l: "ldat_at V' y = Some l'" "ltext l' = ltext l" using geom_ldat_at [OF V(2) a(3)] .
  obtain m' where m: "ldat_at W' z = Some m'" "ltext m' = ltext m" using geom_ldat_at [OF W(2) a(4)] .
  have "fst (ltext l') \<noteq> fst (ltext m')" using assms(2) V(1) W(1) l(1) m(1) unfolding separate_def by blast
  then show "fst (ltext l) \<noteq> fst (ltext m)" using l(2) m(2) by simp
qed

lemma peek_cell_at: "peek p x s = cell_at s (fst p) (snd p + x)"
  by (simp add: peek_def cell_at_def split: option.split)

lemma wcell_shape:
  assumes "shape t = shape s" and "windows s v = Some V" and "ldat_at V y = Some l" and "0 \<le> x" and "x \<le> maxx V"
  shows "wcell s v y x = cell_at s (fst (ltext l)) (snd (ltext l) + x)"
    and "wcell t v y x = cell_at t (fst (ltext l)) (snd (ltext l) + x)"
proof -
  show "wcell s v y x = cell_at s (fst (ltext l)) (snd (ltext l) + x)"
    using wcell_peek [OF assms(2-5)] by (simp add: peek_cell_at)
  obtain V' where V: "windows t v = Some V'" "geom V' = geom V" using shape_winE [OF assms(1,2)] .
  obtain l' where l: "ldat_at V' y = Some l'" "ltext l' = ltext l" using geom_ldat_at [OF V(2) assms(3)] .
  have "x \<le> maxx V'" using assms(5) geomD(2) [OF V(2)] by simp
  from wcell_peek [OF V(1) l(1) assms(4) this]
  show "wcell t v y x = cell_at t (fst (ltext l)) (snd (ltext l) + x)" by (simp add: peek_cell_at l(2))
qed

lemma wcell_none_shape:
  assumes "shape t = shape s" and "wcell s v y x = None" and "inv s" and "inv t"
  shows "wcell t v y x = None"
proof (rule ccontr)
  assume "wcell t v y x \<noteq> None"
  then obtain V l where V: "windows t v = Some V" "ldat_at V y = Some l" "0 \<le> x" "x \<le> maxx V"
    by (auto simp: wcell_def bind_eq_Some_conv split: if_splits)
  obtain V' where V': "windows s v = Some V'" "geom V' = geom V" using shape_winE [OF assms(1) [symmetric] V(1)] .
  obtain l' where l': "ldat_at V' y = Some l'" using geom_ldat_at [OF V'(2) V(2)] .
  have k: "win_ok s v V'" using invD(1) [OF assms(3) V'(1)] .
  have "l' \<in> set (lines V')" using ldat_at_range [OF l'] by auto
  then have "row_ok s (maxx V') l'" using k by (auto simp: win_ok_def)
  then have "peek (ltext l') x s \<noteq> None" using peek_row V(3,4) geomD(2) [OF V'(2)] by fastforce
  then show False using assms(2) wcell_peek [OF V'(1) l' V(3)] V(4) geomD(2) [OF V'(2)] by simp
qed

lemma wcell_SomeD:
  assumes "wcell s v y x = Some c"
  obtains V l where "windows s v = Some V" and "ldat_at V y = Some l" and "0 \<le> x" and "x \<le> maxx V"
  using assms by (auto simp: wcell_def bind_eq_Some_conv split: if_splits)

section \<open>Drawing and marks\<close>

lemma draws_elsewhere:
  assumes "draws w s t" and "inv s" and "\<not> immediate s w" and "separate s v w"
  shows "wcell t v y x = wcell s v y x"
proof (cases "wcell s v y x")
  case None
  then show ?thesis using wcell_none_shape [OF evolvesD(2) [OF assms(1)] None assms(2) evolvesD(1) [OF assms(1)]] by simp
next
  case (Some c)
  then obtain V l where V: "windows s v = Some V" "ldat_at V y = Some l" "0 \<le> x" "x \<le> maxx V" by (rule wcell_SomeD)
  note eq = wcell_shape [OF evolvesD(2) [OF assms(1)] V]
  have "cell_at t (fst (ltext l)) (snd (ltext l) + x) = cell_at s (fst (ltext l)) (snd (ltext l) + x)"
  proof (rule ccontr)
    assume "cell_at t (fst (ltext l)) (snd (ltext l) + x) \<noteq> cell_at s (fst (ltext l)) (snd (ltext l) + x)"
    moreover have "tracks w {} s t" using assms(1,3) by (simp add: evolves_def)
    ultimately obtain y' x' where "pos_of s w y' x' (fst (ltext l)) (snd (ltext l) + x)" unfolding tracks_def by blast
    then show False using assms(4) V(1,2) unfolding separate_def pos_of_def by blast
  qed
  then show ?thesis using eq by simp
qed

lemma draws_marks:
  assumes "draws w s t" and "inv s" and "\<not> immediate s w" and "wcell t w y x \<noteq> wcell s w y x"
  shows "marked t w y x"
proof (cases "wcell s w y x")
  case None
  then show ?thesis
    using wcell_none_shape [OF evolvesD(2) [OF assms(1)] None assms(2) evolvesD(1) [OF assms(1)]] assms(4) by simp
next
  case (Some c)
  then obtain W l where W: "windows s w = Some W" "ldat_at W y = Some l" "0 \<le> x" "x \<le> maxx W" by (rule wcell_SomeD)
  have "cell_at t (fst (ltext l)) (snd (ltext l) + x) \<noteq> cell_at s (fst (ltext l)) (snd (ltext l) + x)"
    using wcell_shape [OF evolvesD(2) [OF assms(1)] W] assms(4) by simp
  moreover have "tracks w {} s t" using assms(1,3) by (simp add: evolves_def)
  ultimately obtain y' x' where p: "pos_of s w y' x' (fst (ltext l)) (snd (ltext l) + x)" "marked t w y' x'"
    unfolding tracks_def by blast
  then obtain m where m: "ldat_at W y' = Some m" "fst (ltext m) = fst (ltext l)" "snd (ltext m) + x' = snd (ltext l) + x"
    using W(1) by (auto simp: pos_of_def)
  then have "y' = y" using lines_disjoint [OF invD(1) [OF assms(2) W(1)] m(1) W(2)] by blast
  then have "x' = x" using m W(2) by simp
  then show ?thesis using \<open>y' = y\<close> p(2) by simp
qed

text \<open>The part of a window that lies on the screen.\<close>

definition on_screen :: "nc \<Rightarrow> window \<Rightarrow> int \<Rightarrow> int \<Rightarrow> bool" where
  "on_screen s W y x \<longleftrightarrow> 0 \<le> y \<and> y \<le> maxy W \<and> 0 \<le> x \<and> x \<le> maxx W
     \<and> (\<exists>N. windows s (newscr s) = Some N \<and> y + begy W + yoffset W \<le> maxy N \<and> x + begx W \<le> maxx N)"

definition synced :: "nc \<Rightarrow> nat \<Rightarrow> bool" where
  "synced s w \<longleftrightarrow> (\<forall>W y x. windows s w = Some W \<longrightarrow> on_screen s W y x \<longrightarrow>
     marked s w y x \<or> wcell s (newscr s) (y + begy W + yoffset W) (x + begx W) = wcell s w y x)"

lemma on_screen_shape:
  assumes "shape t = shape s" and "geom V = geom W" and "on_screen t V y x"
  shows "on_screen s W y x"
proof -
  obtain N where N: "windows t (newscr t) = Some N" "y + begy V + yoffset V \<le> maxy N" "x + begx V \<le> maxx N"
    "0 \<le> y" "y \<le> maxy V" "0 \<le> x" "x \<le> maxx V" using assms(3) by (auto simp: on_screen_def)
  have ns: "newscr s = newscr t" using shape_consts [OF assms(1)] by simp
  obtain M where M: "windows s (newscr t) = Some M" "geom M = geom N" using shape_winE [OF assms(1) [symmetric] N(1)] .
  show ?thesis using N M ns geomD [OF assms(2)] geomD [OF M(2)] by (auto simp: on_screen_def)
qed

lemma draws_synced:
  assumes "draws w s t" and "inv s" and "\<not> immediate s w" and "separate s (newscr s) w" and "synced s w"
  shows "synced t w"
  unfolding synced_def
proof (intro allI impI)
  fix V y x assume V: "windows t w = Some V" "on_screen t V y x"
  have sh: "shape t = shape s" using evolvesD(2) [OF assms(1)] .
  have ns: "newscr t = newscr s" using shape_consts [OF sh] by simp
  obtain W where W: "windows s w = Some W" "geom W = geom V" using shape_winE [OF sh [symmetric] V(1)] .
  have os: "on_screen s W y x" using on_screen_shape [OF sh _ V(2)] W(2) by simp
  have b: "begy V = begy W" "begx V = begx W" "yoffset V = yoffset W" using geomD [OF W(2)] by simp_all
  have n: "wcell t (newscr s) z u = wcell s (newscr s) z u" for z u
    by (rule draws_elsewhere [OF assms(1-4)])
  consider "marked s w y x" | "wcell s (newscr s) (y + begy W + yoffset W) (x + begx W) = wcell s w y x"
    using assms(5) W(1) os unfolding synced_def by blast
  then show "marked t w y x \<or> wcell t (newscr t) (y + begy V + yoffset V) (x + begx V) = wcell t w y x"
  proof cases
    case 1
    then show ?thesis using evolves_marked [OF assms(1,3)] by simp
  next
    case 2
    then show ?thesis using draws_marks [OF assms(1-3), of y x] n b ns by auto
  qed
qed

section \<open>The contract of a drawing operation\<close>

text \<open>
  \<open>args_ok a\<close> are the arguments for which the operation is safe.
\<close>

locale window_op =
  fixes run :: "'a \<Rightarrow> updater \<Rightarrow> nat \<Rightarrow> nc \<Rightarrow> (int \<times> nc) option"
    and args_ok :: "'a \<Rightarrow> bool"
  assumes safe: "args_ok a \<Longrightarrow> du_ok du \<Longrightarrow> inv s \<Longrightarrow> windows s w = Some W \<Longrightarrow> w \<noteq> newscr s \<Longrightarrow>
    ok (run a du w s) (\<lambda>(r, s'). draws w s s')"
begin

lemma total:
  assumes "args_ok a" and "du_ok du" and "inv s" and "windows s w = Some W" and "w \<noteq> newscr s"
  shows "\<exists>r s'. run a du w s = Some (r, s') \<and> inv s' \<and> shape s' = shape s"
  using safe [OF assms] by (auto elim!: ok_pairE dest: evolvesD)

lemma result_draws:
  assumes "args_ok a" and "du_ok du" and "inv s" and "windows s w = Some W" and "w \<noteq> newscr s" and "run a du w s = Some (r, s')"
  shows "draws w s s'"
  using safe [OF assms(1-5)] assms(6) by simp

lemma changes_marked:
  assumes "args_ok a" and "du_ok du" and "inv s" and "windows s w = Some W" and "w \<noteq> newscr s" and "run a du w s = Some (r, s')"
    and "\<not> immed W" and "wcell s' w y x \<noteq> wcell s w y x"
  shows "marked s' w y x"
  using draws_marks [OF result_draws [OF assms(1-6)] assms(3) _ assms(8)] assms(4,7) by (auto simp: immediate_def)

lemma others_untouched:
  assumes "args_ok a" and "du_ok du" and "inv s" and "windows s w = Some W" and "w \<noteq> newscr s" and "run a du w s = Some (r, s')"
    and "\<not> immed W" and "separate s v w"
  shows "wcell s' v y x = wcell s v y x"
  using draws_elsewhere [OF result_draws [OF assms(1-6)] assms(3) _ assms(8)] assms(4,7) by (auto simp: immediate_def)

lemma keeps_synced:
  assumes "args_ok a" and "du_ok du" and "inv s" and "windows s w = Some W" and "w \<noteq> newscr s" and "run a du w s = Some (r, s')"
    and "\<not> immed W" and "separate s (newscr s) w" and "synced s w"
  shows "synced s' w"
  using draws_synced [OF result_draws [OF assms(1-6)] assms(3) _ assms(8,9)] assms(4,7) by (auto simp: immediate_def)

end

section \<open>Copying a window to the virtual screen\<close>

lemma refresh_cell_shows:
  assumes "refresh_cell w y z bx x s = Some t" and "inv s" and "windows s w = Some W" and "ldat_at W y = Some l"
    and "windows s (newscr s) = Some N" and "ldat_at N z = Some nln" and "w \<noteq> newscr s" and "separate s (newscr s) w"
    and "0 \<le> x" and "x \<le> maxx W" and "0 \<le> x + bx" and "x + bx \<le> maxx N"
  shows "windows t w = Some W \<and> (\<forall>y' x'. wcell t w y' x' = wcell s w y' x')
    \<and> (\<forall>z' x'. wcell t (newscr s) z' x' = (if z' = z \<and> x' = x + bx then wcell s w y x else wcell s (newscr s) z' x'))"
proof -
  obtain a b where ab: "peek (ltext l) x s = Some a" "peek (ltext nln) (x + bx) s = Some b"
    "(if a \<noteq> b then do { s1 \<leftarrow> poke (ltext nln) (x + bx) a s; modl (newscr s) z (changed_cell (x + bx)) s1 } else Some s) = Some t"
    using assms(1,3-6) by (auto simp: refresh_cell_def bind_eq_Some_conv)
  have wa: "wcell s w y x = Some a" using wcell_peek [OF assms(3,4,9,10)] ab(1) by simp
  have nb: "wcell s (newscr s) z (x + bx) = Some b" using wcell_peek [OF assms(5,6,11,12)] ab(2) by simp
  show ?thesis
  proof (cases "a = b")
    case True
    then show ?thesis using ab(3) assms(3) wa nb by auto
  next
    case False
    then obtain s1 where s1: "poke (ltext nln) (x + bx) a s = Some s1" "modl (newscr s) z (changed_cell (x + bx)) s1 = Some t"
      using ab(3) by (auto simp: bind_eq_Some_conv)
    note p = wcell_poke [OF s1(1) assms(2,5,6,11,12)]
    have g: "ltext (changed_cell (x + bx) m) = ltext m" for m by (simp add: changed_cell_def)
    have m: "wcell t v y' x' = wcell s1 v y' x'" for v y' x' by (rule wcell_modl [OF s1(2) g])
    have wt: "windows t w = Some W"
      using s1(2) assms(3,7) p(2) by (auto simp: modl_def bind_eq_Some_conv)
    have frame: "wcell s1 w y' x' = wcell s w y' x'" for y' x'
    proof (cases "ldat_at W y'")
      case None
      then show ?thesis using p(2) assms(3) by (simp add: wcell_def)
    next
      case (Some m)
      have ne: "fst (ltext nln) \<noteq> fst (ltext m)" using assms(3,5,6,8) Some unfolding separate_def by blast
      obtain cs where "s1 = s\<lparr>cells := (cells s)(fst (ltext nln) \<mapsto> cs)\<rparr>" using poke_result [OF s1(1)] by metis
      then have "peek (ltext m) x' s1 = peek (ltext m) x' s" using ne by (simp add: peek_def)
      then show ?thesis using Some p(2) assms(3) by (simp add: wcell_def cong: if_cong)
    qed
    show ?thesis using wt m frame p(1) wa by simp
  qed
qed

text \<open>The state of the windows while rows are copied: only \<open>newscr\<close>'s cells change.\<close>

lemma refresh_cells_shows:
  assumes "inv s" and "windows s w = Some W" and "ldat_at W y = Some l" and "windows s (newscr s) = Some N"
    and "ldat_at N z = Some nln" and "w \<noteq> newscr s" and "separate s (newscr s) w"
    and "\<And>x. x \<in> set xs \<Longrightarrow> 0 \<le> x \<and> x \<le> maxx W \<and> 0 \<le> x + bx \<and> x + bx \<le> maxx N"
  shows "ok (ofold (refresh_cell w y z bx) xs s) (\<lambda>t. steady s t \<and> windows t w = Some W
    \<and> (\<forall>y' x'. wcell t w y' x' = wcell s w y' x')
    \<and> (\<forall>z' x'. wcell t (newscr s) z' x' = (if z' = z \<and> x' - bx \<in> set xs then wcell s w y (x' - bx)
                 else wcell s (newscr s) z' x')))"
proof -
  let ?I = "\<lambda>zs t. steady s t \<and> windows t w = Some W
    \<and> (\<forall>y' x'. wcell t w y' x' = wcell s w y' x')
    \<and> (\<forall>z' x'. wcell t (newscr s) z' x' = (if z' = z \<and> x' - bx \<in> set zs then wcell s w y (x' - bx)
                 else wcell s (newscr s) z' x'))"
  show ?thesis
  proof (rule ok_ofold_upto [where I = ?I])
    show "?I [] s" using steady_refl [OF assms(1)] assms(2) by simp
    fix zs x t assume pre: "prefix (zs @ [x]) xs" and I: "?I zs t"
    have x: "0 \<le> x" "x \<le> maxx W" "0 \<le> x + bx" "x + bx \<le> maxx N" using assms(8) [of x] set_mono_prefix [OF pre] by auto
    have st: "steady s t" using I by blast
    have i: "inv t" and sh: "shape t = shape s" using steadyD [OF st] by simp_all
    have ns: "newscr t = newscr s" using shape_consts [OF sh] by simp
    have W: "windows t w = Some W" using I by blast
    obtain N' where N': "windows t (newscr t) = Some N'" "geom N' = geom N" using shape_winE [OF sh assms(4)] ns by metis
    obtain nln' where nln': "ldat_at N' z = Some nln'" using geom_ldat_at [OF N'(2) assms(5)] .
    have mN: "x + bx \<le> maxx N'" using x(4) geomD(2) [OF N'(2)] by simp
    have wn: "w \<noteq> newscr t" using assms(6) ns by simp
    have sep: "separate t (newscr t) w" using separate_shape [OF sh assms(7)] ns by simp
    have "ok (refresh_cell w y z bx x t) (steady s)"
      by (rule ok_refresh_cell [OF st W assms(3) N'(1) nln' x(1-3) mN])
    then obtain u where u: "refresh_cell w y z bx x t = Some u" "steady s u" by (rule okE)
    note f = refresh_cell_shows [OF u(1) i W assms(3) N'(1) nln' wn sep x(1-3) mN]
    have src: "wcell t w y x = wcell s w y x" using I by blast
    have "wcell u (newscr s) z' x' = (if z' = z \<and> x' - bx \<in> set (zs @ [x]) then wcell s w y (x' - bx)
            else wcell s (newscr s) z' x')" for z' x'
    proof (cases "z' = z \<and> x' = x + bx")
      case True
      then show ?thesis using f ns src by simp
    next
      case False
      then have "wcell u (newscr s) z' x' = wcell t (newscr s) z' x'" using f ns by auto
      moreover have "x' - bx \<in> set (zs @ [x]) \<longleftrightarrow> x' - bx \<in> set zs" if "z' = z" using False that by auto
      ultimately show ?thesis using I by auto
    qed
    moreover have "wcell u w y' x' = wcell s w y' x'" for y' x' using f I by simp
    ultimately show "ok (refresh_cell w y z bx x t) (?I (zs @ [x]))" using u f by simp
  qed
qed

lemma marked_None [simp]: "mark (l\<lparr>firstchar := NOCHANGE, lastchar := b\<rparr>) = NoChange"
  by (simp add: mark_def)

lemma refresh_row_shows:
  assumes "inv s" and "windows s w = Some W" and "windows s (newscr s) = Some N" and "w \<noteq> newscr s"
    and "separate s (newscr s) w" and "0 \<le> y" and "y \<le> maxy W" and "0 \<le> by" and "y + by \<le> maxy N" and "0 \<le> bx"
    and "lim \<le> maxx W" and "lim + bx \<le> maxx N"
  shows "ok (refresh_row w lim bx by y s) (\<lambda>t. steady s t
    \<and> (\<exists>W'. windows t w = Some W' \<and> (\<exists>ls. W' = W\<lparr>lines := ls\<rparr>) \<and> (\<forall>y'. y' \<noteq> y \<longrightarrow> ldat_at W' y' = ldat_at W y'))
    \<and> (\<forall>x. \<not> marked t w y x)
    \<and> (\<forall>y' x'. wcell t w y' x' = wcell s w y' x')
    \<and> (\<forall>z x'. wcell t (newscr s) z x' =
          (if z = y + by \<and> marked s w y (x' - bx) \<and> x' - bx \<le> lim then wcell s w y (x' - bx)
           else wcell s (newscr s) z x')))"
proof -
  have k: "win_ok s w W" "win_ok s (newscr s) N" using invD(1) [OF assms(1)] assms(2,3) by blast+
  obtain l where l: "ldat_at W y = Some l" "mark_ok (maxx W) l" using win_ok_line [OF k(1) assms(6,7)] .
  have z: "0 \<le> y + by" using assms(6,8) by simp
  obtain nln where nln: "ldat_at N (y + by) = Some nln" using win_ok_line [OF k(2) z assms(9)] .
  let ?last = "if lastchar l > lim then lim else lastchar l"
  define xs where "xs = (if firstchar l \<noteq> NOCHANGE then [firstchar l..?last] else [])"
  have xs: "0 \<le> x \<and> x \<le> maxx W \<and> 0 \<le> x + bx \<and> x + bx \<le> maxx N" if "x \<in> set xs" for x
    using that l(2) assms(10-12) by (auto simp: xs_def mark_ok_def split: if_splits)
  have cov: "x \<in> set xs \<longleftrightarrow> marked s w y x \<and> x \<le> lim" for x
    using l(2) by (auto simp: xs_def marked_line [OF assms(2) l(1)] mark_def NOCHANGE_def)
  have "ok (ofold (refresh_cell w y (y + by) bx) xs s) (\<lambda>t. steady s t \<and> windows t w = Some W
    \<and> (\<forall>y' x'. wcell t w y' x' = wcell s w y' x')
    \<and> (\<forall>z' x'. wcell t (newscr s) z' x' = (if z' = y + by \<and> x' - bx \<in> set xs then wcell s w y (x' - bx)
                 else wcell s (newscr s) z' x')))"
    by (rule refresh_cells_shows [OF assms(1,2) l(1) assms(3) nln assms(4,5) xs])
  then obtain s1 where s1: "ofold (refresh_cell w y (y + by) bx) xs s = Some s1" and I: "steady s s1 \<and> windows s1 w = Some W
    \<and> (\<forall>y' x'. wcell s1 w y' x' = wcell s w y' x')
    \<and> (\<forall>z' x'. wcell s1 (newscr s) z' x' = (if z' = y + by \<and> x' - bx \<in> set xs then wcell s w y (x' - bx)
                 else wcell s (newscr s) z' x'))" by (rule okE)
  let ?f = "\<lambda>l. l\<lparr>firstchar := NOCHANGE, lastchar := NOCHANGE\<rparr>"
  let ?W = "W\<lparr>lines := (lines W)[nat y := ?f l]\<rparr>"
  have st1: "steady s s1" and W1: "windows s1 w = Some W" using I by blast+
  have "ok (modl w y ?f s1) (\<lambda>s'. steady s s' \<and> s' = set_win w ?W s1)"
    by (rule ok_modl_steady [OF st1 W1 l(1)]) (simp_all add: mark_ok_def)
  then obtain t where t: "modl w y ?f s1 = Some t" "steady s t" "t = set_win w ?W s1" by (rule ok_conjE)
  have run: "refresh_row w lim bx by y s = Some t"
    using assms(2) l(1) s1 t(1) by (auto simp: refresh_row_def xs_def Let_def)
  have ft: "wcell t v y' x' = wcell s1 v y' x'" for v y' x' by (rule wcell_modl [OF t(1)]) simp
  have Wt: "windows t w = Some ?W" using t(3) by simp
  have "\<not> marked t w y x" for x by (simp add: marked_line [OF Wt] ldat_at_update [OF l(1)])
  moreover have "\<forall>y'. y' \<noteq> y \<longrightarrow> ldat_at ?W y' = ldat_at W y'" by (simp add: ldat_at_update [OF l(1)])
  ultimately show ?thesis using run t(2) Wt ft I cov by auto
qed

lemma refresh_rows_shows:
  assumes "inv s" and "windows s w = Some W" and "windows s (newscr s) = Some N" and "w \<noteq> newscr s"
    and "separate s (newscr s) w" and "0 \<le> by" and "0 \<le> bx" and "lim \<le> maxx W" and "lim + bx \<le> maxx N"
    and "distinct ys" and "\<And>y. y \<in> set ys \<Longrightarrow> 0 \<le> y \<and> y \<le> maxy W \<and> y + by \<le> maxy N"
  shows "ok (ofold (refresh_row w lim bx by) ys s) (\<lambda>t. steady s t
    \<and> (\<exists>W'. windows t w = Some W' \<and> (\<exists>ls. W' = W\<lparr>lines := ls\<rparr>) \<and> (\<forall>y. y \<notin> set ys \<longrightarrow> ldat_at W' y = ldat_at W y))
    \<and> (\<forall>y \<in> set ys. \<forall>x. \<not> marked t w y x)
    \<and> (\<forall>y x. wcell t w y x = wcell s w y x)
    \<and> (\<forall>y x. wcell t (newscr s) (y + by) (x + bx) =
          (if y \<in> set ys \<and> marked s w y x \<and> x \<le> lim then wcell s w y x
           else wcell s (newscr s) (y + by) (x + bx))))"
proof -
  let ?I = "\<lambda>zs t. steady s t
    \<and> (\<exists>W'. windows t w = Some W' \<and> (\<exists>ls. W' = W\<lparr>lines := ls\<rparr>) \<and> (\<forall>y. y \<notin> set zs \<longrightarrow> ldat_at W' y = ldat_at W y))
    \<and> (\<forall>y \<in> set zs. \<forall>x. \<not> marked t w y x)
    \<and> (\<forall>y x. wcell t w y x = wcell s w y x)
    \<and> (\<forall>y x. wcell t (newscr s) (y + by) (x + bx) =
          (if y \<in> set zs \<and> marked s w y x \<and> x \<le> lim then wcell s w y x
           else wcell s (newscr s) (y + by) (x + bx)))"
  show ?thesis
  proof (rule ok_ofold_upto [where I = ?I])
    show "?I [] s" using steady_refl [OF assms(1)] assms(2) by (intro conjI exI [of _ W] exI [of _ "lines W"]) auto
    fix zs y t assume pre: "prefix (zs @ [y]) ys" and I: "?I zs t"
    have y: "0 \<le> y" "y \<le> maxy W" "y + by \<le> maxy N" using assms(11) [of y] set_mono_prefix [OF pre] by auto
    have nz: "y \<notin> set zs" using pre assms(10) by (auto simp: prefix_def)
    have st: "steady s t" using I by blast
    have i: "inv t" and sh: "shape t = shape s" using steadyD [OF st] by simp_all
    have ns: "newscr t = newscr s" using shape_consts [OF sh] by simp
    obtain W' ls where W': "windows t w = Some W'" "W' = W\<lparr>lines := ls\<rparr>" "\<forall>y. y \<notin> set zs \<longrightarrow> ldat_at W' y = ldat_at W y"
      using I by blast
    obtain N' where N': "windows t (newscr t) = Some N'" "geom N' = geom N" using shape_winE [OF sh assms(3)] ns by metis
    have b: "maxx W' = maxx W" "maxy W' = maxy W" "maxx N' = maxx N" "maxy N' = maxy N"
      using W'(2) geomD [OF N'(2)] by simp_all
    have wn: "w \<noteq> newscr t" using assms(4) ns by simp
    have sep: "separate t (newscr t) w" using separate_shape [OF sh assms(5)] ns by simp
    have "ok (refresh_row w lim bx by y t) (\<lambda>u. steady t u
      \<and> (\<exists>W''. windows u w = Some W'' \<and> (\<exists>ls. W'' = W'\<lparr>lines := ls\<rparr>) \<and> (\<forall>y'. y' \<noteq> y \<longrightarrow> ldat_at W'' y' = ldat_at W' y'))
      \<and> (\<forall>x. \<not> marked u w y x)
      \<and> (\<forall>y' x'. wcell u w y' x' = wcell t w y' x')
      \<and> (\<forall>z x'. wcell u (newscr t) z x' =
            (if z = y + by \<and> marked t w y (x' - bx) \<and> x' - bx \<le> lim then wcell t w y (x' - bx)
             else wcell t (newscr t) z x')))"
      by (rule refresh_row_shows [OF i W'(1) N'(1) wn sep y(1) _ assms(6) _ assms(7)]) (use y b assms(8,9) in auto)
    then obtain u where u: "refresh_row w lim bx by y t = Some u" and J: "steady t u
      \<and> (\<exists>W''. windows u w = Some W'' \<and> (\<exists>ls. W'' = W'\<lparr>lines := ls\<rparr>) \<and> (\<forall>y'. y' \<noteq> y \<longrightarrow> ldat_at W'' y' = ldat_at W' y'))
      \<and> (\<forall>x. \<not> marked u w y x)
      \<and> (\<forall>y' x'. wcell u w y' x' = wcell t w y' x')
      \<and> (\<forall>z x'. wcell u (newscr t) z x' =
            (if z = y + by \<and> marked t w y (x' - bx) \<and> x' - bx \<le> lim then wcell t w y (x' - bx)
             else wcell t (newscr t) z x'))" by (rule okE)
    obtain W'' ls' where W'': "windows u w = Some W''" "W'' = W'\<lparr>lines := ls'\<rparr>" "\<forall>y'. y' \<noteq> y \<longrightarrow> ldat_at W'' y' = ldat_at W' y'"
      using J by blast
    have mk: "marked t w y x = marked s w y x" for x
      using W'(1,3) assms(2) nz by (simp add: marked_def)
    have old: "\<not> marked u w j x" if "j \<in> set zs" for j x
      using W''(1,3) W'(1) I that nz by (metis marked_def option.inject)
    have c1: "steady s u" using steady_trans [OF st] J by blast
    have c2: "\<exists>W''. windows u w = Some W'' \<and> (\<exists>ls. W'' = W\<lparr>lines := ls\<rparr>) \<and> (\<forall>j. j \<notin> set (zs @ [y]) \<longrightarrow> ldat_at W'' j = ldat_at W j)"
      using W'' W' by auto
    have c3: "\<forall>j \<in> set (zs @ [y]). \<forall>x. \<not> marked u w j x" using old J by auto
    have c4: "\<forall>j x. wcell u w j x = wcell s w j x" using I J by simp
    have c5: "wcell u (newscr s) (j + by) (x + bx) =
          (if j \<in> set (zs @ [y]) \<and> marked s w j x \<and> x \<le> lim then wcell s w j x
           else wcell s (newscr s) (j + by) (x + bx))" for j x
      using I J ns mk nz by auto
    show "ok (refresh_row w lim bx by y t) (?I (zs @ [y]))" using u c1 c2 c3 c4 c5 by (simp del: set_append)
  qed
qed

text \<open>
  The main fact: refreshing a synced window puts all of it that fits on the screen onto \<open>newscr\<close>,
  leaves its own contents alone, and leaves it synced.
\<close>

lemma wcell_set_win_same:
  assumes "windows s v = Some V" and "lines (f V) = lines V" and "maxx (f V) = maxx V"
  shows "wcell (set_win v (f V) s) w y x = wcell s w y x"
proof (cases "w = v")
  case True
  show ?thesis unfolding True by (rule wcell_set_win [OF assms(1)]) (simp_all add: assms(2,3))
next
  case False
  then show ?thesis by (intro wcell_cong) simp_all
qed

lemma wnoutrefresh_shows:
  assumes "inv s" and "windows s w = Some W" and "parent W = 0" and "w \<noteq> newscr s" and "\<not> has_flag (flags W) F_ISPAD"
    and "separate s (newscr s) w" and "synced s w"
  shows "\<exists>t. wnoutrefresh w s = Some (OK, t) \<and> steady s t
    \<and> (\<forall>y x. on_screen s W y x \<longrightarrow> wcell t (newscr s) (y + begy W + yoffset W) (x + begx W) = wcell s w y x)
    \<and> (\<forall>y x. wcell t w y x = wcell s w y x)
    \<and> (\<forall>y x. on_screen s W y x \<longrightarrow> \<not> marked t w y x)"
proof -
  have w0: "w \<noteq> 0" using invD(2) [OF assms(1,2)] .
  have st0: "steady s s" by (rule steady_refl [OF assms(1)])
  have k: "win_ok s w W" using invD(1) [OF assms(1,2)] .
  obtain N where N: "windows s (newscr s) = Some N" using assms(1) by (auto simp: inv_def)
  let ?f1 = "\<lambda>N. N\<lparr>bkgd := bkgd W, attrs := attrs W\<rparr>"
  obtain s1 where s1: "modw (newscr s) ?f1 s = Some s1" "steady s s1" "s1 = set_win (newscr s) (?f1 N) s"
    using ok_modw_steadyI [where f = ?f1, OF st0 N] by auto
  have W1: "windows s1 w = Some W" using s1(3) assms(2,4) by simp
  have sd: "wsyncdown w s1 = Some s1" by (rule wsyncdown_root [OF W1 assms(3)])
  let ?f3 = "\<lambda>W. W\<lparr>flags := flags W AND NOT F_HASMOVED\<rparr>"
  obtain s3 where s3: "modw w ?f3 s1 = Some s3" "steady s s3" "s3 = set_win w (?f3 W) s1"
    using ok_modw_steadyI [where f = ?f3, OF s1(2) W1] by auto
  have ns: "newscr s3 = newscr s" using s1(3) s3(3) by simp
  let ?W = "?f3 W" and ?N = "?f1 N"
  have W3: "windows s3 w = Some ?W" using s3(3) by simp
  have N1: "windows s1 (newscr s) = Some ?N" using s1(3) by simp
  have N3: "windows s3 (newscr s3) = Some ?N" using s3(3) N1 assms(4) ns by simp
  have c3: "wcell s3 v y x = wcell s v y x" for v y x
  proof -
    have "wcell s3 v y x = wcell s1 v y x" unfolding s3(3) by (rule wcell_set_win_same [where f = ?f3, OF W1]) simp_all
    also have "\<dots> = wcell s v y x" unfolding s1(3) by (rule wcell_set_win_same [where f = ?f1, OF N]) simp_all
    finally show ?thesis .
  qed
  have l3: "ldat_at ?W y = ldat_at W y" for y by (simp add: ldat_at_def cong: if_cong)
  have mk3: "marked s3 w y x = marked s w y x" for y x using W3 assms(2) l3 by (simp add: marked_def)
  have sep3: "separate s3 (newscr s3) w" using separate_shape [OF steadyD(2) [OF s3(2)] assms(6)] ns by simp
  let ?lim = "if maxx ?W > maxx ?N - begx W then maxx ?N - begx W else maxx ?W"
  define by' where "by' = begy W + yoffset W"
  define ys where "ys = [0..min (maxy W) (maxy N - by')]"
  have b: "0 \<le> by'" "0 \<le> begx W" using win_okD [OF k] by (simp_all add: by'_def)
  have wn3: "w \<noteq> newscr s3" using assms(4) ns by simp
  have "ok (ofold (refresh_row w ?lim (begx W) by') ys s3) (\<lambda>t. steady s3 t
    \<and> (\<exists>W'. windows t w = Some W' \<and> (\<exists>ls. W' = ?W\<lparr>lines := ls\<rparr>) \<and> (\<forall>y. y \<notin> set ys \<longrightarrow> ldat_at W' y = ldat_at ?W y))
    \<and> (\<forall>y \<in> set ys. \<forall>x. \<not> marked t w y x)
    \<and> (\<forall>y x. wcell t w y x = wcell s3 w y x)
    \<and> (\<forall>y x. wcell t (newscr s3) (y + by') (x + begx W) =
          (if y \<in> set ys \<and> marked s3 w y x \<and> x \<le> ?lim then wcell s3 w y x
           else wcell s3 (newscr s3) (y + by') (x + begx W))))"
    by (rule refresh_rows_shows [OF steadyD(1) [OF s3(2)] W3 N3 wn3 sep3 b(1,2)]) (auto simp: ys_def)
  then obtain s4 where s4: "ofold (refresh_row w ?lim (begx W) by') ys s3 = Some s4" and I: "steady s3 s4
    \<and> (\<exists>W'. windows s4 w = Some W' \<and> (\<exists>ls. W' = ?W\<lparr>lines := ls\<rparr>) \<and> (\<forall>y. y \<notin> set ys \<longrightarrow> ldat_at W' y = ldat_at ?W y))
    \<and> (\<forall>y \<in> set ys. \<forall>x. \<not> marked s4 w y x)
    \<and> (\<forall>y x. wcell s4 w y x = wcell s3 w y x)
    \<and> (\<forall>y x. wcell s4 (newscr s3) (y + by') (x + begx W) =
          (if y \<in> set ys \<and> marked s3 w y x \<and> x \<le> ?lim then wcell s3 w y x
           else wcell s3 (newscr s3) (y + by') (x + begx W)))" by (rule okE)
  have st4: "steady s s4" using steady_trans [OF s3(2)] I by blast
  obtain W4 ls where W4: "windows s4 w = Some W4" "W4 = ?W\<lparr>lines := ls\<rparr>" using I by blast
  \<comment> \<open>the rest only sets flags and the cursor of \<open>newscr\<close>\<close>
  define rest where "rest = (\<lambda>t. steady s t \<and> (\<forall>v y x. wcell t v y x = wcell s4 v y x)
    \<and> (\<forall>y x. marked t w y x = marked s4 w y x))"
  have step: "\<exists>t'. modw v f t = Some t' \<and> rest t'" if t: "rest t" and v: "v = w \<or> v = newscr t"
    and g: "\<And>V. geom (f V) = geom V" "\<And>V. lines (f V) = lines V" "\<And>V. immed (f V) = immed V"
    and p: "\<And>V. windows t v = Some V \<Longrightarrow> win_ok t v V \<Longrightarrow> win_ok t v (f V)" for t v f
  proof -
    have st: "steady s t" using t by (simp add: rest_def)
    have sh: "shape t = shape s" using steadyD(2) [OF st] .
    have "\<exists>V. windows t w = Some V" using shape_winE [OF sh assms(2)] by metis
    moreover have "\<exists>V. windows t (newscr t) = Some V" using steadyD(1) [OF st] by (auto simp: inv_def)
    ultimately obtain V where V: "windows t v = Some V" using v by blast
    obtain t' where t': "modw v f t = Some t'" "steady s t'" "t' = set_win v (f V) t"
      using ok_modw_steadyI [where f = f, OF st V g(1) p [OF V] g(3)] by blast
    have "wcell t' u y x = wcell t u y x" for u y x
      unfolding t'(3) by (rule wcell_set_win_same [where f = f, OF V g(2)]) (use geomD(2) [OF g(1)] in simp)
    moreover have "ldat_at (f V) y = ldat_at V y" for y using g(2) by (simp add: ldat_at_def)
    then have "marked t' w y x = marked t w y x" for y x using V t'(3) by (simp add: marked_def)
    ultimately show ?thesis using t t'(1,2) by (simp add: rest_def)
  qed
  have r4: "rest s4" using st4 by (simp add: rest_def)
  have "\<exists>s5. (if clearf W4 then do { t \<leftarrow> modw w (\<lambda>W. W\<lparr>clearf := False\<rparr>) s4; modw (newscr t) (\<lambda>N. N\<lparr>clearf := True\<rparr>) t }
      else Some s4) = Some s5 \<and> rest s5"
  proof (cases "clearf W4")
    case True
    obtain t where t: "modw w (\<lambda>W. W\<lparr>clearf := False\<rparr>) s4 = Some t" "rest t"
      using step [of s4 w "\<lambda>W. W\<lparr>clearf := False\<rparr>", OF r4] by auto
    then show ?thesis using True step [of t "newscr t" "\<lambda>W. W\<lparr>clearf := True\<rparr>", OF t(2)] by auto
  qed (simp add: r4)
  then obtain s5 where s5: "(if clearf W4 then do { t \<leftarrow> modw w (\<lambda>W. W\<lparr>clearf := False\<rparr>) s4; modw (newscr t) (\<lambda>N. N\<lparr>clearf := True\<rparr>) t }
      else Some s4) = Some s5" "rest s5" by blast
  have ex: "\<exists>V. windows t w = Some V" if "rest t" for t
    using that shape_winE [OF _ assms(2)] steadyD(2) unfolding rest_def by metis
  obtain W5 where W5: "windows s5 w = Some W5" using ex [OF s5(2)] by blast
  let ?f6 = "\<lambda>N. N\<lparr>cury := to_short (cury W5 + begy W5 + yoffset W5), curx := to_short (curx W5 + begx W5)\<rparr>"
  have "\<exists>s6. (if \<not> leaveok W5 then modw (newscr s5) ?f6 s5 else Some s5) = Some s6 \<and> rest s6"
  proof (cases "leaveok W5")
    case False
    then show ?thesis using step [of s5 "newscr s5" ?f6, OF s5(2)] win_ok_newscr_cursor [of s5] by auto
  qed (simp add: s5(2))
  then obtain s6 where s6: "(if \<not> leaveok W5 then modw (newscr s5) ?f6 s5 else Some s5) = Some s6" "rest s6" by blast
  obtain W6 where W6: "windows s6 w = Some W6" using ex [OF s6(2)] by blast
  obtain s7 where s7: "modw (newscr s6) (\<lambda>N. N\<lparr>leaveok := leaveok W6\<rparr>) s6 = Some s7" "rest s7"
    using step [of s6 "newscr s6" "\<lambda>N. N\<lparr>leaveok := leaveok W6\<rparr>", OF s6(2)] by auto
  have run: "wnoutrefresh w s = Some (OK, s7)"
    using assms(2,5) w0 s1(1) sd s3(1) W3 N3 s4 W4(1) s5(1) W5 s6(1) W6 s7(1)
    by (simp add: wnoutrefresh_def Let_def ys_def by'_def)
  have os: "y \<in> set ys \<and> x \<le> ?lim" if "on_screen s W y x" for y x
    using that N by (auto simp: on_screen_def ys_def by'_def)
  have "wcell s7 (newscr s) (y + begy W + yoffset W) (x + begx W) = wcell s w y x" if o: "on_screen s W y x" for y x
  proof -
    have "wcell s7 (newscr s) (y + begy W + yoffset W) (x + begx W) = wcell s4 (newscr s) (y + by') (x + begx W)"
      using s7(2) by (simp add: rest_def by'_def add.assoc)
    also have "\<dots> = (if marked s w y x then wcell s w y x else wcell s (newscr s) (y + by') (x + begx W))"
      using I os [OF o] ns mk3 c3 by simp
    also have "\<dots> = wcell s w y x"
      using assms(2,7) o unfolding synced_def by'_def by (auto simp: add.assoc)
    finally show ?thesis .
  qed
  moreover have "wcell s7 w y x = wcell s w y x" for y x using s7(2) I c3 by (simp add: rest_def)
  moreover have "\<not> marked s7 w y x" if "on_screen s W y x" for y x
    using s7(2) I os [OF that] by (simp add: rest_def)
  ultimately show ?thesis using run s7(2) by (auto simp: rest_def)
qed

end
