(* ===== verification/WinDemo.thy ===== *)
theory WinDemo
  imports WinShow
begin

text \<open>
  A small screen, on which the properties of the window library are evaluated: two rows of five
  columns, with \<open>newscr\<close>, \<open>curscr\<close> and a window of the size of the screen, each with cells of
  its own, and a terminal driver that does nothing.
\<close>

definition demo_lines :: "nat \<Rightarrow> ldat list" where
  "demo_lines b = [\<lparr>ltext = (b, 0), firstchar = - 1, lastchar = - 1\<rparr>, \<lparr>ltext = (b + 1, 0), firstchar = - 1, lastchar = - 1\<rparr>]"

definition demo_win :: "nat \<Rightarrow> window" where
  "demo_win b = \<lparr>cury = 0, curx = 0, maxy = 1, maxx = 4, begy = 0, begx = 0, flags = 0, attrs = 0, bkgd = BLANK,
     notimeout = False, clearf = False, leaveok = False, scrollf = True, idlok = False, idcok = True,
     immed = False, sync = False, use_keypad = True, delay = - 1, lines = demo_lines b,
     regtop = 0, regbottom = 1, parx = - 1, pary = - 1, parent = 0,
     pad = \<lparr>pad_y = - 1, pad_x = - 1, pad_top = - 1, pad_left = - 1, pad_bottom = - 1, pad_right = - 1\<rparr>, yoffset = 0\<rparr>"

definition demo :: nc where
  "demo = \<lparr>windows = [1 \<mapsto> demo_win 0, 2 \<mapsto> demo_win 2, 3 \<mapsto> demo_win 4],
     cells = (\<lambda>b. if b < 6 then Some (replicate 5 BLANK) else None), next_win = 4, next_cells = 6,
     windowlist = [3, 2, 1], curscr = 2, newscr = 1, stdscr = 3, screen_lines = 2, screen_columns = 5,
     lines_avail = 2, topstolen = 0, tabsize = 8, legacy_coding = 0, acs_map = (\<lambda>c. of_nat c), calloc_max = 1000,
     pair_limit = 0, oldhash = None, inp = demo_input\<rparr>"

definition idle :: updater where "idle s = Some (OK, s)"

lemma du_ok_idle: "du_ok idle"
  by (simp add: du_ok_def idle_def steady_refl)

lemma demo_win_ok: "b \<in> {0, 2, 4} \<Longrightarrow> win_ok demo w (demo_win b)"
  by (auto simp: win_ok_def demo_win_def demo_lines_def demo_def row_ok_def mark_ok_def NOCHANGE_def)

lemma demo_windows: "windows demo w = (if w = 1 then Some (demo_win 0) else if w = 2 then Some (demo_win 2)
    else if w = 3 then Some (demo_win 4) else None)"
  by (simp add: demo_def)

lemma inv_demo: "inv demo"
proof -
  have "w < next_win demo \<and> win_ok demo w W" if "windows demo w = Some W" for w W
    using that demo_win_ok by (auto simp: demo_windows split: if_splits) (simp_all add: demo_def)
  moreover have "set (windowlist demo) = dom (windows demo)"
    by (auto simp: demo_windows demo_def dom_def)
  ultimately show ?thesis
    by (auto simp: inv_def demo_windows) (auto simp: demo_def split: if_splits)
qed

lemma demo_stdscr: "windows demo 3 = Some (demo_win 4)" "newscr demo = 1" "(3::nat) \<noteq> newscr demo"
  by (simp_all add: demo_def)

lemma demo_fields [simp]:
  "curx (demo_win b) = 0" "cury (demo_win b) = 0" "maxx (demo_win b) = 4" "maxy (demo_win b) = 1"
  "immed (demo_win b) = False" "parent (demo_win b) = 0" "sync (demo_win b) = False" "scrollf (demo_win b) = True"
  "regtop (demo_win b) = 0" "regbottom (demo_win b) = 1" "flags (demo_win b) = 0" "attrs (demo_win b) = 0"
  "bkgd (demo_win b) = BLANK" "begy (demo_win b) = 0" "begx (demo_win b) = 0" "yoffset (demo_win b) = 0"
  by (simp_all add: demo_win_def)

lemma demo_separate: "separate demo (newscr demo) 3"
  by (auto simp: separate_def demo_windows demo_stdscr demo_win_def demo_lines_def ldat_at_def nth_Cons' split: if_splits)

lemma demo_wcell: "w \<in> {1, 2, 3} \<Longrightarrow> 0 \<le> y \<Longrightarrow> y \<le> 1 \<Longrightarrow> 0 \<le> x \<Longrightarrow> x \<le> 4 \<Longrightarrow> wcell demo w y x = Some BLANK"
  by (auto simp: wcell_def demo_windows demo_win_def demo_lines_def ldat_at_def nth_Cons' peek_def demo_def)

lemma demo_synced: "synced demo 3"
proof -
  have "on_screen demo (demo_win 4) y x \<Longrightarrow> 0 \<le> y \<and> y \<le> 1 \<and> 0 \<le> x \<and> x \<le> 4" for y x
    by (simp add: on_screen_def)
  then show ?thesis using demo_wcell [of 1] demo_wcell [of 3] by (auto simp: synced_def demo_stdscr)
qed

end
