(* ===== verification/WinScroll.thy ===== *)
theory WinScroll
  imports WinDemo
begin

text \<open>
  Scrolling and clearing (\<open>lib_scroll.c\<close>, \<open>lib_clreol.c\<close>, \<open>lib_clrbot.c\<close>, \<open>lib_erase.c\<close>,
  \<open>lib_clear.c\<close> of \<open>ncurses/base\<close>). \<open>memcpy\<close> of a line and the loops over the cells of a line are
  loops over its columns. The lemmas \<open>ok_...\<close> say of each operation that it stays within the
  window's lines, keeps the invariant and marks every cell it changes.
\<close>

section \<open>Scrolling\<close>

definition copy_line :: "nat \<Rightarrow> int \<Rightarrow> int \<Rightarrow> nc \<Rightarrow> nc option" where
  "copy_line w src dst s = do {
     W \<leftarrow> windows s w;
     ld \<leftarrow> ldat_at W dst;
     ls \<leftarrow> ldat_at W src;
     ofold (\<lambda>x t. do { c \<leftarrow> peek (ltext ls) x t; poke (ltext ld) x c t }) [0..maxx W] s }"

definition fill_line :: "nat \<Rightarrow> chtype \<Rightarrow> int \<Rightarrow> nc \<Rightarrow> nc option" where
  "fill_line w blank line s = do {
     W \<leftarrow> windows s w;
     l \<leftarrow> ldat_at W line;
     ofold (\<lambda>x. poke (ltext l) x blank) [0..maxx W] s }"

definition scroll_down_part :: "nat \<Rightarrow> int \<Rightarrow> int \<Rightarrow> int \<Rightarrow> chtype \<Rightarrow> int \<Rightarrow> nc \<Rightarrow> nc option" where
  "scroll_down_part w n tp bt blank my s = do {
     limit \<leftarrow> chk (tp - n);
     s1 \<leftarrow> ofold (\<lambda>line. copy_line w (line + n) line) (rev [max limit (max 0 tp)..bt]) s;
     ofold (fill_line w blank) [tp..min (limit - 1) (min my bt)] s1 }"

definition scroll_up_part :: "nat \<Rightarrow> int \<Rightarrow> int \<Rightarrow> int \<Rightarrow> chtype \<Rightarrow> int \<Rightarrow> nc \<Rightarrow> nc option" where
  "scroll_up_part w n tp bt blank my s = do {
     limit \<leftarrow> chk (bt - n);
     s1 \<leftarrow> ofold (\<lambda>line. copy_line w (line + n) line) [tp..min limit (min my bt)] s;
     ofold (fill_line w blank) (rev [max (limit + 1) (max 0 tp)..bt]) s1 }"

definition nc_scroll_window :: "nat \<Rightarrow> int \<Rightarrow> int \<Rightarrow> int \<Rightarrow> chtype \<Rightarrow> nc \<Rightarrow> nc option" where
  "nc_scroll_window w n tp bt blank s = do {
     W \<leftarrow> windows s w;
     if tp < 0 \<or> bt < tp \<or> bt > maxy W then Some s
     else do {
       s1 \<leftarrow> (if n < 0 then scroll_down_part w n tp bt blank (maxy W) s else Some s);
       s2 \<leftarrow> (if n > 0 then scroll_up_part w n tp bt blank (maxy W) s1 else Some s1);
       (r, s3) \<leftarrow> touchline w tp (bt - tp + 1) s2;
       Some s3 } }"

definition wscrl :: "updater \<Rightarrow> nat \<Rightarrow> int \<Rightarrow> nc \<Rightarrow> (int \<times> nc) option" where
  "wscrl du w n s =
     (if w = 0 then Some (ERR, s)
      else do {
        W \<leftarrow> windows s w;
        if \<not> scrollf W then Some (ERR, s)
        else if n \<noteq> 0 then do {
          s1 \<leftarrow> nc_scroll_window w n (regtop W) (regbottom W) (bkgd W) s;
          s2 \<leftarrow> synchook du w s1;
          Some (OK, s2) }
        else Some (OK, s) })"

section \<open>Clearing\<close>

definition wclrtoeol :: "updater \<Rightarrow> nat \<Rightarrow> nc \<Rightarrow> (int \<times> nc) option" where
  "wclrtoeol du w s =
     (if w = 0 then Some (ERR, s)
      else do {
        W \<leftarrow> windows s w;
        (let y = cury W; x = curx W in do {
           s1 \<leftarrow> (if has_flag (flags W) F_WRAPPED \<and> y < maxy W
                  then modw w (\<lambda>W. W\<lparr>flags := flags W AND NOT F_WRAPPED\<rparr>) s else Some s);
           W1 \<leftarrow> windows s1 w;
           if has_flag (flags W1) F_WRAPPED \<or> y > maxy W1 \<or> x > maxx W1 then Some (ERR, s1)
           else do {
             l \<leftarrow> ldat_at W1 y;
             s2 \<leftarrow> modl w y (changed_to_eol x (maxx W1)) s1;
             s3 \<leftarrow> ofold (\<lambda>i. poke (ltext l) i (bkgd W1)) [x..maxx W1] s2;
             s4 \<leftarrow> synchook du w s3;
             Some (OK, s4) } }) })"

definition clear_row :: "nat \<Rightarrow> chtype \<Rightarrow> int \<Rightarrow> int \<Rightarrow> nc \<Rightarrow> nc option" where
  "clear_row w blank startx y s = do {
     W \<leftarrow> windows s w;
     l \<leftarrow> ldat_at W y;
     s1 \<leftarrow> modl w y (changed_to_eol startx (maxx W)) s;
     ofold (\<lambda>x. poke (ltext l) x blank) [startx..maxx W] s1 }"

definition wclrtobot :: "updater \<Rightarrow> nat \<Rightarrow> nc \<Rightarrow> (int \<times> nc) option" where
  "wclrtobot du w s =
     (if w = 0 then Some (ERR, s)
      else do {
        W \<leftarrow> windows s w;
        s1 \<leftarrow> ofold (\<lambda>y. clear_row w (bkgd W) (if y = cury W then curx W else 0) y) [cury W..maxy W] s;
        s2 \<leftarrow> synchook du w s1;
        Some (OK, s2) })"

definition erase_row :: "nat \<Rightarrow> chtype \<Rightarrow> int \<Rightarrow> nc \<Rightarrow> nc option" where
  "erase_row w blank y s = do {
     W \<leftarrow> windows s w;
     l \<leftarrow> ldat_at W y;
     s1 \<leftarrow> ofold (\<lambda>x. poke (ltext l) x blank) [0..maxx W] s;
     modl w y (\<lambda>l. l\<lparr>firstchar := 0, lastchar := maxx W\<rparr>) s1 }"

definition werase :: "updater \<Rightarrow> nat \<Rightarrow> nc \<Rightarrow> (int \<times> nc) option" where
  "werase du w s =
     (if w = 0 then Some (ERR, s)
      else do {
        W \<leftarrow> windows s w;
        s1 \<leftarrow> ofold (erase_row w (bkgd W)) [0..maxy W] s;
        s2 \<leftarrow> modw w (\<lambda>W. W\<lparr>curx := 0, cury := 0, flags := flags W AND NOT F_WRAPPED\<rparr>) s1;
        s3 \<leftarrow> synchook du w s2;
        Some (OK, s3) })"

definition wclear :: "updater \<Rightarrow> nat \<Rightarrow> nc \<Rightarrow> (int \<times> nc) option" where
  "wclear du w s = do {
     (code, s1) \<leftarrow> werase du w s;
     if code \<noteq> ERR then do { s2 \<leftarrow> modw w (\<lambda>W. W\<lparr>clearf := True\<rparr>) s1; Some (code, s2) }
     else Some (code, s1) }"

section \<open>Safety of scrolling\<close>

lemma ok_copy_line:
  assumes "evolves w D s0 s" and "windows s w = Some W" and "0 \<le> src" and "src \<le> maxy W"
    and "0 \<le> dst" and "dst \<le> maxy W" and "\<And>x. (dst, x) \<in> D"
  shows "ok (copy_line w src dst s) (\<lambda>s'. evolves w D s0 s' \<and> windows s' = windows s)"
proof -
  have k: "win_ok s w W" using invD(1) [OF evolvesD(1) [OF assms(1)] assms(2)] .
  obtain l where l: "ldat_at W dst = Some l" using win_ok_line [OF k assms(5,6)] .
  obtain m where m: "ldat_at W src = Some m" using win_ok_line [OF k assms(3,4)] .
  have "ok (ofold (\<lambda>x t. do { c \<leftarrow> peek (ltext m) x t; poke (ltext l) x c t }) [0..maxx W] s)
      (\<lambda>s'. evolves w D s0 s' \<and> windows s' = windows s)"
    by (rule ok_copy_loop [OF assms(1,2) l m]) (use assms(7) in simp_all)
  then show ?thesis using assms(2) l m by (simp add: copy_line_def del: ok_bind)
qed

lemma ok_fill_line:
  assumes "evolves w D s0 s" and "windows s w = Some W" and "0 \<le> y" and "y \<le> maxy W" and "\<And>x. (y, x) \<in> D"
  shows "ok (fill_line w blank y s) (\<lambda>s'. evolves w D s0 s' \<and> windows s' = windows s)"
proof -
  have k: "win_ok s w W" using invD(1) [OF evolvesD(1) [OF assms(1)] assms(2)] .
  obtain l where l: "ldat_at W y = Some l" using win_ok_line [OF k assms(3,4)] .
  have "ok (ofold (\<lambda>x. poke (ltext l) x blank) [0..maxx W] s) (\<lambda>s'. evolves w D s0 s' \<and> windows s' = windows s)"
    by (rule ok_poke_loop [OF assms(1,2) l]) (use assms(5) in simp_all)
  then show ?thesis using assms(2) l by (simp add: fill_line_def del: ok_bind)
qed

text \<open>A loop whose steps leave the windows' descriptions alone.\<close>

lemma ok_rows:
  assumes "evolves w D s0 s" and "windows s w = Some W"
    and "\<And>y t. y \<in> set ys \<Longrightarrow> evolves w D s0 t \<Longrightarrow> windows t w = Some W \<Longrightarrow>
           ok (f y t) (\<lambda>s'. evolves w D s0 s' \<and> windows s' = windows t)"
  shows "ok (ofold f ys s) (\<lambda>s'. evolves w D s0 s' \<and> windows s' = windows s)"
proof (rule ok_ofold)
  show "evolves w D s0 s \<and> windows s = windows s" using assms(1) by simp
  fix y t assume y: "y \<in> set ys" and t: "evolves w D s0 t \<and> windows t = windows s"
  from assms(3) [OF y conjunct1 [OF t]] t assms(2)
  show "ok (f y t) (\<lambda>s'. evolves w D s0 s' \<and> windows s' = windows s)" by simp
qed

lemma ok_scroll_down:
  assumes "evolves w D s0 s" and "windows s w = Some W" and "0 \<le> tp" and "tp \<le> bt" and "bt \<le> maxy W"
    and "n < 0" and "- (2 ^ 31 - 32768) < n" and "\<And>y x. tp \<le> y \<Longrightarrow> y \<le> bt \<Longrightarrow> (y, x) \<in> D"
  shows "ok (scroll_down_part w n tp bt blank (maxy W) s) (\<lambda>s'. evolves w D s0 s' \<and> windows s' = windows s)"
proof -
  have k: "win_ok s w W" using invD(1) [OF evolvesD(1) [OF assms(1)] assms(2)] .
  have c: "chk (tp - n) = Some (tp - n)"
    using assms(3-7) win_okD [OF k] by (intro chk_ok) (simp add: in_int_def)
  have mx: "max (tp - n) (max 0 tp) = tp - n" using assms(3,6) by simp
  have "ok (ofold (\<lambda>line. copy_line w (line + n) line) (rev [tp - n..bt]) s)
      (\<lambda>s'. evolves w D s0 s' \<and> windows s' = windows s)"
    by (rule ok_rows [OF assms(1,2)], rule ok_copy_line) (use assms(3-6,8) in auto)
  then obtain s1 where s1: "ofold (\<lambda>line. copy_line w (line + n) line) (rev [tp - n..bt]) s = Some s1"
    "evolves w D s0 s1" "windows s1 = windows s" by (rule ok_conjE)
  have W1: "windows s1 w = Some W" using s1(3) assms(2) by simp
  have "ok (ofold (fill_line w blank) [tp..min (tp - n - 1) (min (maxy W) bt)] s1)
      (\<lambda>s'. evolves w D s0 s' \<and> windows s' = windows s1)"
    by (rule ok_rows [OF s1(2) W1], rule ok_fill_line) (use assms(3-6,8) in auto)
  then show ?thesis using c s1(1,3) mx by (simp add: scroll_down_part_def)
qed

lemma ok_scroll_up:
  assumes "evolves w D s0 s" and "windows s w = Some W" and "0 \<le> tp" and "tp \<le> bt" and "bt \<le> maxy W"
    and "0 < n" and "n < 2 ^ 31" and "\<And>y x. tp \<le> y \<Longrightarrow> y \<le> bt \<Longrightarrow> (y, x) \<in> D"
  shows "ok (scroll_up_part w n tp bt blank (maxy W) s) (\<lambda>s'. evolves w D s0 s' \<and> windows s' = windows s)"
proof -
  have k: "win_ok s w W" using invD(1) [OF evolvesD(1) [OF assms(1)] assms(2)] .
  have c: "chk (bt - n) = Some (bt - n)"
    using assms(3-7) win_okD [OF k] by (intro chk_ok) (simp add: in_int_def)
  have "ok (ofold (\<lambda>line. copy_line w (line + n) line) [tp..min (bt - n) (min (maxy W) bt)] s)
      (\<lambda>s'. evolves w D s0 s' \<and> windows s' = windows s)"
    by (rule ok_rows [OF assms(1,2)], rule ok_copy_line) (use assms(3-6,8) in auto)
  then obtain s1 where s1: "ofold (\<lambda>line. copy_line w (line + n) line) [tp..min (bt - n) (min (maxy W) bt)] s = Some s1"
    "evolves w D s0 s1" "windows s1 = windows s" by (rule ok_conjE)
  have W1: "windows s1 w = Some W" using s1(3) assms(2) by simp
  have "ok (ofold (fill_line w blank) (rev [max (bt - n + 1) (max 0 tp)..bt]) s1)
      (\<lambda>s'. evolves w D s0 s' \<and> windows s' = windows s1)"
    by (rule ok_rows [OF s1(2) W1], rule ok_fill_line) (use assms(3-6,8) in auto)
  then show ?thesis using c s1(1,3) by (simp add: scroll_up_part_def)
qed

lemma ok_nc_scroll_window:
  assumes "draws w s0 s" and "windows s w = Some W" and "- (2 ^ 31 - 32768) < n" and "n < 2 ^ 31"
  shows "ok (nc_scroll_window w n tp bt blank s) (draws w s0)"
proof (cases "tp < 0 \<or> bt < tp \<or> bt > maxy W")
  case True
  then show ?thesis using assms(1,2) by (simp add: nc_scroll_window_def)
next
  case False
  then have r: "0 \<le> tp" "tp \<le> bt" "bt \<le> maxy W" by auto
  let ?D = "{p. tp \<le> fst p \<and> fst p \<le> bt} :: (int \<times> int) set"
  have e: "evolves w ?D s s" by (rule evolves_refl [OF evolvesD(1) [OF assms(1)]])
  have "ok (if n < 0 then scroll_down_part w n tp bt blank (maxy W) s else Some s)
      (\<lambda>s'. evolves w ?D s s' \<and> windows s' = windows s)"
    using ok_scroll_down [OF e assms(2) r _ assms(3)] e by auto
  then obtain s1 where s1: "(if n < 0 then scroll_down_part w n tp bt blank (maxy W) s else Some s) = Some s1"
    "evolves w ?D s s1" "windows s1 = windows s" by (rule ok_conjE)
  have W1: "windows s1 w = Some W" using s1(3) assms(2) by simp
  have "ok (if n > 0 then scroll_up_part w n tp bt blank (maxy W) s1 else Some s1)
      (\<lambda>s'. evolves w ?D s s' \<and> windows s' = windows s)"
    using ok_scroll_up [OF s1(2) W1 r _ assms(4)] s1(2,3) by auto
  then obtain s2 where s2: "(if n > 0 then scroll_up_part w n tp bt blank (maxy W) s1 else Some s1) = Some s2"
    "evolves w ?D s s2" "windows s2 = windows s" by (rule ok_conjE)
  have W2: "windows s2 w = Some W" using s2(3) assms(2) by simp
  have k: "win_ok s w W" using invD(1) [OF evolvesD(1) [OF assms(1)] assms(2)] .
  from ok_wtouchln_marks [OF s2(2) W2 r(1), of "bt - tp + 1"] r
  have "ok (wtouchln w tp (bt - tp + 1) True s2) (\<lambda>(r, s'). evolves w ?D s s' \<and>
      (\<not> immediate s w \<longrightarrow> (\<forall>i x. tp \<le> i \<and> i < tp + (bt - tp + 1) \<and> 0 \<le> x \<and> x \<le> maxx W \<longrightarrow> marked s' w i x)))"
    by simp
  then obtain c s3 where s3: "wtouchln w tp (bt - tp + 1) True s2 = Some (c, s3)" and e3: "evolves w ?D s s3"
    "\<not> immediate s w \<longrightarrow> (\<forall>i x. tp \<le> i \<and> i < tp + (bt - tp + 1) \<and> 0 \<le> x \<and> x \<le> maxx W \<longrightarrow> marked s3 w i x)"
    by (rule ok_pair_conjE)
  have "draws w s s3"
  proof (rule evolves_discharge [OF _ assms(2)])
    show "evolves w ?D s s3" by (rule e3(1))
    fix y x assume "(y, x) \<in> ?D" "\<not> immediate s w" "0 \<le> x" "x \<le> maxx W"
    then show "marked s3 w y x" using e3(2) by simp
  qed
  then have "draws w s0 s3" using evolves_trans [OF assms(1)] by blast
  then show ?thesis using False assms(2) s1(1) s2(1) s3 by (simp add: nc_scroll_window_def touchline_def)
qed

section \<open>What scrolling does to the rows\<close>

lemma copy_line_rows:
  assumes "copy_line w src dst s = Some s'" and "inv s" and "windows s w = Some W" and "src \<noteq> dst"
  shows "wcell s' w y x = (if y = dst then wcell s w src x else wcell s w y x)"
    and "windows s' = windows s" and "inv s'"
proof -
  obtain l m where lm: "ldat_at W dst = Some l" "ldat_at W src = Some m"
    "ofold (\<lambda>x t. do { c \<leftarrow> peek (ltext m) x t; poke (ltext l) x c t }) [0..maxx W] s = Some s'"
    using assms(1,3) by (auto simp: copy_line_def bind_eq_Some_conv)
  have r: "wcell s' w y x = (if y = dst \<and> x \<in> set [0..maxx W] then map_option (\<lambda>c. c) (wcell s w src x)
      else wcell s w y x) \<and> windows s' = windows s \<and> inv s'" for y x
    by (rule wcell_move [OF lm(3) assms(2,3) lm(1,2)]) (use assms(4) in auto)
  show "windows s' = windows s" "inv s'" using r by blast+
  then have "windows s' w = Some W" using assms(3) by simp
  then show "wcell s' w y x = (if y = dst then wcell s w src x else wcell s w y x)"
    using r [of y x] wcell_outside [of s' w W x y] wcell_outside [OF assms(3), of x]
    by (cases "0 \<le> x \<and> x \<le> maxx W") (auto simp: option.map_ident)
qed

lemma fill_line_rows:
  assumes "fill_line w blank dst s = Some s'" and "inv s" and "windows s w = Some W"
  shows "wcell s' w y x = (if y = dst \<and> 0 \<le> x \<and> x \<le> maxx W then Some blank else wcell s w y x)"
    and "windows s' = windows s" and "inv s'"
proof -
  obtain l where l: "ldat_at W dst = Some l" "ofold (\<lambda>x. poke (ltext l) x blank) [0..maxx W] s = Some s'"
    using assms(1,3) by (auto simp: fill_line_def bind_eq_Some_conv)
  have r: "wcell s' w y x = (if y = dst \<and> x \<in> set [0..maxx W] then Some blank else wcell s w y x)
      \<and> windows s' = windows s \<and> inv s'" for y x
    by (rule wcell_fill [OF l(2) assms(2,3) l(1)]) simp
  show "windows s' = windows s" "inv s'" using r by blast+
  show "wcell s' w y x = (if y = dst \<and> 0 \<le> x \<and> x \<le> maxx W then Some blank else wcell s w y x)"
    using r [of y x] by simp
qed

lemma copy_lines_rows:
  assumes "ofold (\<lambda>line. copy_line w (line + n) line) ys s = Some s'" and "inv s" and "windows s w = Some W"
    and "n \<noteq> 0" and "distinct ys" and "sorted_wrt (\<lambda>a b. b + n \<noteq> a) ys"
  shows "wcell s' w y x = (if y \<in> set ys then wcell s w (y + n) x else wcell s w y x)
    \<and> windows s' = windows s \<and> inv s'"
  using assms
proof (induction ys arbitrary: s)
  case Nil
  then show ?case by simp
next
  case (Cons a ys)
  obtain t where t: "copy_line w (a + n) a s = Some t" "ofold (\<lambda>line. copy_line w (line + n) line) ys t = Some s'"
    using Cons.prems(1) by (auto simp: bind_eq_Some_conv)
  have "a + n \<noteq> a" using assms(4) by simp
  note c = copy_line_rows [OF t(1) Cons.prems(2,3) this]
  have "windows t w = Some W" using c(2) Cons.prems(3) by simp
  note r = Cons.IH [OF t(2) c(3) this Cons.prems(4)]
  have a: "a \<notin> set ys" "\<forall>b \<in> set ys. b + n \<noteq> a" using Cons.prems(5,6) by auto
  have "wcell t w (y + n) x = wcell s w (y + n) x" if "y \<in> set ys"
    using c(1) [of "y + n" x] a(2) that by simp
  moreover have "wcell t w y x = (if y = a then wcell s w (a + n) x else wcell s w y x)" by (rule c(1))
  ultimately show ?case using r Cons.prems(5,6) c(2) a(1) by auto
qed

lemma fill_lines_rows:
  assumes "ofold (fill_line w blank) ys s = Some s'" and "inv s" and "windows s w = Some W"
  shows "wcell s' w y x = (if y \<in> set ys \<and> 0 \<le> x \<and> x \<le> maxx W then Some blank else wcell s w y x)
    \<and> windows s' = windows s \<and> inv s'"
  using assms
proof (induction ys arbitrary: s)
  case Nil
  then show ?case by simp
next
  case (Cons a ys)
  obtain t where t: "fill_line w blank a s = Some t" "ofold (fill_line w blank) ys t = Some s'"
    using Cons.prems(1) by (auto simp: bind_eq_Some_conv)
  note c = fill_line_rows [OF t(1) Cons.prems(2,3)]
  have "windows t w = Some W" using c(2) Cons.prems(3) by simp
  from Cons.IH [OF t(2) c(3) this] show ?case using c(1) [of y x] c(2) by auto
qed

lemma sorted_wrt_upto: "sorted_wrt (<) [a..b::int]"
  by (simp add: sorted_wrt_iff_nth_less)

text \<open>Row \<open>y\<close> of the region gets the contents of row \<open>y + n\<close>, or the blank.\<close>

definition scrolled :: "nc \<Rightarrow> nat \<Rightarrow> int \<Rightarrow> int \<Rightarrow> int \<Rightarrow> chtype \<Rightarrow> int \<Rightarrow> int \<Rightarrow> chtype option" where
  "scrolled s w n tp bt blank y x =
     (if y < tp \<or> bt < y then wcell s w y x
      else if tp \<le> y + n \<and> y + n \<le> bt then wcell s w (y + n) x else Some blank)"

lemma scroll_up_rows:
  assumes "scroll_up_part w n tp bt blank (maxy W) s = Some s'" and "inv s" and "windows s w = Some W"
    and "0 \<le> tp" and "tp \<le> bt" and "bt \<le> maxy W" and "0 < n" and "0 \<le> x" and "x \<le> maxx W"
  shows "wcell s' w y x = scrolled s w n tp bt blank y x \<and> windows s' = windows s \<and> inv s'"
proof -
  obtain s1 where s1: "chk (bt - n) = Some (bt - n)"
    "ofold (\<lambda>line. copy_line w (line + n) line) [tp..min (bt - n) (min (maxy W) bt)] s = Some s1"
    "ofold (fill_line w blank) (rev [max (bt - n + 1) (max 0 tp)..bt]) s1 = Some s'"
    using assms(1) by (auto simp: scroll_up_part_def bind_eq_Some_conv chk_def split: if_splits)
  have sd: "sorted_wrt (\<lambda>a b. b + n \<noteq> a) [tp..min (bt - n) (min (maxy W) bt)]"
    by (rule sorted_wrt_mono_rel [OF _ sorted_wrt_upto]) (use assms(7) in auto)
  have c: "wcell s1 w y x = (if y \<in> set [tp..min (bt - n) (min (maxy W) bt)] then wcell s w (y + n) x else wcell s w y x)
    \<and> windows s1 = windows s \<and> inv s1" for y x
    by (rule copy_lines_rows [OF s1(2) assms(2,3) _ _ sd]) (use assms(7) in auto)
  have "windows s1 w = Some W" "inv s1" using c assms(3) by auto
  from fill_lines_rows [OF s1(3) this(2,1), of y x] c [of y x] assms(4-9) show ?thesis
    by (auto simp: scrolled_def)
qed

lemma scroll_down_rows:
  assumes "scroll_down_part w n tp bt blank (maxy W) s = Some s'" and "inv s" and "windows s w = Some W"
    and "0 \<le> tp" and "tp \<le> bt" and "bt \<le> maxy W" and "n < 0" and "0 \<le> x" and "x \<le> maxx W"
  shows "wcell s' w y x = scrolled s w n tp bt blank y x \<and> windows s' = windows s \<and> inv s'"
proof -
  obtain s1 where s1: "chk (tp - n) = Some (tp - n)"
    "ofold (\<lambda>line. copy_line w (line + n) line) (rev [max (tp - n) (max 0 tp)..bt]) s = Some s1"
    "ofold (fill_line w blank) [tp..min (tp - n - 1) (min (maxy W) bt)] s1 = Some s'"
    using assms(1) by (auto simp: scroll_down_part_def bind_eq_Some_conv chk_def split: if_splits)
  have sd: "sorted_wrt (\<lambda>a b. b + n \<noteq> a) (rev [max (tp - n) (max 0 tp)..bt])"
    unfolding sorted_wrt_rev
    by (rule sorted_wrt_mono_rel [OF _ sorted_wrt_upto]) (use assms(7) in auto)
  have c: "wcell s1 w y x = (if y \<in> set (rev [max (tp - n) (max 0 tp)..bt]) then wcell s w (y + n) x else wcell s w y x)
    \<and> windows s1 = windows s \<and> inv s1" for y x
    by (rule copy_lines_rows [OF s1(2) assms(2,3) _ _ sd]) (use assms(7) in auto)
  have "windows s1 w = Some W" "inv s1" using c assms(3) by auto
  from fill_lines_rows [OF s1(3) this(2,1), of y x] c [of y x] assms(4-9) show ?thesis
    by (auto simp: scrolled_def)
qed

lemma nc_scroll_window_rows:
  assumes "nc_scroll_window w n tp bt blank s = Some s'" and "inv s" and "windows s w = Some W"
    and "0 \<le> tp" and "tp \<le> bt" and "bt \<le> maxy W" and "n \<noteq> 0" and "0 \<le> x" and "x \<le> maxx W"
  shows "wcell s' w y x = scrolled s w n tp bt blank y x"
proof -
  have r: "\<not> (tp < 0 \<or> bt < tp \<or> bt > maxy W)" using assms(4-6) by simp
  consider "n < 0" | "n > 0" using assms(7) by linarith
  then obtain s2 r where "touchline w tp (bt - tp + 1) s2 = Some (r, s')"
    "wcell s2 w y x = scrolled s w n tp bt blank y x"
  proof cases
    case 1
    then obtain s1 r where s1: "scroll_down_part w n tp bt blank (maxy W) s = Some s1"
      "touchline w tp (bt - tp + 1) s1 = Some (r, s')"
      using assms(1,3) r by (auto simp: nc_scroll_window_def bind_eq_Some_conv)
    show ?thesis using that [OF s1(2)] scroll_down_rows [OF s1(1) assms(2-6) 1 assms(8,9)] by blast
  next
    case 2
    then obtain s1 r where s1: "scroll_up_part w n tp bt blank (maxy W) s = Some s1"
      "touchline w tp (bt - tp + 1) s1 = Some (r, s')"
      using assms(1,3) r by (auto simp: nc_scroll_window_def bind_eq_Some_conv)
    show ?thesis using that [OF s1(2)] scroll_up_rows [OF s1(1) assms(2-6) 2 assms(8,9)] by blast
  qed
  then show ?thesis using wcell_wtouchln by (simp add: touchline_def)
qed

section \<open>Safety of scrolling and clearing operations\<close>

lemma draws_winE:
  assumes "draws w s0 s" and "windows s0 w = Some W0" and "windows s w = Some W"
  shows "maxy W = maxy W0" "maxx W = maxx W0" "win_ok s w W" "w \<noteq> 0" "newscr s = newscr s0"
  using evolves_bounds [OF assms] invD [OF evolvesD(1) [OF assms(1)] assms(3)]
    shape_consts [OF evolvesD(2) [OF assms(1)]] by simp_all

text \<open>A window stays the same window: same geometry, still there.\<close>

lemma drawn:
  assumes "draws w s t" and "windows s w = Some W"
  obtains W' where "windows t w = Some W'" and "maxy W' = maxy W" and "maxx W' = maxx W" and "newscr t = newscr s"
proof -
  obtain W' where W': "windows t w = Some W'" using evolves_winE [OF assms] .
  show thesis using that [OF W'] draws_winE [OF assms W'] by simp
qed

lemma ok_then_synchook:
  assumes "du_ok du" and "draws w s0 s" and "windows s w = Some W" and "w \<noteq> newscr s"
  shows "ok (do { s1 \<leftarrow> synchook du w s; Some (r, s1) }) (\<lambda>(r, s'). draws w s0 s')"
  using ok_synchook [OF assms] by simp

lemma ok_wscrl:
  assumes "du_ok du" and "draws w s0 s" and "windows s w = Some W" and "w \<noteq> newscr s"
    and "- (2 ^ 31 - 32768) < n" and "n < 2 ^ 31"
  shows "ok (wscrl du w n s) (\<lambda>(r, s'). draws w s0 s')"
proof -
  have i: "inv s" using evolvesD(1) [OF assms(2)] .
  have w0: "w \<noteq> 0" using invD(2) [OF i assms(3)] .
  show ?thesis
  proof (cases "scrollf W \<and> n \<noteq> 0")
    case False
    then show ?thesis using w0 assms(2,3) by (auto simp: wscrl_def)
  next
    case True
    have "ok (nc_scroll_window w n (regtop W) (regbottom W) (bkgd W) s) (draws w s)"
      by (rule ok_nc_scroll_window [OF evolves_refl [OF i] assms(3,5,6)])
    then obtain s1 where s1: "nc_scroll_window w n (regtop W) (regbottom W) (bkgd W) s = Some s1" "draws w s s1"
      by (rule okE)
    obtain W1 where W1: "windows s1 w = Some W1" "newscr s1 = newscr s" using drawn [OF s1(2) assms(3)] by metis
    have "w \<noteq> newscr s1" using assms(4) W1(2) by simp
    from ok_then_synchook [OF assms(1) evolves_trans [OF assms(2) s1(2)] W1(1) this, of OK]
    show ?thesis using True w0 assms(3) s1(1) by (simp add: wscrl_def)
  qed
qed

text \<open>Marking a range and writing it.\<close>

lemma ok_mark_fill:
  assumes "draws w s0 s" and "windows s w = Some W" and "0 \<le> y" and "y \<le> maxy W" and "0 \<le> a" and "a \<le> b" and "b \<le> maxx W"
    and "\<And>l. mark_ok (maxx W) l \<Longrightarrow> mark (g l) = sup (mark l) (Changed a b) \<and> mark_ok (maxx W) (g l) \<and> ltext (g l) = ltext l"
    and "\<And>x. x \<in> set xs \<Longrightarrow> a \<le> x \<and> x \<le> b"
  shows "ok (do { l \<leftarrow> ldat_at W y; s1 \<leftarrow> modl w y g s; ofold (\<lambda>x. poke (ltext l) x (f x)) xs s1 })
    (\<lambda>s'. draws w s0 s' \<and> (\<exists>W'. windows s' = (windows s)(w \<mapsto> W') \<and> (\<exists>ls. W' = W\<lparr>lines := ls\<rparr>)))"
proof -
  have k: "win_ok s w W" using invD(1) [OF evolvesD(1) [OF assms(1)] assms(2)] .
  obtain l where l: "ldat_at W y = Some l" "mark_ok (maxx W) l" using win_ok_line [OF k assms(3,4)] .
  note g = assms(8) [OF l(2)]
  let ?W = "W\<lparr>lines := (lines W)[nat y := g l]\<rparr>"
  have "ok (modl w y g s) (\<lambda>s'. draws w s0 s' \<and> s' = set_win w ?W s)"
    by (rule ok_modl [OF assms(1,2) l(1)]) (use g in simp_all)
  then obtain s1 where s1: "modl w y g s = Some s1" "draws w s0 s1" "s1 = set_win w ?W s" by (rule ok_conjE)
  have W1: "windows s1 w = Some ?W" using s1(3) by simp
  have l1: "ldat_at ?W y = Some (g l)" using ldat_at_update [OF l(1)] by simp
  have "ok (ofold (\<lambda>x. poke (ltext (g l)) x (f x)) xs s1) (\<lambda>s'. draws w s0 s' \<and> windows s' = windows s1)"
  proof (rule ok_poke_loop [OF s1(2) W1 l1])
    fix x assume "x \<in> set xs"
    then have "a \<le> x" "x \<le> b" using assms(9) by auto
    moreover have "covers (mark (g l)) x" if "a \<le> x" "x \<le> b"
      using g that covers_mono [of "Changed a b" "mark (g l)" x] by simp
    ultimately show "0 \<le> x \<and> x \<le> maxx ?W \<and> (covers (mark (g l)) x \<or> (y, x) \<in> {})" using assms(5,7) by simp
  qed
  then obtain s2 where s2: "ofold (\<lambda>x. poke (ltext (g l)) x (f x)) xs s1 = Some s2" "draws w s0 s2"
    "windows s2 = windows s1" by (rule ok_conjE)
  have "ltext (g l) = ltext l" using g by simp
  then have "ok (do { l \<leftarrow> ldat_at W y; s1 \<leftarrow> modl w y g s; ofold (\<lambda>x. poke (ltext l) x (f x)) xs s1 }) (\<lambda>s'. s' = s2)"
    using l(1) s1(1) s2(1) by simp
  moreover have "windows s2 = (windows s)(w \<mapsto> ?W)" using s2(3) s1(3) by simp
  ultimately show ?thesis using s2(2) by (auto elim!: ok_mono)
qed

lemma to_eol_mark:
  assumes "win_ok s w W" and "0 \<le> a" and "a \<le> maxx W" and "mark_ok (maxx W) l"
  shows "mark (changed_to_eol a (maxx W) l) = sup (mark l) (Changed a (maxx W))
    \<and> mark_ok (maxx W) (changed_to_eol a (maxx W) l) \<and> ltext (changed_to_eol a (maxx W) l) = ltext l"
  using changed_to_eol_mark [OF assms(4,2,3) win_okD(4) [OF assms(1)]] by simp

text \<open>Fields of a window that have no part in the invariant.\<close>

lemma ok_modw_plain:
  assumes "draws w s0 s" and "windows s v = Some W" and "geom (f W) = geom W" and "lines (f W) = lines W"
    and "immed (f W) = immed W" and "win_ok s v W \<Longrightarrow> win_ok s v (f W)"
  obtains s' where "modw v f s = Some s'" and "draws w s0 s'" and "s' = set_win v (f W) s"
proof -
  have "win_ok s v (f W)" using assms(6) invD(1) [OF evolvesD(1) [OF assms(1)] assms(2)] by simp
  from ok_modw [where f = f, OF assms(1-3) this assms(4,5)] show thesis using that by (rule ok_conjE)
qed

lemma ok_wclrtoeol:
  assumes "du_ok du" and "draws w s0 s" and "windows s w = Some W" and "w \<noteq> newscr s"
  shows "ok (wclrtoeol du w s) (\<lambda>(r, s'). draws w s0 s')"
proof -
  have i: "inv s" using evolvesD(1) [OF assms(2)] .
  have k: "win_ok s w W" "w \<noteq> 0" using invD [OF i assms(3)] .
  note c = win_ok_cursor [OF k(1) assms(4)]
  define f :: "window \<Rightarrow> window" where "f = (\<lambda>W. W\<lparr>flags := flags W AND NOT F_WRAPPED\<rparr>)"
  obtain t where t: "modw w f s = Some t" "draws w s0 t" "t = set_win w (f W) s"
    by (rule ok_modw_plain [where f = f, OF assms(2,3)]) (simp_all add: f_def)
  define b where "b \<longleftrightarrow> has_flag (flags W) F_WRAPPED \<and> cury W < maxy W"
  define s1 where "s1 = (if b then t else s)"
  define W1 where "W1 = (if b then f W else W)"
  have m: "(if b then modw w f s else Some s) = Some s1" using t(1) by (simp add: s1_def)
  have s1: "draws w s0 s1" "windows s1 w = Some W1" "newscr s1 = newscr s"
    using t assms(2,3) by (simp_all add: s1_def W1_def)
  have W1: "maxx W1 = maxx W" "maxy W1 = maxy W" by (simp_all add: W1_def f_def)
  show ?thesis
  proof (cases "has_flag (flags W1) F_WRAPPED \<or> cury W > maxy W1 \<or> curx W > maxx W1")
    case True
    then show ?thesis using m s1(1,2) assms(3) k(2) unfolding b_def f_def by (simp add: wclrtoeol_def Let_def)
  next
    case False
    have k1: "win_ok s1 w W1" using invD(1) [OF evolvesD(1) [OF s1(1)] s1(2)] .
    have "ok (do { l \<leftarrow> ldat_at W1 (cury W); s2 \<leftarrow> modl w (cury W) (changed_to_eol (curx W) (maxx W1)) s1;
          ofold (\<lambda>i. poke (ltext l) i (bkgd W1)) [curx W..maxx W1] s2 })
      (\<lambda>s'. draws w s0 s' \<and> (\<exists>W'. windows s' = (windows s1)(w \<mapsto> W') \<and> (\<exists>ls. W' = W1\<lparr>lines := ls\<rparr>)))"
      by (rule ok_mark_fill [OF s1(1,2)])
        (use c W1 to_eol_mark [OF k1, of "curx W"] in auto)
    then obtain s3 where s3: "do { l \<leftarrow> ldat_at W1 (cury W); s2 \<leftarrow> modl w (cury W) (changed_to_eol (curx W) (maxx W1)) s1;
          ofold (\<lambda>i. poke (ltext l) i (bkgd W1)) [curx W..maxx W1] s2 } = Some s3" "draws w s0 s3"
      "\<exists>W'. windows s3 = (windows s1)(w \<mapsto> W') \<and> (\<exists>ls. W' = W1\<lparr>lines := ls\<rparr>)" by (rule ok_conjE)
    obtain W3 where W3: "windows s3 w = Some W3" using s3(3) by auto
    have "newscr s3 = newscr s1"
      using shape_consts [OF evolvesD(2) [OF s3(2)]] shape_consts [OF evolvesD(2) [OF s1(1)]] by simp
    then have "w \<noteq> newscr s3" using assms(4) s1(3) by simp
    from ok_synchook [OF assms(1) s3(2) W3 this] obtain s4 where s4: "synchook du w s3 = Some s4" "draws w s0 s4"
      by (rule okE)
    have "wclrtoeol du w s = Some (OK, s4)"
      using m s1(2) assms(3) k(2) False s3(1) s4(1) unfolding b_def f_def
      by (auto simp add: wclrtoeol_def Let_def bind_eq_Some_conv)
    then show ?thesis using s4(2) by simp
  qed
qed

lemma draws_newscr: "draws w s0 s \<Longrightarrow> draws w s0 t \<Longrightarrow> newscr t = newscr s"
  using shape_consts [OF evolvesD(2)] by metis

lemma draws_win:
  assumes "draws w s0 s" and "windows s w = Some W" and "draws w s0 t"
  obtains V where "windows t w = Some V" and "maxy V = maxy W" and "maxx V = maxx W"
proof -
  obtain W0 where W0: "windows s0 w = Some W0"
    using shape_winE [OF evolvesD(2) [OF assms(1), symmetric] assms(2)] by metis
  obtain V where V: "windows t w = Some V" using evolves_winE [OF assms(3) W0] by metis
  show thesis using that [OF V] draws_winE [OF assms(1) W0 assms(2)] draws_winE [OF assms(3) W0 V] by simp
qed

lemma ok_clear_row:
  assumes "draws w s0 s" and "windows s w = Some W" and "0 \<le> y" and "y \<le> maxy W" and "0 \<le> a" and "a \<le> maxx W"
  shows "ok (clear_row w blank a y s) (draws w s0)"
proof -
  have k: "win_ok s w W" using invD(1) [OF evolvesD(1) [OF assms(1)] assms(2)] .
  have "ok (do { l \<leftarrow> ldat_at W y; s1 \<leftarrow> modl w y (changed_to_eol a (maxx W)) s;
        ofold (\<lambda>x. poke (ltext l) x blank) [a..maxx W] s1 })
    (\<lambda>s'. draws w s0 s' \<and> (\<exists>W'. windows s' = (windows s)(w \<mapsto> W') \<and> (\<exists>ls. W' = W\<lparr>lines := ls\<rparr>)))"
    by (rule ok_mark_fill [OF assms(1-5)]) (use assms(6) to_eol_mark [OF k assms(5,6)] in auto)
  then show ?thesis using assms(2) unfolding clear_row_def by (simp del: ok_bind add: ok_mono)
qed

lemma ok_wclrtobot:
  assumes "du_ok du" and "draws w s0 s" and "windows s w = Some W" and "w \<noteq> newscr s"
  shows "ok (wclrtobot du w s) (\<lambda>(r, s'). draws w s0 s')"
proof -
  have k: "win_ok s w W" "w \<noteq> 0" using invD [OF evolvesD(1) [OF assms(2)] assms(3)] .
  note c = win_ok_cursor [OF k(1) assms(4)] win_okD [OF k(1)]
  have "ok (ofold (\<lambda>y. clear_row w (bkgd W) (if y = cury W then curx W else 0) y) [cury W..maxy W] s) (draws w s0)"
  proof (rule ok_ofold)
    show "draws w s0 s" by (rule assms(2))
    fix y t assume y: "y \<in> set [cury W..maxy W]" and t: "draws w s0 t"
    obtain V where V: "windows t w = Some V" "maxy V = maxy W" "maxx V = maxx W"
      by (rule draws_win [OF assms(2,3) t])
    show "ok (clear_row w (bkgd W) (if y = cury W then curx W else 0) y t) (draws w s0)"
      by (rule ok_clear_row [OF t V(1)]) (use y V c in auto)
  qed
  then obtain s1 where s1: "ofold (\<lambda>y. clear_row w (bkgd W) (if y = cury W then curx W else 0) y) [cury W..maxy W] s = Some s1"
    "draws w s0 s1" by (rule okE)
  obtain V where V: "windows s1 w = Some V" by (rule draws_win [OF assms(2,3) s1(2)])
  have "w \<noteq> newscr s1" using draws_newscr [OF assms(2) s1(2)] assms(4) by simp
  from ok_then_synchook [OF assms(1) s1(2) V this, of OK] show ?thesis
    using s1(1) assms(3) k(2) by (simp add: wclrtobot_def)
qed

lemma ok_erase_row:
  assumes "draws w s0 s" and "windows s w = Some W" and "0 \<le> y" and "y \<le> maxy W"
  shows "ok (erase_row w blank y s) (draws w s0)"
proof -
  have i: "inv s" using evolvesD(1) [OF assms(1)] .
  have k: "win_ok s w W" using invD(1) [OF i assms(2)] .
  obtain l where l: "ldat_at W y = Some l" "mark_ok (maxx W) l" using win_ok_line [OF k assms(3,4)] .
  let ?D = "{p. fst p = y} :: (int \<times> int) set"
  have "ok (ofold (\<lambda>x. poke (ltext l) x blank) [0..maxx W] s) (\<lambda>s'. evolves w ?D s s' \<and> windows s' = windows s)"
    by (rule ok_poke_loop [OF evolves_refl [OF i] assms(2) l(1)]) simp
  then obtain s1 where s1: "ofold (\<lambda>x. poke (ltext l) x blank) [0..maxx W] s = Some s1" "evolves w ?D s s1"
    "windows s1 = windows s" by (rule ok_conjE)
  have W1: "windows s1 w = Some W" using s1(3) assms(2) by simp
  let ?f = "\<lambda>l. l\<lparr>firstchar := 0, lastchar := maxx W\<rparr>"
  have mk: "mark (?f l) = Changed 0 (maxx W)" by (simp add: mark_def NOCHANGE_def)
  have "ok (modl w y ?f s1) (\<lambda>s'. evolves w ?D s s' \<and> s' = set_win w (W\<lparr>lines := (lines W)[nat y := ?f l]\<rparr>) s1)"
    by (rule ok_modl [OF s1(2) W1 l(1)])
      (use l(2) win_okD [OF k] in \<open>auto simp: mark_ok_def mark_def NOCHANGE_def\<close>)
  then obtain s2 where s2: "modl w y ?f s1 = Some s2" "evolves w ?D s s2"
    "s2 = set_win w (W\<lparr>lines := (lines W)[nat y := ?f l]\<rparr>) s1" by (rule ok_conjE)
  have "draws w s s2"
  proof (rule evolves_discharge [OF s2(2) assms(2)])
    fix y' x assume "(y', x) \<in> ?D" "0 \<le> x" "x \<le> maxx W"
    then show "marked s2 w y' x" using s2(3) mk by (auto simp: marked_def ldat_at_update [OF l(1)])
  qed
  from evolves_trans [OF assms(1) this] show ?thesis
    using assms(2) l(1) s1(1) s2(1) by (simp add: erase_row_def)
qed

lemma ok_werase:
  assumes "du_ok du" and "draws w s0 s" and "windows s w = Some W" and "w \<noteq> newscr s"
  shows "ok (werase du w s) (\<lambda>(r, s'). draws w s0 s')"
proof -
  have k: "win_ok s w W" "w \<noteq> 0" using invD [OF evolvesD(1) [OF assms(2)] assms(3)] .
  have "ok (ofold (erase_row w (bkgd W)) [0..maxy W] s) (draws w s0)"
  proof (rule ok_ofold)
    show "draws w s0 s" by (rule assms(2))
    fix y t assume y: "y \<in> set [0..maxy W]" and t: "draws w s0 t"
    obtain V where V: "windows t w = Some V" "maxy V = maxy W" by (rule draws_win [OF assms(2,3) t])
    show "ok (erase_row w (bkgd W) y t) (draws w s0)" by (rule ok_erase_row [OF t V(1)]) (use y V in auto)
  qed
  then obtain s1 where s1: "ofold (erase_row w (bkgd W)) [0..maxy W] s = Some s1" "draws w s0 s1" by (rule okE)
  obtain V where V: "windows s1 w = Some V" by (rule draws_win [OF assms(2,3) s1(2)])
  let ?f = "\<lambda>W. W\<lparr>curx := 0, cury := 0, flags := flags W AND NOT F_WRAPPED\<rparr>"
  obtain s2 where s2: "modw w ?f s1 = Some s2" "draws w s0 s2" "s2 = set_win w (?f V) s1"
    by (rule ok_modw_plain [where f = ?f, OF s1(2) V]) (simp_all add: win_ok_def)
  have W2: "windows s2 w = Some (?f V)" using s2(3) by simp
  have "w \<noteq> newscr s2" using draws_newscr [OF assms(2) s2(2)] assms(4) by simp
  from ok_then_synchook [OF assms(1) s2(2) W2 this, of OK] show ?thesis
    using s1(1) s2(1) assms(3) k(2) by (simp add: werase_def)
qed

lemma ok_wclear:
  assumes "du_ok du" and "draws w s0 s" and "windows s w = Some W" and "w \<noteq> newscr s"
  shows "ok (wclear du w s) (\<lambda>(r, s'). draws w s0 s')"
proof -
  from ok_werase [OF assms] obtain r s1 where s1: "werase du w s = Some (r, s1)" "draws w s0 s1" by (rule ok_pairE)
  obtain V where V: "windows s1 w = Some V" by (rule draws_win [OF assms(2,3) s1(2)])
  obtain s2 where s2: "modw w (\<lambda>W. W\<lparr>clearf := True\<rparr>) s1 = Some s2" "draws w s0 s2"
    by (rule ok_modw_plain [where f = "\<lambda>W. W\<lparr>clearf := True\<rparr>", OF s1(2) V]) simp_all
  show ?thesis using s1 s2 by (simp add: wclear_def)
qed

section \<open>What clearing does to the contents\<close>

lemma erase_row_wcell:
  assumes "erase_row w blank y s = Some s'" and "inv s" and "windows s w = Some W"
  shows "wcell s' w y' x = (if y' = y \<and> 0 \<le> x \<and> x \<le> maxx W then Some blank else wcell s w y' x)"
proof -
  obtain l s1 where l: "ldat_at W y = Some l" "ofold (\<lambda>x. poke (ltext l) x blank) [0..maxx W] s = Some s1"
    "modl w y (\<lambda>l. l\<lparr>firstchar := 0, lastchar := maxx W\<rparr>) s1 = Some s'"
    using assms(1,3) by (auto simp: erase_row_def bind_eq_Some_conv)
  have "wcell s1 w y' x = (if y' = y \<and> x \<in> set [0..maxx W] then Some blank else wcell s w y' x)
      \<and> windows s1 = windows s \<and> inv s1"
    by (rule wcell_fill [OF l(2) assms(2,3) l(1)]) simp
  then show ?thesis using wcell_modl [OF l(3)] by auto
qed

lemma erase_rows_wcell:
  assumes "ofold (erase_row w blank) ys s = Some s'" and "inv s" and "windows s w = Some W"
    and "\<And>y. y \<in> set ys \<Longrightarrow> 0 \<le> y \<and> y \<le> maxy W"
  shows "draws w s s' \<and> wcell s' w y x = (if y \<in> set ys \<and> 0 \<le> x \<and> x \<le> maxx W then Some blank else wcell s w y x)"
  using assms
proof (induction ys arbitrary: s W)
  case Nil
  then show ?case using evolves_refl by simp
next
  case (Cons a ys)
  obtain t where t: "erase_row w blank a s = Some t" "ofold (erase_row w blank) ys t = Some s'"
    using Cons.prems(1) by (auto simp: bind_eq_Some_conv)
  have "ok (erase_row w blank a s) (draws w s)"
    by (rule ok_erase_row [OF evolves_refl [OF Cons.prems(2)] Cons.prems(3)]) (use Cons.prems(4) in auto)
  then have d: "draws w s t" using t(1) by simp
  obtain V where V: "windows t w = Some V" "maxy V = maxy W" "maxx V = maxx W" by (rule drawn [OF d Cons.prems(3)])
  have "\<And>y. y \<in> set ys \<Longrightarrow> 0 \<le> y \<and> y \<le> maxy V" using Cons.prems(4) V(2) by simp
  from Cons.IH [OF t(2) evolvesD(1) [OF d] V(1) this] evolves_trans [OF d]
    erase_row_wcell [OF t(1) Cons.prems(2,3)] V(3)
  show ?case by auto
qed

lemma synchook_Some_frame:
  assumes "du_ok du" and "draws w s0 s" and "windows s w = Some W" and "w \<noteq> newscr s0" and "\<not> immediate s0 w"
  obtains s' where "synchook du w s = Some s'" and "draws w s0 s'" and "windows s' w = windows s w"
    and "\<forall>y x. wcell s' w y x = wcell s w y x"
proof -
  have ns: "newscr s = newscr s0" and im: "\<not> immediate s w"
    using shape_consts [OF evolvesD(2) [OF assms(2)]] evolvesD(4) [OF assms(2)] assms(5) by simp_all
  have "w \<noteq> newscr s" using ns assms(4) by simp
  from ok_synchook [OF assms(1-3) this] obtain s' where s': "synchook du w s = Some s'" "draws w s0 s'" by (rule okE)
  have i: "inv s" using evolvesD(1) [OF assms(2)] .
  show thesis using synchook_wcell [OF s'(1) i im] by (intro that [OF s' synchook_frame(2) [OF s'(1) i im]]) simp
qed

text \<open>
  \<open>werase\<close> of a window that is not in immediate mode returns OK and leaves the background
  character in every cell of the window and the cursor in its first column and row; all cells it
  changed are marked.
\<close>

theorem werase_contents:
  assumes "du_ok du" and "inv s" and "windows s w = Some W" and "w \<noteq> newscr s" and "\<not> immed W"
  shows "\<exists>s' W'. werase du w s = Some (OK, s') \<and> windows s' w = Some W' \<and> cury W' = 0 \<and> curx W' = 0
    \<and> draws w s s' \<and> (\<forall>y x. 0 \<le> y \<and> y \<le> maxy W \<and> 0 \<le> x \<and> x \<le> maxx W \<longrightarrow> wcell s' w y x = Some (bkgd W))"
proof -
  have k: "w \<noteq> 0" using invD [OF assms(2,3)] by simp
  have e: "draws w s s" by (rule evolves_refl [OF assms(2)])
  have im: "\<not> immediate s w" using assms(3,5) by (simp add: immediate_def)
  have "ok (ofold (erase_row w (bkgd W)) [0..maxy W] s) (draws w s)"
  proof (rule ok_ofold)
    show "draws w s s" by (rule e)
    fix y t assume y: "y \<in> set [0..maxy W]" and t: "draws w s t"
    obtain V where V: "windows t w = Some V" "maxy V = maxy W" by (rule drawn [OF t assms(3)])
    show "ok (erase_row w (bkgd W) y t) (draws w s)" by (rule ok_erase_row [OF t V(1)]) (use y V in auto)
  qed
  then obtain s1 where s1: "ofold (erase_row w (bkgd W)) [0..maxy W] s = Some s1" by (rule okE)
  have r: "draws w s s1 \<and> wcell s1 w y x = (if y \<in> set [0..maxy W] \<and> 0 \<le> x \<and> x \<le> maxx W then Some (bkgd W)
      else wcell s w y x)" for y x
    by (rule erase_rows_wcell [OF s1 assms(2,3)]) simp
  then have d1: "draws w s s1" by blast
  obtain V where V: "windows s1 w = Some V" "maxy V = maxy W" "maxx V = maxx W" by (rule drawn [OF d1 assms(3)])
  let ?f = "\<lambda>W. W\<lparr>curx := 0, cury := 0, flags := flags W AND NOT F_WRAPPED\<rparr>"
  obtain s2 where s2: "modw w ?f s1 = Some s2" "draws w s s2" "s2 = set_win w (?f V) s1"
    by (rule ok_modw_plain [where f = ?f, OF d1 V(1)]) (simp_all add: win_ok_def)
  have W2: "windows s2 w = Some (?f V)" using s2(3) by simp
  obtain s3 where s3: "synchook du w s2 = Some s3" "draws w s s3" "windows s3 w = windows s2 w"
    "\<forall>y x. wcell s3 w y x = wcell s2 w y x"
    by (rule synchook_Some_frame [OF assms(1) s2(2) W2 assms(4) im])
  have "werase du w s = Some (OK, s3)" using s1 s2(1) s3(1) assms(3) k by (simp add: werase_def)
  moreover have "wcell s3 w y x = Some (bkgd W)" if "0 \<le> y" "y \<le> maxy W" "0 \<le> x" "x \<le> maxx W" for y x
    using r [of y x] s3(4) wcell_modw [OF s2(1), of w y x] that by simp
  moreover have "windows s3 w = Some (?f V)" using s3(3) W2 by simp
  ultimately show ?thesis using s3(2) by (intro exI [of _ s3] exI [of _ "?f V"]) simp
qed

theorem werase_contents_witness:
  "\<exists>s' W'. werase idle 3 demo = Some (OK, s') \<and> windows s' 3 = Some W' \<and> cury W' = 0 \<and> curx W' = 0
    \<and> draws 3 demo s' \<and> (\<forall>y x. 0 \<le> y \<and> y \<le> 1 \<and> 0 \<le> x \<and> x \<le> 4 \<longrightarrow> wcell s' 3 y x = Some BLANK)"
  using werase_contents [OF du_ok_idle inv_demo demo_stdscr(1,3)] by simp

text \<open>
  C28. \<open>wscrl\<close> by \<open>n\<close> lines, up or down, of a window that allows scrolling moves the rows of its
  scrolling region by \<open>n\<close>, fills the rows that become free with the background and leaves the
  rows outside the region alone.
\<close>

theorem wscrl_contents:
  assumes "du_ok du" and "inv s" and "windows s w = Some W" and "w \<noteq> newscr s" and "\<not> immed W" and "scrollf W"
    and "n \<noteq> 0" and "- (2 ^ 31 - 32768) < n" and "n < 2 ^ 31"
  shows "\<exists>s'. wscrl du w n s = Some (OK, s') \<and> draws w s s' \<and> (\<forall>y x. 0 \<le> x \<and> x \<le> maxx W \<longrightarrow>
    wcell s' w y x = (if y < regtop W \<or> regbottom W < y then wcell s w y x
      else if regtop W \<le> y + n \<and> y + n \<le> regbottom W then wcell s w (y + n) x else Some (bkgd W)))"
proof -
  have k: "win_ok s w W" "w \<noteq> 0" using invD [OF assms(2,3)] .
  have im: "\<not> immediate s w" using assms(3,5) by (simp add: immediate_def)
  have d0: "draws w s s" by (rule evolves_refl [OF assms(2)])
  have "ok (nc_scroll_window w n (regtop W) (regbottom W) (bkgd W) s) (draws w s)"
    by (rule ok_nc_scroll_window [OF d0 assms(3,8,9)])
  then obtain s1 where s1: "nc_scroll_window w n (regtop W) (regbottom W) (bkgd W) s = Some s1" "draws w s s1" by (rule okE)
  obtain V where V: "windows s1 w = Some V" by (rule drawn [OF s1(2) assms(3)])
  obtain s2 where s2: "synchook du w s1 = Some s2" "draws w s s2" "windows s2 w = windows s1 w"
    "\<forall>y x. wcell s2 w y x = wcell s1 w y x"
    by (rule synchook_Some_frame [OF assms(1) s1(2) V assms(4) im])
  have "wcell s1 w y x = scrolled s w n (regtop W) (regbottom W) (bkgd W) y x" if "0 \<le> x" "x \<le> maxx W" for y x
    by (rule nc_scroll_window_rows [OF s1(1) assms(2,3) win_okD(6-8) [OF k(1)] assms(7) that])
  then show ?thesis
    using assms(3,6,7) k(2) s1(1) s2 by (intro exI [of _ s2]) (simp add: wscrl_def scrolled_def)
qed

theorem wscrl_contents_witness:
  "\<exists>s'. wscrl idle 3 1 demo = Some (OK, s') \<and> wcell s' 3 0 2 = wcell demo 3 1 2 \<and> wcell s' 3 1 2 = Some BLANK"
  using wscrl_contents [OF du_ok_idle inv_demo demo_stdscr(1,3), of 1] by auto

section \<open>The operations meet the contract of drawing\<close>

lemma draws_self: "inv s \<Longrightarrow> draws w s s"
  by (rule evolves_refl)

interpretation scrl: window_op "\<lambda>n du w. wscrl du w n" "\<lambda>n. - (2 ^ 31 - 32768) < n \<and> n < 2 ^ 31"
  by unfold_locales (rule ok_wscrl [OF _ draws_self]; simp)

interpretation clrtoeol: window_op "\<lambda>_::unit. wclrtoeol" "\<lambda>_. True"
  by unfold_locales (rule ok_wclrtoeol [OF _ draws_self])

interpretation clrtobot: window_op "\<lambda>_::unit. wclrtobot" "\<lambda>_. True"
  by unfold_locales (rule ok_wclrtobot [OF _ draws_self])

interpretation erase: window_op "\<lambda>_::unit. werase" "\<lambda>_. True"
  by unfold_locales (rule ok_werase [OF _ draws_self])

interpretation clear: window_op "\<lambda>_::unit. wclear" "\<lambda>_. True"
  by unfold_locales (rule ok_wclear [OF _ draws_self])

end
