(* ===== verification/WinText.thy ===== *)
theory WinText
  imports WinScroll
begin

text \<open>
  Adding characters and strings (\<open>unctrl.c\<close>, \<open>base/lib_addch.c\<close>, \<open>base/lib_addstr.c\<close>).

  A caller's array is the list of its elements; reading past its end is \<open>None\<close>.
\<close>

section \<open>Printable characters\<close>

text \<open>\<open>isprint\<close> and \<open>iscntrl\<close> of the C locale, and \<open>unctrl\<close> (\<open>ncurses/unctrl.c\<close>).\<close>

definition isprint :: "int \<Rightarrow> bool" where
  "isprint c \<longleftrightarrow> 32 \<le> c \<and> c \<le> 126"

definition iscntrl :: "int \<Rightarrow> bool" where
  "iscntrl c \<longleftrightarrow> 0 \<le> c \<and> c \<le> 31 \<or> c = 127"

definition unctrl :: "int \<Rightarrow> chtype \<Rightarrow> chtype list" where
  "unctrl legacy ch =
     (let check = uint (CharOf ch) in
      if legacy > 1 \<and> check \<ge> 128 \<and> check < 160 then [word_of_int check]
      else if check \<ge> 160 \<and> check < 256 \<and> (legacy > 0 \<or> legacy = 0 \<and> isprint check)
      then [word_of_int check]
      else if check < 32 then [0x5E, word_of_int (check + 64)]
      else if check < 127 then [word_of_int check]
      else if check = 127 then [0x5E, 0x3F]
      else if check < 160 then [0x7E, word_of_int (check - 64)]
      else if check < 255 then [0x4D, 0x2D, word_of_int (check - 128)]
      else [0x7E, 0x3F])"

section \<open>Rendition\<close>

definition COLOR_MASK :: "chtype \<Rightarrow> chtype" where
  "COLOR_MASK ch = NOT (if ch AND A_COLOR \<noteq> 0 then A_COLOR else 0)"

definition render_char :: "window \<Rightarrow> chtype \<Rightarrow> chtype" where
  "render_char W ch =
     (let a = attrs W; pair = GetPair ch in
      if ISBLANK ch \<and> AttrOf ch = 0 \<and> pair = 0 then
        (let ch1 = SetAttr (bkgd W) (a OR AttrOf (bkgd W));
             pair1 = (if PairNumber a = 0 then GetPair (bkgd W) else PairNumber a)
         in SetPair ch1 pair1)
      else
        (let a1 = a OR (AttrOf (bkgd W) AND COLOR_MASK a);
             pair1 = (if pair = 0
                      then (if PairNumber (attrs W) = 0 then GetPair (bkgd W) else PairNumber (attrs W))
                      else pair);
             ch1 = AddAttr ch (a1 AND COLOR_MASK (AttrOf ch))
         in SetPair ch1 pair1))"

section \<open>Adding characters\<close>

text \<open>The result and the new value of \<open>*ypos\<close>.\<close>

definition newline_forces_scroll :: "window \<Rightarrow> int \<Rightarrow> bool \<times> int" where
  "newline_forces_scroll W ypos =
     (if ypos \<ge> regtop W \<and> ypos \<le> regbottom W then
        (if ypos = regbottom W then (True, regbottom W)
         else if ypos < maxy W then (False, to_short (ypos + 1)) else (False, ypos))
      else if ypos < maxy W then (False, to_short (ypos + 1)) else (False, ypos))"

definition wrap_to_next_line :: "updater \<Rightarrow> nat \<Rightarrow> nc \<Rightarrow> (int \<times> nc) option" where
  "wrap_to_next_line du w s = do {
     s1 \<leftarrow> modw w (\<lambda>W. W\<lparr>flags := flags W OR F_WRAPPED\<rparr>) s;
     W \<leftarrow> windows s1 w;
     (let (force, y) = newline_forces_scroll W (cury W) in do {
        s2 \<leftarrow> modw w (\<lambda>W. W\<lparr>cury := y\<rparr>) s1;
        if force then do {
          s3 \<leftarrow> modw w (\<lambda>W. W\<lparr>curx := maxx W\<rparr>) s2;
          if \<not> scrollf W then Some (ERR, s3)
          else do {
            (r, s4) \<leftarrow> wscrl du w 1 s3;
            s5 \<leftarrow> modw w (\<lambda>W. W\<lparr>curx := 0\<rparr>) s4;
            Some (OK, s5) } }
        else do {
          s5 \<leftarrow> modw w (\<lambda>W. W\<lparr>curx := 0\<rparr>) s2;
          Some (OK, s5) } }) }"

definition waddch_literal :: "updater \<Rightarrow> nat \<Rightarrow> chtype \<Rightarrow> nc \<Rightarrow> (int \<times> nc) option" where
  "waddch_literal du w ch s = do {
     W \<leftarrow> windows s w;
     (let x = curx W; y = cury W; c = render_char W ch in do {
        line \<leftarrow> ldat_at W y;
        s1 \<leftarrow> modl w y (changed_cell x) s;
        s2 \<leftarrow> poke (ltext line) x c s1;
        if x + 1 > maxx W then wrap_to_next_line du w s2
        else do { s3 \<leftarrow> modw w (\<lambda>W. W\<lparr>curx := to_short (x + 1)\<rparr>) s2; Some (OK, s3) } }) }"

text \<open>\<open>while (win->_curx < x)\<close> in the expansion of a tab.\<close>

fun tab_fill :: "nat \<Rightarrow> updater \<Rightarrow> nat \<Rightarrow> chtype \<Rightarrow> int \<Rightarrow> nc \<Rightarrow> (int \<times> nc) option" where
  "tab_fill 0 du w blank x s = None"
| "tab_fill (Suc n) du w blank x s = do {
     W \<leftarrow> windows s w;
     if curx W < x then do {
       (r, s1) \<leftarrow> waddch_literal du w blank s;
       if r = ERR then Some (ERR, s1) else tab_fill n du w blank x s1 }
     else Some (OK, s) }"

fun add_literals :: "updater \<Rightarrow> nat \<Rightarrow> chtype list \<Rightarrow> nc \<Rightarrow> (int \<times> nc) option" where
  "add_literals du w [] s = Some (OK, s)"
| "add_literals du w (c # cs) s = do {
     (r, s1) \<leftarrow> waddch_literal du w c s;
     if r = ERR then Some (ERR, s1) else add_literals du w cs s1 }"

definition set_cursor :: "nat \<Rightarrow> int \<Rightarrow> int \<Rightarrow> nc \<Rightarrow> (int \<times> nc) option" where
  "set_cursor w x y s = do { s1 \<leftarrow> modw w (\<lambda>W. W\<lparr>curx := x, cury := y\<rparr>) s; Some (OK, s1) }"

definition add_tab :: "updater \<Rightarrow> nat \<Rightarrow> chtype \<Rightarrow> nc \<Rightarrow> (int \<times> nc) option" where
  "add_tab du w ch s = do {
     W \<leftarrow> windows s w;
     ts \<leftarrow> (if tabsize s = 0 then None else Some (tabsize s));
     (let y = cury W; x = to_short (curx W + (ts - c_rem (curx W) ts)) in
      if \<not> scrollf W \<and> y = regbottom W \<or> x \<le> maxx W then do {
        (r, s1) \<leftarrow> tab_fill (nat (maxx W + 2)) du w (AddAttr BLANK (AttrOf ch)) x s;
        if r = ERR then Some (ERR, s1) else set_cursor w x y s1 }
      else do {
        (r, s1) \<leftarrow> wclrtoeol du w s;
        s2 \<leftarrow> modw w (\<lambda>W. W\<lparr>flags := flags W OR F_WRAPPED\<rparr>) s1;
        W2 \<leftarrow> windows s2 w;
        (let (force, y') = newline_forces_scroll W2 y in
         if force then
           (if scrollf W2 then do { (r2, s3) \<leftarrow> wscrl du w 1 s2; set_cursor w 0 y' s3 }
            else set_cursor w (maxx W2) y' s2)
         else set_cursor w 0 y' s2) }) }"

definition add_return :: "nat \<Rightarrow> int \<Rightarrow> nc \<Rightarrow> (int \<times> nc) option" where
  "add_return w y s = do {
     s1 \<leftarrow> modw w (\<lambda>W. W\<lparr>flags := flags W AND NOT F_WRAPPED\<rparr>) s;
     set_cursor w 0 y s1 }"

definition add_newline :: "updater \<Rightarrow> nat \<Rightarrow> nc \<Rightarrow> (int \<times> nc) option" where
  "add_newline du w s = do {
     W \<leftarrow> windows s w;
     (r, s1) \<leftarrow> wclrtoeol du w s;
     W1 \<leftarrow> windows s1 w;
     (let (force, y') = newline_forces_scroll W1 (cury W) in
      if force then
        (if scrollf W1 then do { (r2, s2) \<leftarrow> wscrl du w 1 s1; add_return w y' s2 } else Some (ERR, s1))
      else add_return w y' s1) }"

definition waddch_nosync :: "updater \<Rightarrow> nat \<Rightarrow> chtype \<Rightarrow> nc \<Rightarrow> (int \<times> nc) option" where
  "waddch_nosync du w ch s =
     (let t = CharOf ch; str = unctrl (legacy_coding s) t in
      if AttrOf ch AND A_ALTCHARSET \<noteq> 0 \<or> length str = 1 \<or> isprint (uint t) \<and> \<not> iscntrl (uint t)
      then waddch_literal du w ch s
      else if t = 0x09 then add_tab du w ch s
      else if t = 0x0A then add_newline du w s
      else if t = 0x0D then do { W \<leftarrow> windows s w; add_return w (cury W) s }
      else if t = 0x08 then do {
        W \<leftarrow> windows s w;
        if curx W = 0 then Some (OK, s)
        else do {
          s1 \<leftarrow> modw w (\<lambda>W. W\<lparr>flags := flags W AND NOT F_WRAPPED\<rparr>) s;
          set_cursor w (curx W - 1) (cury W) s1 } }
      else add_literals du w (map (\<lambda>c. c OR AttrOf ch) str) s)"

definition waddch :: "updater \<Rightarrow> nat \<Rightarrow> chtype \<Rightarrow> nc \<Rightarrow> (int \<times> nc) option" where
  "waddch du w ch s =
     (if w = 0 then Some (ERR, s)
      else do {
        (r, s1) \<leftarrow> waddch_nosync du w (SetChar2 ch) s;
        if r \<noteq> ERR then do { s2 \<leftarrow> synchook du w s1; Some (OK, s2) } else Some (ERR, s1) })"

definition wechochar :: "updater \<Rightarrow> nat \<Rightarrow> chtype \<Rightarrow> nc \<Rightarrow> (int \<times> nc) option" where
  "wechochar du w ch s =
     (if w = 0 then Some (ERR, s)
      else do {
        (r, s1) \<leftarrow> waddch_nosync du w (SetChar2 ch) s;
        if r \<noteq> ERR then do {
          W \<leftarrow> windows s1 w;
          s2 \<leftarrow> modw w (\<lambda>W. W\<lparr>immed := True\<rparr>) s1;
          s3 \<leftarrow> synchook du w s2;
          s4 \<leftarrow> modw w (\<lambda>V. V\<lparr>immed := immed W\<rparr>) s3;
          Some (OK, s4) }
        else Some (ERR, s1) })"

section \<open>Adding strings\<close>

text \<open>
  \<open>astr\<close> is the caller's array of characters; the loop of \<open>waddnstr\<close> reads the next character
  before it looks at the count.
\<close>

definition INT_MAX :: int where "INT_MAX = 2 ^ 31 - 1"

function addnstr_loop :: "updater \<Rightarrow> nat \<Rightarrow> chtype list \<Rightarrow> nat \<Rightarrow> int \<Rightarrow> nc \<Rightarrow> (int \<times> nc) option" where
  "addnstr_loop du w astr i n s =
     (if i < length astr then
        (if astr ! i \<noteq> 0 \<and> n > 0 then do {
           (r, s1) \<leftarrow> waddch_nosync du w (astr ! i) s;
           if r = ERR then Some (ERR, s1) else addnstr_loop du w astr (i + 1) (n - 1) s1 }
         else Some (OK, s))
      else None)"
  by pat_completeness auto
termination
  by (relation "measure (\<lambda>(du, w, astr, i, n, s). length astr - i)") auto

declare addnstr_loop.simps [simp del]

definition waddnstr :: "updater \<Rightarrow> nat \<Rightarrow> chtype list \<Rightarrow> int \<Rightarrow> nc \<Rightarrow> (int \<times> nc) option" where
  "waddnstr du w astr n s =
     (if w = 0 then Some (ERR, s)
      else do {
        (code, s1) \<leftarrow> addnstr_loop du w astr 0 (if n < 0 then INT_MAX else n) s;
        s2 \<leftarrow> synchook du w s1;
        Some (code, s2) })"

text \<open>\<open>waddchnstr\<close>; a negative count stands for the length up to the first zero.\<close>

fun chlen :: "chtype list \<Rightarrow> int option" where
  "chlen [] = None"
| "chlen (c # cs) = (if c \<noteq> 0 then do { n \<leftarrow> chlen cs; Some (n + 1) } else Some 0)"

fun addchnstr_loop :: "textptr \<Rightarrow> int \<Rightarrow> chtype list \<Rightarrow> nat \<Rightarrow> nat \<Rightarrow> nc \<Rightarrow> nc option" where
  "addchnstr_loop p x astr i 0 s = Some s"
| "addchnstr_loop p x astr i (Suc n) s =
     (if i < length astr then
        (if CharOf (astr ! i) \<noteq> 0 then do {
           s1 \<leftarrow> poke p (int i + x) (SetChar2 (astr ! i)) s;
           addchnstr_loop p x astr (i + 1) n s1 }
         else Some s)
      else None)"

definition waddchnstr :: "updater \<Rightarrow> nat \<Rightarrow> chtype list \<Rightarrow> int \<Rightarrow> nc \<Rightarrow> (int \<times> nc) option" where
  "waddchnstr du w astr n s =
     (if w = 0 then Some (ERR, s)
      else do {
        W \<leftarrow> windows s w;
        (let y = cury W; x = curx W in do {
           n1 \<leftarrow> (if n < 0 then chlen astr else Some n);
           (let n2 = (if n1 > maxx W - x + 1 then maxx W - x + 1 else n1) in
            if n2 = 0 then Some (OK, s)
            else do {
              l \<leftarrow> ldat_at W y;
              s1 \<leftarrow> addchnstr_loop (ltext l) x astr 0 (nat n2) s;
              s2 \<leftarrow> modl w y (changed_range x (to_short (x + n2 - 1))) s1;
              s3 \<leftarrow> synchook du w s2;
              Some (OK, s3) }) }) })"

section \<open>Safety of adding characters\<close>

text \<open>Moving the cursor within the window.\<close>

lemma ok_modw_cursor:
  assumes "draws w s0 s" and "windows s w = Some W" and "geom (f W) = geom W" and "lines (f W) = lines W"
    and "immed (f W) = immed W" and "win_ok s w W \<Longrightarrow> win_ok s w (f W)"
  shows "\<exists>s'. modw w f s = Some s' \<and> draws w s0 s' \<and> windows s' = (windows s)(w \<mapsto> f W) \<and> newscr s' = newscr s"
  by (rule ok_modw_plain [where f = f, OF assms]) auto

lemma win_ok_move:
  "win_ok s w W \<Longrightarrow> 0 \<le> x \<Longrightarrow> x \<le> maxx W \<Longrightarrow> 0 \<le> y \<Longrightarrow> y \<le> maxy W \<Longrightarrow> win_ok s w (W\<lparr>curx := x, cury := y\<rparr>)"
  "win_ok s w W \<Longrightarrow> 0 \<le> x \<Longrightarrow> x \<le> maxx W \<Longrightarrow> win_ok s w (W\<lparr>curx := x\<rparr>)"
  "win_ok s w W \<Longrightarrow> 0 \<le> y \<Longrightarrow> y \<le> maxy W \<Longrightarrow> win_ok s w (W\<lparr>cury := y\<rparr>)"
  by (auto simp: win_ok_def)

lemma ok_set_cursor:
  assumes "draws w s0 s" and "windows s w = Some W" and "0 \<le> x" and "x \<le> maxx W" and "0 \<le> y" and "y \<le> maxy W"
  shows "ok (set_cursor w x y s) (\<lambda>(r, s'). draws w s0 s')"
  using ok_modw_cursor [where f = "\<lambda>W. W\<lparr>curx := x, cury := y\<rparr>", OF assms(1,2)] win_ok_move(1) [OF _ assms(3-6)]
  by (auto simp: set_cursor_def)

lemma newline_forces_scroll_range:
  assumes "win_ok s w W" and "0 \<le> y" and "y \<le> maxy W"
  shows "0 \<le> snd (newline_forces_scroll W y) \<and> snd (newline_forces_scroll W y) \<le> maxy W"
  using assms(2,3) win_okD [OF assms(1)] by (auto simp: newline_forces_scroll_def to_short_id)

lemma ok_wrap_to_next_line:
  assumes "du_ok du" and "draws w s0 s" and "windows s w = Some W" and "w \<noteq> newscr s"
  shows "ok (wrap_to_next_line du w s) (\<lambda>(r, s'). draws w s0 s')"
proof -
  let ?f1 = "\<lambda>W. W\<lparr>flags := flags W OR F_WRAPPED\<rparr>"
  obtain s1 where s1: "modw w ?f1 s = Some s1" "draws w s0 s1" "windows s1 = (windows s)(w \<mapsto> ?f1 W)" "newscr s1 = newscr s"
    using ok_modw_cursor [where f = ?f1, OF assms(2,3)] by auto
  let ?W = "?f1 W"
  have W1: "windows s1 w = Some ?W" using s1(3) by simp
  have k: "win_ok s1 w ?W" using invD(1) [OF evolvesD(1) [OF s1(2)] W1] .
  have n1: "w \<noteq> newscr s1" using s1(4) assms(4) by simp
  obtain force y where fy: "newline_forces_scroll ?W (cury ?W) = (force, y)" by fastforce
  have y: "0 \<le> y" "y \<le> maxy ?W"
    using newline_forces_scroll_range [OF k win_ok_cursor(1,2) [OF k n1]] fy by simp_all
  let ?f2 = "\<lambda>W. W\<lparr>cury := y\<rparr>"
  obtain s2 where s2: "modw w ?f2 s1 = Some s2" "draws w s0 s2" "windows s2 = (windows s1)(w \<mapsto> ?f2 ?W)" "newscr s2 = newscr s1"
    using ok_modw_cursor [where f = ?f2, OF s1(2) W1] win_ok_move(3) [OF _ y] by auto
  have W2: "windows s2 w = Some (?f2 ?W)" using s2(3) by simp
  have k2: "win_ok s2 w (?f2 ?W)" using invD(1) [OF evolvesD(1) [OF s2(2)] W2] .
  let ?g = "\<lambda>W. W\<lparr>curx := 0\<rparr>"
  have home: "\<exists>s'. modw w ?g t = Some s' \<and> draws w s0 s'" if t: "draws w s0 t" for t
  proof -
    obtain V where V: "windows t w = Some V" by (rule draws_win [OF assms(2,3) t])
    have "win_ok t w V \<Longrightarrow> win_ok t w (?g V)" using win_okD(3) by (auto intro: win_ok_move(2))
    then show ?thesis using ok_modw_cursor [where f = ?g, OF t V] by auto
  qed
  show ?thesis
  proof (cases force)
    case False
    then show ?thesis using s1(1) W1 fy s2(1) home [OF s2(2)] by (auto simp: wrap_to_next_line_def)
  next
    case True
    let ?f3 = "\<lambda>W. W\<lparr>curx := maxx W\<rparr>"
    obtain s3 where s3: "modw w ?f3 s2 = Some s3" "draws w s0 s3" "windows s3 = (windows s2)(w \<mapsto> ?f3 (?f2 ?W))" "newscr s3 = newscr s2"
      using ok_modw_cursor [where f = ?f3, OF s2(2) W2] win_ok_move(2) win_okD(3) [OF k2] by auto
    have W3: "windows s3 w = Some (?f3 (?f2 ?W))" using s3(3) by simp
    have n3: "w \<noteq> newscr s3" using s3(4) s2(4) n1 by simp
    have "ok (wscrl du w 1 s3) (\<lambda>(r, s'). draws w s0 s')"
      by (rule ok_wscrl [OF assms(1) s3(2) W3 n3]) simp_all
    then obtain r s4 where s4: "wscrl du w 1 s3 = Some (r, s4)" "draws w s0 s4" by (rule ok_pairE)
    show ?thesis
      using True s1(1) W1 fy s2(1) s3(1,2) s4(1) home [OF s4(2)] by (auto simp: wrap_to_next_line_def)
  qed
qed

text \<open>The character itself is written and marked; then the cursor moves on, or to the next line.\<close>

lemma literal_written:
  assumes "draws w s0 s" and "windows s w = Some W" and "w \<noteq> newscr s"
  obtains l s1 s2 ls where "ldat_at W (cury W) = Some l" and "modl w (cury W) (changed_cell (curx W)) s = Some s1"
    and "poke (ltext l) (curx W) (render_char W ch) s1 = Some s2" and "draws w s0 s2"
    and "windows s2 = (windows s)(w \<mapsto> W\<lparr>lines := ls\<rparr>)" and "newscr s2 = newscr s"
proof -
  have k: "win_ok s w W" using invD(1) [OF evolvesD(1) [OF assms(1)] assms(2)] .
  note c = win_ok_cursor [OF k assms(3)]
  have "ok (do { l \<leftarrow> ldat_at W (cury W); s1 \<leftarrow> modl w (cury W) (changed_cell (curx W)) s;
        ofold (\<lambda>x. poke (ltext l) x (render_char W ch)) [curx W] s1 })
    (\<lambda>s'. draws w s0 s' \<and> (\<exists>W'. windows s' = (windows s)(w \<mapsto> W') \<and> (\<exists>ls. W' = W\<lparr>lines := ls\<rparr>)))"
    by (rule ok_mark_fill [where a = "curx W" and b = "curx W", OF assms(1,2)])
      (use c changed_cell_mark [OF _ c(3,4) win_okD(4) [OF k]] in auto)
  then obtain s2 where s2: "do { l \<leftarrow> ldat_at W (cury W); s1 \<leftarrow> modl w (cury W) (changed_cell (curx W)) s;
        ofold (\<lambda>x. poke (ltext l) x (render_char W ch)) [curx W] s1 } = Some s2"
    "draws w s0 s2" "\<exists>W'. windows s2 = (windows s)(w \<mapsto> W') \<and> (\<exists>ls. W' = W\<lparr>lines := ls\<rparr>)" by (rule ok_conjE)
  obtain ls where ls: "windows s2 = (windows s)(w \<mapsto> W\<lparr>lines := ls\<rparr>)" using s2(3) by auto
  obtain l s1 where "ldat_at W (cury W) = Some l" "modl w (cury W) (changed_cell (curx W)) s = Some s1"
    "poke (ltext l) (curx W) (render_char W ch) s1 = Some s2"
    using s2(1) by (auto simp: bind_eq_Some_conv)
  then show thesis using that s2(2) ls draws_newscr [OF assms(1) s2(2)] by blast
qed

lemma ok_waddch_literal:
  assumes "du_ok du" and "draws w s0 s" and "windows s w = Some W" and "w \<noteq> newscr s"
  shows "ok (waddch_literal du w ch s) (\<lambda>(r, s'). draws w s0 s')"
proof -
  obtain l s1 s2 ls where t: "ldat_at W (cury W) = Some l" "modl w (cury W) (changed_cell (curx W)) s = Some s1"
    "poke (ltext l) (curx W) (render_char W ch) s1 = Some s2" "draws w s0 s2"
    "windows s2 = (windows s)(w \<mapsto> W\<lparr>lines := ls\<rparr>)" "newscr s2 = newscr s"
    by (rule literal_written [OF assms(2-4)])
  have W2: "windows s2 w = Some (W\<lparr>lines := ls\<rparr>)" using t(5) by simp
  have n2: "w \<noteq> newscr s2" using t(6) assms(4) by simp
  have k2: "win_ok s2 w (W\<lparr>lines := ls\<rparr>)" using invD(1) [OF evolvesD(1) [OF t(4)] W2] .
  have c: "0 \<le> curx W" "maxx W < 32767" using win_ok_cursor(3) [OF k2 n2] win_okD(4) [OF k2] by simp_all
  let ?f = "\<lambda>V. V\<lparr>curx := to_short (curx W + 1)\<rparr>"
  show ?thesis
  proof (cases "curx W + 1 > maxx W")
    case True
    then show ?thesis using t assms(3) ok_wrap_to_next_line [OF assms(1) t(4) W2 n2] by (simp add: waddch_literal_def Let_def)
  next
    case False
    have "win_ok s2 w (W\<lparr>lines := ls\<rparr>) \<Longrightarrow> win_ok s2 w (?f (W\<lparr>lines := ls\<rparr>))"
      using False c by (intro win_ok_move(2)) (auto simp: to_short_id)
    then obtain s3 where "modw w ?f s2 = Some s3" "draws w s0 s3"
      using ok_modw_cursor [where f = ?f, OF t(4) W2] by auto
    then show ?thesis using False t assms(3) by (simp add: waddch_literal_def Let_def)
  qed
qed

text \<open>Within the line, and at the end of the last line of a window that does not scroll.\<close>

lemma waddch_literal_within:
  assumes "draws w s0 s" and "windows s w = Some W" and "w \<noteq> newscr s" and "curx W < maxx W"
  obtains s' ls where "waddch_literal du w ch s = Some (OK, s')" and "draws w s0 s'"
    and "windows s' w = Some (W\<lparr>lines := ls, curx := curx W + 1\<rparr>)" and "newscr s' = newscr s"
proof -
  obtain l s1 s2 ls where t: "ldat_at W (cury W) = Some l" "modl w (cury W) (changed_cell (curx W)) s = Some s1"
    "poke (ltext l) (curx W) (render_char W ch) s1 = Some s2" "draws w s0 s2"
    "windows s2 = (windows s)(w \<mapsto> W\<lparr>lines := ls\<rparr>)" "newscr s2 = newscr s"
    by (rule literal_written [OF assms(1-3)])
  have W2: "windows s2 w = Some (W\<lparr>lines := ls\<rparr>)" using t(5) by simp
  have k2: "win_ok s2 w (W\<lparr>lines := ls\<rparr>)" using invD(1) [OF evolvesD(1) [OF t(4)] W2] .
  have "0 \<le> curx W" "maxx W < 32767" using win_ok_cursor(3) [OF k2] win_okD(4) [OF k2] t(6) assms(3) by simp_all
  then have ts: "to_short (curx W + 1) = curx W + 1" using assms(4) by (simp add: to_short_id)
  let ?f = "\<lambda>V. V\<lparr>curx := to_short (curx W + 1)\<rparr>"
  have "win_ok s2 w (W\<lparr>lines := ls\<rparr>) \<Longrightarrow> win_ok s2 w (?f (W\<lparr>lines := ls\<rparr>))"
    using ts \<open>0 \<le> curx W\<close> assms(4) by (intro win_ok_move(2)) auto
  then obtain s3 where s3: "modw w ?f s2 = Some s3" "draws w s0 s3"
    "windows s3 = (windows s2)(w \<mapsto> ?f (W\<lparr>lines := ls\<rparr>))" "newscr s3 = newscr s2"
    using ok_modw_cursor [where f = ?f, OF t(4) W2] by auto
  show thesis
    by (rule that [of s3 ls]) (use s3 t assms(2,4) ts in \<open>simp_all add: waddch_literal_def Let_def\<close>)
qed

lemma literal_cells:
  assumes "ldat_at W (cury W) = Some l" and "modl w (cury W) (changed_cell (curx W)) s = Some s1"
    and "poke (ltext l) (curx W) c s1 = Some s2" and "inv s" and "windows s w = Some W" and "w \<noteq> newscr s"
  shows "wcell s2 w y x = (if y = cury W \<and> x = curx W then Some c else wcell s w y x)"
proof -
  have k: "win_ok s w W" using invD(1) [OF assms(4,5)] .
  note b = win_ok_cursor [OF k assms(6)]
  have g: "ltext (changed_cell (curx W) l) = ltext l" for l by (simp add: changed_cell_def)
  let ?W = "W\<lparr>lines := (lines W)[nat (cury W) := changed_cell (curx W) l]\<rparr>"
  have "l \<in> set (lines W)" using ldat_at_range [OF assms(1)] by auto
  then have lm: "mark_ok (maxx W) l" using k by (auto simp: win_ok_def)
  note m = changed_cell_mark [OF lm b(3,4) win_okD(4) [OF k]]
  have "ok (modl w (cury W) (changed_cell (curx W)) s) (\<lambda>s'. draws w s s' \<and> s' = set_win w ?W s)"
    by (rule ok_modl [OF evolves_refl [OF assms(4)] assms(5,1)]) (simp_all add: m)
  then have s1: "draws w s s1" "s1 = set_win w ?W s" unfolding assms(2) ok_Some by blast+
  have W1: "windows s1 w = Some ?W" using s1(2) by simp
  have l1: "ldat_at ?W (cury W) = Some (changed_cell (curx W) l)" using ldat_at_update [OF assms(1)] by simp
  have p: "poke (ltext (changed_cell (curx W) l)) (curx W) c s1 = Some s2" using assms(3) g by simp
  have "wcell s2 w y x = (if y = cury W \<and> x = curx W then Some c else wcell s1 w y x)"
    by (rule wcell_poke(1) [OF p evolvesD(1) [OF s1(1)] W1 l1]) (use b in simp_all)
  then show ?thesis using wcell_modl [OF assms(2) g, of w y x] by simp
qed

lemma waddch_literal_stuck:
  assumes "draws w s0 s" and "windows s w = Some W" and "w \<noteq> newscr s" and "curx W = maxx W"
    and "\<not> scrollf W" and "cury W = regbottom W"
  obtains s' W' where "waddch_literal du w ch s = Some (ERR, s')" and "draws w s0 s'" and "windows s' w = Some W'"
    and "curx W' = maxx W" and "cury W' = cury W" and "immed W' = immed W"
    and "\<forall>y x. wcell s' w y x = (if y = cury W \<and> x = curx W then Some (render_char W ch) else wcell s w y x)"
proof -
  obtain l s1 s2 ls where t: "ldat_at W (cury W) = Some l" "modl w (cury W) (changed_cell (curx W)) s = Some s1"
    "poke (ltext l) (curx W) (render_char W ch) s1 = Some s2" "draws w s0 s2"
    "windows s2 = (windows s)(w \<mapsto> W\<lparr>lines := ls\<rparr>)" "newscr s2 = newscr s"
    by (rule literal_written [OF assms(1-3)])
  let ?V = "W\<lparr>lines := ls\<rparr>"
  have W2: "windows s2 w = Some ?V" using t(5) by simp
  let ?f = "\<lambda>W. W\<lparr>flags := flags W OR F_WRAPPED\<rparr>"
  obtain s3 where s3: "modw w ?f s2 = Some s3" "draws w s0 s3" "windows s3 = (windows s2)(w \<mapsto> ?f ?V)" "newscr s3 = newscr s2"
    using ok_modw_cursor [where f = ?f, OF t(4) W2] by auto
  have W3: "windows s3 w = Some (?f ?V)" using s3(3) by simp
  have k3: "win_ok s3 w (?f ?V)" using invD(1) [OF evolvesD(1) [OF s3(2)] W3] .
  have nf: "newline_forces_scroll (?f ?V) (cury W) = (True, cury W)"
    using assms(6) win_okD(7) [OF k3] by (simp add: newline_forces_scroll_def)
  have c: "0 \<le> cury W" "cury W \<le> maxy W" using assms(6) win_okD(6-8) [OF k3] by simp_all
  let ?g = "\<lambda>W'. W'\<lparr>cury := cury W\<rparr>"
  obtain s4 where s4: "modw w ?g s3 = Some s4" "draws w s0 s4" "windows s4 = (windows s3)(w \<mapsto> ?g (?f ?V))"
    using ok_modw_cursor [where f = ?g, OF s3(2) W3] win_ok_move(3) [OF _ c(1)] c(2) by auto
  have W4: "windows s4 w = Some (?g (?f ?V))" using s4(3) by simp
  have k4: "win_ok s4 w (?g (?f ?V))" using invD(1) [OF evolvesD(1) [OF s4(2)] W4] .
  let ?h = "\<lambda>W. W\<lparr>curx := maxx W\<rparr>"
  obtain s5 where s5: "modw w ?h s4 = Some s5" "draws w s0 s5" "windows s5 = (windows s4)(w \<mapsto> ?h (?g (?f ?V)))"
    using ok_modw_cursor [where f = ?h, OF s4(2) W4] win_ok_move(2) win_okD(3) [OF k4] by auto
  have "wrap_to_next_line du w s2 = Some (ERR, s5)"
    using s3(1) W3 nf s4(1) s5(1) assms(5) by (simp add: wrap_to_next_line_def)
  then have run: "waddch_literal du w ch s = Some (ERR, s5)" using t assms(2,4) by (simp add: waddch_literal_def Let_def)
  have W5: "windows s5 w = Some (?h (?g (?f ?V)))" using s5(3) by simp
  have "wcell s5 w y x = wcell s2 w y x" for y x
    using wcell_modw [OF s5(1), of w y x] wcell_modw [OF s4(1), of w y x] wcell_modw [OF s3(1), of w y x] by simp
  then have cl: "\<forall>y x. wcell s5 w y x = (if y = cury W \<and> x = curx W then Some (render_char W ch) else wcell s w y x)"
    using literal_cells [OF t(1-3) evolvesD(1) [OF assms(1)] assms(2,3)] by simp
  show thesis by (rule that [OF run s5(2) W5 _ _ _ cl]) simp_all
qed

lemma tab_fill_within:
  assumes "draws w s0 s" and "windows s w = Some W" and "w \<noteq> newscr s" and "x \<le> maxx W"
    and "x - curx W < int n" and "0 < n"
  shows "ok (tab_fill n du w blank x s) (\<lambda>(r, s'). draws w s0 s')"
  using assms
proof (induction n arbitrary: s W)
  case 0
  then show ?case by simp
next
  case (Suc n)
  show ?case
  proof (cases "curx W < x")
    case False
    then show ?thesis using Suc.prems(1,2) by simp
  next
    case True
    have "curx W < maxx W" using True Suc.prems(4) by simp
    then obtain s1 ls where s1: "waddch_literal du w blank s = Some (OK, s1)" "draws w s0 s1"
      "windows s1 w = Some (W\<lparr>lines := ls, curx := curx W + 1\<rparr>)" "newscr s1 = newscr s"
      by (rule waddch_literal_within [OF Suc.prems(1-3)])
    have "w \<noteq> newscr s1" using s1(4) Suc.prems(3) by simp
    from Suc.IH [OF s1(2,3) this] Suc.prems(4,5) True
    have "ok (tab_fill n du w blank x s1) (\<lambda>(r, s'). draws w s0 s')" by simp
    then show ?thesis using True Suc.prems(2) s1(1) by simp
  qed
qed

lemma tab_fill_stuck:
  assumes "draws w s0 s" and "windows s w = Some W" and "w \<noteq> newscr s" and "\<not> scrollf W" and "cury W = regbottom W"
    and "maxx W - curx W < int n" and "maxx W < x"
  shows "ok (tab_fill n du w blank x s) (\<lambda>(r, s'). draws w s0 s' \<and> r = ERR)"
  using assms
proof (induction n arbitrary: s W)
  case 0
  have "curx W \<le> maxx W"
    using win_ok_cursor(4) [OF invD(1) [OF evolvesD(1) [OF "0.prems"(1)] "0.prems"(2)] "0.prems"(3)] .
  then show ?case using "0.prems"(6) by simp
next
  case (Suc n)
  have cx: "curx W \<le> maxx W"
    using win_ok_cursor(4) [OF invD(1) [OF evolvesD(1) [OF Suc.prems(1)] Suc.prems(2)] Suc.prems(3)] .
  then have lt: "curx W < x" using Suc.prems(7) by simp
  show ?case
  proof (cases "curx W = maxx W")
    case True
    obtain s1 where "waddch_literal du w blank s = Some (ERR, s1)" "draws w s0 s1"
      using waddch_literal_stuck [OF Suc.prems(1-3) True Suc.prems(4,5)] by blast
    then show ?thesis using lt Suc.prems(2) by simp
  next
    case False
    then have "curx W < maxx W" using cx by simp
    then obtain s1 ls where s1: "waddch_literal du w blank s = Some (OK, s1)" "draws w s0 s1"
      "windows s1 w = Some (W\<lparr>lines := ls, curx := curx W + 1\<rparr>)" "newscr s1 = newscr s"
      by (rule waddch_literal_within [OF Suc.prems(1-3)])
    have "w \<noteq> newscr s1" using s1(4) Suc.prems(3) by simp
    from Suc.IH [OF s1(2,3) this] Suc.prems(4-7)
    have "ok (tab_fill n du w blank x s1) (\<lambda>(r, s'). draws w s0 s' \<and> r = ERR)" by simp
    then show ?thesis using lt Suc.prems(2) s1(1) by simp
  qed
qed

lemma ok_add_literals:
  assumes "du_ok du" and "draws w s0 s" and "windows s w = Some W" and "w \<noteq> newscr s"
  shows "ok (add_literals du w cs s) (\<lambda>(r, s'). draws w s0 s')"
  using assms(2-4)
proof (induction cs arbitrary: s W)
  case Nil
  then show ?case by simp
next
  case (Cons c cs)
  from ok_waddch_literal [OF assms(1) Cons.prems] obtain r s1 where
    s1: "waddch_literal du w c s = Some (r, s1)" "draws w s0 s1" by (rule ok_pairE)
  obtain V where V: "windows s1 w = Some V" by (rule draws_win [OF Cons.prems(1,2) s1(2)])
  have "w \<noteq> newscr s1" using draws_newscr [OF Cons.prems(1) s1(2)] Cons.prems(3) by simp
  from Cons.IH [OF s1(2) V this] show ?case using s1 by simp
qed

text \<open>After any drawing step the window is there, and is not \<open>newscr\<close>.\<close>

lemma drawn_on:
  assumes "draws w s0 s" and "windows s w = Some W" and "w \<noteq> newscr s" and "draws w s0 t"
  obtains V where "windows t w = Some V" and "maxy V = maxy W" and "maxx V = maxx W" and "w \<noteq> newscr t"
    and "win_ok t w V"
proof -
  obtain V where V: "windows t w = Some V" "maxy V = maxy W" "maxx V = maxx W" by (rule draws_win [OF assms(1,2,4)])
  show thesis
    using that [OF V] draws_newscr [OF assms(1,4)] assms(3) invD(1) [OF evolvesD(1) [OF assms(4)] V(1)] by simp
qed

lemma ok_add_tab:
  assumes "du_ok du" and "draws w s0 s" and "windows s w = Some W" and "w \<noteq> newscr s"
  shows "ok (add_tab du w ch s) (\<lambda>(r, s'). draws w s0 s')"
proof -
  have i: "inv s" using evolvesD(1) [OF assms(2)] .
  have k: "win_ok s w W" using invD(1) [OF i assms(3)] .
  have ts: "0 < tabsize s" using i by (simp add: inv_def)
  note c = win_ok_cursor [OF k assms(4)] win_okD [OF k]
  define X where "X = curx W + (tabsize s - c_rem (curx W) (tabsize s))"
  have "c_rem (curx W) (tabsize s) = curx W mod tabsize s" using c(3) ts by (rule c_rem_nonneg)
  moreover have "0 \<le> curx W mod tabsize s" "curx W mod tabsize s < tabsize s" using ts by simp_all
  ultimately have X: "curx W < X" "X \<le> curx W + tabsize s" by (simp_all add: X_def)
  then have sx: "to_short X = X" using c by (intro to_short_id) auto
  show ?thesis
  proof (cases "\<not> scrollf W \<and> cury W = regbottom W \<or> X \<le> maxx W")
    case True
    have "ok (tab_fill (nat (maxx W + 2)) du w (AddAttr BLANK (AttrOf ch)) X s) (\<lambda>(r, s'). draws w s0 s' \<and>
        (r \<noteq> ERR \<longrightarrow> X \<le> maxx W))"
    proof (cases "X \<le> maxx W")
      case inside: True
      have "ok (tab_fill (nat (maxx W + 2)) du w (AddAttr BLANK (AttrOf ch)) X s) (\<lambda>(r, s'). draws w s0 s')"
        by (rule tab_fill_within [OF assms(2-4) inside]) (use c inside in auto)
      then show ?thesis by (rule ok_mono) (use inside in auto)
    next
      case False
      then have "\<not> scrollf W" "cury W = regbottom W" using True by auto
      then have "ok (tab_fill (nat (maxx W + 2)) du w (AddAttr BLANK (AttrOf ch)) X s) (\<lambda>(r, s'). draws w s0 s' \<and> r = ERR)"
        by (rule tab_fill_stuck [OF assms(2-4)]) (use c False in auto)
      then show ?thesis by (rule ok_mono) auto
    qed
    then obtain r s1 where s1: "tab_fill (nat (maxx W + 2)) du w (AddAttr BLANK (AttrOf ch)) X s = Some (r, s1)"
      "draws w s0 s1" "r \<noteq> ERR \<longrightarrow> X \<le> maxx W" by (rule ok_pair_conjE)
    obtain V where V: "windows s1 w = Some V" "maxy V = maxy W" "maxx V = maxx W"
      by (rule drawn_on [OF assms(2-4) s1(2)])
    show ?thesis
    proof (cases "r = ERR")
      case err: True
      then show ?thesis using True assms(3) ts s1(1,2) sx by (simp add: add_tab_def Let_def X_def)
    next
      case False
      have "ok (set_cursor w X (cury W) s1) (\<lambda>(r, s'). draws w s0 s')"
        by (rule ok_set_cursor [OF s1(2) V(1)]) (use V c X s1(3) False in auto)
      then show ?thesis using True assms(3) ts s1(1) sx False by (simp add: add_tab_def Let_def X_def)
    qed
  next
    case False
    from ok_wclrtoeol [OF assms] obtain r s1 where s1: "wclrtoeol du w s = Some (r, s1)" "draws w s0 s1" by (rule ok_pairE)
    obtain V where V: "windows s1 w = Some V" "maxy V = maxy W" "maxx V = maxx W"
      by (rule drawn_on [OF assms(2-4) s1(2)])
    let ?f = "\<lambda>W. W\<lparr>flags := flags W OR F_WRAPPED\<rparr>"
    obtain s2 where s2: "modw w ?f s1 = Some s2" "draws w s0 s2" "windows s2 = (windows s1)(w \<mapsto> ?f V)"
      using ok_modw_cursor [where f = ?f, OF s1(2) V(1)] by auto
    have W2: "windows s2 w = Some (?f V)" using s2(3) by simp
    have k2: "win_ok s2 w (?f V)" using invD(1) [OF evolvesD(1) [OF s2(2)] W2] .
    have n2: "w \<noteq> newscr s2" using draws_newscr [OF assms(2) s2(2)] assms(4) by simp
    obtain force y where fy: "newline_forces_scroll (?f V) (cury W) = (force, y)" by fastforce
    have y: "0 \<le> y" "y \<le> maxy W" using newline_forces_scroll_range [OF k2 c(1)] c(2) V(2) fy by simp_all
    have fin: "ok (set_cursor w x y t) (\<lambda>(r, s'). draws w s0 s')" if t: "draws w s0 t" and x: "0 \<le> x" "x \<le> maxx W" for x t
    proof -
      obtain U where U: "windows t w = Some U" "maxy U = maxy W" "maxx U = maxx W"
        by (rule drawn_on [OF assms(2-4) t])
      show ?thesis by (rule ok_set_cursor [OF t U(1)]) (use U x y in auto)
    qed
    have "ok (wscrl du w 1 s2) (\<lambda>(r, s'). draws w s0 s')"
      by (rule ok_wscrl [OF assms(1) s2(2) W2 n2]) simp_all
    then obtain r3 s3 where s3: "wscrl du w 1 s2 = Some (r3, s3)" "draws w s0 s3" by (rule ok_pairE)
    have e: "add_tab du w ch s = (if force then (if scrollf V then set_cursor w 0 y s3 else set_cursor w (maxx W) y s2)
        else set_cursor w 0 y s2)"
      using False assms(3) ts s1(1) s2(1) W2 s3(1) sx fy V(3) by (auto simp: add_tab_def Let_def X_def)
    show ?thesis unfolding e using fin [OF s2(2)] fin [OF s3(2)] c by simp
  qed
qed

lemma ok_add_return:
  assumes "draws w s0 s" and "windows s w = Some W" and "0 \<le> y" and "y \<le> maxy W"
  shows "ok (add_return w y s) (\<lambda>(r, s'). draws w s0 s')"
proof -
  let ?f = "\<lambda>W. W\<lparr>flags := flags W AND NOT F_WRAPPED\<rparr>"
  obtain s1 where s1: "modw w ?f s = Some s1" "draws w s0 s1" "windows s1 = (windows s)(w \<mapsto> ?f W)"
    using ok_modw_cursor [where f = ?f, OF assms(1,2)] by auto
  have W1: "windows s1 w = Some (?f W)" using s1(3) by simp
  have k: "win_ok s1 w (?f W)" using invD(1) [OF evolvesD(1) [OF s1(2)] W1] .
  have "ok (set_cursor w 0 y s1) (\<lambda>(r, s'). draws w s0 s')"
    by (rule ok_set_cursor [OF s1(2) W1]) (use assms(3,4) win_okD(3) [OF k] in auto)
  then show ?thesis using s1(1) by (simp add: add_return_def)
qed

lemma ok_add_newline:
  assumes "du_ok du" and "draws w s0 s" and "windows s w = Some W" and "w \<noteq> newscr s"
  shows "ok (add_newline du w s) (\<lambda>(r, s'). draws w s0 s')"
proof -
  have k: "win_ok s w W" using invD(1) [OF evolvesD(1) [OF assms(2)] assms(3)] .
  note c = win_ok_cursor [OF k assms(4)]
  from ok_wclrtoeol [OF assms] obtain r s1 where s1: "wclrtoeol du w s = Some (r, s1)" "draws w s0 s1" by (rule ok_pairE)
  obtain V where V: "windows s1 w = Some V" "maxy V = maxy W" "maxx V = maxx W" "w \<noteq> newscr s1" "win_ok s1 w V"
    by (rule drawn_on [OF assms(2-4) s1(2)])
  obtain force y where fy: "newline_forces_scroll V (cury W) = (force, y)" by fastforce
  have y: "0 \<le> y" "y \<le> maxy W" using newline_forces_scroll_range [OF V(5) c(1)] c(2) V(2) fy by simp_all
  have fin: "ok (add_return w y t) (\<lambda>(r, s'). draws w s0 s')" if t: "draws w s0 t" for t
  proof -
    obtain U where U: "windows t w = Some U" "maxy U = maxy W" by (rule drawn_on [OF assms(2-4) t])
    show ?thesis by (rule ok_add_return [OF t U(1)]) (use U y in auto)
  qed
  have "ok (wscrl du w 1 s1) (\<lambda>(r, s'). draws w s0 s')" by (rule ok_wscrl [OF assms(1) s1(2) V(1,4)]) simp_all
  then obtain r3 s3 where s3: "wscrl du w 1 s1 = Some (r3, s3)" "draws w s0 s3" by (rule ok_pairE)
  have e: "add_newline du w s = (if force then (if scrollf V then add_return w y s3 else Some (ERR, s1)) else add_return w y s1)"
    using assms(3) s1(1) V(1) s3(1) fy by (auto simp: add_newline_def)
  show ?thesis unfolding e using fin [OF s1(2)] fin [OF s3(2)] s1(2) by simp
qed

lemma ok_waddch_nosync:
  assumes "du_ok du" and "draws w s0 s" and "windows s w = Some W" and "w \<noteq> newscr s"
  shows "ok (waddch_nosync du w ch s) (\<lambda>(r, s'). draws w s0 s')"
proof -
  have k: "win_ok s w W" using invD(1) [OF evolvesD(1) [OF assms(2)] assms(3)] .
  note c = win_ok_cursor [OF k assms(4)]
  let ?f = "\<lambda>W. W\<lparr>flags := flags W AND NOT F_WRAPPED\<rparr>"
  obtain s1 where s1: "modw w ?f s = Some s1" "draws w s0 s1" "windows s1 = (windows s)(w \<mapsto> ?f W)"
    using ok_modw_cursor [where f = ?f, OF assms(2,3)] by auto
  have W1: "windows s1 w = Some (?f W)" using s1(3) by simp
  have bs: "ok (set_cursor w (curx W - 1) (cury W) s1) (\<lambda>(r, s'). draws w s0 s')" if "curx W \<noteq> 0"
    by (rule ok_set_cursor [OF s1(2) W1]) (use c that in auto)
  have ret: "ok (add_return w (cury W) s) (\<lambda>(r, s'). draws w s0 s')"
    by (rule ok_add_return [OF assms(2,3) c(1,2)])
  have bsp: "ok (if curx W = 0 then Some (OK, s) else do { s1 \<leftarrow> modw w ?f s; set_cursor w (curx W - 1) (cury W) s1 })
      (\<lambda>(r, s'). draws w s0 s')" using bs s1(1) assms(2) by simp
  show ?thesis
    unfolding waddch_nosync_def Let_def
    using ok_waddch_literal [OF assms] ok_add_tab [OF assms] ok_add_newline [OF assms]
      ok_add_literals [OF assms] ret bsp assms(3)
    by (simp del: ok_bind)
qed

lemma ok_waddch:
  assumes "du_ok du" and "draws w s0 s" and "windows s w = Some W" and "w \<noteq> newscr s"
  shows "ok (waddch du w ch s) (\<lambda>(r, s'). draws w s0 s')"
proof -
  have w0: "w \<noteq> 0" using invD(2) [OF evolvesD(1) [OF assms(2)] assms(3)] .
  from ok_waddch_nosync [OF assms] obtain r s1 where
    s1: "waddch_nosync du w ch s = Some (r, s1)" "draws w s0 s1" by (rule ok_pairE)
  obtain V where V: "windows s1 w = Some V" "w \<noteq> newscr s1" by (rule drawn_on [OF assms(2-4) s1(2)])
  show ?thesis
    using w0 s1 ok_then_synchook [OF assms(1) s1(2) V, of OK] by (simp add: waddch_def)
qed

text \<open>The array is terminated, or longer than the count.\<close>

definition readable :: "chtype list \<Rightarrow> int \<Rightarrow> bool" where
  "readable astr n \<longleftrightarrow> 0 \<in> set astr \<or> 0 \<le> n \<and> n < int (length astr)"

lemma ok_addnstr_loop:
  assumes "du_ok du" and "draws w s0 s" and "windows s w = Some W" and "w \<noteq> newscr s"
    and "0 \<in> set (drop i astr) \<or> n < int (length astr) - int i" and "0 \<le> n"
  shows "ok (addnstr_loop du w astr i n s) (\<lambda>(r, s'). draws w s0 s')"
  using assms(2-6)
proof (induction "length astr - i" arbitrary: i n s W rule: less_induct)
  case less
  have i: "i < length astr" using less.prems(4,5) by (cases "i < length astr") auto
  show ?case
  proof (cases "astr ! i \<noteq> 0 \<and> n > 0")
    case False
    then show ?thesis using i less.prems(1) by (auto simp: addnstr_loop.simps [of _ _ _ i])
  next
    case True
    from ok_waddch_nosync [OF assms(1) less.prems(1-3)] obtain r s1 where
      s1: "waddch_nosync du w (astr ! i) s = Some (r, s1)" "draws w s0 s1" by (rule ok_pairE)
    obtain V where V: "windows s1 w = Some V" "w \<noteq> newscr s1" by (rule drawn_on [OF less.prems(1-3) s1(2)])
    have "0 \<in> set (drop (i + 1) astr) \<or> n - 1 < int (length astr) - int (i + 1)"
      using less.prems(4) True i Cons_nth_drop_Suc [OF i, symmetric] by auto
    from less.hyps [OF _ s1(2) V this] i True
    have "ok (addnstr_loop du w astr (i + 1) (n - 1) s1) (\<lambda>(r, s'). draws w s0 s')" by simp
    then show ?thesis using i True s1 by (simp add: addnstr_loop.simps [of _ _ _ i])
  qed
qed

lemma ok_waddnstr:
  assumes "du_ok du" and "draws w s0 s" and "windows s w = Some W" and "w \<noteq> newscr s" and "readable astr n"
  shows "ok (waddnstr du w astr n s) (\<lambda>(r, s'). draws w s0 s')"
proof -
  have w0: "w \<noteq> 0" using invD(2) [OF evolvesD(1) [OF assms(2)] assms(3)] .
  let ?n = "if n < 0 then INT_MAX else n"
  have "ok (addnstr_loop du w astr 0 ?n s) (\<lambda>(r, s'). draws w s0 s')"
    by (rule ok_addnstr_loop [OF assms(1-4)]) (use assms(5) in \<open>auto simp: readable_def INT_MAX_def\<close>)
  then obtain r s1 where s1: "addnstr_loop du w astr 0 ?n s = Some (r, s1)" "draws w s0 s1" by (rule ok_pairE)
  obtain V where V: "windows s1 w = Some V" "w \<noteq> newscr s1" by (rule drawn_on [OF assms(2-4) s1(2)])
  show ?thesis using w0 s1 ok_then_synchook [OF assms(1) s1(2) V, of r] by (simp add: waddnstr_def)
qed

lemma addnstr_loop_overread:
  assumes "0 \<notin> set astr" and "int i + n = int (length astr)" and "i \<le> length astr"
    and "addnstr_loop du w astr i n s = Some (r, s')"
  shows "r = ERR"
  using assms(2-4)
proof (induction "length astr - i" arbitrary: i n s rule: less_induct)
  case less
  have i: "i < length astr"
    using less.prems(3) by (cases "i < length astr") (simp_all add: addnstr_loop.simps [of _ _ _ i])
  then have "astr ! i \<noteq> 0" using assms(1) by (metis nth_mem)
  moreover have "n > 0" using less.prems(1) i by simp
  ultimately obtain c s1 where c: "waddch_nosync du w (astr ! i) s = Some (c, s1)"
    "if c = ERR then r = ERR else addnstr_loop du w astr (i + 1) (n - 1) s1 = Some (r, s')"
    using less.prems(3) i by (auto simp: addnstr_loop.simps [of _ _ _ i] bind_eq_Some_conv split: if_splits)
  show ?case
  proof (cases "c = ERR")
    case True
    then show ?thesis using c(2) by simp
  next
    case False
    then have "addnstr_loop du w astr (i + 1) (n - 1) s1 = Some (r, s')" using c(2) by simp
    from less.hyps [OF _ _ _ this] i less.prems(1) show ?thesis by simp
  qed
qed

text \<open>
  An array without a terminator that is exactly as long as the count given to \<open>waddnstr\<close> is
  read past its end whenever all its characters are written: the loop tests \<open>*str != 0\<close> before
  the count, so the call cannot succeed.
\<close>

theorem waddnstr_overread:
  assumes "0 \<notin> set astr" and "w \<noteq> 0"
  shows "waddnstr du w astr (int (length astr)) s \<noteq> Some (OK, s')"
proof
  assume "waddnstr du w astr (int (length astr)) s = Some (OK, s')"
  then obtain s1 where "addnstr_loop du w astr 0 (int (length astr)) s = Some (OK, s1)"
    using assms(2) by (auto simp: waddnstr_def bind_eq_Some_conv)
  from addnstr_loop_overread [OF assms(1) _ _ this] show False by simp
qed

lemma ok_addchnstr_loop:
  assumes "evolves w D s0 s" and "windows s w = Some W" and "ldat_at W y = Some l"
    and "0 \<in> set (drop i astr) \<or> n + i \<le> length astr" and "0 \<le> x" and "x + int (i + n) \<le> m" and "m \<le> maxx W + 1"
    and "\<And>c. x \<le> c \<Longrightarrow> c < m \<Longrightarrow> (y, c) \<in> D"
  shows "ok (addchnstr_loop (ltext l) x astr i n s) (\<lambda>s'. evolves w D s0 s' \<and> windows s' = windows s)"
  using assms(1,2,4,6)
proof (induction n arbitrary: i s)
  case 0
  then show ?case by simp
next
  case (Suc n)
  have i: "i < length astr" using Suc.prems(3) by (cases "i < length astr") auto
  show ?case
  proof (cases "CharOf (astr ! i) = 0")
    case True
    then show ?thesis using i Suc.prems(1) by simp
  next
    case False
    have "ok (poke (ltext l) (int i + x) (astr ! i) s) (\<lambda>s'. evolves w D s0 s' \<and> windows s' = windows s)"
      by (rule ok_poke [OF Suc.prems(1,2) assms(3)]) (use assms(5,7,8) Suc.prems(4) in auto)
    then obtain s1 where s1: "poke (ltext l) (int i + x) (astr ! i) s = Some s1" "evolves w D s0 s1"
      "windows s1 = windows s" by (rule ok_conjE)
    have W1: "windows s1 w = Some W" using s1(3) Suc.prems(2) by simp
    have "astr ! i \<noteq> 0" using False by (auto simp: CharOf_def)
    then have p: "0 \<in> set (drop (i + 1) astr) \<or> n + (i + 1) \<le> length astr"
      using Suc.prems(3) Cons_nth_drop_Suc [OF i, symmetric] by auto
    have "x + int (i + 1 + n) \<le> m" using Suc.prems(4) by simp
    from Suc.IH [OF s1(2) W1 p this] show ?thesis using i False s1(1,3) by simp
  qed
qed

lemma chlen_Some: "0 \<in> set cs \<Longrightarrow> \<exists>n. chlen cs = Some n \<and> 0 \<le> n \<and> n < int (length cs)"
  by (induction cs) auto

lemma ok_waddchnstr:
  assumes "du_ok du" and "draws w s0 s" and "windows s w = Some W" and "w \<noteq> newscr s"
    and "0 \<in> set astr \<or> 0 \<le> n \<and> n \<le> int (length astr)"
  shows "ok (waddchnstr du w astr n s) (\<lambda>(r, s'). draws w s0 s')"
proof -
  have i: "inv s" using evolvesD(1) [OF assms(2)] .
  have k: "win_ok s w W" "w \<noteq> 0" using invD [OF i assms(3)] .
  note c = win_ok_cursor [OF k(1) assms(4)] win_okD [OF k(1)]
  have "\<exists>n1. (if n < 0 then chlen astr else Some n) = Some n1 \<and> 0 \<le> n1 \<and> (0 \<in> set astr \<or> n1 \<le> int (length astr))"
    using assms(5) chlen_Some [of astr] by auto
  then obtain n1 where n1: "(if n < 0 then chlen astr else Some n) = Some n1" "0 \<le> n1"
    "0 \<in> set astr \<or> n1 \<le> int (length astr)" by blast
  let ?n2 = "if n1 > maxx W - curx W + 1 then maxx W - curx W + 1 else n1"
  show ?thesis
  proof (cases "?n2 = 0")
    case True
    then show ?thesis using n1(1) k(2) assms(2,3) by (simp add: waddchnstr_def Let_def)
  next
    case False
    have n2: "0 < ?n2" "curx W + ?n2 \<le> maxx W + 1" "?n2 \<le> n1" using False n1(2) c by auto
    obtain l where l: "ldat_at W (cury W) = Some l" "mark_ok (maxx W) l" using win_ok_line [OF k(1) c(1,2)] .
    let ?D = "{p. fst p = cury W \<and> curx W \<le> snd p \<and> snd p < curx W + ?n2}"
    have "ok (addchnstr_loop (ltext l) (curx W) astr 0 (nat ?n2) s) (\<lambda>s'. evolves w ?D s s' \<and> windows s' = windows s)"
      by (rule ok_addchnstr_loop [where m = "curx W + ?n2", OF evolves_refl [OF i] assms(3) l(1)])
        (use n1 n2 c in auto)
    then obtain s1 where s1: "addchnstr_loop (ltext l) (curx W) astr 0 (nat ?n2) s = Some s1" "evolves w ?D s s1"
      "windows s1 = windows s" by (rule ok_conjE)
    have W1: "windows s1 w = Some W" using s1(3) assms(3) by simp
    define b where "b = curx W + ?n2 - 1"
    have b: "curx W \<le> b" "b \<le> maxx W" "to_short b = b" using n2 c by (auto simp: b_def to_short_id)
    note g = changed_range_mark [OF l(2) c(3) b(1,2) c(8)]
    let ?W = "W\<lparr>lines := (lines W)[nat (cury W) := changed_range (curx W) b l]\<rparr>"
    have "ok (modl w (cury W) (changed_range (curx W) b) s1) (\<lambda>s'. evolves w ?D s s' \<and> s' = set_win w ?W s1)"
      by (rule ok_modl [OF s1(2) W1 l(1)]) (simp_all add: g)
    then obtain s2 where s2: "modl w (cury W) (changed_range (curx W) b) s1 = Some s2" "evolves w ?D s s2"
      "s2 = set_win w ?W s1" by (rule ok_conjE)
    have W2: "windows s2 w = Some ?W" using s2(3) by simp
    have "draws w s s2"
    proof (rule evolves_discharge [OF s2(2) assms(3)])
      fix y x assume "(y, x) \<in> ?D"
      then have "y = cury W" "curx W \<le> x" "x \<le> b" by (auto simp: b_def)
      then show "marked s2 w y x"
        using covers_mono [of "Changed (curx W) b" "sup (mark l) (Changed (curx W) b)" x]
        by (auto simp: marked_line [OF W2] ldat_at_update [OF l(1)] g(1))
    qed
    then have d: "draws w s0 s2" using evolves_trans [OF assms(2)] by blast
    have "w \<noteq> newscr s2" using draws_newscr [OF assms(2) d] assms(4) by simp
    from ok_then_synchook [OF assms(1) d W2 this, of OK] show ?thesis
      using n1(1) k(2) assms(3) False l(1) s1(1) s2(1) b(3) by (auto simp add: waddchnstr_def Let_def b_def split: if_splits)
  qed
qed

section \<open>What adding text does to the contents\<close>

lemma waddch_literal_wcell:
  assumes "waddch_literal du w ch s = Some (r, s')" and "inv s" and "windows s w = Some W" and "w \<noteq> newscr s"
    and "curx W < maxx W"
  shows "wcell s' w y x = (if y = cury W \<and> x = curx W then Some (render_char W ch) else wcell s w y x)"
proof -
  obtain l s1 s2 where t: "ldat_at W (cury W) = Some l" "modl w (cury W) (changed_cell (curx W)) s = Some s1"
    "poke (ltext l) (curx W) (render_char W ch) s1 = Some s2"
    "modw w (\<lambda>V. V\<lparr>curx := to_short (curx W + 1)\<rparr>) s2 = Some s'"
    using assms(1,3,5) by (auto simp: waddch_literal_def Let_def bind_eq_Some_conv)
  show ?thesis using wcell_modw [OF t(4), of w y x] literal_cells [OF t(1-3) assms(2-4)] by simp
qed

lemma render_char_cong:
  assumes "attrs V = attrs W" and "bkgd V = bkgd W"
  shows "render_char V = render_char W"
  by (rule ext) (simp only: render_char_def assms)

lemma literal_case: "isprint (uint (CharOf ch)) \<Longrightarrow> waddch_nosync du w ch s = waddch_literal du w ch s"
  by (auto simp: waddch_nosync_def isprint_def iscntrl_def)

lemma waddch_one:
  assumes "du_ok du" and "inv s" and "windows s w = Some W" and "w \<noteq> newscr s" and "\<not> immed W"
    and "isprint (uint (CharOf ch))" and "curx W < maxx W"
  shows "\<exists>s' W'. waddch du w ch s = Some (OK, s') \<and> windows s' w = Some W' \<and> draws w s s'
    \<and> cury W' = cury W \<and> curx W' = curx W + 1
    \<and> (\<forall>y x. wcell s' w y x = (if y = cury W \<and> x = curx W then Some (render_char W ch) else wcell s w y x))"
proof -
  have e: "draws w s s" by (rule evolves_refl [OF assms(2)])
  have im: "\<not> immediate s w" using assms(3,5) by (simp add: immediate_def)
  have w0: "w \<noteq> 0" using invD(2) [OF assms(2,3)] .
  obtain s1 ls where s1: "waddch_literal du w ch s = Some (OK, s1)" "draws w s s1"
    "windows s1 w = Some (W\<lparr>lines := ls, curx := curx W + 1\<rparr>)" "newscr s1 = newscr s"
    by (rule waddch_literal_within [OF e assms(3,4,7)])
  obtain s2 where s2: "synchook du w s1 = Some s2" "draws w s s2" "windows s2 w = windows s1 w"
    "\<forall>y x. wcell s2 w y x = wcell s1 w y x"
    by (rule synchook_Some_frame [OF assms(1) s1(2,3) assms(4) im])
  have "waddch du w ch s = Some (OK, s2)" using w0 literal_case [OF assms(6)] s1(1) s2(1) by (simp add: waddch_def)
  then show ?thesis
    using s1(3) s2(2-4) waddch_literal_wcell [OF s1(1) assms(2-4,7)]
    by (intro exI [of _ s2] exI [of _ "W\<lparr>lines := ls, curx := curx W + 1\<rparr>"]) simp
qed

text \<open>At the end of a line that is not the last one of the scrolling region the cursor goes on to the next.\<close>

lemma waddch_literal_wraps:
  assumes "draws w s0 s" and "windows s w = Some W" and "w \<noteq> newscr s" and "curx W = maxx W" and "cury W \<noteq> regbottom W"
  obtains s' W' where "waddch_literal du w ch s = Some (OK, s')" and "draws w s0 s'" and "windows s' w = Some W'"
    and "\<forall>y x. wcell s' w y x = (if y = cury W \<and> x = curx W then Some (render_char W ch) else wcell s w y x)"
proof -
  obtain l s1 s2 ls where t: "ldat_at W (cury W) = Some l" "modl w (cury W) (changed_cell (curx W)) s = Some s1"
    "poke (ltext l) (curx W) (render_char W ch) s1 = Some s2" "draws w s0 s2"
    "windows s2 = (windows s)(w \<mapsto> W\<lparr>lines := ls\<rparr>)" "newscr s2 = newscr s"
    by (rule literal_written [OF assms(1-3)])
  let ?V = "W\<lparr>lines := ls\<rparr>"
  have W2: "windows s2 w = Some ?V" using t(5) by simp
  let ?f = "\<lambda>W. W\<lparr>flags := flags W OR F_WRAPPED\<rparr>"
  obtain s3 where s3: "modw w ?f s2 = Some s3" "draws w s0 s3" "windows s3 = (windows s2)(w \<mapsto> ?f ?V)" "newscr s3 = newscr s2"
    using ok_modw_cursor [where f = ?f, OF t(4) W2] by auto
  have W3: "windows s3 w = Some (?f ?V)" using s3(3) by simp
  have k3: "win_ok s3 w (?f ?V)" using invD(1) [OF evolvesD(1) [OF s3(2)] W3] .
  have n3: "w \<noteq> newscr s3" using s3(4) t(6) assms(3) by simp
  have "\<not> fst (newline_forces_scroll (?f ?V) (cury W))" using assms(5) by (simp add: newline_forces_scroll_def)
  then obtain y where nf: "newline_forces_scroll (?f ?V) (cury W) = (False, y)" by (metis (full_types) prod.collapse)
  have y: "0 \<le> y" "y \<le> maxy W"
    using newline_forces_scroll_range [OF k3 win_ok_cursor(1,2) [OF k3 n3]] nf by simp_all
  let ?g = "\<lambda>W'. W'\<lparr>cury := y\<rparr>"
  obtain s4 where s4: "modw w ?g s3 = Some s4" "draws w s0 s4" "windows s4 = (windows s3)(w \<mapsto> ?g (?f ?V))"
    using ok_modw_cursor [where f = ?g, OF s3(2) W3] win_ok_move(3) [OF _ y(1)] y(2) by auto
  have W4: "windows s4 w = Some (?g (?f ?V))" using s4(3) by simp
  have k4: "win_ok s4 w (?g (?f ?V))" using invD(1) [OF evolvesD(1) [OF s4(2)] W4] .
  let ?h = "\<lambda>W. W\<lparr>curx := 0\<rparr>"
  obtain s5 where s5: "modw w ?h s4 = Some s5" "draws w s0 s5" "windows s5 = (windows s4)(w \<mapsto> ?h (?g (?f ?V)))"
    using ok_modw_cursor [where f = ?h, OF s4(2) W4] win_ok_move(2) win_okD(3) [OF k4] by auto
  have "wrap_to_next_line du w s2 = Some (OK, s5)"
    using s3(1) W3 nf s4(1) s5(1) by (simp add: wrap_to_next_line_def)
  then have run: "waddch_literal du w ch s = Some (OK, s5)" using t assms(2,4) by (simp add: waddch_literal_def Let_def)
  have W5: "windows s5 w = Some (?h (?g (?f ?V)))" using s5(3) by simp
  have "wcell s5 w y x = wcell s2 w y x" for y x
    using wcell_modw [OF s5(1), of w y x] wcell_modw [OF s4(1), of w y x] wcell_modw [OF s3(1), of w y x] by simp
  then have cl: "\<forall>y x. wcell s5 w y x = (if y = cury W \<and> x = curx W then Some (render_char W ch) else wcell s w y x)"
    using literal_cells [OF t(1-3) evolvesD(1) [OF assms(1)] assms(2,3)] by simp
  show thesis by (rule that [OF run s5(2) W5 cl])
qed

text \<open>A printable character anywhere, unless writing it makes the window scroll.\<close>

lemma waddch_anywhere:
  assumes "du_ok du" and "inv s" and "windows s w = Some W" and "w \<noteq> newscr s" and "\<not> immed W"
    and "isprint (uint (CharOf ch))" and "\<not> (curx W = maxx W \<and> cury W = regbottom W \<and> scrollf W)"
  shows "\<exists>r s' W'. waddch du w ch s = Some (r, s') \<and> windows s' w = Some W' \<and> draws w s s'
    \<and> (\<forall>y x. wcell s' w y x = (if y = cury W \<and> x = curx W then Some (render_char W ch) else wcell s w y x))"
proof -
  have e: "draws w s s" by (rule evolves_refl [OF assms(2)])
  have im: "\<not> immediate s w" using assms(3,5) by (simp add: immediate_def)
  have w0: "w \<noteq> 0" using invD(2) [OF assms(2,3)] .
  have le: "curx W \<le> maxx W" using win_ok_cursor(4) [OF invD(1) [OF assms(2,3)] assms(4)] .
  consider "curx W < maxx W" | "curx W = maxx W" "cury W = regbottom W" "\<not> scrollf W" | "curx W = maxx W" "cury W \<noteq> regbottom W"
    using le assms(7) by linarith
  then show ?thesis
  proof cases
    case 1
    then show ?thesis using waddch_one [OF assms(1-6)] by blast
  next
    case 2
    obtain s' W' where s': "waddch_literal du w ch s = Some (ERR, s')" "draws w s s'" "windows s' w = Some W'"
      "\<forall>y x. wcell s' w y x = (if y = cury W \<and> x = curx W then Some (render_char W ch) else wcell s w y x)"
      by (rule waddch_literal_stuck [OF e assms(3,4) 2(1,3,2)]) (rule that)
    have "waddch du w ch s = Some (ERR, s')" using w0 literal_case [OF assms(6)] s'(1) by (simp add: waddch_def)
    then show ?thesis using s'(2-4) by blast
  next
    case 3
    obtain s1 W1 where s1: "waddch_literal du w ch s = Some (OK, s1)" "draws w s s1" "windows s1 w = Some W1"
      "\<forall>y x. wcell s1 w y x = (if y = cury W \<and> x = curx W then Some (render_char W ch) else wcell s w y x)"
      by (rule waddch_literal_wraps [OF e assms(3,4) 3]) (rule that)
    obtain s2 where s2: "synchook du w s1 = Some s2" "draws w s s2" "windows s2 w = windows s1 w"
      "\<forall>y x. wcell s2 w y x = wcell s1 w y x"
      by (rule synchook_Some_frame [OF assms(1) s1(2,3) assms(4) im])
    have "waddch du w ch s = Some (OK, s2)" using w0 literal_case [OF assms(6)] s1(1) s2(1) by (simp add: waddch_def)
    then show ?thesis using s1(3,4) s2(2-4) by (intro exI [of _ OK] exI [of _ s2] exI [of _ W1]) simp
  qed
qed

text \<open>
  C36. \<open>waddch\<close> of a printable character before the last column writes the character, with the
  attributes of the window and its background merged in, to the cell under the cursor, changes no
  other cell, and moves the cursor one column on.
\<close>

theorem waddch_contents:
  assumes "du_ok du" and "inv s" and "windows s w = Some W" and "w \<noteq> newscr s" and "\<not> immed W"
    and "isprint (uint (CharOf ch))" and "curx W < maxx W"
  shows "\<exists>s' W'. waddch du w ch s = Some (OK, s') \<and> windows s' w = Some W' \<and> draws w s s'
    \<and> cury W' = cury W \<and> curx W' = curx W + 1
    \<and> (\<forall>y x. wcell s' w y x = (if y = cury W \<and> x = curx W then Some (render_char W ch) else wcell s w y x))"
  using waddch_one [OF assms] .

lemma addnstr_loop_text:
  assumes "\<forall>c \<in> set cs. isprint (uint (CharOf c))" and "drop i astr = cs @ b # rest"
    and "b = 0 \<and> int (length cs) < n \<or> int (length cs) = n" and "draws w s0 s" and "windows s w = Some W" and "w \<noteq> newscr s" and "curx W + int (length cs) \<le> maxx W"
  shows "\<exists>s' ls. addnstr_loop du w astr i n s = Some (OK, s') \<and> draws w s0 s'
    \<and> windows s' w = Some (W\<lparr>lines := ls, curx := curx W + int (length cs)\<rparr>)
    \<and> (\<forall>y x. wcell s' w y x =
          (if y = cury W \<and> curx W \<le> x \<and> x < curx W + int (length cs)
           then Some (render_char W (cs ! nat (x - curx W))) else wcell s w y x))"
  using assms
proof (induction cs arbitrary: i n s W)
  case Nil
  have i: "i < length astr" "\<not> (astr ! i \<noteq> 0 \<and> 0 < n)" using drop_eq_Cons_nth [of i astr b rest] Nil.prems(2,3) by auto
  have "W = W\<lparr>lines := lines W, curx := curx W + int (length [])\<rparr>" by simp
  then show ?case using i Nil.prems(4,5)
    by (intro exI [of _ s] exI [of _ "lines W"]) (auto simp: addnstr_loop.simps [of _ _ _ i])
next
  case (Cons c cs)
  have i: "i < length astr" "astr ! i = c" "drop (i + 1) astr = cs @ b # rest"
    using drop_eq_Cons_nth [of i astr c "cs @ b # rest"] Cons.prems(2) by simp_all
  have cp: "isprint (uint (CharOf c))" using Cons.prems(1) by simp
  have c0: "c \<noteq> 0" using cp by (auto simp: CharOf_def isprint_def)
  have lt: "curx W < maxx W" using Cons.prems(7) by simp
  obtain s1 ls where s1: "waddch_literal du w c s = Some (OK, s1)" "draws w s0 s1"
    "windows s1 w = Some (W\<lparr>lines := ls, curx := curx W + 1\<rparr>)" "newscr s1 = newscr s"
    by (rule waddch_literal_within [OF Cons.prems(4-6) lt])
  let ?V = "W\<lparr>lines := ls, curx := curx W + 1\<rparr>"
  have ih: "\<exists>s' ls. addnstr_loop du w astr (i + 1) (n - 1) s1 = Some (OK, s') \<and> draws w s0 s'
    \<and> windows s' w = Some (?V\<lparr>lines := ls, curx := curx ?V + int (length cs)\<rparr>)
    \<and> (\<forall>y x. wcell s' w y x =
          (if y = cury ?V \<and> curx ?V \<le> x \<and> x < curx ?V + int (length cs)
           then Some (render_char ?V (cs ! nat (x - curx ?V))) else wcell s1 w y x))"
    by (rule Cons.IH [OF _ i(3) _ s1(2,3)]) (use Cons.prems s1(4) in auto)
  then obtain s2 ls2 where s2: "addnstr_loop du w astr (i + 1) (n - 1) s1 = Some (OK, s2)" "draws w s0 s2"
    "windows s2 w = Some (?V\<lparr>lines := ls2, curx := curx ?V + int (length cs)\<rparr>)"
    "\<forall>y x. wcell s2 w y x =
          (if y = cury ?V \<and> curx ?V \<le> x \<and> x < curx ?V + int (length cs)
           then Some (render_char ?V (cs ! nat (x - curx ?V))) else wcell s1 w y x)" by blast
  have n: "n > 0" using Cons.prems(3) by auto
  have run: "addnstr_loop du w astr i n s = Some (OK, s2)"
    using i c0 n literal_case [OF cp] s1(1) s2(1) by (simp add: addnstr_loop.simps [of _ _ _ i])
  have rc: "render_char ?V = render_char W" by (rule render_char_cong) simp_all
  note cell = waddch_literal_wcell [OF s1(1) evolvesD(1) [OF Cons.prems(4)] Cons.prems(5,6) lt]
  have cells: "wcell s2 w y x = (if y = cury W \<and> curx W \<le> x \<and> x < curx W + int (length (c # cs))
           then Some (render_char W ((c # cs) ! nat (x - curx W))) else wcell s w y x)" for y x
  proof (cases "x = curx W")
    case True
    then show ?thesis using s2(4) cell [of y x] by simp
  next
    case False
    have "nat (x - curx W) = Suc (nat (x - (curx W + 1)))" if "curx W + 1 \<le> x" using that by simp
    then show ?thesis using False s2(4) cell [of y x] rc by (auto simp: nth_Cons')
  qed
  have "windows s2 w = Some (W\<lparr>lines := ls2, curx := curx W + int (length (c # cs))\<rparr>)" using s2(3) by simp
  then show ?case using run s2(2) cells by blast
qed

text \<open>With nothing behind the characters, the array is read past its end once they are written.\<close>

lemma addnstr_loop_past_end:
  assumes "\<forall>c \<in> set cs. isprint (uint (CharOf c))" and "drop i astr = cs" and "int (length cs) \<le> n"
    and "draws w s0 s" and "windows s w = Some W" and "w \<noteq> newscr s" and "curx W + int (length cs) \<le> maxx W"
  shows "addnstr_loop du w astr i n s = None"
  using assms
proof (induction cs arbitrary: i n s W)
  case Nil
  then show ?case by (simp add: addnstr_loop.simps [of _ _ _ i])
next
  case (Cons c cs)
  have i: "i < length astr" "astr ! i = c" "drop (i + 1) astr = cs"
    using drop_eq_Cons_nth [of i astr c cs] Cons.prems(2) by simp_all
  have cp: "isprint (uint (CharOf c))" using Cons.prems(1) by simp
  have c0: "c \<noteq> 0" using cp by (auto simp: CharOf_def isprint_def)
  have lt: "curx W < maxx W" using Cons.prems(7) by simp
  obtain s1 ls where s1: "waddch_literal du w c s = Some (OK, s1)" "draws w s0 s1"
    "windows s1 w = Some (W\<lparr>lines := ls, curx := curx W + 1\<rparr>)" "newscr s1 = newscr s"
    by (rule waddch_literal_within [OF Cons.prems(4-6) lt])
  have "addnstr_loop du w astr (i + 1) (n - 1) s1 = None"
    by (rule Cons.IH [OF _ i(3) _ s1(2,3)]) (use Cons.prems s1(4) in auto)
  moreover have "n > 0" using Cons.prems(3) by simp
  ultimately show ?case using i c0 literal_case [OF cp] s1(1) by (simp add: addnstr_loop.simps [of _ _ _ i])
qed

lemma waddnstr_text:
  assumes "du_ok du" and "inv s" and "windows s w = Some W" and "w \<noteq> newscr s" and "\<not> immed W"
    and "\<forall>c \<in> set cs. isprint (uint (CharOf c))" and "curx W + int (length cs) \<le> maxx W"
    and "b = 0 \<and> n < 0 \<or> int (length cs) = n"
  shows "\<exists>s' W'. waddnstr du w (cs @ b # rest) n s = Some (OK, s') \<and> windows s' w = Some W' \<and> draws w s s'
    \<and> cury W' = cury W \<and> curx W' = curx W + int (length cs)
    \<and> (\<forall>y x. wcell s' w y x =
          (if y = cury W \<and> curx W \<le> x \<and> x < curx W + int (length cs)
           then Some (render_char W (cs ! nat (x - curx W))) else wcell s w y x))"
proof -
  have e: "draws w s s" by (rule evolves_refl [OF assms(2)])
  have im: "\<not> immediate s w" using assms(3,5) by (simp add: immediate_def)
  have k: "win_ok s w W" "w \<noteq> 0" using invD [OF assms(2,3)] .
  have "int (length cs) < INT_MAX"
    using assms(7) win_ok_cursor [OF k(1) assms(4)] win_okD(4) [OF k(1)] by (simp add: INT_MAX_def)
  then have n: "b = 0 \<and> int (length cs) < (if n < 0 then INT_MAX else n) \<or> int (length cs) = (if n < 0 then INT_MAX else n)"
    using assms(8) by auto
  obtain s1 ls where s1: "addnstr_loop du w (cs @ b # rest) 0 (if n < 0 then INT_MAX else n) s = Some (OK, s1)" "draws w s s1"
    "windows s1 w = Some (W\<lparr>lines := ls, curx := curx W + int (length cs)\<rparr>)"
    "\<forall>y x. wcell s1 w y x = (if y = cury W \<and> curx W \<le> x \<and> x < curx W + int (length cs)
           then Some (render_char W (cs ! nat (x - curx W))) else wcell s w y x)"
    using addnstr_loop_text [OF assms(6) _ n e assms(3,4,7), of 0 "cs @ b # rest" rest du] by auto
  obtain s2 where s2: "synchook du w s1 = Some s2" "draws w s s2" "windows s2 w = windows s1 w"
    "\<forall>y x. wcell s2 w y x = wcell s1 w y x"
    by (rule synchook_Some_frame [OF assms(1) s1(2,3) assms(4) im])
  have "waddnstr du w (cs @ b # rest) n s = Some (OK, s2)" using k(2) s1(1) s2(1) by (simp add: waddnstr_def)
  then show ?thesis
    using s1(3,4) s2(2-4)
    by (intro exI [of _ s2] exI [of _ "W\<lparr>lines := ls, curx := curx W + int (length cs)\<rparr>"]) simp
qed

theorem waddch_contents_witness:
  "\<exists>s'. waddch idle 3 0x41 demo = Some (OK, s') \<and> wcell s' 3 0 0 = Some 0x41 \<and> wcell s' 3 0 1 = Some BLANK"
proof -
  have p: "isprint (uint (CharOf 0x41))" "render_char (demo_win 4) 0x41 = 0x41"
    by (simp_all add: isprint_def CharOf_def A_CHARTEXT_def render_char_def ISBLANK_def AttrOf_def A_ATTRIBUTES_def
        GetPair_def PairNumber_def A_COLOR_def COLOR_MASK_def AddAttr_def SetPair_def RemAttr_def SetAttr_def
        ColorPair_def BLANK_def Let_def)
  show ?thesis
    using waddch_contents [OF du_ok_idle inv_demo demo_stdscr(1,3) _ p(1)] demo_wcell [of 3 0 1] p(2) by auto
qed

text \<open>
  C35. \<open>waddnstr\<close> of a terminated string of printable characters that fits into the rest of the
  line writes the characters side by side from the cursor on, changes no other cell, and leaves
  the cursor behind the last of them.
\<close>

theorem waddnstr_contents:
  assumes "du_ok du" and "inv s" and "windows s w = Some W" and "w \<noteq> newscr s" and "\<not> immed W"
    and "\<forall>c \<in> set cs. isprint (uint (CharOf c))" and "curx W + int (length cs) \<le> maxx W"
  shows "\<exists>s' W'. waddnstr du w (cs @ 0 # rest) (- 1) s = Some (OK, s') \<and> windows s' w = Some W' \<and> draws w s s'
    \<and> cury W' = cury W \<and> curx W' = curx W + int (length cs)
    \<and> (\<forall>y x. wcell s' w y x =
          (if y = cury W \<and> curx W \<le> x \<and> x < curx W + int (length cs)
           then Some (render_char W (cs ! nat (x - curx W))) else wcell s w y x))"
  using waddnstr_text [OF assms] by simp

theorem waddnstr_contents_witness:
  "\<exists>s' W'. waddnstr idle 3 [0x41, 0x42, 0] (- 1) demo = Some (OK, s') \<and> windows s' 3 = Some W' \<and> curx W' = 2
    \<and> wcell s' 3 0 1 = Some (render_char (demo_win 4) 0x42)"
proof -
  have p: "\<forall>c \<in> set [0x41, 0x42]. isprint (uint (CharOf c))" "curx (demo_win 4) + int (length [0x41 :: chtype, 0x42]) \<le> maxx (demo_win 4)"
    by (simp_all add: isprint_def CharOf_def A_CHARTEXT_def)
  show ?thesis
    using waddnstr_contents [OF du_ok_idle inv_demo demo_stdscr(1,3) _ p, of "[]"] by auto
qed

theorem waddnstr_overread_witness:
  "\<forall>s'. waddnstr idle 3 [0x41, 0x42] 2 demo \<noteq> Some (OK, s')"
  using waddnstr_overread [of "[0x41, 0x42]" 3 idle demo] by simp

text \<open>
  In the last column of the last line of a window that does not scroll, \<open>waddch\<close> of a printable
  character writes the character and reports an error, with the cursor left in the corner.
\<close>

theorem waddch_corner:
  assumes "du_ok du" and "inv s" and "windows s w = Some W" and "w \<noteq> newscr s" and "isprint (uint (CharOf ch))"
    and "curx W = maxx W" and "cury W = regbottom W" and "\<not> scrollf W"
  shows "\<exists>s' W'. waddch du w ch s = Some (ERR, s') \<and> draws w s s' \<and> windows s' w = Some W'
    \<and> curx W' = maxx W \<and> cury W' = cury W
    \<and> (\<forall>y x. wcell s' w y x = (if y = cury W \<and> x = curx W then Some (render_char W ch) else wcell s w y x))"
proof -
  have w0: "w \<noteq> 0" using invD(2) [OF assms(2,3)] .
  obtain s' W' where s': "waddch_literal du w ch s = Some (ERR, s')" "draws w s s'" "windows s' w = Some W'"
    "curx W' = maxx W" "cury W' = cury W" "immed W' = immed W"
    "\<forall>y x. wcell s' w y x = (if y = cury W \<and> x = curx W then Some (render_char W ch) else wcell s w y x)"
    by (rule waddch_literal_stuck [OF evolves_refl [OF assms(2)] assms(3,4,6,8,7)])
  have "waddch du w ch s = Some (ERR, s')" using w0 literal_case [OF assms(5)] s'(1) by (simp add: waddch_def)
  then show ?thesis using s'(2-5,7) by blast
qed

definition corner :: nc where
  "corner = set_win 3 ((demo_win 4)\<lparr>curx := 4, cury := 1, scrollf := False\<rparr>) demo"

lemma corner_ok: "inv corner" "windows corner 3 = Some ((demo_win 4)\<lparr>curx := 4, cury := 1, scrollf := False\<rparr>)" "3 \<noteq> newscr corner"
proof -
  have k: "win_ok demo 3 (demo_win 4)" by (rule demo_win_ok) simp
  have "win_ok demo 3 ((demo_win 4)\<lparr>curx := 4, cury := 1\<rparr>)" by (rule win_ok_move(1) [OF k]) simp_all
  then have "win_ok demo 3 ((demo_win 4)\<lparr>curx := 4, cury := 1, scrollf := False\<rparr>)" by simp
  then show "inv corner" unfolding corner_def by (intro inv_set_win [OF inv_demo demo_stdscr(1)]) simp_all
  show "windows corner 3 = Some ((demo_win 4)\<lparr>curx := 4, cury := 1, scrollf := False\<rparr>)" "3 \<noteq> newscr corner"
    by (simp_all add: corner_def demo_stdscr)
qed

theorem waddch_corner_witness:
  "\<exists>s' W'. waddch idle 3 0x41 corner = Some (ERR, s') \<and> windows s' 3 = Some W' \<and> curx W' = 4 \<and> cury W' = 1"
proof -
  have p: "isprint (uint (CharOf 0x41))" by (simp add: isprint_def CharOf_def A_CHARTEXT_def)
  show ?thesis using waddch_corner [OF du_ok_idle corner_ok p] by auto
qed

section \<open>The operations meet the contract of drawing\<close>

interpretation addch: window_op "\<lambda>ch du w. waddch du w ch" "\<lambda>_. True"
  by unfold_locales (rule ok_waddch [OF _ draws_self])

interpretation addnstr: window_op "\<lambda>(astr, n) du w. waddnstr du w astr n" "\<lambda>(astr, n). readable astr n"
  by unfold_locales (auto intro: ok_waddnstr [OF _ draws_self])

interpretation addchnstr: window_op "\<lambda>(astr, n) du w. waddchnstr du w astr n"
    "\<lambda>(astr, n). 0 \<in> set astr \<or> 0 \<le> n \<and> n \<le> int (length astr)"
  by unfold_locales (auto intro: ok_waddchnstr [OF _ draws_self])

end
