(* ===== verification/WinEdit.thy ===== *)
theory WinEdit
  imports WinText
begin

text \<open>
  Deleting and inserting characters and lines, lines and borders (\<open>lib_delch.c\<close>,
  \<open>lib_insdel.c\<close>, \<open>lib_insch.c\<close>, \<open>lib_insnstr.c\<close>, \<open>lib_hline.c\<close>, \<open>lib_vline.c\<close>, \<open>lib_box.c\<close> of
  \<open>ncurses/base\<close>).
\<close>

section \<open>Deleting and inserting\<close>

definition wdelch :: "updater \<Rightarrow> nat \<Rightarrow> nc \<Rightarrow> (int \<times> nc) option" where
  "wdelch du w s =
     (if w = 0 then Some (ERR, s)
      else do {
        W \<leftarrow> windows s w;
        l \<leftarrow> ldat_at W (cury W);
        s1 \<leftarrow> modl w (cury W) (changed_to_eol (curx W) (maxx W)) s;
        s2 \<leftarrow> ofold (\<lambda>x t. do { c \<leftarrow> peek (ltext l) (x + 1) t; poke (ltext l) x c t })
               [curx W..maxx W - 1] s1;
        s3 \<leftarrow> poke (ltext l) (max (curx W) (maxx W)) (bkgd W) s2;
        s4 \<leftarrow> synchook du w s3;
        Some (OK, s4) })"

definition winsdelln :: "updater \<Rightarrow> nat \<Rightarrow> int \<Rightarrow> nc \<Rightarrow> (int \<times> nc) option" where
  "winsdelln du w n s =
     (if w = 0 then Some (ERR, s)
      else if n \<noteq> 0 then do {
        W \<leftarrow> windows s w;
        m \<leftarrow> chk (- n);
        s1 \<leftarrow> nc_scroll_window w m (cury W) (maxy W) (bkgd W) s;
        s2 \<leftarrow> synchook du w s1;
        Some (OK, s2) }
      else Some (OK, s))"

definition insert_cell :: "nat \<Rightarrow> chtype \<Rightarrow> nc \<Rightarrow> nc option" where
  "insert_cell w ch s = do {
     W \<leftarrow> windows s w;
     if curx W \<le> maxx W then do {
       l \<leftarrow> ldat_at W (cury W);
       s1 \<leftarrow> modl w (cury W) (changed_to_eol (curx W) (maxx W)) s;
       s2 \<leftarrow> ofold (\<lambda>x t. do { c \<leftarrow> peek (ltext l) (x - 1) t; poke (ltext l) x c t })
              (rev [curx W + 1..maxx W]) s1;
       s3 \<leftarrow> poke (ltext l) (curx W) (render_char W (SetChar2 ch)) s2;
       modw w (\<lambda>W. W\<lparr>curx := to_short (curx W + 1)\<rparr>) s3 }
     else Some s }"

text \<open>
  \<open>_nc_insert_ch\<close>. A tab inserts spaces and a control character its printed form, by calls of
  the function itself; they are printable, so two levels are enough.
\<close>

fun insert_each :: "(chtype \<Rightarrow> nc \<Rightarrow> (int \<times> nc) option) \<Rightarrow> chtype list \<Rightarrow> nc \<Rightarrow> (int \<times> nc) option" where
  "insert_each f [] s = Some (OK, s)"
| "insert_each f (c # cs) s = do {
     (code, s1) \<leftarrow> f c s;
     if code \<noteq> OK then Some (code, s1) else insert_each f cs s1 }"

fun nc_insert_ch :: "nat \<Rightarrow> updater \<Rightarrow> nat \<Rightarrow> chtype \<Rightarrow> nc \<Rightarrow> (int \<times> nc) option" where
  "nc_insert_ch 0 du w ch s = None"
| "nc_insert_ch (Suc fuel) du w ch s =
     (let ch8 = uint (CharOf ch) in
      if ch = 0x09 then do {
        W \<leftarrow> windows s w;
        ts \<leftarrow> (if tabsize s = 0 then None else Some (tabsize s));
        insert_each (nc_insert_ch fuel du w) (replicate (nat (ts - c_rem (curx W) ts)) 0x20) s }
      else if ch = 0x0A \<or> ch = 0x0D \<or> ch = 0x08 then do {
        (r, s1) \<leftarrow> waddch_nosync du w (SetChar2 ch) s;
        Some (OK, s1) }
      else if isprint ch8 \<or> AttrOf ch AND A_ALTCHARSET \<noteq> 0 \<or> legacy_coding s \<noteq> 0 \<and> \<not> iscntrl ch8 then do {
        s1 \<leftarrow> insert_cell w ch s;
        Some (OK, s1) }
      else if iscntrl ch8 then
        insert_each (nc_insert_ch fuel du w)
          (map (\<lambda>c. AttrOf ch OR c) (unctrl (legacy_coding s) (CharOf ch))) s
      else Some (OK, s))"

definition winsch :: "updater \<Rightarrow> nat \<Rightarrow> chtype \<Rightarrow> nc \<Rightarrow> (int \<times> nc) option" where
  "winsch du w c s =
     (if w = 0 then Some (ERR, s)
      else do {
        W \<leftarrow> windows s w;
        (code, s1) \<leftarrow> nc_insert_ch 2 du w c s;
        s2 \<leftarrow> modw w (\<lambda>V. V\<lparr>curx := curx W, cury := cury W\<rparr>) s1;
        s3 \<leftarrow> synchook du w s2;
        Some (code, s3) })"

function insnstr_loop :: "updater \<Rightarrow> nat \<Rightarrow> chtype list \<Rightarrow> nat \<Rightarrow> int \<Rightarrow> nc \<Rightarrow> nc option" where
  "insnstr_loop du w str i n s =
     (if n \<le> 0 \<or> int i < n then
        (if i < length str then
           (if str ! i \<noteq> 0 then do {
              (r, s1) \<leftarrow> nc_insert_ch 2 du w (str ! i) s;
              insnstr_loop du w str (i + 1) n s1 }
            else Some s)
         else None)
      else Some s)"
  by pat_completeness auto
termination
  by (relation "measure (\<lambda>(du, w, str, i, n, s). length str - i)") auto

declare insnstr_loop.simps [simp del]

definition winsnstr :: "updater \<Rightarrow> nat \<Rightarrow> chtype list \<Rightarrow> int \<Rightarrow> nc \<Rightarrow> (int \<times> nc) option" where
  "winsnstr du w str n s =
     (if w = 0 then Some (ERR, s)
      else do {
        W \<leftarrow> windows s w;
        s1 \<leftarrow> insnstr_loop du w str 0 n s;
        s2 \<leftarrow> modw w (\<lambda>V. V\<lparr>curx := curx W, cury := cury W\<rparr>) s1;
        s3 \<leftarrow> synchook du w s2;
        Some (OK, s3) })"

section \<open>Lines and borders\<close>

text \<open>\<open>ACS_HLINE\<close> and the others are entries of \<open>acs_map\<close>.\<close>

definition ACS_HLINE :: "nc \<Rightarrow> chtype" where "ACS_HLINE s = acs_map s 113"
definition ACS_VLINE :: "nc \<Rightarrow> chtype" where "ACS_VLINE s = acs_map s 120"
definition ACS_ULCORNER :: "nc \<Rightarrow> chtype" where "ACS_ULCORNER s = acs_map s 108"
definition ACS_URCORNER :: "nc \<Rightarrow> chtype" where "ACS_URCORNER s = acs_map s 107"
definition ACS_LLCORNER :: "nc \<Rightarrow> chtype" where "ACS_LLCORNER s = acs_map s 109"
definition ACS_LRCORNER :: "nc \<Rightarrow> chtype" where "ACS_LRCORNER s = acs_map s 106"

definition whline :: "updater \<Rightarrow> nat \<Rightarrow> chtype \<Rightarrow> int \<Rightarrow> nc \<Rightarrow> (int \<times> nc) option" where
  "whline du w ch n s =
     (if w = 0 then Some (ERR, s)
      else do {
        W \<leftarrow> windows s w;
        l \<leftarrow> ldat_at W (cury W);
        (let start = curx W in do {
           e \<leftarrow> chk (start + n);
           e1 \<leftarrow> chk (e - 1);
           (let en = (if e1 > maxx W then maxx W else e1);
                wch = render_char W (SetChar2 (if ch = 0 then ACS_HLINE s else ch)) in do {
              s1 \<leftarrow> modl w (cury W) (changed_range start en) s;
              s2 \<leftarrow> ofold (\<lambda>x. poke (ltext l) x wch) (rev [start..en]) s1;
              s3 \<leftarrow> synchook du w s2;
              Some (OK, s3) }) }) })"

definition wvline :: "updater \<Rightarrow> nat \<Rightarrow> chtype \<Rightarrow> int \<Rightarrow> nc \<Rightarrow> (int \<times> nc) option" where
  "wvline du w ch n s =
     (if w = 0 then Some (ERR, s)
      else do {
        W \<leftarrow> windows s w;
        (let row = cury W; col = curx W in do {
           e \<leftarrow> chk (row + n);
           e1 \<leftarrow> chk (e - 1);
           (let en = (if e1 > maxy W then maxy W else e1);
                wch = render_char W (SetChar2 (if ch = 0 then ACS_VLINE s else ch)) in do {
              s1 \<leftarrow> ofold (\<lambda>y t. do {
                       V \<leftarrow> windows t w;
                       l \<leftarrow> ldat_at V y;
                       t1 \<leftarrow> poke (ltext l) col wch t;
                       modl w y (changed_cell col) t1 }) (rev [row..en]) s;
              s2 \<leftarrow> synchook du w s1;
              Some (OK, s2) }) }) })"

definition put_at :: "nat \<Rightarrow> int \<Rightarrow> int \<Rightarrow> chtype \<Rightarrow> nc \<Rightarrow> nc option" where
  "put_at w y x c s = do { W \<leftarrow> windows s w; l \<leftarrow> ldat_at W y; poke (ltext l) x c s }"

definition mark_row :: "nat \<Rightarrow> int \<Rightarrow> int \<Rightarrow> nc \<Rightarrow> nc option" where
  "mark_row w endx y s = modl w y (\<lambda>l. l\<lparr>firstchar := 0, lastchar := endx\<rparr>) s"

definition wborder :: "updater \<Rightarrow> nat \<Rightarrow> chtype \<Rightarrow> chtype \<Rightarrow> chtype \<Rightarrow> chtype \<Rightarrow> chtype \<Rightarrow> chtype
    \<Rightarrow> chtype \<Rightarrow> chtype \<Rightarrow> nc \<Rightarrow> (int \<times> nc) option" where
  "wborder du w ls rs ts bs tlc trc blc brc s =
     (if w = 0 then Some (ERR, s)
      else do {
        W \<leftarrow> windows s w;
        (let ren = (\<lambda>c d. render_char W (if c = 0 then d else c));
             wls = ren ls (ACS_VLINE s); wrs = ren rs (ACS_VLINE s);
             wts = ren ts (ACS_HLINE s); wbs = ren bs (ACS_HLINE s);
             wtl = ren tlc (ACS_ULCORNER s); wtr = ren trc (ACS_URCORNER s);
             wbl = ren blc (ACS_LLCORNER s); wbr = ren brc (ACS_LRCORNER s);
             endx = maxx W; endy = maxy W
         in do {
           s1 \<leftarrow> ofold (\<lambda>i t. do { t1 \<leftarrow> put_at w 0 i wts t; put_at w endy i wbs t1 }) [0..endx] s;
           s2 \<leftarrow> mark_row w endx endy s1;
           s3 \<leftarrow> mark_row w endx 0 s2;
           s4 \<leftarrow> ofold (\<lambda>i t. do {
                    t1 \<leftarrow> put_at w i 0 wls t;
                    t2 \<leftarrow> put_at w i endx wrs t1;
                    mark_row w endx i t2 }) [0..endy] s3;
           s5 \<leftarrow> put_at w 0 0 wtl s4;
           s6 \<leftarrow> put_at w 0 endx wtr s5;
           s7 \<leftarrow> put_at w endy 0 wbl s6;
           s8 \<leftarrow> put_at w endy endx wbr s7;
           s9 \<leftarrow> synchook du w s8;
           Some (OK, s9) }) })"

section \<open>Safety of deleting\<close>

text \<open>Marking columns \<open>a\<close> to \<open>b\<close> of a line.\<close>

lemma mark_line:
  assumes "draws w s0 s" and "windows s w = Some W" and "0 \<le> y" and "y \<le> maxy W" and "0 \<le> a" and "a \<le> b" and "b \<le> maxx W"
    and "\<And>l. mark_ok (maxx W) l \<Longrightarrow> mark (g l) = sup (mark l) (Changed a b) \<and> mark_ok (maxx W) (g l) \<and> ltext (g l) = ltext l"
  obtains l s1 ls where "ldat_at W y = Some l" and "modl w y g s = Some s1" and "draws w s0 s1"
    and "s1 = set_win w (W\<lparr>lines := ls\<rparr>) s" and "ldat_at (W\<lparr>lines := ls\<rparr>) y = Some (g l)" and "ltext (g l) = ltext l"
    and "\<forall>x. a \<le> x \<and> x \<le> b \<longrightarrow> covers (mark (g l)) x" and "ls = (lines W)[nat y := g l]"
proof -
  have k: "win_ok s w W" using invD(1) [OF evolvesD(1) [OF assms(1)] assms(2)] .
  obtain l where l: "ldat_at W y = Some l" "mark_ok (maxx W) l" using win_ok_line [OF k assms(3,4)] .
  note g = assms(8) [OF l(2)]
  let ?ls = "(lines W)[nat y := g l]"
  have "ok (modl w y g s) (\<lambda>s'. draws w s0 s' \<and> s' = set_win w (W\<lparr>lines := ?ls\<rparr>) s)"
    by (rule ok_modl [OF assms(1,2) l(1)]) (use g in simp_all)
  then obtain s1 where s1: "modl w y g s = Some s1" "draws w s0 s1" "s1 = set_win w (W\<lparr>lines := ?ls\<rparr>) s" by (rule ok_conjE)
  have "ldat_at (W\<lparr>lines := ?ls\<rparr>) y = Some (g l)" using ldat_at_update [OF l(1)] by simp
  moreover have "\<forall>x. a \<le> x \<and> x \<le> b \<longrightarrow> covers (mark (g l)) x"
    using g covers_mono [of "Changed a b" "mark (g l)"] by auto
  ultimately show thesis using that [OF l(1) s1] g by blast
qed

text \<open>A loop that moves cells along a marked line.\<close>

lemma ok_move_along:
  assumes "draws w s0 s" and "windows s w = Some W" and "ldat_at W y = Some l"
    and "\<forall>x. a \<le> x \<and> x \<le> b \<longrightarrow> covers (mark l) x"
    and "\<And>x. x \<in> set xs \<Longrightarrow> a \<le> x \<and> x \<le> b \<and> 0 \<le> x \<and> x \<le> maxx W \<and> 0 \<le> g x \<and> g x \<le> maxx W"
  shows "ok (ofold (\<lambda>x t. do { c \<leftarrow> peek (ltext l) (g x) t; poke (ltext l) x c t }) xs s)
    (\<lambda>s'. draws w s0 s' \<and> windows s' = windows s)"
  by (rule ok_copy_loop [OF assms(1-3,3)]) (use assms(4,5) in auto)

lemma ok_wdelch:
  assumes "du_ok du" and "draws w s0 s" and "windows s w = Some W" and "w \<noteq> newscr s"
  shows "ok (wdelch du w s) (\<lambda>(r, s'). draws w s0 s')"
proof -
  have k: "win_ok s w W" "w \<noteq> 0" using invD [OF evolvesD(1) [OF assms(2)] assms(3)] .
  note c = win_ok_cursor [OF k(1) assms(4)] win_okD [OF k(1)]
  obtain l s1 ls where t: "ldat_at W (cury W) = Some l" "modl w (cury W) (changed_to_eol (curx W) (maxx W)) s = Some s1"
    "draws w s0 s1" "s1 = set_win w (W\<lparr>lines := ls\<rparr>) s"
    "ldat_at (W\<lparr>lines := ls\<rparr>) (cury W) = Some (changed_to_eol (curx W) (maxx W) l)"
    "ltext (changed_to_eol (curx W) (maxx W) l) = ltext l"
    "\<forall>x. curx W \<le> x \<and> x \<le> maxx W \<longrightarrow> covers (mark (changed_to_eol (curx W) (maxx W) l)) x"
    "ls = (lines W)[nat (cury W) := changed_to_eol (curx W) (maxx W) l]"
    by (rule mark_line [where g = "changed_to_eol (curx W) (maxx W)", OF assms(2,3) c(1,2) c(3,4) order_refl])
      (rule to_eol_mark [OF k(1) c(3,4)], assumption, assumption)
  let ?l = "changed_to_eol (curx W) (maxx W) l" and ?W = "W\<lparr>lines := ls\<rparr>"
  have W1: "windows s1 w = Some ?W" using t(4) by simp
  have "ok (ofold (\<lambda>x t. do { c \<leftarrow> peek (ltext ?l) (x + 1) t; poke (ltext ?l) x c t }) [curx W..maxx W - 1] s1)
      (\<lambda>s'. draws w s0 s' \<and> windows s' = windows s1)"
    by (rule ok_move_along [OF t(3) W1 t(5,7)]) (use c in auto)
  then obtain s2 where s2: "ofold (\<lambda>x t. do { c \<leftarrow> peek (ltext l) (x + 1) t; poke (ltext l) x c t }) [curx W..maxx W - 1] s1 = Some s2"
    "draws w s0 s2" "windows s2 = windows s1" unfolding t(6) by (rule ok_conjE)
  have W2: "windows s2 w = Some ?W" using s2(3) W1 by simp
  have "ok (poke (ltext ?l) (maxx W) (bkgd W) s2) (\<lambda>s'. draws w s0 s' \<and> windows s' = windows s2)"
    by (rule ok_poke [OF s2(2) W2 t(5)]) (use c t(7) in auto)
  then obtain s3 where s3: "poke (ltext l) (maxx W) (bkgd W) s2 = Some s3" "draws w s0 s3" "windows s3 = windows s2"
    unfolding t(6) by (rule ok_conjE)
  have W3: "windows s3 w = Some ?W" using s3(3) W2 by simp
  have "w \<noteq> newscr s3" using draws_newscr [OF assms(2) s3(2)] assms(4) by simp
  from ok_then_synchook [OF assms(1) s3(2) W3 this, of OK] show ?thesis
    using assms(3) k(2) t(1,2) s2(1) s3(1) c(4) by (simp add: wdelch_def max_absorb2)
qed

lemma ok_winsdelln:
  assumes "du_ok du" and "draws w s0 s" and "windows s w = Some W" and "w \<noteq> newscr s"
    and "- (2 ^ 31) < n" and "n < 2 ^ 31 - 32768"
  shows "ok (winsdelln du w n s) (\<lambda>(r, s'). draws w s0 s')"
proof -
  have i: "inv s" using evolvesD(1) [OF assms(2)] .
  have w0: "w \<noteq> 0" using invD(2) [OF i assms(3)] .
  have m: "chk (- n) = Some (- n)" using assms(5,6) by (intro chk_ok) (simp add: in_int_def)
  have "ok (nc_scroll_window w (- n) (cury W) (maxy W) (bkgd W) s) (draws w s0)"
    by (rule ok_nc_scroll_window [OF assms(2,3)]) (use assms(5,6) in auto)
  then obtain s1 where s1: "nc_scroll_window w (- n) (cury W) (maxy W) (bkgd W) s = Some s1" "draws w s0 s1" by (rule okE)
  obtain V where V: "windows s1 w = Some V" "w \<noteq> newscr s1" by (rule drawn_on [OF assms(2-4) s1(2)])
  show ?thesis
    using assms(2,3) w0 m s1(1) ok_then_synchook [OF assms(1) s1(2) V, of OK] by (simp add: winsdelln_def)
qed

section \<open>Safety of inserting\<close>

text \<open>
  An insertion moves the cursor one past the last column before the operation moves it back.
  \<open>parked w s\<close> is the state with the cursor of \<open>w\<close> in column 0.
\<close>

definition parked :: "nat \<Rightarrow> nc \<Rightarrow> nc" where
  "parked w s = (case windows s w of None \<Rightarrow> s | Some W \<Rightarrow> set_win w (W\<lparr>curx := 0\<rparr>) s)"

lemma parked_win: "windows s w = Some W \<Longrightarrow> windows (parked w s) w = Some (W\<lparr>curx := 0\<rparr>)"
  by (simp add: parked_def)

lemma peek_set_win [simp]: "peek p x (set_win w V s) = peek p x s"
  by (simp add: peek_def)

lemma ldat_at_simps [simp]: "ldat_at (W\<lparr>curx := a\<rparr>) y = ldat_at W y" "ldat_at (W\<lparr>cury := a\<rparr>) y = ldat_at W y"
  by (simp_all add: ldat_at_def cong: if_cong)

lemma poke_set_win: "poke p x c (set_win w V s) = map_option (set_win w V) (poke p x c s)"
  by (cases "cells s (fst p)") (simp_all add: poke_def set_win_def)

lemma move_set_win:
  "ofold (\<lambda>x t. do { c \<leftarrow> peek p (g x) t; poke p x c t }) xs (set_win w V s) =
   map_option (set_win w V) (ofold (\<lambda>x t. do { c \<leftarrow> peek p (g x) t; poke p x c t }) xs s)"
proof (induction xs arbitrary: s)
  case Nil
  then show ?case by simp
next
  case (Cons x xs)
  show ?case
  proof (cases "do { c \<leftarrow> peek p (g x) s; poke p x c s }")
    case None
    then show ?thesis by (cases "peek p (g x) s") (simp_all add: poke_set_win)
  next
    case (Some t)
    then obtain c where "peek p (g x) s = Some c" "poke p x c s = Some t" by (auto simp: bind_eq_Some_conv)
    then show ?thesis using Cons.IH [of t] by (simp add: poke_set_win)
  qed
qed

lemma windows_poke: "poke p x c s = Some s' \<Longrightarrow> windows s' = windows s"
  by (auto elim!: poke_result)

lemma windows_move:
  "ofold (\<lambda>x t. do { c \<leftarrow> peek p (g x) t; poke p x c t }) xs s = Some s' \<Longrightarrow> windows s' = windows s"
proof (induction xs arbitrary: s)
  case Nil
  then show ?case by simp
next
  case (Cons x xs)
  then show ?case using windows_poke by (fastforce simp: bind_eq_Some_conv)
qed

lemma ok_insert_cell:
  assumes "draws w s0 (parked w s)" and "windows s w = Some W" and "w \<noteq> newscr s" and "0 \<le> curx W"
  shows "\<exists>s' W'. insert_cell w ch s = Some s' \<and> draws w s0 (parked w s') \<and> windows s' w = Some W' \<and> 0 \<le> curx W'"
proof (cases "curx W \<le> maxx W")
  case False
  then show ?thesis using assms(1,2,4) by (simp add: insert_cell_def)
next
  case True
  let ?P = "W\<lparr>curx := 0\<rparr>" and ?p = "parked w s"
  have P: "windows ?p w = Some ?P" by (rule parked_win [OF assms(2)])
  have peq: "?p = set_win w ?P s" using assms(2) by (simp add: parked_def)
  have k: "win_ok ?p w ?P" using invD(1) [OF evolvesD(1) [OF assms(1)] P] .
  have np: "w \<noteq> newscr ?p" using assms(3) peq by simp
  note c = win_ok_cursor(1,2) [OF k np] win_okD [OF k]
  have cy: "0 \<le> cury ?P" "cury ?P \<le> maxy ?P" "curx W \<le> maxx ?P" using c True by simp_all
  let ?g = "changed_to_eol (curx W) (maxx ?P)"
  obtain l p1 ls where t: "ldat_at ?P (cury ?P) = Some l" "modl w (cury ?P) ?g ?p = Some p1" "draws w s0 p1"
    "p1 = set_win w (?P\<lparr>lines := ls\<rparr>) ?p" "ldat_at (?P\<lparr>lines := ls\<rparr>) (cury ?P) = Some (?g l)" "ltext (?g l) = ltext l"
    "\<forall>x. curx W \<le> x \<and> x \<le> maxx ?P \<longrightarrow> covers (mark (?g l)) x"
    "ls = (lines ?P)[nat (cury ?P) := ?g l]"
    by (rule mark_line [where g = ?g, OF assms(1) P cy(1,2) assms(4) cy(3) order_refl])
      (rule to_eol_mark [OF k assms(4) cy(3)], assumption, assumption)
  let ?V = "W\<lparr>lines := ls\<rparr>" and ?U = "?P\<lparr>lines := ls\<rparr>"
  have l: "ldat_at W (cury W) = Some l" using t(1) by (simp add: ldat_at_simps)
  define s1 where "s1 = set_win w ?V s"
  have m: "modl w (cury W) ?g s = Some s1" using assms(2) l t(8) by (simp add: modl_def s1_def)
  have p1: "p1 = set_win w ?U s1" using t(4) peq by (simp add: s1_def set_win_def)
  have U: "windows p1 w = Some ?U" using p1 by simp
  have mv: "ok (ofold (\<lambda>x t. do { c \<leftarrow> peek (ltext (?g l)) (x - 1) t; poke (ltext (?g l)) x c t }) (rev [curx W + 1..maxx W]) p1)
      (\<lambda>s'. draws w s0 s' \<and> windows s' = windows p1)"
    by (rule ok_move_along [OF t(3) U t(5,7)]) (use assms(4) in auto)
  then obtain p2 where p2: "ofold (\<lambda>x t. do { c \<leftarrow> peek (ltext l) (x - 1) t; poke (ltext l) x c t }) (rev [curx W + 1..maxx W]) p1 = Some p2"
    "draws w s0 p2" "windows p2 = windows p1" unfolding t(6) by (rule ok_conjE)
  obtain s2 where s2: "ofold (\<lambda>x t. do { c \<leftarrow> peek (ltext l) (x - 1) t; poke (ltext l) x c t }) (rev [curx W + 1..maxx W]) s1 = Some s2"
    "p2 = set_win w ?U s2" using p2(1) p1 move_set_win [where p = "ltext l" and g = "\<lambda>x. x - 1"] by auto
  have U2: "windows p2 w = Some ?U" using p2(3) U by simp
  let ?c = "render_char W (SetChar2 ch)"
  have pk: "ok (poke (ltext (?g l)) (curx W) ?c p2) (\<lambda>s'. draws w s0 s' \<and> windows s' = windows p2)"
    by (rule ok_poke [OF p2(2) U2 t(5)]) (use True assms(4) t(7) in auto)
  then obtain p3 where p3: "poke (ltext l) (curx W) ?c p2 = Some p3" "draws w s0 p3" "windows p3 = windows p2"
    unfolding t(6) by (rule ok_conjE)
  obtain s3 where s3: "poke (ltext l) (curx W) ?c s2 = Some s3" "p3 = set_win w ?U s3"
    using p3(1) s2(2) poke_set_win by auto
  have W3: "windows s3 w = Some ?V"
    using windows_poke [OF s3(1)] windows_move [OF s2(1)] by (simp add: s1_def)
  have ts: "to_short (curx W + 1) = curx W + 1" using True assms(4) c(6) by (simp add: to_short_id)
  define s4 where "s4 = set_win w (?V\<lparr>curx := curx W + 1\<rparr>) s3"
  have m4: "modw w (\<lambda>W. W\<lparr>curx := to_short (curx W + 1)\<rparr>) s3 = Some s4"
    using W3 ts by (simp add: modw_def s4_def)
  have uv: "?V\<lparr>curx := 0\<rparr> = ?U" by (cases W) simp
  have "parked w s4 = set_win w (?V\<lparr>curx := 0\<rparr>) s3" by (simp add: parked_def s4_def set_win_def)
  then have "parked w s4 = p3" unfolding uv s3(2) .
  moreover have "insert_cell w ch s = Some s4"
    using assms(2) True l m s2(1) s3(1) m4 by (simp add: insert_cell_def)
  moreover have "windows s4 w = Some (?V\<lparr>curx := curx W + 1\<rparr>)" by (simp add: s4_def)
  ultimately show ?thesis using p3(2) assms(4) by auto
qed

text \<open>Insertions of anything but the characters that move the cursor of their own.\<close>

definition parked_ok :: "nat \<Rightarrow> nc \<Rightarrow> nc \<Rightarrow> bool" where
  "parked_ok w s0 s \<longleftrightarrow> draws w s0 (parked w s) \<and> w \<noteq> newscr s \<and> (\<exists>W. windows s w = Some W \<and> 0 \<le> curx W)"

lemma parked_consts [simp]: "newscr (parked w s) = newscr s" "tabsize (parked w s) = tabsize s"
  by (simp_all add: parked_def split: option.split)

lemma insert_cell_parked: "parked_ok w s0 s \<Longrightarrow> ok (insert_cell w ch s) (parked_ok w s0)"
proof -
  assume a: "parked_ok w s0 s"
  then obtain W where W: "draws w s0 (parked w s)" "windows s w = Some W" "w \<noteq> newscr s" "0 \<le> curx W"
    by (auto simp: parked_ok_def)
  obtain s' W' where s': "insert_cell w ch s = Some s'" "draws w s0 (parked w s')" "windows s' w = Some W'" "0 \<le> curx W'"
    using ok_insert_cell [OF W] by blast
  have "newscr s' = newscr s" using draws_newscr [OF W(1) s'(2)] by simp
  then show ?thesis using s' W(3) by (auto simp: parked_ok_def)
qed

lemma ok_insert_each:
  assumes "P s" and "\<And>c s. c \<in> set cs \<Longrightarrow> P s \<Longrightarrow> ok (f c s) (\<lambda>(r, s'). P s')"
  shows "ok (insert_each f cs s) (\<lambda>(r, s'). P s')"
  using assms
proof (induction cs arbitrary: s)
  case Nil
  then show ?case by simp
next
  case (Cons c cs)
  have "ok (f c s) (\<lambda>(r, s'). P s')" using Cons.prems by simp
  then obtain r s1 where s1: "f c s = Some (r, s1)" "P s1" by (rule ok_pairE)
  have "ok (insert_each f cs s1) (\<lambda>(r, s'). P s')" using Cons.IH [OF s1(2)] Cons.prems(2) by simp
  then show ?case using s1 by simp
qed

lemma insert_printable:
  assumes "isprint (uint (CharOf ch))"
  shows "nc_insert_ch (Suc n) du w ch s = do { s1 \<leftarrow> insert_cell w ch s; Some (OK, s1) }"
proof -
  have "ch \<noteq> 0x09 \<and> ch \<noteq> 0x0A \<and> ch \<noteq> 0x0D \<and> ch \<noteq> 0x08"
    using assms by (auto simp: isprint_def CharOf_def A_CHARTEXT_def)
  then show ?thesis using assms by (simp add: Let_def)
qed

lemma insert_moves:
  assumes "ch \<in> {0x0A, 0x0D, 0x08}"
  shows "nc_insert_ch 2 du w ch s = do { (r, s1) \<leftarrow> waddch_nosync du w ch s; Some (OK, s1) }"
proof -
  have "(0x0A::chtype) \<noteq> 0x09" "(0x0D::chtype) \<noteq> 0x09" "(0x08::chtype) \<noteq> 0x09" by simp_all
  then have "ch \<noteq> 0x09" "ch = 0x0A \<or> ch = 0x0D \<or> ch = 0x08" using assms by auto
  then show ?thesis by (simp only: numeral_2_eq_2 nc_insert_ch.simps Let_def SetChar2_id if_False if_True)
qed

lemma CharOf_attr: "CharOf (AttrOf a OR c) = CharOf c"
proof -
  have m: "(c OR (a AND NOT m)) AND m = c AND m" for m :: chtype by (rule bit_eqI) (auto simp: bit_simps)
  have "CharOf (AttrOf a OR c) = (c OR (a AND NOT A_CHARTEXT)) AND A_CHARTEXT"
    by (simp only: CharOf_def AttrOf_def A_CHARTEXT_def A_ATTRIBUTES_def or.commute)
  then show ?thesis by (simp only: m CharOf_def)
qed

lemma control_form:
  assumes "iscntrl (uint (CharOf ch))" and "c \<in> set (unctrl leg (CharOf ch))"
  shows "isprint (uint (CharOf c))"
proof -
  define v where "v = uint (CharOf ch)"
  have v: "0 \<le> v \<and> v \<le> 31 \<or> v = 127" using assms(1) by (simp add: iscntrl_def v_def)
  have cc: "CharOf (CharOf ch) = CharOf ch" by (simp add: CharOf_def)
  have "unctrl leg (CharOf ch) = (if v < 32 then [0x5E, word_of_int (v + 64)] else [0x5E, 0x3F])"
    using v by (auto simp: unctrl_def cc Let_def simp flip: v_def)
  then have "c = 0x5E \<or> c = 0x3F \<or> v < 32 \<and> c = word_of_int (v + 64)" using assms(2) by (auto split: if_splits)
  then show ?thesis
  proof (elim disjE conjE)
    assume a: "v < 32" "c = word_of_int (v + 64)"
    then have "v \<in> set [0..31]" using v by auto
    then show ?thesis using a(2)
      by (auto simp: upto_rec1 isprint_def CharOf_def A_CHARTEXT_def)
  qed (simp_all add: isprint_def CharOf_def A_CHARTEXT_def)
qed

lemma ok_nc_insert_ch:
  assumes "parked_ok w s0 s" and "ch \<notin> {0x0A, 0x0D, 0x08}"
  shows "ok (nc_insert_ch 2 du w ch s) (\<lambda>(r, s'). parked_ok w s0 s')"
proof -
  obtain W where W: "windows s w = Some W" "draws w s0 (parked w s)" using assms(1) by (auto simp: parked_ok_def)
  have ts: "tabsize s \<noteq> 0" using evolvesD(1) [OF W(2)] by (simp add: inv_def)
  have one: "ok (nc_insert_ch 1 du w c t) (\<lambda>(r, s'). parked_ok w s0 s')"
    if "isprint (uint (CharOf c))" "parked_ok w s0 t" for c t
    using insert_printable [OF that(1), of 0] insert_cell_parked [OF that(2)] by simp
  have each: "ok (insert_each (nc_insert_ch 1 du w) cs s) (\<lambda>(r, s'). parked_ok w s0 s')"
    if "\<And>c. c \<in> set cs \<Longrightarrow> isprint (uint (CharOf c))" for cs
    by (rule ok_insert_each [where P = "parked_ok w s0", OF assms(1)]) (use that one in blast)
  have tab: "ok (insert_each (nc_insert_ch 1 du w) (replicate n 0x20) s) (\<lambda>(r, s'). parked_ok w s0 s')" for n
    by (rule each) (auto simp: isprint_def CharOf_def A_CHARTEXT_def)
  have ctl: "ok (insert_each (nc_insert_ch 1 du w) (map (\<lambda>c. AttrOf ch OR c) (unctrl (legacy_coding s) (CharOf ch))) s)
      (\<lambda>(r, s'). parked_ok w s0 s')" if "iscntrl (uint (CharOf ch))"
    by (rule each) (auto simp: CharOf_attr control_form [OF that])
  show ?thesis
    using W(1) ts assms(2) tab ctl insert_cell_parked [OF assms(1)] assms(1)
    by (simp add: numeral_2_eq_2 Let_def)
qed

text \<open>Putting the cursor back where it was.\<close>

lemma unpark:
  assumes "draws w s0 s" and "windows s w = Some W" and "w \<noteq> newscr s" and "parked_ok w s0 t"
  shows "\<exists>s' V. modw w (\<lambda>V. V\<lparr>curx := curx W, cury := cury W\<rparr>) t = Some s' \<and> draws w s0 s'
    \<and> windows s' w = Some V \<and> w \<noteq> newscr s'"
proof -
  have c: "0 \<le> curx W" "curx W \<le> maxx W" "0 \<le> cury W" "cury W \<le> maxy W"
    using win_ok_cursor [OF invD(1) [OF evolvesD(1) [OF assms(1)] assms(2)] assms(3)] by simp_all
  obtain V where V: "draws w s0 (parked w t)" "windows t w = Some V" using assms(4) by (auto simp: parked_ok_def)
  let ?P = "V\<lparr>curx := 0\<rparr>" and ?f = "\<lambda>V. V\<lparr>curx := curx W, cury := cury W\<rparr>"
  have P: "windows (parked w t) w = Some ?P" by (rule parked_win [OF V(2)])
  obtain U where U: "windows (parked w t) w = Some U" "maxy U = maxy W" "maxx U = maxx W"
    by (rule draws_win [OF assms(1,2) V(1)])
  have b: "maxy V = maxy W" "maxx V = maxx W" using U P by auto
  have "win_ok (parked w t) w ?P \<Longrightarrow> win_ok (parked w t) w (?f ?P)"
    by (rule win_ok_move(1)) (use c b in auto)
  then obtain s' where s': "modw w ?f (parked w t) = Some s'" "draws w s0 s'"
    using ok_modw_cursor [where f = ?f, OF V(1) P] by auto
  have "s' = set_win w (?f V) t" using s'(1) P V(2) by (cases V) (auto simp: modw_def parked_def set_win_def)
  moreover have "modw w ?f t = Some (set_win w (?f V) t)" using V(2) by (simp add: modw_def)
  moreover have "w \<noteq> newscr s'" using draws_newscr [OF assms(1) s'(2)] assms(3) by simp
  ultimately show ?thesis using s'(2) by auto
qed

lemma park:
  assumes "draws w s0 s" and "windows s w = Some W" and "w \<noteq> newscr s"
  shows "parked_ok w s0 s"
proof -
  have k: "win_ok s w W" using invD(1) [OF evolvesD(1) [OF assms(1)] assms(2)] .
  let ?f = "\<lambda>W. W\<lparr>curx := 0\<rparr>"
  have "win_ok s w W \<Longrightarrow> win_ok s w (?f W)" using win_okD(3) [OF k] by (intro win_ok_move(2)) auto
  then obtain s' where "modw w ?f s = Some s'" "draws w s0 s'"
    using ok_modw_cursor [where f = ?f, OF assms(1,2)] by auto
  then show ?thesis
    using assms(2,3) win_ok_cursor(3) [OF k assms(3)] by (auto simp: modw_def parked_ok_def parked_def)
qed

lemma ok_winsch:
  assumes "du_ok du" and "draws w s0 s" and "windows s w = Some W" and "w \<noteq> newscr s"
  shows "ok (winsch du w ch s) (\<lambda>(r, s'). draws w s0 s')"
proof -
  have w0: "w \<noteq> 0" using invD(2) [OF evolvesD(1) [OF assms(2)] assms(3)] .
  have "ok (nc_insert_ch 2 du w ch s) (\<lambda>(r, s'). parked_ok w s0 s')"
  proof (cases "ch \<in> {0x0A, 0x0D, 0x08}")
    case False
    then show ?thesis by (rule ok_nc_insert_ch [OF park [OF assms(2-4)]])
  next
    case True
    from ok_waddch_nosync [OF assms] obtain r s1 where
      s1: "waddch_nosync du w ch s = Some (r, s1)" "draws w s0 s1" by (rule ok_pairE)
    obtain V where V: "windows s1 w = Some V" "w \<noteq> newscr s1" by (rule drawn_on [OF assms(2-4) s1(2)])
    have "parked_ok w s0 s1" by (rule park [OF s1(2) V])
    then show ?thesis using insert_moves [OF True] s1(1) by simp
  qed
  then obtain r s1 where s1: "nc_insert_ch 2 du w ch s = Some (r, s1)" "parked_ok w s0 s1" by (rule ok_pairE)
  obtain s2 V where s2: "modw w (\<lambda>V. V\<lparr>curx := curx W, cury := cury W\<rparr>) s1 = Some s2" "draws w s0 s2"
    "windows s2 w = Some V" "w \<noteq> newscr s2" using unpark [OF assms(2-4) s1(2)] by blast
  show ?thesis
    using w0 assms(3) s1(1) s2(1) ok_then_synchook [OF assms(1) s2(2-4), of r]
    by (simp add: winsch_def del: nc_insert_ch.simps)
qed

lemma ok_insnstr_loop:
  assumes "parked_ok w s0 s" and "\<forall>c \<in> set str. c \<notin> {0x0A, 0x0D, 0x08}"
    and "0 \<in> set (drop i str) \<or> 0 < n \<and> n \<le> int (length str)"
  shows "ok (insnstr_loop du w str i n s) (parked_ok w s0)"
  using assms(1,3)
proof (induction "length str - i" arbitrary: i s rule: less_induct)
  case less
  show ?case
  proof (cases "(n \<le> 0 \<or> int i < n)")
    case False
    then show ?thesis using less.prems(1) by (simp add: insnstr_loop.simps [of _ _ _ i])
  next
    case True
    then have i: "i < length str" using less.prems(2) by (cases "i < length str") auto
    show ?thesis
    proof (cases "str ! i = 0")
      case True
      then show ?thesis using i less.prems(1) by (simp add: insnstr_loop.simps [of _ _ _ i])
    next
      case False
      have "str ! i \<notin> {0x0A, 0x0D, 0x08}" using assms(2) nth_mem [OF i] by blast
      from ok_nc_insert_ch [OF less.prems(1) this] obtain r s1 where
        s1: "nc_insert_ch 2 du w (str ! i) s = Some (r, s1)" "parked_ok w s0 s1" by (rule ok_pairE)
      have "0 \<in> set (drop (i + 1) str) \<or> 0 < n \<and> n \<le> int (length str)"
        using less.prems(2) False Cons_nth_drop_Suc [OF i, symmetric] by auto
      from less.hyps [OF _ s1(2) this] i
      have "ok (insnstr_loop du w str (i + 1) n s1) (parked_ok w s0)" by simp
      then show ?thesis using True i False s1(1) by (simp add: insnstr_loop.simps [of _ _ _ i] del: nc_insert_ch.simps)
    qed
  qed
qed

lemma ok_winsnstr:
  assumes "du_ok du" and "draws w s0 s" and "windows s w = Some W" and "w \<noteq> newscr s"
    and "\<forall>c \<in> set str. c \<notin> {0x0A, 0x0D, 0x08}" and "0 \<in> set str \<or> 0 < n \<and> n \<le> int (length str)"
  shows "ok (winsnstr du w str n s) (\<lambda>(r, s'). draws w s0 s')"
proof -
  have w0: "w \<noteq> 0" using invD(2) [OF evolvesD(1) [OF assms(2)] assms(3)] .
  have "ok (insnstr_loop du w str 0 n s) (parked_ok w s0)"
    by (rule ok_insnstr_loop [OF park [OF assms(2-4)] assms(5)]) (use assms(6) in simp)
  then obtain s1 where s1: "insnstr_loop du w str 0 n s = Some s1" "parked_ok w s0 s1" by (rule okE)
  obtain s2 V where s2: "modw w (\<lambda>V. V\<lparr>curx := curx W, cury := cury W\<rparr>) s1 = Some s2" "draws w s0 s2"
    "windows s2 w = Some V" "w \<noteq> newscr s2" using unpark [OF assms(2-4) s1(2)] by blast
  show ?thesis
    using w0 assms(3) s1(1) s2(1) ok_then_synchook [OF assms(1) s2(2-4), of OK] by (simp add: winsnstr_def)
qed

section \<open>Safety of lines and borders\<close>

text \<open>
  A horizontal line of at least one character. With a negative length the mark that \<open>whline\<close>
  leaves is empty.
\<close>

lemma ok_whline:
  assumes "du_ok du" and "draws w s0 s" and "windows s w = Some W" and "w \<noteq> newscr s"
    and "0 < n" and "n < 2 ^ 31 - 32768"
  shows "ok (whline du w ch n s) (\<lambda>(r, s'). draws w s0 s')"
proof -
  have k: "win_ok s w W" "w \<noteq> 0" using invD [OF evolvesD(1) [OF assms(2)] assms(3)] .
  note c = win_ok_cursor [OF k(1) assms(4)] win_okD [OF k(1)]
  have e: "chk (curx W + n) = Some (curx W + n)" "chk (curx W + n - 1) = Some (curx W + n - 1)"
    using c assms(5,6) by (auto intro!: chk_ok simp: in_int_def)
  define en where "en = (if curx W + n - 1 > maxx W then maxx W else curx W + n - 1)"
  have en: "curx W \<le> en" "en \<le> maxx W" using c assms(5) by (auto simp: en_def)
  let ?g = "changed_range (curx W) en"
  let ?c = "render_char W (SetChar2 (if ch = 0 then ACS_HLINE s else ch))"
  obtain l s1 ls where t: "ldat_at W (cury W) = Some l" "modl w (cury W) ?g s = Some s1" "draws w s0 s1"
    "s1 = set_win w (W\<lparr>lines := ls\<rparr>) s" "ldat_at (W\<lparr>lines := ls\<rparr>) (cury W) = Some (?g l)" "ltext (?g l) = ltext l"
    "\<forall>x. curx W \<le> x \<and> x \<le> en \<longrightarrow> covers (mark (?g l)) x" "ls = (lines W)[nat (cury W) := ?g l]"
    by (rule mark_line [where g = ?g, OF assms(2,3) c(1,2) c(3) en])
      (use changed_range_mark [OF _ c(3) en c(8)] in auto)
  have W1: "windows s1 w = Some (W\<lparr>lines := ls\<rparr>)" using t(4) by simp
  have "ok (ofold (\<lambda>x. poke (ltext (?g l)) x ?c) (rev [curx W..en]) s1) (\<lambda>s'. draws w s0 s' \<and> windows s' = windows s1)"
    by (rule ok_poke_loop [OF t(3) W1 t(5)]) (use t(7) c en in auto)
  then obtain s2 where s2: "ofold (\<lambda>x. poke (ltext l) x ?c) (rev [curx W..en]) s1 = Some s2" "draws w s0 s2"
    "windows s2 = windows s1" unfolding t(6) by (rule ok_conjE)
  obtain V where V: "windows s2 w = Some V" "w \<noteq> newscr s2" by (rule drawn_on [OF assms(2-4) s2(2)])
  show ?thesis
    using k(2) assms(3) t(1,2) e s2(1) ok_then_synchook [OF assms(1) s2(2) V, of OK]
    unfolding en_def by (simp add: whline_def Let_def)
qed

lemma ok_put_at:
  assumes "evolves w UNIV s0 s" and "windows s w = Some W" and "0 \<le> y" and "y \<le> maxy W" and "0 \<le> x" and "x \<le> maxx W"
  shows "ok (put_at w y x c s) (\<lambda>s'. evolves w UNIV s0 s' \<and> windows s' = windows s)"
proof -
  have k: "win_ok s w W" using invD(1) [OF evolvesD(1) [OF assms(1)] assms(2)] .
  obtain l where l: "ldat_at W y = Some l" using win_ok_line [OF k assms(3,4)] .
  have "ok (poke (ltext l) x c s) (\<lambda>s'. evolves w UNIV s0 s' \<and> windows s' = windows s)"
    by (rule ok_poke [OF assms(1,2) l assms(5,6)]) simp
  then show ?thesis using assms(2) l by (simp add: put_at_def)
qed

lemma ok_wvline:
  assumes "du_ok du" and "draws w s0 s" and "windows s w = Some W" and "w \<noteq> newscr s"
    and "- (2 ^ 31) < n" and "n < 2 ^ 31 - 32768"
  shows "ok (wvline du w ch n s) (\<lambda>(r, s'). draws w s0 s')"
proof -
  have k: "win_ok s w W" "w \<noteq> 0" using invD [OF evolvesD(1) [OF assms(2)] assms(3)] .
  note c = win_ok_cursor [OF k(1) assms(4)] win_okD [OF k(1)]
  have e: "chk (cury W + n) = Some (cury W + n)" "chk (cury W + n - 1) = Some (cury W + n - 1)"
    using c assms(5,6) by (auto intro!: chk_ok simp: in_int_def)
  define en where "en = (if cury W + n - 1 > maxy W then maxy W else cury W + n - 1)"
  have en: "en \<le> maxy W" by (simp add: en_def)
  let ?c = "render_char W (SetChar2 (if ch = 0 then ACS_VLINE s else ch))"
  let ?f = "\<lambda>y t. do { V \<leftarrow> windows t w; l \<leftarrow> ldat_at V y; t1 \<leftarrow> poke (ltext l) (curx W) ?c t;
                modl w y (changed_cell (curx W)) t1 }"
  have "ok (ofold ?f (rev [cury W..en]) s) (draws w s0)"
  proof (rule ok_ofold)
    show "draws w s0 s" by (rule assms(2))
    fix y t assume y: "y \<in> set (rev [cury W..en])" and t: "draws w s0 t"
    obtain V where V: "windows t w = Some V" "maxy V = maxy W" "maxx V = maxx W" "win_ok t w V"
      by (rule drawn_on [OF assms(2-4) t])
    have yr: "0 \<le> y" "y \<le> maxy V" using y en c V(2) by auto
    obtain l where l: "ldat_at V y = Some l" "mark_ok (maxx V) l" using win_ok_line [OF V(4) yr] .
    let ?D = "{p. p = (y, curx W)}"
    have "ok (poke (ltext l) (curx W) ?c t) (\<lambda>s'. evolves w ?D t s' \<and> windows s' = windows t)"
      by (rule ok_poke [OF evolves_refl [OF evolvesD(1) [OF t]] V(1) l(1)]) (use c V(3) in auto)
    then obtain t1 where t1: "poke (ltext l) (curx W) ?c t = Some t1" "evolves w ?D t t1" "windows t1 = windows t"
      by (rule ok_conjE)
    have V1: "windows t1 w = Some V" using t1(3) V(1) by simp
    have cm: "curx W \<le> maxx V" "maxx V < 32767" using c V(3) by simp_all
    note g = changed_cell_mark [OF l(2) c(3) cm]
    let ?V = "V\<lparr>lines := (lines V)[nat y := changed_cell (curx W) l]\<rparr>"
    have "ok (modl w y (changed_cell (curx W)) t1) (\<lambda>s'. evolves w ?D t s' \<and> s' = set_win w ?V t1)"
      by (rule ok_modl [OF t1(2) V1 l(1)]) (simp_all add: g)
    then obtain t2 where t2: "modl w y (changed_cell (curx W)) t1 = Some t2" "evolves w ?D t t2" "t2 = set_win w ?V t1"
      by (rule ok_conjE)
    have V2: "windows t2 w = Some ?V" using t2(3) by simp
    have "draws w t t2"
    proof (rule evolves_discharge [OF t2(2) V(1)])
      fix y' x' assume "(y', x') \<in> ?D"
      then have yx: "y' = y" "x' = curx W" by simp_all
      have "covers (sup (mark l) (Changed (curx W) (curx W))) (curx W)"
        using covers_mono [of "Changed (curx W) (curx W)" "sup (mark l) (Changed (curx W) (curx W))"] by simp
      then show "marked t2 w y' x'" using yx by (simp add: marked_line [OF V2] ldat_at_update [OF l(1)] g(1))
    qed
    then show "ok (?f y t) (draws w s0)" using V(1) l(1) t1(1) t2(1) evolves_trans [OF t] by simp
  qed
  then obtain s1 where s1: "ofold ?f (rev [cury W..en]) s = Some s1" "draws w s0 s1" by (rule okE)
  obtain V where V: "windows s1 w = Some V" "w \<noteq> newscr s1" by (rule drawn_on [OF assms(2-4) s1(2)])
  show ?thesis
    using k(2) assms(3) e s1(1) ok_then_synchook [OF assms(1) s1(2) V, of OK]
    unfolding en_def by (simp add: wvline_def Let_def)
qed

text \<open>\<open>wborder\<close> first writes and then marks: until the end all cells count as still to be marked.\<close>

lemma mark_row_touch:
  assumes "windows s w = Some W" and "win_ok s w W" and "endx = maxx W"
  shows "mark_row w endx y s = touch_line w True y s"
proof -
  have "to_short 0 = 0" "to_short (maxx W) = maxx W" using win_okD [OF assms(2)] by (simp_all add: to_short_id)
  then show ?thesis using assms(1,3) by (simp add: mark_row_def touch_line_def)
qed

lemma evolves_winI:
  assumes "evolves w D s0 t" and "windows s0 w = Some W"
  obtains V where "windows t w = Some V" and "maxy V = maxy W" and "maxx V = maxx W" and "win_ok t w V"
proof -
  obtain V where V: "windows t w = Some V" "win_ok t w V" using evolves_winE [OF assms] by metis
  show thesis using that [OF V(1) _ _ V(2)] evolves_bounds [OF assms V(1)] by blast
qed

lemma ok_put:
  assumes "evolves w UNIV s t" and "windows s w = Some W" and "0 \<le> y" and "y \<le> maxy W" and "0 \<le> x" and "x \<le> maxx W"
  shows "\<exists>t'. put_at w y x c t = Some t' \<and> evolves w UNIV s t' \<and> evolves w UNIV t t'"
proof -
  obtain V where V: "windows t w = Some V" "maxy V = maxy W" "maxx V = maxx W" by (rule evolves_winI [OF assms(1,2)])
  have "ok (put_at w y x c t) (\<lambda>s'. evolves w UNIV t s' \<and> windows s' = windows t)"
    by (rule ok_put_at [OF evolves_refl [OF evolvesD(1) [OF assms(1)]] V(1)]) (use assms(3-6) V in auto)
  then obtain t' where "put_at w y x c t = Some t'" "evolves w UNIV t t'" by (rule ok_conjE)
  then show ?thesis using evolves_trans [OF assms(1)] by blast
qed

lemma ok_mark_row:
  assumes "evolves w UNIV s t" and "windows s w = Some W" and "0 \<le> y" and "y \<le> maxy W"
  shows "\<exists>t'. mark_row w (maxx W) y t = Some t' \<and> evolves w UNIV s t' \<and> evolves w UNIV t t'
    \<and> (\<forall>x. 0 \<le> x \<and> x \<le> maxx W \<longrightarrow> marked t' w y x)"
proof -
  obtain V where V: "windows t w = Some V" "maxy V = maxy W" "maxx V = maxx W" "win_ok t w V"
    by (rule evolves_winI [OF assms(1,2)])
  have y: "y \<le> maxy V" using assms(4) V(2) by simp
  have "ok (touch_line w True y t) (evolves w UNIV t)"
    by (rule ok_touch_line [OF evolves_refl [OF evolvesD(1) [OF assms(1)]] V(1) assms(3) y])
  then obtain t' where t': "touch_line w True y t = Some t'" "evolves w UNIV t t'" by (rule okE)
  then show ?thesis
    using touch_line_marks [OF t'(1) V(1,4)] V(3) mark_row_touch [OF V(1,4), of "maxx W"] evolves_trans [OF assms(1) t'(2)]
    by auto
qed

lemma ok_wborder:
  assumes "du_ok du" and "draws w s0 s" and "windows s w = Some W" and "w \<noteq> newscr s"
  shows "ok (wborder du w a b c d e f g h s) (\<lambda>(r, s'). draws w s0 s')"
proof -
  have i: "inv s" using evolvesD(1) [OF assms(2)] .
  have k: "win_ok s w W" "w \<noteq> 0" using invD [OF i assms(3)] .
  let ?ex = "maxx W" and ?ey = "maxy W"
  have z: "0 \<le> ?ex" "0 \<le> ?ey" using win_okD [OF k(1)] by simp_all
  define ren where "ren = (\<lambda>c d. render_char W (if c = 0 then d else c))"
  let ?wls = "ren a (ACS_VLINE s)" and ?wrs = "ren b (ACS_VLINE s)" and ?wts = "ren c (ACS_HLINE s)"
    and ?wbs = "ren d (ACS_HLINE s)" and ?wtl = "ren e (ACS_ULCORNER s)" and ?wtr = "ren f (ACS_URCORNER s)"
    and ?wbl = "ren g (ACS_LLCORNER s)" and ?wbr = "ren h (ACS_LRCORNER s)"
  let ?E = "evolves w UNIV s"
  have "ok (ofold (\<lambda>i t. do { t1 \<leftarrow> put_at w 0 i ?wts t; put_at w ?ey i ?wbs t1 }) [0..?ex] s) ?E"
  proof (rule ok_ofold)
    show "?E s" by (rule evolves_refl [OF i])
    fix x t assume x: "x \<in> set [0..?ex]" and t: "?E t"
    have xr: "0 \<le> x" "x \<le> ?ex" using x by auto
    obtain t1 where t1: "put_at w 0 x ?wts t = Some t1" "?E t1" using ok_put [OF t assms(3) order_refl z(2) xr] by blast
    obtain t2 where t2: "put_at w ?ey x ?wbs t1 = Some t2" "?E t2" using ok_put [OF t1(2) assms(3) z(2) order_refl xr] by blast
    show "ok (do { t1 \<leftarrow> put_at w 0 x ?wts t; put_at w ?ey x ?wbs t1 }) ?E" using t1(1) t2 by simp
  qed
  then obtain s1 where s1: "ofold (\<lambda>i t. do { t1 \<leftarrow> put_at w 0 i ?wts t; put_at w ?ey i ?wbs t1 }) [0..?ex] s = Some s1" "?E s1"
    by (rule okE)
  obtain s2 where s2: "mark_row w ?ex ?ey s1 = Some s2" "?E s2" using ok_mark_row [OF s1(2) assms(3) z(2) order_refl] by blast
  obtain s3 where s3: "mark_row w ?ex 0 s2 = Some s3" "?E s3" using ok_mark_row [OF s2(2) assms(3) order_refl z(2)] by blast
  let ?body = "\<lambda>i t. do { t1 \<leftarrow> put_at w i 0 ?wls t; t2 \<leftarrow> put_at w i ?ex ?wrs t1; mark_row w ?ex i t2 }"
  let ?M = "\<lambda>ys t. \<not> immediate s w \<longrightarrow> (\<forall>j \<in> set ys. \<forall>x. 0 \<le> x \<and> x \<le> ?ex \<longrightarrow> marked t w j x)"
  have keep: "?M ys t'" if m: "?M ys t" and e: "?E t" "evolves w UNIV t t'" for ys t t'
    using m evolves_marked [OF e(2)] evolvesD(4) [OF e(1)] by auto
  have "ok (ofold ?body [0..?ey] s3) (\<lambda>t. ?E t \<and> ?M [0..?ey] t)"
  proof (rule ok_ofold_upto [where I = "\<lambda>ys t. ?E t \<and> ?M ys t"])
    show "?E s3 \<and> ?M [] s3" using s3(2) by simp
    fix ys y t assume pre: "prefix (ys @ [y]) [0..?ey]" and I: "?E t \<and> ?M ys t"
    have yr: "0 \<le> y" "y \<le> ?ey" using set_mono_prefix [OF pre] by auto
    obtain t1 where t1: "put_at w y 0 ?wls t = Some t1" "?E t1" "evolves w UNIV t t1"
      using ok_put [OF conjunct1 [OF I] assms(3) yr order_refl z(1)] by blast
    obtain t2 where t2: "put_at w y ?ex ?wrs t1 = Some t2" "?E t2" "evolves w UNIV t1 t2"
      using ok_put [OF t1(2) assms(3) yr z(1) order_refl] by blast
    obtain t3 where t3: "mark_row w ?ex y t2 = Some t3" "?E t3" "evolves w UNIV t2 t3"
      "\<forall>x. 0 \<le> x \<and> x \<le> ?ex \<longrightarrow> marked t3 w y x" using ok_mark_row [OF t2(2) assms(3) yr] by blast
    have "?M ys t1" by (rule keep [OF conjunct2 [OF I] conjunct1 [OF I] t1(3)])
    from keep [OF keep [OF this t1(2) t2(3)] t2(2) t3(3)] have "?M ys t3" .
    then have "?M (ys @ [y]) t3" using t3(4) by auto
    then show "ok (?body y t) (\<lambda>t. ?E t \<and> ?M (ys @ [y]) t)" using t1(1) t2(1) t3(1,2) by simp
  qed
  then obtain s4 where s4: "ofold ?body [0..?ey] s3 = Some s4" "?E s4" "?M [0..?ey] s4" by (rule ok_conjE)
  obtain s5 where s5: "put_at w 0 0 ?wtl s4 = Some s5" "?E s5" "evolves w UNIV s4 s5"
    using ok_put [OF s4(2) assms(3) order_refl z(2) order_refl z(1)] by blast
  obtain s6 where s6: "put_at w 0 ?ex ?wtr s5 = Some s6" "?E s6" "evolves w UNIV s5 s6"
    using ok_put [OF s5(2) assms(3) order_refl z(2) z(1) order_refl] by blast
  obtain s7 where s7: "put_at w ?ey 0 ?wbl s6 = Some s7" "?E s7" "evolves w UNIV s6 s7"
    using ok_put [OF s6(2) assms(3) z(2) order_refl order_refl z(1)] by blast
  obtain s8 where s8: "put_at w ?ey ?ex ?wbr s7 = Some s8" "?E s8" "evolves w UNIV s7 s8"
    using ok_put [OF s7(2) assms(3) z(2) order_refl z(1) order_refl] by blast
  have M8: "?M [0..?ey] s8"
    by (rule keep [OF keep [OF keep [OF keep [OF s4(3) s4(2) s5(3)] s5(2) s6(3)] s6(2) s7(3)] s7(2) s8(3)])
  have "draws w s s8"
  proof (rule evolves_discharge [OF s8(2) assms(3)])
    fix y x assume im: "\<not> immediate s w" and x: "0 \<le> x" "x \<le> ?ex" and "ldat_at W y \<noteq> None"
    then have "0 \<le> y" "y \<le> ?ey" using win_okD(5) [OF k(1)] by (auto simp: ldat_at_def split: if_splits)
    then show "marked s8 w y x" using M8 im x by simp
  qed
  then have d: "draws w s0 s8" by (rule evolves_trans [OF assms(2)])
  obtain V where V: "windows s8 w = Some V" "w \<noteq> newscr s8" by (rule drawn_on [OF assms(2-4) d])
  show ?thesis
    using k(2) assms(3) s1(1) s2(1) s3(1) s4(1) s5(1) s6(1) s7(1) s8(1) ok_then_synchook [OF assms(1) d V, of OK]
    unfolding ren_def by (simp add: wborder_def Let_def)
qed

section \<open>What deleting and inserting do to the contents\<close>

lemma ltext_to_eol [simp]: "ltext (changed_to_eol a b l) = ltext l"
  by (simp add: changed_to_eol_def Let_def)

text \<open>Marking does not move the line.\<close>

lemma modl_result:
  assumes "modl w y (changed_to_eol a (maxx W)) s = Some s1" and "inv s" and "windows s w = Some W" and "ldat_at W y = Some l"
    and "0 \<le> a" and "a \<le> maxx W"
  obtains V l' where "windows s1 w = Some V" and "ldat_at V y = Some l'" and "ltext l' = ltext l" and "maxx V = maxx W"
    and "inv s1" and "bkgd V = bkgd W" and "attrs V = attrs W" and "curx V = curx W" and "cury V = cury W"
proof -
  have k: "win_ok s w W" using invD(1) [OF assms(2,3)] .
  have "l \<in> set (lines W)" using ldat_at_range [OF assms(4)] by auto
  then have lm: "mark_ok (maxx W) l" using k by (auto simp: win_ok_def)
  note m = changed_to_eol_mark [OF lm assms(5,6) win_okD(4) [OF k]]
  let ?V = "W\<lparr>lines := (lines W)[nat y := changed_to_eol a (maxx W) l]\<rparr>"
  have "ok (modl w y (changed_to_eol a (maxx W)) s) (\<lambda>s'. draws w s s' \<and> s' = set_win w ?V s)"
    by (rule ok_modl [OF evolves_refl [OF assms(2)] assms(3,4)]) (simp_all add: m)
  then have s1: "draws w s s1" "s1 = set_win w ?V s" unfolding assms(1) ok_Some by blast+
  show thesis
    by (rule that [of ?V "changed_to_eol a (maxx W) l"])
      (use s1 evolvesD(1) [OF s1(1)] in \<open>simp_all add: ldat_at_update [OF assms(4)]\<close>)
qed

text \<open>
  \<open>wdelch\<close> deletes the cell under the cursor: the cells right of it move one to the left, the
  last column gets the background, and no other cell changes.
\<close>

theorem wdelch_contents:
  assumes "du_ok du" and "inv s" and "windows s w = Some W" and "w \<noteq> newscr s" and "\<not> immed W"
  shows "\<exists>s'. wdelch du w s = Some (OK, s') \<and> draws w s s' \<and> (\<forall>y x. wcell s' w y x =
    (if y = cury W \<and> curx W \<le> x \<and> x < maxx W then wcell s w y (x + 1)
     else if y = cury W \<and> x = maxx W then Some (bkgd W) else wcell s w y x))"
proof -
  have k: "win_ok s w W" "w \<noteq> 0" using invD [OF assms(2,3)] .
  note c = win_ok_cursor [OF k(1) assms(4)]
  have im: "\<not> immediate s w" using assms(3,5) by (simp add: immediate_def)
  obtain r s4 where run: "wdelch du w s = Some (r, s4)" "draws w s s4"
    using ok_wdelch [OF assms(1) draws_self [OF assms(2)] assms(3,4)] by (rule ok_pairE)
  obtain l s1 s2 s3 where t: "ldat_at W (cury W) = Some l" "modl w (cury W) (changed_to_eol (curx W) (maxx W)) s = Some s1"
    "ofold (\<lambda>x t. do { c \<leftarrow> peek (ltext l) (x + 1) t; poke (ltext l) x c t }) [curx W..maxx W - 1] s1 = Some s2"
    "poke (ltext l) (maxx W) (bkgd W) s2 = Some s3" "synchook du w s3 = Some s4" "r = OK"
    using run(1) assms(3) k(2) c by (auto simp: wdelch_def bind_eq_Some_conv max_absorb2)
  obtain V m where V: "windows s1 w = Some V" "ldat_at V (cury W) = Some m" "ltext m = ltext l" "maxx V = maxx W" "inv s1"
    by (rule modl_result [OF t(2) assms(2,3) t(1) c(3,4)])
  have mv: "ofold (\<lambda>x t. do { c \<leftarrow> peek (ltext m) (x + 1) t; poke (ltext m) x c t }) [curx W..maxx W - 1] s1 = Some s2"
    using t(3) V(3) by simp
  have so: "sorted_wrt (\<lambda>a b. b + 1 \<noteq> a) [curx W..maxx W - 1]"
    by (rule sorted_wrt_mono_rel [OF _ sorted_wrt_upto]) auto
  have c2: "wcell s2 w y x = (if y = cury W \<and> x \<in> set [curx W..maxx W - 1] then map_option (\<lambda>c. c) (wcell s1 w (cury W) (x + 1))
      else wcell s1 w y x) \<and> windows s2 = windows s1 \<and> inv s2" for y x
    by (rule wcell_move [OF mv V(5,1,2,2)]) (use c V(4) so in auto)
  have W2: "windows s2 w = Some V" "inv s2" using c2 V(1) by auto
  have p3: "poke (ltext m) (maxx W) (bkgd W) s2 = Some s3" using t(4) V(3) by simp
  have mx: "0 \<le> maxx W" "maxx W \<le> maxx V" using c V(4) by simp_all
  note c3 = wcell_poke [OF p3 W2(2,1) V(2) mx]
  have d3: "immediate s3 w = immediate s w"
  proof -
    obtain U where "windows s w = Some U" using assms(3) by blast
    have "windows s1 w = Some V" "windows s3 w = Some V" using V(1) c3(2) W2(1) by simp_all
    moreover have "immed V = immed W" using t(1,2) assms(3) V(1) by (auto simp: modl_def)
    ultimately show ?thesis using assms(3) by (simp add: immediate_def)
  qed
  have c4: "wcell s4 w y x = wcell s3 w y x" for y x
    by (rule synchook_wcell [OF t(5) c3(3)]) (use d3 im in simp)
  have c1: "wcell s1 w y x = wcell s w y x" for y x by (rule wcell_modl [OF t(2)]) simp
  have "wcell s4 w y x = (if y = cury W \<and> curx W \<le> x \<and> x < maxx W then wcell s w y (x + 1)
     else if y = cury W \<and> x = maxx W then Some (bkgd W) else wcell s w y x)" for y x
    using c4 c3(1) [of y x] c2 [of y x] c1 by (auto simp: option.map_ident)
  then show ?thesis using run t(6) by blast
qed

theorem wdelch_contents_witness:
  "\<exists>s'. wdelch idle 3 demo = Some (OK, s') \<and> wcell s' 3 0 4 = Some BLANK \<and> wcell s' 3 0 1 = wcell demo 3 0 2"
  using wdelch_contents [OF du_ok_idle inv_demo demo_stdscr(1,3)] by auto

text \<open>
  \<open>winsch\<close> of a printable character makes room for it under the cursor: the cells from there on
  move one to the right, the last one is lost, and the cursor stays where it is.
\<close>

theorem winsch_contents:
  assumes "du_ok du" and "inv s" and "windows s w = Some W" and "w \<noteq> newscr s" and "\<not> immed W"
    and "isprint (uint (CharOf ch))"
  shows "\<exists>s' W'. winsch du w ch s = Some (OK, s') \<and> draws w s s' \<and> windows s' w = Some W'
    \<and> curx W' = curx W \<and> cury W' = cury W \<and> (\<forall>y x. wcell s' w y x =
    (if y = cury W \<and> x = curx W then Some (render_char W ch)
     else if y = cury W \<and> curx W < x \<and> x \<le> maxx W then wcell s w y (x - 1) else wcell s w y x))"
proof -
  have k: "win_ok s w W" "w \<noteq> 0" using invD [OF assms(2,3)] .
  note c = win_ok_cursor [OF k(1) assms(4)]
  have im: "\<not> immediate s w" using assms(3,5) by (simp add: immediate_def)
  have nin: "nc_insert_ch 2 du w ch s = do { s1 \<leftarrow> insert_cell w ch s; Some (OK, s1) }"
    using insert_printable [OF assms(6), of 1 du w s] by (simp add: numeral_2_eq_2)
  have pk: "parked_ok w s s" by (rule park [OF draws_self [OF assms(2)] assms(3,4)])
  obtain t4 where t4: "insert_cell w ch s = Some t4" "parked_ok w s t4" using insert_cell_parked [OF pk] by (rule okE)
  obtain t5 V5 where t5: "modw w (\<lambda>V. V\<lparr>curx := curx W, cury := cury W\<rparr>) t4 = Some t5" "draws w s t5"
    "windows t5 w = Some V5" "w \<noteq> newscr t5" using unpark [OF draws_self [OF assms(2)] assms(3,4) t4(2)] by blast
  obtain t6 where t6: "synchook du w t5 = Some t6" "draws w s t6" "windows t6 w = windows t5 w"
    "\<forall>y x. wcell t6 w y x = wcell t5 w y x"
    by (rule synchook_Some_frame [OF assms(1) t5(2,3) assms(4) im])
  have run: "winsch du w ch s = Some (OK, t6)"
    using nin t4(1) t5(1) t6(1) assms(3) k(2) by (simp add: winsch_def)
  obtain l s1 s2 s3 where t: "ldat_at W (cury W) = Some l" "modl w (cury W) (changed_to_eol (curx W) (maxx W)) s = Some s1"
    "ofold (\<lambda>x t. do { c \<leftarrow> peek (ltext l) (x - 1) t; poke (ltext l) x c t }) (rev [curx W + 1..maxx W]) s1 = Some s2"
    "poke (ltext l) (curx W) (render_char W ch) s2 = Some s3"
    "modw w (\<lambda>W. W\<lparr>curx := to_short (curx W + 1)\<rparr>) s3 = Some t4"
    using t4(1) assms(3) c(4) by (auto simp: insert_cell_def bind_eq_Some_conv)
  obtain V m where V: "windows s1 w = Some V" "ldat_at V (cury W) = Some m" "ltext m = ltext l" "maxx V = maxx W" "inv s1"
    by (rule modl_result [OF t(2) assms(2,3) t(1) c(3,4)])
  have mv: "ofold (\<lambda>x t. do { c \<leftarrow> peek (ltext m) (x - 1) t; poke (ltext m) x c t }) (rev [curx W + 1..maxx W]) s1 = Some s2"
    using t(3) V(3) by simp
  have so: "sorted_wrt (\<lambda>a b. b - 1 \<noteq> a) (rev [curx W + 1..maxx W])"
    unfolding sorted_wrt_rev by (rule sorted_wrt_mono_rel [OF _ sorted_wrt_upto]) auto
  have c2: "wcell s2 w y x = (if y = cury W \<and> x \<in> set (rev [curx W + 1..maxx W]) then map_option (\<lambda>c. c) (wcell s1 w (cury W) (x - 1))
      else wcell s1 w y x) \<and> windows s2 = windows s1 \<and> inv s2" for y x
    by (rule wcell_move [OF mv V(5,1,2,2)]) (use c V(4) so in auto)
  have W2: "windows s2 w = Some V" "inv s2" using c2 V(1) by auto
  have p3: "poke (ltext m) (curx W) (render_char W ch) s2 = Some s3" using t(4) V(3) by simp
  have mx: "curx W \<le> maxx V" using c V(4) by simp
  note c3 = wcell_poke [OF p3 W2(2,1) V(2) c(3) mx]
  have c1: "wcell s1 w y x = wcell s w y x" for y x by (rule wcell_modl [OF t(2)]) simp
  have c5: "wcell t5 w y x = wcell s3 w y x" for y x
    using wcell_modw [OF t5(1), of w y x] wcell_modw [OF t(5), of w y x] by simp
  have cells: "wcell t6 w y x = (if y = cury W \<and> x = curx W then Some (render_char W ch)
     else if y = cury W \<and> curx W < x \<and> x \<le> maxx W then wcell s w y (x - 1) else wcell s w y x)" for y x
    using t6(4) c5 c3(1) [of y x] c2 [of y x] c1 by (auto simp: option.map_ident)
  have "curx V5 = curx W \<and> cury V5 = cury W" using t5(1,3) by (auto simp: modw_def bind_eq_Some_conv)
  then show ?thesis using run t6(2,3) t5(3) cells by (intro exI [of _ t6] exI [of _ V5]) simp
qed

theorem winsch_contents_witness:
  "\<exists>s'. winsch idle 3 0x41 demo = Some (OK, s') \<and> wcell s' 3 0 0 = Some (render_char (demo_win 4) 0x41)
    \<and> wcell s' 3 0 3 = wcell demo 3 0 2"
proof -
  have p: "isprint (uint (CharOf 0x41))" by (simp add: isprint_def CharOf_def A_CHARTEXT_def)
  show ?thesis using winsch_contents [OF du_ok_idle inv_demo demo_stdscr(1,3) _ p] by auto
qed

section \<open>The operations meet the contract of drawing\<close>

interpretation delch: window_op "\<lambda>_::unit. wdelch" "\<lambda>_. True"
  by unfold_locales (rule ok_wdelch [OF _ draws_self])

interpretation insdelln: window_op "\<lambda>n du w. winsdelln du w n" "\<lambda>n. - (2 ^ 31) < n \<and> n < 2 ^ 31 - 32768"
  by unfold_locales (rule ok_winsdelln [OF _ draws_self]; simp)

interpretation insch: window_op "\<lambda>ch du w. winsch du w ch" "\<lambda>_. True"
  by unfold_locales (rule ok_winsch [OF _ draws_self])

interpretation insnstr: window_op "\<lambda>(str, n) du w. winsnstr du w str n"
    "\<lambda>(str, n). (\<forall>c \<in> set str. c \<notin> {0x0A, 0x0D, 0x08}) \<and> (0 \<in> set str \<or> 0 < n \<and> n \<le> int (length str))"
  by unfold_locales (auto intro!: ok_winsnstr [OF _ draws_self])

interpretation hline: window_op "\<lambda>(ch, n) du w. whline du w ch n" "\<lambda>(ch, n). 0 < n \<and> n < 2 ^ 31 - 32768"
  by unfold_locales (auto intro: ok_whline [OF _ draws_self])

interpretation vline: window_op "\<lambda>(ch, n) du w. wvline du w ch n" "\<lambda>(ch, n). - (2 ^ 31) < n \<and> n < 2 ^ 31 - 32768"
  by unfold_locales (auto intro: ok_wvline [OF _ draws_self])

interpretation border: window_op "\<lambda>(a, b, c, d, e, f, g, h) du w. wborder du w a b c d e f g h" "\<lambda>_. True"
  by unfold_locales (auto intro: ok_wborder [OF _ draws_self])

end
