(* ===== verification/WinAttr.thy ===== *)
theory WinAttr
  imports WinEdit
begin

text \<open>
  Attributes, options, the background, and reading cells (\<open>lib_chgat.c\<close>, \<open>lib_colorset.c\<close>,
  \<open>lib_scrreg.c\<close>, \<open>lib_options.c\<close>, \<open>lib_bkgd.c\<close>, \<open>lib_instr.c\<close>, \<open>lib_inchstr.c\<close> and the
  macros of \<open>curses.h\<close>). There is a current screen, so the branch of \<open>wbkgd\<close> for a null \<open>SP\<close> is not taken.
\<close>

section \<open>Attributes and options\<close>

definition wchgat :: "nat \<Rightarrow> int \<Rightarrow> chtype \<Rightarrow> int \<Rightarrow> nc \<Rightarrow> (int \<times> nc) option" where
  "wchgat w n attr pair_arg s =
     (if w = 0 then Some (ERR, s)
      else do {
        W \<leftarrow> windows s w;
        (let color_pair = word_of_int (to_short pair_arg);
             attr1 = toggle_attr_on attr (ColorPair color_pair);
             last = (if n = - 1 then maxx W else min (maxx W) (curx W + n - 1))
         in do {
           s1 \<leftarrow> ofold (\<lambda>i t. do {
                    V \<leftarrow> windows t w;
                    l \<leftarrow> ldat_at V (cury W);
                    c \<leftarrow> peek (ltext l) i t;
                    t1 \<leftarrow> poke (ltext l) i (SetPair (SetAttr c attr1) color_pair) t;
                    modl w (cury W) (changed_cell i) t1 }) [curx W..last] s;
           Some (OK, s1) }) })"

definition wattr_on :: "nat \<Rightarrow> chtype \<Rightarrow> nc \<Rightarrow> (int \<times> nc) option" where
  "wattr_on w at s =
     (if w = 0 then Some (ERR, s)
      else do { s1 \<leftarrow> modw w (\<lambda>W. W\<lparr>attrs := toggle_attr_on (attrs W) at\<rparr>) s; Some (OK, s1) })"

definition wattr_off :: "nat \<Rightarrow> chtype \<Rightarrow> nc \<Rightarrow> (int \<times> nc) option" where
  "wattr_off w at s =
     (if w = 0 then Some (ERR, s)
      else do { s1 \<leftarrow> modw w (\<lambda>W. W\<lparr>attrs := toggle_attr_off (attrs W) at\<rparr>) s; Some (OK, s1) })"

definition wcolor_set :: "nat \<Rightarrow> int \<Rightarrow> nc \<Rightarrow> (int \<times> nc) option" where
  "wcolor_set w pair_arg s =
     (let color_pair = to_short pair_arg in
      if w \<noteq> 0 \<and> color_pair \<ge> 0 \<and> color_pair < pair_limit s then do {
        s1 \<leftarrow> modw w (\<lambda>W. W\<lparr>attrs := (attrs W AND NOT A_COLOR) OR ColorPair (word_of_int color_pair)\<rparr>) s;
        Some (OK, s1) }
      else Some (ERR, s))"

definition wsetscrreg :: "nat \<Rightarrow> int \<Rightarrow> int \<Rightarrow> nc \<Rightarrow> (int \<times> nc) option" where
  "wsetscrreg w tp bt s =
     (if w = 0 then Some (ERR, s)
      else do {
        W \<leftarrow> windows s w;
        if tp \<ge> 0 \<and> tp \<le> maxy W \<and> bt \<ge> 0 \<and> bt \<le> maxy W \<and> bt > tp then do {
          s1 \<leftarrow> modw w (\<lambda>W. W\<lparr>regtop := to_short tp, regbottom := to_short bt\<rparr>) s;
          Some (OK, s1) }
        else Some (ERR, s) })"

definition scrollok :: "nat \<Rightarrow> bool \<Rightarrow> nc \<Rightarrow> (int \<times> nc) option" where
  "scrollok w flag s =
     (if w = 0 then Some (ERR, s) else do { s1 \<leftarrow> modw w (\<lambda>W. W\<lparr>scrollf := flag\<rparr>) s; Some (OK, s1) })"

definition set_leaveok :: "nat \<Rightarrow> bool \<Rightarrow> nc \<Rightarrow> (int \<times> nc) option" where
  "set_leaveok w flag s =
     (if w = 0 then Some (ERR, s) else do { s1 \<leftarrow> modw w (\<lambda>W. W\<lparr>leaveok := flag\<rparr>) s; Some (OK, s1) })"

definition clearok :: "nat \<Rightarrow> bool \<Rightarrow> nc \<Rightarrow> (int \<times> nc) option" where
  "clearok w flag s =
     (if w = 0 then Some (ERR, s) else do { s1 \<leftarrow> modw w (\<lambda>W. W\<lparr>clearf := flag\<rparr>) s; Some (OK, s1) })"

definition immedok :: "nat \<Rightarrow> bool \<Rightarrow> nc \<Rightarrow> nc option" where
  "immedok w flag s = (if w = 0 then Some s else modw w (\<lambda>W. W\<lparr>immed := flag\<rparr>) s)"

section \<open>Reading cells\<close>

definition winch :: "nat \<Rightarrow> nc \<Rightarrow> chtype option" where
  "winch w s =
     (if w = 0 then Some 0
      else do {
        W \<leftarrow> windows s w;
        l \<leftarrow> ldat_at W (cury W);
        c \<leftarrow> peek (ltext l) (curx W) s;
        Some (CharOf c OR AttrOf c) })"

text \<open>
  \<open>winnstr\<close> returns the count and the characters it writes to \<open>str\<close>, the terminating zero
  included; \<open>cap\<close> is the size of the caller's array.
\<close>

fun innstr_loop :: "textptr \<Rightarrow> int \<Rightarrow> int \<Rightarrow> nat \<Rightarrow> nc \<Rightarrow> chtype list option" where
  "innstr_loop p col mx 0 s = Some []"
| "innstr_loop p col mx (Suc k) s = do {
     c \<leftarrow> peek p col s;
     if col + 1 > mx then Some [CharOf c]
     else do { cs \<leftarrow> innstr_loop p (col + 1) mx k s; Some (CharOf c # cs) } }"

definition winnstr :: "nat \<Rightarrow> int \<Rightarrow> nat \<Rightarrow> nc \<Rightarrow> (int \<times> chtype list) option" where
  "winnstr w n cap s =
     (if w = 0 then Some (ERR, [])
      else do {
        W \<leftarrow> windows s w;
        l \<leftarrow> ldat_at W (cury W);
        (let n1 = (if n < 0 then maxx W - curx W + 1 else n) in do {
           cs \<leftarrow> innstr_loop (ltext l) (curx W) (maxx W) (nat n1) s;
           if length cs < cap then Some (int (length cs), cs @ [0]) else None }) })"

definition winchnstr :: "nat \<Rightarrow> int \<Rightarrow> nat \<Rightarrow> nc \<Rightarrow> (int \<times> chtype list) option" where
  "winchnstr w n cap s =
     (if w = 0 then Some (ERR, [])
      else do {
        W \<leftarrow> windows s w;
        l \<leftarrow> ldat_at W (cury W);
        (let last = (if n < 0 then maxx W else min (maxx W) (curx W + n - 1)) in do {
           cs \<leftarrow> ofold (\<lambda>x acc. do { c \<leftarrow> peek (ltext l) x s;
                      Some (acc @ [(CharOf c AND A_CHARTEXT) OR AttrOf c]) }) [curx W..last] [];
           if length cs < cap then Some (int (length cs), cs @ [0]) else None }) })"

section \<open>The background\<close>

definition bkgd_attrs :: "chtype \<Rightarrow> window \<Rightarrow> window" where
  "bkgd_attrs ch W =
     W\<lparr>attrs := toggle_attr_on (toggle_attr_off (attrs W) (AttrOf (bkgd W))) (AttrOf ch),
       bkgd := (if CharOf ch = 0 then BLANK OR AttrOf ch else ch)\<rparr>"

definition wbkgrndset :: "nat \<Rightarrow> chtype \<Rightarrow> nc \<Rightarrow> nc option" where
  "wbkgrndset w ch s = (if w = 0 then Some s else modw w (bkgd_attrs ch) s)"

definition wbkgdset :: "nat \<Rightarrow> chtype \<Rightarrow> nc \<Rightarrow> nc option" where
  "wbkgdset w ch s = wbkgrndset w (SetChar2 ch) s"

text \<open>\<open>Charable(ch)\<close> without wide characters, on the whole cell.\<close>

definition Charable :: "chtype \<Rightarrow> bool" where
  "Charable ch \<longleftrightarrow> ch \<ge> 0x20 \<and> ch \<le> 0x7E"

definition new_background :: "nc \<Rightarrow> chtype \<Rightarrow> chtype" where
  "new_background s ch =
     (let nb = (if pair_limit s = 0 then SetPair (RemAttr ch A_COLOR) 0 else ch) in
      if CharOf nb = 0 then SetPair (SetAttr BLANK (AttrOf nb)) (GetPair nb) else nb)"

definition bkgd_cell :: "chtype \<Rightarrow> chtype \<Rightarrow> chtype \<Rightarrow> chtype" where
  "bkgd_cell old_bkgd new_bkgd c =
     (let old_char = RemAttr old_bkgd (NOT A_CHARTEXT);
          old_attr = AttrOf old_bkgd;
          old_pair = (if old_attr AND A_COLOR = 0 then 0 else GetPair old_bkgd);
          new_char = (if Charable new_bkgd then RemAttr new_bkgd (NOT A_CHARTEXT) else old_char);
          new_attr = AttrOf new_bkgd;
          new_pair = (if new_attr AND A_COLOR = 0 then 0 else GetPair new_bkgd);
          tmp_pair = GetPair c;
          tmp_attr = AttrOf c;
          c1 = (if c = old_bkgd then SetChar2 (CharOf new_char) else c)
      in if tmp_pair \<noteq> 0 then
           (if tmp_pair = old_pair
            then SetPair (SetAttr c1 ((tmp_attr AND NOT old_attr) OR new_attr)) new_pair
            else SetAttr c1 ((tmp_attr AND (NOT old_attr OR A_COLOR)) OR (new_attr AND NOT A_COLOR)))
         else SetPair (SetAttr c1 ((tmp_attr AND NOT old_attr) OR new_attr)) new_pair)"

definition bkgd_new_attrs :: "chtype \<Rightarrow> chtype \<Rightarrow> chtype" where
  "bkgd_new_attrs old_bkgd new_bkgd =
     (let new_attr = AttrOf new_bkgd;
          new_pair = (if new_attr AND A_COLOR = 0 then 0 else GetPair new_bkgd);
          old_pair = (if AttrOf old_bkgd AND A_COLOR = 0 then 0 else GetPair old_bkgd)
      in if new_pair \<noteq> 0 \<and> new_pair = old_pair
         then (new_attr AND NOT A_COLOR) OR ColorPair new_pair else new_attr)"

definition bkgd_row :: "nat \<Rightarrow> chtype \<Rightarrow> chtype \<Rightarrow> int \<Rightarrow> nc \<Rightarrow> nc option" where
  "bkgd_row w ob nb y s = do {
     W \<leftarrow> windows s w;
     l \<leftarrow> ldat_at W y;
     ofold (\<lambda>x t. do { c \<leftarrow> peek (ltext l) x t; poke (ltext l) x (bkgd_cell ob nb c) t }) [0..maxx W] s }"

definition wbkgd :: "updater \<Rightarrow> nat \<Rightarrow> chtype \<Rightarrow> nc \<Rightarrow> (int \<times> nc) option" where
  "wbkgd du w ch s =
     (if w = 0 then Some (ERR, s)
      else do {
        W \<leftarrow> windows s w;
        (let new_bkgd = new_background s (SetChar2 ch); old_bkgd = bkgd W in
         if old_bkgd = new_bkgd then Some (OK, s)
         else do {
           s1 \<leftarrow> wbkgrndset w new_bkgd s;
           s2 \<leftarrow> modw w (\<lambda>W. W\<lparr>attrs := bkgd_new_attrs old_bkgd new_bkgd\<rparr>) s1;
           s3 \<leftarrow> ofold (bkgd_row w old_bkgd new_bkgd) [0..maxy W] s2;
           (r, s4) \<leftarrow> touchwin w s3;
           s5 \<leftarrow> synchook du w s4;
           Some (OK, s5) }) })"

section \<open>Safety\<close>

lemma ok_wchgat:
  assumes "draws w s0 s" and "windows s w = Some W" and "w \<noteq> newscr s"
  shows "ok (wchgat w n attr p s) (\<lambda>(r, s'). draws w s0 s')"
proof -
  have k: "win_ok s w W" "w \<noteq> 0" using invD [OF evolvesD(1) [OF assms(1)] assms(2)] .
  note c = win_ok_cursor [OF k(1) assms(3)] win_okD [OF k(1)]
  let ?h = "\<lambda>c. SetPair (SetAttr c (toggle_attr_on attr (ColorPair (word_of_int (to_short p))))) (word_of_int (to_short p))"
  let ?f = "\<lambda>i t. do { V \<leftarrow> windows t w; l \<leftarrow> ldat_at V (cury W); c \<leftarrow> peek (ltext l) i t;
               t1 \<leftarrow> poke (ltext l) i (?h c) t; modl w (cury W) (changed_cell i) t1 }"
  let ?last = "if n = - 1 then maxx W else min (maxx W) (curx W + n - 1)"
  have "ok (ofold ?f [curx W..?last] s) (draws w s0)"
  proof (rule ok_ofold)
    show "draws w s0 s" by (rule assms(1))
    fix i t assume i: "i \<in> set [curx W..?last]" and t: "draws w s0 t"
    obtain V where V: "windows t w = Some V" "maxy V = maxy W" "maxx V = maxx W" "win_ok t w V"
      by (rule drawn_on [OF assms t])
    have ir: "0 \<le> i" "i \<le> maxx V" "maxx V < 32767" using i c V(3) by (auto split: if_splits)
    have yr: "0 \<le> cury W" "cury W \<le> maxy V" using c V(2) by simp_all
    obtain l where l: "ldat_at V (cury W) = Some l" "row_ok t (maxx V) l" "mark_ok (maxx V) l" using win_ok_line [OF V(4) yr] .
    obtain a where a: "peek (ltext l) i t = Some a" using peek_row [OF l(2) ir(1,2)] by blast
    let ?D = "{q. q = (cury W, i)}"
    have "ok (poke (ltext l) i (?h a) t) (\<lambda>s'. evolves w ?D t s' \<and> windows s' = windows t)"
      by (rule ok_poke [OF evolves_refl [OF evolvesD(1) [OF t]] V(1) l(1) ir(1,2)]) simp
    then obtain t1 where t1: "poke (ltext l) i (?h a) t = Some t1" "evolves w ?D t t1" "windows t1 = windows t" by (rule ok_conjE)
    have V1: "windows t1 w = Some V" using t1(3) V(1) by simp
    note g = changed_cell_mark [OF l(3) ir]
    let ?V = "V\<lparr>lines := (lines V)[nat (cury W) := changed_cell i l]\<rparr>"
    have "ok (modl w (cury W) (changed_cell i) t1) (\<lambda>s'. evolves w ?D t s' \<and> s' = set_win w ?V t1)"
      by (rule ok_modl [OF t1(2) V1 l(1)]) (simp_all add: g)
    then obtain t2 where t2: "modl w (cury W) (changed_cell i) t1 = Some t2" "evolves w ?D t t2" "t2 = set_win w ?V t1"
      by (rule ok_conjE)
    have V2: "windows t2 w = Some ?V" using t2(3) by simp
    have "draws w t t2"
    proof (rule evolves_discharge [OF t2(2) V(1)])
      fix y' x' assume "(y', x') \<in> ?D"
      then have yx: "y' = cury W" "x' = i" by simp_all
      have "covers (sup (mark l) (Changed i i)) i" using covers_mono [of "Changed i i" "sup (mark l) (Changed i i)"] by simp
      then show "marked t2 w y' x'" using yx by (simp add: marked_line [OF V2] ldat_at_update [OF l(1)] g(1))
    qed
    then show "ok (?f i t) (draws w s0)" using V(1) l(1) a t1(1) t2(1) evolves_trans [OF t] by simp
  qed
  then obtain s1 where s1: "ofold ?f [curx W..?last] s = Some s1" "draws w s0 s1" by (rule okE)
  show ?thesis using k(2) assms(2) s1 by (simp add: wchgat_def Let_def)
qed

text \<open>The options and attributes are fields without a part in the invariant.\<close>

lemma ok_field:
  assumes "draws w s0 s" and "windows s w = Some W" and "geom (f W) = geom W" and "lines (f W) = lines W"
    and "immed (f W) = immed W" and "win_ok s w W \<Longrightarrow> win_ok s w (f W)"
  shows "ok (if w = 0 then Some (ERR, s) else do { s1 \<leftarrow> modw w f s; Some (OK, s1) }) (\<lambda>(r, s'). draws w s0 s')"
proof -
  have "w \<noteq> 0" using invD(2) [OF evolvesD(1) [OF assms(1)] assms(2)] .
  then show ?thesis using ok_modw_cursor [where f = f, OF assms] by auto
qed

lemma ok_options:
  assumes "draws w s0 s" and "windows s w = Some W"
  shows "ok (wattr_on w at s) (\<lambda>(r, s'). draws w s0 s')" "ok (wattr_off w at s) (\<lambda>(r, s'). draws w s0 s')"
    "ok (scrollok w b s) (\<lambda>(r, s'). draws w s0 s')" "ok (set_leaveok w b s) (\<lambda>(r, s'). draws w s0 s')"
    "ok (clearok w b s) (\<lambda>(r, s'). draws w s0 s')" "ok (syncok w b s) (\<lambda>(r, s'). draws w s0 s')"
  unfolding wattr_on_def wattr_off_def scrollok_def set_leaveok_def clearok_def syncok_def
  by (rule ok_field [OF assms]; simp)+

lemma ok_wcolor_set:
  assumes "draws w s0 s" and "windows s w = Some W"
  shows "ok (wcolor_set w p s) (\<lambda>(r, s'). draws w s0 s')"
proof -
  have "w \<noteq> 0" using invD(2) [OF evolvesD(1) [OF assms(1)] assms(2)] .
  let ?f = "\<lambda>W. W\<lparr>attrs := (attrs W AND NOT A_COLOR) OR ColorPair (word_of_int (to_short p))\<rparr>"
  obtain s' where "modw w ?f s = Some s'" "draws w s0 s'" using ok_modw_cursor [where f = ?f, OF assms] by auto
  then show ?thesis using \<open>w \<noteq> 0\<close> assms(1) by (simp add: wcolor_set_def Let_def)
qed

lemma ok_wsetscrreg:
  assumes "draws w s0 s" and "windows s w = Some W"
  shows "ok (wsetscrreg w tp bt s) (\<lambda>(r, s'). draws w s0 s')"
proof -
  have k: "win_ok s w W" "w \<noteq> 0" using invD [OF evolvesD(1) [OF assms(1)] assms(2)] .
  show ?thesis
  proof (cases "tp \<ge> 0 \<and> tp \<le> maxy W \<and> bt \<ge> 0 \<and> bt \<le> maxy W \<and> bt > tp")
    case False
    then show ?thesis using assms k(2) by (auto simp add: wsetscrreg_def)
  next
    case True
    then have ts: "to_short tp = tp" "to_short bt = bt" using win_okD(2) [OF k(1)] by (simp_all add: to_short_id)
    let ?f = "\<lambda>W. W\<lparr>regtop := to_short tp, regbottom := to_short bt\<rparr>"
    have "win_ok s w (?f W)" if "win_ok s w W" using that ts True by (simp add: win_ok_def)
    then obtain s' where "modw w ?f s = Some s'" "draws w s0 s'" using ok_modw_cursor [where f = ?f, OF assms] by auto
    then show ?thesis using k(2) assms(2) True by (simp add: wsetscrreg_def)
  qed
qed

lemma ok_winch:
  assumes "inv s" and "windows s w = Some W" and "w \<noteq> newscr s"
  shows "\<exists>c. winch w s = Some c \<and> wcell s w (cury W) (curx W) = Some c"
proof -
  have k: "win_ok s w W" "w \<noteq> 0" using invD [OF assms(1,2)] .
  note c = win_ok_cursor [OF k(1) assms(3)]
  obtain l where l: "ldat_at W (cury W) = Some l" "row_ok s (maxx W) l" using win_ok_line [OF k(1) c(1,2)] .
  obtain a where a: "peek (ltext l) (curx W) s = Some a" using peek_row [OF l(2) c(3,4)] by blast
  have "CharOf a OR AttrOf a = a" using SetChar2_id [of a] unfolding SetChar2_def .
  then show ?thesis using a l(1) assms(2) k(2) c by (simp add: winch_def wcell_def)
qed

text \<open>Reading a line of text: the characters from the cursor on.\<close>

lemma innstr_loop_wcell:
  assumes "inv s" and "windows s w = Some W" and "ldat_at W y = Some l" and "0 \<le> x" and "x \<le> maxx W"
  shows "\<exists>cs. innstr_loop (ltext l) x (maxx W) n s = Some cs \<and> length cs = nat (min (int n) (maxx W - x + 1))
    \<and> (\<forall>i < length cs. Some (cs ! i) = map_option CharOf (wcell s w y (x + int i)))"
  using assms(4,5)
proof (induction n arbitrary: x)
  case 0
  then show ?case by simp
next
  case (Suc n)
  have k: "win_ok s w W" using invD(1) [OF assms(1,2)] .
  have "l \<in> set (lines W)" using ldat_at_range [OF assms(3)] by auto
  then have "row_ok s (maxx W) l" using k by (auto simp: win_ok_def)
  then obtain a where a: "peek (ltext l) x s = Some a" using peek_row Suc.prems by blast
  have wa: "wcell s w y x = Some a" using wcell_peek [OF assms(2,3) Suc.prems] a by simp
  show ?case
  proof (cases "x + 1 > maxx W")
    case True
    then have "innstr_loop (ltext l) x (maxx W) (Suc n) s = Some [CharOf a]" using a by simp
    moreover have "nat (min (int (Suc n)) (maxx W - x + 1)) = 1" using True Suc.prems by simp
    ultimately show ?thesis using wa by simp
  next
    case False
    obtain cs where cs: "innstr_loop (ltext l) (x + 1) (maxx W) n s = Some cs"
      "length cs = nat (min (int n) (maxx W - (x + 1) + 1))"
      "\<forall>i < length cs. Some (cs ! i) = map_option CharOf (wcell s w y (x + 1 + int i))"
      using Suc.IH [of "x + 1"] Suc.prems False by auto
    have "innstr_loop (ltext l) x (maxx W) (Suc n) s = Some (CharOf a # cs)" using a cs(1) False by simp
    moreover have "length (CharOf a # cs) = nat (min (int (Suc n)) (maxx W - x + 1))" using cs(2) False by simp
    moreover have "\<forall>i < length (CharOf a # cs). Some ((CharOf a # cs) ! i) = map_option CharOf (wcell s w y (x + int i))"
      using cs(3) wa by (auto simp: nth_Cons algebra_simps split: nat.splits)
    ultimately show ?thesis by blast
  qed
qed

lemma winnstr_contents:
  assumes "inv s" and "windows s w = Some W" and "w \<noteq> newscr s" and "maxx W - curx W + 1 < int cap"
  shows "\<exists>cs. winnstr w (- 1) cap s = Some (maxx W - curx W + 1, cs @ [0]) \<and> int (length cs) = maxx W - curx W + 1
    \<and> (\<forall>i < length cs. Some (cs ! i) = map_option CharOf (wcell s w (cury W) (curx W + int i)))"
proof -
  have k: "win_ok s w W" "w \<noteq> 0" using invD [OF assms(1,2)] .
  note c = win_ok_cursor [OF k(1) assms(3)]
  obtain l where l: "ldat_at W (cury W) = Some l" using win_ok_line [OF k(1) c(1,2)] .
  obtain cs where cs: "innstr_loop (ltext l) (curx W) (maxx W) (nat (maxx W - curx W + 1)) s = Some cs"
    "length cs = nat (min (int (nat (maxx W - curx W + 1))) (maxx W - curx W + 1))"
    "\<forall>i < length cs. Some (cs ! i) = map_option CharOf (wcell s w (cury W) (curx W + int i))"
    using innstr_loop_wcell [OF assms(1,2) l c(3,4)] by blast
  have n: "int (length cs) = maxx W - curx W + 1" using cs(2) c by simp
  have "winnstr w (- 1) cap s = Some (maxx W - curx W + 1, cs @ [0])"
    using assms(2,4) k(2) l cs(1) n by (simp add: winnstr_def Let_def)
  then show ?thesis using cs(3) n by blast
qed

section \<open>Safety of a change of the background\<close>

lemma ok_bkgd_row:
  assumes "evolves w UNIV s0 s" and "windows s w = Some W" and "0 \<le> y" and "y \<le> maxy W"
  shows "ok (bkgd_row w ob nb y s) (\<lambda>s'. evolves w UNIV s0 s' \<and> windows s' = windows s)"
proof -
  have k: "win_ok s w W" using invD(1) [OF evolvesD(1) [OF assms(1)] assms(2)] .
  obtain l where l: "ldat_at W y = Some l" using win_ok_line [OF k assms(3,4)] .
  have "ok (ofold (\<lambda>x t. do { c \<leftarrow> peek (ltext l) x t; poke (ltext l) x (bkgd_cell ob nb c) t }) [0..maxx W] s)
      (\<lambda>s'. evolves w UNIV s0 s' \<and> windows s' = windows s)"
    by (rule ok_copy_loop [OF assms(1,2) l l]) simp_all
  then show ?thesis using assms(2) l by (simp add: bkgd_row_def del: ok_bind)
qed

lemma ok_wbkgd:
  assumes "du_ok du" and "draws w s0 s" and "windows s w = Some W" and "w \<noteq> newscr s"
  shows "ok (wbkgd du w ch s) (\<lambda>(r, s'). draws w s0 s')"
proof -
  have i: "inv s" using evolvesD(1) [OF assms(2)] .
  have k: "win_ok s w W" "w \<noteq> 0" using invD [OF i assms(3)] .
  define nb where "nb = new_background s (SetChar2 ch)"
  show ?thesis
  proof (cases "bkgd W = nb")
    case True
    then show ?thesis using k(2) assms(2,3) by (simp add: wbkgd_def Let_def nb_def)
  next
    case False
    let ?f = "bkgd_attrs nb"
    obtain s1 where s1: "modw w ?f s = Some s1" "draws w s s1" "windows s1 = (windows s)(w \<mapsto> ?f W)"
      using ok_modw_cursor [where f = ?f, OF evolves_refl [OF i] assms(3)] by (auto simp: bkgd_attrs_def)
    have W1: "windows s1 w = Some (?f W)" using s1(3) by simp
    let ?at = "bkgd_new_attrs (bkgd W) nb"
    let ?g = "\<lambda>W. W\<lparr>attrs := ?at\<rparr>"
    obtain s2 where s2: "modw w ?g s1 = Some s2" "draws w s s2" "windows s2 = (windows s1)(w \<mapsto> ?g (?f W))"
      using ok_modw_cursor [where f = ?g, OF s1(2) W1] by auto
    let ?W = "?g (?f W)"
    have W2: "windows s2 w = Some ?W" using s2(3) by simp
    have my: "maxy ?W = maxy W" "maxx ?W = maxx W" by (simp_all add: bkgd_attrs_def)
    have e2: "evolves w UNIV s s2" using evolves_mono [OF s2(2)] by simp
    have "ok (ofold (bkgd_row w (bkgd W) nb) [0..maxy W] s2) (\<lambda>s'. evolves w UNIV s s' \<and> windows s' = windows s2)"
      by (rule ok_rows [OF e2 W2], rule ok_bkgd_row) (use my in auto)
    then obtain s3 where s3: "ofold (bkgd_row w (bkgd W) nb) [0..maxy W] s2 = Some s3" "evolves w UNIV s s3"
      "windows s3 = windows s2" by (rule ok_conjE)
    have W3: "windows s3 w = Some ?W" using s3(3) W2 by simp
    have b: "0 \<le> maxy W" using win_okD(1) [OF k(1)] .
    have "ok (wtouchln w 0 (maxy W + 1) True s3) (\<lambda>(r, s'). evolves w UNIV s s' \<and>
        (\<not> immediate s w \<longrightarrow> (\<forall>i x. 0 \<le> i \<and> i < 0 + (maxy W + 1) \<and> 0 \<le> x \<and> x \<le> maxx ?W \<longrightarrow> marked s' w i x)))"
      by (rule ok_wtouchln_marks [OF s3(2) W3]) (use my b in auto)
    then obtain r s4 where s4: "wtouchln w 0 (maxy W + 1) True s3 = Some (r, s4)" and e4: "evolves w UNIV s s4"
      "\<not> immediate s w \<longrightarrow> (\<forall>i x. 0 \<le> i \<and> i < 0 + (maxy W + 1) \<and> 0 \<le> x \<and> x \<le> maxx ?W \<longrightarrow> marked s4 w i x)"
      by (rule ok_pair_conjE)
    have "draws w s s4"
    proof (rule evolves_discharge [OF e4(1) assms(3)])
      fix y x assume im: "\<not> immediate s w" and x: "0 \<le> x" "x \<le> maxx W" and "ldat_at W y \<noteq> None"
      then have "0 \<le> y" "y \<le> maxy W" using win_okD(5) [OF k(1)] by (auto simp: ldat_at_def split: if_splits)
      then show "marked s4 w y x" using e4(2) im x my by simp
    qed
    then have d: "draws w s0 s4" by (rule evolves_trans [OF assms(2)])
    obtain V where V: "windows s4 w = Some V" "w \<noteq> newscr s4" by (rule drawn_on [OF assms(2-4) d])
    have tw: "touchwin w s3 = Some (r, s4)" using s4 W3 k(2) my by (simp add: touchwin_def)
    show ?thesis
      using k(2) assms(3) False s1(1) s2(1) s3(1) tw ok_then_synchook [OF assms(1) d V, of OK]
      by (simp add: wbkgd_def wbkgrndset_def Let_def nb_def)
  qed
qed

section \<open>Reading back what was written\<close>

lemma CharOf_simps:
  "CharOf (a OR b) = CharOf a OR CharOf b" "CharOf (AttrOf a) = 0" "CharOf (ColorPair p) = 0" "CharOf (CharOf a) = CharOf a"
  "CharOf (RemAttr c a) = CharOf c" "CharOf (SetAttr c a) = CharOf c OR CharOf a" "CharOf (a AND b) = CharOf a AND b"
proof -
  have n: "A_ATTRIBUTES = NOT A_CHARTEXT" by (simp only: A_CHARTEXT_def A_ATTRIBUTES_def)
  have col: "(x AND 0xFF00) AND 0xFF = 0" for x :: chtype by (simp add: and.assoc)
  have b: "(x OR y) AND m = (x AND m) OR (y AND m)" "(x AND NOT m) AND m = 0" "(x AND m) AND m = x AND m"
    "(x AND NOT (y AND NOT m)) AND m = x AND m" "((x AND NOT (NOT m)) OR y) AND m = (x AND m) OR (y AND m)"
    "(x AND y) AND m = (x AND m) AND y" for x y m :: chtype
    by (rule bit_eqI; auto simp: bit_simps)+
  show "CharOf (a OR b) = CharOf a OR CharOf b" "CharOf (AttrOf a) = 0" "CharOf (CharOf a) = CharOf a"
    "CharOf (RemAttr c a) = CharOf c" "CharOf (SetAttr c a) = CharOf c OR CharOf a" "CharOf (a AND b) = CharOf a AND b"
    unfolding CharOf_def AttrOf_def RemAttr_def SetAttr_def n by (rule b)+
  show "CharOf (ColorPair p) = 0" unfolding CharOf_def ColorPair_def A_COLOR_def A_CHARTEXT_def by (rule col)
qed

lemma CharOf_SetPair [simp]: "CharOf (SetPair c p) = CharOf c"
  by (simp add: SetPair_def Let_def CharOf_simps)

lemma CharOf_render:
  assumes "CharOf (attrs W) = 0" and "CharOf (bkgd W) = 0x20"
  shows "CharOf (render_char W ch) = CharOf ch"
  using assms by (auto simp: render_char_def Let_def AddAttr_def CharOf_simps ISBLANK_def)

text \<open>
  C11. Writing a terminated string of printable characters with \<open>waddnstr\<close>, moving the cursor back to
  where it was and reading with \<open>winnstr\<close> gives the same characters again, for every string that fits
  into the line, provided the background of the window is a blank.
\<close>

theorem text_roundtrip:
  assumes "du_ok du" and "inv s" and "windows s w = Some W" and "w \<noteq> newscr s" and "\<not> immed W"
    and "\<forall>c \<in> set cs. isprint (uint c)" and "curx W + int (length cs) \<le> maxx W" and "length cs < cap"
    and "CharOf (attrs W) = 0" and "CharOf (bkgd W) = 0x20"
  shows "\<exists>s1 s2. waddnstr du w (cs @ [0]) (- 1) s = Some (OK, s1) \<and> wmove w (cury W) (curx W) s1 = Some (OK, s2)
    \<and> winnstr w (int (length cs)) cap s2 = Some (int (length cs), cs @ [0])"
proof -
  have k: "win_ok s w W" "w \<noteq> 0" using invD [OF assms(2,3)] .
  note c = win_ok_cursor [OF k(1) assms(4)]
  have ch: "CharOf a = a" if "a \<in> set cs" for a
  proof -
    have "uint a \<le> 126" using assms(6) that by (simp add: isprint_def)
    then have "take_bit 8 (uint a) = uint a" by (intro take_bit_int_eq_self) simp_all
    then have "take_bit 8 a = a" by (simp add: word_uint_eq_iff unsigned_take_bit_eq)
    then show ?thesis by (simp add: CharOf_def A_CHARTEXT_def take_bit_eq_mask mask_eq_exp_minus_1)
  qed
  have pr: "\<forall>a \<in> set cs. isprint (uint (CharOf a))" using assms(6) ch by simp
  obtain s1 W1 where s1: "waddnstr du w (cs @ 0 # []) (- 1) s = Some (OK, s1)" "windows s1 w = Some W1" "draws w s s1"
    "\<forall>y x. wcell s1 w y x =
          (if y = cury W \<and> curx W \<le> x \<and> x < curx W + int (length cs)
           then Some (render_char W (cs ! nat (x - curx W))) else wcell s w y x)"
    using waddnstr_text [OF assms(1-5) pr assms(7), of 0 "- 1" "[]"] by auto
  have b1: "maxy W1 = maxy W" "maxx W1 = maxx W" "win_ok s1 w W1" using draws_winE [OF s1(3) assms(3) s1(2)] by simp_all
  have leg: "LEGALYX W1 (cury W) (curx W)" using c b1 by (simp add: LEGALYX_def)
  from ok_wmove [OF evolves_refl [OF evolvesD(1) [OF s1(3)], of w "{}"] s1(2), of "cury W" "curx W"]
  obtain r s2 where s2: "wmove w (cury W) (curx W) s1 = Some (r, s2)" "draws w s1 s2" "cells s2 = cells s1" "r = OK"
    "windows s2 = (windows s1)(w \<mapsto> W1\<lparr>curx := curx W, cury := cury W, flags := (flags W1 AND NOT F_WRAPPED) OR F_HASMOVED\<rparr>)"
    using leg by (auto elim!: okE)
  let ?V = "W1\<lparr>curx := curx W, cury := cury W, flags := (flags W1 AND NOT F_WRAPPED) OR F_HASMOVED\<rparr>"
  have W2: "windows s2 w = Some ?V" using s2(5) by simp
  have cy: "cury W \<le> maxy W1" using c b1 by simp
  have i2: "inv s2" using evolvesD(1) [OF s2(2)] .
  have k2: "win_ok s2 w ?V" using invD(1) [OF i2 W2] .
  obtain l where l: "ldat_at ?V (cury W) = Some l" using win_ok_line [OF k2 c(1)] cy by auto
  have cl: "wcell s2 w y x = wcell s1 w y x" for y x
  proof -
    have "s2 = s2\<lparr>cells := cells s1\<rparr>" using s2(3) by simp
    have "ldat_at ?V y = ldat_at W1 y" for y by (simp add: ldat_at_def cong: if_cong)
    moreover have "peek p i s2 = peek p i s1" for p i using s2(3) by (simp add: peek_def)
    ultimately show ?thesis using W2 s1(2) by (simp add: wcell_def cong: if_cong)
  qed
  obtain ds where ds: "innstr_loop (ltext l) (curx W) (maxx ?V) (length cs) s2 = Some ds"
    "length ds = nat (min (int (length cs)) (maxx ?V - curx W + 1))"
    "\<forall>i < length ds. Some (ds ! i) = map_option CharOf (wcell s2 w (cury W) (curx W + int i))"
  proof -
    have "curx W \<le> maxx ?V" using c(4) b1(2) by simp
    from innstr_loop_wcell [OF i2 W2 l c(3) this, of "length cs"] show thesis using that by blast
  qed
  have len: "length ds = length cs" using ds(2) assms(7) b1(2) by simp
  have "ds = cs"
  proof (rule nth_equalityI [OF len])
    fix i assume i: "i < length ds"
    then have "wcell s2 w (cury W) (curx W + int i) = Some (render_char W (cs ! i))"
      using cl s1(4) len by simp
    moreover have "Some (ds ! i) = map_option CharOf (wcell s2 w (cury W) (curx W + int i))" using ds(3) i by blast
    ultimately have "ds ! i = CharOf (render_char W (cs ! i))" by (metis option.map(2) option.inject)
    then show "ds ! i = cs ! i" using CharOf_render [OF assms(9,10)] ch len i by simp
  qed
  then have "winnstr w (int (length cs)) cap s2 = Some (int (length cs), cs @ [0])"
    using W2 k(2) l ds(1) assms(8) by (simp add: winnstr_def Let_def)
  then show ?thesis using s1(1) s2(1,4) by auto
qed

theorem text_roundtrip_witness:
  "\<exists>s1 s2. waddnstr idle 3 [0x48, 0x69, 0] (- 1) demo = Some (OK, s1) \<and> wmove 3 0 0 s1 = Some (OK, s2)
    \<and> winnstr 3 2 3 s2 = Some (2, [0x48, 0x69, 0])"
proof -
  have p: "\<forall>c \<in> set [0x48, 0x69 :: chtype]. isprint (uint c)" "CharOf (attrs (demo_win 4)) = 0" "CharOf (bkgd (demo_win 4)) = 0x20"
    by (simp_all add: isprint_def CharOf_def A_CHARTEXT_def BLANK_def)
  show ?thesis
    using text_roundtrip [OF du_ok_idle inv_demo demo_stdscr(1,3) _ p(1) _ _ p(2,3), of 3] by simp
qed

section \<open>The operations meet the contract of drawing\<close>

interpretation chgat: window_op "\<lambda>(n, attr, p) (du::updater) w. wchgat w n attr p" "\<lambda>_. True"
  by unfold_locales (auto intro: ok_wchgat [OF draws_self])

interpretation set_background: window_op "\<lambda>ch du w. wbkgd du w ch" "\<lambda>_. True"
  by unfold_locales (rule ok_wbkgd [OF _ draws_self])

interpretation setscrreg: window_op "\<lambda>(tp, bt) (du::updater) w. wsetscrreg w tp bt" "\<lambda>_. True"
  by unfold_locales (auto intro: ok_wsetscrreg [OF draws_self])

end
