(* ===== verification/WinSession.thy ===== *)
theory WinSession
  imports WinAttr
begin

text \<open>
  Programs that use the window library: any sequence of admissible drawing operations, on any windows
  but the virtual screen, and of refreshes of windows that are not derived from another. \<open>win_call\<close>
  names an operation with its arguments, \<open>call_ok\<close> says which arguments are admissible, \<open>run_call\<close>
  runs the operation, and \<open>session\<close> is the reachability relation of such programs.

  Refreshes of derived windows are left out because the invariant would not survive them:
  \<open>wsyncdown\<close> passes the marks of a window down to those derived from it, and where the marked
  columns all lie to the left of the derived window it leaves a range there that ends before it
  begins; the refresh clears it in the window that is shown, but not in the windows between.
\<close>

datatype win_call =
    Move int int
  | Addch chtype
  | Addnstr "chtype list" int
  | Addchnstr "chtype list" int
  | Scrl int
  | ClrToEol
  | ClrToBot
  | Erase
  | Clear
  | Delch
  | InsDelLn int
  | Insch chtype
  | Insnstr "chtype list" int
  | HLine chtype int
  | VLine chtype int
  | Border chtype chtype chtype chtype chtype chtype chtype chtype
  | ChgAt int chtype int
  | AttrOn chtype
  | AttrOff chtype
  | ColorSet int
  | SetScrReg int int
  | ScrollOk bool
  | LeaveOk bool
  | ClearOk bool
  | SyncOk bool
  | TouchWin
  | Bkgd chtype

fun run_call :: "win_call \<Rightarrow> updater \<Rightarrow> nat \<Rightarrow> nc \<Rightarrow> (int \<times> nc) option" where
  "run_call (Move y x) du w = wmove w y x"
| "run_call (Addch ch) du w = waddch du w ch"
| "run_call (Addnstr astr n) du w = waddnstr du w astr n"
| "run_call (Addchnstr astr n) du w = waddchnstr du w astr n"
| "run_call (Scrl n) du w = wscrl du w n"
| "run_call ClrToEol du w = wclrtoeol du w"
| "run_call ClrToBot du w = wclrtobot du w"
| "run_call Erase du w = werase du w"
| "run_call Clear du w = wclear du w"
| "run_call Delch du w = wdelch du w"
| "run_call (InsDelLn n) du w = winsdelln du w n"
| "run_call (Insch ch) du w = winsch du w ch"
| "run_call (Insnstr str n) du w = winsnstr du w str n"
| "run_call (HLine ch n) du w = whline du w ch n"
| "run_call (VLine ch n) du w = wvline du w ch n"
| "run_call (Border a b c d e f g h) du w = wborder du w a b c d e f g h"
| "run_call (ChgAt n attr p) du w = wchgat w n attr p"
| "run_call (AttrOn at) du w = wattr_on w at"
| "run_call (AttrOff at) du w = wattr_off w at"
| "run_call (ColorSet p) du w = wcolor_set w p"
| "run_call (SetScrReg tp bt) du w = wsetscrreg w tp bt"
| "run_call (ScrollOk b) du w = scrollok w b"
| "run_call (LeaveOk b) du w = set_leaveok w b"
| "run_call (ClearOk b) du w = clearok w b"
| "run_call (SyncOk b) du w = syncok w b"
| "run_call TouchWin du w = touchwin w"
| "run_call (Bkgd ch) du w = wbkgd du w ch"

text \<open>Arguments the operations are safe for: counts without overflow, arrays that are long enough.\<close>

fun call_ok :: "win_call \<Rightarrow> bool" where
  "call_ok (Addnstr astr n) \<longleftrightarrow> readable astr n"
| "call_ok (Addchnstr astr n) \<longleftrightarrow> 0 \<in> set astr \<or> 0 \<le> n \<and> n \<le> int (length astr)"
| "call_ok (Scrl n) \<longleftrightarrow> - (2 ^ 31 - 32768) < n \<and> n < 2 ^ 31"
| "call_ok (InsDelLn n) \<longleftrightarrow> - (2 ^ 31) < n \<and> n < 2 ^ 31 - 32768"
| "call_ok (Insnstr str n) \<longleftrightarrow>
     (\<forall>c \<in> set str. c \<notin> {0x0A, 0x0D, 0x08}) \<and> (0 \<in> set str \<or> 0 < n \<and> n \<le> int (length str))"
| "call_ok (HLine ch n) \<longleftrightarrow> 0 < n \<and> n < 2 ^ 31 - 32768"
| "call_ok (VLine ch n) \<longleftrightarrow> - (2 ^ 31) < n \<and> n < 2 ^ 31 - 32768"
| "call_ok _ \<longleftrightarrow> True"

lemma ok_move: "inv s \<Longrightarrow> windows s w = Some W \<Longrightarrow> ok (wmove w y x s) (\<lambda>(r, s'). draws w s s')"
  by (rule ok_mono [OF ok_wmove [OF draws_self]]) auto

lemma ok_run_call:
  assumes "call_ok c" and "du_ok du" and "inv s" and "windows s w = Some W" and "w \<noteq> newscr s"
  shows "ok (run_call c du w s) (\<lambda>(r, s'). draws w s s')"
proof -
  note d = draws_self [OF assms(3), of w]
  note a = assms(2) d assms(4,5)
  show ?thesis
  proof (cases c)
    case (Move y x) then show ?thesis using ok_move [OF assms(3,4)] by simp
  next
    case (Addch ch) then show ?thesis using ok_waddch [OF a] by simp
  next
    case (Addnstr astr n) then show ?thesis using ok_waddnstr [OF a] assms(1) by simp
  next
    case (Addchnstr astr n) then show ?thesis using ok_waddchnstr [OF a] assms(1) by simp
  next
    case (Scrl n) then show ?thesis using ok_wscrl [OF a] assms(1) by simp
  next
    case ClrToEol then show ?thesis using ok_wclrtoeol [OF a] by simp
  next
    case ClrToBot then show ?thesis using ok_wclrtobot [OF a] by simp
  next
    case Erase then show ?thesis using ok_werase [OF a] by simp
  next
    case Clear then show ?thesis using ok_wclear [OF a] by simp
  next
    case Delch then show ?thesis using ok_wdelch [OF a] by simp
  next
    case (InsDelLn n) then show ?thesis using ok_winsdelln [OF a] assms(1) by simp
  next
    case (Insch ch) then show ?thesis using ok_winsch [OF a] by simp
  next
    case (Insnstr str n) then show ?thesis using ok_winsnstr [OF a, of str n] assms(1) by simp
  next
    case (HLine ch n) then show ?thesis using ok_whline [OF a] assms(1) by simp
  next
    case (VLine ch n) then show ?thesis using ok_wvline [OF a] assms(1) by simp
  next
    case (Border a' b c' d' e f g h) then show ?thesis using ok_wborder [OF a] by simp
  next
    case (ChgAt n attr p) then show ?thesis using ok_wchgat [OF d assms(4,5)] by simp
  next
    case (AttrOn at) then show ?thesis using ok_options(1) [OF d assms(4)] by simp
  next
    case (AttrOff at) then show ?thesis using ok_options(2) [OF d assms(4)] by simp
  next
    case (ColorSet p) then show ?thesis using ok_wcolor_set [OF d assms(4)] by simp
  next
    case (SetScrReg tp bt) then show ?thesis using ok_wsetscrreg [OF d assms(4)] by simp
  next
    case (ScrollOk b) then show ?thesis using ok_options(3) [OF d assms(4)] by simp
  next
    case (LeaveOk b) then show ?thesis using ok_options(4) [OF d assms(4)] by simp
  next
    case (ClearOk b) then show ?thesis using ok_options(5) [OF d assms(4)] by simp
  next
    case (SyncOk b) then show ?thesis using ok_options(6) [OF d assms(4)] by simp
  next
    case TouchWin then show ?thesis using ok_touchwin [OF d assms(4)] by simp
  next
    case (Bkgd ch) then show ?thesis using ok_wbkgd [OF a] by simp
  qed
qed

interpretation call: window_op run_call call_ok
  by unfold_locales (rule ok_run_call)

section \<open>Sessions\<close>

inductive session :: "updater \<Rightarrow> nc \<Rightarrow> nc \<Rightarrow> bool" for du where
  Start: "session du s s"
| Draw: "session du s t \<Longrightarrow> windows t w = Some W \<Longrightarrow> w \<noteq> newscr t \<Longrightarrow> call_ok c \<Longrightarrow>
    run_call c du w t = Some (r, u) \<Longrightarrow> session du s u"
| Show: "session du s t \<Longrightarrow> windows t w = Some W \<Longrightarrow> w \<noteq> newscr t \<Longrightarrow> parent W = 0 \<Longrightarrow>
    wrefresh du w t = Some (r, u) \<Longrightarrow> session du s u"
| Update: "session du s t \<Longrightarrow> du t = Some (r, u) \<Longrightarrow> session du s u"

inductive_cases session_drawE: "session du s t"

lemma session_steady:
  assumes "session du s t" and "du_ok du" and "inv s"
  shows "steady s t"
  using assms
proof (induction rule: session.induct)
  case (Start s)
  then show ?case by (intro steady_refl)
next
  case (Draw s t w W c r u)
  have st: "steady s t" using Draw.IH Draw.prems by blast
  have "draws w t u"
    by (rule call.result_draws [OF Draw.hyps(4) Draw.prems(1) steadyD(1) [OF st] Draw.hyps(2,3,5)])
  then show ?case using steady_trans [OF st] evolves_steady by blast
next
  case (Show s t w W r u)
  have st: "steady s t" using Show.IH Show.prems by blast
  from ok_wrefresh [OF Show.prems(1) st Show.hyps(2,4,3)] Show.hyps(5) show ?case by simp
next
  case (Update s t r u)
  have st: "steady s t" using Update.IH Update.prems by blast
  from ok_du [OF Update.prems(1) st] Update.hyps(2) show ?case by simp
qed

text \<open>
  C6. However a program that starts in a well-formed state uses the drawing operations, with
  admissible arguments and on any windows but the virtual screen, and refreshes windows that are not
  derived from another, in whichever order, the state stays well-formed, no window changes its size
  or its place in memory, and every further drawing operation with admissible arguments returns: no
  access leaves a block and nothing overflows. Admissible are counts that do not overflow the
  arithmetic, horizontal lines of a positive length, strings that end in their array, and no control
  characters in \<open>winsnstr\<close> that would move the cursor. Refreshes of derived windows are not covered.
\<close>

theorem session_safe:
  assumes "session du s t" and "du_ok du" and "inv s" and "windows s w = Some W" and "w \<noteq> newscr s" and "call_ok c"
  shows "inv t \<and> shape t = shape s \<and> (\<exists>r u. run_call c du w t = Some (r, u) \<and> inv u)"
proof -
  have st: "steady s t" by (rule session_steady [OF assms(1-3)])
  have sh: "shape t = shape s" using steadyD(2) [OF st] .
  obtain V where V: "windows t w = Some V" using shape_winE [OF sh assms(4)] .
  have "w \<noteq> newscr t" using shape_consts [OF sh] assms(5) by simp
  from call.total [OF assms(6,2) steadyD(1) [OF st] V this] show ?thesis using steadyD(1) [OF st] sh by blast
qed

theorem session_safe_witness:
  "\<exists>t. session idle demo t \<and> inv t \<and> (\<exists>r u. run_call (Insch 0x42) idle 3 t = Some (r, u) \<and> inv u)"
proof -
  obtain r t where t: "run_call (Addch 0x41) idle 3 demo = Some (r, t)"
    using call.total [of "Addch 0x41", OF _ du_ok_idle inv_demo demo_stdscr(1,3)] by auto
  have "session idle demo t" by (rule session.Draw [OF session.Start demo_stdscr(1,3) _ t]) simp
  moreover have "call_ok (Insch 0x42)" by simp
  ultimately show ?thesis
    using session_safe [OF _ du_ok_idle inv_demo demo_stdscr(1,3)] by blast
qed

section \<open>Drawing a window and showing it\<close>

primrec run_calls :: "win_call list \<Rightarrow> updater \<Rightarrow> nat \<Rightarrow> nc \<Rightarrow> nc option" where
  "run_calls [] du w s = Some s"
| "run_calls (c # cs) du w s = do { (r, s1) \<leftarrow> run_call c du w s; run_calls cs du w s1 }"

lemma ok_run_calls:
  assumes "\<forall>c \<in> set cs. call_ok c" and "du_ok du" and "draws w s0 s" and "windows s w = Some W" and "w \<noteq> newscr s"
  shows "ok (run_calls cs du w s) (draws w s0)"
  using assms(1,3-5)
proof (induction cs arbitrary: s W)
  case Nil
  then show ?case by simp
next
  case (Cons c cs)
  have "ok (run_call c du w s) (\<lambda>(r, s'). draws w s s')"
    by (rule ok_run_call [OF _ assms(2) evolvesD(1) [OF Cons.prems(2)] Cons.prems(3,4)]) (use Cons.prems(1) in simp)
  then obtain r s1 where s1: "run_call c du w s = Some (r, s1)" "draws w s s1" by (rule ok_pairE)
  have d: "draws w s0 s1" by (rule evolves_trans [OF Cons.prems(2) s1(2)])
  obtain V where V: "windows s1 w = Some V" "w \<noteq> newscr s1" by (rule drawn_on [OF Cons.prems(2-4) d])
  have "ok (run_calls cs du w s1) (draws w s0)" by (rule Cons.IH [OF _ d V]) (use Cons.prems(1) in simp)
  then show ?case using s1(1) by simp
qed

text \<open>
  C1. An ordinary window that is on the virtual screen except where it is marked, drawn on by any
  sequence of admissible operations and then refreshed, is on the virtual screen entirely, as far as
  it fits: every change such an operation makes is marked, and \<open>wnoutrefresh\<close> copies every marked
  cell. Ordinary is a window that is not derived, not a pad, not in immediate mode, and has cells of
  its own; admissible are the calls of \<open>call_ok\<close>, among them no horizontal line of length 0 or less,
  for which the claim fails (see \<open>whline_lost_update\<close> below).
\<close>

theorem drawn_then_shown:
  assumes "\<forall>c \<in> set cs. call_ok c" and "du_ok du" and "inv s" and "windows s w = Some W" and "w \<noteq> newscr s"
    and "\<not> immed W" and "parent W = 0" and "\<not> has_flag (flags W) F_ISPAD" and "separate s (newscr s) w" and "synced s w"
  shows "\<exists>s1 t. run_calls cs du w s = Some s1 \<and> wnoutrefresh w s1 = Some (OK, t) \<and> inv t \<and> synced t w
    \<and> (\<forall>y x. on_screen s W y x \<longrightarrow>
         wcell t (newscr s) (y + begy W + yoffset W) (x + begx W) = wcell s1 w y x)"
proof -
  have im: "\<not> immediate s w" using assms(4,6) by (simp add: immediate_def)
  obtain s1 where s1: "run_calls cs du w s = Some s1" "draws w s s1"
    using ok_run_calls [OF assms(1,2) draws_self [OF assms(3)] assms(4,5)] by (rule okE)
  have sh: "shape s1 = shape s" using evolvesD(2) [OF s1(2)] .
  have ns: "newscr s1 = newscr s" using shape_consts [OF sh] by simp
  obtain V where V: "windows s1 w = Some V" "geom V = geom W" using shape_winE [OF sh assms(4)] .
  note g = geomD [OF V(2)]
  have sy: "synced s1 w" by (rule draws_synced [OF s1(2) assms(3) im assms(9,10)])
  have sep: "separate s1 (newscr s1) w" using separate_shape [OF sh assms(9)] ns by simp
  have wn: "w \<noteq> newscr s1" using assms(5) ns by simp
  have nf: "parent V = 0" "\<not> has_flag (flags V) F_ISPAD" using g assms(7,8) by simp_all
  obtain t where t: "wnoutrefresh w s1 = Some (OK, t)" "steady s1 t"
    "\<forall>y x. on_screen s1 V y x \<longrightarrow> wcell t (newscr s1) (y + begy V + yoffset V) (x + begx V) = wcell s1 w y x"
    "\<forall>y x. wcell t w y x = wcell s1 w y x" "\<forall>y x. on_screen s1 V y x \<longrightarrow> \<not> marked t w y x"
    using wnoutrefresh_shows [OF evolvesD(1) [OF s1(2)] V(1) nf(1) wn nf(2) sep sy] by blast
  have os: "on_screen s1 V y x" if "on_screen s W y x" for y x
    by (rule on_screen_shape [OF sh [symmetric] V(2) [symmetric] that])
  have "synced t w"
    unfolding synced_def
  proof (intro allI impI disjI2)
    fix U y x assume U: "windows t w = Some U" "on_screen t U y x"
    have sht: "shape t = shape s1" using steadyD(2) [OF t(2)] .
    have nt: "newscr t = newscr s1" using shape_consts [OF sht] by simp
    obtain U' where "windows t w = Some U'" "geom U' = geom V" using shape_winE [OF sht V(1)] .
    then have gU: "geom U = geom V" using U(1) by simp
    have "on_screen s1 V y x" by (rule on_screen_shape [OF sht gU U(2)])
    then show "wcell t (newscr t) (y + begy U + yoffset U) (x + begx U) = wcell t w y x"
      using t(3,4) geomD [OF gU] nt by simp
  qed
  moreover have "wcell t (newscr s) (y + begy W + yoffset W) (x + begx W) = wcell s1 w y x" if "on_screen s W y x" for y x
    using t(3) os [OF that] g ns by simp
  ultimately show ?thesis using s1(1) t(1) steadyD(1) [OF t(2)] by blast
qed

theorem drawn_then_shown_witness:
  "\<exists>s1 t. run_calls [Addch 0x41, Move 1 2, Insch 0x42, Scrl 1] idle 3 demo = Some s1 \<and> wnoutrefresh 3 s1 = Some (OK, t)
    \<and> wcell t (newscr demo) 1 3 = wcell s1 3 1 3"
proof -
  have f: "\<forall>c \<in> set [Addch 0x41, Move 1 2, Insch 0x42, Scrl 1]. call_ok c" "\<not> has_flag (flags (demo_win 4)) F_ISPAD"
    by (simp_all add: has_flag_def)
  have os: "on_screen demo (demo_win 4) 1 3" by (simp add: on_screen_def demo_stdscr demo_windows)
  show ?thesis
    using drawn_then_shown [OF f(1) du_ok_idle inv_demo demo_stdscr(1,3) _ _ f(2) demo_separate demo_synced] os by auto
qed

section \<open>A change that is never shown\<close>

text \<open>
  \<open>whline\<close> with a negative length marks an empty range of columns, and a character written left of
  the cursor afterwards does not make it a proper one. On the small screen, after the horizontal
  line of length -2 at column 3, the \<open>A\<close> written to column 2 is in the window but a refresh does
  not bring it to the virtual screen.
\<close>

theorem whline_lost_update:
  "case run_calls [Move 0 3, HLine 0x2D (- 2), Move 0 2, Addch 0x41] idle 3 demo of
     None \<Rightarrow> False
   | Some s \<Rightarrow> wcell s 3 0 2 = Some 0x41 \<and>
      (case wnoutrefresh 3 s of None \<Rightarrow> False
       | Some (r, t) \<Rightarrow> r = OK \<and> wcell t (newscr t) 0 2 = Some BLANK)"
  by code_simp

end
