(* ===== verification/KeyQueue.thy ===== *)
theory KeyQueue
  imports TermModes
begin

text \<open>
  The queue of input characters (\<open>fifo_defs.h\<close>, \<open>base/lib_ungetch.c\<close>, the first part of
  \<open>base/lib_getch.c\<close>) and the recognition of function keys (\<open>kgetch\<close>).

  The queue is a circular array. Its invariant is \<open>fifo_ok\<close>, the list it stands for is
  \<open>queue\<close>. Reading a byte from the terminal takes the first one of \<open>pending\<close>, waiting as long as
  it takes; \<open>timed_wait\<close> is the contract of \<open>_nc_timed_wait\<close> for a terminal without a mouse. After the
  last byte comes the end of the input, for which a wait returns at once and a read gives 0 bytes; a
  terminal that stays open and never delivers another byte, for which the code waits forever, is
  not modelled.
  \<open>None\<close> is an access outside the array.
\<close>

section \<open>The macros\<close>

definition FIFO_SIZE :: int where "FIFO_SIZE = 135 + 2"
definition KEY_MIN :: int where "KEY_MIN = 0x101"

definition fifo_get :: "int \<Rightarrow> input \<Rightarrow> int option" where
  "fifo_get k i = (if 0 \<le> k \<and> k < int (length (fifo i)) then Some (fifo i ! nat k) else None)"

definition fifo_put :: "int \<Rightarrow> int \<Rightarrow> input \<Rightarrow> input option" where
  "fifo_put k ch i = (if 0 \<le> k \<and> k < int (length (fifo i)) then Some (i\<lparr>fifo := (fifo i)[nat k := ch]\<rparr>) else None)"

definition fifo_clear :: "input \<Rightarrow> input" where
  "fifo_clear i = i\<lparr>fifo := replicate (length (fifo i)) 0, fifohead := - 1, fifotail := 0, fifopeek := 0\<rparr>"

definition h_inc :: "input \<Rightarrow> input" where
  "h_inc i =
     (let i1 = (if fifohead i \<ge> FIFO_SIZE - 1 then i\<lparr>fifohead := 0\<rparr> else i\<lparr>fifohead := fifohead i + 1\<rparr>)
      in if fifohead i1 = fifotail i1 then i1\<lparr>fifohead := - 1, fifotail := 0\<rparr> else i1)"

definition h_dec :: "input \<Rightarrow> input" where
  "h_dec i =
     (let i1 = (if fifohead i \<le> 0 then i\<lparr>fifohead := FIFO_SIZE - 1\<rparr> else i\<lparr>fifohead := fifohead i - 1\<rparr>)
      in if fifohead i1 = fifotail i1 then i1\<lparr>fifotail := - 1\<rparr> else i1)"

definition t_inc :: "input \<Rightarrow> input" where
  "t_inc i =
     (let i1 = (if fifotail i \<ge> FIFO_SIZE - 1 then i\<lparr>fifotail := 0\<rparr> else i\<lparr>fifotail := fifotail i + 1\<rparr>)
      in if fifotail i1 = fifohead i1 then i1\<lparr>fifotail := - 1\<rparr> else i1)"

definition t_dec :: "input \<Rightarrow> input" where
  "t_dec i =
     (let i1 = (if fifotail i \<le> 0 then i\<lparr>fifotail := FIFO_SIZE - 1\<rparr> else i\<lparr>fifotail := fifotail i - 1\<rparr>)
      in if fifohead i1 = fifotail i1 then fifo_clear i1 else i1)"

definition p_inc :: "input \<Rightarrow> input" where
  "p_inc i = (if fifopeek i \<ge> FIFO_SIZE - 1 then i\<lparr>fifopeek := 0\<rparr> else i\<lparr>fifopeek := fifopeek i + 1\<rparr>)"

definition cooked_key_in_fifo :: "input \<Rightarrow> bool" where
  "cooked_key_in_fifo i \<longleftrightarrow> fifohead i \<ge> 0 \<and> fifopeek i \<noteq> fifohead i"

definition raw_key_in_fifo :: "input \<Rightarrow> bool" where
  "raw_key_in_fifo i \<longleftrightarrow> fifohead i \<ge> 0 \<and> fifopeek i \<noteq> fifotail i"

section \<open>The operations\<close>

definition safe_ungetch :: "int \<Rightarrow> input \<Rightarrow> (int \<times> input) option" where
  "safe_ungetch ch i =
     (if fifotail i \<ge> 0 then do {
        let i1 = (if fifohead i < 0 then (let j = t_inc (i\<lparr>fifohead := 0\<rparr>) in j\<lparr>fifopeek := fifotail j\<rparr>) else h_dec i);
        i2 \<leftarrow> fifo_put (fifohead i1) ch i1;
        Some (OK, i2) }
      else Some (ERR, i))"

definition fifo_peek :: "input \<Rightarrow> (int \<times> input) option" where
  "fifo_peek i = do {
     ch \<leftarrow> (if fifopeek i \<ge> 0 then fifo_get (fifopeek i) i else Some ERR);
     Some (ch, p_inc i) }"

definition fifo_pull :: "input \<Rightarrow> (int \<times> input) option" where
  "fifo_pull i = do {
     ch \<leftarrow> (if fifohead i \<ge> 0 then fifo_get (fifohead i) i else Some ERR);
     Some (ch, if fifopeek i = fifohead i then (let j = h_inc i in j\<lparr>fifopeek := fifohead j\<rparr>) else h_inc i) }"

text \<open>\<open>read(sp->_ifd, &c2, 1)\<close>: the number of bytes read and the byte.\<close>

definition read_byte :: "input \<Rightarrow> int \<times> byte \<times> input" where
  "read_byte i = (case pending i of [] \<Rightarrow> (0, 0, i) | (g, c) # r \<Rightarrow> (1, c, i\<lparr>pending := r\<rparr>))"

definition timed_wait :: "int \<Rightarrow> input \<Rightarrow> bool \<times> input" where
  "timed_wait delay i =
     (case pending i of
        [] \<Rightarrow> (True, i)
      | (g, c) # r \<Rightarrow>
          if delay < 0 \<or> int g \<le> delay then (True, i\<lparr>pending := (0, c) # r\<rparr>)
          else (False, i\<lparr>pending := (g - nat delay, c) # r\<rparr>))"

definition fifo_push :: "input \<Rightarrow> (int \<times> input) option" where
  "fifo_push i =
     (if fifotail i < 0 then Some (ERR, i)
      else do {
        let (n, c2, i1) = read_byte i;
        let ch = (if n = - 1 \<or> n = 0 then ERR else uint c2);
        i2 \<leftarrow> fifo_put (fifotail i1) ch i1;
        let i3 = (if fifohead i2 = - 1 then i2\<lparr>fifohead := fifotail i2, fifopeek := fifotail i2\<rparr> else i2);
        Some (ch, t_inc i3) })"

section \<open>The list a queue stands for\<close>

definition qlen :: "input \<Rightarrow> nat" where
  "qlen i = (if fifohead i < 0 then 0 else if fifotail i < 0 then 137 else nat ((fifotail i - fifohead i) mod 137))"

definition slot :: "int \<Rightarrow> nat \<Rightarrow> nat" where
  "slot h k = nat ((h + int k) mod 137)"

definition queue :: "input \<Rightarrow> int list" where
  "queue i = map (\<lambda>k. fifo i ! slot (fifohead i) k) [0..<qlen i]"

definition fifo_ok :: "input \<Rightarrow> bool" where
  "fifo_ok i \<longleftrightarrow> length (fifo i) = 137 \<and> - 1 \<le> fifohead i \<and> fifohead i < 137 \<and> - 1 \<le> fifotail i \<and> fifotail i < 137
     \<and> - 1 \<le> fifopeek i \<and> fifopeek i < 137
     \<and> (fifohead i = - 1 \<longrightarrow> fifotail i = 0) \<and> (0 \<le> fifohead i \<longrightarrow> 0 \<le> fifopeek i) \<and> fifohead i \<noteq> fifotail i"

lemma fifo_size [simp]: "FIFO_SIZE = 137"
  by (simp add: FIFO_SIZE_def)

lemma slot_less: "slot h k < 137"
  by (simp add: slot_def nat_less_iff)

lemma slot_inj: "j < 137 \<Longrightarrow> k < 137 \<Longrightarrow> slot h j = slot h k \<longleftrightarrow> j = k"
proof
  assume "j < 137" "k < 137" "slot h j = slot h k"
  then have "(h + int j) mod 137 = (h + int k) mod 137" by (simp add: slot_def)
  then have "(h + int j - h) mod 137 = (h + int k - h) mod 137" by (rule mod_diff_cong) simp
  then show "j = k" using \<open>j < 137\<close> \<open>k < 137\<close> by simp
qed simp

lemma slot_next: "slot ((h + 1) mod 137) k = slot h (Suc k)"
  by (simp add: slot_def mod_add_left_eq add.assoc)

lemma length_queue [simp]: "length (queue i) = qlen i"
  by (simp add: queue_def)

lemma qlen_le: "fifo_ok i \<Longrightarrow> qlen i \<le> 137"
  by (auto simp: qlen_def fifo_ok_def)

lemma qlen_0: "fifo_ok i \<Longrightarrow> qlen i = 0 \<longleftrightarrow> fifohead i = - 1"
proof -
  assume f: "fifo_ok i"
  have "(fifotail i - fifohead i) mod 137 \<noteq> 0" if "0 \<le> fifohead i" "0 \<le> fifotail i"
  proof
    assume "(fifotail i - fifohead i) mod 137 = 0"
    then have "fifotail i mod 137 = fifohead i mod 137" by (simp add: mod_eq_dvd_iff mod_eq_0_iff_dvd)
    then show False using f that by (simp add: fifo_ok_def)
  qed
  moreover have "0 \<le> (fifotail i - fifohead i) mod 137" by simp
  ultimately show ?thesis using f by (auto simp: qlen_def fifo_ok_def)
qed

lemma qlen_full: "fifo_ok i \<Longrightarrow> 137 \<le> qlen i \<longleftrightarrow> 0 \<le> fifohead i \<and> fifotail i = - 1"
proof -
  assume f: "fifo_ok i"
  have "(fifotail i - fifohead i) mod 137 < 137" by simp
  then show ?thesis using f by (auto simp: qlen_def fifo_ok_def)
qed

text \<open>The queue as its first entry and the rest.\<close>

lemma queue_Cons:
  assumes "fifo_ok i" and "fifohead i \<noteq> - 1"
  shows "queue i = fifo i ! nat (fifohead i) # map (\<lambda>k. fifo i ! slot (fifohead i) (Suc k)) [0..<qlen i - 1]"
proof -
  obtain n where n: "qlen i = Suc n" using qlen_0 [OF assms(1)] assms(2) by (cases "qlen i") auto
  have h: "slot (fifohead i) 0 = nat (fifohead i)" using assms by (simp add: slot_def fifo_ok_def)
  show ?thesis unfolding queue_def n
    by (simp add: upt_rec [of 0 "Suc n"] h map_Suc_upt [symmetric] del: upt_Suc)
qed

lemma put_front:
  assumes "length f = 137" and "0 \<le> h" and "h < 137" and "n < 137"
  shows "map (\<lambda>k. f[nat h := ch] ! slot h k) [0..<Suc n] = ch # map (\<lambda>k. f ! slot h (Suc k)) [0..<n]"
proof -
  have h: "slot h 0 = nat h" using assms by (simp add: slot_def)
  have "f[nat h := ch] ! slot h (Suc k) = f ! slot h (Suc k)" if "k < n" for k
    using slot_inj [of 0 "Suc k" h] that assms(4) h by simp
  then show ?thesis using h assms by (simp add: upt_rec [of 0 "Suc n"] map_Suc_upt [symmetric] del: upt_Suc)
qed

lemma put_back:
  assumes "length f = 137" and "n < 137"
  shows "map (\<lambda>k. f[slot h n := ch] ! slot h k) [0..<Suc n] = map (\<lambda>k. f ! slot h k) [0..<n] @ [ch]"
proof -
  have "f[slot h n := ch] ! slot h k = f ! slot h k" if "k < n" for k
    using slot_inj [of n k h] that assms(2) by simp
  then show ?thesis using assms slot_less by simp
qed

text \<open>An operation changes only the queue.\<close>

definition queue_step :: "input \<Rightarrow> input \<Rightarrow> bool" where
  "queue_step i j \<longleftrightarrow>
     j\<lparr>fifo := [], fifohead := 0, fifotail := 0, fifopeek := 0\<rparr> = i\<lparr>fifo := [], fifohead := 0, fifotail := 0, fifopeek := 0\<rparr>"

lemma queue_step_refl [simp]: "queue_step i i"
  by (simp add: queue_step_def)

lemma queue_step_trans: "queue_step i j \<Longrightarrow> queue_step j k \<Longrightarrow> queue_step i k"
  by (simp add: queue_step_def)

lemma queue_stepD:
  assumes "queue_step i j"
  shows "pending j = pending i" "keytry j = keytry i" "escdelay j = escdelay i" "echo_on j = echo_on i" "nl_on j = nl_on i"
    "raw_on j = raw_on i" "cbreak_mode j = cbreak_mode i" "use_meta j = use_meta i" "notty j = notty i"
    "called_wgetch j = called_wgetch i" "keypad_on j = keypad_on i" "ottyb j = ottyb i" "nttyb j = nttyb i"
    "kernel_tty j = kernel_tty i" "saved_tty j = saved_tty i" "getstr_limit j = getstr_limit i"
  using assms by (cases i; cases j; simp add: queue_step_def)+

lemma diff_mod:
  fixes x :: int
  assumes "- 137 < x" and "x < 137"
  shows "x mod 137 = (if x < 0 then x + 137 else x)"
proof (cases "x < 0")
  case True
  have "(x + 137) mod 137 = x + 137" by (rule mod_pos_pos_trivial) (use assms True in auto)
  then show ?thesis using True by simp
next
  case False
  then show ?thesis using assms by simp
qed

lemma ungetch_ok:
  assumes "fifo_ok i" and "0 \<le> fifotail i"
  shows "\<exists>j. safe_ungetch ch i = Some (OK, j) \<and> fifo_ok j \<and> queue j = ch # queue i \<and> queue_step i j"
proof (cases "fifohead i = - 1")
  case True
  have t: "fifotail i = 0" using assms True by (simp add: fifo_ok_def)
  have l: "length (fifo i) = 137" using assms by (simp add: fifo_ok_def)
  have u: "safe_ungetch ch i = Some (OK, i\<lparr>fifohead := 0, fifotail := 1, fifopeek := 1, fifo := (fifo i)[0 := ch]\<rparr>)"
    using True t l by (simp add: safe_ungetch_def t_inc_def fifo_put_def)
  have "queue i = []" using True by (simp add: queue_def qlen_def)
  then show ?thesis using put_front [of "fifo i" 0 0 ch] l
    by (simp add: u queue_def qlen_def fifo_ok_def queue_step_def)
next
  case False
  define h where "h = (if fifohead i \<le> 0 then 136 else fifohead i - 1)"
  define t where "t = (if h = fifotail i then - 1 else fifotail i)"
  have f: "length (fifo i) = 137" "0 \<le> fifohead i" "fifohead i < 137" "fifotail i < 137" "fifohead i \<noteq> fifotail i"
    "0 \<le> fifopeek i" "fifopeek i < 137"
    using assms False by (auto simp: fifo_ok_def)
  have h: "0 \<le> h" "h < 137" "(h + 1) mod 137 = fifohead i" using f by (auto simp: h_def)
  let ?j = "i\<lparr>fifohead := h, fifotail := t, fifo := (fifo i)[nat h := ch]\<rparr>"
  have u: "safe_ungetch ch i = Some (OK, ?j)"
    using assms(2) f h(1,2) by (simp add: safe_ungetch_def h_dec_def fifo_put_def h_def t_def)
  have ql: "qlen ?j = Suc (qlen i)" "qlen i < 137"
    using assms(2) f by (auto simp: qlen_def h_def t_def diff_mod)
  have "queue ?j = ch # queue i"
    unfolding queue_def ql(1) using put_front [OF f(1) h(1,2) ql(2)] slot_next [of h] h(3) by simp
  moreover have "fifo_ok ?j" using assms f h by (auto simp: fifo_ok_def t_def)
  moreover have "queue_step i ?j" by (simp add: queue_step_def)
  ultimately show ?thesis using u by blast
qed

lemma pull_ok:
  assumes "fifo_ok i" and "queue i = c # cs"
  shows "\<exists>j. fifo_pull i = Some (c, j) \<and> fifo_ok j \<and> queue_step i j
    \<and> (0 \<le> fifotail i \<longrightarrow> queue j = cs \<and> 0 \<le> fifotail j) \<and> (fifotail i = - 1 \<longrightarrow> queue j = cs @ [c] \<and> fifotail j = - 1)"
proof -
  have ne: "fifohead i \<noteq> - 1" using assms by (auto simp: queue_def qlen_def)
  have f: "length (fifo i) = 137" "0 \<le> fifohead i" "fifohead i < 137" "fifotail i < 137" "fifohead i \<noteq> fifotail i"
    "0 \<le> fifopeek i" "fifopeek i < 137" "- 1 \<le> fifotail i"
    using assms ne by (auto simp: fifo_ok_def)
  define h where "h = (if fifohead i \<ge> 136 then 0 else fifohead i + 1)"
  have "fifohead i = 136 \<or> fifohead i < 136" using f(3) by arith
  then have h: "0 \<le> h" "h < 137" "h = (fifohead i + 1) mod 137" using f(2) by (auto simp: h_def)
  define j where "j = (if h = fifotail i then i\<lparr>fifohead := - 1, fifotail := 0\<rparr> else i\<lparr>fifohead := h\<rparr>)"
  define p where "p = (if fifopeek i = fifohead i then fifohead j else fifopeek i)"
  let ?k = "j\<lparr>fifopeek := p\<rparr>"
  have c: "c = fifo i ! nat (fifohead i)" "cs = map (\<lambda>k. fifo i ! slot (fifohead i) (Suc k)) [0..<qlen i - 1]"
    using queue_Cons [OF assms(1) ne] assms(2) by simp_all
  have hi: "h_inc i = j" by (simp add: h_inc_def j_def h_def)
  have u: "fifo_pull i = Some (c, ?k)"
    using f by (simp add: fifo_pull_def fifo_get_def hi c(1) p_def Let_def) (simp add: j_def)
  have q: "queue ?k = map (\<lambda>k. fifo i ! slot (fifohead j) k) [0..<qlen j]"
    by (simp add: queue_def qlen_def j_def)
  have "queue ?k = cs \<and> 0 \<le> fifotail ?k" if t: "0 \<le> fifotail i"
  proof (cases "h = fifotail i")
    case True
    then have "qlen i = 1" using f t by (auto simp: qlen_def h_def diff_mod split: if_splits)
    then show ?thesis using True c(2) by (simp add: q) (simp add: j_def qlen_def)
  next
    case False
    then have "qlen j = qlen i - 1" using f t by (auto simp: qlen_def h_def j_def diff_mod split: if_splits)
    then show ?thesis using False c(2) h(3) t by (simp add: q) (simp add: j_def slot_next)
  qed
  moreover have "queue ?k = cs @ [c] \<and> fifotail ?k = - 1" if t: "fifotail i = - 1"
  proof -
    have "qlen i = 137" "qlen j = 137" using f h t by (auto simp: qlen_def j_def)
    moreover have "slot (fifohead i) 137 = nat (fifohead i)" using f by (simp add: slot_def)
    moreover have "[0..<137] = [0..<136] @ [136::nat]" by (simp add: upt_rec)
    ultimately show ?thesis using c h t by (simp add: q) (simp add: j_def slot_next)
  qed
  moreover have "fifo_ok ?k" using f h by (auto simp: fifo_ok_def j_def p_def)
  moreover have "queue_step i ?k" by (simp add: queue_step_def j_def)
  ultimately show ?thesis using u by blast
qed

lemma push_ok:
  assumes "fifo_ok i" and "0 \<le> fifotail i" and "pending i = (g, c) # r"
  shows "\<exists>j. fifo_push i = Some (uint c, j) \<and> fifo_ok j \<and> queue j = queue i @ [uint c] \<and> queue_step (i\<lparr>pending := r\<rparr>) j
    \<and> fifohead j = (if fifohead i = - 1 then 0 else fifohead i) \<and> fifopeek j = (if fifohead i = - 1 then 0 else fifopeek i)
    \<and> (qlen i < 136 \<longrightarrow> fifotail j = (if fifotail i \<ge> 136 then 0 else fifotail i + 1))
    \<and> fifo j ! nat (fifotail i) = uint c"
proof -
  define h where "h = (if fifohead i = - 1 then 0 else fifohead i)"
  define p where "p = (if fifohead i = - 1 then 0 else fifopeek i)"
  define t' where "t' = (if fifotail i \<ge> 136 then 0 else fifotail i + 1)"
  define t where "t = (if t' = h then - 1 else t')"
  have f: "length (fifo i) = 137" "0 \<le> h" "h < 137" "fifotail i < 137" "fifohead i = - 1 \<Longrightarrow> fifotail i = 0"
    "fifohead i \<noteq> - 1 \<Longrightarrow> h \<noteq> fifotail i" "0 \<le> p" "p < 137"
    using assms by (auto simp: fifo_ok_def h_def p_def)
  let ?j = "i\<lparr>pending := r, fifo := (fifo i)[nat (fifotail i) := uint c], fifohead := h, fifopeek := p, fifotail := t\<rparr>"
  have u: "fifo_push i = Some (uint c, ?j)"
    using assms(2,3) f(1,4,5)
    by (cases i) (auto simp: fifo_push_def read_byte_def fifo_put_def t_inc_def h_def p_def t_def t'_def Let_def)
  have ql: "qlen ?j = Suc (qlen i)" "qlen i < 137" "slot h (qlen i) = nat (fifotail i)" "qlen i < 136 \<Longrightarrow> t = t'"
    using assms(2) f by (auto simp: qlen_def slot_def h_def t_def t'_def diff_mod split: if_splits)
  have "map (\<lambda>k. fifo i ! slot h k) [0..<qlen i] = queue i"
    by (auto simp: queue_def h_def qlen_def)
  then have "queue ?j = queue i @ [uint c]"
    unfolding queue_def ql(1) using put_back [OF f(1) ql(2), of h "uint c"] ql(3) by (simp add: queue_def)
  moreover have "fifo_ok ?j" using assms f by (auto simp: fifo_ok_def t_def t'_def)
  moreover have "queue_step (i\<lparr>pending := r\<rparr>) ?j" by (simp add: queue_step_def)
  moreover have "(fifo i)[nat (fifotail i) := uint c] ! nat (fifotail i) = uint c" using f(1,4) assms(2) by simp
  ultimately show ?thesis using u ql(4) by (auto simp: h_def p_def t'_def)
qed

section \<open>Recognising a function key\<close>

fun find_ch :: "byte \<Rightarrow> tries \<Rightarrow> (16 word \<times> tries) option" where
  "find_ch c NoTry = None"
| "find_ch c (Try h v ch sb) = (if h = c then Some (v, ch) else find_ch c sb)"

lemma find_ch_size [termination_simp]: "find_ch c t = Some (v, ch) \<Longrightarrow> size ch < size t"
  by (induction t) (auto split: if_splits)

text \<open>The end of \<open>kgetch\<close>: the first character of the queue is passed through.\<close>

definition pass_through :: "input \<Rightarrow> (int \<times> input) option" where
  "pass_through i = do { (ch, i1) \<leftarrow> fifo_pull i; Some (ch, i1\<lparr>fifopeek := fifohead i1\<rparr>) }"

function kgetch_loop :: "int \<Rightarrow> tries \<Rightarrow> input \<Rightarrow> (int \<times> input) option" where
  "kgetch_loop timeleft ptr i = do {
     first \<leftarrow> (if cooked_key_in_fifo i then fifo_get (fifohead i) i else Some 0);
     if first \<ge> KEY_MIN then pass_through i
     else do {
       (got, i1) \<leftarrow> (if raw_key_in_fifo i then Some (0, i) else fifo_push i);
       if \<not> raw_key_in_fifo i \<and> got = ERR then Some (ERR, i1\<lparr>fifopeek := fifohead i1\<rparr>)
       else do {
         (ch, i2) \<leftarrow> fifo_peek i1;
         if ch \<ge> KEY_MIN then Some (ch, t_dec (i2\<lparr>fifopeek := fifohead i2\<rparr>))
         else
           (case find_ch (word_of_int ch) ptr of
              None \<Rightarrow> pass_through i2
            | Some (v, child) \<Rightarrow>
                if v \<noteq> 0 then
                  Some (uint v, if fifopeek i2 = fifotail i2 then fifo_clear i2 else i2\<lparr>fifohead := fifopeek i2\<rparr>)
                else
                  (let (rc, i3) = (if raw_key_in_fifo i2 then (True, i2) else timed_wait timeleft i2)
                   in if rc then kgetch_loop timeleft child i3 else pass_through i3)) } } }"
  by pat_completeness auto

termination kgetch_loop
  by (relation "measure (\<lambda>(timeleft, ptr, i). size ptr)") (auto dest!: find_ch_size)

declare kgetch_loop.simps [simp del]

definition kgetch :: "bool \<Rightarrow> input \<Rightarrow> (int \<times> input) option" where
  "kgetch forever i = kgetch_loop (if forever then 9999999 else escdelay i) (keytry i) i"

section \<open>The queue as a double-ended list\<close>

text \<open>
  What a client of the queue relies on: as long as there is room, a character that is pushed back is
  the next one to be pulled, and pulling takes the characters in order.
\<close>

locale key_queue =
  fixes good :: "'s \<Rightarrow> bool" and contents :: "'s \<Rightarrow> int list" and room :: nat
    and unget :: "int \<Rightarrow> 's \<Rightarrow> (int \<times> 's) option" and pull :: "'s \<Rightarrow> (int \<times> 's) option"
    and related :: "'s \<Rightarrow> 's \<Rightarrow> bool"
  assumes unget_law: "good s \<Longrightarrow> length (contents s) < room \<Longrightarrow>
      \<exists>t. unget c s = Some (OK, t) \<and> good t \<and> contents t = c # contents s \<and> related s t"
    and pull_law: "good s \<Longrightarrow> contents s = c # cs \<Longrightarrow> \<exists>t. pull s = Some (c, t) \<and> good t \<and> contents t = cs \<and> related s t"
    and related_refl: "related s s"
    and related_trans: "related s t \<Longrightarrow> related t u \<Longrightarrow> related s u"
begin

primrec unget_all :: "int list \<Rightarrow> 's \<Rightarrow> 's option" where
  "unget_all [] s = Some s"
| "unget_all (c # cs) s = do { (r, t) \<leftarrow> unget c s; unget_all cs t }"

primrec pull_all :: "nat \<Rightarrow> 's \<Rightarrow> (int list \<times> 's) option" where
  "pull_all 0 s = Some ([], s)"
| "pull_all (Suc n) s = do { (c, t) \<leftarrow> pull s; (cs, u) \<leftarrow> pull_all n t; Some (c # cs, u) }"

lemma unget_all_rev:
  "good s \<Longrightarrow> length cs + length (contents s) \<le> room \<Longrightarrow>
     \<exists>t. unget_all cs s = Some t \<and> good t \<and> contents t = rev cs @ contents s \<and> related s t"
proof (induction cs arbitrary: s)
  case Nil
  then show ?case by (simp add: related_refl)
next
  case (Cons c cs)
  obtain t where t: "unget c s = Some (OK, t)" "good t" "contents t = c # contents s" "related s t"
    using unget_law [OF Cons.prems(1)] Cons.prems(2) by fastforce
  have "length cs + length (contents t) \<le> room" using Cons.prems(2) t(3) by simp
  from Cons.IH [OF t(2) this] show ?case using t related_trans by auto
qed

lemma pull_all_contents:
  "good s \<Longrightarrow> contents s = cs @ ds \<Longrightarrow> \<exists>t. pull_all (length cs) s = Some (cs, t) \<and> good t \<and> contents t = ds \<and> related s t"
proof (induction cs arbitrary: s)
  case Nil
  then show ?case by (simp add: related_refl)
next
  case (Cons c cs)
  obtain t where t: "pull s = Some (c, t)" "good t" "contents t = cs @ ds" "related s t"
    using pull_law [OF Cons.prems(1), of c "cs @ ds"] Cons.prems(2) by auto
  from Cons.IH [OF t(2,3)] show ?case using t related_trans by auto
qed

text \<open>A line that is pushed back in reverse order is read again in order.\<close>

lemma unget_pull:
  assumes "good s" and "length cs + length (contents s) \<le> room"
  shows "\<exists>t u. unget_all (rev cs) s = Some t \<and> pull_all (length cs) t = Some (cs, u) \<and> good u
    \<and> contents u = contents s \<and> related s u"
proof -
  obtain t where t: "unget_all (rev cs) s = Some t" "good t" "contents t = cs @ contents s" "related s t"
    using unget_all_rev [of s "rev cs"] assms by auto
  from pull_all_contents [OF t(2,3)] show ?thesis using t related_trans by blast
qed

end

definition with_room :: "input \<Rightarrow> bool" where
  "with_room i \<longleftrightarrow> fifo_ok i \<and> 0 \<le> fifotail i"

lemma with_room_len: "with_room i \<Longrightarrow> length (queue i) < 137"
  using qlen_full [of i] by (force simp: with_room_def)

lemma with_room_iff: "fifo_ok i \<Longrightarrow> with_room i \<longleftrightarrow> length (queue i) < 137"
  using qlen_full [of i] by (auto simp: with_room_def fifo_ok_def)

interpretation fifo: key_queue with_room queue 136 safe_ungetch fifo_pull queue_step
proof
  show "\<exists>t. safe_ungetch c s = Some (OK, t) \<and> with_room t \<and> queue t = c # queue s \<and> queue_step s t"
    if l: "with_room s" "length (queue s) < 136" for s c
  proof -
    obtain t where t: "safe_ungetch c s = Some (OK, t)" "fifo_ok t" "queue t = c # queue s" "queue_step s t"
      using ungetch_ok [of s c] l(1) by (auto simp: with_room_def)
    have "with_room t" using l(2) t(3) by (simp add: with_room_iff [OF t(2)] del: length_queue)
    then show ?thesis using t by blast
  qed
  show "\<exists>t. fifo_pull s = Some (c, t) \<and> with_room t \<and> queue t = cs \<and> queue_step s t"
    if "with_room s" "queue s = c # cs" for s c cs
    using pull_ok [of s c cs] that by (auto simp: with_room_def)
qed (auto intro: queue_step_trans)

text \<open>
  C18. The queue of a screen is a double-ended list: while fewer than 136 characters are in it,
  \<open>ungetch\<close> adds one in front, reading a byte from the terminal adds it at the end, and pulling
  takes the first one, in whatever way the list lies in the circular array.
\<close>

theorem fifo_refines_list:
  assumes "fifo_ok i" and "length (queue i) < 136"
  shows "(\<exists>j. safe_ungetch ch i = Some (OK, j) \<and> fifo_ok j \<and> queue j = ch # queue i)
    \<and> (\<forall>g c r. pending i = (g, c) # r \<longrightarrow>
          (\<exists>j. fifo_push i = Some (uint c, j) \<and> fifo_ok j \<and> queue j = queue i @ [uint c] \<and> pending j = r))
    \<and> (\<forall>x xs. queue i = x # xs \<longrightarrow> (\<exists>j. fifo_pull i = Some (x, j) \<and> fifo_ok j \<and> queue j = xs))"
proof (intro conjI allI impI)
  have w: "with_room i" "0 \<le> fifotail i" using assms with_room_iff [OF assms(1)] by (auto simp: with_room_def)
  show "\<exists>j. safe_ungetch ch i = Some (OK, j) \<and> fifo_ok j \<and> queue j = ch # queue i"
    using fifo.unget_law [OF w(1) assms(2)] by (auto simp: with_room_def)
  fix g c r assume p: "pending i = (g, c) # r"
  obtain j where "fifo_push i = Some (uint c, j)" "fifo_ok j" "queue j = queue i @ [uint c]" "queue_step (i\<lparr>pending := r\<rparr>) j"
    using push_ok [OF assms(1) w(2) p] by blast
  then show "\<exists>j. fifo_push i = Some (uint c, j) \<and> fifo_ok j \<and> queue j = queue i @ [uint c] \<and> pending j = r"
    using queue_stepD(1) by fastforce
next
  have w: "with_room i" using assms with_room_iff [OF assms(1)] by simp
  fix x xs assume "queue i = x # xs"
  from fifo.pull_law [OF w this] show "\<exists>j. fifo_pull i = Some (x, j) \<and> fifo_ok j \<and> queue j = xs"
    by (auto simp: with_room_def)
qed

theorem fifo_refines_list_witness:
  "\<exists>j k. safe_ungetch 65 demo_input = Some (OK, j) \<and> queue j = [65] \<and> fifo_pull j = Some (65, k) \<and> queue k = []"
proof -
  have d: "fifo_ok demo_input" "queue demo_input = []" by (simp_all add: fifo_ok_def queue_def qlen_def demo_input_def)
  obtain j where j: "safe_ungetch 65 demo_input = Some (OK, j)" "fifo_ok j" "queue j = [65]"
    using fifo_refines_list [OF d(1), of 65] d(2) by auto
  have "length (queue j) < 136" using j(3) by simp
  from fifo_refines_list [OF j(2) this] j(3) obtain k where "fifo_pull j = Some (65, k)" "queue k = []" by blast
  then show ?thesis using j by blast
qed

text \<open>
  A queue that was filled completely is never emptied again: \<open>h_inc\<close> does not notice that there
  is room, so every pull turns the 137 characters round, nothing can be added, and the
  characters are delivered over and over.
\<close>

theorem full_queue_rotates:
  assumes "fifo_ok i" and "length (queue i) = 137" and "queue i = x # xs"
  shows "\<exists>j. fifo_pull i = Some (x, j) \<and> fifo_ok j \<and> queue j = xs @ [x]
    \<and> safe_ungetch ch j = Some (ERR, j) \<and> fifo_push j = Some (ERR, j)"
proof -
  have t: "fifotail i = - 1" using qlen_full [OF assms(1)] assms(2) by simp
  obtain j where j: "fifo_pull i = Some (x, j)" "fifo_ok j" "queue j = xs @ [x]" "fifotail j = - 1"
    using pull_ok [OF assms(1,3)] t by auto
  then show ?thesis by (simp add: safe_ungetch_def fifo_push_def)
qed

theorem full_queue_rotates_witness:
  "\<exists>i j. fifo.unget_all (replicate 136 65) demo_input = Some i \<and> safe_ungetch 66 i = Some (OK, j)
     \<and> (\<exists>k. fifo_pull j = Some (66, k) \<and> queue k = replicate 136 65 @ [66] \<and> safe_ungetch 67 k = Some (ERR, k))"
proof -
  have d: "with_room demo_input" "queue demo_input = []"
    by (simp_all add: with_room_def fifo_ok_def queue_def qlen_def demo_input_def)
  obtain i where i: "fifo.unget_all (replicate 136 65) demo_input = Some i" "with_room i" "queue i = replicate 136 65"
    using fifo.unget_all_rev [OF d(1), of "replicate 136 65"] d(2) by auto
  obtain j where j: "safe_ungetch 66 i = Some (OK, j)" "fifo_ok j" "queue j = 66 # replicate 136 65"
    using ungetch_ok [of i 66] i(2,3) by (auto simp: with_room_def)
  have "length (queue j) = 137" using j(3) by (simp del: length_queue)
  from full_queue_rotates [OF j(2) this j(3), of 67] show ?thesis using i(1) j(1) by blast
qed

section \<open>What \<open>kgetch\<close> returns\<close>

lemma find_ch_keys:
  "keys t (c # cs) = Some v \<Longrightarrow>
     \<exists>u ch. find_ch c t = Some (u, ch) \<and> (if cs = [] then u = v \<and> v \<noteq> 0 else keys ch cs = Some v)"
  by (induction t) (auto split: if_splits)

lemma find_ch_prefix: "find_ch c t = Some (u, ch) \<Longrightarrow> keys t [c] = None \<Longrightarrow> u = 0"
  by (induction t) (auto split: if_splits)

lemma find_ch_down: "find_ch c t = Some (u, ch) \<Longrightarrow> cs \<noteq> [] \<Longrightarrow> keys ch cs = keys t (c # cs)"
  by (induction t) (auto split: if_splits)

text \<open>All the characters in the queue were looked at.\<close>

definition caught_up :: "input \<Rightarrow> bool" where
  "caught_up i \<longleftrightarrow> with_room i \<and> (fifohead i = - 1 \<or> fifopeek i = fifotail i) \<and> (\<forall>x \<in> set (queue i). x < KEY_MIN)"

lemma caught_up_raw: "caught_up i \<Longrightarrow> \<not> raw_key_in_fifo i"
  by (auto simp: caught_up_def raw_key_in_fifo_def)

lemma caught_up_first:
  assumes "caught_up i"
  shows "\<exists>x. (if cooked_key_in_fifo i then fifo_get (fifohead i) i else Some 0) = Some x \<and> x < KEY_MIN"
proof (cases "cooked_key_in_fifo i")
  case True
  then have h: "fifohead i \<noteq> - 1" "0 \<le> fifohead i" by (auto simp: cooked_key_in_fifo_def)
  have f: "fifo_ok i" using assms by (simp add: caught_up_def with_room_def)
  have "fifo i ! nat (fifohead i) \<in> set (queue i)" using queue_Cons [OF f h(1)] by simp
  then show ?thesis using assms True h f by (auto simp: caught_up_def fifo_get_def fifo_ok_def)
qed (simp add: KEY_MIN_def)

lemma uint_byte: "uint (c :: byte) < KEY_MIN" "uint c \<noteq> ERR" "\<not> KEY_MIN \<le> uint c"
  unfolding KEY_MIN_def ERR_def using uint_lt2p [of c] uint_ge_0 [of c] by (simp, linarith, simp)

text \<open>One more byte is read and looked at.\<close>

lemma push_peek:
  assumes "caught_up i" and "pending i = (g, c) # r" and "length (queue i) < 136"
  obtains i1 i2 where "fifo_push i = Some (uint c, i1)" "fifo_peek i1 = Some (uint c, i2)" "caught_up i2" "fifopeek i2 = fifotail i2"
    "queue i2 = queue i @ [uint c]" "queue_step (i\<lparr>pending := r\<rparr>) i2"
proof -
  have w: "fifo_ok i" "0 \<le> fifotail i" using assms(1) by (simp_all add: caught_up_def with_room_def)
  obtain j where j: "fifo_push i = Some (uint c, j)" "fifo_ok j" "queue j = queue i @ [uint c]" "queue_step (i\<lparr>pending := r\<rparr>) j"
    "fifohead j = (if fifohead i = - 1 then 0 else fifohead i)" "fifopeek j = (if fifohead i = - 1 then 0 else fifopeek i)"
    "fifotail j = (if fifotail i \<ge> 136 then 0 else fifotail i + 1)" "fifo j ! nat (fifotail i) = uint c"
    using push_ok [OF w assms(2)] assms(3) by auto
  have p: "fifopeek j = fifotail i"
    using assms(1) w(1) j(6) by (auto simp: caught_up_def fifo_ok_def split: if_splits)
  have l: "length (fifo j) = 137" "fifotail i < 137" using j(2) w(1) by (simp_all add: fifo_ok_def)
  have pk: "fifo_peek j = Some (uint c, p_inc j)"
    using p w(2) l j(8) by (simp add: fifo_peek_def fifo_get_def)
  have t: "fifopeek (p_inc j) = fifotail (p_inc j)" using p j(7) by (simp add: p_inc_def)
  have q: "queue (p_inc j) = queue j" by (simp add: p_inc_def queue_def qlen_def)
  have "fifo_ok (p_inc j)" using j(2) p w(2) by (auto simp: p_inc_def fifo_ok_def)
  moreover have "0 \<le> fifotail (p_inc j)" using j(7) w(2) by (simp add: p_inc_def)
  ultimately have "caught_up (p_inc j)"
    using t assms(1) uint_byte(1) [of c] by (auto simp: caught_up_def with_room_def q j(3))
  moreover have "queue_step (i\<lparr>pending := r\<rparr>) (p_inc j)" using j(4) by (simp add: queue_step_def p_inc_def)
  ultimately show ?thesis using that [OF j(1) pk] t q j(3) by simp
qed

lemma clear_ok: "fifo_ok i \<Longrightarrow> fifo_ok (fifo_clear i) \<and> queue (fifo_clear i) = [] \<and> with_room (fifo_clear i) \<and> queue_step i (fifo_clear i)"
  by (simp add: fifo_ok_def fifo_clear_def queue_def qlen_def with_room_def queue_step_def)

lemma kgetch_loop_key:
  assumes "caught_up i" and "pending i = zip gs s @ rest" and "length gs = length s" and "s \<noteq> []"
    and "\<forall>g \<in> set (tl gs). int g \<le> timeleft" and "length (queue i) + length s \<le> 136"
    and "keys ptr s = Some v" and "\<forall>p. strict_prefix p s \<longrightarrow> keys ptr p = None"
  shows "\<exists>j. kgetch_loop timeleft ptr i = Some (uint v, j) \<and> with_room j \<and> queue j = [] \<and> pending j = rest
    \<and> queue_step (i\<lparr>pending := rest\<rparr>) j"
  using assms
proof (induction s arbitrary: gs i ptr)
  case Nil
  then show ?case by simp
next
  case (Cons c cs)
  obtain g gs' where gs: "gs = g # gs'" "length gs' = length cs" using Cons.prems(3) by (cases gs) auto
  have p: "pending i = (g, c) # zip gs' cs @ rest" using Cons.prems(2) gs by simp
  obtain i1 i2 where i: "fifo_push i = Some (uint c, i1)" "fifo_peek i1 = Some (uint c, i2)" "caught_up i2" "fifopeek i2 = fifotail i2"
    "queue i2 = queue i @ [uint c]" "queue_step (i\<lparr>pending := zip gs' cs @ rest\<rparr>) i2"
    by (rule push_peek [OF Cons.prems(1) p]) (use Cons.prems(6) in auto)
  obtain x where x: "(if cooked_key_in_fifo i then fifo_get (fifohead i) i else Some 0) = Some x" "x < KEY_MIN"
    using caught_up_first [OF Cons.prems(1)] by blast
  obtain u ch where u: "find_ch c ptr = Some (u, ch)" "if cs = [] then u = v \<and> v \<noteq> 0 else keys ch cs = Some v"
    using find_ch_keys [OF Cons.prems(7)] by blast
  have p2: "pending i2 = zip gs' cs @ rest" using queue_stepD(1) [OF i(6)] by simp
  have step: "kgetch_loop timeleft ptr i =
      (if u \<noteq> 0 then Some (uint u, fifo_clear i2)
       else (let (rc, i3) = timed_wait timeleft i2 in if rc then kgetch_loop timeleft ch i3 else pass_through i3))"
    using x i(1,2,4) u(1) caught_up_raw [OF Cons.prems(1)] caught_up_raw [OF i(3)] uint_byte [of c]
    by (subst kgetch_loop.simps) simp
  show ?case
  proof (cases cs)
    case Nil
    have "fifo_ok i2" using i(3) by (simp add: caught_up_def with_room_def)
    from clear_ok [OF this] show ?thesis using step u(2) Nil p2 queue_stepD(1) i(6)
      by (fastforce intro: queue_step_trans)
  next
    case (Cons c' cs')
    obtain g' gs'' where gs': "gs' = g' # gs''" using gs(2) Cons by (cases gs') auto
    have "keys ptr [c] = None" using Cons.prems(8) Cons by (auto simp: strict_prefix_def)
    then have u0: "u = 0" using find_ch_prefix [OF u(1)] by simp
    have g': "int g' \<le> timeleft" using Cons.prems(5) gs gs' by simp
    define i3 where "i3 = i2\<lparr>pending := zip (0 # gs'') cs @ rest\<rparr>"
    have w: "timed_wait timeleft i2 = (True, i3)" using p2 g' by (simp add: timed_wait_def gs' Cons i3_def)
    have c3: "caught_up i3" "queue i3 = queue i2"
      using i(3) by (simp_all add: i3_def caught_up_def with_room_def fifo_ok_def queue_def qlen_def)
    have pre: "\<forall>q. strict_prefix q cs \<longrightarrow> keys ch q = None"
    proof (intro allI impI)
      fix q assume q: "strict_prefix q cs"
      then have "keys ptr (c # q) = None" using Cons.prems(8) by (simp add: strict_prefix_def)
      then show "keys ch q = None" using find_ch_down [OF u(1)] by (cases "q = []") simp_all
    qed
    have "\<exists>j. kgetch_loop timeleft ch i3 = Some (uint v, j) \<and> with_room j \<and> queue j = [] \<and> pending j = rest
      \<and> queue_step (i3\<lparr>pending := rest\<rparr>) j"
    proof (rule Cons.IH [OF c3(1) _ _ _ _ _ _ pre])
      show "pending i3 = zip (0 # gs'') cs @ rest" by (simp add: i3_def)
    qed (use gs gs' Cons Cons.prems(5,6) u(2) c3(2) i(5) in auto)
    moreover have "queue_step (i\<lparr>pending := rest\<rparr>) (i3\<lparr>pending := rest\<rparr>)"
      using i(6) by (cases i; cases i2) (simp add: queue_step_def i3_def)
    ultimately show ?thesis using step u0 w by (auto intro: queue_step_trans)
  qed
qed

lemma queue_empty_iff: "fifo_ok i \<Longrightarrow> queue i = [] \<longleftrightarrow> fifohead i = - 1"
  using qlen_0 [of i] by (metis length_0_conv length_queue)

lemma queue_pending [simp]:
  "queue (i\<lparr>pending := p\<rparr>) = queue i" "with_room (i\<lparr>pending := p\<rparr>) = with_room i" "fifo_ok (i\<lparr>pending := p\<rparr>) = fifo_ok i"
  by (simp_all add: queue_def qlen_def with_room_def fifo_ok_def)

lemma queue_fifopeek [simp]: "queue (i\<lparr>fifopeek := p\<rparr>) = queue i"
  by (simp add: queue_def qlen_def)

lemma caught_up_empty: "with_room i \<Longrightarrow> queue i = [] \<Longrightarrow> caught_up i"
  using queue_empty_iff [of i] by (simp add: caught_up_def with_room_def)

text \<open>The first byte is delivered; the others are looked at again by the next call.\<close>

lemma pass_through_first:
  assumes "with_room i" and "queue i = x # xs"
  shows "\<exists>j. pass_through i = Some (x, j) \<and> with_room j \<and> queue j = xs \<and> fifopeek j = fifohead j \<and> queue_step i j"
proof -
  obtain j where j: "fifo_pull i = Some (x, j)" "with_room j" "queue j = xs" "queue_step i j"
    using fifo.pull_law [OF assms] by blast
  have "with_room (j\<lparr>fifopeek := fifohead j\<rparr>)" using j(2) by (auto simp: with_room_def fifo_ok_def)
  moreover have "queue (j\<lparr>fifopeek := fifohead j\<rparr>) = xs" using j(3) by simp
  moreover have "queue_step i (j\<lparr>fifopeek := fifohead j\<rparr>)" using j(4) by (simp add: queue_step_def)
  ultimately show ?thesis using j(1) by (simp add: pass_through_def)
qed

lemma pass_through_one:
  assumes "with_room i" and "queue i = [x]"
  shows "\<exists>j. pass_through i = Some (x, j) \<and> with_room j \<and> queue j = [] \<and> queue_step i j"
  using pass_through_first [OF assms] by blast

text \<open>One step of the loop: a byte is read, put into the queue, and looked up.\<close>

lemma kgetch_step:
  assumes "caught_up i" and "pending i = (g, c) # r" and "length (queue i) < 136"
  shows "\<exists>i2. caught_up i2 \<and> queue i2 = queue i @ [uint c] \<and> queue_step (i\<lparr>pending := r\<rparr>) i2 \<and>
    kgetch_loop timeleft ptr i =
      (case find_ch c ptr of
         None \<Rightarrow> pass_through i2
       | Some (v, child) \<Rightarrow>
           if v \<noteq> 0 then Some (uint v, fifo_clear i2)
           else (let (rc, i3) = timed_wait timeleft i2 in if rc then kgetch_loop timeleft child i3 else pass_through i3))"
proof -
  obtain i1 i2 where i: "fifo_push i = Some (uint c, i1)" "fifo_peek i1 = Some (uint c, i2)" "caught_up i2" "fifopeek i2 = fifotail i2"
    "queue i2 = queue i @ [uint c]" "queue_step (i\<lparr>pending := r\<rparr>) i2"
    by (rule push_peek [OF assms])
  obtain x where x: "(if cooked_key_in_fifo i then fifo_get (fifohead i) i else Some 0) = Some x" "x < KEY_MIN"
    using caught_up_first [OF assms(1)] by blast
  show ?thesis using x i caught_up_raw [OF assms(1)] caught_up_raw [OF i(3)] uint_byte [of c]
    by (intro exI [of _ i2]) (subst kgetch_loop.simps, simp split: option.split)
qed

lemma kgetch_first:
  assumes "with_room i" and "queue i = []" and "pending i = (g, c) # r"
  shows "\<exists>i2. caught_up i2 \<and> queue i2 = [uint c] \<and> queue_step (i\<lparr>pending := r\<rparr>) i2 \<and>
    kgetch_loop timeleft ptr i =
      (case find_ch c ptr of
         None \<Rightarrow> pass_through i2
       | Some (v, child) \<Rightarrow>
           if v \<noteq> 0 then Some (uint v, fifo_clear i2)
           else (let (rc, i3) = timed_wait timeleft i2 in if rc then kgetch_loop timeleft child i3 else pass_through i3))"
  using kgetch_step [OF caught_up_empty [OF assms(1,2)] assms(3)] assms(2) by simp

lemma kgetch_plain:
  assumes "with_room i" and "queue i = []" and "pending i = (g, c) # r" and "find_ch c (keytry i) = None"
  shows "\<exists>j. kgetch forever i = Some (uint c, j) \<and> with_room j \<and> queue j = [] \<and> queue_step (i\<lparr>pending := r\<rparr>) j"
proof -
  obtain i2 where i2: "caught_up i2" "queue i2 = [uint c]" "queue_step (i\<lparr>pending := r\<rparr>) i2" "kgetch forever i = pass_through i2"
    using kgetch_first [OF assms(1-3), of "if forever then 9999999 else escdelay i" "keytry i"] assms(4)
    by (auto simp: kgetch_def)
  have "with_room i2" using i2(1) by (simp add: caught_up_def)
  from pass_through_one [OF this i2(2)] show ?thesis using i2(3,4) by (auto intro: queue_step_trans)
qed

text \<open>Whether the tree of keys has a branch for the bytes.\<close>

fun has_branch :: "tries \<Rightarrow> byte list \<Rightarrow> bool" where
  "has_branch t [] \<longleftrightarrow> True"
| "has_branch t (c # cs) \<longleftrightarrow> (case find_ch c t of None \<Rightarrow> False | Some (v, child) \<Rightarrow> has_branch child cs)"

text \<open>
  The loop gives up after the beginning \<open>p\<close> of a key: the next byte comes too late, or it comes in
  time and the tree has no branch for it; in the latter case it is in the queue as well.
\<close>

lemma kgetch_loop_stops:
  assumes "caught_up i" and "pending i = zip gs p @ (g', c') # r" and "length gs = length p" and "p \<noteq> []"
    and "\<forall>g \<in> set (tl gs). int g \<le> timeleft" and "length (queue i) + length p < 136" and "0 \<le> timeleft"
    and "keys ptr (p @ q) = Some v" and "q \<noteq> []" and "\<forall>u. strict_prefix u (p @ q) \<longrightarrow> keys ptr u = None"
    and "timeleft < int g' \<or> \<not> has_branch ptr (p @ [c'])"
  shows "\<exists>k. kgetch_loop timeleft ptr i = pass_through k \<and> with_room k
    \<and> (if timeleft < int g' then queue k = queue i @ map uint p \<and> pending k = (g' - nat timeleft, c') # r
       else queue k = queue i @ map uint (p @ [c']) \<and> pending k = r)"
  using assms
proof (induction p arbitrary: gs i ptr)
  case Nil
  then show ?case by simp
next
  case (Cons c cs)
  obtain g gs' where gs: "gs = g # gs'" "length gs' = length cs" using Cons.prems(3) by (cases gs) auto
  have p: "pending i = (g, c) # zip gs' cs @ (g', c') # r" using Cons.prems(2) gs by simp
  obtain u ch where u: "find_ch c ptr = Some (u, ch)" "keys ch (cs @ q) = Some v"
    using find_ch_keys [of ptr c "cs @ q" v] Cons.prems(8,9) by auto
  have "strict_prefix [c] ((c # cs) @ q)" using Cons.prems(9) by (auto simp: strict_prefix_def)
  then have "keys ptr [c] = None" by (rule Cons.prems(10) [rule_format])
  then have u0: "u = 0" by (rule find_ch_prefix [OF u(1)])
  have "length (queue i) < 136" using Cons.prems(6) by simp
  from kgetch_step [OF Cons.prems(1) p this, of timeleft ptr] obtain i2 where
    i2: "caught_up i2" "queue i2 = queue i @ [uint c]" "queue_step (i\<lparr>pending := zip gs' cs @ (g', c') # r\<rparr>) i2"
    "kgetch_loop timeleft ptr i = (let (rc, i3) = timed_wait timeleft i2 in if rc then kgetch_loop timeleft ch i3 else pass_through i3)"
    using u(1) u0 by auto
  have p2: "pending i2 = zip gs' cs @ (g', c') # r" using queue_stepD(1) [OF i2(3)] by simp
  have c3: "caught_up (i2\<lparr>pending := x\<rparr>)" for x using i2(1) by (simp add: caught_up_def)
  show ?case
  proof (cases cs)
    case Nil
    have pn: "pending i2 = (g', c') # r" using p2 Nil gs(2) by simp
    show ?thesis
    proof (cases "timeleft < int g'")
      case True
      let ?k = "i2\<lparr>pending := (g' - nat timeleft, c') # r\<rparr>"
      have "timed_wait timeleft i2 = (False, ?k)" using pn True Cons.prems(7) by (simp add: timed_wait_def)
      then have "kgetch_loop timeleft ptr i = pass_through ?k" using i2(4) by simp
      moreover have "with_room ?k" using i2(1) by (simp add: caught_up_def)
      ultimately show ?thesis using True i2(2) Nil by (intro exI [of _ ?k]) simp
    next
      case False
      let ?i3 = "i2\<lparr>pending := (0, c') # r\<rparr>"
      have w: "timed_wait timeleft i2 = (True, ?i3)" using pn False by (simp add: timed_wait_def)
      have "find_ch c' ch = None" using False Cons.prems(11) Nil u(1) by (auto split: option.splits)
      moreover have "length (queue ?i3) < 136" using i2(2) Cons.prems(6) Nil by (simp del: length_queue)
      moreover have "pending ?i3 = (0, c') # r" by simp
      ultimately obtain k where "caught_up k" "queue k = queue ?i3 @ [uint c']" "queue_step (?i3\<lparr>pending := r\<rparr>) k"
        "kgetch_loop timeleft ch ?i3 = pass_through k"
        using kgetch_step [OF c3, of "(0, c') # r" 0 c' r timeleft ch] by auto
      then show ?thesis using False i2(2,4) w Nil queue_stepD(1) [of "?i3\<lparr>pending := r\<rparr>" k]
        by (intro exI [of _ k]) (simp add: caught_up_def)
    qed
  next
    case (Cons c2 cs')
    obtain g2 gs'' where gs': "gs' = g2 # gs''" using gs(2) Cons by (cases gs') auto
    have g2: "int g2 \<le> timeleft" using Cons.prems(5) gs gs' by simp
    define i3 where "i3 = i2\<lparr>pending := zip (0 # gs'') cs @ (g', c') # r\<rparr>"
    have w: "timed_wait timeleft i2 = (True, i3)" using p2 g2 by (simp add: timed_wait_def gs' Cons i3_def)
    have c3': "caught_up i3" "queue i3 = queue i2" using c3 by (simp_all add: i3_def)
    have pre: "\<forall>x. strict_prefix x (cs @ q) \<longrightarrow> keys ch x = None"
    proof (intro allI impI)
      fix x assume x: "strict_prefix x (cs @ q)"
      then have "keys ptr (c # x) = None" using Cons.prems(10) by (simp add: strict_prefix_def)
      then show "keys ch x = None" using find_ch_down [OF u(1)] by (cases "x = []") simp_all
    qed
    have "\<exists>k. kgetch_loop timeleft ch i3 = pass_through k \<and> with_room k
      \<and> (if timeleft < int g' then queue k = queue i3 @ map uint cs \<and> pending k = (g' - nat timeleft, c') # r
         else queue k = queue i3 @ map uint (cs @ [c']) \<and> pending k = r)"
    proof (rule Cons.IH [OF c3'(1) _ _ _ _ _ Cons.prems(7) u(2) Cons.prems(9) pre])
      show "pending i3 = zip (0 # gs'') cs @ (g', c') # r" by (simp add: i3_def)
      show "timeleft < int g' \<or> \<not> has_branch ch (cs @ [c'])" using Cons.prems(11) u(1) by auto
    qed (use gs gs' Cons Cons.prems(5,6) c3'(2) i2(2) in \<open>auto simp del: length_queue\<close>)
    then obtain k where "kgetch_loop timeleft ch i3 = pass_through k" "with_room k"
      "if timeleft < int g' then queue k = queue i3 @ map uint cs \<and> pending k = (g' - nat timeleft, c') # r
         else queue k = queue i3 @ map uint (cs @ [c']) \<and> pending k = r" by blast
    then show ?thesis using i2(2,4) w c3'(2) by (intro exI [of _ k]) simp
  qed
qed

text \<open>
  C16. A function key whose bytes arrive one after the other within the escape delay is delivered as
  its code, the bytes are consumed and nothing is left in the queue. When only a beginning of the
  sequence arrives, of one byte or more, and the next byte comes too late or does not belong to any
  sequence, the first byte is delivered as an ordinary character, and those after it stay in the
  queue in their order, to be looked at again by the next call: with the byte that does not belong if
  that came in time. The queue is empty at the start, and no sequence is the beginning of another one.
\<close>

theorem key_recognised:
  assumes "with_room i" and "queue i = []" and "pending i = zip gs s @ rest" and "length gs = length s" and "length s \<le> 136"
    and "\<forall>g \<in> set (tl gs). int g \<le> escdelay i"
    and "keys (keytry i) s = Some v" and "\<forall>p. strict_prefix p s \<longrightarrow> keys (keytry i) p = None" and "0 \<le> escdelay i"
  shows "(\<exists>j. kgetch False i = Some (uint v, j) \<and> with_room j \<and> queue j = [] \<and> pending j = rest)
    \<and> (\<forall>p hs g' c' r. strict_prefix p s \<and> p \<noteq> [] \<and> length hs = length p \<and> (\<forall>g \<in> set (tl hs). int g \<le> escdelay i) \<longrightarrow>
         (escdelay i < int g' \<longrightarrow>
           (\<exists>j. kgetch False (i\<lparr>pending := zip hs p @ (g', c') # r\<rparr>) = Some (uint (hd p), j) \<and> with_room j
              \<and> queue j = map uint (tl p) \<and> fifopeek j = fifohead j \<and> pending j = (g' - nat (escdelay i), c') # r))
       \<and> (int g' \<le> escdelay i \<and> \<not> has_branch (keytry i) (p @ [c']) \<longrightarrow>
           (\<exists>j. kgetch False (i\<lparr>pending := zip hs p @ (g', c') # r\<rparr>) = Some (uint (hd p), j) \<and> with_room j
              \<and> queue j = map uint (tl p @ [c']) \<and> fifopeek j = fifohead j \<and> pending j = r)))"
proof (intro conjI allI impI)
  have ne: "s \<noteq> []" using assms(7) by auto
  show "\<exists>j. kgetch False i = Some (uint v, j) \<and> with_room j \<and> queue j = [] \<and> pending j = rest"
    using kgetch_loop_key [OF caught_up_empty [OF assms(1,2)] assms(3,4) ne assms(6) _ assms(7,8)] assms(2,5)
    by (auto simp: kgetch_def)
next
  fix p hs g' c' r
  assume a: "strict_prefix p s \<and> p \<noteq> [] \<and> length hs = length p \<and> (\<forall>g \<in> set (tl hs). int g \<le> escdelay i)"
  define k where "k = i\<lparr>pending := zip hs p @ (g', c') # r\<rparr>"
  obtain q where q: "s = p @ q" "q \<noteq> []" using a by (auto simp: strict_prefix_def prefix_def)
  obtain x xs where x: "p = x # xs" using a by (cases p) auto
  have k: "caught_up k" "pending k = zip hs p @ (g', c') # r" "escdelay k = escdelay i" "keytry k = keytry i" "queue k = []"
    using caught_up_empty [of k] assms(1,2) by (simp_all add: k_def)
  have l: "length (queue k) + length p < 136" using k(5) assms(5) q by (cases q) (simp_all del: length_queue)
  have stops: "\<exists>j. kgetch False k = pass_through j \<and> with_room j
      \<and> (if escdelay i < int g' then queue j = map uint p \<and> pending j = (g' - nat (escdelay i), c') # r
         else queue j = map uint (p @ [c']) \<and> pending j = r)"
    if "escdelay i < int g' \<or> \<not> has_branch (keytry i) (p @ [c'])"
    using kgetch_loop_stops [OF k(1,2) _ _ _ l assms(9) assms(7) [unfolded q(1)] q(2) assms(8) [unfolded q(1)] that] a k(3-5)
    by (cases "escdelay i < int g'") (simp_all add: kgetch_def)
  show "\<exists>j. kgetch False (i\<lparr>pending := zip hs p @ (g', c') # r\<rparr>) = Some (uint (hd p), j) \<and> with_room j
      \<and> queue j = map uint (tl p) \<and> fifopeek j = fifohead j \<and> pending j = (g' - nat (escdelay i), c') # r"
    if late: "escdelay i < int g'"
  proof -
    obtain j where j: "kgetch False k = pass_through j" "with_room j" "queue j = uint x # map uint xs"
      "pending j = (g' - nat (escdelay i), c') # r" using stops late x by auto
    obtain t where t: "pass_through j = Some (uint x, t)" "with_room t" "queue t = map uint xs" "fifopeek t = fifohead t" "queue_step j t"
      using pass_through_first [OF j(2,3)] by blast
    show ?thesis unfolding k_def [symmetric] unfolding x list.sel using j(1,4) t queue_stepD(1) [OF t(5)] by (intro exI [of _ t]) simp
  qed
  show "\<exists>j. kgetch False (i\<lparr>pending := zip hs p @ (g', c') # r\<rparr>) = Some (uint (hd p), j) \<and> with_room j
      \<and> queue j = map uint (tl p @ [c']) \<and> fifopeek j = fifohead j \<and> pending j = r"
    if other: "int g' \<le> escdelay i \<and> \<not> has_branch (keytry i) (p @ [c'])"
  proof -
    obtain j where j: "kgetch False k = pass_through j" "with_room j" "queue j = uint x # map uint (xs @ [c'])" "pending j = r"
      using stops other x by auto
    obtain t where t: "pass_through j = Some (uint x, t)" "with_room t" "queue t = map uint (xs @ [c'])" "fifopeek t = fifohead t" "queue_step j t"
      using pass_through_first [OF j(2,3)] by blast
    show ?thesis unfolding k_def [symmetric] unfolding x list.sel using j(1,4) t queue_stepD(1) [OF t(5)] by (intro exI [of _ t]) simp
  qed
qed

theorem key_recognised_witness:
  "\<exists>j. kgetch False (demo_input\<lparr>pending := [(5000, 27), (3, 91), (2, 65), (0, 120)]\<rparr>) = Some (259, j) \<and> pending j = [(0, 120)]"
proof -
  let ?i = "demo_input\<lparr>pending := [(5000, 27), (3, 91), (2, 65), (0, 120)]\<rparr>"
  have k: "keytry ?i = Try 27 0 (Try 91 0 (Try 65 259 NoTry (Try 66 258 NoTry NoTry)) NoTry) NoTry"
    by (simp add: demo_input_def demo_keys_def add_to_try_def set_try_def cmp_try_def ERR_def OK_def)
  have d: "with_room ?i" "queue ?i = []" "escdelay ?i = 1000" "keytry ?i = keytry ?i" "pending ?i = zip [5000, 3, 2] [27, 91, 65] @ [(0, 120)]"
    by (simp_all add: with_room_def fifo_ok_def queue_def qlen_def demo_input_def)
  have v: "keys (keytry ?i) [27, 91, 65] = Some 259" unfolding k by simp
  have "\<forall>p. strict_prefix p [27, 91, 65] \<longrightarrow> keys (keytry ?i) p = None"
    unfolding k by (auto simp: strict_prefix_def prefix_Cons)
  from key_recognised [OF d(1,2,5) _ _ _ v this] show ?thesis by (auto simp: d(3))
qed

section \<open>No access leaves the array\<close>

lemma peek_total: "fifo_ok i \<Longrightarrow> ok (fifo_peek i) (\<lambda>(ch, j). fifo_ok j \<and> j = p_inc i \<and> (fifohead j = fifohead i \<and> fifotail j = fifotail i))"
  by (auto simp: fifo_peek_def fifo_get_def p_inc_def fifo_ok_def)

lemma pull_total: "fifo_ok i \<Longrightarrow> ok (fifo_pull i) (\<lambda>(ch, j). fifo_ok j)"
proof -
  assume f: "fifo_ok i"
  show ?thesis
  proof (cases "queue i")
    case Nil
    then have h: "fifohead i = - 1" "fifotail i = 0" using queue_empty_iff [OF f] f by (auto simp: fifo_ok_def)
    then show ?thesis using f by (auto simp: fifo_pull_def h_inc_def fifo_ok_def)
  next
    case (Cons c cs)
    from pull_ok [OF f this] show ?thesis by (auto simp: ok_iff)
  qed
qed

lemma pass_total: "fifo_ok i \<Longrightarrow> ok (pass_through i) (\<lambda>(ch, j). fifo_ok j)"
proof -
  assume "fifo_ok i"
  from pull_total [OF this] obtain ch j where "fifo_pull i = Some (ch, j)" "fifo_ok j" by (rule ok_pairE)
  then show ?thesis by (auto simp: pass_through_def fifo_ok_def)
qed

lemma push_total: "fifo_ok i \<Longrightarrow> ok (fifo_push i) (\<lambda>(ch, j). fifo_ok j \<and> (ch \<noteq> ERR \<longrightarrow> 0 \<le> fifohead j))"
  by (auto simp: fifo_push_def read_byte_def fifo_put_def t_inc_def fifo_ok_def Let_def ERR_def split: list.splits)

lemma t_dec_ok: "fifo_ok i \<Longrightarrow> 0 \<le> fifohead i \<Longrightarrow> fifo_ok (t_dec i)"
  by (auto simp: t_dec_def fifo_ok_def fifo_clear_def Let_def)

lemma kgetch_loop_total: "fifo_ok i \<Longrightarrow> ok (kgetch_loop timeleft ptr i) (\<lambda>(ch, j). fifo_ok j)"
proof (induction "size ptr" arbitrary: ptr i rule: less_induct)
  case less
  have "\<exists>x. (if cooked_key_in_fifo i then fifo_get (fifohead i) i else Some 0) = Some x"
    using less.prems by (auto simp: cooked_key_in_fifo_def fifo_get_def fifo_ok_def)
  then obtain x where x: "(if cooked_key_in_fifo i then fifo_get (fifohead i) i else Some 0) = Some x" by blast
  have "ok (if raw_key_in_fifo i then Some (0, i) else fifo_push i)
     (\<lambda>(got, j). fifo_ok j \<and> (raw_key_in_fifo i \<or> got \<noteq> ERR \<longrightarrow> 0 \<le> fifohead j))"
  proof (cases "raw_key_in_fifo i")
    case True
    then show ?thesis using less.prems by (simp add: raw_key_in_fifo_def)
  next
    case False
    then show ?thesis using push_total [OF less.prems] by simp
  qed
  then obtain got i1 where i1: "(if raw_key_in_fifo i then Some (0, i) else fifo_push i) = Some (got, i1)" "fifo_ok i1"
    "raw_key_in_fifo i \<or> got \<noteq> ERR \<longrightarrow> 0 \<le> fifohead i1" by (rule ok_pair_conjE)
  obtain ch i2 where i2: "fifo_peek i1 = Some (ch, i2)" "fifo_ok i2" "i2 = p_inc i1" "fifohead i2 = fifohead i1"
    using peek_total [OF i1(2)] by (auto simp: ok_iff)
  have pass: "ok (pass_through j) (\<lambda>(ch, j). fifo_ok j)" if "fifo_ok j" for j by (rule pass_total [OF that])
  have err: "fifo_ok (i1\<lparr>fifopeek := fifohead i1\<rparr>)" using i1(2) by (auto simp: fifo_ok_def)
  have key: "fifo_ok (t_dec (i2\<lparr>fifopeek := fifohead i2\<rparr>))" if "0 \<le> fifohead i1"
    by (rule t_dec_ok) (use i2(2,4) that in \<open>auto simp: fifo_ok_def\<close>)
  have peek: "0 \<le> fifopeek i2" if "0 \<le> fifohead i1"
    using i1(2) that by (auto simp: i2(3) p_inc_def fifo_ok_def)
  have found: "fifo_ok (if fifopeek i2 = fifotail i2 then fifo_clear i2 else i2\<lparr>fifohead := fifopeek i2\<rparr>)" if "0 \<le> fifohead i1"
    using i2(2,4) peek [OF that] that by (auto simp: fifo_ok_def fifo_clear_def)
  obtain rc i3 where i3: "(if raw_key_in_fifo i2 then (True, i2) else timed_wait timeleft i2) = (rc, i3)" by fastforce
  have f3: "fifo_ok i3" using i3 i2(2) by (auto simp: timed_wait_def split: if_splits list.splits prod.splits)
  have rec: "ok (kgetch_loop timeleft child i3) (\<lambda>(ch, j). fifo_ok j)" if "find_ch c ptr = Some (v, child)" for c v child
    by (rule less.hyps [OF find_ch_size [OF that] f3])
  have branches: "ok (case find_ch c ptr of None \<Rightarrow> pass_through i2
      | Some (v, child) \<Rightarrow>
          if v \<noteq> 0 then Some (uint v, if fifopeek i2 = fifotail i2 then fifo_clear i2 else i2\<lparr>fifohead := fifopeek i2\<rparr>)
          else (let (rc, i3) = (if raw_key_in_fifo i2 then (True, i2) else timed_wait timeleft i2)
                in if rc then kgetch_loop timeleft child i3 else pass_through i3)) (\<lambda>(ch, j). fifo_ok j)"
    if h: "0 \<le> fifohead i1" for c
    unfolding i3 using pass [OF i2(2)] pass [OF f3] rec [of c] found [OF h]
    by (cases "find_ch c ptr") (auto simp del: kgetch_loop.simps split del: if_split)
  show ?case
    using x i1 i2(1) pass [OF less.prems] err key branches
    by (subst kgetch_loop.simps) (auto simp: Let_def)
qed

lemma kgetch_total: "fifo_ok i \<Longrightarrow> ok (kgetch forever i) (\<lambda>(ch, j). fifo_ok j)"
  by (simp add: kgetch_def kgetch_loop_total)

section \<open>How far \<open>kgetch\<close> reads\<close>

text \<open>At most \<open>n\<close> bytes of the terminal have been read between two states.\<close>

definition reads_upto :: "nat \<Rightarrow> input \<Rightarrow> input \<Rightarrow> bool" where
  "reads_upto n i j \<longleftrightarrow> (\<exists>k \<le> n. map snd (pending j) = drop k (map snd (pending i)))"

lemma reads_same: "map snd (pending j) = map snd (pending i) \<Longrightarrow> reads_upto n i j"
  by (auto simp: reads_upto_def intro!: exI [of _ 0])

lemma reads_trans: "reads_upto m i j \<Longrightarrow> reads_upto n j k \<Longrightarrow> m + n \<le> l \<Longrightarrow> reads_upto l i k"
proof -
  assume "reads_upto m i j" "reads_upto n j k" "m + n \<le> l"
  then obtain a b where "a \<le> m" "map snd (pending j) = drop a (map snd (pending i))"
    "b \<le> n" "map snd (pending k) = drop b (map snd (pending j))" by (auto simp: reads_upto_def)
  then have "b + a \<le> l" "map snd (pending k) = drop (b + a) (map snd (pending i))"
    using \<open>m + n \<le> l\<close> by (simp_all add: drop_map add.commute)
  then show ?thesis unfolding reads_upto_def by blast
qed

lemma read_byte_reads: "read_byte i = (n, c, j) \<Longrightarrow> reads_upto 1 i j"
proof (cases "pending i")
  case Nil
  assume "read_byte i = (n, c, j)"
  then show ?thesis using Nil by (simp add: read_byte_def reads_same)
next
  case (Cons a r)
  assume "read_byte i = (n, c, j)"
  then have "map snd (pending j) = drop 1 (map snd (pending i))" using Cons by (cases a) (auto simp: read_byte_def)
  then show ?thesis unfolding reads_upto_def by blast
qed

lemma reads_push: "fifo_push i = Some (ch, j) \<Longrightarrow> reads_upto 1 i j"
proof -
  assume p: "fifo_push i = Some (ch, j)"
  obtain n c i1 where r: "read_byte i = (n, c, i1)" by (rule prod_cases3)
  have "pending j = pending i \<or> pending j = pending i1"
    using p by (auto simp: fifo_push_def r fifo_put_def t_inc_def Let_def split: if_splits)
  then show ?thesis using read_byte_reads [OF r] reads_same [of j i 1] by (auto simp: reads_upto_def)
qed

lemma reads_keeps:
  "fifo_pull i = Some (ch, j) \<Longrightarrow> pending j = pending i"
  "pass_through i = Some (ch, j) \<Longrightarrow> pending j = pending i"
  "fifo_peek i = Some (ch, j) \<Longrightarrow> pending j = pending i"
  "pending (t_dec i) = pending i" "pending (fifo_clear i) = pending i"
  "timed_wait t i = (rc, j) \<Longrightarrow> map snd (pending j) = map snd (pending i)"
  by (auto simp: pass_through_def fifo_pull_def fifo_peek_def h_inc_def p_inc_def t_dec_def fifo_clear_def timed_wait_def Let_def bind_eq_Some_conv
      split: if_splits list.splits)

lemma kgetch_loop_reads: "kgetch_loop timeleft ptr i = Some (ch, j) \<Longrightarrow> reads_upto (size ptr + 1) i j"
proof (induction "size ptr" arbitrary: ptr i rule: less_induct)
  case less
  let ?again = "\<lambda>i2 child. let (rc, i3) = (if raw_key_in_fifo i2 then (True, i2) else timed_wait timeleft i2)
                   in if rc then kgetch_loop timeleft child i3 else pass_through i3"
  have again: "reads_upto (size ptr) i2 j" if "?again i2 child = Some (ch, j)" "find_ch c ptr = Some (v, child)" for i2 c v child
  proof -
    obtain rc i3 where i3: "(if raw_key_in_fifo i2 then (True, i2) else timed_wait timeleft i2) = (rc, i3)" by fastforce
    have same: "map snd (pending i3) = map snd (pending i2)"
      using i3 by (auto split: if_splits dest: reads_keeps(6))
    have "size child + 1 \<le> size ptr" using find_ch_size [OF that(2)] by simp
    then have "reads_upto (size ptr) i3 j"
      using that(1) reads_trans [OF less.hyps [OF find_ch_size [OF that(2)], of i3] reads_same [OF refl, of 0]] reads_keeps(2) [of i3 ch j]
      by (auto simp: i3 split: if_splits intro: reads_same)
    from reads_trans [OF reads_same [OF same, of 0] this] show ?thesis by simp
  qed
  obtain first where first: "(if cooked_key_in_fifo i then fifo_get (fifohead i) i else Some 0) = Some first"
    using less.prems by (subst (asm) kgetch_loop.simps) (auto simp: bind_eq_Some_conv)
  show ?case
  proof (cases "first \<ge> KEY_MIN")
    case True
    then show ?thesis using less.prems first reads_keeps(2) by (subst (asm) kgetch_loop.simps) (auto intro: reads_same)
  next
    case False
    obtain got i1 where i1: "(if raw_key_in_fifo i then Some (0, i) else fifo_push i) = Some (got, i1)"
      using less.prems first False by (subst (asm) kgetch_loop.simps) (auto simp: bind_eq_Some_conv)
    have r1: "reads_upto 1 i i1" using i1 by (auto simp del: One_nat_def split: if_splits intro: reads_same reads_push)
    show ?thesis
    proof (cases "\<not> raw_key_in_fifo i \<and> got = ERR")
      case True
      then have "j = i1\<lparr>fifopeek := fifohead i1\<rparr>" using less.prems first False i1 by (subst (asm) kgetch_loop.simps) simp
      then show ?thesis using reads_trans [OF r1, of 0 j "size ptr + 1"] by (simp add: reads_same)
    next
      case n: False
      then obtain c i2 where i2: "fifo_peek i1 = Some (c, i2)"
        using less.prems first False i1 by (subst (asm) kgetch_loop.simps) (auto simp: bind_eq_Some_conv)
      have res: "(if c \<ge> KEY_MIN then Some (c, t_dec (i2\<lparr>fifopeek := fifohead i2\<rparr>))
         else (case find_ch (word_of_int c) ptr of
              None \<Rightarrow> pass_through i2
            | Some (v, child) \<Rightarrow>
                if v \<noteq> 0 then Some (uint v, if fifopeek i2 = fifotail i2 then fifo_clear i2 else i2\<lparr>fifohead := fifopeek i2\<rparr>)
                else ?again i2 child)) = Some (ch, j)"
        using less.prems first False i1 n i2 by (subst (asm) kgetch_loop.simps) (simp cong: if_cong)
      have "reads_upto (size ptr) i2 j"
      proof (cases "c \<ge> KEY_MIN")
        case True
        then have "j = t_dec (i2\<lparr>fifopeek := fifohead i2\<rparr>)" using res by simp
        then show ?thesis by (simp add: reads_same reads_keeps(4))
      next
        case nk: False
        show ?thesis
        proof (cases "find_ch (word_of_int c) ptr")
          case None
          then show ?thesis using res nk reads_keeps(2) [of i2 ch j] by (simp add: reads_same)
        next
          case (Some vc)
          obtain v child where vc: "vc = (v, child)" by (cases vc)
          show ?thesis
          proof (cases "v = 0")
            case True
            then have "?again i2 child = Some (ch, j)" using res nk Some vc by simp
            then show ?thesis using again Some vc by blast
          next
            case False
            then have "pending j = pending i2" using res nk Some vc by (auto simp: reads_keeps(5))
            then show ?thesis by (simp add: reads_same)
          qed
        qed
      qed
      moreover have "reads_upto 0 i1 i2" using reads_keeps(3) [OF i2] by (simp add: reads_same)
      ultimately show ?thesis using reads_trans [OF r1 reads_trans [of 0 i1 i2 "size ptr" j "size ptr"]] by simp
    qed
  qed
qed

text \<open>
  C22. \<open>kgetch\<close> returns from every state of the queue, however the bytes of the terminal are timed and
  whatever the tree of keys is, without an access outside the queue; and it reads at most one byte
  more than the tree has nodes.
\<close>

theorem kgetch_ends:
  assumes "fifo_ok i"
  shows "\<exists>ch j n. kgetch forever i = Some (ch, j) \<and> fifo_ok j \<and> n \<le> size (keytry i) + 1
    \<and> map snd (pending j) = drop n (map snd (pending i))"
proof -
  obtain ch j where j: "kgetch forever i = Some (ch, j)" "fifo_ok j" using kgetch_total [OF assms] by (rule ok_pairE)
  have "reads_upto (size (keytry i) + 1) i j" using j(1) by (simp only: kgetch_def) (rule kgetch_loop_reads)
  then show ?thesis using j unfolding reads_upto_def by blast
qed

theorem kgetch_ends_witness:
  "\<exists>ch j n. kgetch True (demo_input\<lparr>pending := [(0, 27), (4, 91)]\<rparr>) = Some (ch, j) \<and> n \<le> size (keytry demo_input) + 1
    \<and> map snd (pending j) = drop n [27, 91]"
proof -
  have "fifo_ok (demo_input\<lparr>pending := [(0, 27), (4, 91)]\<rparr>)" by (simp add: fifo_ok_def demo_input_def)
  from kgetch_ends [OF this, of True] show ?thesis by auto
qed

end
