(* ===== verification/WinInput.thy ===== *)
theory WinInput
  imports WinSession KeyQueue
begin

text \<open>
  Reading characters and lines (\<open>base/lib_getch.c\<close>, \<open>base/lib_getstr.c\<close>).

  The functions of \<open>TermModes\<close> and \<open>KeyQueue\<close> work on the input side \<open>inp\<close> of the state. There is no
  mouse: \<open>_mouse_inline\<close> and \<open>_mouse_parse\<close> are the functions \<open>no_mouse_inline\<close> and
  \<open>no_mouse_parse\<close>; and no signals, so \<open>_nc_handle_sigwinch\<close> finds none. A loop of which it is
  not evident that it ends is a \<open>partial_function\<close>: not ending is \<open>None\<close>, as is a fault.
\<close>

section \<open>Access to the input side\<close>

definition on_input :: "(input \<Rightarrow> ('a \<times> input) option) \<Rightarrow> nc \<Rightarrow> ('a \<times> nc) option" where
  "on_input f s = do { (a, i) \<leftarrow> f (inp s); Some (a, s\<lparr>inp := i\<rparr>) }"

definition on_mode :: "(input \<Rightarrow> int \<times> input) \<Rightarrow> nc \<Rightarrow> nc" where
  "on_mode f s = s\<lparr>inp := snd (f (inp s))\<rparr>"

definition KEY_CODE_YES :: int where "KEY_CODE_YES = 0x100"
definition KEY_DOWN :: int where "KEY_DOWN = 0x102"
definition KEY_UP :: int where "KEY_UP = 0x103"
definition KEY_LEFT :: int where "KEY_LEFT = 0x104"
definition KEY_RIGHT :: int where "KEY_RIGHT = 0x105"
definition KEY_BACKSPACE :: int where "KEY_BACKSPACE = 0x107"
definition KEY_ENTER :: int where "KEY_ENTER = 0x157"
definition KEY_MOUSE :: int where "KEY_MOUSE = 0x199"
definition KEY_RESIZE :: int where "KEY_RESIZE = 0x19A"

section \<open>Options of a window for reading\<close>

definition keypad :: "nat \<Rightarrow> bool \<Rightarrow> nc \<Rightarrow> (int \<times> nc) option" where
  "keypad w flag s =
     (if w \<noteq> 0 then do {
        s1 \<leftarrow> modw w (\<lambda>W. W\<lparr>use_keypad := flag\<rparr>) s;
        on_input (\<lambda>i. Some (nc_keypad flag i)) s1 }
      else Some (ERR, s))"

definition nodelay :: "nat \<Rightarrow> bool \<Rightarrow> nc \<Rightarrow> (int \<times> nc) option" where
  "nodelay w flag s =
     (if w \<noteq> 0 then do { s1 \<leftarrow> modw w (\<lambda>W. W\<lparr>delay := (if flag then 0 else - 1)\<rparr>) s; Some (OK, s1) }
      else Some (ERR, s))"

definition set_notimeout :: "nat \<Rightarrow> bool \<Rightarrow> nc \<Rightarrow> (int \<times> nc) option" where
  "set_notimeout w f s =
     (if w \<noteq> 0 then do { s1 \<leftarrow> modw w (\<lambda>W. W\<lparr>notimeout := f\<rparr>) s; Some (OK, s1) }
      else Some (ERR, s))"

definition wtimeout :: "nat \<Rightarrow> int \<Rightarrow> nc \<Rightarrow> nc option" where
  "wtimeout w d s = (if w \<noteq> 0 then modw w (\<lambda>W. W\<lparr>delay := d\<rparr>) s else Some s)"

section \<open>Characters\<close>

definition recur_wrefresh :: "updater \<Rightarrow> nat \<Rightarrow> nc \<Rightarrow> nc option" where
  "recur_wrefresh du w s = do {
     W \<leftarrow> windows s w;
     touched \<leftarrow> is_wintouched w s;
     if (touched \<or> has_flag (flags W) F_HASMOVED) \<and> \<not> has_flag (flags W) F_ISPAD
     then do { (r, s1) \<leftarrow> wrefresh du w s; Some s1 } else Some s }"

definition no_mouse_inline :: bool where "no_mouse_inline = False"
definition no_mouse_parse :: bool where "no_mouse_parse = True"

text \<open>The loop that collects mouse events; the result is the last key and the number of events.\<close>

partial_function (option) key_loop :: "bool \<Rightarrow> nat \<Rightarrow> input \<Rightarrow> ((int \<times> nat) \<times> input) option" where
  "key_loop notime runcount i = do {
     (ch, i1) \<leftarrow> kgetch notime i;
     let n = (if ch = KEY_MOUSE then runcount + 1 else runcount);
     if ch = KEY_MOUSE \<and> no_mouse_inline then Some ((ch, n), i1)
     else if maxclick i1 < 0 then Some ((ch, n), i1)
     else if ch = KEY_MOUSE then
       (let (rc, i2) = timed_wait (maxclick i1) i1
        in if rc \<or> \<not> no_mouse_parse then key_loop notime n i2 else Some ((ch, n), i2))
     else Some ((ch, n), i1) }"

text \<open>The character that \<open>_nc_wgetch\<close> takes from the keyboard, \<open>ERR\<close> after a time-out.\<close>

definition get_key :: "window \<Rightarrow> input \<Rightarrow> (int \<times> input) option" where
  "get_key W i =
     (let limit = (if cbreak_mode i > 1 then (cbreak_mode i - 1) * 100 else delay W);
          (rc, i1) = (if (notimeout W \<or> delay W \<ge> 0 \<or> cbreak_mode i > 1) \<and> fifohead i = - 1
                      then timed_wait limit i else (True, i))
      in if \<not> rc then Some (ERR, i1)
         else if use_keypad W then do {
           ((ch, runcount), i2) \<leftarrow> key_loop (notimeout W) 0 i1;
           if runcount > 0 \<and> ch \<noteq> KEY_MOUSE
           then do { (r, i3) \<leftarrow> safe_ungetch ch i2; Some (KEY_MOUSE, i3) }
           else Some (ch, i2) }
         else do {
           i2 \<leftarrow> (if fifohead i1 = - 1 then do { (r, j) \<leftarrow> fifo_push i1; Some j } else Some i1);
           fifo_pull i2 })"

text \<open>
  The line buffer is handed over by \<open>wgetnstr\<close>, the argument \<open>getnstr\<close>, which is given the size of
  the array and the count; it returns the characters before the terminator.
\<close>

fun unget_line :: "int list \<Rightarrow> input \<Rightarrow> input option" where
  "unget_line [] i = Some i"
| "unget_line (c # cs) i = do { (r, i1) \<leftarrow> safe_ungetch c i; unget_line cs i1 }"

definition cooked_line :: "(nat \<Rightarrow> int \<Rightarrow> nc \<Rightarrow> (int \<times> int list \<times> nc) option) \<Rightarrow> nc \<Rightarrow> nc option" where
  "cooked_line getnstr s = do {
     (rc, buf, s1) \<leftarrow> getnstr 135 135 (s\<lparr>inp := (inp s)\<lparr>called_wgetch := True\<rparr>\<rparr>);
     let i1 = (inp s1)\<lparr>called_wgetch := False\<rparr>;
     i2 \<leftarrow> (if rc \<noteq> ERR then do { (r, j) \<leftarrow> safe_ungetch 10 i1; Some j } else Some i1);
     i3 \<leftarrow> unget_line (rev (takeWhile (\<lambda>c. c \<noteq> 0) buf)) i2;
     Some (s1\<lparr>inp := i3\<rparr>) }"

definition echo_key :: "updater \<Rightarrow> nat \<Rightarrow> int \<Rightarrow> nc \<Rightarrow> nc option" where
  "echo_key du w ch s = do {
     W \<leftarrow> windows s w;
     let backup = (if ch = KEY_BACKSPACE then 8 else ch) mod 2 ^ 32;
     if echo_on (inp s) \<and> \<not> has_flag (flags W) F_ISPAD \<and> backup < KEY_MIN
     then do { (r, s1) \<leftarrow> wechochar du w (word_of_int backup) s; Some s1 } else Some s }"

definition final_key :: "bool \<Rightarrow> input \<Rightarrow> int \<Rightarrow> int" where
  "final_key meta_key i ch =
     (let ch1 = (if ch = 13 \<and> nl_on i then 10 else ch)
      in if \<not> meta_key \<and> ch1 < KEY_MIN \<and> ch1 AND 0x80 \<noteq> 0 then ch1 AND 0x7F else ch1)"

definition key_result :: "int \<Rightarrow> int" where
  "key_result ch = (if ch \<ge> KEY_MIN then KEY_CODE_YES else OK)"

definition nc_wgetch ::
  "(nat \<Rightarrow> int \<Rightarrow> nc \<Rightarrow> (int \<times> int list \<times> nc) option) \<Rightarrow> updater \<Rightarrow> nat \<Rightarrow> bool \<Rightarrow> nc \<Rightarrow> ((int \<times> int) \<times> nc) option" where
  "nc_wgetch getnstr du w meta_key s =
     (if w = 0 then Some ((ERR, 0), s)
      else if cooked_key_in_fifo (inp s) then do {
        s1 \<leftarrow> recur_wrefresh du w s;
        (ch, s2) \<leftarrow> on_input fifo_pull s1;
        Some ((key_result ch, ch), s2) }
      else if fifohead (inp s) = - 1 \<and> \<not> notty (inp s) \<and> \<not> raw_on (inp s) \<and> cbreak_mode (inp s) = 0 \<and> \<not> called_wgetch (inp s)
      then do {
        s1 \<leftarrow> cooked_line getnstr s;
        (ch, s2) \<leftarrow> on_input fifo_pull s1;
        Some ((key_result ch, ch), s2) }
      else do {
        W \<leftarrow> windows s w;
        let s1 = (if use_keypad W \<noteq> keypad_on (inp s) then on_mode (nc_keypad (use_keypad W)) s else s);
        s2 \<leftarrow> recur_wrefresh du w s1;
        V \<leftarrow> windows s2 w;
        (ch, s3) \<leftarrow> on_input (get_key V) s2;
        if ch = ERR then Some ((ERR, 0), s3)
        else do {
          s4 \<leftarrow> echo_key du w ch s3;
          let k = final_key meta_key (inp s4) ch;
          Some ((key_result k, k), s4) } })"

definition wgetch_with ::
  "(nat \<Rightarrow> int \<Rightarrow> nc \<Rightarrow> (int \<times> int list \<times> nc) option) \<Rightarrow> updater \<Rightarrow> nat \<Rightarrow> nc \<Rightarrow> (int \<times> nc) option" where
  "wgetch_with getnstr du w s = do {
     ((code, value), s1) \<leftarrow> nc_wgetch getnstr du w (use_meta (inp s)) s;
     Some (if code \<noteq> ERR then value else code, s1) }"

text \<open>Inside \<open>wgetnstr\<close> the terminal is in raw mode, so that no line is read there again.\<close>

definition wgetch_raw :: "updater \<Rightarrow> nat \<Rightarrow> nc \<Rightarrow> (int \<times> nc) option" where
  "wgetch_raw = wgetch_with (\<lambda>_ _ _. None)"

section \<open>Lines\<close>

text \<open>A string of the caller as the array that \<open>waddnstr\<close> reads.\<close>

definition c_text :: "int list \<Rightarrow> chtype list" where
  "c_text cs = map (\<lambda>c. word_of_int (c mod 256)) cs @ [0]"

partial_function (option) blank_until :: "updater \<Rightarrow> nat \<Rightarrow> int \<Rightarrow> int \<Rightarrow> nc \<Rightarrow> nc option" where
  "blank_until du w y1 x1 s = do {
     W \<leftarrow> windows s w;
     if cury W < y1 \<or> cury W = y1 \<and> curx W < x1
     then do { (r, s1) \<leftarrow> waddch du w 0x20 s; blank_until du w y1 x1 s1 }
     else Some s }"

definition wipe_out :: "updater \<Rightarrow> nat \<Rightarrow> int \<Rightarrow> int \<Rightarrow> int list \<Rightarrow> bool \<Rightarrow> nc \<Rightarrow> (int list \<times> nc) option" where
  "wipe_out du w y x buf echoed s =
     (if buf = [] then Some (buf, s)
      else if echoed then do {
        W \<leftarrow> windows s w;
        (r1, s1) \<leftarrow> wmove w y x s;
        (r2, s2) \<leftarrow> waddnstr du w (c_text (butlast buf)) (- 1) s1;
        V \<leftarrow> windows s2 w;
        s3 \<leftarrow> blank_until du w (cury W) (curx W) s2;
        (r3, s4) \<leftarrow> wmove w (cury V) (curx V) s3;
        Some (butlast buf, s4) }
      else Some (butlast buf, s))"

text \<open>\<open>while (str > oldstr)\<close> at the kill character.\<close>

fun wipe_all :: "nat \<Rightarrow> updater \<Rightarrow> nat \<Rightarrow> int \<Rightarrow> int \<Rightarrow> int list \<Rightarrow> bool \<Rightarrow> nc \<Rightarrow> (int list \<times> nc) option" where
  "wipe_all 0 du w y x buf echoed s = (if buf = [] then Some (buf, s) else None)"
| "wipe_all (Suc n) du w y x buf echoed s =
     (if buf = [] then Some (buf, s)
      else do { (b, s1) \<leftarrow> wipe_out du w y x buf echoed s; wipe_all n du w y x b echoed s1 })"

text \<open>
  A character is stored and echoed; the result is the new buffer and the reference point. An
  index outside the caller's array of \<open>cap\<close> characters is a fault.
\<close>

definition echo_char :: "updater \<Rightarrow> nat \<Rightarrow> int \<Rightarrow> int \<Rightarrow> int list \<Rightarrow> int \<Rightarrow> nc \<Rightarrow> ((int \<times> int list) \<times> nc) option" where
  "echo_char du w y x buf ch s = do {
     W \<leftarrow> windows s w;
     (r, s1) \<leftarrow> waddch du w (word_of_int ch) s;
     if r = ERR then do {
       s2 \<leftarrow> modw w (\<lambda>W. W\<lparr>flags := flags W AND NOT F_WRAPPED\<rparr>) s1;
       (r2, s3) \<leftarrow> waddch du w 0x20 s2;
       (b, s4) \<leftarrow> wipe_out du w y x buf True s3;
       Some ((y, b), s4) }
     else do {
       V \<leftarrow> windows s1 w;
       (y', s2) \<leftarrow>
         (if has_flag (flags V) F_WRAPPED then do {
            t \<leftarrow> modw w (\<lambda>W. W\<lparr>flags := flags W AND NOT F_WRAPPED\<rparr>) s1;
            Some (if scrollf V \<and> cury W = maxy V \<and> cury V = maxy V then (if y - 1 \<le> 0 then 0 else y - 1) else y, t) }
          else Some (y, s1));
       (r3, s3) \<leftarrow> wrefresh du w s2;
       Some ((y', buf), s3) } }"

text \<open>
  One round of the loop: whether it ends, the key, the reference row and the buffer.
\<close>

definition line_step ::
  "updater \<Rightarrow> nat \<Rightarrow> nat \<Rightarrow> int \<Rightarrow> bool \<Rightarrow> int \<Rightarrow> int \<Rightarrow> int \<Rightarrow> int \<Rightarrow> int list \<Rightarrow> nc
     \<Rightarrow> ((bool \<times> int \<times> int \<times> int list) \<times> nc) option" where
  "line_step du w cap maxlen oldecho erasec killc y x buf s = do {
     (ch, s1) \<leftarrow> wgetch_raw du w s;
     if ch = ERR then Some ((True, ch, y, buf), s1)
     else if ch = 10 \<or> ch = 13 \<or> ch = KEY_DOWN \<or> ch = KEY_ENTER then do {
       W \<leftarrow> windows s1 w;
       s2 \<leftarrow> (if oldecho \<and> cury W = maxy W \<and> scrollf W then do { (r, t) \<leftarrow> wechochar du w 10 s1; Some t } else Some s1);
       Some ((True, ch, y, buf), s2) }
     else if ch = KEY_RESIZE then Some ((True, ch, y, buf), s1)
     else if ch = erasec \<or> ch = KEY_LEFT \<or> ch = KEY_BACKSPACE then do {
       (b, s2) \<leftarrow> wipe_out du w y x buf oldecho s1;
       Some ((False, ch, y, b), s2) }
     else if ch = killc then do {
       (b, s2) \<leftarrow> wipe_all (length buf) du w y x buf oldecho s1;
       Some ((False, ch, y, b), s2) }
     else if ch \<ge> KEY_MIN \<or> int (length buf) \<ge> maxlen then Some ((False, ch, y, buf), s1)
     else if length buf < cap then
       (if oldecho then do {
          ((y', b), s2) \<leftarrow> echo_char du w y x (buf @ [to_char ch]) ch s1;
          Some ((False, ch, y', b), s2) }
        else Some ((False, ch, y, buf @ [to_char ch]), s1))
     else None }"

partial_function (option) line_loop ::
  "updater \<Rightarrow> nat \<Rightarrow> nat \<Rightarrow> int \<Rightarrow> bool \<Rightarrow> int \<Rightarrow> int \<Rightarrow> int \<Rightarrow> int \<Rightarrow> int list \<Rightarrow> nc \<Rightarrow> ((int \<times> int list) \<times> nc) option" where
  "line_loop du w cap maxlen oldecho erasec killc y x buf s = do {
     ((finished, ch, y', b), s1) \<leftarrow> line_step du w cap maxlen oldecho erasec killc y x buf s;
     if finished then Some ((ch, b), s1) else line_loop du w cap maxlen oldecho erasec killc y' x b s1 }"

definition nc_getstr_limit :: "input \<Rightarrow> int \<Rightarrow> int" where
  "nc_getstr_limit i n = (if n < 0 then getstr_limit i - 1 else if n > getstr_limit i - 1 then getstr_limit i - 1 else n)"

text \<open>
  \<open>wgetnstr\<close> with an array of \<open>cap\<close> characters; the result is the return code and the characters
  before the terminator. \<open>_cbreak\<close> is saved in a variable of type \<open>bool\<close>. The bell of \<open>beep\<close> is not
  in the state.
\<close>

definition wgetnstr :: "updater \<Rightarrow> nat \<Rightarrow> nat \<Rightarrow> int \<Rightarrow> nc \<Rightarrow> (int \<times> int list \<times> nc) option" where
  "wgetnstr du w cap n s =
     (if w = 0 then Some (ERR, [], s)
      else do {
        let i0 = inp s;
        let maxlen = nc_getstr_limit i0 n;
        let (r0, buf) = get_tty_mode i0;
        let i1 = snd (raw (snd (noecho (snd (nl i0)))));
        let s1 = s\<lparr>inp := i1\<rparr>;
        W \<leftarrow> windows s1 w;
        touched \<leftarrow> is_wintouched w s1;
        s2 \<leftarrow> (if touched \<or> has_flag (flags W) F_HASMOVED then do { (r, t) \<leftarrow> wrefresh du w s1; Some t } else Some s1);
        ((ch, str), s3) \<leftarrow> line_loop du w cap maxlen (echo_on i0) (erasechar i1) (killchar i1) (cury W) (curx W) [] s2;
        s4 \<leftarrow> modw w (\<lambda>V. V\<lparr>curx := 0, flags := flags V AND NOT F_WRAPPED,
                              cury := (if cury V < maxy V then cury V + 1 else cury V)\<rparr>) s3;
        (r5, s5) \<leftarrow> wrefresh du w s4;
        let i6 = (inp s5)\<lparr>nl_on := nl_on i0, echo_on := echo_on i0, raw_on := raw_on i0,
                           cbreak_mode := (if cbreak_mode i0 \<noteq> 0 then 1 else 0)\<rparr>;
        let s6 = s5\<lparr>inp := snd (set_tty_mode buf i6)\<rparr>;
        if length str < cap then Some (if ch = ERR \<or> ch = KEY_RESIZE then ch else OK, str, s6) else None })"

definition wgetch :: "updater \<Rightarrow> nat \<Rightarrow> nc \<Rightarrow> (int \<times> nc) option" where
  "wgetch du w = wgetch_with (wgetnstr du w) du w"

end
