(* ===== verification/WinLines.thy ===== *)
theory WinLines
  imports WinInput
begin

text \<open>
  What \<open>wgetnstr\<close> makes of the keys that are typed: the line editor \<open>edit_line\<close>, a function on lists,
  and its equivalence with \<open>wgetnstr\<close> when the echo is off; the sizes of the arrays; and what
  \<open>wgetnstr\<close> does to the modes of the terminal.
\<close>

section \<open>Refreshing leaves the input side alone\<close>

definition opts :: "window \<Rightarrow> bool \<times> bool \<times> int" where
  "opts W = (use_keypad W, notimeout W, delay W)"

definition calm :: "nc \<Rightarrow> nc \<Rightarrow> bool" where
  "calm s t \<longleftrightarrow> inp t = inp s \<and> (\<forall>w. map_option opts (windows t w) = map_option opts (windows s w))"

lemma calm_refl [simp]: "calm s s"
  by (simp add: calm_def)

lemma calm_trans: "calm s t \<Longrightarrow> calm t u \<Longrightarrow> calm s u"
  by (simp add: calm_def)

lemma calm_set_win: "windows s w = Some W \<Longrightarrow> opts V = opts W \<Longrightarrow> calm s (set_win w V s)"
  by (simp add: calm_def set_win_def)

lemma calm_modl: "modl w y f s = Some t \<Longrightarrow> calm s t"
  by (auto simp: modl_def bind_eq_Some_conv opts_def intro!: calm_set_win)

lemma calm_modw: "modw w f s = Some t \<Longrightarrow> (\<And>W. opts (f W) = opts W) \<Longrightarrow> calm s t"
  by (auto simp: modw_def bind_eq_Some_conv intro!: calm_set_win)

lemma calm_poke: "poke p x c s = Some t \<Longrightarrow> calm s t"
  by (auto simp: poke_def bind_eq_Some_conv calm_def split: if_splits)

lemma calm_ofold: "ofold f xs s = Some t \<Longrightarrow> (\<And>x s t. f x s = Some t \<Longrightarrow> calm s t) \<Longrightarrow> calm s t"
proof (induction xs arbitrary: s)
  case Nil
  then show ?case by simp
next
  case (Cons x xs)
  then obtain u where "f x s = Some u" "ofold f xs u = Some t" by (auto simp: bind_eq_Some_conv)
  then show ?case using Cons calm_trans by blast
qed

lemma calm_syncdown_line: "syncdown_line w y s = Some t \<Longrightarrow> calm s t"
  by (auto simp: syncdown_line_def bind_eq_Some_conv Let_def dest: calm_modl split: if_splits)

text \<open>If an operation returns, it was calm: the rules for the operators of the model.\<close>

definition fine :: "'a option \<Rightarrow> ('a \<Rightarrow> bool) \<Rightarrow> bool" where
  "fine m Q \<longleftrightarrow> (\<forall>x. m = Some x \<longrightarrow> Q x)"

lemma fine_simps [simp]: "fine None Q" "fine (Some x) Q \<longleftrightarrow> Q x"
  by (simp_all add: fine_def)

lemma fine_bindI: "fine m P \<Longrightarrow> (\<And>x. P x \<Longrightarrow> fine (f x) Q) \<Longrightarrow> fine (Option.bind m f) Q"
  by (auto simp: fine_def bind_eq_Some_conv)

lemma fine_get: "(\<And>x. fine (f x) Q) \<Longrightarrow> fine (Option.bind m f) Q"
  by (auto simp: fine_def bind_eq_Some_conv)

lemma fine_modw: "calm s0 s \<Longrightarrow> (\<And>W. opts (f W) = opts W) \<Longrightarrow> fine (modw w f s) (calm s0)"
  unfolding fine_def by (meson calm_modw calm_trans)

lemma fine_modl: "calm s0 s \<Longrightarrow> fine (modl w y f s) (calm s0)"
  by (auto simp: fine_def intro: calm_trans calm_modl)

lemma fine_poke: "calm s0 s \<Longrightarrow> fine (poke p x c s) (calm s0)"
  by (auto simp: fine_def intro: calm_trans calm_poke)

lemma fine_ofold: "calm s0 s \<Longrightarrow> (\<And>x s. calm s0 s \<Longrightarrow> fine (f x s) (calm s0)) \<Longrightarrow> fine (ofold f xs s) (calm s0)"
proof (induction xs arbitrary: s)
  case (Cons x xs)
  have "fine (f x s) (calm s0)" using Cons.prems by blast
  then show ?case using Cons.IH Cons.prems(2) by (simp add: fine_bindI)
qed simp

lemma fine_if: "(b \<Longrightarrow> fine m Q) \<Longrightarrow> (\<not> b \<Longrightarrow> fine n Q) \<Longrightarrow> fine (if b then m else n) Q"
  by simp

lemma fine_if_bind:
  "(b \<Longrightarrow> fine (Option.bind m f) Q) \<Longrightarrow> (\<not> b \<Longrightarrow> fine (Option.bind n f) Q) \<Longrightarrow> fine (Option.bind (if b then m else n) f) Q"
  by simp

lemma fine_Some_bind: "fine (f x) Q \<Longrightarrow> fine (Option.bind (Some x) f) Q"
  by simp

lemma fine_assoc: "fine (Option.bind m (\<lambda>x. Option.bind (f x) g)) Q \<Longrightarrow> fine (Option.bind (Option.bind m f) g) Q"
  by simp

lemmas fine_intros = fine_if fine_if_bind fine_Some_bind fine_assoc
  fine_bindI [OF fine_modw] fine_bindI [OF fine_modl] fine_bindI [OF fine_poke] fine_modl fine_modw fine_poke
  fine_get [where m = "windows _ _"] fine_get [where m = "ldat_at _ _"] fine_get [where m = "peek _ _ _"]

lemma opts_simps [simp]:
  "opts (W\<lparr>flags := a\<rparr>) = opts W" "opts (W\<lparr>clearf := b\<rparr>) = opts W" "opts (W\<lparr>bkgd := c, attrs := d\<rparr>) = opts W"
  "opts (W\<lparr>cury := e, curx := g\<rparr>) = opts W" "opts (W\<lparr>leaveok := h\<rparr>) = opts W"
  by (simp_all add: opts_def)

lemma fine_refresh_cell: "calm s0 s \<Longrightarrow> fine (refresh_cell w a b c x s) (calm s0)"
  unfolding refresh_cell_def by (intro fine_intros) simp_all

lemma fine_refresh_row: "calm s0 s \<Longrightarrow> fine (refresh_row w a b c x s) (calm s0)"
  unfolding refresh_row_def Let_def by (intro fine_intros fine_bindI [OF fine_ofold] fine_refresh_cell) simp_all

lemma fine_syncdown_line: "calm s0 s \<Longrightarrow> fine (syncdown_line w y s) (calm s0)"
  unfolding syncdown_line_def Let_def by (intro fine_intros) simp_all

lemma fine_wsyncdown: "calm s0 s \<Longrightarrow> fine (wsyncdown_fuel n w s) (calm s0)"
proof (induction n arbitrary: w s)
  case (Suc n)
  have "fine (wsyncdown_fuel n v s) (calm s0)" for v by (rule Suc.IH [OF Suc.prems])
  then show ?case using Suc.prems
    by (auto intro!: fine_intros fine_bindI [of "wsyncdown_fuel n _ s" "calm s0"] fine_ofold fine_syncdown_line)
qed simp

lemma fine_wnoutrefresh: "calm s0 s \<Longrightarrow> fine (wnoutrefresh w s) (\<lambda>p. calm s0 (snd p))"
  unfolding wnoutrefresh_def wsyncdown_def Let_def
  by (intro fine_intros fine_bindI [OF fine_wsyncdown] fine_bindI [OF fine_ofold] fine_refresh_row) simp_all

definition du_calm :: "updater \<Rightarrow> bool" where
  "du_calm du \<longleftrightarrow> (\<forall>s. fine (du s) (\<lambda>p. calm s (snd p)))"

lemma fine_du: "du_calm du \<Longrightarrow> calm s0 s \<Longrightarrow> fine (du s) (\<lambda>p. calm s0 (snd p))"
  by (auto simp: du_calm_def fine_def intro: calm_trans)

lemma fine_wrefresh:
  assumes "du_calm du" and "calm s0 s"
  shows "fine (wrefresh du w s) (\<lambda>p. calm s0 (snd p))"
proof -
  note du = fine_du [OF assms(1)]
  show ?thesis unfolding wrefresh_def split_beta using assms(2)
    by (intro fine_intros fine_bindI [OF fine_wnoutrefresh] fine_bindI [OF du] du) simp_all
qed

section \<open>Reading one key\<close>

lemma inv_inp [simp]: "inv (s\<lparr>inp := i\<rparr>) = inv s"
  by (simp add: inv_def win_ok_def row_ok_def in_parent_def)

lemma immediate_inp [simp]: "immediate (s\<lparr>inp := i\<rparr>) = immediate s"
  by (rule ext) (simp add: immediate_def)

lemma steady_inp [simp]: "steady s0 (s\<lparr>inp := i\<rparr>) = steady s0 s" "steady (s\<lparr>inp := i\<rparr>) t = steady s t"
  by (simp_all add: steady_def shape_def)

lemma wintouched_total: "inv s \<Longrightarrow> windows s w = Some W \<Longrightarrow> \<exists>b. is_wintouched w s = Some b"
  using invD(1,2) [of s w W] by (auto simp: is_wintouched_def win_ok_def)

lemma recur_wrefresh_ok:
  assumes "du_ok du" and "du_calm du" and "steady s0 s" and "windows s w = Some W" and "parent W = 0" and "w \<noteq> newscr s"
  shows "\<exists>t. recur_wrefresh du w s = Some t \<and> steady s0 t \<and> calm s t"
proof -
  obtain b where b: "is_wintouched w s = Some b" using wintouched_total [OF steadyD(1) [OF assms(3)] assms(4)] by blast
  obtain r t where t: "wrefresh du w s = Some (r, t)" "steady s0 t" by (rule ok_pairE [OF ok_wrefresh [OF assms(1,3-6)]])
  have "calm s t" using fine_wrefresh [OF assms(2) calm_refl, of w s] t(1) by (simp add: fine_def)
  then show ?thesis using assms(3,4) b t by (simp add: recur_wrefresh_def)
qed

text \<open>A key without a mouse event.\<close>

lemma key_loop_plain:
  assumes "kgetch notime i = Some (ch, j)" and "ch \<noteq> KEY_MOUSE"
  shows "key_loop notime n i = Some ((ch, n), j)"
  using assms by (subst key_loop.simps) simp

lemma get_key_byte:
  assumes "with_room i" and "queue i = []" and "pending i = (g, c) # r" and "find_ch c (keytry i) = None"
    and "\<not> notimeout W" and "delay W < 0" and "cbreak_mode i \<le> 1"
  shows "\<exists>j. get_key W i = Some (uint c, j) \<and> with_room j \<and> queue j = [] \<and> queue_step (i\<lparr>pending := r\<rparr>) j"
proof (cases "use_keypad W")
  case True
  obtain j where j: "kgetch False i = Some (uint c, j)" "with_room j" "queue j = []" "queue_step (i\<lparr>pending := r\<rparr>) j"
    using kgetch_plain [OF assms(1-4)] by blast
  have "uint c \<noteq> KEY_MOUSE" using uint_byte(1) [of c] by (simp add: KEY_MOUSE_def KEY_MIN_def)
  from key_loop_plain [OF j(1) this] show ?thesis using True assms(5-7) j by (simp add: get_key_def)
next
  case False
  have f: "fifo_ok i" "0 \<le> fifotail i" "fifohead i = - 1"
    using assms(1,2) queue_empty_iff [of i] by (auto simp: with_room_def)
  have "qlen i = 0" using assms(2) by (metis length_queue list.size(3))
  then obtain j where j: "fifo_push i = Some (uint c, j)" "fifo_ok j" "queue j = [uint c]" "queue_step (i\<lparr>pending := r\<rparr>) j"
    "fifotail j = (if fifotail i \<ge> 136 then 0 else fifotail i + 1)"
    using push_ok [OF f(1,2) assms(3)] assms(2) by auto
  have "with_room j" using j(2,5) f(2) by (simp add: with_room_def)
  from fifo.pull_law [OF this j(3)] show ?thesis using False assms(5-7) f j
    by (auto simp: get_key_def intro: queue_step_trans)
qed

lemma kgetch_eof:
  assumes "with_room i" and "queue i = []" and "pending i = []"
  shows "\<exists>j. kgetch notime i = Some (ERR, j) \<and> fifo_ok j \<and> queue_step i j \<and> fifohead j = 0 \<and> fifopeek j = 0 \<and> fifotail j = 1
     \<and> queue j = [ERR]"
proof -
  have f: "fifo_ok i" "fifohead i = - 1" "fifotail i = 0" "length (fifo i) = 137"
    using assms(1,2) queue_empty_iff [of i] by (auto simp: with_room_def fifo_ok_def)
  let ?j = "i\<lparr>fifo := (fifo i)[0 := ERR], fifohead := 0, fifotail := 1, fifopeek := 0\<rparr>"
  have p: "fifo_push i = Some (ERR, ?j)"
    using f assms(3) by (cases i) (simp add: fifo_push_def read_byte_def fifo_put_def t_inc_def)
  have r: "\<not> raw_key_in_fifo i" "\<not> cooked_key_in_fifo i" using f by (simp_all add: raw_key_in_fifo_def cooked_key_in_fifo_def)
  have "kgetch notime i = Some (ERR, ?j)"
    using p r by (simp add: kgetch_def kgetch_loop.simps KEY_MIN_def)
  moreover have "fifo_ok ?j" using f by (simp add: fifo_ok_def)
  moreover have "queue ?j = [ERR]" using f(4) by (simp add: queue_def qlen_def slot_def)
  moreover have "queue_step i ?j" by (simp add: queue_step_def)
  ultimately show ?thesis by auto
qed

lemma get_key_eof:
  assumes "with_room i" and "queue i = []" and "pending i = []"
    and "\<not> notimeout W" and "delay W < 0" and "cbreak_mode i \<le> 1"
  shows "\<exists>j. get_key W i = Some (ERR, j) \<and> fifo_ok j \<and> queue_step i j"
proof (cases "use_keypad W")
  case True
  obtain j where j: "kgetch False i = Some (ERR, j)" "fifo_ok j" "queue_step i j" using kgetch_eof [OF assms(1-3)] by blast
  have "ERR \<noteq> KEY_MOUSE" by (simp add: ERR_def KEY_MOUSE_def)
  from key_loop_plain [OF j(1) this] show ?thesis using True assms(4-6) j by (simp add: get_key_def)
next
  case False
  have f: "fifo_ok i" "fifohead i = - 1" "fifotail i = 0" "length (fifo i) = 137"
    using assms(1,2) queue_empty_iff [of i] by (auto simp: with_room_def fifo_ok_def)
  let ?j = "i\<lparr>fifo := (fifo i)[0 := ERR], fifohead := 0, fifotail := 1, fifopeek := 0\<rparr>"
  have p: "fifo_push i = Some (ERR, ?j)"
    using f assms(3) by (cases i) (simp add: fifo_push_def read_byte_def fifo_put_def t_inc_def)
  have "fifo_ok ?j" "queue ?j = [ERR]" using f by (simp_all add: fifo_ok_def queue_def qlen_def slot_def)
  from pull_ok [OF this] obtain k where k: "fifo_pull ?j = Some (ERR, k)" "fifo_ok k" "queue_step ?j k" by blast
  have "queue_step i ?j" by (simp add: queue_step_def)
  then show ?thesis using False assms(4-6) f p k by (auto simp: get_key_def intro: queue_step_trans)
qed

text \<open>
  The states between two keys of a line: \<open>s0\<close> is the state after \<open>wgetnstr\<close> has set the modes.
\<close>

definition reading :: "nc \<Rightarrow> nat \<Rightarrow> nc \<Rightarrow> bool" where
  "reading s0 w s \<longleftrightarrow> steady s0 s \<and> map_option opts (windows s w) = map_option opts (windows s0 w)
     \<and> queue_step ((inp s0)\<lparr>pending := pending (inp s)\<rparr>) (inp s) \<and> with_room (inp s) \<and> queue (inp s) = []"

text \<open>Raw mode without echo, blocking reads, and a keypad that is as the window wants it.\<close>

definition line_mode :: "nc \<Rightarrow> nat \<Rightarrow> bool" where
  "line_mode s w \<longleftrightarrow> raw_on (inp s) \<and> nl_on (inp s) \<and> \<not> echo_on (inp s) \<and> use_meta (inp s) \<and> cbreak_mode (inp s) \<le> 1
     \<and> (\<exists>W. windows s w = Some W \<and> parent W = 0 \<and> w \<noteq> newscr s \<and> \<not> notimeout W \<and> delay W < 0
          \<and> use_keypad W = keypad_on (inp s))"

lemma reading_fields:
  assumes "reading s0 w s" and "line_mode s0 w"
  obtains W where "windows s w = Some W" "parent W = 0" "w \<noteq> newscr s" "w \<noteq> 0" "\<not> notimeout W" "delay W < 0"
    "use_keypad W = keypad_on (inp s)" "raw_on (inp s)" "nl_on (inp s)" "\<not> echo_on (inp s)" "use_meta (inp s)"
    "cbreak_mode (inp s) \<le> 1" "keytry (inp s) = keytry (inp s0)" "fifohead (inp s) = - 1" "\<not> cooked_key_in_fifo (inp s)"
proof -
  obtain W0 where W0: "windows s0 w = Some W0" "parent W0 = 0" "w \<noteq> newscr s0" "\<not> notimeout W0" "delay W0 < 0"
    "use_keypad W0 = keypad_on (inp s0)" using assms(2) by (auto simp: line_mode_def)
  have st: "steady s0 s" and o: "map_option opts (windows s w) = map_option opts (windows s0 w)"
    and q: "queue_step ((inp s0)\<lparr>pending := pending (inp s)\<rparr>) (inp s)" and r: "with_room (inp s)" "queue (inp s) = []"
    using assms(1) by (simp_all add: reading_def)
  obtain W where W: "windows s w = Some W" "geom W = geom W0" using shape_winE [OF steadyD(2) [OF st] W0(1)] .
  have "opts W = opts W0" using o W(1) W0(1) by simp
  moreover have h: "fifohead (inp s) = - 1" using queue_empty_iff [of "inp s"] r by (simp add: with_room_def)
  moreover have "\<not> cooked_key_in_fifo (inp s)" using h by (simp add: cooked_key_in_fifo_def)
  moreover have "newscr s = newscr s0" using shape_consts [OF steadyD(2) [OF st]] by simp
  moreover have "w \<noteq> 0" using invD(2) [OF steadyD(1) [OF st] W(1)] .
  ultimately show ?thesis
    using that [OF W(1)] geomD [OF W(2)] W0 assms(2) queue_stepD [OF q] by (simp add: line_mode_def opts_def)
qed

lemma wgetch_raw_byte:
  assumes "du_ok du" and "du_calm du" and "line_mode s0 w" and "reading s0 w s"
    and "pending (inp s) = (g, c) # r" and "find_ch c (keytry (inp s0)) = None"
  shows "\<exists>t. wgetch_raw du w s = Some (if c = 13 then 10 else uint c, t) \<and> reading s0 w t \<and> pending (inp t) = r"
proof -
  obtain W where W: "windows s w = Some W" "parent W = 0" "w \<noteq> newscr s" "w \<noteq> 0" "\<not> notimeout W" "delay W < 0"
    "use_keypad W = keypad_on (inp s)" "raw_on (inp s)" "nl_on (inp s)" "\<not> echo_on (inp s)" "use_meta (inp s)"
    "cbreak_mode (inp s) \<le> 1" "keytry (inp s) = keytry (inp s0)" "fifohead (inp s) = - 1" "\<not> cooked_key_in_fifo (inp s)"
    by (rule reading_fields [OF assms(4,3)])
  have st: "steady s0 s" and r: "with_room (inp s)" "queue (inp s) = []" using assms(4) by (simp_all add: reading_def)
  obtain s2 where s2: "recur_wrefresh du w s = Some s2" "steady s0 s2" "calm s s2"
    using recur_wrefresh_ok [OF assms(1,2) st W(1-3)] by blast
  have i2: "inp s2 = inp s" and "map_option opts (windows s2 w) = Some (opts W)" using s2(3) W(1) by (simp_all add: calm_def)
  then obtain V where V: "windows s2 w = Some V" "opts V = opts W" by auto
  obtain j where j: "get_key V (inp s2) = Some (uint c, j)" "with_room j" "queue j = []" "queue_step ((inp s)\<lparr>pending := r\<rparr>) j"
    using get_key_byte [OF r assms(5), of V] W(5,6,12,13) V(2) assms(6) by (auto simp: i2 opts_def)
  define t where "t = s2\<lparr>inp := j\<rparr>"
  have ne: "uint c \<noteq> ERR" "(if c = 13 then 10 else uint c) \<noteq> ERR" using uint_byte(2) [of c] by (auto simp: ERR_def)
  have k: "final_key True j (uint c) = (if c = 13 then 10 else uint c)"
    using queue_stepD(5) [OF j(4)] W(9) by (auto simp: final_key_def Let_def word_uint_eq_iff)
  have e: "echo_key du w (uint c) t = Some t"
    using V(1) queue_stepD(4) [OF j(4)] W(10) by (simp add: echo_key_def t_def Let_def)
  have "nc_wgetch (\<lambda>_ _ _. None) du w True s = Some ((key_result (if c = 13 then 10 else uint c), if c = 13 then 10 else uint c), t)"
    using W(1,4,7,8,15) s2(1) V(1) j(1) ne(1) e k
    by (simp add: nc_wgetch_def on_input_def Let_def t_def)
  moreover have "key_result (if c = 13 then 10 else uint c) \<noteq> ERR"
    by (simp add: key_result_def KEY_CODE_YES_def ERR_def OK_def)
  ultimately have "wgetch_raw du w s = Some (if c = 13 then 10 else uint c, t)"
    using W(11) by (simp add: wgetch_raw_def wgetch_with_def)
  moreover have "queue_step ((inp s0)\<lparr>pending := r\<rparr>) ((inp s)\<lparr>pending := r\<rparr>)"
    using assms(4) by (cases "inp s0"; cases "inp s") (simp add: reading_def queue_step_def)
  then have "queue_step ((inp s0)\<lparr>pending := pending j\<rparr>) j"
    using j(4) queue_stepD(1) [OF j(4)] by (auto intro: queue_step_trans)
  then have "reading s0 w t"
    using s2(2) j(2,3) V assms(4) W(1) by (auto simp: reading_def t_def)
  moreover have "pending (inp t) = r" using queue_stepD(1) [OF j(4)] by (simp add: t_def)
  ultimately show ?thesis by blast
qed

lemma wgetch_raw_eof:
  assumes "du_ok du" and "du_calm du" and "line_mode s0 w" and "reading s0 w s" and "pending (inp s) = []"
  shows "\<exists>t. wgetch_raw du w s = Some (ERR, t) \<and> steady s0 t \<and> pending (inp t) = [] \<and> queue_step (inp s) (inp t)"
proof -
  obtain W where W: "windows s w = Some W" "parent W = 0" "w \<noteq> newscr s" "w \<noteq> 0" "\<not> notimeout W" "delay W < 0"
    "use_keypad W = keypad_on (inp s)" "raw_on (inp s)" "nl_on (inp s)" "\<not> echo_on (inp s)" "use_meta (inp s)"
    "cbreak_mode (inp s) \<le> 1" "keytry (inp s) = keytry (inp s0)" "fifohead (inp s) = - 1" "\<not> cooked_key_in_fifo (inp s)"
    by (rule reading_fields [OF assms(4,3)])
  have st: "steady s0 s" and r: "with_room (inp s)" "queue (inp s) = []" using assms(4) by (simp_all add: reading_def)
  obtain s2 where s2: "recur_wrefresh du w s = Some s2" "steady s0 s2" "calm s s2"
    using recur_wrefresh_ok [OF assms(1,2) st W(1-3)] by blast
  have i2: "inp s2 = inp s" and "map_option opts (windows s2 w) = Some (opts W)" using s2(3) W(1) by (simp_all add: calm_def)
  then obtain V where V: "windows s2 w = Some V" "opts V = opts W" by auto
  obtain j where j: "get_key V (inp s2) = Some (ERR, j)" "queue_step (inp s) j"
    using get_key_eof [OF r assms(5), of V] W(5,6,12) V(2) by (auto simp: i2 opts_def)
  have "wgetch_raw du w s = Some (ERR, s2\<lparr>inp := j\<rparr>)"
    using W(1,4,7,8,15) s2(1) V(1) j(1) by (simp add: wgetch_raw_def wgetch_with_def nc_wgetch_def on_input_def Let_def)
  then show ?thesis using s2(2) j(2) queue_stepD(1) [OF j(2)] assms(5) by simp
qed

section \<open>The line editor\<close>

text \<open>
  What is typed, as bytes, and the line so far; the result is the return code, the line and the
  bytes that are left. A carriage return counts as a newline.
\<close>

fun edit_line :: "int \<Rightarrow> int \<Rightarrow> int \<Rightarrow> byte list \<Rightarrow> int list \<Rightarrow> int \<times> int list \<times> byte list" where
  "edit_line erasec killc mx [] buf = (ERR, buf, [])"
| "edit_line erasec killc mx (c # cs) buf =
     (let k = (if c = 13 then 10 else uint c) in
      if k = 10 then (OK, buf, cs)
      else if k = erasec then edit_line erasec killc mx cs (butlast buf)
      else if k = killc then edit_line erasec killc mx cs []
      else if int (length buf) \<ge> mx then edit_line erasec killc mx cs buf
      else edit_line erasec killc mx cs (buf @ [to_char k]))"

lemma edit_line_length:
  "0 \<le> mx \<Longrightarrow> int (length buf) \<le> mx \<Longrightarrow> int (length (fst (snd (edit_line e k mx cs buf)))) \<le> mx"
  by (induction cs arbitrary: buf) (auto simp: Let_def)

lemma wipe_out_quiet: "wipe_out du w y x buf False s = Some (butlast buf, s)"
  by (simp add: wipe_out_def)

lemma wipe_all_quiet: "length buf \<le> n \<Longrightarrow> wipe_all n du w y x buf False s = Some ([], s)"
  by (induction n arbitrary: buf) (simp_all add: wipe_out_quiet)

text \<open>The final state of the loop.\<close>

definition read_all :: "nc \<Rightarrow> int \<Rightarrow> byte list \<Rightarrow> nc \<Rightarrow> bool" where
  "read_all s0 ch rest t \<longleftrightarrow> (ch \<noteq> ERR \<longrightarrow> with_room (inp t) \<and> queue (inp t) = []) \<and> steady s0 t \<and> map snd (pending (inp t)) = rest
     \<and> queue_step ((inp s0)\<lparr>pending := pending (inp t)\<rparr>) (inp t)"

lemma line_loop_edits:
  assumes "du_ok du" and "du_calm du" and "line_mode s0 w"
    and "0 \<le> maxlen" and "maxlen \<le> int cap"
  shows "reading s0 w s \<Longrightarrow> int (length buf) \<le> maxlen \<Longrightarrow> \<forall>(g, c) \<in> set (pending (inp s)). find_ch c (keytry (inp s0)) = None \<Longrightarrow>
    edit_line erasec killc maxlen (map snd (pending (inp s))) buf = (rc, str, rest) \<Longrightarrow>
    \<exists>ch t. line_loop du w cap maxlen False erasec killc y x buf s = Some ((ch, str), t) \<and> read_all s0 ch rest t
      \<and> (if ch = ERR \<or> ch = KEY_RESIZE then ch else OK) = rc"
proof (induction "pending (inp s)" arbitrary: s buf)
  case Nil
  obtain t where t: "wgetch_raw du w s = Some (ERR, t)" "steady s0 t" "pending (inp t) = []" "queue_step (inp s) (inp t)"
    using wgetch_raw_eof [OF assms(1-3) Nil(2) Nil(1) [symmetric]] by blast
  have "line_loop du w cap maxlen False erasec killc y x buf s = Some ((ERR, buf), t)"
    using t(1) by (subst line_loop.simps) (simp add: line_step_def)
  moreover have "queue_step ((inp s0)\<lparr>pending := pending (inp t)\<rparr>) (inp t)"
    using Nil(1,2) t(3,4) by (auto simp: reading_def intro: queue_step_trans)
  ultimately show ?case using t(2,3) Nil(1,5) by (simp add: read_all_def)
next
  case (Cons gc r)
  obtain g c where gc: "gc = (g, c)" by (cases gc)
  define k where "k = (if c = 13 then 10 else uint c)"
  have fc: "find_ch c (keytry (inp s0)) = None" using Cons(2,5) gc by (auto simp flip: Cons(2))
  obtain s1 where s1: "wgetch_raw du w s = Some (k, s1)" "reading s0 w s1" "pending (inp s1) = r"
    using wgetch_raw_byte [OF assms(1-3) Cons(3) _ fc, of g r] Cons(2) gc unfolding k_def by auto
  have plain: "\<forall>(g, c) \<in> set (pending (inp s1)). find_ch c (keytry (inp s0)) = None"
    using Cons(5) s1(3) by (auto simp flip: Cons(2))
  have ks: "k \<noteq> ERR" "k < KEY_MIN" "0 \<le> k" "k \<noteq> 13"
    using uint_byte [of c] by (auto simp: k_def KEY_MIN_def ERR_def word_uint_eq_iff)
  have kk: "k \<noteq> KEY_DOWN" "k \<noteq> KEY_ENTER" "k \<noteq> KEY_RESIZE" "k \<noteq> KEY_LEFT" "k \<noteq> KEY_BACKSPACE"
    using ks(2) by (auto simp: KEY_MIN_def KEY_DOWN_def KEY_ENTER_def KEY_RESIZE_def KEY_LEFT_def KEY_BACKSPACE_def)
  have e: "edit_line erasec killc maxlen (c # map snd r) buf = (rc, str, rest)" using Cons(6) gc by (simp flip: Cons(2))
  have E: "edit_line erasec killc maxlen (c # map snd r) buf =
      (if k = 10 then (OK, buf, map snd r)
       else if k = erasec then edit_line erasec killc maxlen (map snd r) (butlast buf)
       else if k = killc then edit_line erasec killc maxlen (map snd r) []
       else if int (length buf) \<ge> maxlen then edit_line erasec killc maxlen (map snd r) buf
       else edit_line erasec killc maxlen (map snd r) (buf @ [to_char k]))"
    by (simp add: k_def Let_def)
  have go: "\<exists>ch t. line_loop du w cap maxlen False erasec killc y x b s1 = Some ((ch, str), t) \<and> read_all s0 ch rest t
      \<and> (if ch = ERR \<or> ch = KEY_RESIZE then ch else OK) = rc"
    if "int (length b) \<le> maxlen" "edit_line erasec killc maxlen (map snd r) b = (rc, str, rest)" for b
    using Cons(1) [OF s1(3) [symmetric] s1(2) that(1) plain] that(2) s1(3) by simp
  show ?case
  proof (cases "k = 10")
    case True
    obtain W where W: "windows s1 w = Some W" by (rule reading_fields [OF s1(2) assms(3)])
    have "line_loop du w cap maxlen False erasec killc y x buf s = Some ((10, buf), s1)"
      using s1(1) True W ks(1) by (subst line_loop.simps) (simp add: line_step_def)
    moreover have "read_all s0 10 (map snd r) s1" using s1(2,3) by (simp add: read_all_def reading_def)
    ultimately show ?thesis using E e True by (auto simp: ERR_def KEY_RESIZE_def)
  next
    case k10: False
    define b where "b = (if k = erasec then butlast buf else if k = killc then []
       else if int (length buf) \<ge> maxlen then buf else buf @ [to_char k])"
    have "line_step du w cap maxlen False erasec killc y x buf s = Some ((False, k, y, b), s1)"
      using s1(1) k10 ks kk Cons(4) assms(5)
      by (auto simp: line_step_def b_def wipe_out_quiet wipe_all_quiet)
    then have "line_loop du w cap maxlen False erasec killc y x buf s = line_loop du w cap maxlen False erasec killc y x b s1"
      by (subst line_loop.simps) simp
    moreover have "int (length b) \<le> maxlen" using Cons(4) assms(4) by (auto simp: b_def)
    moreover have "edit_line erasec killc maxlen (map snd r) b = (rc, str, rest)"
      using e E k10 by (auto simp: b_def split: if_splits)
    ultimately show ?thesis using go by simp
  qed
qed

section \<open>Reading a line\<close>

definition modes_set :: "input \<Rightarrow> input" where
  "modes_set i = snd (raw (snd (noecho (snd (nl i)))))"

lemma modes_set_eq:
  assumes "kernel_tty i = Some k"
  obtains b where "modes_set i = i\<lparr>nl_on := True, echo_on := False, kernel_tty := Some b, raw_on := True, cbreak_mode := 1, nttyb := b\<rparr>"
    and "c_lflag b = c_lflag (nttyb i) AND NOT (ICANON OR ISIG OR IEXTEN)"
  using assms by (auto simp: modes_set_def raw_def noecho_def nl_def set_tty_mode_def Let_def)

lemma queue_modes:
  "queue (i\<lparr>nl_on := a, echo_on := b, kernel_tty := c, raw_on := d, cbreak_mode := e, nttyb := f\<rparr>) = queue i"
  "with_room (i\<lparr>nl_on := a, echo_on := b, kernel_tty := c, raw_on := d, cbreak_mode := e, nttyb := f\<rparr>) = with_room i"
  by (simp_all add: queue_def qlen_def with_room_def fifo_ok_def)

lemma queue_same:
  "fifo j = fifo i \<Longrightarrow> fifohead j = fifohead i \<Longrightarrow> fifotail j = fifotail i \<Longrightarrow> fifopeek j = fifopeek i \<Longrightarrow>
     queue j = queue i \<and> with_room j = with_room i"
  by (simp add: queue_def qlen_def with_room_def fifo_ok_def)

text \<open>The end of \<open>wgetnstr\<close>: the cursor, the refresh and the modes.\<close>

lemma line_end:
  assumes "du_ok du" and "du_calm du" and "steady s0 s" and "windows s w = Some W" and "parent W = 0" and "w \<noteq> newscr s"
  shows "\<exists>s4 r t. modw w (\<lambda>V. V\<lparr>curx := 0, flags := flags V AND NOT F_WRAPPED,
      cury := (if cury V < maxy V then cury V + 1 else cury V)\<rparr>) s = Some s4 \<and> wrefresh du w s4 = Some (r, t)
      \<and> steady s0 t \<and> inp t = inp s"
proof -
  let ?f = "\<lambda>V. V\<lparr>curx := 0, flags := flags V AND NOT F_WRAPPED, cury := (if cury V < maxy V then cury V + 1 else cury V)\<rparr>"
  have g: "geom (?f W) = geom W" "immed (?f W) = immed W" by (simp_all add: geom_def)
  have "win_ok s w (?f W)" if "win_ok s w W" using that by (auto simp: win_ok_def in_parent_def)
  from ok_modw_steadyI [where f = ?f, OF assms(3,4) g(1) this g(2)] obtain s4 where
    s4: "modw w ?f s = Some s4" "steady s0 s4" "s4 = set_win w (?f W) s" by blast
  have w4: "windows s4 w = Some (?f W)" "newscr s4 = newscr s" "inp s4 = inp s" by (simp_all add: s4(3) set_win_def)
  obtain r t where t: "wrefresh du w s4 = Some (r, t)" "steady s0 t"
    by (rule ok_pairE [OF ok_wrefresh [OF assms(1) s4(2) w4(1)]]) (use assms(5,6) w4(2) in auto)
  have "calm s4 t" using fine_wrefresh [OF assms(2) calm_refl, of w s4] t(1) by (simp add: fine_def)
  then show ?thesis using s4(1) t w4(3) by (auto simp: calm_def)
qed

text \<open>The outcome, also when the line does not fit into the array: that is a fault.\<close>

lemma wgetnstr_outcome:
  assumes "du_ok du" and "du_calm du" and "inv s" and "windows s w = Some W" and "parent W = 0" and "w \<noteq> newscr s"
    and "\<not> notimeout W" and "delay W < 0" and "use_keypad W = keypad_on (inp s)"
    and "\<not> echo_on (inp s)" and "use_meta (inp s)" and "kernel_tty (inp s) = Some k"
    and "with_room (inp s)" and "queue (inp s) = []"
    and "\<forall>(g, c) \<in> set (pending (inp s)). find_ch c (keytry (inp s)) = None"
    and "0 < getstr_limit (inp s)" and "nc_getstr_limit (inp s) n \<le> int cap"
    and "edit_line (erasechar (inp s)) (killchar (inp s)) (nc_getstr_limit (inp s) n) (map snd (pending (inp s))) [] = (rc, str, rest)"
  shows "\<exists>t. wgetnstr du w cap n s = (if length str < cap then Some (rc, str, t) else None) \<and> inv t \<and> steady s t \<and> shape t = shape s
    \<and> map snd (pending (inp t)) = rest \<and> kernel_tty (inp t) = Some k \<and> echo_on (inp t) = echo_on (inp s)
    \<and> nl_on (inp t) = nl_on (inp s) \<and> raw_on (inp t) = raw_on (inp s)
    \<and> cbreak_mode (inp t) = (if cbreak_mode (inp s) = 0 then 0 else 1)
    \<and> c_lflag (nttyb (inp t)) = c_lflag (nttyb (inp s)) AND NOT (ICANON OR ISIG OR IEXTEN)
    \<and> (rc \<noteq> ERR \<longrightarrow> with_room (inp t) \<and> queue (inp t) = [])"
proof -
  obtain b where i1: "modes_set (inp s) = (inp s)\<lparr>nl_on := True, echo_on := False, kernel_tty := Some b, raw_on := True,
      cbreak_mode := 1, nttyb := b\<rparr>" "c_lflag b = c_lflag (nttyb (inp s)) AND NOT (ICANON OR ISIG OR IEXTEN)"
    by (rule modes_set_eq [OF assms(12)])
  define s1 where "s1 = s\<lparr>inp := modes_set (inp s)\<rparr>"
  have w1: "windows s1 w = Some W" "newscr s1 = newscr s" "steady s1 s1" "steady s s1"
    using assms(3,4) by (simp_all add: s1_def steady_refl)
  have n: "inp s1 = modes_set (inp s)" by (simp add: s1_def)
  obtain tb where tb: "is_wintouched w s1 = Some tb" using wintouched_total [OF steadyD(1) [OF w1(3)] w1(1)] by blast
  have "\<exists>s2. (if tb \<or> has_flag (flags W) F_HASMOVED then do { (r, t) \<leftarrow> wrefresh du w s1; Some t } else Some s1) = Some s2
     \<and> steady s1 s2 \<and> calm s1 s2"
  proof (cases "tb \<or> has_flag (flags W) F_HASMOVED")
    case True
    obtain r t where t: "wrefresh du w s1 = Some (r, t)" "steady s1 t"
      by (rule ok_pairE [OF ok_wrefresh [OF assms(1) w1(3,1)]]) (use assms(5,6) w1(2) in auto)
    have "calm s1 t" using fine_wrefresh [OF assms(2) calm_refl, of w s1] t(1) by (simp add: fine_def)
    then show ?thesis using True t by simp
  qed (use w1(3) in simp)
  then obtain s2 where s2: "(if tb \<or> has_flag (flags W) F_HASMOVED then do { (r, t) \<leftarrow> wrefresh du w s1; Some t } else Some s1) = Some s2"
    "steady s1 s2" "calm s1 s2" by blast
  have lm: "line_mode s1 w"
    using assms(5-9,11) w1(1,2) by (auto simp: line_mode_def n i1(1))
  have i2: "inp s2 = modes_set (inp s)" using s2(3) n by (simp add: calm_def)
  have rd: "reading s1 w s2"
    using s2(2,3) assms(13,14) by (simp add: reading_def calm_def n i1(1) queue_modes queue_step_def)
  have pl: "\<forall>(g, c) \<in> set (pending (inp s2)). find_ch c (keytry (inp s1)) = None"
    using assms(15) by (simp add: i2 n i1(1))
  have ml: "0 \<le> nc_getstr_limit (inp s) n" using assms(16) by (simp add: nc_getstr_limit_def)
  have ed: "edit_line (erasechar (modes_set (inp s))) (killchar (modes_set (inp s))) (nc_getstr_limit (inp s) n)
      (map snd (pending (inp s2))) [] = (rc, str, rest)"
    using assms(18) by (simp add: i2 i1(1) erasechar_def killchar_def)
  obtain ch s3 where s3: "line_loop du w cap (nc_getstr_limit (inp s) n) False (erasechar (modes_set (inp s)))
      (killchar (modes_set (inp s))) (cury W) (curx W) [] s2 = Some ((ch, str), s3)" "read_all s1 ch rest s3"
      "(if ch = ERR \<or> ch = KEY_RESIZE then ch else OK) = rc"
    using line_loop_edits [where y = "cury W" and x = "curx W", OF assms(1,2) lm ml assms(17) rd _ pl ed] ml by auto
  have st3: "steady s1 s3" "queue_step ((inp s1)\<lparr>pending := pending (inp s3)\<rparr>) (inp s3)" "map snd (pending (inp s3)) = rest"
    "ch \<noteq> ERR \<Longrightarrow> with_room (inp s3) \<and> queue (inp s3) = []"
    using s3(2) by (simp_all add: read_all_def)
  obtain W3 where W3: "windows s3 w = Some W3" "geom W3 = geom W" using shape_winE [OF steadyD(2) [OF st3(1)] w1(1)] .
  have "parent W3 = 0" "w \<noteq> newscr s3" using geomD [OF W3(2)] assms(5,6) shape_consts [OF steadyD(2) [OF st3(1)]] w1(2) by simp_all
  from line_end [OF assms(1,2) st3(1) W3(1) this] obtain s4 r s5 where s4:
    "modw w (\<lambda>V. V\<lparr>curx := 0, flags := flags V AND NOT F_WRAPPED, cury := (if cury V < maxy V then cury V + 1 else cury V)\<rparr>) s3 = Some s4"
    "wrefresh du w s4 = Some (r, s5)" "steady s1 s5" "inp s5 = inp s3" by blast
  define i6 where "i6 = (inp s5)\<lparr>nl_on := nl_on (inp s), echo_on := echo_on (inp s), raw_on := raw_on (inp s),
      cbreak_mode := (if cbreak_mode (inp s) \<noteq> 0 then 1 else 0)\<rparr>"
  have k6: "kernel_tty i6 = Some b" "nttyb i6 = b"
    using queue_stepD(13,14) [OF st3(2)] s4(4) by (simp_all add: i6_def n i1(1))
  define t where "t = s5\<lparr>inp := snd (set_tty_mode k i6)\<rparr>"
  have "wgetnstr du w cap n s = (if length str < cap then Some (rc, str, t) else None)"
    using assms(4,10,12) invD(2) [OF assms(3,4)] tb [unfolded s1_def modes_set_def] s2(1) [unfolded s1_def modes_set_def]
      s3(1) [unfolded modes_set_def] s3(3) s4(1,2)
    by (simp add: wgetnstr_def get_tty_mode_def Let_def i6_def t_def del: bind_assoc cong: if_cong split del: if_split)
  moreover have "inp t = i6\<lparr>kernel_tty := Some k\<rparr>" by (simp add: t_def set_tty_mode_def k6)
  moreover have "steady s t" using s4(3) by (simp add: t_def s1_def)
  moreover from this have "inv t" "shape t = shape s" by (simp_all add: steady_def)
  moreover have "with_room (inp t) \<and> queue (inp t) = []" if "rc \<noteq> ERR"
  proof -
    have "ch \<noteq> ERR" using s3(3) that by (auto split: if_splits)
    moreover have "queue (inp t) = queue (inp s3) \<and> with_room (inp t) = with_room (inp s3)"
      by (rule queue_same) (simp_all add: \<open>inp t = i6\<lparr>kernel_tty := Some k\<rparr>\<close> i6_def s4(4))
    ultimately show ?thesis using st3(4) by simp
  qed
  ultimately show ?thesis using st3(3) s4(4) k6(2) i1(2) by (intro exI [of _ t]) (simp add: i6_def)
qed

text \<open>
  A window on which lines can be read with blocking reads, on a terminal without echo, when no
  byte that is to come starts a function key.
\<close>

definition line_ready :: "nat \<Rightarrow> nc \<Rightarrow> bool" where
  "line_ready w s \<longleftrightarrow> inv s \<and> w \<noteq> newscr s \<and> \<not> echo_on (inp s) \<and> use_meta (inp s) \<and> kernel_tty (inp s) \<noteq> None
     \<and> with_room (inp s) \<and> queue (inp s) = [] \<and> 0 < getstr_limit (inp s)
     \<and> (\<forall>(g, c) \<in> set (pending (inp s)). find_ch c (keytry (inp s)) = None)
     \<and> (\<exists>W. windows s w = Some W \<and> parent W = 0 \<and> \<not> notimeout W \<and> delay W < 0 \<and> use_keypad W = keypad_on (inp s))"

text \<open>The line editor with the characters and the limit of the terminal, on what is to come.\<close>

definition typed_line :: "nc \<Rightarrow> int \<Rightarrow> int \<times> int list \<times> byte list" where
  "typed_line s n = edit_line (erasechar (inp s)) (killchar (inp s)) (nc_getstr_limit (inp s) n) (map snd (pending (inp s))) []"

lemma wgetnstr_ready:
  assumes "du_ok du" and "du_calm du" and "line_ready w s" and "nc_getstr_limit (inp s) n \<le> int cap" and "typed_line s n = (rc, str, rest)"
  shows "\<exists>t. wgetnstr du w cap n s = (if length str < cap then Some (rc, str, t) else None) \<and> inv t \<and> steady s t \<and> shape t = shape s
    \<and> map snd (pending (inp t)) = rest \<and> kernel_tty (inp t) = kernel_tty (inp s) \<and> echo_on (inp t) = echo_on (inp s)
    \<and> nl_on (inp t) = nl_on (inp s) \<and> raw_on (inp t) = raw_on (inp s)
    \<and> cbreak_mode (inp t) = (if cbreak_mode (inp s) = 0 then 0 else 1)
    \<and> c_lflag (nttyb (inp t)) = c_lflag (nttyb (inp s)) AND NOT (ICANON OR ISIG OR IEXTEN)
    \<and> (rc \<noteq> ERR \<longrightarrow> with_room (inp t) \<and> queue (inp t) = [])"
proof -
  obtain W k where W: "windows s w = Some W" "parent W = 0" "\<not> notimeout W" "delay W < 0" "use_keypad W = keypad_on (inp s)"
    "kernel_tty (inp s) = Some k" using assms(3) by (auto simp: line_ready_def)
  have r: "inv s" "w \<noteq> newscr s" "\<not> echo_on (inp s)" "use_meta (inp s)" "with_room (inp s)" "queue (inp s) = []"
    "\<forall>(g, c) \<in> set (pending (inp s)). find_ch c (keytry (inp s)) = None" "0 < getstr_limit (inp s)"
    using assms(3) by (simp_all add: line_ready_def)
  from wgetnstr_outcome [OF assms(1,2) r(1) W(1,2) r(2) W(3-5) r(3,4) W(6) r(5-8) assms(4) assms(5) [unfolded typed_line_def]]
  show ?thesis using W(6) by simp
qed

text \<open>
  C13. With the echo off, \<open>wgetnstr\<close> is the line editor: from the bytes that the terminal delivers,
  in whatever rhythm, none of them the start of a function key, it makes the line that
  \<open>edit_line\<close> makes of them with the erase and kill characters of the terminal and the limit on
  the length, returns the same code, and leaves the same bytes unread. The line and its terminator
  fit into the caller's array. The attributes of the terminal and the flags for the echo, the newline
  mode and the raw mode are as before; half-delay mode has become plain cbreak mode, and curses' own
  copy of the attributes stays raw, without canonical input, signals and extended input.

  The window is one that waits for input without a limit (\<open>line_ready\<close>): not derived, no timeout, with
  nothing queued, and with room in the queue.
\<close>

theorem wgetnstr_edits:
  assumes "du_ok du" and "du_calm du" and "line_ready w s" and "nc_getstr_limit (inp s) n < int cap" and "typed_line s n = (rc, str, rest)"
  shows "\<exists>t. wgetnstr du w cap n s = Some (rc, str, t) \<and> length str < cap \<and> inv t \<and> shape t = shape s
    \<and> map snd (pending (inp t)) = rest \<and> kernel_tty (inp t) = kernel_tty (inp s) \<and> echo_on (inp t) = echo_on (inp s)
    \<and> nl_on (inp t) = nl_on (inp s) \<and> raw_on (inp t) = raw_on (inp s)
    \<and> cbreak_mode (inp t) = (if cbreak_mode (inp s) = 0 then 0 else 1)
    \<and> c_lflag (nttyb (inp t)) = c_lflag (nttyb (inp s)) AND NOT (ICANON OR ISIG OR IEXTEN)"
proof -
  have l: "0 \<le> nc_getstr_limit (inp s) n" using assms(3) by (simp add: nc_getstr_limit_def line_ready_def)
  have "length str < cap"
    using edit_line_length [OF l, of "[]" "erasechar (inp s)" "killchar (inp s)" "map snd (pending (inp s))"] assms(4,5) l
    by (simp add: typed_line_def)
  moreover have "nc_getstr_limit (inp s) n \<le> int cap" using assms(4) by simp
  ultimately show ?thesis using wgetnstr_ready [OF assms(1-3) _ assms(5), of cap] by auto
qed

text \<open>
  \<open>wgetnstr\<close> leaves the raw mode in curses' copy of the attributes: the terminal itself gets its
  attributes back, but the next \<open>reset_prog_mode\<close>, which a refresh after \<open>endwin\<close> calls, makes it
  raw. Signal characters are then no longer interpreted although the screen is not in raw mode.
\<close>

theorem wgetnstr_leaves_raw:
  assumes "du_ok du" and "du_calm du" and "line_ready w s" and "nc_getstr_limit (inp s) n < int cap" and "\<not> raw_on (inp s)"
  shows "\<exists>rc str t k. wgetnstr du w cap n s = Some (rc, str, t) \<and> \<not> raw_on (inp t)
    \<and> kernel_tty (snd (reset_prog_mode (inp t))) = Some k \<and> c_lflag k AND ISIG = 0 \<and> c_lflag k AND ICANON = 0"
proof -
  obtain rc str rest where e: "typed_line s n = (rc, str, rest)" by (cases "typed_line s n") auto
  have l: "0 \<le> nc_getstr_limit (inp s) n" using assms(3) by (simp add: nc_getstr_limit_def line_ready_def)
  have "length str < cap"
    using edit_line_length [OF l, of "[]" "erasechar (inp s)" "killchar (inp s)" "map snd (pending (inp s))"] assms(4) e l
    by (simp add: typed_line_def)
  moreover have "nc_getstr_limit (inp s) n \<le> int cap" using assms(4) by simp
  ultimately obtain t where t: "wgetnstr du w cap n s = Some (rc, str, t)" "kernel_tty (inp t) = kernel_tty (inp s)"
    "raw_on (inp t) = raw_on (inp s)" "c_lflag (nttyb (inp t)) = c_lflag (nttyb (inp s)) AND NOT (ICANON OR ISIG OR IEXTEN)"
    using wgetnstr_ready [OF assms(1-3) _ e, of cap] by auto
  obtain k where k: "kernel_tty (inp t) = Some k" using t(2) assms(3) by (auto simp: line_ready_def)
  have "kernel_tty (snd (nc_keypad True ((inp t)\<lparr>kernel_tty := Some (nttyb (inp t))\<rparr>))) = Some (nttyb (inp t))"
    using same_modes_keypad [of "(inp t)\<lparr>kernel_tty := Some (nttyb (inp t))\<rparr>" True] by (simp add: same_modes_def)
  then have "kernel_tty (snd (reset_prog_mode (inp t))) = Some (nttyb (inp t))"
    by (simp add: reset_prog_mode_def agree_set [OF k])
  moreover have "c_lflag (nttyb (inp t)) AND ISIG = 0" "c_lflag (nttyb (inp t)) AND ICANON = 0"
    unfolding t(4) by (rule bit_word_eqI; auto simp: bit_simps)+
  ultimately show ?thesis using t(1,3) assms(5) by blast
qed

section \<open>Cooked mode\<close>

text \<open>Neither raw nor cbreak: \<open>wgetch\<close> first reads a line.\<close>

definition cooked :: "nc \<Rightarrow> bool" where
  "cooked s \<longleftrightarrow> \<not> raw_on (inp s) \<and> cbreak_mode (inp s) = 0 \<and> \<not> notty (inp s) \<and> \<not> called_wgetch (inp s)"

definition called :: "nc \<Rightarrow> nc" where
  "called s = s\<lparr>inp := (inp s)\<lparr>called_wgetch := True\<rparr>\<rparr>"

lemma called_ready: "line_ready w s \<Longrightarrow> line_ready w (called s)"
  using queue_same [of "inp (called s)" "inp s"] by (simp add: line_ready_def called_def)

lemma called_line: "typed_line (called s) n = typed_line s n" "nc_getstr_limit (inp (called s)) n = nc_getstr_limit (inp s) n"
  by (simp_all add: typed_line_def called_def erasechar_def killchar_def nc_getstr_limit_def)

lemma wgetch_cooked:
  assumes "line_ready w s" and "cooked s"
  shows "wgetch du w s = do {
    s1 \<leftarrow> cooked_line (wgetnstr du w) s;
    (ch, s2) \<leftarrow> on_input fifo_pull s1;
    Some (ch, s2) }"
proof -
  have "fifohead (inp s) = - 1" using assms(1) queue_empty_iff [of "inp s"] by (simp add: line_ready_def with_room_def)
  moreover have "w \<noteq> 0" using assms(1) invD(2) by (auto simp: line_ready_def)
  moreover have "key_result c \<noteq> ERR" for c by (simp add: key_result_def KEY_CODE_YES_def ERR_def OK_def)
  ultimately show ?thesis using assms(2)
    by (simp add: wgetch_def wgetch_with_def nc_wgetch_def cooked_key_in_fifo_def cooked_def split_beta)
qed

text \<open>
  C30. In cooked mode, when the echo is off, \<open>wgetch\<close> lets the user edit a line and returns its first
  character; the other characters and a newline are queued in order for the next calls. The
  line must have fewer than 135 characters and none that is NUL.
\<close>

theorem cooked_line_delivered:
  assumes "du_ok du" and "du_calm du" and "line_ready w s" and "cooked s" and "136 \<le> getstr_limit (inp s)"
    and "typed_line s 135 = (OK, str, rest)" and "length str < 135" and "0 \<notin> set str"
  shows "\<exists>t. wgetch du w s = Some (hd (str @ [10]), t) \<and> queue (inp t) = tl (str @ [10])
    \<and> map snd (pending (inp t)) = rest \<and> inv t"
proof -
  have l: "nc_getstr_limit (inp s) 135 = 135" using assms(5) by (simp add: nc_getstr_limit_def)
  obtain t where t: "wgetnstr du w 135 135 (called s) = Some (OK, str, t)" "inv t" "map snd (pending (inp t)) = rest"
    "with_room (inp t)" "queue (inp t) = []"
    using wgetnstr_ready [OF assms(1,2) called_ready [OF assms(3)], of 135 135] assms(6,7) l by (auto simp: called_line)
  define i1 where "i1 = (inp t)\<lparr>called_wgetch := False\<rparr>"
  have q1: "queue i1 = []" "with_room i1" using queue_same [of i1 "inp t"] t(4,5) by (simp_all add: i1_def)
  obtain i2 where i2: "safe_ungetch 10 i1 = Some (OK, i2)" "with_room i2" "queue i2 = [10]" "queue_step i1 i2"
    using fifo.unget_law [OF q1(2), of 10] q1(1) by auto
  have ua: "unget_line cs = fifo.unget_all cs" for cs
    by (induction cs) (rule ext, simp)+
  obtain i3 where i3: "unget_line (rev str) i2 = Some i3" "with_room i3" "queue i3 = str @ [10]" "queue_step i2 i3"
    using fifo.unget_all_rev [OF i2(2), of "rev str"] i2(3) assms(7) unfolding ua by auto
  have tw: "takeWhile (\<lambda>c. c \<noteq> 0) str = str" using assms(8) by (auto simp: takeWhile_eq_all_conv)
  have cl: "cooked_line (wgetnstr du w) s = Some (t\<lparr>inp := i3\<rparr>)"
    using t(1) i2(1) i3(1) by (simp add: cooked_line_def called_def i1_def tw)
  have c: "queue i3 = hd (str @ [10]) # tl (str @ [10])" using i3(3) by (cases str) simp_all
  obtain j where j: "fifo_pull i3 = Some (hd (str @ [10]), j)" "queue j = tl (str @ [10])" "queue_step i3 j"
    using fifo.pull_law [OF i3(2) c] by blast
  have "pending j = pending (inp t)"
    using queue_stepD(1) [OF j(3)] queue_stepD(1) [OF i3(4)] queue_stepD(1) [OF i2(4)] by (simp add: i1_def)
  then show ?thesis using wgetch_cooked [OF assms(3,4)] cl j t(2,3) by (simp add: on_input_def)
qed

text \<open>
  A line of 135 characters or more overruns the array \<open>buf[MAXCOLUMNS]\<close> in which \<open>wgetch\<close>
  has \<open>wgetnstr\<close> store it in cooked mode: the terminator is written one place past its end.
\<close>

theorem cooked_line_overrun:
  assumes "du_ok du" and "du_calm du" and "line_ready w s" and "cooked s" and "136 \<le> getstr_limit (inp s)"
    and "typed_line s 135 = (rc, str, rest)" and "length str = 135"
  shows "wgetch du w s = None \<and> (\<exists>t. wgetnstr du w 136 135 (called s) = Some (rc, str, t))"
proof -
  have l: "nc_getstr_limit (inp s) 135 = 135" using assms(5) by (simp add: nc_getstr_limit_def)
  have "wgetnstr du w 135 135 (called s) = None"
    using wgetnstr_ready [OF assms(1,2) called_ready [OF assms(3)], of 135 135] assms(6,7) l by (auto simp: called_line)
  then have "cooked_line (wgetnstr du w) s = None" by (simp add: cooked_line_def called_def)
  then have "wgetch du w s = None" using wgetch_cooked [OF assms(3,4)] by simp
  moreover have "\<exists>t. wgetnstr du w 136 135 (called s) = Some (rc, str, t)"
    using wgetnstr_ready [OF assms(1,2) called_ready [OF assms(3)], of 135 136] assms(6,7) l by (auto simp: called_line)
  ultimately show ?thesis by blast
qed

section \<open>On the small screen\<close>

definition typing :: "(nat \<times> byte) list \<Rightarrow> nc" where
  "typing cs = demo\<lparr>inp := demo_input\<lparr>pending := cs\<rparr>\<rparr>"

definition typing_cooked :: "(nat \<times> byte) list \<Rightarrow> nc" where
  "typing_cooked cs = demo\<lparr>inp := demo_input\<lparr>pending := cs, cbreak_mode := 0\<rparr>\<rparr>"

lemma du_calm_idle: "du_calm idle"
  by (simp add: du_calm_def idle_def)

lemma demo_keytry: "keytry demo_input = Try 27 0 (Try 91 0 (Try 65 259 NoTry (Try 66 258 NoTry NoTry)) NoTry) NoTry"
  by (simp add: demo_input_def demo_keys_def add_to_try_def set_try_def cmp_try_def ERR_def OK_def)

lemma demo_input_fields [simp]:
  "echo_on demo_input = False" "use_meta demo_input = True" "kernel_tty demo_input = Some demo_tty" "raw_on demo_input = False"
  "getstr_limit demo_input = 2048" "keypad_on demo_input = True" "cbreak_mode demo_input = 1" "notty demo_input = False"
  "called_wgetch demo_input = False" "ottyb demo_input = demo_tty"
  by (simp_all add: demo_input_def)

lemma demo_queue: "with_room demo_input" "queue demo_input = []"
  by (simp_all add: with_room_def fifo_ok_def queue_def qlen_def demo_input_def)

lemma typing_ready:
  assumes "\<forall>(g, c) \<in> set cs. c \<noteq> 27"
  shows "line_ready 3 (typing cs)" and "line_ready 3 (typing_cooked cs)" and "cooked (typing_cooked cs)"
proof -
  have q: "queue (demo_input\<lparr>pending := cs, cbreak_mode := 0\<rparr>) = []" "with_room (demo_input\<lparr>pending := cs, cbreak_mode := 0\<rparr>)"
    using queue_same [of "demo_input\<lparr>pending := cs, cbreak_mode := 0\<rparr>" demo_input] demo_queue by simp_all
  have w: "windows demo 3 = Some (demo_win 4)" "newscr demo = 1" by (simp_all add: demo_stdscr)
  have f: "notimeout (demo_win 4) = False" "delay (demo_win 4) = - 1" "use_keypad (demo_win 4) = True" by (simp_all add: demo_win_def)
  show "line_ready 3 (typing cs)" "line_ready 3 (typing_cooked cs)" "cooked (typing_cooked cs)"
    using assms inv_demo demo_queue q w f
    by (auto simp: line_ready_def typing_def typing_cooked_def demo_keytry cooked_def)
qed

lemma demo_chars: "erasechar (demo_input\<lparr>pending := cs\<rparr>) = 127" "killchar (demo_input\<lparr>pending := cs\<rparr>) = 21"
  "erasechar (demo_input\<lparr>pending := cs, cbreak_mode := n\<rparr>) = 127" "killchar (demo_input\<lparr>pending := cs, cbreak_mode := n\<rparr>) = 21"
  by (simp_all add: erasechar_def killchar_def demo_tty_def nc_vdisable_def to_char_def)

theorem wgetnstr_edits_witness:
  "\<exists>t. wgetnstr idle 3 10 9 (typing [(0, 97), (7, 98), (9999, 127), (2, 99), (0, 13), (5, 120)]) = Some (OK, [97, 99], t)
     \<and> map snd (pending (inp t)) = [120]"
proof -
  let ?cs = "[(0, 97), (7, 98), (9999, 127), (2, 99), (0, 13), (5, 120)] :: (nat \<times> byte) list"
  have l: "nc_getstr_limit (inp (typing ?cs)) 9 < int 10" by (simp add: typing_def nc_getstr_limit_def)
  have e: "typed_line (typing ?cs) 9 = (OK, [97, 99], [120])"
    by (simp add: typed_line_def typing_def demo_chars nc_getstr_limit_def to_char_def)
  show ?thesis using wgetnstr_edits [OF du_ok_idle du_calm_idle typing_ready(1) l e] by auto
qed

theorem wgetnstr_leaves_raw_witness:
  "\<exists>rc str t k. wgetnstr idle 3 10 9 (typing [(0, 97), (0, 10)]) = Some (rc, str, t)
     \<and> kernel_tty (snd (reset_prog_mode (inp t))) = Some k \<and> c_lflag k AND ISIG = 0 \<and> c_lflag demo_tty AND ISIG \<noteq> 0"
proof -
  let ?cs = "[(0, 97), (0, 10)] :: (nat \<times> byte) list"
  have l: "nc_getstr_limit (inp (typing ?cs)) 9 < int 10" by (simp add: typing_def nc_getstr_limit_def)
  have r: "\<not> raw_on (inp (typing ?cs))" by (simp add: typing_def)
  have "c_lflag demo_tty AND ISIG \<noteq> 0" by (simp add: demo_tty_def ISIG_def)
  then show ?thesis using wgetnstr_leaves_raw [OF du_ok_idle du_calm_idle typing_ready(1) l r] by auto
qed

lemma edit_line_replicate:
  assumes "c \<notin> {10, 13, 127, 21}"
  shows "int (length buf + n) \<le> mx \<Longrightarrow>
    edit_line 127 21 mx (replicate n c @ [10]) buf = (OK, buf @ replicate n (to_char (uint c)), [])"
proof (induction n arbitrary: buf)
  case 0
  then show ?case by simp
next
  case (Suc n)
  have c: "uint c \<noteq> 10" "c \<noteq> 13" "uint c \<noteq> 127" "uint c \<noteq> 21" using assms by (auto simp: word_uint_eq_iff)
  show ?case using Suc.prems c Suc.IH [of "buf @ [to_char (uint c)]"] by (simp add: Let_def)
qed

lemma typed_replicate:
  "n \<le> 135 \<Longrightarrow> typed_line (typing_cooked (map (Pair 0) (replicate n 97 @ [10]))) 135 = (OK, replicate n 97, [])"
  using edit_line_replicate [of 97 "[]" n 135]
  by (simp add: typed_line_def typing_cooked_def demo_chars nc_getstr_limit_def to_char_def)

lemma typed_plain: "\<forall>(g, c) \<in> set (map (Pair 0) (replicate n 97 @ [10])). c \<noteq> (27 :: byte)"
  by auto

theorem cooked_line_delivered_witness:
  "\<exists>t. wgetch idle 3 (typing_cooked (map (Pair 0) (replicate 3 97 @ [10]))) = Some (97, t) \<and> queue (inp t) = [97, 97, 10]"
proof -
  let ?s = "typing_cooked (map (Pair 0) (replicate 3 97 @ [10]))"
  have g: "136 \<le> getstr_limit (inp ?s)" by (simp add: typing_cooked_def)
  have l: "length (replicate 3 (97::int)) < 135" "0 \<notin> set (replicate 3 (97::int))" "(3::nat) \<le> 135" by simp_all
  have h: "hd (replicate 3 97 @ [10]) = (97::int)" "tl (replicate 3 97 @ [10]) = [97, 97, 10::int]" by (simp_all add: numeral_3_eq_3)
  show ?thesis
    using cooked_line_delivered [OF du_ok_idle du_calm_idle typing_ready(2,3) g typed_replicate [OF l(3)] l(1,2), OF typed_plain typed_plain] h
    by auto
qed

theorem cooked_line_overrun_witness:
  "wgetch idle 3 (typing_cooked (map (Pair 0) (replicate 135 97 @ [10]))) = None"
proof -
  let ?s = "typing_cooked (map (Pair 0) (replicate 135 97 @ [10]))"
  have g: "136 \<le> getstr_limit (inp ?s)" by (simp add: typing_cooked_def)
  have l: "length (replicate 135 (97::int)) = 135" by simp
  show ?thesis
    using cooked_line_overrun [OF du_ok_idle du_calm_idle typing_ready(2,3) g typed_replicate [OF order_refl] l, OF typed_plain typed_plain]
    by blast
qed

end
