(* ===== verification/WinCreate.thy ===== *)
theory WinCreate
  imports WinSession
begin

text \<open>
  Making, copying, moving and deleting windows (\<open>lib_newwin.c\<close>, \<open>lib_delwin.c\<close>, \<open>lib_mvwin.c\<close>,
  \<open>dupwin\<close> and \<open>mvderwin\<close> of \<open>lib_window.c\<close>, \<open>newpad\<close> and \<open>subpad\<close> of \<open>lib_pad.c\<close>).

  A window that is made gets a number and blocks of cells that were never used before, so a
  window or a block that was freed is never confused with a new one, and a use of it is a fault.
  A derived window has no cells of its own: its lines point into those of its parent. That no
  window outlives the cells it points to is the property of this theory: the state stays
  \<open>tidy\<close> (the flag \<open>_SUBWIN\<close> tells which windows have a parent, and only its descendants share
  the cells of a window), and \<open>delwin\<close> refuses to free a window that has descendants.
\<close>

section \<open>Making a window\<close>

definition dimension_limit :: "int \<Rightarrow> bool" where
  "dimension_limit v \<longleftrightarrow> to_short v = v \<and> v > 0"

text \<open>A null pointer to cells: no column makes it an address.\<close>

definition null_text :: textptr where "null_text = (0, - 65536)"

definition new_window :: "int \<Rightarrow> int \<Rightarrow> int \<Rightarrow> int \<Rightarrow> 16 word \<Rightarrow> nc \<Rightarrow> window" where
  "new_window num_lines num_columns by bx fl s =
     \<lparr>cury = 0, curx = 0, maxy = to_short (num_lines - 1), maxx = to_short (num_columns - 1),
      begy = to_short by, begx = to_short bx, flags = fl, attrs = 0, bkgd = BLANK, notimeout = False,
      clearf = (if has_flag fl F_ISPAD then False
                else num_lines = screen_lines s \<and> num_columns = screen_columns s),
      leaveok = False, scrollf = False, idlok = False, idcok = True, immed = False, sync = False,
      use_keypad = False, delay = - 1,
      lines = replicate (nat num_lines)
        \<lparr>ltext = null_text, firstchar = 0, lastchar = to_short (num_columns - 1)\<rparr>,
      regtop = 0, regbottom = to_short (num_lines - 1), parx = - 1, pary = - 1, parent = 0,
      pad = \<lparr>pad_y = - 1, pad_x = - 1, pad_top = - 1, pad_left = - 1, pad_bottom = - 1, pad_right = - 1\<rparr>,
      yoffset = to_short (topstolen s)\<rparr>"

text \<open>The flags that tell how the window lies on the screen.\<close>

definition screen_flags :: "int \<Rightarrow> int \<Rightarrow> int \<Rightarrow> int \<Rightarrow> nc \<Rightarrow> 16 word" where
  "screen_flags num_lines num_columns by bx s =
     (if bx + num_columns = screen_columns s then
        F_ENDLINE
        OR (if bx = 0 \<and> num_lines = screen_lines s \<and> by = 0 then F_FULLWIN else 0)
        OR (if by + num_lines = screen_lines s then F_SCROLLWIN else 0)
      else 0)"

definition nc_makenew :: "int \<Rightarrow> int \<Rightarrow> int \<Rightarrow> int \<Rightarrow> 16 word \<Rightarrow> nc \<Rightarrow> (nat \<times> nc) option" where
  "nc_makenew num_lines num_columns by bx fl s =
     (if \<not> dimension_limit num_lines \<or> \<not> dimension_limit num_columns then Some (0, s)
      else if 1 > calloc_max s \<or> num_lines > calloc_max s then Some (0, s)
      else do {
        let is_pad = has_flag fl F_ISPAD;
        let W = new_window num_lines num_columns by bx fl s;
        ex \<leftarrow> (if is_pad then Some 0 else chk (bx + num_columns));
        ey \<leftarrow> (if is_pad \<or> ex \<noteq> screen_columns s then Some 0 else chk (by + num_lines));
        let V = (if is_pad then W else W\<lparr>flags := fl OR screen_flags num_lines num_columns by bx s\<rparr>);
        let w = next_win s;
        Some (w, s\<lparr>windows := (windows s)(w \<mapsto> V), next_win := w + 1, windowlist := w # windowlist s\<rparr>) })"

section \<open>Freeing a window\<close>

definition remove_window_from_screen :: "nat \<Rightarrow> nc \<Rightarrow> nc" where
  "remove_window_from_screen w s =
     (if curscr s = w then s\<lparr>curscr := 0\<rparr> else if stdscr s = w then s\<lparr>stdscr := 0\<rparr>
      else if newscr s = w then s\<lparr>newscr := 0\<rparr> else s)"

text \<open>\<open>free\<close> of a pointer that is not the start of a block is a fault.\<close>

definition free_text :: "textptr \<Rightarrow> nc \<Rightarrow> nc option" where
  "free_text p s =
     (if p = null_text then Some s
      else if snd p = 0 \<and> cells s (fst p) \<noteq> None then Some (s\<lparr>cells := (cells s)(fst p := None)\<rparr>)
      else None)"

definition nc_freewin :: "nat \<Rightarrow> nc \<Rightarrow> (int \<times> nc) option" where
  "nc_freewin w s =
     (if w \<noteq> 0 \<and> w \<in> set (windowlist s) then do {
        W \<leftarrow> windows s w;
        let s1 = remove_window_from_screen w s;
        let s2 = s1\<lparr>windowlist := remove1 w (windowlist s1)\<rparr>;
        s3 \<leftarrow> (if \<not> has_flag (flags W) F_SUBWIN
               then ofold (\<lambda>i t. do { l \<leftarrow> ldat_at W i; free_text (ltext l) t }) [0..maxy W] s2
               else Some s2);
        Some (OK, s3\<lparr>windows := (windows s3)(w := None)\<rparr>) }
      else Some (ERR, s))"

fun cannot_delete_loop :: "nat \<Rightarrow> nat list \<Rightarrow> bool \<Rightarrow> nc \<Rightarrow> bool option" where
  "cannot_delete_loop w [] result s = Some result"
| "cannot_delete_loop w (p # ps) result s =
     (if p = w then cannot_delete_loop w ps False s
      else do {
        P \<leftarrow> windows s p;
        if has_flag (flags P) F_SUBWIN \<and> parent P = w then Some True
        else cannot_delete_loop w ps result s })"

definition cannot_delete :: "nat \<Rightarrow> nc \<Rightarrow> bool option" where
  "cannot_delete w s = cannot_delete_loop w (windowlist s) True s"

definition delwin :: "nat \<Rightarrow> nc \<Rightarrow> (int \<times> nc) option" where
  "delwin w s =
     (if w = 0 then Some (ERR, s)
      else do {
        no \<leftarrow> cannot_delete w s;
        if no then Some (ERR, s)
        else do {
          W \<leftarrow> windows s w;
          (r, s1) \<leftarrow> (if has_flag (flags W) F_SUBWIN then touchwin (parent W) s
                      else if curscr s \<noteq> 0 then touchwin (curscr s) s else Some (OK, s));
          nc_freewin w s1 } })"

section \<open>Windows with cells of their own\<close>

text \<open>
  \<open>calloc\<close> fails for requests above \<open>calloc_max\<close> and for no others. As all rows of a window have the
  same size, the first one fails or none does.
\<close>

definition alloc_row :: "nat \<Rightarrow> int \<Rightarrow> int \<Rightarrow> nc \<Rightarrow> nc option" where
  "alloc_row w num_columns i s =
     modl w i (\<lambda>l. l\<lparr>ltext := (next_cells s, 0)\<rparr>)
       (s\<lparr>cells := (cells s)(next_cells s \<mapsto> replicate (nat num_columns) BLANK), next_cells := next_cells s + 1\<rparr>)"

fun alloc_rows :: "nat \<Rightarrow> int \<Rightarrow> int list \<Rightarrow> nc \<Rightarrow> (nat \<times> nc) option" where
  "alloc_rows w num_columns [] s = Some (w, s)"
| "alloc_rows w num_columns (i # is) s =
     (if num_columns > calloc_max s then do { (r, s1) \<leftarrow> nc_freewin w s; Some (0, s1) }
      else do { s1 \<leftarrow> alloc_row w num_columns i s; alloc_rows w num_columns is s1 })"

definition newwin :: "int \<Rightarrow> int \<Rightarrow> int \<Rightarrow> int \<Rightarrow> nc \<Rightarrow> (nat \<times> nc) option" where
  "newwin num_lines num_columns by bx s =
     (if by < 0 \<or> bx < 0 \<or> num_lines < 0 \<or> num_columns < 0 then Some (0, s)
      else do {
        let l = (if num_lines = 0 then lines_avail s - by else num_lines);
        let c = (if num_columns = 0 then screen_columns s - bx else num_columns);
        (w, s1) \<leftarrow> nc_makenew l c by bx 0 s;
        if w = 0 then Some (0, s1) else alloc_rows w c [0..l - 1] s1 })"

definition newpad :: "int \<Rightarrow> int \<Rightarrow> nc \<Rightarrow> (nat \<times> nc) option" where
  "newpad l c s =
     (if l \<le> 0 \<or> c \<le> 0 then Some (0, s)
      else do {
        (w, s1) \<leftarrow> nc_makenew l c 0 0 F_ISPAD s;
        if w = 0 then Some (0, s1) else alloc_rows w c [0..l - 1] s1 })"

section \<open>Derived windows\<close>

definition derive_row :: "nat \<Rightarrow> nat \<Rightarrow> int \<Rightarrow> int \<Rightarrow> int \<Rightarrow> nc \<Rightarrow> nc option" where
  "derive_row w orig by bx i s = do {
     P \<leftarrow> windows s orig;
     pl \<leftarrow> ldat_at P (by + i);
     modl w i (\<lambda>l. l\<lparr>ltext := (fst (ltext pl), snd (ltext pl) + bx)\<rparr>) s }"

definition derive :: "nat \<Rightarrow> window \<Rightarrow> int \<Rightarrow> int \<Rightarrow> int \<Rightarrow> nat \<times> nc \<Rightarrow> (nat \<times> nc) option" where
  "derive orig P l by bx ws = (case ws of (w, s1) \<Rightarrow>
     if w = 0 then Some (0, s1)
     else do {
       s2 \<leftarrow> modw w (\<lambda>W. W\<lparr>pary := by, parx := bx, attrs := attrs P, bkgd := bkgd P\<rparr>) s1;
       s3 \<leftarrow> ofold (derive_row w orig by bx) [0..l - 1] s2;
       s4 \<leftarrow> modw w (\<lambda>W. W\<lparr>parent := orig\<rparr>) s3;
       Some (w, s4) })"

definition derwin :: "nat \<Rightarrow> int \<Rightarrow> int \<Rightarrow> int \<Rightarrow> int \<Rightarrow> nc \<Rightarrow> (nat \<times> nc) option" where
  "derwin orig num_lines num_columns by bx s =
     (if by < 0 \<or> bx < 0 \<or> orig = 0 \<or> num_lines < 0 \<or> num_columns < 0 then Some (0, s)
      else do {
        P \<leftarrow> windows s orig;
        ey \<leftarrow> chk (by + num_lines);
        ex \<leftarrow> (if ey > maxy P + 1 then Some 0 else chk (bx + num_columns));
        if ey > maxy P + 1 \<or> ex > maxx P + 1 then Some (0, s)
        else do {
          let l = (if num_lines = 0 then maxy P + 1 - by else num_lines);
          let c = (if num_columns = 0 then maxx P + 1 - bx else num_columns);
          let fl = (if has_flag (flags P) F_ISPAD then F_SUBWIN OR F_ISPAD else F_SUBWIN);
          ws \<leftarrow> nc_makenew l c (begy P + by) (begx P + bx) fl s;
          derive orig P l by bx ws } })"

definition subwin :: "nat \<Rightarrow> int \<Rightarrow> int \<Rightarrow> int \<Rightarrow> int \<Rightarrow> nc \<Rightarrow> (nat \<times> nc) option" where
  "subwin w l c y x s =
     (if w = 0 then Some (0, s)
      else do {
        W \<leftarrow> windows s w;
        by \<leftarrow> chk (y - begy W);
        bx \<leftarrow> chk (x - begx W);
        derwin w l c by bx s })"

definition subpad :: "nat \<Rightarrow> int \<Rightarrow> int \<Rightarrow> int \<Rightarrow> int \<Rightarrow> nc \<Rightarrow> (nat \<times> nc) option" where
  "subpad orig l c by bx s =
     (if orig = 0 then Some (0, s)
      else do {
        P \<leftarrow> windows s orig;
        if \<not> has_flag (flags P) F_ISPAD then Some (0, s) else derwin orig l c by bx s })"

section \<open>Moving and copying\<close>

definition mvwin :: "nat \<Rightarrow> int \<Rightarrow> int \<Rightarrow> nc \<Rightarrow> (int \<times> nc) option" where
  "mvwin w by bx s =
     (if w = 0 then Some (ERR, s)
      else do {
        W \<leftarrow> windows s w;
        if has_flag (flags W) F_ISPAD then Some (ERR, s)
        else do {
          ey \<leftarrow> chk (by + maxy W);
          ex \<leftarrow> (if ey > screen_lines s - 1 then Some 0 else chk (bx + maxx W));
          if ey > screen_lines s - 1 \<or> ex > screen_columns s - 1 \<or> by < 0 \<or> bx < 0 then Some (ERR, s)
          else do {
            s1 \<leftarrow> modw w (\<lambda>W. W\<lparr>begy := to_short by, begx := to_short bx\<rparr>) s;
            touchwin w s1 } } })"

text \<open>\<open>memcpy\<close> of a line, and its marks.\<close>

definition dup_row :: "nat \<Rightarrow> nat \<Rightarrow> int \<Rightarrow> nc \<Rightarrow> nc option" where
  "dup_row w nw i s = do {
     W \<leftarrow> windows s w;
     N \<leftarrow> windows s nw;
     wl \<leftarrow> ldat_at W i;
     nl \<leftarrow> ldat_at N i;
     s1 \<leftarrow> ofold (\<lambda>x t. do { c \<leftarrow> peek (ltext wl) x t; poke (ltext nl) x c t }) [0..maxx W] s;
     modl nw i (\<lambda>l. l\<lparr>firstchar := firstchar wl, lastchar := lastchar wl\<rparr>) s1 }"

definition dup_fields :: "window \<Rightarrow> window \<Rightarrow> window" where
  "dup_fields W N = W\<lparr>flags := flags W AND NOT F_SUBWIN, parx := 0, pary := 0, parent := 0, lines := lines N,
     pad := (if has_flag (flags W) F_ISPAD then pad W else pad N)\<rparr>"

definition dupwin :: "nat \<Rightarrow> nc \<Rightarrow> (nat \<times> nc) option" where
  "dupwin w s =
     (if w = 0 then Some (0, s)
      else do {
        W \<leftarrow> windows s w;
        (nw, s1) \<leftarrow> (if has_flag (flags W) F_ISPAD then newpad (maxy W + 1) (maxx W + 1) s
                     else newwin (maxy W + 1) (maxx W + 1) (begy W) (begx W) s);
        if nw = 0 then Some (0, s1)
        else do {
          s2 \<leftarrow> modw nw (dup_fields W) s1;
          s3 \<leftarrow> ofold (dup_row w nw) [0..maxy W] s2;
          Some (nw, s3) } })"

section \<open>Counted loops over the lines\<close>

lemma ofold_append: "ofold f (xs @ ys) s = Option.bind (ofold f xs s) (ofold f ys)"
proof (induction xs arbitrary: s)
  case Nil
  then show ?case by simp
next
  case (Cons x xs)
  then show ?case by (cases "f x s") simp_all
qed

lemma upto_int_upt: "[0..int n - 1] = map int [0..<n]"
proof (induction n)
  case 0
  then show ?case by simp
next
  case (Suc n)
  have "[0..int n] = [0..int n - 1] @ [int n]" by (rule upto_rec2) simp
  then show ?case using Suc by simp
qed

lemma ok_ofold_count:
  assumes "I 0 s" and "\<And>k s. k < n \<Longrightarrow> I k s \<Longrightarrow> ok (f (int k) s) (I (Suc k))"
  shows "ok (ofold f [0..int n - 1] s) (I n)"
proof -
  have "ok (ofold f (map int [0..<k]) s) (I k)" if "k \<le> n" for k
    using that
  proof (induction k)
    case 0
    then show ?case using assms(1) by simp
  next
    case (Suc k)
    then show ?case using assms(2) [of k] by (auto simp: ofold_append elim!: ok_mono)
  qed
  then show ?thesis unfolding upto_int_upt by simp
qed

section \<open>Adding a window to the state\<close>

definition with_window :: "window \<Rightarrow> nc \<Rightarrow> nc" where
  "with_window W s = s\<lparr>windows := (windows s)(next_win s \<mapsto> W), next_win := next_win s + 1,
     windowlist := next_win s # windowlist s\<rparr>"

lemma with_window_simps [simp]:
  "windows (with_window W s) = (windows s)(next_win s \<mapsto> W)" "cells (with_window W s) = cells s"
  "next_cells (with_window W s) = next_cells s" "next_win (with_window W s) = next_win s + 1"
  "windowlist (with_window W s) = next_win s # windowlist s" "newscr (with_window W s) = newscr s"
  "curscr (with_window W s) = curscr s" "stdscr (with_window W s) = stdscr s" "tabsize (with_window W s) = tabsize s"
  "calloc_max (with_window W s) = calloc_max s" "topstolen (with_window W s) = topstolen s" "inp (with_window W s) = inp s"
  by (simp_all add: with_window_def)

text \<open>The blocks of fresh cells.\<close>

definition fresh_cells :: "nat \<Rightarrow> nat \<Rightarrow> nc \<Rightarrow> nc" where
  "fresh_cells n c s = s\<lparr>cells := (\<lambda>b. if next_cells s \<le> b \<and> b < next_cells s + n then Some (replicate c BLANK) else cells s b),
     next_cells := next_cells s + n\<rparr>"

lemma fresh_cells_simps [simp]:
  "windows (fresh_cells n c s) = windows s" "next_cells (fresh_cells n c s) = next_cells s + n"
  "next_win (fresh_cells n c s) = next_win s" "windowlist (fresh_cells n c s) = windowlist s"
  "newscr (fresh_cells n c s) = newscr s" "curscr (fresh_cells n c s) = curscr s" "stdscr (fresh_cells n c s) = stdscr s"
  "tabsize (fresh_cells n c s) = tabsize s" "topstolen (fresh_cells n c s) = topstolen s" "calloc_max (fresh_cells n c s) = calloc_max s"
  by (simp_all add: fresh_cells_def)

lemma fresh_cells_0: "fresh_cells 0 c s = s"
proof -
  have "(\<lambda>b. if next_cells s \<le> b \<and> b < next_cells s then Some (replicate c BLANK) else cells s b) = cells s"
    by (rule ext) auto
  then show ?thesis by (simp add: fresh_cells_def)
qed

lemma win_ok_mono:
  assumes "win_ok s v V" and "tabsize t = tabsize s" and "newscr t = newscr s"
    and "\<And>b cs. cells s b = Some cs \<Longrightarrow> cells t b = Some cs"
    and "\<And>P. parent V \<noteq> 0 \<Longrightarrow> windows s (parent V) = Some P \<Longrightarrow> \<exists>Q. windows t (parent V) = Some Q \<and> maxy Q = maxy P \<and> maxx Q = maxx P"
  shows "win_ok t v V"
proof -
  have "row_ok s mx l \<Longrightarrow> row_ok t mx l" for mx l using assms(4) by (auto simp: row_ok_def)
  moreover have "in_parent s v V \<Longrightarrow> parent V \<noteq> 0 \<Longrightarrow> in_parent t v V" using assms(5) by (fastforce simp: in_parent_def)
  ultimately show ?thesis using assms(1-3) by (auto simp: win_ok_def)
qed

lemma inv_next:
  assumes "inv s"
  shows "0 < next_win s" "windows s (next_win s) = None" "newscr s \<noteq> next_win s" "curscr s \<noteq> next_win s"
    "next_win s \<notin> set (windowlist s)"
proof -
  show n: "windows s (next_win s) = None" using assms by (auto simp: inv_def) (metis not_None_eq order_less_irrefl)
  have "windows s (newscr s) \<noteq> None" "windows s (curscr s) \<noteq> None" using assms by (auto simp: inv_def)
  then show "newscr s \<noteq> next_win s" "curscr s \<noteq> next_win s" using n by auto
  have "newscr s < next_win s" using assms by (auto simp: inv_def)
  then show "0 < next_win s" by simp
  show "next_win s \<notin> set (windowlist s)" using assms n by (auto simp: inv_def)
qed

lemma inv_with_window:
  assumes i: "inv s" and b: "\<And>b cs. cells s b = Some cs \<Longrightarrow> cells s' b = Some cs" "\<And>b. cells s' b \<noteq> None \<Longrightarrow> b < next_cells s'"
    and e: "s' = s\<lparr>cells := cells s', next_cells := next_cells s'\<rparr>" and k: "win_ok (with_window W s') (next_win s) W"
  shows "inv (with_window W s')"
proof -
  have f: "windows s' = windows s" "next_win s' = next_win s" "windowlist s' = windowlist s" "newscr s' = newscr s"
    "curscr s' = curscr s" "tabsize s' = tabsize s" "topstolen s' = topstolen s"
    by (subst e, simp)+
  note n = inv_next [OF i]
  have old: "win_ok (with_window W s') v V" "v < next_win s" if "windows s v = Some V" for v V
  proof -
    have kv: "win_ok s v V" "v < next_win s" using i that by (auto simp: inv_def)
    then show "v < next_win s" by simp
    show "win_ok (with_window W s') v V"
    proof (rule win_ok_mono [OF kv(1)])
      fix P assume P: "parent V \<noteq> 0" "windows s (parent V) = Some P"
      then have "parent V < next_win s" using i by (auto simp: inv_def)
      then show "\<exists>Q. windows (with_window W s') (parent V) = Some Q \<and> maxy Q = maxy P \<and> maxx Q = maxx P" using P f by simp
    qed (simp_all add: f b(1))
  qed
  have "windows (with_window W s') v = Some V \<Longrightarrow> v < next_win (with_window W s') \<and> win_ok (with_window W s') v V" for v V
    using old(1) less_SucI [OF old(2)] k f by (auto split: if_splits)
  then show ?thesis using i b(2) f n by (simp add: inv_def)
qed

section \<open>The windows that are made\<close>

definition fresh_lines :: "nat \<Rightarrow> nat \<Rightarrow> window \<Rightarrow> ldat list" where
  "fresh_lines k b W = map (\<lambda>i. (lines W ! i)\<lparr>ltext := (b + i, 0)\<rparr>) [0..<k] @ drop k (lines W)"

lemma fresh_lines_0 [simp]: "fresh_lines 0 b W = lines W"
  by (simp add: fresh_lines_def)

lemma fresh_lines_Suc:
  assumes "k < length (lines W)"
  shows "(fresh_lines k b W)[k := (fresh_lines k b W ! k)\<lparr>ltext := (b + k, 0)\<rparr>] = fresh_lines (Suc k) b W"
    "length (fresh_lines k b W) = length (lines W)"
proof -
  have "drop k (lines W) = lines W ! k # drop (Suc k) (lines W)" using assms by (simp add: Cons_nth_drop_Suc)
  then show "(fresh_lines k b W)[k := (fresh_lines k b W ! k)\<lparr>ltext := (b + k, 0)\<rparr>] = fresh_lines (Suc k) b W"
    by (simp add: fresh_lines_def list_update_append nth_append)
  show "length (fresh_lines k b W) = length (lines W)" using assms by (simp add: fresh_lines_def)
qed

lemma alloc_rows_ofold:
  "c \<le> calloc_max s \<Longrightarrow> alloc_rows w c xs s = do { t \<leftarrow> ofold (alloc_row w c) xs s; Some (w, t) }"
proof (induction xs arbitrary: s)
  case Nil
  then show ?case by simp
next
  case (Cons i xs)
  have "alloc_row w c i s = Some t \<Longrightarrow> calloc_max t = calloc_max s" for t
    by (auto simp: alloc_row_def modl_def set_win_def bind_eq_Some_conv)
  then show ?case using Cons by (cases "alloc_row w c i s") auto
qed

lemma alloc_rows_ok:
  assumes "windows s w = Some W" and "length (lines W) = n" and "c \<le> calloc_max s"
  shows "alloc_rows w c [0..int n - 1] s =
    Some (w, set_win w (W\<lparr>lines := fresh_lines n (next_cells s) W\<rparr>) (fresh_cells n (nat c) s))"
proof -
  let ?t = "\<lambda>k. set_win w (W\<lparr>lines := fresh_lines k (next_cells s) W\<rparr>) (fresh_cells k (nat c) s)"
  have "ok (ofold (alloc_row w c) [0..int n - 1] s) (\<lambda>t. t = ?t n)"
  proof (rule ok_ofold_count [where I = "\<lambda>k t. t = ?t k"])
    show "s = ?t 0" using assms(1) by (simp add: fresh_cells_0)
    fix k t assume k: "k < n" and t: "t = ?t k"

    have "alloc_row w c (int k) t = Some (?t (Suc k))"
      unfolding t alloc_row_def modl_def
      using k assms(2) fresh_lines_Suc [of k W "next_cells s"]
      by (simp add: ldat_at_def set_win_def fresh_cells_def fun_eq_iff less_Suc_eq)
    then show "ok (alloc_row w c (int k) t) (\<lambda>t. t = ?t (Suc k))" by simp
  qed
  then show ?thesis using alloc_rows_ofold [OF assms(3)] by (auto simp: ok_iff)
qed

lemma to_short_dim: "dimension_limit v \<Longrightarrow> 0 < v \<and> v < 32768 \<and> to_short (v - 1) = v - 1"
  using to_short_range [of v] by (auto simp: dimension_limit_def intro!: to_short_id)

lemma flag_facts [simp]:
  "has_flag 0 f = False" "has_flag F_ISPAD F_ISPAD" "\<not> has_flag F_ISPAD F_SUBWIN" "has_flag F_SUBWIN F_SUBWIN"
  "\<not> has_flag F_SUBWIN F_ISPAD" "has_flag (F_SUBWIN OR F_ISPAD) F_SUBWIN" "has_flag (F_SUBWIN OR F_ISPAD) F_ISPAD"
  by (simp_all add: has_flag_def F_ISPAD_def F_SUBWIN_def)

lemma has_flag_or [simp]: "has_flag (f OR g) h \<longleftrightarrow> has_flag f h \<or> has_flag g h"
  by (simp add: has_flag_def bit.conj_disj_distrib2 or_eq_0_iff)

lemma screen_flags_other [simp]: "\<not> has_flag (screen_flags l c y x s) F_SUBWIN" "\<not> has_flag (screen_flags l c y x s) F_ISPAD"
  by (simp_all add: screen_flags_def) (simp_all add: has_flag_def F_ISPAD_def F_SUBWIN_def F_ENDLINE_def F_FULLWIN_def F_SCROLLWIN_def)

text \<open>What \<open>_nc_makenew\<close> makes, before the lines have cells.\<close>

definition made_window :: "int \<Rightarrow> int \<Rightarrow> int \<Rightarrow> int \<Rightarrow> 16 word \<Rightarrow> nc \<Rightarrow> window" where
  "made_window l c by bx fl s =
     (new_window l c by bx fl s)\<lparr>flags := fl OR (if has_flag fl F_ISPAD then 0 else screen_flags l c by bx s)\<rparr>"

definition creatable :: "int \<Rightarrow> int \<Rightarrow> nc \<Rightarrow> bool" where
  "creatable l c s \<longleftrightarrow> dimension_limit l \<and> dimension_limit c \<and> 1 \<le> calloc_max s \<and> l \<le> calloc_max s"

lemma makenew_result:
  assumes "has_flag fl F_ISPAD \<or> 0 \<le> bx \<and> bx < 65536 \<and> 0 \<le> by \<and> by < 65536"
  shows "nc_makenew l c by bx fl s =
    Some (if creatable l c s then (next_win s, with_window (made_window l c by bx fl s) s) else (0, s))"
proof (cases "creatable l c s")
  case False
  then show ?thesis by (auto simp: nc_makenew_def creatable_def)
next
  case True
  then have d: "dimension_limit l" "dimension_limit c" "\<not> 1 > calloc_max s" "\<not> l > calloc_max s" by (auto simp: creatable_def)
  note b = to_short_dim [OF d(1)] to_short_dim [OF d(2)]
  show ?thesis
  proof (cases "has_flag fl F_ISPAD")
    case p: True
    have "new_window l c by bx fl s = made_window l c by bx fl s"
      using p by (simp add: made_window_def) (simp add: new_window_def)
    then show ?thesis using True d p by (simp add: nc_makenew_def with_window_def Let_def)
  next
    case False
    then have "in_int (bx + c)" "in_int (by + l)" using assms b by (auto simp: in_int_def)
    then show ?thesis using True d False by (simp add: nc_makenew_def with_window_def made_window_def Let_def)
  qed
qed

definition own_window :: "int \<Rightarrow> int \<Rightarrow> int \<Rightarrow> int \<Rightarrow> 16 word \<Rightarrow> nc \<Rightarrow> window" where
  "own_window l c by bx fl s =
     (let W = made_window l c by bx fl s in W\<lparr>lines := fresh_lines (nat l) (next_cells s) W\<rparr>)"

lemma set_win_with: "set_win (next_win s) V (fresh_cells n c (with_window W s)) = with_window V (fresh_cells n c s)"
  by (cases s) (simp add: set_win_def fresh_cells_def with_window_def cong: if_cong)

lemma made_lines: "lines (made_window l c by bx fl s) = replicate (nat l) \<lparr>ltext = null_text, firstchar = 0, lastchar = to_short (c - 1)\<rparr>"
  by (simp add: made_window_def new_window_def)

lemma alloc_made:
  assumes "creatable l c s" and "c \<le> calloc_max s"
  shows "alloc_rows (next_win s) c [0..l - 1] (with_window (made_window l c by bx fl s) s)
    = Some (next_win s, with_window (own_window l c by bx fl s) (fresh_cells (nat l) (nat c) s))"
proof -
  have l: "l = int (nat l)" using assms(1) to_short_dim [of l] by (auto simp: creatable_def)
  show ?thesis
    using alloc_rows_ok [of "with_window (made_window l c by bx fl s) s" "next_win s" "made_window l c by bx fl s" "nat l" c]
      assms(2) by (subst l) (simp add: made_lines set_win_with own_window_def Let_def)
qed

text \<open>The window for which there are no cells is given up again.\<close>

definition dropped :: "nc \<Rightarrow> nc" where
  "dropped s = s\<lparr>next_win := next_win s + 1, stdscr := (if stdscr s = next_win s then 0 else stdscr s)\<rparr>"

lemma ofold_id: "(\<And>x. x \<in> set xs \<Longrightarrow> f x s = Some s) \<Longrightarrow> ofold f xs s = Some s"
  by (induction xs) auto

lemma alloc_failed:
  assumes "inv s" and "creatable l c s" and "\<not> c \<le> calloc_max s" and "\<not> has_flag fl F_SUBWIN"
  shows "alloc_rows (next_win s) c [0..l - 1] (with_window (made_window l c by bx fl s) s) = Some (0, dropped s)"
proof -
  have l: "0 < l" "to_short (l - 1) = l - 1" using assms(2) to_short_dim [of l] by (auto simp: creatable_def)
  then have r: "[0..l - 1] = 0 # [1..l - 1]" by (simp add: upto_rec1)
  note n = inv_next [OF assms(1)]
  have my: "maxy (made_window l c by bx fl s) = l - 1" using l by (simp add: made_window_def new_window_def)
  have fl: "\<not> has_flag (flags (made_window l c by bx fl s)) F_SUBWIN"
    using assms(4) by (auto simp: made_window_def)
  have free: "ofold (\<lambda>i t. do { l' \<leftarrow> ldat_at (made_window l c by bx fl s) i; free_text (ltext l') t }) [0..l - 1] t = Some t" for t
    by (rule ofold_id) (simp add: ldat_at_def made_lines free_text_def)
  have up: "(windows s)(next_win s := None) = windows s" using n(2) by (simp add: fun_upd_idem)
  show ?thesis
    using assms(3) n fl my free up
    by (simp add: r del: ofold.simps)
       (simp add: nc_freewin_def my free remove_window_from_screen_def dropped_def with_window_def Let_def flip: r)
qed

lemma own_lines:
  assumes "creatable l c s"
  shows "lines (own_window l c by bx fl s) = map (\<lambda>i. \<lparr>ltext = (next_cells s + i, 0), firstchar = 0, lastchar = c - 1\<rparr>) [0..<nat l]"
  using assms to_short_dim [of c]
  by (auto simp: own_window_def Let_def fresh_lines_def made_lines creatable_def)

lemma own_fields:
  assumes "creatable l c s" and "0 \<le> by" and "by < 32768" and "0 \<le> bx" and "bx < 32768" and "0 \<le> topstolen s" and "topstolen s < 32768"
  shows "maxy (own_window l c by bx fl s) = l - 1" "maxx (own_window l c by bx fl s) = c - 1"
    "begy (own_window l c by bx fl s) = by" "begx (own_window l c by bx fl s) = bx" "yoffset (own_window l c by bx fl s) = topstolen s"
    "regtop (own_window l c by bx fl s) = 0" "regbottom (own_window l c by bx fl s) = l - 1"
    "parent (own_window l c by bx fl s) = 0" "cury (own_window l c by bx fl s) = 0" "curx (own_window l c by bx fl s) = 0"
  using assms to_short_dim [of c] to_short_dim [of l]
  by (auto simp: own_window_def made_window_def new_window_def Let_def creatable_def to_short_id)

lemma own_window_ok:
  assumes "inv s" and "creatable l c s" and "0 \<le> by" "by < 32768" "0 \<le> bx" "bx < 32768" and "c + tabsize s \<le> 32768"
  shows "win_ok (with_window (own_window l c by bx fl s) (fresh_cells (nat l) (nat c) s)) (next_win s) (own_window l c by bx fl s)"
    (is "win_ok ?t ?w ?W")
proof -
  have t: "0 \<le> topstolen s" "topstolen s < 32768" "0 < tabsize s" using assms(1) by (auto simp: inv_def)
  have d: "0 < l" "l < 32768" "0 < c" "c < 32768" using assms(2) to_short_dim [of l] to_short_dim [of c] by (auto simp: creatable_def)
  note f = own_fields [OF assms(2-6) t(1,2), of fl]
  have ls: "row_ok ?t (maxx ?W) x \<and> mark_ok (maxx ?W) x" if "x \<in> set (lines ?W)" for x
    using that d unfolding own_lines [OF assms(2)] f(2) by (auto simp: row_ok_def fresh_cells_def mark_ok_def NOCHANGE_def)
  have dist: "distinct (map (\<lambda>x. fst (ltext x)) (lines ?W))"
    unfolding own_lines [OF assms(2)] by (simp add: o_def distinct_map inj_on_def)
  have len: "int (length (lines ?W)) = maxy ?W + 1" using d unfolding own_lines [OF assms(2)] f(1) by simp
  show ?thesis
    unfolding win_ok_def using ls dist len f d assms(3-7) t by auto
qed

lemma inv_dropped: "inv s \<Longrightarrow> inv (dropped s)"
proof -
  assume i: "inv s"
  have "win_ok (dropped s) v V" if "windows s v = Some V" for v V
    by (rule win_ok_mono [OF invD(1) [OF i that]]) (simp_all add: dropped_def)
  then show "inv (dropped s)" using i by (auto simp: inv_def dropped_def less_SucI)
qed

lemma inv_own:
  assumes "inv s" and "creatable l c s" and "0 \<le> by" "by < 32768" "0 \<le> bx" "bx < 32768" and "c + tabsize s \<le> 32768"
  shows "inv (with_window (own_window l c by bx fl s) (fresh_cells (nat l) (nat c) s))"
proof (rule inv_with_window [OF assms(1)])
  show "win_ok (with_window (own_window l c by bx fl s) (fresh_cells (nat l) (nat c) s)) (next_win s) (own_window l c by bx fl s)"
    by (rule own_window_ok [OF assms])
  have "b < next_cells s" if "cells s b = Some cs" for b cs using assms(1) that by (auto simp: inv_def)
  then show "cells s b = Some cs \<Longrightarrow> cells (fresh_cells (nat l) (nat c) s) b = Some cs" for b cs
    by (force simp: fresh_cells_def)
  show "b < next_cells (fresh_cells (nat l) (nat c) s)" if "cells (fresh_cells (nat l) (nat c) s) b \<noteq> None" for b
    using that assms(1) by (auto simp: inv_def fresh_cells_def split: if_splits intro: trans_less_add1)
  show "fresh_cells (nat l) (nat c) s
      = s\<lparr>cells := cells (fresh_cells (nat l) (nat c) s), next_cells := next_cells (fresh_cells (nat l) (nat c) s)\<rparr>"
    by (simp add: fresh_cells_def)
qed

text \<open>The outcomes of \<open>newwin\<close> and \<open>newpad\<close>.\<close>

definition own_result :: "int \<Rightarrow> int \<Rightarrow> int \<Rightarrow> int \<Rightarrow> 16 word \<Rightarrow> nc \<Rightarrow> nat \<times> nc" where
  "own_result l c by bx fl s =
     (if \<not> creatable l c s then (0, s)
      else if \<not> c \<le> calloc_max s then (0, dropped s)
      else (next_win s, with_window (own_window l c by bx fl s) (fresh_cells (nat l) (nat c) s)))"

lemma own_rows:
  assumes "inv s" and "\<not> has_flag fl F_SUBWIN" and "has_flag fl F_ISPAD \<or> 0 \<le> bx \<and> bx < 65536 \<and> 0 \<le> by \<and> by < 65536"
  shows "do { (w, s1) \<leftarrow> nc_makenew l c by bx fl s; if w = 0 then Some (0, s1) else alloc_rows w c [0..l - 1] s1 }
    = Some (own_result l c by bx fl s)"
  using inv_next(1) [OF assms(1)] alloc_failed [OF assms(1) _ _ assms(2), of l c "by" bx] alloc_made [of l c s "by" bx fl]
  by (simp add: makenew_result [OF assms(3)] own_result_def)

lemma newwin_result:
  assumes "inv s" and "by < 32768" and "bx < 32768"
  shows "newwin num_lines num_columns by bx s = Some
    (if by < 0 \<or> bx < 0 \<or> num_lines < 0 \<or> num_columns < 0 then (0, s)
     else own_result (if num_lines = 0 then lines_avail s - by else num_lines)
            (if num_columns = 0 then screen_columns s - bx else num_columns) by bx 0 s)"
proof (cases "by < 0 \<or> bx < 0 \<or> num_lines < 0 \<or> num_columns < 0")
  case True
  then show ?thesis by (simp add: newwin_def)
next
  case False
  have "has_flag 0 F_ISPAD \<or> 0 \<le> bx \<and> bx < 65536 \<and> 0 \<le> by \<and> by < 65536" using False assms(2,3) by auto
  from own_rows [OF assms(1) _ this] show ?thesis using False by (simp add: newwin_def Let_def)
qed

lemma newpad_result:
  assumes "inv s"
  shows "newpad l c s = Some (if l \<le> 0 \<or> c \<le> 0 then (0, s) else own_result l c 0 0 F_ISPAD s)"
  using own_rows [OF assms, of F_ISPAD 0 0 l c] by (simp add: newpad_def)

section \<open>Derived windows share the cells of their parent\<close>

definition sub_window :: "nat \<Rightarrow> window \<Rightarrow> int \<Rightarrow> int \<Rightarrow> int \<Rightarrow> int \<Rightarrow> nc \<Rightarrow> window" where
  "sub_window orig P l c by bx s =
     (made_window l c (begy P + by) (begx P + bx) (if has_flag (flags P) F_ISPAD then F_SUBWIN OR F_ISPAD else F_SUBWIN) s)
       \<lparr>pary := by, parx := bx, attrs := attrs P, bkgd := bkgd P, parent := orig,
        lines := map (\<lambda>i. \<lparr>ltext = (fst (ltext (lines P ! (nat by + i))), snd (ltext (lines P ! (nat by + i))) + bx),
                          firstchar = 0, lastchar = c - 1\<rparr>) [0..<nat l]\<rparr>"

lemma derive_rows:
  assumes "windows s w = Some W" and "length (lines W) = n" and "windows s orig = Some P" and "orig \<noteq> w"
    and "0 \<le> by" and "nat by + n \<le> length (lines P)"
  shows "ofold (derive_row w orig by bx) [0..int n - 1] s = Some (set_win w (W\<lparr>lines :=
      map (\<lambda>i. (lines W ! i)\<lparr>ltext := (fst (ltext (lines P ! (nat by + i))), snd (ltext (lines P ! (nat by + i))) + bx)\<rparr>) [0..<n]\<rparr>) s)"
proof -
  let ?g = "\<lambda>i. (lines W ! i)\<lparr>ltext := (fst (ltext (lines P ! (nat by + i))), snd (ltext (lines P ! (nat by + i))) + bx)\<rparr>"
  let ?t = "\<lambda>k. set_win w (W\<lparr>lines := map ?g [0..<k] @ drop k (lines W)\<rparr>) s"
  have "ok (ofold (derive_row w orig by bx) [0..int n - 1] s) (\<lambda>t. t = ?t n)"
  proof (rule ok_ofold_count [where I = "\<lambda>k t. t = ?t k"])
    show "s = ?t 0" using assms(1) by simp
    fix k t assume k: "k < n" and t: "t = ?t k"
    have d: "drop k (lines W) = lines W ! k # drop (Suc k) (lines W)" using k assms(2) by (simp add: Cons_nth_drop_Suc)
    have u: "(map ?g [0..<k] @ drop k (lines W))[k := ?g k] = map ?g [0..<Suc k] @ drop (Suc k) (lines W)"
      by (simp add: d list_update_append)
    have x: "(map ?g [0..<k] @ drop k (lines W)) ! k = lines W ! k" by (simp add: d nth_append)
    have at: "ldat_at P (by + int k) = Some (lines P ! (nat by + k))"
      using assms(5,6) k by (simp add: ldat_at_def nat_add_distrib)
    have "derive_row w orig by bx (int k) t = Some (?t (Suc k))"
      unfolding t derive_row_def modl_def
      using k assms(2-4) at by (simp add: ldat_at_def x u del: upt_Suc map_append) (simp add: set_win_def)
    then show "ok (derive_row w orig by bx (int k) t) (\<lambda>t. t = ?t (Suc k))" by simp
  qed
  then show ?thesis using assms(2) by (auto simp: ok_iff)
qed

lemma derive_made:
  assumes "inv s" and "windows s orig = Some P" and c: "creatable l c s" and "0 \<le> by" and len: "nat by + nat l \<le> length (lines P)"
  shows "derive orig P l by bx (next_win s, with_window (made_window l c (begy P + by) (begx P + bx)
       (if has_flag (flags P) F_ISPAD then F_SUBWIN OR F_ISPAD else F_SUBWIN) s) s)
    = Some (next_win s, with_window (sub_window orig P l c by bx s) s)"
proof -
  define fl where "fl = (if has_flag (flags P) F_ISPAD then F_SUBWIN OR F_ISPAD else F_SUBWIN)"
  define M where "M = made_window l c (begy P + by) (begx P + bx) fl s"
  define V where "V = M\<lparr>pary := by, parx := bx, attrs := attrs P, bkgd := bkgd P\<rparr>"
  define g where "g = (\<lambda>i. (lines V ! i)\<lparr>ltext := (fst (ltext (lines P ! (nat by + i))), snd (ltext (lines P ! (nat by + i))) + bx)\<rparr>)"
  note n = inv_next [OF assms(1)]
  have ow: "orig \<noteq> next_win s" using n(2) assms(2) by auto
  have d: "int (nat l) = l" "to_short (c - 1) = c - 1" using c to_short_dim [of l] to_short_dim [of c] by (auto simp: creatable_def)
  have lV: "lines V = replicate (nat l) \<lparr>ltext = null_text, firstchar = 0, lastchar = c - 1\<rparr>"
    by (simp add: V_def M_def made_lines d(2))
  have e: "modw (next_win s) (\<lambda>W. W\<lparr>pary := by, parx := bx, attrs := attrs P, bkgd := bkgd P\<rparr>) (with_window M s) = Some (with_window V s)"
    by (simp add: modw_def V_def) (simp add: with_window_def set_win_def)
  have "windows (with_window V s) (next_win s) = Some V" "windows (with_window V s) orig = Some P" "length (lines V) = nat l"
    using assms(2) ow by (simp_all add: lV)
  from derive_rows [OF this(1,3,2) ow assms(4) len, of bx]
  have r: "ofold (derive_row (next_win s) orig by bx) [0..l - 1] (with_window V s)
      = Some (set_win (next_win s) (V\<lparr>lines := map g [0..<nat l]\<rparr>) (with_window V s))"
    unfolding g_def d(1) .
  have "sub_window orig P l c by bx s = V\<lparr>lines := map g [0..<nat l], parent := orig\<rparr>"
    by (simp add: sub_window_def g_def lV) (simp add: V_def M_def fl_def)
  then have f: "modw (next_win s) (\<lambda>W. W\<lparr>parent := orig\<rparr>) (set_win (next_win s) (V\<lparr>lines := map g [0..<nat l]\<rparr>) (with_window V s))
      = Some (with_window (sub_window orig P l c by bx s) s)"
    by (simp add: modw_def) (simp add: with_window_def set_win_def)
  show ?thesis unfolding fl_def [symmetric] M_def [symmetric] using n(1) by (simp add: derive_def e r f)
qed

definition derivable :: "int \<Rightarrow> int \<Rightarrow> int \<Rightarrow> int \<Rightarrow> window \<Rightarrow> bool" where
  "derivable num_lines num_columns by bx P \<longleftrightarrow>
     0 \<le> by \<and> 0 \<le> bx \<and> 0 \<le> num_lines \<and> 0 \<le> num_columns \<and> by + num_lines \<le> maxy P + 1 \<and> bx + num_columns \<le> maxx P + 1"

definition rest_if_0 :: "int \<Rightarrow> int \<Rightarrow> int" where
  "rest_if_0 n r = (if n = 0 then r else n)"

lemma derwin_result:
  assumes "inv s" and "windows s orig = Some P" and "in_int (by + num_lines)" and "in_int (bx + num_columns)"
  shows "derwin orig num_lines num_columns by bx s = Some
    (let l = rest_if_0 num_lines (maxy P + 1 - by); c = rest_if_0 num_columns (maxx P + 1 - bx)
     in if derivable num_lines num_columns by bx P \<and> creatable l c s
        then (next_win s, with_window (sub_window orig P l c by bx s) s) else (0, s))"
proof (cases "derivable num_lines num_columns by bx P")
  case False
  then show ?thesis using assms(2-4) by (auto simp: derwin_def derivable_def)
next
  case True
  let ?l = "rest_if_0 num_lines (maxy P + 1 - by)" and ?c = "rest_if_0 num_columns (maxx P + 1 - bx)"
  let ?fl = "if has_flag (flags P) F_ISPAD then F_SUBWIN OR F_ISPAD else F_SUBWIN"
  note k = invD [OF assms(1,2)]
  note n = inv_next [OF assms(1)]
  have ow: "orig \<noteq> next_win s" using n(2) assms(2) by auto
  have m: "nc_makenew ?l ?c (begy P + by) (begx P + bx) ?fl s
      = Some (if creatable ?l ?c s then (next_win s, with_window (made_window ?l ?c (begy P + by) (begx P + bx) ?fl s) s) else (0, s))"
    by (rule makenew_result) (use True win_okD [OF k(1)] in \<open>auto simp: derivable_def\<close>)
  let ?W = "(made_window ?l ?c (begy P + by) (begx P + bx) ?fl s)\<lparr>pary := by, parx := bx, attrs := attrs P, bkgd := bkgd P\<rparr>"
  have "derwin orig num_lines num_columns by bx s = Option.bind (nc_makenew ?l ?c (begy P + by) (begx P + bx) ?fl s) (derive orig P ?l by bx)"
    using True assms(2-4) k(2) by (simp add: derwin_def derivable_def Let_def flip: rest_if_0_def split del: if_split)
  also have "\<dots> = Some (if creatable ?l ?c s then (next_win s, with_window (sub_window orig P ?l ?c by bx s) s) else (0, s))"
  proof (cases "creatable ?l ?c s")
    case False
    then show ?thesis by (simp add: m derive_def)
  next
    case c: True
    then have "0 < ?l" using to_short_dim [of ?l] by (simp add: creatable_def)
    then have len: "nat by + nat ?l \<le> length (lines P)"
      using True win_okD [OF k(1)] by (auto simp: derivable_def rest_if_0_def)
    from derive_made [OF assms(1,2) c _ len] show ?thesis using c True by (simp add: m derivable_def)
  qed
  finally show ?thesis using True by (simp add: Let_def)
qed

lemma sub_fields:
  assumes "creatable l c s" and "0 \<le> begy P + by" and "begy P + by < 32768" and "0 \<le> begx P + bx" and "begx P + bx < 32768"
    and "0 \<le> topstolen s" and "topstolen s < 32768"
  shows "maxy (sub_window orig P l c by bx s) = l - 1" "maxx (sub_window orig P l c by bx s) = c - 1"
    "begy (sub_window orig P l c by bx s) = begy P + by" "begx (sub_window orig P l c by bx s) = begx P + bx"
    "yoffset (sub_window orig P l c by bx s) = topstolen s" "regtop (sub_window orig P l c by bx s) = 0"
    "regbottom (sub_window orig P l c by bx s) = l - 1" "cury (sub_window orig P l c by bx s) = 0" "curx (sub_window orig P l c by bx s) = 0"
  using assms to_short_dim [of c] to_short_dim [of l]
  by (auto simp: sub_window_def made_window_def new_window_def creatable_def to_short_id)

lemma sub_simps [simp]:
  "parent (sub_window orig P l c by bx s) = orig" "pary (sub_window orig P l c by bx s) = by" "parx (sub_window orig P l c by bx s) = bx"
  "immed (sub_window orig P l c by bx s) = False" "has_flag (flags (sub_window orig P l c by bx s)) F_SUBWIN"
  by (simp_all add: sub_window_def made_window_def new_window_def)

lemma distinct_slice: "distinct xs \<Longrightarrow> a + n \<le> length xs \<Longrightarrow> distinct (map (\<lambda>i. xs ! (a + i)) [0..<n])"
  by (auto simp: distinct_map inj_on_def nth_eq_iff_index_eq)

lemma inv_sub:
  assumes "inv s" and P: "windows s orig = Some P" and c: "creatable l c s" and "0 \<le> by" "by + l \<le> maxy P + 1" "0 \<le> bx" "bx + c \<le> maxx P + 1"
    and "begy P + by < 32768" "begx P + bx < 32768"
  shows "inv (with_window (sub_window orig P l c by bx s) s)"
proof (rule inv_with_window [OF assms(1)])
  let ?V = "sub_window orig P l c by bx s" and ?t = "with_window (sub_window orig P l c by bx s) s"
  note k = invD [OF assms(1) P]
  note w = win_okD [OF k(1)]
  have t: "0 \<le> topstolen s" "topstolen s < 32768" using assms(1) by (auto simp: inv_def)
  have d: "0 < l" "l < 32768" "0 < c" "c < 32768" using c to_short_dim [of l] to_short_dim [of c] by (auto simp: creatable_def)
  have b: "0 \<le> begy P + by" "0 \<le> begx P + bx" using w assms(4,6) by auto
  note f = sub_fields [OF c b(1) assms(8) b(2) assms(9) t, of orig]
  have ow: "orig < next_win s" using assms(1) P by (auto simp: inv_def)
  have len: "nat by + nat l \<le> length (lines P)" using w d assms(4,5) by auto
  have row: "row_ok ?t (c - 1) x \<and> mark_ok (c - 1) x" if x: "x \<in> set (lines ?V)" for x
  proof -
    obtain i where i: "i < nat l" "ltext x = (fst (ltext (lines P ! (nat by + i))), snd (ltext (lines P ! (nat by + i))) + bx)"
      "firstchar x = 0" "lastchar x = c - 1"
      using x by (auto simp: sub_window_def)
    then have "lines P ! (nat by + i) \<in> set (lines P)" using len by simp
    then have "row_ok s (maxx P) (lines P ! (nat by + i))" using k(1) by (auto simp: win_ok_def)
    then show ?thesis using i d assms(6,7) by (auto simp: row_ok_def mark_ok_def)
  qed
  have "distinct (map (\<lambda>x. fst (ltext x)) (lines P))" using k(1) by (simp add: win_ok_def)
  from distinct_slice [OF this, of "nat by" "nat l"] len
  have dist: "distinct (map (\<lambda>x. fst (ltext x)) (lines ?V))"
    by (auto simp: sub_window_def o_def distinct_map inj_on_def)
  have len2: "int (length (lines ?V)) = l" using d by (simp add: sub_window_def)
  have l2: "l - 1 < 32767" "c - 1 < 32767" "c - 1 + tabsize s < 32768" using w assms(4-7) by auto
  have "in_parent ?t (next_win s) ?V" using ow P assms(4-7) f by (simp add: in_parent_def)
  then show "win_ok ?t (next_win s) ?V"
    unfolding win_ok_def using row dist f d(1,3) l2 len2 w(2,4) t b assms(8,9) by simp
qed (use assms(1) in \<open>auto simp: inv_def\<close>)

section \<open>Tidy states\<close>

definition child :: "nc \<Rightarrow> nat \<Rightarrow> nat \<Rightarrow> bool" where
  "child s v p \<longleftrightarrow> p \<noteq> 0 \<and> (\<exists>V. windows s v = Some V \<and> parent V = p)"

definition is_root :: "nc \<Rightarrow> nat \<Rightarrow> bool" where
  "is_root s w \<longleftrightarrow> (\<exists>W. windows s w = Some W \<and> parent W = 0)"

definition line_blocks :: "window \<Rightarrow> nat set" where
  "line_blocks W = fst ` set (map ltext (lines W))"

definition blocks_of :: "nc \<Rightarrow> nat \<Rightarrow> nat set" where
  "blocks_of s w = (case windows s w of None \<Rightarrow> {} | Some W \<Rightarrow> line_blocks W)"

text \<open>
  The flag tells which windows are derived; a window that is not derived owns its blocks, which
  start at its lines, and only it and its descendants have lines in them.
\<close>

definition tidy :: "nc \<Rightarrow> bool" where
  "tidy s \<longleftrightarrow>
     (\<forall>w W. windows s w = Some W \<longrightarrow> (has_flag (flags W) F_SUBWIN \<longleftrightarrow> parent W \<noteq> 0)
        \<and> (parent W = 0 \<longrightarrow> (\<forall>l \<in> set (map ltext (lines W)). snd l = 0)))
     \<and> (\<forall>v w. is_root s w \<and> blocks_of s v \<inter> blocks_of s w \<noteq> {} \<longrightarrow> (child s)\<^sup>*\<^sup>* v w)"

lemma geom_same_windows:
  assumes "shape t = shape s"
  shows "child t = child s" "is_root t = is_root s" "blocks_of t = blocks_of s"
proof -
  have e: "(\<exists>V. windows t v = Some V \<and> Q (geom V)) \<longleftrightarrow> (\<exists>V. windows s v = Some V \<and> Q (geom V))" for v Q
    using shape_windows [OF assms, of v] by (cases "windows t v"; cases "windows s v") auto
  have p: "parent V = fst (snd (snd (snd (geom V))))" "map ltext (lines V) = fst (snd (snd (geom V)))" for V
    by (simp_all add: geom_def)
  show "child t = child s" using e [of _ "\<lambda>g. fst (snd (snd (snd g))) = _"] by (simp add: child_def fun_eq_iff p(1))
  show "is_root t = is_root s" using e [of _ "\<lambda>g. fst (snd (snd (snd g))) = _"] by (simp add: is_root_def fun_eq_iff p(1))
  show "blocks_of t = blocks_of s"
  proof
    fix w show "blocks_of t w = blocks_of s w"
      using shape_windows [OF assms, of w]
      by (cases "windows t w"; cases "windows s w") (auto simp: blocks_of_def line_blocks_def p(2) simp del: set_map)
  qed
qed

lemma tidy_shape: "shape t = shape s \<Longrightarrow> tidy s \<Longrightarrow> tidy t"
proof -
  assume sh: "shape t = shape s" and s: "tidy s"
  have "(has_flag (flags W) F_SUBWIN \<longleftrightarrow> parent W \<noteq> 0) \<and> (parent W = 0 \<longrightarrow> (\<forall>l \<in> set (map ltext (lines W)). snd l = 0))"
    if W: "windows t w = Some W" for w W
  proof -
    obtain V where V: "windows s w = Some V" "geom V = geom W" using shape_winE [OF sh [symmetric] W] .
    then have "(has_flag (flags V) F_SUBWIN \<longleftrightarrow> parent V \<noteq> 0) \<and> (parent V = 0 \<longrightarrow> (\<forall>l \<in> set (map ltext (lines V)). snd l = 0))"
      using s unfolding tidy_def by blast
    then show ?thesis using geomD [OF V(2)] by metis
  qed
  then show "tidy t" using s geom_same_windows [OF sh] unfolding tidy_def by metis
qed

lemma inv_blocks:
  assumes "inv s" and "b \<in> blocks_of s v"
  shows "cells s b \<noteq> None \<and> b < next_cells s"
proof -
  obtain V l where V: "windows s v = Some V" "l \<in> set (lines V)" "b = fst (ltext l)"
    using assms(2) by (auto simp: blocks_of_def line_blocks_def split: option.splits)
  then have "row_ok s (maxx V) l" using invD(1) [OF assms(1) V(1)] by (auto simp: win_ok_def)
  then show ?thesis using V(3) assms(1) by (auto simp: row_ok_def inv_def)
qed

lemma tidy_with_window:
  assumes "inv s" and "tidy s" and e: "windows s' = windows s" "next_win s' = next_win s"
    and fl: "has_flag (flags W) F_SUBWIN \<longleftrightarrow> parent W \<noteq> 0"
    and own: "parent W = 0 \<Longrightarrow> (\<forall>l \<in> set (map ltext (lines W)). snd l = 0) \<and> (\<forall>v. line_blocks W \<inter> blocks_of s v = {})"
    and sub: "parent W \<noteq> 0 \<Longrightarrow> windows s (parent W) \<noteq> None \<and> line_blocks W \<subseteq> blocks_of s (parent W)"
  shows "tidy (with_window W s')"
proof -
  let ?t = "with_window W s'" and ?n = "next_win s"
  note n = inv_next [OF assms(1)]
  have c: "child ?t v q \<longleftrightarrow> v = ?n \<and> q = parent W \<and> q \<noteq> 0 \<or> child s v q" for v q
    using n(2) e by (auto simp: child_def)
  have cm: "(child s)\<^sup>*\<^sup>* v q \<Longrightarrow> (child ?t)\<^sup>*\<^sup>* v q" for v q
    by (rule mono_rtranclp [rule_format, of "child s" "child ?t"]) (simp_all add: c)
  have b: "blocks_of ?t v = (if v = ?n then line_blocks W else blocks_of s v)" for v
    using e by (simp add: blocks_of_def)
  have r: "is_root ?t v \<longleftrightarrow> (if v = ?n then parent W = 0 else is_root s v)" for v
    using e by (simp add: is_root_def)
  have td: "is_root s w \<Longrightarrow> blocks_of s v \<inter> blocks_of s w \<noteq> {} \<Longrightarrow> (child s)\<^sup>*\<^sup>* v w" for v w
    using assms(2) unfolding tidy_def by blast
  have share: "(child ?t)\<^sup>*\<^sup>* v w" if h: "is_root ?t w" "blocks_of ?t v \<inter> blocks_of ?t w \<noteq> {}" for v w
  proof -
    consider "v = ?n" "w = ?n" | "v \<noteq> ?n" "w = ?n" | "v = ?n" "w \<noteq> ?n" | "v \<noteq> ?n" "w \<noteq> ?n" by blast
    then show ?thesis
    proof cases
      case 1
      then show ?thesis by simp
    next
      case 2
      then show ?thesis using h own by (auto simp: b r)
    next
      case 3
      then have w: "is_root s w" "line_blocks W \<inter> blocks_of s w \<noteq> {}" using h by (simp_all add: b r)
      then have p: "parent W \<noteq> 0" using own by blast
      have "blocks_of s (parent W) \<inter> blocks_of s w \<noteq> {}" using sub [OF p] w(2) by blast
      then have "(child ?t)\<^sup>*\<^sup>* (parent W) w" using td [OF w(1)] cm by blast
      moreover have "child ?t v (parent W)" using 3 p by (simp add: c)
      ultimately show ?thesis by (rule converse_rtranclp_into_rtranclp [rotated])
    next
      case 4
      then show ?thesis using h td cm by (simp add: b r)
    qed
  qed
  have "(has_flag (flags V) F_SUBWIN \<longleftrightarrow> parent V \<noteq> 0) \<and> (parent V = 0 \<longrightarrow> (\<forall>l \<in> set (map ltext (lines V)). snd l = 0))"
    if "windows ?t v = Some V" for v V
    using that assms(2) e fl own unfolding tidy_def by (simp split: if_splits)
  then show ?thesis using share unfolding tidy_def by blast
qed

lemma own_flags: "has_flag (flags (own_window l c by bx fl s)) F_SUBWIN \<longleftrightarrow> has_flag fl F_SUBWIN"
  by (auto simp: own_window_def made_window_def Let_def)

lemma tidy_own:
  assumes "inv s" and "tidy s" and "creatable l c s" and "\<not> has_flag fl F_SUBWIN"
  shows "tidy (with_window (own_window l c by bx fl s) (fresh_cells (nat l) (nat c) s))"
proof (rule tidy_with_window [OF assms(1,2)])
  have p: "parent (own_window l c by bx fl s) = 0" by (simp add: own_window_def made_window_def new_window_def Let_def)
  then show "has_flag (flags (own_window l c by bx fl s)) F_SUBWIN \<longleftrightarrow> parent (own_window l c by bx fl s) \<noteq> 0"
    using assms(4) own_flags by simp
  have "line_blocks (own_window l c by bx fl s) \<inter> blocks_of s v = {}" for v
    using inv_blocks [OF assms(1), of _ v] by (fastforce simp: line_blocks_def own_lines [OF assms(3)])
  then show "(\<forall>x \<in> set (map ltext (lines (own_window l c by bx fl s))). snd x = 0)
      \<and> (\<forall>v. line_blocks (own_window l c by bx fl s) \<inter> blocks_of s v = {})"
    by (auto simp: own_lines [OF assms(3)])
  show "parent (own_window l c by bx fl s) \<noteq> 0 \<Longrightarrow> windows s (parent (own_window l c by bx fl s)) \<noteq> None
      \<and> line_blocks (own_window l c by bx fl s) \<subseteq> blocks_of s (parent (own_window l c by bx fl s))"
    using p by simp
qed simp_all

lemma tidy_sub:
  assumes "inv s" and "tidy s" and "windows s orig = Some P" and "nat by + nat l \<le> length (lines P)"
  shows "tidy (with_window (sub_window orig P l c by bx s) s)"
proof (rule tidy_with_window [OF assms(1,2)])
  have "orig \<noteq> 0" using invD(2) [OF assms(1,3)] .
  then show "has_flag (flags (sub_window orig P l c by bx s)) F_SUBWIN \<longleftrightarrow> parent (sub_window orig P l c by bx s) \<noteq> 0" by simp
  show "parent (sub_window orig P l c by bx s) = 0 \<Longrightarrow> (\<forall>x \<in> set (map ltext (lines (sub_window orig P l c by bx s))). snd x = 0)
      \<and> (\<forall>v. line_blocks (sub_window orig P l c by bx s) \<inter> blocks_of s v = {})"
    using \<open>orig \<noteq> 0\<close> by simp
  have "line_blocks (sub_window orig P l c by bx s) \<subseteq> line_blocks P"
    using assms(4) by (auto simp: line_blocks_def sub_window_def image_image)
  then show "windows s (parent (sub_window orig P l c by bx s)) \<noteq> None
      \<and> line_blocks (sub_window orig P l c by bx s) \<subseteq> blocks_of s (parent (sub_window orig P l c by bx s))"
    using assms(3) by (simp add: blocks_of_def)
qed simp_all

lemma tidy_dropped: "tidy s \<Longrightarrow> tidy (dropped s)"
  by (simp add: tidy_def dropped_def child_def [abs_def] is_root_def [abs_def] blocks_of_def [abs_def])

section \<open>Deleting a window\<close>

lemma cannot_delete_loop_True: "cannot_delete_loop w ps r s = Some b \<Longrightarrow> \<exists>p \<in> set ps. p \<noteq> w \<and> (\<exists>P. windows s p = Some P \<and> has_flag (flags P) F_SUBWIN \<and> parent P = w) \<Longrightarrow> b"
  by (induction w ps r s rule: cannot_delete_loop.induct) (auto simp: bind_eq_Some_conv split: if_splits)

lemma cannot_delete_loop_ok:
  assumes "\<forall>p \<in> set ps. windows s p \<noteq> None"
  shows "\<exists>b. cannot_delete_loop w ps r s = Some b"
  using assms by (induction w ps r s rule: cannot_delete_loop.induct) auto

lemma cannot_delete_loop_False:
  "\<forall>p \<in> set ps. p \<noteq> w \<longrightarrow> (\<exists>P. windows s p = Some P \<and> \<not> (has_flag (flags P) F_SUBWIN \<and> parent P = w)) \<Longrightarrow>
    cannot_delete_loop w ps r s = Some (if w \<in> set ps then False else r)"
proof (induction w ps r s rule: cannot_delete_loop.induct)
  case (2 w p ps r s)
  show ?case
  proof (cases "p = w")
    case True
    then show ?thesis using 2(1) 2(3) by simp
  next
    case False
    then obtain P where "windows s p = Some P" "\<not> (has_flag (flags P) F_SUBWIN \<and> parent P = w)" using 2(3) by auto
    then show ?thesis using False 2(2) [OF False] 2(3) by auto
  qed
qed simp

lemma cannot_delete_iff:
  assumes "inv s" and "tidy s" and "windows s w = Some W"
  shows "cannot_delete w s = Some (\<exists>v. child s v w)"
proof (cases "\<exists>v. child s v w")
  case True
  then obtain v V where v: "windows s v = Some V" "parent V = w" "w \<noteq> 0" by (auto simp: child_def)
  have "v \<in> set (windowlist s)" using assms(1) v(1) by (auto simp: inv_def)
  moreover have "v \<noteq> w" using invD(1) [OF assms(1) v(1)] v(2,3) by (auto simp: win_ok_def in_parent_def)
  moreover have "has_flag (flags V) F_SUBWIN" using assms(2) v unfolding tidy_def by blast
  moreover obtain b where "cannot_delete w s = Some b"
    using cannot_delete_loop_ok [of "windowlist s" s w True] assms(1) by (auto simp: cannot_delete_def inv_def dom_def)
  ultimately show ?thesis using cannot_delete_loop_True [of w "windowlist s" True s b] v True by (auto simp: cannot_delete_def)
next
  case False
  have "w \<in> set (windowlist s)" "w \<noteq> 0" using assms(1,3) invD(2) [OF assms(1,3)] by (auto simp: inv_def)
  moreover have "\<forall>p \<in> set (windowlist s). p \<noteq> w \<longrightarrow> (\<exists>P. windows s p = Some P \<and> \<not> (has_flag (flags P) F_SUBWIN \<and> parent P = w))"
    using assms(1) False \<open>w \<noteq> 0\<close> by (auto simp: inv_def child_def dom_def)
  ultimately show ?thesis using cannot_delete_loop_False [of "windowlist s" w s True] False by (simp add: cannot_delete_def)
qed

text \<open>The state without a window, and without its cells when it has cells of its own.\<close>

definition without :: "nat \<Rightarrow> window \<Rightarrow> nc \<Rightarrow> nc" where
  "without w W s = (remove_window_from_screen w s)\<lparr>windows := (windows s)(w := None), windowlist := remove1 w (windowlist s),
     cells := (if parent W = 0 then (\<lambda>b. if b \<in> line_blocks W then None else cells s b) else cells s)\<rparr>"

lemma remove_screen_simps [simp]:
  "windows (remove_window_from_screen w s) = windows s" "windowlist (remove_window_from_screen w s) = windowlist s"
  "cells (remove_window_from_screen w s) = cells s"
  by (simp_all add: remove_window_from_screen_def)

lemma free_lines:
  assumes "int (length (lines W)) = maxy W + 1" and "distinct (map (\<lambda>l. fst (ltext l)) (lines W))"
    and "\<forall>l \<in> set (lines W). snd (ltext l) = 0 \<and> cells s (fst (ltext l)) \<noteq> None"
  shows "ofold (\<lambda>i t. do { l \<leftarrow> ldat_at W i; free_text (ltext l) t }) [0..maxy W] s
    = Some (s\<lparr>cells := \<lambda>b. if b \<in> line_blocks W then None else cells s b\<rparr>)"
proof -
  let ?t = "\<lambda>k. s\<lparr>cells := \<lambda>b. if b \<in> fst ` ltext ` set (take k (lines W)) then None else cells s b\<rparr>"
  have "ok (ofold (\<lambda>i t. do { l \<leftarrow> ldat_at W i; free_text (ltext l) t }) [0..int (length (lines W)) - 1] s) (\<lambda>t. t = ?t (length (lines W)))"
  proof (rule ok_ofold_count [where I = "\<lambda>k t. t = ?t k"])
    show "s = ?t 0" by simp
    fix k t assume k: "k < length (lines W)" and t: "t = ?t k"
    have tk: "take (Suc k) (lines W) = take k (lines W) @ [lines W ! k]" using k by (rule take_Suc_conv_app_nth)
    have nin: "fst (ltext (lines W ! k)) \<notin> fst ` ltext ` set (take k (lines W))"
      using assms(2) k by (auto simp: in_set_conv_nth distinct_conv_nth)
    have p: "snd (ltext (lines W ! k)) = 0" "cells s (fst (ltext (lines W ! k))) \<noteq> None" using assms(3) k by simp_all
    have "ltext (lines W ! k) \<noteq> null_text" using p(1) by (auto simp: null_text_def)
    then have "free_text (ltext (lines W ! k)) t = Some (t\<lparr>cells := (cells t)(fst (ltext (lines W ! k)) := None)\<rparr>)"
      using p nin by (simp add: free_text_def t)
    also have "t\<lparr>cells := (cells t)(fst (ltext (lines W ! k)) := None)\<rparr> = ?t (Suc k)"
      by (simp add: t tk fun_eq_iff cong: if_cong)
    finally show "ok (do { l \<leftarrow> ldat_at W (int k); free_text (ltext l) t }) (\<lambda>t. t = ?t (Suc k))"
      using k by (simp add: ldat_at_def)
  qed
  then show ?thesis using assms(1) by (auto simp: ok_iff line_blocks_def)
qed

lemma freewin_result:
  assumes "inv s" and "tidy s" and "windows s w = Some W"
  shows "nc_freewin w s = Some (OK, without w W s)"
proof -
  note k = invD [OF assms(1,3)]
  have wl: "w \<in> set (windowlist s)" using assms(1,3) by (auto simp: inv_def)
  have fl: "has_flag (flags W) F_SUBWIN \<longleftrightarrow> parent W \<noteq> 0" using assms(2,3) unfolding tidy_def by blast
  show ?thesis
  proof (cases "parent W = 0")
    case False
    then show ?thesis using wl k(2) fl assms(3)
      by (simp add: nc_freewin_def without_def)
  next
    case True
    let ?s = "(remove_window_from_screen w s)\<lparr>windowlist := remove1 w (windowlist s)\<rparr>"
    have "\<forall>l \<in> set (lines W). snd (ltext l) = 0" using assms(2,3) True unfolding tidy_def by fastforce
    moreover have "\<forall>l \<in> set (lines W). cells ?s (fst (ltext l)) \<noteq> None" using k(1) by (auto simp: win_ok_def row_ok_def)
    ultimately have "ofold (\<lambda>i t. do { l \<leftarrow> ldat_at W i; free_text (ltext l) t }) [0..maxy W] ?s
        = Some (?s\<lparr>cells := \<lambda>b. if b \<in> line_blocks W then None else cells ?s b\<rparr>)"
      using free_lines [of W ?s] k(1) by (auto simp: win_ok_def)
    then show ?thesis using wl k(2) fl assms(3) True
      by (simp add: nc_freewin_def without_def cong: if_cong)
  qed
qed

lemma without_fields [simp]:
  "windows (without w W s) = (windows s)(w := None)" "windowlist (without w W s) = remove1 w (windowlist s)"
  "next_win (without w W s) = next_win s" "next_cells (without w W s) = next_cells s" "tabsize (without w W s) = tabsize s"
  "topstolen (without w W s) = topstolen s"
  by (simp_all add: without_def) (simp_all add: remove_window_from_screen_def)

lemma without_screens:
  "w \<noteq> newscr s \<Longrightarrow> newscr (without w W s) = newscr s" "w \<noteq> curscr s \<Longrightarrow> curscr (without w W s) = curscr s"
  by (simp_all add: without_def) (simp_all add: remove_window_from_screen_def)

text \<open>The cells of another window are still there.\<close>

lemma without_cells:
  assumes "tidy s" and "windows s w = Some W" and "\<nexists>v. child s v w" and "windows s v = Some V" and "v \<noteq> w" and "b \<in> line_blocks V"
  shows "cells (without w W s) b = cells s b"
proof (rule ccontr)
  assume "cells (without w W s) b \<noteq> cells s b"
  then have "parent W = 0" "b \<in> line_blocks W" by (auto simp: without_def split: if_splits)
  then have "is_root s w" "blocks_of s v \<inter> blocks_of s w \<noteq> {}" using assms(2,4,6) by (auto simp: is_root_def blocks_of_def)
  then have "(child s)\<^sup>*\<^sup>* v w" using assms(1) unfolding tidy_def by blast
  then show False using assms(3,5) by (metis rtranclp.cases)
qed

lemma without_ok:
  assumes i: "inv s" "tidy s" and w: "windows s w = Some W" "\<nexists>v. child s v w" "w \<noteq> newscr s" "w \<noteq> curscr s"
  shows "inv (without w W s)" "tidy (without w W s)"
proof -
  let ?t = "without w W s"
  note sc = without_screens(1) [OF w(3), of W] without_screens(2) [OF w(4), of W]
  have old: "win_ok ?t v V" if v: "windows s v = Some V" "v \<noteq> w" for v V
  proof -
    note k = invD [OF i(1) v(1)]
    have "cells ?t (fst (ltext l)) = cells s (fst (ltext l))" if "l \<in> set (lines V)" for l
      by (rule without_cells [OF i(2) w(1,2) v]) (use that in \<open>auto simp: line_blocks_def\<close>)
    then have row: "row_ok ?t (maxx V) l" if "l \<in> set (lines V)" for l
      using that k(1) by (auto simp: win_ok_def row_ok_def)
    have "parent V \<noteq> w" if "parent V \<noteq> 0" using w(2) v(1) that by (auto simp: child_def)
    then have "parent V \<noteq> 0 \<longrightarrow> in_parent ?t v V" using k(1) by (auto simp: win_ok_def in_parent_def)
    then show ?thesis using k(1) row sc by (simp add: win_ok_def)
  qed
  have "b < next_cells s" if "cells ?t b \<noteq> None" for b
    using that i(1) by (auto simp: without_def inv_def split: if_splits)
  moreover have "set (remove1 w (windowlist s)) = set (windowlist s) - {w}" using i(1) by (auto simp: inv_def)
  ultimately show "inv ?t" using i(1) old sc w(3,4) by (auto simp: inv_def)
  have ch: "child ?t v q \<longleftrightarrow> v \<noteq> w \<and> child s v q" for v q by (simp add: child_def)
  have path: "(child s)\<^sup>*\<^sup>* v u \<Longrightarrow> v \<noteq> w \<Longrightarrow> (child ?t)\<^sup>*\<^sup>* v u" for v u
  proof (induction rule: converse_rtranclp_induct)
    case base
    then show ?case by simp
  next
    case (step v v1)
    then have "v1 \<noteq> w" using w(2) by auto
    then show ?case using step ch by (metis converse_rtranclp_into_rtranclp)
  qed
  have bl: "blocks_of ?t v = (if v = w then {} else blocks_of s v)" "is_root ?t v \<longleftrightarrow> v \<noteq> w \<and> is_root s v" for v
    by (simp_all add: blocks_of_def is_root_def)
  have "(child ?t)\<^sup>*\<^sup>* v u" if "is_root ?t u" "blocks_of ?t v \<inter> blocks_of ?t u \<noteq> {}" for v u
  proof -
    have "v \<noteq> w" "is_root s u" "blocks_of s v \<inter> blocks_of s u \<noteq> {}" using that by (auto simp: bl split: if_splits)
    then show ?thesis using i(2) path unfolding tidy_def by blast
  qed
  then show "tidy ?t" using i(2) unfolding tidy_def by auto
qed

lemma touchwin_cells:
  assumes "touchwin w s = Some (r, t)"
  shows "cells t = cells s"
proof -
  have m: "modl v y f s' = Some t' \<Longrightarrow> cells t' = cells s'" for v y f s' t'
    by (auto simp: modl_def bind_eq_Some_conv)
  have "ofold (touch_line w True) xs s' = Some t' \<Longrightarrow> cells t' = cells s'" for xs s' t'
    by (induction xs arbitrary: s') (auto simp: touch_line_def bind_eq_Some_conv dest: m)
  then show ?thesis using assms by (auto simp: touchwin_def wtouchln_def bind_eq_Some_conv split: if_splits)
qed

text \<open>The result of \<open>delwin\<close>.\<close>

lemma delwin_result:
  assumes i: "inv s" "tidy s" and w: "windows s w = Some W" "w \<noteq> newscr s" "w \<noteq> curscr s"
  shows "if \<exists>v. child s v w then delwin w s = Some (ERR, s)
    else \<exists>s1 W1. steady s s1 \<and> cells s1 = cells s \<and> windows s1 w = Some W1 \<and> delwin w s = Some (OK, without w W1 s1)
           \<and> inv (without w W1 s1) \<and> tidy (without w W1 s1)"
proof (cases "\<exists>v. child s v w")
  case True
  then show ?thesis using cannot_delete_iff [OF i w(1)] invD(2) [OF i(1) w(1)] by (simp add: delwin_def)
next
  case False
  note k = invD [OF i(1) w(1)]
  have fl: "has_flag (flags W) F_SUBWIN \<longleftrightarrow> parent W \<noteq> 0" using i(2) w(1) unfolding tidy_def by blast
  obtain C where C: "windows s (curscr s) = Some C" using i(1) by (auto simp: inv_def)
  have "curscr s \<noteq> 0" using invD(2) [OF i(1) C] .
  define u where "u = (if has_flag (flags W) F_SUBWIN then parent W else curscr s)"
  have "\<exists>U. windows s u = Some U"
    using C fl k(1) by (auto simp: u_def win_ok_def in_parent_def)
  then obtain U where U: "windows s u = Some U" by blast
  have "ok (touchwin u s) (\<lambda>(r, s'). evolves u UNIV s s')" by (rule ok_touchwin [OF evolves_refl [OF i(1)] U])
  then obtain r s1 where s1: "touchwin u s = Some (r, s1)" "steady s s1"
    by (rule ok_pairE) (auto dest: evolves_steady)
  have sh: "shape s1 = shape s" using steadyD(2) [OF s1(2)] .
  obtain W1 where W1: "windows s1 w = Some W1" using shape_winE [OF sh w(1)] .
  note j = steadyD(1) [OF s1(2)] tidy_shape [OF sh i(2)]
  have "\<nexists>v. child s1 v w" using False geom_same_windows(1) [OF sh] by simp
  note ok = without_ok [OF j W1 this] freewin_result [OF j W1]
  have nd: "cannot_delete w s = Some False" using cannot_delete_iff [OF i w(1)] False by simp
  have "(if has_flag (flags W) F_SUBWIN then touchwin (parent W) s
         else if curscr s \<noteq> 0 then touchwin (curscr s) s else Some (OK, s)) = Some (r, s1)"
    using s1(1) \<open>curscr s \<noteq> 0\<close> by (simp add: u_def split: if_splits)
  then have "delwin w s = Some (OK, without w W1 s1)" using k(2) nd w(1) ok(3) by (simp add: delwin_def)
  then show ?thesis using False s1(2) W1 ok(1,2) shape_consts [OF sh] w(2,3) touchwin_cells [OF s1(1)] by auto
qed

section \<open>Moving and copying keep the state tidy\<close>

lemma inv_set_same_size:
  assumes "inv s" and "windows s w = Some W" and "win_ok s w W'" and "maxy W' = maxy W" and "maxx W' = maxx W"
  shows "inv (set_win w W' s)"
proof -
  have p: "\<exists>Q. ((windows s)(w \<mapsto> W')) q = Some Q \<and> maxy Q = maxy P \<and> maxx Q = maxx P" if "windows s q = Some P" for q P
    using that assms(2,4,5) by auto
  have "win_ok (set_win w W' s) v V" if v: "windows (set_win w W' s) v = Some V" for v V
  proof -
    have "win_ok s v V" using v assms(1,3) by (auto simp: inv_def split: if_splits)
    then show ?thesis by (rule win_ok_mono) (simp_all only: p set_win_simps)
  qed
  moreover have "w < next_win s" "w \<noteq> 0" using assms(1,2) invD(2) [OF assms(1,2)] by (auto simp: inv_def)
  ultimately show ?thesis using assms(1,2) by (auto simp: inv_def)
qed

lemma tidy_set_win:
  assumes "tidy s" and w: "windows s w = Some W" and p: "parent W' = parent W" and fl: "has_flag (flags W') F_SUBWIN = has_flag (flags W) F_SUBWIN"
    and b: "map ltext (lines W') = map ltext (lines W) \<or> parent W \<noteq> 0 \<and> line_blocks W' \<subseteq> blocks_of s (parent W)"
  shows "tidy (set_win w W' s)"
proof -
  let ?t = "set_win w W' s"
  have c: "child ?t = child s" and r: "is_root ?t = is_root s" using w p by (auto simp: child_def is_root_def fun_eq_iff)
  have bl: "blocks_of ?t v = (if v = w then line_blocks W' else blocks_of s v)" for v by (simp add: blocks_of_def)
  have td: "is_root s u \<Longrightarrow> blocks_of s v \<inter> blocks_of s u \<noteq> {} \<Longrightarrow> (child s)\<^sup>*\<^sup>* v u" for v u
    using assms(1) unfolding tidy_def by blast
  have same: "map ltext (lines W') = map ltext (lines W) \<Longrightarrow> blocks_of ?t = blocks_of s"
    using w bl by (auto simp: blocks_of_def line_blocks_def fun_eq_iff)
  have share: "(child s)\<^sup>*\<^sup>* v u" if h: "is_root s u" "blocks_of ?t v \<inter> blocks_of ?t u \<noteq> {}" for v u
  proof (cases "map ltext (lines W') = map ltext (lines W)")
    case True
    then show ?thesis using same td h by simp
  next
    case False
    then have q: "parent W \<noteq> 0" "line_blocks W' \<subseteq> blocks_of s (parent W)" using b by auto
    have u: "u \<noteq> w" using h(1) w q(1) by (auto simp: is_root_def)
    show ?thesis
    proof (cases "v = w")
      case True
      then have "blocks_of s (parent W) \<inter> blocks_of s u \<noteq> {}" using h(2) u q(2) by (auto simp: bl)
      then have "(child s)\<^sup>*\<^sup>* (parent W) u" by (rule td [OF h(1)])
      moreover have "child s w (parent W)" using w q(1) by (simp add: child_def)
      ultimately show ?thesis using True by (metis converse_rtranclp_into_rtranclp)
    next
      case vw: False
      then show ?thesis using td [OF h(1), of v] h(2) u by (simp add: bl)
    qed
  qed
  have "(has_flag (flags V) F_SUBWIN \<longleftrightarrow> parent V \<noteq> 0) \<and> (parent V = 0 \<longrightarrow> (\<forall>l \<in> set (map ltext (lines V)). snd l = 0))"
    if v: "windows ?t x = Some V" for x V
  proof (cases "x = w")
    case True
    have "(has_flag (flags W) F_SUBWIN \<longleftrightarrow> parent W \<noteq> 0) \<and> (parent W = 0 \<longrightarrow> (\<forall>l \<in> set (map ltext (lines W)). snd l = 0))"
      using assms(1) w unfolding tidy_def by blast
    moreover have "W' = V" using True v by simp
    moreover have "parent W = 0 \<Longrightarrow> map ltext (lines W') = map ltext (lines W)" using b by blast
    ultimately show ?thesis using p fl by metis
  next
    case False
    then show ?thesis using assms(1) v unfolding tidy_def by simp
  qed
  then show ?thesis using share unfolding tidy_def c r by blast
qed

definition good :: "nc \<Rightarrow> bool" where
  "good s \<longleftrightarrow> inv s \<and> tidy s"

lemma good_steady: "steady s t \<Longrightarrow> good s \<Longrightarrow> good t"
  using tidy_shape steadyD(1,2) by (auto simp: good_def)

lemma mvwin_good:
  assumes "good s" and w: "windows s w = Some W" and "in_int by" "in_int bx" "by < 32768" "bx < 32768"
  shows "ok (mvwin w by bx s) (\<lambda>(r, t). good t)"
proof (cases "has_flag (flags W) F_ISPAD \<or> by + maxy W > screen_lines s - 1 \<or> bx + maxx W > screen_columns s - 1 \<or> by < 0 \<or> bx < 0")
  case True
  have "inv s" using assms(1) by (simp add: good_def)
  from invD [OF this w] have "in_int (by + maxy W)" "in_int (bx + maxx W)" "w \<noteq> 0" using assms(3-6) by (auto simp: win_ok_def in_int_def)
  then show ?thesis using True w assms(1) by (auto simp: mvwin_def)
next
  case False
  have i: "inv s" "tidy s" using assms(1) by (simp_all add: good_def)
  note k = invD [OF i(1) w]
  let ?W = "W\<lparr>begy := to_short by, begx := to_short bx\<rparr>"
  have b: "to_short by = by" "to_short bx = bx" using False assms(5,6) by (auto intro: to_short_id)
  have "win_ok s w ?W" using k(1) b False assms(5,6) by (auto simp: win_ok_def in_parent_def)
  from inv_set_same_size [OF i(1) w this] have i1: "inv (set_win w ?W s)" by simp
  have t1: "tidy (set_win w ?W s)" by (rule tidy_set_win [OF i(2) w]) simp_all
  have "ok (touchwin w (set_win w ?W s)) (\<lambda>(r, s'). evolves w UNIV (set_win w ?W s) s')"
    by (rule ok_touchwin [OF evolves_refl [OF i1]]) simp
  then have "ok (touchwin w (set_win w ?W s)) (\<lambda>(r, s'). good s')"
    by (rule ok_mono) (use i1 t1 in \<open>auto simp: good_def intro: evolves_steady [THEN good_steady, unfolded good_def, THEN conjunct1]
        evolves_steady [THEN good_steady, unfolded good_def, THEN conjunct2]\<close>)
  moreover have "in_int (by + maxy W)" "in_int (bx + maxx W)" using assms(3-6) False k(1) by (auto simp: win_ok_def in_int_def)
  ultimately show ?thesis using False w k(2) by (simp add: mvwin_def modw_def)
qed

lemma set_win_twice: "set_win w V (set_win w U s) = set_win w V s"
  by (simp add: set_win_def)

lemma mvderwin_loop:
  "(\<lambda>i t. do { orig \<leftarrow> windows t p; ol \<leftarrow> ldat_at orig (y + i);
      modl w i (\<lambda>l. l\<lparr>ltext := (fst (ltext ol), snd (ltext ol) + x)\<rparr>) t }) = derive_row w p y x"
  by (simp add: derive_row_def fun_eq_iff)

lemma mvderwin_good:
  assumes "good s" and w: "windows s w = Some W" and "in_int (x + (maxx W + 1))" "in_int (y + (maxy W + 1))"
  shows "ok (mvderwin w y x s) (\<lambda>(r, t). good t)"
proof (cases "parent W = 0 \<or> x < 0 \<or> y < 0")
  case True
  have i: "inv s" using assms(1) by (simp add: good_def)
  note k = invD [OF i w]
  have "parent W \<noteq> 0 \<Longrightarrow> \<exists>P. windows s (parent W) = Some P" using k(1) by (auto simp: win_ok_def in_parent_def)
  then show ?thesis using True w k(2) assms(1) by (auto simp: mvderwin_def)
next
  case False
  have i: "inv s" "tidy s" using assms(1) by (simp_all add: good_def)
  note k = invD [OF i(1) w]
  obtain P where P: "windows s (parent W) = Some P" "parent W < w" using k(1) False by (auto simp: win_ok_def in_parent_def)
  show ?thesis
  proof (cases "x + (maxx W + 1) \<le> maxx P + 1 \<and> y + (maxy W + 1) \<le> maxy P + 1")
    case no: False
    then show ?thesis using False P w k(2) assms by (auto simp: mvderwin_def)
  next
    case yes: True
    obtain s1 where s1: "wsyncup w s = Some s1" "evolves w UNIV s s1"
      using ok_wsyncup [OF evolves_refl [OF i(1)] w] by (rule okE)
    have sh: "shape s1 = shape s" using evolvesD(2) [OF s1(2)] .
    have i1: "inv s1" "tidy s1" using evolvesD(1) [OF s1(2)] tidy_shape [OF sh i(2)] by simp_all
    obtain W1 where W1: "windows s1 w = Some W1" "geom W1 = geom W" using shape_winE [OF sh w] .
    obtain P1 where P1: "windows s1 (parent W) = Some P1" "geom P1 = geom P" using shape_winE [OF sh P(1)] .
    note g = geomD [OF W1(2)] geomD [OF P1(2)]
    note k1 = invD [OF i1(1) W1(1)] and kp = invD [OF i1(1) P1(1)]
    define n where "n = length (lines W1)"
    have n: "int n = maxy W + 1" using win_okD(5) [OF k1(1)] g by (simp add: n_def)
    have len: "nat y + n \<le> length (lines P1)" using win_okD(5) [OF kp(1)] n g yes False by auto
    define V where "V = W1\<lparr>parx := x, pary := y\<rparr>"
    define L where "L = map (\<lambda>i. (lines V ! i)\<lparr>ltext := (fst (ltext (lines P1 ! (nat y + i))), snd (ltext (lines P1 ! (nat y + i))) + x)\<rparr>) [0..<n]"
    have wp: "parent W \<noteq> w" using P(2) by simp
    have d: "windows (set_win w V s1) w = Some V" "windows (set_win w V s1) (parent W) = Some P1" "length (lines V) = n"
      using P1(1) wp by (simp_all add: V_def n_def)
    have y: "0 \<le> y" "int n - 1 = maxy W" using False n by simp_all
    note r = derive_rows [OF d(1,3,2) wp y(1) len, of x, unfolded y(2) set_win_twice, folded L_def]
    have "win_ok s1 w (V\<lparr>lines := L\<rparr>)"
    proof -
      have row: "row_ok s1 (maxx W) l \<and> mark_ok (maxx W) l" if l: "l \<in> set L" for l
      proof -
        obtain j where j: "j < n" "l = (lines W1 ! j)\<lparr>ltext := (fst (ltext (lines P1 ! (nat y + j))), snd (ltext (lines P1 ! (nat y + j))) + x)\<rparr>"
          using l by (auto simp: L_def V_def)
        have "lines P1 ! (nat y + j) \<in> set (lines P1)" "lines W1 ! j \<in> set (lines W1)" using j(1) len by (simp_all add: n_def)
        then have q: "row_ok s1 (maxx P1) (lines P1 ! (nat y + j))" "mark_ok (maxx W1) (lines W1 ! j)"
          using kp(1) k1(1) by (simp_all add: win_ok_def)
        have "maxx W1 = maxx W" "x + maxx W \<le> maxx P1" "0 \<le> x" using g yes False by simp_all
        then show ?thesis using q unfolding j(2) row_ok_def mark_ok_def by force
      qed
      have "distinct (map (\<lambda>l. fst (ltext l)) (lines P1))" using kp(1) by (simp add: win_ok_def)
      from distinct_slice [OF this, of "nat y" n] len have d: "distinct (map (\<lambda>l. fst (ltext l)) L)"
        by (auto simp: L_def o_def distinct_map inj_on_def)
      have ip: "in_parent s1 w (V\<lparr>lines := L\<rparr>)" using P P1 g yes False by (auto simp: in_parent_def V_def)
      show ?thesis using k1(1) row d ip g n by (simp add: win_ok_def V_def L_def)
    qed
    from inv_set_same_size [OF i1(1) W1(1) this] have "inv (set_win w (V\<lparr>lines := L\<rparr>) s1)" by (simp add: V_def)
    moreover have "tidy (set_win w (V\<lparr>lines := L\<rparr>) s1)"
    proof (rule tidy_set_win [OF i1(2) W1(1)])
      have "line_blocks (V\<lparr>lines := L\<rparr>) \<subseteq> line_blocks P1" using len by (auto simp: line_blocks_def L_def image_image)
      then show "map ltext (lines (V\<lparr>lines := L\<rparr>)) = map ltext (lines W1)
          \<or> parent W1 \<noteq> 0 \<and> line_blocks (V\<lparr>lines := L\<rparr>) \<subseteq> blocks_of s1 (parent W1)"
        using False P1 g by (simp add: blocks_of_def)
    qed (simp_all add: V_def)
    ultimately have good: "good (set_win w (V\<lparr>lines := L\<rparr>) s1)" by (simp add: good_def)
    have "mvderwin w y x s = Some (OK, set_win w (V\<lparr>lines := L\<rparr>) s1)"
      using k(2) False w P(1) assms(3,4) yes s1(1) W1(1) r
      by (simp add: mvderwin_def mvderwin_loop modw_def V_def [symmetric])
    then show ?thesis using good by simp
  qed
qed

lemma own_result_good:
  assumes "good s" and "0 \<le> by" "by < 32768" "0 \<le> bx" "bx < 32768" and "creatable l c s \<Longrightarrow> c + tabsize s \<le> 32768" and "\<not> has_flag fl F_SUBWIN"
  shows "good (snd (own_result l c by bx fl s))"
proof -
  have i: "inv s" "tidy s" using assms(1) by (simp_all add: good_def)
  show ?thesis
    using i inv_dropped [OF i(1)] tidy_dropped [OF i(2)] inv_own [OF i(1) _ assms(2-5), of l c fl] tidy_own [OF i _ assms(7), of l c "by" bx] assms(6)
    by (simp add: own_result_def good_def)
qed

lemma dup_row_steady:
  assumes "steady s0 s" and "windows s w = Some W" and "windows s nw = Some N" and "w \<noteq> nw" and "maxy N = maxy W" and "maxx N = maxx W"
    and "0 \<le> y" and "y \<le> maxy W"
  shows "ok (dup_row w nw y s) (steady s0)"
proof -
  have i: "inv s" using steadyD(1) [OF assms(1)] .
  obtain wl where wl: "ldat_at W y = Some wl" "row_ok s (maxx W) wl" "mark_ok (maxx W) wl"
    using win_ok_line [OF invD(1) [OF i assms(2)] assms(7,8)] .
  obtain nl where nl: "ldat_at N y = Some nl" using win_ok_line [OF invD(1) [OF i assms(3)] assms(7)] assms(5,8) by metis
  have "ok (ofold (\<lambda>x t. do { c \<leftarrow> peek (ltext wl) x t; poke (ltext nl) x c t }) [0..maxx W] s) (\<lambda>t. steady s0 t \<and> windows t = windows s)"
  proof (rule ok_ofold [where I = "\<lambda>t. steady s0 t \<and> windows t = windows s"])
    show "steady s0 s \<and> windows s = windows s" using assms(1) by simp
    fix x t assume x: "x \<in> set [0..maxx W]" and t: "steady s0 t \<and> windows t = windows s"
    have W: "windows t w = Some W" "windows t nw = Some N" using t assms(2,3) by simp_all
    have "wl \<in> set (lines W)" using wl(1) by (auto dest!: ldat_at_range)
    then have "row_ok t (maxx W) wl" using invD(1) [OF steadyD(1) [OF conjunct1 [OF t]] W(1)] by (auto simp: win_ok_def)
    then obtain c where c: "peek (ltext wl) x t = Some c" using peek_row x by fastforce
    have "ok (poke (ltext nl) x c t) (\<lambda>s'. steady s0 s' \<and> windows s' = windows t)"
      by (rule ok_poke_steady [OF conjunct1 [OF t] W(2) nl]) (use x assms(6) in auto)
    then show "ok (do { c \<leftarrow> peek (ltext wl) x t; poke (ltext nl) x c t }) (\<lambda>t. steady s0 t \<and> windows t = windows s)"
      using c t by simp
  qed
  then obtain s1 where s1: "ofold (\<lambda>x t. do { c \<leftarrow> peek (ltext wl) x t; poke (ltext nl) x c t }) [0..maxx W] s = Some s1"
    "steady s0 s1" "windows s1 = windows s" by (auto elim: okE)
  have "ok (modl nw y (\<lambda>l. l\<lparr>firstchar := firstchar wl, lastchar := lastchar wl\<rparr>) s1) (steady s0)"
  proof (rule ok_mono [OF ok_modl_steady [OF s1(2)]])
    show "windows s1 nw = Some N" using s1(3) assms(3) by simp
    show "ldat_at N y = Some nl" by (rule nl)
    show "mark_ok (maxx N) (nl\<lparr>firstchar := firstchar wl, lastchar := lastchar wl\<rparr>)" using wl(3) assms(6) by (simp add: mark_ok_def)
  qed simp_all
  then show ?thesis using assms(2,3) wl(1) nl s1(1) by (simp add: dup_row_def)
qed

lemma clear_flag [simp]: "\<not> has_flag (f AND NOT F_SUBWIN) F_SUBWIN"
  by (simp add: has_flag_def and.assoc)

lemma dupwin_good:
  assumes "good s" and w: "windows s w = Some W" and "w \<noteq> newscr s"
  shows "ok (dupwin w s) (\<lambda>(r, t). good t)"
proof -
  have i: "inv s" "tidy s" using assms(1) by (simp_all add: good_def)
  note k = invD [OF i(1) w] and n = inv_next [OF i(1)]
  note b = win_okD [OF k(1)] and cur = win_ok_cursor [OF k(1) assms(3)]
  define l where "l = maxy W + 1"
  define c where "c = maxx W + 1"
  define pd where "pd = has_flag (flags W) F_ISPAD"
  define r where "r = (if pd then own_result l c 0 0 F_ISPAD s else own_result l c (begy W) (begx W) 0 s)"
  have made: "(if pd then newpad (maxy W + 1) (maxx W + 1) s else newwin (maxy W + 1) (maxx W + 1) (begy W) (begx W) s) = Some r"
    using b by (simp add: r_def l_def c_def newpad_result [OF i(1)] newwin_result [OF i(1) b(12,13)])
  have tb: "c + tabsize s \<le> 32768" using b by (simp add: c_def)
  have gr: "good (snd r)" using own_result_good [OF assms(1)] b tb by (simp add: r_def)
  show ?thesis
  proof (cases "creatable l c s \<and> c \<le> calloc_max s")
    case False
    then have "fst r = 0" by (auto simp: r_def own_result_def)
    then show ?thesis using made w k(2) gr unfolding pd_def by (cases r) (simp add: dupwin_def)
  next
    case True
    define N where "N = (if pd then own_window l c 0 0 F_ISPAD s else own_window l c (begy W) (begx W) 0 s)"
    define s1 where "s1 = with_window N (fresh_cells (nat l) (nat c) s)"
    have r: "r = (next_win s, s1)" using True by (auto simp: r_def own_result_def s1_def N_def)
    have i1: "inv s1" "tidy s1" using gr r by (simp_all add: good_def)
    have N1: "windows s1 (next_win s) = Some N" by (simp add: s1_def)
    have wn: "w \<noteq> next_win s" using n(2) w by auto
    have W1: "windows s1 w = Some W" using w wn by (simp add: s1_def)
    have t: "0 \<le> topstolen s" "topstolen s < 32768" using i(1) by (auto simp: inv_def)
    have f: "maxy N = maxy W" "maxx N = maxx W" "parent N = 0" "\<not> has_flag (flags N) F_SUBWIN"
      using True b t own_fields [of l c s 0 0 F_ISPAD] own_fields [of l c s "begy W" "begx W" 0] own_flags
      by (auto simp: N_def l_def c_def)
    let ?D = "dup_fields W N"
    have kN: "win_ok s1 (next_win s) N" using invD(1) [OF i1(1) N1] .
    have ts: "tabsize s1 = tabsize s" by (simp add: s1_def)
    have "win_ok s1 (next_win s) ?D"
      using kN b cur f ts by (simp add: win_ok_def dup_fields_def)
    from inv_set_same_size [OF i1(1) N1 this] f have "inv (set_win (next_win s) ?D s1)" by (simp add: dup_fields_def)
    moreover have "tidy (set_win (next_win s) ?D s1)"
      by (rule tidy_set_win [OF i1(2) N1]) (use f in \<open>simp_all add: dup_fields_def\<close>)
    ultimately have g2: "good (set_win (next_win s) ?D s1)" by (simp add: good_def)
    define s2 where "s2 = set_win (next_win s) ?D s1"
    have D2: "windows s2 (next_win s) = Some ?D" "windows s2 w = Some W" using W1 wn by (simp_all add: s2_def)
    have i2: "inv s2" using g2 by (simp add: good_def s2_def)
    have "ok (ofold (dup_row w (next_win s)) [0..maxy W] s2) (steady s2)"
    proof (rule ok_ofold [where I = "steady s2"])
      show "steady s2 s2" by (rule steady_refl [OF i2])
      fix y t assume y: "y \<in> set [0..maxy W]" and t: "steady s2 t"
      obtain V where V: "windows t w = Some V" "geom V = geom W" using shape_winE [OF steadyD(2) [OF t] D2(2)] .
      obtain E where E: "windows t (next_win s) = Some E" "geom E = geom ?D" using shape_winE [OF steadyD(2) [OF t] D2(1)] .
      have "maxy E = maxy V" "maxx E = maxx V" "y \<le> maxy V"
        using geomD(1,2) [OF V(2)] geomD(1,2) [OF E(2)] y by (simp_all add: dup_fields_def)
      then show "ok (dup_row w (next_win s) y t) (steady s2)"
        using dup_row_steady [OF t V(1) E(1) wn] y by simp
    qed
    then obtain s3 where s3: "ofold (dup_row w (next_win s)) [0..maxy W] s2 = Some s3" "steady s2 s3" by (rule okE)
    have "good s3" using good_steady [OF s3(2)] g2 by (simp add: s2_def)
    moreover have "dupwin w s = Some (next_win s, s3)"
      using k(2) w made r n(1) N1 s3(1) unfolding pd_def s2_def by (simp add: dupwin_def modw_def)
    ultimately show ?thesis by simp
  qed
qed

section \<open>Programs that make and delete windows\<close>

datatype tree_call =
    NewWin int int int int
  | NewPad int int
  | DerWin nat int int int int
  | SubWin nat int int int int
  | SubPad nat int int int int
  | DupWin nat
  | MvWin nat int int
  | MvDerWin nat int int
  | DelWin nat

fun run_tree :: "tree_call \<Rightarrow> nc \<Rightarrow> nc option" where
  "run_tree (NewWin l c by bx) s = map_option snd (newwin l c by bx s)"
| "run_tree (NewPad l c) s = map_option snd (newpad l c s)"
| "run_tree (DerWin w l c by bx) s = map_option snd (derwin w l c by bx s)"
| "run_tree (SubWin w l c y x) s = map_option snd (subwin w l c y x s)"
| "run_tree (SubPad w l c by bx) s = map_option snd (subpad w l c by bx s)"
| "run_tree (DupWin w) s = map_option snd (dupwin w s)"
| "run_tree (MvWin w by bx) s = map_option snd (mvwin w by bx s)"
| "run_tree (MvDerWin w y x) s = map_option snd (mvderwin w y x s)"
| "run_tree (DelWin w) s = map_option snd (delwin w s)"

text \<open>
  The arguments these operations are safe for: windows that exist, positions that fit into a
  \<open>short\<close> and sums that fit into an \<open>int\<close>. The virtual screen is not copied, and neither it nor
  \<open>curscr\<close> is deleted.
\<close>

definition sub_ok :: "nat \<Rightarrow> int \<Rightarrow> int \<Rightarrow> int \<Rightarrow> int \<Rightarrow> nc \<Rightarrow> bool" where
  "sub_ok w l c by bx s = (case windows s w of None \<Rightarrow> False
     | Some P \<Rightarrow> in_int (by + l) \<and> in_int (bx + c) \<and> begy P + by < 32768 \<and> begx P + bx < 32768)"

fun tree_ok :: "tree_call \<Rightarrow> nc \<Rightarrow> bool" where
  "tree_ok (NewWin l c by bx) s \<longleftrightarrow> by < 32768 \<and> bx < 32768 \<and> rest_if_0 c (screen_columns s - bx) + tabsize s \<le> 32768"
| "tree_ok (NewPad l c) s \<longleftrightarrow> c + tabsize s \<le> 32768"
| "tree_ok (DerWin w l c by bx) s \<longleftrightarrow> sub_ok w l c by bx s"
| "tree_ok (SubWin w l c y x) s \<longleftrightarrow> (case windows s w of None \<Rightarrow> False
     | Some P \<Rightarrow> in_int (y - begy P) \<and> in_int (x - begx P) \<and> sub_ok w l c (y - begy P) (x - begx P) s)"
| "tree_ok (SubPad w l c by bx) s \<longleftrightarrow> sub_ok w l c by bx s"
| "tree_ok (DupWin w) s \<longleftrightarrow> windows s w \<noteq> None \<and> w \<noteq> newscr s"
| "tree_ok (MvWin w by bx) s \<longleftrightarrow> windows s w \<noteq> None \<and> in_int by \<and> in_int bx \<and> by < 32768 \<and> bx < 32768"
| "tree_ok (MvDerWin w y x) s \<longleftrightarrow> (case windows s w of None \<Rightarrow> False
     | Some W \<Rightarrow> in_int (x + (maxx W + 1)) \<and> in_int (y + (maxy W + 1)))"
| "tree_ok (DelWin w) s \<longleftrightarrow> windows s w \<noteq> None \<and> w \<noteq> newscr s \<and> w \<noteq> curscr s"

lemma ok_map_snd: "ok (map_option snd m) Q \<longleftrightarrow> ok m (\<lambda>(r, t). Q t)"
  by (cases m) auto

lemma derwin_good:
  assumes "good s" and "sub_ok w l c by bx s"
  shows "ok (derwin w l c by bx s) (\<lambda>(r, t). good t)"
proof -
  have i: "inv s" "tidy s" using assms(1) by (simp_all add: good_def)
  obtain P where P: "windows s w = Some P" "in_int (by + l)" "in_int (bx + c)" "begy P + by < 32768" "begx P + bx < 32768"
    using assms(2) by (auto simp: sub_ok_def split: option.splits)
  let ?l = "rest_if_0 l (maxy P + 1 - by)" and ?c = "rest_if_0 c (maxx P + 1 - bx)"
  show ?thesis
  proof (cases "derivable l c by bx P \<and> creatable ?l ?c s")
    case False
    then show ?thesis using assms(1) by (auto simp: derwin_result [OF i(1) P(1-3)] Let_def)
  next
    case True
    have b: "0 \<le> by" "by + ?l \<le> maxy P + 1" "0 \<le> bx" "bx + ?c \<le> maxx P + 1" using True by (auto simp: derivable_def rest_if_0_def)
    have "0 < ?l" using True to_short_dim [of ?l] by (simp add: creatable_def)
    then have len: "nat by + nat ?l \<le> length (lines P)" using b win_okD(5) [OF invD(1) [OF i(1) P(1)]] by linarith
    have "good (with_window (sub_window w P ?l ?c by bx s) s)"
      using inv_sub [OF i(1) P(1) _ b P(4,5)] tidy_sub [OF i P(1) len] True by (simp add: good_def)
    then show ?thesis using True by (simp add: derwin_result [OF i(1) P(1-3)] Let_def)
  qed
qed

lemma ok_run_tree:
  assumes "tree_ok c s" and "good s"
  shows "ok (run_tree c s) good"
proof -
  have i: "inv s" "tidy s" using assms(2) by (simp_all add: good_def)
  have ts: "0 < tabsize s" using i(1) by (simp add: inv_def)
  show ?thesis
  proof (cases c)
    case (NewWin l cc y x)
    then show ?thesis
      using assms own_result_good [OF assms(2), of y x _ _ 0] ts
      by (auto simp: newwin_result [OF i(1)] rest_if_0_def)
  next
    case (NewPad l cc)
    then show ?thesis using assms own_result_good [OF assms(2), of 0 0 l cc F_ISPAD] by (simp add: newpad_result [OF i(1)])
  next
    case (DerWin w l cc y x)
    then show ?thesis using assms derwin_good by (simp add: ok_map_snd)
  next
    case (SubWin w l cc y x)
    then obtain P where "windows s w = Some P" "in_int (y - begy P)" "in_int (x - begx P)" "sub_ok w l cc (y - begy P) (x - begx P) s"
      using assms(1) by (auto split: option.splits)
    then show ?thesis using SubWin derwin_good [OF assms(2)] assms(2) by (simp add: ok_map_snd subwin_def)
  next
    case (SubPad w l cc y x)
    then have "sub_ok w l cc y x s" using assms(1) by simp
    then obtain P where "windows s w = Some P" by (auto simp: sub_ok_def split: option.splits)
    then show ?thesis using SubPad derwin_good [OF assms(2)] assms by (simp add: ok_map_snd subpad_def)
  next
    case (DupWin w)
    then show ?thesis using assms dupwin_good by (auto simp: ok_map_snd)
  next
    case (MvWin w y x)
    then show ?thesis using assms mvwin_good by (auto simp: ok_map_snd)
  next
    case (MvDerWin w y x)
    then show ?thesis using assms mvderwin_good by (auto simp: ok_map_snd split: option.splits)
  next
    case (DelWin w)
    then obtain W where "windows s w = Some W" "w \<noteq> newscr s" "w \<noteq> curscr s" using assms(1) by auto
    from delwin_result [OF i this] show ?thesis using DelWin assms(2) by (auto simp: ok_map_snd good_def split: if_splits)
  qed
qed

inductive program :: "updater \<Rightarrow> nc \<Rightarrow> nc \<Rightarrow> bool" for du where
  Begin: "program du s s"
| Draws: "program du s t \<Longrightarrow> windows t w = Some W \<Longrightarrow> w \<noteq> newscr t \<Longrightarrow> call_ok c \<Longrightarrow>
    run_call c du w t = Some (r, u) \<Longrightarrow> program du s u"
| Shows: "program du s t \<Longrightarrow> windows t w = Some W \<Longrightarrow> w \<noteq> newscr t \<Longrightarrow> parent W = 0 \<Longrightarrow>
    wrefresh du w t = Some (r, u) \<Longrightarrow> program du s u"
| Tree: "program du s t \<Longrightarrow> tree_ok c t \<Longrightarrow> run_tree c t = Some u \<Longrightarrow> program du s u"

lemma program_good:
  assumes "program du s t" and "du_ok du" and "good s"
  shows "good t"
  using assms
proof (induction rule: program.induct)
  case (Begin s)
  then show ?case by simp
next
  case (Draws s t w W c r u)
  have g: "good t" using Draws.IH Draws.prems by blast
  then have "inv t" by (simp add: good_def)
  from call.result_draws [OF Draws.hyps(4) Draws.prems(1) this Draws.hyps(2,3,5)] have "draws w t u" .
  then show ?case using good_steady [OF evolves_steady g] by blast
next
  case (Shows s t w W r u)
  have g: "good t" using Shows.IH Shows.prems by blast
  then have "steady t t" by (simp add: good_def steady_refl)
  from ok_wrefresh [OF Shows.prems(1) this Shows.hyps(2,4,3)] Shows.hyps(5) have "steady t u" by simp
  then show ?case using good_steady g by blast
next
  case (Tree s t c u)
  then show ?case using ok_run_tree by fastforce
qed

text \<open>
  C7. Windows and cells are never used after they were freed. However a program makes windows, derives,
  copies, moves and deletes them, draws on them and shows them, every window that exists has all
  its cells and its parent, only its descendants share its cells, and every further operation
  returns, with whatever window that exists and in whatever order.
\<close>

theorem windows_keep_cells:
  assumes "program du s t" and "du_ok du" and "good s"
  shows "good t \<and> (\<forall>w W. windows t w = Some W \<longrightarrow> line_blocks W \<subseteq> dom (cells t) \<and> (parent W \<noteq> 0 \<longrightarrow> windows t (parent W) \<noteq> None))
    \<and> (\<forall>c. tree_ok c t \<longrightarrow> (\<exists>u. run_tree c t = Some u \<and> good u))
    \<and> (\<forall>w c. windows t w \<noteq> None \<and> w \<noteq> newscr t \<and> call_ok c \<longrightarrow> (\<exists>r u. run_call c du w t = Some (r, u) \<and> good u))"
proof (intro conjI allI impI)
  show g: "good t" by (rule program_good [OF assms])
  then have i: "inv t" by (simp add: good_def)
  fix w W assume w: "windows t w = Some W"
  show "line_blocks W \<subseteq> dom (cells t)" using inv_blocks [OF i, of _ w] w by (auto simp: blocks_of_def)
  show "parent W \<noteq> 0 \<Longrightarrow> windows t (parent W) \<noteq> None" using invD(1) [OF i w] by (auto simp: win_ok_def in_parent_def)
next
  fix c assume "tree_ok c t"
  from ok_run_tree [OF this program_good [OF assms]] show "\<exists>u. run_tree c t = Some u \<and> good u" by (auto simp: ok_iff)
next
  fix w c assume a: "windows t w \<noteq> None \<and> w \<noteq> newscr t \<and> call_ok c"
  have g: "good t" by (rule program_good [OF assms])
  then have i: "inv t" by (simp add: good_def)
  obtain W where W: "windows t w = Some W" using a by blast
  have cc: "call_ok c" and wn: "w \<noteq> newscr t" using a by simp_all
  from call.total [OF cc assms(2) i W wn] obtain r u where u: "run_call c du w t = Some (r, u)" by blast
  from call.result_draws [OF cc assms(2) i W wn u] have "good u" using good_steady [OF evolves_steady g] by blast
  then show "\<exists>r u. run_call c du w t = Some (r, u) \<and> good u" using u by blast
qed

text \<open>
  C17. A derived window is a part of its parent: after any drawing on either of them, the cell of the
  derived window in row \<open>y\<close> and column \<open>x\<close> is the cell of the parent in row \<open>by + y\<close> and
  column \<open>bx + x\<close>.
\<close>

theorem derwin_shares:
  assumes "good s" and "sub_ok orig l c by bx s" and "derwin orig l c by bx s = Some (w, t)" and "w \<noteq> 0"
    and "session du t u" and "du_ok du"
  shows "\<exists>W. windows u w = Some W \<and> parent W = orig \<and> (l \<noteq> 0 \<longrightarrow> maxy W = l - 1) \<and> (c \<noteq> 0 \<longrightarrow> maxx W = c - 1)
    \<and> (\<forall>y x. 0 \<le> y \<and> y \<le> maxy W \<and> 0 \<le> x \<and> x \<le> maxx W \<longrightarrow>
          wcell u w y x \<noteq> None \<and> wcell u w y x = wcell u orig (by + y) (bx + x))"
proof -
  have i: "inv s" "tidy s" using assms(1) by (simp_all add: good_def)
  obtain P where P: "windows s orig = Some P" "in_int (by + l)" "in_int (bx + c)" "begy P + by < 32768" "begx P + bx < 32768"
    using assms(2) by (auto simp: sub_ok_def split: option.splits)
  let ?l = "rest_if_0 l (maxy P + 1 - by)" and ?c = "rest_if_0 c (maxx P + 1 - bx)"
  have h: "derivable l c by bx P" "creatable ?l ?c s" "w = next_win s" "t = with_window (sub_window orig P ?l ?c by bx s) s"
    using assms(3,4) by (auto simp: derwin_result [OF i(1) P(1-3)] Let_def split: if_splits)
  let ?V = "sub_window orig P ?l ?c by bx s"
  have gt: "good t" using derwin_good [OF assms(1,2)] assms(3) by simp
  then have it: "inv t" by (simp add: good_def)
  have sh: "shape u = shape t" using steadyD(2) [OF session_steady [OF assms(5,6) it]] .
  have b: "0 \<le> by" "by + ?l \<le> maxy P + 1" "0 \<le> bx" "bx + ?c \<le> maxx P + 1" using h(1) by (auto simp: derivable_def rest_if_0_def)
  note k = win_okD [OF invD(1) [OF i(1) P(1)]]
  have ts: "0 \<le> topstolen s" "topstolen s < 32768" using i(1) by (auto simp: inv_def)
  have pos: "0 \<le> begy P + by" "0 \<le> begx P + bx" using b k by auto
  note f = sub_fields [OF h(2) pos(1) P(4) pos(2) P(5) ts, of orig]
  have on: "orig \<noteq> w" using inv_next(2) [OF i(1)] P(1) h(3) by auto
  obtain W where W: "windows u w = Some W" "geom W = geom ?V" using shape_winE [OF sh, of w] h(3,4) by auto
  obtain Q where Q: "windows u orig = Some Q" "geom Q = geom P" using shape_winE [OF sh, of orig P] h(4) P(1) on h(3) by auto
  note gW = geomD [OF W(2)] and gQ = geomD [OF Q(2)]
  have part1: "parent W = orig" "l \<noteq> 0 \<longrightarrow> maxy W = l - 1" "c \<noteq> 0 \<longrightarrow> maxx W = c - 1"
    using gW(1,2,4) f(1,2) by (auto simp: rest_if_0_def)
  have iu: "inv u" using steadyD(1) [OF session_steady [OF assms(5,6) it]] .
  have "wcell u w y x = wcell u orig (by + y) (bx + x)" if d: "wcell u w y x \<noteq> None" for y x
  proof -
    obtain lw where lw: "ldat_at W y = Some lw" "0 \<le> x" "x \<le> maxx W" using d W(1) by (auto simp: wcell_def bind_eq_Some_conv split: if_splits)
    have y: "0 \<le> y" "nat y < length (lines W)" "lw = lines W ! nat y" using ldat_at_range [OF lw(1)] by auto
    have len: "length (lines W) = nat ?l" using gW(7) by (simp add: sub_window_def)
    have "ltext lw = map ltext (lines ?V) ! nat y" using gW(3) y by (metis nth_map)
    then have tw: "ltext lw = (fst (ltext (lines P ! (nat by + nat y))), snd (ltext (lines P ! (nat by + nat y))) + bx)"
      using y len by (simp add: sub_window_def)
    have lt: "nat by + nat y < length (lines P)" using y len b k by linarith
    have "map ltext (lines Q) ! (nat by + nat y) = map ltext (lines P) ! (nat by + nat y)" using gQ(3) by simp
    then have tq: "ltext (lines Q ! (nat by + nat y)) = ltext (lines P ! (nat by + nat y))" using lt gQ(7) by simp
    have lq: "ldat_at Q (by + y) = Some (lines Q ! (nat by + nat y))"
      using lt gQ(7) b y by (simp add: ldat_at_def nat_add_distrib)
    have "bx + x \<le> maxx Q" "0 \<le> bx + x" using lw b gW(2) gQ(2) f(2) by auto
    have "peek (ltext lw) x u = peek (ltext (lines Q ! (nat by + nat y))) (bx + x) u"
      unfolding tw tq by (simp add: peek_def add.assoc cong: if_cong)
    then show ?thesis using W(1) Q(1) lw lq \<open>bx + x \<le> maxx Q\<close> \<open>0 \<le> bx + x\<close> by (simp add: wcell_def)
  qed
  moreover have "wcell u w y x \<noteq> None" if "0 \<le> y" "y \<le> maxy W" "0 \<le> x" "x \<le> maxx W" for y x
    using wcell_defined [OF iu W(1) that] by blast
  ultimately show ?thesis using part1 W(1) by blast
qed

lemma wcell_same:
  assumes "shape t = shape s" and "cells t = cells s"
  shows "wcell t v y x = wcell s v y x"
proof (cases "windows s v")
  case None
  then have "windows t v = None" using shape_windows [OF assms(1), of v] by simp
  then show ?thesis using None by (simp add: wcell_def)
next
  case (Some V)
  obtain U where U: "windows t v = Some U" "geom U = geom V" using shape_winE [OF assms(1) Some] .
  show ?thesis
  proof (cases "ldat_at V y")
    case None
    then have "ldat_at U y = None" using geomD(7) [OF U(2)] by (auto simp: ldat_at_def split: if_splits)
    then show ?thesis using None U(1) Some by (simp add: wcell_def)
  next
    case l: (Some l)
    obtain k where "ldat_at U y = Some k" "ltext k = ltext l" using geom_ldat_at [OF U(2) l] .
    then show ?thesis using l U(1) Some geomD(2) [OF U(2)] assms(2) by (simp add: wcell_def peek_def)
  qed
qed

text \<open>
  C37. \<open>delwin\<close> refuses to delete a window from which others are derived, and changes nothing then.
  Otherwise the window is gone, its cells are freed exactly when they were its own, and all the
  other windows and their cells are as they were.
\<close>

theorem delwin_frees:
  assumes "good s" and "windows s w = Some W" and "w \<noteq> newscr s" and "w \<noteq> curscr s"
  shows "if \<exists>v. child s v w then delwin w s = Some (ERR, s)
    else \<exists>t. delwin w s = Some (OK, t) \<and> good t \<and> windows t w = None \<and> (\<forall>b \<in> line_blocks W. cells t b = None \<longleftrightarrow> parent W = 0)
      \<and> (\<forall>v. v \<noteq> w \<longrightarrow> map_option geom (windows t v) = map_option geom (windows s v) \<and> (\<forall>y x. wcell t v y x = wcell s v y x))"
proof (cases "\<exists>v. child s v w")
  case True
  have i: "inv s" "tidy s" using assms(1) by (simp_all add: good_def)
  from delwin_result [OF i assms(2-4)] True show ?thesis by simp
next
  case False
  have i: "inv s" "tidy s" using assms(1) by (simp_all add: good_def)
  from delwin_result [OF i assms(2-4), unfolded if_not_P [OF False]] obtain s1 W1 where d: "steady s s1" "cells s1 = cells s" "windows s1 w = Some W1"
    "delwin w s = Some (OK, without w W1 s1)" "inv (without w W1 s1)" "tidy (without w W1 s1)"
    by blast
  let ?t = "without w W1 s1"
  have sh: "shape s1 = shape s" using steadyD(2) [OF d(1)] .
  have t1: "tidy s1" by (rule tidy_shape [OF sh i(2)])
  have nc: "\<nexists>v. child s1 v w" using False geom_same_windows(1) [OF sh] by simp
  have "blocks_of s1 w = blocks_of s w" using geom_same_windows(3) [OF sh] by simp
  then have lb: "line_blocks W1 = line_blocks W" using d(3) assms(2) by (simp add: blocks_of_def)
  obtain W' where "windows s1 w = Some W'" "geom W' = geom W" using shape_winE [OF sh assms(2)] .
  then have pw: "parent W1 = parent W" using d(3) geomD(4) [of W' W] by simp
  have "cells ?t b = None \<longleftrightarrow> parent W = 0" if b: "b \<in> line_blocks W" for b
  proof -
    have "cells s b \<noteq> None" using inv_blocks [OF i(1), of b w] b assms(2) by (simp add: blocks_of_def)
    then show ?thesis using b lb pw d(2) by (simp add: without_def)
  qed
  moreover have "map_option geom (windows ?t v) = map_option geom (windows s v) \<and> (\<forall>y x. wcell ?t v y x = wcell s v y x)"
    if v: "v \<noteq> w" for v
  proof -
    have "wcell ?t v y x = wcell s1 v y x" for y x
    proof (cases "windows s1 v")
      case None
      then show ?thesis using v by (simp add: wcell_def)
    next
      case (Some V)
      have "peek (ltext l) x ?t = peek (ltext l) x s1" if l: "ldat_at V y = Some l" for l
      proof -
        have "fst (ltext l) \<in> line_blocks V" using ldat_at_range [OF l] by (auto simp: line_blocks_def)
        from without_cells [OF t1 d(3) nc Some v this] show ?thesis by (simp add: peek_def)
      qed
      then show ?thesis using Some v by (cases "ldat_at V y") (simp_all add: wcell_def)
    qed
    then show ?thesis using v wcell_same [OF sh d(2)] shape_windows [OF sh, of v] by simp
  qed
  ultimately have "delwin w s = Some (OK, ?t) \<and> good ?t \<and> windows ?t w = None \<and> (\<forall>b \<in> line_blocks W. cells ?t b = None \<longleftrightarrow> parent W = 0)
      \<and> (\<forall>v. v \<noteq> w \<longrightarrow> map_option geom (windows ?t v) = map_option geom (windows s v) \<and> (\<forall>y x. wcell ?t v y x = wcell s v y x))"
    using d(4-6) by (simp add: good_def)
  then show ?thesis unfolding if_not_P [OF False] by blast
qed

section \<open>On the small screen\<close>

lemma demo_parents: "windows demo w = Some W \<Longrightarrow> parent W = 0 \<and> flags W = 0 \<and> (\<forall>l \<in> set (lines W). snd (ltext l) = 0)"
  by (auto simp: demo_windows demo_win_def demo_lines_def split: if_splits)

lemma demo_blocks: "blocks_of demo w = (if w \<in> {1, 2, 3} then {2 * (w - 1), 2 * (w - 1) + 1} else {})"
  by (auto simp: blocks_of_def demo_windows demo_win_def demo_lines_def line_blocks_def)

lemma demo_good: "good demo"
proof -
  have "v = w" if "blocks_of demo v \<inter> blocks_of demo w \<noteq> {}" for v w
    using that by (auto simp: demo_blocks split: if_splits)
  then have "(child demo)\<^sup>*\<^sup>* v w" if "blocks_of demo v \<inter> blocks_of demo w \<noteq> {}" for v w using that by blast
  moreover have "(has_flag (flags W) F_SUBWIN \<longleftrightarrow> parent W \<noteq> 0) \<and> (parent W = 0 \<longrightarrow> (\<forall>l \<in> set (map ltext (lines W)). snd l = 0))"
    if "windows demo w = Some W" for w W using demo_parents [OF that] by simp
  ultimately have "tidy demo" unfolding tidy_def by blast
  then show ?thesis using inv_demo by (simp add: good_def)
qed

lemma demo_sub: "sub_ok 3 1 2 0 1 demo"
  by (simp add: sub_ok_def demo_stdscr in_int_def)

lemma demo_derwin: "derwin 3 1 2 0 1 demo = Some (4, with_window (sub_window 3 (demo_win 4) 1 2 0 1 demo) demo)"
proof -
  have n: "calloc_max demo = 1000" "next_win demo = 4" by (simp_all add: demo_def)
  have d: "derivable 1 2 0 1 (demo_win 4)" by (simp add: derivable_def)
  have c: "creatable 1 2 demo" by (simp add: creatable_def dimension_limit_def to_short_id n(1))
  have i: "in_int (0 + 1)" "in_int (1 + 2)" by (simp_all add: in_int_def)
  have r: "rest_if_0 1 x = 1" "rest_if_0 2 x = 2" for x by (simp_all add: rest_if_0_def)
  show ?thesis using derwin_result [OF inv_demo demo_stdscr(1) i] unfolding r Let_def n(2) using d c by (simp only: simp_thms if_True)
qed

theorem windows_keep_cells_witness:
  "\<exists>t u. program idle demo t \<and> run_tree (DerWin 3 1 2 0 1) demo = Some t \<and> run_tree (DupWin 3) t = Some u \<and> good u"
proof -
  let ?t = "with_window (sub_window 3 (demo_win 4) 1 2 0 1 demo) demo"
  have t: "run_tree (DerWin 3 1 2 0 1) demo = Some ?t" by (simp add: demo_derwin)
  have p: "program idle demo ?t" by (rule program.Tree [OF program.Begin _ t]) (simp add: demo_sub)
  have "tree_ok (DupWin 3) ?t" by (simp add: demo_stdscr)
  then show ?thesis using windows_keep_cells [OF p du_ok_idle demo_good] p t by blast
qed

theorem derwin_shares_witness:
  "\<exists>t. derwin 3 1 2 0 1 demo = Some (4, t) \<and> wcell t 4 0 1 \<noteq> None \<and> wcell t 4 0 1 = wcell t 3 0 2"
proof -
  obtain t where t: "derwin 3 1 2 0 1 demo = Some (4, t)" using demo_derwin by blast
  have "(4 :: nat) \<noteq> 0" by simp
  from derwin_shares [OF demo_good demo_sub t this session.Start du_ok_idle] obtain W where
    W: "(1 :: int) \<noteq> 0 \<longrightarrow> maxy (W :: window) = 1 - 1" "(2 :: int) \<noteq> 0 \<longrightarrow> maxx W = 2 - 1"
      "\<forall>y x. 0 \<le> y \<and> y \<le> maxy W \<and> 0 \<le> x \<and> x \<le> maxx W \<longrightarrow>
      wcell t 4 y x \<noteq> None \<and> wcell t 4 y x = wcell t 3 (0 + y) (1 + x)"
    by blast
  have "0 \<le> (0 :: int) \<and> 0 \<le> maxy W \<and> 0 \<le> (1 :: int) \<and> 1 \<le> maxx W" using W by simp
  then have "wcell t 4 0 1 \<noteq> None \<and> wcell t 4 0 1 = wcell t 3 (0 + 0) (1 + 1)" using W(3) by blast
  from this [unfolded add_0 one_add_one] show ?thesis using t by blast
qed

theorem delwin_frees_witness:
  "\<exists>t. delwin 3 demo = Some (OK, t) \<and> windows t 3 = None \<and> cells t 4 = None \<and> wcell t 1 0 0 = Some BLANK"
proof -
  have "\<nexists>v. child demo v 3" using demo_parents by (fastforce simp: child_def)
  moreover have "(3::nat) \<noteq> curscr demo" "4 \<in> line_blocks (demo_win 4)" "parent (demo_win 4) = 0"
    by (simp_all add: demo_def demo_win_def demo_lines_def line_blocks_def)
  ultimately show ?thesis
    using delwin_frees [OF demo_good demo_stdscr(1,3)] demo_wcell [of 1 0 0] by fastforce
qed

end
