(* ===== verification/EtaCurses.thy ===== *)
theory EtaCurses
  imports WinLines WinCreate EtaHeap
begin

text \<open>
  The curses module of the runtime library (\<open>runtime/libeta/curses.c\<close>): the operations that Eta
  programs call, on the window \<open>stdscr\<close>. The state is that of the window library and, where a
  string comes or goes, the heap of the runtime.

  An \<open>etaint\<close> is converted to an \<open>int\<close> or a \<open>chtype\<close> by keeping its low bits. \<open>initscr\<close> and
  \<open>endwin\<close>, which set up the terminal and give it back, are parameters, as is \<open>doupdate\<close>. An array
  of variable length on the stack has a positive size or, as a GNU extension, the size 0; a
  negative size is a fault, and so is one of more than \<open>stack\<close> bytes.
\<close>

section \<open>The operations\<close>

definition initCurses :: "(nc \<Rightarrow> nc option) \<Rightarrow> nc \<Rightarrow> nc option" where
  "initCurses initscr s = do {
     s1 \<leftarrow> initscr s;
     (r, s2) \<leftarrow> keypad (stdscr s1) True s1;
     Some s2 }"

definition destroyCurses :: "(nc \<Rightarrow> nc option) \<Rightarrow> nc \<Rightarrow> nc option" where
  "destroyCurses endwin s = do { (r, s1) \<leftarrow> delwin (stdscr s) s; endwin s1 }"

definition showCursor :: "int \<Rightarrow> nc \<Rightarrow> nc" where
  "showCursor enabled s = on_mode (curs_set (if enabled \<noteq> 0 then 1 else 0)) s"

text \<open>The macros \<open>getmaxyx\<close> and \<open>getyx\<close> give \<open>ERR\<close> for the null pointer.\<close>

definition getWindowSize :: "nc \<Rightarrow> (int \<times> int) option" where
  "getWindowSize s =
     (if stdscr s = 0 then Some (ERR, ERR)
      else do { W \<leftarrow> windows s (stdscr s); Some (maxx W + 1, maxy W + 1) })"

definition getCursorPosition :: "nc \<Rightarrow> (int \<times> int) option" where
  "getCursorPosition s =
     (if stdscr s = 0 then Some (ERR, ERR)
      else do { W \<leftarrow> windows s (stdscr s); Some (curx W, cury W) })"

definition moveCursor :: "int \<Rightarrow> int \<Rightarrow> nc \<Rightarrow> nc option" where
  "moveCursor x y s = do { (r, s1) \<leftarrow> wmove (stdscr s) (to_int y) (to_int x) s; Some s1 }"

definition echoKeys :: "int \<Rightarrow> nc \<Rightarrow> nc" where
  "echoKeys enable s = (if enable \<noteq> 0 then on_mode echo s else on_mode noecho s)"

definition clearWindow :: "updater \<Rightarrow> nc \<Rightarrow> nc option" where
  "clearWindow du s = do { (r, s1) \<leftarrow> wclear du (stdscr s) s; Some s1 }"

definition refreshWindow :: "updater \<Rightarrow> nc \<Rightarrow> nc option" where
  "refreshWindow du s = do { (r, s1) \<leftarrow> wrefresh du (stdscr s) s; Some s1 }"

definition inputTimeout :: "int \<Rightarrow> nc \<Rightarrow> nc option" where
  "inputTimeout d s = wtimeout (stdscr s) (to_int d) s"

definition getInputChar :: "updater \<Rightarrow> nc \<Rightarrow> (int \<times> nc) option" where
  "getInputChar du s = wgetch du (stdscr s) s"

text \<open>The characters of a buffer as the C string that \<open>mkString\<close> reads.\<close>

definition c_chars :: "int list \<Rightarrow> string" where
  "c_chars buf = map (\<lambda>c. char_of (c mod 256)) (takeWhile (\<lambda>c. c mod 256 \<noteq> 0) buf)"

text \<open>Without a \<open>stdscr\<close> the buffer is not written and \<open>mkString\<close> reads indeterminate characters.\<close>

definition getInputString :: "updater \<Rightarrow> int \<Rightarrow> int \<Rightarrow> rt \<Rightarrow> nc \<Rightarrow> (ptr \<times> rt \<times> nc) option" where
  "getInputString du stack maxlength m s =
     (if \<not> in_i64 (maxlength + 1) \<or> maxlength + 1 < 0 \<or> maxlength + 1 > stack \<or> stdscr s = 0 then None
      else do {
        (r, buf, s1) \<leftarrow> wgetnstr du (stdscr s) (nat (maxlength + 1)) (to_int maxlength) s;
        case mkString (c_chars buf) m of
          Inl e \<Rightarrow> None
        | Inr (p, m1) \<Rightarrow> Some (p, m1, s1) })"



text \<open>
  The loop that copies a string to the stack; a character keeps its low byte. \<open>after\<close> is what
  lies behind the array: \<open>waddnstr\<close> looks at the first byte there.
\<close>

fun copy_text :: "ptr \<Rightarrow> int list \<Rightarrow> rt \<Rightarrow> chtype list option" where
  "copy_text str [] m = Some []"
| "copy_text str (c # cs) m =
     (case load_int m (padd str c) of
        Inl e \<Rightarrow> None
      | Inr v \<Rightarrow> do { r \<leftarrow> copy_text str cs m; Some (word_of_int (v mod 256) # r) })"

definition local_text :: "int \<Rightarrow> ptr \<Rightarrow> rt \<Rightarrow> (chtype list \<times> int) option" where
  "local_text stack str m =
     (case load_int m (padd str (- 1)) of
        Inl e \<Rightarrow> None
      | Inr n \<Rightarrow>
          (let len = to_int n in
           if len < 0 \<or> len > stack then None
           else do { cs \<leftarrow> copy_text str [0..len - 1] m; Some (cs, len) }))"

definition putString :: "updater \<Rightarrow> int \<Rightarrow> chtype list \<Rightarrow> ptr \<Rightarrow> rt \<Rightarrow> nc \<Rightarrow> nc option" where
  "putString du stack after str m s = do {
     (cs, len) \<leftarrow> local_text stack str m;
     (r, s1) \<leftarrow> waddnstr du (stdscr s) (cs @ after) len s;
     Some s1 }"

definition deleteChar :: "updater \<Rightarrow> nc \<Rightarrow> nc option" where
  "deleteChar du s = do { (r, s1) \<leftarrow> wdelch du (stdscr s) s; Some s1 }"



definition putStringAt :: "updater \<Rightarrow> int \<Rightarrow> chtype list \<Rightarrow> ptr \<Rightarrow> int \<Rightarrow> int \<Rightarrow> rt \<Rightarrow> nc \<Rightarrow> nc option" where
  "putStringAt du stack after str x y m s = do {
     (cs, len) \<leftarrow> local_text stack str m;
     (r, s1) \<leftarrow> wmove (stdscr s) (to_int y) (to_int x) s;
     if r = ERR then Some s1
     else do { (q, s2) \<leftarrow> waddnstr du (stdscr s1) (cs @ after) len s1; Some s2 } }"

definition deleteCharAt :: "updater \<Rightarrow> int \<Rightarrow> int \<Rightarrow> nc \<Rightarrow> nc option" where
  "deleteCharAt du x y s = do {
     (r, s1) \<leftarrow> wmove (stdscr s) (to_int y) (to_int x) s;
     if r = ERR then Some s1 else deleteChar du s1 }"


definition KEYUP :: int where "KEYUP = KEY_UP"
definition KEYDOWN :: int where "KEYDOWN = KEY_DOWN"
definition KEYLEFT :: int where "KEYLEFT = KEY_LEFT"
definition KEYRIGHT :: int where "KEYRIGHT = KEY_RIGHT"

section \<open>Characters on the screen\<close>

text \<open>A character in a window without attributes and with the blank background.\<close>

definition plain :: "window \<Rightarrow> bool" where
  "plain W \<longleftrightarrow> attrs W = 0 \<and> bkgd W = BLANK"

lemma no_attrs:
  assumes "AttrOf x = 0"
  shows "CharOf x = x" "GetPair x = 0" "SetPair x 0 = x"
proof -
  show c: "CharOf x = x" using SetChar2_id [of x] unfolding SetChar2_def assms by simp
  show "GetPair x = 0" using assms by (simp add: GetPair_def PairNumber_def)
  obtain y where y: "x = y AND 0xFF" using c by (metis CharOf_def A_CHARTEXT_def)
  show "SetPair x 0 = x"
    unfolding y by (simp add: SetPair_def RemAttr_def SetAttr_def AttrOf_def ColorPair_def A_ATTRIBUTES_def A_COLOR_def and.assoc Let_def)
qed

lemma byte_word:
  assumes "0 \<le> c" and "c < 256"
  shows "CharOf (word_of_int c) = word_of_int c" "AttrOf (word_of_int c) = 0" "uint (word_of_int c :: chtype) = c"
proof -
  have u: "uint (word_of_int c :: chtype) = c" using assms by (simp add: uint_word_of_int take_bit_int_eq_self)
  have t: "take_bit 8 (word_of_int c :: chtype) = word_of_int c"
    using assms u by (simp add: word_uint_eq_iff unsigned_take_bit_eq take_bit_int_eq_self)
  have m: "(0xFF :: chtype) = mask 8" by (simp add: mask_eq_exp_minus_1)
  show k: "CharOf (word_of_int c) = word_of_int c" using t by (simp add: CharOf_def A_CHARTEXT_def m take_bit_eq_mask)
  have "CharOf x AND A_ATTRIBUTES = 0" for x by (simp add: CharOf_def A_CHARTEXT_def A_ATTRIBUTES_def and.assoc)
  from this [of "word_of_int c"] show "AttrOf (word_of_int c) = 0" by (simp add: AttrOf_def k)
  show "uint (word_of_int c :: chtype) = c" by (rule u)
qed

lemma plain_render:
  assumes "plain W" and "32 \<le> c" and "c \<le> 126"
  shows "render_char W (word_of_int c) = word_of_int c"
proof -
  have b: "AttrOf (word_of_int c) = 0" "CharOf (word_of_int c) = word_of_int c" "uint (word_of_int c :: chtype) = c"
    using byte_word [of c] assms(2,3) by simp_all
  note n = no_attrs [OF b(1)]
  have z: "AttrOf 0x20 = 0" "PairNumber 0 = 0" "GetPair 0x20 = 0" "SetAttr 0x20 0 = 0x20" "SetPair 0x20 0 = 0x20"
    by (simp_all add: AttrOf_def A_ATTRIBUTES_def PairNumber_def GetPair_def A_COLOR_def SetAttr_def SetPair_def RemAttr_def ColorPair_def Let_def)
  have "ISBLANK (word_of_int c) \<Longrightarrow> (word_of_int c :: chtype) = 0x20" by (simp add: ISBLANK_def n(1))
  then show ?thesis using assms(1) b(1) n z
    by (auto simp: render_char_def plain_def BLANK_def Let_def AddAttr_def)
qed

lemma byte_isprint: "32 \<le> c \<Longrightarrow> c \<le> 126 \<Longrightarrow> isprint (uint (CharOf (word_of_int c)))"
  by (simp add: byte_word isprint_def)


section \<open>Strings on the screen\<close>

lemma copy_text_loads:
  "\<forall>i \<in> set is. load_int m (padd str i) = Inr (f i) \<Longrightarrow> copy_text str is m = Some (map (\<lambda>i. word_of_int (f i mod 256)) is)"
  by (induction "is") simp_all

lemma local_text_array:
  assumes "int_array m p cs" and "int (length cs) < 2 ^ 31" and "int (length cs) \<le> stack"
  shows "local_text stack p m = Some (map (\<lambda>c. word_of_int (c mod 256)) cs, int (length cs))"
proof -
  have l: "load_int m (padd p (- 1)) = Inr (int (length cs))"
    using array_length [OF assms(1) [unfolded int_array_def]] by simp
  have i: "to_int (int (length cs)) = int (length cs)" using assms(2) by (simp add: to_int_id in_int_def)
  have "\<forall>i \<in> set [0..int (length cs) - 1]. load_int m (padd p i) = Inr (cs ! nat i)"
    using load_int_array [OF assms(1)] by simp
  from copy_text_loads [OF this]
  have "copy_text p [0..int (length cs) - 1] m = Some (map (\<lambda>i. word_of_int (cs ! nat i mod 256)) [0..int (length cs) - 1])" .
  also have "map (\<lambda>i. word_of_int (cs ! nat i mod 256)) [0..int (length cs) - 1] = map (\<lambda>c. word_of_int (c mod 256)) cs"
    by (rule nth_equalityI) (simp_all add: nth_upto)
  finally have "copy_text p [0..int (length cs) - 1] m = Some (map (\<lambda>c. word_of_int (c mod 256)) cs)" .
  then show ?thesis using assms(3) unfolding local_text_def l sum.case Let_def i by simp
qed

text \<open>
  C38. \<open>putString\<close> of printable characters that fit into the rest of the line writes exactly them, when
  a byte behind its copy of the string can be read, whatever that byte is. The copy has no place
  for a terminator, so when nothing can be read behind it, the call is a fault.
\<close>

theorem putString_reads_on:
  assumes "du_ok du" and "inv s" and "windows s (stdscr s) = Some W" and "stdscr s \<noteq> newscr s" and "\<not> immed W" and "plain W"
    and "int_array m p cs" and "\<forall>c \<in> set cs. 32 \<le> c \<and> c \<le> 126" and "curx W + int (length cs) \<le> maxx W" and "int (length cs) \<le> stack"
  shows "putString du stack [] p m s = None \<and> (\<exists>s1. putString du stack (b # rest) p m s = Some s1 \<and> inv s1
    \<and> (\<forall>y x. wcell s1 (stdscr s) y x = (if y = cury W \<and> curx W \<le> x \<and> x < curx W + int (length cs)
          then Some (word_of_int (cs ! nat (x - curx W))) else wcell s (stdscr s) y x)))"
proof -
  let ?w = "stdscr s" and ?ts = "map (\<lambda>c. word_of_int (c mod 256) :: chtype) cs"
  have k: "win_ok s ?w W" "?w \<noteq> 0" using invD [OF assms(2,3)] .
  have "int (length cs) < 32768" using assms(9) win_okD(4) [OF k(1)] win_ok_cursor(3) [OF k(1) assms(4)] by linarith
  then have "int (length cs) < 2 ^ 31" by simp
  then have t: "local_text stack p m = Some (?ts, int (length cs))" by (rule local_text_array [OF assms(7) _ assms(10)])
  have m: "c mod 256 = c" if "c \<in> set cs" for c using assms(8) that by auto
  have pr: "\<forall>c \<in> set ?ts. isprint (uint (CharOf c))" using assms(8) m byte_isprint by auto
  have ts: "?ts ! i = word_of_int (cs ! i)" "render_char W (?ts ! i) = word_of_int (cs ! i)" if "i < length cs" for i
    using that m [OF nth_mem [OF that]] assms(8) plain_render [OF assms(6)] by (simp_all add: nth_mem)
  have fit: "curx W + int (length ?ts) \<le> maxx W" using assms(9) by simp
  have e: "draws ?w s s" by (rule draws_self [OF assms(2)])
  have "addnstr_loop du ?w ?ts 0 (int (length cs)) s = None"
    by (rule addnstr_loop_past_end [OF pr _ _ e assms(3,4) fit]) simp_all
  then have f: "putString du stack [] p m s = None" using t k(2) by (simp add: putString_def waddnstr_def)
  obtain s1 W1 where s1: "waddnstr du ?w (?ts @ b # rest) (int (length cs)) s = Some (OK, s1)" "draws ?w s s1"
    "\<forall>y x. wcell s1 ?w y x = (if y = cury W \<and> curx W \<le> x \<and> x < curx W + int (length ?ts)
           then Some (render_char W (?ts ! nat (x - curx W))) else wcell s ?w y x)"
    using waddnstr_text [OF assms(1-5) pr fit, of b "int (length cs)" rest] by auto
  have "wcell s1 ?w y x = (if y = cury W \<and> curx W \<le> x \<and> x < curx W + int (length cs)
          then Some (word_of_int (cs ! nat (x - curx W))) else wcell s ?w y x)" for y x
    using s1(3) ts(2) [of "nat (x - curx W)"] by (simp add: nat_less_iff)
  then show ?thesis using f t s1(1) evolvesD(1) [OF s1(2)] by (simp add: putString_def)
qed

section \<open>Lines from the keyboard\<close>

lemma schar_char_of: "schar (char_of (c :: int)) = to_char c"
proof -
  have "of_char (char_of c) = take_bit 8 c" by (simp add: take_bit_eq_mod)
  moreover have "signed_take_bit 7 (take_bit 8 c) = signed_take_bit 7 c" by (rule bit_eqI) (auto simp: bit_simps min_def)
  ultimately show ?thesis by (simp only: schar_def to_char_def)
qed

text \<open>
  C34. \<open>getInputString\<close> returns a fresh Eta array with the line that the user edits, cut at the first
  NUL, and never more than \<open>maxlength\<close> characters. The line is what is left of the input up to a
  newline or its end when each erase character has taken the character before it out and each kill
  character all of them, and once it is full further characters are dropped. A \<open>maxlength\<close> below
  -1, or of the room for arrays on the stack or more, is a fault; -1, for which the array has no
  elements, is not covered. The window and the modes are those of \<open>line_ready\<close>.

  The interface file \<open>curses.eti\<close> describes \<open>getInputString\<close> as a loop of \<open>getInputChar\<close> up to the end
  of input or a newline, at most \<open>maxlength\<close> times; such a loop would neither edit nor cut the line.
\<close>

theorem getInputString_line:
  assumes "du_ok du" and "du_calm du" and "line_ready (stdscr s) s" and "stdscr s \<noteq> 0" and "rt_ok m" and "stack < 2 ^ 31"
    and "typed_line s maxlength = (rc, str, rest)" and "fits (length str) m"
  shows "if maxlength < - 1 \<or> stack \<le> maxlength then getInputString du stack maxlength m s = None
    else 0 \<le> maxlength \<longrightarrow> (\<exists>p m1 t. getInputString du stack maxlength m s = Some (p, m1, t)
      \<and> int_array m1 p (map to_char (takeWhile (\<lambda>c. c mod 256 \<noteq> 0) str)) \<and> blocks m (fst p) = None \<and> rt_ok m1
      \<and> int (length str) \<le> maxlength \<and> map snd (pending (inp t)) = rest \<and> inv t)"
proof (cases "maxlength < - 1 \<or> stack \<le> maxlength")
  case True
  then show ?thesis by (auto simp: getInputString_def)
next
  case False
  have goal: "\<exists>p m1 t. getInputString du stack maxlength m s = Some (p, m1, t)
      \<and> int_array m1 p (map to_char (takeWhile (\<lambda>c. c mod 256 \<noteq> 0) str)) \<and> blocks m (fst p) = None \<and> rt_ok m1
      \<and> int (length str) \<le> maxlength \<and> map snd (pending (inp t)) = rest \<and> inv t" if n: "0 \<le> maxlength"
  proof -
    have r: "in_i64 (maxlength + 1)" "in_int maxlength" "maxlength + 1 \<le> stack"
      using False n assms(6) by (auto simp: in_i64_def in_int_def)
    have l: "0 \<le> nc_getstr_limit (inp s) maxlength" "nc_getstr_limit (inp s) maxlength \<le> maxlength"
      using assms(3) n by (auto simp: nc_getstr_limit_def line_ready_def)
    have len: "int (length str) \<le> maxlength"
      using edit_line_length [OF l(1), of "[]" "erasechar (inp s)" "killchar (inp s)" "map snd (pending (inp s))"] assms(7) l
      by (simp add: typed_line_def)
    have fit: "length str < nat (maxlength + 1)" "nc_getstr_limit (inp s) maxlength \<le> int (nat (maxlength + 1))" using l n len by linarith+
    obtain t where t: "wgetnstr du (stdscr s) (nat (maxlength + 1)) maxlength s = Some (rc, str, t)" "inv t"
      "map snd (pending (inp t)) = rest"
      using wgetnstr_ready [OF assms(1-3) fit(2) assms(7)] unfolding if_P [OF fit(1)] by blast
    have "length (c_chars str) \<le> length str" by (simp add: c_chars_def length_takeWhile_le)
    then have "fits (length (c_chars str)) m" using assms(8) by (auto simp: fits_def)
    from mkstr.makes [OF assms(5) this] obtain p m1 where
      p: "mkString (c_chars str) m = Inr (p, m1)" "is_array m1 p (string_vals (c_chars str))" "rt_ok m1" "blocks m (fst p) = None" by blast
    have "map schar (c_chars str) = map to_char (takeWhile (\<lambda>c. c mod 256 \<noteq> 0) str)"
      by (simp add: c_chars_def schar_char_of o_def)
    then have "int_array m1 p (map to_char (takeWhile (\<lambda>c. c mod 256 \<noteq> 0) str))" using p(2) by (simp add: string_vals_array)
    then show ?thesis
      using r n assms(4) t p len by (intro exI [of _ p] exI [of _ m1] exI [of _ t]) (simp add: getInputString_def to_int_id)
  qed
  show ?thesis using False goal by simp
qed

section \<open>On the small screen\<close>

lemma demo_plain: "plain (demo_win b)"
  by (simp add: plain_def)

lemma demo_std: "windows demo (stdscr demo) = Some (demo_win 4)" "stdscr demo \<noteq> newscr demo"
  by (simp_all add: demo_def)


theorem putString_reads_on_witness:
  "\<exists>p m s1. mkString ''Eta'' (rt_start []) = Inr (p, m) \<and> putString idle 100 [] p m demo = None
     \<and> putString idle 100 [0x58] p m demo = Some s1 \<and> wcell s1 3 0 2 = Some 0x61"
proof -
  have "fits (length ''Eta'') (rt_start [])" by simp
  from mkstr.makes [OF rt_start_ok this] obtain p m where
    p: "mkString ''Eta'' (rt_start []) = Inr (p, m)" "is_array m p (string_vals ''Eta'')" by blast
  have a: "int_array m p [69, 116, 97]" using p(2) by (simp add: string_vals_array schar_def)
  show ?thesis
    using putString_reads_on [OF du_ok_idle inv_demo demo_std _ demo_plain a, of 100 "0x58" "[]"] p(1)
    by (auto simp: demo_def)
qed

theorem getInputString_line_witness:
  "\<exists>p m t. getInputString idle 100 9 (rt_start []) (typing [(0, 97), (7, 98), (9999, 127), (2, 200), (0, 13), (5, 120)]) = Some (p, m, t)
     \<and> int_array m p [97, - 56] \<and> map snd (pending (inp t)) = [120]"
proof -
  let ?s = "typing [(0, 97), (7, 98), (9999, 127), (2, 200), (0, 13), (5, 120)]"
  have std: "stdscr ?s = 3" by (simp add: typing_def demo_def)
  have r: "line_ready (stdscr ?s) ?s" unfolding std by (rule typing_ready) simp
  have e: "typed_line ?s 9 = (OK, [97, - 56], [120])"
    by (simp add: typed_line_def typing_def demo_chars nc_getstr_limit_def to_char_def)
  show ?thesis
    using getInputString_line [OF du_ok_idle du_calm_idle r _ rt_start_ok [of "[]"] _ e, of 100] std
    by (fastforce simp: to_char_def)
qed

end
