(* ===== verification/GcIndex.thy ===== *)
theory GcIndex
  imports Prelude
begin

text \<open>
  The header index of the collector (\<open>gc-7.6.4/headers.c\<close>, \<open>include/private/gc_hdrs.h\<close>): the map
  from the blocks of the heap to their headers, as the build on 64 bits with \<open>HASH_TL\<close>.

  A pointer to a \<open>struct hblk\<close> is the number of the block, its address divided by \<open>HBLKSIZE\<close>, so that
  the pointer arithmetic of the code is that of the numbers; sizes are in bytes, and addresses and
  sizes are natural numbers that stay below \<open>2 ^ 64\<close>. A header and a bottom index are numbered by the
  call of \<open>GC_scratch_alloc\<close> that made them, 0 being the null pointer. What that call found in
  memory is \<open>scratch\<close>, \<open>None\<close> when it got no memory.

  The first half is the code, down to the links of the hash chains and of the sorted list of the
  bottom indices. The second half shows that this is a map: \<open>ent\<close> is the entry of a block, and each
  operation changes it at the blocks it is called for and nowhere else.
\<close>

section \<open>Sizes\<close>

abbreviation HBLKSIZE :: nat where "HBLKSIZE \<equiv> 4096"
abbreviation BOTTOM_SZ :: nat where "BOTTOM_SZ \<equiv> 1024"
abbreviation TOP_SZ :: nat where "TOP_SZ \<equiv> 2048"
abbreviation MAX_JUMP :: nat where "MAX_JUMP \<equiv> 4095"

definition divHBLKSZ :: "nat \<Rightarrow> nat" where "divHBLKSZ n = n div HBLKSIZE"

definition IGNORE_OFF_PAGE :: "8 word" where "IGNORE_OFF_PAGE = 1"
definition FREE_BLK :: "8 word" where "FREE_BLK = 4"
definition HAS_DISCLAIM :: "8 word" where "HAS_DISCLAIM = 8"
definition MARK_UNCONDITIONALLY :: "8 word" where "MARK_UNCONDITIONALLY = 0x10"
definition LARGE_BLOCK :: "8 word" where "LARGE_BLOCK = 0x20"

section \<open>The state\<close>

record hdr =
  hb_next :: nat
  hb_prev :: nat
  hb_block :: nat
  hb_obj_kind :: nat
  hb_flags :: "8 word"
  hb_last_reclaimed :: nat
  hb_sz :: nat
  hb_descr :: nat
  hb_map :: nat
  hb_n_marks :: nat
  hb_marks :: "nat \<Rightarrow> bool"

text \<open>A value of an index: a null pointer or a forwarding count, or a pointer to a header.\<close>

datatype entry = Fwd nat | Hdr nat

record bottom_index =
  bi_index :: "nat \<Rightarrow> entry"
  asc_link :: nat
  desc_link :: nat
  bi_key :: nat
  hash_link :: nat

record gc =
  GC_top_index :: "nat \<Rightarrow> nat"
  GC_all_nils :: nat
  bottoms :: "nat \<Rightarrow> bottom_index option"
  GC_all_bottom_indices :: nat
  GC_all_bottom_indices_end :: nat
  hdrs :: "nat \<Rightarrow> hdr option"
  hdr_free_list :: nat
  scratch :: "nat \<Rightarrow> hdr option"
  next_scratch :: nat
  GC_hblkfreelist :: "nat \<Rightarrow> nat"
  GC_free_bytes :: "nat \<Rightarrow> nat"
  GC_large_free_bytes :: nat
  GC_large_allocd_bytes :: nat
  GC_max_large_allocd_bytes :: nat
  GC_heapsize :: nat
  GC_requested_heapsize :: nat
  GC_finalizer_bytes_freed :: nat
  GC_bytes_dropped :: nat
  GC_fail_count :: nat
  GC_gc_no :: nat
  GC_large_alloc_warn_suppressed :: nat
  GC_large_alloc_warn_interval :: nat
  drop_count :: nat
  GC_black_list_spacing :: nat
  GC_all_interior_pointers :: bool
  GC_find_leak :: bool
  GC_dont_gc :: bool
  GC_use_entire_heap :: bool
  GC_obj_map :: "nat \<Rightarrow> nat"
  obj_maps :: "nat \<Rightarrow> (nat list) option"
  ok_descriptor :: "nat \<Rightarrow> nat"
  ok_relocate_descr :: "nat \<Rightarrow> bool"
  ok_disclaim_proc :: "nat \<Rightarrow> bool"
  ok_mark_unconditionally :: "nat \<Rightarrow> bool"
  GC_old_stack_bl :: "nat \<Rightarrow> 64 word"
  GC_incomplete_stack_bl :: "nat \<Rightarrow> 64 word"
  GC_old_normal_bl :: "nat \<Rightarrow> 64 word"
  GC_incomplete_normal_bl :: "nat \<Rightarrow> 64 word"
  GC_total_stack_black_listed :: nat
  GC_modws_valid_offsets :: "nat \<Rightarrow> bool"
  GC_heap_sects :: "(nat \<times> nat) list"
  GC_collect_at_heapsize :: nat
  GC_least_plausible_heap_addr :: nat
  GC_greatest_plausible_heap_addr :: nat

definition scratch_alloc :: "gc \<Rightarrow> nat \<times> gc" where
  "scratch_alloc s =
     (if scratch s (next_scratch s) = None then 0 else next_scratch s, s\<lparr>next_scratch := next_scratch s + 1\<rparr>)"

section \<open>Looking up a block\<close>

definition TL_HASH :: "nat \<Rightarrow> nat" where "TL_HASH hi = hi mod TOP_SZ"

text \<open>The macro \<open>GET_BI\<close>: \<open>hi\<close> are the bits of the address above those of a bottom index.\<close>

partial_function (option) bi_chain :: "nat \<Rightarrow> nat \<Rightarrow> gc \<Rightarrow> nat option" where
  "bi_chain hi b s = do {
     B \<leftarrow> bottoms s b;
     if bi_key B \<noteq> hi \<and> b \<noteq> GC_all_nils s then bi_chain hi (hash_link B) s else Some b }"

definition GET_BI :: "nat \<Rightarrow> gc \<Rightarrow> nat option" where
  "GET_BI p s = bi_chain (p div BOTTOM_SZ) (GC_top_index s (TL_HASH (p div BOTTOM_SZ))) s"

definition HDR :: "nat \<Rightarrow> gc \<Rightarrow> entry option" where
  "HDR p s = do { b \<leftarrow> GET_BI p s; B \<leftarrow> bottoms s b; Some (bi_index B (p mod BOTTOM_SZ)) }"

definition SET_HDR :: "nat \<Rightarrow> entry \<Rightarrow> gc \<Rightarrow> gc option" where
  "SET_HDR p e s = do {
     b \<leftarrow> GET_BI p s;
     B \<leftarrow> bottoms s b;
     Some (s\<lparr>bottoms := (bottoms s)(b \<mapsto> B\<lparr>bi_index := (bi_index B)(p mod BOTTOM_SZ := e)\<rparr>)\<rparr>) }"

section \<open>Making an index\<close>

definition zero_index :: bottom_index where
  "zero_index = \<lparr>bi_index = (\<lambda>_. Fwd 0), asc_link = 0, desc_link = 0, bi_key = 0, hash_link = 0\<rparr>"

definition GC_init_headers :: "gc \<Rightarrow> gc option" where
  "GC_init_headers s =
     (let (r, s1) = scratch_alloc s in
      if r = 0 then None
      else Some (s1\<lparr>GC_all_nils := r, bottoms := (bottoms s1)(r \<mapsto> zero_index), GC_top_index := (\<lambda>_. r)\<rparr>))"

text \<open>The search of \<open>get_index\<close> in the hash chain.\<close>

partial_function (option) key_in_chain :: "nat \<Rightarrow> nat \<Rightarrow> gc \<Rightarrow> bool option" where
  "key_in_chain hi p s =
     (if p \<noteq> GC_all_nils s then do {
        B \<leftarrow> bottoms s p;
        if bi_key B = hi then Some True else key_in_chain hi (hash_link B) s }
      else Some False)"

text \<open>The search for the place in the sorted list: the index before it and the one after it.\<close>

partial_function (option) place_of_key :: "nat \<Rightarrow> nat \<Rightarrow> nat \<Rightarrow> gc \<Rightarrow> (nat \<times> nat) option" where
  "place_of_key hi before p s =
     (if p \<noteq> 0 then do {
        B \<leftarrow> bottoms s p;
        if bi_key B < hi then place_of_key hi p (asc_link B) s else Some (before, p) }
      else Some (before, p))"

definition mod_bi :: "nat \<Rightarrow> (bottom_index \<Rightarrow> bottom_index) \<Rightarrow> gc \<Rightarrow> gc option" where
  "mod_bi b f s = do { B \<leftarrow> bottoms s b; Some (s\<lparr>bottoms := (bottoms s)(b \<mapsto> f B)\<rparr>) }"

definition get_index :: "nat \<Rightarrow> gc \<Rightarrow> (bool \<times> gc) option" where
  "get_index addr s = do {
     let hi = addr div (BOTTOM_SZ * HBLKSIZE);
     let i = TL_HASH hi;
     let old = GC_top_index s i;
     found \<leftarrow> key_in_chain hi old s;
     if found then Some (True, s)
     else do {
       let (r, s1) = scratch_alloc s;
       if r = 0 then Some (False, s1)
       else do {
         let s2 = s1\<lparr>bottoms := (bottoms s1)(r \<mapsto> zero_index\<lparr>hash_link := old, bi_key := hi\<rparr>),
                     GC_top_index := (GC_top_index s1)(i := r)\<rparr>;
         (before, p) \<leftarrow> place_of_key hi 0 (GC_all_bottom_indices s2) s2;
         s3 \<leftarrow> mod_bi r (\<lambda>B. B\<lparr>desc_link := before\<rparr>) s2;
         s4 \<leftarrow> (if p = 0 then Some (s3\<lparr>GC_all_bottom_indices_end := r\<rparr>) else mod_bi p (\<lambda>B. B\<lparr>desc_link := r\<rparr>) s3);
         s5 \<leftarrow> mod_bi r (\<lambda>B. B\<lparr>asc_link := p\<rparr>) s4;
         s6 \<leftarrow> (if before = 0 then Some (s5\<lparr>GC_all_bottom_indices := r\<rparr>) else mod_bi before (\<lambda>B. B\<lparr>asc_link := r\<rparr>) s5);
         Some (True, s6) } } }"

section \<open>Headers\<close>

definition alloc_hdr :: "gc \<Rightarrow> (nat \<times> gc) option" where
  "alloc_hdr s =
     (if hdr_free_list s = 0 then
        (let (r, s1) = scratch_alloc s in
         Some (r, if r = 0 then s1 else s1\<lparr>hdrs := (hdrs s1)(r := scratch s1 r)\<rparr>))
      else do {
        H \<leftarrow> hdrs s (hdr_free_list s);
        Some (hdr_free_list s, s\<lparr>hdr_free_list := hb_next H\<rparr>) })"

definition free_hdr :: "nat \<Rightarrow> gc \<Rightarrow> gc option" where
  "free_hdr h s = do {
     H \<leftarrow> hdrs s h;
     Some (s\<lparr>hdrs := (hdrs s)(h \<mapsto> H\<lparr>hb_next := hdr_free_list s\<rparr>), hdr_free_list := h\<rparr>) }"

definition GC_install_header :: "nat \<Rightarrow> gc \<Rightarrow> (nat \<times> gc) option" where
  "GC_install_header h s = do {
     (r, s1) \<leftarrow> get_index (h * HBLKSIZE) s;
     if \<not> r then Some (0, s1)
     else do {
       (result, s2) \<leftarrow> alloc_hdr s1;
       if result \<noteq> 0 then do { s3 \<leftarrow> SET_HDR h (Hdr result) s2; Some (result, s3) } else Some (0, s2) } }"

definition GC_remove_header :: "nat \<Rightarrow> gc \<Rightarrow> gc option" where
  "GC_remove_header h s = do {
     e \<leftarrow> HDR h s;
     case e of Fwd _ \<Rightarrow> None
     | Hdr k \<Rightarrow> do { s1 \<leftarrow> free_hdr k s; SET_HDR h (Fwd 0) s1 } }"

section \<open>Forwarding counts\<close>

function indices_for :: "nat \<Rightarrow> nat \<Rightarrow> nat \<Rightarrow> gc \<Rightarrow> (bool \<times> gc) option" where
  "indices_for h sz hbp s =
     (if hbp * HBLKSIZE < h * HBLKSIZE + sz then do {
        (r, s1) \<leftarrow> get_index (hbp * HBLKSIZE) s;
        if \<not> r then Some (False, s1) else indices_for h sz (hbp + BOTTOM_SZ) s1 }
      else Some (True, s))"
  by pat_completeness auto

termination
  by (relation "measure (\<lambda>(h, sz, hbp, s). h * HBLKSIZE + sz - hbp * HBLKSIZE)") auto

function counts_from :: "nat \<Rightarrow> nat \<Rightarrow> nat \<Rightarrow> gc \<Rightarrow> gc option" where
  "counts_from h sz hbp s =
     (if hbp * HBLKSIZE < h * HBLKSIZE + sz then do {
        let i = hbp - h;
        s1 \<leftarrow> SET_HDR hbp (Fwd (if i > MAX_JUMP then MAX_JUMP else i)) s;
        counts_from h sz (hbp + 1) s1 }
      else Some s)"
  by pat_completeness auto

termination
  by (relation "measure (\<lambda>(h, sz, hbp, s). h * HBLKSIZE + sz - hbp * HBLKSIZE)") auto

definition GC_install_counts :: "nat \<Rightarrow> nat \<Rightarrow> gc \<Rightarrow> (bool \<times> gc) option" where
  "GC_install_counts h sz s = do {
     (r, s1) \<leftarrow> indices_for h sz h s;
     if \<not> r then Some (False, s1)
     else do {
       (q, s2) \<leftarrow> get_index (h * HBLKSIZE + sz - 1) s1;
       if \<not> q then Some (False, s2)
       else do { s3 \<leftarrow> counts_from h sz (h + 1) s2; Some (True, s3) } } }"

function no_counts_from :: "nat \<Rightarrow> nat \<Rightarrow> nat \<Rightarrow> gc \<Rightarrow> gc option" where
  "no_counts_from h sz hbp s =
     (if hbp * HBLKSIZE < h * HBLKSIZE + sz then do {
        s1 \<leftarrow> SET_HDR hbp (Fwd 0) s;
        no_counts_from h sz (hbp + 1) s1 }
      else Some s)"
  by pat_completeness auto

termination
  by (relation "measure (\<lambda>(h, sz, hbp, s). h * HBLKSIZE + sz - hbp * HBLKSIZE)") auto

definition GC_remove_counts :: "nat \<Rightarrow> nat \<Rightarrow> gc \<Rightarrow> gc option" where
  "GC_remove_counts h sz s = no_counts_from h sz (h + 1) s"

declare indices_for.simps [simp del] counts_from.simps [simp del] no_counts_from.simps [simp del]

section \<open>The links of the bottom indices\<close>

definition bkey :: "gc \<Rightarrow> nat \<Rightarrow> nat" where
  "bkey s b = bi_key (the (bottoms s b))"

text \<open>\<open>links f s p xs q\<close>: following the links \<open>f\<close> from \<open>p\<close>, one meets \<open>xs\<close> and then \<open>q\<close>.\<close>

fun links :: "(bottom_index \<Rightarrow> nat) \<Rightarrow> gc \<Rightarrow> nat \<Rightarrow> nat list \<Rightarrow> nat \<Rightarrow> bool" where
  "links f s p [] q \<longleftrightarrow> p = q"
| "links f s p (x # xs) q \<longleftrightarrow> p = x \<and> (\<exists>B. bottoms s x = Some B \<and> links f s (f B) xs q)"

lemma links_append: "links f s p (xs @ ys) q \<longleftrightarrow> (\<exists>m. links f s p xs m \<and> links f s m ys q)"
  by (induction xs arbitrary: p) auto

lemma links_cong:
  assumes "\<And>x. x \<in> set xs \<Longrightarrow> bottoms t x \<noteq> None \<and> f (the (bottoms t x)) = f (the (bottoms s x))"
    and "links f s p xs q"
  shows "links f t p xs q"
  using assms by (induction xs arbitrary: p) fastforce+

lemma links_here: "links f s p xs q \<Longrightarrow> x \<in> set xs \<Longrightarrow> bottoms s x \<noteq> None"
  by (induction xs arbitrary: p) auto

text \<open>The end of a segment is bent to another index.\<close>

lemma links_bend:
  assumes "links f s p (xs @ [y]) q" and "y \<notin> set xs"
    and "\<And>x. x \<in> set xs \<Longrightarrow> bottoms t x \<noteq> None \<and> f (the (bottoms t x)) = f (the (bottoms s x))"
    and "bottoms t y = Some B" and "f B = r"
  shows "links f t p (xs @ [y]) r"
proof -
  have "links f s p xs y" using assms(1) by (auto simp: links_append)
  then have "links f t p xs y" using assms(3) by (rule links_cong [rotated])
  then show ?thesis using assms(4,5) by (auto simp: links_append)
qed

fun backs :: "gc \<Rightarrow> nat \<Rightarrow> nat list \<Rightarrow> bool" where
  "backs s q [] \<longleftrightarrow> True"
| "backs s q (x # xs) \<longleftrightarrow> (\<exists>B. bottoms s x = Some B \<and> desc_link B = q) \<and> backs s x xs"

definition last0 :: "nat list \<Rightarrow> nat" where
  "last0 xs = (if xs = [] then 0 else last xs)"

definition hd0 :: "nat list \<Rightarrow> nat" where
  "hd0 xs = (if xs = [] then 0 else hd xs)"

lemma backs_append: "backs s q (xs @ ys) \<longleftrightarrow> backs s q xs \<and> backs s (if xs = [] then q else last xs) ys"
  by (induction xs arbitrary: q) auto

lemma backs_cong:
  assumes "\<And>x. x \<in> set xs \<Longrightarrow> bottoms t x \<noteq> None \<and> desc_link (the (bottoms t x)) = desc_link (the (bottoms s x))"
    and "backs s q xs"
  shows "backs t q xs"
  using assms by (induction xs arbitrary: q) fastforce+

text \<open>
  The index as a whole, with the list \<open>L\<close> of its bottom indices: they are linked in both directions
  and sorted by their keys, and the hash chain \<open>i\<close> has exactly those whose key hashes to \<open>i\<close>.
\<close>

definition idx_ok :: "nat list \<Rightarrow> gc \<Rightarrow> bool" where
  "idx_ok L s \<longleftrightarrow>
     GC_all_nils s \<noteq> 0 \<and> GC_all_nils s \<notin> set L \<and> 0 \<notin> set L \<and> 0 < next_scratch s
     \<and> (\<exists>A. bottoms s (GC_all_nils s) = Some A \<and> bi_index A = (\<lambda>_. Fwd 0))
     \<and> (\<forall>b \<in> insert (GC_all_nils s) (set L). b < next_scratch s)
     \<and> links asc_link s (GC_all_bottom_indices s) L 0 \<and> backs s 0 L \<and> GC_all_bottom_indices_end s = last0 L
     \<and> sorted_wrt (<) (map (bkey s) L)
     \<and> (\<forall>i < TOP_SZ. \<exists>xs. links hash_link s (GC_top_index s i) xs (GC_all_nils s) \<and> distinct xs
          \<and> set xs = {b \<in> set L. TL_HASH (bkey s b) = i})"

lemma idx_okD:
  assumes "idx_ok L s"
  shows "GC_all_nils s \<noteq> 0" "GC_all_nils s \<notin> set L" "0 \<notin> set L" "0 < next_scratch s"
    "\<exists>A. bottoms s (GC_all_nils s) = Some A \<and> bi_index A = (\<lambda>_. Fwd 0)"
    "b \<in> set L \<Longrightarrow> b < next_scratch s" "GC_all_nils s < next_scratch s"
    "links asc_link s (GC_all_bottom_indices s) L 0" "backs s 0 L" "GC_all_bottom_indices_end s = last0 L"
    "sorted_wrt (<) (map (bkey s) L)" "b \<in> set L \<Longrightarrow> bottoms s b \<noteq> None"
  using assms links_here [of asc_link s "GC_all_bottom_indices s" L 0] by (auto simp: idx_ok_def)

lemma idx_chain:
  assumes "idx_ok L s" and "i < TOP_SZ"
  obtains xs where "links hash_link s (GC_top_index s i) xs (GC_all_nils s)" "distinct xs"
    "set xs = {b \<in> set L. TL_HASH (bkey s b) = i}"
  using assms by (auto simp: idx_ok_def)

lemma idx_keys: "idx_ok L s \<Longrightarrow> distinct (map (bkey s) L)"
  using idx_okD(11) strict_sorted_iff by blast

lemma idx_key_inj: "idx_ok L s \<Longrightarrow> b \<in> set L \<Longrightarrow> c \<in> set L \<Longrightarrow> bkey s b = bkey s c \<Longrightarrow> b = c"
  using idx_keys by (simp add: distinct_map inj_on_def)

lemma idx_distinct: "idx_ok L s \<Longrightarrow> distinct L"
  using idx_keys by (simp add: distinct_map)

section \<open>Looking up is looking for a key\<close>

lemma bi_chain_spec:
  assumes "links hash_link s b xs (GC_all_nils s)" and "GC_all_nils s \<notin> set xs" and "bottoms s (GC_all_nils s) \<noteq> None"
  shows "bi_chain hi b s = Some (case find (\<lambda>x. bkey s x = hi) xs of None \<Rightarrow> GC_all_nils s | Some x \<Rightarrow> x)"
  using assms
proof (induction xs arbitrary: b)
  case Nil
  then show ?case by (subst bi_chain.simps) auto
next
  case (Cons x xs)
  then show ?case by (subst bi_chain.simps) (auto simp: bkey_def)
qed

lemma key_in_chain_spec:
  assumes "links hash_link s b xs (GC_all_nils s)" and "GC_all_nils s \<notin> set xs"
  shows "key_in_chain hi b s = Some (\<exists>x \<in> set xs. bkey s x = hi)"
  using assms
proof (induction xs arbitrary: b)
  case Nil
  then show ?case by (subst key_in_chain.simps) auto
next
  case (Cons x xs)
  then show ?case by (subst key_in_chain.simps) (auto simp: bkey_def)
qed

lemma TL_HASH_less [simp]: "TL_HASH hi < TOP_SZ"
  by (simp add: TL_HASH_def)

lemma GET_BI_spec:
  assumes "idx_ok L s"
  shows "GET_BI p s = Some (case find (\<lambda>x. bkey s x = p div BOTTOM_SZ) L of None \<Rightarrow> GC_all_nils s | Some x \<Rightarrow> x)"
proof -
  let ?hi = "p div BOTTOM_SZ"
  obtain xs where xs: "links hash_link s (GC_top_index s (TL_HASH ?hi)) xs (GC_all_nils s)"
    "set xs = {b \<in> set L. TL_HASH (bkey s b) = TL_HASH ?hi}" by (rule idx_chain [OF assms TL_HASH_less])
  have "find (\<lambda>x. bkey s x = ?hi) xs = find (\<lambda>x. bkey s x = ?hi) L"
  proof (cases "find (\<lambda>x. bkey s x = ?hi) L")
    case None
    then have "\<forall>b \<in> set L. bkey s b \<noteq> ?hi" by (auto simp: find_None_iff)
    then have "find (\<lambda>x. bkey s x = ?hi) xs = None" using xs(2) by (auto simp: find_None_iff)
    then show ?thesis using None by simp
  next
    case (Some b)
    then have b: "b \<in> set L" "bkey s b = ?hi" by (auto simp: find_Some_iff)
    then have "\<exists>x \<in> set xs. bkey s x = ?hi" using xs(2) by auto
    then obtain c where c: "find (\<lambda>x. bkey s x = ?hi) xs = Some c" by (cases "find (\<lambda>x. bkey s x = ?hi) xs") (auto simp: find_None_iff)
    then have "c \<in> set xs" "bkey s c = ?hi" by (auto simp: find_Some_iff)
    then have "c = b" using xs(2) b idx_key_inj [OF assms] by auto
    then show ?thesis using c Some by simp
  qed
  moreover have "GC_all_nils s \<notin> set xs" using xs(2) idx_okD(2) [OF assms] by auto
  ultimately show ?thesis
    using bi_chain_spec [OF xs(1), of ?hi] idx_okD(5) [OF assms] by (auto simp: GET_BI_def)
qed

lemma GET_BI_in: "idx_ok L s \<Longrightarrow> b \<in> set L \<Longrightarrow> bkey s b = p div BOTTOM_SZ \<Longrightarrow> GET_BI p s = Some b"
  using GET_BI_spec [of L s p] idx_key_inj [of L s]
  by (cases "find (\<lambda>x. bkey s x = p div BOTTOM_SZ) L") (auto simp: find_None_iff find_Some_iff)

lemma GET_BI_out: "idx_ok L s \<Longrightarrow> \<forall>b \<in> set L. bkey s b \<noteq> p div BOTTOM_SZ \<Longrightarrow> GET_BI p s = Some (GC_all_nils s)"
proof -
  assume i: "idx_ok L s" "\<forall>b \<in> set L. bkey s b \<noteq> p div BOTTOM_SZ"
  then have "find (\<lambda>x. bkey s x = p div BOTTOM_SZ) L = None" by (auto simp: find_None_iff)
  then show ?thesis using GET_BI_spec [OF i(1)] by simp
qed

section \<open>The entry of a block\<close>

definition ent :: "gc \<Rightarrow> nat \<Rightarrow> entry" where
  "ent s p = (case HDR p s of None \<Rightarrow> Fwd 0 | Some e \<Rightarrow> e)"

text \<open>There is a bottom index for the block, so its entry can be changed.\<close>

definition indexed :: "gc \<Rightarrow> nat \<Rightarrow> bool" where
  "indexed s p \<longleftrightarrow> (\<exists>b. GET_BI p s = Some b \<and> b \<noteq> GC_all_nils s)"

lemma indexed_iff: "idx_ok L s \<Longrightarrow> indexed s p \<longleftrightarrow> (\<exists>b \<in> set L. bkey s b = p div BOTTOM_SZ)"
proof
  assume i: "idx_ok L s" "indexed s p"
  show "\<exists>b \<in> set L. bkey s b = p div BOTTOM_SZ"
  proof (rule ccontr)
    assume "\<not> ?thesis"
    then have "GET_BI p s = Some (GC_all_nils s)" using GET_BI_out [OF i(1)] by blast
    then show False using i(2) by (simp add: indexed_def)
  qed
next
  assume i: "idx_ok L s" "\<exists>b \<in> set L. bkey s b = p div BOTTOM_SZ"
  then show "indexed s p" using GET_BI_in [OF i(1)] idx_okD(2) [OF i(1)] by (auto simp: indexed_def)
qed

lemma HDR_in: "idx_ok L s \<Longrightarrow> b \<in> set L \<Longrightarrow> bkey s b = p div BOTTOM_SZ
    \<Longrightarrow> HDR p s = Some (bi_index (the (bottoms s b)) (p mod BOTTOM_SZ))"
  using GET_BI_in [of L s b p] idx_okD(12) [of L s b] by (auto simp: HDR_def)

lemma HDR_out: "idx_ok L s \<Longrightarrow> \<forall>b \<in> set L. bkey s b \<noteq> p div BOTTOM_SZ \<Longrightarrow> HDR p s = Some (Fwd 0)"
  using GET_BI_out [of L s p] idx_okD(5) [of L s] by (auto simp: HDR_def)

lemma HDR_ent: "idx_ok L s \<Longrightarrow> HDR p s = Some (ent s p)"
  using HDR_in [of L s _ p] HDR_out [of L s p] by (cases "\<exists>b \<in> set L. bkey s b = p div BOTTOM_SZ") (auto simp: ent_def)

lemma ent_indexed: "idx_ok L s \<Longrightarrow> ent s p \<noteq> Fwd 0 \<Longrightarrow> indexed s p"
  using HDR_out [of L s p] indexed_iff [of L s p] by (auto simp: ent_def)

text \<open>The part of the state that the index does not use.\<close>

definition upper :: "gc \<Rightarrow> gc" where
  "upper s = s\<lparr>GC_top_index := (\<lambda>_. 0), bottoms := Map.empty, GC_all_bottom_indices := 0, GC_all_bottom_indices_end := 0,
     next_scratch := 0\<rparr>"

lemma idx_ok_upd:
  assumes "idx_ok L s" and "b \<in> set L" and "bottoms s b = Some B"
    and "bi_key B' = bi_key B" "asc_link B' = asc_link B" "desc_link B' = desc_link B" "hash_link B' = hash_link B"
  shows "idx_ok L (s\<lparr>bottoms := (bottoms s)(b \<mapsto> B')\<rparr>)"
proof -
  let ?t = "s\<lparr>bottoms := (bottoms s)(b \<mapsto> B')\<rparr>"
  have k: "bkey ?t = bkey s" using assms(3,4) by (auto simp: bkey_def)
  have a: "links f ?t p xs q" if "links f s p xs q" "f B' = f B" for f p xs q
    by (rule links_cong [OF _ that(1)]) (use links_here [OF that(1)] that(2) assms(3) in auto)
  have l: "links asc_link ?t (GC_all_bottom_indices s) L 0" by (rule a [OF idx_okD(8) [OF assms(1)] assms(5)])
  have d: "backs ?t 0 L" by (rule backs_cong [OF _ idx_okD(9) [OF assms(1)]]) (use idx_okD(12) [OF assms(1)] assms(3,6) in auto)
  have h: "\<exists>xs. links hash_link ?t (GC_top_index s i) xs (GC_all_nils s) \<and> distinct xs \<and> set xs = {b \<in> set L. TL_HASH (bkey ?t b) = i}"
    if "i < TOP_SZ" for i
    using idx_chain [OF assms(1) that] a [OF _ assms(7)] unfolding k by metis
  have n: "b \<noteq> GC_all_nils s" using idx_okD(2) [OF assms(1)] assms(2) by blast
  have "\<exists>A. bottoms ?t (GC_all_nils s) = Some A \<and> bi_index A = (\<lambda>_. Fwd 0)" using idx_okD(5) [OF assms(1)] n by auto
  then show ?thesis using assms(1) l d h unfolding idx_ok_def k by simp
qed

lemma SET_HDR_spec:
  assumes "idx_ok L s" and "indexed s p"
  shows "\<exists>t. SET_HDR p e s = Some t \<and> idx_ok L t \<and> ent t = (ent s)(p := e) \<and> indexed t = indexed s
    \<and> upper t = upper s \<and> next_scratch t = next_scratch s"
proof -
  obtain b where b: "b \<in> set L" "bkey s b = p div BOTTOM_SZ" using assms indexed_iff by blast
  obtain B where B: "bottoms s b = Some B" using idx_okD(12) [OF assms(1) b(1)] by blast
  let ?B = "B\<lparr>bi_index := (bi_index B)(p mod BOTTOM_SZ := e)\<rparr>"
  let ?t = "s\<lparr>bottoms := (bottoms s)(b \<mapsto> ?B)\<rparr>"
  have t: "SET_HDR p e s = Some ?t" using GET_BI_in [OF assms(1) b] B by (simp add: SET_HDR_def)
  have i: "idx_ok L ?t" by (rule idx_ok_upd [OF assms(1) b(1) B]) simp_all
  have k: "bkey ?t = bkey s" using B by (auto simp: bkey_def)
  have x: "indexed ?t q = indexed s q" for q using indexed_iff [OF i] indexed_iff [OF assms(1)] k by simp
  have "ent ?t q = ((ent s)(p := e)) q" for q
  proof (cases "\<exists>c \<in> set L. bkey s c = q div BOTTOM_SZ")
    case False
    then have "HDR q s = Some (Fwd 0)" "HDR q ?t = Some (Fwd 0)" using HDR_out [OF assms(1)] HDR_out [OF i] k by auto
    moreover have "q \<noteq> p" using False b by auto
    ultimately show ?thesis by (simp add: ent_def)
  next
    case True
    then obtain c where c: "c \<in> set L" "bkey s c = q div BOTTOM_SZ" by blast
    have s: "HDR q s = Some (bi_index (the (bottoms s c)) (q mod BOTTOM_SZ))" "HDR q ?t = Some (bi_index (the (bottoms ?t c)) (q mod BOTTOM_SZ))"
      using HDR_in [OF assms(1) c] HDR_in [OF i c(1)] c(2) k by simp_all
    show ?thesis
    proof (cases "c = b")
      case True
      then have "q div BOTTOM_SZ = p div BOTTOM_SZ" using c b by simp
      then have "q mod BOTTOM_SZ = p mod BOTTOM_SZ \<longleftrightarrow> q = p" by (metis div_mult_mod_eq)
      then show ?thesis using s True B by (simp add: ent_def)
    next
      case False
      then have "q \<noteq> p" using c b idx_key_inj [OF assms(1)] by auto
      then show ?thesis using s False by (simp add: ent_def)
    qed
  qed
  then have "ent ?t = (ent s)(p := e)" by blast
  then show ?thesis using t i x by (auto simp: upper_def)
qed

section \<open>A new bottom index\<close>

lemma place_of_key_spec:
  assumes "links asc_link s p L 0" and "0 \<notin> set L"
  shows "place_of_key hi before p s = Some (if takeWhile (\<lambda>b. bkey s b < hi) L = [] then before
     else last (takeWhile (\<lambda>b. bkey s b < hi) L), hd0 (dropWhile (\<lambda>b. bkey s b < hi) L))"
  using assms
proof (induction L arbitrary: p before)
  case Nil
  then show ?case by (subst place_of_key.simps) (simp add: hd0_def)
next
  case (Cons x L)
  then show ?case by (subst place_of_key.simps) (auto simp: bkey_def hd0_def)
qed

text \<open>What the insertion of the index \<open>r\<close> between \<open>pre\<close> and \<open>post\<close> does to the others.\<close>

definition linked_in :: "nat list \<Rightarrow> nat \<Rightarrow> nat list \<Rightarrow> gc \<Rightarrow> gc \<Rightarrow> bool" where
  "linked_in pre r post s t \<longleftrightarrow>
     (\<forall>x \<in> insert (GC_all_nils s) (set (pre @ post)). \<exists>B C. bottoms s x = Some B \<and> bottoms t x = Some C
        \<and> bi_index C = bi_index B \<and> bi_key C = bi_key B \<and> hash_link C = hash_link B
        \<and> asc_link C = (if pre \<noteq> [] \<and> x = last pre then r else asc_link B)
        \<and> desc_link C = (if post \<noteq> [] \<and> x = hd post then r else desc_link B))
     \<and> (\<exists>R. bottoms t r = Some R \<and> bi_index R = (\<lambda>_. Fwd 0) \<and> asc_link R = hd0 post \<and> desc_link R = last0 pre
          \<and> hash_link R = GC_top_index s (TL_HASH (bi_key R)) \<and> GC_top_index t = (GC_top_index s)(TL_HASH (bi_key R) := r)
          \<and> (\<forall>x \<in> set pre. bkey s x < bi_key R) \<and> (\<forall>x \<in> set post. bi_key R < bkey s x))
     \<and> GC_all_bottom_indices t = (if pre = [] then r else GC_all_bottom_indices s)
     \<and> GC_all_bottom_indices_end t = (if post = [] then r else GC_all_bottom_indices_end s)
     \<and> GC_all_nils t = GC_all_nils s \<and> next_scratch t = r + 1"

lemma linked_in_keys:
  assumes "linked_in pre r post s t" and "x \<in> insert (GC_all_nils s) (set (pre @ post))"
  shows "bkey t x = bkey s x" "bottoms t x \<noteq> None" "bi_index (the (bottoms t x)) = bi_index (the (bottoms s x))"
    "hash_link (the (bottoms t x)) = hash_link (the (bottoms s x))"
    "asc_link (the (bottoms t x)) = (if pre \<noteq> [] \<and> x = last pre then r else asc_link (the (bottoms s x)))"
    "desc_link (the (bottoms t x)) = (if post \<noteq> [] \<and> x = hd post then r else desc_link (the (bottoms s x)))"
proof -
  obtain B C where "bottoms s x = Some B \<and> bottoms t x = Some C
        \<and> bi_index C = bi_index B \<and> bi_key C = bi_key B \<and> hash_link C = hash_link B
        \<and> asc_link C = (if pre \<noteq> [] \<and> x = last pre then r else asc_link B)
        \<and> desc_link C = (if post \<noteq> [] \<and> x = hd post then r else desc_link B)"
    using assms unfolding linked_in_def by blast
  then show "bkey t x = bkey s x" "bottoms t x \<noteq> None" "bi_index (the (bottoms t x)) = bi_index (the (bottoms s x))"
    "hash_link (the (bottoms t x)) = hash_link (the (bottoms s x))"
    "asc_link (the (bottoms t x)) = (if pre \<noteq> [] \<and> x = last pre then r else asc_link (the (bottoms s x)))"
    "desc_link (the (bottoms t x)) = (if post \<noteq> [] \<and> x = hd post then r else desc_link (the (bottoms s x)))"
    by (simp_all add: bkey_def)
qed

lemma linked_in_ok:
  assumes i: "idx_ok (pre @ post) s" and l: "linked_in pre r post s t" and r: "r = next_scratch s"
  shows "idx_ok (pre @ r # post) t"
proof -
  note k = linked_in_keys [OF l]
  obtain R where R: "bottoms t r = Some R" "bi_index R = (\<lambda>_. Fwd 0)" "asc_link R = hd0 post" "desc_link R = last0 pre"
      "hash_link R = GC_top_index s (TL_HASH (bi_key R))" "GC_top_index t = (GC_top_index s)(TL_HASH (bi_key R) := r)"
      "\<forall>x \<in> set pre. bkey s x < bi_key R" "\<forall>x \<in> set post. bi_key R < bkey s x"
    and t: "GC_all_bottom_indices t = (if pre = [] then r else GC_all_bottom_indices s)"
      "GC_all_bottom_indices_end t = (if post = [] then r else GC_all_bottom_indices_end s)"
      "GC_all_nils t = GC_all_nils s" "next_scratch t = r + 1"
    using l unfolding linked_in_def by blast
  have d: "distinct (pre @ post)" by (rule idx_distinct [OF i])
  have rn: "r \<notin> set (pre @ post)" "r \<noteq> GC_all_nils s" "r \<noteq> 0"
    using idx_okD(6,7,4) [OF i] by (auto simp: r)
  have kr: "bkey t r = bi_key R" by (simp add: bkey_def R(1))
  have "links asc_link s (GC_all_bottom_indices s) (pre @ post) 0" by (rule idx_okD(8) [OF i])
  then obtain m where m: "links asc_link s (GC_all_bottom_indices s) pre m" "links asc_link s m post 0" by (auto simp: links_append)
  have post: "links asc_link t (hd0 post) post 0"
  proof -
    have h: "hd0 post = m" using m(2) by (cases post) (simp_all add: hd0_def)
    show ?thesis unfolding h
    proof (rule links_cong [OF _ m(2)])
      fix x assume x: "x \<in> set post"
      then have "\<not> (pre \<noteq> [] \<and> x = last pre)" using d by (auto dest: last_in_set)
      then show "bottoms t x \<noteq> None \<and> asc_link (the (bottoms t x)) = asc_link (the (bottoms s x))" using k(2,5) [of x] x by auto
    qed
  qed
  have pre: "links asc_link t (if pre = [] then r else GC_all_bottom_indices s) pre r"
  proof (cases pre rule: rev_cases)
    case Nil
    then show ?thesis by simp
  next
    case (snoc ys y)
    have y: "y \<notin> set ys" using d snoc by auto
    obtain C where C: "bottoms t y = Some C" using k(2) [of y] snoc by auto
    have "asc_link C = r" using k(5) [of y] C snoc by simp
    moreover have "bottoms t x \<noteq> None \<and> asc_link (the (bottoms t x)) = asc_link (the (bottoms s x))" if "x \<in> set ys" for x
      using k(2,5) [of x] that y snoc by auto
    ultimately have "links asc_link t (GC_all_bottom_indices s) (ys @ [y]) r"
      using links_bend [OF m(1) [unfolded snoc] y _ C] by blast
    then show ?thesis using snoc by simp
  qed
  have a: "links asc_link t (GC_all_bottom_indices t) (pre @ r # post) 0"
    using pre post R(1,3) t(1) by (auto simp: links_append)
  have "backs s 0 (pre @ post)" by (rule idx_okD(9) [OF i])
  then have b: "backs s 0 pre" "backs s (if pre = [] then 0 else last pre) post" by (simp_all add: backs_append)
  have bpre: "backs t 0 pre"
  proof (rule backs_cong [OF _ b(1)])
    fix x assume x: "x \<in> set pre"
    then have "\<not> (post \<noteq> [] \<and> x = hd post)" using d by (auto dest: hd_in_set)
    then show "bottoms t x \<noteq> None \<and> desc_link (the (bottoms t x)) = desc_link (the (bottoms s x))" using k(2,6) [of x] x by auto
  qed
  have bpost: "backs t r post"
  proof (cases post)
    case Nil
    then show ?thesis by simp
  next
    case (Cons y ys)
    have "backs t y ys"
    proof (rule backs_cong)
      show "backs s y ys" using b(2) Cons by simp
      fix x assume "x \<in> set ys"
      then show "bottoms t x \<noteq> None \<and> desc_link (the (bottoms t x)) = desc_link (the (bottoms s x))"
        using k(2,6) [of x] d Cons by auto
    qed
    moreover obtain C where "bottoms t y = Some C" using k(2) [of y] Cons by auto
    moreover have "desc_link (the (bottoms t y)) = r" using k(6) [of y] Cons by simp
    ultimately show ?thesis using Cons by simp
  qed
  have c: "backs t 0 (pre @ r # post)" using bpre bpost R(1,4) by (simp add: backs_append last0_def)
  have e: "GC_all_bottom_indices_end t = last0 (pre @ r # post)"
    using t(2) idx_okD(10) [OF i] by (simp add: last0_def)
  have so: "sorted_wrt (<) (map (bkey s) (pre @ post))" by (rule idx_okD(11) [OF i])
  have mp: "map (bkey t) (pre @ r # post) = map (bkey s) pre @ bi_key R # map (bkey s) post" using k(1) kr by simp
  have w: "sorted_wrt (<) (map (bkey t) (pre @ r # post))"
    unfolding mp using so R(7,8) by (auto simp: sorted_wrt_append)
  have h: "\<exists>xs. links hash_link t (GC_top_index t i) xs (GC_all_nils t) \<and> distinct xs
      \<and> set xs = {b \<in> set (pre @ r # post). TL_HASH (bkey t b) = i}" if i': "i < TOP_SZ" for i
  proof -
    obtain xs where xs: "links hash_link s (GC_top_index s i) xs (GC_all_nils s)" "distinct xs"
      "set xs = {b \<in> set (pre @ post). TL_HASH (bkey s b) = i}" by (rule idx_chain [OF \<open>idx_ok (pre @ post) s\<close> i'])
    have x: "links hash_link t (GC_top_index s i) xs (GC_all_nils s)"
      by (rule links_cong [OF _ xs(1)]) (use k(2,4) xs(3) in auto)
    have s: "{b \<in> set (pre @ r # post). TL_HASH (bkey t b) = i} = set xs \<union> (if TL_HASH (bi_key R) = i then {r} else {})"
      using xs(3) k(1) kr by auto
    show ?thesis
    proof (cases "TL_HASH (bi_key R) = i")
      case True
      have "links hash_link t r (r # xs) (GC_all_nils s)" using x R(1,5) True by simp
      moreover have "distinct (r # xs)" using xs(2,3) rn(1) by auto
      moreover have "set (r # xs) = {b \<in> set (pre @ r # post). TL_HASH (bkey t b) = i}" unfolding s using True by simp
      ultimately show ?thesis using True R(6) t(3) by (metis fun_upd_same)
    next
      case False
      have u: "GC_top_index t i = GC_top_index s i" using R(6) False by simp
      have v: "set xs = {b \<in> set (pre @ r # post). TL_HASH (bkey t b) = i}" unfolding s using False by simp
      show ?thesis unfolding u t(3) by (rule exI [of _ xs], intro conjI, rule x, rule xs(2), rule v)
    qed
  qed
  have n: "\<exists>A. bottoms t (GC_all_nils t) = Some A \<and> bi_index A = (\<lambda>_. Fwd 0)"
    using k(2,3) [of "GC_all_nils s"] idx_okD(5) [OF i] t(3) by auto
  have o: "\<forall>b \<in> insert (GC_all_nils t) (set (pre @ r # post)). b < next_scratch t"
    using idx_okD(6) [OF i] idx_okD(7) [OF i] t(3,4) r by (auto simp: less_Suc_eq)
  have q: "GC_all_nils t \<noteq> 0" "GC_all_nils t \<notin> set (pre @ r # post)" "0 \<notin> set (pre @ r # post)" "0 < next_scratch t"
    using idx_okD(1-3) [OF i] rn t(3,4) by auto
  show ?thesis unfolding idx_ok_def using q n o a c e w h by blast
qed

lemma hd0_Nil [simp]: "hd0 [] = 0" and last0_Nil [simp]: "last0 [] = 0"
  and hd0_in [simp]: "xs \<noteq> [] \<Longrightarrow> hd0 xs = hd xs" and last0_in [simp]: "xs \<noteq> [] \<Longrightarrow> last0 xs = last xs"
  by (simp_all add: hd0_def last0_def)

lemma get_index_new:
  assumes i: "idx_ok L s" and k: "\<forall>b \<in> set L. bkey s b \<noteq> a div 4194304" and g: "scratch s (next_scratch s) \<noteq> None"
  defines "pre \<equiv> takeWhile (\<lambda>b. bkey s b < a div 4194304) L" and "post \<equiv> dropWhile (\<lambda>b. bkey s b < a div 4194304) L"
  shows "\<exists>t. get_index a s = Some (True, t) \<and> linked_in pre (next_scratch s) post s t \<and> upper t = upper s \<and> bkey t (next_scratch s) = a div 4194304"
proof -
  let ?hi = "a div 4194304" and ?r = "next_scratch s"
  let ?i = "TL_HASH ?hi"
  let ?R = "zero_index\<lparr>hash_link := GC_top_index s ?i, bi_key := ?hi\<rparr>"
  let ?s2 = "s\<lparr>next_scratch := ?r + 1, bottoms := (bottoms s)(?r \<mapsto> ?R), GC_top_index := (GC_top_index s)(?i := ?r)\<rparr>"
  have L: "L = pre @ post" unfolding pre_def post_def by simp
  have rn: "?r \<notin> set L" "?r \<noteq> GC_all_nils s" "?r \<noteq> 0" "0 \<notin> set L"
    using idx_okD(6,7,4,3) [OF i] by auto
  have d: "distinct L" by (rule idx_distinct [OF i])
  obtain xs where xs: "links hash_link s (GC_top_index s ?i) xs (GC_all_nils s)" "set xs = {b \<in> set L. TL_HASH (bkey s b) = ?i}"
    by (rule idx_chain [OF i TL_HASH_less])
  have f: "key_in_chain ?hi (GC_top_index s ?i) s = Some False"
    using key_in_chain_spec [OF xs(1), of ?hi] xs(2) k idx_okD(2) [OF i] by auto
  have same: "bkey ?s2 b = bkey s b" if "b \<in> set L" for b using that rn(1) by (auto simp: bkey_def)
  have tw: "takeWhile (\<lambda>b. bkey ?s2 b < ?hi) L = pre" "dropWhile (\<lambda>b. bkey ?s2 b < ?hi) L = post"
    unfolding pre_def post_def using same by (auto intro: takeWhile_cong dropWhile_cong)
  have "links asc_link ?s2 (GC_all_bottom_indices ?s2) L 0"
    by (rule links_cong [of L _ asc_link s]) (use idx_okD(8) [OF i] idx_okD(12) [OF i] rn(1) in auto)
  from place_of_key_spec [OF this rn(4), of ?hi 0, unfolded tw]
  have pl: "place_of_key ?hi 0 (GC_all_bottom_indices s) ?s2 = Some (last0 pre, hd0 post)"
    by (simp add: last0_def)
  have kp: "\<forall>x \<in> set pre. bkey s x < ?hi" unfolding pre_def by (auto dest: set_takeWhileD)
  have kq: "\<forall>x \<in> set post. ?hi < bkey s x"
  proof (cases post)
    case Nil
    then show ?thesis by simp
  next
    case (Cons y ys)
    then have "\<not> bkey s y < ?hi" unfolding post_def by (metis dropWhile_eq_Cons_conv)
    moreover have "bkey s y \<noteq> ?hi" using k L Cons by simp
    moreover have "\<forall>x \<in> set ys. bkey s y < bkey s x" using idx_okD(11) [OF i] L Cons by (simp add: sorted_wrt_append)
    ultimately show ?thesis using Cons by fastforce
  qed
  have ex: "\<exists>B. bottoms s x = Some B" if "x \<in> insert (GC_all_nils s) (set L)" for x
    using that idx_okD(5,12) [OF i] by auto
  have pn: "pre \<noteq> [] \<Longrightarrow> last pre \<in> set L" "post \<noteq> [] \<Longrightarrow> hd post \<in> set L" "pre \<noteq> [] \<Longrightarrow> post \<noteq> [] \<Longrightarrow> last pre \<noteq> hd post"
    using d unfolding L by (auto dest: last_in_set hd_in_set)
  have ne: "pre \<noteq> [] \<Longrightarrow> last pre \<noteq> 0 \<and> last pre \<noteq> ?r \<and> last pre \<noteq> GC_all_nils s"
    "post \<noteq> [] \<Longrightarrow> hd post \<noteq> 0 \<and> hd post \<noteq> ?r \<and> hd post \<noteq> GC_all_nils s"
    using pn rn idx_okD(2) [OF i] by metis+
  let ?R' = "?R\<lparr>desc_link := last0 pre, asc_link := hd0 post\<rparr>"
  define M where "M = (\<lambda>x. if x = ?r then Some ?R'
     else if pre \<noteq> [] \<and> x = last pre then map_option (\<lambda>B. B\<lparr>asc_link := ?r\<rparr>) (bottoms s x)
     else if post \<noteq> [] \<and> x = hd post then map_option (\<lambda>B. B\<lparr>desc_link := ?r\<rparr>) (bottoms s x) else bottoms s x)"
  let ?t = "s\<lparr>next_scratch := ?r + 1, bottoms := M, GC_top_index := (GC_top_index s)(?i := ?r),
     GC_all_bottom_indices := (if pre = [] then ?r else GC_all_bottom_indices s),
     GC_all_bottom_indices_end := (if post = [] then ?r else GC_all_bottom_indices_end s)\<rparr>"
  have t: "get_index a s = Some (True, ?t)"
  proof -
    obtain J where J: "scratch s ?r = Some J" using g by blast
    obtain P where P: "pre \<noteq> [] \<Longrightarrow> bottoms s (last pre) = Some P" using ex pn(1) by (cases "pre = []") auto
    obtain Q where Q: "post \<noteq> [] \<Longrightarrow> bottoms s (hd post) = Some Q" using ex pn(2) by (cases "post = []") auto
    have "get_index a s = do {
         s3 \<leftarrow> mod_bi ?r (\<lambda>B. B\<lparr>desc_link := last0 pre\<rparr>) ?s2;
         s4 \<leftarrow> (if hd0 post = 0 then Some (s3\<lparr>GC_all_bottom_indices_end := ?r\<rparr>) else mod_bi (hd0 post) (\<lambda>B. B\<lparr>desc_link := ?r\<rparr>) s3);
         s5 \<leftarrow> mod_bi ?r (\<lambda>B. B\<lparr>asc_link := hd0 post\<rparr>) s4;
         s6 \<leftarrow> (if last0 pre = 0 then Some (s5\<lparr>GC_all_bottom_indices := ?r\<rparr>) else mod_bi (last0 pre) (\<lambda>B. B\<lparr>asc_link := ?r\<rparr>) s5);
         Some (True, s6) }"
      using f pl J rn(3) by (simp add: get_index_def scratch_alloc_def Let_def)
    also have "\<dots> = Some (True, ?t)"
      using P Q ne pn(3)
      by (cases "pre = []"; cases "post = []") (auto simp: mod_bi_def M_def fun_eq_iff zero_index_def)
    finally show ?thesis .
  qed
  have l: "linked_in pre ?r post s ?t"
    unfolding linked_in_def
  proof (intro conjI ballI)
    fix x assume x: "x \<in> insert (GC_all_nils s) (set (pre @ post))"
    then obtain B where B: "bottoms s x = Some B" using ex [of x] L by auto
    have "x \<noteq> ?r" using x rn L by auto
    then show "\<exists>B C. bottoms s x = Some B \<and> bottoms ?t x = Some C
        \<and> bi_index C = bi_index B \<and> bi_key C = bi_key B \<and> hash_link C = hash_link B
        \<and> asc_link C = (if pre \<noteq> [] \<and> x = last pre then ?r else asc_link B)
        \<and> desc_link C = (if post \<noteq> [] \<and> x = hd post then ?r else desc_link B)"
      using B pn(3) by (auto simp: M_def)
  next
    show "\<exists>R. bottoms ?t ?r = Some R \<and> bi_index R = (\<lambda>_. Fwd 0) \<and> asc_link R = hd0 post \<and> desc_link R = last0 pre
          \<and> hash_link R = GC_top_index s (TL_HASH (bi_key R)) \<and> GC_top_index ?t = (GC_top_index s)(TL_HASH (bi_key R) := ?r)
          \<and> (\<forall>x \<in> set pre. bkey s x < bi_key R) \<and> (\<forall>x \<in> set post. bi_key R < bkey s x)"
      by (intro exI [of _ ?R']) (use kp kq in \<open>simp add: M_def zero_index_def\<close>)
  qed simp_all
  have "bkey ?t ?r = ?hi" by (simp add: bkey_def M_def)
  then show ?thesis using t l by (auto simp: upper_def)
qed

lemma upperD:
  assumes "upper t = upper s"
  shows "hdrs t = hdrs s" "hdr_free_list t = hdr_free_list s" "scratch t = scratch s" "GC_all_nils t = GC_all_nils s"
  using arg_cong [OF assms, of hdrs] arg_cong [OF assms, of hdr_free_list] arg_cong [OF assms, of scratch]
    arg_cong [OF assms, of GC_all_nils] by (simp_all add: upper_def)

text \<open>The index does not depend on the rest of the state.\<close>

definition same_index :: "gc \<Rightarrow> gc \<Rightarrow> bool" where
  "same_index s t \<longleftrightarrow> bottoms t = bottoms s \<and> GC_all_nils t = GC_all_nils s \<and> GC_top_index t = GC_top_index s
     \<and> GC_all_bottom_indices t = GC_all_bottom_indices s \<and> GC_all_bottom_indices_end t = GC_all_bottom_indices_end s
     \<and> next_scratch s \<le> next_scratch t"

lemma same_index:
  assumes "same_index s t" and "idx_ok L s"
  shows "idx_ok L t" "ent t = ent s" "indexed t = indexed s"
proof -
  have b: "bkey t = bkey s" using assms(1) by (simp add: same_index_def bkey_def fun_eq_iff)
  have l: "links f t p xs q = links f s p xs q" for f p xs q
    by (induction xs arbitrary: p) (use assms(1) in \<open>simp_all add: same_index_def\<close>)
  have d: "backs t q xs = backs s q xs" for q xs
    by (induction xs arbitrary: q) (use assms(1) in \<open>simp_all add: same_index_def\<close>)
  show o: "idx_ok L t" using assms unfolding idx_ok_def b l d same_index_def by fastforce
  have "GET_BI p t = GET_BI p s" for p
    using GET_BI_spec [OF o] GET_BI_spec [OF assms(2)] b assms(1) by (simp add: same_index_def split: option.splits)
  then show "ent t = ent s" "indexed t = indexed s"
    using assms(1) by (auto simp: ent_def HDR_def indexed_def same_index_def fun_eq_iff)
qed

text \<open>A block that gets a bottom index keeps its entry, and so do all others.\<close>

lemma get_index_spec:
  assumes i: "idx_ok L s"
  shows "\<exists>r t L'. get_index a s = Some (r, t) \<and> idx_ok L' t \<and> ent t = ent s \<and> upper t = upper s
    \<and> (\<forall>p. indexed s p \<longrightarrow> indexed t p) \<and> next_scratch s \<le> next_scratch t
    \<and> (r \<longrightarrow> indexed t (a div HBLKSIZE)) \<and> (scratch s (next_scratch s) \<noteq> None \<longrightarrow> r)"
proof -
  let ?hi = "a div 4194304"
  have hi: "a div HBLKSIZE div BOTTOM_SZ = ?hi" by (simp add: div_mult2_eq)
  obtain xs where xs: "links hash_link s (GC_top_index s (TL_HASH ?hi)) xs (GC_all_nils s)"
    "set xs = {b \<in> set L. TL_HASH (bkey s b) = TL_HASH ?hi}" by (rule idx_chain [OF i TL_HASH_less])
  have f: "key_in_chain ?hi (GC_top_index s (TL_HASH ?hi)) s = Some (\<exists>b \<in> set L. bkey s b = ?hi)"
    using key_in_chain_spec [OF xs(1), of ?hi] xs(2) idx_okD(2) [OF i] by auto
  show ?thesis
  proof (cases "\<exists>b \<in> set L. bkey s b = ?hi")
    case True
    then have "get_index a s = Some (True, s)" using f by (simp add: get_index_def)
    moreover have "indexed s (a div HBLKSIZE)" using True indexed_iff [OF i] by (simp only: hi)
    ultimately show ?thesis using i by blast
  next
    case new: False
    show ?thesis
    proof (cases "scratch s (next_scratch s)")
      case None
      let ?t = "s\<lparr>next_scratch := next_scratch s + 1\<rparr>"
      have "get_index a s = Some (False, ?t)" using f new None by (simp add: get_index_def scratch_alloc_def Let_def)
      moreover have "same_index s ?t" by (simp add: same_index_def)
      note same_index [OF this i]
      moreover have "upper ?t = upper s" by (simp add: upper_def)
      ultimately show ?thesis using None by (intro exI [of _ False] exI [of _ ?t] exI [of _ L]) simp
    next
      case (Some J)
      define pre where "pre = takeWhile (\<lambda>b. bkey s b < ?hi) L"
      define post where "post = dropWhile (\<lambda>b. bkey s b < ?hi) L"
      have L: "L = pre @ post" unfolding pre_def post_def by simp
      obtain t where t: "get_index a s = Some (True, t)" "linked_in pre (next_scratch s) post s t" "upper t = upper s"
        "bkey t (next_scratch s) = ?hi"
        using get_index_new [OF i, of a] new Some unfolding pre_def post_def by auto
      let ?L = "pre @ next_scratch s # post"
      have o: "idx_ok ?L t" by (rule linked_in_ok [OF i [unfolded L] t(2) refl])
      have k: "bkey t b = bkey s b" "bi_index (the (bottoms t b)) = bi_index (the (bottoms s b))" if "b \<in> set L" for b
        using linked_in_keys(1,3) [OF t(2), of b] that L by auto
      have R: "bi_index (the (bottoms t (next_scratch s))) = (\<lambda>_. Fwd 0)" using t(2) by (auto simp: linked_in_def)
      have x: "indexed t p" if "indexed s p" for p
        using that k(1) L unfolding indexed_iff [OF o] indexed_iff [OF i] by auto
      have n: "indexed t (a div HBLKSIZE)" unfolding indexed_iff [OF o] hi using t(4) by auto
      have "ent t p = ent s p" for p
      proof (cases "\<exists>b \<in> set L. bkey s b = p div BOTTOM_SZ")
        case True
        then obtain b where b: "b \<in> set L" "bkey s b = p div BOTTOM_SZ" by blast
        then have "b \<in> set ?L" "bkey t b = p div BOTTOM_SZ" using k(1) L by auto
        then show ?thesis using HDR_in [OF i b] HDR_in [OF o] k(2) [OF b(1)] by (simp add: ent_def)
      next
        case none: False
        then have s: "HDR p s = Some (Fwd 0)" using HDR_out [OF i] by blast
        have "HDR p t = Some (Fwd 0)"
        proof (cases "p div BOTTOM_SZ = ?hi")
          case True
          then show ?thesis using HDR_in [OF o, of "next_scratch s" p] t(4) R by simp
        next
          case False
          then have "\<forall>b \<in> set ?L. bkey t b \<noteq> p div BOTTOM_SZ" using none k(1) t(4) L by auto
          then show ?thesis by (rule HDR_out [OF o])
        qed
        then show ?thesis using s by (simp add: ent_def)
      qed
      then have "ent t = ent s" by blast
      moreover have "next_scratch s \<le> next_scratch t" using t(2) by (auto simp: linked_in_def)
      ultimately show ?thesis using t(1,3) o x n by blast
    qed
  qed
qed

section \<open>The headers\<close>

fun hdr_links :: "gc \<Rightarrow> nat \<Rightarrow> nat list \<Rightarrow> bool" where
  "hdr_links s p [] \<longleftrightarrow> p = 0"
| "hdr_links s p (x # xs) \<longleftrightarrow> p = x \<and> x \<noteq> 0 \<and> (\<exists>H. hdrs s x = Some H \<and> hdr_links s (hb_next H) xs)"

lemma hdr_links_cong: "(\<And>x. x \<in> set xs \<Longrightarrow> hdrs t x = hdrs s x) \<Longrightarrow> hdr_links t p xs = hdr_links s p xs"
  by (induction xs arbitrary: p) auto

text \<open>
  \<open>F\<close> is the list of the headers that are not in use. A header is in use by one block at most, and
  never while it is on that list.
\<close>

definition hdr_ok :: "nat list \<Rightarrow> gc \<Rightarrow> bool" where
  "hdr_ok F s \<longleftrightarrow> hdr_links s (hdr_free_list s) F \<and> distinct F \<and> (\<forall>h \<in> set F. h < next_scratch s)
     \<and> (\<forall>p h. ent s p = Hdr h \<longrightarrow> h \<notin> set F \<and> hdrs s h \<noteq> None \<and> h \<noteq> 0 \<and> h < next_scratch s)
     \<and> (\<forall>p q h. ent s p = Hdr h \<longrightarrow> ent s q = Hdr h \<longrightarrow> p = q)"

definition index_inv :: "gc \<Rightarrow> bool" where
  "index_inv s \<longleftrightarrow> (\<exists>L F. idx_ok L s \<and> hdr_ok F s)"

lemma index_invE:
  assumes "index_inv s"
  obtains L F where "idx_ok L s" "hdr_ok F s"
  using assms by (auto simp: index_inv_def)

lemma hdr_okD:
  assumes "hdr_ok F s" and "ent s p = Hdr h"
  shows "h \<notin> set F" "\<exists>H. hdrs s h = Some H" "h \<noteq> 0" "h < next_scratch s" "ent s q = Hdr h \<Longrightarrow> q = p"
  using assms unfolding hdr_ok_def by blast+

lemma index_inv_ent:
  assumes "index_inv s"
  shows "HDR p s = Some (ent s p)" "ent s p \<noteq> Fwd 0 \<Longrightarrow> indexed s p"
    "ent s p = Hdr h \<Longrightarrow> \<exists>H. hdrs s h = Some H" "ent s p = Hdr h \<Longrightarrow> h \<noteq> 0" "ent s p = Hdr h \<Longrightarrow> ent s q = Hdr h \<Longrightarrow> q = p"
proof -
  obtain L F where i: "idx_ok L s" "hdr_ok F s" using assms by (rule index_invE)
  show "HDR p s = Some (ent s p)" by (rule HDR_ent [OF i(1)])
  show "ent s p \<noteq> Fwd 0 \<Longrightarrow> indexed s p" by (rule ent_indexed [OF i(1)])
  show "ent s p = Hdr h \<Longrightarrow> \<exists>H. hdrs s h = Some H" by (rule hdr_okD(2) [OF i(2)])
  show "ent s p = Hdr h \<Longrightarrow> h \<noteq> 0" by (rule hdr_okD(3) [OF i(2)])
  show "ent s p = Hdr h \<Longrightarrow> ent s q = Hdr h \<Longrightarrow> q = p" by (rule hdr_okD(5) [OF i(2)])
qed

text \<open>The part of the state that neither the index nor the headers use.\<close>

definition base :: "gc \<Rightarrow> gc" where
  "base s = upper (s\<lparr>hdrs := Map.empty, hdr_free_list := 0\<rparr>)"

definition never_fails :: "gc \<Rightarrow> bool" where
  "never_fails s \<longleftrightarrow> (\<forall>k. scratch s k \<noteq> None)"

lemma base_upper: "upper t = upper s \<Longrightarrow> base t = base s"
proof -
  assume a: "upper t = upper s"
  have "base x = (upper x)\<lparr>hdrs := Map.empty, hdr_free_list := 0\<rparr>" for x :: gc by (simp add: base_def upper_def)
  then show ?thesis using a by simp
qed

lemma base_scratch: "base t = base s \<Longrightarrow> scratch t = scratch s"
  by (drule arg_cong [where f = scratch]) (simp add: base_def upper_def)

lemma base_never: "base t = base s \<Longrightarrow> never_fails t = never_fails s"
  using base_scratch [of t s] by (simp add: never_fails_def)

lemma hdr_okI:
  assumes "hdr_links s (hdr_free_list s) F" and "distinct F" and "\<forall>h \<in> set F. h < next_scratch s"
    and "\<And>p h. ent s p = Hdr h \<Longrightarrow> h \<notin> set F \<and> hdrs s h \<noteq> None \<and> h \<noteq> 0 \<and> h < next_scratch s"
    and "\<And>p q h. ent s p = Hdr h \<Longrightarrow> ent s q = Hdr h \<Longrightarrow> p = q"
  shows "hdr_ok F s"
  unfolding hdr_ok_def using assms by blast

lemma hdr_ok_frame:
  assumes "hdr_ok F s" and "hdrs t = hdrs s" and "hdr_free_list t = hdr_free_list s" and "next_scratch s \<le> next_scratch t"
    and "\<And>p h. ent t p = Hdr h \<Longrightarrow> ent s p = Hdr h"
  shows "hdr_ok F t"
proof -
  have l: "hdr_links t (hdr_free_list t) F" using assms(1-3) hdr_links_cong [of F t s] by (simp add: hdr_ok_def)
  have a: "h \<notin> set F \<and> hdrs t h \<noteq> None \<and> h \<noteq> 0 \<and> h < next_scratch t" if "ent t p = Hdr h" for p h
    using hdr_okD(1-4) [OF assms(1) assms(5) [OF that]] assms(2,4) by auto
  have b: "p = q" if "ent t p = Hdr h" "ent t q = Hdr h" for p q h
    using hdr_okD(5) [OF assms(1) assms(5) [OF that(1)] assms(5) [OF that(2)]] by simp
  show ?thesis using l a b assms(1,4) unfolding hdr_ok_def by fastforce
qed

lemma alloc_hdr_spec:
  assumes i: "idx_ok L s" "hdr_ok F s"
  shows "\<exists>r t. alloc_hdr s = Some (r, t) \<and> same_index s t \<and> base t = base s
    \<and> (r = 0 \<longrightarrow> hdr_ok F t \<and> hdrs t = hdrs s)
    \<and> (r \<noteq> 0 \<longrightarrow> r < next_scratch t \<and> (\<forall>p. ent s p \<noteq> Hdr r) \<and> (\<exists>F' H. hdr_ok F' t \<and> r \<notin> set F' \<and> hdrs t = (hdrs s)(r \<mapsto> H)))
    \<and> (scratch s (next_scratch s) \<noteq> None \<longrightarrow> r \<noteq> 0)"
proof (cases F)
  case Nil
  then have z: "hdr_free_list s = 0" using i(2) by (simp add: hdr_ok_def)
  let ?n = "next_scratch s"
  let ?s = "s\<lparr>next_scratch := Suc ?n\<rparr>"
  have si: "same_index s ?s" by (simp add: same_index_def)
  have f: "hdr_ok F ?s" by (rule hdr_ok_frame [OF i(2)]) (simp_all add: same_index(2) [OF si i(1)])
  show ?thesis
  proof (cases "scratch s ?n")
    case None
    then have "alloc_hdr s = Some (0, ?s)" using z by (simp add: alloc_hdr_def scratch_alloc_def)
    then show ?thesis using si f None by (auto simp: base_def upper_def)
  next
    case (Some J)
    let ?t = "s\<lparr>next_scratch := Suc ?n, hdrs := (hdrs s)(?n \<mapsto> J)\<rparr>"
    have n: "?n \<noteq> 0" using idx_okD(4) [OF i(1)] by simp
    have a: "alloc_hdr s = Some (?n, ?t)" using z Some n by (simp add: alloc_hdr_def scratch_alloc_def)
    have st: "same_index s ?t" by (simp add: same_index_def)
    have e: "ent ?t = ent s" by (rule same_index(2) [OF st i(1)])
    have u: "ent s p \<noteq> Hdr ?n" for p using hdr_okD(4) [OF i(2), of p ?n] by auto
    have "hdr_ok [] ?t" unfolding hdr_ok_def e using hdr_okD [OF i(2)] z u by (force intro: less_SucI)
    then show ?thesis using a st u n by (intro exI [of _ ?n] exI [of _ ?t]) (auto simp: base_def upper_def)
  qed
next
  case (Cons x F')
  then obtain H where H: "hdr_free_list s = x" "x \<noteq> 0" "hdrs s x = Some H" "hdr_links s (hb_next H) F'"
    using i(2) by (auto simp: hdr_ok_def)
  let ?t = "s\<lparr>hdr_free_list := hb_next H\<rparr>"
  have a: "alloc_hdr s = Some (x, ?t)" using H by (simp add: alloc_hdr_def)
  have st: "same_index s ?t" by (simp add: same_index_def)
  have e: "ent ?t = ent s" by (rule same_index(2) [OF st i(1)])
  have u: "ent s p \<noteq> Hdr x" for p using hdr_okD(1) [OF i(2), of p x] Cons by auto
  have l: "hdr_links ?t (hb_next H) F'" using H(4) hdr_links_cong [of F' ?t s] by simp
  have "hdr_ok F' ?t"
    using i(2) Cons l unfolding hdr_ok_def e by auto
  moreover have "x \<notin> set F'" "x < next_scratch s" using i(2) Cons by (auto simp: hdr_ok_def)
  moreover have "hdrs ?t = (hdrs s)(x \<mapsto> H)" using H(3) by auto
  ultimately show ?thesis using a st u H(2) by (intro exI [of _ x] exI [of _ ?t]) (auto simp: base_def upper_def)
qed

text \<open>What the operations on the index keep, besides the entries and the headers.\<close>

definition index_step :: "gc \<Rightarrow> gc \<Rightarrow> bool" where
  "index_step s t \<longleftrightarrow> index_inv t \<and> base t = base s \<and> (\<forall>p. indexed s p \<longrightarrow> indexed t p)"

lemma index_stepD:
  assumes "index_step s t"
  shows "index_inv t" "base t = base s" "indexed s p \<Longrightarrow> indexed t p" "never_fails t = never_fails s"
  using assms base_never [of t s] by (simp_all add: index_step_def)

lemma index_step_trans [trans]: "index_step s t \<Longrightarrow> index_step t u \<Longrightarrow> index_step s u"
  by (simp add: index_step_def)

lemma index_step_refl: "index_inv s \<Longrightarrow> index_step s s"
  by (simp add: index_step_def)

lemma get_index_step:
  assumes "index_inv s"
  shows "\<exists>r t. get_index a s = Some (r, t) \<and> index_step s t \<and> ent t = ent s \<and> hdrs t = hdrs s
    \<and> (r \<longrightarrow> indexed t (a div HBLKSIZE)) \<and> (never_fails s \<longrightarrow> r)"
proof -
  obtain L F where i: "idx_ok L s" "hdr_ok F s" using assms by (rule index_invE)
  obtain r t L' where t: "get_index a s = Some (r, t)" "idx_ok L' t" "ent t = ent s" "upper t = upper s"
    "\<forall>p. indexed s p \<longrightarrow> indexed t p" "next_scratch s \<le> next_scratch t" "r \<longrightarrow> indexed t (a div HBLKSIZE)"
    "scratch s (next_scratch s) \<noteq> None \<longrightarrow> r" using get_index_spec [OF i(1)] by blast
  have "hdr_ok F t" by (rule hdr_ok_frame [OF i(2)]) (use t upperD [OF t(4)] in auto)
  then have "index_inv t" using t(2) by (auto simp: index_inv_def)
  then have "index_step s t" using base_upper [OF t(4)] t(5) by (simp add: index_step_def)
  moreover have "never_fails s \<longrightarrow> r" using t(8) by (simp add: never_fails_def)
  ultimately show ?thesis using t(1,3,7) upperD(1) [OF t(4)] by blast
qed

lemma SET_HDR_step:
  assumes "index_inv s" and "indexed s p" and "\<And>h. e \<noteq> Hdr h"
  shows "\<exists>t. SET_HDR p e s = Some t \<and> index_step s t \<and> ent t = (ent s)(p := e) \<and> hdrs t = hdrs s"
proof -
  obtain L F where i: "idx_ok L s" "hdr_ok F s" using assms(1) by (rule index_invE)
  obtain t where t: "SET_HDR p e s = Some t" "idx_ok L t" "ent t = (ent s)(p := e)" "indexed t = indexed s"
    "upper t = upper s" "next_scratch t = next_scratch s" using SET_HDR_spec [OF i(1) assms(2)] by blast
  have "hdr_ok F t"
    by (rule hdr_ok_frame [OF i(2)]) (use t upperD [OF t(5)] assms(3) in \<open>auto split: if_splits\<close>)
  then have "index_step s t" using base_upper [OF t(5)] t(2,4) by (auto simp: index_step_def index_inv_def)
  then show ?thesis using t(1,3) upperD(1) [OF t(5)] by blast
qed

text \<open>For a block without an index the entry 0 is written into the shared index of zeros, which it leaves as it is.\<close>

lemma SET_HDR_zero:
  assumes "index_inv s"
  shows "\<exists>t. SET_HDR p (Fwd 0) s = Some t \<and> index_step s t \<and> ent t = (ent s)(p := Fwd 0) \<and> hdrs t = hdrs s"
proof (cases "indexed s p")
  case True
  then show ?thesis using SET_HDR_step [OF assms, of p "Fwd 0"] by simp
next
  case False
  obtain L F where i: "idx_ok L s" "hdr_ok F s" using assms by (rule index_invE)
  have g: "GET_BI p s = Some (GC_all_nils s)" using GET_BI_out [OF i(1)] False indexed_iff [OF i(1)] by blast
  obtain A where A: "bottoms s (GC_all_nils s) = Some A" "bi_index A = (\<lambda>_. Fwd 0)" using idx_okD(5) [OF i(1)] by blast
  have "A\<lparr>bi_index := (bi_index A)(p mod BOTTOM_SZ := Fwd 0)\<rparr> = A" using A(2) by (cases A) (simp add: fun_eq_iff)
  moreover have "(bottoms s)(GC_all_nils s \<mapsto> A) = bottoms s" using A(1) by (simp add: fun_eq_iff)
  ultimately have "SET_HDR p (Fwd 0) s = Some s" using g A(1) by (simp add: SET_HDR_def)
  moreover have "ent s p = Fwd 0" using ent_indexed [OF i(1), of p] False by blast
  then have "ent s = (ent s)(p := Fwd 0)" by (simp add: fun_eq_iff)
  ultimately show ?thesis using index_step_refl [OF assms] by (intro exI [of _ s] conjI) (simp_all (no_asm_simp))
qed

lemma install_header_spec:
  assumes "index_inv s"
  shows "\<exists>r t. GC_install_header h s = Some (r, t) \<and> index_step s t \<and> (never_fails s \<longrightarrow> r \<noteq> 0)
    \<and> (r = 0 \<longrightarrow> ent t = ent s \<and> hdrs t = hdrs s)
    \<and> (r \<noteq> 0 \<longrightarrow> ent t = (ent s)(h := Hdr r) \<and> (\<forall>p. ent s p \<noteq> Hdr r) \<and> (\<exists>H. hdrs t = (hdrs s)(r \<mapsto> H)))"
proof -
  obtain r1 t1 where t1: "get_index (h * HBLKSIZE) s = Some (r1, t1)" "index_step s t1" "ent t1 = ent s" "hdrs t1 = hdrs s"
    "r1 \<longrightarrow> indexed t1 h" "never_fails s \<longrightarrow> r1" using get_index_step [OF assms, of "h * HBLKSIZE"] by auto
  show ?thesis
  proof (cases r1)
    case False
    then show ?thesis using t1 by (simp add: GC_install_header_def)
  next
    case True
    obtain L F where i: "idx_ok L t1" "hdr_ok F t1" using index_stepD(1) [OF t1(2)] by (rule index_invE)
    obtain r t2 where a: "alloc_hdr t1 = Some (r, t2)" "same_index t1 t2" "base t2 = base t1"
      "r = 0 \<longrightarrow> hdr_ok F t2 \<and> hdrs t2 = hdrs t1"
      "r \<noteq> 0 \<longrightarrow> r < next_scratch t2 \<and> (\<forall>p. ent t1 p \<noteq> Hdr r) \<and> (\<exists>F' H. hdr_ok F' t2 \<and> r \<notin> set F' \<and> hdrs t2 = (hdrs t1)(r \<mapsto> H))"
      "scratch t1 (next_scratch t1) \<noteq> None \<longrightarrow> r \<noteq> 0" using alloc_hdr_spec [OF i] by blast
    note si = same_index [OF a(2) i(1)]
    have nf: "never_fails s \<longrightarrow> r \<noteq> 0" using a(6) index_stepD(4) [OF t1(2)] by (auto simp: never_fails_def)
    show ?thesis
    proof (cases "r = 0")
      case True
      have "index_inv t2" using a(4) True si(1) by (auto simp: index_inv_def)
      then have "index_step s t2" using t1(2) si(3) a(3) by (simp add: index_step_def)
      then show ?thesis using t1 a(1,4) True \<open>r1\<close> si(2) nf by (simp add: GC_install_header_def)
    next
      case False
      then obtain F' H where F: "hdr_ok F' t2" "r \<notin> set F'" "hdrs t2 = (hdrs t1)(r \<mapsto> H)" "r < next_scratch t2" "\<forall>p. ent t1 p \<noteq> Hdr r"
        using a(5) by blast
      have "indexed t2 h" using t1(5) \<open>r1\<close> si(3) by simp
      then obtain t where t: "SET_HDR h (Hdr r) t2 = Some t" "idx_ok L t" "ent t = (ent t2)(h := Hdr r)" "indexed t = indexed t2"
        "upper t = upper t2" "next_scratch t = next_scratch t2" using SET_HDR_spec [OF si(1)] by blast
      have e: "ent t2 = ent t1" by (rule si(2))
      note u = upperD [OF t(5)]
      have l: "hdr_links t (hdr_free_list t) F'" using F(1) hdr_links_cong [of F' t t2] u by (simp add: hdr_ok_def)
      have "k \<notin> set F' \<and> hdrs t k \<noteq> None \<and> k \<noteq> 0 \<and> k < next_scratch t" if "ent t p = Hdr k" for p k
        using that hdr_okD(1-4) [OF F(1), of p k] F(2-4) t(3,6) u(1) False by (auto split: if_splits)
      moreover have "p = q" if "ent t p = Hdr k" "ent t q = Hdr k" for p q k
        using that hdr_okD(5) [OF F(1), of p k q] F(5) t(3) e by (auto split: if_splits)
      moreover have "distinct F'" "\<forall>h \<in> set F'. h < next_scratch t" using F(1) t(6) by (simp_all add: hdr_ok_def)
      ultimately have "hdr_ok F' t" using l by (intro hdr_okI) blast+
      then have "index_inv t" using t(2) by (auto simp: index_inv_def)
      moreover have "base t = base s" using base_upper [OF t(5)] a(3) index_stepD(2) [OF t1(2)] by simp
      ultimately have "index_step s t" using t1(2) si(3) t(4) by (simp add: index_step_def)
      moreover have "GC_install_header h s = Some (r, t)" using t1(1) \<open>r1\<close> a(1) False t(1) by (simp add: GC_install_header_def)
      moreover have "ent t = (ent s)(h := Hdr r)" using t(3) e t1(3) by simp
      moreover have "hdrs t = (hdrs s)(r \<mapsto> H)" using u(1) F(3) t1(4) by simp
      ultimately show ?thesis using False F(5) t1(3) by metis
    qed
  qed
qed

lemma remove_header_spec:
  assumes "index_inv s" and "ent s h = Hdr k"
  shows "\<exists>t H. GC_remove_header h s = Some t \<and> index_step s t \<and> ent t = (ent s)(h := Fwd 0) \<and> hdrs t = (hdrs s)(k \<mapsto> H)"
proof -
  obtain L F where i: "idx_ok L s" "hdr_ok F s" using assms(1) by (rule index_invE)
  note d = hdr_okD [OF i(2) assms(2)]
  obtain H where H: "hdrs s k = Some H" using d(2) by blast
  let ?s = "s\<lparr>hdrs := (hdrs s)(k \<mapsto> H\<lparr>hb_next := hdr_free_list s\<rparr>), hdr_free_list := k\<rparr>"
  have si: "same_index s ?s" by (simp add: same_index_def)
  note o = same_index [OF si i(1)]
  have "indexed ?s h" using ent_indexed [OF i(1), of h] assms(2) o(3) by simp
  then obtain t where t: "SET_HDR h (Fwd 0) ?s = Some t" "idx_ok L t" "ent t = (ent ?s)(h := Fwd 0)" "indexed t = indexed ?s"
    "upper t = upper ?s" "next_scratch t = next_scratch ?s" using SET_HDR_spec [OF o(1)] by blast
  note u = upperD [OF t(5)]
  have "hdr_links t (hdr_free_list s) F"
    using i(2) d(1) hdr_links_cong [of F t s] u(1) by (fastforce simp: hdr_ok_def)
  then have l: "hdr_links t (hdr_free_list t) (k # F)" using u(1,2) d(3) by simp
  have e: "ent s p = Hdr j \<and> j \<noteq> k" if "ent t p = Hdr j" for p j
    using that t(3) o(2) d(5) by (auto split: if_splits)
  have "j \<notin> set (k # F) \<and> hdrs t j \<noteq> None \<and> j \<noteq> 0 \<and> j < next_scratch t" if "ent t p = Hdr j" for p j
    using hdr_okD(1-4) [OF i(2), of p j] e [OF that] t(6) u(1) by auto
  moreover have "p = q" if "ent t p = Hdr j" "ent t q = Hdr j" for p q j
    using hdr_okD(5) [OF i(2), of p j q] e that by blast
  moreover have "distinct (k # F)" "\<forall>h \<in> set (k # F). h < next_scratch t" using i(2) d(1,4) t(6) by (simp_all add: hdr_ok_def)
  ultimately have "hdr_ok (k # F) t" using l by (intro hdr_okI) blast+
  then have "index_inv t" using t(2) by (auto simp: index_inv_def)
  moreover have "base ?s = base s" by (simp add: base_def upper_def)
  then have "base t = base s" using base_upper [OF t(5)] by simp
  moreover have "indexed t = indexed s" using t(4) o(3) by simp
  ultimately have "index_step s t" by (simp add: index_step_def)
  moreover have "GC_remove_header h s = Some t"
    using HDR_ent [OF i(1), of h] assms(2) H t(1) by (simp add: GC_remove_header_def free_hdr_def)
  ultimately show ?thesis using t(3) o(2) u(1) by auto
qed

section \<open>Forwarding counts\<close>

text \<open>The blocks after the first of an object of \<open>sz\<close> bytes at \<open>h\<close>.\<close>

definition behind :: "nat \<Rightarrow> nat \<Rightarrow> nat \<Rightarrow> bool" where
  "behind h sz p \<longleftrightarrow> h < p \<and> p * HBLKSIZE < h * HBLKSIZE + sz"

lemma indices_for_step:
  assumes "index_inv s"
  shows "\<exists>r t. indices_for h sz hbp s = Some (r, t) \<and> index_step s t \<and> ent t = ent s \<and> hdrs t = hdrs s
    \<and> (r \<longrightarrow> (\<forall>k. (hbp + BOTTOM_SZ * k) * HBLKSIZE < h * HBLKSIZE + sz \<longrightarrow> indexed t (hbp + BOTTOM_SZ * k))) \<and> (never_fails s \<longrightarrow> r)"
  using assms
proof (induction h sz hbp s rule: indices_for.induct)
  case (1 h sz hbp s)
  show ?case
  proof (cases "hbp * HBLKSIZE < h * HBLKSIZE + sz")
    case False
    then have "\<not> (hbp + BOTTOM_SZ * k) * HBLKSIZE < h * HBLKSIZE + sz" for k by simp
    then show ?thesis using False index_step_refl [OF "1.prems"] by (intro exI [of _ True] exI [of _ s]) (simp add: indices_for.simps)
  next
    case True
    obtain r1 t1 where t1: "get_index (hbp * HBLKSIZE) s = Some (r1, t1)" "index_step s t1" "ent t1 = ent s" "hdrs t1 = hdrs s"
      "r1 \<longrightarrow> indexed t1 hbp" "never_fails s \<longrightarrow> r1" using get_index_step [OF "1.prems", of "hbp * HBLKSIZE"] by auto
    show ?thesis
    proof (cases r1)
      case False
      then show ?thesis using True t1 by (subst indices_for.simps) auto
    next
      case r: True
      obtain r2 t2 where t2: "indices_for h sz (hbp + BOTTOM_SZ) t1 = Some (r2, t2)" "index_step t1 t2" "ent t2 = ent t1" "hdrs t2 = hdrs t1"
        "r2 \<longrightarrow> (\<forall>k. (hbp + BOTTOM_SZ + BOTTOM_SZ * k) * HBLKSIZE < h * HBLKSIZE + sz \<longrightarrow> indexed t2 (hbp + BOTTOM_SZ + BOTTOM_SZ * k))"
        "never_fails t1 \<longrightarrow> r2"
        using "1.IH" [OF True t1(1) refl _ index_stepD(1) [OF t1(2)]] r by blast
      have e: "indices_for h sz hbp s = Some (r2, t2)" using True t1(1) r t2(1) by (subst indices_for.simps) simp
      have "indexed t2 (hbp + BOTTOM_SZ * k)" if "r2" "(hbp + BOTTOM_SZ * k) * HBLKSIZE < h * HBLKSIZE + sz" for k
      proof (cases k)
        case 0
        then show ?thesis using t1(5) r index_stepD(3) [OF t2(2)] by simp
      next
        case (Suc j)
        then show ?thesis using t2(5) that by (simp add: algebra_simps)
      qed
      moreover have "never_fails s \<longrightarrow> r2" using t2(6) index_stepD(4) [OF t1(2)] by simp
      ultimately show ?thesis using e index_step_trans [OF t1(2) t2(2)] t1(3,4) t2(3,4) by auto
    qed
  qed
qed

lemma counts_from_step:
  assumes "index_inv s" and "h < hbp" and "\<And>p. hbp \<le> p \<Longrightarrow> p * HBLKSIZE < h * HBLKSIZE + sz \<Longrightarrow> indexed s p"
  shows "\<exists>t. counts_from h sz hbp s = Some t \<and> index_step s t \<and> hdrs t = hdrs s
    \<and> ent t = (\<lambda>p. if hbp \<le> p \<and> p * HBLKSIZE < h * HBLKSIZE + sz then Fwd (min MAX_JUMP (p - h)) else ent s p)"
  using assms
proof (induction h sz hbp s rule: counts_from.induct)
  case (1 h sz hbp s)
  show ?case
  proof (cases "hbp * HBLKSIZE < h * HBLKSIZE + sz")
    case False
    have "\<not> (hbp \<le> p \<and> p * HBLKSIZE < h * HBLKSIZE + sz)" for p
      using False mult_le_mono1 [of hbp p HBLKSIZE] by linarith
    then show ?thesis using False index_step_refl [OF "1.prems"(1)]
      by (intro exI [of _ s] conjI) (simp add: counts_from.simps, auto simp: fun_eq_iff)
  next
    case True
    let ?e = "Fwd (if hbp - h > MAX_JUMP then MAX_JUMP else hbp - h)"
    obtain t1 where t1: "SET_HDR hbp ?e s = Some t1" "index_step s t1" "ent t1 = (ent s)(hbp := ?e)" "hdrs t1 = hdrs s"
      using SET_HDR_step [OF "1.prems"(1) "1.prems"(3) [OF order_refl True], of ?e] by blast
    have "\<And>p. hbp + 1 \<le> p \<Longrightarrow> p * HBLKSIZE < h * HBLKSIZE + sz \<Longrightarrow> indexed t1 p"
      using "1.prems"(3) index_stepD(3) [OF t1(2)] by simp
    then obtain t where t: "counts_from h sz (hbp + 1) t1 = Some t" "index_step t1 t" "hdrs t = hdrs t1"
      "ent t = (\<lambda>p. if hbp + 1 \<le> p \<and> p * HBLKSIZE < h * HBLKSIZE + sz then Fwd (min MAX_JUMP (p - h)) else ent t1 p)"
      using "1.IH" [OF True refl t1(1) index_stepD(1) [OF t1(2)]] "1.prems"(2) by auto
    have e: "counts_from h sz hbp s = Some t" using True t1(1) t(1) by (subst counts_from.simps) (simp add: Let_def)
    have "ent t p = (if hbp \<le> p \<and> p * HBLKSIZE < h * HBLKSIZE + sz then Fwd (min MAX_JUMP (p - h)) else ent s p)" for p
    proof (cases "p = hbp")
      case True
      then show ?thesis using \<open>hbp * HBLKSIZE < h * HBLKSIZE + sz\<close> t(4) t1(3) by simp
    next
      case False
      then have "hbp + 1 \<le> p \<longleftrightarrow> hbp \<le> p" by linarith
      then show ?thesis using t(4) t1(3) False by simp
    qed
    then show ?thesis using e index_step_trans [OF t1(2) t(2)] t(3) t1(4) by auto
  qed
qed

lemma install_counts_spec:
  assumes i: "index_inv s" and sz: "0 < sz"
  shows "\<exists>r t. GC_install_counts h sz s = Some (r, t) \<and> index_step s t \<and> hdrs t = hdrs s \<and> (never_fails s \<longrightarrow> r)
    \<and> (if r then ent t = (\<lambda>p. if behind h sz p then Fwd (min MAX_JUMP (p - h)) else ent s p) else ent t = ent s)"
proof -
  obtain r1 t1 where t1: "indices_for h sz h s = Some (r1, t1)" "index_step s t1" "ent t1 = ent s" "hdrs t1 = hdrs s"
    "r1 \<longrightarrow> (\<forall>k. (h + BOTTOM_SZ * k) * HBLKSIZE < h * HBLKSIZE + sz \<longrightarrow> indexed t1 (h + BOTTOM_SZ * k))" "never_fails s \<longrightarrow> r1"
    using indices_for_step [OF i] by blast
  show ?thesis
  proof (cases r1)
    case False
    then show ?thesis using t1 by (intro exI [of _ False] exI [of _ t1]) (simp add: GC_install_counts_def)
  next
    case True
    let ?l = "(h * HBLKSIZE + sz - 1) div HBLKSIZE"
    obtain r2 t2 where t2: "get_index (h * HBLKSIZE + sz - 1) t1 = Some (r2, t2)" "index_step t1 t2" "ent t2 = ent t1" "hdrs t2 = hdrs t1"
      "r2 \<longrightarrow> indexed t2 ?l" "never_fails t1 \<longrightarrow> r2" using get_index_step [OF index_stepD(1) [OF t1(2)], of "h * HBLKSIZE + sz - 1"] by auto
    have s2: "index_step s t2" by (rule index_step_trans [OF t1(2) t2(2)])
    show ?thesis
    proof (cases r2)
      case False
      then show ?thesis using t1 t2 True s2 index_stepD(4) [OF t1(2)] by (auto simp: GC_install_counts_def)
    next
      case r: True
      have same: "indexed t2 p" if "indexed t2 q" "q div BOTTOM_SZ = p div BOTTOM_SZ" for p q
        using that index_stepD(1) [OF t2(2)] indexed_iff by (metis index_invE)
      have "indexed t2 p" if p: "h + 1 \<le> p" "p * HBLKSIZE < h * HBLKSIZE + sz" for p
      proof -
        let ?k = "p div BOTTOM_SZ - h div BOTTOM_SZ"
        let ?q = "h + BOTTOM_SZ * ?k"
        have hp: "h div BOTTOM_SZ \<le> p div BOTTOM_SZ" using p(1) by (intro div_le_mono) simp
        then have q: "?q div BOTTOM_SZ = p div BOTTOM_SZ" by simp
        show ?thesis
        proof (cases "?q * HBLKSIZE < h * HBLKSIZE + sz")
          case True
          then have "indexed t2 ?q" using t1(5) \<open>r1\<close> index_stepD(3) [OF t2(2)] by blast
          then show ?thesis by (rule same) (rule q)
        next
          case False
          have "p \<le> ?l" using p(2) by (simp add: less_eq_div_iff_mult_less_eq)
          moreover have "?l < ?q" using False sz by (simp add: div_less_iff_less_mult)
          ultimately have "p div BOTTOM_SZ \<le> ?l div BOTTOM_SZ" "?l div BOTTOM_SZ \<le> ?q div BOTTOM_SZ"
            by (intro div_le_mono, simp)+
          then have "?l div BOTTOM_SZ = p div BOTTOM_SZ" using q by simp
          then show ?thesis using same t2(5) r by blast
        qed
      qed
      then obtain t where t: "counts_from h sz (h + 1) t2 = Some t" "index_step t2 t" "hdrs t = hdrs t2"
        "ent t = (\<lambda>p. if h + 1 \<le> p \<and> p * HBLKSIZE < h * HBLKSIZE + sz then Fwd (min MAX_JUMP (p - h)) else ent t2 p)"
        using counts_from_step [OF index_stepD(1) [OF t2(2)], of h "h + 1" sz] by auto
      have "GC_install_counts h sz s = Some (True, t)" using t1(1) True t2(1) r t(1) by (simp add: GC_install_counts_def)
      moreover have "ent t = (\<lambda>p. if behind h sz p then Fwd (min MAX_JUMP (p - h)) else ent s p)"
        using t(4) t2(3) t1(3) by (simp add: behind_def Suc_le_eq cong: if_cong)
      ultimately show ?thesis using index_step_trans [OF s2 t(2)] t(3) t2(4) t1(4) by auto
    qed
  qed
qed

lemma no_counts_from_step:
  assumes "index_inv s"
  shows "\<exists>t. no_counts_from h sz hbp s = Some t \<and> index_step s t \<and> hdrs t = hdrs s
    \<and> ent t = (\<lambda>p. if hbp \<le> p \<and> p * HBLKSIZE < h * HBLKSIZE + sz then Fwd 0 else ent s p)"
  using assms
proof (induction h sz hbp s rule: no_counts_from.induct)
  case (1 h sz hbp s)
  show ?case
  proof (cases "hbp * HBLKSIZE < h * HBLKSIZE + sz")
    case False
    have "\<not> (hbp \<le> p \<and> p * HBLKSIZE < h * HBLKSIZE + sz)" for p
      using False mult_le_mono1 [of hbp p HBLKSIZE] by linarith
    then show ?thesis using False index_step_refl [OF "1.prems"]
      by (intro exI [of _ s] conjI) (simp add: no_counts_from.simps, auto simp: fun_eq_iff)
  next
    case True
    obtain t1 where t1: "SET_HDR hbp (Fwd 0) s = Some t1" "index_step s t1" "ent t1 = (ent s)(hbp := Fwd 0)" "hdrs t1 = hdrs s"
      using SET_HDR_zero [OF "1.prems", of hbp] by blast
    then obtain t where t: "no_counts_from h sz (hbp + 1) t1 = Some t" "index_step t1 t" "hdrs t = hdrs t1"
      "ent t = (\<lambda>p. if hbp + 1 \<le> p \<and> p * HBLKSIZE < h * HBLKSIZE + sz then Fwd 0 else ent t1 p)"
      using "1.IH" [OF True t1(1) index_stepD(1) [OF t1(2)]] by auto
    have e: "no_counts_from h sz hbp s = Some t" using True t1(1) t(1) by (subst no_counts_from.simps) simp
    have "ent t p = (if hbp \<le> p \<and> p * HBLKSIZE < h * HBLKSIZE + sz then Fwd 0 else ent s p)" for p
    proof (cases "p = hbp")
      case True
      then show ?thesis using \<open>hbp * HBLKSIZE < h * HBLKSIZE + sz\<close> t(4) t1(3) by simp
    next
      case False
      then have "hbp + 1 \<le> p \<longleftrightarrow> hbp \<le> p" by linarith
      then show ?thesis using t(4) t1(3) False by simp
    qed
    then show ?thesis using e index_step_trans [OF t1(2) t(2)] t(3) t1(4) by auto
  qed
qed

lemma remove_counts_spec:
  assumes "index_inv s"
  shows "\<exists>t. GC_remove_counts h sz s = Some t \<and> index_step s t \<and> hdrs t = hdrs s
    \<and> ent t = (\<lambda>p. if behind h sz p then Fwd 0 else ent s p)"
  using no_counts_from_step [of s h sz "h + 1"] assms by (auto simp: GC_remove_counts_def behind_def Suc_le_eq)

end
