(* ===== verification/GcBlack.thy ===== *)
theory GcBlack
  imports GcIndex
begin

text \<open>
  The black lists of the collector (\<open>gc-7.6.4/blacklst.c\<close>, the page hash tables of
  \<open>include/private/gc_priv.h\<close>) and the slow path of the header cache (\<open>headers.c\<close>), which adds to
  them: a number that looks like a pointer to a block without objects is remembered, so that no
  object that could be mistaken as referenced is put there.
\<close>

section \<open>Page hash tables\<close>

definition PHT_HASH :: "nat \<Rightarrow> nat" where
  "PHT_HASH p = p mod 2 ^ 18"

definition get_pht_entry_from_index :: "(nat \<Rightarrow> 64 word) \<Rightarrow> nat \<Rightarrow> bool" where
  "get_pht_entry_from_index bl i = (drop_bit (i mod 64) (bl (i div 64)) AND 1 \<noteq> 0)"

definition set_pht_entry_from_index :: "(nat \<Rightarrow> 64 word) \<Rightarrow> nat \<Rightarrow> (nat \<Rightarrow> 64 word)" where
  "set_pht_entry_from_index bl i = bl(i div 64 := bl (i div 64) OR push_bit (i mod 64) 1)"

lemma get_pht_bit: "get_pht_entry_from_index bl i = bit (bl (i div 64)) (i mod 64)"
  by (simp add: get_pht_entry_from_index_def and_one_eq bit_iff_odd_drop_bit odd_iff_mod_2_eq_one)

lemma get_set_pht: "get_pht_entry_from_index (set_pht_entry_from_index bl i) j \<longleftrightarrow> j = i \<or> get_pht_entry_from_index bl j"
proof (cases "j div 64 = i div 64")
  case True
  then have "j = i \<longleftrightarrow> j mod 64 = i mod 64" by (metis div_mult_mod_eq)
  moreover have "j mod 64 < 64" by simp
  ultimately show ?thesis using True
    by (auto simp: get_pht_bit set_pht_entry_from_index_def bit_or_iff bit_exp_iff)
next
  case False
  then show ?thesis by (auto simp: get_pht_bit set_pht_entry_from_index_def)
qed

section \<open>The code\<close>

function bl_loop :: "nat \<Rightarrow> nat \<Rightarrow> nat \<Rightarrow> nat \<Rightarrow> gc \<Rightarrow> nat" where
  "bl_loop h nblocks i index s =
     (if GC_old_stack_bl s (index div 64) = 0 \<and> GC_incomplete_stack_bl s (index div 64) = 0 then
        (let j = i + (64 - index mod 64) in if j \<ge> nblocks then 0 else bl_loop h nblocks j (PHT_HASH (h + j)) s)
      else if get_pht_entry_from_index (GC_old_stack_bl s) index \<or> get_pht_entry_from_index (GC_incomplete_stack_bl s) index
      then h + i + 1
      else (let j = i + 1 in if j \<ge> nblocks then 0 else bl_loop h nblocks j (PHT_HASH (h + j)) s))"
  by pat_completeness auto

termination
proof (relation "measure (\<lambda>(h, n, i, x, s). n - i)", goal_cases)
  case 1
  then show ?case by simp
next
  case (2 h n i x s j)
  have "x mod 64 < 64" by simp
  then show ?case using 2 by simp
next
  case (3 h n i x s j)
  then show ?case by simp
qed

declare bl_loop.simps [simp del]

definition GC_is_black_listed :: "nat \<Rightarrow> nat \<Rightarrow> gc \<Rightarrow> nat" where
  "GC_is_black_listed h len s =
     (let index = PHT_HASH h in
      if \<not> GC_all_interior_pointers s
         \<and> (get_pht_entry_from_index (GC_old_normal_bl s) index \<or> get_pht_entry_from_index (GC_incomplete_normal_bl s) index)
      then h + 1
      else bl_loop h (divHBLKSZ len) 0 index s)"

definition GC_add_to_black_list_normal :: "nat \<Rightarrow> gc \<Rightarrow> gc option" where
  "GC_add_to_black_list_normal p s =
     (if GC_modws_valid_offsets s (p mod 8) then do {
        let index = PHT_HASH (p div HBLKSIZE);
        e \<leftarrow> HDR (p div HBLKSIZE) s;
        Some (if e = Fwd 0 \<or> get_pht_entry_from_index (GC_old_normal_bl s) index
          then s\<lparr>GC_incomplete_normal_bl := set_pht_entry_from_index (GC_incomplete_normal_bl s) index\<rparr> else s) }
      else Some s)"

definition GC_add_to_black_list_stack :: "nat \<Rightarrow> gc \<Rightarrow> gc option" where
  "GC_add_to_black_list_stack p s = do {
     let index = PHT_HASH (p div HBLKSIZE);
     e \<leftarrow> HDR (p div HBLKSIZE) s;
     Some (if e = Fwd 0 \<or> get_pht_entry_from_index (GC_old_stack_bl s) index
       then s\<lparr>GC_incomplete_stack_bl := set_pht_entry_from_index (GC_incomplete_stack_bl s) index\<rparr> else s) }"

definition add_to_black_list_NORMAL :: "nat \<Rightarrow> gc \<Rightarrow> gc option" where
  "add_to_black_list_NORMAL p s =
     (if GC_all_interior_pointers s then GC_add_to_black_list_stack p s else GC_add_to_black_list_normal p s)"

definition GC_number_stack_black_listed :: "nat \<Rightarrow> nat \<Rightarrow> gc \<Rightarrow> nat" where
  "GC_number_stack_black_listed start endp1 s =
     length (filter (\<lambda>h. get_pht_entry_from_index (GC_old_stack_bl s) (PHT_HASH h)) [start..<endp1])"

definition total_stack_black_listed :: "gc \<Rightarrow> nat" where
  "total_stack_black_listed s =
     sum_list (map (\<lambda>(start, bytes). GC_number_stack_black_listed (start div HBLKSIZE) (start div HBLKSIZE + divHBLKSZ bytes) s) (GC_heap_sects s)) * HBLKSIZE"

definition MAXHINCR :: nat where "MAXHINCR = 2048"

definition GC_promote_black_lists :: "gc \<Rightarrow> gc" where
  "GC_promote_black_lists s =
     (let s1 = s\<lparr>GC_old_normal_bl := GC_incomplete_normal_bl s, GC_old_stack_bl := GC_incomplete_stack_bl s,
          GC_incomplete_normal_bl := (if GC_all_interior_pointers s then GC_old_normal_bl s else (\<lambda>_. 0)),
          GC_incomplete_stack_bl := (\<lambda>_. 0)\<rparr>;
          total = total_stack_black_listed s1;
          a = (if total \<noteq> 0 then HBLKSIZE * (GC_heapsize s div total) else GC_black_list_spacing s);
          b = (if a < 3 * HBLKSIZE then 3 * HBLKSIZE else a);
          c = (if b > MAXHINCR * HBLKSIZE then MAXHINCR * HBLKSIZE else b)
      in s1\<lparr>GC_total_stack_black_listed := total, GC_black_list_spacing := c\<rparr>)"

definition GC_unpromote_black_lists :: "gc \<Rightarrow> gc" where
  "GC_unpromote_black_lists s =
     s\<lparr>GC_incomplete_normal_bl := (if GC_all_interior_pointers s then GC_incomplete_normal_bl s else GC_old_normal_bl s),
       GC_incomplete_stack_bl := GC_old_stack_bl s\<rparr>"

text \<open>The loop towards the start of a large object; from a null entry it would not move.\<close>

partial_function (option) towards_start :: "nat \<Rightarrow> nat \<Rightarrow> gc \<Rightarrow> (nat \<times> nat) option" where
  "towards_start current k s = do {
     let c = current - k;
     e \<leftarrow> HDR c s;
     case e of Fwd j \<Rightarrow> towards_start c j s | Hdr h \<Rightarrow> Some (c, h) }"

text \<open>The header that is found, 0 for none, and whether it goes into the cache.\<close>

definition GC_header_cache_miss :: "nat \<Rightarrow> gc \<Rightarrow> ((nat \<times> bool) \<times> gc) option" where
  "GC_header_cache_miss p s = do {
     e \<leftarrow> HDR (p div HBLKSIZE) s;
     case e of
       Fwd k \<Rightarrow>
         if GC_all_interior_pointers s then
           (if k \<noteq> 0 then do {
              (current, h) \<leftarrow> towards_start (p div HBLKSIZE) k s;
              H \<leftarrow> hdrs s h;
              if hb_flags H AND IGNORE_OFF_PAGE \<noteq> 0 then Some ((0, False), s)
              else if hb_flags H AND FREE_BLK \<noteq> 0 \<or> p - current * HBLKSIZE \<ge> hb_sz H
              then do { s1 \<leftarrow> add_to_black_list_NORMAL p s; Some ((0, False), s1) }
              else Some ((h, False), s) }
            else do { s1 \<leftarrow> add_to_black_list_NORMAL p s; Some ((0, False), s1) })
         else if k = 0 then do { s1 \<leftarrow> add_to_black_list_NORMAL p s; Some ((0, False), s1) }
         else Some ((0, False), s)
     | Hdr h \<Rightarrow> do {
         H \<leftarrow> hdrs s h;
         if hb_flags H AND FREE_BLK \<noteq> 0
         then do { s1 \<leftarrow> add_to_black_list_NORMAL p s; Some ((0, False), s1) }
         else Some ((h, True), s) } }"

section \<open>What a black list says\<close>

definition black :: "gc \<Rightarrow> nat \<Rightarrow> bool" where
  "black s p \<longleftrightarrow> get_pht_entry_from_index (GC_old_stack_bl s) (PHT_HASH p)
     \<or> get_pht_entry_from_index (GC_incomplete_stack_bl s) (PHT_HASH p)"

lemma PHT_HASH_step:
  assumes "k < 64 - PHT_HASH p mod 64"
  shows "PHT_HASH (p + k) = PHT_HASH p + k" "(PHT_HASH p + k) div 64 = PHT_HASH p div 64"
proof -
  have m: "PHT_HASH p mod 64 + k < 64" using assms by simp
  have "PHT_HASH p = 64 * (PHT_HASH p div 64) + PHT_HASH p mod 64" by simp
  then have e: "PHT_HASH p + k = 64 * (PHT_HASH p div 64) + (PHT_HASH p mod 64 + k)" by linarith
  have "(64 * q + r) div 64 = q" if "r < 64" for q r :: nat using that by simp
  from this [OF m] show d: "(PHT_HASH p + k) div 64 = PHT_HASH p div 64" by (simp only: e)
  have "PHT_HASH p div 64 < 4096" by (simp add: PHT_HASH_def div_less_iff_less_mult)
  then have "PHT_HASH p + k < 262144" using e m by linarith
  then have l: "PHT_HASH p + k < 2 ^ 18" by simp
  have "PHT_HASH (p + k) = (PHT_HASH p + k) mod 2 ^ 18" by (simp add: PHT_HASH_def mod_add_left_eq)
  then show "PHT_HASH (p + k) = PHT_HASH p + k" using l by simp
qed

lemma bl_loop_spec:
  assumes "i = 0 \<or> i < nblocks" and "\<And>k. k < i \<Longrightarrow> \<not> black s (h + k)"
  shows "bl_loop h nblocks i (PHT_HASH (h + i)) s =
    (if \<exists>k < max 1 nblocks. black s (h + k) then h + (LEAST k. black s (h + k)) + 1 else 0)"
  using assms
proof (induction "nblocks - i" arbitrary: i rule: less_induct)
  case less
  let ?x = "PHT_HASH (h + i)"
  have cont: "(if j \<ge> nblocks then 0 else bl_loop h nblocks j (PHT_HASH (h + j)) s) =
     (if \<exists>k < max 1 nblocks. black s (h + k) then h + (LEAST k. black s (h + k)) + 1 else 0)"
    if "i < j" "\<And>k. k < j \<Longrightarrow> \<not> black s (h + k)" for j
  proof (cases "j \<ge> nblocks")
    case True
    then have "\<not> (\<exists>k < max 1 nblocks. black s (h + k))" using that by auto
    then show ?thesis using True by simp
  next
    case False
    then have "nblocks - j < nblocks - i" using that(1) by simp
    from less.hyps [OF this, of] show ?thesis using False that(2) by simp
  qed
  show ?case
  proof (cases "GC_old_stack_bl s (?x div 64) = 0 \<and> GC_incomplete_stack_bl s (?x div 64) = 0")
    case True
    let ?j = "i + (64 - ?x mod 64)"
    have lt: "?x mod 64 < 64" by simp
    have "\<not> black s (h + k)" if "k < ?j" for k
    proof (cases "k < i")
      case True
      then show ?thesis by (rule less.prems(2))
    next
      case False
      define d where "d = k - i"
      have d: "k = i + d" "d < 64 - ?x mod 64" using False that lt unfolding d_def by linarith+
      have "PHT_HASH (h + k) div 64 = ?x div 64" using PHT_HASH_step [OF d(2)] d(1) by (simp add: add.assoc)
      then show ?thesis using True by (simp add: black_def get_pht_bit)
    qed
    from cont [OF _ this] show ?thesis using True lt by (subst bl_loop.simps) (simp add: Let_def)
  next
    case word: False
    show ?thesis
    proof (cases "black s (h + i)")
      case True
      have "(LEAST k. black s (h + k)) = i"
        using True less.prems(2) by (intro Least_equality) (auto simp: not_less [symmetric])
      moreover have "i < max 1 nblocks" using less.prems(1) by auto
      ultimately show ?thesis using True word by (subst bl_loop.simps) (auto simp: black_def)
    next
      case False
      have "\<not> black s (h + k)" if "k < i + 1" for k using that less.prems(2) False by (cases "k = i") auto
      from cont [OF _ this] show ?thesis using False word by (subst bl_loop.simps) (auto simp: black_def Let_def)
    qed
  qed
qed

lemma is_black_listed_spec:
  assumes "GC_all_interior_pointers s"
  shows "GC_is_black_listed h len s =
    (if \<exists>k < max 1 (divHBLKSZ len). black s (h + k) then h + (LEAST k. black s (h + k)) + 1 else 0)"
  using assms bl_loop_spec [of 0 "divHBLKSZ len" s h] by (simp add: GC_is_black_listed_def Let_def)

text \<open>
  C21. \<open>GC_is_black_listed\<close>, which looks at a word of the hash tables at a time, gives 0 exactly if none
  of the blocks of the area is on a black list, and otherwise the block after the first that is.
\<close>

theorem black_list_search:
  assumes "GC_all_interior_pointers s" and "HBLKSIZE \<le> len"
  shows "if \<exists>p. h \<le> p \<and> p < h + divHBLKSZ len \<and> black s p
    then \<exists>p. GC_is_black_listed h len s = p + 1 \<and> h \<le> p \<and> p < h + divHBLKSZ len \<and> black s p \<and> (\<forall>q. h \<le> q \<and> q < p \<longrightarrow> \<not> black s q)
    else GC_is_black_listed h len s = 0"
proof -
  let ?n = "divHBLKSZ len"
  have "1 \<le> ?n" using div_le_mono [OF assms(2), of HBLKSIZE] by (simp add: divHBLKSZ_def)
  then have n: "max 1 ?n = ?n" by (rule max_absorb2)
  note sp = is_black_listed_spec [OF assms(1), of h len, unfolded n]
  have iff: "(\<exists>p. h \<le> p \<and> p < h + ?n \<and> black s p) \<longleftrightarrow> (\<exists>k < ?n. black s (h + k))"
  proof
    assume "\<exists>p. h \<le> p \<and> p < h + ?n \<and> black s p"
    then obtain p where "h \<le> p" "p < h + ?n" "black s p" by blast
    then have "p - h < ?n" "black s (h + (p - h))" by simp_all
    then show "\<exists>k < ?n. black s (h + k)" by blast
  next
    assume "\<exists>k < ?n. black s (h + k)"
    then obtain k where "k < ?n" "black s (h + k)" by blast
    then have "h \<le> h + k \<and> h + k < h + ?n \<and> black s (h + k)" by simp
    then show "\<exists>p. h \<le> p \<and> p < h + ?n \<and> black s p" by blast
  qed
  show ?thesis
  proof (cases "\<exists>k < ?n. black s (h + k)")
    case True
    let ?k = "LEAST k. black s (h + k)"
    obtain k where k: "k < ?n" "black s (h + k)" using True by blast
    have b: "black s (h + ?k)" using k(2) by (rule LeastI)
    have lt: "?k < ?n" using Least_le [of "\<lambda>k. black s (h + k)", OF k(2)] k(1) by linarith
    have min: "\<forall>q. h \<le> q \<and> q < h + ?k \<longrightarrow> \<not> black s q"
    proof (intro allI impI)
      fix q assume "h \<le> q \<and> q < h + ?k"
      then have "q - h < ?k" "h + (q - h) = q" by linarith+
      then show "\<not> black s q" using not_less_Least [of "q - h" "\<lambda>k. black s (h + k)"] by simp
    qed
    have "GC_is_black_listed h len s = h + ?k + 1" unfolding sp by (rule if_P [OF True])
    then have "GC_is_black_listed h len s = h + ?k + 1 \<and> h \<le> h + ?k \<and> h + ?k < h + ?n \<and> black s (h + ?k)
        \<and> (\<forall>q. h \<le> q \<and> q < h + ?k \<longrightarrow> \<not> black s q)"
      using lt b min by (intro conjI) (assumption | rule le_add1 nat_add_left_cancel_less [THEN iffD2])+
    then show ?thesis unfolding iff if_P [OF True] by (rule exI)
  next
    case False
    have "GC_is_black_listed h len s = 0" unfolding sp by (rule if_not_P [OF False])
    then show ?thesis unfolding iff if_not_P [OF False] .
  qed
qed

text \<open>
  C26. After a collection the black lists are those that the collection has made: a block is black
  listed exactly if it was noted in the last cycle, so it is no longer after another collection that
  does not note it, and the lists for the next cycle are empty (with interior pointers on, where the
  lists of heap references are not used, they change places). The number of black listed bytes is
  that of the blocks in the sections of the heap that the new list names, and the distance between
  black listed places is the size of the heap by that number, in blocks, or stays as it is if no
  block is black listed; it is then taken between 3 and 2048 blocks.
\<close>

theorem promote_bounds:
  fixes s :: gc
  defines "t \<equiv> GC_promote_black_lists s"
  shows "black t p = get_pht_entry_from_index (GC_incomplete_stack_bl s) (PHT_HASH p)
   \<and> \<not> black (GC_promote_black_lists t) p
   \<and> GC_old_normal_bl t = GC_incomplete_normal_bl s
   \<and> GC_incomplete_normal_bl t = (if GC_all_interior_pointers s then GC_old_normal_bl s else (\<lambda>_. 0))
   \<and> GC_total_stack_black_listed t = HBLKSIZE * (\<Sum>(start, bytes) \<leftarrow> GC_heap_sects s.
        card {q. start div HBLKSIZE \<le> q \<and> q < start div HBLKSIZE + divHBLKSZ bytes \<and> black t q})
   \<and> GC_black_list_spacing t = max (3 * HBLKSIZE) (min (2048 * HBLKSIZE)
        (if GC_total_stack_black_listed t = 0 then GC_black_list_spacing s
         else HBLKSIZE * (GC_heapsize s div GC_total_stack_black_listed t)))"
proof -
  let ?tot = "total_stack_black_listed (s\<lparr>GC_old_normal_bl := GC_incomplete_normal_bl s, GC_old_stack_bl := GC_incomplete_stack_bl s,
          GC_incomplete_normal_bl := (if GC_all_interior_pointers s then GC_old_normal_bl s else (\<lambda>_. 0)),
          GC_incomplete_stack_bl := (\<lambda>_. 0)\<rparr>)"
  have f: "GC_old_stack_bl (GC_promote_black_lists s) = GC_incomplete_stack_bl s"
    "GC_incomplete_stack_bl (GC_promote_black_lists s) = (\<lambda>_. 0)" for s
    by (simp_all only: GC_promote_black_lists_def Let_def) simp_all
  have b: "black (GC_promote_black_lists s) p = get_pht_entry_from_index (GC_incomplete_stack_bl s) (PHT_HASH p)" for s p
    by (simp add: black_def f get_pht_bit)
  have n: "GC_old_normal_bl t = GC_incomplete_normal_bl s"
    "GC_incomplete_normal_bl t = (if GC_all_interior_pointers s then GC_old_normal_bl s else (\<lambda>_. 0))"
    "GC_total_stack_black_listed t = ?tot"
    unfolding t_def GC_promote_black_lists_def Let_def by simp_all
  have c: "length (filter P [a..<e]) = card {q. a \<le> q \<and> q < e \<and> P q}" for P and a e :: nat
    by (subst distinct_length_filter) (auto intro: arg_cong [of _ _ card])
  have tot: "?tot = HBLKSIZE * (\<Sum>(start, bytes) \<leftarrow> GC_heap_sects s.
        card {q. start div HBLKSIZE \<le> q \<and> q < start div HBLKSIZE + divHBLKSZ bytes \<and> black t q})"
    unfolding total_stack_black_listed_def GC_number_stack_black_listed_def t_def b c by simp
  have sp: "GC_black_list_spacing t = (let a = if ?tot \<noteq> 0 then HBLKSIZE * (GC_heapsize s div ?tot) else GC_black_list_spacing s;
      b = if a < 3 * HBLKSIZE then 3 * HBLKSIZE else a in if b > MAXHINCR * HBLKSIZE then MAXHINCR * HBLKSIZE else b)"
    unfolding t_def GC_promote_black_lists_def Let_def by simp
  have "GC_black_list_spacing t = max (3 * HBLKSIZE) (min (2048 * HBLKSIZE)
        (if ?tot = 0 then GC_black_list_spacing s else HBLKSIZE * (GC_heapsize s div ?tot)))"
    unfolding sp by (simp add: Let_def MAXHINCR_def max_def min_def)
  then show ?thesis using b [of s p] b [of t p] tot n unfolding t_def by (simp add: f get_pht_bit)
qed

end
