(* ===== verification/GcSearch.thy ===== *)
theory GcSearch
  imports GcBlack
begin

text \<open>
  Finding blocks through the header index (\<open>headers.c\<close>): the block before an address, the next block
  in use, all blocks in use, and the object that an interior pointer belongs to.

  \<open>layout\<close> is what the collector maintains of the index: the blocks with a header do not overlap; the
  others of a block in use have forwarding counts that lead to its first one, and those of a free
  block have null entries.
\<close>

section \<open>The code\<close>

text \<open>The inner loop of \<open>GC_prev_block\<close>, downwards from entry \<open>j\<close>; a negative result is none.\<close>

function prev_in :: "bottom_index \<Rightarrow> int \<Rightarrow> int" where
  "prev_in B j =
     (if j < 0 then j
      else case bi_index B (nat j) of
        Fwd k \<Rightarrow> if k = 0 then prev_in B (j - 1) else prev_in B (j - int k)
      | Hdr _ \<Rightarrow> j)"
  by pat_completeness auto

termination
  by (relation "measure (\<lambda>(B, j). nat (j + 1))") auto

declare prev_in.simps [simp del]

partial_function (option) prev_from :: "nat \<Rightarrow> int \<Rightarrow> gc \<Rightarrow> nat option" where
  "prev_from bi j s =
     (if bi = 0 then Some 0
      else do {
        B \<leftarrow> bottoms s bi;
        let i = prev_in B j;
        if i \<ge> 0 then Some (bi_key B * BOTTOM_SZ + nat i) else prev_from (desc_link B) 1023 s })"

partial_function (option) down_to_key :: "nat \<Rightarrow> nat \<Rightarrow> gc \<Rightarrow> nat option" where
  "down_to_key hi bi s =
     (if bi = 0 then Some 0
      else do { B \<leftarrow> bottoms s bi; if bi_key B > hi then down_to_key hi (desc_link B) s else Some bi })"

definition GC_prev_block :: "nat \<Rightarrow> gc \<Rightarrow> nat option" where
  "GC_prev_block h s = do {
     bi \<leftarrow> GET_BI h s;
     if bi = GC_all_nils s
     then do { b \<leftarrow> down_to_key (h div BOTTOM_SZ) (GC_all_bottom_indices_end s) s; prev_from b 1023 s }
     else prev_from bi (int (h mod BOTTOM_SZ)) s }"

text \<open>The loop over the entries in \<open>GC_next_used_block\<close>; an index of \<open>BOTTOM_SZ\<close> or more is none.\<close>

partial_function (option) next_in :: "bottom_index \<Rightarrow> nat \<Rightarrow> gc \<Rightarrow> nat option" where
  "next_in B j s =
     (if j \<ge> BOTTOM_SZ then Some j
      else case bi_index B j of
        Fwd _ \<Rightarrow> next_in B (j + 1) s
      | Hdr h \<Rightarrow> do {
          H \<leftarrow> hdrs s h;
          if hb_flags H AND FREE_BLK = 0 then Some j else next_in B (j + divHBLKSZ (hb_sz H)) s })"

partial_function (option) next_from :: "nat \<Rightarrow> nat \<Rightarrow> gc \<Rightarrow> nat option" where
  "next_from bi j s =
     (if bi = 0 then Some 0
      else do {
        B \<leftarrow> bottoms s bi;
        i \<leftarrow> next_in B j s;
        if i < BOTTOM_SZ then Some (bi_key B * BOTTOM_SZ + i) else next_from (asc_link B) 0 s })"

partial_function (option) up_to_key :: "nat \<Rightarrow> nat \<Rightarrow> gc \<Rightarrow> nat option" where
  "up_to_key hi bi s =
     (if bi = 0 then Some 0
      else do { B \<leftarrow> bottoms s bi; if bi_key B < hi then up_to_key hi (asc_link B) s else Some bi })"

definition GC_next_used_block :: "nat \<Rightarrow> gc \<Rightarrow> nat option" where
  "GC_next_used_block h s = do {
     bi \<leftarrow> GET_BI h s;
     if bi = GC_all_nils s
     then do { b \<leftarrow> up_to_key (h div BOTTOM_SZ) (GC_all_bottom_indices s) s; next_from b 0 s }
     else next_from bi (h mod BOTTOM_SZ) s }"

text \<open>\<open>GC_apply_to_all_blocks\<close>: \<open>fn\<close> may change the state, so the entries are read when they are met.\<close>

partial_function (option) apply_in :: "(nat \<Rightarrow> gc \<Rightarrow> gc option) \<Rightarrow> nat \<Rightarrow> int \<Rightarrow> gc \<Rightarrow> gc option" where
  "apply_in fn bi j s =
     (if j < 0 then Some s
      else do {
        B \<leftarrow> bottoms s bi;
        case bi_index B (nat j) of
          Hdr h \<Rightarrow> do {
            H \<leftarrow> hdrs s h;
            s1 \<leftarrow> (if hb_flags H AND FREE_BLK = 0 then fn (bi_key B * BOTTOM_SZ + nat j) s else Some s);
            apply_in fn bi (j - 1) s1 }
        | Fwd k \<Rightarrow> if k = 0 then apply_in fn bi (j - 1) s else apply_in fn bi (j - int k) s })"

partial_function (option) apply_from :: "(nat \<Rightarrow> gc \<Rightarrow> gc option) \<Rightarrow> nat \<Rightarrow> gc \<Rightarrow> gc option" where
  "apply_from fn bi s =
     (if bi = 0 then Some s
      else do {
        s1 \<leftarrow> apply_in fn bi 1023 s;
        B \<leftarrow> bottoms s1 bi;
        apply_from fn (asc_link B) s1 })"

definition GC_apply_to_all_blocks :: "(nat \<Rightarrow> gc \<Rightarrow> gc option) \<Rightarrow> gc \<Rightarrow> gc option" where
  "GC_apply_to_all_blocks fn s = apply_from fn (GC_all_bottom_indices s) s"

section \<open>The layout of the heap\<close>

definition OBJ_SZ_TO_BLOCKS :: "nat \<Rightarrow> nat" where
  "OBJ_SZ_TO_BLOCKS lb = divHBLKSZ (lb + HBLKSIZE - 1)"

definition HBLK_IS_FREE :: "hdr \<Rightarrow> bool" where
  "HBLK_IS_FREE H \<longleftrightarrow> hb_flags H AND FREE_BLK \<noteq> 0"

definition hdr_at :: "gc \<Rightarrow> nat \<Rightarrow> hdr \<Rightarrow> bool" where
  "hdr_at s p H \<longleftrightarrow> (\<exists>h. ent s p = Hdr h \<and> hdrs s h = Some H)"

text \<open>The number of blocks that belong to a header.\<close>

definition span :: "hdr \<Rightarrow> nat" where
  "span H = (if HBLK_IS_FREE H then divHBLKSZ (hb_sz H) else OBJ_SZ_TO_BLOCKS (hb_sz H))"

definition header_ok :: "gc \<Rightarrow> nat \<Rightarrow> hdr \<Rightarrow> bool" where
  "header_ok s p H \<longleftrightarrow> p \<noteq> 0 \<and> 0 < span H \<and> (HBLK_IS_FREE H \<longrightarrow> hb_sz H = span H * HBLKSIZE)
     \<and> (\<forall>i. 0 < i \<and> i < span H \<longrightarrow> ent s (p + i) = (if HBLK_IS_FREE H then Fwd 0 else Fwd (min MAX_JUMP i)))"

definition layout :: "gc \<Rightarrow> bool" where
  "layout s \<longleftrightarrow> index_inv s \<and> (\<forall>p H. hdr_at s p H \<longrightarrow> header_ok s p H)
     \<and> (\<forall>p k. ent s p = Fwd k \<longrightarrow> k \<noteq> 0 \<longrightarrow> (\<exists>q H. hdr_at s q H \<and> \<not> HBLK_IS_FREE H \<and> q < p \<and> p < q + span H))"

lemma hdr_atI: "ent s p = Hdr h \<Longrightarrow> hdrs s h = Some H \<Longrightarrow> hdr_at s p H"
  by (auto simp: hdr_at_def)

lemma hdr_at_unique: "hdr_at s p H \<Longrightarrow> hdr_at s p K \<Longrightarrow> K = H"
  by (auto simp: hdr_at_def)

lemma layoutD:
  assumes "layout s"
  shows "index_inv s" "hdr_at s p H \<Longrightarrow> header_ok s p H"
    "ent s p = Fwd k \<Longrightarrow> k \<noteq> 0 \<Longrightarrow> \<exists>q H. hdr_at s q H \<and> \<not> HBLK_IS_FREE H \<and> q < p \<and> p < q + span H"
  using assms by (simp_all add: layout_def)

lemma layout_hdr:
  assumes "layout s" and "ent s p = Hdr h"
  obtains H where "hdrs s h = Some H" "hdr_at s p H" "header_ok s p H"
  using index_inv_ent(3) [OF layoutD(1) [OF assms(1)] assms(2)] assms layoutD(2) hdr_atI by metis

lemma inside:
  assumes "layout s" and "hdr_at s p H" and "p < q" and "q < p + span H"
  shows "ent s q = (if HBLK_IS_FREE H then Fwd 0 else Fwd (min MAX_JUMP (q - p)))"
proof -
  have "0 < q - p \<and> q - p < span H" using assms(3,4) by linarith
  moreover have "header_ok s p H" using assms(1,2) by (rule layoutD(2))
  ultimately have "ent s (p + (q - p)) = (if HBLK_IS_FREE H then Fwd 0 else Fwd (min MAX_JUMP (q - p)))"
    unfolding header_ok_def by blast
  then show ?thesis using assms(3) by simp
qed

lemma inside_no_hdr: "layout s \<Longrightarrow> hdr_at s p H \<Longrightarrow> p < q \<Longrightarrow> q < p + span H \<Longrightarrow> ent s q \<noteq> Hdr h"
  using inside [of s p H q] by (auto split: if_splits)

text \<open>Blocks with a header do not overlap.\<close>

lemma blocks_apart:
  assumes "layout s" and "hdr_at s p H" and "hdr_at s q K" and "p < q"
  shows "p + span H \<le> q"
proof (rule ccontr)
  assume "\<not> ?thesis"
  then have "q < p + span H" by simp
  then show False using inside_no_hdr [OF assms(1,2,4)] assms(3) by (auto simp: hdr_at_def)
qed

lemma owner_unique:
  assumes "layout s" and "hdr_at s p H" and "hdr_at s q K" and "p \<le> x" "x < p + span H" "q \<le> x" "x < q + span K"
  shows "q = p \<and> K = H"
proof -
  have "\<not> p < q" using blocks_apart [OF assms(1-3)] assms(5,6) by auto
  moreover have "\<not> q < p" using blocks_apart [OF assms(1,3,2)] assms(4,7) by auto
  ultimately have "q = p" by simp
  then show ?thesis using hdr_at_unique assms(2,3) by auto
qed

section \<open>The object of an interior pointer\<close>

lemma forwarding:
  assumes "layout s" and "ent s p = Fwd k" and "k \<noteq> 0"
  obtains q H where "hdr_at s q H" "\<not> HBLK_IS_FREE H" "q < p" "p < q + span H" "k = min MAX_JUMP (p - q)"
proof -
  obtain q H where q: "hdr_at s q H" "\<not> HBLK_IS_FREE H" "q < p" "p < q + span H" using layoutD(3) [OF assms] by blast
  then have "k = min MAX_JUMP (p - q)" using inside [OF assms(1) q(1,3,4)] assms(2) by simp
  then show thesis using q that by blast
qed

lemma towards_start_spec:
  assumes "layout s" and "ent s q = Hdr h" "hdrs s h = Some H" and "\<not> HBLK_IS_FREE H" and "q < p" and "p < q + span H"
  shows "towards_start p (min MAX_JUMP (p - q)) s = Some (q, h)"
  using assms(5,6)
proof (induction "p - q" arbitrary: p rule: less_induct)
  case less
  let ?c = "p - min MAX_JUMP (p - q)"
  have c: "q \<le> ?c" "?c < p" using less.prems(1) by auto
  note e = index_inv_ent(1) [OF layoutD(1) [OF assms(1)], of ?c]
  have at: "hdr_at s q H" using assms(2,3) by (rule hdr_atI)
  show ?case
  proof (cases "?c = q")
    case True
    then show ?thesis using e assms(2) by (subst towards_start.simps) (simp add: Let_def)
  next
    case False
    then have lt: "q < ?c" "?c < q + span H" using c less.prems(2) by linarith+
    have "ent s ?c = Fwd (min MAX_JUMP (?c - q))" using inside [OF assms(1) at lt] assms(4) by simp
    moreover have "?c - q < p - q" using c lt(1) by linarith
    then have "towards_start ?c (min MAX_JUMP (?c - q)) s = Some (q, h)" using less.hyps lt by blast
    ultimately show ?thesis using e by (subst towards_start.simps) (simp add: Let_def)
  qed
qed

lemma black_list_NORMAL:
  assumes "index_inv s"
  shows "\<exists>t. add_to_black_list_NORMAL p s = Some t \<and> index_inv t \<and> ent t = ent s \<and> hdrs t = hdrs s"
proof -
  obtain L F where i: "idx_ok L s" "hdr_ok F s" using assms by (rule index_invE)
  have fr: "index_inv t \<and> ent t = ent s \<and> hdrs t = hdrs s"
    if "same_index s t" "hdrs t = hdrs s" "hdr_free_list t = hdr_free_list s" for t
  proof -
    note si = same_index [OF that(1) i(1)]
    have "hdr_ok F t" by (rule hdr_ok_frame [OF i(2)]) (use that si in \<open>auto simp: same_index_def\<close>)
    then show ?thesis using si that by (auto simp: index_inv_def)
  qed
  have "\<exists>t. add_to_black_list_NORMAL p s = Some t \<and> same_index s t \<and> hdrs t = hdrs s \<and> hdr_free_list t = hdr_free_list s"
    using index_inv_ent(1) [OF assms, of "p div HBLKSIZE"]
    by (auto simp: add_to_black_list_NORMAL_def GC_add_to_black_list_stack_def GC_add_to_black_list_normal_def Let_def same_index_def)
  then show ?thesis using fr by blast
qed

text \<open>What an address that belongs to no object does to the black list of a build with interior pointers.\<close>

lemma black_list_exact:
  assumes "index_inv s" and "GC_all_interior_pointers s"
  obtains t where "add_to_black_list_NORMAL a s = Some t" "t = s\<lparr>GC_incomplete_stack_bl := GC_incomplete_stack_bl t\<rparr>"
    "\<And>i. get_pht_entry_from_index (GC_incomplete_stack_bl t) i \<longleftrightarrow> get_pht_entry_from_index (GC_incomplete_stack_bl s) i
       \<or> i = PHT_HASH (a div HBLKSIZE) \<and> (ent s (a div HBLKSIZE) = Fwd 0 \<or> get_pht_entry_from_index (GC_old_stack_bl s) i)"
proof -
  let ?x = "PHT_HASH (a div HBLKSIZE)"
  let ?c = "ent s (a div HBLKSIZE) = Fwd 0 \<or> get_pht_entry_from_index (GC_old_stack_bl s) ?x"
  define t where "t = (if ?c then s\<lparr>GC_incomplete_stack_bl := set_pht_entry_from_index (GC_incomplete_stack_bl s) ?x\<rparr> else s)"
  have e: "HDR (a div HBLKSIZE) s = Some (ent s (a div HBLKSIZE))" by (rule index_inv_ent(1) [OF assms(1)])
  have "add_to_black_list_NORMAL a s = Some t"
    using assms(2) e by (simp add: add_to_black_list_NORMAL_def GC_add_to_black_list_stack_def Let_def t_def)
  moreover have "t = s\<lparr>GC_incomplete_stack_bl := GC_incomplete_stack_bl t\<rparr>" by (simp add: t_def)
  moreover have "get_pht_entry_from_index (GC_incomplete_stack_bl t) i \<longleftrightarrow> get_pht_entry_from_index (GC_incomplete_stack_bl s) i
       \<or> i = ?x \<and> (ent s (a div HBLKSIZE) = Fwd 0 \<or> get_pht_entry_from_index (GC_old_stack_bl s) i)" for i
    by (auto simp: t_def get_set_pht)
  ultimately show thesis by (rule that)
qed

text \<open>
  C8. With interior pointers on, the slow path of the header cache finds for an address inside an
  object the header of the object, however far the address is from its start; it finds none for an
  address past the end of the object, in a free block or outside the heap, and none for the later
  blocks of an object that is to be ignored there. A header goes into the cache only for an address
  in the first block. The state changes in the incomplete black list only, and there in one bit at
  most: the bit of the block is set for an address in no object if the block has a null entry in the
  index, as outside the heap and in a free block past its first one, or was black listed before; for
  an address past the end of an object, in a later block of it, if it was black listed before.
\<close>

theorem interior_pointer_header:
  assumes "layout s" and "GC_all_interior_pointers s"
  shows "\<exists>r t. GC_header_cache_miss a s = Some (r, t) \<and> t = s\<lparr>GC_incomplete_stack_bl := GC_incomplete_stack_bl t\<rparr>
    \<and> (\<forall>q h H. ent s q = Hdr h \<and> hdrs s h = Some H \<and> \<not> HBLK_IS_FREE H \<and> q \<le> a div HBLKSIZE \<and> a div HBLKSIZE < q + span H \<longrightarrow>
         r = (if a div HBLKSIZE = q then (h, True)
              else if hb_flags H AND IGNORE_OFF_PAGE = 0 \<and> a < q * HBLKSIZE + hb_sz H then (h, False) else (0, False))
         \<and> (\<forall>i. get_pht_entry_from_index (GC_incomplete_stack_bl t) i \<longleftrightarrow> get_pht_entry_from_index (GC_incomplete_stack_bl s) i
              \<or> i = PHT_HASH (a div HBLKSIZE) \<and> a div HBLKSIZE \<noteq> q \<and> hb_flags H AND IGNORE_OFF_PAGE = 0
                \<and> q * HBLKSIZE + hb_sz H \<le> a \<and> get_pht_entry_from_index (GC_old_stack_bl s) i))
    \<and> ((\<nexists>q H. hdr_at s q H \<and> \<not> HBLK_IS_FREE H \<and> q \<le> a div HBLKSIZE \<and> a div HBLKSIZE < q + span H) \<longrightarrow>
         r = (0, False)
         \<and> (\<forall>i. get_pht_entry_from_index (GC_incomplete_stack_bl t) i \<longleftrightarrow> get_pht_entry_from_index (GC_incomplete_stack_bl s) i
              \<or> i = PHT_HASH (a div HBLKSIZE) \<and> (ent s (a div HBLKSIZE) = Fwd 0 \<or> get_pht_entry_from_index (GC_old_stack_bl s) i)))"
proof -
  let ?p = "a div HBLKSIZE"
  let ?own = "\<lambda>q h H. ent s q = Hdr h \<and> hdrs s h = Some H \<and> \<not> HBLK_IS_FREE H \<and> q \<le> ?p \<and> ?p < q + span H"
  let ?bit = "\<lambda>t i. get_pht_entry_from_index (GC_incomplete_stack_bl t) i"
  let ?r = "\<lambda>q h H. if ?p = q then (h, True)
              else if hb_flags H AND IGNORE_OFF_PAGE = 0 \<and> a < q * HBLKSIZE + hb_sz H then (h, False) else (0, False)"
  let ?new = "\<lambda>q H i. i = PHT_HASH ?p \<and> ?p \<noteq> q \<and> hb_flags H AND IGNORE_OFF_PAGE = 0
                \<and> q * HBLKSIZE + hb_sz H \<le> a \<and> get_pht_entry_from_index (GC_old_stack_bl s) i"
  obtain t where t: "add_to_black_list_NORMAL a s = Some t" "t = s\<lparr>GC_incomplete_stack_bl := GC_incomplete_stack_bl t\<rparr>"
    "\<And>i. ?bit t i \<longleftrightarrow> ?bit s i \<or> i = PHT_HASH ?p \<and> (ent s ?p = Fwd 0 \<or> get_pht_entry_from_index (GC_old_stack_bl s) i)"
    by (rule black_list_exact [OF layoutD(1) [OF assms(1)] assms(2), of a]) (rule that)
  have e: "HDR ?p s = Some (ent s ?p)" by (rule index_inv_ent(1) [OF layoutD(1) [OF assms(1)]])
  show ?thesis
  proof (cases "\<exists>q h H. ?own q h H")
    case True
    then obtain q h H where o: "?own q h H" by blast
    then have at: "hdr_at s q H" by (auto simp: hdr_at_def)
    have uniq: "q' = q \<and> h' = h \<and> H' = H" if "?own q' h' H'" for q' h' H'
      using owner_unique [OF assms(1) at, of q' H' ?p] that o by (auto simp: hdr_at_def)
    have "\<exists>u. GC_header_cache_miss a s = Some (?r q h H, u) \<and> u = s\<lparr>GC_incomplete_stack_bl := GC_incomplete_stack_bl u\<rparr>
        \<and> (\<forall>i. ?bit u i \<longleftrightarrow> ?bit s i \<or> ?new q H i)"
    proof (cases "?p = q")
      case True
      then have "GC_header_cache_miss a s = Some (?r q h H, s)" using o e by (auto simp: GC_header_cache_miss_def HBLK_IS_FREE_def)
      then show ?thesis using True by (intro exI [of _ s]) simp
    next
      case False
      then have lt: "q < ?p" "?p < q + span H" using o by auto
      have k: "ent s ?p = Fwd (min MAX_JUMP (?p - q))" "min MAX_JUMP (?p - q) \<noteq> 0" using inside [OF assms(1) at lt] o lt(1) by auto
      have st: "towards_start ?p (min MAX_JUMP (?p - q)) s = Some (q, h)" using towards_start_spec [OF assms(1)] o lt by blast
      have "q * HBLKSIZE \<le> a" using o by (simp add: less_eq_div_iff_mult_less_eq)
      then have ge: "a - q * HBLKSIZE \<ge> hb_sz H \<longleftrightarrow> q * HBLKSIZE + hb_sz H \<le> a" by linarith
      let ?u = "if hb_flags H AND IGNORE_OFF_PAGE = 0 \<and> q * HBLKSIZE + hb_sz H \<le> a then t else s"
      have "GC_header_cache_miss a s = Some (?r q h H, ?u)"
        using o e k st t(1) ge False assms(2) by (auto simp: GC_header_cache_miss_def HBLK_IS_FREE_def)
      moreover have "?u = s\<lparr>GC_incomplete_stack_bl := GC_incomplete_stack_bl ?u\<rparr>" using t(2) by simp
      moreover have "?bit ?u i \<longleftrightarrow> ?bit s i \<or> ?new q H i" for i using t(3) k False by auto
      ultimately show ?thesis by blast
    qed
    then obtain u where u: "GC_header_cache_miss a s = Some (?r q h H, u)" "u = s\<lparr>GC_incomplete_stack_bl := GC_incomplete_stack_bl u\<rparr>"
      "\<forall>i. ?bit u i \<longleftrightarrow> ?bit s i \<or> ?new q H i" by blast
    have "\<forall>q' h' H'. ?own q' h' H' \<longrightarrow> ?r q h H = ?r q' h' H' \<and> (\<forall>i. ?bit u i \<longleftrightarrow> ?bit s i \<or> ?new q' H' i)"
    proof (intro allI impI)
      fix q' h' H' assume "?own q' h' H'"
      from uniq [OF this] have eq: "q' = q" "h' = h" "H' = H" by blast+
      show "?r q h H = ?r q' h' H' \<and> (\<forall>i. ?bit u i \<longleftrightarrow> ?bit s i \<or> ?new q' H' i)"
        unfolding eq using u(3) by (intro conjI refl)
    qed
    moreover have "\<not> (\<nexists>q H. hdr_at s q H \<and> \<not> HBLK_IS_FREE H \<and> q \<le> ?p \<and> ?p < q + span H)" using o at by blast
    ultimately show ?thesis using u(1,2) by blast
  next
    case False
    have "GC_header_cache_miss a s = Some ((0, False), t)"
    proof (cases "ent s ?p")
      case (Fwd k)
      have "k = 0"
      proof (rule ccontr)
        assume "k \<noteq> 0"
        then obtain q H where q: "hdr_at s q H" "\<not> HBLK_IS_FREE H" "q < ?p" "?p < q + span H" using forwarding [OF assms(1) Fwd] by metis
        then obtain h where "ent s q = Hdr h" "hdrs s h = Some H" by (auto simp: hdr_at_def)
        then have "?own q h H" using q by simp
        then show False using False by blast
      qed
      then show ?thesis using Fwd e t(1) assms(2) by (simp add: GC_header_cache_miss_def)
    next
      case (Hdr h)
      then obtain H where H: "hdrs s h = Some H" "header_ok s ?p H" using layout_hdr [OF assms(1) Hdr] by blast
      then have "HBLK_IS_FREE H" using False Hdr by (auto simp: header_ok_def)
      then show ?thesis using Hdr H(1) e t(1) by (simp add: GC_header_cache_miss_def HBLK_IS_FREE_def)
    qed
    moreover have "\<nexists>q h H. ?own q h H" using False by blast
    ultimately show ?thesis using t(2,3) by (intro exI [of _ "(0, False)"] exI [of _ t]) blast
  qed
qed

section \<open>The block before an address\<close>

definition has_hdr :: "gc \<Rightarrow> nat \<Rightarrow> bool" where
  "has_hdr s p \<longleftrightarrow> (\<exists>h. ent s p = Hdr h)"

text \<open>\<open>r\<close> is the last block with a header that is not after \<open>x\<close>, 0 if there is none.\<close>

definition last_hdr :: "gc \<Rightarrow> nat \<Rightarrow> nat \<Rightarrow> bool" where
  "last_hdr s x r \<longleftrightarrow> (\<forall>y. r < y \<and> y \<le> x \<longrightarrow> \<not> has_hdr s y) \<and> r \<le> x \<and> (has_hdr s r \<or> r = 0)"

lemma prev_in_spec:
  assumes "\<And>x k. 0 \<le> x \<Longrightarrow> x \<le> 1023 \<Longrightarrow> bi_index B (nat x) = Fwd k \<Longrightarrow>
      \<forall>y h. x - int k < y \<and> y \<le> x \<and> 0 \<le> y \<longrightarrow> bi_index B (nat y) \<noteq> Hdr h"
    and "j \<le> 1023"
  shows "prev_in B j \<le> j \<and> (\<forall>y h. prev_in B j < y \<and> y \<le> j \<and> 0 \<le> y \<longrightarrow> bi_index B (nat y) \<noteq> Hdr h)
    \<and> (0 \<le> prev_in B j \<longrightarrow> (\<exists>h. bi_index B (nat (prev_in B j)) = Hdr h))"
  using assms
proof (induction B j rule: prev_in.induct)
  case (1 B j)
  show ?case
  proof (cases "j < 0")
    case True
    then have "prev_in B j = j" by (simp add: prev_in.simps)
    then show ?thesis using True by auto
  next
    case j: False
    show ?thesis
    proof (cases "bi_index B (nat j)")
      case (Hdr h)
      then have "prev_in B j = j" using j by (simp add: prev_in.simps)
      then show ?thesis using Hdr by auto
    next
      case (Fwd k)
      let ?i = "if k = 0 then j - 1 else j - int k"
      have p: "prev_in B j = prev_in B ?i" using j Fwd by (simp add: prev_in.simps)
      have skip: "bi_index B (nat y) \<noteq> Hdr h" if "?i < y" "y \<le> j" "0 \<le> y" for y h
        using "1.prems"(1) [of j k] j Fwd "1.prems"(2) that by (cases "k = 0") (auto dest: order_antisym)
      have ih: "prev_in B ?i \<le> ?i \<and> (\<forall>y h. prev_in B ?i < y \<and> y \<le> ?i \<and> 0 \<le> y \<longrightarrow> bi_index B (nat y) \<noteq> Hdr h)
        \<and> (0 \<le> prev_in B ?i \<longrightarrow> (\<exists>h. bi_index B (nat (prev_in B ?i)) = Hdr h))"
      proof (cases "k = 0")
        case True
        have "prev_in B (j - 1) \<le> j - 1 \<and> (\<forall>y h. prev_in B (j - 1) < y \<and> y \<le> j - 1 \<and> 0 \<le> y \<longrightarrow> bi_index B (nat y) \<noteq> Hdr h)
          \<and> (0 \<le> prev_in B (j - 1) \<longrightarrow> (\<exists>h. bi_index B (nat (prev_in B (j - 1))) = Hdr h))"
          by (rule "1.IH"(1) [OF j Fwd True "1.prems"(1)]) (use "1.prems"(2) in simp_all)
        then show ?thesis using True by simp
      next
        case False
        have "prev_in B (j - int k) \<le> j - int k \<and> (\<forall>y h. prev_in B (j - int k) < y \<and> y \<le> j - int k \<and> 0 \<le> y \<longrightarrow> bi_index B (nat y) \<noteq> Hdr h)
          \<and> (0 \<le> prev_in B (j - int k) \<longrightarrow> (\<exists>h. bi_index B (nat (prev_in B (j - int k))) = Hdr h))"
          by (rule "1.IH"(2) [OF j Fwd False "1.prems"(1)]) (use "1.prems"(2) in simp_all)
        then show ?thesis using False by simp
      qed
      have "?i \<le> j" by simp
      show ?thesis unfolding p
      proof (intro conjI allI impI)
        show "prev_in B ?i \<le> j" using ih \<open>?i \<le> j\<close> by linarith
        show "bi_index B (nat y) \<noteq> Hdr h" if "prev_in B ?i < y \<and> y \<le> j \<and> 0 \<le> y" for y h
          using that ih skip by (cases "y \<le> ?i") auto
        show "\<exists>h. bi_index B (nat (prev_in B ?i)) = Hdr h" if "0 \<le> prev_in B ?i" using ih that by blast
      qed
    qed
  qed
qed

lemma ent_in: "idx_ok L s \<Longrightarrow> b \<in> set L \<Longrightarrow> x < BOTTOM_SZ \<Longrightarrow> ent s (bkey s b * BOTTOM_SZ + x) = bi_index (the (bottoms s b)) x"
  using HDR_in [of L s b "bkey s b * BOTTOM_SZ + x"] by (simp add: ent_def)

lemma has_hdr_index:
  assumes "idx_ok L s" and "has_hdr s y"
  obtains b where "b \<in> set L" "bkey s b = y div BOTTOM_SZ"
  using assms ent_indexed [OF assms(1), of y] indexed_iff [OF assms(1)] by (auto simp: has_hdr_def)

text \<open>A forwarding count never jumps over a header.\<close>

lemma jump_no_hdr:
  assumes "layout s" and "ent s p = Fwd k" and "p < y + k" "y \<le> p"
  shows "\<not> has_hdr s y"
proof (cases "k = 0")
  case True
  then show ?thesis using assms by (simp add: has_hdr_def)
next
  case False
  obtain q H where q: "hdr_at s q H" "q < p" "p < q + span H" "k = min MAX_JUMP (p - q)"
    using forwarding [OF assms(1,2) False] by metis
  then have "q < y" "y < q + span H" using assms(3,4) by auto
  then show ?thesis using inside_no_hdr [OF assms(1) q(1)] by (auto simp: has_hdr_def)
qed

lemma prev_in_index:
  assumes l: "layout s" and i: "idx_ok L s" and b: "b \<in> set L" and j: "j \<le> 1023"
  defines "i \<equiv> prev_in (the (bottoms s b)) j"
  shows "i \<le> j" "0 \<le> i \<Longrightarrow> has_hdr s (bkey s b * BOTTOM_SZ + nat i)"
    "i < y \<Longrightarrow> y \<le> j \<Longrightarrow> 0 \<le> y \<Longrightarrow> \<not> has_hdr s (bkey s b * BOTTOM_SZ + nat y)"
proof -
  let ?B = "the (bottoms s b)" and ?k = "bkey s b * BOTTOM_SZ"
  have e: "bi_index ?B (nat x) = ent s (?k + nat x)" if "0 \<le> x" "x \<le> 1023" for x
    using ent_in [OF i b, of "nat x"] that by simp
  have nj: "\<forall>y h. x - int k < y \<and> y \<le> x \<and> 0 \<le> y \<longrightarrow> bi_index ?B (nat y) \<noteq> Hdr h"
    if "0 \<le> x" "x \<le> 1023" "bi_index ?B (nat x) = Fwd k" for x k
  proof (intro allI impI)
    fix y h assume y: "x - int k < y \<and> y \<le> x \<and> 0 \<le> y"
    have "ent s (?k + nat x) = Fwd k" using that e by simp
    then have "\<not> has_hdr s (?k + nat y)" by (rule jump_no_hdr [OF l]) (use y in auto)
    then show "bi_index ?B (nat y) \<noteq> Hdr h" using e [of y] y that(2) by (auto simp: has_hdr_def)
  qed
  have sp: "i \<le> j \<and> (\<forall>y h. i < y \<and> y \<le> j \<and> 0 \<le> y \<longrightarrow> bi_index ?B (nat y) \<noteq> Hdr h) \<and> (0 \<le> i \<longrightarrow> (\<exists>h. bi_index ?B (nat i) = Hdr h))"
    unfolding i_def by (rule prev_in_spec [OF _ j], erule (2) nj)
  show ij: "i \<le> j" using sp by blast
  show "has_hdr s (?k + nat i)" if i0: "0 \<le> i"
  proof -
    obtain h where "bi_index ?B (nat i) = Hdr h" using sp i0 by blast
    then have "ent s (?k + nat i) = Hdr h" using e [of i] i0 ij j by simp
    then show ?thesis unfolding has_hdr_def by blast
  qed
  show "\<not> has_hdr s (?k + nat y)" if "i < y" "y \<le> j" "0 \<le> y"
  proof -
    have "bi_index ?B (nat y) \<noteq> Hdr h" for h using sp that by blast
    then show ?thesis unfolding has_hdr_def using e [of y] that(2,3) j by simp
  qed
qed

lemma prev_from_spec:
  assumes l: "layout s" and i: "idx_ok L s" and "L = pre @ b # post" and "0 \<le> j" "j \<le> 1023"
  shows "\<exists>r. prev_from b j s = Some r \<and> last_hdr s (bkey s b * BOTTOM_SZ + nat j) r"
  using assms(3-5)
proof (induction "length pre" arbitrary: pre b post j rule: less_induct)
  case less
  let ?i = "prev_in (the (bottoms s b)) j" and ?k = "bkey s b * BOTTOM_SZ"
  have b: "b \<in> set L" "b \<noteq> 0" using less.prems(1) idx_okD(3) [OF i] by auto
  obtain B where B: "bottoms s b = Some B" using idx_okD(12) [OF i b(1)] by blast
  note pi = prev_in_index [OF l i b(1) less.prems(3)]
  have below: "\<not> has_hdr s y" if "?i < int y - int ?k" "?k \<le> y" "y \<le> ?k + nat j" for y
  proof -
    have "?k + nat (int y - int ?k) = y" using that(2) by simp
    moreover have "int y - int ?k \<le> j" using that(3) less.prems(2) by linarith
    ultimately show ?thesis using pi(3) [of "int y - int ?k"] that(1,2) by simp
  qed
  have step: "prev_from b j s = (if ?i \<ge> 0 then Some (?k + nat ?i) else prev_from (desc_link B) 1023 s)"
    using B b(2) by (subst prev_from.simps) (simp add: Let_def bkey_def)
  show ?case
  proof (cases "0 \<le> ?i")
    case True
    have "last_hdr s (?k + nat j) (?k + nat ?i)" unfolding last_hdr_def
    proof (intro conjI allI impI)
      fix y assume "?k + nat ?i < y \<and> y \<le> ?k + nat j"
      then show "\<not> has_hdr s y" using below [of y] True by linarith
    next
      show "?k + nat ?i \<le> ?k + nat j" using pi(1) True by simp
      show "has_hdr s (?k + nat ?i) \<or> ?k + nat ?i = 0" using pi(2) True by blast
    qed
    then show ?thesis using step True by simp
  next
    case False
    have low: "bkey s a < bkey s b" if "has_hdr s y" "y \<le> ?k + nat j" "a \<in> set L" "bkey s a = y div BOTTOM_SZ" for a y
    proof -
      have "\<not> ?k \<le> y" using below [of y] False that(1,2) by linarith
      then show ?thesis using that(4) by (simp add: div_less_iff_less_mult)
    qed
    show ?thesis
    proof (cases pre rule: rev_cases)
      case Nil
      have "desc_link B = 0" using idx_okD(9) [OF i] less.prems(1) Nil B by simp
      then have "prev_from b j s = Some 0" using step False by (simp add: prev_from.simps)
      moreover have "\<not> has_hdr s y" if "y \<le> ?k + nat j" for y
      proof
        assume h: "has_hdr s y"
        obtain a where a: "a \<in> set L" "bkey s a = y div BOTTOM_SZ" using has_hdr_index [OF i h] .
        from low [OF h that a] show False using a(1) less.prems(1) Nil idx_okD(11) [OF i] by auto
      qed
      ultimately show ?thesis by (auto simp: last_hdr_def)
    next
      case (snoc cs c)
      have so: "sorted_wrt (<) (map (bkey s) (cs @ [c] @ b # post))" using idx_okD(11) [OF i] less.prems(1) snoc by simp
      have "desc_link B = c" using idx_okD(9) [OF i] less.prems(1) snoc B by (simp add: backs_append)
      moreover obtain r where r: "prev_from c 1023 s = Some r" "last_hdr s (bkey s c * BOTTOM_SZ + 1023) r"
        using less.hyps [of cs c "b # post" 1023] less.prems(1) snoc by auto
      ultimately have e: "prev_from b j s = Some r" using step False by simp
      have cb: "bkey s c < bkey s b" using so by (simp add: sorted_wrt_append)
      have "\<not> has_hdr s y" if y: "r < y" "y \<le> ?k + nat j" for y
      proof
        assume h: "has_hdr s y"
        obtain a where a: "a \<in> set L" "bkey s a = y div BOTTOM_SZ" using has_hdr_index [OF i h] .
        have "bkey s a < bkey s b" by (rule low [OF h y(2) a])
        then have "bkey s a \<le> bkey s c" using a(1) less.prems(1) snoc so by (auto simp: sorted_wrt_append)
        then have "y div BOTTOM_SZ < bkey s c + 1" using a(2) by simp
        then have "y < (bkey s c + 1) * BOTTOM_SZ" by (simp add: div_less_iff_less_mult)
        then have "y \<le> bkey s c * BOTTOM_SZ + 1023" by simp
        then show False using r(2) y(1) h unfolding last_hdr_def by blast
      qed
      moreover have "(bkey s c + 1) * BOTTOM_SZ \<le> ?k" using cb by (intro mult_le_mono1) simp
      then have "r \<le> ?k + nat j" using r(2) by (simp add: last_hdr_def)
      ultimately show ?thesis using e r(2) unfolding last_hdr_def by blast
    qed
  qed
qed

lemma down_to_key_spec:
  assumes "idx_ok L s" and "L = pre @ post" and "\<forall>b \<in> set post. hi < bkey s b"
  shows "down_to_key hi (last0 pre) s = Some (last0 (filter (\<lambda>b. bkey s b \<le> hi) pre))"
  using assms(2,3)
proof (induction pre arbitrary: post rule: rev_induct)
  case Nil
  then show ?case by (simp add: down_to_key.simps)
next
  case (snoc c cs)
  have c: "c \<in> set L" "c \<noteq> 0" using snoc.prems(1) idx_okD(3) [OF assms(1)] by auto
  obtain B where B: "bottoms s c = Some B" using idx_okD(12) [OF assms(1) c(1)] by blast
  have d: "desc_link B = last0 cs" using idx_okD(9) [OF assms(1)] snoc.prems(1) B by (auto simp: backs_append last0_def)
  show ?case
  proof (cases "hi < bkey s c")
    case True
    then show ?thesis using snoc.IH [of "c # post"] snoc.prems B c(2) d by (simp add: down_to_key.simps [of hi c] bkey_def)
  next
    case False
    then show ?thesis using B c(2) by (simp add: down_to_key.simps [of hi c] bkey_def)
  qed
qed

lemma sorted_last: "sorted_wrt (\<lambda>x y. f x < f y) xs \<Longrightarrow> a \<in> set xs \<Longrightarrow> f a \<le> (f (last xs) :: nat)"
  by (induction xs) (auto intro: less_imp_le)

lemma prev_block_spec:
  assumes "layout s"
  shows "\<exists>r. GC_prev_block h s = Some r \<and> last_hdr s h r"
proof -
  obtain L F where i: "idx_ok L s" using layoutD(1) [OF assms] by (rule index_invE)
  show ?thesis
  proof (cases "\<exists>b \<in> set L. bkey s b = h div BOTTOM_SZ")
    case True
    then obtain b where b: "b \<in> set L" "bkey s b = h div BOTTOM_SZ" by blast
    have "h mod BOTTOM_SZ < BOTTOM_SZ" by simp
    then have hm: "h mod BOTTOM_SZ \<le> 1023" by linarith
    have "GET_BI h s = Some b" "b \<noteq> GC_all_nils s" using GET_BI_in [OF i b] idx_okD(2) [OF i] b(1) by auto
    moreover obtain pre post where "L = pre @ b # post" using b(1) by (meson split_list)
    then obtain r where "prev_from b (int (h mod BOTTOM_SZ)) s = Some r" "last_hdr s (bkey s b * BOTTOM_SZ + nat (int (h mod BOTTOM_SZ))) r"
      using prev_from_spec [OF assms i, of pre b post "int (h mod BOTTOM_SZ)"] hm by auto
    ultimately show ?thesis using b(2) by (auto simp: GC_prev_block_def)
  next
    case False
    let ?hi = "h div BOTTOM_SZ"
    let ?low = "filter (\<lambda>b. bkey s b \<le> ?hi) L"
    have g: "GET_BI h s = Some (GC_all_nils s)" using GET_BI_out [OF i] False by blast
    have d: "down_to_key ?hi (GC_all_bottom_indices_end s) s = Some (last0 ?low)"
      using down_to_key_spec [OF i, of L "[]"] idx_okD(10) [OF i] by simp
    have none: "a \<in> set ?low" if "has_hdr s y" "y \<le> h" "a \<in> set L" "bkey s a = y div BOTTOM_SZ" for a y
      using that by (simp add: div_le_mono)
    show ?thesis
    proof (cases "?low = []")
      case True
      have "GC_prev_block h s = Some 0" using g d True by (simp add: GC_prev_block_def prev_from.simps)
      moreover have "last_hdr s h 0" unfolding last_hdr_def using none has_hdr_index [OF i] True by (metis list.set(1) empty_iff le0)
      ultimately show ?thesis by blast
    next
      case ne: False
      let ?b = "last ?low"
      have bL: "?b \<in> set L" "bkey s ?b \<le> ?hi" using last_in_set [OF ne] by auto
      obtain pre post where L: "L = pre @ ?b # post" using bL(1) by (meson split_list)
      obtain r where r: "prev_from ?b 1023 s = Some r" "last_hdr s (bkey s ?b * BOTTOM_SZ + 1023) r"
        using prev_from_spec [OF assms i L, of 1023] by auto
      have "bkey s ?b \<noteq> ?hi" using False bL(1) by blast
      then have "bkey s ?b + 1 \<le> ?hi" using bL(2) by simp
      then have "(bkey s ?b + 1) * BOTTOM_SZ \<le> h" by (simp add: less_eq_div_iff_mult_less_eq)
      then have rh: "r \<le> h" using r(2) by (simp add: last_hdr_def)
      have "\<not> has_hdr s y" if y: "r < y" "y \<le> h" for y
      proof
        assume hy: "has_hdr s y"
        obtain a where a: "a \<in> set L" "bkey s a = y div BOTTOM_SZ" using has_hdr_index [OF i hy] .
        have al: "a \<in> set ?low" by (rule none [OF hy y(2) a])
        have so: "sorted_wrt (\<lambda>x y. bkey s x < bkey s y) ?low"
          using idx_okD(11) [OF i] by (intro sorted_wrt_filter) (simp add: sorted_wrt_map)
        have "bkey s a \<le> bkey s ?b" by (rule sorted_last [OF so al])
        then have "y div BOTTOM_SZ < bkey s ?b + 1" using a(2) by simp
        then have "y < (bkey s ?b + 1) * BOTTOM_SZ" by (simp add: div_less_iff_less_mult)
        then have "y \<le> bkey s ?b * BOTTOM_SZ + 1023" by simp
        then show False using r(2) y(1) hy unfolding last_hdr_def by blast
      qed
      moreover have "GC_prev_block h s = Some r" using g d ne r(1) by (simp add: GC_prev_block_def)
      ultimately show ?thesis using r(2) rh unfolding last_hdr_def by blast
    qed
  qed
qed

text \<open>
  C25. \<open>GC_prev_block\<close> returns the last block with a header at or before an address, 0 if there is none:
  through the hash chains, the sorted list of indices and the forwarding counts it finds what a
  search block by block would find.
\<close>

theorem prev_block_is_last:
  assumes "layout s"
  shows "\<exists>r. GC_prev_block h s = Some r \<and> r \<le> h \<and> (has_hdr s r \<or> r = 0) \<and> (\<forall>y. r < y \<and> y \<le> h \<longrightarrow> \<not> has_hdr s y)"
  using prev_block_spec [OF assms, of h] unfolding last_hdr_def by blast

end
