(* ===== verification/GcBlocks.thy ===== *)
theory GcBlocks
  imports GcSearch
begin

text \<open>
  The allocator of heap blocks of the collector (\<open>gc-7.6.4/allchblk.c\<close>, with \<open>GC_add_map_entry\<close> of
  \<open>obj_map.c\<close> and \<open>GC_clear_hdr_marks\<close> of \<open>mark.c\<close>), in the build with a mark byte for each granule
  and without \<open>USE_MUNMAP\<close> and assertions. Free blocks are on doubly linked lists by their size,
  linked through their headers.

  The incremental mode is off. \<open>should_collect\<close> stands for the answer of \<open>GC_should_collect\<close>. The
  contents of the heap are not in the state: the blocks that are dropped are not cleared.
\<close>

section \<open>Access to headers\<close>

definition hdr_of :: "nat \<Rightarrow> gc \<Rightarrow> nat option" where
  "hdr_of p s = do { e \<leftarrow> HDR p s; case e of Hdr h \<Rightarrow> Some h | Fwd _ \<Rightarrow> None }"

definition mod_hdr :: "nat \<Rightarrow> (hdr \<Rightarrow> hdr) \<Rightarrow> gc \<Rightarrow> gc option" where
  "mod_hdr k f s = do { H \<leftarrow> hdrs s k; Some (s\<lparr>hdrs := (hdrs s)(k \<mapsto> f H)\<rparr>) }"

section \<open>Sizes and lists\<close>

definition UNIQUE_THRESHOLD :: nat where "UNIQUE_THRESHOLD = 32"
definition HUGE_THRESHOLD :: nat where "HUGE_THRESHOLD = 256"
definition FL_COMPRESSION :: nat where "FL_COMPRESSION = 8"
definition N_HBLK_FLS :: nat where "N_HBLK_FLS = (HUGE_THRESHOLD - UNIQUE_THRESHOLD) div FL_COMPRESSION + UNIQUE_THRESHOLD"
definition MAX_BLACK_LIST_ALLOC :: nat where "MAX_BLACK_LIST_ALLOC = 2 * HBLKSIZE"

definition GC_hblk_fl_from_blocks :: "nat \<Rightarrow> nat" where
  "GC_hblk_fl_from_blocks blocks_needed =
     (if blocks_needed \<le> UNIQUE_THRESHOLD then blocks_needed
      else if blocks_needed \<ge> HUGE_THRESHOLD then N_HBLK_FLS
      else (blocks_needed - UNIQUE_THRESHOLD) div FL_COMPRESSION + UNIQUE_THRESHOLD)"

fun enough_loop :: "nat list \<Rightarrow> nat \<Rightarrow> gc \<Rightarrow> nat" where
  "enough_loop [] bytes s = 0"
| "enough_loop (n # ns) bytes s =
     (let b = bytes + GC_free_bytes s n in if b \<ge> GC_max_large_allocd_bytes s then n else enough_loop ns b s)"

definition GC_enough_large_bytes_left :: "gc \<Rightarrow> nat" where
  "GC_enough_large_bytes_left s = enough_loop (rev [0..<N_HBLK_FLS + 1]) (GC_large_allocd_bytes s) s"

partial_function (option) list_bytes :: "nat \<Rightarrow> gc \<Rightarrow> nat option" where
  "list_bytes h s =
     (if h = 0 then Some 0
      else do { k \<leftarrow> hdr_of h s; H \<leftarrow> hdrs s k; r \<leftarrow> list_bytes (hb_next H) s; Some (hb_sz H + r) })"

definition GC_compute_large_free_bytes :: "gc \<Rightarrow> nat option" where
  "GC_compute_large_free_bytes s =
     ofold (\<lambda>i total. do { r \<leftarrow> list_bytes (GC_hblkfreelist s i) s; Some (total + r) }) [0..<N_HBLK_FLS + 1] 0"

text \<open>The size of an object in blocks, with an addition that saturates.\<close>

definition SIZET_SAT_ADD :: "nat \<Rightarrow> nat \<Rightarrow> nat" where
  "SIZET_SAT_ADD a b = (if a < 2 ^ 64 - 1 - b then a + b else 2 ^ 64 - 1)"

definition OBJ_SZ_TO_BLOCKS_CHECKED :: "nat \<Rightarrow> nat" where
  "OBJ_SZ_TO_BLOCKS_CHECKED lb = divHBLKSZ (SIZET_SAT_ADD lb (HBLKSIZE - 1))"

definition PTRFREE :: nat where "PTRFREE = 0"

definition IS_UNCOLLECTABLE :: "nat \<Rightarrow> bool" where
  "IS_UNCOLLECTABLE k \<longleftrightarrow> k div 2 = 1"

section \<open>Setting up a header\<close>

text \<open>The number of objects in a block is computed by a division by the size, which faults for 0.\<close>

definition MAXOBJBYTES :: nat where "MAXOBJBYTES = HBLKSIZE div 2"
definition BYTES_TO_GRANULES :: "nat \<Rightarrow> nat" where "BYTES_TO_GRANULES n = n div 16"

definition FINAL_MARK_BIT :: "nat \<Rightarrow> nat" where
  "FINAL_MARK_BIT sz = (if sz > MAXOBJBYTES then HBLKSIZE div 16 else BYTES_TO_GRANULES (sz * (HBLKSIZE div sz)))"

definition GC_clear_hdr_marks :: "hdr \<Rightarrow> hdr" where
  "GC_clear_hdr_marks H = H\<lparr>hb_marks := (\<lambda>_. False)(FINAL_MARK_BIT (hb_sz H) := True), hb_n_marks := 0\<rparr>"

definition GC_add_map_entry :: "nat \<Rightarrow> gc \<Rightarrow> bool \<times> gc" where
  "GC_add_map_entry granules s =
     (let g = (if granules > BYTES_TO_GRANULES MAXOBJBYTES then 0 else granules) in
      if GC_obj_map s g \<noteq> 0 then (True, s)
      else
        (let (new_map, s1) = scratch_alloc s in
         if new_map = 0 then (False, s1)
         else (True, s1\<lparr>obj_maps := (obj_maps s1)(new_map \<mapsto>
                 (if g = 0 then replicate (BYTES_TO_GRANULES HBLKSIZE) 1
                  else map (\<lambda>displ. displ mod g) [0..<BYTES_TO_GRANULES HBLKSIZE])),
               GC_obj_map := (GC_obj_map s1)(g := new_map)\<rparr>)))"

definition setup_header :: "nat \<Rightarrow> nat \<Rightarrow> nat \<Rightarrow> nat \<Rightarrow> 8 word \<Rightarrow> gc \<Rightarrow> (bool \<times> gc) option" where
  "setup_header hhdr block byte_sz kind fl s = do {
     let fl1 = (if byte_sz > MAXOBJBYTES then fl OR LARGE_BLOCK else fl);
     let fl2 = (if ok_disclaim_proc s kind then fl1 OR HAS_DISCLAIM else fl1);
     let fl3 = (if ok_mark_unconditionally s kind then fl2 OR MARK_UNCONDITIONALLY else fl2);
     let descr = (if ok_relocate_descr s kind then ok_descriptor s kind + byte_sz else ok_descriptor s kind);
     s1 \<leftarrow> mod_hdr hhdr (\<lambda>H. H\<lparr>hb_sz := byte_sz, hb_obj_kind := kind mod 256, hb_flags := fl3, hb_block := block,
                                  hb_descr := descr\<rparr>) s;
     let granules = BYTES_TO_GRANULES byte_sz;
     let (r, s2) = GC_add_map_entry granules s1;
     if \<not> r then do {
       s3 \<leftarrow> mod_hdr hhdr (\<lambda>H. H\<lparr>hb_sz := HBLKSIZE, hb_descr := 0, hb_flags := hb_flags H OR LARGE_BLOCK, hb_map := 0\<rparr>) s2;
       Some (False, s3) }
     else if byte_sz = 0 then None
     else do {
       s3 \<leftarrow> mod_hdr hhdr (\<lambda>H. H\<lparr>hb_map := GC_obj_map s2 (if hb_flags H AND LARGE_BLOCK \<noteq> 0 then 0 else granules)\<rparr>) s2;
       s4 \<leftarrow> mod_hdr hhdr (\<lambda>H. (GC_clear_hdr_marks H)\<lparr>hb_last_reclaimed := GC_gc_no s2 mod 2 ^ 16\<rparr>) s3;
       Some (True, s4) } }"

section \<open>The free lists\<close>

definition GC_remove_from_fl_at :: "nat \<Rightarrow> nat \<Rightarrow> gc \<Rightarrow> gc option" where
  "GC_remove_from_fl_at hhdr index s = do {
     H \<leftarrow> hdrs s hhdr;
     s1 \<leftarrow> (if hb_prev H = 0 then Some (s\<lparr>GC_hblkfreelist := (GC_hblkfreelist s)(index := hb_next H)\<rparr>)
            else do { phdr \<leftarrow> hdr_of (hb_prev H) s; mod_hdr phdr (\<lambda>P. P\<lparr>hb_next := hb_next H\<rparr>) s });
     let s2 = s1\<lparr>GC_free_bytes := (GC_free_bytes s1)(index := GC_free_bytes s1 index - hb_sz H)\<rparr>;
     if hb_next H \<noteq> 0 then do { nhdr \<leftarrow> hdr_of (hb_next H) s2; mod_hdr nhdr (\<lambda>N. N\<lparr>hb_prev := hb_prev H\<rparr>) s2 }
     else Some s2 }"

definition GC_remove_from_fl :: "nat \<Rightarrow> gc \<Rightarrow> gc option" where
  "GC_remove_from_fl hhdr s = do {
     H \<leftarrow> hdrs s hhdr;
     GC_remove_from_fl_at hhdr (GC_hblk_fl_from_blocks (divHBLKSZ (hb_sz H))) s }"

partial_function (option) block_start :: "nat \<Rightarrow> gc \<Rightarrow> (nat \<times> entry) option" where
  "block_start p s = do {
     e \<leftarrow> HDR p s;
     case e of Fwd k \<Rightarrow> if k \<noteq> 0 then block_start (p - k) s else Some (p, e) | Hdr _ \<Rightarrow> Some (p, e) }"

definition GC_free_block_ending_at :: "nat \<Rightarrow> gc \<Rightarrow> nat option" where
  "GC_free_block_ending_at h s = do {
     (p, e) \<leftarrow> block_start (h - 1) s;
     case e of
       Hdr k \<Rightarrow> do { P \<leftarrow> hdrs s k; Some (if HBLK_IS_FREE P then p else 0) }
     | Fwd _ \<Rightarrow> do {
         q \<leftarrow> GC_prev_block (h - 1) s;
         if q \<noteq> 0 then do {
           k \<leftarrow> hdr_of q s;
           P \<leftarrow> hdrs s k;
           Some (if HBLK_IS_FREE P \<and> q * HBLKSIZE + hb_sz P = h * HBLKSIZE then q else 0) }
         else Some 0 } }"

definition GC_add_to_fl :: "nat \<Rightarrow> nat \<Rightarrow> gc \<Rightarrow> gc option" where
  "GC_add_to_fl h hhdr s = do {
     H \<leftarrow> hdrs s hhdr;
     let index = GC_hblk_fl_from_blocks (divHBLKSZ (hb_sz H));
     let second = GC_hblkfreelist s index;
     let s1 = s\<lparr>GC_hblkfreelist := (GC_hblkfreelist s)(index := h),
                GC_free_bytes := (GC_free_bytes s)(index := GC_free_bytes s index + hb_sz H)\<rparr>;
     s2 \<leftarrow> mod_hdr hhdr (\<lambda>H. H\<lparr>hb_next := second, hb_prev := 0\<rparr>) s1;
     s3 \<leftarrow> (if second \<noteq> 0 then do { k \<leftarrow> hdr_of second s2; mod_hdr k (\<lambda>S. S\<lparr>hb_prev := h\<rparr>) s2 } else Some s2);
     mod_hdr hhdr (\<lambda>H. H\<lparr>hb_flags := hb_flags H OR FREE_BLK\<rparr>) s3 }"

definition GC_get_first_part :: "nat \<Rightarrow> nat \<Rightarrow> nat \<Rightarrow> nat \<Rightarrow> gc \<Rightarrow> (nat \<times> gc) option" where
  "GC_get_first_part h hhdr bytes index s = do {
     H \<leftarrow> hdrs s hhdr;
     let total_size = hb_sz H;
     s1 \<leftarrow> GC_remove_from_fl_at hhdr index s;
     if total_size = bytes then Some (h, s1)
     else do {
       let rest = h + divHBLKSZ bytes;
       (rest_hdr, s2) \<leftarrow> GC_install_header rest s1;
       if rest_hdr = 0 then Some (0, s2)
       else do {
         s3 \<leftarrow> mod_hdr rest_hdr (\<lambda>R. R\<lparr>hb_sz := total_size - bytes, hb_flags := 0\<rparr>) s2;
         s4 \<leftarrow> GC_add_to_fl rest rest_hdr s3;
         Some (h, s4) } } }"

definition GC_split_block :: "nat \<Rightarrow> nat \<Rightarrow> nat \<Rightarrow> nat \<Rightarrow> nat \<Rightarrow> gc \<Rightarrow> gc option" where
  "GC_split_block h hhdr n nhdr index s = do {
     H \<leftarrow> hdrs s hhdr;
     let total_size = hb_sz H;
     let h_size = n * HBLKSIZE - h * HBLKSIZE;
     let prev = hb_prev H;
     let nxt = hb_next H;
     s1 \<leftarrow> mod_hdr nhdr (\<lambda>N. N\<lparr>hb_prev := prev, hb_next := nxt, hb_sz := total_size - h_size, hb_flags := 0\<rparr>) s;
     s2 \<leftarrow> (if prev \<noteq> 0 then do { k \<leftarrow> hdr_of prev s1; mod_hdr k (\<lambda>P. P\<lparr>hb_next := n\<rparr>) s1 }
            else Some (s1\<lparr>GC_hblkfreelist := (GC_hblkfreelist s1)(index := n)\<rparr>));
     s3 \<leftarrow> (if nxt \<noteq> 0 then do { k \<leftarrow> hdr_of nxt s2; mod_hdr k (\<lambda>N. N\<lparr>hb_prev := n\<rparr>) s2 } else Some s2);
     let s4 = s3\<lparr>GC_free_bytes := (GC_free_bytes s3)(index := GC_free_bytes s3 index - h_size)\<rparr>;
     s5 \<leftarrow> mod_hdr hhdr (\<lambda>H. H\<lparr>hb_sz := h_size\<rparr>) s4;
     s6 \<leftarrow> GC_add_to_fl h hhdr s5;
     mod_hdr nhdr (\<lambda>N. N\<lparr>hb_flags := hb_flags N OR FREE_BLK\<rparr>) s6 }"

section \<open>Allocating a block\<close>

lemma bl_loop_later: "bl_loop h n i x s = 0 \<or> h < bl_loop h n i x s"
proof (induction h n i x s rule: bl_loop.induct)
  case (1 h n i x s)
  then show ?case by (subst (1 2) bl_loop.simps) (auto simp: Let_def)
qed

lemma black_listed_later: "GC_is_black_listed h len s = 0 \<or> h < GC_is_black_listed h len s"
  using bl_loop_later by (simp add: GC_is_black_listed_def Let_def)

text \<open>The loop over the places where the object could start; \<open>search_end\<close> is an address.\<close>

function skip_black :: "nat \<Rightarrow> int \<Rightarrow> nat \<Rightarrow> gc \<Rightarrow> nat" where
  "skip_black lasthbp search_end eff s =
     (if int (lasthbp * HBLKSIZE) \<le> search_end \<and> GC_is_black_listed lasthbp eff s \<noteq> 0
      then skip_black (GC_is_black_listed lasthbp eff s) search_end eff s
      else lasthbp)"
  by pat_completeness auto

termination
proof (relation "measure (\<lambda>(h, e, n, s). nat (e + 1 - int (h * HBLKSIZE)))", goal_cases)
  case 1
  then show ?case by simp
next
  case (2 h e n s)
  then have "h < GC_is_black_listed h n s" using black_listed_later [of h n s] by simp
  then show ?case using 2 by simp
qed

declare skip_black.simps [simp del]

text \<open>A block that is black listed as a whole is dropped: each of its blocks becomes an object.\<close>

fun drop_blocks :: "nat list \<Rightarrow> nat \<Rightarrow> nat \<Rightarrow> gc \<Rightarrow> gc option" where
  "drop_blocks [] hbp hhdr s = Some s"
| "drop_blocks (h # hs) hbp hhdr s = do {
     (k, s1) \<leftarrow> (if h \<noteq> hbp then GC_install_header h s else Some (hhdr, s));
     if k \<noteq> 0 then do { (r, s2) \<leftarrow> setup_header k h HBLKSIZE PTRFREE 0 s1; drop_blocks hs hbp hhdr s2 }
     else drop_blocks hs hbp hhdr s1 }"

definition drop_block :: "nat \<Rightarrow> nat \<Rightarrow> nat \<Rightarrow> gc \<Rightarrow> gc option" where
  "drop_block hbp hhdr n s = do {
     H \<leftarrow> hdrs s hhdr;
     let total_size = hb_sz H;
     let s1 = s\<lparr>GC_large_free_bytes := GC_large_free_bytes s - total_size, GC_bytes_dropped := GC_bytes_dropped s + total_size\<rparr>;
     s2 \<leftarrow> GC_remove_from_fl_at hhdr n s1;
     drop_blocks [hbp..<hbp + divHBLKSZ total_size] hbp hhdr s2 }"

text \<open>
  What becomes of a block that is large enough: a part of it is used (the block, its header and the
  size that is left), or the search goes on with another block, or from the start of the list.
\<close>

datatype choice = Use nat nat int | Next nat | Restart

definition choose_part :: "nat \<Rightarrow> nat \<Rightarrow> 8 word \<Rightarrow> nat \<Rightarrow> nat \<Rightarrow> nat \<Rightarrow> gc \<Rightarrow> (choice \<times> gc) option" where
  "choose_part size_needed kind fl n hbp hhdr s = do {
     H \<leftarrow> hdrs s hhdr;
     let size_avail = int (hb_sz H);
     if \<not> IS_UNCOLLECTABLE kind \<and> (kind \<noteq> PTRFREE \<or> size_needed > MAX_BLACK_LIST_ALLOC)
     then do {
       let search_end = int (hbp * HBLKSIZE) + size_avail - int size_needed;
       let eff = (if fl AND IGNORE_OFF_PAGE \<noteq> 0 then HBLKSIZE else size_needed);
       let lasthbp = skip_black hbp search_end eff s;
       let avail = size_avail - int (lasthbp * HBLKSIZE - hbp * HBLKSIZE);
       if avail \<ge> int size_needed then
         (if lasthbp \<noteq> hbp then do {
            (thishdr, s1) \<leftarrow> GC_install_header lasthbp s;
            if thishdr \<noteq> 0
            then do { s2 \<leftarrow> GC_split_block hbp hhdr lasthbp thishdr n s1; Some (Use lasthbp thishdr avail, s2) }
            else Some (Use hbp hhdr avail, s1) }
          else Some (Use hbp hhdr avail, s))
       else if size_needed > GC_black_list_spacing s \<and> size_avail - int size_needed > int (GC_black_list_spacing s)
       then (let w = GC_large_alloc_warn_suppressed s + 1;
                 w1 = (if w \<ge> GC_large_alloc_warn_interval s then 0 else w)
             in Some (Use hbp hhdr size_avail, s\<lparr>GC_large_alloc_warn_suppressed := w1\<rparr>))
       else if avail = 0 \<and> size_needed = HBLKSIZE \<and> \<not> GC_find_leak s then do {
         let count = (drop_count s + 1) mod 2 ^ 32;
         let s1 = s\<lparr>drop_count := count\<rparr>;
         if count mod 4 = 0 then do {
           s2 \<leftarrow> drop_block hbp hhdr n s1;
           if hb_prev H = 0 then Some (Restart, s2)
           else do { k \<leftarrow> hdr_of (hb_prev H) s2; P \<leftarrow> hdrs s2 k; Some (Next (hb_next P), s2) } }
         else Some (Next (hb_next H), s1) }
       else Some (Next (hb_next H), s) }
     else Some (Use hbp hhdr size_avail, s) }"

text \<open>The search of the list \<open>n\<close>: the block that was taken and its header, 0 for none.\<close>

partial_function (option) search_list ::
    "nat \<Rightarrow> nat \<Rightarrow> 8 word \<Rightarrow> nat \<Rightarrow> bool \<Rightarrow> nat \<Rightarrow> gc \<Rightarrow> (nat \<times> nat \<times> gc) option" where
  "search_list size_needed kind fl n may_split hbp s =
     (if hbp = 0 then Some (0, 0, s)
      else do {
        hhdr \<leftarrow> hdr_of hbp s;
        H \<leftarrow> hdrs s hhdr;
        if hb_sz H < size_needed then search_list size_needed kind fl n may_split (hb_next H) s
        else do {
          go_on \<leftarrow> (if hb_sz H = size_needed then Some False
                    else if \<not> may_split then Some True
                    else if hb_next H = 0 then Some False
                    else do {
                      k \<leftarrow> hdr_of (hb_next H) s;
                      N \<leftarrow> hdrs s k;
                      Some (hb_sz N < hb_sz H \<and> hb_sz N \<ge> size_needed \<and> GC_is_black_listed (hb_next H) size_needed s = 0) });
          if go_on then search_list size_needed kind fl n may_split (hb_next H) s
          else do {
            (c, s1) \<leftarrow> choose_part size_needed kind fl n hbp hhdr s;
            case c of
              Use h k avail \<Rightarrow>
                if avail \<ge> int size_needed then do { (r, s2) \<leftarrow> GC_get_first_part h k size_needed n s1; Some (r, k, s2) }
                else do { K \<leftarrow> hdrs s1 k; search_list size_needed kind fl n may_split (hb_next K) s1 }
            | Next h \<Rightarrow> search_list size_needed kind fl n may_split h s1
            | Restart \<Rightarrow> search_list size_needed kind fl n may_split (GC_hblkfreelist s1 n) s1 } } })"

definition GC_allochblk_nth :: "nat \<Rightarrow> nat \<Rightarrow> 8 word \<Rightarrow> nat \<Rightarrow> bool \<Rightarrow> gc \<Rightarrow> (nat \<times> gc) option" where
  "GC_allochblk_nth sz kind fl n may_split s = do {
     let size_needed = HBLKSIZE * OBJ_SZ_TO_BLOCKS_CHECKED sz;
     (hbp, hhdr, s1) \<leftarrow> search_list size_needed kind fl n may_split (GC_hblkfreelist s n) s;
     if hbp = 0 then Some (0, s1)
     else do {
       (r, s2) \<leftarrow> GC_install_counts hbp size_needed s1;
       if \<not> r then Some (0, s2)
       else do {
         (q, s3) \<leftarrow> setup_header hhdr hbp sz kind fl s2;
         if \<not> q then do { s4 \<leftarrow> GC_remove_counts hbp size_needed s3; Some (0, s4) }
         else Some (hbp, s3\<lparr>GC_fail_count := 0, GC_large_free_bytes := GC_large_free_bytes s3 - size_needed\<rparr>) } } }"

fun try_lists :: "nat list \<Rightarrow> nat \<Rightarrow> nat \<Rightarrow> 8 word \<Rightarrow> gc \<Rightarrow> (nat \<times> gc) option" where
  "try_lists [] sz kind fl s = Some (0, s)"
| "try_lists (n # ns) sz kind fl s = do {
     (r, s1) \<leftarrow> GC_allochblk_nth sz kind fl n True s;
     if r \<noteq> 0 then Some (r, s1) else try_lists ns sz kind fl s1 }"

definition GC_allochblk :: "(gc \<Rightarrow> bool) \<Rightarrow> nat \<Rightarrow> nat \<Rightarrow> 8 word \<Rightarrow> gc \<Rightarrow> (nat \<times> gc) option" where
  "GC_allochblk should_collect sz kind fl s = do {
     let blocks = OBJ_SZ_TO_BLOCKS_CHECKED sz;
     if blocks * HBLKSIZE \<ge> 2 ^ 63 then Some (0, s)
     else do {
       let start_list = GC_hblk_fl_from_blocks blocks;
       (r, s1) \<leftarrow> GC_allochblk_nth sz kind fl start_list False s;
       if r \<noteq> 0 then Some (r, s1)
       else do {
         let split_limit =
           (if GC_use_entire_heap s1 \<or> GC_dont_gc s1 \<or> GC_heapsize s1 - GC_large_free_bytes s1 < GC_requested_heapsize s1
               \<or> \<not> should_collect s1 then N_HBLK_FLS
            else if GC_finalizer_bytes_freed s1 > GC_heapsize s1 div 16 then 0
            else GC_enough_large_bytes_left s1);
         let first = (if start_list < UNIQUE_THRESHOLD then start_list + 1 else start_list);
         try_lists [first..<split_limit + 1] sz kind fl s1 } } }"

section \<open>Freeing a block\<close>

text \<open>A second deallocation of the same block and one of an excessive size abort.\<close>

definition GC_freehblk :: "nat \<Rightarrow> gc \<Rightarrow> gc option" where
  "GC_freehblk hbp s = do {
     hhdr \<leftarrow> hdr_of hbp s;
     H \<leftarrow> hdrs s hhdr;
     let size = HBLKSIZE * OBJ_SZ_TO_BLOCKS (hb_sz H);
     if size = 0 \<or> size \<ge> 2 ^ 63 then None
     else do {
       s1 \<leftarrow> GC_remove_counts hbp size s;
       s2 \<leftarrow> mod_hdr hhdr (\<lambda>H. H\<lparr>hb_sz := size\<rparr>) s1;
       if HBLK_IS_FREE H then None
       else do {
         s3 \<leftarrow> mod_hdr hhdr (\<lambda>H. H\<lparr>hb_flags := hb_flags H OR FREE_BLK\<rparr>) s2;
         let nxt = hbp + divHBLKSZ size;
         nexthdr \<leftarrow> HDR nxt s3;
         prev \<leftarrow> GC_free_block_ending_at hbp s3;
         s4 \<leftarrow> (case nexthdr of
             Fwd k \<Rightarrow> if k = 0 then Some s3 else None
           | Hdr k \<Rightarrow> do {
               N \<leftarrow> hdrs s3 k;
               if HBLK_IS_FREE N \<and> size + hb_sz N < 2 ^ 63 then do {
                 t1 \<leftarrow> GC_remove_from_fl k s3;
                 t2 \<leftarrow> mod_hdr hhdr (\<lambda>H. H\<lparr>hb_sz := hb_sz H + hb_sz N\<rparr>) t1;
                 GC_remove_header nxt t2 }
               else Some s3 });
         K \<leftarrow> hdrs s4 hhdr;
         (h, k, s5) \<leftarrow> (if prev \<noteq> 0 then do {
             prevhdr \<leftarrow> hdr_of prev s4;
             P \<leftarrow> hdrs s4 prevhdr;
             if hb_sz K + hb_sz P < 2 ^ 63 then do {
               t1 \<leftarrow> GC_remove_from_fl prevhdr s4;
               t2 \<leftarrow> mod_hdr prevhdr (\<lambda>P. P\<lparr>hb_sz := hb_sz P + hb_sz K\<rparr>) t1;
               t3 \<leftarrow> GC_remove_header hbp t2;
               Some (prev, prevhdr, t3) }
             else Some (hbp, hhdr, s4) }
           else Some (hbp, hhdr, s4));
         let s6 = s5\<lparr>GC_large_free_bytes := GC_large_free_bytes s5 + size\<rparr>;
         GC_add_to_fl h k s6 } } }"

declare skip_black.simps [simp del]

section \<open>Adding to the heap\<close>

text \<open>
  \<open>GC_add_to_heap\<close> of \<open>alloc.c\<close>: \<open>bytes\<close> from the block \<open>p\<close> on become a free block. The blocks near
  address 0 and the last block of the address space are left out; too many sections abort.
\<close>

definition MAX_HEAP_SECTS :: nat where "MAX_HEAP_SECTS = 1024"

function low_blocks :: "nat \<Rightarrow> nat \<Rightarrow> (nat \<times> nat) option" where
  "low_blocks p bytes =
     (if p * HBLKSIZE \<le> HBLKSIZE then
        (let b = (bytes + 2 ^ 64 - HBLKSIZE) mod 2 ^ 64 in if b = 0 then None else low_blocks (p + 1) b)
      else Some (p, bytes))"
  by pat_completeness auto

termination
  by (relation "measure (\<lambda>(p, _). 2 - p)") auto

declare low_blocks.simps [simp del]

definition wrapped_end :: "nat \<Rightarrow> nat \<Rightarrow> nat \<times> nat" where
  "wrapped_end p bytes =
     (let endp = (p * HBLKSIZE + bytes) mod 2 ^ 64 in
      if endp \<le> p * HBLKSIZE then ((bytes + 2 ^ 64 - HBLKSIZE) mod 2 ^ 64, (endp + 2 ^ 64 - HBLKSIZE) mod 2 ^ 64) else (bytes, endp))"

definition GC_add_to_heap :: "nat \<Rightarrow> nat \<Rightarrow> gc \<Rightarrow> gc option" where
  "GC_add_to_heap p0 bytes0 s =
     (if length (GC_heap_sects s) \<ge> MAX_HEAP_SECTS then None
      else case low_blocks p0 bytes0 of
        None \<Rightarrow> Some s
      | Some (p, bytes1) \<Rightarrow>
         (let (bytes, endp) = wrapped_end p bytes1 in
          if bytes = 0 then Some s
          else do {
            (phdr, s1) \<leftarrow> GC_install_header p s;
            if phdr = 0 then Some s1
            else do {
              let s2 = s1\<lparr>GC_heap_sects := GC_heap_sects s1 @ [(p * HBLKSIZE, bytes)]\<rparr>;
              s3 \<leftarrow> mod_hdr phdr (\<lambda>H. H\<lparr>hb_sz := bytes, hb_flags := 0\<rparr>) s2;
              s4 \<leftarrow> GC_freehblk p s3;
              let heapsize = (GC_heapsize s4 + bytes) mod 2 ^ 64;
              let at = (GC_collect_at_heapsize s4 + bytes) mod 2 ^ 64;
              let s5 = s4\<lparr>GC_heapsize := heapsize, GC_collect_at_heapsize := (if at < heapsize then 2 ^ 64 - 1 else at)\<rparr>;
              let s6 = (if p * HBLKSIZE \<le> GC_least_plausible_heap_addr s5 \<or> GC_least_plausible_heap_addr s5 = 0
                        then s5\<lparr>GC_least_plausible_heap_addr := p * HBLKSIZE - 8\<rparr> else s5);
              Some (if (p * HBLKSIZE + bytes) mod 2 ^ 64 \<ge> GC_greatest_plausible_heap_addr s6
                    then s6\<lparr>GC_greatest_plausible_heap_addr := endp\<rparr> else s6) } }))"

section \<open>The variables before the collector is initialised\<close>

text \<open>The black lists, which \<open>GC_bl_init\<close> allocates, are there and empty.\<close>

definition MINHINCR :: nat where "MINHINCR = 16"

definition gc_variables :: "(nat \<Rightarrow> hdr option) \<Rightarrow> gc" where
  "gc_variables mem = \<lparr>GC_top_index = (\<lambda>_. 0), GC_all_nils = 0, bottoms = (\<lambda>_. None), GC_all_bottom_indices = 0,
     GC_all_bottom_indices_end = 0, hdrs = (\<lambda>_. None), hdr_free_list = 0, scratch = mem, next_scratch = 1,
     GC_hblkfreelist = (\<lambda>_. 0), GC_free_bytes = (\<lambda>_. 0), GC_large_free_bytes = 0, GC_large_allocd_bytes = 0,
     GC_max_large_allocd_bytes = 0, GC_heapsize = 0, GC_requested_heapsize = 0, GC_finalizer_bytes_freed = 0,
     GC_bytes_dropped = 0, GC_fail_count = 0, GC_gc_no = 0, GC_large_alloc_warn_suppressed = 0,
     GC_large_alloc_warn_interval = 5, drop_count = 0, GC_black_list_spacing = MINHINCR * HBLKSIZE,
     GC_all_interior_pointers = True, GC_find_leak = False, GC_dont_gc = False, GC_use_entire_heap = False,
     GC_obj_map = (\<lambda>_. 0), obj_maps = (\<lambda>_. None), ok_descriptor = (\<lambda>_. 0), ok_relocate_descr = (\<lambda>k. k = 1 \<or> k = 2),
     ok_disclaim_proc = (\<lambda>_. False), ok_mark_unconditionally = (\<lambda>_. False), GC_old_stack_bl = (\<lambda>_. 0),
     GC_incomplete_stack_bl = (\<lambda>_. 0), GC_old_normal_bl = (\<lambda>_. 0), GC_incomplete_normal_bl = (\<lambda>_. 0),
     GC_total_stack_black_listed = 0, GC_modws_valid_offsets = (\<lambda>_. False), GC_heap_sects = [],
     GC_collect_at_heapsize = 2 ^ 64 - 1, GC_least_plausible_heap_addr = 2 ^ 64 - 1, GC_greatest_plausible_heap_addr = 0\<rparr>"

end
