(* ===== verification/GcLists.thy ===== *)
theory GcLists
  imports GcBlocks
begin

text \<open>
  What the allocator of heap blocks maintains. \<open>hm\<close> is the header of a block; the free lists are
  lists of blocks; \<open>hm0\<close> is the header without its links, which is all that the layout depends on.
\<close>

section \<open>The header of a block\<close>

definition hm :: "gc \<Rightarrow> nat \<Rightarrow> hdr option" where
  "hm s p = (case ent s p of Hdr h \<Rightarrow> hdrs s h | Fwd _ \<Rightarrow> None)"

definition no_links :: "hdr \<Rightarrow> hdr" where
  "no_links H = H\<lparr>hb_next := 0, hb_prev := 0\<rparr>"

definition hm0 :: "gc \<Rightarrow> nat \<Rightarrow> hdr option" where
  "hm0 s p = map_option no_links (hm s p)"

definition idx_to :: "gc \<Rightarrow> gc \<Rightarrow> bool" where
  "idx_to s t \<longleftrightarrow> index_inv t \<and> (\<forall>p. indexed s p \<longrightarrow> indexed t p)"

lemma idx_toD: "idx_to s t \<Longrightarrow> index_inv t" "idx_to s t \<Longrightarrow> indexed s p \<Longrightarrow> indexed t p"
  by (simp_all add: idx_to_def)

lemma idx_to_trans [trans]: "idx_to s t \<Longrightarrow> idx_to t u \<Longrightarrow> idx_to s u"
  by (simp add: idx_to_def)

lemma index_step_to: "index_step s t \<Longrightarrow> idx_to s t"
  by (simp add: idx_to_def index_step_def)

lemma hm_hdr: "index_inv s \<Longrightarrow> hm s p = Some H \<Longrightarrow> \<exists>k. ent s p = Hdr k \<and> hdrs s k = Some H"
  by (auto simp: hm_def split: entry.splits)

lemma ent_hm: "index_inv s \<Longrightarrow> ent s p = Hdr k \<Longrightarrow> \<exists>H. hm s p = Some H \<and> hdrs s k = Some H"
  using index_inv_ent(3) [of s p k] by (auto simp: hm_def)

lemma hm_iff: "hm s p = Some H \<longleftrightarrow> hdr_at s p H"
  by (auto simp: hm_def hdr_at_def split: entry.splits)

lemma hdr_of_ent: "index_inv s \<Longrightarrow> ent s p = Hdr k \<Longrightarrow> hdr_of p s = Some k"
  using index_inv_ent(1) [of s p] by (simp add: hdr_of_def)

lemma hdr_of_hm: "index_inv s \<Longrightarrow> hm s p = Some H \<Longrightarrow> \<exists>k. hdr_of p s = Some k \<and> ent s p = Hdr k \<and> hdrs s k = Some H"
  using hm_hdr [of s p H] hdr_of_ent [of s p] by blast

text \<open>Updates of fields that neither the index nor the headers use.\<close>

lemma idx_frame:
  assumes "index_inv s" and "bottoms t = bottoms s" "GC_all_nils t = GC_all_nils s" "GC_top_index t = GC_top_index s"
    "GC_all_bottom_indices t = GC_all_bottom_indices s" "GC_all_bottom_indices_end t = GC_all_bottom_indices_end s"
    "next_scratch s \<le> next_scratch t" "hdrs t = hdrs s" "hdr_free_list t = hdr_free_list s"
  shows "idx_to s t" "ent t = ent s" "hm t = hm s" "hm0 t = hm0 s"
proof -
  obtain L F where i: "idx_ok L s" "hdr_ok F s" using assms(1) by (rule index_invE)
  have st: "same_index s t" using assms by (simp add: same_index_def)
  note si = same_index [OF st i(1)]
  have "hdr_ok F t" by (rule hdr_ok_frame [OF i(2)]) (use assms si in auto)
  then show "idx_to s t" using si by (auto simp: idx_to_def index_inv_def)
  show "ent t = ent s" by (rule si(2))
  show "hm t = hm s" unfolding hm_def si(2) assms(8) by (rule refl)
  then show "hm0 t = hm0 s" by (simp add: hm0_def fun_eq_iff)
qed

lemma mod_hdr_spec:
  assumes i: "index_inv s" and k: "ent s p = Hdr k" and H: "hm s p = Some H"
  shows "\<exists>t. mod_hdr k f s = Some t \<and> idx_to s t \<and> ent t = ent s \<and> hm t = (hm s)(p \<mapsto> f H) \<and> base t = base s"
proof -
  obtain L F where lf: "idx_ok L s" "hdr_ok F s" using i by (rule index_invE)
  have Hk: "hdrs s k = Some H" using H k by (simp add: hm_def)
  let ?t = "s\<lparr>hdrs := (hdrs s)(k \<mapsto> f H)\<rparr>"
  have st: "same_index s ?t" by (simp add: same_index_def)
  note si = same_index [OF st lf(1)]
  note d = hdr_okD [OF lf(2) k]
  have l: "hdr_links ?t (hdr_free_list s) F" using lf(2) d(1) hdr_links_cong [of F ?t s] by (fastforce simp: hdr_ok_def)
  have "hdr_ok F ?t"
  proof (rule hdr_okI)
    show "hdr_links ?t (hdr_free_list ?t) F" using l by simp
    show "distinct F" "\<forall>h \<in> set F. h < next_scratch ?t" using lf(2) by (simp_all add: hdr_ok_def)
    show "h \<notin> set F \<and> hdrs ?t h \<noteq> None \<and> h \<noteq> 0 \<and> h < next_scratch ?t" if "ent ?t q = Hdr h" for q h
      using hdr_okD(1-4) [OF lf(2), of q h] that si(2) by auto
    show "q = r" if "ent ?t q = Hdr h" "ent ?t r = Hdr h" for q r h
      using hdr_okD(5) [OF lf(2), of r h q] that si(2) by simp
  qed
  then have "idx_to s ?t" using si by (auto simp: idx_to_def index_inv_def)
  moreover have "hm ?t = (hm s)(p \<mapsto> f H)"
  proof
    fix q
    show "hm ?t q = ((hm s)(p \<mapsto> f H)) q"
    proof (cases "q = p")
      case True
      then show ?thesis unfolding hm_def si(2) using k by simp
    next
      case False
      then have "ent s q \<noteq> Hdr k" using d(5) by blast
      then show ?thesis unfolding hm_def si(2) using False by (cases "ent s q") simp_all
    qed
  qed
  moreover have "base ?t = base s" by (simp add: base_def upper_def)
  moreover have "mod_hdr k f s = Some ?t" using Hk by (simp add: mod_hdr_def)
  ultimately show ?thesis using si(2) by blast
qed

lemma hm_step:
  assumes "hdrs t = hdrs s" and "ent t = (\<lambda>p. if P p then Fwd (f p) else ent s p)"
  shows "hm t = (\<lambda>p. if P p then None else hm s p)"
  unfolding hm_def assms by (rule ext) simp

lemma install_header_hm:
  assumes i: "index_inv s" and n: "never_fails s"
  shows "\<exists>r t J. GC_install_header h s = Some (r, t) \<and> r \<noteq> 0 \<and> idx_to s t \<and> base t = base s \<and> never_fails t
    \<and> ent t = (ent s)(h := Hdr r) \<and> hm t = (hm s)(h \<mapsto> J)"
proof -
  obtain r t where t: "GC_install_header h s = Some (r, t)" "index_step s t" "never_fails s \<longrightarrow> r \<noteq> 0"
    "r = 0 \<longrightarrow> ent t = ent s \<and> hdrs t = hdrs s" "r \<noteq> 0 \<longrightarrow> ent t = (ent s)(h := Hdr r) \<and> (\<forall>p. ent s p \<noteq> Hdr r) \<and> (\<exists>H. hdrs t = (hdrs s)(r \<mapsto> H))"
    using install_header_spec [OF i, of h] by (elim exE conjE) (rule that)
  have r0: "r \<noteq> 0" using t(3) n by simp
  note tr = mp [OF t(5) r0]
  obtain J where J: "ent t = (ent s)(h := Hdr r)" "\<forall>p. ent s p \<noteq> Hdr r" "hdrs t = (hdrs s)(r \<mapsto> J)"
    using tr by (elim exE conjE) (rule that)
  have "hm t = (hm s)(h \<mapsto> J)"
  proof
    show "hm t q = ((hm s)(h \<mapsto> J)) q" for q
      unfolding hm_def J(1,3) using J(2) by (cases "ent s q") auto
  qed
  moreover have "never_fails t" using n index_stepD(4) [OF t(2)] by simp
  moreover note r0
  ultimately show ?thesis using t(1) J(1) index_stepD(2) [OF t(2)] index_step_to [OF t(2)] by blast
qed

lemma remove_header_hm:
  assumes i: "index_inv s" and k: "ent s h = Hdr k"
  shows "\<exists>t. GC_remove_header h s = Some t \<and> idx_to s t \<and> base t = base s \<and> ent t = (ent s)(h := Fwd 0) \<and> hm t = (hm s)(h := None)"
proof -
  obtain t H where t: "GC_remove_header h s = Some t" "index_step s t" "ent t = (ent s)(h := Fwd 0)" "hdrs t = (hdrs s)(k \<mapsto> H)"
    using remove_header_spec [OF i k] by blast
  have "hm t = (hm s)(h := None)"
  proof
    fix q
    show "hm t q = ((hm s)(h := None)) q"
    proof (cases "q = h")
      case True
      then show ?thesis unfolding hm_def t(3) by simp
    next
      case False
      then have "ent s q \<noteq> Hdr k" using index_inv_ent(5) [OF i k] by blast
      then show ?thesis unfolding hm_def t(3,4) using False by (cases "ent s q") simp_all
    qed
  qed
  then show ?thesis using t(1,3) index_stepD(2) [OF t(2)] index_step_to [OF t(2)] by blast
qed

section \<open>Doubly linked lists\<close>

definition hd_or :: "nat list \<Rightarrow> nat \<Rightarrow> nat" where
  "hd_or xs n = (case xs of [] \<Rightarrow> n | x # _ \<Rightarrow> x)"

definition last_or :: "nat \<Rightarrow> nat list \<Rightarrow> nat" where
  "last_or p xs = (if xs = [] then p else last xs)"

lemma hd_or_simps [simp]: "hd_or [] n = n" "hd_or (x # xs) n = x"
  by (simp_all add: hd_or_def)

lemma last_or_simps [simp]: "last_or p [] = p" "last_or p (x # xs) = last_or x xs" "last_or p (xs @ [y]) = y"
  by (simp_all add: last_or_def)

text \<open>The blocks \<open>xs\<close> are linked in both directions, between \<open>prev\<close> and \<open>nxt\<close>.\<close>

fun dseg :: "(nat \<Rightarrow> hdr option) \<Rightarrow> nat \<Rightarrow> nat list \<Rightarrow> nat \<Rightarrow> bool" where
  "dseg M prev [] nxt \<longleftrightarrow> True"
| "dseg M prev (x # xs) nxt \<longleftrightarrow> (\<exists>H. M x = Some H \<and> hb_prev H = prev \<and> hb_next H = hd_or xs nxt) \<and> dseg M x xs nxt"

lemma dseg_append: "dseg M prev (xs @ ys) nxt \<longleftrightarrow> dseg M prev xs (hd_or ys nxt) \<and> dseg M (last_or prev xs) ys nxt"
  by (induction xs arbitrary: prev) (auto simp: hd_or_def split: list.splits)

lemma dseg_cong: "(\<And>x. x \<in> set xs \<Longrightarrow> M x = N x) \<Longrightarrow> dseg M prev xs nxt = dseg N prev xs nxt"
  by (induction xs arbitrary: prev) auto

lemma dseg_upd [simp]: "p \<notin> set xs \<Longrightarrow> dseg (M(p := v)) prev xs nxt = dseg M prev xs nxt"
  by (rule dseg_cong) auto

lemma dseg_next:
  assumes "dseg M prev (xs @ [y]) nxt" and "y \<notin> set xs" and "M y = Some Y"
  shows "dseg (M(y \<mapsto> Y\<lparr>hb_next := m\<rparr>)) prev (xs @ [y]) m"
  using assms by (auto simp: dseg_append)

lemma dseg_prev:
  assumes "dseg M prev (y # ys) nxt" and "y \<notin> set ys" and "M y = Some Y"
  shows "dseg (M(y \<mapsto> Y\<lparr>hb_prev := m\<rparr>)) m (y # ys) nxt"
  using assms by auto

lemma dseg_some: "dseg M prev xs nxt \<Longrightarrow> x \<in> set xs \<Longrightarrow> M x \<noteq> None"
  by (induction xs arbitrary: prev) auto

lemma dseg_at: "dseg M prev (xs @ x # ys) nxt \<Longrightarrow> \<exists>H. M x = Some H \<and> hb_prev H = last_or prev xs \<and> hb_next H = hd_or ys nxt"
  by (simp add: dseg_append)

lemma last_or_in: "last_or 0 xs \<noteq> 0 \<Longrightarrow> last_or 0 xs \<in> set xs"
  by (auto simp: last_or_def split: if_splits)

lemma hd_or_in: "hd_or xs 0 \<noteq> 0 \<Longrightarrow> hd_or xs 0 \<in> set xs"
  by (cases xs) auto

text \<open>The blocks around a gap are linked to \<open>c\<close> and \<open>d\<close>.\<close>

definition set_next :: "nat \<Rightarrow> nat \<Rightarrow> (nat \<Rightarrow> hdr option) \<Rightarrow> (nat \<Rightarrow> hdr option)" where
  "set_next a c M = (if a = 0 then M else M(a := map_option (\<lambda>H. H\<lparr>hb_next := c\<rparr>) (M a)))"

definition set_prev :: "nat \<Rightarrow> nat \<Rightarrow> (nat \<Rightarrow> hdr option) \<Rightarrow> (nat \<Rightarrow> hdr option)" where
  "set_prev b d M = (if b = 0 then M else M(b := map_option (\<lambda>H. H\<lparr>hb_prev := d\<rparr>) (M b)))"

lemma set_next_other [simp]: "q \<noteq> a \<Longrightarrow> set_next a c M q = M q" and set_prev_other [simp]: "q \<noteq> b \<Longrightarrow> set_prev b d M q = M q"
  by (simp_all add: set_next_def set_prev_def)

lemma set_next_links [simp]: "map_option no_links (set_next a c M q) = map_option no_links (M q)"
  and set_prev_links [simp]: "map_option no_links (set_prev b d M q) = map_option no_links (M q)"
  by (cases "M q"; auto simp: set_next_def set_prev_def no_links_def)+

lemma gap_dseg:
  fixes c d :: nat
  assumes "dseg M 0 xs p" and "dseg M q ys 0" and "distinct (xs @ ys)" and "0 \<notin> set (xs @ ys)"
  defines "N \<equiv> set_prev (hd_or ys 0) d (set_next (last_or 0 xs) c M)"
  shows "dseg N 0 xs c" "dseg N d ys 0"
proof -
  let ?a = "last_or 0 xs" and ?b = "hd_or ys 0"
  show "dseg N 0 xs c"
  proof (cases xs rule: rev_cases)
    case Nil
    then show ?thesis by simp
  next
    case (snoc zs z)
    have b: "?b \<notin> set xs" using assms(3,4) snoc by (cases ys) auto
    have "dseg N 0 zs z = dseg M 0 zs z"
    proof (rule dseg_cong)
      fix x assume x: "x \<in> set zs"
      then have "x \<noteq> ?b" "x \<noteq> ?a" using assms(3) snoc b by auto
      then show "N x = M x" by (simp add: N_def)
    qed
    moreover have "z \<noteq> 0" "z \<noteq> ?b" using assms(4) b snoc by auto
    ultimately show ?thesis using assms(1) snoc by (auto simp: dseg_append N_def set_next_def)
  qed
  show "dseg N d ys 0"
  proof (cases ys)
    case Nil
    then show ?thesis by simp
  next
    case (Cons z zs)
    have a: "?a \<notin> set ys" using assms(3,4) Cons by (auto simp: last_or_def dest: last_in_set)
    have "dseg N z zs 0 = dseg M z zs 0"
    proof (rule dseg_cong)
      fix x assume x: "x \<in> set zs"
      then have "x \<noteq> ?b" "x \<noteq> ?a" using assms(3) Cons a by auto
      then show "N x = M x" by (simp add: N_def)
    qed
    moreover have "z \<noteq> 0" "z \<noteq> ?a" using assms(4) a Cons by auto
    ultimately show ?thesis using assms(2) Cons by (auto simp: N_def set_prev_def)
  qed
qed

section \<open>The rest of the state\<close>

definition cfg where
  "cfg s = (scratch s, GC_old_stack_bl s, GC_incomplete_stack_bl s, GC_all_interior_pointers s, GC_black_list_spacing s,
     GC_old_normal_bl s, GC_incomplete_normal_bl s)"

lemma cfgD:
  assumes "cfg t = cfg s"
  shows "scratch t = scratch s" "GC_old_stack_bl t = GC_old_stack_bl s" "GC_incomplete_stack_bl t = GC_incomplete_stack_bl s"
    "GC_all_interior_pointers t = GC_all_interior_pointers s" "GC_black_list_spacing t = GC_black_list_spacing s"
    "never_fails t = never_fails s" "GC_old_normal_bl t = GC_old_normal_bl s" "GC_incomplete_normal_bl t = GC_incomplete_normal_bl s"
  using assms by (simp_all add: cfg_def never_fails_def)

lemma baseD:
  assumes "base t = base s"
  shows "cfg t = cfg s" "GC_large_free_bytes t = GC_large_free_bytes s" "GC_hblkfreelist t = GC_hblkfreelist s"
    "GC_free_bytes t = GC_free_bytes s"
proof -
  show "cfg t = cfg s" using arg_cong [OF assms, of cfg] by (simp add: base_def upper_def cfg_def)
  show "GC_large_free_bytes t = GC_large_free_bytes s" using arg_cong [OF assms, of GC_large_free_bytes] by (simp add: base_def upper_def)
  show "GC_hblkfreelist t = GC_hblkfreelist s" using arg_cong [OF assms, of GC_hblkfreelist] by (simp add: base_def upper_def)
  show "GC_free_bytes t = GC_free_bytes s" using arg_cong [OF assms, of GC_free_bytes] by (simp add: base_def upper_def)
qed

lemma cfg_upd [simp]:
  "cfg (s\<lparr>GC_hblkfreelist := x\<rparr>) = cfg s" "cfg (s\<lparr>GC_free_bytes := y\<rparr>) = cfg s" "cfg (s\<lparr>GC_large_free_bytes := z\<rparr>) = cfg s"
  by (simp_all add: cfg_def)

section \<open>The free lists\<close>

definition list_sum :: "(nat \<Rightarrow> hdr option) \<Rightarrow> nat list \<Rightarrow> nat" where
  "list_sum M xs = sum_list (map (\<lambda>p. hb_sz (the (M p))) xs)"

lemma list_sum_simps [simp]: "list_sum M [] = 0" "list_sum M (x # xs) = hb_sz (the (M x)) + list_sum M xs"
  "list_sum M (xs @ ys) = list_sum M xs + list_sum M ys"
  by (simp_all add: list_sum_def)

lemma list_sum_cong: "(\<And>x. x \<in> set xs \<Longrightarrow> hb_sz (the (M x)) = hb_sz (the (N x))) \<Longrightarrow> list_sum M xs = list_sum N xs"
  by (induction xs) auto

lemma no_links_sz: "map_option no_links x = map_option no_links y \<Longrightarrow> hb_sz (the x) = hb_sz (the y)"
  by (cases x; cases y) (auto simp: no_links_def dest: arg_cong [of _ _ hb_sz])

definition list_ok :: "(nat \<Rightarrow> hdr option) \<Rightarrow> nat list \<Rightarrow> nat \<Rightarrow> nat \<Rightarrow> bool" where
  "list_ok M xs first bytes \<longleftrightarrow> dseg M 0 xs 0 \<and> first = hd_or xs 0 \<and> distinct xs \<and> 0 \<notin> set xs \<and> bytes = list_sum M xs"

text \<open>\<open>L n\<close> is the free list \<open>n\<close>.\<close>

definition lists_ok :: "(nat \<Rightarrow> nat list) \<Rightarrow> gc \<Rightarrow> bool" where
  "lists_ok L s \<longleftrightarrow> (\<forall>n \<le> N_HBLK_FLS. list_ok (hm s) (L n) (GC_hblkfreelist s n) (GC_free_bytes s n))
     \<and> (\<forall>m \<le> N_HBLK_FLS. \<forall>n \<le> N_HBLK_FLS. m \<noteq> n \<longrightarrow> set (L m) \<inter> set (L n) = {})"

lemma lists_okD:
  assumes "lists_ok L s" and "n \<le> N_HBLK_FLS"
  shows "dseg (hm s) 0 (L n) 0" "GC_hblkfreelist s n = hd_or (L n) 0" "distinct (L n)" "0 \<notin> set (L n)"
    "GC_free_bytes s n = list_sum (hm s) (L n)" "m \<le> N_HBLK_FLS \<Longrightarrow> m \<noteq> n \<Longrightarrow> x \<in> set (L n) \<Longrightarrow> x \<notin> set (L m)"
  using assms unfolding lists_ok_def list_ok_def by blast+

lemma list_ok_cong: "(\<And>x. x \<in> set xs \<Longrightarrow> M x = N x) \<Longrightarrow> list_ok M xs a b = list_ok N xs a b"
  using dseg_cong [of xs M N] list_sum_cong [of xs M N] by (simp add: list_ok_def)

lemma lists_okI:
  assumes "lists_ok L s" and "n \<le> N_HBLK_FLS" and "list_ok (hm t) xs (GC_hblkfreelist t n) (GC_free_bytes t n)"
    and "\<And>m x. m \<le> N_HBLK_FLS \<Longrightarrow> m \<noteq> n \<Longrightarrow> x \<in> set (L m) \<Longrightarrow> hm t x = hm s x \<and> x \<notin> set xs"
    and "\<And>m. m \<noteq> n \<Longrightarrow> GC_hblkfreelist t m = GC_hblkfreelist s m \<and> GC_free_bytes t m = GC_free_bytes s m"
  shows "lists_ok (L(n := xs)) t"
proof -
  have "list_ok (hm t) ((L(n := xs)) m) (GC_hblkfreelist t m) (GC_free_bytes t m)" if "m \<le> N_HBLK_FLS" for m
  proof (cases "m = n")
    case True
    then show ?thesis using assms(3) by simp
  next
    case False
    have "list_ok (hm t) (L m) (GC_hblkfreelist s m) (GC_free_bytes s m) = list_ok (hm s) (L m) (GC_hblkfreelist s m) (GC_free_bytes s m)"
      using assms(4) [OF that False] by (intro list_ok_cong) blast
    then show ?thesis using assms(1,5) False that by (simp add: lists_ok_def)
  qed
  moreover have "set ((L(n := xs)) m) \<inter> set ((L(n := xs)) k) = {}"
    if "m \<le> N_HBLK_FLS" "k \<le> N_HBLK_FLS" "m \<noteq> k" for m k
    using that assms(1,4) by (cases "m = n"; cases "k = n") (auto simp: lists_ok_def)
  ultimately show ?thesis by (simp add: lists_ok_def)
qed

lemma lists_ok_frame:
  assumes "lists_ok L s" and "\<And>n x. n \<le> N_HBLK_FLS \<Longrightarrow> x \<in> set (L n) \<Longrightarrow> hm t x = hm s x"
    and "GC_hblkfreelist t = GC_hblkfreelist s" "GC_free_bytes t = GC_free_bytes s"
  shows "lists_ok L t"
proof -
  have "list_ok (hm t) (L m) (GC_hblkfreelist t m) (GC_free_bytes t m)" if "m \<le> N_HBLK_FLS" for m
    using assms(1) list_ok_cong [of "L m" "hm t" "hm s"] assms(2) [OF that] that unfolding assms(3,4) by (simp add: lists_ok_def)
  then show ?thesis using assms(1) by (simp add: lists_ok_def)
qed

definition listed :: "(nat \<Rightarrow> nat list) \<Rightarrow> nat \<Rightarrow> bool" where
  "listed L p \<longleftrightarrow> (\<exists>n \<le> N_HBLK_FLS. p \<in> set (L n))"

text \<open>What the operations on the lists leave alone.\<close>

definition same_but_lists :: "gc \<Rightarrow> gc \<Rightarrow> bool" where
  "same_but_lists s t \<longleftrightarrow> idx_to s t \<and> ent t = ent s \<and> cfg t = cfg s \<and> GC_large_free_bytes t = GC_large_free_bytes s"

lemma same_but_listsD:
  assumes "same_but_lists s t"
  shows "index_inv t" "indexed s p \<Longrightarrow> indexed t p" "ent t = ent s" "cfg t = cfg s" "GC_large_free_bytes t = GC_large_free_bytes s"
    "never_fails t = never_fails s"
  using assms idx_toD cfgD(6) [of t s] by (auto simp: same_but_lists_def)

lemma same_but_lists_trans: "same_but_lists s t \<Longrightarrow> same_but_lists t u \<Longrightarrow> same_but_lists s u"
  unfolding same_but_lists_def by (metis idx_to_trans)

lemma mod_hdr_lists:
  assumes "index_inv s" and "ent s p = Hdr k" and "hm s p = Some H"
  obtains t where "mod_hdr k f s = Some t" "same_but_lists s t" "hm t = (hm s)(p \<mapsto> f H)"
    "GC_hblkfreelist t = GC_hblkfreelist s" "GC_free_bytes t = GC_free_bytes s"
  using mod_hdr_spec [OF assms, of f] baseD [of _ s] unfolding same_but_lists_def by blast

lemma lists_frame:
  assumes "index_inv s"
  shows "same_but_lists s (s\<lparr>GC_hblkfreelist := x\<rparr>)" "hm (s\<lparr>GC_hblkfreelist := x\<rparr>) = hm s"
    "same_but_lists s (s\<lparr>GC_free_bytes := y\<rparr>)" "hm (s\<lparr>GC_free_bytes := y\<rparr>) = hm s"
  using idx_frame [OF assms, of "s\<lparr>GC_hblkfreelist := x\<rparr>"] idx_frame [OF assms, of "s\<lparr>GC_free_bytes := y\<rparr>"]
  by (simp_all add: same_but_lists_def)

lemma link_next:
  assumes i: "index_inv s" and a: "a \<noteq> 0 \<Longrightarrow> hm s a \<noteq> None"
  obtains t where "(if a = 0 then Some (s\<lparr>GC_hblkfreelist := (GC_hblkfreelist s)(n := c)\<rparr>)
      else do { k \<leftarrow> hdr_of a s; mod_hdr k (\<lambda>H. H\<lparr>hb_next := c\<rparr>) s }) = Some t"
    "same_but_lists s t" "hm t = set_next a c (hm s)"
    "GC_hblkfreelist t = (if a = 0 then (GC_hblkfreelist s)(n := c) else GC_hblkfreelist s)" "GC_free_bytes t = GC_free_bytes s"
proof (cases "a = 0")
  case True
  show thesis by (rule that [of "s\<lparr>GC_hblkfreelist := (GC_hblkfreelist s)(n := c)\<rparr>"]) (simp_all add: True lists_frame [OF i] set_next_def)
next
  case False
  then obtain H where H: "hm s a = Some H" using a by blast
  then obtain k where k: "hdr_of a s = Some k" "ent s a = Hdr k" using hdr_of_hm [OF i] by blast
  obtain t where "mod_hdr k (\<lambda>H. H\<lparr>hb_next := c\<rparr>) s = Some t" "same_but_lists s t" "hm t = (hm s)(a \<mapsto> H\<lparr>hb_next := c\<rparr>)"
    "GC_hblkfreelist t = GC_hblkfreelist s" "GC_free_bytes t = GC_free_bytes s"
    using mod_hdr_lists [OF i k(2) H, of "\<lambda>H. H\<lparr>hb_next := c\<rparr>"] by metis
  then show thesis using that [of t] False k H by (simp add: set_next_def)
qed

lemma link_prev:
  assumes i: "index_inv s" and b: "b \<noteq> 0 \<Longrightarrow> hm s b \<noteq> None"
  obtains t where "(if b \<noteq> 0 then do { k \<leftarrow> hdr_of b s; mod_hdr k (\<lambda>H. H\<lparr>hb_prev := d\<rparr>) s } else Some s) = Some t"
    "same_but_lists s t" "hm t = set_prev b d (hm s)" "GC_hblkfreelist t = GC_hblkfreelist s" "GC_free_bytes t = GC_free_bytes s"
proof (cases "b = 0")
  case True
  have "same_but_lists s s" using i by (simp add: same_but_lists_def idx_to_def)
  then show thesis using that [of s] True by (simp add: set_prev_def)
next
  case False
  then obtain H where H: "hm s b = Some H" using b by blast
  then obtain k where k: "hdr_of b s = Some k" "ent s b = Hdr k" using hdr_of_hm [OF i] by blast
  obtain t where "mod_hdr k (\<lambda>H. H\<lparr>hb_prev := d\<rparr>) s = Some t" "same_but_lists s t" "hm t = (hm s)(b \<mapsto> H\<lparr>hb_prev := d\<rparr>)"
    "GC_hblkfreelist t = GC_hblkfreelist s" "GC_free_bytes t = GC_free_bytes s"
    using mod_hdr_lists [OF i k(2) H, of "\<lambda>H. H\<lparr>hb_prev := d\<rparr>"] by metis
  then show thesis using that [of t] False k H by (simp add: set_prev_def)
qed

lemma no_linksI: "(\<And>q. map_option no_links (hm t q) = map_option no_links (hm s q)) \<Longrightarrow> hm0 t = hm0 s"
  by (simp add: hm0_def fun_eq_iff)

lemma list_sum_links: "(\<And>q. map_option no_links (N q) = map_option no_links (M q)) \<Longrightarrow> list_sum N xs = list_sum M xs"
  by (rule list_sum_cong) (rule no_links_sz)

lemma list_ends:
  assumes "lists_ok L s" and "n \<le> N_HBLK_FLS" and "L n = xs @ ys"
  shows "last_or 0 xs \<noteq> 0 \<Longrightarrow> last_or 0 xs \<in> set (L n)" "hd_or ys 0 \<noteq> 0 \<Longrightarrow> hd_or ys 0 \<in> set (L n)"
    "last_or 0 xs = 0 \<longleftrightarrow> xs = []"
proof -
  have z: "0 \<notin> set xs" using lists_okD(4) [OF assms(1,2)] assms(3) by simp
  show "last_or 0 xs \<noteq> 0 \<Longrightarrow> last_or 0 xs \<in> set (L n)" "hd_or ys 0 \<noteq> 0 \<Longrightarrow> hd_or ys 0 \<in> set (L n)"
    using last_or_in [of xs] hd_or_in [of ys] assms(3) by simp_all
  show "last_or 0 xs = 0 \<longleftrightarrow> xs = []"
  proof (cases "xs = []")
    case False
    then have "last xs \<noteq> 0" using last_in_set [OF False] z by metis
    then show ?thesis using False by (simp add: last_or_def)
  qed simp
qed

lemma remove_from_fl_at_spec:
  assumes i: "index_inv s" and l: "lists_ok L s" and n: "n \<le> N_HBLK_FLS" and p: "L n = xs @ p # ys" and k: "ent s p = Hdr k"
  obtains t where "GC_remove_from_fl_at k n s = Some t" "same_but_lists s t" "hm0 t = hm0 s" "hm t p = hm s p" "lists_ok (L(n := xs @ ys)) t"
proof -
  let ?a = "last_or 0 xs" and ?b = "hd_or ys 0"
  let ?N = "set_prev ?b ?a (set_next ?a ?b (hm s))"
  note d = lists_okD [OF l n, unfolded p]
  obtain H where H: "hm s p = Some H" "hdrs s k = Some H" using ent_hm [OF i k] by blast
  have lk: "hb_prev H = ?a" "hb_next H = ?b" using dseg_at [OF d(1)] H(1) by auto
  have e: "last_or 0 xs \<noteq> 0 \<Longrightarrow> last_or 0 xs \<in> set (L n)" "last_or 0 xs = 0 \<longleftrightarrow> xs = []" "?b \<noteq> 0 \<Longrightarrow> ?b \<in> set (L n)"
    using list_ends [OF l n, of xs "p # ys"] list_ends(2) [OF l n, of "xs @ [p]" ys] p by simp_all
  have bp: "?b \<noteq> p" "?a \<noteq> p" using d(3,4) last_or_in [of xs] hd_or_in [of ys] by (auto simp: last_or_def hd_or_def split: list.splits if_splits)
  have in_list: "hm s q \<noteq> None" if "q \<in> set (L n)" for q using dseg_some [OF d(1)] that p by simp
  have ina: "hm s ?a \<noteq> None" if "?a \<noteq> 0" using in_list e(1) that by blast
  obtain s1 where s1: "(if ?a = 0 then Some (s\<lparr>GC_hblkfreelist := (GC_hblkfreelist s)(n := ?b)\<rparr>)
      else do { k \<leftarrow> hdr_of ?a s; mod_hdr k (\<lambda>H. H\<lparr>hb_next := ?b\<rparr>) s }) = Some s1" "same_but_lists s s1" "hm s1 = set_next ?a ?b (hm s)"
    "GC_hblkfreelist s1 = (if ?a = 0 then (GC_hblkfreelist s)(n := ?b) else GC_hblkfreelist s)" "GC_free_bytes s1 = GC_free_bytes s"
    by (rule link_next [OF i ina, of n ?b], assumption) (rule that)
  let ?s2 = "s1\<lparr>GC_free_bytes := (GC_free_bytes s1)(n := GC_free_bytes s1 n - hb_sz H)\<rparr>"
  note f = lists_frame(3,4) [OF same_but_listsD(1) [OF s1(2)]]
  have inb: "hm ?s2 ?b \<noteq> None" if "?b \<noteq> 0"
    using in_list e(3) that f(2) s1(3) by (auto simp: set_next_def)
  obtain t where t: "(if ?b \<noteq> 0 then do { k \<leftarrow> hdr_of ?b ?s2; mod_hdr k (\<lambda>H. H\<lparr>hb_prev := ?a\<rparr>) ?s2 } else Some ?s2) = Some t"
    "same_but_lists ?s2 t" "hm t = set_prev ?b ?a (hm ?s2)" "GC_hblkfreelist t = GC_hblkfreelist ?s2" "GC_free_bytes t = GC_free_bytes ?s2"
    by (rule link_prev [OF same_but_listsD(1) [OF f(1)] inb], assumption) (rule that)
  have ht: "hm t = ?N" using t(3) f(2) s1(3) by simp
  show thesis
  proof (rule that)
    show "GC_remove_from_fl_at k n s = Some t"
      unfolding GC_remove_from_fl_at_def H(2) by (simp only: bind.bind_lunit lk s1(1) t(1) Let_def)
    show "same_but_lists s t" using same_but_lists_trans s1(2) f(1) t(2) by blast
    have nl: "map_option no_links (hm t q) = map_option no_links (hm s q)" for q unfolding ht by simp
    then show "hm0 t = hm0 s" by (rule no_linksI)
    show "hm t p = hm s p" unfolding ht using bp by simp
    show "lists_ok (L(n := xs @ ys)) t"
    proof (rule lists_okI [OF l n])
      have dd: "dseg (hm s) 0 xs p" "dseg (hm s) p ys 0" using d(1) by (simp_all add: dseg_append)
      have di: "distinct (xs @ ys)" "0 \<notin> set (xs @ ys)" using d(3,4) by auto
      note g = gap_dseg [OF dd di, where c = ?b and d = ?a]
      have "dseg (hm t) 0 (xs @ ys) 0" unfolding ht dseg_append using g by simp
      moreover have "GC_hblkfreelist t n = hd_or (xs @ ys) 0"
        using t(4) s1(4) e(2) d(2) by (cases xs) simp_all
      moreover have "GC_free_bytes t n = list_sum (hm t) (xs @ ys)"
        unfolding list_sum_links [of "hm t" "hm s", OF nl] using t(5) s1(5) d(5) H(1) by simp
      ultimately show "list_ok (hm t) (xs @ ys) (GC_hblkfreelist t n) (GC_free_bytes t n)" using di by (simp add: list_ok_def)
      show "hm t x = hm s x \<and> x \<notin> set (xs @ ys)" if m: "m \<le> N_HBLK_FLS" "m \<noteq> n" "x \<in> set (L m)" for m x
      proof -
        have "x \<notin> set (L n)" using lists_okD(6) [OF l m(1) n, of x] m(2,3) by auto
        moreover have "x \<noteq> 0" using lists_okD(4) [OF l m(1)] m(3) by metis
        ultimately have "x \<noteq> ?a" "x \<noteq> ?b" using e by auto
        then show ?thesis unfolding ht using p \<open>x \<notin> set (L n)\<close> by simp
      qed
      show "GC_hblkfreelist t m = GC_hblkfreelist s m \<and> GC_free_bytes t m = GC_free_bytes s m" if "m \<noteq> n" for m
        using that t(4,5) s1(4,5) by simp
    qed
  qed
qed

lemma fl_le [simp]: "GC_hblk_fl_from_blocks b \<le> N_HBLK_FLS"
  by (auto simp: GC_hblk_fl_from_blocks_def N_HBLK_FLS_def UNIQUE_THRESHOLD_def HUGE_THRESHOLD_def FL_COMPRESSION_def)

definition flagged :: "hdr \<Rightarrow> hdr" where
  "flagged H = H\<lparr>hb_flags := hb_flags H OR FREE_BLK\<rparr>"

definition right_index :: "hdr \<Rightarrow> nat" where
  "right_index H = GC_hblk_fl_from_blocks (divHBLKSZ (hb_sz H))"

lemma right_index_le [simp]: "right_index H \<le> N_HBLK_FLS"
  by (simp add: right_index_def)

lemma add_to_fl_spec:
  assumes i: "index_inv s" and l: "lists_ok L s" and k: "ent s h = Hdr k" and H: "hm s h = Some H"
    and h: "h \<noteq> 0" "\<And>n. n \<le> N_HBLK_FLS \<Longrightarrow> h \<notin> set (L n)"
  obtains t where "GC_add_to_fl h k s = Some t" "same_but_lists s t" "hm0 t = (hm0 s)(h \<mapsto> no_links (flagged H))"
    "lists_ok (L(right_index H := h # L (right_index H))) t"
proof -
  let ?n = "right_index H"
  let ?b = "hd_or (L ?n) 0"
  let ?H1 = "H\<lparr>hb_next := ?b, hb_prev := 0\<rparr>"
  have n: "?n \<le> N_HBLK_FLS" by simp
  note d = lists_okD [OF l n]
  have Hk: "hdrs s k = Some H" using ent_hm [OF i k] H by auto
  have e: "?b \<noteq> 0 \<Longrightarrow> ?b \<in> set (L ?n)" using hd_or_in [of "L ?n"] by simp
  have hb: "?b \<noteq> h" using e h by auto
  let ?s0 = "s\<lparr>GC_hblkfreelist := (GC_hblkfreelist s)(?n := h)\<rparr>"
  let ?s1 = "?s0\<lparr>GC_free_bytes := (GC_free_bytes s)(?n := GC_free_bytes s ?n + hb_sz H)\<rparr>"
  note f0 = lists_frame(1,2) [OF i, of "(GC_hblkfreelist s)(?n := h)"]
  note f = lists_frame(3,4) [OF same_but_listsD(1) [OF f0(1)], of "(GC_free_bytes s)(?n := GC_free_bytes s ?n + hb_sz H)"]
  have st1: "same_but_lists s ?s1" using same_but_lists_trans f0(1) f(1) by blast
  have hm1: "hm ?s1 = hm s" using f0(2) f(2) by simp
  have e1: "ent ?s1 h = Hdr k" "hm ?s1 h = Some H" using same_but_listsD(3) [OF st1] k hm1 H by simp_all
  obtain s2 where s2: "mod_hdr k (\<lambda>H. H\<lparr>hb_next := ?b, hb_prev := 0\<rparr>) ?s1 = Some s2" "same_but_lists ?s1 s2"
    "hm s2 = (hm ?s1)(h \<mapsto> ?H1)" "GC_hblkfreelist s2 = GC_hblkfreelist ?s1" "GC_free_bytes s2 = GC_free_bytes ?s1"
    by (rule mod_hdr_lists [OF same_but_listsD(1) [OF st1] e1, of "\<lambda>H. H\<lparr>hb_next := ?b, hb_prev := 0\<rparr>"]) (rule that)
  have inb: "hm s2 ?b \<noteq> None" if "?b \<noteq> 0" using dseg_some [OF d(1) e [OF that]] hm1 hb s2(3) by simp
  obtain s3 where s3: "(if ?b \<noteq> 0 then do { k \<leftarrow> hdr_of ?b s2; mod_hdr k (\<lambda>S. S\<lparr>hb_prev := h\<rparr>) s2 } else Some s2) = Some s3"
    "same_but_lists s2 s3" "hm s3 = set_prev ?b h (hm s2)" "GC_hblkfreelist s3 = GC_hblkfreelist s2" "GC_free_bytes s3 = GC_free_bytes s2"
    by (rule link_prev [OF same_but_listsD(1) [OF s2(2)] inb], assumption) (rule that)
  have st3: "same_but_lists s s3" using same_but_lists_trans [OF st1] same_but_lists_trans [OF s2(2) s3(2)] by blast
  have e3: "ent s3 h = Hdr k" "hm s3 h = Some ?H1" using same_but_listsD(3) [OF st3] k s3(3) s2(3) hb by simp_all
  have fl: "(\<lambda>H. H\<lparr>hb_flags := hb_flags H OR FREE_BLK\<rparr>) = flagged" by (simp add: flagged_def fun_eq_iff)
  obtain t where t: "mod_hdr k flagged s3 = Some t" "same_but_lists s3 t"
    "hm t = (hm s3)(h \<mapsto> flagged ?H1)" "GC_hblkfreelist t = GC_hblkfreelist s3" "GC_free_bytes t = GC_free_bytes s3"
    by (rule mod_hdr_lists [OF same_but_listsD(1) [OF st3] e3, of flagged]) (rule that)
  have ht: "hm t = (set_prev ?b h (hm s))(h \<mapsto> flagged ?H1)"
    unfolding t(3) s3(3) s2(3) hm1 using hb by (auto simp: set_prev_def fun_eq_iff)
  have h0: "hm0 t = (hm0 s)(h \<mapsto> no_links (flagged H))"
    unfolding hm0_def ht by (rule ext) (simp add: no_links_def flagged_def)
  show thesis
  proof (rule that)
    have g: "GC_hblkfreelist s ?n = ?b" by (rule d(2))
    have hb: "GC_hblkfreelist s (right_index H) = ?b" "GC_hblk_fl_from_blocks (divHBLKSZ (hb_sz H)) = ?n" using g by (simp_all add: right_index_def)
    show "GC_add_to_fl h k s = Some t"
      unfolding GC_add_to_fl_def Hk by (simp only: bind.bind_lunit Let_def hb s2(1) s3(1) t(1) fl)
    show "same_but_lists s t" using same_but_lists_trans [OF st3 t(2)] .
    show "hm0 t = (hm0 s)(h \<mapsto> no_links (flagged H))" by (rule h0)
    show "lists_ok (L(?n := h # L ?n)) t"
    proof (rule lists_okI [OF l n])
      have c: "dseg (hm t) h (L ?n) 0"
      proof -
        have "dseg (hm s) 0 [] 0" by simp
        note g = gap_dseg(2) [OF this d(1), where c = 0 and d = h]
        have "dseg (set_prev ?b h (hm s)) h (L ?n) 0" using g d(3,4) by (simp add: set_next_def)
        then show ?thesis unfolding ht using h(2) [OF n] by simp
      qed
      have "list_sum (hm t) (L ?n) = list_sum (hm s) (L ?n)"
      proof (rule list_sum_cong)
        fix x assume "x \<in> set (L ?n)"
        then have "x \<noteq> h" using h(2) [OF n] by auto
        then show "hb_sz (the (hm t x)) = hb_sz (the (hm s x))" unfolding ht by (intro no_links_sz) simp
      qed
      then have "GC_free_bytes t ?n = list_sum (hm t) (h # L ?n)"
        using t(5) s3(5) s2(5) d(5) ht by (simp add: flagged_def)
      moreover have "GC_hblkfreelist t ?n = hd_or (h # L ?n) 0" using t(4) s3(4) s2(4) by simp
      moreover have "dseg (hm t) 0 (h # L ?n) 0" using c by (simp add: ht flagged_def)
      ultimately show "list_ok (hm t) (h # L ?n) (GC_hblkfreelist t ?n) (GC_free_bytes t ?n)"
        using d(3,4) h(1) h(2) [OF n] by (simp add: list_ok_def)
      show "hm t x = hm s x \<and> x \<notin> set (h # L ?n)" if m: "m \<le> N_HBLK_FLS" "m \<noteq> ?n" "x \<in> set (L m)" for m x
      proof -
        have x: "x \<notin> set (L ?n)" using lists_okD(6) [OF l m(1) n, of x] m(2,3) by auto
        have "x \<noteq> h" using h(2) [OF m(1)] m(3) by auto
        moreover have "x \<noteq> ?b" using x e lists_okD(4) [OF l m(1)] m(3) by metis
        ultimately show ?thesis unfolding ht using x by simp
      qed
      show "GC_hblkfreelist t m = GC_hblkfreelist s m \<and> GC_free_bytes t m = GC_free_bytes s m" if "m \<noteq> ?n" for m
        using that t(4,5) s3(4,5) s2(4,5) by simp
    qed
  qed
qed

end
