(* ===== verification/GcHeap.thy ===== *)
theory GcHeap
  imports GcLists
begin

text \<open>
  The layout of the heap that the allocator of heap blocks maintains, and what freeing and allocating
  a block do to it. The layout depends on the entries of the index and on the headers without their links.
\<close>

section \<open>The layout as a property of the entries and the headers\<close>

definition free_size :: "hdr \<Rightarrow> nat \<Rightarrow> bool" where
  "free_size H m \<longleftrightarrow> HBLK_IS_FREE H \<and> hb_sz H = m * HBLKSIZE"

definition lay :: "(nat \<Rightarrow> entry) \<Rightarrow> (nat \<Rightarrow> hdr option) \<Rightarrow> bool" where
  "lay E M \<longleftrightarrow> (\<forall>p. M p \<noteq> None \<longleftrightarrow> (\<exists>k. E p = Hdr k))
     \<and> (\<forall>p H. M p = Some H \<longrightarrow> p \<noteq> 0 \<and> 0 < span H \<and> (HBLK_IS_FREE H \<longrightarrow> hb_sz H = span H * HBLKSIZE)
           \<and> (\<forall>q. p < q \<and> q < p + span H \<longrightarrow> E q = (if HBLK_IS_FREE H then Fwd 0 else Fwd (min MAX_JUMP (q - p)))))
     \<and> (\<forall>q k. E q = Fwd k \<longrightarrow> k \<noteq> 0 \<longrightarrow> (\<exists>p H. M p = Some H \<and> \<not> HBLK_IS_FREE H \<and> p < q \<and> q < p + span H))"

lemma layD:
  assumes "lay E M"
  shows "M p \<noteq> None \<longleftrightarrow> (\<exists>k. E p = Hdr k)" "M p = Some H \<Longrightarrow> p \<noteq> 0" "M p = Some H \<Longrightarrow> 0 < span H"
    "M p = Some H \<Longrightarrow> HBLK_IS_FREE H \<Longrightarrow> hb_sz H = span H * HBLKSIZE"
    "M p = Some H \<Longrightarrow> p < q \<Longrightarrow> q < p + span H \<Longrightarrow> E q = (if HBLK_IS_FREE H then Fwd 0 else Fwd (min MAX_JUMP (q - p)))"
    "E q = Fwd k \<Longrightarrow> k \<noteq> 0 \<Longrightarrow> \<exists>p H. M p = Some H \<and> \<not> HBLK_IS_FREE H \<and> p < q \<and> q < p + span H"
  using assms unfolding lay_def by blast+

lemma layI:
  assumes "\<And>p. M p \<noteq> None \<longleftrightarrow> (\<exists>k. E p = Hdr k)"
    and "\<And>p H. M p = Some H \<Longrightarrow> p \<noteq> 0 \<and> 0 < span H \<and> (HBLK_IS_FREE H \<longrightarrow> hb_sz H = span H * HBLKSIZE)"
    and "\<And>p H q. M p = Some H \<Longrightarrow> p < q \<Longrightarrow> q < p + span H \<Longrightarrow> E q = (if HBLK_IS_FREE H then Fwd 0 else Fwd (min MAX_JUMP (q - p)))"
    and "\<And>q k. E q = Fwd k \<Longrightarrow> k \<noteq> 0 \<Longrightarrow> \<exists>p H. M p = Some H \<and> \<not> HBLK_IS_FREE H \<and> p < q \<and> q < p + span H"
  shows "lay E M"
  using assms unfolding lay_def by blast

lemma lay_apart:
  assumes "lay E M" and "M p = Some H" and "M q = Some K" and "p < q"
  shows "p + span H \<le> q"
proof (rule ccontr)
  assume "\<not> ?thesis"
  then have "q < p + span H" by simp
  then have "\<nexists>k. E q = Hdr k" using layD(5) [OF assms(1,2,4)] by simp
  then show False using layD(1) [OF assms(1), of q] assms(3) by simp
qed

lemma lay_owner:
  assumes "lay E M" and "M p = Some H" and "M q = Some K" and "p \<le> x" "x < p + span H" "q \<le> x" "x < q + span K"
  shows "q = p"
  using lay_apart [OF assms(1-3)] lay_apart [OF assms(1,3,2)] assms(4-7) by linarith

lemma no_links_simps [simp]: "HBLK_IS_FREE (no_links H) = HBLK_IS_FREE H" "span (no_links H) = span H" "hb_sz (no_links H) = hb_sz H"
  "hb_flags (no_links H) = hb_flags H"
  by (simp_all add: no_links_def HBLK_IS_FREE_def span_def)

lemma span_free: "HBLK_IS_FREE H \<Longrightarrow> hb_sz H = m * HBLKSIZE \<Longrightarrow> span H = m"
  by (simp add: span_def divHBLKSZ_def)

lemma hdr_at_hm0: "hdr_at s p H \<Longrightarrow> hm0 s p = Some (no_links H)"
  by (auto simp: hm0_def hm_iff)

lemma hm0_Some: "hm0 s p = Some K \<longleftrightarrow> (\<exists>H. hdr_at s p H \<and> K = no_links H)"
  by (auto simp: hm0_def hm_iff)

lemma hm0_ent: "index_inv s \<Longrightarrow> hm0 s p \<noteq> None \<longleftrightarrow> (\<exists>k. ent s p = Hdr k)"
  using hm_hdr [of s p] ent_hm [of s p] by (auto simp: hm0_def)

lemma layout_lay:
  assumes "index_inv s"
  shows "layout s \<longleftrightarrow> lay (ent s) (hm0 s)"
proof
  assume l: "layout s"
  show "lay (ent s) (hm0 s)"
  proof (rule layI)
    show "hm0 s p \<noteq> None \<longleftrightarrow> (\<exists>k. ent s p = Hdr k)" for p using hm0_ent [OF assms] .
  next
    fix p K assume "hm0 s p = Some K"
    then obtain H where H: "hdr_at s p H" "K = no_links H" using hm0_Some by blast
    then show "p \<noteq> 0 \<and> 0 < span K \<and> (HBLK_IS_FREE K \<longrightarrow> hb_sz K = span K * HBLKSIZE)"
      using layoutD(2) [OF l H(1)] by (simp add: header_ok_def)
  next
    fix p K q assume "hm0 s p = Some K" "p < q" "q < p + span K"
    moreover from this obtain H where H: "hdr_at s p H" "K = no_links H" using hm0_Some by blast
    ultimately show "ent s q = (if HBLK_IS_FREE K then Fwd 0 else Fwd (min MAX_JUMP (q - p)))"
      using inside [OF l H(1), of q] by simp
  next
    fix q k assume "ent s q = Fwd k" "k \<noteq> 0"
    then obtain p H where "hdr_at s p H" "\<not> HBLK_IS_FREE H" "p < q" "q < p + span H" using layoutD(3) [OF l] by blast
    then show "\<exists>p H. hm0 s p = Some H \<and> \<not> HBLK_IS_FREE H \<and> p < q \<and> q < p + span H"
      using hdr_at_hm0 by (intro exI [of _ p] exI [of _ "no_links H"]) simp
  qed
next
  assume l: "lay (ent s) (hm0 s)"
  show "layout s" unfolding layout_def
  proof (intro conjI allI impI)
    show "index_inv s" by (rule assms)
  next
    fix p H assume H: "hdr_at s p H"
    note e = hdr_at_hm0 [OF H]
    show "header_ok s p H" unfolding header_ok_def
    proof (intro conjI allI impI)
      show "p \<noteq> 0" "0 < span H" "HBLK_IS_FREE H \<Longrightarrow> hb_sz H = span H * HBLKSIZE"
        using layD(2-4) [OF l e] by simp_all
      show "ent s (p + i) = (if HBLK_IS_FREE H then Fwd 0 else Fwd (min MAX_JUMP i))" if "0 < i \<and> i < span H" for i
        using layD(5) [OF l e, of "p + i"] that by simp
    qed
  next
    fix q k assume "ent s q = Fwd k" "k \<noteq> 0"
    then obtain p K where K: "hm0 s p = Some K" "\<not> HBLK_IS_FREE K" "p < q" "q < p + span K" using layD(6) [OF l] by blast
    then obtain H where "hdr_at s p H" "K = no_links H" using hm0_Some by blast
    then show "\<exists>p H. hdr_at s p H \<and> \<not> HBLK_IS_FREE H \<and> p < q \<and> q < p + span H" using K(2-4) by auto
  qed
qed

section \<open>Changing a part of the heap\<close>

text \<open>The blocks from \<open>a\<close> to \<open>b\<close> belong to headers in this part, and are as the layout wants them.\<close>

definition own :: "(nat \<Rightarrow> hdr option) \<Rightarrow> nat \<Rightarrow> nat \<Rightarrow> bool" where
  "own M a b \<longleftrightarrow> (\<forall>p H. M p = Some H \<longrightarrow> (p < a \<longrightarrow> p + span H \<le> a) \<and> (a \<le> p \<longrightarrow> p < b \<longrightarrow> p + span H \<le> b))"

definition tile :: "(nat \<Rightarrow> entry) \<Rightarrow> (nat \<Rightarrow> hdr option) \<Rightarrow> nat \<Rightarrow> nat \<Rightarrow> bool" where
  "tile E M a b \<longleftrightarrow> (\<forall>p. a \<le> p \<and> p < b \<longrightarrow> (M p \<noteq> None \<longleftrightarrow> (\<exists>k. E p = Hdr k)))
     \<and> (\<forall>p H. a \<le> p \<and> p < b \<longrightarrow> M p = Some H \<longrightarrow> p \<noteq> 0 \<and> 0 < span H \<and> (HBLK_IS_FREE H \<longrightarrow> hb_sz H = span H * HBLKSIZE)
           \<and> p + span H \<le> b \<and> (\<forall>q. p < q \<and> q < p + span H \<longrightarrow> E q = (if HBLK_IS_FREE H then Fwd 0 else Fwd (min MAX_JUMP (q - p)))))
     \<and> (\<forall>q k. a \<le> q \<and> q < b \<longrightarrow> E q = Fwd k \<longrightarrow> k \<noteq> 0 \<longrightarrow> (\<exists>p H. M p = Some H \<and> \<not> HBLK_IS_FREE H \<and> a \<le> p \<and> p < q \<and> q < p + span H))"

lemma own_block: "lay E M \<Longrightarrow> M p = Some H \<Longrightarrow> own M p (p + span H)"
proof -
  assume l: "lay E M" and H: "M p = Some H"
  have "(q < p \<longrightarrow> q + span K \<le> p) \<and> (p \<le> q \<longrightarrow> q < p + span H \<longrightarrow> q + span K \<le> p + span H)" if K: "M q = Some K" for q K
  proof (intro conjI impI)
    show "q + span K \<le> p" if "q < p" using lay_apart [OF l K H that] .
    show "q + span K \<le> p + span H" if q: "p \<le> q" "q < p + span H"
    proof (cases "p = q")
      case True
      then show ?thesis using H K by simp
    next
      case False
      then show ?thesis using lay_apart [OF l H K] q by simp
    qed
  qed
  then show ?thesis unfolding own_def by blast
qed

lemma own_append: "own M a m \<Longrightarrow> own M m b \<Longrightarrow> a \<le> m \<Longrightarrow> m \<le> b \<Longrightarrow> own M a b"
proof -
  assume o: "own M a m" "own M m b" "a \<le> m" "m \<le> b"
  have "(p < a \<longrightarrow> p + span H \<le> a) \<and> (a \<le> p \<longrightarrow> p < b \<longrightarrow> p + span H \<le> b)" if H: "M p = Some H" for p H
  proof (intro conjI impI)
    show "p + span H \<le> a" if "p < a" using o(1) H that unfolding own_def by blast
    show "p + span H \<le> b" if p: "a \<le> p" "p < b"
    proof (cases "p < m")
      case True
      then have "p + span H \<le> m" using o(1) H p(1) unfolding own_def by blast
      then show ?thesis using o(4) by simp
    next
      case False
      then show ?thesis using o(2) H p(2) unfolding own_def by simp
    qed
  qed
  then show ?thesis unfolding own_def by blast
qed

lemma tile_append:
  assumes "tile E M a m" and "tile E M m b" and "a \<le> m" "m \<le> b"
  shows "tile E M a b"
  unfolding tile_def
proof (intro conjI allI impI)
  have c: "a \<le> p \<and> p < m \<or> m \<le> p \<and> p < b" if "a \<le> p \<and> p < b" for p using that by linarith
  show "M p \<noteq> None \<longleftrightarrow> (\<exists>k. E p = Hdr k)" if "a \<le> p \<and> p < b" for p
    using assms(1,2) c [OF that] unfolding tile_def by blast
  fix p H assume p: "a \<le> p \<and> p < b" "M p = Some H"
  show "p \<noteq> 0" "0 < span H" "HBLK_IS_FREE H \<Longrightarrow> hb_sz H = span H * HBLKSIZE"
    "p < q \<and> q < p + span H \<Longrightarrow> E q = (if HBLK_IS_FREE H then Fwd 0 else Fwd (min MAX_JUMP (q - p)))" for q
    using assms(1,2) c [OF p(1)] p(2) unfolding tile_def by blast+
  show "p + span H \<le> b"
    using assms(1,2,4) c [OF p(1)] p(2) unfolding tile_def by (meson le_trans)
next
  fix q k assume q: "a \<le> q \<and> q < b" "E q = Fwd k" "k \<noteq> 0"
  show "\<exists>p H. M p = Some H \<and> \<not> HBLK_IS_FREE H \<and> a \<le> p \<and> p < q \<and> q < p + span H"
  proof (cases "q < m")
    case True
    then show ?thesis using assms(1) q unfolding tile_def by blast
  next
    case False
    then have "m \<le> q \<and> q < b" using q(1) by simp
    then obtain p H where "M p = Some H" "\<not> HBLK_IS_FREE H" "m \<le> p" "p < q" "q < p + span H"
      using assms(2) q(2,3) unfolding tile_def by metis
    then show ?thesis using assms(3) by (meson le_trans)
  qed
qed

lemma tile_block:
  assumes "E p = Hdr k" and "M p = Some H" and "p \<noteq> 0" "0 < m" "span H = m" and "HBLK_IS_FREE H \<Longrightarrow> hb_sz H = m * HBLKSIZE"
    and "\<And>q. p < q \<Longrightarrow> q < p + m \<Longrightarrow> M q = None \<and> E q = (if HBLK_IS_FREE H then Fwd 0 else Fwd (min MAX_JUMP (q - p)))"
  shows "tile E M p (p + m)"
  unfolding tile_def
proof (intro conjI allI impI)
  have at: "q = p \<or> p < q \<and> q < p + m" if "p \<le> q \<and> q < p + m" for q using that by linarith
  show "M q \<noteq> None \<longleftrightarrow> (\<exists>k. E q = Hdr k)" if "p \<le> q \<and> q < p + m" for q
    using at [OF that] assms(1,2,7) by (auto split: if_splits)
  fix q K assume q: "p \<le> q \<and> q < p + m" "M q = Some K"
  then have e: "q = p" "K = H" using at [OF q(1)] assms(2,7) by force+
  show "q \<noteq> 0" "0 < span K" "HBLK_IS_FREE K \<Longrightarrow> hb_sz K = span K * HBLKSIZE" "q + span K \<le> p + m"
    "q < r \<and> r < q + span K \<Longrightarrow> E r = (if HBLK_IS_FREE K then Fwd 0 else Fwd (min MAX_JUMP (r - q)))" for r
    unfolding e using assms(3-7) by auto
next
  fix q k' assume q: "p \<le> q \<and> q < p + m" "E q = Fwd k'" "k' \<noteq> 0"
  then have lt: "p < q" "q < p + m" using assms(1) by (auto simp: le_less)
  have "\<not> HBLK_IS_FREE H" using assms(7) [OF lt] q(2,3) by auto
  then show "\<exists>r K. M r = Some K \<and> \<not> HBLK_IS_FREE K \<and> p \<le> r \<and> r < q \<and> q < r + span K"
    using assms(2,5) lt by (intro exI [of _ p] exI [of _ H]) simp
qed

lemma lay_change:
  assumes l: "lay E M" and o: "own M a b" and t: "tile F N a b"
    and out: "\<And>q. q < a \<or> b \<le> q \<Longrightarrow> F q = E q \<and> N q = M q"
  shows "lay F N"
proof (rule layI)
  have c: "(a \<le> p \<and> p < b) \<or> (p < a \<or> b \<le> p)" for p by linarith
  show "N p \<noteq> None \<longleftrightarrow> (\<exists>k. F p = Hdr k)" for p
    using c [of p]
  proof
    assume "a \<le> p \<and> p < b"
    then show ?thesis using t unfolding tile_def by blast
  next
    assume "p < a \<or> b \<le> p"
    then show ?thesis using out layD(1) [OF l, of p] by simp
  qed
  show "p \<noteq> 0 \<and> 0 < span H \<and> (HBLK_IS_FREE H \<longrightarrow> hb_sz H = span H * HBLKSIZE)" if H: "N p = Some H" for p H
    using c [of p]
  proof
    assume "a \<le> p \<and> p < b"
    then show ?thesis using t H unfolding tile_def by blast
  next
    assume "p < a \<or> b \<le> p"
    then have "M p = Some H" using out H by simp
    then show ?thesis using layD(2-4) [OF l] by blast
  qed
  show "F q = (if HBLK_IS_FREE H then Fwd 0 else Fwd (min MAX_JUMP (q - p)))"
    if H: "N p = Some H" and q: "p < q" "q < p + span H" for p H q
    using c [of p]
  proof
    assume "a \<le> p \<and> p < b"
    then show ?thesis using t H q unfolding tile_def by blast
  next
    assume p: "p < a \<or> b \<le> p"
    then have M: "M p = Some H" using out H by simp
    have "q < a \<or> b \<le> q"
    proof (cases "p < a")
      case True
      then have "p + span H \<le> a" using o M unfolding own_def by blast
      then show ?thesis using q by simp
    next
      case False
      then show ?thesis using p q by simp
    qed
    then show ?thesis using out layD(5) [OF l M q] by simp
  qed
  show "\<exists>p H. N p = Some H \<and> \<not> HBLK_IS_FREE H \<and> p < q \<and> q < p + span H" if q: "F q = Fwd k" "k \<noteq> 0" for q k
    using c [of q]
  proof
    assume "a \<le> q \<and> q < b"
    then show ?thesis using t q unfolding tile_def by blast
  next
    assume qo: "q < a \<or> b \<le> q"
    then have "E q = Fwd k" using out q by simp
    then obtain p H where H: "M p = Some H" "\<not> HBLK_IS_FREE H" "p < q" "q < p + span H" using layD(6) [OF l] q(2) by blast
    have "p < a \<or> b \<le> p"
    proof (rule ccontr)
      assume "\<not> ?thesis"
      then have "a \<le> p" "p < b" by auto
      then have "p + span H \<le> b" using o H(1) unfolding own_def by blast
      then show False using qo H(3,4) \<open>a \<le> p\<close> by linarith
    qed
    then have "N p = Some H" using out H(1) by simp
    then show ?thesis using H(2-4) by blast
  qed
qed

lemma lay_inner: "lay E M \<Longrightarrow> M p = Some H \<Longrightarrow> p < q \<Longrightarrow> q < p + span H \<Longrightarrow> M q = None"
  using lay_apart [of E M p H q] by (cases "M q") auto

lemma lay_put:
  assumes l: "lay E M" and o: "own M p (p + m)" and m: "0 < m" "p \<noteq> 0" and n: "\<And>q. p < q \<Longrightarrow> q < p + m \<Longrightarrow> M q = None"
    and K: "span K = m" "HBLK_IS_FREE K \<Longrightarrow> hb_sz K = m * HBLKSIZE"
    and F: "F p = Hdr k" "\<And>q. p < q \<Longrightarrow> q < p + m \<Longrightarrow> F q = (if HBLK_IS_FREE K then Fwd 0 else Fwd (min MAX_JUMP (q - p)))"
      "\<And>q. q < p \<or> p + m \<le> q \<Longrightarrow> F q = E q"
  shows "lay F (M(p \<mapsto> K))"
proof (rule lay_change [OF l o])
  show "tile F (M(p \<mapsto> K)) p (p + m)"
    by (rule tile_block [of _ _ k _ K]) (use assms in auto)
  show "F q = E q \<and> (M(p \<mapsto> K)) q = M q" if "q < p \<or> p + m \<le> q" for q using F(3) that m by auto
qed

lemma lay_merge:
  assumes l: "lay E M" and A: "M a = Some A" and B: "M b = Some B" "b = a + span A" and f: "HBLK_IS_FREE A" "HBLK_IS_FREE B"
    and J: "HBLK_IS_FREE J" "hb_sz J = hb_sz A + hb_sz B"
  shows "lay (E(b := Fwd 0)) (M(b := None, a \<mapsto> J))" "span J = span A + span B"
proof -
  note pos = layD(3) [OF l A] layD(3) [OF l B(1)]
  have sz: "hb_sz J = (span A + span B) * HBLKSIZE" using layD(4) [OF l A f(1)] layD(4) [OF l B(1) f(2)] J(2) by (simp add: algebra_simps)
  show sp: "span J = span A + span B" by (rule span_free [OF J(1) sz])
  have o: "own M a (a + (span A + span B))"
    using own_append [OF own_block [OF l A] own_block [OF l B(1), unfolded B(2)]] by (simp add: add.assoc)
  have ba: "b \<noteq> a" using B(2) pos by simp
  obtain k where k: "E a = Hdr k" using layD(1) [OF l, of a] A by auto
  show "lay (E(b := Fwd 0)) (M(b := None, a \<mapsto> J))"
  proof (rule lay_change [OF l o])
    show "tile (E(b := Fwd 0)) (M(b := None, a \<mapsto> J)) a (a + (span A + span B))"
    proof (rule tile_block)
      show "(E(b := Fwd 0)) a = Hdr k" using k ba by simp
      show "(M(b := None, a \<mapsto> J)) q = None \<and> (E(b := Fwd 0)) q = (if HBLK_IS_FREE J then Fwd 0 else Fwd (min MAX_JUMP (q - a)))"
        if "a < q" "q < a + (span A + span B)" for q
      proof (cases "q < b")
        case True
        then show ?thesis using lay_inner [OF l A that(1)] layD(5) [OF l A that(1)] B(2) f(1) J(1) that by simp
      next
        case False
        then have "q = b \<or> b < q \<and> q < b + span B" using that B(2) by linarith
        then show ?thesis using lay_inner [OF l B(1), of q] layD(5) [OF l B(1), of q] B(2) f(2) J(1) that by auto
      qed
    qed (use sz sp pos layD(2) [OF l A] in auto)
    show "(E(b := Fwd 0)) q = E q \<and> (M(b := None, a \<mapsto> J)) q = M q" if "q < a \<or> a + (span A + span B) \<le> q" for q
      using that B(2) pos by auto
  qed
qed

text \<open>A block is replaced by two.\<close>

lemma lay_two:
  assumes l: "lay E M" and H: "M p = Some H" and ab: "span H = a + b" "0 < a" "0 < b"
    and A: "span A = a" "HBLK_IS_FREE A \<Longrightarrow> hb_sz A = a * HBLKSIZE" and B: "span B = b" "HBLK_IS_FREE B \<Longrightarrow> hb_sz B = b * HBLKSIZE"
    and F: "F p = Hdr k" "F (p + a) = Hdr r"
      "\<And>q. p < q \<Longrightarrow> q < p + a \<Longrightarrow> F q = (if HBLK_IS_FREE A then Fwd 0 else Fwd (min MAX_JUMP (q - p)))"
      "\<And>q. p + a < q \<Longrightarrow> q < p + a + b \<Longrightarrow> F q = (if HBLK_IS_FREE B then Fwd 0 else Fwd (min MAX_JUMP (q - (p + a))))"
      "\<And>q. q < p \<or> p + a + b \<le> q \<Longrightarrow> F q = E q"
  shows "lay F (M(p \<mapsto> A, p + a \<mapsto> B))"
proof (rule lay_change [OF l own_block [OF l H]])
  let ?N = "M(p \<mapsto> A, p + a \<mapsto> B)"
  have n: "M q = None" if "p < q" "q < p + (a + b)" for q using lay_inner [OF l H] that ab(1) by simp
  have 1: "tile F ?N p (p + a)"
    by (rule tile_block [of _ _ k _ A]) (use F A ab n layD(2) [OF l H] in auto)
  have 2: "tile F ?N (p + a) (p + a + b)"
    by (rule tile_block [of _ _ r _ B]) (use F B ab n layD(2) [OF l H] in auto)
  show "tile F ?N p (p + span H)" using tile_append [OF 1 2] ab by (simp add: add.assoc)
  show "F q = E q \<and> ?N q = M q" if "q < p \<or> p + span H \<le> q" for q using that F(5) [of q] ab by auto
qed

section \<open>The invariant of the allocator\<close>

text \<open>
  A block is on the list for its size exactly if it is free; the blocks of \<open>X\<close> are on no list.
\<close>

definition on_lists :: "(nat \<Rightarrow> nat list) \<Rightarrow> (nat \<Rightarrow> hdr option) \<Rightarrow> nat set \<Rightarrow> bool" where
  "on_lists L M X \<longleftrightarrow> (\<forall>q H. M q = Some H \<longrightarrow> q \<notin> X \<longrightarrow> (HBLK_IS_FREE H \<longleftrightarrow> q \<in> set (L (right_index H))))
     \<and> (\<forall>n \<le> N_HBLK_FLS. \<forall>q \<in> set (L n). q \<notin> X \<and> (\<exists>H. M q = Some H \<and> right_index H = n))"

definition free_total :: "(nat \<Rightarrow> nat list) \<Rightarrow> (nat \<Rightarrow> hdr option) \<Rightarrow> nat" where
  "free_total L M = (\<Sum>n \<le> N_HBLK_FLS. list_sum M (L n))"

definition in_range :: "(nat \<Rightarrow> hdr option) \<Rightarrow> bool" where
  "in_range M \<longleftrightarrow> (\<forall>p H. M p = Some H \<longrightarrow> p + span H \<le> 2 ^ 51)"

text \<open>Two free blocks that are next to each other are in \<open>Y\<close>, one of them at least.\<close>

definition apart :: "(nat \<Rightarrow> hdr option) \<Rightarrow> nat set \<Rightarrow> bool" where
  "apart M Y \<longleftrightarrow> (\<forall>q Q R. M q = Some Q \<longrightarrow> M (q + span Q) = Some R \<longrightarrow> HBLK_IS_FREE Q \<longrightarrow> HBLK_IS_FREE R \<longrightarrow> q \<in> Y \<or> q + span Q \<in> Y)"

definition heap_inv :: "(nat \<Rightarrow> nat list) \<Rightarrow> gc \<Rightarrow> bool" where
  "heap_inv L s \<longleftrightarrow> index_inv s \<and> lay (ent s) (hm0 s) \<and> lists_ok L s \<and> on_lists L (hm0 s) {} \<and> in_range (hm0 s)
     \<and> apart (hm0 s) {} \<and> GC_large_free_bytes s = free_total L (hm0 s)"

text \<open>A free block \<open>p\<close> that is not on a list yet, of whose bytes all but \<open>sz\<close> were on the lists.\<close>

definition between :: "(nat \<Rightarrow> nat list) \<Rightarrow> gc \<Rightarrow> nat \<Rightarrow> nat \<Rightarrow> bool" where
  "between L s p sz \<longleftrightarrow> index_inv s \<and> lay (ent s) (hm0 s) \<and> lists_ok L s \<and> on_lists L (hm0 s) {p} \<and> in_range (hm0 s)
     \<and> apart (hm0 s) {p} \<and> (\<exists>H. hm0 s p = Some H \<and> HBLK_IS_FREE H \<and> GC_large_free_bytes s + sz = free_total L (hm0 s) + hb_sz H)"

lemma right_index_no_links [simp]: "right_index (no_links H) = right_index H"
  by (simp add: right_index_def)

lemma free_total_upd:
  assumes "n \<le> N_HBLK_FLS"
  shows "free_total (L(n := xs)) M + list_sum M (L n) = free_total L M + list_sum M xs"
proof -
  have "free_total (L(n := xs)) M = list_sum M xs + (\<Sum>m \<in> {..N_HBLK_FLS} - {n}. list_sum M (L m))"
    unfolding free_total_def using assms by (subst sum.remove [of _ n]) (auto intro!: sum.cong)
  moreover have "free_total L M = list_sum M (L n) + (\<Sum>m \<in> {..N_HBLK_FLS} - {n}. list_sum M (L m))"
    unfolding free_total_def using assms by (subst sum.remove [of _ n]) auto
  ultimately show ?thesis by simp
qed

lemma free_total_cong:
  assumes "\<And>n q. n \<le> N_HBLK_FLS \<Longrightarrow> q \<in> set (L n) \<Longrightarrow> hb_sz (the (M q)) = hb_sz (the (N q))"
  shows "free_total L M = free_total L N"
  unfolding free_total_def using assms by (intro sum.cong list_sum_cong) auto

lemma on_listsD:
  assumes "on_lists L M X"
  shows "M q = Some H \<Longrightarrow> q \<notin> X \<Longrightarrow> HBLK_IS_FREE H \<longleftrightarrow> q \<in> set (L (right_index H))"
    "n \<le> N_HBLK_FLS \<Longrightarrow> q \<in> set (L n) \<Longrightarrow> q \<notin> X \<and> (\<exists>H. M q = Some H \<and> right_index H = n)"
  using assms unfolding on_lists_def by blast+

lemma hm_hm0: "hm s p = Some H \<Longrightarrow> hm0 s p = Some (no_links H)"
  by (simp add: hm0_def)

lemma hm0_hm: "hm0 s p = Some K \<Longrightarrow> \<exists>H. hm s p = Some H \<and> K = no_links H"
  by (auto simp: hm0_def)

section \<open>The free block before an address\<close>

lemma layout_of: "index_inv s \<Longrightarrow> lay (ent s) (hm0 s) \<Longrightarrow> layout s"
  by (simp add: layout_lay)

lemma block_start_used:
  assumes l: "layout s" and H: "hdr_at s q H" "\<not> HBLK_IS_FREE H" and p: "q \<le> p" "p < q + span H"
  shows "block_start p s = Some (q, ent s q)"
  using p
proof (induction "p - q" arbitrary: p rule: less_induct)
  case less
  note e = index_inv_ent(1) [OF layoutD(1) [OF l]]
  show ?case
  proof (cases "p = q")
    case True
    then obtain h where "ent s p = Hdr h" using H(1) by (auto simp: hdr_at_def)
    then show ?thesis using e [of p] True by (subst block_start.simps) simp
  next
    case False
    then have lt: "q < p" using less.prems(1) by simp
    have k: "ent s p = Fwd (min MAX_JUMP (p - q))" "min MAX_JUMP (p - q) \<noteq> 0" using inside [OF l H(1) lt less.prems(2)] H(2) lt by auto
    let ?p = "p - min MAX_JUMP (p - q)"
    have "q \<le> ?p" "?p < p" using lt by auto
    then have "block_start ?p s = Some (q, ent s q)" using less.hyps [of ?p] less.prems lt by simp
    then show ?thesis using e [of p] k by (subst block_start.simps) simp
  qed
qed

text \<open>The block \<open>q\<close> is the one with the address \<open>h - 1\<close> if it ends at \<open>h\<close>.\<close>

lemma block_before:
  assumes "lay E M" and "M p = Some K" "p < h" "h \<le> p + span K" and "M q = Some J" "q + span J = h"
  shows "q = p"
  using lay_owner [OF assms(1,2,5), of "h - 1"] layD(3) [OF assms(1,5)] assms(3,4,6) by linarith

lemma free_block_ending_at_spec:
  assumes i: "index_inv s" and l: "lay (ent s) (hm0 s)" and H: "hm0 s h = Some H"
  obtains r where "GC_free_block_ending_at h s = Some r"
    "r \<noteq> 0 \<Longrightarrow> \<exists>K. hm0 s r = Some K \<and> HBLK_IS_FREE K \<and> r + span K = h"
    "r = 0 \<Longrightarrow> \<forall>q K. hm0 s q = Some K \<longrightarrow> HBLK_IS_FREE K \<longrightarrow> q + span K \<noteq> h"
proof -
  note lo = layout_of [OF i l]
  note e = index_inv_ent(1) [OF i]
  have h: "0 < h" using layD(2) [OF l H] by simp
  have no_free: "\<forall>q K. hm0 s q = Some K \<longrightarrow> HBLK_IS_FREE K \<longrightarrow> q + span K \<noteq> h"
    if "hm0 s p = Some P" "p < h" "h \<le> p + span P" "\<not> HBLK_IS_FREE P" for p P
    using block_before [OF l that(1-3)] that(1,4) by (metis option.inject)
  show thesis
  proof (cases "ent s (h - 1)")
    case (Hdr k)
    obtain P where P: "hdrs s k = Some P" "hdr_at s (h - 1) P" "header_ok s (h - 1) P" using layout_hdr [OF lo Hdr] .
    note P0 = hdr_at_hm0 [OF P(2)]
    have "block_start (h - 1) s = Some (h - 1, Hdr k)" using e Hdr by (subst block_start.simps) simp
    then have r: "GC_free_block_ending_at h s = Some (if HBLK_IS_FREE P then h - 1 else 0)"
      using P(1) by (simp add: GC_free_block_ending_at_def)
    have "h - 1 + span P \<le> h" using lay_apart [OF l P0 H] h by simp
    moreover have "0 < span P" "h - 1 \<noteq> 0" using layD(2,3) [OF l P0] by simp_all
    ultimately have sp: "h - 1 + span P = h" using h by simp
    show thesis
    proof (cases "HBLK_IS_FREE P")
      case True
      then show thesis using that [OF r] P0 sp \<open>h - 1 \<noteq> 0\<close> by simp
    next
      case False
      then show thesis using that [OF r] no_free [OF P0] sp h by simp
    qed
  next
    case (Fwd k)
    show thesis
    proof (cases "k = 0")
      case False
      then obtain q Q where Q: "hdr_at s q Q" "\<not> HBLK_IS_FREE Q" "q < h - 1" "h - 1 < q + span Q"
        using layoutD(3) [OF lo Fwd] by blast
      obtain j where j: "ent s q = Hdr j" "hdrs s j = Some Q" using Q(1) by (auto simp: hdr_at_def)
      have "block_start (h - 1) s = Some (q, ent s q)" using block_start_used [OF lo Q(1,2)] Q(3,4) by simp
      then have "GC_free_block_ending_at h s = Some 0" using j Q(2) by (simp add: GC_free_block_ending_at_def)
      then show thesis using that no_free [OF hdr_at_hm0 [OF Q(1)]] Q(2-4) by simp
    next
      case True
      have b: "block_start (h - 1) s = Some (h - 1, Fwd 0)" using e Fwd True by (subst block_start.simps) simp
      obtain q where q: "GC_prev_block (h - 1) s = Some q" "last_hdr s (h - 1) q" using prev_block_spec [OF lo] by blast
      have up: "p \<le> q" if "hm0 s p = Some K" "p < h" for p K
      proof (rule ccontr)
        assume "\<not> p \<le> q"
        then have "\<not> has_hdr s p" using q(2) that(2) unfolding last_hdr_def by simp
        then show False using that(1) hm0_ent [OF i, of p] by (simp add: has_hdr_def)
      qed
      show thesis
      proof (cases "q = 0")
        case True
        have "GC_free_block_ending_at h s = Some 0" using b q(1) True by (simp add: GC_free_block_ending_at_def)
        moreover have "\<forall>p K. hm0 s p = Some K \<longrightarrow> HBLK_IS_FREE K \<longrightarrow> p + span K \<noteq> h"
        proof (intro allI impI notI)
          fix p K assume "hm0 s p = Some K" "p + span K = h"
          then show False using up [of p K] True layD(2,3) [OF l, of p K] by simp
        qed
        ultimately show thesis using that by simp
      next
        case False
        then obtain k where k: "ent s q = Hdr k" using q(2) by (auto simp: last_hdr_def has_hdr_def)
        obtain Q where Q: "hdrs s k = Some Q" "hdr_at s q Q" "header_ok s q Q" using layout_hdr [OF lo k] .
        note Q0 = hdr_at_hm0 [OF Q(2)]
        let ?c = "HBLK_IS_FREE Q \<and> q * HBLKSIZE + hb_sz Q = h * HBLKSIZE"
        have r: "GC_free_block_ending_at h s = Some (if ?c then q else 0)"
          using b q(1) False hdr_of_ent [OF i k] Q(1) by (simp add: GC_free_block_ending_at_def)
        have c: "?c \<longleftrightarrow> HBLK_IS_FREE Q \<and> q + span Q = h"
        proof (cases "HBLK_IS_FREE Q")
          case True
          then have "hb_sz Q = span Q * HBLKSIZE" using Q(3) by (simp add: header_ok_def)
          then have eq: "q * HBLKSIZE + hb_sz Q = (q + span Q) * HBLKSIZE" by (simp add: algebra_simps)
          show ?thesis unfolding eq mult_cancel2 by simp
        qed simp
        show thesis
        proof (rule that [OF r])
          assume "(if ?c then q else 0) \<noteq> 0"
          then have "HBLK_IS_FREE Q \<and> q + span Q = h" "(if ?c then q else 0) = q" using c by (simp_all split: if_splits)
          then show "\<exists>K. hm0 s (if ?c then q else 0) = Some K \<and> HBLK_IS_FREE K \<and> (if ?c then q else 0) + span K = h"
            using Q0 by simp
        next
          assume "(if ?c then q else 0) = 0"
          then have n: "\<not> (HBLK_IS_FREE Q \<and> q + span Q = h)" using c False by (simp split: if_splits)
          show "\<forall>p K. hm0 s p = Some K \<longrightarrow> HBLK_IS_FREE K \<longrightarrow> p + span K \<noteq> h"
          proof (intro allI impI notI)
            fix p K assume p: "hm0 s p = Some K" "HBLK_IS_FREE K" "p + span K = h"
            then have pq: "p \<le> q" using up [of p K] layD(3) [OF l p(1)] by simp
            have "q \<le> h - 1" using q(2) unfolding last_hdr_def by blast
            then have "q < h" using h by linarith
            then have "q = p" using pq p lay_apart [OF l p(1) Q0] by (cases "p = q") simp_all
            then show False using n p Q0 by simp
          qed
        qed
      qed
    qed
  qed
qed

section \<open>Joining two free blocks\<close>

definition other_fields :: "gc \<Rightarrow> gc \<Rightarrow> bool" where
  "other_fields s t \<longleftrightarrow> cfg t = cfg s \<and> GC_large_free_bytes t = GC_large_free_bytes s \<and> (\<forall>p. indexed s p \<longrightarrow> indexed t p)"

lemma other_fields_trans: "other_fields s t \<Longrightarrow> other_fields t u \<Longrightarrow> other_fields s u"
  by (simp add: other_fields_def)

lemma same_but_lists_other: "same_but_lists s t \<Longrightarrow> other_fields s t"
  by (simp add: same_but_lists_def other_fields_def idx_to_def)

lemma base_other: "base t = base s \<Longrightarrow> idx_to s t \<Longrightarrow> other_fields s t"
  using baseD(1,2) [of t s] by (simp add: other_fields_def idx_to_def)

lemma betweenD:
  assumes "between L s p sz"
  shows "index_inv s" "lay (ent s) (hm0 s)" "lists_ok L s" "on_lists L (hm0 s) {p}" "in_range (hm0 s)" "apart (hm0 s) {p}"
    "\<exists>H. hm0 s p = Some H \<and> HBLK_IS_FREE H \<and> GC_large_free_bytes s + sz = free_total L (hm0 s) + hb_sz H"
  using assms unfolding between_def by blast+

lemma lists_disjoint:
  assumes "lists_ok L s" and "n \<le> N_HBLK_FLS" and "L n = xs @ x # ys" and "m \<le> N_HBLK_FLS"
  shows "x \<notin> set ((L(n := xs @ ys)) m)" "q \<in> set ((L(n := xs @ ys)) m) \<Longrightarrow> q \<in> set (L m)"
    "q \<noteq> x \<Longrightarrow> q \<in> set ((L(n := xs @ ys)) m) \<longleftrightarrow> q \<in> set (L m)"
proof -
  have "x \<in> set (L n)" using assms(3) by simp
  then have "m \<noteq> n \<Longrightarrow> x \<notin> set (L m)" by (rule lists_okD(6) [OF assms(1,2,4), rotated])
  moreover have "x \<notin> set (xs @ ys)" using lists_okD(3) [OF assms(1,2)] assms(3) by auto
  ultimately show "x \<notin> set ((L(n := xs @ ys)) m)" by simp
  show "q \<in> set ((L(n := xs @ ys)) m) \<Longrightarrow> q \<in> set (L m)" using assms(3) by (auto split: if_splits)
  show "q \<noteq> x \<Longrightarrow> q \<in> set ((L(n := xs @ ys)) m) \<longleftrightarrow> q \<in> set (L m)" using assms(3) by auto
qed

lemma apart_merge:
  assumes "apart M {y}" and "y = a \<or> y = b" and "N = M(b := None, a \<mapsto> J)"
  shows "apart N {a}"
  unfolding apart_def
proof (intro allI impI)
  fix q Q R assume q: "N q = Some Q" "N (q + span Q) = Some R" "HBLK_IS_FREE Q" "HBLK_IS_FREE R"
  show "q \<in> {a} \<or> q + span Q \<in> {a}"
  proof (rule ccontr)
    assume n: "\<not> ?thesis"
    then have "q \<noteq> b" "q + span Q \<noteq> b" "M q = Some Q" "M (q + span Q) = Some R" using q(1,2) assms(3) by (auto split: if_splits)
    then have "q = y \<or> q + span Q = y" using assms(1) q(3,4) unfolding apart_def by blast
    then show False using n assms(2) \<open>q \<noteq> b\<close> \<open>q + span Q \<noteq> b\<close> by blast
  qed
qed

lemma between_merge:
  assumes b: "between L s y sz" and A: "hm0 s a = Some A" and B: "hm0 s b = Some B" "b = a + span A" and f: "HBLK_IS_FREE A" "HBLK_IS_FREE B"
    and xy: "(x = a \<and> y = b \<and> X = A \<and> Y = B) \<or> (x = b \<and> y = a \<and> X = B \<and> Y = A)" and x: "n \<le> N_HBLK_FLS" "L n = xs @ x # ys"
    and J: "HBLK_IS_FREE J" "hb_sz J = hb_sz A + hb_sz B"
    and t: "index_inv t" "ent t = (ent s)(b := Fwd 0)" "hm0 t = (hm0 s)(b := None, a \<mapsto> J)" "lists_ok (L(n := xs @ ys)) t"
      "GC_large_free_bytes t = GC_large_free_bytes s"
  shows "between (L(n := xs @ ys)) t a sz"
proof -
  let ?M = "hm0 s" and ?N = "hm0 t" and ?L = "L(n := xs @ ys)"
  note d = betweenD [OF b]
  note m = lay_merge [OF d(2) A B f J]
  have ba: "b \<noteq> a" using B(2) layD(3) [OF d(2) A] by simp
  have ol: "on_lists ?L ?N {a}" unfolding on_lists_def
  proof (intro conjI allI impI ballI)
    fix q H assume q: "?N q = Some H" "q \<notin> {a}"
    then have e: "q \<noteq> b" "?M q = Some H" using t(3) by (auto split: if_splits)
    then have "q \<noteq> x" "q \<notin> {y}" using q(2) xy by auto
    then show "HBLK_IS_FREE H \<longleftrightarrow> q \<in> set (?L (right_index H))"
      using on_listsD(1) [OF d(4) e(2)] lists_disjoint(3) [OF d(3) x, of "right_index H" q] by simp
  next
    fix k q assume k: "k \<le> N_HBLK_FLS" "q \<in> set (?L k)"
    then have q: "q \<noteq> x" "q \<in> set (L k)" using lists_disjoint(1,2) [OF d(3) x k(1)] by auto
    have "q \<notin> {y} \<and> (\<exists>H. ?M q = Some H \<and> right_index H = k)" using on_listsD(2) [OF d(4) k(1) q(2)] .
    moreover from this have "q \<noteq> a" "q \<noteq> b" using q(1) xy by auto
    ultimately show "q \<notin> {a}" "\<exists>H. ?N q = Some H \<and> right_index H = k" using t(3) by auto
  qed
  have X: "?M x = Some X" "?M y = Some Y" using xy A B by auto
  have "free_total ?L ?N = free_total ?L ?M"
  proof (rule free_total_cong)
    fix k q assume k: "k \<le> N_HBLK_FLS" "q \<in> set (?L k)"
    then have "q \<noteq> a" using on_listsD(2) [OF ol] by blast
    moreover have "q \<noteq> b" using on_listsD(2) [OF ol k] t(3) ba by auto
    ultimately show "hb_sz (the (?N q)) = hb_sz (the (?M q))" using t(3) by simp
  qed
  moreover have "free_total ?L ?M + hb_sz X = free_total L ?M"
    using free_total_upd [OF x(1), of L "xs @ ys" ?M] x(2) X(1) by simp
  moreover have "GC_large_free_bytes s + sz = free_total L ?M + hb_sz Y" using d(7) X(2) by auto
  moreover have "hb_sz J = hb_sz X + hb_sz Y" using J(2) xy by auto
  ultimately have tot: "GC_large_free_bytes t + sz = free_total ?L ?N + hb_sz J" using t(5) by simp
  have ir: "in_range ?N" unfolding in_range_def
  proof (intro allI impI)
    fix q H assume q: "?N q = Some H"
    show "q + span H \<le> 2 ^ 51"
    proof (cases "q = a")
      case True
      then have "q + span H = b + span B" using q t(3) m(2) B(2) by simp
      then show ?thesis using d(5) B(1) unfolding in_range_def by simp
    next
      case False
      then have "?M q = Some H" using q t(3) by (simp split: if_splits)
      then show ?thesis using d(5) unfolding in_range_def by blast
    qed
  qed
  have "apart ?N {a}" by (rule apart_merge [OF d(6) _ t(3)]) (use xy in auto)
  moreover have "lay (ent t) ?N" unfolding t(2,3) by (rule m(1))
  moreover have "\<exists>H. ?N a = Some H \<and> HBLK_IS_FREE H \<and> GC_large_free_bytes t + sz = free_total ?L ?N + hb_sz H"
    using t(3) J(1) tot by simp
  ultimately show ?thesis using t(1,4) ol ir unfolding between_def by blast
qed

lemma absorb:
  assumes b: "between L s y sz" and A: "hm s a = Some A" and B: "hm s b = Some B" "b = a + span A" and f: "HBLK_IS_FREE A" "HBLK_IS_FREE B"
    and xy: "(x = a \<and> y = b) \<or> (x = b \<and> y = a)" and k: "ent s a = Hdr ka" "ent s x = Hdr kx" and sz: "z = hb_sz B"
  obtains t L' where
    "do { t1 \<leftarrow> GC_remove_from_fl kx s; t2 \<leftarrow> mod_hdr ka (\<lambda>H. H\<lparr>hb_sz := hb_sz H + z\<rparr>) t1; GC_remove_header b t2 } = Some t"
    "between L' t a sz" "ent t = (ent s)(b := Fwd 0)" "hm0 t = (hm0 s)(b := None, a \<mapsto> no_links (A\<lparr>hb_sz := hb_sz A + hb_sz B\<rparr>))" "other_fields s t"
proof -
  note d = betweenD [OF b]
  note A0 = hm_hm0 [OF A] and B0 = hm_hm0 [OF B(1)]
  have ba: "b \<noteq> a" using B(2) layD(3) [OF d(2) A0] by simp
  obtain X where X: "hm s x = Some X" "HBLK_IS_FREE X" "hdrs s kx = Some X" using xy A B(1) f ent_hm [OF d(1) k(2)] by auto
  let ?n = "right_index X"
  have "x \<in> set (L ?n)" using on_listsD(1) [OF d(4) hm_hm0 [OF X(1)]] X(2) xy ba by auto
  then obtain xs ys where L: "L ?n = xs @ x # ys" by (meson split_list)
  let ?L = "L(?n := xs @ ys)"
  obtain t1 where t1: "GC_remove_from_fl_at kx ?n s = Some t1" "same_but_lists s t1" "hm0 t1 = hm0 s" "hm t1 x = hm s x" "lists_ok ?L t1"
    by (rule remove_from_fl_at_spec [OF d(1) d(3) right_index_le L k(2)]) (rule that)
  have r: "GC_remove_from_fl kx s = Some t1" using t1(1) X(3) by (simp add: GC_remove_from_fl_def right_index_def)
  obtain A1 where A1: "hm t1 a = Some A1" "no_links A1 = no_links A" using hm0_hm [of t1 a] A0 t1(3) by metis
  have A1s: "hb_sz A1 = hb_sz A" using arg_cong [OF A1(2), of hb_sz] by simp
  have ka: "ent t1 a = Hdr ka" using k(1) same_but_listsD(3) [OF t1(2)] by simp
  let ?J = "A1\<lparr>hb_sz := hb_sz A1 + z\<rparr>"
  obtain t2 where t2: "mod_hdr ka (\<lambda>H. H\<lparr>hb_sz := hb_sz H + z\<rparr>) t1 = Some t2" "same_but_lists t1 t2" "hm t2 = (hm t1)(a \<mapsto> ?J)"
    "GC_hblkfreelist t2 = GC_hblkfreelist t1" "GC_free_bytes t2 = GC_free_bytes t1"
    by (rule mod_hdr_lists [OF same_but_listsD(1) [OF t1(2)] ka A1(1), of "\<lambda>H. H\<lparr>hb_sz := hb_sz H + z\<rparr>"]) (rule that)
  obtain kb where "ent s b = Hdr kb" using layD(1) [OF d(2), of b] B0 by auto
  then have kb: "ent t2 b = Hdr kb" using same_but_listsD(3) [OF t1(2)] same_but_listsD(3) [OF t2(2)] by simp
  obtain t where t: "GC_remove_header b t2 = Some t" "idx_to t2 t" "base t = base t2" "ent t = (ent t2)(b := Fwd 0)" "hm t = (hm t2)(b := None)"
    using remove_header_hm [OF same_but_listsD(1) [OF t2(2)] kb] by blast
  have e: "ent t = (ent s)(b := Fwd 0)" using t(4) same_but_listsD(3) [OF t1(2)] same_but_listsD(3) [OF t2(2)] by simp
  have J: "no_links ?J = no_links (A\<lparr>hb_sz := hb_sz A + hb_sz B\<rparr>)"
    using A1(2) A1s sz by (cases A1; cases A) (simp add: no_links_def)
  have h: "hm0 t = (hm0 s)(b := None, a \<mapsto> no_links (A\<lparr>hb_sz := hb_sz A + hb_sz B\<rparr>))"
  proof
    fix q
    have "hm0 t1 q = hm0 s q" using t1(3) by simp
    then show "hm0 t q = ((hm0 s)(b := None, a \<mapsto> no_links (A\<lparr>hb_sz := hb_sz A + hb_sz B\<rparr>))) q"
      unfolding hm0_def t(5) t2(3) J [symmetric] using ba by simp
  qed
  have nin: "q \<noteq> a \<and> q \<noteq> b" if "m \<le> N_HBLK_FLS" "q \<in> set (?L m)" for m q
    using lists_disjoint(1,2) [OF d(3) right_index_le L that(1)] that(2) on_listsD(2) [OF d(4) that(1)] xy by blast
  have lo: "lists_ok ?L t"
  proof (rule lists_ok_frame [OF t1(5)])
    show "hm t q = hm t1 q" if "m \<le> N_HBLK_FLS" "q \<in> set (?L m)" for m q using nin [OF that] t(5) t2(3) by simp
    show "GC_hblkfreelist t = GC_hblkfreelist t1" "GC_free_bytes t = GC_free_bytes t1" using baseD(3,4) [OF t(3)] t2(4,5) by simp_all
  qed
  have of: "other_fields s t"
    using other_fields_trans [OF same_but_lists_other [OF t1(2)] other_fields_trans [OF same_but_lists_other [OF t2(2)] base_other [OF t(3,2)]]] .
  have "between ?L t a sz"
  proof (rule between_merge [OF b A0 B0])
    show "b = a + span (no_links A)" "HBLK_IS_FREE (no_links A)" "HBLK_IS_FREE (no_links B)" using B(2) f by simp_all
    show "x = a \<and> y = b \<and> (if x = a then no_links A else no_links B) = no_links A \<and> (if x = a then no_links B else no_links A) = no_links B
      \<or> x = b \<and> y = a \<and> (if x = a then no_links A else no_links B) = no_links B \<and> (if x = a then no_links B else no_links A) = no_links A"
      using xy ba by auto
    show "right_index X \<le> N_HBLK_FLS" "L (right_index X) = xs @ x # ys" using L by simp_all
    show "index_inv t" by (rule idx_toD(1) [OF t(2)])
    show "ent t = (ent s)(b := Fwd 0)" by (rule e)
    show "hm0 t = (hm0 s)(b := None, a \<mapsto> no_links (A\<lparr>hb_sz := hb_sz A + hb_sz B\<rparr>))" by (rule h)
    show "HBLK_IS_FREE (no_links (A\<lparr>hb_sz := hb_sz A + hb_sz B\<rparr>))" using f(1) by (simp add: HBLK_IS_FREE_def)
    show "hb_sz (no_links (A\<lparr>hb_sz := hb_sz A + hb_sz B\<rparr>)) = hb_sz (no_links A) + hb_sz (no_links B)" by simp
    show "lists_ok ?L t" by (rule lo)
    show "GC_large_free_bytes t = GC_large_free_bytes s" using of by (simp add: other_fields_def)
  qed
  moreover have "do { t1 \<leftarrow> GC_remove_from_fl kx s; t2 \<leftarrow> mod_hdr ka (\<lambda>H. H\<lparr>hb_sz := hb_sz H + z\<rparr>) t1; GC_remove_header b t2 } = Some t"
    using r t2(1) t(1) by simp
  ultimately show thesis using that e h of by blast
qed

section \<open>What freeing a block does\<close>

text \<open>The headers in use, and the blocks that belong to free headers.\<close>

definition used :: "(nat \<Rightarrow> hdr option) \<Rightarrow> nat \<Rightarrow> hdr option" where
  "used M = (\<lambda>q. case M q of None \<Rightarrow> None | Some H \<Rightarrow> if HBLK_IS_FREE H then None else Some H)"

definition free_area :: "(nat \<Rightarrow> hdr option) \<Rightarrow> nat set" where
  "free_area M = {q. \<exists>p H. M p = Some H \<and> HBLK_IS_FREE H \<and> p \<le> q \<and> q < p + span H}"

lemma free_areaI: "M p = Some H \<Longrightarrow> HBLK_IS_FREE H \<Longrightarrow> p \<le> q \<Longrightarrow> q < p + span H \<Longrightarrow> q \<in> free_area M"
  by (auto simp: free_area_def)

lemma used_upd: "used (M(p := x)) = (used M)(p := (case x of None \<Rightarrow> None | Some H \<Rightarrow> if HBLK_IS_FREE H then None else Some H))"
  by (rule ext) (simp add: used_def)

lemma used_free: "M p = Some H \<Longrightarrow> HBLK_IS_FREE H \<Longrightarrow> used M p = None"
  by (simp add: used_def)

lemma free_area_merge:
  assumes "M a = Some A" "M b = Some B" "b = a + span A" "HBLK_IS_FREE A" "HBLK_IS_FREE B" "HBLK_IS_FREE J" "span J = span A + span B" "b \<noteq> a"
  shows "free_area (M(b := None, a \<mapsto> J)) = free_area M" "used (M(b := None, a \<mapsto> J)) = used M"
proof -
  let ?N = "M(b := None, a \<mapsto> J)"
  show "free_area ?N = free_area M"
  proof (rule set_eqI)
    fix q
    have J: "a \<le> q \<and> q < a + span J \<longleftrightarrow> (a \<le> q \<and> q < a + span A) \<or> (b \<le> q \<and> q < b + span B)" using assms(3,7) by linarith
    show "q \<in> free_area ?N \<longleftrightarrow> q \<in> free_area M"
    proof
      assume "q \<in> free_area ?N"
      then obtain p H where p: "?N p = Some H" "HBLK_IS_FREE H" "p \<le> q" "q < p + span H" by (auto simp: free_area_def)
      show "q \<in> free_area M"
      proof (cases "p = a")
        case True
        then show ?thesis using p J assms free_areaI [of M a A q] free_areaI [of M b B q] by auto
      next
        case False
        then show ?thesis using p free_areaI [of M p H q] by (simp split: if_splits)
      qed
    next
      assume "q \<in> free_area M"
      then obtain p H where p: "M p = Some H" "HBLK_IS_FREE H" "p \<le> q" "q < p + span H" by (auto simp: free_area_def)
      show "q \<in> free_area ?N"
      proof (cases "p = a \<or> p = b")
        case True
        then have "a \<le> q \<and> q < a + span J" using J p assms(1,2) by auto
        then show ?thesis using assms(6) free_areaI [of ?N a J q] by simp
      next
        case False
        then show ?thesis using p free_areaI [of ?N p H q] by simp
      qed
    qed
  qed
  show "used ?N = used M" using assms(1,2,4-6) by (auto simp: used_def fun_eq_iff)
qed

text \<open>The next block, if it is free, is joined.\<close>

lemma join_next:
  assumes b: "between L s p sz" and H: "hm s p = Some H" and k: "ent s p = Hdr k" and z: "z = hb_sz H" "n = p + span H"
  obtains t L' J where
    "(case ent s n of Fwd k \<Rightarrow> if k = 0 then Some s else None
      | Hdr j \<Rightarrow> do { N \<leftarrow> hdrs s j;
          if HBLK_IS_FREE N \<and> z + hb_sz N < 2 ^ 63 then do {
            t1 \<leftarrow> GC_remove_from_fl j s; t2 \<leftarrow> mod_hdr k (\<lambda>H. H\<lparr>hb_sz := hb_sz H + hb_sz N\<rparr>) t1; GC_remove_header n t2 }
          else Some s }) = Some t"
    "between L' t p sz" "ent t p = Hdr k" "hm t p = Some J" "\<forall>R. hm0 t (p + span J) = Some R \<longrightarrow> \<not> HBLK_IS_FREE R"
    "used (hm0 t) = used (hm0 s)" "free_area (hm0 t) = free_area (hm0 s)" "other_fields s t" "\<forall>q < p. hm0 t q = hm0 s q"
proof -
  note d = betweenD [OF b]
  note H0 = hm_hm0 [OF H]
  have Hf: "HBLK_IS_FREE H" using d(7) H0 by auto
  have Hs: "hb_sz H = span H * HBLKSIZE" "0 < span H" using layD(3,4) [OF d(2) H0] Hf by simp_all
  show thesis
  proof (cases "ent s n")
    case (Fwd j)
    have "j = 0"
    proof (rule ccontr)
      assume "j \<noteq> 0"
      then obtain q Q where Q: "hm0 s q = Some Q" "\<not> HBLK_IS_FREE Q" "q < n" "n < q + span Q" using layD(6) [OF d(2) Fwd] by blast
      then have "p \<noteq> q" using H0 Hf by auto
      then show False using lay_apart [OF d(2) Q(1) H0] lay_apart [OF d(2) H0 Q(1)] Q z(2) by (cases "p < q") simp_all
    qed
    moreover have "hm0 s n = None" using hm0_ent [OF d(1), of n] Fwd by simp
    ultimately show thesis using that [of s L H] b k H Fwd z(2) by (simp add: other_fields_def)
  next
    case (Hdr j)
    obtain N where N: "hm s n = Some N" "hdrs s j = Some N" using ent_hm [OF d(1) Hdr] by blast
    note N0 = hm_hm0 [OF N(1)]
    show thesis
    proof (cases "HBLK_IS_FREE N")
      case False
      then show thesis using that [of s L H] b k H Hdr N N0 z(2) by (simp add: other_fields_def)
    next
      case True
      have Ns: "hb_sz N = span N * HBLKSIZE" "0 < span N" using layD(3,4) [OF d(2) N0] True by simp_all
      have "n + span N \<le> 2 ^ 51" using d(5) N0 unfolding in_range_def by fastforce
      then have "(span H + span N) * HBLKSIZE \<le> (2 ^ 51 - p) * HBLKSIZE" using z(2) by (intro mult_le_mono1) linarith
      moreover have "p \<noteq> 0" "p \<le> 2 ^ 51" using layD(2) [OF d(2) H0] z(2) \<open>n + span N \<le> 2 ^ 51\<close> by simp_all
      then have "(2 ^ 51 - p) * HBLKSIZE < 2 ^ 63" by simp
      ultimately have lt: "z + hb_sz N < 2 ^ 63" using Hs Ns z(1) by (simp add: distrib_right)
      have xy: "(n = p \<and> p = n) \<or> (n = n \<and> p = p)" by simp
      obtain t L' where t: "do { t1 \<leftarrow> GC_remove_from_fl j s; t2 \<leftarrow> mod_hdr k (\<lambda>H. H\<lparr>hb_sz := hb_sz H + hb_sz N\<rparr>) t1; GC_remove_header n t2 } = Some t"
        "between L' t p sz" "ent t = (ent s)(n := Fwd 0)" "hm0 t = (hm0 s)(n := None, p \<mapsto> no_links (H\<lparr>hb_sz := hb_sz H + hb_sz N\<rparr>))" "other_fields s t"
        by (rule absorb [OF b H N(1) z(2) Hf True xy k Hdr refl]) (rule that)
      obtain J where J: "hm t p = Some J" "no_links J = no_links (H\<lparr>hb_sz := hb_sz H + hb_sz N\<rparr>)" using hm0_hm [of t p] t(4) by auto
      have Jf: "HBLK_IS_FREE J" "hb_sz J = hb_sz H + hb_sz N"
        using arg_cong [OF J(2), of HBLK_IS_FREE] arg_cong [OF J(2), of hb_sz] Hf by (simp_all add: HBLK_IS_FREE_def)
      have sp: "span J = span H + span N" by (rule span_free [OF Jf(1)]) (simp add: Jf(2) Hs(1) Ns(1) distrib_right)
      have np: "n \<noteq> p" using z(2) Hs(2) by simp
      show thesis
      proof (rule that)
        show "(case ent s n of Fwd k \<Rightarrow> if k = 0 then Some s else None
          | Hdr j \<Rightarrow> do { N \<leftarrow> hdrs s j;
              if HBLK_IS_FREE N \<and> z + hb_sz N < 2 ^ 63 then do {
                t1 \<leftarrow> GC_remove_from_fl j s; t2 \<leftarrow> mod_hdr k (\<lambda>H. H\<lparr>hb_sz := hb_sz H + hb_sz N\<rparr>) t1; GC_remove_header n t2 }
              else Some s }) = Some t"
          unfolding Hdr entry.case N(2) bind.bind_lunit using True lt t(1) by (simp only: simp_thms if_True)
        show "between L' t p sz" by (rule t(2))
        show "ent t p = Hdr k" using t(3) k np by simp
        show "hm t p = Some J" by (rule J(1))
        show "\<forall>R. hm0 t (p + span J) = Some R \<longrightarrow> \<not> HBLK_IS_FREE R"
        proof (intro allI impI notI)
          fix R assume R: "hm0 t (p + span J) = Some R" "HBLK_IS_FREE R"
          have "p + span J = n + span N" using sp z(2) by simp
          then have "hm0 s (n + span (no_links N)) = Some R" using R(1) t(4) Ns(2) Hs(2) z(2) sp by (simp add: add.assoc)
          then have "n \<in> {p} \<or> n + span (no_links N) \<in> {p}" using d(6) N0 True R(2) unfolding apart_def by fastforce
          then show False using np z(2) by simp
        qed
        have "span (no_links (H\<lparr>hb_sz := hb_sz H + hb_sz N\<rparr>)) = span (no_links H) + span (no_links N)"
          using sp arg_cong [OF J(2), of span] by simp
        note m = free_area_merge [OF H0 N0 _ _ _ _ this np]
        show "free_area (hm0 t) = free_area (hm0 s)" "used (hm0 t) = used (hm0 s)"
          unfolding t(4) using m z(2) Hf True Jf(1) arg_cong [OF J(2), of HBLK_IS_FREE] by simp_all
        show "other_fields s t" by (rule t(5))
        show "\<forall>q < p. hm0 t q = hm0 s q" using t(4) z(2) by simp
      qed
    qed
  qed
qed

lemma apart_clear:
  assumes "apart M {p}" and "M p = Some H" and "\<forall>R. M (p + span H) = Some R \<longrightarrow> \<not> HBLK_IS_FREE R"
    and "\<forall>q Q. M q = Some Q \<longrightarrow> HBLK_IS_FREE Q \<longrightarrow> q + span Q \<noteq> p"
  shows "apart M {}"
  unfolding apart_def
proof (intro allI impI)
  fix q Q R assume q: "M q = Some Q" "M (q + span Q) = Some R" "HBLK_IS_FREE Q" "HBLK_IS_FREE R"
  then have "q = p \<or> q + span Q = p" using assms(1) unfolding apart_def by blast
  moreover have "q + span Q \<noteq> p" using assms(4) q(1,3) by blast
  ultimately have "q = p" by blast
  then show "q \<in> {} \<or> q + span Q \<in> {}" using q assms(2,3) by simp
qed

text \<open>The previous block, if it is free, is joined.\<close>

lemma join_prev:
  assumes b: "between L s p sz" and H: "hm s p = Some H" and k: "ent s p = Hdr k"
    and right: "\<forall>R. hm0 s (p + span H) = Some R \<longrightarrow> \<not> HBLK_IS_FREE R"
    and r: "r \<noteq> 0 \<Longrightarrow> \<exists>K. hm0 s r = Some K \<and> HBLK_IS_FREE K \<and> r + span K = p"
    and r0: "r = 0 \<Longrightarrow> \<forall>q K. hm0 s q = Some K \<longrightarrow> HBLK_IS_FREE K \<longrightarrow> q + span K \<noteq> p"
  obtains t L' a ka where
    "(if r \<noteq> 0 then do { prevhdr \<leftarrow> hdr_of r s; P \<leftarrow> hdrs s prevhdr;
        if hb_sz H + hb_sz P < 2 ^ 63 then do {
          t1 \<leftarrow> GC_remove_from_fl prevhdr s; t2 \<leftarrow> mod_hdr prevhdr (\<lambda>P. P\<lparr>hb_sz := hb_sz P + hb_sz H\<rparr>) t1;
          t3 \<leftarrow> GC_remove_header p t2; Some (r, prevhdr, t3) }
        else Some (p, k, s) }
      else Some (p, k, s)) = Some (a, ka, t)"
    "between L' t a sz" "ent t a = Hdr ka" "apart (hm0 t) {}" "used (hm0 t) = used (hm0 s)" "free_area (hm0 t) = free_area (hm0 s)" "other_fields s t"
proof -
  note d = betweenD [OF b]
  note H0 = hm_hm0 [OF H]
  have Hf: "HBLK_IS_FREE H" using d(7) H0 by auto
  have Hs: "hb_sz H = span H * HBLKSIZE" "0 < span H" using layD(3,4) [OF d(2) H0] Hf by simp_all
  show thesis
  proof (cases "r = 0")
    case True
    have "apart (hm0 s) {}" by (rule apart_clear [OF d(6) H0 _ r0 [OF True]]) (use right in simp)
    then show thesis using that [of p k s L] True b k by (simp add: other_fields_def)
  next
    case False
    obtain P0 where P0: "hm0 s r = Some P0" "HBLK_IS_FREE P0" "r + span P0 = p" using r [OF False] by blast
    obtain P where P: "hm s r = Some P" "P0 = no_links P" using hm0_hm [OF P0(1)] by blast
    have Pf: "HBLK_IS_FREE P" "p = r + span P" using P0 P(2) by simp_all
    obtain kr where kr: "hdr_of r s = Some kr" "ent s r = Hdr kr" "hdrs s kr = Some P" using hdr_of_hm [OF d(1) P(1)] by blast
    have Ps: "hb_sz P = span P * HBLKSIZE" "0 < span P" using layD(3,4) [OF d(2) hm_hm0 [OF P(1)]] Pf by simp_all
    have "p + span H \<le> 2 ^ 51" using d(5) H0 unfolding in_range_def by fastforce
    then have "(span H + span P) * HBLKSIZE \<le> (2 ^ 51 - r) * HBLKSIZE" using Pf(2) by (intro mult_le_mono1) linarith
    moreover have "r \<le> 2 ^ 51" using Pf(2) \<open>p + span H \<le> 2 ^ 51\<close> by simp
    then have "(2 ^ 51 - r) * HBLKSIZE < 2 ^ 63" using False by simp
    ultimately have lt: "hb_sz H + hb_sz P < 2 ^ 63" using Hs Ps by (simp add: distrib_right)
    have xy: "(r = r \<and> p = p) \<or> (r = p \<and> p = r)" by simp
    obtain t L' where t: "do { t1 \<leftarrow> GC_remove_from_fl kr s; t2 \<leftarrow> mod_hdr kr (\<lambda>P. P\<lparr>hb_sz := hb_sz P + hb_sz H\<rparr>) t1; GC_remove_header p t2 } = Some t"
      "between L' t r sz" "ent t = (ent s)(p := Fwd 0)" "hm0 t = (hm0 s)(p := None, r \<mapsto> no_links (P\<lparr>hb_sz := hb_sz P + hb_sz H\<rparr>))" "other_fields s t"
      by (rule absorb [OF b P(1) H Pf(2) Pf(1) Hf xy kr(2) kr(2) refl]) (rule that)
    let ?J = "P\<lparr>hb_sz := hb_sz P + hb_sz H\<rparr>"
    have Jf: "HBLK_IS_FREE ?J" using Pf(1) by (simp add: HBLK_IS_FREE_def)
    have sp: "span ?J = span P + span H" by (rule span_free [OF Jf]) (simp add: Hs(1) Ps(1) distrib_right)
    have rp: "p \<noteq> r" "r < p" using Pf(2) Ps(2) by simp_all
    have P1: "hm0 s r = Some P0" using P0 by simp
    show thesis
    proof (rule that)
      show "(if r \<noteq> 0 then do { prevhdr \<leftarrow> hdr_of r s; P \<leftarrow> hdrs s prevhdr;
          if hb_sz H + hb_sz P < 2 ^ 63 then do {
            t1 \<leftarrow> GC_remove_from_fl prevhdr s; t2 \<leftarrow> mod_hdr prevhdr (\<lambda>P. P\<lparr>hb_sz := hb_sz P + hb_sz H\<rparr>) t1;
            t3 \<leftarrow> GC_remove_header p t2; Some (r, prevhdr, t3) }
          else Some (p, k, s) }
        else Some (p, k, s)) = Some (r, kr, t)"
      proof -
        have "do { t1 \<leftarrow> GC_remove_from_fl kr s; t2 \<leftarrow> mod_hdr kr (\<lambda>P. P\<lparr>hb_sz := hb_sz P + hb_sz H\<rparr>) t1;
            t3 \<leftarrow> GC_remove_header p t2; Some (r, kr, t3) } = Some (r, kr, t)"
          using t(1) by (auto simp: bind_eq_Some_conv)
        then show ?thesis using False kr lt by simp
      qed
      show "between L' t r sz" by (rule t(2))
      show "ent t r = Hdr kr" using t(3) kr(2) rp by simp
      show "apart (hm0 t) {}"
      proof (rule apart_clear [OF betweenD(6) [OF t(2)]])
        show "hm0 t r = Some (no_links ?J)" using t(4) by simp
        show "\<forall>R. hm0 t (r + span (no_links ?J)) = Some R \<longrightarrow> \<not> HBLK_IS_FREE R"
          using right t(4) sp Pf(2) Hs(2) by (simp add: add.assoc)
        show "\<forall>q Q. hm0 t q = Some Q \<longrightarrow> HBLK_IS_FREE Q \<longrightarrow> q + span Q \<noteq> r"
        proof (intro allI impI notI)
          fix q Q assume q: "hm0 t q = Some Q" "HBLK_IS_FREE Q" "q + span Q = r"
          have "0 < span Q" using layD(3) [OF betweenD(2) [OF t(2)] q(1)] .
          then have "q \<noteq> r" "q \<noteq> p" using q(3) rp(2) by auto
          then have "hm0 s q = Some Q" using q(1) t(4) by simp
          then have "q = p \<or> q + span Q = p" using d(6) q P0(1,2) unfolding apart_def by blast
          then show False using \<open>q \<noteq> p\<close> q(3) rp by simp
        qed
      qed
      have "span (no_links ?J) = span P0 + span (no_links H)" using sp P(2) by simp
      note m = free_area_merge [OF P1 H0 _ _ _ _ this rp(1)]
      show "free_area (hm0 t) = free_area (hm0 s)" "used (hm0 t) = used (hm0 s)"
        unfolding t(4) using m Pf(2) P(2) P0(2) Hf Jf by simp_all
      show "other_fields s t" by (rule t(5))
    qed
  qed
qed

lemma flag_free_idem:
  assumes "w AND FREE_BLK \<noteq> 0"
  shows "w OR FREE_BLK = w"
proof -
  have f: "FREE_BLK = 2 ^ 2" by (simp add: FREE_BLK_def)
  have "bit w 2" using assms and_exp_eq_0_iff_not_bit [of w 2] unfolding f by blast
  show ?thesis
  proof (rule bit_word_eqI)
    fix n
    have "bit FREE_BLK n \<longleftrightarrow> n = 2" unfolding f bit_exp_iff by auto
    then show "bit (w OR FREE_BLK) n = bit w n" using \<open>bit w 2\<close> by (auto simp: bit_or_iff)
  qed
qed

lemma flagged_idem: "HBLK_IS_FREE H \<Longrightarrow> flagged H = H"
  unfolding HBLK_IS_FREE_def flagged_def using flag_free_idem [of "hb_flags H"] by simp

lemma heap_invD:
  assumes "heap_inv L s"
  shows "index_inv s" "lay (ent s) (hm0 s)" "lists_ok L s" "on_lists L (hm0 s) {}" "in_range (hm0 s)" "apart (hm0 s) {}"
    "GC_large_free_bytes s = free_total L (hm0 s)"
  using assms unfolding heap_inv_def by blast+

lemma large_frame:
  assumes "index_inv s" and "lists_ok L s"
  shows "index_inv (s\<lparr>GC_large_free_bytes := x\<rparr>)" "ent (s\<lparr>GC_large_free_bytes := x\<rparr>) = ent s" "hm (s\<lparr>GC_large_free_bytes := x\<rparr>) = hm s"
    "hm0 (s\<lparr>GC_large_free_bytes := x\<rparr>) = hm0 s" "lists_ok L (s\<lparr>GC_large_free_bytes := x\<rparr>)" "indexed (s\<lparr>GC_large_free_bytes := x\<rparr>) p = indexed s p"
proof -
  let ?t = "s\<lparr>GC_large_free_bytes := x\<rparr>"
  note f = idx_frame [OF assms(1), of ?t, simplified]
  show "index_inv ?t" using idx_toD(1) [OF f(1)] .
  show "ent ?t = ent s" "hm ?t = hm s" "hm0 ?t = hm0 s" using f by simp_all
  show "lists_ok L ?t" by (rule lists_ok_frame [OF assms(2)]) (use f in simp_all)
  obtain B F where B: "idx_ok B s" using assms(1) by (rule index_invE)
  have "same_index s ?t" by (simp add: same_index_def)
  then show "indexed ?t p = indexed s p" using same_index(3) [OF _ B] by simp
qed

lemma add_between:
  assumes b: "between L s p sz" and k: "ent s p = Hdr k" and a: "apart (hm0 s) {}"
  obtains t L' where "GC_add_to_fl p k (s\<lparr>GC_large_free_bytes := GC_large_free_bytes s + sz\<rparr>) = Some t" "heap_inv L' t" "hm0 t = hm0 s"
    "ent t = ent s" "cfg t = cfg s" "GC_large_free_bytes t = GC_large_free_bytes s + sz"
proof -
  note d = betweenD [OF b]
  let ?s = "s\<lparr>GC_large_free_bytes := GC_large_free_bytes s + sz\<rparr>"
  note f = large_frame [OF d(1,3), of "GC_large_free_bytes s + sz"]
  obtain H0 where H0: "hm0 s p = Some H0" "HBLK_IS_FREE H0" "GC_large_free_bytes s + sz = free_total L (hm0 s) + hb_sz H0" using d(7) by blast
  obtain H where H: "hm s p = Some H" "H0 = no_links H" using hm0_hm [OF H0(1)] by blast
  let ?n = "right_index H"
  have p0: "p \<noteq> 0" using layD(2) [OF d(2) H0(1)] .
  have nin: "p \<notin> set (L n)" if "n \<le> N_HBLK_FLS" for n using on_listsD(2) [OF d(4) that] by blast
  have e: "ent ?s p = Hdr k" "hm ?s p = Some H" using f(2,3) k H by simp_all
  obtain t where t: "GC_add_to_fl p k ?s = Some t" "same_but_lists ?s t" "hm0 t = (hm0 ?s)(p \<mapsto> no_links (flagged H))" "lists_ok (L(?n := p # L ?n)) t"
    by (rule add_to_fl_spec [OF f(1) f(5) e p0 nin], assumption) (rule that)
  have "flagged H = H" using H0(2) H(2) flagged_idem by simp
  then have h: "hm0 t = hm0 s" using t(3) f(4) H H0(1) by (simp add: fun_upd_idem_iff)
  have en: "ent t = ent s" using same_but_listsD(3) [OF t(2)] f(2) by simp
  let ?L = "L(?n := p # L ?n)"
  have ol: "on_lists ?L (hm0 s) {}" unfolding on_lists_def
  proof (intro conjI allI impI ballI)
    fix q K assume q: "hm0 s q = Some K" "q \<notin> {}"
    show "HBLK_IS_FREE K \<longleftrightarrow> q \<in> set (?L (right_index K))"
    proof (cases "q = p")
      case True
      then have "K = H0" using q H0 by simp
      then show ?thesis using True H0(2) H(2) by simp
    next
      case False
      then show ?thesis using on_listsD(1) [OF d(4) q(1)] by simp
    qed
  next
    fix n q assume n: "n \<le> N_HBLK_FLS" "q \<in> set (?L n)"
    show "q \<notin> {}" by simp
    show "\<exists>K. hm0 s q = Some K \<and> right_index K = n"
    proof (cases "q \<in> set (L n)")
      case True
      then show ?thesis using on_listsD(2) [OF d(4) n(1)] by blast
    next
      case False
      then have "q = p \<and> n = ?n" using n(2) by (simp split: if_splits)
      then show ?thesis using H0(1) H(2) by simp
    qed
  qed
  have "free_total ?L (hm0 s) = free_total L (hm0 s) + hb_sz H0"
    using free_total_upd [of ?n L "p # L ?n" "hm0 s"] H0(1) by simp
  then have "GC_large_free_bytes t = free_total ?L (hm0 s)" using same_but_listsD(5) [OF t(2)] H0(3) by simp
  then have "heap_inv ?L t" using same_but_listsD(1) [OF t(2)] en h t(4) d(2,5) a ol unfolding heap_inv_def by simp
  moreover have "cfg t = cfg s" using same_but_listsD(4) [OF t(2)] by (simp add: cfg_upd)
  ultimately show thesis using that t(1) h en same_but_listsD(5) [OF t(2)] by simp
qed

section \<open>Freeing a block\<close>

lemma freehblk_spec:
  assumes i: "index_inv s" and lo: "lists_ok L s" and k: "ent s p = Hdr k" and H: "hm s p = Some H" "\<not> HBLK_IS_FREE H"
    and m: "m = OBJ_SZ_TO_BLOCKS (hb_sz H)" "0 < m"
    and K: "K = no_links (flagged (H\<lparr>hb_sz := m * HBLKSIZE\<rparr>))"
    and E: "E = (\<lambda>q. if p < q \<and> q < p + m then Fwd 0 else ent s q)" and M: "M = (hm0 s)(p \<mapsto> K)"
    and l: "lay E M" and ol: "on_lists L (hm0 s) {p}" and ir: "in_range M" and ap: "apart M {p}"
    and tot: "GC_large_free_bytes s = free_total L (hm0 s)"
  obtains t L' where "GC_freehblk p s = Some t" "heap_inv L' t" "used (hm0 t) = used M" "free_area (hm0 t) = free_area M"
    "GC_large_free_bytes t = GC_large_free_bytes s + m * HBLKSIZE" "cfg t = cfg s"
proof -
  have Kf: "HBLK_IS_FREE K"
  proof -
    have "bit (hb_flags H OR FREE_BLK) 2" by (simp add: bit_or_iff FREE_BLK_def bit_simps)
    then have "(hb_flags H OR FREE_BLK) AND FREE_BLK \<noteq> 0"
      using and_exp_eq_0_iff_not_bit [of "hb_flags H OR FREE_BLK" 2] by (simp add: FREE_BLK_def)
    then show ?thesis unfolding K by (simp add: HBLK_IS_FREE_def flagged_def)
  qed
  have Ksz: "hb_sz K = m * HBLKSIZE" unfolding K by (simp add: flagged_def)
  have Mp: "M p = Some K" using M by simp
  have sp: "span K = m" by (rule span_free [OF Kf Ksz])
  have small: "p + m \<le> 2 ^ 51" "p \<noteq> 0" using ir Mp sp layD(2) [OF l Mp] unfolding in_range_def by auto
  let ?size = "HBLKSIZE * m"
  have sz: "?size \<noteq> 0" "?size < 2 ^ 63"
  proof -
    show "?size \<noteq> 0" using m(2) by simp
    have "m \<le> 2 ^ 51 - 1" using small by linarith
    then have "HBLKSIZE * m \<le> HBLKSIZE * (2 ^ 51 - 1)" by (intro mult_le_mono2)
    then show "?size < 2 ^ 63" by simp
  qed
  obtain s1 where s1: "GC_remove_counts p ?size s = Some s1" "index_step s s1" "hdrs s1 = hdrs s"
    "ent s1 = (\<lambda>q. if behind p ?size q then Fwd 0 else ent s q)"
    using remove_counts_spec [OF i, of p ?size] by blast
  have be: "behind p ?size q \<longleftrightarrow> p < q \<and> q < p + m" for q
  proof -
    have "q * HBLKSIZE < p * HBLKSIZE + ?size \<longleftrightarrow> q < p + m" by linarith
    then show ?thesis by (simp add: behind_def)
  qed
  have e1: "ent s1 = E" unfolding s1(4) be E ..
  have hm1: "hm s1 q = hm s q" for q
  proof (cases "p < q \<and> q < p + m")
    case True
    then have "hm0 s q = None" using lay_inner [OF l Mp] sp M by simp
    then have "hm s q = None" by (simp add: hm0_def)
    then show ?thesis using True E by (simp add: hm_def e1)
  next
    case False
    have "ent s1 q = ent s q" unfolding e1 E using False by (rule if_not_P)
    then show ?thesis unfolding hm_def s1(3) by simp
  qed
  have k1: "ent s1 p = Hdr k" unfolding e1 E using k by simp
  have Hk: "hdrs s k = Some H" "hdr_of p s = Some k" using ent_hm [OF i k] H(1) hdr_of_ent [OF i k] by auto
  let ?H2 = "H\<lparr>hb_sz := ?size\<rparr>"
  have H1: "hm s1 p = Some H" using hm1 H(1) by simp
  obtain s2 where s2: "mod_hdr k (\<lambda>H. H\<lparr>hb_sz := ?size\<rparr>) s1 = Some s2" "same_but_lists s1 s2" "hm s2 = (hm s1)(p \<mapsto> ?H2)"
    "GC_hblkfreelist s2 = GC_hblkfreelist s1" "GC_free_bytes s2 = GC_free_bytes s1"
    by (rule mod_hdr_lists [OF index_stepD(1) [OF s1(2)] k1 H1, of "\<lambda>H. H\<lparr>hb_sz := ?size\<rparr>"]) (rule that)
  have k2: "ent s2 p = Hdr k" "hm s2 p = Some ?H2" using same_but_listsD(3) [OF s2(2)] k1 s2(3) by simp_all
  have fl: "(\<lambda>H. H\<lparr>hb_flags := hb_flags H OR FREE_BLK\<rparr>) = flagged" by (simp add: flagged_def fun_eq_iff)
  let ?H3 = "flagged ?H2"
  obtain s3 where s3: "mod_hdr k flagged s2 = Some s3" "same_but_lists s2 s3" "hm s3 = (hm s2)(p \<mapsto> ?H3)"
    "GC_hblkfreelist s3 = GC_hblkfreelist s2" "GC_free_bytes s3 = GC_free_bytes s2"
    by (rule mod_hdr_lists [OF same_but_listsD(1) [OF s2(2)] k2, of flagged]) (rule that)
  note st = same_but_lists_trans [OF s2(2) s3(2)]
  have e3: "ent s3 = E" using same_but_listsD(3) [OF st] e1 by simp
  have h3: "hm s3 q = ((hm s)(p \<mapsto> ?H3)) q" for q using s3(3) s2(3) hm1 by simp
  have h03: "hm0 s3 = M" unfolding M K by (rule ext) (simp add: hm0_def h3 mult.commute)
  have b1: "GC_large_free_bytes s1 = GC_large_free_bytes s" "GC_hblkfreelist s1 = GC_hblkfreelist s" "GC_free_bytes s1 = GC_free_bytes s" "cfg s1 = cfg s"
    using baseD [OF index_stepD(2) [OF s1(2)]] by simp_all
  have nin: "q \<noteq> p" if "n \<le> N_HBLK_FLS" "q \<in> set (L n)" for n q using on_listsD(2) [OF ol that] by simp
  have olM: "on_lists L M {p}" unfolding on_lists_def
  proof (intro conjI allI impI ballI)
    fix q G assume "M q = Some G" "q \<notin> {p}"
    then show "HBLK_IS_FREE G \<longleftrightarrow> q \<in> set (L (right_index G))" using on_listsD(1) [OF ol, of q G] M by simp
  next
    fix n q assume "n \<le> N_HBLK_FLS" "q \<in> set (L n)"
    then show "q \<notin> {p}" "\<exists>G. M q = Some G \<and> right_index G = n" using on_listsD(2) [OF ol, of n q] M by auto
  qed
  have "free_total L M = free_total L (hm0 s)"
  proof (rule free_total_cong)
    fix n q assume "n \<le> N_HBLK_FLS" "q \<in> set (L n)"
    then have "q \<noteq> p" by (rule nin)
    then show "hb_sz (the (M q)) = hb_sz (the (hm0 s q))" using M by simp
  qed
  then have tt: "GC_large_free_bytes s3 + ?size = free_total L M + hb_sz K"
    using same_but_listsD(5) [OF st] b1(1) tot Ksz by (simp add: mult.commute)
  have "lists_ok L s3"
  proof (rule lists_ok_frame [OF lo])
    show "hm s3 q = hm s q" if "n \<le> N_HBLK_FLS" "q \<in> set (L n)" for n q using h3 nin [OF that] by simp
    show "GC_hblkfreelist s3 = GC_hblkfreelist s" "GC_free_bytes s3 = GC_free_bytes s" using s3(4,5) s2(4,5) b1 by simp_all
  qed
  then have b3: "between L s3 p ?size"
    using same_but_listsD(1) [OF st] e3 h03 l olM ir ap Mp Kf tt unfolding between_def by blast
  have k3: "ent s3 p = Hdr k" using k1 e1 e3 by simp
  have H3: "hm s3 p = Some ?H3" using h3 by simp
  have sp3: "span ?H3 = m" using sp unfolding K by (simp add: mult.commute)
  have nx: "p + m = p + span ?H3" using sp3 by simp
  have z3: "?size = hb_sz ?H3" by (simp add: flagged_def)
  have K3: "hm0 s3 p = Some K" using h03 Mp by simp
  obtain r where r: "GC_free_block_ending_at p s3 = Some r"
    "r \<noteq> 0 \<Longrightarrow> \<exists>K. hm0 s3 r = Some K \<and> HBLK_IS_FREE K \<and> r + span K = p"
    "r = 0 \<Longrightarrow> \<forall>q K. hm0 s3 q = Some K \<longrightarrow> HBLK_IS_FREE K \<longrightarrow> q + span K \<noteq> p"
    by (rule free_block_ending_at_spec [OF betweenD(1) [OF b3] betweenD(2) [OF b3] K3]) (rule that)
  obtain s4 L4 J where s4: "(case ent s3 (p + m) of Fwd k \<Rightarrow> if k = 0 then Some s3 else None
      | Hdr j \<Rightarrow> do { N \<leftarrow> hdrs s3 j;
          if HBLK_IS_FREE N \<and> ?size + hb_sz N < 2 ^ 63 then do {
            t1 \<leftarrow> GC_remove_from_fl j s3; t2 \<leftarrow> mod_hdr k (\<lambda>H. H\<lparr>hb_sz := hb_sz H + hb_sz N\<rparr>) t1; GC_remove_header (p + m) t2 }
          else Some s3 }) = Some s4"
    "between L4 s4 p ?size" "ent s4 p = Hdr k" "hm s4 p = Some J" "\<forall>R. hm0 s4 (p + span J) = Some R \<longrightarrow> \<not> HBLK_IS_FREE R"
    "used (hm0 s4) = used (hm0 s3)" "free_area (hm0 s4) = free_area (hm0 s3)" "other_fields s3 s4" "\<forall>q < p. hm0 s4 q = hm0 s3 q"
    by (rule join_next [OF b3 H3 k3 z3 nx]) (rule that)
  have r4: "\<exists>K. hm0 s4 r = Some K \<and> HBLK_IS_FREE K \<and> r + span K = p" if "r \<noteq> 0"
  proof -
    obtain R where R: "hm0 s3 r = Some R" "HBLK_IS_FREE R" "r + span R = p" using r(2) [OF \<open>r \<noteq> 0\<close>] by blast
    then have "r < p" using layD(3) [OF betweenD(2) [OF b3] R(1)] by simp
    then show ?thesis using R s4(9) by auto
  qed
  have r5: "\<forall>q K. hm0 s4 q = Some K \<longrightarrow> HBLK_IS_FREE K \<longrightarrow> q + span K \<noteq> p" if "r = 0"
  proof (intro allI impI notI)
    fix q G assume q: "hm0 s4 q = Some G" "HBLK_IS_FREE G" "q + span G = p"
    then have "q < p" using layD(3) [OF betweenD(2) [OF s4(2)] q(1)] by simp
    then have "hm0 s3 q = Some G" using s4(9) q(1) by simp
    then show False using r(3) [OF that] q(2,3) by blast
  qed
  obtain s5 L5 a ka where s5: "(if r \<noteq> 0 then do { prevhdr \<leftarrow> hdr_of r s4; P \<leftarrow> hdrs s4 prevhdr;
        if hb_sz J + hb_sz P < 2 ^ 63 then do {
          t1 \<leftarrow> GC_remove_from_fl prevhdr s4; t2 \<leftarrow> mod_hdr prevhdr (\<lambda>P. P\<lparr>hb_sz := hb_sz P + hb_sz J\<rparr>) t1;
          t3 \<leftarrow> GC_remove_header p t2; Some (r, prevhdr, t3) }
        else Some (p, k, s4) }
      else Some (p, k, s4)) = Some (a, ka, s5)"
    "between L5 s5 a ?size" "ent s5 a = Hdr ka" "apart (hm0 s5) {}" "used (hm0 s5) = used (hm0 s4)" "free_area (hm0 s5) = free_area (hm0 s4)" "other_fields s4 s5"
    by (rule join_prev [OF s4(2,4,3,5) r4 r5], assumption, assumption) (rule that)
  obtain t L6 where t: "GC_add_to_fl a ka (s5\<lparr>GC_large_free_bytes := GC_large_free_bytes s5 + ?size\<rparr>) = Some t" "heap_inv L6 t" "hm0 t = hm0 s5"
    "ent t = ent s5" "cfg t = cfg s5" "GC_large_free_bytes t = GC_large_free_bytes s5 + ?size"
    by (rule add_between [OF s5(2-4)]) (rule that)
  have J4: "hdrs s4 k = Some J" using ent_hm [OF betweenD(1) [OF s4(2)] s4(3)] s4(4) by auto
  have hdr3: "HDR (p + m) s3 = Some (ent s3 (p + m))" by (rule index_inv_ent(1) [OF betweenD(1) [OF b3]])
  have dm: "divHBLKSZ ?size = m" by (simp add: divHBLKSZ_def)
  show thesis
  proof (rule that)
    show "GC_freehblk p s = Some t"
    proof -
      have c: "(?size = 0 \<or> ?size \<ge> 2 ^ 63) = False" "HBLK_IS_FREE H = False" using sz H(2) by auto
      show ?thesis
        unfolding GC_freehblk_def Hk bind.bind_lunit Let_def m(1) [symmetric] c
        by (simp only: if_False bind.bind_lunit s1(1) s2(1) fl s3(1) dm hdr3 r(1) s4(1) J4 s5(1) prod.case t(1))
    qed
    show "heap_inv L6 t" by (rule t(2))
    show "used (hm0 t) = used M" "free_area (hm0 t) = free_area M" using t(3) s5(5,6) s4(6,7) h03 by simp_all
    show "GC_large_free_bytes t = GC_large_free_bytes s + m * HBLKSIZE" "cfg t = cfg s"
      using t(5,6) s5(7) s4(8) same_but_listsD(4,5) [OF st] b1 by (simp_all add: other_fields_def mult.commute)
  qed
qed

lemma used_not_listed:
  assumes "on_lists L M {}" and "M p = Some H" "\<not> HBLK_IS_FREE H"
  shows "on_lists L M {p}"
  unfolding on_lists_def
proof (intro conjI allI impI ballI)
  fix q K assume "M q = Some K" "q \<notin> {p}"
  then show "HBLK_IS_FREE K \<longleftrightarrow> q \<in> set (L (right_index K))" using on_listsD(1) [OF assms(1)] by blast
next
  fix n q assume n: "n \<le> N_HBLK_FLS" "q \<in> set (L n)"
  then obtain K where K: "M q = Some K" "right_index K = n" using on_listsD(2) [OF assms(1)] by blast
  then show "\<exists>H. M q = Some H \<and> right_index H = n" by blast
  have "HBLK_IS_FREE K" using on_listsD(1) [OF assms(1) K(1)] K(2) n(2) by simp
  then show "q \<notin> {p}" using K(1) assms(2,3) by auto
qed

lemma free_area_new:
  assumes "M p = None \<or> (\<exists>H. M p = Some H \<and> \<not> HBLK_IS_FREE H)" and "HBLK_IS_FREE K"
  shows "free_area (M(p \<mapsto> K)) = free_area M \<union> {p..<p + span K}"
proof (rule set_eqI)
  fix q
  show "q \<in> free_area (M(p \<mapsto> K)) \<longleftrightarrow> q \<in> free_area M \<union> {p..<p + span K}"
  proof
    assume "q \<in> free_area (M(p \<mapsto> K))"
    then show "q \<in> free_area M \<union> {p..<p + span K}" by (auto simp: free_area_def split: if_splits)
  next
    assume q: "q \<in> free_area M \<union> {p..<p + span K}"
    show "q \<in> free_area (M(p \<mapsto> K))"
    proof (cases "q \<in> {p..<p + span K}")
      case True
      then show ?thesis using assms(2) free_areaI [of "M(p \<mapsto> K)" p K q] by simp
    next
      case False
      then obtain r H where r: "M r = Some H" "HBLK_IS_FREE H" "r \<le> q" "q < r + span H" using q by (auto simp: free_area_def)
      then have "r \<noteq> p" using assms(1) by auto
      then show ?thesis using r free_areaI [of "M(p \<mapsto> K)" r H q] by simp
    qed
  qed
qed

text \<open>The header of a block that is being freed.\<close>

definition freed :: "nat \<Rightarrow> hdr \<Rightarrow> hdr" where
  "freed m H = no_links (flagged (H\<lparr>hb_sz := m * HBLKSIZE\<rparr>))"

lemma freed_simps [simp]: "HBLK_IS_FREE (freed m H)" "hb_sz (freed m H) = m * HBLKSIZE" "span (freed m H) = m"
proof -
  have "bit (hb_flags H OR FREE_BLK) 2" by (simp add: bit_or_iff FREE_BLK_def bit_simps)
  then have "(hb_flags H OR FREE_BLK) AND FREE_BLK \<noteq> 0"
    using and_exp_eq_0_iff_not_bit [of "hb_flags H OR FREE_BLK" 2] by (simp add: FREE_BLK_def)
  then show f: "HBLK_IS_FREE (freed m H)" unfolding freed_def by (simp add: HBLK_IS_FREE_def flagged_def)
  show s: "hb_sz (freed m H) = m * HBLKSIZE" unfolding freed_def by (simp add: flagged_def)
  show "span (freed m H) = m" by (rule span_free [OF f s])
qed

lemma freehblk_used:
  assumes v: "heap_inv L s" and H: "hm s p = Some H" "\<not> HBLK_IS_FREE H"
  obtains t L' where "GC_freehblk p s = Some t" "heap_inv L' t" "used (hm0 t) = (used (hm0 s))(p := None)"
    "free_area (hm0 t) = free_area (hm0 s) \<union> {p..<p + span H}"
    "GC_large_free_bytes t = GC_large_free_bytes s + span H * HBLKSIZE" "cfg t = cfg s"
proof -
  note d = heap_invD [OF v]
  note H0 = hm_hm0 [OF H(1)]
  obtain k where k: "ent s p = Hdr k" using hm_hdr [OF d(1) H(1)] by blast
  have m: "span H = OBJ_SZ_TO_BLOCKS (hb_sz H)" "0 < span H" using H(2) layD(3) [OF d(2) H0] by (simp_all add: span_def)
  let ?K = "freed (span H) H" and ?E = "\<lambda>q. if p < q \<and> q < p + span H then Fwd 0 else ent s q" and ?M = "(hm0 s)(p \<mapsto> freed (span H) H)"
  have l: "lay ?E ?M"
  proof (rule lay_put [OF d(2)])
    show "own (hm0 s) p (p + span H)" using own_block [OF d(2) H0] by simp
    show "hm0 s q = None" if "p < q" "q < p + span H" for q using lay_inner [OF d(2) H0] that by simp
  qed (use m layD(2) [OF d(2) H0] k in auto)
  have ir: "in_range ?M" unfolding in_range_def
  proof (intro allI impI)
    fix q G assume G: "?M q = Some G"
    have "p + span (no_links H) \<le> 2 ^ 51" using d(5) H0 unfolding in_range_def by blast
    then show "q + span G \<le> 2 ^ 51" using G d(5) unfolding in_range_def by (cases "q = p") auto
  qed
  have ap: "apart ?M {p}" using d(6) unfolding apart_def by (auto split: if_splits)
  obtain t L' where t: "GC_freehblk p s = Some t" "heap_inv L' t" "used (hm0 t) = used ?M" "free_area (hm0 t) = free_area ?M"
    "GC_large_free_bytes t = GC_large_free_bytes s + span H * HBLKSIZE" "cfg t = cfg s"
    by (rule freehblk_spec [OF d(1,3) k H m freed_def refl refl l _ ir ap d(7)], rule used_not_listed [OF d(4) H0], simp add: H(2)) (rule that)
  have "free_area ?M = free_area (hm0 s) \<union> {p..<p + span H}"
    using free_area_new [of "hm0 s" p "freed (span H) H"] H0 H(2) by simp
  then show thesis using that t by (simp add: used_upd)
qed

section \<open>Adding to the heap\<close>

text \<open>The blocks that belong to some header.\<close>

definition occupied :: "(nat \<Rightarrow> hdr option) \<Rightarrow> nat set" where
  "occupied M = {q. \<exists>p H. M p = Some H \<and> p \<le> q \<and> q < p + span H}"

lemma occupiedI: "M p = Some H \<Longrightarrow> p \<le> q \<Longrightarrow> q < p + span H \<Longrightarrow> q \<in> occupied M"
  by (auto simp: occupied_def)

lemma not_occupied:
  assumes l: "lay E M" and d: "{a..<b} \<inter> occupied M = {}"
  shows "a < b \<Longrightarrow> own M a b" "a \<le> q \<Longrightarrow> q < b \<Longrightarrow> M q = None" "a \<le> q \<Longrightarrow> q < b \<Longrightarrow> E q = Fwd 0"
proof -
  show n: "M q = None" if "a \<le> q" "q < b" for q
  proof (rule ccontr)
    assume "M q \<noteq> None"
    then obtain H where "M q = Some H" by blast
    then have "q \<in> occupied M" using layD(3) [OF l] by (intro occupiedI) auto
    then show False using d that by auto
  qed
  show "own M a b" if ab: "a < b" unfolding own_def
  proof (intro allI impI conjI)
    fix p H assume H: "M p = Some H"
    show "p + span H \<le> a" if "p < a"
    proof (rule ccontr)
      assume c: "\<not> p + span H \<le> a"
      have "a \<in> occupied M" using occupiedI [of M p H a] H c that by simp
      then show False using d ab by auto
    qed
    show "p + span H \<le> b" if "a \<le> p" "p < b" using n [OF that] H by simp
  qed
  show "E q = Fwd 0" if "a \<le> q" "q < b"
  proof (cases "E q")
    case (Hdr k)
    then show ?thesis using layD(1) [OF l, of q] n [OF that] by simp
  next
    case (Fwd k)
    show ?thesis
    proof (cases "k = 0")
      case False
      then obtain p H where "M p = Some H" "p < q" "q < p + span H" using layD(6) [OF l Fwd] by blast
      then have "q \<in> occupied M" by (intro occupiedI) auto
      then show ?thesis using d that by auto
    qed (use Fwd in simp)
  qed
qed

text \<open>Updates of the other variables.\<close>

definition heap_fields where
  "heap_fields s = ((bottoms s, GC_all_nils s, GC_top_index s, GC_all_bottom_indices s, GC_all_bottom_indices_end s),
     (hdrs s, hdr_free_list s, GC_hblkfreelist s, GC_free_bytes s, GC_large_free_bytes s), cfg s)"

lemma heap_frame:
  assumes i: "index_inv s" and f: "heap_fields t = heap_fields s" "next_scratch s \<le> next_scratch t"
  shows "idx_to s t" "ent t = ent s" "hm t = hm s" "hm0 t = hm0 s" "lists_ok L t = lists_ok L s" "heap_inv L t = heap_inv L s" "cfg t = cfg s"
proof -
  note fr = idx_frame [OF i, of t]
  show e: "idx_to s t" "ent t = ent s" "hm t = hm s" "hm0 t = hm0 s" using fr f by (simp_all add: heap_fields_def)
  show "cfg t = cfg s" using f(1) by (simp add: heap_fields_def)
  show l: "lists_ok L t = lists_ok L s" using f(1) e(3) by (simp add: lists_ok_def heap_fields_def)
  show "heap_inv L t = heap_inv L s" using i idx_toD(1) [OF e(1)] e l f(1) by (simp add: heap_inv_def heap_fields_def)
qed

lemma low_blocks_id: "2 \<le> p \<Longrightarrow> low_blocks p b = Some (p, b)"
  by (subst low_blocks.simps) simp

text \<open>The blocks 0 and 1 are left out, with their bytes.\<close>

lemma low_blocks_step:
  assumes "p < 2" and "0 < m" and "m < 2 ^ 52"
  shows "low_blocks p (m * HBLKSIZE) = (if m = 1 then None else low_blocks (p + 1) ((m - 1) * HBLKSIZE))"
proof -
  have e: "m * HBLKSIZE + 2 ^ 64 - HBLKSIZE = (m - 1) * HBLKSIZE + 2 ^ 64" using assms(2) by (cases m) simp_all
  have "(m - 1) * HBLKSIZE < 2 ^ 52 * HBLKSIZE" by (rule mult_less_mono1) (use assms(3) in simp_all)
  then have "(m - 1) * HBLKSIZE < 2 ^ 64" by simp
  then have b: "(m * HBLKSIZE + 2 ^ 64 - HBLKSIZE) mod 2 ^ 64 = (m - 1) * HBLKSIZE" unfolding e by simp
  have c: "(p * HBLKSIZE \<le> HBLKSIZE) = True" "((m - 1) * HBLKSIZE = 0) = (m = 1)" using assms(1,2) by auto
  show ?thesis unfolding low_blocks.simps [of p "m * HBLKSIZE"] Let_def b c if_True ..
qed

lemma low_blocks_spec:
  assumes "0 < m" and "p + m < 2 ^ 52"
  shows "low_blocks p (m * HBLKSIZE) = (if p + m \<le> 2 then None else Some (max 2 p, (p + m - max 2 p) * HBLKSIZE))"
proof -
  consider "p = 0" | "p = 1" | "2 \<le> p" by linarith
  then show ?thesis
  proof cases
    case 1
    then show ?thesis using assms low_blocks_step [of 0 m] low_blocks_step [of 1 "m - 1"] low_blocks_id [of 2]
      by (auto simp: numeral_2_eq_2)
  next
    case 2
    then show ?thesis using assms low_blocks_step [of 1 m] low_blocks_id [of 2] by (auto simp: numeral_2_eq_2)
  next
    case 3
    then show ?thesis using assms low_blocks_id [of p] by (simp add: max_def)
  qed
qed

lemma wrapped_end_id:
  assumes "0 < m" and "p + m \<le> 2 ^ 51"
  shows "wrapped_end p (m * HBLKSIZE) = (m * HBLKSIZE, (p + m) * HBLKSIZE)"
proof -
  have "(p + m) * HBLKSIZE \<le> 2 ^ 51 * HBLKSIZE" using assms(2) by (rule mult_le_mono1)
  then have "p * HBLKSIZE + m * HBLKSIZE < 2 ^ 64" by (simp add: distrib_right)
  then have "(p * HBLKSIZE + m * HBLKSIZE) mod 2 ^ 64 = p * HBLKSIZE + m * HBLKSIZE" by (rule mod_less)
  then show ?thesis using assms(1) by (simp add: wrapped_end_def distrib_right)
qed

text \<open>Memory up to the end of the address space loses its last block, so that its end can be expressed.\<close>

lemma wrapped_end_top:
  assumes "0 < m" and "p + m = 2 ^ 52" and "0 < p"
  shows "wrapped_end p (m * HBLKSIZE) = ((m - 1) * HBLKSIZE, (p + m - 1) * HBLKSIZE)"
proof -
  have "p * HBLKSIZE + m * HBLKSIZE = 2 ^ 52 * HBLKSIZE" using assms(2) by (simp only: distrib_right [symmetric])
  then have e: "(p * HBLKSIZE + m * HBLKSIZE) mod 2 ^ 64 = 0" by simp
  have "m \<le> 2 ^ 52 - 1" using assms(2,3) by linarith
  then have "(m - 1) * HBLKSIZE < 2 ^ 64" by simp
  moreover have "m * HBLKSIZE + 2 ^ 64 - HBLKSIZE = (m - 1) * HBLKSIZE + 2 ^ 64" using assms(1) by (cases m) simp_all
  ultimately have b: "(m * HBLKSIZE + 2 ^ 64 - HBLKSIZE) mod 2 ^ 64 = (m - 1) * HBLKSIZE" by simp
  have "(p + m - 1) * HBLKSIZE = 2 ^ 64 - HBLKSIZE" unfolding assms(2) by simp
  then show ?thesis unfolding wrapped_end_def e Let_def b by simp
qed

text \<open>The state without the index, the headers and the free lists: what lies outside the block structure.\<close>

definition outer :: "gc \<Rightarrow> gc" where
  "outer s = (base s)\<lparr>GC_hblkfreelist := (\<lambda>_. 0), GC_free_bytes := (\<lambda>_. 0), GC_large_free_bytes := 0\<rparr>"

lemma outer_base: "base t = base s \<Longrightarrow> outer t = outer s"
  by (simp add: outer_def)

lemma outer_upd [simp]:
  "outer (s\<lparr>hdrs := a\<rparr>) = outer s" "outer (s\<lparr>hdr_free_list := n\<rparr>) = outer s" "outer (s\<lparr>bottoms := b\<rparr>) = outer s"
  "outer (s\<lparr>GC_hblkfreelist := l\<rparr>) = outer s" "outer (s\<lparr>GC_free_bytes := l\<rparr>) = outer s" "outer (s\<lparr>GC_large_free_bytes := n\<rparr>) = outer s"
  by (simp_all add: outer_def base_def upper_def)

lemma outer_mod_hdr: "mod_hdr k f s = Some t \<Longrightarrow> outer t = outer s"
  by (auto simp: mod_hdr_def bind_eq_Some_conv)

lemma outer_SET_HDR: "SET_HDR p e s = Some t \<Longrightarrow> outer t = outer s"
  by (auto simp: SET_HDR_def bind_eq_Some_conv)

lemma outer_free_hdr: "free_hdr h s = Some t \<Longrightarrow> outer t = outer s"
  by (auto simp: free_hdr_def bind_eq_Some_conv)

lemma outer_remove_header:
  assumes "GC_remove_header h s = Some t"
  shows "outer t = outer s"
proof -
  obtain e where e: "HDR h s = Some e" using assms by (auto simp: GC_remove_header_def bind_eq_Some_conv)
  show ?thesis using assms e
    by (cases e) (auto simp: GC_remove_header_def bind_eq_Some_conv dest!: outer_free_hdr outer_SET_HDR)
qed

lemma outer_no_counts: "no_counts_from h sz hbp s = Some t \<Longrightarrow> outer t = outer s"
proof (induction h sz hbp s rule: no_counts_from.induct)
  case (1 h sz hbp s)
  show ?case
  proof (cases "hbp * HBLKSIZE < h * HBLKSIZE + sz")
    case True
    then obtain s1 where s1: "SET_HDR hbp (Fwd 0) s = Some s1" "no_counts_from h sz (hbp + 1) s1 = Some t"
      using 1(2) unfolding no_counts_from.simps [of h sz hbp s] by (auto simp: bind_eq_Some_conv)
    show ?thesis using 1(1) [OF True s1] outer_SET_HDR [OF s1(1)] by simp
  next
    case False
    then show ?thesis using 1(2) unfolding no_counts_from.simps [of h sz hbp s] by simp
  qed
qed

lemma outer_remove_counts: "GC_remove_counts h sz s = Some t \<Longrightarrow> outer t = outer s"
  by (simp add: GC_remove_counts_def outer_no_counts)

lemma outer_remove_from_fl_at: "GC_remove_from_fl_at k i s = Some t \<Longrightarrow> outer t = outer s"
  by (auto simp: GC_remove_from_fl_at_def bind_eq_Some_conv Let_def split: if_splits dest!: outer_mod_hdr)

lemma outer_remove_from_fl: "GC_remove_from_fl k s = Some t \<Longrightarrow> outer t = outer s"
  by (auto simp: GC_remove_from_fl_def bind_eq_Some_conv dest!: outer_remove_from_fl_at)

lemma outer_add_to_fl: "GC_add_to_fl h k s = Some t \<Longrightarrow> outer t = outer s"
  by (auto simp: GC_add_to_fl_def bind_eq_Some_conv Let_def split: if_splits dest!: outer_mod_hdr)

text \<open>Rules for \<open>m\<close> ends, if at all, with the outer state it has started from.\<close>

definition ends :: "('a \<Rightarrow> bool) \<Rightarrow> 'a option \<Rightarrow> bool" where
  "ends P m \<longleftrightarrow> (\<forall>t. m = Some t \<longrightarrow> P t)"

lemma ends_state:
  assumes "ends (\<lambda>x. outer x = outer s) m" and "\<And>x. outer x = outer s \<Longrightarrow> ends P (f x)"
  shows "ends P (Option.bind m f)"
  using assms by (auto simp: ends_def bind_eq_Some_conv)

lemma ends_block:
  assumes "ends (\<lambda>(h :: nat, k :: nat, x). outer x = outer s) m" and "\<And>h k x. outer x = outer s \<Longrightarrow> ends P (f (h, k, x))"
  shows "ends P (Option.bind m f)"
  using assms by (auto simp: ends_def bind_eq_Some_conv)

lemma ends_value:
  shows "(\<And>x. ends P (f1 x)) \<Longrightarrow> ends P (Option.bind (m1 :: nat option) f1)"
    "(\<And>x. ends P (f2 x)) \<Longrightarrow> ends P (Option.bind (m2 :: hdr option) f2)"
    "(\<And>x. ends P (f3 x)) \<Longrightarrow> ends P (Option.bind (m3 :: entry option) f3)"
  by (auto simp: ends_def bind_eq_Some_conv)

lemma ends_cases:
  shows "ends P a \<Longrightarrow> ends P b \<Longrightarrow> ends P (if c then a else b)" "ends P None" "P x \<Longrightarrow> ends P (Some x)"
    "(\<And>k. ends P (f k)) \<Longrightarrow> (\<And>k. ends P (g k)) \<Longrightarrow> ends P (case e of Fwd k \<Rightarrow> f k | Hdr k \<Rightarrow> g k)"
  by (auto simp: ends_def split: entry.splits)

lemma ends_ops:
  assumes "outer u = outer s"
  shows "ends (\<lambda>x. outer x = outer s) (mod_hdr k f u)" "ends (\<lambda>x. outer x = outer s) (GC_remove_counts h sz u)"
    "ends (\<lambda>x. outer x = outer s) (GC_remove_from_fl k u)" "ends (\<lambda>x. outer x = outer s) (GC_remove_header h u)"
    "ends (\<lambda>x. outer x = outer s) (GC_add_to_fl h k u)"
  using assms outer_mod_hdr outer_remove_counts outer_remove_from_fl outer_remove_header outer_add_to_fl
  by (simp_all add: ends_def)

lemma outer_freehblk:
  assumes "GC_freehblk p s = Some t"
  shows "outer t = outer s"
proof -
  have "ends (\<lambda>x. outer x = outer s) (GC_freehblk p s)"
    unfolding GC_freehblk_def Let_def
    by (rule ends_ops ends_cases ends_state [where s = s] ends_block [where s = s] ends_value prod.case [THEN iffD2] | simp)+
  then show ?thesis using assms by (simp add: ends_def)
qed

lemma outerD:
  assumes "outer t = outer s"
  shows "GC_heapsize t = GC_heapsize s" "GC_heap_sects t = GC_heap_sects s" "GC_collect_at_heapsize t = GC_collect_at_heapsize s"
    "GC_least_plausible_heap_addr t = GC_least_plausible_heap_addr s" "GC_greatest_plausible_heap_addr t = GC_greatest_plausible_heap_addr s"
  using arg_cong [OF assms, of GC_heapsize] arg_cong [OF assms, of GC_heap_sects] arg_cong [OF assms, of GC_collect_at_heapsize]
    arg_cong [OF assms, of GC_least_plausible_heap_addr] arg_cong [OF assms, of GC_greatest_plausible_heap_addr]
  by (simp_all add: outer_def base_def upper_def)

text \<open>What \<open>GC_add_to_heap\<close> does to the variables that describe the extent of the heap.\<close>

definition extended :: "nat \<Rightarrow> nat \<Rightarrow> gc \<Rightarrow> gc \<Rightarrow> bool" where
  "extended p m s t \<longleftrightarrow>
     GC_heapsize t = (GC_heapsize s + m * HBLKSIZE) mod 2 ^ 64
     \<and> GC_heap_sects t = GC_heap_sects s @ [(p * HBLKSIZE, m * HBLKSIZE)]
     \<and> GC_collect_at_heapsize t = (if (GC_collect_at_heapsize s + m * HBLKSIZE) mod 2 ^ 64 < GC_heapsize t then 2 ^ 64 - 1
          else (GC_collect_at_heapsize s + m * HBLKSIZE) mod 2 ^ 64)
     \<and> GC_least_plausible_heap_addr t = (if p * HBLKSIZE \<le> GC_least_plausible_heap_addr s \<or> GC_least_plausible_heap_addr s = 0
          then p * HBLKSIZE - 8 else GC_least_plausible_heap_addr s)
     \<and> GC_greatest_plausible_heap_addr t = max (GC_greatest_plausible_heap_addr s) ((p + m) * HBLKSIZE)
     \<and> outer t = (outer s)\<lparr>GC_heapsize := GC_heapsize t, GC_heap_sects := GC_heap_sects t,
          GC_collect_at_heapsize := GC_collect_at_heapsize t, GC_least_plausible_heap_addr := GC_least_plausible_heap_addr t,
          GC_greatest_plausible_heap_addr := GC_greatest_plausible_heap_addr t\<rparr>"

lemma add_to_heap_spec:
  assumes v: "heap_inv L s" and nf: "never_fails s" and p: "2 \<le> p" "0 < m" "p + m \<le> 2 ^ 51" and o: "{p..<p + m} \<inter> occupied (hm0 s) = {}"
    and n: "length (GC_heap_sects s) < MAX_HEAP_SECTS"
  obtains t L' where "GC_add_to_heap p (m * HBLKSIZE) s = Some t" "heap_inv L' t" "used (hm0 t) = used (hm0 s)"
    "free_area (hm0 t) = free_area (hm0 s) \<union> {p..<p + m}" "GC_large_free_bytes t = GC_large_free_bytes s + m * HBLKSIZE" "cfg t = cfg s"
    "extended p m s t"
proof -
  note d = heap_invD [OF v]
  have ab: "p < p + m" using p(2) by simp
  note no = not_occupied [OF d(2) o]
  let ?b = "m * HBLKSIZE"
  obtain r s1 J where s1: "GC_install_header p s = Some (r, s1)" "r \<noteq> 0" "idx_to s s1" "base s1 = base s" "never_fails s1"
    "ent s1 = (ent s)(p := Hdr r)" "hm s1 = (hm s)(p \<mapsto> J)" using install_header_hm [OF d(1) nf, of p] by blast
  let ?s2 = "s1\<lparr>GC_heap_sects := GC_heap_sects s1 @ [(p * HBLKSIZE, ?b)]\<rparr>"
  have "heap_fields ?s2 = heap_fields s1" by (simp add: heap_fields_def cfg_def)
  note f2 = heap_frame [OF idx_toD(1) [OF s1(3)] this, simplified]
  note b1 = baseD [OF s1(4)]
  have "ent ?s2 p = Hdr r" "hm ?s2 p = Some J" using f2(2,3) s1(6,7) by simp_all
  note e2 = this
  let ?H = "J\<lparr>hb_sz := ?b, hb_flags := 0\<rparr>"
  obtain s3 where s3: "mod_hdr r (\<lambda>H. H\<lparr>hb_sz := ?b, hb_flags := 0\<rparr>) ?s2 = Some s3" "same_but_lists ?s2 s3" "hm s3 = (hm ?s2)(p \<mapsto> ?H)"
    "GC_hblkfreelist s3 = GC_hblkfreelist ?s2" "GC_free_bytes s3 = GC_free_bytes ?s2"
    by (rule mod_hdr_lists [OF idx_toD(1) [OF f2(1)] e2, of "\<lambda>H. H\<lparr>hb_sz := ?b, hb_flags := 0\<rparr>"]) (rule that)
  have e3: "ent s3 = (ent s)(p := Hdr r)" using same_but_listsD(3) [OF s3(2)] f2(2) s1(6) by simp
  have h3: "hm s3 = (hm s)(p \<mapsto> ?H)" using s3(3) f2(3) s1(7) by simp
  have c3: "cfg s3 = cfg s" "GC_large_free_bytes s3 = GC_large_free_bytes s" using same_but_listsD(4,5) [OF s3(2)] f2(7) b1 by simp_all
  have h03: "hm0 s3 = (hm0 s)(p \<mapsto> no_links ?H)" by (rule ext) (simp add: hm0_def h3)
  have Hf: "\<not> HBLK_IS_FREE ?H" by (simp add: HBLK_IS_FREE_def)
  have m': "m = OBJ_SZ_TO_BLOCKS (hb_sz ?H)" by (simp add: OBJ_SZ_TO_BLOCKS_def divHBLKSZ_def)
  let ?E = "\<lambda>q. if p < q \<and> q < p + m then Fwd 0 else ent s3 q" and ?M = "(hm0 s3)(p \<mapsto> freed m ?H)"
  have M: "?M = (hm0 s)(p \<mapsto> freed m ?H)" using h03 by simp
  have p0: "hm0 s p = None" using no(2) p(2) by simp
  have l: "lay ?E ?M" unfolding M
  proof (rule lay_put [OF d(2) no(1) [OF ab]])
    show "hm0 s q = None" if "p < q" "q < p + m" for q using no(2) that by simp
  qed (use p e3 in auto)
  have nin: "q \<noteq> p" if "k \<le> N_HBLK_FLS" "q \<in> set (L k)" for k q using on_listsD(2) [OF d(4) that] p0 by auto
  have lo: "lists_ok L s3"
  proof (rule lists_ok_frame [OF d(3)])
    show "hm s3 q = hm s q" if "k \<le> N_HBLK_FLS" "q \<in> set (L k)" for k q using h3 nin [OF that] by simp
    show "GC_hblkfreelist s3 = GC_hblkfreelist s" "GC_free_bytes s3 = GC_free_bytes s" using s3(4,5) b1 by simp_all
  qed
  have ol: "on_lists L (hm0 s3) {p}" unfolding on_lists_def h03
  proof (intro conjI allI impI ballI)
    fix q G assume "((hm0 s)(p \<mapsto> no_links ?H)) q = Some G" "q \<notin> {p}"
    then show "HBLK_IS_FREE G \<longleftrightarrow> q \<in> set (L (right_index G))" using on_listsD(1) [OF d(4), of q G] by simp
  next
    fix k q assume "k \<le> N_HBLK_FLS" "q \<in> set (L k)"
    then show "q \<notin> {p}" "\<exists>G. ((hm0 s)(p \<mapsto> no_links ?H)) q = Some G \<and> right_index G = k"
      using on_listsD(2) [OF d(4), of k q] nin by auto
  qed
  have ir: "in_range ?M" unfolding M in_range_def
  proof (intro allI impI)
    fix q G assume "((hm0 s)(p \<mapsto> freed m ?H)) q = Some G"
    then show "q + span G \<le> 2 ^ 51" using p(3) d(5) unfolding in_range_def by (cases "q = p") auto
  qed
  have ap: "apart ?M {p}" unfolding M using d(6) unfolding apart_def by (auto split: if_splits)
  have "free_total L (hm0 s3) = free_total L (hm0 s)"
  proof (rule free_total_cong)
    fix k q assume "k \<le> N_HBLK_FLS" "q \<in> set (L k)"
    then have "q \<noteq> p" by (rule nin)
    then show "hb_sz (the (hm0 s3 q)) = hb_sz (the (hm0 s q))" by (simp add: h03)
  qed
  then have tot: "GC_large_free_bytes s3 = free_total L (hm0 s3)" using c3(2) d(7) by simp
  have k3: "ent s3 p = Hdr r" "hm s3 p = Some ?H" using e3 h3 by simp_all
  obtain s4 L' where s4: "GC_freehblk p s3 = Some s4" "heap_inv L' s4" "used (hm0 s4) = used ?M" "free_area (hm0 s4) = free_area ?M"
    "GC_large_free_bytes s4 = GC_large_free_bytes s3 + m * HBLKSIZE" "cfg s4 = cfg s3"
    by (rule freehblk_spec [OF same_but_listsD(1) [OF s3(2)] lo k3(1) k3(2) Hf m' p(2) freed_def refl refl l ol ir ap tot]) (rule that)
  have um: "used ?M = used (hm0 s)" unfolding M using p0 by (auto simp: used_upd used_def)
  have fa: "free_area ?M = free_area (hm0 s) \<union> {p..<p + m}" unfolding M using free_area_new [of "hm0 s" p "freed m ?H"] p0 by simp
  define s5 where "s5 = s4\<lparr>GC_heapsize := (GC_heapsize s4 + ?b) mod 2 ^ 64, GC_collect_at_heapsize :=
    (if (GC_collect_at_heapsize s4 + ?b) mod 2 ^ 64 < (GC_heapsize s4 + ?b) mod 2 ^ 64 then 2 ^ 64 - 1 else (GC_collect_at_heapsize s4 + ?b) mod 2 ^ 64)\<rparr>"
  define s6 where "s6 = (if p * HBLKSIZE \<le> GC_least_plausible_heap_addr s5 \<or> GC_least_plausible_heap_addr s5 = 0
    then s5\<lparr>GC_least_plausible_heap_addr := p * HBLKSIZE - 8\<rparr> else s5)"
  define t where "t = (if (p * HBLKSIZE + ?b) mod 2 ^ 64 \<ge> GC_greatest_plausible_heap_addr s6
    then s6\<lparr>GC_greatest_plausible_heap_addr := (p + m) * HBLKSIZE\<rparr> else s6)"
  have tf: "heap_fields t = heap_fields s4" "next_scratch t = next_scratch s4"
    by (simp_all add: t_def s6_def s5_def heap_fields_def cfg_def)
  note f = heap_frame [OF heap_invD(1) [OF s4(2)] tf(1)]
  have lf: "GC_large_free_bytes t = GC_large_free_bytes s4" using tf(1) by (simp add: heap_fields_def)
  show thesis
  proof (rule that)
    have c: "(length (GC_heap_sects s) \<ge> MAX_HEAP_SECTS) = False" "(?b = 0) = False" "(r = 0) = False" using n p(2) s1(2) by auto
    show "GC_add_to_heap p ?b s = Some t"
      unfolding GC_add_to_heap_def c low_blocks_id [OF p(1)] Let_def t_def s6_def s5_def
      by (simp only: if_False option.case prod.case c wrapped_end_id [OF p(2,3)] s1(1) bind.bind_lunit s3(1) s4(1))
    show "heap_inv L' t" "used (hm0 t) = used (hm0 s)" "free_area (hm0 t) = free_area (hm0 s) \<union> {p..<p + m}"
      "GC_large_free_bytes t = GC_large_free_bytes s + m * HBLKSIZE" "cfg t = cfg s"
      using f(4,6,7) tf(2) lf s4(2-6) um fa c3 by simp_all
    have o4: "outer s4 = outer ?s2" using outer_freehblk [OF s4(1)] outer_mod_hdr [OF s3(1)] by simp
    note D1 = outerD [OF outer_base [OF s1(4)]] and D4 = outerD [OF o4]
    have "outer (x\<lparr>GC_heap_sects := l\<rparr>) = (outer x)\<lparr>GC_heap_sects := l\<rparr>" for x l by (simp add: outer_def base_def upper_def)
    then have "outer ?s2 = (outer s)\<lparr>GC_heap_sects := GC_heap_sects s @ [(p * HBLKSIZE, ?b)]\<rparr>"
      unfolding D1 outer_base [OF s1(4), symmetric] .
    then have o4': "outer s4 = (outer s)\<lparr>GC_heap_sects := GC_heap_sects s @ [(p * HBLKSIZE, ?b)]\<rparr>" using o4 by simp
    have "(p + m) * HBLKSIZE \<le> 2 ^ 51 * HBLKSIZE" using p(3) by (rule mult_le_mono1)
    then have w: "(p * HBLKSIZE + ?b) mod 2 ^ 64 = (p + m) * HBLKSIZE" by (simp add: distrib_right)
    have F: "GC_heapsize t = (GC_heapsize s + ?b) mod 2 ^ 64" "GC_heap_sects t = GC_heap_sects s @ [(p * HBLKSIZE, ?b)]"
      "GC_collect_at_heapsize t = (if (GC_collect_at_heapsize s + ?b) mod 2 ^ 64 < (GC_heapsize s + ?b) mod 2 ^ 64 then 2 ^ 64 - 1
         else (GC_collect_at_heapsize s + ?b) mod 2 ^ 64)"
      "GC_least_plausible_heap_addr t = (if p * HBLKSIZE \<le> GC_least_plausible_heap_addr s \<or> GC_least_plausible_heap_addr s = 0
          then p * HBLKSIZE - 8 else GC_least_plausible_heap_addr s)"
      "GC_greatest_plausible_heap_addr t = max (GC_greatest_plausible_heap_addr s) ((p + m) * HBLKSIZE)"
      using D1 D4 unfolding t_def s6_def s5_def w by (simp_all add: max_def)
    have "outer t = (outer s4)\<lparr>GC_heapsize := GC_heapsize t, GC_collect_at_heapsize := GC_collect_at_heapsize t,
        GC_least_plausible_heap_addr := GC_least_plausible_heap_addr t, GC_greatest_plausible_heap_addr := GC_greatest_plausible_heap_addr t\<rparr>"
      unfolding t_def s6_def s5_def by (simp add: outer_def base_def upper_def)
    then show "extended p m s t" unfolding extended_def using F o4' by simp
  qed
qed

text \<open>The same for memory that may start at the blocks 0 and 1.\<close>

lemma add_to_heap_any:
  assumes v: "heap_inv L s" and nf: "never_fails s" and p: "0 < m" "p + m \<le> 2 ^ 51" and o: "{max 2 p..<p + m} \<inter> occupied (hm0 s) = {}"
    and n: "length (GC_heap_sects s) < MAX_HEAP_SECTS"
  obtains t L' where "GC_add_to_heap p (m * HBLKSIZE) s = Some t" "heap_inv L' t" "used (hm0 t) = used (hm0 s)"
    "free_area (hm0 t) = free_area (hm0 s) \<union> {max 2 p..<p + m}"
    "GC_large_free_bytes t = GC_large_free_bytes s + (p + m - max 2 p) * HBLKSIZE" "cfg t = cfg s"
    "if p + m \<le> 2 then t = s else extended (max 2 p) (p + m - max 2 p) s t"
proof -
  have lt: "p + m < 2 ^ 52" using p(2) by simp
  note low = low_blocks_spec [OF p(1) lt]
  show thesis
  proof (cases "p + m \<le> 2")
    case True
    have "GC_add_to_heap p (m * HBLKSIZE) s = Some s" using n True low by (simp add: GC_add_to_heap_def)
    then show thesis by (rule that [OF _ v]) (use True in auto)
  next
    case False
    let ?p = "max 2 p" and ?m = "p + m - max 2 p"
    have b: "2 \<le> ?p" "0 < ?m" "?p + ?m = p + m" using False p(1) by (auto simp: max_def)
    have le: "?p + ?m \<le> 2 ^ 51" using p(2) unfolding b(3) .
    have o': "{?p..<?p + ?m} \<inter> occupied (hm0 s) = {}" unfolding b(3) by (rule o)
    obtain t L' where t: "GC_add_to_heap ?p (?m * HBLKSIZE) s = Some t" "heap_inv L' t" "used (hm0 t) = used (hm0 s)"
      "free_area (hm0 t) = free_area (hm0 s) \<union> {?p..<?p + ?m}" "GC_large_free_bytes t = GC_large_free_bytes s + ?m * HBLKSIZE" "cfg t = cfg s"
      "extended ?p ?m s t"
      by (rule add_to_heap_spec [OF v nf b(1,2) le o' n]) (rule that)
    have "GC_add_to_heap p (m * HBLKSIZE) s = GC_add_to_heap ?p (?m * HBLKSIZE) s"
      unfolding GC_add_to_heap_def low low_blocks_id [OF b(1)] using False by simp
    then show thesis using that t False unfolding b(3) by simp
  qed
qed

end
