(* ===== verification/GcAlloc.thy ===== *)
theory GcAlloc
  imports GcHeap
begin

text \<open>
  What allocating a block of the heap does: the search of the free lists, the choice of a part of a
  block that is not black listed, its separation from the rest, and its header.
\<close>

section \<open>The header of a new object\<close>

lemma and_or_free: "(w OR v) AND FREE_BLK = 0 \<longleftrightarrow> w AND FREE_BLK = 0 \<and> v AND FREE_BLK = 0"
proof -
  have f: "FREE_BLK = 2 ^ 2" by (simp add: FREE_BLK_def)
  show ?thesis unfolding f and_exp_eq_0_iff_not_bit by (simp add: bit_or_iff)
qed

lemma other_flags [simp]: "LARGE_BLOCK AND FREE_BLK = 0" "HAS_DISCLAIM AND FREE_BLK = 0" "MARK_UNCONDITIONALLY AND FREE_BLK = 0"
  by (simp_all add: LARGE_BLOCK_def HAS_DISCLAIM_def MARK_UNCONDITIONALLY_def FREE_BLK_def)

lemma index_inv_scratch: "index_inv s \<Longrightarrow> 0 < next_scratch s"
  using idx_okD(4) by (elim index_invE)

lemma add_map_entry_spec:
  assumes "never_fails s" and "index_inv s"
  obtains t where "GC_add_map_entry g s = (True, t)" "heap_fields t = heap_fields s" "next_scratch s \<le> next_scratch t"
proof -
  have n: "scratch_alloc s = (next_scratch s, s\<lparr>next_scratch := next_scratch s + 1\<rparr>)" "next_scratch s \<noteq> 0"
    using assms(1) index_inv_scratch [OF assms(2)] by (simp_all add: scratch_alloc_def never_fails_def)
  show thesis
  proof (cases "GC_obj_map s (if g > BYTES_TO_GRANULES MAXOBJBYTES then 0 else g) = 0")
    case False
    then show thesis using that [of s] by (simp add: GC_add_map_entry_def Let_def)
  next
    case True
    define u where "u = snd (GC_add_map_entry g s)"
    have "GC_add_map_entry g s = (True, u)" "heap_fields u = heap_fields s" "next_scratch s \<le> next_scratch u"
      using True n by (simp_all add: u_def GC_add_map_entry_def Let_def heap_fields_def cfg_def)
    then show thesis using that by blast
  qed
qed

text \<open>The header that \<open>setup_header\<close> leaves: in use, with the size and the kind.\<close>

definition set_up :: "nat \<Rightarrow> nat \<Rightarrow> nat \<Rightarrow> 8 word \<Rightarrow> hdr \<Rightarrow> bool" where
  "set_up h sz kind fl H \<longleftrightarrow> \<not> HBLK_IS_FREE H \<and> hb_sz H = sz \<and> hb_block H = h \<and> hb_obj_kind H = kind mod 256
     \<and> (sz > MAXOBJBYTES \<longleftrightarrow> hb_flags H AND LARGE_BLOCK \<noteq> 0)
     \<and> (hb_flags H AND IGNORE_OFF_PAGE \<noteq> 0 \<longleftrightarrow> fl AND IGNORE_OFF_PAGE \<noteq> 0) \<and> hb_n_marks H = 0
     \<and> (\<forall>i. hb_marks H i \<longleftrightarrow> i = FINAL_MARK_BIT sz)"

lemma set_up_no_links [simp]: "set_up h sz kind fl (no_links H) = set_up h sz kind fl H"
  by (simp add: set_up_def) (simp add: no_links_def)

lemma large_flag: "fl AND LARGE_BLOCK = 0 \<Longrightarrow> (let fl1 = (if b then fl OR LARGE_BLOCK else fl); fl2 = (if c then fl1 OR HAS_DISCLAIM else fl1);
    fl3 = (if d then fl2 OR MARK_UNCONDITIONALLY else fl2) in fl3 AND LARGE_BLOCK \<noteq> 0 \<longleftrightarrow> b)"
proof -
  assume a: "fl AND LARGE_BLOCK = 0"
  have o: "(w OR v) AND LARGE_BLOCK = 0 \<longleftrightarrow> w AND LARGE_BLOCK = 0 \<and> v AND LARGE_BLOCK = 0" for w v :: "8 word"
  proof -
    have f: "LARGE_BLOCK = 2 ^ 5" by (simp add: LARGE_BLOCK_def)
    show ?thesis unfolding f and_exp_eq_0_iff_not_bit by (simp add: bit_or_iff)
  qed
  have "HAS_DISCLAIM AND LARGE_BLOCK = 0" "MARK_UNCONDITIONALLY AND LARGE_BLOCK = 0" "LARGE_BLOCK AND LARGE_BLOCK \<noteq> 0"
    by (simp_all add: HAS_DISCLAIM_def MARK_UNCONDITIONALLY_def LARGE_BLOCK_def)
  then show ?thesis using a by (simp add: Let_def o)
qed

lemma and_or_ignore: "(w OR v) AND IGNORE_OFF_PAGE = 0 \<longleftrightarrow> w AND IGNORE_OFF_PAGE = 0 \<and> v AND IGNORE_OFF_PAGE = 0"
proof -
  have f: "IGNORE_OFF_PAGE = 2 ^ 0" by (simp add: IGNORE_OFF_PAGE_def)
  show ?thesis unfolding f and_exp_eq_0_iff_not_bit by (simp add: bit_or_iff)
qed

lemma setup_header_spec:
  assumes i: "index_inv s" and nf: "never_fails s" and k: "ent s h = Hdr k" and H: "hm s h = Some H"
    and fl: "fl AND FREE_BLK = 0" "fl AND LARGE_BLOCK = 0" and sz: "0 < sz"
  obtains t K where "setup_header k h sz kind fl s = Some (True, t)" "same_but_lists s t" "hm t = (hm s)(h \<mapsto> K)" "set_up h sz kind fl K"
    "GC_hblkfreelist t = GC_hblkfreelist s" "GC_free_bytes t = GC_free_bytes s"
proof -
  define fl3 where "fl3 = (let fl1 = (if sz > MAXOBJBYTES then fl OR LARGE_BLOCK else fl);
    fl2 = (if ok_disclaim_proc s kind then fl1 OR HAS_DISCLAIM else fl1) in (if ok_mark_unconditionally s kind then fl2 OR MARK_UNCONDITIONALLY else fl2))"
  define descr where "descr = (if ok_relocate_descr s kind then ok_descriptor s kind + sz else ok_descriptor s kind)"
  have ff: "fl3 AND FREE_BLK = 0" using fl(1) by (simp add: fl3_def Let_def and_or_free)
  have "LARGE_BLOCK AND IGNORE_OFF_PAGE = 0" "HAS_DISCLAIM AND IGNORE_OFF_PAGE = 0" "MARK_UNCONDITIONALLY AND IGNORE_OFF_PAGE = 0"
    by (simp_all add: LARGE_BLOCK_def HAS_DISCLAIM_def MARK_UNCONDITIONALLY_def IGNORE_OFF_PAGE_def)
  then have gf: "fl3 AND IGNORE_OFF_PAGE \<noteq> 0 \<longleftrightarrow> fl AND IGNORE_OFF_PAGE \<noteq> 0" by (simp add: fl3_def Let_def and_or_ignore)
  have lf: "fl3 AND LARGE_BLOCK \<noteq> 0 \<longleftrightarrow> sz > MAXOBJBYTES" unfolding fl3_def using large_flag [OF fl(2)] by (simp add: Let_def)
  let ?f1 = "\<lambda>H. H\<lparr>hb_sz := sz, hb_obj_kind := kind mod 256, hb_flags := fl3, hb_block := h, hb_descr := descr\<rparr>"
  obtain s1 where s1: "mod_hdr k ?f1 s = Some s1" "same_but_lists s s1" "hm s1 = (hm s)(h \<mapsto> ?f1 H)"
    "GC_hblkfreelist s1 = GC_hblkfreelist s" "GC_free_bytes s1 = GC_free_bytes s"
    by (rule mod_hdr_lists [OF i k H, of ?f1]) (rule that)
  have nf1: "never_fails s1" using nf same_but_listsD(6) [OF s1(2)] by simp
  obtain s2 where s2: "GC_add_map_entry (BYTES_TO_GRANULES sz) s1 = (True, s2)" "heap_fields s2 = heap_fields s1" "next_scratch s1 \<le> next_scratch s2"
    by (rule add_map_entry_spec [OF nf1 same_but_listsD(1) [OF s1(2)]]) (rule that)
  note f2 = heap_frame [OF same_but_listsD(1) [OF s1(2)] s2(2,3)]
  have l2: "GC_large_free_bytes s2 = GC_large_free_bytes s1" "GC_hblkfreelist s2 = GC_hblkfreelist s1" "GC_free_bytes s2 = GC_free_bytes s1"
    using s2(2) by (simp_all add: heap_fields_def)
  have st2: "same_but_lists s1 s2" using f2 l2 by (simp add: same_but_lists_def)
  have k2: "ent s2 h = Hdr k" "hm s2 h = Some (?f1 H)" using f2(2,3) same_but_listsD(3) [OF s1(2)] k s1(3) by simp_all
  let ?f3 = "\<lambda>H. H\<lparr>hb_map := GC_obj_map s2 (if hb_flags H AND LARGE_BLOCK \<noteq> 0 then 0 else BYTES_TO_GRANULES sz)\<rparr>"
  obtain s3 where s3: "mod_hdr k ?f3 s2 = Some s3" "same_but_lists s2 s3" "hm s3 = (hm s2)(h \<mapsto> ?f3 (?f1 H))"
    "GC_hblkfreelist s3 = GC_hblkfreelist s2" "GC_free_bytes s3 = GC_free_bytes s2"
    by (rule mod_hdr_lists [OF idx_toD(1) [OF f2(1)] k2, of ?f3]) (rule that)
  have k3: "ent s3 h = Hdr k" "hm s3 h = Some (?f3 (?f1 H))" using same_but_listsD(3) [OF s3(2)] k2 s3(3) by simp_all
  let ?f4 = "\<lambda>H. (GC_clear_hdr_marks H)\<lparr>hb_last_reclaimed := GC_gc_no s2 mod 2 ^ 16\<rparr>"
  obtain t where t: "mod_hdr k ?f4 s3 = Some t" "same_but_lists s3 t" "hm t = (hm s3)(h \<mapsto> ?f4 (?f3 (?f1 H)))"
    "GC_hblkfreelist t = GC_hblkfreelist s3" "GC_free_bytes t = GC_free_bytes s3"
    by (rule mod_hdr_lists [OF same_but_listsD(1) [OF s3(2)] k3, of ?f4]) (rule that)
  show thesis
  proof (rule that)
    have z: "(sz = 0) = False" using sz by simp
    show "setup_header k h sz kind fl s = Some (True, t)"
      unfolding setup_header_def using s1(1) [unfolded fl3_def descr_def Let_def]
      by (simp only: Let_def bind.bind_lunit s2(1) prod.case z simp_thms if_False s3(1) t(1))
    show "same_but_lists s t" using same_but_lists_trans [OF s1(2) same_but_lists_trans [OF st2 same_but_lists_trans [OF s3(2) t(2)]]] .
    show "hm t = (hm s)(h \<mapsto> ?f4 (?f3 (?f1 H)))" unfolding t(3) s3(3) f2(3) s1(3) by (rule ext) simp
    show "set_up h sz kind fl (?f4 (?f3 (?f1 H)))"
      using ff lf gf by (simp add: set_up_def GC_clear_hdr_marks_def HBLK_IS_FREE_def)
    show "GC_hblkfreelist t = GC_hblkfreelist s" "GC_free_bytes t = GC_free_bytes s" using t(4,5) s3(4,5) l2 s1(4,5) by simp_all
  qed
qed

section \<open>A block that is being taken\<close>

definition without :: "(nat \<Rightarrow> nat list) \<Rightarrow> nat \<Rightarrow> nat \<Rightarrow> (nat \<Rightarrow> nat list)" where
  "without L n p = L(n := remove1 p (L n))"

text \<open>The free block \<open>p\<close> is on the list \<open>n\<close>, which need not be the list for its size.\<close>

definition near :: "(nat \<Rightarrow> nat list) \<Rightarrow> gc \<Rightarrow> nat \<Rightarrow> nat \<Rightarrow> bool" where
  "near L s p n \<longleftrightarrow> index_inv s \<and> lay (ent s) (hm0 s) \<and> lists_ok L s \<and> n \<le> N_HBLK_FLS \<and> p \<in> set (L n)
     \<and> (\<exists>H. hm0 s p = Some H \<and> HBLK_IS_FREE H) \<and> on_lists (without L n p) (hm0 s) {p} \<and> in_range (hm0 s)
     \<and> apart ((hm0 s)(p := None)) {} \<and> GC_large_free_bytes s = free_total L (hm0 s)"

text \<open>
  The block \<open>p\<close> is on no list; with a header for \<open>a\<close> blocks that are in use, and their counts, the
  layout is as it should be; \<open>e\<close> bytes are counted as free that are not on the lists.
\<close>

definition ready :: "(nat \<Rightarrow> nat list) \<Rightarrow> gc \<Rightarrow> nat \<Rightarrow> nat \<Rightarrow> nat \<Rightarrow> bool" where
  "ready L s p a e \<longleftrightarrow> index_inv s \<and> lists_ok L s \<and> hm0 s p \<noteq> None \<and> 0 < a \<and> p + a \<le> 2 ^ 51
     \<and> (\<forall>K. \<not> HBLK_IS_FREE K \<longrightarrow> span K = a \<longrightarrow>
          lay (\<lambda>q. if p < q \<and> q < p + a then Fwd (min MAX_JUMP (q - p)) else ent s q) ((hm0 s)(p \<mapsto> K)))
     \<and> on_lists L ((hm0 s)(p := None)) {} \<and> in_range ((hm0 s)(p := None)) \<and> apart ((hm0 s)(p := None)) {}
     \<and> GC_large_free_bytes s = free_total L ((hm0 s)(p := None)) + e"

lemma nearD:
  assumes "near L s p n"
  shows "index_inv s" "lay (ent s) (hm0 s)" "lists_ok L s" "n \<le> N_HBLK_FLS" "p \<in> set (L n)" "\<exists>H. hm0 s p = Some H \<and> HBLK_IS_FREE H"
    "on_lists (without L n p) (hm0 s) {p}" "in_range (hm0 s)" "apart ((hm0 s)(p := None)) {}" "GC_large_free_bytes s = free_total L (hm0 s)"
  using assms unfolding near_def by blast+

lemma readyD:
  assumes "ready L s p a e"
  shows "index_inv s" "lists_ok L s" "hm0 s p \<noteq> None" "0 < a" "p + a \<le> 2 ^ 51"
    "\<not> HBLK_IS_FREE K \<Longrightarrow> span K = a \<Longrightarrow>
       lay (\<lambda>q. if p < q \<and> q < p + a then Fwd (min MAX_JUMP (q - p)) else ent s q) ((hm0 s)(p \<mapsto> K))"
    "on_lists L ((hm0 s)(p := None)) {}" "in_range ((hm0 s)(p := None))" "apart ((hm0 s)(p := None)) {}"
    "GC_large_free_bytes s = free_total L ((hm0 s)(p := None)) + e"
  using assms unfolding ready_def by blast+

lemma without_split: "L n = xs @ p # ys \<Longrightarrow> p \<notin> set xs \<Longrightarrow> without L n p = L(n := xs @ ys)"
  by (simp add: without_def remove1_append)

lemma list_split:
  assumes "lists_ok L s" and "n \<le> N_HBLK_FLS" and "p \<in> set (L n)"
  obtains xs ys where "L n = xs @ p # ys" "without L n p = L(n := xs @ ys)"
proof -
  obtain xs ys where xs: "L n = xs @ p # ys" using assms(3) by (meson split_list)
  then have "p \<notin> set xs" using lists_okD(3) [OF assms(1,2)] by simp
  then show thesis using that xs without_split by metis
qed

lemma without_sub: "q \<in> set (without L n p m) \<Longrightarrow> q \<in> set (L m)"
  by (auto simp: without_def split: if_splits dest: in_set_remove1 set_mp [OF set_remove1_subset])

lemma without_mem:
  assumes "lists_ok L s" and "n \<le> N_HBLK_FLS" and "p \<in> set (L n)" and "m \<le> N_HBLK_FLS"
  shows "q \<in> set (without L n p m) \<longleftrightarrow> q \<in> set (L m) \<and> q \<noteq> p"
proof -
  obtain xs ys where L: "L n = xs @ p # ys" "without L n p = L(n := xs @ ys)" using list_split [OF assms(1-3)] .
  show ?thesis
  proof (cases "q = p")
    case True
    then show ?thesis using lists_disjoint(1) [OF assms(1,2) L(1) assms(4)] unfolding L(2) by blast
  next
    case False
    then show ?thesis using lists_disjoint(3) [OF assms(1,2) L(1) assms(4) False] unfolding L(2) by blast
  qed
qed

lemma heap_near:
  assumes v: "heap_inv L s" and n: "n \<le> N_HBLK_FLS" and p: "p \<in> set (L n)"
  shows "near L s p n"
proof -
  note d = heap_invD [OF v]
  obtain H where H: "hm0 s p = Some H" "right_index H = n" using on_listsD(2) [OF d(4) n p] by blast
  then have Hf: "HBLK_IS_FREE H" using on_listsD(1) [OF d(4) H(1)] p by simp
  obtain xs ys where L: "L n = xs @ p # ys" "without L n p = L(n := xs @ ys)" using list_split [OF d(3) n p] .
  have "on_lists (without L n p) (hm0 s) {p}" unfolding on_lists_def
  proof (intro conjI allI impI ballI)
    fix q K assume q: "hm0 s q = Some K" "q \<notin> {p}"
    then show "HBLK_IS_FREE K \<longleftrightarrow> q \<in> set (without L n p (right_index K))"
      using on_listsD(1) [OF d(4) q(1)] lists_disjoint(3) [OF d(3) n L(1), of "right_index K" q] L(2) by simp
  next
    fix m q assume m: "m \<le> N_HBLK_FLS" "q \<in> set (without L n p m)"
    then show "q \<notin> {p}" using lists_disjoint(1) [OF d(3) n L(1) m(1)] L(2) by auto
    show "\<exists>K. hm0 s q = Some K \<and> right_index K = m" using on_listsD(2) [OF d(4) m(1) without_sub [OF m(2)]] by blast
  qed
  moreover have "apart ((hm0 s)(p := None)) {}" using d(6) unfolding apart_def by (auto split: if_splits)
  ultimately show ?thesis using d n p H(1) Hf unfolding near_def by blast
qed

text \<open>How the heap may change while a block is looked for: blocks come into use, none goes out of use.\<close>

definition heap_grows :: "(nat \<Rightarrow> hdr option) \<Rightarrow> (nat \<Rightarrow> hdr option) \<Rightarrow> bool" where
  "heap_grows M N \<longleftrightarrow> (\<forall>q H. used M q = Some H \<longrightarrow> used N q = Some H) \<and> free_area N \<subseteq> free_area M"

lemma heap_grows_refl [simp]: "heap_grows M M"
  by (simp add: heap_grows_def)

lemma heap_grows_trans: "heap_grows M N \<Longrightarrow> heap_grows N O' \<Longrightarrow> heap_grows M O'"
  by (auto simp: heap_grows_def)

lemma free_area_del: "free_area (M(p := None)) \<subseteq> free_area M"
  by (auto simp: free_area_def split: if_splits)

lemma heap_grows_del_free: "M p = Some H \<Longrightarrow> HBLK_IS_FREE H \<Longrightarrow> heap_grows M (M(p := None))"
  using free_area_del [of M p] by (auto simp: heap_grows_def used_upd used_def)

lemma remove_near:
  assumes v: "near L s p n" and k: "ent s p = Hdr k"
  obtains t where "GC_remove_from_fl_at k n s = Some t" "same_but_lists s t" "hm0 t = hm0 s" "hm t p = hm s p" "lists_ok (without L n p) t"
    "free_total L (hm0 s) = free_total (without L n p) (hm0 s) + hb_sz (the (hm0 s p))"
proof -
  note d = nearD [OF v]
  obtain xs ys where L: "L n = xs @ p # ys" "without L n p = L(n := xs @ ys)" using list_split [OF d(3-5)] .
  have ft: "free_total L (hm0 s) = free_total (without L n p) (hm0 s) + hb_sz (the (hm0 s p))"
    using free_total_upd [OF d(4), of L "xs @ ys" "hm0 s"] L by simp
  show thesis using remove_from_fl_at_spec [OF d(1,3,4) L(1) k] that L(2) ft by metis
qed

lemma free_total_del: "(\<And>m. m \<le> N_HBLK_FLS \<Longrightarrow> p \<notin> set (L m)) \<Longrightarrow> free_total L (M(p := None)) = free_total L M"
  by (rule free_total_cong) auto

lemma on_lists_del: "on_lists L M {p} \<Longrightarrow> on_lists L (M(p := None)) {}"
  unfolding on_lists_def by (auto split: if_splits)

lemma in_range_del: "in_range M \<Longrightarrow> in_range (M(p := None))"
  unfolding in_range_def by (auto split: if_splits)

text \<open>The first part of a block: the whole block or, if it is larger, a part whose rest is a free block.\<close>

lemma first_part:
  assumes v: "near L s p n" and nf: "never_fails s" and k: "ent s p = Hdr k" and H: "hm0 s p = Some H" and a: "0 < a" "a \<le> span H"
    and right: "\<forall>R. hm0 s (p + span H) = Some R \<longrightarrow> \<not> HBLK_IS_FREE R"
  obtains t L' where "GC_get_first_part p k (a * HBLKSIZE) n s = Some (p, t)" "ready L' t p a (a * HBLKSIZE)" "ent t p = Hdr k" "cfg t = cfg s"
    "heap_grows (hm0 s) ((hm0 t)(p := None))"
proof -
  note d = nearD [OF v]
  have Hf: "HBLK_IS_FREE H" using d(6) H by simp
  note Hs = layD(4) [OF d(2) H Hf] and p0 = layD(2) [OF d(2) H]
  obtain H' where H': "hm s p = Some H'" "H = no_links H'" using hm0_hm [OF H] by blast
  have Hk: "hdrs s k = Some H'" using ent_hm [OF d(1) k] H'(1) by auto
  have tot: "hb_sz H' = span H * HBLKSIZE" using Hs H'(2) by simp
  let ?L = "without L n p"
  obtain s1 where s1: "GC_remove_from_fl_at k n s = Some s1" "same_but_lists s s1" "hm0 s1 = hm0 s" "hm s1 p = hm s p" "lists_ok ?L s1"
    "free_total L (hm0 s) = free_total ?L (hm0 s) + hb_sz (the (hm0 s p))"
    by (rule remove_near [OF v k]) (rule that)
  have e1: "ent s1 = ent s" using same_but_listsD(3) [OF s1(2)] .
  have large1: "GC_large_free_bytes s1 = free_total ?L (hm0 s) + span H * HBLKSIZE"
    using same_but_listsD(5) [OF s1(2)] d(10) s1(6) H Hs by simp
  have nin: "p \<notin> set (?L m)" if "m \<le> N_HBLK_FLS" for m using on_listsD(2) [OF d(7) that] by blast
  have end51: "p + span H \<le> 2 ^ 51" using d(8) H unfolding in_range_def by blast
  show thesis
  proof (cases "span H = a")
    case True
    have "ready ?L s1 p a (a * HBLKSIZE)" unfolding ready_def
    proof (intro conjI allI impI)
      show "index_inv s1" using same_but_listsD(1) [OF s1(2)] .
      show "lists_ok ?L s1" by (rule s1(5))
      show "hm0 s1 p \<noteq> None" using s1(3) H by simp
      show "0 < a" by (rule a(1))
      show "p + a \<le> 2 ^ 51" using end51 True by simp
      fix K assume K: "\<not> HBLK_IS_FREE K" "span K = a"
      have "lay (\<lambda>q. if p < q \<and> q < p + a then Fwd (min MAX_JUMP (q - p)) else ent s q) ((hm0 s)(p \<mapsto> K))"
      proof (rule lay_put [OF d(2)])
        show "own (hm0 s) p (p + a)" using own_block [OF d(2) H] True by simp
        show "hm0 s q = None" if "p < q" "q < p + a" for q using lay_inner [OF d(2) H] that True by simp
      qed (use K a p0 k in auto)
      then show "lay (\<lambda>q. if p < q \<and> q < p + a then Fwd (min MAX_JUMP (q - p)) else ent s1 q) ((hm0 s1)(p \<mapsto> K))"
        unfolding e1 s1(3) .
    next
      show "on_lists ?L ((hm0 s1)(p := None)) {}" unfolding s1(3) by (rule on_lists_del [OF d(7)])
      show "in_range ((hm0 s1)(p := None))" unfolding s1(3) by (rule in_range_del [OF d(8)])
      show "apart ((hm0 s1)(p := None)) {}" unfolding s1(3) by (rule d(9))
      show "GC_large_free_bytes s1 = free_total ?L ((hm0 s1)(p := None)) + a * HBLKSIZE"
        unfolding s1(3) using large1 free_total_del [of p ?L "hm0 s"] nin True by simp
    qed
    moreover have "GC_get_first_part p k (a * HBLKSIZE) n s = Some (p, s1)"
      using Hk s1(1) tot True by (simp add: GC_get_first_part_def)
    moreover have "heap_grows (hm0 s) ((hm0 s1)(p := None))" unfolding s1(3) using heap_grows_del_free [of "hm0 s" p H] H Hf by simp
    ultimately show thesis using that e1 k same_but_listsD(4) [OF s1(2)] by simp
  next
    case False
    then have b: "0 < span H - a" "span H = a + (span H - a)" using a(2) by simp_all
    define b where "b = span H - a"
    let ?r = "p + a"
    have bp: "0 < b" "span H = a + b" using b by (simp_all add: b_def)
    have rn: "hm0 s ?r = None" using lay_inner [OF d(2) H, of ?r] a bp by simp
    obtain kr s2 J where s2: "GC_install_header ?r s1 = Some (kr, s2)" "kr \<noteq> 0" "idx_to s1 s2" "base s2 = base s1" "never_fails s2"
      "ent s2 = (ent s1)(?r := Hdr kr)" "hm s2 = (hm s1)(?r \<mapsto> J)"
      using install_header_hm [OF same_but_listsD(1) [OF s1(2)], of ?r] nf same_but_listsD(6) [OF s1(2)] by blast
    let ?R = "J\<lparr>hb_sz := b * HBLKSIZE, hb_flags := 0\<rparr>"
    have k2: "ent s2 ?r = Hdr kr" "hm s2 ?r = Some J" using s2(6,7) by simp_all
    obtain s3 where s3: "mod_hdr kr (\<lambda>R. R\<lparr>hb_sz := b * HBLKSIZE, hb_flags := 0\<rparr>) s2 = Some s3" "same_but_lists s2 s3" "hm s3 = (hm s2)(?r \<mapsto> ?R)"
      "GC_hblkfreelist s3 = GC_hblkfreelist s2" "GC_free_bytes s3 = GC_free_bytes s2"
      by (rule mod_hdr_lists [OF idx_toD(1) [OF s2(3)] k2, of "\<lambda>R. R\<lparr>hb_sz := b * HBLKSIZE, hb_flags := 0\<rparr>"]) (rule that)
    have k3: "ent s3 ?r = Hdr kr" "hm s3 ?r = Some ?R" using same_but_listsD(3) [OF s3(2)] k2 s3(3) by simp_all
    have rl: "?r \<notin> set (?L m)" if "m \<le> N_HBLK_FLS" for m using on_listsD(2) [OF d(7) that, of ?r] rn by auto
    have l3: "lists_ok ?L s3"
    proof (rule lists_ok_frame [OF s1(5)])
      show "hm s3 q = hm s1 q" if "m \<le> N_HBLK_FLS" "q \<in> set (?L m)" for m q
      proof -
        have "q \<noteq> ?r" using rl [OF that(1)] that(2) by blast
        then show ?thesis using s3(3) s2(7) by simp
      qed
      show "GC_hblkfreelist s3 = GC_hblkfreelist s1" "GC_free_bytes s3 = GC_free_bytes s1" using s3(4,5) baseD [OF s2(4)] by simp_all
    qed
    have r0: "?r \<noteq> 0" using p0 by simp
    obtain t where t: "GC_add_to_fl ?r kr s3 = Some t" "same_but_lists s3 t" "hm0 t = (hm0 s3)(?r \<mapsto> no_links (flagged ?R))"
      "lists_ok (?L(right_index ?R := ?r # ?L (right_index ?R))) t"
      by (rule add_to_fl_spec [OF same_but_listsD(1) [OF s3(2)] l3 k3 r0 rl], assumption) (rule that)
    let ?F = "freed b ?R" and ?L' = "?L(right_index ?R := ?r # ?L (right_index ?R))"
    have Fr: "no_links (flagged ?R) = ?F" by (cases J) (simp add: freed_def)
    have ri: "right_index ?F = right_index ?R" by (simp add: right_index_def)
    have ht: "hm0 t = (hm0 s)(?r \<mapsto> ?F)"
    proof
      fix q
      have "hm0 s1 q = hm0 s q" using s1(3) by simp
      then show "hm0 t q = ((hm0 s)(?r \<mapsto> ?F)) q" unfolding t(3) Fr by (simp add: hm0_def s3(3) s2(7))
    qed
    have et: "ent t = (ent s)(?r := Hdr kr)" using same_but_listsD(3) [OF t(2)] same_but_listsD(3) [OF s3(2)] s2(6) e1 by simp
    have ct: "cfg t = cfg s" "GC_large_free_bytes t = GC_large_free_bytes s1"
      using same_but_listsD(4,5) [OF t(2)] same_but_listsD(4,5) [OF s3(2)] baseD(1,2) [OF s2(4)] same_but_listsD(4) [OF s1(2)] by simp_all
    have pr: "p \<noteq> ?r" using a(1) by simp
    have nd: "(hm0 t)(p := None) = ((hm0 s)(p := None))(?r \<mapsto> ?F)" unfolding ht using pr by (simp add: fun_upd_twist)
    have ol: "on_lists ?L' ((hm0 t)(p := None)) {}" unfolding on_lists_def
    proof (intro conjI allI impI ballI)
      fix q K assume q: "((hm0 t)(p := None)) q = Some K" "q \<notin> {}"
      show "HBLK_IS_FREE K \<longleftrightarrow> q \<in> set (?L' (right_index K))"
      proof (cases "q = ?r")
        case True
        then have "K = ?F" using q(1) nd by simp
        then show ?thesis using True ri by simp
      next
        case False
        then have "hm0 s q = Some K" "q \<notin> {p}" using q(1) nd by (simp_all split: if_splits)
        then show ?thesis using on_listsD(1) [OF d(7)] False by simp
      qed
    next
      fix m q assume m: "m \<le> N_HBLK_FLS" "q \<in> set (?L' m)"
      show "q \<notin> {}" by simp
      show "\<exists>K. ((hm0 t)(p := None)) q = Some K \<and> right_index K = m"
      proof (cases "q \<in> set (?L m)")
        case True
        then show ?thesis using on_listsD(2) [OF d(7) m(1) True] rl [OF m(1)] unfolding nd by auto
      next
        case False
        then have "q = ?r \<and> m = right_index ?R" using m(2) by (simp split: if_splits)
        then show ?thesis unfolding nd using ri by simp
      qed
    qed
    have ftot: "free_total ?L' ((hm0 t)(p := None)) = free_total ?L (hm0 s) + b * HBLKSIZE"
    proof -
      have "free_total ?L' ((hm0 t)(p := None)) + list_sum ((hm0 t)(p := None)) (?L (right_index ?R))
          = free_total ?L ((hm0 t)(p := None)) + list_sum ((hm0 t)(p := None)) (?r # ?L (right_index ?R))"
        by (rule free_total_upd) simp
      moreover have "free_total ?L ((hm0 t)(p := None)) = free_total ?L (hm0 s)"
        by (rule free_total_cong) (use nin rl in \<open>auto simp: nd\<close>)
      ultimately show ?thesis unfolding nd by simp
    qed
    have "ready ?L' t p a (a * HBLKSIZE)" unfolding ready_def
    proof (intro conjI allI impI)
      show "index_inv t" using same_but_listsD(1) [OF t(2)] .
      show "lists_ok ?L' t" by (rule t(4))
      show "hm0 t p \<noteq> None" using ht H pr by simp
      show "0 < a" by (rule a(1))
      show "p + a \<le> 2 ^ 51" using end51 bp by simp
      show "lay (\<lambda>q. if p < q \<and> q < p + a then Fwd (min MAX_JUMP (q - p)) else ent t q) ((hm0 t)(p \<mapsto> K))"
        if K: "\<not> HBLK_IS_FREE K" "span K = a" for K
      proof -
        have "lay (\<lambda>q. if p < q \<and> q < p + a then Fwd (min MAX_JUMP (q - p)) else ent t q) ((hm0 s)(p \<mapsto> K, ?r \<mapsto> ?F))"
        proof (rule lay_two [OF d(2) H bp(2) a(1) bp(1) K(2)])
          show "(if p < q \<and> q < p + a then Fwd (min MAX_JUMP (q - p)) else ent t q) = (if HBLK_IS_FREE ?F then Fwd 0 else Fwd (min MAX_JUMP (q - (p + a))))"
            if "p + a < q" "q < p + a + b" for q
            using layD(5) [OF d(2) H, of q] that bp Hf et by simp
        qed (use K bp et k pr in auto)
        moreover have "(hm0 t)(p \<mapsto> K) = (hm0 s)(p \<mapsto> K, ?r \<mapsto> ?F)" unfolding ht using pr by (simp add: fun_upd_twist)
        ultimately show ?thesis by simp
      qed
      show "on_lists ?L' ((hm0 t)(p := None)) {}" by (rule ol)
      show "in_range ((hm0 t)(p := None))" unfolding in_range_def
      proof (intro allI impI)
        fix q G assume q: "((hm0 t)(p := None)) q = Some G"
        show "q + span G \<le> 2 ^ 51"
        proof (cases "q = ?r")
          case True
          then have "?F = G" using q nd by simp
          then have "span G = b" using freed_simps(3) by metis
          then show ?thesis using True bp end51 by simp
        next
          case False
          then show ?thesis using q nd d(8) unfolding in_range_def by (auto split: if_splits)
        qed
      qed
      show "apart ((hm0 t)(p := None)) {}" unfolding apart_def
      proof (intro allI impI)
        fix q Q R assume q: "((hm0 t)(p := None)) q = Some Q" "((hm0 t)(p := None)) (q + span Q) = Some R" "HBLK_IS_FREE Q" "HBLK_IS_FREE R"
        have False
        proof (cases "q = ?r")
          case True
          then have "Q = ?F" using q(1) nd by simp
          then have "q + span Q = p + span H" using True bp by simp
          then have "hm0 s (p + span H) = Some R" using q(2) nd bp by (simp split: if_splits)
          then show False using right q(4) by simp
        next
          case False
          then have Q: "hm0 s q = Some Q" "q \<noteq> p" using q(1) nd by (simp_all split: if_splits)
          have "q + span Q \<noteq> ?r"
          proof
            assume e: "q + span Q = ?r"
            have "q < p" using lay_apart [OF d(2) H Q(1)] e a bp Q(2) layD(3) [OF d(2) Q(1)] by (cases "p < q") auto
            then show False using lay_apart [OF d(2) Q(1) H] e a(1) by simp
          qed
          then have "((hm0 s)(p := None)) (q + span Q) = Some R" "((hm0 s)(p := None)) q = Some Q"
            using q(2) nd Q by simp_all
          then show False using d(9) q(3,4) unfolding apart_def by blast
        qed
        then show "q \<in> {} \<or> q + span Q \<in> {}" by blast
      qed
      show "GC_large_free_bytes t = free_total ?L' ((hm0 t)(p := None)) + a * HBLKSIZE"
        unfolding ftot ct(2) large1 bp(2) by (simp add: distrib_right)
    qed
    moreover have "GC_get_first_part p k (a * HBLKSIZE) n s = Some (p, t)"
    proof -
      have c: "(hb_sz H' = a * HBLKSIZE) = False" "(kr = 0) = False" "hb_sz H' - a * HBLKSIZE = b * HBLKSIZE" "p + divHBLKSZ (a * HBLKSIZE) = ?r"
        using tot bp s2(2) by (simp_all add: divHBLKSZ_def distrib_right)
      show ?thesis unfolding GC_get_first_part_def Hk bind.bind_lunit s1(1) Let_def c
        by (simp only: if_False s2(1) bind.bind_lunit prod.case c s3(1) t(1))
    qed
    moreover have "heap_grows (hm0 s) ((hm0 t)(p := None))"
    proof -
      have "free_area (((hm0 s)(p := None))(?r \<mapsto> ?F)) \<subseteq> free_area (hm0 s)"
      proof
        fix q assume "q \<in> free_area (((hm0 s)(p := None))(?r \<mapsto> ?F))"
        then obtain x X where x: "(((hm0 s)(p := None))(?r \<mapsto> ?F)) x = Some X" "HBLK_IS_FREE X" "x \<le> q" "q < x + span X" by (auto simp: free_area_def)
        show "q \<in> free_area (hm0 s)"
        proof (cases "x = ?r")
          case True
          then have "X = ?F" using x(1) by simp
          then show ?thesis using x(3,4) True bp using H Hf free_areaI [of "hm0 s" p H q] by simp
        next
          case False
          then have "hm0 s x = Some X" using x(1) by (simp split: if_splits)
          then show ?thesis using x free_areaI by blast
        qed
      qed
      moreover have "used (((hm0 s)(p := None))(?r \<mapsto> ?F)) q = Some G" if "used (hm0 s) q = Some G" for q G
        using that H Hf rn by (auto simp: used_upd used_def)
      ultimately show ?thesis unfolding heap_grows_def nd by blast
    qed
    ultimately show thesis using that ct(1) et k pr by simp
  qed
qed

section \<open>Splitting a block\<close>

lemma dseg_links:
  assumes "\<And>x. x \<in> set xs \<Longrightarrow> map_option (\<lambda>H. (hb_prev H, hb_next H)) (N x) = map_option (\<lambda>H. (hb_prev H, hb_next H)) (M x)"
  shows "dseg M prev xs nxt \<Longrightarrow> dseg N prev xs nxt"
  using assms
proof (induction xs arbitrary: prev)
  case (Cons x xs)
  have "map_option (\<lambda>H. (hb_prev H, hb_next H)) (N x) = map_option (\<lambda>H. (hb_prev H, hb_next H)) (M x)" using Cons.prems(2) by simp
  moreover have "dseg N x xs nxt" using Cons by simp
  ultimately show ?case using Cons.prems(1) by (cases "N x") auto
qed simp

lemma lists_ok_links:
  assumes "lists_ok L s" and "\<And>x. map_option (\<lambda>H. (hb_prev H, hb_next H, hb_sz H)) (hm t x) = map_option (\<lambda>H. (hb_prev H, hb_next H, hb_sz H)) (hm s x)"
    and "GC_hblkfreelist t = GC_hblkfreelist s" "GC_free_bytes t = GC_free_bytes s"
  shows "lists_ok L t"
proof -
  have l: "map_option (\<lambda>H. (hb_prev H, hb_next H)) (hm t x) = map_option (\<lambda>H. (hb_prev H, hb_next H)) (hm s x)"
    "hb_sz (the (hm t x)) = hb_sz (the (hm s x))" if "hm s x \<noteq> None" for x
    using assms(2) [of x] that by (cases "hm s x"; cases "hm t x"; simp)+
  have "list_ok (hm t) (L m) (GC_hblkfreelist t m) (GC_free_bytes t m)" if m: "m \<le> N_HBLK_FLS" for m
  proof -
    note d = lists_okD [OF assms(1) m]
    have "dseg (hm t) 0 (L m) 0" by (rule dseg_links [OF _ d(1)]) (rule l(1) [OF dseg_some [OF d(1)]])
    moreover have "list_sum (hm t) (L m) = list_sum (hm s) (L m)" by (rule list_sum_cong) (rule l(2) [OF dseg_some [OF d(1)]])
    ultimately show ?thesis using d assms(3,4) by (simp add: list_ok_def)
  qed
  then show ?thesis using assms(1) by (simp add: lists_ok_def)
qed

text \<open>A block of a list is replaced by another, which is not larger.\<close>

lemma replace_in_list:
  assumes l: "lists_ok L s" and n: "n \<le> N_HBLK_FLS" and L: "L n = xs @ p # ys" and r: "r \<noteq> 0" "\<And>m. m \<le> N_HBLK_FLS \<Longrightarrow> r \<notin> set (L m)"
    and hp: "hm s p = Some H" and R: "hb_prev R = last_or 0 xs" "hb_next R = hd_or ys 0" "hb_sz R + c = hb_sz H"
    and t: "hm t = set_prev (hd_or ys 0) r (set_next (last_or 0 xs) r ((hm s)(r \<mapsto> R)))"
      "GC_hblkfreelist t = (if last_or 0 xs = 0 then (GC_hblkfreelist s)(n := r) else GC_hblkfreelist s)"
      "GC_free_bytes t = (GC_free_bytes s)(n := GC_free_bytes s n - c)"
  shows "lists_ok (L(n := xs @ r # ys)) t"
proof (rule lists_okI [OF l n])
  let ?a = "last_or 0 xs" and ?b = "hd_or ys 0"
  note d = lists_okD [OF l n]
  have e: "?a \<noteq> 0 \<Longrightarrow> ?a \<in> set (L n)" "?a = 0 \<longleftrightarrow> xs = []" "?b \<noteq> 0 \<Longrightarrow> ?b \<in> set (L n)"
    using list_ends [OF l n, of xs "p # ys"] list_ends(2) [OF l n, of "xs @ [p]" ys] L by simp_all
  have rab: "r \<noteq> ?a" "r \<noteq> ?b" using e(1,3) r n by metis+
  have rn: "r \<notin> set (L n)" by (rule r(2) [OF n])
  let ?M = "(hm s)(r \<mapsto> R)"
  have dd: "dseg ?M 0 xs p" "dseg ?M p ys 0" using d(1) L rn by (simp_all add: dseg_append)
  have di: "distinct (xs @ ys)" "0 \<notin> set (xs @ ys)" using d(3,4) L by auto
  note g = gap_dseg [OF dd di, where c = r and d = r]
  have tr: "hm t r = Some R" unfolding t(1) using rab by simp
  have "dseg (hm t) 0 (xs @ r # ys) 0" unfolding dseg_append using g tr R by (simp add: t(1))
  moreover have "GC_hblkfreelist t n = hd_or (xs @ r # ys) 0" using t(2) e(2) d(2) L by (cases xs) simp_all
  moreover have "list_sum (hm t) zs = list_sum (hm s) zs" if "set zs \<subseteq> set (L n)" for zs
  proof (rule list_sum_cong)
    fix x assume "x \<in> set zs"
    then have "x \<noteq> r" using that rn by auto
    then have "map_option no_links (hm t x) = map_option no_links (hm s x)" unfolding t(1) by simp
    then show "hb_sz (the (hm t x)) = hb_sz (the (hm s x))" by (rule no_links_sz)
  qed
  then have "list_sum (hm t) xs = list_sum (hm s) xs" "list_sum (hm t) ys = list_sum (hm s) ys" using L by auto
  then have "GC_free_bytes t n = list_sum (hm t) (xs @ r # ys)" using t(3) d(5) L hp tr R(3) by simp
  ultimately show "list_ok (hm t) (xs @ r # ys) (GC_hblkfreelist t n) (GC_free_bytes t n)"
    using di d(3) L rn r(1) by (auto simp: list_ok_def)
  show "hm t x = hm s x \<and> x \<notin> set (xs @ r # ys)" if m: "m \<le> N_HBLK_FLS" "m \<noteq> n" "x \<in> set (L m)" for m x
  proof -
    have "x \<notin> set (L n)" using lists_okD(6) [OF l m(1) n, of x] m(2,3) by auto
    moreover have "x \<noteq> 0" using lists_okD(4) [OF l m(1)] m(3) by metis
    moreover have "x \<noteq> r" using r(2) [OF m(1)] m(3) by blast
    ultimately have "x \<noteq> ?a" "x \<noteq> ?b" using e by auto
    then show ?thesis unfolding t(1) using L \<open>x \<notin> set (L n)\<close> \<open>x \<noteq> r\<close> by simp
  qed
  show "GC_hblkfreelist t m = GC_hblkfreelist s m \<and> GC_free_bytes t m = GC_free_bytes s m" if "m \<noteq> n" for m
    using that t(2,3) by simp
qed

lemma split_spec:
  assumes v: "heap_inv L s" and nf: "never_fails s" and n: "n \<le> N_HBLK_FLS" and p: "p \<in> set (L n)" and k: "ent s p = Hdr k"
    and H: "hm0 s p = Some H" and c: "0 < c" "c < span H"
  obtains s1 kr t L' B where "GC_install_header (p + c) s = Some (kr, s1)" "kr \<noteq> 0" "GC_split_block p k (p + c) kr n s1 = Some t"
    "near L' t (p + c) n" "ent t (p + c) = Hdr kr" "hm0 t (p + c) = Some B" "span B = span H - c" "cfg t = cfg s" "heap_grows (hm0 s) (hm0 t)"
    "\<forall>R. hm0 t (p + c + span B) = Some R \<longrightarrow> \<not> HBLK_IS_FREE R"
proof -
  note d = heap_invD [OF v]
  let ?r = "p + c"
  define b where "b = span H - c"
  have cb: "0 < b" "span H = c + b" using c by (simp_all add: b_def)
  obtain xs ys where L: "L n = xs @ p # ys" using p by (meson split_list)
  have Hf: "HBLK_IS_FREE H" using on_listsD(1) [OF d(4) H] on_listsD(2) [OF d(4) n p] H p by auto
  note Hs = layD(4) [OF d(2) H Hf] and p0 = layD(2) [OF d(2) H]
  obtain H' where H': "hm s p = Some H'" "H = no_links H'" using hm0_hm [OF H] by blast
  have tot: "hb_sz H' = (c + b) * HBLKSIZE" using Hs H'(2) cb by simp
  let ?a = "last_or 0 xs" and ?b = "hd_or ys 0"
  have lk: "hb_prev H' = ?a" "hb_next H' = ?b" using dseg_at [OF lists_okD(1) [OF d(3) n, unfolded L]] H'(1) by auto
  have rn: "hm0 s ?r = None" using lay_inner [OF d(2) H, of ?r] c by simp
  have rl: "?r \<notin> set (L m)" if "m \<le> N_HBLK_FLS" for m using on_listsD(2) [OF d(4) that, of ?r] rn by auto
  have e: "?a \<noteq> 0 \<Longrightarrow> ?a \<in> set (L n)" "?a = 0 \<longleftrightarrow> xs = []" "?b \<noteq> 0 \<Longrightarrow> ?b \<in> set (L n)"
    using list_ends [OF d(3) n, of xs "p # ys"] list_ends(2) [OF d(3) n, of "xs @ [p]" ys] L by simp_all
  have rab: "?r \<noteq> ?a" "?r \<noteq> ?b" using e(1,3) rl [OF n] p0 by force+
  have pab: "p \<noteq> ?a" "p \<noteq> ?b" using lists_okD(3,4) [OF d(3) n] L last_or_in [of xs] hd_or_in [of ys]
    by (auto simp: last_or_def hd_or_def split: list.splits if_splits)
  have pr: "p \<noteq> ?r" using c by simp
  obtain kr s1 J where s1: "GC_install_header ?r s = Some (kr, s1)" "kr \<noteq> 0" "idx_to s s1" "base s1 = base s" "never_fails s1"
    "ent s1 = (ent s)(?r := Hdr kr)" "hm s1 = (hm s)(?r \<mapsto> J)" using install_header_hm [OF d(1) nf, of ?r] by blast
  note b1 = baseD [OF s1(4)]
  have k1: "ent s1 ?r = Hdr kr" "hm s1 ?r = Some J" "ent s1 p = Hdr k" "hm s1 p = Some H'" using s1(6,7) k H' pr by simp_all
  have Hk: "hdrs s1 k = Some H'" using ent_hm [OF idx_toD(1) [OF s1(3)] k1(3)] k1(4) by auto
  have hs: "?r * HBLKSIZE - p * HBLKSIZE = c * HBLKSIZE" by (simp add: distrib_right)
  have rs: "hb_sz H' - c * HBLKSIZE = b * HBLKSIZE" using tot by (simp add: distrib_right)
  let ?R = "J\<lparr>hb_prev := ?a, hb_next := ?b, hb_sz := b * HBLKSIZE, hb_flags := 0\<rparr>"
  obtain s2 where s2: "mod_hdr kr (\<lambda>N. N\<lparr>hb_prev := ?a, hb_next := ?b, hb_sz := b * HBLKSIZE, hb_flags := 0\<rparr>) s1 = Some s2"
    "same_but_lists s1 s2" "hm s2 = (hm s1)(?r \<mapsto> ?R)" "GC_hblkfreelist s2 = GC_hblkfreelist s1" "GC_free_bytes s2 = GC_free_bytes s1"
    by (rule mod_hdr_lists [OF idx_toD(1) [OF s1(3)] k1(1,2), of "\<lambda>N. N\<lparr>hb_prev := ?a, hb_next := ?b, hb_sz := b * HBLKSIZE, hb_flags := 0\<rparr>"]) (rule that)
  have h2: "hm s2 = (hm s)(?r \<mapsto> ?R)" unfolding s2(3) s1(7) by simp
  have in_list: "hm s q \<noteq> None" if "q \<in> set (L n)" for q using dseg_some [OF lists_okD(1) [OF d(3) n] that] .
  have ina: "hm s2 ?a \<noteq> None" if "?a \<noteq> 0" using in_list [OF e(1) [OF that]] h2 by simp
  obtain s3 where s3: "(if ?a = 0 then Some (s2\<lparr>GC_hblkfreelist := (GC_hblkfreelist s2)(n := ?r)\<rparr>)
      else do { k \<leftarrow> hdr_of ?a s2; mod_hdr k (\<lambda>H. H\<lparr>hb_next := ?r\<rparr>) s2 }) = Some s3"
    "same_but_lists s2 s3" "hm s3 = set_next ?a ?r (hm s2)"
    "GC_hblkfreelist s3 = (if ?a = 0 then (GC_hblkfreelist s2)(n := ?r) else GC_hblkfreelist s2)" "GC_free_bytes s3 = GC_free_bytes s2"
    by (rule link_next [OF same_but_listsD(1) [OF s2(2)] ina, of n ?r], assumption) (rule that)
  have inb: "hm s3 ?b \<noteq> None" if "?b \<noteq> 0"
  proof -
    have "hm s2 ?b \<noteq> None" using in_list [OF e(3) [OF that]] h2 by simp
    then show ?thesis unfolding s3(3) by (cases "?b = ?a") (auto simp: set_next_def)
  qed
  obtain s4 where s4: "(if ?b \<noteq> 0 then do { k \<leftarrow> hdr_of ?b s3; mod_hdr k (\<lambda>H. H\<lparr>hb_prev := ?r\<rparr>) s3 } else Some s3) = Some s4"
    "same_but_lists s3 s4" "hm s4 = set_prev ?b ?r (hm s3)" "GC_hblkfreelist s4 = GC_hblkfreelist s3" "GC_free_bytes s4 = GC_free_bytes s3"
    by (rule link_prev [OF same_but_listsD(1) [OF s3(2)] inb], assumption) (rule that)
  let ?s5 = "s4\<lparr>GC_free_bytes := (GC_free_bytes s4)(n := GC_free_bytes s4 n - c * HBLKSIZE)\<rparr>"
  note f5 = lists_frame(3,4) [OF same_but_listsD(1) [OF s4(2)], of "(GC_free_bytes s4)(n := GC_free_bytes s4 n - c * HBLKSIZE)"]
  have st5: "same_but_lists s1 ?s5" using same_but_lists_trans [OF s2(2) same_but_lists_trans [OF s3(2) same_but_lists_trans [OF s4(2) f5(1)]]] .
  have h5: "hm ?s5 = set_prev ?b ?r (set_next ?a ?r ((hm s)(?r \<mapsto> ?R)))" unfolding f5(2) s4(3) s3(3) h2 ..
  let ?L1 = "L(n := xs @ ?r # ys)"
  have l5: "lists_ok ?L1 ?s5"
  proof (rule replace_in_list [OF d(3) n L _ rl H'(1)])
    show "?r \<noteq> 0" using p0 by simp
    show "hb_prev ?R = ?a" "hb_next ?R = ?b" "hb_sz ?R + c * HBLKSIZE = hb_sz H'" using tot by (simp_all add: distrib_right)
    show "hm ?s5 = set_prev ?b ?r (set_next ?a ?r ((hm s)(?r \<mapsto> ?R)))" by (rule h5)
    show "GC_hblkfreelist ?s5 = (if ?a = 0 then (GC_hblkfreelist s)(n := ?r) else GC_hblkfreelist s)"
      "GC_free_bytes ?s5 = (GC_free_bytes s)(n := GC_free_bytes s n - c * HBLKSIZE)" using s4(4,5) s3(4,5) s2(4,5) b1 by simp_all
  qed
  have k5: "ent ?s5 p = Hdr k" "hm ?s5 p = Some H'" "ent ?s5 ?r = Hdr kr" "hm ?s5 ?r = Some ?R"
    using same_but_listsD(3) [OF st5] k1 h5 pab rab pr H'(1) by simp_all
  let ?A = "H'\<lparr>hb_sz := c * HBLKSIZE\<rparr>"
  obtain s6 where s6: "mod_hdr k (\<lambda>H. H\<lparr>hb_sz := c * HBLKSIZE\<rparr>) ?s5 = Some s6" "same_but_lists ?s5 s6" "hm s6 = (hm ?s5)(p \<mapsto> ?A)"
    "GC_hblkfreelist s6 = GC_hblkfreelist ?s5" "GC_free_bytes s6 = GC_free_bytes ?s5"
    by (rule mod_hdr_lists [OF same_but_listsD(1) [OF st5] k5(1,2), of "\<lambda>H. H\<lparr>hb_sz := c * HBLKSIZE\<rparr>"]) (rule that)
  have p1: "p \<notin> set (?L1 m)" if "m \<le> N_HBLK_FLS" for m
  proof (cases "m = n")
    case True
    then show ?thesis using lists_okD(3) [OF d(3) n] L pr by auto
  next
    case False
    then show ?thesis using lists_okD(6) [OF d(3) n that] p by simp
  qed
  have l6: "lists_ok ?L1 s6"
  proof (rule lists_ok_frame [OF l5])
    show "hm s6 q = hm ?s5 q" if "m \<le> N_HBLK_FLS" "q \<in> set (?L1 m)" for m q
    proof -
      have "q \<noteq> p" using p1 [OF that(1)] that(2) by blast
      then show ?thesis using s6(3) by simp
    qed
  qed (rule s6(4), rule s6(5))
  have k6: "ent s6 p = Hdr k" "hm s6 p = Some ?A" using same_but_listsD(3) [OF s6(2)] k5(1) s6(3) by simp_all
  let ?j = "right_index ?A"
  obtain s7 where s7: "GC_add_to_fl p k s6 = Some s7" "same_but_lists s6 s7" "hm0 s7 = (hm0 s6)(p \<mapsto> no_links (flagged ?A))"
    "lists_ok (?L1(?j := p # ?L1 ?j)) s7"
    by (rule add_to_fl_spec [OF same_but_listsD(1) [OF s6(2)] l6 k6 p0 p1], assumption) (rule that)
  let ?L2 = "?L1(?j := p # ?L1 ?j)"
  have "hm0 s7 ?r = Some (no_links ?R)" using s7(3) pr s6(3) k5(4) by (simp add: hm0_def)
  then obtain R7 where R7: "hm s7 ?r = Some R7" "no_links R7 = no_links ?R" using hm0_hm [of s7 ?r] by auto
  have k7: "ent s7 ?r = Hdr kr" using same_but_listsD(3) [OF s7(2)] same_but_listsD(3) [OF s6(2)] k5(3) by simp
  have fl: "(\<lambda>N. N\<lparr>hb_flags := hb_flags N OR FREE_BLK\<rparr>) = flagged" by (simp add: flagged_def fun_eq_iff)
  obtain t where t: "mod_hdr kr flagged s7 = Some t" "same_but_lists s7 t" "hm t = (hm s7)(?r \<mapsto> flagged R7)"
    "GC_hblkfreelist t = GC_hblkfreelist s7" "GC_free_bytes t = GC_free_bytes s7"
    by (rule mod_hdr_lists [OF same_but_listsD(1) [OF s7(2)] k7 R7(1), of flagged]) (rule that)
  have lt: "lists_ok ?L2 t" by (rule lists_ok_links [OF s7(4)]) (use t(3-5) R7(1) in \<open>simp_all add: flagged_def\<close>)
  have st: "same_but_lists s1 t"
    using same_but_lists_trans [OF st5 same_but_lists_trans [OF s6(2) same_but_lists_trans [OF s7(2) t(2)]]] .
  have et: "ent t = (ent s)(?r := Hdr kr)" using same_but_listsD(3) [OF st] s1(6) by simp
  have Af: "HBLK_IS_FREE ?A" using Hf H'(2) by (simp add: HBLK_IS_FREE_def)
  define A B where "A = freed c H'" and "B = freed b (J\<lparr>hb_flags := 0\<rparr>)"
  have AB: "no_links (flagged ?A) = A" "no_links (flagged R7) = B"
  proof -
    show "no_links (flagged ?A) = A" by (simp add: A_def freed_def)
    have "no_links (flagged R7) = flagged (no_links R7)" by (simp add: flagged_def no_links_def)
    then show "no_links (flagged R7) = B" unfolding R7(2) B_def freed_def by (cases J) (simp add: flagged_def no_links_def)
  qed
  have ht: "hm0 t = (hm0 s)(p \<mapsto> A, ?r \<mapsto> B)"
  proof
    fix q
    have "hm0 s7 q = ((hm0 s6)(p \<mapsto> A)) q" using s7(3) AB(1) by simp
    moreover have "hm0 s6 q = hm0 s q" if "q \<noteq> p" "q \<noteq> ?r" using that s6(3) h5 by (simp add: hm0_def)
    ultimately show "hm0 t q = ((hm0 s)(p \<mapsto> A, ?r \<mapsto> B)) q" using t(3) AB(2) pr by (auto simp: hm0_def)
  qed
  have sp: "span A = c" "span B = b" "HBLK_IS_FREE A" "HBLK_IS_FREE B" "hb_sz A = c * HBLKSIZE" "hb_sz B = b * HBLKSIZE"
    by (simp_all add: A_def B_def)
  have rA: "right_index A = ?j" by (simp add: right_index_def sp)
  have r2: "?r \<in> set (?L2 n)" by simp
  have nl: "near ?L2 t ?r n" unfolding near_def
  proof (intro conjI)
    show "index_inv t" using same_but_listsD(1) [OF st] .
    show "lay (ent t) (hm0 t)" unfolding et ht
    proof (rule lay_two [OF d(2) H cb(2) c(1) cb(1) sp(1) _ sp(2)])
      show "((ent s)(?r := Hdr kr)) q = (if HBLK_IS_FREE A then Fwd 0 else Fwd (min MAX_JUMP (q - p)))" if "p < q" "q < p + c" for q
        using layD(5) [OF d(2) H that(1)] that cb Hf sp by simp
      show "((ent s)(?r := Hdr kr)) q = (if HBLK_IS_FREE B then Fwd 0 else Fwd (min MAX_JUMP (q - (p + c))))" if "p + c < q" "q < p + c + b" for q
        using layD(5) [OF d(2) H, of q] that cb Hf sp by simp
    qed (use k pr sp cb in auto)
    show "lists_ok ?L2 t" by (rule lt)
    show "n \<le> N_HBLK_FLS" by (rule n)
    show "?r \<in> set (?L2 n)" by (rule r2)
    show "\<exists>H. hm0 t ?r = Some H \<and> HBLK_IS_FREE H" using ht sp by simp
    have mem: "q \<in> set (without ?L2 n ?r m) \<longleftrightarrow> q \<in> set (?L2 m) \<and> q \<noteq> ?r" if "m \<le> N_HBLK_FLS" for m q
      by (rule without_mem [OF lt n r2 that])
    have mem1: "q \<in> set (?L1 m) \<longleftrightarrow> (q = ?r \<and> m = n) \<or> (q \<in> set (L m) \<and> q \<noteq> p)" if m: "m \<le> N_HBLK_FLS" for m q
    proof (cases "m = n")
      case True
      then show ?thesis using L lists_okD(3) [OF d(3) n] by auto
    next
      case False
      then show ?thesis using lists_okD(6) [OF d(3) n m] p by auto
    qed
    have mem2: "q \<in> set (?L2 m) \<longleftrightarrow> (q = p \<and> m = ?j) \<or> (q = ?r \<and> m = n) \<or> (q \<in> set (L m) \<and> q \<noteq> p)" if "m \<le> N_HBLK_FLS" for m q
      using mem1 [OF that, of q] by auto
    show "on_lists (without ?L2 n ?r) (hm0 t) {?r}" unfolding on_lists_def
    proof (intro conjI allI impI ballI)
      fix q K assume q: "hm0 t q = Some K" "q \<notin> {?r}"
      show "HBLK_IS_FREE K \<longleftrightarrow> q \<in> set (without ?L2 n ?r (right_index K))"
      proof (cases "q = p")
        case True
        then have "K = A" using q(1) ht pr by simp
        then show ?thesis using True mem [of "right_index K" q] mem2 [of "right_index K" q] rA sp(3) pr by simp
      next
        case False
        then have "hm0 s q = Some K" using q ht by simp
        then show ?thesis using on_listsD(1) [OF d(4)] mem [of "right_index K" q] mem2 [of "right_index K" q] False q(2) by simp
      qed
    next
      fix m q assume m: "m \<le> N_HBLK_FLS" "q \<in> set (without ?L2 n ?r m)"
      have q: "q \<in> set (?L2 m)" "q \<noteq> ?r" using mem [OF m(1), of q] m(2) by simp_all
      show "q \<notin> {?r}" using q(2) by simp
      show "\<exists>K. hm0 t q = Some K \<and> right_index K = m"
      proof (cases "q = p")
        case True
        have "m = ?j" using mem2 [OF m(1), of q] q True pr by simp
        then show ?thesis using True ht pr rA by simp
      next
        case False
        then have "q \<in> set (L m)" using mem2 [OF m(1), of q] q by simp
        then show ?thesis using on_listsD(2) [OF d(4) m(1)] ht False q(2) by simp
      qed
    qed
    have end51: "p + span H \<le> 2 ^ 51" using d(5) H unfolding in_range_def by blast
    show "in_range (hm0 t)" unfolding in_range_def
    proof (intro allI impI)
      fix q G assume q: "hm0 t q = Some G"
      show "q + span G \<le> 2 ^ 51"
        using q ht d(5) end51 cb sp pr unfolding in_range_def by (cases "q = ?r"; cases "q = p") auto
    qed
    show "apart ((hm0 t)(?r := None)) {}" unfolding apart_def
    proof (intro allI impI)
      fix q Q R assume q: "((hm0 t)(?r := None)) q = Some Q" "((hm0 t)(?r := None)) (q + span Q) = Some R" "HBLK_IS_FREE Q" "HBLK_IS_FREE R"
      have qr: "q \<noteq> ?r" "q + span Q \<noteq> ?r" using q(1,2) by (auto split: if_splits)
      have "q \<noteq> p" using q(1) qr(2) ht pr sp(1) by auto
      then have Q: "hm0 s q = Some Q" using q(1) qr ht by simp
      have "\<exists>R'. hm0 s (q + span Q) = Some R' \<and> HBLK_IS_FREE R'"
      proof (cases "q + span Q = p")
        case True
        then show ?thesis using H Hf by simp
      next
        case False
        then show ?thesis using q(2,4) qr(2) ht by simp
      qed
      then have False using d(6) Q q(3) unfolding apart_def by blast
      then show "q \<in> {} \<or> q + span Q \<in> {}" by blast
    qed
    have "free_total ?L2 (hm0 t) + list_sum (hm0 t) (?L1 ?j) = free_total ?L1 (hm0 t) + list_sum (hm0 t) (p # ?L1 ?j)"
      by (rule free_total_upd) simp
    then have 1: "free_total ?L2 (hm0 t) = free_total ?L1 (hm0 t) + c * HBLKSIZE" using ht pr sp by simp
    have 2: "free_total ?L1 (hm0 t) + list_sum (hm0 t) (L n) = free_total L (hm0 t) + list_sum (hm0 t) (xs @ ?r # ys)"
      by (rule free_total_upd [OF n])
    have "free_total L (hm0 t) = free_total L ((hm0 s)(p \<mapsto> A))"
      by (rule free_total_cong) (use rl ht in auto)
    moreover have "free_total L ((hm0 s)(p \<mapsto> A)) + b * HBLKSIZE = free_total L (hm0 s)"
    proof -
      have u: "free_total (L(n := xs @ ys)) M + hb_sz (the (M p)) = free_total L M" for M
        using free_total_upd [OF n, of L "xs @ ys" M] L by simp
      have "free_total (L(n := xs @ ys)) ((hm0 s)(p \<mapsto> A)) = free_total (L(n := xs @ ys)) (hm0 s)"
        by (rule free_total_cong) (use lists_disjoint(1) [OF d(3) n L] in auto)
      then show ?thesis using u [of "(hm0 s)(p \<mapsto> A)"] u [of "hm0 s"] H Hs sp cb by (simp add: distrib_right)
    qed
    ultimately have "free_total ?L1 (hm0 t) + c * HBLKSIZE = free_total L (hm0 s)"
      using 2 L ht pr sp by simp
    then show "GC_large_free_bytes t = free_total ?L2 (hm0 t)" using 1 same_but_listsD(5) [OF st] b1(2) d(7) by simp
  qed
  have sb: "GC_split_block p k ?r kr n s1 = Some t"
  proof -
    note s3' = s3(1)
    have x: "(if ?a \<noteq> 0 then do { k \<leftarrow> hdr_of ?a s2; mod_hdr k (\<lambda>P. P\<lparr>hb_next := ?r\<rparr>) s2 }
        else Some (s2\<lparr>GC_hblkfreelist := (GC_hblkfreelist s2)(n := ?r)\<rparr>)) = Some s3"
      using s3(1) by (cases "?a = 0") simp_all
    show ?thesis unfolding GC_split_block_def Hk bind.bind_lunit Let_def lk hs rs
      by (simp only: s2(1) bind.bind_lunit x s4(1) s6(1) s7(1) fl t(1))
  qed
  have gr: "heap_grows (hm0 s) (hm0 t)" unfolding heap_grows_def
  proof (intro conjI allI impI subsetI)
    show "used (hm0 t) q = Some G" if "used (hm0 s) q = Some G" for q G
      using that H Hf rn by (auto simp: ht used_upd used_def split: option.splits if_splits)
    fix q assume "q \<in> free_area (hm0 t)"
    then obtain x X where x: "hm0 t x = Some X" "HBLK_IS_FREE X" "x \<le> q" "q < x + span X" by (auto simp: free_area_def)
    show "q \<in> free_area (hm0 s)"
    proof (cases "x = p \<or> x = ?r")
      case True
      then have "p \<le> q" "q < p + span H" using x ht pr sp cb by auto
      then show ?thesis using free_areaI [of "hm0 s" p H q] H Hf by simp
    next
      case False
      then have "hm0 s x = Some X" using x(1) ht by simp
      then show ?thesis using x free_areaI by blast
    qed
  qed
  have right: "\<forall>R. hm0 t (?r + span B) = Some R \<longrightarrow> \<not> HBLK_IS_FREE R"
  proof (intro allI impI notI)
    fix R assume R: "hm0 t (?r + span B) = Some R" "HBLK_IS_FREE R"
    have e1: "?r + span B = p + span H" using sp cb by simp
    note R = R [unfolded e1]
    have "p + span H \<noteq> p" "p + span H \<noteq> ?r" using cb c by simp_all
    then have "hm0 s (p + span H) = Some R" using R(1) unfolding ht by simp
    then show False using d(6) H Hf R(2) unfolding apart_def by blast
  qed
  show thesis
    by (rule that [OF s1(1,2) sb nl _ _ _ _ gr right])
      (use et ht sp same_but_listsD(4) [OF st] b1(1) b_def in simp_all)
qed

section \<open>The block in use\<close>

text \<open>The invariant, with \<open>e\<close> bytes that are counted as free and not on the lists.\<close>

definition sound :: "(nat \<Rightarrow> nat list) \<Rightarrow> gc \<Rightarrow> nat \<Rightarrow> bool" where
  "sound L s e \<longleftrightarrow> index_inv s \<and> lay (ent s) (hm0 s) \<and> lists_ok L s \<and> on_lists L (hm0 s) {} \<and> in_range (hm0 s)
     \<and> apart (hm0 s) {} \<and> GC_large_free_bytes s = free_total L (hm0 s) + e"

lemma sound_0: "sound L s 0 = heap_inv L s"
  by (simp add: sound_def heap_inv_def)

lemma free_area_used: "\<not> HBLK_IS_FREE K \<Longrightarrow> free_area (M(p \<mapsto> K)) = free_area (M(p := None))"
  by (auto simp: free_area_def)

lemma settle:
  assumes v: "ready L s p a e" and k: "ent s p = Hdr k" and nf: "never_fails s"
    and u: "index_step s u" "hdrs u = hdrs s" "ent u = (\<lambda>q. if p < q \<and> q < p + a then Fwd (min MAX_JUMP (q - p)) else ent s q)"
    and fl: "fl AND FREE_BLK = 0" "fl AND LARGE_BLOCK = 0" and sz: "0 < sz" "OBJ_SZ_TO_BLOCKS sz = a"
  obtains t K where "setup_header k p sz kind fl u = Some (True, t)" "sound L t e" "cfg t = cfg s" "set_up p sz kind fl K"
    "hm0 t = (hm0 s)(p \<mapsto> K)" "used (hm0 t) = (used ((hm0 s)(p := None)))(p \<mapsto> K)" "free_area (hm0 t) = free_area ((hm0 s)(p := None))"
proof -
  note d = readyD [OF v]
  have hu: "hm u q = hm s q" for q
  proof (cases "p < q \<and> q < p + a")
    case False
    then have "ent u q = ent s q" unfolding u(3) by (rule if_not_P)
    then show ?thesis unfolding hm_def u(2) by simp
  next
    case True
    define K :: hdr where "K = the (hm0 s p)\<lparr>hb_sz := a * HBLKSIZE, hb_flags := 0\<rparr>"
    have K: "\<not> HBLK_IS_FREE K" "span K = a" by (simp_all add: K_def HBLK_IS_FREE_def span_def OBJ_SZ_TO_BLOCKS_def divHBLKSZ_def)
    have "((hm0 s)(p \<mapsto> K)) q = None" using lay_inner [OF d(6) [OF K], of p K q] True K(2) by simp
    then have "hm s q = None" using True by (simp add: hm0_def split: if_splits)
    moreover have "ent u q = Fwd (min MAX_JUMP (q - p))" unfolding u(3) using True by simp
    ultimately show ?thesis by (simp add: hm_def)
  qed
  have ku: "ent u p = Hdr k" unfolding u(3) using k by simp
  obtain H where H: "hm u p = Some H" using d(3) hu by (auto simp: hm0_def)
  note b = baseD [OF index_stepD(2) [OF u(1)]]
  have nfu: "never_fails u" using nf index_stepD(4) [OF u(1)] by simp
  obtain t G where t: "setup_header k p sz kind fl u = Some (True, t)" "same_but_lists u t" "hm t = (hm u)(p \<mapsto> G)" "set_up p sz kind fl G"
    "GC_hblkfreelist t = GC_hblkfreelist u" "GC_free_bytes t = GC_free_bytes u"
    by (rule setup_header_spec [OF index_stepD(1) [OF u(1)] nfu ku H fl sz(1)]) (rule that)
  let ?K = "no_links G"
  have K: "set_up p sz kind fl ?K" "\<not> HBLK_IS_FREE ?K" "span ?K = a"
  proof -
    show "set_up p sz kind fl ?K" using t(4) by simp
    show "\<not> HBLK_IS_FREE ?K" "span ?K = a" using t(4) sz(2) by (simp_all add: set_up_def span_def)
  qed
  have ht: "hm0 t = (hm0 s)(p \<mapsto> ?K)" by (rule ext) (simp add: hm0_def t(3) hu)
  have nin: "q \<noteq> p" if "m \<le> N_HBLK_FLS" "q \<in> set (L m)" for m q using on_listsD(2) [OF d(7) that] by (auto split: if_splits)
  have "sound L t e" unfolding sound_def
  proof (intro conjI)
    show "index_inv t" using same_but_listsD(1) [OF t(2)] .
    show "lay (ent t) (hm0 t)" unfolding ht same_but_listsD(3) [OF t(2)] u(3) by (rule d(6) [OF K(2,3)])
    show "lists_ok L t"
    proof (rule lists_ok_frame [OF d(2)])
      show "hm t q = hm s q" if "m \<le> N_HBLK_FLS" "q \<in> set (L m)" for m q using nin [OF that] t(3) hu by simp
      show "GC_hblkfreelist t = GC_hblkfreelist s" "GC_free_bytes t = GC_free_bytes s" using t(5,6) b(3,4) by simp_all
    qed
    show "on_lists L (hm0 t) {}" unfolding on_lists_def ht
    proof (intro conjI allI impI ballI)
      fix q J assume q: "((hm0 s)(p \<mapsto> ?K)) q = Some J" "q \<notin> {}"
      show "HBLK_IS_FREE J \<longleftrightarrow> q \<in> set (L (right_index J))"
      proof (cases "q = p")
        case True
        then have "J = ?K" using q(1) by simp
        then show ?thesis using K(2) nin [of "right_index J" q] True by auto
      next
        case False
        then show ?thesis using on_listsD(1) [OF d(7), of q J] q by simp
      qed
    next
      fix m q assume m: "m \<le> N_HBLK_FLS" "q \<in> set (L m)"
      show "q \<notin> {}" by simp
      show "\<exists>J. ((hm0 s)(p \<mapsto> ?K)) q = Some J \<and> right_index J = m" using on_listsD(2) [OF d(7) m] nin [OF m] by auto
    qed
    show "in_range (hm0 t)" unfolding in_range_def ht
    proof (intro allI impI)
      fix q J assume q: "((hm0 s)(p \<mapsto> ?K)) q = Some J"
      show "q + span J \<le> 2 ^ 51"
      proof (cases "q = p")
        case True
        then have "J = ?K" using q by simp
        then show ?thesis using K(3) d(5) True by simp
      next
        case False
        then have "((hm0 s)(p := None)) q = Some J" using q by simp
        then show ?thesis using d(8) unfolding in_range_def by blast
      qed
    qed
    show "apart (hm0 t) {}" unfolding apart_def ht
    proof (intro allI impI)
      fix q Q R assume q: "((hm0 s)(p \<mapsto> ?K)) q = Some Q" "((hm0 s)(p \<mapsto> ?K)) (q + span Q) = Some R" "HBLK_IS_FREE Q" "HBLK_IS_FREE R"
      then have "q \<noteq> p" "q + span Q \<noteq> p" using K(2) by (auto split: if_splits)
      then have "((hm0 s)(p := None)) q = Some Q" "((hm0 s)(p := None)) (q + span Q) = Some R" using q by simp_all
      then show "q \<in> {} \<or> q + span Q \<in> {}" using d(9) q(3,4) unfolding apart_def by blast
    qed
    have "free_total L (hm0 t) = free_total L ((hm0 s)(p := None))"
      by (rule free_total_cong) (use nin ht in auto)
    then show "GC_large_free_bytes t = free_total L (hm0 t) + e" using d(10) same_but_listsD(5) [OF t(2)] b(2) by simp
  qed
  moreover have "used (hm0 t) = (used ((hm0 s)(p := None)))(p \<mapsto> ?K)" unfolding ht used_upd using K(2) by (auto simp: fun_eq_iff)
  moreover have "free_area (hm0 t) = free_area ((hm0 s)(p := None))" unfolding ht using free_area_used [OF K(2)] .
  moreover have "cfg t = cfg s" using same_but_listsD(4) [OF t(2)] b(1) by simp
  ultimately show thesis using that t(1) K(1) ht by blast
qed

text \<open>With counts, for an object of several blocks.\<close>

lemma finish:
  assumes v: "ready L s p a (a * HBLKSIZE)" and k: "ent s p = Hdr k" and nf: "never_fails s"
    and fl: "fl AND FREE_BLK = 0" "fl AND LARGE_BLOCK = 0" and sz: "0 < sz" "OBJ_SZ_TO_BLOCKS sz = a"
  obtains u w t L' K where "GC_install_counts p (a * HBLKSIZE) s = Some (True, u)" "setup_header k p sz kind fl u = Some (True, w)"
    "t = w\<lparr>GC_fail_count := 0, GC_large_free_bytes := GC_large_free_bytes w - a * HBLKSIZE\<rparr>" "heap_inv L t" "cfg t = cfg s"
    "set_up p sz kind fl K" "hm0 t p = Some K"
    "used (hm0 t) = (used ((hm0 s)(p := None)))(p \<mapsto> K)" "free_area (hm0 t) = free_area ((hm0 s)(p := None))"
proof -
  note d = readyD [OF v]
  have a: "0 < a * HBLKSIZE" using d(4) by simp
  obtain r u where u0: "GC_install_counts p (a * HBLKSIZE) s = Some (r, u)" "index_step s u" "hdrs u = hdrs s" "never_fails s \<longrightarrow> r"
    "(if r then ent u = (\<lambda>q. if behind p (a * HBLKSIZE) q then Fwd (min MAX_JUMP (q - p)) else ent s q) else ent u = ent s)"
    using install_counts_spec [OF d(1) a, of p] by blast
  have r: "r" using u0(4) nf by simp
  have be: "behind p (a * HBLKSIZE) q \<longleftrightarrow> p < q \<and> q < p + a" for q
  proof -
    have "q * HBLKSIZE < p * HBLKSIZE + a * HBLKSIZE \<longleftrightarrow> q < p + a" by linarith
    then show ?thesis by (simp add: behind_def)
  qed
  have u: "GC_install_counts p (a * HBLKSIZE) s = Some (True, u)"
    "ent u = (\<lambda>q. if p < q \<and> q < p + a then Fwd (min MAX_JUMP (q - p)) else ent s q)"
    using u0(1,5) r unfolding be by simp_all
  obtain w K where w: "setup_header k p sz kind fl u = Some (True, w)" "sound L w (a * HBLKSIZE)" "cfg w = cfg s" "set_up p sz kind fl K"
    "hm0 w = (hm0 s)(p \<mapsto> K)" "used (hm0 w) = (used ((hm0 s)(p := None)))(p \<mapsto> K)" "free_area (hm0 w) = free_area ((hm0 s)(p := None))"
    by (rule settle [OF v k nf u0(2,3) u(2) fl sz]) (rule that)
  let ?x = "GC_large_free_bytes w - a * HBLKSIZE"
  let ?v = "w\<lparr>GC_large_free_bytes := ?x\<rparr>"
  define t where "t = w\<lparr>GC_fail_count := 0, GC_large_free_bytes := ?x\<rparr>"
  have wi: "index_inv w" "lists_ok L w" using w(2) by (simp_all add: sound_def)
  note f = large_frame [OF wi, of ?x]
  have hv: "heap_inv L ?v" using w(2) f unfolding sound_def heap_inv_def by simp
  have "heap_fields t = heap_fields ?v" "next_scratch ?v \<le> next_scratch t" by (simp_all add: t_def heap_fields_def cfg_def)
  note g = heap_frame [OF f(1) this]
  have "heap_inv L t" "hm0 t = hm0 w" "cfg t = cfg s" using g(4,6,7) hv f(4) w(3) by (simp_all add: cfg_upd)
  then show thesis using that [OF u(1) w(1) t_def _ _ w(4)] w(5-7) by simp
qed

section \<open>Dropping a block\<close>

lemma lay_shrink:
  assumes l: "lay E M" and H: "M p = Some H" "HBLK_IS_FREE H" and K: "\<not> HBLK_IS_FREE K" "span K = 1"
  shows "lay E (M(p \<mapsto> K))"
proof (rule lay_change [OF l own_block [OF l H(1)]])
  obtain k where k: "E p = Hdr k" using layD(1) [OF l, of p] H(1) by auto
  have in0: "M q = None \<and> E q = Fwd 0" if "p < q" "q < p + span H" for q
    using lay_inner [OF l H(1) that] layD(5) [OF l H(1) that] H(2) by simp
  have 1: "tile E (M(p \<mapsto> K)) p (p + 1)"
    by (rule tile_block [of _ _ k _ K]) (use k K layD(2) [OF l H(1)] in auto)
  have "tile E (M(p \<mapsto> K)) (p + 1) (p + span H)" unfolding tile_def using in0 by auto
  then show "tile E (M(p \<mapsto> K)) p (p + span H)" using tile_append [OF 1] layD(3) [OF l H(1)] by simp
  show "E q = E q \<and> (M(p \<mapsto> K)) q = M q" if "q < p \<or> p + span H \<le> q" for q
    using that layD(3) [OF l H(1)] by auto
qed

lemma no_counts: "(\<lambda>q. if p < q \<and> q < p + 1 then f q else E q) = (E :: nat \<Rightarrow> 'a)"
  by (auto simp: fun_eq_iff)

lemma heap_grows_used:
  assumes "M p = None \<or> (\<exists>H. M p = Some H \<and> HBLK_IS_FREE H)" and "\<not> HBLK_IS_FREE K"
  shows "heap_grows M (M(p \<mapsto> K))"
  using free_area_used [OF assms(2), of M p] free_area_del [of M p] assms by (auto simp: heap_grows_def used_upd used_def)

lemma one_block: "OBJ_SZ_TO_BLOCKS HBLKSIZE = 1" "0 < HBLKSIZE"
  by (simp_all add: OBJ_SZ_TO_BLOCKS_def divHBLKSZ_def)

lemma put_single:
  assumes v: "heap_inv L s" and nf: "never_fails s" and h: "h \<noteq> 0" "h + 1 \<le> 2 ^ 51" "h \<notin> occupied (hm0 s)"
  obtains k s1 t K where "GC_install_header h s = Some (k, s1)" "k \<noteq> 0" "setup_header k h HBLKSIZE PTRFREE 0 s1 = Some (True, t)"
    "heap_inv L t" "cfg t = cfg s" "hm0 t = (hm0 s)(h \<mapsto> K)" "\<not> HBLK_IS_FREE K" "span K = 1" "heap_grows (hm0 s) (hm0 t)"
proof -
  note d = heap_invD [OF v]
  have o: "{h..<h + 1} \<inter> occupied (hm0 s) = {}" using h(3) by auto
  note no = not_occupied [OF d(2) o]
  have h0: "hm0 s h = None" using no(2) by simp
  obtain k s1 J where s1: "GC_install_header h s = Some (k, s1)" "k \<noteq> 0" "idx_to s s1" "base s1 = base s" "never_fails s1"
    "ent s1 = (ent s)(h := Hdr k)" "hm s1 = (hm s)(h \<mapsto> J)" using install_header_hm [OF d(1) nf, of h] by blast
  note b1 = baseD [OF s1(4)]
  have hs1: "hm0 s1 = (hm0 s)(h \<mapsto> no_links J)" by (rule ext) (simp add: hm0_def s1(7))
  have del: "(hm0 s1)(h := None) = hm0 s" unfolding hs1 using h0 by (simp add: fun_eq_iff)
  have nin: "q \<noteq> h" if "m \<le> N_HBLK_FLS" "q \<in> set (L m)" for m q using on_listsD(2) [OF d(4) that] h0 by auto
  have ready: "ready L s1 h 1 0" unfolding ready_def del no_counts
  proof (intro conjI allI impI)
    show "index_inv s1" using idx_toD(1) [OF s1(3)] .
    show "lists_ok L s1"
      by (rule lists_ok_frame [OF d(3)]) (use nin s1(7) b1 in auto)
    show "hm0 s1 h \<noteq> None" using hs1 by simp
    show "(0::nat) < 1" by simp
    show "h + 1 \<le> 2 ^ 51" by (rule h(2))
    show "lay (ent s1) ((hm0 s1)(h \<mapsto> K))" if K: "\<not> HBLK_IS_FREE K" "span K = 1" for K
    proof -
      have "lay (ent s1) ((hm0 s)(h \<mapsto> K))"
      proof (rule lay_put [OF d(2) no(1)])
        show "h < h + 1" by simp
        show "ent s1 q = ent s q" if "q < h \<or> h + 1 \<le> q" for q using s1(6) that by auto
      qed (use K h(1) s1(6) in auto)
      then show ?thesis unfolding hs1 by simp
    qed
    show "on_lists L (hm0 s) {}" "in_range (hm0 s)" "apart (hm0 s) {}" by (rule d(4), rule d(5), rule d(6))
    show "GC_large_free_bytes s1 = free_total L (hm0 s) + 0" using b1(2) d(7) by simp
  qed
  have k1: "ent s1 h = Hdr k" using s1(6) by simp
  have fl: "(0::8 word) AND FREE_BLK = 0" "(0::8 word) AND LARGE_BLOCK = 0" by simp_all
  obtain t K where t: "setup_header k h HBLKSIZE PTRFREE 0 s1 = Some (True, t)" "sound L t 0" "cfg t = cfg s1" "set_up h HBLKSIZE PTRFREE 0 K"
    "hm0 t = (hm0 s1)(h \<mapsto> K)" "used (hm0 t) = (used ((hm0 s1)(h := None)))(h \<mapsto> K)" "free_area (hm0 t) = free_area ((hm0 s1)(h := None))"
    by (rule settle [OF ready k1 s1(5) index_step_refl [OF idx_toD(1) [OF s1(3)]] refl no_counts [symmetric] fl one_block(2,1)]) (rule that)
  have K: "\<not> HBLK_IS_FREE K" "span K = 1" using t(4) one_block(1) by (simp_all add: set_up_def span_def)
  have ht: "hm0 t = (hm0 s)(h \<mapsto> K)" unfolding t(5) hs1 by simp
  have "heap_grows (hm0 s) (hm0 t)" unfolding ht by (rule heap_grows_used) (use h0 K in simp_all)
  then show thesis using that [OF s1(1,2) t(1) _ _ ht K] t(2,3) b1(1) by (simp add: sound_0)
qed

lemma occupied_upd: "span K = 1 \<Longrightarrow> q \<in> occupied (M(h \<mapsto> K)) \<Longrightarrow> q = h \<or> q \<in> occupied M"
  by (auto simp: occupied_def split: if_splits)

lemma drop_rest:
  assumes "heap_inv L s" and "never_fails s" and "p < i" and "e \<le> 2 ^ 51" and "{i..<e} \<inter> occupied (hm0 s) = {}"
  shows "\<exists>t. drop_blocks [i..<e] p k s = Some t \<and> heap_inv L t \<and> cfg t = cfg s \<and> heap_grows (hm0 s) (hm0 t)"
  using assms
proof (induction "e - i" arbitrary: i s)
  case 0
  then show ?case by simp
next
  case (Suc n)
  then have ie: "i < e" by simp
  have "i \<noteq> 0" "i + 1 \<le> 2 ^ 51" "i \<notin> occupied (hm0 s)" using Suc.prems ie by auto
  then obtain j s1 t1 K where t1: "GC_install_header i s = Some (j, s1)" "j \<noteq> 0" "setup_header j i HBLKSIZE PTRFREE 0 s1 = Some (True, t1)"
    "heap_inv L t1" "cfg t1 = cfg s" "hm0 t1 = (hm0 s)(i \<mapsto> K)" "\<not> HBLK_IS_FREE K" "span K = 1" "heap_grows (hm0 s) (hm0 t1)"
    using put_single [OF Suc.prems(1,2)] by metis
  have "{i + 1..<e} \<inter> occupied (hm0 t1) = {}" 
  proof (rule ccontr)
    assume "\<not> ?thesis"
    then obtain q where q: "i + 1 \<le> q" "q < e" "q \<in> occupied ((hm0 s)(i \<mapsto> K))" unfolding t1(6) by auto
    then have "q \<in> occupied (hm0 s)" using occupied_upd [OF t1(8) q(3)] by simp
    moreover have "q \<in> {i..<e}" using q(1,2) by simp
    ultimately show False using Suc.prems(5) by blast
  qed
  moreover have "never_fails t1" using cfgD(6) [OF t1(5)] Suc.prems(2) by simp
  moreover have "n = e - (i + 1)" "p < i + 1" using Suc.hyps(2) Suc.prems(3) by simp_all
  ultimately obtain t where t: "drop_blocks [i + 1..<e] p k t1 = Some t" "heap_inv L t" "cfg t = cfg t1" "heap_grows (hm0 t1) (hm0 t)"
    using Suc.hyps(1) [OF _ t1(4) _ _ Suc.prems(4), of "i + 1"] by blast
  have "drop_blocks [i..<e] p k s = Some t"
    using t(1) t1(1-3) Suc.prems(3) ie by (simp add: upt_conv_Cons)
  then show ?case using t t1(5) heap_grows_trans [OF t1(9) t(4)] by auto
qed

lemma drop_block_spec:
  assumes v: "heap_inv L s" and nf: "never_fails s" and n: "n \<le> N_HBLK_FLS" and p: "p \<in> set (L n)" and k: "ent s p = Hdr k"
  obtains t where "drop_block p k n s = Some t" "heap_inv (without L n p) t" "cfg t = cfg s" "heap_grows (hm0 s) (hm0 t)"
proof -
  note w = heap_near [OF v n p]
  note d = nearD [OF w]
  obtain H where H: "hm0 s p = Some H" "HBLK_IS_FREE H" using d(6) by blast
  note Hs = layD(4) [OF d(2) H] and p0 = layD(2) [OF d(2) H(1)] and pos = layD(3) [OF d(2) H(1)]
  obtain H' where H': "hm s p = Some H'" "H = no_links H'" using hm0_hm [OF H(1)] by blast
  have Hk: "hdrs s k = Some H'" using ent_hm [OF d(1) k] H'(1) by auto
  have tot: "hb_sz H' = span H * HBLKSIZE" using Hs H'(2) by simp
  let ?s1 = "s\<lparr>GC_large_free_bytes := GC_large_free_bytes s - hb_sz H', GC_bytes_dropped := GC_bytes_dropped s + hb_sz H'\<rparr>"
  note g = large_frame [OF d(1,3), of "GC_large_free_bytes s - hb_sz H'"]
  let ?v = "s\<lparr>GC_large_free_bytes := GC_large_free_bytes s - hb_sz H'\<rparr>"
  have "heap_fields ?s1 = heap_fields ?v" "next_scratch ?v \<le> next_scratch ?s1" by (simp_all add: heap_fields_def cfg_def)
  note f = heap_frame [OF g(1) this]
  have h1: "hm0 ?s1 = hm0 s" "ent ?s1 = ent s" "hm ?s1 = hm s" "lists_ok L ?s1" "index_inv ?s1" "cfg ?s1 = cfg s"
    using f g idx_toD(1) [OF f(1)] by (simp_all add: cfg_upd)
  obtain xs ys where L: "L n = xs @ p # ys" "without L n p = L(n := xs @ ys)" using list_split [OF d(3-5)] .
  have k1: "ent ?s1 p = Hdr k" using h1(2) k by simp
  let ?L = "without L n p"
  obtain s2 where s2: "GC_remove_from_fl_at k n ?s1 = Some s2" "same_but_lists ?s1 s2" "hm0 s2 = hm0 ?s1" "hm s2 p = hm ?s1 p" "lists_ok (L(n := xs @ ys)) s2"
    by (rule remove_from_fl_at_spec [OF h1(5,4) n L(1) k1]) (rule that)
  have ft: "free_total L (hm0 s) = free_total ?L (hm0 s) + hb_sz H"
    using free_total_upd [OF n, of L "xs @ ys" "hm0 s"] L H(1) by simp
  have nin: "p \<notin> set (?L m)" if "m \<le> N_HBLK_FLS" for m using on_listsD(2) [OF d(7) that] by blast
  have hs2: "hm0 s2 = hm0 s" "ent s2 = ent s" "cfg s2 = cfg s" using s2(3) h1 same_but_listsD(3,4) [OF s2(2)] by simp_all
  have end51: "p + span H \<le> 2 ^ 51" using d(8) H(1) unfolding in_range_def by blast
  have ready: "ready ?L s2 p 1 0" unfolding ready_def no_counts hs2
  proof (intro conjI allI impI)
    show "index_inv s2" using same_but_listsD(1) [OF s2(2)] .
    show "lists_ok ?L s2" unfolding L(2) by (rule s2(5))
    show "hm0 s p \<noteq> None" using H(1) by simp
    show "(0::nat) < 1" by simp
    show "p + 1 \<le> 2 ^ 51" using end51 pos by simp
    show "lay (ent s) ((hm0 s)(p \<mapsto> K))" if "\<not> HBLK_IS_FREE K" "span K = 1" for K by (rule lay_shrink [OF d(2) H that])
    show "on_lists ?L ((hm0 s)(p := None)) {}" by (rule on_lists_del [OF d(7)])
    show "in_range ((hm0 s)(p := None))" by (rule in_range_del [OF d(8)])
    show "apart ((hm0 s)(p := None)) {}" by (rule d(9))
    show "GC_large_free_bytes s2 = free_total ?L ((hm0 s)(p := None)) + 0"
      using same_but_listsD(5) [OF s2(2)] d(10) ft H'(2) free_total_del [of p ?L "hm0 s"] nin by simp
  qed
  have nf2: "never_fails s2" using cfgD(6) [OF hs2(3)] nf by simp
  have k2: "ent s2 p = Hdr k" using hs2(2) k by simp
  have fl: "(0::8 word) AND FREE_BLK = 0" "(0::8 word) AND LARGE_BLOCK = 0" by simp_all
  obtain t1 K where t1: "setup_header k p HBLKSIZE PTRFREE 0 s2 = Some (True, t1)" "sound ?L t1 0" "cfg t1 = cfg s2" "set_up p HBLKSIZE PTRFREE 0 K"
    "hm0 t1 = (hm0 s2)(p \<mapsto> K)" "used (hm0 t1) = (used ((hm0 s2)(p := None)))(p \<mapsto> K)" "free_area (hm0 t1) = free_area ((hm0 s2)(p := None))"
    by (rule settle [OF ready k2 nf2 index_step_refl [OF same_but_listsD(1) [OF s2(2)]] refl no_counts [symmetric] fl one_block(2,1)]) (rule that)
  have K: "\<not> HBLK_IS_FREE K" "span K = 1" using t1(4) one_block(1) by (simp_all add: set_up_def span_def)
  have h3: "hm0 t1 = (hm0 s)(p \<mapsto> K)" using t1(5) hs2(1) by simp
  have "{p + 1..<p + span H} \<inter> occupied (hm0 t1) = {}"
  proof (rule ccontr)
    assume "\<not> ?thesis"
    then obtain q where "q \<in> {p + 1..<p + span H}" "q \<in> occupied (hm0 t1)" by blast
    then obtain x X where q: "p < q" "q < p + span H" "hm0 t1 x = Some X" "x \<le> q" "q < x + span X" by (auto simp: occupied_def)
    have "x \<noteq> p" using q K(2) h3 by auto
    then have "hm0 s x = Some X" using q(3) h3 by simp
    then have "x = p" using lay_owner [OF d(2) H(1) _ _ q(2) q(4,5)] q(1) by simp
    then show False using \<open>x \<noteq> p\<close> by blast
  qed
  moreover have "never_fails t1" using cfgD(6) [OF t1(3)] nf2 by simp
  moreover have "heap_inv ?L t1" using t1(2) by (simp add: sound_0)
  ultimately obtain t where t: "drop_blocks [p + 1..<p + span H] p k t1 = Some t" "heap_inv ?L t" "cfg t = cfg t1" "heap_grows (hm0 t1) (hm0 t)"
    using drop_rest [of ?L t1 p "p + 1" "p + span H" k] end51 by auto
  have g1: "heap_grows (hm0 s) (hm0 t1)" unfolding h3 by (rule heap_grows_used) (use H K in auto)
  have "0 \<noteq> k" using index_inv_ent(4) [OF d(1) k] by simp
  then have "drop_block p k n s = Some t"
    using Hk s2(1) t1(1) t(1) tot pos by (simp add: drop_block_def divHBLKSZ_def upt_conv_Cons)
  then show thesis using that t(2,3) t1(3) hs2(3) heap_grows_trans [OF g1 t(4)] by simp
qed

section \<open>Choosing a part of a block\<close>

lemma skip_black_spec:
  "h \<le> skip_black h e eff s \<and> (int (skip_black h e eff s * HBLKSIZE) \<le> e \<longrightarrow> GC_is_black_listed (skip_black h e eff s) eff s = 0)"
proof (induction h e eff s rule: skip_black.induct)
  case (1 h e eff s)
  show ?case
  proof (cases "int (h * HBLKSIZE) \<le> e \<and> GC_is_black_listed h eff s \<noteq> 0")
    case True
    then have "h < GC_is_black_listed h eff s" using black_listed_later [of h eff s] by simp
    then show ?thesis using "1.IH" [OF True] True by (subst (1 2 3) skip_black.simps) simp
  next
    case False
    then show ?thesis by (subst (1 2 3) skip_black.simps) auto
  qed
qed

lemma bl_loop_cfg: "cfg t = cfg s \<Longrightarrow> bl_loop h m i x t = bl_loop h m i x s"
proof (induction h m i x t rule: bl_loop.induct)
  case (1 h m i x t)
  then show ?case using cfgD [OF "1.prems"] by (subst (1 2) bl_loop.simps) (simp add: Let_def)
qed

lemma black_cfg: "cfg t = cfg s \<Longrightarrow> GC_is_black_listed h l t = GC_is_black_listed h l s"
  using bl_loop_cfg [of t s] cfgD [of t s] by (simp add: GC_is_black_listed_def Let_def)

text \<open>The objects for which a place that is not black listed is found.\<close>

definition eff_size :: "8 word \<Rightarrow> nat \<Rightarrow> nat" where
  "eff_size fl size_needed = (if fl AND IGNORE_OFF_PAGE \<noteq> 0 then HBLKSIZE else size_needed)"

definition avoids_black :: "nat \<Rightarrow> nat \<Rightarrow> gc \<Rightarrow> bool" where
  "avoids_black size_needed kind s \<longleftrightarrow> \<not> IS_UNCOLLECTABLE kind \<and> (kind \<noteq> PTRFREE \<or> size_needed > MAX_BLACK_LIST_ALLOC)
     \<and> size_needed \<le> GC_black_list_spacing s"

definition taken :: "nat \<Rightarrow> 8 word \<Rightarrow> nat \<Rightarrow> gc \<Rightarrow> nat \<Rightarrow> nat \<Rightarrow> gc \<Rightarrow> bool" where
  "taken kind fl a s r k t \<longleftrightarrow> (\<exists>L. ready L t r a (a * HBLKSIZE)) \<and> ent t r = Hdr k \<and> cfg t = cfg s \<and> r \<noteq> 0
     \<and> heap_grows (hm0 s) ((hm0 t)(r := None)) \<and> {r..<r + a} \<subseteq> free_area (hm0 s)
     \<and> (avoids_black (a * HBLKSIZE) kind s \<longrightarrow> GC_is_black_listed r (eff_size fl (a * HBLKSIZE)) s = 0)"

lemma taken_trans:
  assumes "taken kind fl a t r k u" and "cfg t = cfg s" "heap_grows (hm0 s) (hm0 t)"
  shows "taken kind fl a s r k u"
proof -
  have "free_area (hm0 t) \<subseteq> free_area (hm0 s)" using assms(3) by (simp add: heap_grows_def)
  then have "{r..<r + a} \<subseteq> free_area (hm0 s)" using assms(1) unfolding taken_def by blast
  moreover have "heap_grows (hm0 s) ((hm0 u)(r := None))" using heap_grows_trans [OF assms(3)] assms(1) unfolding taken_def by blast
  moreover have "avoids_black z kind t = avoids_black z kind s" for z using cfgD(5) [OF assms(2)] by (simp add: avoids_black_def)
  ultimately show ?thesis using assms(1,2) black_cfg [OF assms(2)] unfolding taken_def by simp
qed

lemma first_part_taken:
  assumes v: "near L t p n" and nf: "never_fails t" and k: "ent t p = Hdr k" and H: "hm0 t p = Some H" and a: "0 < a" "a \<le> span H"
    and right: "\<forall>R. hm0 t (p + span H) = Some R \<longrightarrow> \<not> HBLK_IS_FREE R"
    and s: "cfg t = cfg s" "heap_grows (hm0 s) (hm0 t)"
    and bl: "avoids_black (a * HBLKSIZE) kind s \<Longrightarrow> GC_is_black_listed p (eff_size fl (a * HBLKSIZE)) s = 0"
  obtains u where "GC_get_first_part p k (a * HBLKSIZE) n t = Some (p, u)" "taken kind fl a s p k u"
proof -
  note d = nearD [OF v]
  obtain u L' where u: "GC_get_first_part p k (a * HBLKSIZE) n t = Some (p, u)" "ready L' u p a (a * HBLKSIZE)" "ent u p = Hdr k" "cfg u = cfg t"
    "heap_grows (hm0 t) ((hm0 u)(p := None))" by (rule first_part [OF v nf k H a right]) (rule that)
  have Hf: "HBLK_IS_FREE H" using d(6) H by auto
  have "{p..<p + a} \<subseteq> free_area (hm0 t)" using free_areaI [of "hm0 t" p H] H Hf a(2) by auto
  then have "{p..<p + a} \<subseteq> free_area (hm0 s)" using s(2) by (auto simp: heap_grows_def)
  moreover have "p \<noteq> 0" using layD(2) [OF d(2) H] .
  ultimately have "taken kind fl a s p k u" unfolding taken_def using u(2-4) s bl heap_grows_trans [OF s(2) u(5)] by auto
  then show thesis using that u(1) by blast
qed

text \<open>What a choice means, for a block \<open>p\<close> of the list \<open>n\<close> before the blocks \<open>ys\<close>.\<close>

definition goes_on :: "(nat \<Rightarrow> nat list) \<Rightarrow> gc \<Rightarrow> nat \<Rightarrow> nat list \<Rightarrow> gc \<Rightarrow> nat \<Rightarrow> bool" where
  "goes_on L s n ys t h \<longleftrightarrow> (\<exists>L' xs zs. heap_inv L' t \<and> cfg t = cfg s \<and> heap_grows (hm0 s) (hm0 t) \<and> L' n = xs @ zs \<and> h = hd_or zs 0
     \<and> (length (L' n) < length (L n) \<or> L' = L \<and> zs = ys))"

definition choice_ok :: "(nat \<Rightarrow> nat list) \<Rightarrow> gc \<Rightarrow> nat \<Rightarrow> 8 word \<Rightarrow> nat \<Rightarrow> nat \<Rightarrow> nat list \<Rightarrow> choice \<Rightarrow> gc \<Rightarrow> bool" where
  "choice_ok L s kind fl a n ys c t =
     (case c of
        Use h k avail \<Rightarrow> avail \<ge> int (a * HBLKSIZE) \<and> (\<exists>u. GC_get_first_part h k (a * HBLKSIZE) n t = Some (h, u) \<and> taken kind fl a s h k u)
      | Next h \<Rightarrow> goes_on L s n ys t h
      | Restart \<Rightarrow> goes_on L s n ys t (GC_hblkfreelist t n))"

lemma count_frame:
  assumes "heap_inv L s"
  shows "heap_inv L (s\<lparr>drop_count := x\<rparr>)" "hm0 (s\<lparr>drop_count := x\<rparr>) = hm0 s" "cfg (s\<lparr>drop_count := x\<rparr>) = cfg s" "ent (s\<lparr>drop_count := x\<rparr>) = ent s"
    "heap_inv L (s\<lparr>GC_large_alloc_warn_suppressed := x\<rparr>)" "hm0 (s\<lparr>GC_large_alloc_warn_suppressed := x\<rparr>) = hm0 s"
    "cfg (s\<lparr>GC_large_alloc_warn_suppressed := x\<rparr>) = cfg s" "ent (s\<lparr>GC_large_alloc_warn_suppressed := x\<rparr>) = ent s"
proof -
  note i = heap_invD(1) [OF assms]
  have "heap_fields (s\<lparr>drop_count := x\<rparr>) = heap_fields s" "heap_fields (s\<lparr>GC_large_alloc_warn_suppressed := x\<rparr>) = heap_fields s"
    by (simp_all add: heap_fields_def cfg_def)
  note f = heap_frame [OF i this(1)] heap_frame [OF i this(2)]
  show "heap_inv L (s\<lparr>drop_count := x\<rparr>)" "hm0 (s\<lparr>drop_count := x\<rparr>) = hm0 s" "cfg (s\<lparr>drop_count := x\<rparr>) = cfg s" "ent (s\<lparr>drop_count := x\<rparr>) = ent s"
    "heap_inv L (s\<lparr>GC_large_alloc_warn_suppressed := x\<rparr>)" "hm0 (s\<lparr>GC_large_alloc_warn_suppressed := x\<rparr>) = hm0 s"
    "cfg (s\<lparr>GC_large_alloc_warn_suppressed := x\<rparr>) = cfg s" "ent (s\<lparr>GC_large_alloc_warn_suppressed := x\<rparr>) = ent s"
    using f assms by simp_all
qed

lemma whole_part:
  assumes v: "heap_inv L t" and nf: "never_fails t" and n: "n \<le> N_HBLK_FLS" "p \<in> set (L n)" and k: "ent t p = Hdr k"
    and H: "hm0 t p = Some H" and a: "0 < a" "a \<le> span H" and s: "cfg t = cfg s" "hm0 t = hm0 s"
    and bl: "avoids_black (a * HBLKSIZE) kind s \<Longrightarrow> GC_is_black_listed p (eff_size fl (a * HBLKSIZE)) s = 0"
  shows "\<exists>u. GC_get_first_part p k (a * HBLKSIZE) n t = Some (p, u) \<and> taken kind fl a s p k u"
proof -
  note w = heap_near [OF v n]
  have Hf: "HBLK_IS_FREE H" using nearD(6) [OF w] H by auto
  have right: "\<forall>R. hm0 t (p + span H) = Some R \<longrightarrow> \<not> HBLK_IS_FREE R"
    using heap_invD(6) [OF v] H Hf unfolding apart_def by blast
  have "heap_grows (hm0 s) (hm0 t)" using s(2) by simp
  then show ?thesis using first_part_taken [OF w nf k H a right s(1) _ bl] by blast
qed

lemma use_ok:
  "\<exists>u. GC_get_first_part h k (a * HBLKSIZE) n t = Some (h, u) \<and> taken kind fl a s h k u \<Longrightarrow> int (a * HBLKSIZE) \<le> avail
    \<Longrightarrow> choice_ok L s kind fl a n ys (Use h k avail) t"
  by (simp add: choice_ok_def)

lemma choose_part_spec:
  assumes v: "heap_inv L s" and nf: "never_fails s" and n: "n \<le> N_HBLK_FLS" and L: "L n = xs @ p # ys" and k: "ent s p = Hdr k"
    and H: "hm0 s p = Some H" and a: "0 < a" "a \<le> span H"
  shows "\<exists>c t. choose_part (a * HBLKSIZE) kind fl n p k s = Some (c, t) \<and> choice_ok L s kind fl a n ys c t"
proof -
  note d = heap_invD [OF v]
  have p: "p \<in> set (L n)" using L by simp
  have Hf: "HBLK_IS_FREE H" using on_listsD(1) [OF d(4) H] on_listsD(2) [OF d(4) n p] H p by auto
  note Hs = layD(4) [OF d(2) H Hf] and p0 = layD(2) [OF d(2) H]
  obtain H' where H': "hm s p = Some H'" "H = no_links H'" using hm0_hm [OF H] by blast
  have Hk: "hdrs s k = Some H'" using ent_hm [OF d(1) k] H'(1) by auto
  have tot: "hb_sz H' = span H * HBLKSIZE" using Hs H'(2) by simp
  have lk: "hb_prev H' = last_or 0 xs" "hb_next H' = hd_or ys 0" using dseg_at [OF lists_okD(1) [OF d(3) n, unfolded L]] H'(1) by auto
  let ?z = "a * HBLKSIZE"
  have zt: "?z \<le> hb_sz H'" unfolding tot by (rule mult_le_mono1 [OF a(2)])
  have next_ok: "goes_on L s n ys (s\<lparr>drop_count := x\<rparr>) (hd_or ys 0)" for x
    unfolding goes_on_def using count_frame(1-3) [OF v, of x] L by (intro exI [of _ L] exI [of _ "xs @ [p]"] exI [of _ ys]) simp
  have next_ok0: "goes_on L s n ys s (hd_or ys 0)"
    unfolding goes_on_def using v L by (intro exI [of _ L] exI [of _ "xs @ [p]"] exI [of _ ys]) simp
  show ?thesis
  proof (cases "\<not> IS_UNCOLLECTABLE kind \<and> (kind \<noteq> PTRFREE \<or> ?z > MAX_BLACK_LIST_ALLOC)")
    case False
    then have nb: "\<not> avoids_black ?z kind s" by (auto simp: avoids_black_def)
    have "choose_part ?z kind fl n p k s = Some (Use p k (int (hb_sz H')), s)"
      unfolding choose_part_def Hk bind.bind_lunit Let_def if_not_P [OF False] ..
    moreover have "choice_ok L s kind fl a n ys (Use p k (int (hb_sz H'))) s"
    proof (rule use_ok)
      have "avoids_black ?z kind s \<Longrightarrow> GC_is_black_listed p (eff_size fl ?z) s = 0" using nb by blast
      then show "\<exists>u. GC_get_first_part p k ?z n s = Some (p, u) \<and> taken kind fl a s p k u"
        by (rule whole_part [OF v nf n p k H a refl refl])
      show "int ?z \<le> int (hb_sz H')" using zt by (rule iffD2 [OF of_nat_le_iff])
    qed
    ultimately show ?thesis by blast
  next
    case c1: True
    let ?e = "int (p * HBLKSIZE) + int (hb_sz H') - int ?z" and ?eff = "eff_size fl ?z"
    let ?l = "skip_black p ?e ?eff s"
    let ?avail = "int (hb_sz H') - int (?l * HBLKSIZE - p * HBLKSIZE)"
    have sb: "p \<le> ?l" "int (?l * HBLKSIZE) \<le> ?e \<longrightarrow> GC_is_black_listed ?l ?eff s = 0" using skip_black_spec by blast+
    define c where "c = ?l - p"
    have l: "?l = p + c" using sb(1) by (simp add: c_def)
    have av: "?avail = int (span H * HBLKSIZE) - int (c * HBLKSIZE)" 
    proof -
      have "?l * HBLKSIZE - p * HBLKSIZE = c * HBLKSIZE" unfolding l by (simp add: distrib_right)
      then have "?avail = int (hb_sz H') - int (c * HBLKSIZE)" by (rule arg_cong)
      then show ?thesis unfolding tot .
    qed
    have eff: "(if fl AND IGNORE_OFF_PAGE \<noteq> 0 then HBLKSIZE else ?z) = ?eff" by (simp add: eff_size_def)
    note ch = choose_part_def [of ?z kind fl n p k s, unfolded Hk bind.bind_lunit Let_def eff if_P [OF c1]]
    show ?thesis
    proof (cases "?avail \<ge> int ?z")
      case c2: True
      have ca: "c + a \<le> span H" using c2 unfolding av by simp
      have "int (?l * HBLKSIZE) \<le> ?e" using c2 sb(1) by simp
      then have clear: "GC_is_black_listed ?l ?eff s = 0" using sb(2) by blast
      show ?thesis
      proof (cases "c = 0")
        case True
        have "choose_part ?z kind fl n p k s = Some (Use p k ?avail, s)"
          unfolding ch if_P [OF c2] using True l by simp
        moreover have "choice_ok L s kind fl a n ys (Use p k ?avail) s"
        proof (rule use_ok [OF _ c2])
          have "GC_is_black_listed p (eff_size fl ?z) s = 0" using clear l True by simp
          then show "\<exists>u. GC_get_first_part p k ?z n s = Some (p, u) \<and> taken kind fl a s p k u"
            by (rule whole_part [OF v nf n p k H a refl refl])
        qed
        ultimately show ?thesis by blast
      next
        case False
        then have c0: "0 < c" "c < span H" using ca a(1) by simp_all
        obtain s1 kr t L' B where t: "GC_install_header (p + c) s = Some (kr, s1)" "kr \<noteq> 0" "GC_split_block p k (p + c) kr n s1 = Some t"
          "near L' t (p + c) n" "ent t (p + c) = Hdr kr" "hm0 t (p + c) = Some B" "span B = span H - c" "cfg t = cfg s" "heap_grows (hm0 s) (hm0 t)"
          "\<forall>R. hm0 t (p + c + span B) = Some R \<longrightarrow> \<not> HBLK_IS_FREE R"
          by (rule split_spec [OF v nf n p k H c0]) (rule that)
        have "choose_part ?z kind fl n p k s = Some (Use (p + c) kr ?avail, t)"
          unfolding ch if_P [OF c2] using False l t(1-3) by simp
        moreover have "choice_ok L s kind fl a n ys (Use (p + c) kr ?avail) t"
        proof -
          have nft: "never_fails t" using cfgD(6) [OF t(8)] nf by simp
          have aB: "a \<le> span B" using t(7) ca by simp
          have cl: "GC_is_black_listed (p + c) (eff_size fl ?z) s = 0" using clear l by simp
          obtain u where "GC_get_first_part (p + c) kr ?z n t = Some (p + c, u)" "taken kind fl a s (p + c) kr u"
            by (rule first_part_taken [OF t(4) nft t(5,6) a(1) aB t(10) t(8,9) cl]) (rule that)
          then show ?thesis by (intro use_ok [OF _ c2] exI conjI)
        qed
        ultimately show ?thesis by blast
      qed
    next
      case c2: False
      show ?thesis
      proof (cases "?z > GC_black_list_spacing s \<and> int (hb_sz H') - int ?z > int (GC_black_list_spacing s)")
        case c3: True
        let ?w = "if GC_large_alloc_warn_suppressed s + 1 \<ge> GC_large_alloc_warn_interval s then 0 else GC_large_alloc_warn_suppressed s + 1"
        let ?t = "s\<lparr>GC_large_alloc_warn_suppressed := ?w\<rparr>"
        note f = count_frame(5-8) [OF v, of ?w]
        have nb: "\<not> avoids_black ?z kind s" using c3 by (simp add: avoids_black_def)
        have "choose_part ?z kind fl n p k s = Some (Use p k (int (hb_sz H')), ?t)"
          unfolding ch if_not_P [OF c2] if_P [OF c3] ..
        moreover have "choice_ok L s kind fl a n ys (Use p k (int (hb_sz H'))) ?t"
        proof -
          have e: "never_fails ?t" "ent ?t p = Hdr k" "hm0 ?t p = Some H" using cfgD(6) [OF f(3)] nf f(2,4) k H by (simp_all only:)
          show ?thesis
          proof (rule use_ok)
            have "avoids_black ?z kind s \<Longrightarrow> GC_is_black_listed p (eff_size fl ?z) s = 0" using nb by blast
            then show "\<exists>u. GC_get_first_part p k ?z n ?t = Some (p, u) \<and> taken kind fl a s p k u"
              by (rule whole_part [OF f(1) e(1) n p e(2,3) a f(3,2)])
            show "int ?z \<le> int (hb_sz H')" using zt by (rule iffD2 [OF of_nat_le_iff])
          qed
        qed
        ultimately show ?thesis by blast
      next
        case c3: False
        show ?thesis
        proof (cases "?avail = 0 \<and> ?z = HBLKSIZE \<and> \<not> GC_find_leak s")
          case False
          have "choose_part ?z kind fl n p k s = Some (Next (hd_or ys 0), s)"
            unfolding ch if_not_P [OF c2] if_not_P [OF c3] if_not_P [OF False] lk ..
          then show ?thesis using next_ok0 by (auto simp: choice_ok_def)
        next
          case c4: True
          let ?n = "(drop_count s + 1) mod 2 ^ 32"
          let ?s = "s\<lparr>drop_count := ?n\<rparr>"
          note f = count_frame(1-4) [OF v, of ?n]
          show ?thesis
          proof (cases "?n mod 4 = 0")
            case False
            have "choose_part ?z kind fl n p k s = Some (Next (hd_or ys 0), ?s)"
              unfolding ch if_not_P [OF c2] if_not_P [OF c3] if_P [OF c4] if_not_P [OF False] lk ..
            then show ?thesis using next_ok by (auto simp: choice_ok_def)
          next
            case c5: True
            have e: "never_fails ?s" "ent ?s p = Hdr k" using cfgD(6) [OF f(3)] nf f(4) k by (simp_all only:)
            obtain t where t: "drop_block p k n ?s = Some t" "heap_inv (without L n p) t" "cfg t = cfg ?s" "heap_grows (hm0 ?s) (hm0 t)"
              by (rule drop_block_spec [OF f(1) e(1) n p e(2)]) (rule that)
            have px: "p \<notin> set xs" using lists_okD(3) [OF d(3) n] L by simp
            have L': "without L n p n = xs @ ys" using without_split [of L n xs p ys] L px by simp
            have go: "goes_on L s n ys t h" if "xs @ ys = us @ zs" "h = hd_or zs 0" for us zs h
            proof -
              have "length (without L n p n) < length (L n)" unfolding L' L by simp
              moreover have "cfg t = cfg s" "heap_grows (hm0 s) (hm0 t)" using t(3,4) f(2,3) by (simp_all only:)
              moreover have "without L n p n = us @ zs" unfolding L' by (rule that(1))
              ultimately show ?thesis unfolding goes_on_def using t(2) that(2) by blast
            qed
            note ch5 = ch [unfolded if_not_P [OF c2] if_not_P [OF c3] if_P [OF c4] if_P [OF c5] t(1) bind.bind_lunit lk]
            show ?thesis
            proof (cases "xs = []")
              case True
              have "choose_part ?z kind fl n p k s = Some (Restart, t)" unfolding ch5 using True by simp
              moreover have "GC_hblkfreelist t n = hd_or (xs @ ys) 0"
                using lists_okD(2) [OF heap_invD(3) [OF t(2)] n] L' by simp
              ultimately show ?thesis using go [of "[]" "xs @ ys"] by (auto simp: choice_ok_def)
            next
              case False
              then obtain us u where us: "xs = us @ [u]" by (cases xs rule: rev_cases) auto
              have u0: "u \<noteq> 0" using lists_okD(4) [OF d(3) n] L us by auto
              have "dseg (hm t) 0 (us @ u # ys) 0" using lists_okD(1) [OF heap_invD(3) [OF t(2)] n] L' us by simp
              then obtain U where U: "hm t u = Some U" "hb_next U = hd_or ys 0" using dseg_at by metis
              then obtain ku where "hdr_of u t = Some ku" "hdrs t ku = Some U" using hdr_of_hm [OF heap_invD(1) [OF t(2)] U(1)] by blast
              then have "choose_part ?z kind fl n p k s = Some (Next (hd_or ys 0), t)" unfolding ch5 using us u0 U(2) by simp
              then show ?thesis using go [of xs ys] by (auto simp: choice_ok_def)
            qed
          qed
        qed
      qed
    qed
  qed
qed

section \<open>The search of a list\<close>

definition none_found :: "gc \<Rightarrow> gc \<Rightarrow> bool" where
  "none_found s t \<longleftrightarrow> (\<exists>L. heap_inv L t) \<and> cfg t = cfg s \<and> heap_grows (hm0 s) (hm0 t)"

lemma none_found_trans: "none_found t u \<Longrightarrow> cfg t = cfg s \<Longrightarrow> heap_grows (hm0 s) (hm0 t) \<Longrightarrow> none_found s u"
  using heap_grows_trans [of "hm0 s" "hm0 t" "hm0 u"] by (auto simp: none_found_def)

definition found :: "nat \<Rightarrow> 8 word \<Rightarrow> nat \<Rightarrow> gc \<Rightarrow> nat \<Rightarrow> nat \<Rightarrow> gc \<Rightarrow> bool" where
  "found kind fl a s r k t \<longleftrightarrow> (if r = 0 then none_found s t else taken kind fl a s r k t)"

lemma found_trans: "found kind fl a t r k u \<Longrightarrow> cfg t = cfg s \<Longrightarrow> heap_grows (hm0 s) (hm0 t) \<Longrightarrow> found kind fl a s r k u"
  using none_found_trans taken_trans by (simp add: found_def split: if_splits)

lemma search_spec:
  assumes n: "n \<le> N_HBLK_FLS" and a: "0 < a"
  shows "heap_inv L s \<Longrightarrow> never_fails s \<Longrightarrow> L n = xs @ ys
    \<Longrightarrow> \<exists>r k t. search_list (a * HBLKSIZE) kind fl n may (hd_or ys 0) s = Some (r, k, t) \<and> found kind fl a s r k t"
proof (induction "length (L n)" arbitrary: L s xs ys rule: less_induct)
  case (less L)
  let ?z = "a * HBLKSIZE"
  have "\<exists>r k t. search_list ?z kind fl n may (hd_or ys 0) s = Some (r, k, t) \<and> found kind fl a s r k t"
    if "heap_inv L s" "never_fails s" "L n = xs @ ys" for xs ys s
    using that
  proof (induction ys arbitrary: xs s)
    case Nil
    have "found kind fl a s 0 0 s" using Nil by (auto simp: found_def none_found_def)
    then show ?case by (subst search_list.simps) simp
  next
    case (Cons p ys)
    note v = Cons.prems(1) and nf = Cons.prems(2) and L = Cons.prems(3)
    note d = heap_invD [OF v]
    have p: "p \<in> set (L n)" using L by simp
    obtain H where H: "hm0 s p = Some H" using on_listsD(2) [OF d(4) n p] by blast
    have Hf: "HBLK_IS_FREE H" using on_listsD(1) [OF d(4) H] on_listsD(2) [OF d(4) n p] H p by auto
    note Hs = layD(4) [OF d(2) H Hf] and p0 = layD(2) [OF d(2) H]
    obtain H' where H': "hm s p = Some H'" "H = no_links H'" using hm0_hm [OF H] by blast
    obtain k where k: "hdr_of p s = Some k" "ent s p = Hdr k" "hdrs s k = Some H'" using hdr_of_hm [OF d(1) H'(1)] by blast
    have tot: "hb_sz H' = span H * HBLKSIZE" using Hs H'(2) by simp
    have lk: "hb_next H' = hd_or ys 0" using dseg_at [OF lists_okD(1) [OF d(3) n, unfolded L]] H'(1) by auto
    have rest: "\<exists>r k t. search_list ?z kind fl n may (hd_or ys 0) s = Some (r, k, t) \<and> found kind fl a s r k t"
      using Cons.IH [OF v nf, of "xs @ [p]"] L by simp
    define nxt where "nxt = hb_next H'"
    define go_on where "go_on = (if hb_sz H' = ?z then Some False else if \<not> may then Some True
      else if nxt = 0 then Some False
      else do { k \<leftarrow> hdr_of nxt s; N \<leftarrow> hdrs s k;
                Some (hb_sz N < hb_sz H' \<and> hb_sz N \<ge> ?z \<and> GC_is_black_listed nxt ?z s = 0) })"
    have step: "search_list ?z kind fl n may p s = (if hb_sz H' < ?z then search_list ?z kind fl n may (hd_or ys 0) s
        else do { g \<leftarrow> go_on;
          if g then search_list ?z kind fl n may (hd_or ys 0) s
          else do {
            (c, s1) \<leftarrow> choose_part ?z kind fl n p k s;
            case c of
              Use h k avail \<Rightarrow>
                if avail \<ge> int ?z then do { (r, s2) \<leftarrow> GC_get_first_part h k ?z n s1; Some (r, k, s2) }
                else do { K \<leftarrow> hdrs s1 k; search_list ?z kind fl n may (hb_next K) s1 }
            | Next h \<Rightarrow> search_list ?z kind fl n may h s1
            | Restart \<Rightarrow> search_list ?z kind fl n may (GC_hblkfreelist s1 n) s1 } })"
      unfolding go_on_def nxt_def by (subst search_list.simps) (simp add: p0 k(1,3) lk cong: if_cong option.case_cong)
    show ?case unfolding hd_or_simps
    proof (cases "hb_sz H' < ?z")
      case True
      show "\<exists>r k t. search_list ?z kind fl n may p s = Some (r, k, t) \<and> found kind fl a s r k t" unfolding step if_P [OF True] by (rule rest)
    next
      case False
      have aH: "a \<le> span H" using False unfolding tot by simp
      have "\<exists>g. go_on = Some g"
      proof (cases "nxt = 0")
        case True
        then show ?thesis by (simp add: go_on_def ex_bool_eq)
      next
        case False
        then have "hd_or ys 0 \<in> set (L n)" using hd_or_in [of ys] lk L by (simp add: nxt_def)
        then obtain N where "hm s nxt = Some N" using dseg_some [OF lists_okD(1) [OF d(3) n]] lk by (auto simp: nxt_def)
        then obtain j where "hdr_of nxt s = Some j" "hdrs s j = Some N" using hdr_of_hm [OF d(1)] by blast
        then show ?thesis by (auto simp: go_on_def ex_bool_eq)
      qed
      then obtain g where g: "go_on = Some g" by blast
      show "\<exists>r k t. search_list ?z kind fl n may p s = Some (r, k, t) \<and> found kind fl a s r k t"
      proof (cases g)
        case True
        show ?thesis unfolding step if_not_P [OF False] g bind.bind_lunit if_P [OF True] by (rule rest)
      next
        case gF: False
        obtain c s1 where c: "choose_part ?z kind fl n p k s = Some (c, s1)" "choice_ok L s kind fl a n ys c s1"
          using choose_part_spec [OF v nf n L k(2) H a aH] by blast
        note st = step [unfolded if_not_P [OF False] g bind.bind_lunit if_not_P [OF gF] c(1) prod.case]
        have go: "\<exists>r k t. search_list ?z kind fl n may h s1 = Some (r, k, t) \<and> found kind fl a s r k t" if "goes_on L s n ys s1 h" for h
        proof -
          obtain L' us zs where w: "heap_inv L' s1" "cfg s1 = cfg s" "heap_grows (hm0 s) (hm0 s1)" "L' n = us @ zs" "h = hd_or zs 0"
            "length (L' n) < length (L n) \<or> L' = L \<and> zs = ys" using \<open>goes_on L s n ys s1 h\<close> unfolding goes_on_def by blast
          have nf1: "never_fails s1" using cfgD(6) [OF w(2)] nf by simp
          have "\<exists>r k t. search_list ?z kind fl n may (hd_or zs 0) s1 = Some (r, k, t) \<and> found kind fl a s1 r k t"
            using w(6)
          proof
            assume "length (L' n) < length (L n)"
            then show ?thesis by (rule less.hyps [OF _ w(1) nf1 w(4)])
          next
            assume e: "L' = L \<and> zs = ys"
            then have "heap_inv L s1" "L n = us @ ys" using w(1,4) by simp_all
            then have "\<exists>r k t. search_list ?z kind fl n may (hd_or ys 0) s1 = Some (r, k, t) \<and> found kind fl a s1 r k t"
              using Cons.IH [OF _ nf1] by blast
            then show ?thesis using e by simp
          qed
          then show ?thesis using found_trans [OF _ w(2,3)] w(5) by blast
        qed
        show ?thesis
        proof (cases c)
          case (Use h j avail)
          then obtain u where u: "avail \<ge> int ?z" "GC_get_first_part h j ?z n s1 = Some (h, u)" "taken kind fl a s h j u"
            using c(2) by (auto simp: choice_ok_def)
          have "search_list ?z kind fl n may p s = Some (h, j, u)" unfolding st Use choice.case using u(1,2) by simp
          moreover have "found kind fl a s h j u" using u(3) by (simp add: found_def taken_def)
          ultimately show ?thesis by blast
        next
          case (Next h)
          have "goes_on L s n ys s1 h" using c(2) Next by (simp add: choice_ok_def)
          then show ?thesis unfolding st Next choice.case by (rule go)
        next
          case Restart
          have "goes_on L s n ys s1 (GC_hblkfreelist s1 n)" using c(2) Restart by (simp add: choice_ok_def)
          then show ?thesis unfolding st Restart choice.case by (rule go)
        qed
      qed
    qed
  qed
  then show ?case using less.prems by blast
qed

section \<open>Allocating a block\<close>

text \<open>The result of an allocation: a new block in use, or none.\<close>

definition allocated :: "nat \<Rightarrow> nat \<Rightarrow> 8 word \<Rightarrow> gc \<Rightarrow> nat \<Rightarrow> gc \<Rightarrow> bool" where
  "allocated sz kind fl s r t \<longleftrightarrow> (\<exists>L. heap_inv L t) \<and> cfg t = cfg s \<and> heap_grows (hm0 s) (hm0 t)
     \<and> (r \<noteq> 0 \<longrightarrow> (\<exists>K. hm0 t r = Some K \<and> set_up r sz kind fl K) \<and> {r..<r + OBJ_SZ_TO_BLOCKS sz} \<subseteq> free_area (hm0 s)
          \<and> (avoids_black (OBJ_SZ_TO_BLOCKS sz * HBLKSIZE) kind s
               \<longrightarrow> GC_is_black_listed r (eff_size fl (OBJ_SZ_TO_BLOCKS sz * HBLKSIZE)) s = 0))"

lemma allocated_trans:
  assumes "allocated sz kind fl t r u" and "allocated sz kind fl s 0 t"
  shows "allocated sz kind fl s r u"
proof -
  have c: "cfg t = cfg s" "heap_grows (hm0 s) (hm0 t)" using assms(2) by (simp_all add: allocated_def)
  have "free_area (hm0 t) \<subseteq> free_area (hm0 s)" using c(2) by (simp add: heap_grows_def)
  moreover have "avoids_black z kind t = avoids_black z kind s" for z using cfgD(5) [OF c(1)] by (simp add: avoids_black_def)
  moreover have "heap_grows (hm0 s) (hm0 u)" using heap_grows_trans [OF c(2)] assms(1) by (simp add: allocated_def)
  ultimately show ?thesis using assms(1) c(1) black_cfg [OF c(1)] unfolding allocated_def by auto
qed

lemma allochblk_nth_spec:
  assumes v: "heap_inv L s" and nf: "never_fails s" and n: "n \<le> N_HBLK_FLS" and sz: "0 < sz" and c: "OBJ_SZ_TO_BLOCKS_CHECKED sz = OBJ_SZ_TO_BLOCKS sz"
    and fl: "fl AND FREE_BLK = 0" "fl AND LARGE_BLOCK = 0"
  shows "\<exists>r t. GC_allochblk_nth sz kind fl n may s = Some (r, t) \<and> allocated sz kind fl s r t"
proof -
  define a where "a = OBJ_SZ_TO_BLOCKS sz"
  have a0: "0 < a" using sz by (simp add: a_def OBJ_SZ_TO_BLOCKS_def divHBLKSZ_def)
  have z: "HBLKSIZE * OBJ_SZ_TO_BLOCKS_CHECKED sz = a * HBLKSIZE" unfolding c a_def by (rule mult.commute)
  have hd: "GC_hblkfreelist s n = hd_or (L n) 0" by (rule lists_okD(2) [OF heap_invD(3) [OF v] n])
  have "L n = [] @ L n" by simp
  then obtain r k t where t: "search_list (a * HBLKSIZE) kind fl n may (hd_or (L n) 0) s = Some (r, k, t)" "found kind fl a s r k t"
    using search_spec [OF n a0 v nf] by blast
  note st = GC_allochblk_nth_def [of sz kind fl n may s, unfolded Let_def z hd t(1) bind.bind_lunit prod.case]
  show ?thesis
  proof (cases "r = 0")
    case True
    then have "none_found s t" using t(2) by (simp add: found_def)
    then have "allocated sz kind fl s 0 t" by (simp add: allocated_def none_found_def)
    then show ?thesis unfolding st if_P [OF True] by blast
  next
    case False
    then have w: "taken kind fl a s r k t" using t(2) by (simp add: found_def)
    then obtain L' where L': "ready L' t r a (a * HBLKSIZE)" unfolding taken_def by blast
    have w': "ent t r = Hdr k" "cfg t = cfg s" "heap_grows (hm0 s) ((hm0 t)(r := None))" "{r..<r + a} \<subseteq> free_area (hm0 s)"
      "avoids_black (a * HBLKSIZE) kind s \<Longrightarrow> GC_is_black_listed r (eff_size fl (a * HBLKSIZE)) s = 0"
      using w unfolding taken_def by blast+
    have nft: "never_fails t" using cfgD(6) [OF w'(2)] nf by simp
    obtain u x y L2 K where u: "GC_install_counts r (a * HBLKSIZE) t = Some (True, u)" "setup_header k r sz kind fl u = Some (True, x)"
      "y = x\<lparr>GC_fail_count := 0, GC_large_free_bytes := GC_large_free_bytes x - a * HBLKSIZE\<rparr>" "heap_inv L' y" "cfg y = cfg t"
      "set_up r sz kind fl K" "hm0 y r = Some K" "used (hm0 y) = (used ((hm0 t)(r := None)))(r \<mapsto> K)" "free_area (hm0 y) = free_area ((hm0 t)(r := None))"
      by (rule finish [OF L' w'(1) nft fl sz a_def [symmetric]]) (rule that)
    have "GC_allochblk_nth sz kind fl n may s = Some (r, y)"
      unfolding st using False u(1,2,3) by simp
    moreover have "heap_grows (hm0 s) (hm0 y)" unfolding heap_grows_def
    proof (intro conjI allI impI)
      show "free_area (hm0 y) \<subseteq> free_area (hm0 s)" unfolding u(9) using w'(3) by (simp add: heap_grows_def)
      fix q H assume q: "used (hm0 s) q = Some H"
      then have q': "used ((hm0 t)(r := None)) q = Some H" using w'(3) by (simp add: heap_grows_def)
      then have "q \<noteq> r" by (auto simp: used_upd)
      then show "used (hm0 y) q = Some H" unfolding u(8) using q' by simp
    qed
    then have "allocated sz kind fl s r y"
      unfolding allocated_def using u(4-7) w'(2,4,5) by (auto simp: a_def)
    ultimately show ?thesis by blast
  qed
qed

lemma try_lists_spec:
  assumes "heap_inv L s" and "never_fails s" and "\<forall>n \<in> set ns. n \<le> N_HBLK_FLS" and "0 < sz" and "OBJ_SZ_TO_BLOCKS_CHECKED sz = OBJ_SZ_TO_BLOCKS sz"
    and "fl AND FREE_BLK = 0" "fl AND LARGE_BLOCK = 0"
  shows "\<exists>r t. try_lists ns sz kind fl s = Some (r, t) \<and> allocated sz kind fl s r t"
  using assms(1-3)
proof (induction ns arbitrary: L s)
  case Nil
  then show ?case by (auto simp: allocated_def)
next
  case (Cons n ns)
  obtain r t where t: "GC_allochblk_nth sz kind fl n True s = Some (r, t)" "allocated sz kind fl s r t"
    using allochblk_nth_spec [OF Cons.prems(1,2) _ assms(4-7), of n kind True] Cons.prems(3) by auto
  show ?case
  proof (cases "r = 0")
    case False
    then show ?thesis using t by simp
  next
    case True
    obtain L' where "heap_inv L' t" "never_fails t" using t(2) cfgD(6) [of t s] Cons.prems(2) by (auto simp: allocated_def)
    then obtain q u where u: "try_lists ns sz kind fl t = Some (q, u)" "allocated sz kind fl t q u"
      using Cons.IH Cons.prems(3) by (metis list.set_intros(2))
    then have "try_lists (n # ns) sz kind fl s = Some (q, u)" using t(1) True by simp
    then show ?thesis using allocated_trans [OF u(2)] t(2) True by blast
  qed
qed

lemma enough_loop_le: "\<forall>n \<in> set ns. n \<le> m \<Longrightarrow> enough_loop ns b s \<le> m"
  by (induction ns b s rule: enough_loop.induct) (auto simp: Let_def)

lemma allochblk_spec:
  assumes v: "heap_inv L s" and nf: "never_fails s" and sz: "0 < sz" and fl: "fl AND FREE_BLK = 0" "fl AND LARGE_BLOCK = 0"
  shows "\<exists>r t. GC_allochblk sc sz kind fl s = Some (r, t) \<and> allocated sz kind fl s r t"
proof (cases "OBJ_SZ_TO_BLOCKS_CHECKED sz * HBLKSIZE \<ge> 2 ^ 63")
  case True
  have "allocated sz kind fl s 0 s" using v by (auto simp: allocated_def)
  then show ?thesis unfolding GC_allochblk_def Let_def if_P [OF True] by blast
next
  case False
  have c: "OBJ_SZ_TO_BLOCKS_CHECKED sz = OBJ_SZ_TO_BLOCKS sz"
  proof (cases "sz < 2 ^ 64 - 1 - (HBLKSIZE - 1)")
    case True
    then show ?thesis by (simp add: OBJ_SZ_TO_BLOCKS_CHECKED_def OBJ_SZ_TO_BLOCKS_def SIZET_SAT_ADD_def add.commute)
  next
    case sat: False
    then have "OBJ_SZ_TO_BLOCKS_CHECKED sz = 2 ^ 52 - 1" by (simp add: OBJ_SZ_TO_BLOCKS_CHECKED_def SIZET_SAT_ADD_def divHBLKSZ_def)
    then show ?thesis using False by simp
  qed
  let ?n = "GC_hblk_fl_from_blocks (OBJ_SZ_TO_BLOCKS_CHECKED sz)"
  obtain r t where t: "GC_allochblk_nth sz kind fl ?n False s = Some (r, t)" "allocated sz kind fl s r t"
    using allochblk_nth_spec [OF v nf fl_le sz c fl] by blast
  note st = GC_allochblk_def [of sc sz kind fl s, unfolded Let_def if_not_P [OF False] t(1) bind.bind_lunit prod.case]
  show ?thesis
  proof (cases "r = 0")
    case r: False
    show ?thesis unfolding st if_P [OF r] using t(2) by blast
  next
    case True
    define limit where "limit = (if GC_use_entire_heap t \<or> GC_dont_gc t \<or> GC_heapsize t - GC_large_free_bytes t < GC_requested_heapsize t \<or> \<not> sc t then N_HBLK_FLS
      else if GC_finalizer_bytes_freed t > GC_heapsize t div 16 then 0 else GC_enough_large_bytes_left t)"
    have "GC_enough_large_bytes_left t \<le> N_HBLK_FLS" unfolding GC_enough_large_bytes_left_def by (rule enough_loop_le) auto
    then have lim: "limit \<le> N_HBLK_FLS" by (simp add: limit_def)
    obtain L' where L': "heap_inv L' t" using t(2) by (auto simp: allocated_def)
    have nft: "never_fails t" using t(2) cfgD(6) [of t s] nf by (simp add: allocated_def)
    let ?first = "if ?n < UNIQUE_THRESHOLD then ?n + 1 else ?n"
    have ns: "\<forall>m \<in> set [?first..<limit + 1]. m \<le> N_HBLK_FLS"
    proof
      fix m assume "m \<in> set [?first..<limit + 1]"
      then have "m < limit + 1" unfolding set_upt by (simp only: atLeastLessThan_iff)
      then show "m \<le> N_HBLK_FLS" using lim by linarith
    qed
    obtain q u where u: "try_lists [?first..<limit + 1] sz kind fl t = Some (q, u)" "allocated sz kind fl t q u"
      using try_lists_spec [OF L' nft ns sz c fl, where kind = kind] by (elim exE conjE) (rule that)
    have nr: "\<not> r \<noteq> 0" using True by simp
    have "GC_allochblk sc sz kind fl s = Some (q, u)" unfolding st if_not_P [OF nr] limit_def [symmetric] by (rule u(1))
    moreover have "allocated sz kind fl s q u" using allocated_trans [OF u(2)] t(2) True by simp
    ultimately show ?thesis by blast
  qed
qed

section \<open>A request that fits is granted\<close>

text \<open>No place has to be avoided: the object may be anywhere, or nothing is black listed.\<close>

definition ignores_black :: "nat \<Rightarrow> nat \<Rightarrow> gc \<Rightarrow> bool" where
  "ignores_black size_needed kind s \<longleftrightarrow> \<not> (\<not> IS_UNCOLLECTABLE kind \<and> (kind \<noteq> PTRFREE \<or> size_needed > MAX_BLACK_LIST_ALLOC))
     \<or> (\<forall>h len. GC_is_black_listed h len s = 0)"

lemma choose_whole:
  assumes "ignores_black size_needed kind s" and "hdrs s k = Some H" and "size_needed \<le> hb_sz H"
  shows "choose_part size_needed kind fl n q k s = Some (Use q k (int (hb_sz H)), s)"
proof (cases "\<not> IS_UNCOLLECTABLE kind \<and> (kind \<noteq> PTRFREE \<or> size_needed > MAX_BLACK_LIST_ALLOC)")
  case False
  show ?thesis unfolding choose_part_def assms(2) bind.bind_lunit Let_def if_not_P [OF False] ..
next
  case True
  then have "GC_is_black_listed h len s = 0" for h len using assms(1) by (simp add: ignores_black_def)
  then have sk: "skip_black q e eff s = q" for e eff by (simp add: skip_black.simps)
  have av: "int (hb_sz H) - int (q * HBLKSIZE - q * HBLKSIZE) \<ge> int size_needed" using assms(3) by simp
  have ne: "\<not> q \<noteq> q" by simp
  show ?thesis unfolding choose_part_def assms(2) bind.bind_lunit Let_def if_P [OF True] sk if_P [OF av] if_not_P [OF ne] by simp
qed

definition fits :: "bool \<Rightarrow> nat \<Rightarrow> (nat \<Rightarrow> hdr option) \<Rightarrow> nat \<Rightarrow> bool" where
  "fits may a M p \<longleftrightarrow> (\<exists>H. M p = Some H \<and> (if may then a \<le> span H else span H = a))"

lemma search_finds:
  assumes v: "heap_inv L s" and nf: "never_fails s" and n: "n \<le> N_HBLK_FLS" and a: "0 < a" and ig: "ignores_black (a * HBLKSIZE) kind s"
  shows "L n = xs @ ys \<Longrightarrow> \<exists>r k t. search_list (a * HBLKSIZE) kind fl n may (hd_or ys 0) s = Some (r, k, t) \<and> (r = 0 \<longrightarrow> t = s)
    \<and> ((\<exists>p \<in> set ys. fits may a (hm0 s) p) \<longrightarrow> r \<noteq> 0)"
proof (induction ys arbitrary: xs)
  case Nil
  then show ?case by (simp add: search_list.simps)
next
  case (Cons q ys)
  let ?z = "a * HBLKSIZE"
  note d = heap_invD [OF v]
  have q: "q \<in> set (L n)" using Cons.prems(1) by simp
  obtain Q where Q: "hm0 s q = Some Q" using on_listsD(2) [OF d(4) n q] by blast
  have Qf: "HBLK_IS_FREE Q" using on_listsD(1) [OF d(4) Q] on_listsD(2) [OF d(4) n q] Q q by auto
  note Qs = layD(4) [OF d(2) Q Qf] and q0 = layD(2) [OF d(2) Q]
  obtain Q' where Q': "hm s q = Some Q'" "Q = no_links Q'" using hm0_hm [OF Q] by blast
  obtain k where k: "hdr_of q s = Some k" "ent s q = Hdr k" "hdrs s k = Some Q'" using hdr_of_hm [OF d(1) Q'(1)] by blast
  have tot: "hb_sz Q' = span Q * HBLKSIZE" using Qs Q'(2) by simp
  have lk: "hb_next Q' = hd_or ys 0" using dseg_at [OF lists_okD(1) [OF d(3) n, unfolded Cons.prems(1)]] Q'(1) by auto
  obtain r k' t where rest: "search_list ?z kind fl n may (hd_or ys 0) s = Some (r, k', t)" "r = 0 \<longrightarrow> t = s" "(\<exists>p \<in> set ys. fits may a (hm0 s) p) \<longrightarrow> r \<noteq> 0"
    using Cons.IH [of "xs @ [q]"] Cons.prems by auto
  let ?goal = "\<exists>r k t. search_list ?z kind fl n may q s = Some (r, k, t) \<and> (r = 0 \<longrightarrow> t = s) \<and> ((\<exists>p \<in> set (q # ys). fits may a (hm0 s) p) \<longrightarrow> r \<noteq> 0)"
  have other: ?goal if "search_list ?z kind fl n may q s = search_list ?z kind fl n may (hd_or ys 0) s" "fits may a (hm0 s) q \<Longrightarrow> \<exists>p \<in> set ys. fits may a (hm0 s) p"
    unfolding that(1) rest(1) using rest(2,3) that(2) by auto
  define nxt where "nxt = hb_next Q'"
  define go_on where "go_on = (if hb_sz Q' = ?z then Some False else if \<not> may then Some True
    else if nxt = 0 then Some False
    else do { k \<leftarrow> hdr_of nxt s; N \<leftarrow> hdrs s k;
              Some (hb_sz N < hb_sz Q' \<and> hb_sz N \<ge> ?z \<and> GC_is_black_listed nxt ?z s = 0) })"
  have step: "search_list ?z kind fl n may q s = (if hb_sz Q' < ?z then search_list ?z kind fl n may (hd_or ys 0) s
      else do { g \<leftarrow> go_on;
        if g then search_list ?z kind fl n may (hd_or ys 0) s
        else do {
          (c, s1) \<leftarrow> choose_part ?z kind fl n q k s;
          case c of
            Use h k avail \<Rightarrow>
              if avail \<ge> int ?z then do { (r, s2) \<leftarrow> GC_get_first_part h k ?z n s1; Some (r, k, s2) }
              else do { K \<leftarrow> hdrs s1 k; search_list ?z kind fl n may (hb_next K) s1 }
          | Next h \<Rightarrow> search_list ?z kind fl n may h s1
          | Restart \<Rightarrow> search_list ?z kind fl n may (GC_hblkfreelist s1 n) s1 } })"
    unfolding go_on_def nxt_def by (subst search_list.simps) (simp add: q0 k(1,3) lk cong: if_cong option.case_cong)
  show ?case unfolding hd_or_simps
  proof (cases "hb_sz Q' < ?z")
    case True
    then have "\<not> a \<le> span Q" unfolding tot by simp
    then have "\<not> fits may a (hm0 s) q" using Q by (auto simp: fits_def)
    then show ?goal using step [unfolded if_P [OF True]] by (intro other) auto
  next
    case False
    have aQ: "a \<le> span Q" using False unfolding tot by simp
    show ?goal
    proof (cases "go_on = Some True")
      case True
      have st: "search_list ?z kind fl n may q s = search_list ?z kind fl n may (hd_or ys 0) s"
        unfolding step if_not_P [OF False] using True by simp
      have "\<exists>p \<in> set ys. fits may a (hm0 s) p" if "fits may a (hm0 s) q"
      proof (cases may)
        case False
        then have "span Q \<noteq> a" using True tot by (auto simp: go_on_def split: if_splits)
        then show ?thesis using that False Q by (simp add: fits_def)
      next
        case may: True
        then have nz: "nxt \<noteq> 0" using True by (auto simp: go_on_def split: if_splits)
        then have ny: "nxt \<in> set ys" using hd_or_in [of ys] lk by (simp add: nxt_def)
        then have nL: "nxt \<in> set (L n)" using Cons.prems(1) by simp
        obtain N where N: "hm s nxt = Some N" using dseg_some [OF lists_okD(1) [OF d(3) n] nL] by blast
        then obtain j where j: "hdr_of nxt s = Some j" "hdrs s j = Some N" using hdr_of_hm [OF d(1)] by blast
        have Nz: "hb_sz N \<ge> ?z" using True may nz j by (auto simp: go_on_def split: if_splits)
        note N0 = hm_hm0 [OF N]
        have Nf: "HBLK_IS_FREE (no_links N)" using on_listsD(1) [OF d(4) N0] on_listsD(2) [OF d(4) n nL] N0 nL by auto
        have "hb_sz N = span N * HBLKSIZE" using layD(4) [OF d(2) N0 Nf] by simp
        then have "a \<le> span (no_links N)" using Nz by simp
        then have "fits may a (hm0 s) nxt" using N0 may by (simp add: fits_def)
        then show ?thesis using ny by blast
      qed
      then show ?thesis using other [OF st] by blast
    next
      case gF: False
      have "\<exists>g. go_on = Some g"
      proof (cases "nxt = 0")
        case True
        then show ?thesis by (simp add: go_on_def ex_bool_eq)
      next
        case False
        then have "hd_or ys 0 \<in> set (L n)" using hd_or_in [of ys] lk Cons.prems(1) by (simp add: nxt_def)
        then obtain N where "hm s nxt = Some N" using dseg_some [OF lists_okD(1) [OF d(3) n]] lk by (auto simp: nxt_def)
        then obtain j where "hdr_of nxt s = Some j" "hdrs s j = Some N" using hdr_of_hm [OF d(1)] by blast
        then show ?thesis by (auto simp: go_on_def ex_bool_eq)
      qed
      then have g: "go_on = Some False" using gF by auto
      have sz: "?z \<le> hb_sz Q'" using False by simp
      note c = choose_whole [OF ig k(3) sz, of fl n q]
      have nb: "avoids_black ?z kind s \<Longrightarrow> GC_is_black_listed q (eff_size fl ?z) s = 0"
        using ig unfolding ignores_black_def avoids_black_def by blast
      obtain u where u: "GC_get_first_part q k ?z n s = Some (q, u)"
        using whole_part [OF v nf n q k(2) Q a aQ refl refl nb] by blast
      have "int ?z \<le> int (hb_sz Q')" using False by simp
      then have "search_list ?z kind fl n may q s = Some (q, k, u)"
        unfolding step if_not_P [OF False] g bind.bind_lunit c prod.case choice.case using u by simp
      then show ?thesis using q0 by blast
    qed
  qed
qed

lemma allochblk_nth_finds:
  assumes v: "heap_inv L s" and nf: "never_fails s" and n: "n \<le> N_HBLK_FLS" and sz: "0 < sz" and c: "OBJ_SZ_TO_BLOCKS_CHECKED sz = OBJ_SZ_TO_BLOCKS sz"
    and fl: "fl AND FREE_BLK = 0" "fl AND LARGE_BLOCK = 0" and ig: "ignores_black (OBJ_SZ_TO_BLOCKS sz * HBLKSIZE) kind s"
  shows "\<exists>r t. GC_allochblk_nth sz kind fl n may s = Some (r, t) \<and> (r = 0 \<longrightarrow> t = s)
    \<and> ((\<exists>p \<in> set (L n). fits may (OBJ_SZ_TO_BLOCKS sz) (hm0 s) p) \<longrightarrow> r \<noteq> 0)"
proof -
  define a where "a = OBJ_SZ_TO_BLOCKS sz"
  have a0: "0 < a" using sz by (simp add: a_def OBJ_SZ_TO_BLOCKS_def divHBLKSZ_def)
  have z: "HBLKSIZE * OBJ_SZ_TO_BLOCKS_CHECKED sz = a * HBLKSIZE" unfolding c a_def by (rule mult.commute)
  have hd: "GC_hblkfreelist s n = hd_or (L n) 0" by (rule lists_okD(2) [OF heap_invD(3) [OF v] n])
  have nil: "L n = [] @ L n" by simp
  obtain r k u where u: "search_list (a * HBLKSIZE) kind fl n may (hd_or (L n) 0) s = Some (r, k, u)" "r = 0 \<longrightarrow> u = s"
    "(\<exists>p \<in> set (L n). fits may a (hm0 s) p) \<longrightarrow> r \<noteq> 0"
    using search_finds [OF v nf n a0 ig [folded a_def] nil, where fl = fl and may = may] by (elim exE conjE) (rule that)
  note st = GC_allochblk_nth_def [of sz kind fl n may s, unfolded Let_def z hd u(1) bind.bind_lunit prod.case]
  show ?thesis
  proof (cases "r = 0")
    case True
    then show ?thesis unfolding st if_P [OF True] using u(2,3) unfolding a_def by auto
  next
    case False
    have "\<exists>r k t. search_list (a * HBLKSIZE) kind fl n may (hd_or (L n) 0) s = Some (r, k, t) \<and> found kind fl a s r k t"
      by (rule search_spec [OF n a0 v nf nil])
    then have w: "taken kind fl a s r k u" using u(1) False by (simp add: found_def)
    then obtain L' where L': "ready L' u r a (a * HBLKSIZE)" unfolding taken_def by blast
    have w': "ent u r = Hdr k" "cfg u = cfg s" using w unfolding taken_def by blast+
    have nft: "never_fails u" using cfgD(6) [OF w'(2)] nf by simp
    obtain x y t' K where y: "GC_install_counts r (a * HBLKSIZE) u = Some (True, x)" "setup_header k r sz kind fl x = Some (True, y)"
      "t' = y\<lparr>GC_fail_count := 0, GC_large_free_bytes := GC_large_free_bytes y - a * HBLKSIZE\<rparr>"
      by (rule finish [OF L' w'(1) nft fl sz a_def [symmetric]]) (rule that)
    show ?thesis unfolding st using False y(1,2) by simp
  qed
qed

lemma fl_mono: "m \<le> k \<Longrightarrow> GC_hblk_fl_from_blocks m \<le> GC_hblk_fl_from_blocks k"
  by (auto simp: GC_hblk_fl_from_blocks_def N_HBLK_FLS_def UNIQUE_THRESHOLD_def HUGE_THRESHOLD_def FL_COMPRESSION_def)

lemma fl_unique:
  assumes "GC_hblk_fl_from_blocks m = GC_hblk_fl_from_blocks k" and "GC_hblk_fl_from_blocks m < UNIQUE_THRESHOLD"
  shows "k = m"
  using assms by (auto simp: GC_hblk_fl_from_blocks_def N_HBLK_FLS_def UNIQUE_THRESHOLD_def HUGE_THRESHOLD_def FL_COMPRESSION_def split: if_splits)

lemma try_lists_finds:
  assumes "heap_inv L s" and "never_fails s" and "0 < sz" and "OBJ_SZ_TO_BLOCKS_CHECKED sz = OBJ_SZ_TO_BLOCKS sz"
    and "fl AND FREE_BLK = 0" "fl AND LARGE_BLOCK = 0" and "ignores_black (OBJ_SZ_TO_BLOCKS sz * HBLKSIZE) kind s"
  shows "\<forall>n \<in> set ns. n \<le> N_HBLK_FLS \<Longrightarrow> n \<in> set ns \<Longrightarrow> p \<in> set (L n) \<Longrightarrow> fits True (OBJ_SZ_TO_BLOCKS sz) (hm0 s) p
    \<Longrightarrow> \<exists>r t. try_lists ns sz kind fl s = Some (r, t) \<and> r \<noteq> 0"
proof (induction ns)
  case (Cons m ns)
  have m: "m \<le> N_HBLK_FLS" using Cons.prems(1) by simp
  obtain r t where t: "GC_allochblk_nth sz kind fl m True s = Some (r, t)" "r = 0 \<longrightarrow> t = s"
    "(\<exists>p \<in> set (L m). fits True (OBJ_SZ_TO_BLOCKS sz) (hm0 s) p) \<longrightarrow> r \<noteq> 0"
    using allochblk_nth_finds [OF assms(1,2) m assms(3-7), of True] by (elim exE conjE) (rule that)
  show ?case
  proof (cases "r = 0")
    case False
    then show ?thesis using t(1) by simp
  next
    case True
    then have "n \<noteq> m" using t(3) Cons.prems(3,4) by blast
    then have "\<exists>r t. try_lists ns sz kind fl s = Some (r, t) \<and> r \<noteq> 0" using Cons by simp
    then show ?thesis using t(1,2) True by simp
  qed
qed simp

lemma allochblk_finds:
  assumes v: "heap_inv L s" and nf: "never_fails s" and sz: "0 < sz" and fl: "fl AND FREE_BLK = 0" "fl AND LARGE_BLOCK = 0"
    and ig: "ignores_black (OBJ_SZ_TO_BLOCKS sz * HBLKSIZE) kind s" and H: "hm0 s p = Some H" "HBLK_IS_FREE H" "OBJ_SZ_TO_BLOCKS sz \<le> span H"
    and lim: "span H = OBJ_SZ_TO_BLOCKS sz \<or> GC_use_entire_heap s \<or> GC_dont_gc s \<or> GC_heapsize s - GC_large_free_bytes s < GC_requested_heapsize s \<or> \<not> sc s"
  shows "\<exists>r t. GC_allochblk sc sz kind fl s = Some (r, t) \<and> r \<noteq> 0"
proof -
  note d = heap_invD [OF v]
  let ?a = "OBJ_SZ_TO_BLOCKS sz"
  let ?i = "right_index H"
  have Hs: "hb_sz H = span H * HBLKSIZE" by (rule layD(4) [OF d(2) H(1,2)])
  have p: "p \<in> set (L ?i)" using on_listsD(1) [OF d(4) H(1)] H(2) by simp
  have ri: "?i = GC_hblk_fl_from_blocks (span H)" by (simp add: right_index_def Hs divHBLKSZ_def)
  have "p + span H \<le> 2 ^ 51" "p \<noteq> 0" using d(5) H(1) layD(2) [OF d(2) H(1)] unfolding in_range_def by blast+
  then have a51: "?a < 2 ^ 51" using H(3) by linarith
  have c: "OBJ_SZ_TO_BLOCKS_CHECKED sz = ?a"
  proof (cases "sz < 2 ^ 64 - 1 - (HBLKSIZE - 1)")
    case True
    then show ?thesis by (simp add: OBJ_SZ_TO_BLOCKS_CHECKED_def OBJ_SZ_TO_BLOCKS_def SIZET_SAT_ADD_def add.commute)
  next
    case False
    then have "2 ^ 64 - HBLKSIZE \<le> sz + HBLKSIZE - 1" by simp
    then have "(2 ^ 64 - HBLKSIZE) div HBLKSIZE \<le> ?a" unfolding OBJ_SZ_TO_BLOCKS_def divHBLKSZ_def by (rule div_le_mono)
    then show ?thesis using a51 by simp
  qed
  have small: "\<not> ?a * HBLKSIZE \<ge> 2 ^ 63" using a51 by simp
  let ?n = "GC_hblk_fl_from_blocks ?a"
  obtain r t where t: "GC_allochblk_nth sz kind fl ?n False s = Some (r, t)" "r = 0 \<longrightarrow> t = s"
    "(\<exists>p \<in> set (L ?n). fits False ?a (hm0 s) p) \<longrightarrow> r \<noteq> 0"
    using allochblk_nth_finds [OF v nf fl_le sz c fl ig, of ?a False] by (elim exE conjE) (rule that)
  note st = GC_allochblk_def [of sc sz kind fl s, unfolded Let_def c if_not_P [OF small] t(1) bind.bind_lunit prod.case]
  show ?thesis
  proof (cases "r = 0")
    case False
    show ?thesis unfolding st if_P [OF False] using False by blast
  next
    case True
    then have ts: "t = s" using t(2) by blast
    have "span H \<noteq> ?a"
    proof
      assume e: "span H = ?a"
      then have "fits False ?a (hm0 s) p" using H(1) by (simp add: fits_def)
      then show False using t(3) True p e unfolding ri by auto
    qed
    then have whole: "GC_use_entire_heap s \<or> GC_dont_gc s \<or> GC_heapsize s - GC_large_free_bytes s < GC_requested_heapsize s \<or> \<not> sc s"
      using lim by blast
    let ?first = "if ?n < UNIQUE_THRESHOLD then ?n + 1 else ?n"
    have le: "?n \<le> ?i" unfolding ri by (rule fl_mono [OF H(3)])
    have "?first \<le> ?i"
    proof (cases "?n < UNIQUE_THRESHOLD")
      case u: True
      have "?n \<noteq> ?i"
      proof
        assume e: "?n = ?i"
        then have "span H = ?a" using fl_unique u unfolding ri by metis
        then have "fits False ?a (hm0 s) p" using H(1) by (simp add: fits_def)
        then show False using t(3) True p e by auto
      qed
      then show ?thesis using le u by simp
    next
      case False
      then show ?thesis using le by simp
    qed
    moreover have "?i < N_HBLK_FLS + 1" using right_index_le [of H] by linarith
    ultimately have i: "?i \<in> set [?first..<N_HBLK_FLS + 1]" unfolding set_upt atLeastLessThan_iff by (rule conjI)
    have ns: "\<forall>m \<in> set [?first..<N_HBLK_FLS + 1]. m \<le> N_HBLK_FLS" by auto
    have "fits True ?a (hm0 s) p" using H by (simp add: fits_def)
    then have "\<exists>r t. try_lists [?first..<N_HBLK_FLS + 1] sz kind fl s = Some (r, t) \<and> r \<noteq> 0"
      by (rule try_lists_finds [OF v nf sz c fl ig ns i p])
    then show ?thesis unfolding st ts if_P [OF whole] using True by simp
  qed
qed

end
