(* ===== verification/BlockHeap.thy ===== *)
theory BlockHeap
  imports Prelude "HOL-Library.Multiset"
begin

text \<open>
  What a caller of an allocator of blocks relies on, as an interface: the operations \<open>alloc\<close> and
  \<open>dealloc\<close>, and the laws that an allocator gives. A block is the number of its first unit, 0 is none.
  An allocator may take more out of its free units than what it returns.

  A program that allocates objects and frees some of them is proved correct once, from the laws.
\<close>

section \<open>Programs\<close>

text \<open>The blocks of a list of requests, 0 for those that are not granted.\<close>

fun alloc_all :: "('r \<Rightarrow> 's \<Rightarrow> (nat \<times> 's) option) \<Rightarrow> 'r list \<Rightarrow> 's \<Rightarrow> (nat list \<times> 's) option" where
  "alloc_all alloc [] s = Some ([], s)"
| "alloc_all alloc (q # qs) s = do { (p, t) \<leftarrow> alloc q s; (ps, u) \<leftarrow> alloc_all alloc qs t; Some (p # ps, u) }"

fun free_all :: "(nat \<Rightarrow> 's \<Rightarrow> 's option) \<Rightarrow> nat list \<Rightarrow> 's \<Rightarrow> 's option" where
  "free_all dealloc [] s = Some s"
| "free_all dealloc (p # ps) s = do { t \<leftarrow> dealloc p s; free_all dealloc ps t }"

section \<open>The interface\<close>

locale block_heap =
  fixes inv :: "'s \<Rightarrow> bool"
    and objs :: "'s \<Rightarrow> nat \<Rightarrow> 'o option"
    and free :: "'s \<Rightarrow> nat set"
    and len :: "'o \<Rightarrow> nat"
    and need :: "'r \<Rightarrow> nat"
    and valid :: "'r \<Rightarrow> bool"
    and alloc :: "'r \<Rightarrow> 's \<Rightarrow> (nat \<times> 's) option"
    and dealloc :: "nat \<Rightarrow> 's \<Rightarrow> 's option"
  assumes alloc_law: "inv s \<Longrightarrow> valid q \<Longrightarrow> \<exists>p t. alloc q s = Some (p, t) \<and> inv t \<and> objs s \<subseteq>\<^sub>m objs t \<and> free t \<subseteq> free s
      \<and> (p \<noteq> 0 \<longrightarrow> (\<exists>x. objs t p = Some x \<and> len x = need q) \<and> {p..<p + need q} \<subseteq> free s)"
    and dealloc_law: "inv s \<Longrightarrow> objs s p = Some x \<Longrightarrow>
      \<exists>t. dealloc p s = Some t \<and> inv t \<and> objs t = (objs s)(p := None) \<and> free t = free s \<union> {p..<p + len x}"
    and need_law: "valid q \<Longrightarrow> 0 < need q"
    and object_law: "inv s \<Longrightarrow> objs s p = Some x \<Longrightarrow> p \<noteq> 0 \<and> 0 < len x \<and> {p..<p + len x} \<inter> free s = {}"
begin

lemma alloc_fresh:
  assumes "inv s" "valid q" "alloc q s = Some (p, t)" "p \<noteq> 0"
  shows "objs s p = None"
proof (rule ccontr)
  assume "objs s p \<noteq> None"
  then obtain x where "objs s p = Some x" by blast
  then have "p \<notin> free s" using object_law [OF assms(1)] by force
  moreover have "p \<in> {p..<p + need q}" using need_law [OF assms(2)] by simp
  moreover have "{p..<p + need q} \<subseteq> free s" using alloc_law [OF assms(1,2)] assms(3,4) by auto
  ultimately show False by blast
qed

lemma alloc_all_spec:
  assumes "inv s" and "\<forall>q \<in> set qs. valid q"
  shows "\<exists>ps t. alloc_all alloc qs s = Some (ps, t) \<and> inv t \<and> objs s \<subseteq>\<^sub>m objs t \<and> free t \<subseteq> free s \<and> length ps = length qs
    \<and> distinct (filter (\<lambda>p. p \<noteq> 0) ps) \<and> (\<forall>p \<in> set ps. p \<noteq> 0 \<longrightarrow> objs s p = None)
    \<and> (\<forall>i < length qs. ps ! i \<noteq> 0 \<longrightarrow> (\<exists>x. objs t (ps ! i) = Some x \<and> len x = need (qs ! i)) \<and> {ps ! i..<ps ! i + need (qs ! i)} \<subseteq> free s)
    \<and> (\<forall>i j. i < j \<longrightarrow> j < length qs \<longrightarrow> ps ! i \<noteq> 0 \<longrightarrow> ps ! j \<noteq> 0 \<longrightarrow>
         {ps ! i..<ps ! i + need (qs ! i)} \<inter> {ps ! j..<ps ! j + need (qs ! j)} = {})"
  using assms
proof (induction qs arbitrary: s)
  case (Cons q qs)
  have q: "valid q" using Cons.prems(2) by simp
  obtain p t where t: "alloc q s = Some (p, t)" "inv t" "objs s \<subseteq>\<^sub>m objs t" "free t \<subseteq> free s"
    "p \<noteq> 0 \<longrightarrow> (\<exists>x. objs t p = Some x \<and> len x = need q) \<and> {p..<p + need q} \<subseteq> free s"
    using alloc_law [OF Cons.prems(1) q] by blast
  have v: "\<forall>q \<in> set qs. valid q" using Cons.prems(2) by simp
  obtain ps u where u: "alloc_all alloc qs t = Some (ps, u)" "inv u" "objs t \<subseteq>\<^sub>m objs u" "free u \<subseteq> free t" "length ps = length qs"
    "distinct (filter (\<lambda>p. p \<noteq> 0) ps)" "\<forall>p \<in> set ps. p \<noteq> 0 \<longrightarrow> objs t p = None"
    "\<forall>i < length qs. ps ! i \<noteq> 0 \<longrightarrow> (\<exists>x. objs u (ps ! i) = Some x \<and> len x = need (qs ! i)) \<and> {ps ! i..<ps ! i + need (qs ! i)} \<subseteq> free t"
    "\<forall>i j. i < j \<longrightarrow> j < length qs \<longrightarrow> ps ! i \<noteq> 0 \<longrightarrow> ps ! j \<noteq> 0 \<longrightarrow>
       {ps ! i..<ps ! i + need (qs ! i)} \<inter> {ps ! j..<ps ! j + need (qs ! j)} = {}"
    using Cons.IH [OF t(2) v] by (elim exE conjE) (rule that)
  have first: "(\<exists>x. objs u p = Some x \<and> len x = need q) \<and> {p..<p + need q} \<subseteq> free s \<and> {p..<p + need q} \<inter> free t = {}" if p0: "p \<noteq> 0"
  proof -
    obtain x where x: "objs t p = Some x" "len x = need q" "{p..<p + need q} \<subseteq> free s" using t(5) p0 by blast
    then have "objs u p = Some x" using u(3) by (auto simp: map_le_def dom_def)
    moreover have "{p..<p + need q} \<inter> free t = {}" using object_law [OF t(2) x(1)] x(2) by simp
    ultimately show ?thesis using x by blast
  qed
  have elems: "\<forall>i < length (q # qs). (p # ps) ! i \<noteq> 0 \<longrightarrow> (\<exists>x. objs u ((p # ps) ! i) = Some x \<and> len x = need ((q # qs) ! i))
      \<and> {(p # ps) ! i..<(p # ps) ! i + need ((q # qs) ! i)} \<subseteq> free s"
  proof (intro allI impI)
    fix i assume i: "i < length (q # qs)" "(p # ps) ! i \<noteq> 0"
    show "(\<exists>x. objs u ((p # ps) ! i) = Some x \<and> len x = need ((q # qs) ! i)) \<and> {(p # ps) ! i..<(p # ps) ! i + need ((q # qs) ! i)} \<subseteq> free s"
    proof (cases i)
      case 0
      then show ?thesis using i(2) first by simp
    next
      case (Suc k)
      then have "k < length qs" "ps ! k \<noteq> 0" using i by simp_all
      then show ?thesis using u(8) t(4) Suc by auto
    qed
  qed
  have apart: "\<forall>i j. i < j \<longrightarrow> j < length (q # qs) \<longrightarrow> (p # ps) ! i \<noteq> 0 \<longrightarrow> (p # ps) ! j \<noteq> 0 \<longrightarrow>
      {(p # ps) ! i..<(p # ps) ! i + need ((q # qs) ! i)} \<inter> {(p # ps) ! j..<(p # ps) ! j + need ((q # qs) ! j)} = {}"
  proof (intro allI impI)
    fix i j assume ij: "i < j" "j < length (q # qs)" "(p # ps) ! i \<noteq> 0" "(p # ps) ! j \<noteq> 0"
    obtain l where j: "j = Suc l" using ij(1) by (cases j) auto
    have l: "l < length qs" "ps ! l \<noteq> 0" using ij j by simp_all
    show "{(p # ps) ! i..<(p # ps) ! i + need ((q # qs) ! i)} \<inter> {(p # ps) ! j..<(p # ps) ! j + need ((q # qs) ! j)} = {}"
    proof (cases i)
      case 0
      have "{ps ! l..<ps ! l + need (qs ! l)} \<subseteq> free t" using u(8) l by blast
      moreover have "{p..<p + need q} \<inter> free t = {}" using first ij(3) 0 by simp
      ultimately have "{p..<p + need q} \<inter> {ps ! l..<ps ! l + need (qs ! l)} = {}" by blast
      then show ?thesis unfolding 0 j nth_Cons_0 nth_Cons_Suc .
    next
      case (Suc k)
      then have "k < l" "ps ! k \<noteq> 0" using ij j by simp_all
      then show ?thesis using u(9) l Suc j by simp
    qed
  qed
  have new: "\<forall>r \<in> set (p # ps). r \<noteq> 0 \<longrightarrow> objs s r = None"
  proof (intro ballI impI)
    fix r assume r: "r \<in> set (p # ps)" "r \<noteq> 0"
    show "objs s r = None"
    proof (cases "r = p")
      case True
      then show ?thesis using alloc_fresh [OF Cons.prems(1) q t(1)] r(2) by simp
    next
      case False
      then have "objs t r = None" using u(7) r by simp
      then show ?thesis using t(3) by (metis domIff map_le_implies_dom_le subsetD)
    qed
  qed
  have "p \<notin> set ps" if "p \<noteq> 0" using u(7) t(5) that by auto
  then have di: "distinct (filter (\<lambda>p. p \<noteq> 0) (p # ps))" using u(6) by simp
  have a: "alloc_all alloc (q # qs) s = Some (p # ps, u)" using t(1) u(1) by simp
  have o: "objs s \<subseteq>\<^sub>m objs u" "free u \<subseteq> free s" "length (p # ps) = length (q # qs)"
    using map_le_trans [OF t(3) u(3)] t(4) u(4,5) by simp_all
  show ?case by (rule exI [of _ "p # ps"], rule exI [of _ u]) (intro conjI a u(2) o di new elems apart)
qed simp

lemma free_all_spec:
  assumes "inv s" and "distinct ps" and "\<forall>p \<in> set ps. objs s p \<noteq> None"
  shows "\<exists>t. free_all dealloc ps s = Some t \<and> inv t \<and> objs t = objs s |` (- set ps)
    \<and> free t = free s \<union> (\<Union>p \<in> set ps. {p..<p + len (the (objs s p))})"
  using assms
proof (induction ps arbitrary: s)
  case (Cons p ps)
  obtain x where x: "objs s p = Some x" using Cons.prems(3) by auto
  obtain t where t: "dealloc p s = Some t" "inv t" "objs t = (objs s)(p := None)" "free t = free s \<union> {p..<p + len x}"
    using dealloc_law [OF Cons.prems(1) x] by blast
  have d: "p \<notin> set ps" "distinct ps" using Cons.prems(2) by simp_all
  have "\<forall>p \<in> set ps. objs t p \<noteq> None" using Cons.prems(3) t(3) d(1) by auto
  then obtain u where u: "free_all dealloc ps t = Some u" "inv u" "objs u = objs t |` (- set ps)"
    "free u = free t \<union> (\<Union>p \<in> set ps. {p..<p + len (the (objs t p))})"
    using Cons.IH [OF t(2) d(2)] by blast
  have "(\<Union>p \<in> set ps. {p..<p + len (the (objs t p))}) = (\<Union>p \<in> set ps. {p..<p + len (the (objs s p))})"
    using t(3) d(1) by (intro SUP_cong) auto
  then have "free u = free s \<union> (\<Union>p \<in> set (p # ps). {p..<p + len (the (objs s p))})"
    unfolding u(4) t(4) using x by auto
  moreover have "objs u = objs s |` (- set (p # ps))" unfolding u(3) t(3) by (rule ext) (simp add: restrict_map_def)
  ultimately show ?case using t(1) u(1,2) by simp
qed (simp add: restrict_map_def)

text \<open>The objects of the program may be freed in any order, and those of others stay.\<close>

lemma program_returns:
  assumes "inv s" and "\<forall>q \<in> set qs. valid q" and "alloc_all alloc qs s = Some (ps, t)" and "mset rs = mset (filter (\<lambda>p. p \<noteq> 0) ps)"
  shows "\<exists>u. free_all dealloc rs t = Some u \<and> inv u \<and> objs s \<subseteq>\<^sub>m objs u
    \<and> free u = free t \<union> (\<Union>p \<in> set rs. {p..<p + len (the (objs t p))})"
proof -
  have t: "inv t" "objs s \<subseteq>\<^sub>m objs t" "length ps = length qs" "distinct (filter (\<lambda>p. p \<noteq> 0) ps)"
    "\<forall>p \<in> set ps. p \<noteq> 0 \<longrightarrow> objs s p = None" "\<forall>i < length qs. ps ! i \<noteq> 0 \<longrightarrow> (\<exists>x. objs t (ps ! i) = Some x \<and> len x = need (qs ! i))"
    using alloc_all_spec [OF assms(1,2)] unfolding assms(3) by simp_all
  have set: "set rs = {p \<in> set ps. p \<noteq> 0}" using mset_eq_setD [OF assms(4)] by simp
  have di: "distinct rs" using mset_eq_imp_distinct_iff [OF assms(4)] t(4) by simp
  have all: "\<forall>p \<in> set rs. objs t p \<noteq> None" unfolding set using t(3,6) by (auto simp: in_set_conv_nth)
  obtain u where u: "free_all dealloc rs t = Some u" "inv u" "objs u = objs t |` (- set rs)"
    "free u = free t \<union> (\<Union>p \<in> set rs. {p..<p + len (the (objs t p))})"
    using free_all_spec [OF t(1) di all] by (elim exE conjE) (rule that)
  have "objs s \<subseteq>\<^sub>m objs u" using t(2,5) unfolding u(3) set by (fastforce simp: map_le_def restrict_map_def dom_def)
  then show ?thesis using u(1,2,4) by blast
qed

end

end
