(* ===== verification/GcRun.thy ===== *)
theory GcRun
  imports GcAlloc BlockHeap
begin

text \<open>
  The allocator of heap blocks as a whole: what holds after any sequence of extensions of the heap,
  allocations and deallocations, starting from the initial values of the variables.
\<close>

section \<open>The start\<close>

lemma init_headers_inv:
  assumes "mem 1 \<noteq> None"
  obtains s where "GC_init_headers (gc_variables mem) = Some s" "heap_inv (\<lambda>_. []) s" "cfg s = cfg (gc_variables mem)"
    "hm0 s = Map.empty" "GC_heap_sects s = []" "scratch s = mem"
proof -
  let ?v = "gc_variables mem"
  define s where "s = ?v\<lparr>next_scratch := 2, GC_all_nils := 1, bottoms := [1 \<mapsto> zero_index], GC_top_index := (\<lambda>_. 1)\<rparr>"
  have e: "GC_init_headers ?v = Some s"
    using assms by (simp add: GC_init_headers_def scratch_alloc_def Let_def s_def gc_variables_def)
  have i: "idx_ok [] s"
    unfolding idx_ok_def by (auto simp: s_def gc_variables_def zero_index_def intro!: exI [of _ "[]"])
  have "\<not> indexed s p" for p using indexed_iff [OF i] by simp
  then have en: "ent s p = Fwd 0" for p using ent_indexed [OF i] by blast
  have "hdr_ok [] s" by (rule hdr_okI) (use en in \<open>auto simp: s_def gc_variables_def\<close>)
  then have ii: "index_inv s" using i by (auto simp: index_inv_def)
  have hm: "hm s p = None" for p by (simp add: hm_def en)
  then have h0: "hm0 s = Map.empty" by (auto simp: hm0_def fun_eq_iff)
  have "lay (ent s) (hm0 s)" unfolding h0 by (rule layI) (simp_all add: en)
  moreover have "lists_ok (\<lambda>_. []) s"
    by (simp add: lists_ok_def list_ok_def) (simp add: s_def gc_variables_def)
  moreover have "GC_large_free_bytes s = free_total (\<lambda>_. []) (hm0 s)" by (simp add: free_total_def) (simp add: s_def gc_variables_def)
  ultimately have "heap_inv (\<lambda>_. []) s" using ii h0 by (simp add: heap_inv_def on_lists_def in_range_def apart_def)
  moreover have "cfg s = cfg ?v" "GC_heap_sects s = []" "scratch s = mem" by (simp_all add: s_def cfg_def gc_variables_def)
  ultimately show thesis using that e h0 by blast
qed

section \<open>The number of free bytes\<close>

definition free_blocks :: "(nat \<Rightarrow> hdr option) \<Rightarrow> nat set" where
  "free_blocks M = {p. \<exists>H. M p = Some H \<and> HBLK_IS_FREE H}"

lemma free_total_blocks:
  assumes v: "heap_inv L s"
  shows "finite (free_blocks (hm0 s))" "free_total L (hm0 s) = (\<Sum>p \<in> free_blocks (hm0 s). hb_sz (the (hm0 s p)))"
proof -
  note d = heap_invD [OF v]
  have fb: "free_blocks (hm0 s) = (\<Union>n \<in> {..N_HBLK_FLS}. set (L n))"
  proof (rule set_eqI)
    fix p
    have "p \<in> set (L n) \<Longrightarrow> n \<le> N_HBLK_FLS \<Longrightarrow> \<exists>H. hm0 s p = Some H \<and> HBLK_IS_FREE H" for n
      using on_listsD(2) [OF d(4), of n p] on_listsD(1) [OF d(4), of p] by blast
    moreover have "\<exists>n \<le> N_HBLK_FLS. p \<in> set (L n)" if "hm0 s p = Some H" "HBLK_IS_FREE H" for H
      using on_listsD(1) [OF d(4) that(1)] that(2) right_index_le by blast
    ultimately show "p \<in> free_blocks (hm0 s) \<longleftrightarrow> p \<in> (\<Union>n \<in> {..N_HBLK_FLS}. set (L n))"
      unfolding free_blocks_def by blast
  qed
  show "finite (free_blocks (hm0 s))" unfolding fb by simp
  have "sum f (\<Union>n \<in> {..N_HBLK_FLS}. set (L n)) = (\<Sum>n \<le> N_HBLK_FLS. sum f (set (L n)))" for f :: "nat \<Rightarrow> nat"
    by (rule sum.UNION_disjoint) (use d(3) in \<open>auto simp: lists_ok_def\<close>)
  moreover have "list_sum (hm0 s) (L n) = (\<Sum>p \<in> set (L n). hb_sz (the (hm0 s p)))" if "n \<le> N_HBLK_FLS" for n
    using lists_okD(3) [OF d(3) that] by (simp add: list_sum_def sum_list_distinct_conv_sum_set)
  ultimately show "free_total L (hm0 s) = (\<Sum>p \<in> free_blocks (hm0 s). hb_sz (the (hm0 s p)))"
    unfolding free_total_def fb by simp
qed

lemma free_area_card:
  assumes v: "heap_inv L s"
  shows "finite (free_area (hm0 s))" "GC_large_free_bytes s = HBLKSIZE * card (free_area (hm0 s))"
proof -
  note d = heap_invD [OF v] and ft = free_total_blocks [OF v]
  let ?I = "\<lambda>p. {p..<p + span (the (hm0 s p))}"
  have fa: "free_area (hm0 s) = (\<Union>p \<in> free_blocks (hm0 s). ?I p)"
  proof (rule set_eqI)
    fix x
    have "x \<in> free_area (hm0 s) \<longleftrightarrow> (\<exists>p H. hm0 s p = Some H \<and> HBLK_IS_FREE H \<and> x \<in> ?I p)" by (fastforce simp: free_area_def)
    then show "x \<in> free_area (hm0 s) \<longleftrightarrow> x \<in> (\<Union>p \<in> free_blocks (hm0 s). ?I p)" by (auto simp: free_blocks_def)
  qed
  show "finite (free_area (hm0 s))" unfolding fa using ft(1) by simp
  have dis: "?I p \<inter> ?I q = {}" if pq: "p \<in> free_blocks (hm0 s)" "q \<in> free_blocks (hm0 s)" "p \<noteq> q" for p q
  proof -
    obtain P Q where PQ: "hm0 s p = Some P" "hm0 s q = Some Q" using pq(1,2) by (auto simp: free_blocks_def)
    show ?thesis using lay_owner [OF d(2) PQ] PQ pq(3) by fastforce
  qed
  have "card (free_area (hm0 s)) = (\<Sum>p \<in> free_blocks (hm0 s). card (?I p))"
    unfolding fa by (rule card_UN_disjoint) (use ft(1) dis in auto)
  also have "\<dots> = (\<Sum>p \<in> free_blocks (hm0 s). span (the (hm0 s p)))" by simp
  finally have "HBLKSIZE * card (free_area (hm0 s)) = (\<Sum>p \<in> free_blocks (hm0 s). HBLKSIZE * span (the (hm0 s p)))"
    by (simp add: sum_distrib_left)
  also have "\<dots> = (\<Sum>p \<in> free_blocks (hm0 s). hb_sz (the (hm0 s p)))"
  proof (rule sum.cong [OF refl])
    fix p assume "p \<in> free_blocks (hm0 s)"
    then obtain P where P: "hm0 s p = Some P" "HBLK_IS_FREE P" by (auto simp: free_blocks_def)
    show "HBLKSIZE * span (the (hm0 s p)) = hb_sz (the (hm0 s p))" using layD(4) [OF d(2) P] P(1) by simp
  qed
  finally show "GC_large_free_bytes s = HBLKSIZE * card (free_area (hm0 s))" using ft(2) d(7) by simp
qed

lemma list_bytes_spec:
  assumes "index_inv s"
  shows "dseg (hm s) prev xs 0 \<Longrightarrow> 0 \<notin> set xs \<Longrightarrow> list_bytes (hd_or xs 0) s = Some (list_sum (hm s) xs)"
proof (induction xs arbitrary: prev)
  case Nil
  then show ?case by (simp add: list_bytes.simps)
next
  case (Cons x xs)
  then obtain H where H: "hm s x = Some H" "hb_next H = hd_or xs 0" by auto
  obtain k where "hdr_of x s = Some k" "hdrs s k = Some H" using hdr_of_hm [OF assms H(1)] by blast
  moreover have "list_bytes (hd_or xs 0) s = Some (list_sum (hm s) xs)" using Cons.IH [of x] Cons.prems by simp
  ultimately show ?case using Cons.prems(2) H by (subst list_bytes.simps) simp
qed

lemma ofold_sum:
  assumes "\<And>i. i \<in> set xs \<Longrightarrow> g i = Some (f i)"
  shows "ofold (\<lambda>i total. do { r \<leftarrow> g i; Some (total + r) }) xs (c :: nat) = Some (c + sum_list (map f xs))"
  using assms by (induction xs arbitrary: c) (simp_all add: add.assoc)

lemma compute_lists:
  assumes i: "index_inv s" and l: "lists_ok L s"
  shows "GC_compute_large_free_bytes s = Some (free_total L (hm0 s))"
proof -
  have b: "list_bytes (GC_hblkfreelist s n) s = Some (list_sum (hm s) (L n))" if "n \<in> set [0..<N_HBLK_FLS + 1]" for n
  proof -
    have "n \<le> N_HBLK_FLS" using that by auto
    then show ?thesis using list_bytes_spec [OF i] lists_okD(1,2,4) [OF l] by metis
  qed
  have "list_sum (hm s) xs = list_sum (hm0 s) xs" for xs
  proof (rule list_sum_cong)
    show "hb_sz (the (hm s x)) = hb_sz (the (hm0 s x))" for x by (cases "hm s x") (simp_all add: hm0_def)
  qed
  then have "sum_list (map (\<lambda>n. list_sum (hm s) (L n)) [0..<N_HBLK_FLS + 1]) = free_total L (hm0 s)"
    by (simp add: free_total_def sum_list_distinct_conv_sum_set atLeast0LessThan flip: lessThan_Suc_atMost)
  moreover have "GC_compute_large_free_bytes s = Some (0 + sum_list (map (\<lambda>n. list_sum (hm s) (L n)) [0..<N_HBLK_FLS + 1]))"
    unfolding GC_compute_large_free_bytes_def by (rule ofold_sum [OF b])
  ultimately show ?thesis by (simp only: add_0)
qed

lemma compute_large_free: "heap_inv L s \<Longrightarrow> GC_compute_large_free_bytes s = Some (GC_large_free_bytes s)"
  using compute_lists heap_invD(1,3,7) by metis

section \<open>When there is no memory for a header\<close>

text \<open>
  When the header for the rest of a split block cannot be allocated, \<open>GC_get_first_part\<close> returns 0, and
  the block keeps its size and the flag of a free block although it is on no list any more: its
  bytes are still counted, but following the lists does not find them.
\<close>

theorem first_part_drops_block:
  assumes v: "heap_inv L s" and n: "n \<le> N_HBLK_FLS" and L: "L n = xs @ p # ys" and k: "ent s p = Hdr k" and H: "hm s p = Some H"
    and g: "GC_get_first_part p k bytes n s = Some (0, t)"
  shows "hm t p = Some H \<and> HBLK_IS_FREE H \<and> lists_ok (L(n := xs @ ys)) t \<and> GC_large_free_bytes t = GC_large_free_bytes s
    \<and> 0 < hb_sz H \<and> GC_compute_large_free_bytes t = Some (GC_large_free_bytes t - hb_sz H)"
proof -
  note d = heap_invD [OF v]
  have p: "p \<in> set (L n)" using L by simp
  have H0: "hm0 s p = Some (no_links H)" by (rule hm_hm0 [OF H])
  have f: "HBLK_IS_FREE H" using on_listsD(1) [OF d(4) H0] on_listsD(2) [OF d(4) n p] H0 p by auto
  have sz: "hb_sz H = span H * HBLKSIZE" "0 < span H" using layD(3,4) [OF d(2) H0] f by simp_all
  have p0: "p \<noteq> 0" using layD(2) [OF d(2) H0] .
  obtain s1 where s1: "GC_remove_from_fl_at k n s = Some s1" "same_but_lists s s1" "hm0 s1 = hm0 s" "hm s1 p = hm s p"
    "lists_ok (L(n := xs @ ys)) s1"
    by (rule remove_from_fl_at_spec [OF d(1,3) n L k]) (rule that)
  note b1 = same_but_listsD [OF s1(2)]
  obtain J where J: "hdrs s k = Some J" using ent_hm [OF d(1) k] by blast
  obtain r u where u: "GC_install_header (p + divHBLKSZ bytes) s1 = Some (r, u)" "index_step s1 u"
    "r = 0 \<longrightarrow> ent u = ent s1 \<and> hdrs u = hdrs s1"
    using install_header_spec [OF b1(1), of "p + divHBLKSZ bytes"] by (elim exE conjE) (rule that)
  have r: "r = 0" "t = u" using g p0 s1(1) J u(1)
    by (auto simp: GC_get_first_part_def Let_def bind_eq_Some_conv split: if_splits)
  then have e: "ent t = ent s1" "hdrs t = hdrs s1" using u(3) by simp_all
  have hm: "hm t = hm s1" unfolding hm_def e ..
  then have h0: "hm0 t = hm0 s1" by (simp add: hm0_def fun_eq_iff)
  note b = baseD [OF index_stepD(2) [OF u(2)], folded r(2)]
  have l: "lists_ok (L(n := xs @ ys)) t" by (rule lists_ok_frame [OF s1(5)]) (simp_all add: hm b)
  have ht: "hm t p = Some H" using hm s1(4) H by simp
  have lf: "GC_large_free_bytes t = GC_large_free_bytes s" using b(2) b1(5) by simp
  have "free_total (L(n := xs @ ys)) (hm0 s) + list_sum (hm0 s) (L n) = free_total L (hm0 s) + list_sum (hm0 s) (xs @ ys)"
    by (rule free_total_upd [OF n])
  moreover have "list_sum (hm0 s) (L n) = hb_sz H + list_sum (hm0 s) (xs @ ys)" unfolding L using H0 by (simp add: list_sum_def)
  ultimately have "free_total (L(n := xs @ ys)) (hm0 t) = GC_large_free_bytes t - hb_sz H"
    using d(7) lf h0 s1(3) by simp
  then have "GC_compute_large_free_bytes t = Some (GC_large_free_bytes t - hb_sz H)"
    using compute_lists [OF index_stepD(1) [OF u(2), folded r(2)] l] by simp
  then show ?thesis using ht f l lf sz by simp
qed

section \<open>Sequences of operations\<close>

text \<open>
  The states that the operations lead to from the initial values of the variables. The heap is
  extended by blocks that are not in it yet, of memory that ends below the address \<open>2 ^ 63\<close>, and
  blocks in use are freed. \<open>mem\<close> is what \<open>GC_scratch_alloc\<close> gives at each call, \<open>None\<close> for no memory.

  The theorems below assume that it never runs out of memory for headers and indices. Without that
  they do not hold: when the header for the rest of a block that is to be split cannot be allocated,
  \<open>GC_get_first_part\<close> leaves the block flagged free and counted, but on no list.
\<close>

inductive heap_reach :: "(nat \<Rightarrow> hdr option) \<Rightarrow> gc \<Rightarrow> bool" for mem where
  start: "GC_init_headers (gc_variables mem) = Some s \<Longrightarrow> heap_reach mem s"
| extend: "heap_reach mem s \<Longrightarrow> 0 < m \<Longrightarrow> p + m \<le> 2 ^ 51 \<Longrightarrow> {max 2 p..<p + m} \<inter> occupied (hm0 s) = {}
    \<Longrightarrow> GC_add_to_heap p (m * HBLKSIZE) s = Some t \<Longrightarrow> heap_reach mem t"
| alloc: "heap_reach mem s \<Longrightarrow> 0 < sz \<Longrightarrow> fl AND FREE_BLK = 0 \<Longrightarrow> fl AND LARGE_BLOCK = 0
    \<Longrightarrow> GC_allochblk sc sz kind fl s = Some (r, t) \<Longrightarrow> heap_reach mem t"
| free: "heap_reach mem s \<Longrightarrow> used (hm0 s) p \<noteq> None \<Longrightarrow> GC_freehblk p s = Some t \<Longrightarrow> heap_reach mem t"

lemma usedD: "used (hm0 s) p \<noteq> None \<Longrightarrow> \<exists>H. hm s p = Some H \<and> \<not> HBLK_IS_FREE H"
  by (auto simp: used_def hm0_def split: option.splits if_splits)

lemma usedI: "hm s p = Some H \<Longrightarrow> \<not> HBLK_IS_FREE H \<Longrightarrow> used (hm0 s) p = Some (no_links H)"
  by (simp add: used_def hm0_def)

lemma heap_reach_inv:
  assumes "heap_reach mem s" and "\<forall>k. mem k \<noteq> None"
  shows "\<exists>L. heap_inv L s \<and> cfg s = cfg (gc_variables mem)"
  using assms(1)
proof induction
  case (start s)
  then show ?case using init_headers_inv [of mem] assms(2) by (metis option.inject)
next
  case (extend s m p t)
  then obtain L where L: "heap_inv L s" "cfg s = cfg (gc_variables mem)" by blast
  have nf: "never_fails s" using cfgD(1) [OF L(2)] assms(2) by (simp add: never_fails_def gc_variables_def)
  have "length (GC_heap_sects s) < MAX_HEAP_SECTS"
    using extend.hyps(5) by (auto simp: GC_add_to_heap_def split: if_splits)
  then obtain u L' where "GC_add_to_heap p (m * HBLKSIZE) s = Some u" "heap_inv L' u" "cfg u = cfg s"
    using add_to_heap_any [OF L(1) nf extend.hyps(2-4)] by metis
  then show ?case using extend.hyps(5) L(2) by auto
next
  case (alloc s sz fl sc kind r t)
  then obtain L where L: "heap_inv L s" "cfg s = cfg (gc_variables mem)" by blast
  have nf: "never_fails s" using cfgD(1) [OF L(2)] assms(2) by (simp add: never_fails_def gc_variables_def)
  have "\<exists>r t. GC_allochblk sc sz kind fl s = Some (r, t) \<and> allocated sz kind fl s r t"
    by (rule allochblk_spec [OF L(1) nf alloc.hyps(2-4)])
  then have "allocated sz kind fl s r t" using alloc.hyps(5) by simp
  then show ?case using L(2) by (auto simp: allocated_def)
next
  case (free s p t)
  then obtain L where L: "heap_inv L s" "cfg s = cfg (gc_variables mem)" by blast
  obtain H where H: "hm s p = Some H" "\<not> HBLK_IS_FREE H" using usedD [OF free.hyps(2)] by blast
  obtain u L' where "GC_freehblk p s = Some u" "heap_inv L' u" "cfg u = cfg s" using freehblk_used [OF L(1) H] by metis
  then show ?case using free.hyps(3) L(2) by auto
qed

lemma reach_never: "heap_reach mem s \<Longrightarrow> \<forall>k. mem k \<noteq> None \<Longrightarrow> never_fails s"
  using heap_reach_inv [of mem s] cfgD(1) [of s "gc_variables mem"] by (auto simp: never_fails_def gc_variables_def)

lemma freehblk_none:
  assumes "heap_inv L s" and "used (hm0 s) p = None"
  shows "GC_freehblk p s = None"
proof -
  note i = heap_invD(1) [OF assms(1)]
  show ?thesis
  proof (cases "hm s p")
    case None
    then have "\<And>k. ent s p \<noteq> Hdr k" using ent_hm [OF i, of p] by fastforce
    then have "hdr_of p s = None" using index_inv_ent(1) [OF i, of p] by (cases "ent s p") (auto simp: hdr_of_def)
    then show ?thesis by (simp add: GC_freehblk_def)
  next
    case (Some H)
    then have f: "HBLK_IS_FREE H" using assms(2) usedI [OF Some] by auto
    obtain k where k: "hdr_of p s = Some k" "hdrs s k = Some H" using hdr_of_hm [OF i Some] by blast
    show ?thesis unfolding GC_freehblk_def k bind.bind_lunit Let_def using f by (auto simp: bind_eq_None_conv split: bind_splits)
  qed
qed

section \<open>An example\<close>

section \<open>The allocator for its callers\<close>

definition heap_ok :: "gc \<Rightarrow> bool" where
  "heap_ok s \<longleftrightarrow> (\<exists>L. heap_inv L s) \<and> never_fails s"

type_synonym request = "nat \<times> nat \<times> 8 word"

definition valid_request :: "request \<Rightarrow> bool" where
  "valid_request = (\<lambda>(sz, kind, fl). 0 < sz \<and> fl AND FREE_BLK = 0 \<and> fl AND LARGE_BLOCK = 0)"

definition blocks_needed :: "request \<Rightarrow> nat" where
  "blocks_needed = (\<lambda>(sz, kind, fl). OBJ_SZ_TO_BLOCKS sz)"

definition request_block :: "(gc \<Rightarrow> bool) \<Rightarrow> request \<Rightarrow> gc \<Rightarrow> (nat \<times> gc) option" where
  "request_block should_collect = (\<lambda>(sz, kind, fl). GC_allochblk should_collect sz kind fl)"

lemma used_not_free:
  assumes "lay E M" and "used M p = Some H"
  shows "p \<noteq> 0 \<and> 0 < span H \<and> {p..<p + span H} \<inter> free_area M = {}"
proof -
  have H: "M p = Some H" "\<not> HBLK_IS_FREE H" using assms(2) by (auto simp: used_def split: option.splits if_splits)
  have "q \<notin> free_area M" if q: "p \<le> q" "q < p + span H" for q
  proof
    assume "q \<in> free_area M"
    then obtain r R where R: "M r = Some R" "HBLK_IS_FREE R" "r \<le> q" "q < r + span R" by (auto simp: free_area_def)
    have "r = p" using lay_apart [OF assms(1) H(1) R(1)] lay_apart [OF assms(1) R(1) H(1)] q R(3,4) by (cases r p rule: linorder_cases) auto
    then show False using R(1,2) H by simp
  qed
  then show ?thesis using layD(2,3) [OF assms(1) H(1)] by auto
qed

interpretation gcb: block_heap heap_ok "\<lambda>s. used (hm0 s)" "\<lambda>s. free_area (hm0 s)" span blocks_needed valid_request
    "request_block should_collect" GC_freehblk for should_collect
proof (unfold_locales, goal_cases)
  case (1 s q)
  obtain sz kind fl where q: "q = (sz, kind, fl)" by (cases q)
  obtain L where L: "heap_inv L s" "never_fails s" using 1(1) by (auto simp: heap_ok_def)
  have v: "0 < sz" "fl AND FREE_BLK = 0" "fl AND LARGE_BLOCK = 0" using 1(2) by (simp_all add: q valid_request_def)
  obtain p t where t: "GC_allochblk should_collect sz kind fl s = Some (p, t)" "allocated sz kind fl s p t"
    using allochblk_spec [OF L v] by blast
  have g: "\<exists>L. heap_inv L t" "cfg t = cfg s" "heap_grows (hm0 s) (hm0 t)" using t(2) by (simp_all add: allocated_def)
  have "heap_ok t" using g(1) cfgD(6) [OF g(2)] L(2) by (simp add: heap_ok_def)
  moreover have "used (hm0 s) \<subseteq>\<^sub>m used (hm0 t)" "free_area (hm0 t) \<subseteq> free_area (hm0 s)"
    using g(3) by (auto simp: heap_grows_def map_le_def dom_def)
  moreover have "(\<exists>x. used (hm0 t) p = Some x \<and> span x = OBJ_SZ_TO_BLOCKS sz) \<and> {p..<p + OBJ_SZ_TO_BLOCKS sz} \<subseteq> free_area (hm0 s)"
    if "p \<noteq> 0"
  proof -
    obtain K where "hm0 t p = Some K" "set_up p sz kind fl K" "{p..<p + OBJ_SZ_TO_BLOCKS sz} \<subseteq> free_area (hm0 s)"
      using t(2) \<open>p \<noteq> 0\<close> by (auto simp: allocated_def)
    then show ?thesis by (auto simp: used_def set_up_def span_def)
  qed
  ultimately show ?case using t(1) by (auto simp: q request_block_def blocks_needed_def)
next
  case (2 s p x)
  obtain L where L: "heap_inv L s" "never_fails s" using 2(1) by (auto simp: heap_ok_def)
  obtain H where H: "hm s p = Some H" "\<not> HBLK_IS_FREE H" using usedD 2(2) by blast
  have x: "span x = span H" using 2(2) usedI [OF H] by auto
  obtain t L' where t: "GC_freehblk p s = Some t" "heap_inv L' t" "used (hm0 t) = (used (hm0 s))(p := None)"
    "free_area (hm0 t) = free_area (hm0 s) \<union> {p..<p + span H}" "cfg t = cfg s"
    by (rule freehblk_used [OF L(1) H]) (rule that)
  have "heap_ok t" using t(2) cfgD(6) [OF t(5)] L(2) by (auto simp: heap_ok_def)
  then show ?case using t(1,3,4) x by simp
next
  case (3 q)
  then show ?case by (cases q) (auto simp: valid_request_def blocks_needed_def OBJ_SZ_TO_BLOCKS_def divHBLKSZ_def)
next
  case (4 s p x)
  then obtain L where "heap_inv L s" by (auto simp: heap_ok_def)
  then show ?case using used_not_free [OF heap_invD(2)] 4(2) by blast
qed

section \<open>An example\<close>

definition blank_hdr :: hdr where
  "blank_hdr = \<lparr>hb_next = 0, hb_prev = 0, hb_block = 0, hb_obj_kind = 0, hb_flags = 0, hb_last_reclaimed = 0, hb_sz = 0,
     hb_descr = 0, hb_map = 0, hb_n_marks = 0, hb_marks = (\<lambda>_. False)\<rparr>"

definition heap_mem :: "nat \<Rightarrow> hdr option" where "heap_mem = (\<lambda>_. Some blank_hdr)"

definition demo_gc :: gc where
  "demo_gc = the (do { s \<leftarrow> GC_init_headers (gc_variables heap_mem); GC_add_to_heap 16 (64 * HBLKSIZE) s })"

lemma heap_mem [simp]: "heap_mem k \<noteq> None"
  by (simp add: heap_mem_def)

lemma heap_mem_all: "\<forall>k. heap_mem k \<noteq> None"
  by simp

lemma demo_heap:
  obtains L where "heap_inv L demo_gc" "never_fails demo_gc" "heap_reach heap_mem demo_gc" "cfg demo_gc = cfg (gc_variables heap_mem)"
    "used (hm0 demo_gc) = Map.empty" "free_area (hm0 demo_gc) = {16..<80}"
proof -
  obtain s where s: "GC_init_headers (gc_variables heap_mem) = Some s" "heap_inv (\<lambda>_. []) s" "cfg s = cfg (gc_variables heap_mem)"
    "hm0 s = Map.empty" "GC_heap_sects s = []" "scratch s = heap_mem"
    by (rule init_headers_inv [of heap_mem]) (use heap_mem in auto)
  have nf: "never_fails s" using s(6) by (simp add: never_fails_def)
  have o: "{16..<16 + 64} \<inter> occupied (hm0 s) = {}" using s(4) by (simp add: occupied_def)
  have l: "length (GC_heap_sects s) < MAX_HEAP_SECTS" using s(5) by (simp add: MAX_HEAP_SECTS_def)
  have p: "2 \<le> (16 :: nat)" "0 < (64 :: nat)" "16 + 64 \<le> (2 :: nat) ^ 51" by simp_all
  have o2: "{max 2 16..<16 + 64} \<inter> occupied (hm0 s) = {}" using o by simp
  obtain t L where t: "GC_add_to_heap 16 (64 * HBLKSIZE) s = Some t" "heap_inv L t" "used (hm0 t) = used (hm0 s)"
    "free_area (hm0 t) = free_area (hm0 s) \<union> {16..<16 + 64}" "cfg t = cfg s"
    by (rule add_to_heap_spec [OF s(2) nf p o l]) (rule that)
  have d: "demo_gc = t" unfolding demo_gc_def s(1) bind.bind_lunit t(1) by simp
  have "heap_reach heap_mem t" by (rule heap_reach.extend [OF heap_reach.start [OF s(1)] p(2,3) o2 t(1)])
  moreover have "used (hm0 t) = Map.empty" "free_area (hm0 t) = {16..<80}"
    unfolding t(3,4) s(4) by (auto simp: used_def free_area_def)
  moreover have "never_fails t" using cfgD(6) [OF t(5)] nf by simp
  ultimately show thesis using that t(2,5) s(3) unfolding d by simp
qed

text \<open>An uncollectable object of 10000 bytes.\<close>

definition demo_alloc :: "nat \<times> gc" where
  "demo_alloc = the (GC_allochblk (\<lambda>_. False) 10000 2 0 demo_gc)"

lemma zero_flags: "(0 :: 8 word) AND FREE_BLK = 0" "(0 :: 8 word) AND LARGE_BLOCK = 0"
  by simp_all

lemma three_blocks: "OBJ_SZ_TO_BLOCKS 10000 = 3"
  by (simp add: OBJ_SZ_TO_BLOCKS_def divHBLKSZ_def)

lemma demo_free_block:
  obtains p H where "hm0 demo_gc p = Some H" "HBLK_IS_FREE H" "64 \<le> span H"
proof -
  obtain L where L: "heap_inv L demo_gc" "free_area (hm0 demo_gc) = {16..<80}" by (rule demo_heap)
  note d = heap_invD [OF L(1)]
  have "16 \<in> free_area (hm0 demo_gc)" using L(2) by simp
  then obtain p H where p: "hm0 demo_gc p = Some H" "HBLK_IS_FREE H" "p \<le> 16" "16 < p + span H" by (auto simp: free_area_def)
  have "p \<in> free_area (hm0 demo_gc)" using p(1,2) layD(3) [OF d(2) p(1)] by (intro free_areaI) auto
  then have p16: "p = 16" using L(2) p(3) by simp
  have "80 \<le> p + span H"
  proof (rule ccontr)
    assume c: "\<not> ?thesis"
    then have "p + span H \<in> free_area (hm0 demo_gc)" using L(2) p(4) by simp
    then obtain q K where q: "hm0 demo_gc q = Some K" "HBLK_IS_FREE K" "q \<le> p + span H" "p + span H < q + span K" by (auto simp: free_area_def)
    have "\<not> p < q \<or> p + span H \<le> q" using lay_apart [OF d(2) p(1) q(1)] by blast
    moreover have "p \<noteq> q" using q(4) p(1) q(1) by auto
    moreover have "\<not> q < p"
    proof
      assume "q < p"
      moreover have "q \<in> free_area (hm0 demo_gc)" using q(1,2) layD(3) [OF d(2) q(1)] by (intro free_areaI) auto
      ultimately show False using L(2) p16 by simp
    qed
    ultimately have "q = p + span H" using q(3) by linarith
    then show False using d(6) p(1,2) q(1,2) unfolding apart_def by blast
  qed
  then show thesis using that [OF p(1,2)] p16 by simp
qed

lemma demo_object:
  obtains L r t K where "demo_alloc = (r, t)" "GC_allochblk (\<lambda>_. False) 10000 2 0 demo_gc = Some (r, t)" "r \<noteq> 0" "heap_inv L t"
    "heap_reach heap_mem t" "cfg t = cfg (gc_variables heap_mem)" "hm t r = Some K" "set_up r 10000 2 0 K" "span K = 3"
proof -
  obtain L where L: "heap_inv L demo_gc" "never_fails demo_gc" "heap_reach heap_mem demo_gc" "cfg demo_gc = cfg (gc_variables heap_mem)" by (rule demo_heap)
  obtain p H where p: "hm0 demo_gc p = Some H" "HBLK_IS_FREE H" "64 \<le> span H" by (rule demo_free_block)
  have z: "0 < (10000 :: nat)" by simp
  have sp: "OBJ_SZ_TO_BLOCKS 10000 \<le> span H" using p(3) three_blocks by simp
  have ig: "ignores_black (OBJ_SZ_TO_BLOCKS 10000 * HBLKSIZE) 2 demo_gc" by (simp add: ignores_black_def IS_UNCOLLECTABLE_def)
  obtain r t where t: "GC_allochblk (\<lambda>_. False) 10000 2 0 demo_gc = Some (r, t)" "r \<noteq> 0"
    using allochblk_finds [OF L(1,2) z zero_flags ig p(1,2) sp, of "\<lambda>_. False"] by blast
  have "allocated 10000 2 0 demo_gc r t"
    using allochblk_spec [OF L(1,2) z zero_flags, of "\<lambda>_. False" 2] t(1) by auto
  then obtain L' K where K: "heap_inv L' t" "cfg t = cfg demo_gc" "hm0 t r = Some K" "set_up r 10000 2 0 K"
    using t(2) unfolding allocated_def by blast
  obtain J where J: "hm t r = Some J" "K = no_links J" using hm0_hm [OF K(3)] by blast
  have s: "set_up r 10000 2 0 J" using K(4) J(2) by simp
  then have "span J = 3" using three_blocks by (simp add: set_up_def span_def)
  moreover have "heap_reach heap_mem t" by (rule heap_reach.alloc [OF L(3) z zero_flags t(1)])
  moreover have "demo_alloc = (r, t)" by (simp add: demo_alloc_def t(1))
  ultimately show thesis using that t K(1,2) L(4) J(1) s by simp
qed

section \<open>What the allocator promises\<close>

text \<open>
  C2. After any sequence of extensions of the heap, allocations and deallocations, as long as
  \<open>GC_scratch_alloc\<close> gets memory for headers and indices: the blocks of the heap do not overlap, each
  object of several blocks has the forwarding counts to its header, no two free blocks are next to
  each other, and the count of free bytes is the number of blocks that are free, and what
  \<open>GC_compute_large_free_bytes\<close> finds by following all the free lists.
\<close>

theorem heap_stays_sound:
  assumes "heap_reach mem s" and "\<forall>k. mem k \<noteq> None"
  shows "layout s
    \<and> (\<forall>p H K. hm s p = Some H \<longrightarrow> hm s (p + span H) = Some K \<longrightarrow> \<not> (HBLK_IS_FREE H \<and> HBLK_IS_FREE K))
    \<and> finite (free_area (hm0 s)) \<and> GC_large_free_bytes s = HBLKSIZE * card (free_area (hm0 s))
    \<and> GC_compute_large_free_bytes s = Some (GC_large_free_bytes s)"
proof -
  obtain L where L: "heap_inv L s" using heap_reach_inv [OF assms] by blast
  note d = heap_invD [OF L]
  have "\<not> (HBLK_IS_FREE H \<and> HBLK_IS_FREE K)" if "hm s p = Some H" "hm s (p + span H) = Some K" for p H K
    using d(6) hm_hm0 [OF that(1)] hm_hm0 [OF that(2)] unfolding apart_def by fastforce
  then show ?thesis using layout_of [OF d(1,2)] free_area_card [OF L] compute_large_free [OF L] by blast
qed

theorem heap_stays_sound_witness:
  "GC_large_free_bytes demo_gc = 64 * HBLKSIZE \<and> GC_compute_large_free_bytes demo_gc = Some (64 * HBLKSIZE)"
proof -
  obtain L where L: "heap_reach heap_mem demo_gc" "free_area (hm0 demo_gc) = {16..<80}" by (rule demo_heap)
  show ?thesis using heap_stays_sound [OF L(1)] L(2) by simp
qed

text \<open>
  C9. In every state that these operations lead to while \<open>GC_scratch_alloc\<close> gets memory for headers
  and indices, every operation returns: an allocation of any size, the deallocation of any block that
  is in use, and an extension by blocks that are not in the heap yet as long as there is room in the
  table of sections and the memory ends below the address \<open>2 ^ 63\<close>.
\<close>

theorem heap_operations_return:
  assumes "heap_reach mem s" and "\<forall>k. mem k \<noteq> None"
  shows "(\<forall>sc sz kind fl. 0 < sz \<longrightarrow> fl AND FREE_BLK = 0 \<longrightarrow> fl AND LARGE_BLOCK = 0 \<longrightarrow> GC_allochblk sc sz kind fl s \<noteq> None)
    \<and> (\<forall>p. used (hm0 s) p \<noteq> None \<longrightarrow> GC_freehblk p s \<noteq> None)
    \<and> (\<forall>p m. 0 < m \<and> p + m \<le> 2 ^ 51 \<and> {max 2 p..<p + m} \<inter> occupied (hm0 s) = {} \<longrightarrow> length (GC_heap_sects s) < MAX_HEAP_SECTS
          \<longrightarrow> GC_add_to_heap p (m * HBLKSIZE) s \<noteq> None)"
proof -
  obtain L where L: "heap_inv L s" using heap_reach_inv [OF assms] by blast
  note nf = reach_never [OF assms]
  have "GC_allochblk sc sz kind fl s \<noteq> None" if "0 < sz" "fl AND FREE_BLK = 0" "fl AND LARGE_BLOCK = 0" for sc sz kind fl
    using allochblk_spec [OF L nf that, of sc kind] by auto
  moreover have "GC_freehblk p s \<noteq> None" if u: "used (hm0 s) p \<noteq> None" for p
  proof -
    obtain H where "hm s p = Some H" "\<not> HBLK_IS_FREE H" using usedD [OF u] by blast
    then show ?thesis using freehblk_used [OF L] by (metis option.distinct(1))
  qed
  moreover have "GC_add_to_heap p (m * HBLKSIZE) s \<noteq> None"
    if "0 < m \<and> p + m \<le> 2 ^ 51 \<and> {max 2 p..<p + m} \<inter> occupied (hm0 s) = {}" "length (GC_heap_sects s) < MAX_HEAP_SECTS" for p m
    using add_to_heap_any [OF L nf, of m p] that by (metis option.distinct(1))
  ultimately show ?thesis by blast
qed

theorem heap_operations_return_witness: "GC_allochblk (\<lambda>_. True) 100000 1 0 demo_gc \<noteq> None"
proof -
  obtain L where L: "heap_reach heap_mem demo_gc" by (rule demo_heap)
  show ?thesis using heap_operations_return [OF L] zero_flags by simp
qed

text \<open>
  C4. \<open>GC_allochblk\<close> returns 0 or a block with as many blocks as the object needs, which were all free;
  its header has the size, the kind, the mark bits clear and the flag for large objects as they should
  be. No object in use changes, not its header and not its place, no block becomes free, and the
  invariant holds again. \<open>GC_scratch_alloc\<close> is assumed to get memory for headers and indices.
\<close>

theorem allochblk_fresh:
  assumes "heap_inv L s" and "never_fails s" and "0 < sz" and "fl AND FREE_BLK = 0" "fl AND LARGE_BLOCK = 0"
  shows "\<exists>r t L'. GC_allochblk sc sz kind fl s = Some (r, t) \<and> heap_inv L' t
    \<and> (\<forall>q H. used (hm0 s) q = Some H \<longrightarrow> used (hm0 t) q = Some H) \<and> free_area (hm0 t) \<subseteq> free_area (hm0 s)
    \<and> (r \<noteq> 0 \<longrightarrow> (\<exists>K. hm t r = Some K \<and> set_up r sz kind fl K) \<and> {r..<r + OBJ_SZ_TO_BLOCKS sz} \<subseteq> free_area (hm0 s))"
proof -
  obtain r t where t: "GC_allochblk sc sz kind fl s = Some (r, t)" "allocated sz kind fl s r t"
    using allochblk_spec [OF assms, of sc kind] by (elim exE conjE) (rule that)
  have "\<exists>K. hm t r = Some K \<and> set_up r sz kind fl K" if "r \<noteq> 0"
  proof -
    obtain K where "hm0 t r = Some K" "set_up r sz kind fl K" using t(2) \<open>r \<noteq> 0\<close> unfolding allocated_def by blast
    then show ?thesis using hm0_hm [of t r K] by auto
  qed
  then show ?thesis using t unfolding allocated_def heap_grows_def by blast
qed

theorem allochblk_fresh_witness:
  "\<exists>r t L'. GC_allochblk (\<lambda>_. True) 5000 1 0 demo_gc = Some (r, t) \<and> heap_inv L' t
    \<and> (r \<noteq> 0 \<longrightarrow> (\<exists>K. hm t r = Some K \<and> hb_sz K = 5000) \<and> {r, r + 1} \<subseteq> {16..<80})"
proof -
  obtain L where L: "heap_inv L demo_gc" "never_fails demo_gc" "free_area (hm0 demo_gc) = {16..<80}" by (rule demo_heap)
  have b: "OBJ_SZ_TO_BLOCKS 5000 = 2" by (simp add: OBJ_SZ_TO_BLOCKS_def divHBLKSZ_def)
  have z: "0 < (5000 :: nat)" by simp
  obtain r t L' where t: "GC_allochblk (\<lambda>_. True) 5000 1 0 demo_gc = Some (r, t)" "heap_inv L' t"
    "r \<noteq> 0 \<longrightarrow> (\<exists>K. hm t r = Some K \<and> set_up r 5000 1 0 K) \<and> {r..<r + OBJ_SZ_TO_BLOCKS 5000} \<subseteq> free_area (hm0 demo_gc)"
    using allochblk_fresh [OF L(1,2) z zero_flags, of "\<lambda>_. True" 1] by (elim exE conjE) (rule that)
  have "(\<exists>K. hm t r = Some K \<and> hb_sz K = 5000) \<and> {r, r + 1} \<subseteq> {16..<80}" if r0: "r \<noteq> 0"
  proof -
    obtain K where K: "hm t r = Some K" "set_up r 5000 1 0 K" "{r..<r + 2} \<subseteq> {16..<80}"
      using mp [OF t(3) r0] unfolding b L(3) by (elim exE conjE) (rule that)
    have "hb_sz K = 5000" using K(2) by (simp add: set_up_def)
    moreover have "{r, r + 1} \<subseteq> {16..<80}" using K(3) by (rule subset_trans [rotated]) auto
    ultimately show ?thesis using K(1) by blast
  qed
  then show ?thesis using t(1,2) by blast
qed

text \<open>
  C3. A program asks for any objects, one after the other, and then frees those it got in any order.
  As long as \<open>GC_scratch_alloc\<close> gets memory for headers and indices, the blocks of the objects do not
  overlap, no deallocation aborts, all their blocks are free at the end, and the objects that were in
  use before stay in use.
\<close>

theorem program_of_objects:
  assumes "heap_reach mem s" and "\<forall>k. mem k \<noteq> None"
    and "\<forall>(sz, kind, fl) \<in> set qs. 0 < sz \<and> fl AND FREE_BLK = 0 \<and> fl AND LARGE_BLOCK = 0"
  shows "\<exists>ps t. alloc_all (\<lambda>(sz, kind, fl). GC_allochblk sc sz kind fl) qs s = Some (ps, t)
    \<and> (\<forall>i j. i < j \<longrightarrow> j < length qs \<longrightarrow> ps ! i \<noteq> 0 \<longrightarrow> ps ! j \<noteq> 0 \<longrightarrow>
         {ps ! i..<ps ! i + OBJ_SZ_TO_BLOCKS (fst (qs ! i))} \<inter> {ps ! j..<ps ! j + OBJ_SZ_TO_BLOCKS (fst (qs ! j))} = {})
    \<and> (\<forall>rs. mset rs = mset (filter (\<lambda>p. p \<noteq> 0) ps) \<longrightarrow> (\<exists>u. free_all GC_freehblk rs t = Some u
         \<and> used (hm0 s) \<subseteq>\<^sub>m used (hm0 u) \<and> free_area (hm0 u) = free_area (hm0 t) \<union> (\<Union>p \<in> set rs. {p..<p + span (the (used (hm0 t) p))})))"
proof -
  have ok: "heap_ok s" using heap_reach_inv [OF assms(1,2)] reach_never [OF assms(1,2)] by (auto simp: heap_ok_def)
  have v: "\<forall>q \<in> set qs. valid_request q" using assms(3) by (auto simp: valid_request_def)
  have n: "blocks_needed q = OBJ_SZ_TO_BLOCKS (fst q)" for q by (cases q) (simp add: blocks_needed_def)
  obtain ps t where t: "alloc_all (request_block sc) qs s = Some (ps, t)"
    "\<forall>i j. i < j \<longrightarrow> j < length qs \<longrightarrow> ps ! i \<noteq> 0 \<longrightarrow> ps ! j \<noteq> 0 \<longrightarrow>
       {ps ! i..<ps ! i + blocks_needed (qs ! i)} \<inter> {ps ! j..<ps ! j + blocks_needed (qs ! j)} = {}"
    using gcb.alloc_all_spec [OF ok v, of sc] by (elim exE conjE) (rule that)
  have "\<exists>u. free_all GC_freehblk rs t = Some u \<and> used (hm0 s) \<subseteq>\<^sub>m used (hm0 u)
      \<and> free_area (hm0 u) = free_area (hm0 t) \<union> (\<Union>p \<in> set rs. {p..<p + span (the (used (hm0 t) p))})"
    if "mset rs = mset (filter (\<lambda>p. p \<noteq> 0) ps)" for rs
    using gcb.program_returns [OF ok v t(1) that] by blast
  then show ?thesis using t unfolding n request_block_def by blast
qed

theorem program_of_objects_witness:
  "\<exists>ps t. alloc_all (\<lambda>(sz, kind, fl). GC_allochblk (\<lambda>_. True) sz kind fl) [(5000, 1, 0), (100, 0, 0), (9000, 2, 1)] demo_gc = Some (ps, t)"
proof -
  obtain L where L: "heap_reach heap_mem demo_gc" by (rule demo_heap)
  have q: "\<forall>(sz, kind, fl) \<in> set [(5000, 1, 0), (100, 0, 0), (9000, 2, 1)]. 0 < (sz :: nat) \<and> fl AND FREE_BLK = 0 \<and> fl AND LARGE_BLOCK = 0"
    by (simp add: FREE_BLK_def LARGE_BLOCK_def)
  show ?thesis using program_of_objects [OF L heap_mem_all q, of "\<lambda>_. True"] by blast
qed

text \<open>
  C10. A request is granted whenever there is a free block that is large enough and no place has to be
  avoided, as for small objects without pointers, for uncollectable objects, and for all objects while
  nothing is black listed. The block has to be of exactly the size needed, or all lists may be split:
  the entire heap is to be used, collections are off, less of the heap is in use than was asked for
  at the start, or \<open>GC_should_collect\<close> says no. \<open>GC_scratch_alloc\<close> gets memory for headers.
\<close>

theorem allochblk_grants:
  assumes "heap_inv L s" and "never_fails s" and "0 < sz" and "fl AND FREE_BLK = 0" "fl AND LARGE_BLOCK = 0"
    and "IS_UNCOLLECTABLE kind \<or> kind = PTRFREE \<and> OBJ_SZ_TO_BLOCKS sz * HBLKSIZE \<le> MAX_BLACK_LIST_ALLOC \<or> (\<forall>h len. GC_is_black_listed h len s = 0)"
    and "hm s p = Some H" "HBLK_IS_FREE H" "OBJ_SZ_TO_BLOCKS sz \<le> span H"
    and "span H = OBJ_SZ_TO_BLOCKS sz \<or> GC_use_entire_heap s \<or> GC_dont_gc s
      \<or> GC_heapsize s - GC_large_free_bytes s < GC_requested_heapsize s \<or> \<not> should_collect s"
  shows "\<exists>r t. GC_allochblk should_collect sz kind fl s = Some (r, t) \<and> r \<noteq> 0"
proof -
  have "ignores_black (OBJ_SZ_TO_BLOCKS sz * HBLKSIZE) kind s" using assms(6) by (auto simp: ignores_black_def)
  then show ?thesis using allochblk_finds [OF assms(1-5) _ hm_hm0 [OF assms(7)]] assms(8-10) by simp
qed

theorem allochblk_grants_witness: "\<exists>r t. GC_allochblk (\<lambda>_. False) (64 * HBLKSIZE) 2 0 demo_gc = Some (r, t) \<and> r \<noteq> 0"
proof -
  obtain L where L: "heap_inv L demo_gc" "never_fails demo_gc" by (rule demo_heap)
  obtain p K where K: "hm0 demo_gc p = Some K" "HBLK_IS_FREE K" "64 \<le> span K" by (rule demo_free_block)
  obtain H where H: "hm demo_gc p = Some H" "K = no_links H" using hm0_hm [OF K(1)] by blast
  have b: "OBJ_SZ_TO_BLOCKS (64 * HBLKSIZE) = 64" by (simp add: OBJ_SZ_TO_BLOCKS_def divHBLKSZ_def)
  show ?thesis
    by (rule allochblk_grants [OF L(1,2) _ zero_flags _ H(1)]) (use K H(2) b in \<open>simp_all add: IS_UNCOLLECTABLE_def\<close>)
qed

text \<open>
  C19. A collectable object with pointers that is not larger than the black list spacing is never put
  at a place that is black listed: not a block of it, or not its first one if it is ignored off its
  first page. This is so as long as \<open>GC_scratch_alloc\<close> gets memory for headers and indices;
  uncollectable objects are put anywhere.
\<close>

theorem allochblk_avoids_black:
  assumes "heap_inv L s" and "never_fails s" and "0 < sz" and "fl AND FREE_BLK = 0" "fl AND LARGE_BLOCK = 0"
    and "\<not> IS_UNCOLLECTABLE kind" "kind \<noteq> PTRFREE" "OBJ_SZ_TO_BLOCKS sz * HBLKSIZE \<le> GC_black_list_spacing s"
    and "GC_allochblk sc sz kind fl s = Some (r, t)" "r \<noteq> 0"
  shows "GC_is_black_listed r (if fl AND IGNORE_OFF_PAGE \<noteq> 0 then HBLKSIZE else OBJ_SZ_TO_BLOCKS sz * HBLKSIZE) s = 0"
proof -
  have "allocated sz kind fl s r t" using allochblk_spec [OF assms(1-5), of sc kind] assms(9) by auto
  moreover have "avoids_black (OBJ_SZ_TO_BLOCKS sz * HBLKSIZE) kind s" using assms(6-8) by (simp add: avoids_black_def)
  ultimately show ?thesis using assms(10) by (simp add: allocated_def eff_size_def)
qed

lemma demo_not_black: "GC_is_black_listed h len demo_gc = 0"
proof -
  obtain L where L: "heap_inv L demo_gc" "cfg demo_gc = cfg (gc_variables heap_mem)" by (rule demo_heap)
  have "\<not> black (gc_variables heap_mem) p" for p by (simp add: black_def get_pht_bit gc_variables_def)
  then have "GC_is_black_listed h len (gc_variables heap_mem) = 0"
    by (subst is_black_listed_spec) (simp_all add: gc_variables_def)
  then show ?thesis using black_cfg [OF L(2)] by simp
qed

theorem allochblk_avoids_black_witness:
  "\<exists>r t. GC_allochblk (\<lambda>_. False) 5000 1 0 demo_gc = Some (r, t) \<and> r \<noteq> 0 \<and> GC_is_black_listed r (2 * HBLKSIZE) demo_gc = 0"
proof -
  obtain L where L: "heap_inv L demo_gc" "never_fails demo_gc" "cfg demo_gc = cfg (gc_variables heap_mem)" by (rule demo_heap)
  obtain p K where K: "hm0 demo_gc p = Some K" "HBLK_IS_FREE K" "64 \<le> span K" by (rule demo_free_block)
  have b: "OBJ_SZ_TO_BLOCKS 5000 = 2" by (simp add: OBJ_SZ_TO_BLOCKS_def divHBLKSZ_def)
  have s: "OBJ_SZ_TO_BLOCKS 5000 * HBLKSIZE \<le> GC_black_list_spacing demo_gc"
    using cfgD(5) [OF L(3)] by (simp add: b gc_variables_def MINHINCR_def)
  have z: "0 < (5000 :: nat)" "\<not> IS_UNCOLLECTABLE 1" "1 \<noteq> PTRFREE" by (simp_all add: IS_UNCOLLECTABLE_def PTRFREE_def)
  have ig: "ignores_black (OBJ_SZ_TO_BLOCKS 5000 * HBLKSIZE) 1 demo_gc" using demo_not_black by (simp add: ignores_black_def)
  have fits: "OBJ_SZ_TO_BLOCKS 5000 \<le> span K" using K(3) b by simp
  obtain r t where r: "GC_allochblk (\<lambda>_. False) 5000 1 0 demo_gc = Some (r, t)" "r \<noteq> 0"
    using allochblk_finds [OF L(1,2) z(1) zero_flags ig K(1,2) fits, of "\<lambda>_. False"] by blast
  have "GC_is_black_listed r (if (0 :: 8 word) AND IGNORE_OFF_PAGE \<noteq> 0 then HBLKSIZE else OBJ_SZ_TO_BLOCKS 5000 * HBLKSIZE) demo_gc = 0"
    by (rule allochblk_avoids_black [OF L(1,2) z(1) zero_flags z(2,3) s r])
  moreover have "(0 :: 8 word) AND IGNORE_OFF_PAGE = 0" by simp
  ultimately have "GC_is_black_listed r (2 * HBLKSIZE) demo_gc = 0" unfolding b by (simp only: simp_thms if_False)
  then show ?thesis using r by blast
qed

text \<open>
  C5. \<open>GC_freehblk\<close> takes the object out of use and nothing else: the blocks of the object are free
  afterwards, those that were free stay free, no other object changes, and the count of free bytes
  grows by the size of the blocks; the freed block is joined with the free blocks on both sides.
\<close>

theorem freehblk_frees:
  assumes "heap_inv L s" and "hm s p = Some H" "\<not> HBLK_IS_FREE H"
  shows "\<exists>t L'. GC_freehblk p s = Some t \<and> heap_inv L' t \<and> used (hm0 t) = (used (hm0 s))(p := None)
    \<and> free_area (hm0 t) = free_area (hm0 s) \<union> {p..<p + OBJ_SZ_TO_BLOCKS (hb_sz H)}
    \<and> GC_large_free_bytes t = GC_large_free_bytes s + OBJ_SZ_TO_BLOCKS (hb_sz H) * HBLKSIZE
    \<and> (\<forall>q K R. hm t q = Some K \<longrightarrow> hm t (q + span K) = Some R \<longrightarrow> \<not> (HBLK_IS_FREE K \<and> HBLK_IS_FREE R))"
proof -
  have sp: "span H = OBJ_SZ_TO_BLOCKS (hb_sz H)" using assms(3) by (simp add: span_def)
  obtain t L' where t: "GC_freehblk p s = Some t" "heap_inv L' t" "used (hm0 t) = (used (hm0 s))(p := None)"
    "free_area (hm0 t) = free_area (hm0 s) \<union> {p..<p + span H}" "GC_large_free_bytes t = GC_large_free_bytes s + span H * HBLKSIZE"
    by (rule freehblk_used [OF assms]) (rule that)
  have "\<not> (HBLK_IS_FREE K \<and> HBLK_IS_FREE R)" if "hm t q = Some K" "hm t (q + span K) = Some R" for q K R
    using heap_invD(6) [OF t(2)] hm_hm0 [OF that(1)] hm_hm0 [OF that(2)] unfolding apart_def by fastforce
  then show ?thesis using t unfolding sp by blast
qed

theorem freehblk_frees_witness:
  "\<exists>t L'. GC_freehblk (fst demo_alloc) (snd demo_alloc) = Some t \<and> heap_inv L' t
    \<and> GC_large_free_bytes t = GC_large_free_bytes (snd demo_alloc) + 3 * HBLKSIZE"
proof -
  obtain L r t K where d: "demo_alloc = (r, t)" "heap_inv L t" "hm t r = Some K" "set_up r 10000 2 0 K" by (rule demo_object)
  have K: "\<not> HBLK_IS_FREE K" "OBJ_SZ_TO_BLOCKS (hb_sz K) = 3" using d(4) three_blocks by (simp_all add: set_up_def)
  show ?thesis using freehblk_frees [OF d(2,3) K(1)] unfolding d(1) K(2) by auto
qed

text \<open>
  C20. \<open>GC_freehblk\<close> aborts or faults exactly for what is not a block in use: for a block that is free
  already, and for an address that is not the start of a block.
\<close>

theorem freehblk_aborts:
  assumes "heap_inv L s"
  shows "GC_freehblk p s = None \<longleftrightarrow> \<not> (\<exists>H. hm s p = Some H \<and> \<not> HBLK_IS_FREE H)"
proof
  assume n: "GC_freehblk p s = None"
  show "\<not> (\<exists>H. hm s p = Some H \<and> \<not> HBLK_IS_FREE H)"
  proof
    assume "\<exists>H. hm s p = Some H \<and> \<not> HBLK_IS_FREE H"
    then obtain H where "hm s p = Some H" "\<not> HBLK_IS_FREE H" by blast
    then show False using freehblk_used [OF assms] n by (metis option.distinct(1))
  qed
next
  assume "\<not> (\<exists>H. hm s p = Some H \<and> \<not> HBLK_IS_FREE H)"
  then have "used (hm0 s) p = None" using usedD by blast
  then show "GC_freehblk p s = None" by (rule freehblk_none [OF assms])
qed

theorem freehblk_aborts_witness:
  "GC_freehblk 16 demo_gc = None \<and> (\<forall>p. GC_freehblk p demo_gc = None)"
proof -
  obtain L where L: "heap_inv L demo_gc" "used (hm0 demo_gc) = Map.empty" by (rule demo_heap)
  have "\<not> (\<exists>H. hm demo_gc p = Some H \<and> \<not> HBLK_IS_FREE H)" for p using L(2) usedI by (metis option.distinct(1))
  then show ?thesis using freehblk_aborts [OF L(1)] by blast
qed

text \<open>
  C24. \<open>GC_add_to_heap\<close> adds \<open>m\<close> blocks of memory from \<open>p\<close> on to the free blocks of the heap, joined with
  free blocks next to them; the blocks 0 and 1 are left out, and nothing changes if there are no
  others. The objects in use stay as they are. The size of the heap and the size at which to collect
  grow by the bytes added, the latter up to the largest number; the section is put at the end of the
  table; the bounds of plausible addresses take the new memory in, the lower one with a word to
  spare. Outside the headers, their index and the free lists nothing else changes.

  The memory is not in the heap yet and ends below the address \<open>2 ^ 63\<close>, there is room in the table,
  and \<open>GC_scratch_alloc\<close> gets memory for headers and indices.
\<close>

theorem add_to_heap_extends:
  assumes "heap_inv L s" and "never_fails s" and "0 < m" "p + m \<le> 2 ^ 51" and "{max 2 p..<p + m} \<inter> occupied (hm0 s) = {}"
    and "length (GC_heap_sects s) < MAX_HEAP_SECTS"
  defines "q \<equiv> max 2 p" and "b \<equiv> (p + m - max 2 p) * HBLKSIZE"
  shows "\<exists>t L'. GC_add_to_heap p (m * HBLKSIZE) s = Some t \<and> heap_inv L' t \<and> used (hm0 t) = used (hm0 s)
    \<and> free_area (hm0 t) = free_area (hm0 s) \<union> {q..<p + m} \<and> GC_large_free_bytes t = GC_large_free_bytes s + b
    \<and> (if p + m \<le> 2 then t = s else
         GC_heapsize t = (GC_heapsize s + b) mod 2 ^ 64 \<and> GC_heap_sects t = GC_heap_sects s @ [(q * HBLKSIZE, b)]
         \<and> GC_collect_at_heapsize t = (if (GC_collect_at_heapsize s + b) mod 2 ^ 64 < GC_heapsize t then 2 ^ 64 - 1
             else (GC_collect_at_heapsize s + b) mod 2 ^ 64)
         \<and> GC_least_plausible_heap_addr t = (if q * HBLKSIZE \<le> GC_least_plausible_heap_addr s \<or> GC_least_plausible_heap_addr s = 0
             then q * HBLKSIZE - 8 else GC_least_plausible_heap_addr s)
         \<and> GC_greatest_plausible_heap_addr t = max (GC_greatest_plausible_heap_addr s) ((p + m) * HBLKSIZE)
         \<and> outer t = (outer s)\<lparr>GC_heapsize := GC_heapsize t, GC_heap_sects := GC_heap_sects t,
             GC_collect_at_heapsize := GC_collect_at_heapsize t, GC_least_plausible_heap_addr := GC_least_plausible_heap_addr t,
             GC_greatest_plausible_heap_addr := GC_greatest_plausible_heap_addr t\<rparr>)"
proof -
  obtain t L' where t: "GC_add_to_heap p (m * HBLKSIZE) s = Some t" "heap_inv L' t" "used (hm0 t) = used (hm0 s)"
    "free_area (hm0 t) = free_area (hm0 s) \<union> {max 2 p..<p + m}"
    "GC_large_free_bytes t = GC_large_free_bytes s + (p + m - max 2 p) * HBLKSIZE"
    "if p + m \<le> 2 then t = s else extended (max 2 p) (p + m - max 2 p) s t"
    by (rule add_to_heap_any [OF assms(1-6)]) (rule that)
  note t = t(1-3) t(4-6) [folded b_def, folded q_def]
  have e: "b = (p + m - q) * HBLKSIZE" by (simp add: b_def q_def)
  show ?thesis
  proof (cases "p + m \<le> 2")
    case True
    then show ?thesis using t by auto
  next
    case False
    then have "q + (p + m - q) = p + m" using assms(3) by (simp add: q_def)
    then show ?thesis using False t unfolding e extended_def by auto
  qed
qed

theorem add_to_heap_extends_witness:
  "\<exists>s t L'. GC_init_headers (gc_variables heap_mem) = Some s \<and> GC_add_to_heap 1 (7 * HBLKSIZE) s = Some t \<and> heap_inv L' t
    \<and> free_area (hm0 t) = {2..<8} \<and> GC_large_free_bytes t = 6 * HBLKSIZE"
proof -
  obtain s where s: "GC_init_headers (gc_variables heap_mem) = Some s" "heap_inv (\<lambda>_. []) s" "cfg s = cfg (gc_variables heap_mem)"
    "hm0 s = Map.empty" "GC_heap_sects s = []" "scratch s = heap_mem"
    by (rule init_headers_inv [of heap_mem]) (use heap_mem in auto)
  have nf: "never_fails s" using s(6) by (simp add: never_fails_def)
  have o: "{max 2 1..<1 + 7} \<inter> occupied (hm0 s) = {}" using s(4) by (simp add: occupied_def)
  have l: "length (GC_heap_sects s) < MAX_HEAP_SECTS" using s(5) by (simp add: MAX_HEAP_SECTS_def)
  have g: "GC_large_free_bytes s = 0" using heap_invD(7) [OF s(2)] by (simp add: free_total_def)
  have f: "free_area (hm0 s) = {}" using s(4) by (simp add: free_area_def)
  have "0 < (7 :: nat)" "1 + 7 \<le> (2 :: nat) ^ 51" by simp_all
  note add_to_heap_extends [OF s(2) nf this o l]
  then show ?thesis using s(1) unfolding f g by auto
qed

section \<open>Witnesses for the search of blocks\<close>

theorem interior_pointer_header_witness:
  "\<exists>h t. GC_header_cache_miss ((fst demo_alloc + 2) * HBLKSIZE + 100) (snd demo_alloc) = Some ((h, False), t)
     \<and> ent (snd demo_alloc) (fst demo_alloc) = Hdr h"
proof -
  obtain L r s K where d: "demo_alloc = (r, s)" "heap_inv L s" "cfg s = cfg (gc_variables heap_mem)" "hm s r = Some K"
    "set_up r 10000 2 0 K" "span K = 3" by (rule demo_object)
  note i = heap_invD(1,2) [OF d(2)]
  have ai: "GC_all_interior_pointers s" using cfgD(4) [OF d(3)] by (simp add: gc_variables_def)
  obtain k where k: "ent s r = Hdr k" "hdrs s k = Some K" using hm_hdr [OF i(1) d(4)] by blast
  have K: "\<not> HBLK_IS_FREE K" "hb_sz K = 10000" using d(5) by (simp_all add: set_up_def)
  let ?a = "(r + 2) * HBLKSIZE + 100"
  have dv: "?a div HBLKSIZE = r + 2" by (simp add: add.commute)
  have flag: "hb_flags K AND IGNORE_OFF_PAGE = 0" using d(5) by (simp add: set_up_def)
  obtain p t where t: "GC_header_cache_miss ?a s = Some (p, t)"
    "\<forall>q h H. ent s q = Hdr h \<and> hdrs s h = Some H \<and> \<not> HBLK_IS_FREE H \<and> q \<le> ?a div HBLKSIZE \<and> ?a div HBLKSIZE < q + span H \<longrightarrow>
         p = (if ?a div HBLKSIZE = q then (h, True)
              else if hb_flags H AND IGNORE_OFF_PAGE = 0 \<and> ?a < q * HBLKSIZE + hb_sz H then (h, False) else (0, False))"
    using interior_pointer_header [OF layout_of [OF i] ai, of ?a] by (elim exE conjE) (rule that, assumption, blast)
  have "ent s r = Hdr k \<and> hdrs s k = Some K \<and> \<not> HBLK_IS_FREE K \<and> r \<le> ?a div HBLKSIZE \<and> ?a div HBLKSIZE < r + span K"
    using k K d(6) unfolding dv by simp
  from t(2) [rule_format, OF this] have "p = (k, False)" using flag K(2) unfolding dv by simp
  then show ?thesis using t(1) k(1) unfolding d(1) by auto
qed

theorem prev_block_is_last_witness: "\<exists>r. GC_prev_block 1000 demo_gc = Some r \<and> r \<le> 1000 \<and> (has_hdr demo_gc r \<or> r = 0)"
proof -
  obtain L where L: "heap_inv L demo_gc" by (rule demo_heap)
  show ?thesis using prev_block_is_last [OF layout_of [OF heap_invD(1,2) [OF L]], of 1000] by blast
qed

text \<open>The block 5 is black listed: of the 8 blocks from 3 on, the first that may be used is 6.\<close>

definition one_black :: gc where
  "one_black = (gc_variables heap_mem)\<lparr>GC_old_stack_bl := set_pht_entry_from_index (\<lambda>_. 0) (PHT_HASH 5)\<rparr>"

lemma one_black: "p < 16 \<Longrightarrow> black one_black p \<longleftrightarrow> p = 5"
  by (simp add: one_black_def gc_variables_def black_def get_pht_bit [symmetric] get_set_pht)
     (auto simp: PHT_HASH_def get_pht_bit)

theorem black_list_search_witness: "GC_is_black_listed 3 (8 * HBLKSIZE) one_black = 6"
proof -
  have a: "GC_all_interior_pointers one_black" by (simp add: one_black_def gc_variables_def)
  have n: "divHBLKSZ (8 * HBLKSIZE) = 8" by (simp add: divHBLKSZ_def)
  have "\<exists>p. 3 \<le> p \<and> p < 3 + (8 :: nat) \<and> black one_black p" using one_black [of 5] by (intro exI [of _ 5]) simp
  then obtain p where "GC_is_black_listed 3 (8 * HBLKSIZE) one_black = p + 1" "p < 11" "black one_black p"
    using black_list_search [OF a, of "8 * HBLKSIZE" 3] unfolding n by auto
  then show ?thesis using one_black [of p] by simp
qed

end
