(* ===== verification/Spec2Isabelle.thy ===== *)
theory Spec2Isabelle
  imports Mangle EtaMain EtaCurses GcRun
begin

text \<open>
  A verification development for the run-time system of the Eta compiler (the C code under
  \<open>src/runtime\<close>) and for the symbol names on which compiler and run-time system agree.

  \<^bold>\<open>The program.\<close> A compiled Eta program is linked with the runtime library \<open>libeta\<close>: its entry
  point, the operations on arrays and strings, and the modules for input and output, conversion,
  assertions, timers and the terminal screen. The screen module is a thin layer over the library
  ncurses, whose window functions draw on cells in memory, whose refresh copies the changed cells to
  the virtual screen, and whose input functions turn the bytes of the terminal into keys and lines.
  The memory of the program comes from a garbage collector, which gets blocks of 4096 bytes from its
  block allocator. The tool \<open>etafilt\<close> turns the symbol names of the compiler back into signatures.

  \<^bold>\<open>Theories.\<close> Names of functions are those of the code. Paths are below \<open>src/runtime\<close>.

  \<^item> \<open>Prelude\<close>: results that may be a fault (\<open>fault + 'a\<close>), computations in \<open>option\<close>, where \<open>None\<close> is
    a fault or not returning, loops that count, and the integer conversions of C.
  \<^item> \<open>Decimal\<close>, \<open>Demangle\<close>, \<open>Mangle\<close>: decimal numerals; the filter \<open>demangle/demangle.c\<close>; and
    the compiler's \<open>IRTranslator.kt\<close> and \<open>EtaType.kt\<close> as far as they make symbol names.
  \<^item> \<open>EtaHeap\<close>, \<open>EtaConv\<close>, \<open>EtaIO\<close>, \<open>EtaMain\<close>: \<open>libeta/libeta.c\<close> by its modules, with the
    programs of \<open>examples\<close>. The heap is a map of blocks of words, and arrays are pointers past a length word.
  \<^item> \<open>EtaCurses\<close>: \<open>libeta/curses.c\<close>, the screen module, as calls of the window functions below.
  \<^item> \<open>WinState\<close>: the state \<open>nc\<close> of ncurses: the windows (\<open>WINDOW\<close>), whose lines point to rows of cells in
    a store that derived windows share with their parents, the special windows, and the input state.
    The lattice of change marks is an instance of \<open>semilattice_sup\<close>.
  \<^item> \<open>WinSync\<close>, \<open>WinCells\<close>, \<open>WinShow\<close>: marks of changes and their propagation between derived windows
    (\<open>lib_touch.c\<close>, \<open>lib_window.c\<close>), the cells as a function, and refreshing (\<open>lib_refresh.c\<close>). \<open>synced\<close>
    says that each cell which differs from the virtual screen is marked.
  \<^item> \<open>WinText\<close>, \<open>WinEdit\<close>, \<open>WinScroll\<close>, \<open>WinAttr\<close>: the drawing functions (\<open>lib_addch.c\<close>,
    \<open>lib_addstr.c\<close>; \<open>lib_delch.c\<close>, \<open>lib_insch.c\<close>, \<open>lib_insnstr.c\<close>, \<open>lib_insdel.c\<close>, \<open>lib_hline.c\<close>, \<open>lib_vline.c\<close>,
    \<open>lib_box.c\<close>; \<open>lib_scroll.c\<close>, \<open>lib_clreol.c\<close>, \<open>lib_clrbot.c\<close>, \<open>lib_erase.c\<close>, \<open>lib_clear.c\<close>; attributes, background
    and reading back).
  \<^item> \<open>WinSession\<close>, \<open>WinCreate\<close>: programs of drawing calls and refreshes, and also of making,
    deriving, copying, moving and deleting windows (\<open>lib_newwin.c\<close>, \<open>lib_delwin.c\<close>, \<open>lib_mvwin.c\<close>,
    \<open>lib_window.c\<close>, \<open>lib_pad.c\<close>). \<open>WinDemo\<close> is the small screen of the examples.
  \<^item> \<open>TermModes\<close>, \<open>KeyTries\<close>, \<open>KeyQueue\<close>, \<open>WinInput\<close>, \<open>WinLines\<close>: the modes of the terminal, the
    tree of function keys, the circular queue of input, reading characters, and reading lines
    (\<open>lib_raw.c\<close>, \<open>lib_ttyflags.c\<close>, \<open>add_tries.c\<close>, \<open>tries.c\<close>, \<open>fifo_defs.h\<close>, \<open>lib_getch.c\<close>, \<open>lib_getstr.c\<close> and others).
  \<^item> \<open>GcIndex\<close>, \<open>GcBlack\<close>, \<open>GcSearch\<close>, \<open>GcBlocks\<close>: the collector's header index (\<open>gc-7.6.4/headers.c\<close>), its
    black lists (\<open>blacklst.c\<close>), the searches in the index, and the block allocator (\<open>allchblk.c\<close>, with
    \<open>GC_add_to_heap\<close>, \<open>GC_add_map_entry\<close> and \<open>GC_clear_hdr_marks\<close>).
  \<^item> \<open>GcLists\<close>, \<open>GcHeap\<close>, \<open>GcAlloc\<close>, \<open>GcRun\<close>: what these operations do to the heap as a map from blocks
    to headers, and all of them together. \<open>BlockHeap\<close> is the allocator as its callers see it.

  \<^bold>\<open>Interfaces.\<close> \<open>prefix_parser\<close> and \<open>filter_loop\<close> are what the filter asks of the functions that
  recognise a symbol. \<open>array_source\<close> is what the runtime library promises of a function that returns
  a fresh string, and is interpreted on \<open>mkString\<close> and \<open>unparseInt\<close>. \<open>window_op\<close> is the contract of all
  drawing functions (they return, keep the invariant, touch no window of another tree, and leave every
  difference from the virtual screen marked); each drawing function interprets it, and a call of any of them does,
  so that sequences are proved by one induction. \<open>key_queue\<close> is a double-ended queue, interpreted on the
  circular array. \<open>block_heap\<close> is an allocator of blocks, interpreted on \<open>GC_allochblk\<close> and \<open>GC_freehblk\<close>.

  \<^bold>\<open>What is shown.\<close>
  \<^item> The filter neither faults nor runs on for inputs without a broken record name, leaves texts without
    symbols alone, and turns each symbol that the compiler makes into the signature it stands for, if no
    record name has an underscore. A record name overruns the line exactly if it is announced too long.
  \<^item> Numbers and strings of the runtime library survive being written and read; the functions do
    what their interfaces say, on every branch, or the theorem states where they do not.
  \<^item> An ordinary window that is drawn on by admissible calls and refreshed is on the virtual screen cell by cell;
    no sequence of calls uses a cell that was freed; derived windows show the cells of their parents; each drawing
    function has the contents it leaves. Admissible are the calls of \<open>call_ok\<close>; in sequences of calls only
    windows that are not derived are refreshed, as the invariant does not survive other refreshes.
  \<^item> The line editor is the function \<open>edit_line\<close> on the typed bytes; a key is recognised, and what only begins
    like one is given back byte by byte; reading a key ends; the modes of the terminal agree with what curses
    believes of them.
  \<^item> The index of the collector is a map from blocks to headers. In every state that the allocator
    reaches the blocks do not overlap, the free lists hold just the free blocks, no two of them are
    adjacent, and the counts are right. Allocation and deallocation change what they should and nothing
    else, always return, and find a block when there is one. All this is shown as long as \<open>GC_scratch_alloc\<close>
    gets memory for headers and indices; \<open>first_part_drops_block\<close> shows what happens when it does not.

  \<^bold>\<open>Loops.\<close> Most loops are structural recursion, or recursion with a measure. \<open>wsyncup\<close> and \<open>wsyncdown\<close> follow the
  parents of a window with the number of windows as fuel, which is enough as the parents of a window
  are older than it. Loops that follow links in the state (hash chains and free lists of the collector), or wait for
  input, are \<open>partial_function\<close>: not ending is \<open>None\<close>, and the theorems show that they return.

  \<^bold>\<open>Parameters.\<close> Drawing takes the function \<open>doupdate\<close> (argument \<open>du\<close>), which sends the virtual screen to
  the terminal; refreshes call it, and drawing on a window in immediate mode does. The screen module takes
  \<open>initscr\<close> and \<open>endwin\<close>. The limits of memory are in the states: \<open>calloc_max\<close> for curses, \<open>scratch\<close> for the
  memory that \<open>GC_scratch_alloc\<close> may get, \<open>None\<close> if there is none. \<open>GC_should_collect\<close> is an argument of the
  allocator. The bytes of the terminal are a list, with the time that passes before each.

  \<^bold>\<open>Bounds.\<close> Other failures of memory allocation than those of these limits are not modelled: \<open>malloc\<close> and \<open>strdup\<close>
  of the filter and \<open>calloc\<close> of \<open>_nc_expand_try\<close> succeed, and \<open>calloc\<close> of a window fails by the size of the request only.
  The heap of the collector lies below the address \<open>2 ^ 63\<close>. The input of the terminal ends after its last byte.

  \<^bold>\<open>The build that is modelled.\<close> ncurses with narrow characters, one colour pair for each cell, termios, no mouse and no
  signals. The collector on a 64-bit machine with a hashed index, mark bytes for granules, interior pointers, no unmapping, no
  assertions, and the incremental mode off. Blocks are numbered by their addresses divided by 4096, and sizes stay
  natural numbers, with the wrap-around of 64 bits written out where the code looks for it.

  \<^bold>\<open>Not modelled.\<close> Marking, sweeping, finalization, threads and the system interface of the collector: they
  scan registers, stacks and data segments. The contents of the collector's heap. The optimisation of the output to the
  terminal (\<open>doupdate\<close> and \<open>tty_update.c\<close>), the compiler and reader of terminal descriptions, the
  libraries for panels, menus and forms, and the wide-character functions of ncurses, which the runtime library does not
  call. The Qt bindings, which only pass values on to a graphics library. The compiler, apart from the symbol names.
\<close>

end
